(* ===== verification/Prelude.thy ===== *)
theory Prelude
  imports Main "HOL-Library.Word" "HOL-Library.List_Lexorder" "HOL-Library.Char_ord"
begin

text \<open>
  Shared vocabulary of the Relite development: the byte strings the engine stores
  (\<open>std::string\<close> and \<open>char[]\<close> are sequences of 8-bit characters, so both are
  \<open>char list\<close> here), the fixed-width integers, the flat memory a page lives in, and
  little-endian encodings with their round trips. The collections \<open>mem_simps\<close> (reads
  after writes) and \<open>enc_simps\<close> (encodings) carry the proofs of the storage theories.
\<close>

named_theorems mem_simps "reads of a memory after a write"
named_theorems enc_simps "round trips and lengths of byte encodings"

type_synonym bytes = "char list"
type_synonym i64 = "64 word"
type_synonym u64 = "64 word"
type_synonym u32 = "32 word"
type_synonym u16 = "16 word"

section \<open>Little-endian encodings\<close>

text \<open>
  \<open>memcpy\<close> of an integer to a byte buffer on the little-endian targets the engine is
  built for, and the explicit shift loops of \<open>disk_bplus_tree.cpp\<close> and
  \<open>optimizer.cpp\<close>, produce the same bytes: the value's base-256 digits, lowest first.
\<close>

fun le_bytes :: "nat \<Rightarrow> nat \<Rightarrow> bytes" where
  "le_bytes 0 v = []"
| "le_bytes (Suc n) v = char_of (v mod 256) # le_bytes n (v div 256)"

fun of_le :: "bytes \<Rightarrow> nat" where
  "of_le [] = 0"
| "of_le (c # cs) = of_char c + 256 * of_le cs"

lemma length_le_bytes [simp, enc_simps]: "length (le_bytes n v) = n"
  by (induction n arbitrary: v) auto

lemma of_le_le_bytes: "of_le (le_bytes n v) = v mod 256 ^ n"
proof (induction n arbitrary: v)
  case 0
  then show ?case by simp
next
  case (Suc n)
  then show ?case by (simp add: mod_mult2_eq)
qed

lemma of_le_le_bytes_id [simp, enc_simps]: "v < 256 ^ n \<Longrightarrow> of_le (le_bytes n v) = v"
  by (simp add: of_le_le_bytes)

lemma of_char_nat_bound [simp]: "(of_char c :: nat) < 256"
proof -
  have "(of_char c :: nat) = of_char c mod 256" by simp
  then show ?thesis by (metis mod_less_divisor zero_less_numeral)
qed

lemma of_le_bound: "of_le bs < 256 ^ length bs"
proof (induction bs)
  case Nil
  then show ?case by simp
next
  case (Cons c cs)
  have "(of_char c :: nat) < 256" by simp
  then show ?case using Cons.IH by (simp del: of_char_nat_bound)
qed

lemma le_bytes_of_le [simp, enc_simps]: "length bs = n \<Longrightarrow> le_bytes n (of_le bs) = bs"
proof (induction bs arbitrary: n)
  case Nil
  then show ?case by simp
next
  case (Cons c cs)
  have "(of_char c :: nat) < 256" by simp
  then show ?case using Cons by (cases n) auto
qed

text \<open>Words of a whole number of bytes, written and read back.\<close>

definition enc_word :: "'a::len word \<Rightarrow> bytes" where
  "enc_word w = le_bytes (LENGTH('a) div 8) (unat w)"

definition dec_word :: "bytes \<Rightarrow> 'a::len word" where
  "dec_word bs = word_of_nat (of_le bs)"

lemma length_enc_u64 [simp, enc_simps]: "length (enc_word (w :: 64 word)) = 8"
  by (simp add: enc_word_def)

lemma length_enc_u32 [simp, enc_simps]: "length (enc_word (w :: 32 word)) = 4"
  by (simp add: enc_word_def)

lemma length_enc_u16 [simp, enc_simps]: "length (enc_word (w :: 16 word)) = 2"
  by (simp add: enc_word_def)

lemma dec_enc_word:
  assumes "8 dvd LENGTH('a)"
  shows "dec_word (enc_word (w :: 'a::len word)) = w"
proof -
  from assms obtain k where k: "LENGTH('a) = 8 * k" by blast
  have "unat w < 2 ^ LENGTH('a)" by (rule unsigned_less)
  also have "(2::nat) ^ LENGTH('a) = 256 ^ (LENGTH('a) div 8)"
    by (simp add: k power_mult)
  finally show ?thesis by (simp add: dec_word_def enc_word_def)
qed

lemma dec_enc_u64 [simp, enc_simps]: "dec_word (enc_word (w :: 64 word)) = w"
  by (rule dec_enc_word) simp

lemma dec_enc_u32 [simp, enc_simps]: "dec_word (enc_word (w :: 32 word)) = w"
  by (rule dec_enc_word) simp

lemma dec_enc_u16 [simp, enc_simps]: "dec_word (enc_word (w :: 16 word)) = w"
  by (rule dec_enc_word) simp

section \<open>Flat memory\<close>

text \<open>
  A page's \<open>char bytes_[PAGE_SIZE]\<close> is a memory read and written at byte offsets. The
  memory is a total function, so a write past the end of the array changes an address at or
  above the array's size: that no operation does so is a theorem about them, not an
  assumption of the model.
\<close>

type_synonym mem = "nat \<Rightarrow> char"

definition mread :: "mem \<Rightarrow> nat \<Rightarrow> nat \<Rightarrow> bytes" where
  "mread m off n = map (\<lambda>i. m (off + i)) [0..<n]"

definition mwrite :: "mem \<Rightarrow> nat \<Rightarrow> bytes \<Rightarrow> mem" where
  "mwrite m off bs =
     (\<lambda>i. if off \<le> i \<and> i < off + length bs then bs ! (i - off) else m i)"

lemma length_mread [simp]: "length (mread m off n) = n"
  by (simp add: mread_def)

lemma mread_0 [simp]: "mread m off 0 = []"
  by (simp add: mread_def)

lemma mread_mwrite_same [mem_simps]: "n = length bs \<Longrightarrow> mread (mwrite m off bs) off n = bs"
  by (auto simp: mread_def mwrite_def intro: nth_equalityI)

lemma mread_mwrite_disjoint [mem_simps]:
  "r + n \<le> off \<or> off + length bs \<le> r \<Longrightarrow> mread (mwrite m off bs) r n = mread m r n"
  by (auto simp: mread_def mwrite_def)

lemma mwrite_Nil [simp]: "mwrite m off [] = m"
  by (rule ext) (auto simp: mwrite_def)

lemma mwrite_outside: "i < off \<or> off + length bs \<le> i \<Longrightarrow> mwrite m off bs i = m i"
  by (auto simp: mwrite_def)

lemma mwrite_twice [mem_simps]:
  "length bs = length cs \<Longrightarrow> mwrite (mwrite m off bs) off cs = mwrite m off cs"
  by (auto simp: mwrite_def)

lemma mwrite_mread_id [mem_simps]: "mread m off (length bs) = bs \<Longrightarrow> mwrite m off bs = m"
proof
  fix i
  assume eq: "mread m off (length bs) = bs"
  show "mwrite m off bs i = m i"
  proof (cases "off \<le> i \<and> i < off + length bs")
    case True
    then have "bs ! (i - off) = mread m off (length bs) ! (i - off)" using eq by simp
    also have "\<dots> = m i" using True by (simp add: mread_def less_diff_conv2)
    finally show ?thesis using True by (simp add: mwrite_def)
  next
    case False
    then show ?thesis by (auto simp: mwrite_def)
  qed
qed

section \<open>Lists and options\<close>

text \<open>\<open>Option.bind\<close> under a name the definitions read well with.\<close>

abbreviation obind :: "'a option \<Rightarrow> ('a \<Rightarrow> 'b option) \<Rightarrow> 'b option" where
  "obind \<equiv> Option.bind"

lemma sum_list_map_upt_Suc [simp]:
  "(\<Sum>s\<leftarrow>[0..<Suc n]. f s) = (\<Sum>s\<leftarrow>[0..<n]. f s) + (f n :: 'a::comm_monoid_add)"
  by simp

lemma sum_list_map_cong_upt:
  "(\<And>s. s < n \<Longrightarrow> f s = g s) \<Longrightarrow> (\<Sum>s\<leftarrow>[0..<n]. f s) = (\<Sum>s\<leftarrow>[0..<n]. (g s :: nat))"
  by (rule arg_cong [where f = sum_list]) simp

lemma filter_upt_Suc:
  "filter P [0..<Suc n] = filter P [0..<n] @ (if P n then [n] else [])"
  by simp

text \<open>A loop that pushes onto the end of a vector is a map.\<close>

lemma foldl_snoc_map: "foldl (\<lambda>acc x. acc @ [f x]) acc xs = acc @ map f xs"
  by (induction xs arbitrary: acc) auto

lemma foldl_snoc_filter:
  "foldl (\<lambda>acc x. if P x then acc @ [x] else acc) acc xs = acc @ filter P xs"
  by (induction xs arbitrary: acc) auto

end
