(* ===== verification/Bags.thy ===== *)
theory Bags
  imports "HOL-Library.Multiset"
begin

text \<open>
  The values of a finite map as a multiset: the rows of a table without the identifiers they
  are stored under, which is what a user sees of them.
\<close>

section \<open>The values of a finite map\<close>

definition map_bag :: "('a \<Rightarrow> 'b option) \<Rightarrow> 'b multiset" where
  "map_bag m = image_mset (\<lambda>r. the (m r)) (mset_set (dom m))"

lemma map_bag_cong: "(\<And>r. m r = n r) \<Longrightarrow> map_bag m = map_bag n"
  by (metis ext)

lemma map_bag_add:
  assumes "finite (dom m)" "m r = None"
  shows "map_bag (m(r \<mapsto> b)) = add_mset b (map_bag m)"
proof -
  have "r \<notin> dom m" using assms(2) by blast
  moreover have "image_mset (\<lambda>q. the ((m(r \<mapsto> b)) q)) (mset_set (dom m)) = map_bag m"
    unfolding map_bag_def using assms by (intro image_mset_cong) auto
  ultimately show ?thesis using assms(1) by (simp add: map_bag_def)
qed

lemma map_bag_del:
  assumes "finite (dom m)" "m r = Some b"
  shows "map_bag m = add_mset b (map_bag (m(r := None)))"
proof -
  have "map_bag ((m(r := None))(r \<mapsto> b)) = add_mset b (map_bag (m(r := None)))"
    using assms by (intro map_bag_add) auto
  moreover have "(m(r := None))(r \<mapsto> b) = m" using assms(2) by auto
  ultimately show ?thesis by simp
qed

text \<open>The rows of a list without duplicate keys, as a multiset.\<close>

lemma mset_rows:
  assumes "distinct (map fst rows)"
  shows "mset (map snd rows) = map_bag (map_of rows)"
  using assms
proof (induction rows)
  case Nil
  then show ?case by (simp add: map_bag_def)
next
  case (Cons br rows)
  have "map_of rows (fst br) = None" using Cons.prems by (simp add: map_of_eq_None_iff)
  then have "map_bag ((map_of rows)(fst br \<mapsto> snd br)) = add_mset (snd br) (map_bag (map_of rows))"
    by (intro map_bag_add finite_dom_map_of)
  moreover have "map_of (br # rows) = (map_of rows)(fst br \<mapsto> snd br)"
    by (cases br) auto
  ultimately have "map_bag (map_of (br # rows)) = add_mset (snd br) (map_bag (map_of rows))" by metis
  moreover have "mset (map snd rows) = map_bag (map_of rows)" using Cons by simp
  ultimately show ?case by (metis list.simps(9) mset.simps(2))
qed

end
