(* ===== verification/Page.thy ===== *)
theory Page
  imports Prelude
begin

text \<open>
  The slotted page of \<open>src/backend/page.cpp\<close>: a 4096-byte memory with a 12-byte header
  (slot count, start of the record area, page LSN), a slot array growing up from the header
  and records growing down from the end. The definitions follow the code byte by byte;
  \<open>wf_page\<close> is the layout invariant, \<open>get\<close> the abstraction (a partial map from
  slots to records), and the theorems say what each operation does to that map.
\<close>

section \<open>Layout\<close>

definition PAGE_SIZE :: nat where "PAGE_SIZE = 4096"
definition HEADER_SIZE :: nat where "HEADER_SIZE = 12"
definition SLOT_SIZE :: nat where "SLOT_SIZE = 4"
definition LSN_OFFSET :: nat where "LSN_OFFSET = 4"

lemmas page_consts = PAGE_SIZE_def HEADER_SIZE_def SLOT_SIZE_def LSN_OFFSET_def

type_synonym page = mem

definition memset :: "page \<Rightarrow> nat \<Rightarrow> char \<Rightarrow> nat \<Rightarrow> page" where
  "memset m off c n = (\<lambda>i. if off \<le> i \<and> i < off + n then c else m i)"

definition readU16 :: "page \<Rightarrow> nat \<Rightarrow> nat" where
  "readU16 p off = of_le (mread p off 2)"

definition writeU16 :: "page \<Rightarrow> nat \<Rightarrow> nat \<Rightarrow> page" where
  "writeU16 p off v = mwrite p off (le_bytes 2 v)"

definition readU64 :: "page \<Rightarrow> nat \<Rightarrow> nat" where
  "readU64 p off = of_le (mread p off 8)"

definition writeU64 :: "page \<Rightarrow> nat \<Rightarrow> nat \<Rightarrow> page" where
  "writeU64 p off v = mwrite p off (le_bytes 8 v)"

text \<open>\<open>static_cast<std::uint16_t>\<close> of an \<open>int\<close>.\<close>

definition u16_of_int :: "int \<Rightarrow> nat" where
  "u16_of_int x = nat (x mod 65536)"

definition page_init :: "page \<Rightarrow> page" where
  "page_init p = (let p = memset p 0 (char_of (0::nat)) PAGE_SIZE;
                 p = writeU16 p 0 0
             in writeU16 p 2 PAGE_SIZE)"

definition pageLSN :: "page \<Rightarrow> nat" where
  "pageLSN p = readU64 p LSN_OFFSET"

definition setPageLSN :: "page \<Rightarrow> nat \<Rightarrow> page" where
  "setPageLSN p lsn = writeU64 p LSN_OFFSET lsn"

text \<open>
  Slots are \<open>int\<close>s in the code; every caller but the loops of the class guards them, and
  the address of slot \<open>s\<close> is \<open>HEADER_SIZE + s * SLOT_SIZE\<close>.
\<close>

definition slot_base :: "int \<Rightarrow> nat" where
  "slot_base slot = nat (int HEADER_SIZE + slot * int SLOT_SIZE)"

definition slotAt :: "page \<Rightarrow> int \<Rightarrow> nat \<times> nat" where
  "slotAt p slot = (let base = slot_base slot in (readU16 p base, readU16 p (base + 2)))"

definition setSlot :: "page \<Rightarrow> int \<Rightarrow> nat \<Rightarrow> nat \<Rightarrow> page" where
  "setSlot p slot offset len =
     (let base = slot_base slot in writeU16 (writeU16 p base offset) (base + 2) len)"

definition slotCount :: "page \<Rightarrow> nat" where
  "slotCount p = readU16 p 0"

definition freeEnd :: "page \<Rightarrow> nat" where
  "freeEnd p = readU16 p 2"

definition freeSpace :: "page \<Rightarrow> int" where
  "freeSpace p =
     (let freeStart = int HEADER_SIZE + int (slotCount p) * int SLOT_SIZE
      in int (readU16 p 2) - freeStart)"

definition isLive :: "page \<Rightarrow> int \<Rightarrow> bool" where
  "isLive p slot =
     (if slot < 0 \<or> slot \<ge> int (slotCount p) then False
      else (case slotAt p slot of (offset, len) \<Rightarrow> len \<noteq> 0))"

section \<open>Operations\<close>

definition usableSpace :: "page \<Rightarrow> int" where
  "usableSpace p =
     (let count = slotCount p;
          liveBytes = foldl (\<lambda>acc s. acc + int (snd (slotAt p (int s)))) 0 [0..<count];
          slotArrayEnd = int HEADER_SIZE + int count * int SLOT_SIZE
      in int PAGE_SIZE - slotArrayEnd - liveBytes)"

definition freeBytes :: "page \<Rightarrow> int" where
  "freeBytes p = usableSpace p"

definition live_records :: "page \<Rightarrow> (int \<times> bytes) list" where
  "live_records p =
     foldl (\<lambda>live s. case slotAt p (int s) of (offset, len) \<Rightarrow>
              if len = 0 then live else live @ [(int s, mread p offset len)])
       [] [0..<slotCount p]"

definition compact_step :: "page \<times> nat \<Rightarrow> int \<times> bytes \<Rightarrow> page \<times> nat" where
  "compact_step st rec =
     (case st of (p, fe) \<Rightarrow> case rec of (slot, data) \<Rightarrow>
       let fe = u16_of_int (int fe - int (length data));
           p = mwrite p fe data;
           p = setSlot p slot fe (u16_of_int (int (length data)))
       in (p, fe))"

definition compact :: "page \<Rightarrow> page" where
  "compact p =
     (case foldl compact_step (p, u16_of_int (int PAGE_SIZE)) (live_records p) of
        (p, fe) \<Rightarrow> writeU16 p 2 fe)"

text \<open>\<open>bool insert(record, outSlot)\<close>: \<open>None\<close> when the code returns false.\<close>

definition page_insert :: "page \<Rightarrow> bytes \<Rightarrow> (page \<times> int) option" where
  "page_insert p record =
     (let need = int (length record) in
      if need = 0 \<or> need > 65535 then None
      else if freeSpace p < need + int SLOT_SIZE \<and> usableSpace p < need + int SLOT_SIZE
      then None
      else
        let p = (if freeSpace p < need + int SLOT_SIZE then compact p else p);
            count = slotCount p;
            dataOffset = u16_of_int (int (readU16 p 2) - need);
            p = mwrite p dataOffset record;
            p = setSlot p (int count) dataOffset (u16_of_int need);
            p = writeU16 p 0 (u16_of_int (int count + 1));
            p = writeU16 p 2 dataOffset
        in Some (p, int count))"

definition page_get :: "page \<Rightarrow> int \<Rightarrow> bytes option" where
  "page_get p slot =
     (if \<not> isLive p slot then None
      else case slotAt p slot of (offset, len) \<Rightarrow> Some (mread p offset len))"

definition page_erase :: "page \<Rightarrow> int \<Rightarrow> page option" where
  "page_erase p slot =
     (if \<not> isLive p slot then None
      else case slotAt p slot of (offset, len) \<Rightarrow> Some (setSlot p slot offset 0))"

definition page_update :: "page \<Rightarrow> int \<Rightarrow> bytes \<Rightarrow> page option" where
  "page_update p slot record =
     (if \<not> isLive p slot then None
      else case slotAt p slot of (offset, len) \<Rightarrow>
        let need = length record in
        if need = 0 \<or> need > len then None
        else Some (setSlot (mwrite p offset record) slot offset (u16_of_int (int need))))"

text \<open>
  The loop of \<open>redoSet\<close> that extends the slot array, with dead slots, up to the slot to
  be written.
\<close>

definition extendSlots :: "page \<Rightarrow> int \<Rightarrow> page" where
  "extendSlots p slot =
     (let count = int (slotCount p) in
      if slot \<ge> count
      then writeU16 (foldl (\<lambda>p s. setSlot p s 0 0) p [count..slot]) 0 (u16_of_int (slot + 1))
      else p)"

text \<open>
  \<open>redoSet\<close> and \<open>redoClear\<close> may initialise a page that was never written before they
  look at anything else, so they return the page together with the boolean.
\<close>

definition redoSet :: "page \<Rightarrow> int \<Rightarrow> bytes \<Rightarrow> nat \<Rightarrow> page \<times> bool" where
  "redoSet p slot record lsn =
     (let p = (if readU16 p 2 < HEADER_SIZE then page_init p else p) in
      if lsn \<noteq> 0 \<and> pageLSN p \<ge> lsn then (p, True)
      else if page_get p slot = Some record
      then ((if lsn \<noteq> 0 then setPageLSN p lsn else p), True)
      else
        let need = int (length record) in
        if need = 0 \<or> need > 65535 then (p, False)
        else
          let p = extendSlots p slot
          in if freeSpace p < need \<and> usableSpace p < need then (p, False)
          else
            let p = (if freeSpace p < need then compact p else p);
                dataOffset = u16_of_int (int (readU16 p 2) - need);
                p = mwrite p dataOffset record;
                p = setSlot p slot dataOffset (u16_of_int need);
                p = writeU16 p 2 dataOffset;
                p = (if lsn \<noteq> 0 then setPageLSN p lsn else p)
            in (p, True))"

definition redoClear :: "page \<Rightarrow> int \<Rightarrow> nat \<Rightarrow> page" where
  "redoClear p slot lsn =
     (let p = (if readU16 p 2 < HEADER_SIZE then page_init p else p) in
      if lsn \<noteq> 0 \<and> pageLSN p \<ge> lsn then p
      else
        let p = (if slot \<ge> 0 \<and> slot < int (slotCount p)
                 then (case slotAt p slot of (offset, len) \<Rightarrow> setSlot p slot offset 0)
                 else p)
        in if lsn \<noteq> 0 then setPageLSN p lsn else p)"


section \<open>Reading fields back\<close>

text \<open>Slots as natural numbers: what every guarded access of the code comes to.\<close>

definition slot_off :: "page \<Rightarrow> nat \<Rightarrow> nat" where
  "slot_off p s = readU16 p (12 + 4 * s)"

definition slot_len :: "page \<Rightarrow> nat \<Rightarrow> nat" where
  "slot_len p s = readU16 p (14 + 4 * s)"

lemma slot_base_int: "slot_base (int s) = 12 + 4 * s"
proof -
  have "int HEADER_SIZE + int s * int SLOT_SIZE = int (12 + 4 * s)"
    by (simp add: page_consts)
  then show ?thesis unfolding slot_base_def by (simp only: nat_int)
qed

lemma slotAt_int: "slotAt p (int s) = (slot_off p s, slot_len p s)"
  by (simp add: slotAt_def slot_base_int slot_off_def slot_len_def add.commute)

lemma readU16_bound: "readU16 p off < 65536"
proof -
  have "of_le (mread p off 2) < 256 ^ length (mread p off 2)" by (rule of_le_bound)
  then show ?thesis by (simp add: readU16_def)
qed

lemma readU64_bound: "readU64 p off < 2 ^ 64"
proof -
  have "of_le (mread p off 8) < 256 ^ length (mread p off 8)" by (rule of_le_bound)
  then show ?thesis by (simp add: readU64_def)
qed

lemma readU16_mwrite [mem_simps]:
  "r + 2 \<le> off \<or> off + length bs \<le> r \<Longrightarrow> readU16 (mwrite p off bs) r = readU16 p r"
  unfolding readU16_def by (subst mread_mwrite_disjoint) auto

lemma readU64_mwrite [mem_simps]:
  "r + 8 \<le> off \<or> off + length bs \<le> r \<Longrightarrow> readU64 (mwrite p off bs) r = readU64 p r"
  unfolding readU64_def by (subst mread_mwrite_disjoint) auto

lemma readU16_writeU16_same: "readU16 (writeU16 p off v) off = v mod 65536"
proof -
  have "mread (mwrite p off (le_bytes 2 v)) off 2 = le_bytes 2 v"
    by (rule mread_mwrite_same) simp
  then show ?thesis by (simp add: readU16_def writeU16_def of_le_le_bytes)
qed

lemma readU16_writeU16_same_small [mem_simps]:
  "v < 65536 \<Longrightarrow> readU16 (writeU16 p off v) off = v"
  by (simp add: readU16_writeU16_same)

lemma readU16_writeU16_disjoint [mem_simps]:
  "r + 2 \<le> off \<or> off + 2 \<le> r \<Longrightarrow> readU16 (writeU16 p off v) r = readU16 p r"
  unfolding writeU16_def by (rule readU16_mwrite) simp

lemma readU64_writeU16 [mem_simps]:
  "r + 8 \<le> off \<or> off + 2 \<le> r \<Longrightarrow> readU64 (writeU16 p off v) r = readU64 p r"
  unfolding writeU16_def by (rule readU64_mwrite) simp

lemma readU16_writeU64 [mem_simps]:
  "r + 2 \<le> off \<or> off + 8 \<le> r \<Longrightarrow> readU16 (writeU64 p off v) r = readU16 p r"
  unfolding writeU64_def by (rule readU16_mwrite) simp

lemma readU64_writeU64_same [mem_simps]:
  "v < 2 ^ 64 \<Longrightarrow> readU64 (writeU64 p off v) off = v"
proof -
  assume v: "v < 2 ^ 64"
  have "mread (mwrite p off (le_bytes 8 v)) off 8 = le_bytes 8 v"
    by (rule mread_mwrite_same) simp
  then show ?thesis using v by (simp add: readU64_def writeU64_def of_le_le_bytes)
qed

lemma mread_writeU16 [mem_simps]:
  "r + n \<le> off \<or> off + 2 \<le> r \<Longrightarrow> mread (writeU16 p off v) r n = mread p r n"
  unfolding writeU16_def by (rule mread_mwrite_disjoint) simp

lemma mread_writeU64 [mem_simps]:
  "r + n \<le> off \<or> off + 8 \<le> r \<Longrightarrow> mread (writeU64 p off v) r n = mread p r n"
  unfolding writeU64_def by (rule mread_mwrite_disjoint) simp

lemma at_writeU16: "i < off \<or> off + 2 \<le> i \<Longrightarrow> writeU16 p off v i = p i"
  unfolding writeU16_def by (rule mwrite_outside) simp

lemma at_writeU64: "i < off \<or> off + 8 \<le> i \<Longrightarrow> writeU64 p off v i = p i"
  unfolding writeU64_def by (rule mwrite_outside) simp

text \<open>Writing one slot leaves every other field of the page alone.\<close>

lemma setSlot_int:
  "setSlot p (int s) offset len = writeU16 (writeU16 p (12 + 4 * s) offset) (14 + 4 * s) len"
  by (simp add: setSlot_def slot_base_int add.commute)

lemma slot_off_setSlot [mem_simps]:
  "offset < 65536 \<Longrightarrow>
   slot_off (setSlot p (int s) offset len) t = (if t = s then offset else slot_off p t)"
proof (cases "t < s \<or> s < t")
  case True
  then show ?thesis by (auto simp: setSlot_int slot_off_def mem_simps)
next
  case False
  then have "t = s" by simp
  moreover assume "offset < 65536"
  ultimately show ?thesis by (simp add: setSlot_int slot_off_def mem_simps)
qed

lemma slot_len_setSlot [mem_simps]:
  "len < 65536 \<Longrightarrow>
   slot_len (setSlot p (int s) offset len) t = (if t = s then len else slot_len p t)"
proof (cases "t < s \<or> s < t")
  case True
  then show ?thesis by (auto simp: setSlot_int slot_len_def mem_simps)
next
  case False
  then have "t = s" by simp
  moreover assume "len < 65536"
  ultimately show ?thesis by (simp add: setSlot_int slot_len_def mem_simps)
qed

lemma header_setSlot [mem_simps]:
  "slotCount (setSlot p (int s) offset len) = slotCount p"
  "freeEnd (setSlot p (int s) offset len) = freeEnd p"
  "pageLSN (setSlot p (int s) offset len) = pageLSN p"
  by (simp_all add: setSlot_int slotCount_def freeEnd_def pageLSN_def page_consts mem_simps)

lemma mread_setSlot [mem_simps]:
  "16 + 4 * s \<le> r \<Longrightarrow> mread (setSlot p (int s) offset len) r n = mread p r n"
  by (simp add: setSlot_int mem_simps)

lemma at_setSlot: "16 + 4 * s \<le> i \<Longrightarrow> setSlot p (int s) offset len i = p i"
  by (simp add: setSlot_int at_writeU16)

text \<open>Writing record bytes above the slot array leaves the header and the slots alone.\<close>

lemma header_mwrite [mem_simps]:
  "12 \<le> off \<Longrightarrow> slotCount (mwrite p off bs) = slotCount p"
  "12 \<le> off \<Longrightarrow> freeEnd (mwrite p off bs) = freeEnd p"
  "12 \<le> off \<Longrightarrow> pageLSN (mwrite p off bs) = pageLSN p"
  by (simp_all add: slotCount_def freeEnd_def pageLSN_def page_consts mem_simps)

lemma slot_mwrite [mem_simps]:
  "16 + 4 * s \<le> off \<Longrightarrow> slot_off (mwrite p off bs) s = slot_off p s"
  "16 + 4 * s \<le> off \<Longrightarrow> slot_len (mwrite p off bs) s = slot_len p s"
  by (simp_all add: slot_off_def slot_len_def mem_simps)

lemma header_writeU16 [mem_simps]:
  "slotCount (writeU16 p 2 v) = slotCount p"
  "pageLSN (writeU16 p 2 v) = pageLSN p"
  "freeEnd (writeU16 p 0 v) = freeEnd p"
  "pageLSN (writeU16 p 0 v) = pageLSN p"
  "v < 65536 \<Longrightarrow> freeEnd (writeU16 p 2 v) = v"
  "v < 65536 \<Longrightarrow> slotCount (writeU16 p 0 v) = v"
  by (simp_all add: slotCount_def freeEnd_def pageLSN_def page_consts mem_simps)

lemma slot_writeU16 [mem_simps]:
  "off \<le> 2 \<Longrightarrow> slot_off (writeU16 p off v) s = slot_off p s"
  "off \<le> 2 \<Longrightarrow> slot_len (writeU16 p off v) s = slot_len p s"
  by (simp_all add: slot_off_def slot_len_def mem_simps)

lemma setPageLSN_fields [mem_simps]:
  "slotCount (setPageLSN p v) = slotCount p"
  "freeEnd (setPageLSN p v) = freeEnd p"
  "slot_off (setPageLSN p v) s = slot_off p s"
  "slot_len (setPageLSN p v) s = slot_len p s"
  "12 \<le> r \<Longrightarrow> mread (setPageLSN p v) r n = mread p r n"
  "v < 2 ^ 64 \<Longrightarrow> pageLSN (setPageLSN p v) = v"
  by (simp_all add: setPageLSN_def slotCount_def freeEnd_def slot_off_def slot_len_def
      pageLSN_def page_consts mem_simps)

lemma at_setPageLSN: "12 \<le> i \<Longrightarrow> setPageLSN p v i = p i"
  by (simp add: setPageLSN_def page_consts at_writeU64)

section \<open>The layout invariant\<close>

definition slots_apart :: "page \<Rightarrow> nat \<Rightarrow> nat \<Rightarrow> bool" where
  "slots_apart p s t \<longleftrightarrow>
     slot_off p s + slot_len p s \<le> slot_off p t \<or> slot_off p t + slot_len p t \<le> slot_off p s"

text \<open>
  The slot array ends before the record area, every live record lies in the record area
  inside the page, no two live records overlap, and nothing was ever written past the
  page's array.
\<close>

definition wf_page :: "page \<Rightarrow> bool" where
  "wf_page p \<longleftrightarrow>
     12 + 4 * slotCount p \<le> freeEnd p \<and> freeEnd p \<le> PAGE_SIZE \<and>
     (\<forall>s < slotCount p. slot_len p s \<noteq> 0 \<longrightarrow>
        freeEnd p \<le> slot_off p s \<and> slot_off p s + slot_len p s \<le> PAGE_SIZE) \<and>
     (\<forall>s < slotCount p. \<forall>t < slotCount p. s \<noteq> t \<longrightarrow> slot_len p s \<noteq> 0 \<longrightarrow> slot_len p t \<noteq> 0 \<longrightarrow>
        slots_apart p s t) \<and>
     (\<forall>i \<ge> PAGE_SIZE. p i = char_of (0::nat))"

lemma wf_pageD:
  assumes "wf_page p"
  shows "12 + 4 * slotCount p \<le> freeEnd p" "freeEnd p \<le> 4096"
    "s < slotCount p \<Longrightarrow> slot_len p s \<noteq> 0 \<Longrightarrow> freeEnd p \<le> slot_off p s"
    "s < slotCount p \<Longrightarrow> slot_len p s \<noteq> 0 \<Longrightarrow> slot_off p s + slot_len p s \<le> 4096"
    "s < slotCount p \<Longrightarrow> t < slotCount p \<Longrightarrow> s \<noteq> t \<Longrightarrow> slot_len p s \<noteq> 0 \<Longrightarrow> slot_len p t \<noteq> 0 \<Longrightarrow>
       slots_apart p s t"
    "4096 \<le> i \<Longrightarrow> p i = char_of (0::nat)"
  using assms by (auto simp: wf_page_def page_consts)

lemma wf_page_slot_small: "wf_page p \<Longrightarrow> slotCount p < 1024"
  using wf_pageD(1,2) [of p] by simp

lemma isLive_int: "isLive p (int s) \<longleftrightarrow> s < slotCount p \<and> slot_len p s \<noteq> 0"
  by (simp add: isLive_def slotAt_int)

lemma page_get_int:
  "page_get p (int s) =
     (if s < slotCount p \<and> slot_len p s \<noteq> 0 then Some (mread p (slot_off p s) (slot_len p s))
      else None)"
  by (simp add: page_get_def isLive_int slotAt_int)

lemma page_get_neg: "slot < 0 \<Longrightarrow> page_get p slot = None"
  by (simp add: page_get_def isLive_def)

lemma page_get_ge: "int (slotCount p) \<le> slot \<Longrightarrow> page_get p slot = None"
  by (simp add: page_get_def isLive_def)

text \<open>Two pages hold the same records if they do so slot by slot.\<close>

lemma page_get_eqI:
  assumes "\<And>s. page_get p (int s) = m (int s)" and "\<And>slot. slot < 0 \<Longrightarrow> m slot = None"
  shows "page_get p = m"
proof
  fix slot :: int
  show "page_get p slot = m slot"
  proof (cases "slot < 0")
    case True
    then show ?thesis using assms(2) by (simp add: page_get_neg)
  next
    case False
    then obtain s where "slot = int s" by (metis int_nat_eq linorder_not_less)
    then show ?thesis using assms(1) by simp
  qed
qed

lemma usableSpace_eq:
  "usableSpace p = 4096 - (12 + 4 * int (slotCount p)) - int (\<Sum>s\<leftarrow>[0..<slotCount p]. slot_len p s)"
proof -
  have fold: "foldl (\<lambda>acc s. acc + int (f s)) a xs = a + int (\<Sum>s\<leftarrow>xs. f s)"
    for f :: "nat \<Rightarrow> nat" and a :: int and xs
    by (induction xs arbitrary: a) auto
  show ?thesis
    unfolding usableSpace_def by (simp add: Let_def slotAt_int fold page_consts)
qed

lemma freeSpace_eq: "freeSpace p = int (freeEnd p) - (12 + 4 * int (slotCount p))"
  by (simp add: freeSpace_def freeEnd_def page_consts)

text \<open>Live records are disjoint intervals of the record area, so they fit in it.\<close>

lemma sum_slot_len_le:
  assumes wf: "wf_page p"
  shows "(\<Sum>s\<leftarrow>[0..<slotCount p]. slot_len p s) \<le> 4096 - freeEnd p"
proof -
  let ?I = "\<lambda>s. {slot_off p s..<slot_off p s + slot_len p s}"
  let ?L = "{s. s < slotCount p \<and> slot_len p s \<noteq> 0}"
  have disj: "\<forall>i\<in>?L. \<forall>j\<in>?L. i \<noteq> j \<longrightarrow> ?I i \<inter> ?I j = {}"
    using wf_pageD(5) [OF wf] unfolding slots_apart_def by fastforce
  have "(\<Sum>s\<leftarrow>[0..<slotCount p]. slot_len p s) = (\<Sum>s = 0..<slotCount p. slot_len p s)"
    by (metis interv_sum_list_conv_sum_set_nat set_upt)
  also have "\<dots> = (\<Sum>s\<in>?L. slot_len p s)"
    by (rule sum.mono_neutral_right) auto
  also have "\<dots> = (\<Sum>s\<in>?L. card (?I s))" by simp
  also have "\<dots> = card (\<Union>s\<in>?L. ?I s)"
    by (rule card_UN_disjoint [symmetric]) (use disj in auto)
  also have "\<dots> \<le> card {freeEnd p..<4096}"
  proof (rule card_mono)
    show "(\<Union>s\<in>?L. ?I s) \<subseteq> {freeEnd p..<4096}"
      using wf_pageD(3,4) [OF wf] by fastforce
  qed simp
  finally show ?thesis by simp
qed

lemma freeSpace_le_usable: "wf_page p \<Longrightarrow> freeSpace p \<le> usableSpace p"
  using sum_slot_len_le [of p] wf_pageD(2) [of p]
  unfolding freeSpace_eq usableSpace_eq by linarith


section \<open>Fresh pages\<close>

lemma page_init_fields [simp]:
  "slotCount (page_init p) = 0" "freeEnd (page_init p) = 4096" "pageLSN (page_init p) = 0"
proof -
  let ?m = "memset p 0 (char_of (0::nat)) 4096"
  have zeros: "mread ?m off n = replicate n (char_of (0::nat))" if "off + n \<le> 4096" for off n
    using that by (auto simp: mread_def memset_def intro: nth_equalityI)
  have of0: "of_le (replicate n (char_of (0::nat))) = 0" for n
    by (induction n) (auto simp: of_char_of)
  show "slotCount (page_init p) = 0" "freeEnd (page_init p) = 4096"
    by (simp_all add: page_init_def Let_def mem_simps page_consts)
  have "readU64 ?m 4 = 0" by (simp add: readU64_def zeros of0)
  then show "pageLSN (page_init p) = 0"
    by (simp add: page_init_def Let_def pageLSN_def page_consts mem_simps)
qed

lemma at_page_init: "4096 \<le> i \<Longrightarrow> page_init p i = p i"
  by (simp add: page_init_def Let_def at_writeU16 memset_def page_consts)

lemma wf_page_init:
  assumes "\<And>i. 4096 \<le> i \<Longrightarrow> p i = char_of (0::nat)"
  shows "wf_page (page_init p)"
  using assms by (simp add: wf_page_def page_consts at_page_init)

lemma page_get_init: "page_get (page_init p) = (\<lambda>_. None)"
  by (rule page_get_eqI) (simp_all add: page_get_int)

section \<open>Compaction\<close>

lemma live_records_eq:
  "live_records p =
     map (\<lambda>s. (int s, mread p (slot_off p s) (slot_len p s)))
       (filter (\<lambda>s. slot_len p s \<noteq> 0) [0..<slotCount p])"
proof -
  have "foldl (\<lambda>live s. case slotAt p (int s) of (offset, len) \<Rightarrow>
              if len = 0 then live else live @ [(int s, mread p offset len)]) acc xs
      = acc @ map (\<lambda>s. (int s, mread p (slot_off p s) (slot_len p s)))
          (filter (\<lambda>s. slot_len p s \<noteq> 0) xs)" for acc and xs :: "nat list"
    by (induction xs arbitrary: acc) (auto simp: slotAt_int)
  then show ?thesis by (simp add: live_records_def)
qed

lemma u16_of_int_small [simp]: "0 \<le> x \<Longrightarrow> x < 65536 \<Longrightarrow> u16_of_int x = nat x"
  by (simp add: u16_of_int_def)

text \<open>
  What the copying loop of \<open>compact\<close> has done after some records: it has placed them,
  from the end of the page down, without touching the slots it has not reached.
\<close>

lemma compact_fold:
  assumes "foldl compact_step (q, fe) (map (\<lambda>s. (int s, d s)) ss) = (q', fe')"
    and "distinct ss" and "\<forall>s\<in>set ss. s < n \<and> d s \<noteq> []"
    and "slotCount q = n" and "fe \<le> 4096"
    and "12 + 4 * n + (\<Sum>s\<leftarrow>ss. length (d s)) \<le> fe"
  shows "fe' + (\<Sum>s\<leftarrow>ss. length (d s)) = fe" (is ?fe)
    and "slotCount q' = n \<and> pageLSN q' = pageLSN q" (is ?header)
    and "\<forall>s. s < n \<longrightarrow> s \<notin> set ss \<longrightarrow> slot_off q' s = slot_off q s \<and> slot_len q' s = slot_len q s"
      (is ?unseen)
    and "\<forall>s\<in>set ss. fe' \<le> slot_off q' s \<and> slot_off q' s + slot_len q' s \<le> fe \<and>
           slot_len q' s = length (d s) \<and> mread q' (slot_off q' s) (slot_len q' s) = d s"
      (is ?placed)
    and "\<forall>s\<in>set ss. \<forall>t\<in>set ss. s \<noteq> t \<longrightarrow> slots_apart q' s t" (is ?apart)
    and "\<forall>i \<ge> fe. q' i = q i" (is ?above)
proof -
  have "?fe \<and> ?header \<and> ?unseen \<and> ?placed \<and> ?apart \<and> ?above"
    using assms
  proof (induction ss arbitrary: q fe)
    case Nil
    then show ?case by simp
  next
    case (Cons s ss)
    define fe1 where "fe1 = fe - length (d s)"
    define q1 where "q1 = setSlot (mwrite q fe1 (d s)) (int s) fe1 (length (d s))"
    have sum: "12 + 4 * n + length (d s) + (\<Sum>s\<leftarrow>ss. length (d s)) \<le> fe"
      using Cons.prems(6) by simp
    have sn: "s < n" and fe1: "12 + 4 * n + (\<Sum>s\<leftarrow>ss. length (d s)) \<le> fe1" "fe1 \<le> 4096"
        "fe1 + length (d s) = fe" "length (d s) \<le> 4096"
      using Cons.prems(3,5) sum by (auto simp: fe1_def)
    have "compact_step (q, fe) (int s, d s) = (q1, fe1)"
      using fe1 by (simp add: compact_step_def q1_def Let_def nat_diff_distrib' fe1_def
          of_nat_diff [symmetric] del: of_nat_diff)
    with Cons.prems(1) have fold: "foldl compact_step (q1, fe1) (map (\<lambda>s. (int s, d s)) ss) = (q', fe')"
      by simp
    have low: "16 + 4 * s \<le> fe1" "12 \<le> fe1" using sn fe1 by auto
    have q1: "slotCount q1 = n" "pageLSN q1 = pageLSN q"
      using Cons.prems(4) low by (simp_all add: q1_def mem_simps)
    have q1s: "slot_off q1 s = fe1" "slot_len q1 s = length (d s)" "mread q1 fe1 (length (d s)) = d s"
      using fe1 low by (simp_all add: q1_def mem_simps)
    have q1t: "slot_off q1 t = slot_off q t \<and> slot_len q1 t = slot_len q t" if "t \<noteq> s" "t < n" for t
      using that fe1 by (simp add: q1_def mem_simps)
    have q1above: "\<forall>i \<ge> fe. q1 i = q i"
      using low fe1 by (auto simp: q1_def at_setSlot mwrite_outside)
    have IH: "fe' + (\<Sum>s\<leftarrow>ss. length (d s)) = fe1"
      "slotCount q' = n \<and> pageLSN q' = pageLSN q1"
      "\<forall>t. t < n \<longrightarrow> t \<notin> set ss \<longrightarrow> slot_off q' t = slot_off q1 t \<and> slot_len q' t = slot_len q1 t"
      "\<forall>s\<in>set ss. fe' \<le> slot_off q' s \<and> slot_off q' s + slot_len q' s \<le> fe1 \<and>
           slot_len q' s = length (d s) \<and> mread q' (slot_off q' s) (slot_len q' s) = d s"
      "\<forall>s\<in>set ss. \<forall>t\<in>set ss. s \<noteq> t \<longrightarrow> slots_apart q' s t"
      "\<forall>i \<ge> fe1. q' i = q1 i"
      using Cons.IH [OF fold] Cons.prems(2,3) q1 fe1 by auto
    have here: "slot_off q' s = fe1" "slot_len q' s = length (d s)"
      using IH(3) Cons.prems(2) sn q1s by auto
    have data: "mread q' fe1 (length (d s)) = d s"
    proof -
      have "mread q' fe1 (length (d s)) = mread q1 fe1 (length (d s))"
        using IH(6) by (simp add: mread_def)
      then show ?thesis using q1s by simp
    qed
    have c1: "fe' + (\<Sum>s\<leftarrow>s # ss. length (d s)) = fe" using IH(1) fe1 by simp
    have c2: "slotCount q' = n \<and> pageLSN q' = pageLSN q" using IH(2) q1 by simp
    have c3: "\<forall>t. t < n \<longrightarrow> t \<notin> set (s # ss) \<longrightarrow> slot_off q' t = slot_off q t \<and> slot_len q' t = slot_len q t"
      using IH(3) q1t by auto
    have c4: "\<forall>t\<in>set (s # ss). fe' \<le> slot_off q' t \<and> slot_off q' t + slot_len q' t \<le> fe \<and>
           slot_len q' t = length (d t) \<and> mread q' (slot_off q' t) (slot_len q' t) = d t"
      using IH(1,4) here data fe1 by fastforce
    have "slots_apart q' s t \<and> slots_apart q' t s" if "t \<in> set ss" for t
      using IH(4) that here by (auto simp: slots_apart_def)
    then have c5: "\<forall>t\<in>set (s # ss). \<forall>u\<in>set (s # ss). t \<noteq> u \<longrightarrow> slots_apart q' t u"
      using IH(5) by auto
    have c6: "\<forall>i \<ge> fe. q' i = q i" using IH(6) q1above fe1 by auto
    show ?case by (intro conjI c1 c2 c3 c4 c5 c6)
  qed
  then show ?fe ?header ?unseen ?placed ?apart ?above by blast+
qed

lemma sum_live_lengths:
  "(\<Sum>s\<leftarrow>filter (\<lambda>s. f s \<noteq> 0) xs. f s) = (\<Sum>s\<leftarrow>xs. (f s :: nat))"
  by (induction xs) auto

lemma compact_spec:
  assumes wf: "wf_page p"
  shows "wf_page (compact p)" "slotCount (compact p) = slotCount p"
    "pageLSN (compact p) = pageLSN p" "page_get (compact p) = page_get p"
    "freeSpace (compact p) = usableSpace p"
proof -
  let ?n = "slotCount p"
  define ss where "ss = filter (\<lambda>s. slot_len p s \<noteq> 0) [0..<?n]"
  define d where "d s = mread p (slot_off p s) (slot_len p s)" for s
  have len: "length (d s) = slot_len p s" for s by (simp add: d_def)
  have sum: "(\<Sum>s\<leftarrow>ss. length (d s)) = (\<Sum>s\<leftarrow>[0..<?n]. slot_len p s)"
    using sum_live_lengths [of "slot_len p" "[0..<?n]"] by (simp add: ss_def len)
  obtain q' fe' where fold: "foldl compact_step (p, 4096) (map (\<lambda>s. (int s, d s)) ss) = (q', fe')"
    by fastforce
  have comp: "compact p = writeU16 q' 2 fe'"
    using fold by (simp add: compact_def live_records_eq ss_def d_def page_consts)
  have sumle: "12 + 4 * ?n + (\<Sum>s\<leftarrow>ss. length (d s)) \<le> 4096"
    using sum_slot_len_le [OF wf] wf_pageD(1,2) [OF wf] by (simp add: sum)
  have ssn: "\<forall>s\<in>set ss. s < ?n \<and> d s \<noteq> []" and dist: "distinct ss"
    using len by (auto simp: ss_def simp flip: length_0_conv)
  note F = compact_fold [OF fold dist ssn refl order_refl sumle]
  have fe': "fe' = 4096 - (\<Sum>s\<leftarrow>[0..<?n]. slot_len p s)" "12 + 4 * ?n \<le> fe'" "fe' \<le> 4096"
    using F(1) sumle by (simp_all add: sum)
  show count: "slotCount (compact p) = ?n" and lsn: "pageLSN (compact p) = pageLSN p"
    using F(2) by (simp_all add: comp mem_simps)
  have slots: "slot_off (compact p) s = slot_off q' s" "slot_len (compact p) s = slot_len q' s" for s
    by (simp_all add: comp mem_simps)
  have fe: "freeEnd (compact p) = fe'" using fe' by (simp add: comp mem_simps)
  have live: "slot_len q' s = slot_len p s" if "s < ?n" for s
  proof (cases "s \<in> set ss")
    case True then show ?thesis using F(4) len by simp
  next
    case False
    then show ?thesis using F(3) that by simp
  qed
  have placed: "fe' \<le> slot_off q' s" "slot_off q' s + slot_len q' s \<le> 4096"
     "mread q' (slot_off q' s) (slot_len q' s) = d s" if "s < ?n" "slot_len p s \<noteq> 0" for s
    using F(4) that by (auto simp: ss_def)
  have apart: "slots_apart q' s t" if "s < ?n" "t < ?n" "s \<noteq> t" "slot_len p s \<noteq> 0" "slot_len p t \<noteq> 0" for s t
    using F(5) that by (auto simp: ss_def)
  have zeros: "compact p i = char_of (0::nat)" if "4096 \<le> i" for i
    using F(6) wf_pageD(6) [OF wf] that by (simp add: comp at_writeU16)
  show "wf_page (compact p)"
    unfolding wf_page_def page_consts count fe slots
    using fe' live placed apart zeros by (simp add: slots_apart_def slots)
  show "page_get (compact p) = page_get p"
  proof (rule page_get_eqI)
    fix s
    show "page_get (compact p) (int s) = page_get p (int s)"
    proof (cases "s < ?n \<and> slot_len p s \<noteq> 0")
      case True
      then have "mread (compact p) (slot_off q' s) (slot_len q' s) = d s"
        using placed [of s] fe' by (simp add: comp mem_simps)
      with True show ?thesis by (simp add: page_get_int count slots live d_def)
    next
      case False
      then show ?thesis by (auto simp: page_get_int count slots live)
    qed
  qed (rule page_get_neg)
  show "freeSpace (compact p) = usableSpace p"
    using fe'(1) sumle by (simp add: freeSpace_eq usableSpace_eq fe count sum)
qed


section \<open>Functional behaviour of the operations\<close>

text \<open>
  Placing a record just below the record area of a well-formed page with enough free
  space, in a slot that is dead or new: the common tail of \<open>insert\<close> and \<open>redoSet\<close>.
\<close>

definition place :: "page \<Rightarrow> nat \<Rightarrow> bytes \<Rightarrow> nat \<Rightarrow> page" where
  "place p s record count =
     (let dataOffset = freeEnd p - length record;
          p = setSlot (mwrite p dataOffset record) (int s) dataOffset (length record)
      in writeU16 (writeU16 p 0 count) 2 dataOffset)"

lemma place_spec:
  assumes wf: "wf_page p" and rec: "record \<noteq> []"
    and count: "count = max (slotCount p) (Suc s)" and s: "s \<le> slotCount p"
    and room: "12 + 4 * count + length record \<le> freeEnd p"
  shows "wf_page (place p s record count)"
    and "page_get (place p s record count) = (page_get p)(int s := Some record)"
    and "slotCount (place p s record count) = count"
    and "pageLSN (place p s record count) = pageLSN p"
proof -
  define fe where "fe = freeEnd p - length record"
  define q where "q = place p s record count"
  have fe: "fe + length record = freeEnd p" "12 + 4 * count \<le> fe" "freeEnd p \<le> 4096"
    using room wf_pageD(2) [OF wf] by (auto simp: fe_def)
  have pc: "slotCount p \<le> count" "s < count" by (simp_all add: count)
  then have s': "16 + 4 * s \<le> fe" "count < 65536" using fe by linarith+
  have q: "q = writeU16 (writeU16 (setSlot (mwrite p fe record) (int s) fe (length record)) 0 count) 2 fe"
    by (simp add: q_def place_def Let_def fe_def)
  have pq: "place p s record count = q" by (simp add: q_def)
  have qcount: "slotCount q = count" using s' fe by (simp add: q mem_simps)
  then show "slotCount (place p s record count) = count" by (simp add: pq)
  show "pageLSN (place p s record count) = pageLSN p"
    unfolding pq using fe by (simp add: q mem_simps)
  have qfe: "freeEnd q = fe" using fe by (simp add: q mem_simps)
  have here: "slot_off q s = fe" "slot_len q s = length record" "mread q fe (length record) = record"
    using fe s' by (simp_all add: q mem_simps)
  have other: "slot_off q t = slot_off p t" "slot_len q t = slot_len p t"
    if "t < count" "t \<noteq> s" for t
    using that fe by (auto simp: q mem_simps)
  have keep: "mread q r n = mread p r n" if "freeEnd p \<le> r" for r n
    using that fe s' by (simp add: q mem_simps)
  have old: "t < slotCount p" if "t < count" "t \<noteq> s" for t
    using that s by (auto simp: count)
  have zeros: "q i = char_of (0::nat)" if "4096 \<le> i" for i
    using that wf_pageD(6) [OF wf] fe s' by (simp add: q at_writeU16 at_setSlot mwrite_outside)
  have live: "fe \<le> slot_off q t \<and> slot_off q t + slot_len q t \<le> 4096 \<and>
      (t \<noteq> s \<longrightarrow> freeEnd p \<le> slot_off q t)" if "t < count" "slot_len q t \<noteq> 0" for t
    using that wf_pageD(3,4) [OF wf old [of t]] here other [of t] fe by (cases "t = s") auto
  have apart: "slots_apart q t u"
    if "t < count" "u < count" "t \<noteq> u" "slot_len q t \<noteq> 0" "slot_len q u \<noteq> 0" for t u
  proof (cases "t = s \<or> u = s")
    case True
    then show ?thesis using that live [of t] live [of u] here fe by (auto simp: slots_apart_def)
  next
    case False
    then show ?thesis using that wf_pageD(5) [OF wf old [of t] old [of u]] other
      by (auto simp: slots_apart_def)
  qed
  show "wf_page (place p s record count)"
    using fe live apart zeros unfolding pq wf_page_def qcount qfe page_consts
    by auto
  show "page_get (place p s record count) = (page_get p)(int s := Some record)"
    unfolding pq
  proof (rule page_get_eqI)
    fix t
    show "page_get q (int t) = ((page_get p)(int s := Some record)) (int t)"
    proof (cases "t < count \<and> t \<noteq> s")
      case True
      then show ?thesis
        using old [of t] other [of t] live [of t]
        by (auto simp: page_get_int qcount keep)
    next
      case False
      then show ?thesis using here rec pc
        by (cases "t = s") (auto simp: page_get_int qcount)
    qed
  qed (simp add: page_get_neg)
qed

text \<open>C-free form of \<open>page_insert\<close>: when it succeeds and what it then does.\<close>

lemma page_insert_place:
  assumes wf: "wf_page p"
  shows "page_insert p record =
    (if record = [] \<or> usableSpace p < int (length record) + 4 then None
     else let p = (if freeSpace p < int (length record) + 4 then compact p else p)
          in Some (place p (slotCount p) record (Suc (slotCount p)), int (slotCount p)))"
proof (cases "record = [] \<or> usableSpace p < int (length record) + 4")
  case True
  then show ?thesis
    using freeSpace_le_usable [OF wf] by (auto simp: page_insert_def page_consts Let_def)
next
  case False
  define q where "q = (if freeSpace p < int (length record) + 4 then compact p else p)"
  have wfq: "wf_page q" using compact_spec(1) [OF wf] wf by (simp add: q_def)
  have room: "int (length record) + 4 \<le> freeSpace q"
    using False compact_spec(5) [OF wf] by (auto simp: q_def)
  have fe: "length record \<le> freeEnd q" "freeEnd q \<le> 4096" "slotCount q < 1024"
    using room wf_pageD(2) [OF wfq] wf_page_slot_small [OF wfq] by (auto simp: freeSpace_eq)
  have "length record < 65536" using fe by simp
  then have "page_insert p record = (let
       dataOffset = u16_of_int (int (readU16 q 2) - int (length record));
       p = mwrite q dataOffset record;
       p = setSlot p (int (slotCount q)) dataOffset (u16_of_int (int (length record)));
       p = writeU16 p 0 (u16_of_int (int (slotCount q) + 1));
       p = writeU16 p 2 dataOffset
     in Some (p, int (slotCount q)))"
    using False by (simp add: page_insert_def Let_def page_consts q_def)
  also have "\<dots> = Some (place q (slotCount q) record (Suc (slotCount q)), int (slotCount q))"
  proof -
    have "u16_of_int (int (readU16 q 2) - int (length record)) = freeEnd q - length record"
      using fe by (simp add: freeEnd_def [symmetric] of_nat_diff [symmetric] del: of_nat_diff)
    moreover have "u16_of_int (int (slotCount q) + 1) = Suc (slotCount q)"
      using fe by (simp add: nat_add_distrib)
    ultimately show ?thesis using fe by (simp add: place_def Let_def)
  qed
  finally show ?thesis using False by (simp add: q_def Let_def)
qed

lemma page_insert_None_iff:
  "wf_page p \<Longrightarrow>
   page_insert p record = None \<longleftrightarrow> record = [] \<or> usableSpace p < int (length record) + 4"
  by (simp add: page_insert_place Let_def)

lemma page_insert_Some:
  assumes wf: "wf_page p" and ins: "page_insert p record = Some (p', slot)"
  shows "wf_page p'" "page_get p' = (page_get p)(slot := Some record)"
    "slot = int (slotCount p)" "slotCount p' = Suc (slotCount p)" "pageLSN p' = pageLSN p"
    "page_get p slot = None"
proof -
  define q where "q = (if freeSpace p < int (length record) + 4 then compact p else p)"
  have fit: "record \<noteq> []" "int (length record) + 4 \<le> usableSpace p"
    using ins by (auto simp: page_insert_place [OF wf] split: if_splits)
  have wfq: "wf_page q" and q: "slotCount q = slotCount p" "pageLSN q = pageLSN p" "page_get q = page_get p"
    using compact_spec [OF wf] wf by (simp_all add: q_def)
  have room: "int (length record) + 4 \<le> freeSpace q"
    using fit compact_spec(5) [OF wf] by (auto simp: q_def)
  then have room': "12 + 4 * Suc (slotCount q) + length record \<le> freeEnd q"
    by (simp add: freeSpace_eq)
  have eq: "p' = place q (slotCount q) record (Suc (slotCount q))" "slot = int (slotCount q)"
    using ins fit by (auto simp: page_insert_place [OF wf] Let_def q_def split: if_splits)
  have mx: "Suc (slotCount q) = max (slotCount q) (Suc (slotCount q))" by simp
  note P = place_spec [OF wfq fit(1) mx order_refl room']
  show "wf_page p'" "page_get p' = (page_get p)(slot := Some record)"
    "slot = int (slotCount p)" "slotCount p' = Suc (slotCount p)" "pageLSN p' = pageLSN p"
    "page_get p slot = None"
    using P by (simp_all add: eq q page_get_ge)
qed

text \<open>Rewriting one slot's entry within its old extent: \<open>erase\<close> and \<open>update\<close>.\<close>

lemma shrink_slot_wf:
  assumes wf: "wf_page p" and s: "s < slotCount p" "n \<le> slot_len p s"
    and q: "slotCount q = slotCount p" "freeEnd q = freeEnd p"
      "\<And>t. slot_off q t = slot_off p t" "\<And>t. slot_len q t = (if t = s then n else slot_len p t)"
      "\<And>i. 4096 \<le> i \<Longrightarrow> q i = p i"
  shows "wf_page q"
proof -
  have live: "slot_len p t \<noteq> 0 \<and> slot_off q t + slot_len q t \<le> slot_off p t + slot_len p t"
    if "slot_len q t \<noteq> 0" for t
    using that s q by (auto split: if_splits)
  have "slots_apart q t u"
    if "t < slotCount p" "u < slotCount p" "t \<noteq> u" "slot_len q t \<noteq> 0" "slot_len q u \<noteq> 0" for t u
    using wf_pageD(5) [OF wf that(1,2,3)] live [OF that(4)] live [OF that(5)] q(3)
    by (auto simp: slots_apart_def)
  moreover have "freeEnd p \<le> slot_off q t \<and> slot_off q t + slot_len q t \<le> 4096"
    if "t < slotCount p" "slot_len q t \<noteq> 0" for t
    using wf_pageD(3,4) [OF wf that(1)] live [OF that(2)] q(3) by auto
  ultimately show ?thesis
    using wf_pageD(1,2,6) [OF wf] q(1,2,5) unfolding wf_page_def page_consts by auto
qed

lemma isLiveE:
  assumes "isLive p slot"
  obtains s where "slot = int s" "s < slotCount p" "slot_len p s \<noteq> 0"
proof -
  from assms have "0 \<le> slot" by (auto simp: isLive_def split: if_splits)
  then obtain s where "slot = int s" using zero_le_imp_eq_int by blast
  with assms that show ?thesis by (auto simp: isLive_int)
qed

lemma isLive_iff_get: "isLive p slot \<longleftrightarrow> page_get p slot \<noteq> None"
  by (simp add: page_get_def split: prod.splits)

lemma page_erase_None_iff: "page_erase p slot = None \<longleftrightarrow> page_get p slot = None"
  by (simp add: page_erase_def page_get_def split: prod.splits)

lemma readU16_slot_off [simp]: "slot_off p s < 65536" and readU16_slot_len [simp]: "slot_len p s < 65536"
  by (simp_all add: slot_off_def slot_len_def readU16_bound)

lemma page_erase_Some:
  assumes wf: "wf_page p" and er: "page_erase p slot = Some p'"
  shows "wf_page p'" "page_get p' = (page_get p)(slot := None)"
    "slotCount p' = slotCount p" "pageLSN p' = pageLSN p"
proof -
  from er obtain s where s: "slot = int s" "s < slotCount p" "slot_len p s \<noteq> 0"
    by (auto simp: page_erase_def elim!: isLiveE split: if_splits)
  then have p': "p' = setSlot p (int s) (slot_off p s) 0"
    using er by (auto simp: page_erase_def slotAt_int split: if_splits)
  have low: "16 + 4 * s \<le> freeEnd p" "freeEnd p \<le> 4096" using wf_pageD(1,2) [OF wf] s by auto
  show "slotCount p' = slotCount p" "pageLSN p' = pageLSN p" by (simp_all add: p' mem_simps)
  show "wf_page p'"
    by (rule shrink_slot_wf [OF wf s(2), of 0])
       (use low in \<open>auto simp: p' mem_simps at_setSlot\<close>)
  show "page_get p' = (page_get p)(slot := None)"
  proof (rule page_get_eqI)
    fix t
    show "page_get p' (int t) = ((page_get p)(slot := None)) (int t)"
    proof (cases "t < slotCount p \<and> slot_len p t \<noteq> 0 \<and> t \<noteq> s")
      case True
      then have "16 + 4 * s \<le> slot_off p t" using wf_pageD(3) [OF wf] low by fastforce
      with True show ?thesis by (simp add: p' s(1) page_get_int mem_simps)
    next
      case False
      then show ?thesis by (auto simp: p' s(1) page_get_int mem_simps)
    qed
  qed (simp add: page_get_neg s(1))
qed

lemma page_update_Some:
  assumes wf: "wf_page p" and up: "page_update p slot record = Some p'"
  shows "wf_page p'" "page_get p' = (page_get p)(slot := Some record)"
    "slotCount p' = slotCount p" "pageLSN p' = pageLSN p" "page_get p slot \<noteq> None" "record \<noteq> []"
proof -
  from up obtain s where s: "slot = int s" "s < slotCount p" "slot_len p s \<noteq> 0"
    by (auto simp: page_update_def elim!: isLiveE split: if_splits)
  have rec: "record \<noteq> []" "length record \<le> slot_len p s"
    using up s by (auto simp: page_update_def slotAt_int Let_def split: if_splits)
  have small: "length record < 65536" using rec(2) readU16_slot_len [of p s] by linarith
  have p': "p' = setSlot (mwrite p (slot_off p s) record) (int s) (slot_off p s) (length record)"
    using up small by (auto simp: page_update_def slotAt_int s(1) Let_def split: if_splits)
  have low: "16 + 4 * s \<le> freeEnd p" "freeEnd p \<le> 4096" "freeEnd p \<le> slot_off p s"
      "slot_off p s + length record \<le> 4096" "slot_off p s + length record \<le> slot_off p s + slot_len p s"
    using wf_pageD(1-4) [OF wf] s rec by fastforce+
  have slots: "slot_off p' t = slot_off p t" "slot_len p' t = (if t = s then length record else slot_len p t)"
    if "t < slotCount p" for t
    using that low small wf_pageD(1) [OF wf] by (auto simp: p' mem_simps)
  have slots': "slot_off p' t = slot_off p t \<or> slotCount p \<le> t"  for t using slots [of t] by (cases "t < slotCount p") auto
  show cnt: "slotCount p' = slotCount p" and lsn: "pageLSN p' = pageLSN p" using low by (simp_all add: p' mem_simps)
  show "page_get p slot \<noteq> None" "record \<noteq> []" using s rec by (simp_all add: page_get_int)
  have live: "slot_len p t \<noteq> 0 \<and> slot_off p' t + slot_len p' t \<le> slot_off p t + slot_len p t"
    if "t < slotCount p" "slot_len p' t \<noteq> 0" for t
    using that s rec slots [of t] by (auto split: if_splits)
  have "slots_apart p' t u"
    if "t < slotCount p" "u < slotCount p" "t \<noteq> u" "slot_len p' t \<noteq> 0" "slot_len p' u \<noteq> 0" for t u
    using wf_pageD(5) [OF wf that(1,2,3)] live [OF that(1,4)] live [OF that(2,5)] slots that(1,2)
    by (auto simp: slots_apart_def)
  moreover have "freeEnd p \<le> slot_off p' t \<and> slot_off p' t + slot_len p' t \<le> 4096"
    if "t < slotCount p" "slot_len p' t \<noteq> 0" for t
    using wf_pageD(3,4) [OF wf that(1)] live [OF that] slots that(1) by auto
  moreover have "p' i = char_of (0::nat)" if "4096 \<le> i" for i
    using that low wf_pageD(6) [OF wf] by (simp add: p' at_setSlot mwrite_outside)
  moreover have "freeEnd p' = freeEnd p" using low by (simp add: p' mem_simps)
  ultimately show "wf_page p'"
    using wf_pageD(1,2) [OF wf] cnt unfolding wf_page_def page_consts by auto
  show "page_get p' = (page_get p)(slot := Some record)"
  proof (rule page_get_eqI)
    fix t
    show "page_get p' (int t) = ((page_get p)(slot := Some record)) (int t)"
    proof (cases "t < slotCount p \<and> slot_len p t \<noteq> 0 \<and> t \<noteq> s")
      case True
      then have t: "slots_apart p t s" "freeEnd p \<le> slot_off p t"
        using wf_pageD(3,5) [OF wf] s by auto
      then have "slot_off p t + slot_len p t \<le> slot_off p s \<or> slot_off p s + length record \<le> slot_off p t"
        using low by (auto simp: slots_apart_def)
      with True t low show ?thesis
        using slots [of t] by (simp add: s(1) page_get_int cnt) (simp add: p' mem_simps)
    next
      case False
      then show ?thesis using s rec slots [of t] low
        by (cases "t = s") (auto simp: s(1) page_get_int cnt p' mem_simps)
    qed
  qed (simp add: page_get_neg s(1))
qed


section \<open>Recovery: placing and clearing records at exact slots\<close>

lemma wf_setPageLSN: "wf_page p \<Longrightarrow> wf_page (setPageLSN p v)"
  by (auto simp: wf_page_def slots_apart_def mem_simps at_setPageLSN page_consts)

lemma page_get_setPageLSN: "wf_page p \<Longrightarrow> page_get (setPageLSN p v) = page_get p"
proof (rule page_get_eqI)
  fix s
  assume wf: "wf_page p"
  show "page_get (setPageLSN p v) (int s) = page_get p (int s)"
  proof (cases "s < slotCount p \<and> slot_len p s \<noteq> 0")
    case True
    then have "12 \<le> slot_off p s" using wf_pageD(1,3) [OF wf] by fastforce
    then show ?thesis by (simp add: page_get_int mem_simps)
  next
    case False
    then show ?thesis by (auto simp: page_get_int mem_simps)
  qed
qed (rule page_get_neg)

text \<open>The loop that extends the slot array with dead slots.\<close>

definition extend_slots :: "page \<Rightarrow> nat \<Rightarrow> page" where
  "extend_slots p s =
     writeU16 (foldl (\<lambda>p s. setSlot p s 0 0) p [int (slotCount p)..int s]) 0 (Suc s)"

lemma upto_int_upt: "[int a..int b] = map int [a..<Suc b]"
  by (rule nth_equalityI) (auto simp: nth_append)

lemma foldl_setSlot:
  assumes "foldl (\<lambda>p s. setSlot p (int s) 0 0) p [a..<b] = q"
  shows "slotCount q = slotCount p \<and> freeEnd q = freeEnd p \<and> pageLSN q = pageLSN p \<and>
    (\<forall>t. slot_len q t = (if a \<le> t \<and> t < b then 0 else slot_len p t) \<and>
         slot_off q t = (if a \<le> t \<and> t < b then 0 else slot_off p t)) \<and>
    (\<forall>i \<ge> 12 + 4 * b. q i = p i)"
  using assms
proof (induction b arbitrary: q)
  case 0
  then show ?case by auto
next
  case (Suc b)
  show ?case
  proof (cases "a \<le> b")
    case True
    define r where "r = foldl (\<lambda>p s. setSlot p (int s) 0 0) p [a..<b]"
    have q: "q = setSlot r (int b) 0 0" using Suc.prems True by (simp add: r_def)
    have r: "slotCount r = slotCount p \<and> freeEnd r = freeEnd p \<and> pageLSN r = pageLSN p \<and>
      (\<forall>t. slot_len r t = (if a \<le> t \<and> t < b then 0 else slot_len p t) \<and>
           slot_off r t = (if a \<le> t \<and> t < b then 0 else slot_off p t)) \<and>
      (\<forall>i \<ge> 12 + 4 * b. r i = p i)"
      using Suc.IH r_def by blast
    have "slot_len q t = (if a \<le> t \<and> t < Suc b then 0 else slot_len p t) \<and>
          slot_off q t = (if a \<le> t \<and> t < Suc b then 0 else slot_off p t)" for t
      using r True by (auto simp: q mem_simps)
    moreover have "q i = p i" if "12 + 4 * Suc b \<le> i" for i
      using r that by (simp add: q at_setSlot)
    ultimately show ?thesis using r by (auto simp: q mem_simps)
  next
    case False
    then show ?thesis using Suc.prems by auto
  qed
qed

lemma extend_slots_fields:
  assumes "slotCount p \<le> s" and "s < 65535"
  shows "slotCount (extend_slots p s) = Suc s" "freeEnd (extend_slots p s) = freeEnd p"
    "pageLSN (extend_slots p s) = pageLSN p"
    "slot_len (extend_slots p s) t = (if slotCount p \<le> t \<and> t \<le> s then 0 else slot_len p t)"
    "slot_off (extend_slots p s) t = (if slotCount p \<le> t \<and> t \<le> s then 0 else slot_off p t)"
    "16 + 4 * s \<le> i \<Longrightarrow> extend_slots p s i = p i"
proof -
  define q where "q = foldl (\<lambda>p s. setSlot p (int s) 0 0) p [slotCount p..<Suc s]"
  have e: "extend_slots p s = writeU16 q 0 (Suc s)"
    using assms by (simp add: extend_slots_def q_def upto_int_upt foldl_map)
  note F = foldl_setSlot [OF q_def [symmetric]]
  show "slotCount (extend_slots p s) = Suc s" "freeEnd (extend_slots p s) = freeEnd p"
    "pageLSN (extend_slots p s) = pageLSN p"
    "slot_len (extend_slots p s) t = (if slotCount p \<le> t \<and> t \<le> s then 0 else slot_len p t)"
    "slot_off (extend_slots p s) t = (if slotCount p \<le> t \<and> t \<le> s then 0 else slot_off p t)"
    using F assms by (auto simp: e mem_simps)
  show "16 + 4 * s \<le> i \<Longrightarrow> extend_slots p s i = p i"
    using F by (simp add: e at_writeU16)
qed

lemma extend_slots_spec:
  assumes wf: "wf_page p" and new: "slotCount p \<le> s" and room: "16 + 4 * s \<le> freeEnd p"
  shows "wf_page (extend_slots p s)" "page_get (extend_slots p s) = page_get p"
proof -
  have s: "s < 65535" using room wf_pageD(2) [OF wf] by simp
  note E = extend_slots_fields [OF new s]
  show "wf_page (extend_slots p s)"
    using wf room wf_pageD(2) [OF wf] unfolding wf_page_def page_consts
    by (auto simp: E slots_apart_def)
  show "page_get (extend_slots p s) = page_get p"
  proof (rule page_get_eqI)
    fix t
    show "page_get (extend_slots p s) (int t) = page_get p (int t)"
    proof (cases "t < slotCount p \<and> slot_len p t \<noteq> 0")
      case True
      then have "freeEnd p \<le> slot_off p t" using wf_pageD(3) [OF wf] by simp
      then have "mread (extend_slots p s) (slot_off p t) n = mread p (slot_off p t) n" for n
        using room by (simp add: mread_def E(6))
      with True new show ?thesis by (simp add: page_get_int E(1,4,5))
    next
      case False
      then show ?thesis by (auto simp: page_get_int E(1,4,5))
    qed
  qed (rule page_get_neg)
qed

text \<open>The page \<open>redoSet\<close> writes into, after the slot array was extended if need be.\<close>

definition redo_target :: "page \<Rightarrow> nat \<Rightarrow> page" where
  "redo_target p s = (if slotCount p \<le> s then extend_slots p s else p)"

definition stamp :: "nat \<Rightarrow> page \<Rightarrow> page" where
  "stamp lsn p = (if lsn \<noteq> 0 then setPageLSN p lsn else p)"

lemma stamp_spec:
  assumes "wf_page p"
  shows "wf_page (stamp lsn p)" "page_get (stamp lsn p) = page_get p"
    "lsn < 2 ^ 64 \<Longrightarrow> pageLSN (stamp lsn p) = (if lsn \<noteq> 0 then lsn else pageLSN p)"
    "slotCount (stamp lsn p) = slotCount p"
  using assms by (simp_all add: stamp_def wf_setPageLSN page_get_setPageLSN mem_simps)

lemma wf_page_not_blank: "wf_page p \<Longrightarrow> \<not> readU16 p 2 < HEADER_SIZE"
  using wf_pageD(1) [of p] by (simp add: freeEnd_def page_consts)

lemma redo_target_spec:
  assumes wf: "wf_page p" and room: "s < slotCount p \<or> 16 + 4 * s \<le> freeEnd p"
  shows "wf_page (redo_target p s)" "page_get (redo_target p s) = page_get p"
    "pageLSN (redo_target p s) = pageLSN p" "s < slotCount (redo_target p s)"
    "extendSlots p (int s) = redo_target p s"
proof -
  have s: "s < 65535" using room wf_pageD(2) [OF wf] wf_page_slot_small [OF wf] by linarith
  show "wf_page (redo_target p s)" "page_get (redo_target p s) = page_get p"
    "pageLSN (redo_target p s) = pageLSN p" "s < slotCount (redo_target p s)"
    using extend_slots_spec [OF wf, of s] extend_slots_fields [of p s] room s wf
    by (auto simp: redo_target_def not_le)
  show "extendSlots p (int s) = redo_target p s"
    using s by (simp add: extendSlots_def redo_target_def extend_slots_def nat_add_distrib)
qed

lemma redoSet_write:
  assumes wf: "wf_page p" and room: "s < slotCount p \<or> 16 + 4 * s \<le> freeEnd p"
    and fresh: "lsn = 0 \<or> pageLSN p < lsn" and diff: "page_get p (int s) \<noteq> Some record"
    and rec: "record \<noteq> []"
  shows "redoSet p (int s) record lsn =
     (let q = redo_target p s in
      if usableSpace q < int (length record) then (if length record > 65535 then p else q, False)
      else let q = (if freeSpace q < int (length record) then compact q else q)
           in (stamp lsn (place q s record (slotCount q)), True))"
proof -
  define q where "q = redo_target p s"
  define q' where "q' = (if freeSpace q < int (length record) then compact q else q)"
  note T = redo_target_spec [OF wf room, folded q_def]
  have wf': "wf_page q'" "slotCount q' = slotCount q" "s < slotCount q'"
    using compact_spec [OF T(1)] T(1,4) by (simp_all add: q'_def)
  have usable: "usableSpace q \<le> 4084" by (simp add: usableSpace_eq)
  have start: "redoSet p (int s) record lsn =
     (let need = int (length record) in
      if need > 65535 then (p, False)
      else if freeSpace q < need \<and> usableSpace q < need then (q, False)
      else
        let dataOffset = u16_of_int (int (readU16 q' 2) - need);
            p = mwrite q' dataOffset record;
            p = setSlot p (int s) dataOffset (u16_of_int need);
            p = writeU16 p 2 dataOffset;
            p = (if lsn \<noteq> 0 then setPageLSN p lsn else p)
        in (p, True))"
    unfolding redoSet_def using wf_page_not_blank [OF wf] fresh diff rec
    by (cases "lsn = 0") (simp_all add: Let_def T(5) flip: q'_def)
  show ?thesis
  proof (cases "usableSpace q < int (length record)")
    case True
    then show ?thesis
      using freeSpace_le_usable [OF T(1)] unfolding start by (simp add: Let_def flip: q_def)
  next
    case False
    then have small: "length record < 65536" using usable by simp
    have room': "int (length record) \<le> freeSpace q'"
      using False compact_spec(5) [OF T(1)] by (simp add: q'_def)
    then have fe: "length record \<le> freeEnd q'" "freeEnd q' \<le> 4096"
      using wf_pageD(2) [OF wf'(1)] by (auto simp: freeSpace_eq)
    have off: "u16_of_int (int (readU16 q' 2) - int (length record)) = freeEnd q' - length record"
      using fe by (simp add: freeEnd_def [symmetric] of_nat_diff [symmetric] del: of_nat_diff)
    define r where "r = setSlot (mwrite q' (freeEnd q' - length record) record) (int s)
        (freeEnd q' - length record) (length record)"
    have "12 + 4 * slotCount q' \<le> freeEnd q' - length record"
      using room' by (simp add: freeSpace_eq)
    then have "slotCount r = slotCount q'" using fe by (simp add: r_def mem_simps)
    then have "readU16 r 0 = slotCount q'" by (simp add: slotCount_def)
    moreover have "writeU16 r 0 (readU16 r 0) = r"
      unfolding writeU16_def readU16_def by (rule mwrite_mread_id) simp
    ultimately have "writeU16 r 0 (slotCount q') = r" by simp
    then have "place q' s record (slotCount q') = writeU16 r 2 (freeEnd q' - length record)"
      by (simp add: place_def Let_def r_def)
    then show ?thesis
      using False small off unfolding start
      by (simp add: Let_def stamp_def r_def flip: q_def q'_def)
  qed
qed

lemma redoSet_skip:
  "wf_page p \<Longrightarrow> lsn \<noteq> 0 \<Longrightarrow> lsn \<le> pageLSN p \<Longrightarrow> redoSet p slot record lsn = (p, True)"
  using wf_page_not_blank [of p] by (simp add: redoSet_def)

lemma redoSet_present:
  "wf_page p \<Longrightarrow> lsn = 0 \<or> pageLSN p < lsn \<Longrightarrow> page_get p slot = Some record \<Longrightarrow>
   redoSet p slot record lsn = (stamp lsn p, True)"
  using wf_page_not_blank [of p] by (auto simp: redoSet_def stamp_def)

lemma redoSet_spec:
  assumes wf: "wf_page p" and room: "s < slotCount p \<or> 16 + 4 * s \<le> freeEnd p"
    and fresh: "lsn = 0 \<or> pageLSN p < lsn" and lsn: "lsn < 2 ^ 64"
    and rec: "record \<noteq> []" and redo: "redoSet p (int s) record lsn = (p', ok)"
  shows "wf_page p'"
    and "ok \<Longrightarrow> page_get p' = (page_get p)(int s := Some record) \<and>
           pageLSN p' = (if lsn \<noteq> 0 then lsn else pageLSN p)"
    and "\<not> ok \<Longrightarrow> page_get p' = page_get p \<and> pageLSN p' = pageLSN p"
proof -
  have "wf_page p' \<and> (if ok then page_get p' = (page_get p)(int s := Some record) \<and>
           pageLSN p' = (if lsn \<noteq> 0 then lsn else pageLSN p)
        else page_get p' = page_get p \<and> pageLSN p' = pageLSN p)"
  proof (cases "page_get p (int s) = Some record")
    case True
    then show ?thesis using redoSet_present [OF wf fresh True] redo stamp_spec [OF wf] lsn
      by (auto simp: fun_upd_idem)
  next
    case False
    define q where "q = redo_target p s"
    define q' where "q' = (if freeSpace q < int (length record) then compact q else q)"
    note T = redo_target_spec [OF wf room, folded q_def]
    note R = redoSet_write [OF wf room fresh False rec, folded q_def]
    show ?thesis
    proof (cases "usableSpace q < int (length record)")
      case True
      then show ?thesis using R redo T wf by (auto simp: Let_def split: if_splits)
    next
      case usable: False
      have wf': "wf_page q'" "slotCount q' = slotCount q" "page_get q' = page_get p" "pageLSN q' = pageLSN p"
        using compact_spec [OF T(1)] T(1,2,3) by (simp_all add: q'_def)
      have room': "12 + 4 * slotCount q' + length record \<le> freeEnd q'"
        using usable compact_spec(5) [OF T(1)] by (auto simp: q'_def freeSpace_eq split: if_splits)
      have "s < slotCount q'" using T(4) wf' by simp
      then have mx: "slotCount q' = max (slotCount q') (Suc s)" and sle: "s \<le> slotCount q'" by auto
      have p': "p' = stamp lsn (place q' s record (slotCount q'))" "ok"
        using R redo usable by (auto simp: Let_def q'_def)
      note P = place_spec [OF wf'(1) rec mx sle room']
      show ?thesis using stamp_spec [OF P(1)] P lsn wf' by (simp add: p')
    qed
  qed
  then show "wf_page p'"
    and "ok \<Longrightarrow> page_get p' = (page_get p)(int s := Some record) \<and>
           pageLSN p' = (if lsn \<noteq> 0 then lsn else pageLSN p)"
    and "\<not> ok \<Longrightarrow> page_get p' = page_get p \<and> pageLSN p' = pageLSN p"
    by (auto split: if_splits)
qed

lemma redoClear_spec:
  assumes wf: "wf_page p" and lsn: "lsn < 2 ^ 64"
  shows "wf_page (redoClear p slot lsn)"
    and "page_get (redoClear p slot lsn) =
           (if lsn \<noteq> 0 \<and> lsn \<le> pageLSN p then page_get p else (page_get p)(slot := None))"
    and "pageLSN (redoClear p slot lsn) = (if lsn \<noteq> 0 then max lsn (pageLSN p) else pageLSN p)"
    and "slotCount (redoClear p slot lsn) = slotCount p"
proof -
  define q where "q = (if slot \<ge> 0 \<and> slot < int (slotCount p)
                 then (case slotAt p slot of (offset, len) \<Rightarrow> setSlot p slot offset 0) else p)"
  have q: "wf_page q \<and> page_get q = (page_get p)(slot := None) \<and> pageLSN q = pageLSN p \<and>
      slotCount q = slotCount p"
  proof (cases "slot \<ge> 0 \<and> slot < int (slotCount p)")
    case True
    then obtain s where s: "slot = int s" "s < slotCount p" by (metis of_nat_less_iff zero_le_imp_eq_int)
    show ?thesis
    proof (cases "slot_len p s = 0")
      case False
      then have "page_erase p slot = Some q"
        using s by (simp add: page_erase_def isLive_int q_def slotAt_int)
      then show ?thesis using page_erase_Some [OF wf] by simp
    next
      case True
      then have "readU16 p (12 + 4 * s + 2) = 0" by (simp add: slot_len_def add.commute)
      have q': "q = setSlot p (int s) (slot_off p s) (slot_len p s)"
        using s True by (simp add: q_def slotAt_int)
      have "q = p"
      proof -
        have "writeU16 p o' (readU16 p o') = p" for o'
          unfolding writeU16_def readU16_def by (rule mwrite_mread_id) simp
        then show ?thesis by (simp add: q' setSlot_int slot_off_def slot_len_def)
      qed
      moreover have "page_get p slot = None" using s True by (simp add: page_get_int)
      ultimately show ?thesis using wf by (simp add: fun_upd_idem)
    qed
  next
    case False
    then have "page_get p slot = None" by (cases "slot < 0") (simp_all add: page_get_neg page_get_ge)
    with False show ?thesis using wf by (auto simp: q_def fun_upd_idem)
  qed
  have eq: "redoClear p slot lsn = (if lsn \<noteq> 0 \<and> lsn \<le> pageLSN p then p else stamp lsn q)"
    using wf_page_not_blank [OF wf] by (simp add: redoClear_def Let_def q_def stamp_def)
  show "wf_page (redoClear p slot lsn)"
    and "page_get (redoClear p slot lsn) =
           (if lsn \<noteq> 0 \<and> lsn \<le> pageLSN p then page_get p else (page_get p)(slot := None))"
    and "pageLSN (redoClear p slot lsn) = (if lsn \<noteq> 0 then max lsn (pageLSN p) else pageLSN p)"
    and "slotCount (redoClear p slot lsn) = slotCount p"
    using q stamp_spec [of q lsn] wf lsn by (auto simp: eq)
qed


section \<open>Properties\<close>

text \<open>The page a default-constructed \<open>Page\<close> holds.\<close>

definition new_page :: page where
  "new_page = page_init (\<lambda>_. char_of (0::nat))"

lemma new_page_fields [simp]:
  "slotCount new_page = 0" "freeEnd new_page = 4096" "pageLSN new_page = 0"
  "page_get new_page = (\<lambda>_. None)" "wf_page new_page"
  by (simp_all add: new_page_def page_get_init wf_page_init)

lemma new_page_space [simp]: "freeSpace new_page = 4084" "usableSpace new_page = 4084"
  by (simp_all add: freeSpace_eq usableSpace_eq)

lemma insert_new_page:
  "record \<noteq> [] \<Longrightarrow> length record \<le> 4080 \<Longrightarrow>
   page_insert new_page record = Some (place new_page 0 record 1, 0)"
  by (simp add: page_insert_place)

text \<open>C1: A record is stored in a new slot exactly when it is non-empty and fits the usable
  space (compacting if the free gap alone is too small); then the page maps the new slot to
  the record, every other slot reads as before, the layout invariant and the page LSN are
  kept.\<close>

theorem page_insert_refines:
  assumes "wf_page p"
  shows "case page_insert p record of
      None \<Rightarrow> record = [] \<or> usableSpace p < int (length record) + 4
    | Some (p', slot) \<Rightarrow> record \<noteq> [] \<and> int (length record) + 4 \<le> usableSpace p \<and>
        wf_page p' \<and> slot = int (slotCount p) \<and> page_get p slot = None \<and>
        page_get p' = (page_get p)(slot := Some record) \<and> pageLSN p' = pageLSN p"
proof (cases "page_insert p record")
  case None
  then have "record = [] \<or> usableSpace p < int (length record) + 4"
    using page_insert_None_iff [OF assms] by blast
  with None show ?thesis by (simp only: option.case)
next
  case (Some r)
  moreover have "page_insert p record \<noteq> None" using Some by simp
  ultimately show ?thesis
    using page_insert_None_iff [OF assms, of "record"] page_insert_Some [OF assms, of "record"]
    by (cases r) auto
qed

theorem page_insert_refines_witness:
  "\<exists>p'. page_insert new_page ''abc'' = Some (p', 0) \<and> page_get p' 0 = Some ''abc''"
  using page_insert_refines [of new_page "''abc''"] insert_new_page [of "''abc''"] by simp

text \<open>C10: Compaction moves records but changes no slot's contents, keeps the invariant, the
  slot count and the page LSN, and turns all reclaimable space into one free gap.\<close>

theorem compact_keeps_records:
  assumes "wf_page p"
  shows "wf_page (compact p) \<and> page_get (compact p) = page_get p \<and>
    slotCount (compact p) = slotCount p \<and> pageLSN (compact p) = pageLSN p \<and>
    freeSpace (compact p) = usableSpace p"
  using compact_spec [OF assms] by simp

theorem compact_keeps_records_witness:
  "page_get (compact (place new_page 0 ''abc'' 1)) 0 = Some ''abc''"
proof -
  have "wf_page (place new_page 0 ''abc'' 1) \<and>
      page_get (place new_page 0 ''abc'' 1) = (page_get new_page)(0 := Some ''abc'')"
    using place_spec [OF new_page_fields(5), of "''abc''" 1 0] by simp
  then show ?thesis using compact_keeps_records [of "place new_page 0 ''abc'' 1"] by simp
qed

text \<open>Redo of a record at an exact slot, on a page whose slot array can grow to that
  slot without reaching the records: it keeps the invariant, is skipped when the page LSN
  is already at or past the log record's, otherwise leaves exactly that slot changed and
  stamps the page, and replaying the same log record again changes nothing.\<close>

lemma redoSet_idempotent:
  assumes "wf_page p" and "s < slotCount p \<or> 16 + 4 * s \<le> freeEnd p"
    and "record \<noteq> []" and "lsn < 2 ^ 64" and "redoSet p (int s) record lsn = (p', True)"
  shows "wf_page p' \<and> redoSet p' (int s) record lsn = (p', True) \<and>
    (if lsn \<noteq> 0 \<and> lsn \<le> pageLSN p then p' = p
     else page_get p' = (page_get p)(int s := Some record) \<and>
          pageLSN p' = (if lsn \<noteq> 0 then lsn else pageLSN p))"
proof (cases "lsn \<noteq> 0 \<and> lsn \<le> pageLSN p")
  case True
  then show ?thesis using redoSet_skip [OF assms(1)] assms by simp
next
  case False
  then have fresh: "lsn = 0 \<or> pageLSN p < lsn" by auto
  note S = redoSet_spec [OF assms(1,2) fresh assms(4,3,5)]
  have "redoSet p' (int s) record lsn = (p', True)"
  proof (cases "lsn = 0")
    case True
    then show ?thesis using S redoSet_present [of p' 0 "int s" "record"] by (simp add: stamp_def)
  next
    case False
    then show ?thesis using S redoSet_skip [of p' lsn] by simp
  qed
  then show ?thesis using S False by auto
qed

lemma redoSet_idempotent_witness:
  "\<exists>p'. redoSet new_page 2 ''abc'' 7 = (p', True) \<and> page_get p' 2 = Some ''abc'' \<and>
     redoSet p' 2 ''abc'' 7 = (p', True)"
proof -
  have room: "2 < slotCount new_page \<or> 16 + 4 * 2 \<le> freeEnd new_page" by simp
  define q where "q = redo_target new_page 2"
  have q: "slotCount q = 3" "slot_len q t = (if t \<le> 2 then 0 else slot_len new_page t)" for t
    using extend_slots_fields [of new_page 2] by (simp_all add: q_def redo_target_def)
  have "usableSpace q = 4072"
    by (simp add: usableSpace_eq q numeral_3_eq_3)
  then have "\<exists>p'. redoSet new_page 2 ''abc'' 7 = (p', True)"
    using redoSet_write [OF _ room, of 7 "''abc''"] by (simp add: Let_def flip: q_def)
  then obtain p' where p': "redoSet new_page 2 ''abc'' 7 = (p', True)" by blast
  then show ?thesis
    using redoSet_idempotent [OF _ room, of "''abc''" 7 p'] by simp
qed

text \<open>Where the slot array cannot grow without reaching the records, redo still grows it
  first and compacts afterwards, so it overwrites a live neighbour: after two inserts and an
  erase done by the class itself, replaying an insert at slot 2 zeroes the record of slot 1.\<close>

lemma redoSet_overwrites_neighbour:
  "\<exists>p1 p2 p3. page_insert new_page (replicate 4072 CHR ''a'') = Some (p1, 0) \<and>
     page_insert p1 ''abcd'' = Some (p2, 1) \<and> page_erase p2 0 = Some p3 \<and>
     wf_page p3 \<and> page_get p3 1 = Some ''abcd'' \<and>
     snd (redoSet p3 2 ''x'' 1) \<and>
     page_get (fst (redoSet p3 2 ''x'' 1)) 1 = Some (replicate 4 (char_of (0::nat)))"
proof -
  obtain big :: bytes where big: "big = replicate 4072 CHR ''a''" by simp
  then have len: "length big = 4072" by (simp only: length_replicate)
  then have ne: "big \<noteq> []" by auto
  define p1 where "p1 = place new_page 0 big 1"
  have i1: "page_insert new_page big = Some (p1, 0)"
    using insert_new_page [OF ne] len by (simp add: p1_def)
  note I1 = page_insert_Some [OF new_page_fields(5) i1]
  have fe1: "freeEnd p1 = 24" "slotCount p1 = 1"
    using len by (simp_all add: p1_def place_def Let_def mem_simps)
  define p2 where "p2 = place p1 1 ''abcd'' 2"
  have i2: "page_insert p1 ''abcd'' = Some (p2, 1)"
    using freeSpace_le_usable [OF I1(1)] fe1
    by (simp add: page_insert_place [OF I1(1)] freeSpace_eq p2_def numeral_2_eq_2)
  note I2 = page_insert_Some [OF I1(1) i2]
  have s2: "slotCount p2 = 2" "freeEnd p2 = 20" "slot_off p2 1 = 20" "slot_len p2 1 = 4"
    using setSlot_int [of _ 1] slot_off_setSlot [of _ _ 1] slot_len_setSlot [of _ _ 1]
      header_setSlot [of _ 1] fe1
    by (simp_all add: p2_def place_def Let_def mem_simps)
  have "page_get p2 0 \<noteq> None" using I1(2,3) I2(2,3) by simp
  then obtain p3 where e: "page_erase p2 0 = Some p3"
    using page_erase_None_iff [of p2 0] by auto
  note E = page_erase_Some [OF I2(1) e]
  have p3: "p3 = setSlot p2 (int 0) (slot_off p2 0) 0"
    using e slotAt_int [of p2 0] by (auto simp: page_erase_def split: if_splits)
  have s3: "slotCount p3 = 2" "freeEnd p3 = 20" "slot_len p3 0 = 0" "slot_off p3 1 = 20"
    "slot_len p3 1 = 4" "pageLSN p3 = 0"
    using s2 E(3,4) I1(5) I2(5) slot_len_setSlot [of 0 p2 0] slot_off_setSlot [of "slot_off p2 0" p2 0]
    by (simp_all only: p3 header_setSlot) simp_all
  define q where "q = extend_slots p3 2"
  have q: "slotCount q = 3" "freeEnd q = 20" "slot_off q 1 = 20" "slot_len q 1 = 4"
    "slot_len q 0 = 0" "slot_len q 2 = 0"
    using extend_slots_fields [of p3 2] s3 by (simp_all add: q_def)
  have upt: "[int 2..int 2] = [int 2]" by simp
  have q': "q = writeU16 (setSlot p3 (int 2) 0 0) 0 3"
    unfolding q_def extend_slots_def s3(1) upt by simp
  have zero: "mread q 20 4 = replicate 4 (char_of (0::nat))"
  proof -
    have "[0..<4] = [0, 1, 2, 3::nat]" by (simp add: upt_rec)
    moreover have "replicate 4 c = [c, c, c, c]" for c :: char by (simp add: numeral_eq_Suc)
    moreover have "le_bytes 2 0 = [char_of (0::nat), char_of (0::nat)]" by (simp add: numeral_2_eq_2)
    ultimately show ?thesis
      unfolding q' setSlot_int by (simp add: mread_def writeU16_def mwrite_def)
  qed
  have upt3: "[0..<3] = [0, 1, 2::nat]" by (simp add: upt_rec)
  have free: "freeSpace q = - 4" "usableSpace q = 4068"
    by (simp_all add: freeSpace_eq usableSpace_eq q q [unfolded One_nat_def] upt3)
  have live: "live_records q = [(int 1, replicate 4 (char_of (0::nat)))]"
    by (simp add: live_records_eq q q [unfolded One_nat_def] upt3 zero)
  define z where "z = replicate 4 (char_of (0::nat))"
  have lz: "length z = 4" by (simp add: z_def)
  define c where "c = setSlot (mwrite q 4092 z) (int 1) 4092 4"
  have comp: "compact q = writeU16 c 2 4092"
    by (simp add: compact_def live [folded z_def] compact_step_def Let_def page_consts lz c_def)
  have c: "slotCount c = 3" "slot_off c 1 = 4092" "slot_len c 1 = 4" "mread c 4092 4 = z"
    using q lz by (simp_all only: c_def header_setSlot slot_off_setSlot slot_len_setSlot mread_setSlot)
      (simp_all add: mem_simps)
  have ext: "extendSlots p3 2 = q"
    using s3 by (simp add: extendSlots_def q_def extend_slots_def)
  have none: "page_get p3 2 = None" using s3 by (simp add: page_get_ge)
  define r where "r = writeU16 (setSlot (mwrite (writeU16 c 2 4092) 4091 ''x'') (int 2) 4091 1) 2 4091"
  have fe: "readU16 (writeU16 c 2 4092) 2 = 4092" by (simp add: mem_simps)
  have redo: "redoSet p3 2 ''x'' 1 = (setPageLSN r 1, True)"
    using wf_page_not_blank [OF E(1)] s3 none
    by (simp add: redoSet_def Let_def ext free comp fe r_def)
  have "mread r 4092 4 = mread (mwrite (writeU16 c 2 4092) 4091 ''x'') 4092 4"
    unfolding r_def by (subst mread_writeU16, simp, subst mread_setSlot, simp, rule refl)
  then have "mread r 4092 4 = z" using c(4) by (simp add: mem_simps)
  moreover have "slotCount r = 3" "slot_off r 1 = 4092" "slot_len r 1 = 4"
    using c(1-3) by (simp_all only: r_def header_writeU16 header_setSlot slot_off_setSlot slot_len_setSlot
        slot_writeU16) (simp_all add: mem_simps)
  ultimately have "page_get (setPageLSN r 1) (int 1) = Some z"
    using page_get_int [of "setPageLSN r 1" 1] by (simp add: mem_simps)
  then show ?thesis
    using redo i1 i2 e E I2(2,3) fe1 unfolding big z_def
    by (intro exI [of _ p1] exI [of _ p2] exI [of _ p3]) simp
qed

end
