(* ===== verification/Disk.thy ===== *)
theory Disk
  imports Page
begin

text \<open>
  The disk manager of \<open>src/backend/disk_manager.cpp\<close>: a file of 4096-byte pages. The file
  is its byte contents; \<open>seekg\<close>/\<open>seekp\<close> to a negative position fail, a read past the
  end is completed with zeros, and a write past the end fills the hole with zeros, as the
  stream library does. Synchronising the file (\<open>fsync\<close>) is I/O and has no effect on the
  contents.
\<close>

record disk =
  fileBytes :: bytes
  numPages :: int

abbreviation NUL :: char where
  "NUL \<equiv> char_of (0::nat)"

definition disk_open :: "bytes \<Rightarrow> bool \<Rightarrow> disk" where
  "disk_open existing trunc =
     (let bytes = (if trunc then [] else existing)
      in \<lparr>fileBytes = bytes, numPages = int (length bytes div PAGE_SIZE)\<rparr>)"

definition page_bytes :: "page \<Rightarrow> bytes" where
  "page_bytes p = mread p 0 PAGE_SIZE"

definition file_write :: "bytes \<Rightarrow> nat \<Rightarrow> bytes \<Rightarrow> bytes" where
  "file_write f off bs =
     take off (f @ replicate (off - length f) NUL) @ bs @ drop (off + length bs) f"

text \<open>
  \<open>readPage(id, out)\<close> fills the first \<open>PAGE_SIZE\<close> bytes of \<open>out\<close>: \<open>got\<close> bytes from
  the file, zeros for the rest.
\<close>

definition readPage :: "disk \<Rightarrow> int \<Rightarrow> page \<Rightarrow> page" where
  "readPage d pid out =
     (let bytes = (if pid < 0 then [] else take PAGE_SIZE (drop (nat pid * PAGE_SIZE) (fileBytes d)));
          got = length bytes
      in mwrite (memset out got NUL (PAGE_SIZE - got)) 0 bytes)"

definition writePage :: "disk \<Rightarrow> int \<Rightarrow> page \<Rightarrow> disk" where
  "writePage d pid inp =
     (let d = (if pid < 0 then d
               else d\<lparr>fileBytes := file_write (fileBytes d) (nat pid * PAGE_SIZE) (page_bytes inp)\<rparr>)
      in if pid + 1 > numPages d then d\<lparr>numPages := pid + 1\<rparr> else d)"

definition allocatePage :: "disk \<Rightarrow> disk \<times> int" where
  "allocatePage d =
     (let pid = numPages d;
          d = d\<lparr>numPages := pid + 1\<rparr>;
          zeros = replicate PAGE_SIZE NUL
      in (if pid < 0 then d
          else d\<lparr>fileBytes := file_write (fileBytes d) (nat pid * PAGE_SIZE) zeros\<rparr>, pid))"

section \<open>The pages a disk holds\<close>

definition blank :: page where
  "blank = (\<lambda>_. NUL)"

definition disk_page :: "disk \<Rightarrow> int \<Rightarrow> page" where
  "disk_page d pid = readPage d pid blank"

text \<open>A page whose memory was never written past its array.\<close>

definition in_page :: "page \<Rightarrow> bool" where
  "in_page p \<longleftrightarrow> (\<forall>i \<ge> PAGE_SIZE. p i = NUL)"

lemma wf_page_in_page [simp]: "wf_page p \<Longrightarrow> in_page p"
  by (simp add: wf_page_def in_page_def)

lemma length_page_bytes [simp]: "length (page_bytes p) = PAGE_SIZE"
  by (simp add: page_bytes_def)

lemma nth_page_bytes [simp]: "i < PAGE_SIZE \<Longrightarrow> page_bytes p ! i = p i"
  by (simp add: page_bytes_def mread_def)

text \<open>Byte \<open>i\<close> of page \<open>pid\<close>, read through the file.\<close>

definition file_at :: "bytes \<Rightarrow> nat \<Rightarrow> char" where
  "file_at f i = (if i < length f then f ! i else NUL)"

lemma readPage_at:
  "readPage d pid out i =
     (if PAGE_SIZE \<le> i then out i
      else if pid < 0 then NUL else file_at (fileBytes d) (nat pid * PAGE_SIZE + i))"
proof (cases "pid < 0")
  case True
  then show ?thesis by (simp add: readPage_def Let_def memset_def mwrite_def)
next
  case False
  then show ?thesis
    by (auto simp: readPage_def Let_def memset_def mwrite_def file_at_def min_def)
qed

lemma disk_page_at:
  "disk_page d pid i =
     (if PAGE_SIZE \<le> i \<or> pid < 0 then NUL else file_at (fileBytes d) (nat pid * PAGE_SIZE + i))"
  by (simp add: disk_page_def readPage_at blank_def)

lemma in_page_disk_page [simp]: "in_page (disk_page d pid)"
  by (simp add: in_page_def disk_page_at)

lemma readPage_eq_disk_page: "in_page out \<Longrightarrow> readPage d pid out = disk_page d pid"
  by (rule ext) (auto simp: readPage_at disk_page_at in_page_def)

lemma file_at_file_write:
  "file_at (file_write f off bs) i =
     (if off \<le> i \<and> i < off + length bs then bs ! (i - off) else file_at f i)"
proof -
  define pre where "pre = take off (f @ replicate (off - length f) NUL)"
  have len: "length pre = off" by (simp add: pre_def)
  have at: "pre ! i = file_at f i" if "i < off" for i
    using that by (auto simp: pre_def file_at_def nth_append)
  have w: "file_write f off bs = pre @ bs @ drop (off + length bs) f"
    by (simp add: file_write_def pre_def)
  show ?thesis
  proof (cases "i < off")
    case True
    then show ?thesis using at [OF True] len by (simp add: file_at_def w nth_append)
  next
    case False
    then show ?thesis by (auto simp: file_at_def w nth_append len less_diff_conv2)
  qed
qed

lemma page_slot_disjoint:
  assumes "(a::nat) \<noteq> b" "i < n" "j < n"
  shows "a * n + i \<noteq> b * n + j"
proof
  assume "a * n + i = b * n + j"
  then have "(a * n + i) div n = (b * n + j) div n" by simp
  then show False using assms by simp
qed

lemma disk_page_file_write:
  assumes "length bs = PAGE_SIZE" and "fileBytes d' = file_write (fileBytes d) (nat pid * PAGE_SIZE) bs"
    and "0 \<le> pid"
  shows "disk_page d' pid' = (if pid' = pid then \<lambda>i. if i < PAGE_SIZE then bs ! i else NUL
                             else disk_page d pid')"
proof
  fix i
  show "disk_page d' pid' i = (if pid' = pid then \<lambda>i. if i < PAGE_SIZE then bs ! i else NUL
                             else disk_page d pid') i"
  proof (cases "pid' < 0 \<or> PAGE_SIZE \<le> i")
    case True
    then show ?thesis using assms(3) by (auto simp: disk_page_at)
  next
    case False
    then have eq: "disk_page d' pid' i = file_at (file_write (fileBytes d) (nat pid * PAGE_SIZE) bs) (nat pid' * PAGE_SIZE + i)"
      by (simp add: disk_page_at assms)
    show ?thesis
    proof (cases "pid' = pid")
      case True
      then show ?thesis using False assms(1) eq by (simp add: file_at_file_write)
    next
      case neq: False
      then have "nat pid' \<noteq> nat pid" using False assms(3) by (simp add: nat_eq_iff)
      then have "\<not> (nat pid * PAGE_SIZE \<le> nat pid' * PAGE_SIZE + i \<and>
          nat pid' * PAGE_SIZE + i < nat pid * PAGE_SIZE + length bs)"
        using page_slot_disjoint [of "nat pid'" "nat pid" i PAGE_SIZE
            "nat pid' * PAGE_SIZE + i - nat pid * PAGE_SIZE"] False assms(1)
        by fastforce
      then have "file_at (file_write (fileBytes d) (nat pid * PAGE_SIZE) bs) (nat pid' * PAGE_SIZE + i)
          = file_at (fileBytes d) (nat pid' * PAGE_SIZE + i)"
        by (auto simp: file_at_file_write)
      then show ?thesis using neq False eq by (simp add: disk_page_at)
    qed
  qed
qed

lemma disk_page_writePage:
  assumes "0 \<le> pid" "in_page p"
  shows "disk_page (writePage d pid p) = (disk_page d)(pid := p)"
proof
  fix pid'
  have "disk_page (writePage d pid p) pid' =
    (if pid' = pid then \<lambda>i. if i < PAGE_SIZE then page_bytes p ! i else NUL else disk_page d pid')"
    by (rule disk_page_file_write) (use assms in \<open>auto simp: writePage_def Let_def\<close>)
  moreover have "(\<lambda>i. if i < PAGE_SIZE then page_bytes p ! i else NUL) = p"
    using assms(2) by (auto simp: in_page_def)
  ultimately show "disk_page (writePage d pid p) pid' = ((disk_page d)(pid := p)) pid'" by simp
qed

lemma numPages_writePage [simp]: "numPages (writePage d pid p) = max (numPages d) (pid + 1)"
  by (simp add: writePage_def Let_def)

lemma disk_page_allocatePage:
  assumes "allocatePage d = (d', pid)" "0 \<le> numPages d"
  shows "pid = numPages d" "numPages d' = numPages d + 1"
    "disk_page d' = (disk_page d)(pid := blank)"
proof -
  show "pid = numPages d" "numPages d' = numPages d + 1"
    using assms by (auto simp: allocatePage_def Let_def split: if_splits)
  have "disk_page d' pid' = (if pid' = pid then \<lambda>i. if i < PAGE_SIZE then replicate PAGE_SIZE NUL ! i else NUL
      else disk_page d pid')" for pid'
    by (rule disk_page_file_write) (use assms in \<open>auto simp: allocatePage_def Let_def split: if_splits\<close>)
  moreover have "(\<lambda>i. if i < PAGE_SIZE then replicate PAGE_SIZE NUL ! i else NUL) = blank"
    by (auto simp: blank_def)
  ultimately show "disk_page d' = (disk_page d)(pid := blank)" by auto
qed

end
