(* ===== verification/BufferPool.thy ===== *)
theory BufferPool
  imports Disk
begin

text \<open>
  The buffer pool of \<open>src/src/backend/buffer_pool.cpp\<close> and the scoped pin of
  \<open>page_guard.hpp\<close>. A pool caches pages of the disk in frames; a frame is free, pinned
  by its users, or unpinned and in the LRU list. The list \<open>lru_\<close> is kept with its nodes
  (\<open>std::list\<close> iterators are the node identities), so \<open>removeFromLru\<close> erases the node
  that \<open>lruPos_\<close> remembers, as in the code. The ghost field \<open>trace\<close> records the order
  of the pool's externally visible effects: runs of the pre-evict hook and page writes.

  The abstraction is \<open>pool_content\<close>, the page every page number stands for: the frame
  when the page is cached, the disk otherwise. The invariant \<open>pool_ok\<close> has two
  parameters: the frames taken from the free structures and not yet published (a hole in the
  middle of \<open>fetchPage\<close>), and the pinned frames whose user has changed the page without
  having announced it yet by an \<open>unpin\<close> with the dirty flag.
\<close>

section \<open>State and operations\<close>

record frame =
  fr_page :: page
  pageId :: int
  pinCount :: int
  dirty :: bool
  valid :: bool

datatype pool_event = HookRun | PageWrite int page

record pool =
  pl_disk :: disk
  frames :: "frame list"
  page_table :: "int \<Rightarrow> nat option"
  lru :: "(nat \<times> nat) list"
  lruPos :: "nat \<Rightarrow> nat option"
  nextNode :: nat
  freeList :: "nat list"
  hooked :: bool
  trace :: "pool_event list"

definition empty_frame :: frame where
  "empty_frame = \<lparr>fr_page = page_init blank, pageId = - 1, pinCount = 0, dirty = False, valid = False\<rparr>"

definition pool_open :: "disk \<Rightarrow> nat \<Rightarrow> bool \<Rightarrow> pool" where
  "pool_open d numFrames hook =
     (let numFrames = (if numFrames = 0 then 1 else numFrames)
      in \<lparr>pl_disk = d, frames = replicate numFrames empty_frame, page_table = Map.empty, lru = [],
          lruPos = Map.empty, nextNode = 0, freeList = rev [0..<numFrames], hooked = hook,
          trace = []\<rparr>)"

definition findFrame :: "pool \<Rightarrow> int \<Rightarrow> nat option" where
  "findFrame pl pid = page_table pl pid"

definition touchUnpinned :: "pool \<Rightarrow> nat \<Rightarrow> pool" where
  "touchUnpinned pl i =
     pl\<lparr>lru := lru pl @ [(nextNode pl, i)], lruPos := (lruPos pl)(i \<mapsto> nextNode pl),
        nextNode := Suc (nextNode pl)\<rparr>"

definition removeFromLru :: "pool \<Rightarrow> nat \<Rightarrow> pool" where
  "removeFromLru pl i =
     (case lruPos pl i of
        None \<Rightarrow> pl
      | Some node \<Rightarrow> pl\<lparr>lru := filter (\<lambda>e. fst e \<noteq> node) (lru pl),
                        lruPos := (lruPos pl)(i := None)\<rparr>)"

definition set_frame :: "pool \<Rightarrow> nat \<Rightarrow> frame \<Rightarrow> pool" where
  "set_frame pl i f = pl\<lparr>frames := (frames pl)[i := f]\<rparr>"

definition write_back :: "pool \<Rightarrow> frame \<Rightarrow> pool" where
  "write_back pl f =
     pl\<lparr>pl_disk := writePage (pl_disk pl) (pageId f) (fr_page f),
        trace := trace pl @ [PageWrite (pageId f) (fr_page f)]\<rparr>"

definition run_hook :: "pool \<Rightarrow> pool" where
  "run_hook pl = (if hooked pl then pl\<lparr>trace := trace pl @ [HookRun]\<rparr> else pl)"

definition acquireFrame :: "pool \<Rightarrow> pool \<times> nat option" where
  "acquireFrame pl =
     (if freeList pl \<noteq> [] then
        (pl\<lparr>freeList := butlast (freeList pl)\<rparr>, Some (last (freeList pl)))
      else case lru pl of
        [] \<Rightarrow> (pl, None)
      | (node, victim) # rest \<Rightarrow>
          let pl = pl\<lparr>lru := rest, lruPos := (lruPos pl)(victim := None)\<rparr>;
              f = frames pl ! victim;
              pl = (if valid f \<and> dirty f then write_back (run_hook pl) f else pl);
              pl = (if valid f then pl\<lparr>page_table := (page_table pl)(pageId f := None)\<rparr> else pl)
          in (set_frame pl victim (f\<lparr>valid := False, dirty := False, pinCount := 0\<rparr>), Some victim))"

definition fetchPage :: "pool \<Rightarrow> int \<Rightarrow> pool \<times> nat option" where
  "fetchPage pl pid =
     (case findFrame pl pid of
        Some i \<Rightarrow>
          let f = frames pl ! i;
              pl = (if pinCount f = 0 then removeFromLru pl i else pl)
          in (set_frame pl i (f\<lparr>pinCount := pinCount f + 1\<rparr>), Some i)
      | None \<Rightarrow>
          case acquireFrame pl of
            (pl, None) \<Rightarrow> (pl, None)
          | (pl, Some i) \<Rightarrow>
              let f = frames pl ! i;
                  p = readPage (pl_disk pl) pid (fr_page f);
                  f = f\<lparr>fr_page := p, pageId := pid, pinCount := 1, dirty := False, valid := True\<rparr>;
                  pl = set_frame pl i f
              in (pl\<lparr>page_table := (page_table pl)(pid \<mapsto> i)\<rparr>, Some i))"

definition newPage :: "pool \<Rightarrow> pool \<times> (int \<times> nat) option" where
  "newPage pl =
     (let (d, pid) = allocatePage (pl_disk pl);
          pl = pl\<lparr>pl_disk := d\<rparr>
      in case acquireFrame pl of
           (pl, None) \<Rightarrow> (pl, None)
         | (pl, Some i) \<Rightarrow>
             let f = frames pl ! i;
                 f = f\<lparr>fr_page := page_init (fr_page f), pageId := pid, pinCount := 1,
                       dirty := True, valid := True\<rparr>;
                 pl = set_frame pl i f
             in (pl\<lparr>page_table := (page_table pl)(pid \<mapsto> i)\<rparr>, Some (pid, i)))"

definition unpin :: "pool \<Rightarrow> int \<Rightarrow> bool \<Rightarrow> pool \<times> bool" where
  "unpin pl pid is_dirty =
     (case findFrame pl pid of
        None \<Rightarrow> (pl, False)
      | Some i \<Rightarrow>
          let f = frames pl ! i;
              f = (if is_dirty then f\<lparr>dirty := True\<rparr> else f);
              f = (if pinCount f > 0 then f\<lparr>pinCount := pinCount f - 1\<rparr> else f);
              pl = set_frame pl i f
          in (if pinCount f = 0 then touchUnpinned pl i else pl, True))"

definition flush :: "pool \<Rightarrow> int \<Rightarrow> pool \<times> bool" where
  "flush pl pid =
     (case findFrame pl pid of
        None \<Rightarrow> (pl, False)
      | Some i \<Rightarrow>
          let f = frames pl ! i
          in (set_frame (write_back pl f) i (f\<lparr>dirty := False\<rparr>), True))"

definition flush_frame :: "pool \<Rightarrow> nat \<Rightarrow> pool" where
  "flush_frame pl i =
     (let f = frames pl ! i
      in if valid f \<and> dirty f then set_frame (write_back pl f) i (f\<lparr>dirty := False\<rparr>) else pl)"

definition flushAll :: "pool \<Rightarrow> pool" where
  "flushAll pl = foldl flush_frame pl [0..<length (frames pl)]"

text \<open>
  A caller holds a \<open>Page*\<close> and changes the page through it: \<open>put_page\<close>. A
  \<open>PageGuard\<close> unpins on every way out of its scope with the flag \<open>markDirty\<close> left, so a
  scope that fetches a page, works on it and leaves is \<open>guarded\<close>: the body maps the page
  to the new page, whether the guard was marked dirty, and a result.
\<close>

definition put_page :: "pool \<Rightarrow> nat \<Rightarrow> page \<Rightarrow> pool" where
  "put_page pl i p = set_frame pl i ((frames pl ! i)\<lparr>fr_page := p\<rparr>)"

definition guarded ::
  "pool \<Rightarrow> int \<Rightarrow> (page \<Rightarrow> page \<times> bool \<times> 'a) \<Rightarrow> pool \<times> 'a option" where
  "guarded pl pid body =
     (case fetchPage pl pid of
        (pl, None) \<Rightarrow> (pl, None)
      | (pl, Some i) \<Rightarrow>
          let (p, marked, r) = body (fr_page (frames pl ! i))
          in (fst (unpin (put_page pl i p) pid marked), Some r))"

definition guarded_new ::
  "pool \<Rightarrow> (page \<Rightarrow> page \<times> bool \<times> 'a) \<Rightarrow> pool \<times> (int \<times> 'a) option" where
  "guarded_new pl body =
     (case newPage pl of
        (pl, None) \<Rightarrow> (pl, None)
      | (pl, Some (pid, i)) \<Rightarrow>
          let (p, marked, r) = body (fr_page (frames pl ! i))
          in (fst (unpin (put_page pl i p) pid marked), Some (pid, r)))"

section \<open>Abstraction and invariant\<close>

definition pool_content :: "pool \<Rightarrow> int \<Rightarrow> page" where
  "pool_content pl pid =
     (case page_table pl pid of
        Some i \<Rightarrow> fr_page (frames pl ! i)
      | None \<Rightarrow> disk_page (pl_disk pl) pid)"

definition pool_pages :: "pool \<Rightarrow> int" where
  "pool_pages pl = numPages (pl_disk pl)"

definition frame_ok :: "int \<Rightarrow> frame \<Rightarrow> bool" where
  "frame_ok n f \<longleftrightarrow> 0 \<le> pinCount f \<and> in_page (fr_page f) \<and>
     (valid f \<longrightarrow> 0 \<le> pageId f \<and> pageId f < n)"

definition table_ok :: "pool \<Rightarrow> bool" where
  "table_ok pl \<longleftrightarrow> (\<forall>pid i. page_table pl pid = Some i \<longleftrightarrow>
     i < length (frames pl) \<and> valid (frames pl ! i) \<and> pageId (frames pl ! i) = pid)"

definition lru_ok :: "pool \<Rightarrow> bool" where
  "lru_ok pl \<longleftrightarrow> distinct (map fst (lru pl)) \<and> distinct (map snd (lru pl)) \<and>
     (\<forall>e\<in>set (lru pl). fst e < nextNode pl) \<and>
     (\<forall>i node. lruPos pl i = Some node \<longleftrightarrow> (node, i) \<in> set (lru pl)) \<and>
     snd ` set (lru pl) = {i. i < length (frames pl) \<and> valid (frames pl ! i) \<and> pinCount (frames pl ! i) = 0}"

definition free_ok :: "pool \<Rightarrow> nat set \<Rightarrow> bool" where
  "free_ok pl H \<longleftrightarrow> distinct (freeList pl) \<and>
     set (freeList pl) = {i. i < length (frames pl) \<and> \<not> valid (frames pl ! i)} - H"

definition clean_ok :: "pool \<Rightarrow> nat set \<Rightarrow> bool" where
  "clean_ok pl M \<longleftrightarrow>
     (\<forall>i < length (frames pl). valid (frames pl ! i) \<and> \<not> dirty (frames pl ! i) \<and> i \<notin> M \<longrightarrow>
        fr_page (frames pl ! i) = disk_page (pl_disk pl) (pageId (frames pl ! i))) \<and>
     (\<forall>i \<in> M. i < length (frames pl) \<and> valid (frames pl ! i) \<and> 0 < pinCount (frames pl ! i))"

definition pool_ok :: "pool \<Rightarrow> nat set \<Rightarrow> nat set \<Rightarrow> bool" where
  "pool_ok pl H M \<longleftrightarrow> table_ok pl \<and> lru_ok pl \<and> free_ok pl H \<and> clean_ok pl M \<and>
     (\<forall>f\<in>set (frames pl). frame_ok (pool_pages pl) f) \<and> 0 \<le> pool_pages pl"

lemmas pool_parts = table_ok_def lru_ok_def free_ok_def clean_ok_def


lemma frames_set_frame [simp]:
  "frames (set_frame pl i f) = (frames pl)[i := f]"
  "pl_disk (set_frame pl i f) = pl_disk pl" "page_table (set_frame pl i f) = page_table pl"
  "lru (set_frame pl i f) = lru pl" "lruPos (set_frame pl i f) = lruPos pl"
  "nextNode (set_frame pl i f) = nextNode pl" "freeList (set_frame pl i f) = freeList pl"
  "trace (set_frame pl i f) = trace pl" "hooked (set_frame pl i f) = hooked pl"
  by (simp_all add: set_frame_def)

lemma run_hook_fields [simp]:
  "frames (run_hook pl) = frames pl" "pl_disk (run_hook pl) = pl_disk pl"
  "page_table (run_hook pl) = page_table pl" "lru (run_hook pl) = lru pl"
  "lruPos (run_hook pl) = lruPos pl" "nextNode (run_hook pl) = nextNode pl"
  "freeList (run_hook pl) = freeList pl" "hooked (run_hook pl) = hooked pl"
  by (simp_all add: run_hook_def)

lemma write_back_fields [simp]:
  "frames (write_back pl f) = frames pl"
  "pl_disk (write_back pl f) = writePage (pl_disk pl) (pageId f) (fr_page f)"
  "page_table (write_back pl f) = page_table pl" "lru (write_back pl f) = lru pl"
  "lruPos (write_back pl f) = lruPos pl" "nextNode (write_back pl f) = nextNode pl"
  "freeList (write_back pl f) = freeList pl" "hooked (write_back pl f) = hooked pl"
  by (simp_all add: write_back_def)

lemma in_page_page_init [simp]: "in_page p \<Longrightarrow> in_page (page_init p)"
  by (auto simp: in_page_def at_page_init PAGE_SIZE_def)

lemma in_page_blank [simp]: "in_page blank"
  by (simp add: in_page_def blank_def)

lemma pool_okD:
  assumes "pool_ok pl H M"
  shows "table_ok pl" "lru_ok pl" "free_ok pl H" "clean_ok pl M"
    "\<And>i. i < length (frames pl) \<Longrightarrow> frame_ok (pool_pages pl) (frames pl ! i)" "0 \<le> pool_pages pl"
  using assms by (auto simp: pool_ok_def)

lemma pool_okI:
  assumes "table_ok pl" "lru_ok pl" "free_ok pl H" "clean_ok pl M"
    "\<And>i. i < length (frames pl) \<Longrightarrow> frame_ok (pool_pages pl) (frames pl ! i)" "0 \<le> pool_pages pl"
  shows "pool_ok pl H M"
  using assms by (auto simp: pool_ok_def in_set_conv_nth)

lemma pool_content_cong:
  "page_table pl' = page_table pl \<Longrightarrow> frames pl' = frames pl \<Longrightarrow> pl_disk pl' = pl_disk pl \<Longrightarrow>
    pool_content pl' = pool_content pl"
  by (rule ext) (auto simp: pool_content_def split: option.split)

lemma pool_ok_open:
  assumes "0 \<le> numPages d"
  shows "pool_ok (pool_open d n h) {} {}" "pool_content (pool_open d n h) = disk_page d"
  using assms
  by (auto intro!: pool_okI simp: pool_open_def pool_parts frame_ok_def empty_frame_def Let_def
      pool_pages_def pool_content_def)

lemma removeFromLru_eq:
  assumes "lru_ok pl" and i: "i \<in> snd ` set (lru pl)"
  shows "removeFromLru pl i =
    pl\<lparr>lru := filter (\<lambda>e. snd e \<noteq> i) (lru pl), lruPos := (lruPos pl)(i := None)\<rparr>"
proof -
  from i obtain node where node: "(node, i) \<in> set (lru pl)" by auto
  have "fst e \<noteq> node \<longleftrightarrow> snd e \<noteq> i" if "e \<in> set (lru pl)" for e
  proof -
    have inj: "inj_on fst (set (lru pl))" "inj_on snd (set (lru pl))"
      using assms(1) by (simp_all add: lru_ok_def distinct_map)
    show ?thesis
      using inj_onD [OF inj(1) _ that node] inj_onD [OF inj(2) _ that node]
      by (metis fst_conv snd_conv)
  qed
  then have "filter (\<lambda>e. fst e \<noteq> node) (lru pl) = filter (\<lambda>e. snd e \<noteq> i) (lru pl)"
    by (intro filter_cong refl) auto
  moreover have "lruPos pl i = Some node" using assms(1) node by (simp add: lru_ok_def)
  ultimately show ?thesis by (simp add: removeFromLru_def)
qed

lemma content_cached:
  "table_ok pl \<Longrightarrow> i < length (frames pl) \<Longrightarrow> valid (frames pl ! i) \<Longrightarrow>
    page_table pl (pageId (frames pl ! i)) = Some i"
  by (simp add: table_ok_def)

lemma table_okE:
  assumes "table_ok pl" "page_table pl pid = Some i"
  shows "i < length (frames pl)" "valid (frames pl ! i)" "pageId (frames pl ! i) = pid"
  using assms by (auto simp: table_ok_def)

subsection \<open>Acquiring a frame\<close>

text \<open>What a frame handed out by \<open>acquireFrame\<close> guarantees to the caller.\<close>

definition acquired :: "pool \<Rightarrow> pool \<Rightarrow> nat \<Rightarrow> nat set \<Rightarrow> bool" where
  "acquired pl pl' i M \<longleftrightarrow> pool_ok pl' {i} M \<and> i < length (frames pl') \<and> \<not> valid (frames pl' ! i) \<and>
     pool_content pl' = pool_content pl \<and> pool_pages pl' = pool_pages pl \<and>
     (\<forall>j. j \<noteq> i \<longrightarrow> frames pl' ! j = frames pl ! j) \<and> length (frames pl') = length (frames pl) \<and>
     hooked pl' = hooked pl \<and> (\<forall>pid. page_table pl pid = None \<longrightarrow> page_table pl' pid = None) \<and>
     (trace pl' = trace pl \<or>
      (\<exists>f :: frame. trace pl' = trace pl @ (if hooked pl then [HookRun] else []) @ [PageWrite (pageId f) (fr_page f)]))"

lemma acquire_free:
  assumes ok: "pool_ok pl {} M" and fl: "freeList pl \<noteq> []"
    and acq: "acquireFrame pl = (pl', Some i)"
  shows "acquired pl pl' i M"
proof -
  from fl obtain ys where split: "freeList pl = ys @ [i]" and pl': "pl' = pl\<lparr>freeList := ys\<rparr>"
    using acq by (cases "freeList pl" rule: rev_cases) (auto simp: acquireFrame_def)
  have fr: "i \<notin> set ys" "distinct ys"
    "insert i (set ys) = {i. i < length (frames pl) \<and> \<not> valid (frames pl ! i)}"
    using pool_okD(3) [OF ok] by (auto simp: free_ok_def split)
  then have inv: "i < length (frames pl)" "\<not> valid (frames pl ! i)" by auto
  have "set ys = {i. i < length (frames pl) \<and> \<not> valid (frames pl ! i)} - {i}" using fr by auto
  then have "pool_ok pl' {i} M"
    using pool_okD [OF ok] fr(2) by (intro pool_okI) (simp_all add: pl' pool_parts pool_pages_def)
  moreover have "pool_content pl' = pool_content pl" by (rule pool_content_cong) (simp_all add: pl')
  ultimately show ?thesis using inv by (simp add: acquired_def pl' pool_pages_def)
qed


lemma acquire_evict:
  assumes ok: "pool_ok pl {} M" and fl: "freeList pl = []"
    and acq: "acquireFrame pl = (pl', Some i)"
  shows "acquired pl pl' i M"
proof -
  from fl acq obtain node rest where lru: "lru pl = (node, i) # rest"
    by (auto simp: acquireFrame_def Let_def split: list.splits)
  define f where "f = frames pl ! i"
  have i: "i < length (frames pl)" "valid f" "pinCount f = 0"
  proof -
    have "i \<in> snd ` set (lru pl)" by (simp add: lru)
    then have "i \<in> {i. i < length (frames pl) \<and> valid (frames pl ! i) \<and> pinCount (frames pl ! i) = 0}"
      using pool_okD(2) [OF ok] unfolding lru_ok_def by blast
    then show "i < length (frames pl)" "valid f" "pinCount f = 0" by (auto simp: f_def)
  qed
  define f' where "f' = f\<lparr>valid := False, dirty := False, pinCount := 0\<rparr>"
  have pl': "frames pl' = (frames pl)[i := f']" "lru pl' = rest" "lruPos pl' = (lruPos pl)(i := None)"
    "page_table pl' = (page_table pl)(pageId f := None)" "freeList pl' = []" "hooked pl' = hooked pl"
    "nextNode pl' = nextNode pl"
    "pl_disk pl' = (if dirty f then writePage (pl_disk pl) (pageId f) (fr_page f) else pl_disk pl)"
    using fl acq i by (auto simp: acquireFrame_def lru Let_def f_def f'_def split: if_splits)
  have "trace pl' = (if dirty f then trace pl @ (if hooked pl then [HookRun] else []) @
      [PageWrite (pageId f) (fr_page f)] else trace pl)"
    using fl acq i
    by (auto simp: acquireFrame_def lru Let_def f_def write_back_def run_hook_def split: if_splits)
  then have tr: "trace pl' = trace pl \<or> (\<exists>f :: frame. trace pl' =
      trace pl @ (if hooked pl then [HookRun] else []) @ [PageWrite (pageId f) (fr_page f)])"
    by (cases "dirty f") (simp_all only: if_True if_False, blast+)
  note pk = pool_okD [OF ok]
  have fok: "frame_ok (pool_pages pl) f" using pk(5) i by (simp add: f_def)
  then have pid: "0 \<le> pageId f" "pageId f < pool_pages pl" and inp: "in_page (fr_page f)"
    using i by (auto simp: frame_ok_def)
  have pages: "pool_pages pl' = pool_pages pl"
    using pid by (simp add: pool_pages_def pl')
  have at: "page_table pl (pageId f) = Some i"
    using content_cached [OF pk(1) i(1)] i by (simp add: f_def)
  have other: "pageId (frames pl ! j) \<noteq> pageId f" if "j < length (frames pl)" "valid (frames pl ! j)" "j \<noteq> i" for j
    using content_cached [OF pk(1) that(1,2)] at that by auto
  have iM: "i \<notin> M" using pk(4) i by (auto simp: clean_ok_def f_def)
  have disk: "disk_page (pl_disk pl') q = (if q = pageId f then fr_page f else disk_page (pl_disk pl) q)" for q
  proof (cases "dirty f")
    case True
    then show ?thesis using disk_page_writePage [OF pid(1) inp] by (simp add: pl')
  next
    case False
    then show ?thesis using pk(4) i iM by (auto simp: pl' clean_ok_def f_def)
  qed
  have content: "pool_content pl' q = pool_content pl q" for q
  proof (cases "q = pageId f")
    case True
    then show ?thesis using at disk by (simp add: pool_content_def pl' f_def)
  next
    case False
    then have "page_table pl q = Some j \<Longrightarrow> j \<noteq> i" for j
      using table_okE [OF pk(1), of q i] by (auto simp: f_def)
    then show ?thesis using False disk
      by (auto simp: pool_content_def pl' split: option.split)
  qed
  have "pool_ok pl' {i} M"
  proof (rule pool_okI)
    have "page_table pl' q = Some j \<longleftrightarrow> j < length (frames pl') \<and> valid (frames pl' ! j) \<and> pageId (frames pl' ! j) = q" for q j
    proof (cases "j = i")
      case True
      then show ?thesis using pk(1) i by (auto simp: pl' f'_def table_ok_def f_def)
    next
      case False
      then show ?thesis using pk(1) other [of j] by (auto simp: pl' table_ok_def)
    qed
    then show "table_ok pl'" by (simp add: table_ok_def)
    have l: "distinct (map fst (lru pl))" "distinct (map snd (lru pl))"
      "\<forall>e\<in>set (lru pl). fst e < nextNode pl" "\<forall>i node. lruPos pl i = Some node \<longleftrightarrow> (node, i) \<in> set (lru pl)"
      "snd ` set (lru pl) = {i. i < length (frames pl) \<and> valid (frames pl ! i) \<and> pinCount (frames pl ! i) = 0}"
      using pk(2) by (simp_all add: lru_ok_def)
    have notin: "i \<notin> snd ` set rest" using l(2) by (simp add: lru)
    have pos: "lruPos pl' j = Some m \<longleftrightarrow> (m, j) \<in> set (lru pl')" for j m
      using l(4) notin by (force simp: pl' lru)
    have "insert i (snd ` set rest) = {i. i < length (frames pl) \<and> valid (frames pl ! i) \<and> pinCount (frames pl ! i) = 0}"
      using l(5) by (simp add: lru)
    then have "snd ` set rest = {i. i < length (frames pl) \<and> valid (frames pl ! i) \<and> pinCount (frames pl ! i) = 0} - {i}"
      using notin by blast
    also have "\<dots> = {j. j < length (frames pl') \<and> valid (frames pl' ! j) \<and> pinCount (frames pl' ! j) = 0}"
      using i by (auto simp: pl' f'_def nth_list_update)
    finally show "lru_ok pl'"
      using l(1-3) pos by (simp add: lru_ok_def) (simp add: pl' lru)
    have "{j. j < length (frames pl) \<and> \<not> valid (frames pl ! j)} = {}"
      using pk(3) fl by (auto simp: free_ok_def)
    then show "free_ok pl' {i}"
      using i(1) by (auto simp: free_ok_def pl' nth_list_update f'_def split: if_split_asm)
    have m: "j < length (frames pl) \<and> valid (frames pl ! j) \<and> 0 < pinCount (frames pl ! j)" if "j \<in> M" for j
      using pk(4) that by (simp add: clean_ok_def)
    have c: "fr_page (frames pl ! j) = disk_page (pl_disk pl) (pageId (frames pl ! j))"
      if "j < length (frames pl)" "valid (frames pl ! j)" "\<not> dirty (frames pl ! j)" "j \<notin> M" for j
      using pk(4) that by (simp add: clean_ok_def)
    show "clean_ok pl' M"
      unfolding clean_ok_def disk
    proof (intro conjI allI impI ballI)
      fix j
      assume j: "j < length (frames pl')" "valid (frames pl' ! j) \<and> \<not> dirty (frames pl' ! j) \<and> j \<notin> M"
      then have "j \<noteq> i" by (auto simp: pl' f'_def)
      then show "fr_page (frames pl' ! j) =
        (if pageId (frames pl' ! j) = pageId f then fr_page f else disk_page (pl_disk pl) (pageId (frames pl' ! j)))"
        using j other [of j] c [of j] by (simp add: pl')
    next
      fix j
      assume "j \<in> M"
      then have "j \<noteq> i" "j < length (frames pl)" "valid (frames pl ! j)" "0 < pinCount (frames pl ! j)"
        using m [of j] iM by auto
      then show "j < length (frames pl')" "valid (frames pl' ! j)" "0 < pinCount (frames pl' ! j)"
        by (simp_all add: pl')
    qed
    show "frame_ok (pool_pages pl') (frames pl' ! j)" if "j < length (frames pl')" for j
      using that pk(5) [of j] fok by (cases "j = i") (auto simp: pages pl' f'_def frame_ok_def)
    show "0 \<le> pool_pages pl'" using pk(6) pages by simp
  qed
  then show ?thesis
    using i content tr pages by (auto simp: acquired_def pl' f'_def)
qed

lemma acquireFrame_Some:
  "pool_ok pl {} M \<Longrightarrow> acquireFrame pl = (pl', Some i) \<Longrightarrow> acquired pl pl' i M"
  by (cases "freeList pl = []") (auto intro: acquire_free acquire_evict)

lemma acquireFrame_None:
  assumes ok: "pool_ok pl {} M" and acq: "acquireFrame pl = (pl', None)"
  shows "pl' = pl" "\<And>i. i < length (frames pl) \<Longrightarrow> 0 < pinCount (frames pl ! i)"
proof -
  from acq have e: "freeList pl = []" "lru pl = []" "pl' = pl"
    by (auto simp: acquireFrame_def Let_def split: if_splits list.splits)
  show "pl' = pl" by (rule e)
  fix i
  assume i: "i < length (frames pl)"
  have "{i. i < length (frames pl) \<and> valid (frames pl ! i) \<and> pinCount (frames pl ! i) = 0} = {}"
    "{i. i < length (frames pl) \<and> \<not> valid (frames pl ! i)} = {}"
    using pool_okD(2,3) [OF ok] e by (auto simp: lru_ok_def free_ok_def)
  then have "pinCount (frames pl ! i) \<noteq> 0" using i by blast
  then show "0 < pinCount (frames pl ! i)" using pool_okD(5) [OF ok i] by (simp add: frame_ok_def)
qed


subsection \<open>Publishing, changing and unpinning a page\<close>

definition publish :: "pool \<Rightarrow> nat \<Rightarrow> frame \<Rightarrow> pool" where
  "publish pl i f = (set_frame pl i f)\<lparr>page_table := (page_table pl)(pageId f \<mapsto> i)\<rparr>"

lemma publish_spec:
  assumes ok: "pool_ok pl {i} M" and i: "i < length (frames pl)" "\<not> valid (frames pl ! i)"
    and f: "valid f" "pinCount f = 1" "frame_ok (pool_pages pl) f"
      "dirty f \<or> fr_page f = disk_page (pl_disk pl) (pageId f)"
    and fresh: "page_table pl (pageId f) = None"
  shows "pool_ok (publish pl i f) {} M"
    "pool_content (publish pl i f) = (pool_content pl)(pageId f := fr_page f)"
proof -
  note pk = pool_okD [OF ok]
  define pl' where "pl' = publish pl i f"
  have pl': "frames pl' = (frames pl)[i := f]" "page_table pl' = (page_table pl)(pageId f \<mapsto> i)"
    "lru pl' = lru pl" "lruPos pl' = lruPos pl" "nextNode pl' = nextNode pl" "freeList pl' = freeList pl"
    "pl_disk pl' = pl_disk pl"
    by (simp_all add: pl'_def publish_def)
  have iM: "i \<notin> M" using pk(4) i by (auto simp: clean_ok_def)
  have none: "page_table pl q \<noteq> Some i" for q using pk(1) i by (simp add: table_ok_def)
  show "pool_content (publish pl i f) = (pool_content pl)(pageId f := fr_page f)"
    unfolding pl'_def [symmetric]
  proof
    fix q
    show "pool_content pl' q = ((pool_content pl)(pageId f := fr_page f)) q"
      using none i by (auto simp: pool_content_def pl' nth_list_update split: option.split)
  qed
  show "pool_ok (publish pl i f) {} M"
    unfolding pl'_def [symmetric]
  proof (rule pool_okI)
    show "table_ok pl'"
      unfolding table_ok_def
    proof (intro allI)
      fix q j
      show "page_table pl' q = Some j \<longleftrightarrow> j < length (frames pl') \<and> valid (frames pl' ! j) \<and> pageId (frames pl' ! j) = q"
      proof (cases "j = i")
        case True
        then show ?thesis using i f none by (auto simp: pl')
      next
        case False
        have "\<not> (j < length (frames pl) \<and> valid (frames pl ! j) \<and> pageId (frames pl ! j) = pageId f)"
          using fresh pk(1) unfolding table_ok_def by (metis option.distinct(1))
        then show ?thesis using pk(1) False by (auto simp: pl' table_ok_def)
      qed
    qed
    have "{j. j < length (frames pl') \<and> valid (frames pl' ! j) \<and> pinCount (frames pl' ! j) = 0} =
        {j. j < length (frames pl) \<and> valid (frames pl ! j) \<and> pinCount (frames pl ! j) = 0}"
      using i f by (auto simp: pl' nth_list_update split: if_splits)
    then show "lru_ok pl'" using pk(2) by (simp only: lru_ok_def pl') simp
    have "{j. j < length (frames pl') \<and> \<not> valid (frames pl' ! j)} =
        {j. j < length (frames pl) \<and> \<not> valid (frames pl ! j)} - {i}"
      using i f by (auto simp: pl' nth_list_update split: if_splits)
    then show "free_ok pl' {}" using pk(3) by (simp only: free_ok_def pl') simp
    show "clean_ok pl' M"
      using pk(4) f i iM by (auto simp: clean_ok_def pl' nth_list_update)
    have "pool_pages pl' = pool_pages pl" by (simp add: pool_pages_def pl')
    then show "frame_ok (pool_pages pl') (frames pl' ! j)" if "j < length (frames pl')" for j
      using that pk(5) [of j] f i by (simp add: pl' nth_list_update)
    show "0 \<le> pool_pages pl'" using pk(6) by (simp add: pool_pages_def pl')
  qed
qed

text \<open>A frame that stays published, with another page, pin count or dirty flag.\<close>

lemma set_frame_spec:
  assumes ok: "pool_ok pl {} M" and i: "i < length (frames pl)" "valid (frames pl ! i)"
    and f: "valid f" "pageId f = pageId (frames pl ! i)" "0 \<le> pinCount f" "in_page (fr_page f)"
    and pin: "pinCount f = 0 \<longleftrightarrow> pinCount (frames pl ! i) = 0"
    and cl: "\<not> dirty f \<Longrightarrow> i \<notin> M' \<Longrightarrow> fr_page f = disk_page (pl_disk pl) (pageId f)"
    and M: "M' - {i} = M - {i}" "i \<in> M' \<Longrightarrow> 0 < pinCount f"
  shows "pool_ok (set_frame pl i f) {} M'"
    "pool_content (set_frame pl i f) = (pool_content pl)(pageId f := fr_page f)"
proof -
  note pk = pool_okD [OF ok]
  have fi: "frame_ok (pool_pages pl) (frames pl ! i)" using pk(5) i by simp
  have other: "page_table pl q = Some i \<longleftrightarrow> q = pageId f" for q
    using pk(1) i f(2) by (auto simp: table_ok_def)
  show "pool_content (set_frame pl i f) = (pool_content pl)(pageId f := fr_page f)"
  proof
    fix q
    show "pool_content (set_frame pl i f) q = ((pool_content pl)(pageId f := fr_page f)) q"
      using other [of q] i
      by (cases "q = pageId f") (auto simp: pool_content_def nth_list_update split: option.split)
  qed
  have mem: "j \<in> M' \<longleftrightarrow> j \<in> M" if "j \<noteq> i" for j using M(1) that by blast
  show "pool_ok (set_frame pl i f) {} M'"
  proof (rule pool_okI)
    show "table_ok (set_frame pl i f)"
      using pk(1) i f by (auto simp: table_ok_def nth_list_update)
    have "{j. j < length (frames pl) \<and> valid ((frames pl)[i := f] ! j) \<and> pinCount ((frames pl)[i := f] ! j) = 0} =
        {j. j < length (frames pl) \<and> valid (frames pl ! j) \<and> pinCount (frames pl ! j) = 0}"
      using i f pin by (auto simp: nth_list_update split: if_splits)
    then show "lru_ok (set_frame pl i f)" using pk(2) by (simp add: lru_ok_def)
    have "{j. j < length (frames pl) \<and> \<not> valid ((frames pl)[i := f] ! j)} =
        {j. j < length (frames pl) \<and> \<not> valid (frames pl ! j)}"
      using i f by (auto simp: nth_list_update split: if_splits)
    then show "free_ok (set_frame pl i f) {}" using pk(3) by (simp add: free_ok_def)
    show "clean_ok (set_frame pl i f) M'"
      unfolding clean_ok_def
    proof (intro conjI allI impI ballI)
      fix j
      assume j: "j < length (frames (set_frame pl i f))"
        "valid (frames (set_frame pl i f) ! j) \<and> \<not> dirty (frames (set_frame pl i f) ! j) \<and> j \<notin> M'"
      show "fr_page (frames (set_frame pl i f) ! j) =
          disk_page (pl_disk (set_frame pl i f)) (pageId (frames (set_frame pl i f) ! j))"
      proof (cases "j = i")
        case True
        then show ?thesis using j cl i by simp
      next
        case False
        then show ?thesis using j pk(4) mem [of j] by (simp add: clean_ok_def)
      qed
    next
      fix j
      assume "j \<in> M'"
      then show "j < length (frames (set_frame pl i f))" "valid (frames (set_frame pl i f) ! j)"
        "0 < pinCount (frames (set_frame pl i f) ! j)"
        using i f M(2) mem [of j] pk(4) by (auto simp: clean_ok_def nth_list_update)
    qed
    show "frame_ok (pool_pages (set_frame pl i f)) (frames (set_frame pl i f) ! j)"
      if "j < length (frames (set_frame pl i f))" for j
      using that pk(5) [of j] f fi i by (auto simp: nth_list_update pool_pages_def frame_ok_def)
    show "0 \<le> pool_pages (set_frame pl i f)" using pk(6) by (simp add: pool_pages_def)
  qed
qed


text \<open>Pinning a cached page, and releasing the last pin of one.\<close>

lemma lru_pin_spec:
  assumes ok: "pool_ok pl {} M" and i: "i < length (frames pl)" "valid (frames pl ! i)"
    "pinCount (frames pl ! i) = 0"
  shows "pool_ok (set_frame (removeFromLru pl i) i ((frames pl ! i)\<lparr>pinCount := 1\<rparr>)) {} M"
    "pool_content (set_frame (removeFromLru pl i) i ((frames pl ! i)\<lparr>pinCount := 1\<rparr>)) = pool_content pl"
proof -
  note pk = pool_okD [OF ok]
  define f where "f = (frames pl ! i)\<lparr>pinCount := 1\<rparr>"
  have "i \<in> {i. i < length (frames pl) \<and> valid (frames pl ! i) \<and> pinCount (frames pl ! i) = 0}"
    using i by simp
  then have mem: "i \<in> snd ` set (lru pl)" using pk(2) by (simp add: lru_ok_def)
  define pl' where "pl' = set_frame (removeFromLru pl i) i f"
  have pl': "frames pl' = (frames pl)[i := f]" "page_table pl' = page_table pl"
    "lru pl' = filter (\<lambda>e. snd e \<noteq> i) (lru pl)" "lruPos pl' = (lruPos pl)(i := None)"
    "nextNode pl' = nextNode pl" "freeList pl' = freeList pl" "pl_disk pl' = pl_disk pl"
    by (simp_all add: pl'_def removeFromLru_eq [OF pk(2) mem])
  show "pool_content pl' = pool_content pl"
    unfolding pl'_def [symmetric]
  proof
    fix q
    show "pool_content pl' q = pool_content pl q"
      using i by (auto simp: pool_content_def pl' nth_list_update f_def split: option.split)
  qed
  show "pool_ok pl' {} M"
  proof (rule pool_okI)
    show "table_ok pl'"
      using pk(1) i by (auto simp: table_ok_def nth_list_update pl' f_def)
    have "snd ` set (lru pl') = snd ` set (lru pl) - {i}" by (auto simp: pl')
    also have "\<dots> = {j. j < length (frames pl) \<and> valid (frames pl ! j) \<and> pinCount (frames pl ! j) = 0} - {i}"
      using pk(2) by (simp add: lru_ok_def)
    also have "\<dots> = {j. j < length (frames pl') \<and> valid (frames pl' ! j) \<and> pinCount (frames pl' ! j) = 0}"
      using i by (auto simp: pl' f_def nth_list_update split: if_splits)
    finally have "snd ` set (lru pl') = \<dots>" .
    moreover have "distinct (map fst (lru pl'))" "distinct (map snd (lru pl'))"
      using pk(2) by (simp_all add: lru_ok_def pl' distinct_map_filter)
    moreover have "\<forall>e\<in>set (lru pl'). fst e < nextNode pl'" using pk(2) by (simp add: lru_ok_def pl')
    moreover have "\<forall>j node. lruPos pl' j = Some node \<longleftrightarrow> (node, j) \<in> set (lru pl')"
      using pk(2) by (auto simp: lru_ok_def pl')
    ultimately show "lru_ok pl'" by (simp add: lru_ok_def)
    have "{j. j < length (frames pl') \<and> \<not> valid (frames pl' ! j)} =
        {j. j < length (frames pl) \<and> \<not> valid (frames pl ! j)}"
      using i by (auto simp: pl' f_def nth_list_update split: if_splits)
    then show "free_ok pl' {}" using pk(3) by (simp only: free_ok_def pl')
    show "clean_ok pl' M"
      using pk(4) i by (auto simp: clean_ok_def pl' f_def nth_list_update)
    show "frame_ok (pool_pages pl') (frames pl' ! j)" if "j < length (frames pl')" for j
      using that pk(5) [of j] pk(5) [of i] i
      by (auto simp: pl' f_def nth_list_update frame_ok_def pool_pages_def)
    show "0 \<le> pool_pages pl'" using pk(6) by (simp add: pool_pages_def pl')
  qed
qed

lemma lru_unpin_spec:
  assumes ok: "pool_ok pl {} M" and i: "i < length (frames pl)" "valid (frames pl ! i)"
    "pinCount (frames pl ! i) = 1" "i \<notin> M"
  shows "pool_ok (touchUnpinned (set_frame pl i ((frames pl ! i)\<lparr>pinCount := 0\<rparr>)) i) {} M"
    "pool_content (touchUnpinned (set_frame pl i ((frames pl ! i)\<lparr>pinCount := 0\<rparr>)) i) = pool_content pl"
proof -
  note pk = pool_okD [OF ok]
  define f where "f = (frames pl ! i)\<lparr>pinCount := 0\<rparr>"
  have "i \<notin> {i. i < length (frames pl) \<and> valid (frames pl ! i) \<and> pinCount (frames pl ! i) = 0}"
    using i by simp
  then have mem: "i \<notin> snd ` set (lru pl)" using pk(2) by (simp add: lru_ok_def)
  define pl' where "pl' = touchUnpinned (set_frame pl i f) i"
  have pl': "frames pl' = (frames pl)[i := f]" "page_table pl' = page_table pl"
    "lru pl' = lru pl @ [(nextNode pl, i)]" "lruPos pl' = (lruPos pl)(i \<mapsto> nextNode pl)"
    "nextNode pl' = Suc (nextNode pl)" "freeList pl' = freeList pl" "pl_disk pl' = pl_disk pl"
    by (simp_all add: pl'_def touchUnpinned_def)
  show "pool_content pl' = pool_content pl"
    unfolding pl'_def [symmetric]
  proof
    fix q
    show "pool_content pl' q = pool_content pl q"
      using i by (auto simp: pool_content_def pl' nth_list_update f_def split: option.split)
  qed
  show "pool_ok pl' {} M"
  proof (rule pool_okI)
    show "table_ok pl'"
      using pk(1) i by (auto simp: table_ok_def nth_list_update pl' f_def)
    have "snd ` set (lru pl') = insert i (snd ` set (lru pl))" by (auto simp: pl')
    also have "\<dots> = insert i {j. j < length (frames pl) \<and> valid (frames pl ! j) \<and> pinCount (frames pl ! j) = 0}"
      using pk(2) by (simp add: lru_ok_def)
    also have "\<dots> = {j. j < length (frames pl') \<and> valid (frames pl' ! j) \<and> pinCount (frames pl' ! j) = 0}"
      using i by (auto simp: pl' f_def nth_list_update split: if_splits)
    finally have "snd ` set (lru pl') = \<dots>" .
    moreover have fresh: "nextNode pl \<notin> fst ` set (lru pl)" using pk(2) by (force simp: lru_ok_def)
    then have "distinct (map fst (lru pl'))" "distinct (map snd (lru pl'))"
      using pk(2) mem by (simp_all add: lru_ok_def pl')
    moreover have "\<forall>e\<in>set (lru pl'). fst e < nextNode pl'" using pk(2) by (auto simp: lru_ok_def pl')
    moreover have "\<forall>j node. lruPos pl' j = Some node \<longleftrightarrow> (node, j) \<in> set (lru pl')"
    proof (intro allI)
      fix j node
      have old: "lruPos pl j = Some node \<longleftrightarrow> (node, j) \<in> set (lru pl)"
        using pk(2) by (simp add: lru_ok_def)
      show "lruPos pl' j = Some node \<longleftrightarrow> (node, j) \<in> set (lru pl')"
      proof (cases "j = i")
        case True
        then have "(node, j) \<notin> set (lru pl)" using mem by force
        then show ?thesis using True by (auto simp: pl')
      next
        case False
        then show ?thesis using old by (simp add: pl')
      qed
    qed
    ultimately show "lru_ok pl'" by (simp add: lru_ok_def)
    have "{j. j < length (frames pl') \<and> \<not> valid (frames pl' ! j)} =
        {j. j < length (frames pl) \<and> \<not> valid (frames pl ! j)}"
      using i by (auto simp: pl' f_def nth_list_update split: if_splits)
    then show "free_ok pl' {}" using pk(3) by (simp only: free_ok_def pl')
    show "clean_ok pl' M"
      using pk(4) i by (auto simp: clean_ok_def pl' f_def nth_list_update)
    show "frame_ok (pool_pages pl') (frames pl' ! j)" if "j < length (frames pl')" for j
      using that pk(5) [of j] pk(5) [of i] i
      by (auto simp: pl' f_def nth_list_update frame_ok_def pool_pages_def)
    show "0 \<le> pool_pages pl'" using pk(6) by (simp add: pool_pages_def pl')
  qed
qed


subsection \<open>Fetching and unpinning\<close>

lemma fetchPage_Some:
  assumes ok: "pool_ok pl {} M" and pid: "0 \<le> pid" "pid < pool_pages pl"
    and fetch: "fetchPage pl pid = (pl', Some i)"
  shows "pool_ok pl' {} M" "pool_content pl' = pool_content pl" "pool_pages pl' = pool_pages pl"
    "page_table pl' pid = Some i" "0 < pinCount (frames pl' ! i)"
    "length (frames pl') = length (frames pl)" "\<And>j. j \<noteq> i \<Longrightarrow> frames pl' ! j = frames pl ! j"
    "pinCount (frames pl ! i) = 0 \<or> \<not> valid (frames pl ! i) \<Longrightarrow> pinCount (frames pl' ! i) = 1"
    "fr_page (frames pl' ! i) = pool_content pl pid"
proof -
  note pk = pool_okD [OF ok]
  have "pool_ok pl' {} M \<and> pool_content pl' = pool_content pl \<and> pool_pages pl' = pool_pages pl \<and>
    page_table pl' pid = Some i \<and> 0 < pinCount (frames pl' ! i) \<and>
    length (frames pl') = length (frames pl) \<and> (\<forall>j. j \<noteq> i \<longrightarrow> frames pl' ! j = frames pl ! j) \<and>
    (pinCount (frames pl ! i) = 0 \<or> \<not> valid (frames pl ! i) \<longrightarrow> pinCount (frames pl' ! i) = 1)"
  proof (cases "page_table pl pid")
    case (Some k)
    note t = table_okE [OF pk(1) Some]
    have pin: "0 \<le> pinCount (frames pl ! k)" using pk(5) [OF t(1)] by (simp add: frame_ok_def)
    from fetch Some have k: "k = i" by (simp add: fetchPage_def findFrame_def Let_def)
    show ?thesis
    proof (cases "pinCount (frames pl ! i) = 0")
      case True
      have pl': "pl' = set_frame (removeFromLru pl i) i ((frames pl ! i)\<lparr>pinCount := 1\<rparr>)"
        using fetch Some True k by (simp add: fetchPage_def findFrame_def Let_def)
      show ?thesis
        using lru_pin_spec [OF ok _ _ True] t k Some
        by (simp add: pl' pool_pages_def removeFromLru_def split: option.split)
    next
      case False
      define f where "f = (frames pl ! i)\<lparr>pinCount := pinCount (frames pl ! i) + 1\<rparr>"
      have pl': "pl' = set_frame pl i f"
        using fetch Some False k by (simp add: fetchPage_def findFrame_def Let_def f_def)
      have cl: "i \<notin> M \<Longrightarrow> \<not> dirty f \<Longrightarrow> fr_page f = disk_page (pl_disk pl) (pageId f)"
        using pk(4) t k by (simp add: clean_ok_def f_def)
      have fp: "in_page (fr_page f)" using pk(5) [OF t(1)] k by (simp add: frame_ok_def f_def)
      have c: "pool_content pl pid = fr_page f" using Some k by (simp add: pool_content_def f_def)
      have "pool_ok pl' {} M" "pool_content pl' = (pool_content pl)(pageId f := fr_page f)"
        unfolding pl' using ok t pin False k fp cl
        by (intro set_frame_spec; simp add: f_def)+
      then show ?thesis
        using t k Some False pin c by (auto simp: pl' f_def pool_pages_def)
    qed
  next
    case None
    obtain pl1 where acq: "acquireFrame pl = (pl1, Some i)"
      using fetch None by (auto simp: fetchPage_def findFrame_def Let_def split: prod.splits option.splits)
    note a = acquireFrame_Some [OF ok acq, unfolded acquired_def]
    define f where "f = (frames pl1 ! i)\<lparr>fr_page := readPage (pl_disk pl1) pid (fr_page (frames pl1 ! i)),
        pageId := pid, pinCount := 1, dirty := False, valid := True\<rparr>"
    have pl': "pl' = publish pl1 i f"
      using fetch None acq by (simp add: fetchPage_def findFrame_def Let_def f_def publish_def)
    have fresh: "page_table pl1 pid = None" using a None by blast
    have ok1: "pool_ok pl1 {i} M" using a by blast
    have "frame_ok (pool_pages pl1) (frames pl1 ! i)" using pool_okD(5) [OF ok1] a by simp
    then have inp: "in_page (fr_page (frames pl1 ! i))" by (simp add: frame_ok_def)
    have c: "pool_content pl1 pid = disk_page (pl_disk pl1) pid" by (simp add: pool_content_def fresh)
    have page: "fr_page f = disk_page (pl_disk pl1) pid"
      using inp by (simp add: f_def readPage_eq_disk_page)
    have i1: "i < length (frames pl1)" "\<not> valid (frames pl1 ! i)" "pool_pages pl1 = pool_pages pl"
      using a by auto
    have "frame_ok (pool_pages pl1) f" using pid page i1 by (simp add: frame_ok_def f_def)
    then have "pool_ok pl' {} M" "pool_content pl' = (pool_content pl1)(pid := fr_page f)"
      using publish_spec [OF ok1 i1(1,2), of f] page fresh by (simp_all add: pl' f_def)
    moreover have "pool_pages pl' = pool_pages pl1" "length (frames pl') = length (frames pl1)"
      "page_table pl' pid = Some i" "frames pl' ! i = f" "\<forall>j. j \<noteq> i \<longrightarrow> frames pl' ! j = frames pl1 ! j"
      using i1 by (simp_all add: pl' publish_def pool_pages_def f_def)
    moreover have "(pool_content pl1)(pid := fr_page f) = pool_content pl"
      using c page a by auto
    ultimately show ?thesis using a by (simp add: f_def)
  qed
  then show "pool_ok pl' {} M" "pool_content pl' = pool_content pl" "pool_pages pl' = pool_pages pl"
    "page_table pl' pid = Some i" "0 < pinCount (frames pl' ! i)"
    "length (frames pl') = length (frames pl)" "\<And>j. j \<noteq> i \<Longrightarrow> frames pl' ! j = frames pl ! j"
    "pinCount (frames pl ! i) = 0 \<or> \<not> valid (frames pl ! i) \<Longrightarrow> pinCount (frames pl' ! i) = 1"
    by blast+
  have "pool_content pl' pid = fr_page (frames pl' ! i)"
    using \<open>page_table pl' pid = Some i\<close> by (simp add: pool_content_def)
  then show "fr_page (frames pl' ! i) = pool_content pl pid"
    using \<open>pool_content pl' = pool_content pl\<close> by simp
qed

lemma fetchPage_None:
  assumes "pool_ok pl {} M" and "fetchPage pl pid = (pl', None)"
  shows "pl' = pl" "\<And>i. i < length (frames pl) \<Longrightarrow> 0 < pinCount (frames pl ! i)"
proof -
  have "acquireFrame pl = (pl', None)"
    using assms(2) by (auto simp: fetchPage_def Let_def split: option.splits prod.splits)
  then show "pl' = pl" "\<And>i. i < length (frames pl) \<Longrightarrow> 0 < pinCount (frames pl ! i)"
    using acquireFrame_None [OF assms(1)] by blast+
qed

lemma put_page_spec:
  assumes ok: "pool_ok pl {} M" and t: "page_table pl pid = Some i" and pin: "0 < pinCount (frames pl ! i)"
    and p: "in_page p"
  shows "pool_ok (put_page pl i p) {} (if p = fr_page (frames pl ! i) then M else insert i M)"
    "pool_content (put_page pl i p) = (pool_content pl)(pid := p)"
proof -
  note pk = pool_okD [OF ok] and te = table_okE [OF pool_okD(1) [OF ok] t]
  have cl: "fr_page (frames pl ! i) = disk_page (pl_disk pl) pid" if "\<not> dirty (frames pl ! i)" "i \<notin> M"
    using pk(4) te that by (auto simp: clean_ok_def)
  show "pool_ok (put_page pl i p) {} (if p = fr_page (frames pl ! i) then M else insert i M)"
    unfolding put_page_def using ok te pin p cl
    by (intro set_frame_spec(1) [OF ok]) (auto split: if_splits)
  have "pool_content (set_frame pl i ((frames pl ! i)\<lparr>fr_page := p\<rparr>)) = (pool_content pl)(pid := p)"
    using set_frame_spec(2) [OF ok te(1,2), of "(frames pl ! i)\<lparr>fr_page := p\<rparr>" "insert i M"] te pin p
    by simp
  then show "pool_content (put_page pl i p) = (pool_content pl)(pid := p)"
    by (simp add: put_page_def)
qed

lemma unpin_spec:
  assumes ok: "pool_ok pl {} M" and t: "page_table pl pid = Some i" and pin: "0 < pinCount (frames pl ! i)"
    and mark: "marked \<or> i \<notin> M" and un: "unpin pl pid marked = (pl', b)"
  shows "pool_ok pl' {} (M - {i})" "pool_content pl' = pool_content pl" "b"
    "pool_pages pl' = pool_pages pl" "length (frames pl') = length (frames pl)"
    "\<And>j. j \<noteq> i \<Longrightarrow> frames pl' ! j = frames pl ! j"
    "pinCount (frames pl' ! i) = pinCount (frames pl ! i) - 1"
    "trace pl' = trace pl" "hooked pl' = hooked pl"
proof -
  note pk = pool_okD [OF ok] and te = table_okE [OF pool_okD(1) [OF ok] t]
  define f where "f = (if marked then (frames pl ! i)\<lparr>dirty := True\<rparr> else frames pl ! i)"
  have f: "valid f" "pageId f = pid" "pinCount f = pinCount (frames pl ! i)"
    "fr_page f = fr_page (frames pl ! i)"
    using te by (auto simp: f_def)
  have inp: "in_page (fr_page f)" using pk(5) [OF te(1)] f by (simp add: frame_ok_def)
  have cl: "\<not> dirty f \<Longrightarrow> i \<notin> M - {i} \<Longrightarrow> fr_page f = disk_page (pl_disk pl) (pageId f)"
    using pk(4) te mark f by (auto simp: clean_ok_def f_def split: if_splits)
  have c: "(pool_content pl)(pageId f := fr_page f) = pool_content pl"
    using t f by (auto simp: pool_content_def)
  have 1: "pool_ok (set_frame pl i f) {} (M - {i})" "pool_content (set_frame pl i f) = pool_content pl"
    using set_frame_spec [OF ok te(1,2), of f "M - {i}"] f inp cl pin te c by auto
  have set2: "set_frame (set_frame pl i f) i g = set_frame pl i g" for g by (simp add: set_frame_def)
  have pl': "b" "pl' = (if pinCount f = 1 then touchUnpinned (set_frame pl i (f\<lparr>pinCount := 0\<rparr>)) i
      else set_frame pl i (f\<lparr>pinCount := pinCount f - 1\<rparr>))"
    using un t pin f by (auto simp: unpin_def findFrame_def Let_def f_def split: if_splits)
  show "b" by (rule pl')
  have "pool_ok pl' {} (M - {i}) \<and> pool_content pl' = pool_content pl"
  proof (cases "pinCount f = 1")
    case True
    then show ?thesis
      using lru_unpin_spec [OF 1(1), of i] 1 te f by (simp add: pl' set2)
  next
    case False
    then show ?thesis
      using set_frame_spec [OF 1(1), of i "f\<lparr>pinCount := pinCount f - 1\<rparr>" "M - {i}"] 1 te f inp cl pin c
      by (simp add: pl' set2)
  qed
  then show "pool_ok pl' {} (M - {i})" "pool_content pl' = pool_content pl" by auto
  show "pool_pages pl' = pool_pages pl" "length (frames pl') = length (frames pl)"
    "\<And>j. j \<noteq> i \<Longrightarrow> frames pl' ! j = frames pl ! j"
    "pinCount (frames pl' ! i) = pinCount (frames pl ! i) - 1"
    "trace pl' = trace pl" "hooked pl' = hooked pl"
    using te f by (simp_all add: pl' touchUnpinned_def pool_pages_def)
qed


subsection \<open>Scoped access\<close>

text \<open>No page is pinned: the state between two operations of a single client.\<close>

definition idle :: "pool \<Rightarrow> bool" where
  "idle pl \<longleftrightarrow> frames pl \<noteq> [] \<and> (\<forall>i < length (frames pl). pinCount (frames pl ! i) = 0)"

definition pool_inv :: "pool \<Rightarrow> bool" where
  "pool_inv pl \<longleftrightarrow> pool_ok pl {} {} \<and> idle pl"

lemma pool_inv_open: "0 \<le> numPages d \<Longrightarrow> pool_inv (pool_open d n h)"
  using pool_ok_open(1) [of d n h]
  by (auto simp: pool_inv_def idle_def) (simp_all add: pool_open_def Let_def empty_frame_def nth_Cons' split: if_splits)

lemma fetchPage_idle:
  assumes "pool_inv pl"
  obtains pl' i where "fetchPage pl pid = (pl', Some i)"
proof (cases "fetchPage pl pid")
  case (Pair pl' x)
  have "x \<noteq> None"
  proof
    assume "x = None"
    then have "\<And>i. i < length (frames pl) \<Longrightarrow> 0 < pinCount (frames pl ! i)"
      using fetchPage_None [of pl "{}" pid pl'] assms Pair by (auto simp: pool_inv_def)
    then show False using assms by (fastforce simp: pool_inv_def idle_def)
  qed
  then show ?thesis using that Pair by blast
qed

lemma put_page_fields [simp]:
  "length (frames (put_page pl i p)) = length (frames pl)" "pool_pages (put_page pl i p) = pool_pages pl"
  "j \<noteq> i \<Longrightarrow> frames (put_page pl i p) ! j = frames pl ! j"
  "page_table (put_page pl i p) = page_table pl" "trace (put_page pl i p) = trace pl"
  "hooked (put_page pl i p) = hooked pl"
  "i < length (frames pl) \<Longrightarrow> pinCount (frames (put_page pl i p) ! i) = pinCount (frames pl ! i)"
  by (simp_all add: put_page_def pool_pages_def)

text \<open>
  A page written in a frame that one scope pins, then unpinned: the common tail of
  \<open>guarded\<close> and \<open>guarded_new\<close>.
\<close>

lemma put_unpin_spec:
  assumes ok: "pool_ok pl {} {}" and t: "page_table pl pid = Some i"
    and pin: "pinCount (frames pl ! i) = 1" "\<And>j. j < length (frames pl) \<Longrightarrow> j \<noteq> i \<Longrightarrow> pinCount (frames pl ! j) = 0"
    and p: "in_page p" "marked \<or> p = fr_page (frames pl ! i)"
    and pl': "pl' = fst (unpin (put_page pl i p) pid marked)"
  shows "pool_inv pl'" "pool_content pl' = (pool_content pl)(pid := p)" "pool_pages pl' = pool_pages pl"
    "trace pl' = trace pl" "hooked pl' = hooked pl"
proof -
  note te = table_okE [OF pool_okD(1) [OF ok] t]
  define M where "M = (if p = fr_page (frames pl ! i) then {} else {i})"
  have p1: "0 < pinCount (frames pl ! i)" using pin by simp
  have M: "(if p = fr_page (frames pl ! i) then {} else insert i {}) = M" by (simp add: M_def)
  obtain b where u: "unpin (put_page pl i p) pid marked = (pl', b)"
    using pl' by (cases "unpin (put_page pl i p) pid marked") auto
  have mk: "marked \<or> i \<notin> M" using p(2) by (auto simp: M_def)
  have t': "page_table (put_page pl i p) pid = Some i" using t by simp
  have pn: "0 < pinCount (frames (put_page pl i p) ! i)" using te pin by simp
  note put = put_page_spec [OF ok t p1 p(1), unfolded M]
  note us = unpin_spec [OF put(1) t' pn mk u]
  show "pool_content pl' = (pool_content pl)(pid := p)" using us(2) put(2) by simp
  show "pool_pages pl' = pool_pages pl" "trace pl' = trace pl" "hooked pl' = hooked pl"
    using us by simp_all
  have "M - {i} = {}" by (auto simp: M_def)
  then have ok': "pool_ok pl' {} {}" using us(1) by (simp only:)
  have "pinCount (frames pl' ! j) = 0" if "j < length (frames pl')" for j
    using that us pin te by (cases "j = i") auto
  moreover have "frames pl' \<noteq> []" using us(5) te by auto
  ultimately show "pool_inv pl'" using ok' by (simp add: pool_inv_def idle_def)
qed

lemma guarded_spec:
  assumes inv: "pool_inv pl" and pid: "0 \<le> pid" "pid < pool_pages pl"
    and body: "body (pool_content pl pid) = (p, marked, r)"
    and p: "in_page p" "marked \<or> p = pool_content pl pid"
  obtains pl' where "guarded pl pid body = (pl', Some r)" "pool_inv pl'"
    "pool_content pl' = (pool_content pl)(pid := p)" "pool_pages pl' = pool_pages pl"
proof -
  have ok: "pool_ok pl {} {}" and id: "idle pl" using inv by (auto simp: pool_inv_def)
  obtain pl1 i where f: "fetchPage pl pid = (pl1, Some i)" using fetchPage_idle [OF inv] by metis
  note fs = fetchPage_Some [OF ok pid f]
  note te = table_okE [OF pool_okD(1) [OF fs(1)] fs(4)]
  have i: "i < length (frames pl)" using te fs(6) by simp
  then have "pinCount (frames pl ! i) = 0" using id by (simp add: idle_def)
  then have pin: "pinCount (frames pl1 ! i) = 1" using fs(8) by simp
  have others: "pinCount (frames pl1 ! j) = 0" if "j < length (frames pl1)" "j \<noteq> i" for j
    using that fs(6,7) id by (simp add: idle_def)
  define pl' where "pl' = fst (unpin (put_page pl1 i p) pid marked)"
  have m: "marked \<or> p = fr_page (frames pl1 ! i)" using p(2) fs(9) by simp
  note pu = put_unpin_spec [OF fs(1) fs(4) pin others p(1) m pl'_def]
  have "guarded pl pid body = (pl', Some r)"
    using f body fs(9) by (simp add: guarded_def pl'_def)
  then show ?thesis using that pu fs by simp
qed

text \<open>A scope that only reads.\<close>

lemma guarded_read:
  assumes "pool_inv pl" "0 \<le> pid" "pid < pool_pages pl" and "in_page (pool_content pl pid)"
    and "guarded pl pid (\<lambda>p. (p, False, g p)) = (pl', x)"
  shows "x = Some (g (pool_content pl pid))" "pool_inv pl'" "pool_content pl' = pool_content pl"
    "pool_pages pl' = pool_pages pl"
  using guarded_spec [OF assms(1-3), of "\<lambda>p. (p, False, g p)" "pool_content pl pid" False] assms(4,5)
  by auto

lemma in_page_content:
  assumes "pool_ok pl {} M"
  shows "in_page (pool_content pl pid)"
proof (cases "page_table pl pid")
  case None
  then show ?thesis by (simp add: pool_content_def)
next
  case (Some i)
  then show ?thesis
    using pool_okD(5) [OF assms] table_okE [OF pool_okD(1) [OF assms] Some]
    by (auto simp: pool_content_def frame_ok_def)
qed

lemma page_init_in_page: "in_page p \<Longrightarrow> page_init p = new_page"
  by (rule ext)
     (auto simp: new_page_def page_init_def Let_def memset_def writeU16_def mwrite_def in_page_def blank_def)


subsection \<open>New pages\<close>

lemma allocate_spec:
  assumes ok: "pool_ok pl {} M" and al: "allocatePage (pl_disk pl) = (d, pid)"
  defines "pl1 \<equiv> pl\<lparr>pl_disk := d\<rparr>"
  shows "pool_ok pl1 {} M" "pid = pool_pages pl" "pool_pages pl1 = pool_pages pl + 1"
    "pool_content pl1 = (pool_content pl)(pid := blank)" "page_table pl1 pid = None"
proof -
  note pk = pool_okD [OF ok]
  note al = disk_page_allocatePage [OF al pk(6) [unfolded pool_pages_def]]
  show pid: "pid = pool_pages pl" using al by (simp add: pool_pages_def)
  show n: "pool_pages pl1 = pool_pages pl + 1" using al by (simp add: pool_pages_def pl1_def)
  have less: "pageId (frames pl ! i) < pid" if "i < length (frames pl)" "valid (frames pl ! i)" for i
    using pk(5) [OF that(1)] that pid by (simp add: frame_ok_def)
  show none: "page_table pl1 pid = None"
  proof (cases "page_table pl pid")
    case (Some i)
    then show ?thesis using table_okE [OF pk(1) Some] less by auto
  qed (simp add: pl1_def)
  show "pool_content pl1 = (pool_content pl)(pid := blank)"
  proof
    fix q
    show "pool_content pl1 q = ((pool_content pl)(pid := blank)) q"
      using al none by (auto simp: pool_content_def pl1_def split: option.split)
  qed
  show "pool_ok pl1 {} M"
  proof (rule pool_okI)
    show "table_ok pl1" "lru_ok pl1" "free_ok pl1 {}"
      using pk(1-3) by (simp_all add: pl1_def table_ok_def lru_ok_def free_ok_def)
    show "clean_ok pl1 M"
      using pk(4) less al by (fastforce simp: pl1_def clean_ok_def)
    show "frame_ok (pool_pages pl1) (frames pl1 ! i)" if "i < length (frames pl1)" for i
      using pk(5) [of i] that n by (auto simp: frame_ok_def pl1_def)
    show "0 \<le> pool_pages pl1" using pk(6) n by simp
  qed
qed

lemma guarded_new_spec:
  assumes inv: "pool_inv pl"
    and body: "body new_page = (p, marked, r)" and p: "in_page p" "marked \<or> p = new_page"
  obtains pl' where "guarded_new pl body = (pl', Some (pool_pages pl, r))" "pool_inv pl'"
    "pool_content pl' = (pool_content pl)(pool_pages pl := p)" "pool_pages pl' = pool_pages pl + 1"
proof -
  have ok: "pool_ok pl {} {}" and id: "idle pl" using inv by (auto simp: pool_inv_def)
  obtain d pid where al: "allocatePage (pl_disk pl) = (d, pid)" by (metis surj_pair)
  define pl1 where "pl1 = pl\<lparr>pl_disk := d\<rparr>"
  note als = allocate_spec [OF ok al, folded pl1_def]
  have id1: "idle pl1" using id by (simp add: idle_def pl1_def)
  obtain pl2 i where acq: "acquireFrame pl1 = (pl2, Some i)"
  proof (cases "acquireFrame pl1")
    case (Pair pl2 x)
    then show ?thesis
      using that acquireFrame_None [OF als(1), of pl2] id1 by (cases x) (fastforce simp: idle_def)+
  qed
  note a = acquireFrame_Some [OF als(1) acq, unfolded acquired_def]
  have ok2: "pool_ok pl2 {i} {}" and i2: "i < length (frames pl2)" "\<not> valid (frames pl2 ! i)"
    and len: "length (frames pl2) = length (frames pl1)"
    and oth: "\<And>j. j \<noteq> i \<Longrightarrow> frames pl2 ! j = frames pl1 ! j"
    and c2: "pool_content pl2 = pool_content pl1" "pool_pages pl2 = pool_pages pl1"
    and fresh: "page_table pl2 pid = None"
    using a als(5) by auto
  have "frame_ok (pool_pages pl2) (frames pl2 ! i)" using pool_okD(5) [OF ok2 i2(1)] .
  then have init: "page_init (fr_page (frames pl2 ! i)) = new_page"
    by (simp add: frame_ok_def page_init_in_page)
  define f where "f = (frames pl2 ! i)\<lparr>fr_page := new_page, pageId := pid, pinCount := 1,
      dirty := True, valid := True\<rparr>"
  define pl3 where "pl3 = publish pl2 i f"
  have new: "newPage pl = (pl3, Some (pid, i))"
    using al acq init by (simp add: newPage_def pl1_def Let_def pl3_def publish_def f_def)
  have fok: "frame_ok (pool_pages pl2) f"
    using pool_okD(6) [OF ok] als c2 by (simp add: frame_ok_def f_def)
  have fs: "valid f" "pinCount f = 1" "dirty f" "pageId f = pid" "fr_page f = new_page"
    by (simp_all add: f_def)
  have 3: "pool_ok pl3 {} {}" "pool_content pl3 = (pool_content pl2)(pid := new_page)"
    using publish_spec [OF ok2 i2, of f] fs fok fresh by (simp_all add: pl3_def)
  have 4: "page_table pl3 pid = Some i" "frames pl3 ! i = f" "length (frames pl3) = length (frames pl2)"
    "\<And>j. j \<noteq> i \<Longrightarrow> frames pl3 ! j = frames pl2 ! j" "pool_pages pl3 = pool_pages pl2"
    using i2 fs by (simp_all add: pl3_def publish_def pool_pages_def)
  define pl' where "pl' = fst (unpin (put_page pl3 i p) pid marked)"
  have pin: "pinCount (frames pl3 ! i) = 1" using 4 fs by simp
  have others: "pinCount (frames pl3 ! j) = 0" if "j < length (frames pl3)" "j \<noteq> i" for j
    using that 4 len oth id1 by (simp add: idle_def)
  have m: "marked \<or> p = fr_page (frames pl3 ! i)" using p(2) 4 fs by simp
  note pu = put_unpin_spec [OF 3(1) 4(1) pin others p(1) m pl'_def]
  have "guarded_new pl body = (pl', Some (pool_pages pl, r))"
    using new body 4 fs als(2) by (simp add: guarded_new_def pl'_def)
  moreover have "pool_content pl' = (pool_content pl)(pool_pages pl := p)"
    using pu(2) 3(2) c2 als by (auto simp: fun_eq_iff)
  moreover have "pool_pages pl' = pool_pages pl + 1" using pu(3) 4 c2 als by simp
  ultimately show ?thesis using that pu(1) by blast
qed

subsection \<open>Flushing\<close>

lemma flush_frame_spec:
  assumes ok: "pool_ok pl {} {}" and i: "i < length (frames pl)"
  shows "pool_ok (flush_frame pl i) {} {}" "pool_content (flush_frame pl i) = pool_content pl"
    "pool_pages (flush_frame pl i) = pool_pages pl" "length (frames (flush_frame pl i)) = length (frames pl)"
    "\<not> (valid (frames (flush_frame pl i) ! i) \<and> dirty (frames (flush_frame pl i) ! i))"
    "j \<noteq> i \<Longrightarrow> frames (flush_frame pl i) ! j = frames pl ! j"
    "\<And>j. j < length (frames pl) \<Longrightarrow> pinCount (frames (flush_frame pl i) ! j) = pinCount (frames pl ! j)"
proof -
  note pk = pool_okD [OF ok]
  define f where "f = frames pl ! i"
  have fok: "frame_ok (pool_pages pl) f" using pk(5) [OF i] by (simp add: f_def)
  have all: "pool_ok (flush_frame pl i) {} {} \<and> pool_content (flush_frame pl i) = pool_content pl \<and>
    pool_pages (flush_frame pl i) = pool_pages pl"
  proof (cases "valid f \<and> dirty f")
    case False
    then have "flush_frame pl i = pl" by (auto simp: flush_frame_def Let_def f_def)
    then show ?thesis using ok by simp
  next
    case True
    then have pid: "0 \<le> pageId f" "pageId f < pool_pages pl" and inp: "in_page (fr_page f)"
      using fok by (simp_all add: frame_ok_def)
    define pl1 where "pl1 = write_back pl f"
    have d: "disk_page (pl_disk pl1) = (disk_page (pl_disk pl))(pageId f := fr_page f)"
      using disk_page_writePage [OF pid(1) inp] by (simp add: pl1_def)
    have n: "pool_pages pl1 = pool_pages pl" using pid by (simp add: pl1_def pool_pages_def)
    have at: "page_table pl (pageId f) = Some i" using content_cached [OF pk(1) i] True by (simp add: f_def)
    have c: "pool_content pl1 = pool_content pl"
    proof
      fix q
      show "pool_content pl1 q = pool_content pl q"
        using at d by (auto simp: pool_content_def pl1_def f_def split: option.split)
    qed
    have other: "pageId (frames pl ! j) \<noteq> pageId f" if "j < length (frames pl)" "valid (frames pl ! j)" "j \<noteq> i" for j
      using content_cached [OF pk(1) that(1,2)] at that by auto
    have ok1: "pool_ok pl1 {} {}"
    proof (rule pool_okI)
      show "table_ok pl1" "lru_ok pl1" "free_ok pl1 {}"
        using pk(1-3) by (simp_all add: pl1_def table_ok_def lru_ok_def free_ok_def)
      have "fr_page (frames pl ! j) = disk_page (pl_disk pl1) (pageId (frames pl ! j))"
        if "j < length (frames pl)" "valid (frames pl ! j)" "\<not> dirty (frames pl ! j)" for j
        using pk(4) that other [of j] True by (cases "j = i") (auto simp: clean_ok_def d f_def)
      then show "clean_ok pl1 {}" by (simp add: clean_ok_def pl1_def)
      show "frame_ok (pool_pages pl1) (frames pl1 ! j)" if "j < length (frames pl1)" for j
        using pk(5) [of j] that n by (simp add: pl1_def)
      show "0 \<le> pool_pages pl1" using pk(6) n by simp
    qed
    have fl: "flush_frame pl i = set_frame pl1 i (f\<lparr>dirty := False\<rparr>)"
      using True by (simp add: flush_frame_def Let_def f_def pl1_def)
    have fr1: "frames pl1 = frames pl" by (simp add: pl1_def)
    have "(pool_content pl)(pageId f := fr_page f) = pool_content pl"
      using at by (auto simp: pool_content_def f_def)
    then show ?thesis
      unfolding fl
      using set_frame_spec [OF ok1, of i "f\<lparr>dirty := False\<rparr>" "{}"] i True fok d c n
      by (simp add: fr1 f_def frame_ok_def) (simp add: pool_pages_def)
  qed
  then show "pool_ok (flush_frame pl i) {} {}" "pool_content (flush_frame pl i) = pool_content pl"
    "pool_pages (flush_frame pl i) = pool_pages pl" by auto
  show "length (frames (flush_frame pl i)) = length (frames pl)"
    "\<not> (valid (frames (flush_frame pl i) ! i) \<and> dirty (frames (flush_frame pl i) ! i))"
    "j \<noteq> i \<Longrightarrow> frames (flush_frame pl i) ! j = frames pl ! j"
    using i by (auto simp: flush_frame_def Let_def)
  show "pinCount (frames (flush_frame pl i) ! j) = pinCount (frames pl ! j)" if "j < length (frames pl)" for j
    using that by (cases "j = i") (auto simp: flush_frame_def Let_def)
qed

lemma flush_fold:
  assumes ok: "pool_ok pl {} {}" and "k \<le> length (frames pl)"
  defines "pl' \<equiv> foldl flush_frame pl [0..<k]"
  shows "pool_ok pl' {} {} \<and> pool_content pl' = pool_content pl \<and> pool_pages pl' = pool_pages pl \<and>
    length (frames pl') = length (frames pl) \<and>
    (\<forall>j<k. \<not> (valid (frames pl' ! j) \<and> dirty (frames pl' ! j))) \<and>
    (\<forall>j<length (frames pl). pinCount (frames pl' ! j) = pinCount (frames pl ! j))"
  using assms(2) unfolding pl'_def
proof (induction k)
  case 0
  then show ?case using ok by simp
next
  case (Suc k)
  define q where "q = foldl flush_frame pl [0..<k]"
  have "pool_ok q {} {}" "pool_content q = pool_content pl" "pool_pages q = pool_pages pl"
    "length (frames q) = length (frames pl)" "\<forall>j<k. \<not> (valid (frames q ! j) \<and> dirty (frames q ! j))"
    "\<forall>j<length (frames pl). pinCount (frames q ! j) = pinCount (frames pl ! j)"
    using Suc by (auto simp: q_def)
  then show ?case
    using flush_frame_spec [of q k] Suc.prems
    by (auto simp: q_def [symmetric] less_Suc_eq)
qed

lemma flushAll_spec:
  assumes "pool_inv pl"
  shows "pool_inv (flushAll pl)" "pool_content (flushAll pl) = pool_content pl"
    "pool_pages (flushAll pl) = pool_pages pl"
    "disk_page (pl_disk (flushAll pl)) = pool_content pl"
proof -
  have ok: "pool_ok pl {} {}" and id: "idle pl" using assms by (auto simp: pool_inv_def)
  note f = flush_fold [OF ok order_refl, folded flushAll_def]
  then show "pool_content (flushAll pl) = pool_content pl" "pool_pages (flushAll pl) = pool_pages pl"
    by auto
  show "pool_inv (flushAll pl)" using f id by (auto simp: pool_inv_def idle_def)
  have "pool_content (flushAll pl) q = disk_page (pl_disk (flushAll pl)) q" for q
  proof (cases "page_table (flushAll pl) q")
    case (Some i)
    have o: "pool_ok (flushAll pl) {} {}" using f by simp
    have "pool_content (flushAll pl) q = fr_page (frames (flushAll pl) ! i)"
      unfolding pool_content_def Some by simp
    then show ?thesis
      using table_okE [OF pool_okD(1) [OF o] Some] pool_okD(4) [OF o] f
      by (auto simp: clean_ok_def)
  qed (simp add: pool_content_def)
  then show "disk_page (pl_disk (flushAll pl)) = pool_content pl" using f by auto
qed


section \<open>The order of hook and page writes\<close>

text \<open>
  \<open>db.cpp\<close> installs a pre-evict hook that makes the log durable. The steps a client can
  take without an explicit flush are fetches, new pages, changes through a pinned frame and
  unpins.
\<close>

inductive pool_step :: "pool \<Rightarrow> pool \<Rightarrow> bool" where
  step_fetch: "pool_step pl (fst (fetchPage pl pid))"
| step_new: "pool_step pl (fst (newPage pl))"
| step_put: "pool_step pl (put_page pl i p)"
| step_unpin: "pool_step pl (fst (unpin pl pid marked))"

inductive_cases pool_stepE: "pool_step pl pl'"

fun writes_hooked :: "pool_event list \<Rightarrow> bool" where
  "writes_hooked [] = True"
| "writes_hooked (PageWrite _ _ # _) = False"
| "writes_hooked (HookRun # PageWrite _ _ # tr) = writes_hooked tr"
| "writes_hooked (HookRun # tr) = writes_hooked tr"

lemma writes_hooked_snoc:
  "writes_hooked tr \<Longrightarrow> writes_hooked (tr @ [HookRun, PageWrite pid p])"
  by (induction tr rule: writes_hooked.induct) simp_all

definition trace_grows :: "pool \<Rightarrow> pool \<Rightarrow> bool" where
  "trace_grows pl pl' \<longleftrightarrow> hooked pl' = hooked pl \<and>
     (trace pl' = trace pl \<or>
      (\<exists>pid p. trace pl' = trace pl @ (if hooked pl then [HookRun] else []) @ [PageWrite pid p]))"

lemma trace_same: "trace pl' = trace pl \<Longrightarrow> hooked pl' = hooked pl \<Longrightarrow> trace_grows pl pl'"
  by (simp add: trace_grows_def)

lemma trace_grows_acquire: "trace_grows pl (fst (acquireFrame pl))"
  by (auto simp: acquireFrame_def Let_def trace_grows_def write_back_def run_hook_def
      split: list.splits prod.splits)

lemma trace_grows_step:
  assumes "pool_step pl pl'"
  shows "trace_grows pl pl'"
proof -
  from assms consider (fetch) pid where "pl' = fst (fetchPage pl pid)" | (new) "pl' = fst (newPage pl)"
    | (put) i p where "pl' = put_page pl i p" | (unpin) pid marked where "pl' = fst (unpin pl pid marked)"
    by (blast elim: pool_stepE)
  then show ?thesis
  proof cases
  case fetch
  show ?thesis
  proof (cases "findFrame pl pid")
    case None
    obtain pl1 x where a: "acquireFrame pl = (pl1, x)" by (metis surj_pair)
    have "trace_grows pl pl1" using trace_grows_acquire [of pl] a by simp
    then show ?thesis using fetch None a
      by (cases x) (auto simp: fetchPage_def Let_def trace_grows_def)
  next
    case (Some i)
    then show ?thesis using fetch
      by (auto simp: fetchPage_def Let_def removeFromLru_def intro!: trace_same split: option.split)
  qed
next
  case new
  obtain d pid where d: "allocatePage (pl_disk pl) = (d, pid)" by (metis surj_pair)
  obtain pl1 x where a: "acquireFrame (pl\<lparr>pl_disk := d\<rparr>) = (pl1, x)" by (metis surj_pair)
  have "trace_grows (pl\<lparr>pl_disk := d\<rparr>) pl1"
    using trace_grows_acquire [of "pl\<lparr>pl_disk := d\<rparr>"] a by simp
  then have "trace_grows pl pl1" by (simp add: trace_grows_def)
  then show ?thesis using new d a
    by (cases x) (auto simp: newPage_def Let_def trace_grows_def)
next
  case put
  then show ?thesis by (simp add: trace_same)
next
  case unpin
  then show ?thesis
    by (auto simp: unpin_def Let_def touchUnpinned_def intro!: trace_same split: option.split)
qed
qed

section \<open>Properties\<close>

text \<open>C2: Scoped access through the pool is access to the page it stands for: with no page
  pinned, a \<open>PageGuard\<close> scope on an allocated page always gets a frame (evicting if
  need be), its body sees the current contents, and afterwards the page holds what the body
  left, every other page what it held, whether cached or on disk, and the pool's invariant
  is kept - provided the body marks the guard dirty when it changes the page.\<close>

theorem guarded_refines:
  assumes "pool_inv pl" "0 \<le> pid" "pid < pool_pages pl"
    and "body (pool_content pl pid) = (p, marked, r)"
    and "in_page p" "marked \<or> p = pool_content pl pid"
  shows "\<exists>pl'. guarded pl pid body = (pl', Some r) \<and> pool_inv pl' \<and>
    pool_content pl' = (pool_content pl)(pid := p) \<and> pool_pages pl' = pool_pages pl"
  using guarded_spec [where body = body and p = p and marked = marked and r = r and pid = pid, OF assms]
  by metis

theorem guarded_refines_witness:
  "\<exists>pl'. guarded (pool_open \<lparr>fileBytes = [], numPages = 2\<rparr> 1 True) 1
      (\<lambda>p. (setPageLSN p 5, True, pageLSN p)) = (pl', Some 0) \<and> pool_inv pl' \<and>
    pool_content pl' = (\<lambda>_. blank)(1 := setPageLSN blank 5) \<and> pool_pages pl' = 2"
proof -
  define pl where "pl = pool_open \<lparr>fileBytes = [], numPages = 2\<rparr> 1 True"
  have inv: "pool_inv pl" unfolding pl_def by (rule pool_inv_open) simp
  have n: "pool_pages pl = 2" by (simp add: pl_def pool_open_def pool_pages_def Let_def)
  have c: "pool_content pl = (\<lambda>_. blank)"
    by (simp add: pl_def pool_ok_open) (simp add: disk_page_at fun_eq_iff blank_def file_at_def)
  have "pageLSN blank = 0" by (simp add: pageLSN_def readU64_def blank_def mread_def upt_conv_Cons LSN_OFFSET_def)
  moreover have "in_page (setPageLSN blank 5)"
    by (auto simp: in_page_def at_setPageLSN PAGE_SIZE_def) (simp add: blank_def)
  ultimately show ?thesis
    unfolding pl_def [symmetric]
    using guarded_refines [OF inv, of 1 "\<lambda>p. (setPageLSN p 5, True, pageLSN p)" "setPageLSN blank 5" True 0]
    by (simp add: n c)
qed

text \<open>C3: \<open>flushAll\<close> makes the pool's pages durable: afterwards the disk itself holds
  the contents of every page, cached or not, and nothing the clients see has changed.\<close>

theorem flushAll_durable:
  assumes "pool_inv pl"
  shows "disk_page (pl_disk (flushAll pl)) = pool_content pl \<and>
    pool_content (flushAll pl) = pool_content pl \<and> pool_inv (flushAll pl)"
  using flushAll_spec [OF assms] by blast

theorem flushAll_durable_witness:
  "disk_page (pl_disk (flushAll (pool_open \<lparr>fileBytes = [], numPages = 2\<rparr> 1 True))) = (\<lambda>_. blank)"
proof -
  define pl where "pl = pool_open \<lparr>fileBytes = [], numPages = 2\<rparr> 1 True"
  have inv: "pool_inv pl" unfolding pl_def by (rule pool_inv_open) simp
  have c: "pool_content pl = (\<lambda>_. blank)"
    by (simp add: pl_def pool_ok_open) (simp add: disk_page_at fun_eq_iff blank_def file_at_def)
  show ?thesis using flushAll_durable [OF inv] c by (simp add: pl_def)
qed

text \<open>C4: Write-ahead ordering of evictions: with the pre-evict hook installed, on every run
  of fetches, new pages, page changes and unpins each page write to the disk comes directly
  after a run of the hook.\<close>

theorem eviction_after_hook:
  assumes "pool_step\<^sup>*\<^sup>* pl pl'" "hooked pl" "writes_hooked (trace pl)"
  shows "hooked pl' \<and> writes_hooked (trace pl')"
  using assms
proof (induction rule: rtranclp_induct)
  case (step y z)
  then show ?case using trace_grows_step [of y z] writes_hooked_snoc
    by (auto simp: trace_grows_def)
qed simp

text \<open>A pool of one frame: its first page is put back dirty, and the second new page evicts it.\<close>

theorem eviction_after_hook_witness:
  "\<exists>pl p. pl = fst (newPage (fst (unpin (put_page (fst (newPage (pool_open \<lparr>fileBytes = [], numPages = 0\<rparr> 1 True))) 0 blank) 0 True))) \<and>
     trace pl = [HookRun, PageWrite 0 p] \<and> pageId (frames pl ! 0) = 1 \<and> writes_hooked (trace pl)"
proof -
  define pl0 where "pl0 = pool_open \<lparr>fileBytes = [], numPages = 0\<rparr> 1 True"
  define pl1 where "pl1 = fst (unpin (put_page (fst (newPage pl0)) 0 blank) 0 True)"
  define pl2 where "pl2 = fst (newPage pl1)"
  have "pool_step\<^sup>*\<^sup>* pl0 pl2"
    unfolding pl2_def pl1_def
    by (meson rtranclp.rtrancl_into_rtrancl rtranclp.rtrancl_refl step_new step_put step_unpin)
  then have "writes_hooked (trace pl2)"
    using eviction_after_hook [of pl0] by (simp add: pl0_def pool_open_def Let_def)
  moreover have "trace pl2 = [HookRun, PageWrite 0 blank] \<and> pageId (frames pl2 ! 0) = 1"
    by (simp add: pl2_def pl1_def pl0_def pool_open_def newPage_def allocatePage_def acquireFrame_def unpin_def findFrame_def
      touchUnpinned_def set_frame_def put_page_def write_back_def run_hook_def empty_frame_def Let_def)
  ultimately show ?thesis unfolding pl2_def pl1_def pl0_def by blast
qed

text \<open>An \<open>unpin\<close> too many breaks the pool: \<open>unpin\<close> of a page that has no pin
  (which it tolerates, leaving the count at zero) enters the frame in the LRU list a second
  time, so that after the page is pinned again the frame is still a victim and is handed to
  another page while its user holds the pointer.\<close>

lemma double_unpin_evicts_pinned:
  "let pl = pool_open \<lparr>fileBytes = [], numPages = 2\<rparr> 1 False;
       pl = fst (fetchPage pl 0);
       pl = fst (unpin pl 0 False);
       pl = fst (unpin pl 0 False);
       (pl, user) = fetchPage pl 0;
       (pl', other) = fetchPage pl 1
   in user = Some 0 \<and> pinCount (frames pl ! 0) = 1 \<and> other = Some 0 \<and> pageId (frames pl' ! 0) = 1"
  by (simp add: pool_open_def fetchPage_def findFrame_def acquireFrame_def unpin_def set_frame_def
      removeFromLru_def touchUnpinned_def empty_frame_def)

end
