(* ===== verification/TableManager.thy ===== *)
theory TableManager
  imports BufferPool "HOL-Library.Multiset"
begin

text \<open>
  The heap files of \<open>src/src/vm/table_manager.cpp\<close>: every table is a list of page
  numbers, records live in slotted pages reached through the buffer pool, and a record is
  named by its page and slot. \<open>tm_get\<close> abstracts the pages of the pool to a partial map
  from record identifiers to records; the operations are proved to be updates of that map,
  and the iterator to enumerate the part of it that belongs to a table. The locale
  \<open>record_store\<close> is the interface the rest of the engine relies on.
\<close>

section \<open>State and operations\<close>

record record_id =
  rpage :: int
  rslot :: int

definition no_rid :: record_id where
  "no_rid = \<lparr>rpage = - 1, rslot = - 1\<rparr>"

definition rid_valid :: "record_id \<Rightarrow> bool" where
  "rid_valid rid \<longleftrightarrow> rpage rid \<ge> 0 \<and> rslot rid \<ge> 0"

record tables =
  tm_pool :: pool
  tm_pages :: "int \<Rightarrow> int list option"
  pageFree :: "int \<Rightarrow> int option"

definition registerTable :: "tables \<Rightarrow> int \<Rightarrow> tables" where
  "registerTable t tid =
     (case tm_pages t tid of None \<Rightarrow> t\<lparr>tm_pages := (tm_pages t)(tid \<mapsto> [])\<rparr> | Some _ \<Rightarrow> t)"

definition hasTable :: "tables \<Rightarrow> int \<Rightarrow> bool" where
  "hasTable t tid \<longleftrightarrow> tm_pages t tid \<noteq> None"

definition dropTable :: "tables \<Rightarrow> int \<Rightarrow> tables" where
  "dropTable t tid = t\<lparr>tm_pages := (tm_pages t)(tid := None)\<rparr>"

definition truncateTable :: "tables \<Rightarrow> int \<Rightarrow> tables" where
  "truncateTable t tid =
     (case tm_pages t tid of
        None \<Rightarrow> t
      | Some pids \<Rightarrow>
          t\<lparr>pageFree := foldl (\<lambda>m pid. m(pid := None)) (pageFree t) pids,
            tm_pages := (tm_pages t)(tid \<mapsto> [])\<rparr>)"

definition pageList :: "tables \<Rightarrow> int \<Rightarrow> int list" where
  "pageList t tid = (case tm_pages t tid of None \<Rightarrow> [] | Some pids \<Rightarrow> pids)"

text \<open>The body of both scopes of \<open>insertTuple\<close>: the slot, if the page took the record, and
  the bytes the page has left.\<close>

definition try_insert :: "bytes \<Rightarrow> page \<Rightarrow> page \<times> bool \<times> (int option \<times> int)" where
  "try_insert bytes p =
     (case page_insert p bytes of
        Some (p, slot) \<Rightarrow> (p, True, Some slot, freeBytes p)
      | None \<Rightarrow> (p, False, None, freeBytes p))"

fun insert_scan :: "tables \<Rightarrow> int list \<Rightarrow> bytes \<Rightarrow> tables \<times> record_id option" where
  "insert_scan t [] bytes = (t, None)"
| "insert_scan t (pid # pids) bytes =
     (let needed = int (length bytes) + int SLOT_SIZE
      in if (case pageFree t pid of Some hint \<Rightarrow> hint < needed | None \<Rightarrow> False)
         then insert_scan t pids bytes
         else case guarded (tm_pool t) pid (try_insert bytes) of
           (pl, None) \<Rightarrow> insert_scan (t\<lparr>tm_pool := pl\<rparr>) pids bytes
         | (pl, Some (got, free)) \<Rightarrow>
             let t = t\<lparr>tm_pool := pl, pageFree := (pageFree t)(pid \<mapsto> free)\<rparr>
             in case got of
                  Some slot \<Rightarrow> (t, Some \<lparr>rpage = pid, rslot = slot\<rparr>)
                | None \<Rightarrow> insert_scan t pids bytes)"

definition insertTuple :: "tables \<Rightarrow> int \<Rightarrow> bytes \<Rightarrow> tables \<times> record_id" where
  "insertTuple t tid bytes =
     (let t = registerTable t tid
      in case insert_scan t (rev (pageList t tid)) bytes of
           (t, Some rid) \<Rightarrow> (t, rid)
         | (t, None) \<Rightarrow>
             (case guarded_new (tm_pool t) (try_insert bytes) of
                (pl, None) \<Rightarrow> (t\<lparr>tm_pool := pl\<rparr>, no_rid)
              | (pl, Some (pid, got, free)) \<Rightarrow>
                  let t = t\<lparr>tm_pool := pl, tm_pages := (tm_pages t)(tid \<mapsto> pageList t tid @ [pid])\<rparr>
                  in case got of
                       Some slot \<Rightarrow> (t\<lparr>pageFree := (pageFree t)(pid \<mapsto> free)\<rparr>, \<lparr>rpage = pid, rslot = slot\<rparr>)
                     | None \<Rightarrow> (t, no_rid)))"

definition getTuple :: "tables \<Rightarrow> record_id \<Rightarrow> tables \<times> bytes option" where
  "getTuple t rid =
     (case guarded (tm_pool t) (rpage rid) (\<lambda>p. (p, False, page_get p (rslot rid))) of
        (pl, None) \<Rightarrow> (t\<lparr>tm_pool := pl\<rparr>, None)
      | (pl, Some out) \<Rightarrow> (t\<lparr>tm_pool := pl\<rparr>, out))"

definition try_erase :: "int \<Rightarrow> page \<Rightarrow> page \<times> bool \<times> int option" where
  "try_erase slot p =
     (case page_erase p slot of
        Some p \<Rightarrow> (p, True, Some (freeBytes p))
      | None \<Rightarrow> (p, False, None))"

definition eraseTuple :: "tables \<Rightarrow> record_id \<Rightarrow> tables \<times> bool" where
  "eraseTuple t rid =
     (case guarded (tm_pool t) (rpage rid) (try_erase (rslot rid)) of
        (pl, Some (Some free)) \<Rightarrow>
          (t\<lparr>tm_pool := pl, pageFree := (pageFree t)(rpage rid \<mapsto> free)\<rparr>, True)
      | (pl, _) \<Rightarrow> (t\<lparr>tm_pool := pl\<rparr>, False))"

text \<open>The scope of \<open>updateTuple\<close>: \<open>True\<close> when the record was rewritten in place,
  otherwise the bytes free after the old record, if any, was erased.\<close>

definition try_update :: "int \<Rightarrow> bytes \<Rightarrow> page \<Rightarrow> page \<times> bool \<times> (bool \<times> int option)" where
  "try_update slot bytes p =
     (case page_update p slot bytes of
        Some p \<Rightarrow> (p, True, True, None)
      | None \<Rightarrow> (case try_erase slot p of (p, marked, free) \<Rightarrow> (p, marked, False, free)))"

definition updateTuple :: "tables \<Rightarrow> int \<Rightarrow> record_id \<Rightarrow> bytes \<Rightarrow> tables \<times> record_id" where
  "updateTuple t tid rid bytes =
     (case guarded (tm_pool t) (rpage rid) (try_update (rslot rid) bytes) of
        (pl, None) \<Rightarrow> (t\<lparr>tm_pool := pl\<rparr>, no_rid)
      | (pl, Some (True, _)) \<Rightarrow> (t\<lparr>tm_pool := pl\<rparr>, rid)
      | (pl, Some (False, free)) \<Rightarrow>
          let t = t\<lparr>tm_pool := pl\<rparr>;
              t = (case free of Some n \<Rightarrow> t\<lparr>pageFree := (pageFree t)(rpage rid \<mapsto> n)\<rparr> | None \<Rightarrow> t)
          in insertTuple t tid bytes)"

text \<open>Recovery: a record put at, or cleared from, an exact identifier.\<close>

definition claim_page :: "tables \<Rightarrow> int \<Rightarrow> int \<Rightarrow> tables" where
  "claim_page t tid pid =
     (let t = registerTable t tid
      in if pid \<in> set (pageList t tid) then t
         else t\<lparr>tm_pages := (tm_pages t)(tid \<mapsto> pageList t tid @ [pid])\<rparr>)"

definition redoInsert :: "tables \<Rightarrow> int \<Rightarrow> record_id \<Rightarrow> bytes \<Rightarrow> nat \<Rightarrow> tables" where
  "redoInsert t tid rid bytes lsn =
     (case guarded (tm_pool t) (rpage rid)
             (\<lambda>p. case redoSet p (rslot rid) bytes lsn of (p', ok) \<Rightarrow> (p', ok, ())) of
        (pl, None) \<Rightarrow> t\<lparr>tm_pool := pl\<rparr>
      | (pl, Some _) \<Rightarrow> claim_page (t\<lparr>tm_pool := pl\<rparr>) tid (rpage rid))"

definition redoDelete :: "tables \<Rightarrow> record_id \<Rightarrow> nat \<Rightarrow> tables" where
  "redoDelete t rid lsn =
     (case guarded (tm_pool t) (rpage rid) (\<lambda>p. (redoClear p (rslot rid) lsn, True, ())) of
        (pl, _) \<Rightarrow> t\<lparr>tm_pool := pl\<rparr>)"

definition undoInsert :: "tables \<Rightarrow> record_id \<Rightarrow> tables" where
  "undoInsert t rid =
     (case guarded (tm_pool t) (rpage rid)
             (\<lambda>p. let p = redoClear p (rslot rid) 0 in (p, True, freeBytes p)) of
        (pl, None) \<Rightarrow> t\<lparr>tm_pool := pl\<rparr>
      | (pl, Some free) \<Rightarrow> t\<lparr>tm_pool := pl, pageFree := (pageFree t)(rpage rid \<mapsto> free)\<rparr>)"

definition undoDelete :: "tables \<Rightarrow> int \<Rightarrow> record_id \<Rightarrow> bytes \<Rightarrow> tables" where
  "undoDelete t tid rid bytes = redoInsert t tid rid bytes 0"

definition restorePages :: "tables \<Rightarrow> int \<Rightarrow> int list \<Rightarrow> tables" where
  "restorePages t tid pids = t\<lparr>tm_pages := (tm_pages t)(tid \<mapsto> pids)\<rparr>"

text \<open>
  The iterator: a position in the table's page list and a slot in that page, moved on to the
  first live record at or after it.
\<close>

record iter =
  it_pageIdx :: nat
  it_slot :: int
  it_rid :: record_id
  it_bytes :: bytes
  it_valid :: bool

definition first_live :: "page \<Rightarrow> int \<Rightarrow> (int \<times> bytes) option" where
  "first_live p slot =
     (let slot = (if slot < 0 then 0 else slot)
      in case find (\<lambda>s. page_get p s \<noteq> None) [slot..int (slotCount p) - 1] of
           None \<Rightarrow> None
         | Some s \<Rightarrow> map_option (Pair s) (page_get p s))"

fun advance :: "pool \<Rightarrow> int list \<Rightarrow> nat \<Rightarrow> int \<Rightarrow> pool \<times> (nat \<times> record_id \<times> bytes) option" where
  "advance pl [] idx slot = (pl, None)"
| "advance pl (pid # pids) idx slot =
     (case guarded pl pid (\<lambda>p. (p, False, first_live p slot)) of
        (pl, Some (Some (s, bytes))) \<Rightarrow> (pl, Some (idx, \<lparr>rpage = pid, rslot = s\<rparr>, bytes))
      | (pl, _) \<Rightarrow> advance pl pids (Suc idx) (- 1))"

definition advanceToLive :: "tables \<Rightarrow> int \<Rightarrow> iter \<Rightarrow> tables \<times> iter" where
  "advanceToLive t tid it =
     (case advance (tm_pool t) (drop (it_pageIdx it) (pageList t tid)) (it_pageIdx it) (it_slot it) of
        (pl, Some (idx, rid, bytes)) \<Rightarrow>
          (t\<lparr>tm_pool := pl\<rparr>,
           \<lparr>it_pageIdx = idx, it_slot = rslot rid, it_rid = rid, it_bytes = bytes, it_valid = True\<rparr>)
      | (pl, None) \<Rightarrow>
          (t\<lparr>tm_pool := pl\<rparr>,
           it\<lparr>it_pageIdx := max (it_pageIdx it) (length (pageList t tid)),
              it_slot := (if it_pageIdx it < length (pageList t tid) then - 1 else it_slot it),
              it_valid := False\<rparr>))"

definition iter_open :: "tables \<Rightarrow> int \<Rightarrow> tables \<times> iter" where
  "iter_open t tid =
     advanceToLive t tid
       \<lparr>it_pageIdx = 0, it_slot = - 1, it_rid = no_rid, it_bytes = [], it_valid = False\<rparr>"

definition iter_next :: "tables \<Rightarrow> int \<Rightarrow> iter \<Rightarrow> tables \<times> iter" where
  "iter_next t tid it =
     (if \<not> it_valid it then (t, it)
      else advanceToLive t tid (it\<lparr>it_slot := it_slot it + 1\<rparr>))"


lemma rid_eta [simp]: "\<lparr>rpage = rpage rid, rslot = rslot rid\<rparr> = (rid :: record_id)"
  by (cases rid) simp

section \<open>Abstraction and invariant\<close>

text \<open>A page that was allocated and never written is all zeros; every other page keeps the
  slotted layout.\<close>

definition page_ok :: "page \<Rightarrow> bool" where
  "page_ok p \<longleftrightarrow> wf_page p \<or> p = blank"

definition tm_known :: "tables \<Rightarrow> record_id \<Rightarrow> bool" where
  "tm_known t rid \<longleftrightarrow> 0 \<le> rpage rid \<and> rpage rid < pool_pages (tm_pool t)"

definition tm_get :: "tables \<Rightarrow> record_id \<Rightarrow> bytes option" where
  "tm_get t rid =
     (if tm_known t rid then page_get (pool_content (tm_pool t) (rpage rid)) (rslot rid) else None)"

text \<open>The identifiers a page has ever handed out: slots are never given twice.\<close>

definition tm_slots :: "tables \<Rightarrow> int \<Rightarrow> nat" where
  "tm_slots t pid =
     (if 0 \<le> pid \<and> pid < pool_pages (tm_pool t) then slotCount (pool_content (tm_pool t) pid) else 0)"

definition tm_used :: "tables \<Rightarrow> record_id \<Rightarrow> bool" where
  "tm_used t rid \<longleftrightarrow> 0 \<le> rslot rid \<and> rslot rid < int (tm_slots t (rpage rid))"

definition tm_inv :: "tables \<Rightarrow> bool" where
  "tm_inv t \<longleftrightarrow> pool_inv (tm_pool t) \<and>
     (\<forall>pid. 0 \<le> pid \<and> pid < pool_pages (tm_pool t) \<longrightarrow> page_ok (pool_content (tm_pool t) pid)) \<and>
     (\<forall>tid. distinct (pageList t tid) \<and> set (pageList t tid) \<subseteq> {0..<pool_pages (tm_pool t)}) \<and>
     (\<forall>a b. a \<noteq> b \<longrightarrow> set (pageList t a) \<inter> set (pageList t b) = {})"

lemma tm_invD:
  assumes "tm_inv t"
  shows "pool_inv (tm_pool t)" "0 \<le> pid \<Longrightarrow> pid < pool_pages (tm_pool t) \<Longrightarrow> page_ok (pool_content (tm_pool t) pid)"
    "distinct (pageList t tid)" "pid \<in> set (pageList t tid) \<Longrightarrow> 0 \<le> pid \<and> pid < pool_pages (tm_pool t)"
  using assms by (auto simp: tm_inv_def subset_iff)

lemma tm_known_cong: "tm_pool t' = tm_pool t \<Longrightarrow> tm_known t' = tm_known t"
  by (auto simp: tm_known_def)

lemma tm_get_cong: "tm_pool t' = tm_pool t \<Longrightarrow> tm_get t' = tm_get t"
  by (auto simp: tm_get_def tm_known_def)

lemma tm_slots_cong: "tm_pool t' = tm_pool t \<Longrightarrow> tm_slots t' = tm_slots t"
  by (auto simp: tm_slots_def)

lemma tm_used_known: "tm_used t rid \<Longrightarrow> tm_known t rid"
  by (auto simp: tm_used_def tm_slots_def tm_known_def split: if_splits)

lemma tm_inv_pageFree [simp]: "tm_inv (t\<lparr>pageFree := x\<rparr>) = tm_inv t"
  "tm_get (t\<lparr>pageFree := x\<rparr>) = tm_get t" "tm_known (t\<lparr>pageFree := x\<rparr>) = tm_known t"
  "tm_slots (t\<lparr>pageFree := x\<rparr>) = tm_slots t"
  "pageList (t\<lparr>pageFree := x\<rparr>) tid = pageList t tid"
  by (simp_all add: tm_inv_def pageList_def tm_get_cong [of "t\<lparr>pageFree := x\<rparr>" t]
      tm_known_cong [of "t\<lparr>pageFree := x\<rparr>" t] tm_slots_cong [of "t\<lparr>pageFree := x\<rparr>" t])

lemma pageList_pool [simp]: "pageList (t\<lparr>tm_pool := pl\<rparr>) tid = pageList t tid"
  by (simp add: pageList_def)

lemma pageList_update [simp]:
  "pageList (t\<lparr>tm_pages := (tm_pages t)(a \<mapsto> pids)\<rparr>) b = (if a = b then pids else pageList t b)"
  by (simp add: pageList_def)

lemma in_page_ok: "page_ok p \<Longrightarrow> in_page p"
  by (auto simp: page_ok_def)

subsection \<open>Blank pages\<close>

lemma blank_fields [simp]:
  "slotCount blank = 0" "readU16 blank 2 = 0" "pageLSN blank = 0"
  by (simp_all add: blank_def slotCount_def readU16_def mread_def upt_conv_Cons pageLSN_def readU64_def
      page_consts)

lemma page_get_blank [simp]: "page_get blank slot = None"
  by (cases "slot < 0") (simp_all add: page_get_neg page_get_ge)

lemma page_erase_blank [simp]: "page_erase blank slot = None"
  by (simp add: page_erase_None_iff)

lemma page_update_blank [simp]: "page_update blank slot r = None"
proof -
  have "\<not> isLive blank slot" by (simp add: isLive_iff_get)
  then show ?thesis by (simp add: page_update_def)
qed

lemma compact_blank: "compact blank = new_page"
proof -
  have "writeU16 blank 0 0 = blank"
    by (auto simp: writeU16_def mwrite_def blank_def numeral_2_eq_2 less_Suc_eq nth_Cons')
  moreover have "memset (\<lambda>_. NUL) 0 NUL PAGE_SIZE = blank" by (auto simp: memset_def blank_def)
  ultimately show ?thesis
    by (simp add: compact_def live_records_def new_page_def page_init_def Let_def page_consts)
qed

lemma page_insert_blank: "page_insert blank r = page_insert new_page r"
proof -
  have free: "freeSpace blank = - 12" "usableSpace blank = 4084"
    by (simp_all add: freeSpace_eq freeEnd_def usableSpace_eq)
  show ?thesis
    by (simp add: page_insert_def free compact_blank Let_def page_consts)
qed

text \<open>The records a page can hold at all.\<close>

definition storable :: "bytes \<Rightarrow> bool" where
  "storable r \<longleftrightarrow> r \<noteq> [] \<and> length r \<le> 4080"

lemma page_insert_storable:
  assumes "page_ok p" "page_insert p bytes = Some x"
  shows "storable bytes"
proof -
  define q where "q = (if p = blank then new_page else p)"
  have q: "wf_page q" "page_insert q bytes = Some x"
    using assms by (auto simp: q_def page_ok_def page_insert_blank)
  then have "bytes \<noteq> []" "int (length bytes) + 4 \<le> usableSpace q"
    using page_insert_None_iff [OF q(1), of bytes] by auto
  moreover have "usableSpace q \<le> 4084" by (simp add: usableSpace_eq)
  ultimately show ?thesis by (simp add: storable_def)
qed

lemma page_insert_ok:
  assumes "page_ok p" "page_insert p bytes = Some (p', slot)"
  shows "page_ok p'" "page_get p' = (page_get p)(slot \<mapsto> bytes)" "page_get p slot = None"
    "slot = int (slotCount p)" "slotCount p' = Suc (slotCount p)"
proof -
  define q where "q = (if p = blank then new_page else p)"
  have q: "wf_page q" "page_get q = page_get p" "page_insert q bytes = Some (p', slot)" "slotCount q = slotCount p"
    using assms by (auto simp: q_def page_ok_def page_insert_blank)
  show "page_ok p'" "page_get p' = (page_get p)(slot \<mapsto> bytes)" "page_get p slot = None"
    "slot = int (slotCount p)" "slotCount p' = Suc (slotCount p)"
    using page_insert_Some [OF q(1,3)] q(2,4) by (auto simp: page_ok_def)
qed

lemma page_erase_ok:
  assumes "page_ok p" "page_erase p slot = Some p'"
  shows "page_ok p'" "page_get p' = (page_get p)(slot := None)" "page_get p slot \<noteq> None"
    "slotCount p' = slotCount p"
proof -
  have "wf_page p" using assms by (auto simp: page_ok_def)
  then show "page_ok p'" "page_get p' = (page_get p)(slot := None)" "page_get p slot \<noteq> None"
    "slotCount p' = slotCount p"
    using page_erase_Some [of p slot p'] page_erase_None_iff [of p slot] assms(2)
    by (auto simp: page_ok_def)
qed

lemma page_update_storable:
  assumes "page_ok p" "page_update p slot bytes = Some p'"
  shows "storable bytes"
proof -
  have wf: "wf_page p" using assms by (auto simp: page_ok_def)
  have b: "isLive p slot" "bytes \<noteq> []" "length bytes \<le> snd (slotAt p slot)"
    using assms(2) by (auto simp: page_update_def Let_def split: if_splits prod.splits)
  obtain s where s: "slot = int s" "s < slotCount p" "slot_len p s \<noteq> 0"
    using b(1) by (rule isLiveE)
  have "12 + 4 * slotCount p \<le> freeEnd p" "freeEnd p \<le> slot_off p s" "slot_off p s + slot_len p s \<le> 4096"
    using wf_pageD [OF wf] s by auto
  then show ?thesis using b(2,3) s by (simp add: storable_def slotAt_int)
qed

lemma page_update_ok:
  assumes "page_ok p" "page_update p slot bytes = Some p'"
  shows "page_ok p'" "page_get p' = (page_get p)(slot \<mapsto> bytes)" "page_get p slot \<noteq> None"
    "slotCount p' = slotCount p"
proof -
  have "wf_page p" using assms by (auto simp: page_ok_def)
  then show "page_ok p'" "page_get p' = (page_get p)(slot \<mapsto> bytes)" "page_get p slot \<noteq> None"
    "slotCount p' = slotCount p"
    using page_update_Some [of p slot bytes p'] assms(2) by (auto simp: page_ok_def)
qed

subsection \<open>One scope\<close>

lemma tm_get_update:
  assumes "pool_content pl = (pool_content (tm_pool t))(pid := p)"
    and "page_get p = (page_get (pool_content (tm_pool t) pid))(slot := v)"
    and "0 \<le> pid" "pid < pool_pages (tm_pool t)" "pool_pages pl = pool_pages (tm_pool t)"
  shows "tm_get (t\<lparr>tm_pool := pl\<rparr>) = (tm_get t)(\<lparr>rpage = pid, rslot = slot\<rparr> := v)"
proof
  fix rid
  show "tm_get (t\<lparr>tm_pool := pl\<rparr>) rid = ((tm_get t)(\<lparr>rpage = pid, rslot = slot\<rparr> := v)) rid"
    using assms by (cases rid) (auto simp: tm_get_def tm_known_def)
qed

lemma tm_get_same:
  "pool_content pl = pool_content (tm_pool t) \<Longrightarrow> pool_pages pl = pool_pages (tm_pool t) \<Longrightarrow>
   tm_get (t\<lparr>tm_pool := pl\<rparr>) = tm_get t"
  by (rule ext) (simp add: tm_get_def tm_known_def)

lemma tm_slots_update:
  assumes "pool_content pl = (pool_content (tm_pool t))(pid := p)"
    and "0 \<le> pid" "pid < pool_pages (tm_pool t)" "pool_pages pl = pool_pages (tm_pool t)"
  shows "tm_slots (t\<lparr>tm_pool := pl\<rparr>) = (tm_slots t)(pid := slotCount p)"
  by (rule ext) (simp add: tm_slots_def assms)

lemma tm_slots_same:
  "pool_content pl = pool_content (tm_pool t) \<Longrightarrow> pool_pages pl = pool_pages (tm_pool t) \<Longrightarrow>
   tm_slots (t\<lparr>tm_pool := pl\<rparr>) = tm_slots t"
  by (rule ext) (simp add: tm_slots_def)

lemma tm_inv_write:
  assumes "tm_inv t" "pool_inv pl" "pool_content pl = (pool_content (tm_pool t))(pid := p)"
    "pool_pages pl = pool_pages (tm_pool t)" "page_ok p"
  shows "tm_inv (t\<lparr>tm_pool := pl\<rparr>)"
  using assms by (simp add: tm_inv_def)

text \<open>A scope on a known page, as the rest of the theory uses it.\<close>

lemma scope:
  assumes "tm_inv t" "0 \<le> pid" "pid < pool_pages (tm_pool t)"
    and "body (pool_content (tm_pool t) pid) = (p, marked, r)"
    and "page_ok p" "marked \<or> p = pool_content (tm_pool t) pid"
  obtains pl where "guarded (tm_pool t) pid body = (pl, Some r)" "tm_inv (t\<lparr>tm_pool := pl\<rparr>)"
    "pool_content pl = (pool_content (tm_pool t))(pid := p)" "pool_pages pl = pool_pages (tm_pool t)"
proof -
  obtain pl where g: "guarded (tm_pool t) pid body = (pl, Some r)" "pool_inv pl"
    "pool_content pl = (pool_content (tm_pool t))(pid := p)" "pool_pages pl = pool_pages (tm_pool t)"
    by (rule guarded_spec [where pid = pid and body = body and p = p and marked = marked and r = r,
          OF tm_invD(1) [OF assms(1)] assms(2,3,4) in_page_ok [OF assms(5)] assms(6)])
  then show ?thesis using that tm_inv_write [OF assms(1) g(2,3,4) assms(5)] by blast
qed

text \<open>A record stored at an identifier its page had not handed out before.\<close>

definition fresh_put :: "tables \<Rightarrow> bytes \<Rightarrow> record_id \<Rightarrow> tables \<Rightarrow> bool" where
  "fresh_put t bytes rid t' \<longleftrightarrow> storable bytes \<and> rid_valid rid \<and> rslot rid = int (tm_slots t (rpage rid)) \<and>
     tm_get t rid = None \<and> tm_get t' = (tm_get t)(rid \<mapsto> bytes) \<and>
     tm_slots t' = (tm_slots t)(rpage rid := Suc (tm_slots t (rpage rid)))"

lemma insert_scan_spec:
  assumes "tm_inv t" "set pids \<subseteq> {0..<pool_pages (tm_pool t)}" "insert_scan t pids bytes = (t', r)"
  shows "tm_inv t' \<and> tm_pages t' = tm_pages t \<and> pool_pages (tm_pool t') = pool_pages (tm_pool t) \<and>
    (case r of
       None \<Rightarrow> tm_get t' = tm_get t \<and> tm_slots t' = tm_slots t
     | Some rid \<Rightarrow> rpage rid \<in> set pids \<and> fresh_put t bytes rid t')"
  using assms
proof (induction t pids bytes rule: insert_scan.induct)
  case (1 t bytes)
  then show ?case by auto
next
  case (2 t pid pids bytes)
  define skip where "skip \<longleftrightarrow> (case pageFree t pid of Some hint \<Rightarrow> hint < int (length bytes) + int SLOT_SIZE | None \<Rightarrow> False)"
  have pid: "0 \<le> pid" "pid < pool_pages (tm_pool t)" "set pids \<subseteq> {0..<pool_pages (tm_pool t)}"
    using 2 by auto
  show ?case
  proof (cases skip)
    case True
    then have "tm_inv t' \<and> tm_pages t' = tm_pages t \<and> pool_pages (tm_pool t') = pool_pages (tm_pool t) \<and>
      (case r of
         None \<Rightarrow> tm_get t' = tm_get t \<and> tm_slots t' = tm_slots t
       | Some rid \<Rightarrow> rpage rid \<in> set pids \<and> fresh_put t bytes rid t')"
      using "2.IH"(1) [OF refl] "2.prems" pid by (simp add: skip_def)
    then show ?thesis by (auto split: option.splits)
  next
    case False
    define q where "q = pool_content (tm_pool t) pid"
    have ok: "page_ok q" using tm_invD(2) [OF \<open>tm_inv t\<close>] pid by (simp add: q_def)
    obtain p marked got free where body: "try_insert bytes q = (p, marked, got, free)"
      by (metis surj_pair)
    have b: "page_ok p" "marked \<or> p = q"
      "\<And>slot. got = Some slot \<Longrightarrow> page_get p = (page_get q)(slot \<mapsto> bytes) \<and> page_get q slot = None \<and> slot = int (slotCount q) \<and> slotCount p = Suc (slotCount q) \<and> storable bytes"
      "got = None \<Longrightarrow> p = q"
      using body ok page_insert_ok [OF ok] page_insert_storable [OF ok] by (auto simp: try_insert_def split: option.splits prod.splits)
    obtain pl where g: "guarded (tm_pool t) pid (try_insert bytes) = (pl, Some (got, free))"
      "tm_inv (t\<lparr>tm_pool := pl\<rparr>)" "pool_content pl = (pool_content (tm_pool t))(pid := p)"
      "pool_pages pl = pool_pages (tm_pool t)"
      by (rule scope [OF "2.prems"(1) pid(1,2), of "try_insert bytes" p marked "(got, free)"])
         (use body b in \<open>auto simp: q_def\<close>)
    define t1 where "t1 = t\<lparr>tm_pool := pl, pageFree := (pageFree t)(pid \<mapsto> free)\<rparr>"
    have t1: "t1 = t\<lparr>tm_pool := pl\<rparr>\<lparr>pageFree := (pageFree t)(pid \<mapsto> free)\<rparr>" by (simp add: t1_def)
    have inv1: "tm_inv t1" using g(2) by (simp add: t1)
    show ?thesis
    proof (cases got)
      case (Some slot)
      then have "t' = t1" "r = Some \<lparr>rpage = pid, rslot = slot\<rparr>"
        using "2.prems"(3) False g(1) by (auto simp: skip_def t1_def Let_def)
      moreover have "tm_get t1 = (tm_get t)(\<lparr>rpage = pid, rslot = slot\<rparr> \<mapsto> bytes)"
        using tm_get_update [OF g(3), of slot "Some bytes"] b(3) [OF Some] pid g(4) by (simp add: t1 q_def)
      moreover have "tm_slots t1 = (tm_slots t)(pid := Suc (tm_slots t pid))" "slot = int (tm_slots t pid)"
        using tm_slots_update [OF g(3) pid(1,2) g(4)] b(3) [OF Some] pid by (simp_all add: t1) (simp_all add: tm_slots_def q_def)
      moreover have "tm_get t \<lparr>rpage = pid, rslot = slot\<rparr> = None"
        using b(3) [OF Some] by (auto simp: tm_get_def q_def)
      ultimately show ?thesis
        using inv1 g(4) b(3) [OF Some] pid by (simp add: t1 rid_valid_def fresh_put_def)
    next
      case None
      have same: "tm_get t1 = tm_get t"
        using tm_get_same [of pl t] g(3,4) b(4) [OF None] by (simp add: t1 q_def)
      have same_slots: "tm_slots t1 = tm_slots t"
        using tm_slots_same [of pl t] g(3,4) b(4) [OF None] by (simp add: t1 q_def)
      have run: "insert_scan t1 pids bytes = (t', r)"
        using "2.prems"(3) False g(1) None by (auto simp: skip_def t1_def Let_def)
      have "set pids \<subseteq> {0..<pool_pages (tm_pool t1)}" using pid g(4) by (simp add: t1)
      then have "tm_inv t' \<and> tm_pages t' = tm_pages t1 \<and> pool_pages (tm_pool t') = pool_pages (tm_pool t1) \<and>
        (case r of
           None \<Rightarrow> tm_get t' = tm_get t1 \<and> tm_slots t' = tm_slots t1
         | Some rid \<Rightarrow> rpage rid \<in> set pids \<and> fresh_put t1 bytes rid t')"
        using "2.IH"(3) [OF refl _ g(1) [symmetric] refl refl t1_def None] False inv1 run
        by (simp add: skip_def)
      then show ?thesis using same same_slots g(4) by (auto simp: t1 fresh_put_def split: option.splits)
    qed
  qed
qed


subsection \<open>The operations on the map of records\<close>

lemma registerTable_same [simp]:
  "pageList (registerTable t tid) a = pageList t a" "tm_pool (registerTable t tid) = tm_pool t"
  "tm_inv (registerTable t tid) = tm_inv t" "tm_get (registerTable t tid) = tm_get t"
  "tm_known (registerTable t tid) = tm_known t" "tm_slots (registerTable t tid) = tm_slots t"
proof -
  show p: "pageList (registerTable t tid) a = pageList t a" for a
    by (simp add: registerTable_def pageList_def split: option.split)
  show q: "tm_pool (registerTable t tid) = tm_pool t"
    by (simp add: registerTable_def split: option.split)
  show "tm_inv (registerTable t tid) = tm_inv t" "tm_get (registerTable t tid) = tm_get t"
    "tm_known (registerTable t tid) = tm_known t" "tm_slots (registerTable t tid) = tm_slots t"
    by (simp_all add: tm_inv_def p q tm_get_cong [OF q] tm_known_cong [OF q] tm_slots_cong [OF q])
qed

lemma tm_inv_append_page:
  assumes "tm_inv t" "pid \<in> {0..<pool_pages (tm_pool t)}" "\<And>a. pid \<notin> set (pageList t a)"
  shows "tm_inv (t\<lparr>tm_pages := (tm_pages t)(tid \<mapsto> pageList t tid @ [pid])\<rparr>)"
  using assms by (auto simp: tm_inv_def)

lemma tm_get_pages [simp]: "tm_get (t\<lparr>tm_pages := x\<rparr>) = tm_get t"
  "tm_known (t\<lparr>tm_pages := x\<rparr>) = tm_known t"
  "tm_slots (t\<lparr>tm_pages := x\<rparr>) = tm_slots t"
  by (simp_all add: tm_get_cong [of "t\<lparr>tm_pages := x\<rparr>" t] tm_known_cong [of "t\<lparr>tm_pages := x\<rparr>" t]
      tm_slots_cong [of "t\<lparr>tm_pages := x\<rparr>" t])

lemma insertTuple_spec:
  assumes inv: "tm_inv t" and r: "storable bytes" and ins: "insertTuple t tid bytes = (t', rid)"
  shows "tm_inv t'" "rid_valid rid" "tm_get t rid = None" "tm_get t' = (tm_get t)(rid \<mapsto> bytes)"
    "rpage rid \<in> set (pageList t' tid)" "\<And>a. a \<noteq> tid \<Longrightarrow> pageList t' a = pageList t a"
    "set (pageList t tid) \<subseteq> set (pageList t' tid)"
    "pool_pages (tm_pool t) \<le> pool_pages (tm_pool t')"
    "\<And>pid. pid \<in> set (pageList t' tid) - set (pageList t tid) \<Longrightarrow> pid = rpage rid \<and> pool_pages (tm_pool t) \<le> pid"
    "rslot rid = int (tm_slots t (rpage rid))" "tm_slots t' = (tm_slots t)(rpage rid := Suc (tm_slots t (rpage rid)))"
proof -
  define t0 where "t0 = registerTable t tid"
  have inv0: "tm_inv t0" using inv by (simp add: t0_def)
  obtain t1 x where scan: "insert_scan t0 (rev (pageList t0 tid)) bytes = (t1, x)" by (metis surj_pair)
  have sub: "set (rev (pageList t0 tid)) \<subseteq> {0..<pool_pages (tm_pool t0)}"
    using tm_invD(4) [OF inv0] by auto
  note sc = insert_scan_spec [OF inv0 sub scan]
  have pl1: "pageList t1 a = pageList t a" for a using sc by (simp add: pageList_def t0_def registerTable_def split: option.split)
  have "tm_inv t' \<and> fresh_put t bytes rid t' \<and>
    rpage rid \<in> set (pageList t' tid) \<and> (\<forall>a. a \<noteq> tid \<longrightarrow> pageList t' a = pageList t a) \<and>
    pool_pages (tm_pool t) \<le> pool_pages (tm_pool t') \<and>
    (pageList t' tid = pageList t tid \<or>
      (\<exists>pid. pageList t' tid = pageList t tid @ [pid] \<and> pid = rpage rid \<and> pool_pages (tm_pool t) \<le> pid))"
  proof (cases x)
    case (Some y)
    then have "t' = t1" "rid = y" using ins scan by (auto simp: insertTuple_def t0_def)
    then show ?thesis using sc Some pl1 by (simp add: t0_def fresh_put_def)
  next
    case None
    then have inv1: "tm_inv t1" and g1: "tm_get t1 = tm_get t" and s1: "tm_slots t1 = tm_slots t" and n1: "pool_pages (tm_pool t1) = pool_pages (tm_pool t)"
      using sc by (simp_all add: t0_def)
    define pid where "pid = pool_pages (tm_pool t1)"
    obtain p where ins_new: "page_insert new_page bytes = Some (p, 0)"
      using insert_new_page [of bytes] r by (auto simp: storable_def)
    note pn = page_insert_Some [OF new_page_fields(5) ins_new]
    have body: "try_insert bytes new_page = (p, True, Some 0, freeBytes p)"
      by (simp add: try_insert_def ins_new)
    have okp: "page_ok p" using pn(1) by (simp add: page_ok_def)
    obtain pl where g: "guarded_new (tm_pool t1) (try_insert bytes) = (pl, Some (pid, Some 0, freeBytes p))"
      "pool_inv pl" "pool_content pl = (pool_content (tm_pool t1))(pid := p)"
      "pool_pages pl = pid + 1"
      by (rule guarded_new_spec [where body = "try_insert bytes" and p = p and marked = True
            and r = "(Some 0, freeBytes p)", OF tm_invD(1) [OF inv1] body in_page_ok [OF okp]])
         (auto simp: pid_def)
    define t2 where "t2 = t1\<lparr>tm_pool := pl\<rparr>"
    have range: "a \<in> set (pageList t1 b) \<Longrightarrow> 0 \<le> a \<and> a < pid" for a b
      using tm_invD(4) [OF inv1] by (simp add: pid_def)
    have inv2: "tm_inv t2"
    proof -
      have "page_ok (pool_content pl q)" if "0 \<le> q" "q < pid + 1" for q
        using tm_invD(2) [OF inv1, of q] that okp g(3) by (cases "q = pid") (auto simp: pid_def)
      moreover have "set (pageList t1 a) \<subseteq> {0..<pid + 1}" for a using range by fastforce
      moreover have "distinct (pageList t1 a)" "a \<noteq> b \<Longrightarrow> set (pageList t1 a) \<inter> set (pageList t1 b) = {}" for a b
        using inv1 by (auto simp: tm_inv_def)
      ultimately show ?thesis using g(2,4) by (simp add: tm_inv_def t2_def)
    qed
    define new where "new = \<lparr>rpage = pid, rslot = 0\<rparr>"
    have none: "tm_get t1 new = None" by (simp add: tm_get_def tm_known_def pid_def new_def)
    have p0: "0 \<le> pid" using pool_okD(6) tm_invD(1) [OF inv1] unfolding pid_def pool_inv_def by blast
    have get2: "tm_get t2 = (tm_get t1)(new \<mapsto> bytes)"
    proof
      fix q
      show "tm_get t2 q = ((tm_get t1)(new \<mapsto> bytes)) q"
        using g(3,4) pn(2) p0 by (cases q) (auto simp: tm_get_def tm_known_def t2_def new_def pid_def)
    qed
    have sl0: "tm_slots t1 pid = 0" by (simp add: tm_slots_def pid_def)
    have slots2: "tm_slots t2 = (tm_slots t1)(pid := Suc 0)"
    proof
      fix q
      show "tm_slots t2 q = ((tm_slots t1)(pid := Suc 0)) q"
        using p0 pn(4) by (simp add: tm_slots_def t2_def g(3,4) pid_def)
    qed
    define t3 where "t3 = t2\<lparr>tm_pages := (tm_pages t2)(tid \<mapsto> pageList t2 tid @ [pid])\<rparr>"
    have pl2: "pageList t2 a = pageList t a" for a by (simp add: t2_def pl1)
    have inv3: "tm_inv t3"
      unfolding t3_def using tm_inv_append_page [OF inv2, of pid tid] range p0 g(4) by (auto simp: t2_def)
    have "t' = t3\<lparr>pageFree := (pageFree t3)(pid \<mapsto> freeBytes p)\<rparr>" "rid = new"
      using ins scan None g(1)
      by (simp_all add: insertTuple_def t0_def [symmetric] t3_def t2_def new_def Let_def)
    then show ?thesis
      using inv3 get2 g1 none n1 p0 g(4) pl2 slots2 sl0 s1 r
      by (auto simp: t3_def rid_valid_def new_def pid_def fresh_put_def) (auto simp: t2_def)
  qed
  then show "tm_inv t'" "rid_valid rid" "tm_get t rid = None" "tm_get t' = (tm_get t)(rid \<mapsto> bytes)"
    "rpage rid \<in> set (pageList t' tid)" "\<And>a. a \<noteq> tid \<Longrightarrow> pageList t' a = pageList t a"
    "set (pageList t tid) \<subseteq> set (pageList t' tid)"
    "pool_pages (tm_pool t) \<le> pool_pages (tm_pool t')"
    "\<And>pid. pid \<in> set (pageList t' tid) - set (pageList t tid) \<Longrightarrow> pid = rpage rid \<and> pool_pages (tm_pool t) \<le> pid"
    "rslot rid = int (tm_slots t (rpage rid))" "tm_slots t' = (tm_slots t)(rpage rid := Suc (tm_slots t (rpage rid)))"
    by (auto simp: fresh_put_def)
qed


text \<open>Every other operation keeps the page lists and writes one known page.\<close>

lemma eraseTuple_spec:
  assumes inv: "tm_inv t" and known: "tm_known t rid" and er: "eraseTuple t rid = (t', ok)"
  shows "tm_inv t'" "ok \<longleftrightarrow> tm_get t rid \<noteq> None" "tm_get t' = (tm_get t)(rid := None)"
    "tm_known t' = tm_known t" "pageList t' = pageList t"
    "tm_slots t' = tm_slots t"
proof -
  define q where "q = pool_content (tm_pool t) (rpage rid)"
  have pid: "0 \<le> rpage rid" "rpage rid < pool_pages (tm_pool t)" using known by (auto simp: tm_known_def)
  have okq: "page_ok q" using tm_invD(2) [OF inv pid] by (simp add: q_def)
  obtain p marked r where body: "try_erase (rslot rid) q = (p, marked, r)" by (metis surj_pair)
  have b: "page_ok p" "marked \<or> p = q" "page_get p = (page_get q)(rslot rid := None)"
    "r \<noteq> None \<longleftrightarrow> page_get q (rslot rid) \<noteq> None" "slotCount p = slotCount q"
    using body okq page_erase_ok [OF okq] page_erase_None_iff [of q "rslot rid"]
    by (auto simp: try_erase_def split: option.splits)
  obtain pl where g: "guarded (tm_pool t) (rpage rid) (try_erase (rslot rid)) = (pl, Some r)"
    "tm_inv (t\<lparr>tm_pool := pl\<rparr>)" "pool_content pl = (pool_content (tm_pool t))(rpage rid := p)"
    "pool_pages pl = pool_pages (tm_pool t)"
    by (rule scope [OF inv pid, of "try_erase (rslot rid)" p marked r])
       (use body b in \<open>auto simp: q_def\<close>)
  have get: "tm_get (t\<lparr>tm_pool := pl\<rparr>) = (tm_get t)(rid := None)"
    using tm_get_update [OF g(3) b(3) [unfolded q_def] pid g(4)] by (cases rid) simp
  have slots: "tm_slots (t\<lparr>tm_pool := pl\<rparr>) = tm_slots t"
    using tm_slots_update [OF g(3) pid g(4)] b(5) pid by (simp add: fun_eq_iff) (simp add: tm_slots_def q_def)
  have t': "t' = (case r of None \<Rightarrow> t\<lparr>tm_pool := pl\<rparr>
      | Some free \<Rightarrow> t\<lparr>tm_pool := pl\<rparr>\<lparr>pageFree := (pageFree t)(rpage rid \<mapsto> free)\<rparr>)"
    "ok \<longleftrightarrow> r \<noteq> None"
    using er g(1) by (auto simp: eraseTuple_def split: option.splits)
  show "tm_inv t'" "tm_get t' = (tm_get t)(rid := None)"
    "tm_known t' = tm_known t" "pageList t' = pageList t" "tm_slots t' = tm_slots t"
    using t'(1) g(2,4) get slots by (auto simp: tm_known_def fun_eq_iff split: option.split)
  show "ok \<longleftrightarrow> tm_get t rid \<noteq> None"
    using t'(2) b(4) known by (simp add: tm_get_def q_def)
qed

lemma getTuple_spec:
  assumes inv: "tm_inv t" and known: "tm_known t rid" and get: "getTuple t rid = (t', out)"
  shows "tm_inv t'" "out = tm_get t rid" "tm_get t' = tm_get t" "tm_known t' = tm_known t"
    "pageList t' = pageList t"
proof -
  define q where "q = pool_content (tm_pool t) (rpage rid)"
  have pid: "0 \<le> rpage rid" "rpage rid < pool_pages (tm_pool t)" using known by (auto simp: tm_known_def)
  have okq: "page_ok q" using tm_invD(2) [OF inv pid] by (simp add: q_def)
  obtain pl where g: "guarded (tm_pool t) (rpage rid) (\<lambda>p. (p, False, page_get p (rslot rid))) =
      (pl, Some (page_get q (rslot rid)))"
    "tm_inv (t\<lparr>tm_pool := pl\<rparr>)" "pool_content pl = (pool_content (tm_pool t))(rpage rid := q)"
    "pool_pages pl = pool_pages (tm_pool t)"
    by (rule scope [OF inv pid, of "\<lambda>p. (p, False, page_get p (rslot rid))" q False "page_get q (rslot rid)"])
       (use okq in \<open>auto simp: q_def\<close>)
  have t': "t' = t\<lparr>tm_pool := pl\<rparr>" "out = page_get q (rslot rid)"
    using get g(1) by (simp_all add: getTuple_def)
  show "tm_inv t'" "out = tm_get t rid" "tm_known t' = tm_known t" "pageList t' = pageList t"
    using t' g(2,4) known by (auto simp: tm_known_def tm_get_def q_def fun_eq_iff)
  show "tm_get t' = tm_get t" using tm_get_same [of pl t] g(3,4) by (simp add: t' q_def)
qed

lemma update_scope:
  assumes inv: "tm_inv t" and known: "tm_known t rid"
  obtains pl inplace free where
    "guarded (tm_pool t) (rpage rid) (try_update (rslot rid) bytes) = (pl, Some (inplace, free))"
    "tm_inv (t\<lparr>tm_pool := pl\<rparr>)" "pool_pages pl = pool_pages (tm_pool t)"
    "tm_get (t\<lparr>tm_pool := pl\<rparr>) = (tm_get t)(rid := (if inplace then Some bytes else None))"
    "inplace \<Longrightarrow> storable bytes" "tm_slots (t\<lparr>tm_pool := pl\<rparr>) = tm_slots t"
proof -
  define q where "q = pool_content (tm_pool t) (rpage rid)"
  have pid: "0 \<le> rpage rid" "rpage rid < pool_pages (tm_pool t)" using known by (auto simp: tm_known_def)
  have okq: "page_ok q" using tm_invD(2) [OF inv pid] by (simp add: q_def)
  obtain p marked inplace free where body: "try_update (rslot rid) bytes q = (p, marked, inplace, free)"
    by (metis surj_pair)
  have b: "page_ok p" "marked \<or> p = q"
    "page_get p = (page_get q)(rslot rid := (if inplace then Some bytes else None))"
    "inplace \<Longrightarrow> storable bytes" "slotCount p = slotCount q"
    using body okq page_erase_ok [OF okq] page_update_ok [OF okq] page_erase_None_iff [of q "rslot rid"]
      page_update_storable [OF okq]
    by (auto simp: try_update_def try_erase_def split: option.splits)
  obtain pl where g: "guarded (tm_pool t) (rpage rid) (try_update (rslot rid) bytes) = (pl, Some (inplace, free))"
    "tm_inv (t\<lparr>tm_pool := pl\<rparr>)" "pool_content pl = (pool_content (tm_pool t))(rpage rid := p)"
    "pool_pages pl = pool_pages (tm_pool t)"
    by (rule scope [OF inv pid, of "try_update (rslot rid) bytes" p marked "(inplace, free)"])
       (use body b in \<open>auto simp: q_def\<close>)
  have "tm_get (t\<lparr>tm_pool := pl\<rparr>) = (tm_get t)(rid := (if inplace then Some bytes else None))"
    using tm_get_update [OF g(3) b(3) [unfolded q_def] pid g(4)] by simp
  moreover have "tm_slots (t\<lparr>tm_pool := pl\<rparr>) = tm_slots t"
    using tm_slots_update [OF g(3) pid g(4)] b(5) pid by (simp add: fun_eq_iff) (simp add: tm_slots_def q_def)
  ultimately show ?thesis using that g b(4) by blast
qed

lemma updateTuple_spec:
  assumes inv: "tm_inv t" and known: "tm_known t rid" and r: "storable bytes"
    and up: "updateTuple t tid rid bytes = (t', rid')"
  shows "tm_inv t'" "rid' = rid \<or> ((tm_get t)(rid := None)) rid' = None"
    "tm_get t' = (tm_get t)(rid := None, rid' \<mapsto> bytes)" "pool_pages (tm_pool t) \<le> pool_pages (tm_pool t')"
    "(rid' = rid \<and> tm_slots t' = tm_slots t) \<or> (rslot rid' = int (tm_slots t (rpage rid')) \<and>
       tm_slots t' = (tm_slots t)(rpage rid' := Suc (tm_slots t (rpage rid'))))"
proof -
  obtain pl inplace free where g: "guarded (tm_pool t) (rpage rid) (try_update (rslot rid) bytes) = (pl, Some (inplace, free))"
    and ok: "tm_inv (t\<lparr>tm_pool := pl\<rparr>)" "pool_pages pl = pool_pages (tm_pool t)"
    and get: "tm_get (t\<lparr>tm_pool := pl\<rparr>) = (tm_get t)(rid := (if inplace then Some bytes else None))"
    and slots: "tm_slots (t\<lparr>tm_pool := pl\<rparr>) = tm_slots t"
    by (rule update_scope [where bytes = bytes, OF inv known]) blast
  define t1 where "t1 = t\<lparr>tm_pool := pl\<rparr>\<lparr>pageFree := (case free of None \<Rightarrow> pageFree t
      | Some n \<Rightarrow> (pageFree t)(rpage rid \<mapsto> n))\<rparr>"
  have "tm_inv t' \<and> (rid' = rid \<or> ((tm_get t)(rid := None)) rid' = None) \<and>
    tm_get t' = (tm_get t)(rid := None, rid' \<mapsto> bytes) \<and> pool_pages (tm_pool t) \<le> pool_pages (tm_pool t') \<and>
    ((rid' = rid \<and> tm_slots t' = tm_slots t) \<or> (rslot rid' = int (tm_slots t (rpage rid')) \<and>
       tm_slots t' = (tm_slots t)(rpage rid' := Suc (tm_slots t (rpage rid')))))"
  proof (cases inplace)
    case True
    then have "t' = t\<lparr>tm_pool := pl\<rparr>" "rid' = rid"
      using up g by (simp_all add: updateTuple_def)
    then show ?thesis using ok get slots True by auto
  next
    case False
    have inv1: "tm_inv t1" using ok by (simp add: t1_def)
    have get1: "tm_get t1 = (tm_get t)(rid := None)" using get False by (simp add: t1_def)
    have ins: "insertTuple t1 tid bytes = (t', rid')"
      using up g False by (cases free) (simp_all add: updateTuple_def t1_def)
    have "tm_slots t1 = tm_slots t" using slots by (simp add: t1_def)
    then show ?thesis using insertTuple_spec [OF inv1 r ins] get1 ok by (simp add: t1_def)
  qed
  then show "tm_inv t'" "rid' = rid \<or> ((tm_get t)(rid := None)) rid' = None"
    "tm_get t' = (tm_get t)(rid := None, rid' \<mapsto> bytes)" "pool_pages (tm_pool t) \<le> pool_pages (tm_pool t')"
    "(rid' = rid \<and> tm_slots t' = tm_slots t) \<or> (rslot rid' = int (tm_slots t (rpage rid')) \<and>
       tm_slots t' = (tm_slots t)(rpage rid' := Suc (tm_slots t (rpage rid'))))"
    by auto
qed

subsection \<open>Redo and undo\<close>

text \<open>The page recovery finds: a page of zeros is initialised first.\<close>

definition tm_page :: "tables \<Rightarrow> int \<Rightarrow> page" where
  "tm_page t pid =
     (let p = pool_content (tm_pool t) pid in if p = blank then new_page else p)"

definition tm_lsn :: "tables \<Rightarrow> int \<Rightarrow> nat" where
  "tm_lsn t pid = pageLSN (pool_content (tm_pool t) pid)"

text \<open>The record has its place: the slot array can reach the slot without touching a
  record, and the page has room for the record.\<close>

definition redo_fits :: "tables \<Rightarrow> record_id \<Rightarrow> bytes \<Rightarrow> nat \<Rightarrow> bool" where
  "redo_fits t rid bytes lsn =
     (let q = tm_page t (rpage rid); s = nat (rslot rid)
      in 0 \<le> rslot rid \<and> (s < slotCount q \<or> 16 + 4 * s \<le> freeEnd q) \<and>
         snd (redoSet q (rslot rid) bytes lsn))"

lemma page_init_blank: "page_init blank = new_page"
  by (simp add: page_init_in_page)

lemma redoSet_blank: "redoSet blank slot r lsn = redoSet new_page slot r lsn"
proof -
  have "\<not> readU16 new_page 2 < HEADER_SIZE" by (rule wf_page_not_blank) simp
  then show ?thesis by (simp add: redoSet_def page_init_blank HEADER_SIZE_def)
qed

lemma redoClear_blank: "redoClear blank slot lsn = redoClear new_page slot lsn"
proof -
  have "\<not> readU16 new_page 2 < HEADER_SIZE" by (rule wf_page_not_blank) simp
  then show ?thesis by (simp add: redoClear_def page_init_blank HEADER_SIZE_def)
qed

lemma tm_page_spec:
  assumes "tm_inv t" "0 \<le> pid" "pid < pool_pages (tm_pool t)"
  shows "wf_page (tm_page t pid)" "page_get (tm_page t pid) = page_get (pool_content (tm_pool t) pid)"
    "pageLSN (tm_page t pid) = tm_lsn t pid"
  using tm_invD(2) [OF assms] by (auto simp: tm_page_def Let_def page_ok_def tm_lsn_def)

lemma claim_page_spec:
  assumes inv: "tm_inv t" and pid: "0 \<le> pid" "pid < pool_pages (tm_pool t)"
    and other: "\<And>a. a \<noteq> tid \<Longrightarrow> pid \<notin> set (pageList t a)"
  shows "tm_inv (claim_page t tid pid)" "tm_get (claim_page t tid pid) = tm_get t"
    "tm_lsn (claim_page t tid pid) = tm_lsn t" "tm_known (claim_page t tid pid) = tm_known t"
    "pid \<in> set (pageList (claim_page t tid pid) tid)"
    "set (pageList (claim_page t tid pid) a) = set (pageList t a) \<union> (if a = tid then {pid} else {})"
proof -
  define t0 where "t0 = registerTable t tid"
  have inv0: "tm_inv t0" using inv by (simp add: t0_def)
  have app: "tm_inv (t0\<lparr>tm_pages := (tm_pages t0)(tid \<mapsto> pageList t0 tid @ [pid])\<rparr>)"
    if "pid \<notin> set (pageList t tid)"
    using tm_inv_append_page [OF inv0, of pid tid] pid other that
    by (metis atLeastLessThan_iff registerTable_same(1,2) t0_def)
  show "tm_inv (claim_page t tid pid)"
    using app inv0 by (simp add: claim_page_def t0_def [symmetric] Let_def) (simp add: t0_def)
  show "tm_get (claim_page t tid pid) = tm_get t" "tm_known (claim_page t tid pid) = tm_known t"
    "pid \<in> set (pageList (claim_page t tid pid) tid)"
    "set (pageList (claim_page t tid pid) a) = set (pageList t a) \<union> (if a = tid then {pid} else {})"
    by (auto simp: claim_page_def Let_def)
  show "tm_lsn (claim_page t tid pid) = tm_lsn t"
    by (simp add: claim_page_def Let_def tm_lsn_def [abs_def])
qed

lemma redoInsert_spec:
  assumes inv: "tm_inv t" and known: "tm_known t rid"
    and other: "\<And>a. a \<noteq> tid \<Longrightarrow> rpage rid \<notin> set (pageList t a)"
    and fits: "redo_fits t rid bytes lsn" and lsn: "lsn < 2 ^ 64" and rec: "bytes \<noteq> []"
  shows "tm_inv (redoInsert t tid rid bytes lsn)"
    "tm_get (redoInsert t tid rid bytes lsn) =
       (if lsn \<noteq> 0 \<and> lsn \<le> tm_lsn t (rpage rid) then tm_get t else (tm_get t)(rid \<mapsto> bytes))"
    "tm_lsn (redoInsert t tid rid bytes lsn) =
       (tm_lsn t)(rpage rid := (if lsn \<noteq> 0 then max lsn (tm_lsn t (rpage rid)) else tm_lsn t (rpage rid)))"
    "tm_known (redoInsert t tid rid bytes lsn) = tm_known t"
    "set (pageList (redoInsert t tid rid bytes lsn) a) =
       set (pageList t a) \<union> (if a = tid then {rpage rid} else {})"
proof -
  define q where "q = tm_page t (rpage rid)"
  define c where "c = pool_content (tm_pool t) (rpage rid)"
  define body where "body = (\<lambda>p. case redoSet p (rslot rid) bytes lsn of (p', ok) \<Rightarrow> (p', ok, ()))"
  have pid: "0 \<le> rpage rid" "rpage rid < pool_pages (tm_pool t)" using known by (auto simp: tm_known_def)
  note qs = tm_page_spec [OF inv pid, folded q_def c_def]
  obtain p ok where redo: "redoSet q (rslot rid) bytes lsn = (p, ok)" by (metis surj_pair)
  have "0 \<le> rslot rid" using fits by (simp add: redo_fits_def Let_def)
  then obtain s where s: "rslot rid = int s" by (metis nonneg_int_cases)
  have f: "s < slotCount q \<or> 16 + 4 * s \<le> freeEnd q" "ok"
    using fits redo s by (auto simp: redo_fits_def q_def [symmetric] Let_def)
  have c: "redoSet c (rslot rid) bytes lsn = (p, ok)"
    using redo redoSet_blank by (auto simp: q_def c_def tm_page_def Let_def split: if_splits)
  have page: "wf_page p \<and>
      page_get p = (if lsn \<noteq> 0 \<and> lsn \<le> tm_lsn t (rpage rid) then page_get c
                    else (page_get c)(rslot rid \<mapsto> bytes)) \<and>
      pageLSN p = (if lsn \<noteq> 0 then max lsn (tm_lsn t (rpage rid)) else tm_lsn t (rpage rid))"
  proof (cases "lsn \<noteq> 0 \<and> lsn \<le> tm_lsn t (rpage rid)")
    case True
    then show ?thesis using redoSet_skip [OF qs(1), of lsn "rslot rid" bytes] redo qs by simp
  next
    case False
    then have fresh: "lsn = 0 \<or> pageLSN q < lsn" using qs(3) by auto
    show ?thesis
      using redoSet_spec [OF qs(1) f(1) fresh lsn rec, of p ok] redo f(2) s qs False by auto
  qed
  then have okp: "page_ok p" by (simp add: page_ok_def)
  obtain pl where g: "guarded (tm_pool t) (rpage rid) body = (pl, Some ())" "tm_inv (t\<lparr>tm_pool := pl\<rparr>)"
    "pool_content pl = (pool_content (tm_pool t))(rpage rid := p)" "pool_pages pl = pool_pages (tm_pool t)"
    by (rule scope [OF inv pid, of body p ok "()"]) (use c f(2) okp in \<open>auto simp: body_def c_def\<close>)
  define t1 where "t1 = t\<lparr>tm_pool := pl\<rparr>"
  have r: "redoInsert t tid rid bytes lsn = claim_page t1 tid (rpage rid)"
    using g(1) by (simp add: redoInsert_def body_def t1_def)
  have pid1: "0 \<le> rpage rid" "rpage rid < pool_pages (tm_pool t1)" using pid g(4) by (simp_all add: t1_def)
  have other1: "a \<noteq> tid \<Longrightarrow> rpage rid \<notin> set (pageList t1 a)" for a using other by (simp add: t1_def)
  note cl = claim_page_spec [OF g(2) [folded t1_def] pid1 other1, of tid]
  have get1: "tm_get t1 = (tm_get t)(rid := page_get p (rslot rid))"
  proof -
    have pp: "page_get p = (if lsn \<noteq> 0 \<and> lsn \<le> tm_lsn t (rpage rid) then page_get c
                    else (page_get c)(rslot rid \<mapsto> bytes))"
      using page by blast
    have pg: "page_get p = (page_get (pool_content (tm_pool t) (rpage rid)))(rslot rid := page_get p (rslot rid))"
      by (rule ext) (simp add: pp c_def)
    have "tm_get (t\<lparr>tm_pool := pl\<rparr>) =
        (tm_get t)(\<lparr>rpage = rpage rid, rslot = rslot rid\<rparr> := page_get p (rslot rid))"
      by (rule tm_get_update [OF g(3) pg pid g(4)])
    then show ?thesis by (simp add: t1_def)
  qed
  have old: "page_get c (rslot rid) = tm_get t rid" using known by (simp add: tm_get_def c_def)
  show "tm_inv (redoInsert t tid rid bytes lsn)" using cl by (simp add: r)
  show "tm_get (redoInsert t tid rid bytes lsn) =
       (if lsn \<noteq> 0 \<and> lsn \<le> tm_lsn t (rpage rid) then tm_get t else (tm_get t)(rid \<mapsto> bytes))"
    using cl(2) get1 page old by (auto simp: r fun_eq_iff)
  have "tm_lsn t1 = (tm_lsn t)(rpage rid := pageLSN p)"
    using g(3) by (auto simp: tm_lsn_def t1_def)
  then show "tm_lsn (redoInsert t tid rid bytes lsn) =
       (tm_lsn t)(rpage rid := (if lsn \<noteq> 0 then max lsn (tm_lsn t (rpage rid)) else tm_lsn t (rpage rid)))"
    using cl(3) page by (simp add: r)
  show "tm_known (redoInsert t tid rid bytes lsn) = tm_known t"
    using cl(4) g(4) by (simp add: r) (simp add: t1_def tm_known_def fun_eq_iff)
  show "set (pageList (redoInsert t tid rid bytes lsn) a) =
       set (pageList t a) \<union> (if a = tid then {rpage rid} else {})"
    using cl(6) by (simp add: r t1_def)
qed

lemma clear_spec:
  assumes inv: "tm_inv t" and known: "tm_known t rid" and lsn: "lsn < 2 ^ 64"
    and body: "body (pool_content (tm_pool t) (rpage rid)) =
        (redoClear (pool_content (tm_pool t) (rpage rid)) (rslot rid) lsn, True, r)"
  obtains pl where "guarded (tm_pool t) (rpage rid) body = (pl, Some r)" "tm_inv (t\<lparr>tm_pool := pl\<rparr>)"
    "tm_get (t\<lparr>tm_pool := pl\<rparr>) =
       (if lsn \<noteq> 0 \<and> lsn \<le> tm_lsn t (rpage rid) then tm_get t else (tm_get t)(rid := None))"
    "tm_lsn (t\<lparr>tm_pool := pl\<rparr>) =
       (tm_lsn t)(rpage rid := (if lsn \<noteq> 0 then max lsn (tm_lsn t (rpage rid)) else tm_lsn t (rpage rid)))"
    "pool_pages pl = pool_pages (tm_pool t)"
proof -
  define q where "q = tm_page t (rpage rid)"
  define c where "c = pool_content (tm_pool t) (rpage rid)"
  have pid: "0 \<le> rpage rid" "rpage rid < pool_pages (tm_pool t)" using known by (auto simp: tm_known_def)
  note qs = tm_page_spec [OF inv pid, folded q_def c_def]
  define p where "p = redoClear q (rslot rid) lsn"
  have c: "redoClear c (rslot rid) lsn = p"
    using redoClear_blank by (auto simp: p_def q_def c_def tm_page_def Let_def split: if_splits)
  note cs = redoClear_spec [OF qs(1) lsn, of "rslot rid", folded p_def]
  then have okp: "page_ok p" by (simp add: page_ok_def)
  obtain pl where g: "guarded (tm_pool t) (rpage rid) body = (pl, Some r)" "tm_inv (t\<lparr>tm_pool := pl\<rparr>)"
    "pool_content pl = (pool_content (tm_pool t))(rpage rid := p)" "pool_pages pl = pool_pages (tm_pool t)"
    by (rule scope [OF inv pid, of body p True r]) (use body c okp in \<open>auto simp: c_def\<close>)
  have get1: "tm_get (t\<lparr>tm_pool := pl\<rparr>) = (tm_get t)(rid := page_get p (rslot rid))"
  proof -
    have pg: "page_get p = (page_get (pool_content (tm_pool t) (rpage rid)))(rslot rid := page_get p (rslot rid))"
      by (rule ext) (simp add: cs(2) qs(2) c_def)
    have "tm_get (t\<lparr>tm_pool := pl\<rparr>) =
        (tm_get t)(\<lparr>rpage = rpage rid, rslot = rslot rid\<rparr> := page_get p (rslot rid))"
      by (rule tm_get_update [OF g(3) pg pid g(4)])
    then show ?thesis by simp
  qed
  have old: "page_get c (rslot rid) = tm_get t rid" using known by (simp add: tm_get_def c_def)
  have 1: "tm_get (t\<lparr>tm_pool := pl\<rparr>) =
       (if lsn \<noteq> 0 \<and> lsn \<le> tm_lsn t (rpage rid) then tm_get t else (tm_get t)(rid := None))"
    using get1 cs(2) qs old by (auto simp: fun_eq_iff)
  have 2: "tm_lsn (t\<lparr>tm_pool := pl\<rparr>) =
       (tm_lsn t)(rpage rid := (if lsn \<noteq> 0 then max lsn (tm_lsn t (rpage rid)) else tm_lsn t (rpage rid)))"
    using g(3) cs(3) qs(3) by (auto simp: tm_lsn_def)
  show ?thesis using that g(1,2,4) 1 2 by blast
qed

lemma redoDelete_spec:
  assumes inv: "tm_inv t" and known: "tm_known t rid" and lsn: "lsn < 2 ^ 64"
  shows "tm_inv (redoDelete t rid lsn)"
    "tm_get (redoDelete t rid lsn) =
       (if lsn \<noteq> 0 \<and> lsn \<le> tm_lsn t (rpage rid) then tm_get t else (tm_get t)(rid := None))"
    "tm_lsn (redoDelete t rid lsn) =
       (tm_lsn t)(rpage rid := (if lsn \<noteq> 0 then max lsn (tm_lsn t (rpage rid)) else tm_lsn t (rpage rid)))"
    "tm_known (redoDelete t rid lsn) = tm_known t" "pageList (redoDelete t rid lsn) = pageList t"
proof -
  obtain pl where g: "guarded (tm_pool t) (rpage rid) (\<lambda>p. (redoClear p (rslot rid) lsn, True, ())) = (pl, Some ())"
    "tm_inv (t\<lparr>tm_pool := pl\<rparr>)"
    "tm_get (t\<lparr>tm_pool := pl\<rparr>) =
       (if lsn \<noteq> 0 \<and> lsn \<le> tm_lsn t (rpage rid) then tm_get t else (tm_get t)(rid := None))"
    "tm_lsn (t\<lparr>tm_pool := pl\<rparr>) =
       (tm_lsn t)(rpage rid := (if lsn \<noteq> 0 then max lsn (tm_lsn t (rpage rid)) else tm_lsn t (rpage rid)))"
    "pool_pages pl = pool_pages (tm_pool t)"
    by (rule clear_spec [OF inv known lsn, of "\<lambda>p. (redoClear p (rslot rid) lsn, True, ())" "()"]) auto
  have "redoDelete t rid lsn = t\<lparr>tm_pool := pl\<rparr>" using g(1) by (simp add: redoDelete_def)
  then show "tm_inv (redoDelete t rid lsn)"
    "tm_get (redoDelete t rid lsn) =
       (if lsn \<noteq> 0 \<and> lsn \<le> tm_lsn t (rpage rid) then tm_get t else (tm_get t)(rid := None))"
    "tm_lsn (redoDelete t rid lsn) =
       (tm_lsn t)(rpage rid := (if lsn \<noteq> 0 then max lsn (tm_lsn t (rpage rid)) else tm_lsn t (rpage rid)))"
    "tm_known (redoDelete t rid lsn) = tm_known t" "pageList (redoDelete t rid lsn) = pageList t"
    using g by (auto simp: tm_known_def fun_eq_iff)
qed

lemma undoInsert_spec:
  assumes inv: "tm_inv t" and known: "tm_known t rid"
  shows "tm_inv (undoInsert t rid)" "tm_get (undoInsert t rid) = (tm_get t)(rid := None)"
    "tm_lsn (undoInsert t rid) = tm_lsn t"
    "tm_known (undoInsert t rid) = tm_known t" "pageList (undoInsert t rid) = pageList t"
proof -
  define body where "body = (\<lambda>p. let p = redoClear p (rslot rid) 0 in (p, True, freeBytes p))"
  define r where "r = freeBytes (redoClear (pool_content (tm_pool t) (rpage rid)) (rslot rid) 0)"
  obtain pl where g: "guarded (tm_pool t) (rpage rid) body = (pl, Some r)"
    "tm_inv (t\<lparr>tm_pool := pl\<rparr>)" "tm_get (t\<lparr>tm_pool := pl\<rparr>) = (tm_get t)(rid := None)"
    "tm_lsn (t\<lparr>tm_pool := pl\<rparr>) = tm_lsn t" "pool_pages pl = pool_pages (tm_pool t)"
    by (rule clear_spec [OF inv known, of 0 body r]) (auto simp: body_def r_def Let_def)
  have "undoInsert t rid = t\<lparr>tm_pool := pl\<rparr>\<lparr>pageFree := (pageFree t)(rpage rid \<mapsto> r)\<rparr>"
    using g(1) by (simp add: undoInsert_def body_def)
  then show "tm_inv (undoInsert t rid)" "tm_get (undoInsert t rid) = (tm_get t)(rid := None)"
    "tm_lsn (undoInsert t rid) = tm_lsn t"
    "tm_known (undoInsert t rid) = tm_known t" "pageList (undoInsert t rid) = pageList t"
    using g by (auto simp: tm_known_def tm_lsn_def fun_eq_iff)
qed


section \<open>The iterator\<close>

definition page_rows :: "int \<Rightarrow> page \<Rightarrow> int \<Rightarrow> (record_id \<times> bytes) list" where
  "page_rows pid p slot =
     map (\<lambda>s. (\<lparr>rpage = pid, rslot = s\<rparr>, the (page_get p s)))
       (filter (\<lambda>s. page_get p s \<noteq> None) [max 0 slot..int (slotCount p) - 1])"

text \<open>All records of a table, in the order of its page list and of the slots.\<close>

definition rows_at :: "(int \<Rightarrow> page) \<Rightarrow> int list \<Rightarrow> (record_id \<times> bytes) list" where
  "rows_at c pids = concat (map (\<lambda>pid. page_rows pid (c pid) 0) pids)"

definition table_rows :: "tables \<Rightarrow> int \<Rightarrow> (record_id \<times> bytes) list" where
  "table_rows t tid = rows_at (pool_content (tm_pool t)) (pageList t tid)"

fun rows_from :: "(int \<Rightarrow> page) \<Rightarrow> int list \<Rightarrow> int \<Rightarrow> (record_id \<times> bytes) list" where
  "rows_from c [] slot = []"
| "rows_from c (pid # pids) slot = page_rows pid (c pid) slot @ rows_at c pids"

lemma rows_from_start [simp]: "rows_from c pids (- 1) = rows_at c pids"
  by (cases pids) (simp_all add: rows_at_def page_rows_def)

lemma page_get_range:
  assumes "page_get p s \<noteq> None"
  shows "0 \<le> s \<and> s < int (slotCount p)"
proof -
  have "\<not> s < 0" using assms page_get_neg [of s p] by auto
  moreover have "\<not> int (slotCount p) \<le> s" using assms page_get_ge [of p s] by auto
  ultimately show ?thesis by linarith
qed

lemma set_page_rows:
  "(rid, b) \<in> set (page_rows pid p 0) \<longleftrightarrow> rpage rid = pid \<and> page_get p (rslot rid) = Some b"
  using page_get_range [of p "rslot rid"] by (cases rid) (auto simp: page_rows_def image_iff)

lemma distinct_page_rows: "distinct (map fst (page_rows pid p slot))"
  by (simp add: page_rows_def comp_def distinct_map inj_on_def)

lemma table_rows_map:
  assumes "tm_inv t"
  shows "(rid, b) \<in> set (table_rows t tid) \<longleftrightarrow> rpage rid \<in> set (pageList t tid) \<and> tm_get t rid = Some b"
    "distinct (map fst (table_rows t tid))"
proof -
  show "(rid, b) \<in> set (table_rows t tid) \<longleftrightarrow> rpage rid \<in> set (pageList t tid) \<and> tm_get t rid = Some b"
    using tm_invD(4) [OF assms, of "rpage rid" tid]
    by (auto simp: table_rows_def rows_at_def set_page_rows tm_get_def tm_known_def)
  have "distinct (map fst (rows_at c pids))" if "distinct pids" for c pids
    using that
  proof (induction pids)
    case (Cons pid pids)
    have "rpage x \<in> set pids" if "x \<in> fst ` set (rows_at c pids)" for x
      using that by (auto simp: rows_at_def set_page_rows)
    moreover have "rpage x = pid" if "x \<in> fst ` set (page_rows pid (c pid) 0)" for x
      using that by (auto simp: set_page_rows)
    ultimately have "fst ` set (page_rows pid (c pid) 0) \<inter> fst ` set (rows_at c pids) = {}"
      using Cons.prems by (metis disjoint_iff distinct.simps(2))
    then show ?case
      using Cons distinct_page_rows [of pid "c pid" 0] by (simp add: rows_at_def)
  qed (simp add: rows_at_def)
  then show "distinct (map fst (table_rows t tid))"
    using tm_invD(3) [OF assms] by (simp add: table_rows_def)
qed

lemma find_upto_filter:
  "filter P [a..b :: int] = (case find P [a..b] of None \<Rightarrow> [] | Some s \<Rightarrow> s # filter P [s + 1..b])"
proof (induction "nat (b + 1 - a)" arbitrary: a)
  case 0
  then show ?case by simp
next
  case (Suc n)
  then have "a \<le> b" "n = nat (b + 1 - (a + 1))" by auto
  then show ?case using Suc(1) [of "a + 1"] by (simp add: upto_rec1)
qed

lemma first_live_rows:
  "(case first_live p slot of
      None \<Rightarrow> page_rows pid p slot = []
    | Some (s, b) \<Rightarrow> 0 \<le> s \<and> page_rows pid p slot = (\<lparr>rpage = pid, rslot = s\<rparr>, b) # page_rows pid p (s + 1))"
proof -
  have a: "(if slot < 0 then 0 else slot) = max 0 slot" by simp
  show ?thesis
  proof (cases "find (\<lambda>s. page_get p s \<noteq> None) [max 0 slot..int (slotCount p) - 1]")
    case None
    then show ?thesis
      using find_upto_filter [of "\<lambda>s. page_get p s \<noteq> None" "max 0 slot" "int (slotCount p) - 1"]
      by (simp add: first_live_def a page_rows_def)
  next
    case (Some s)
    then have s: "page_get p s \<noteq> None" by (auto simp: find_Some_iff)
    then have "0 \<le> s" using page_get_range by blast
    moreover have "max 0 (s + 1) = s + 1" using \<open>0 \<le> s\<close> by simp
    ultimately show ?thesis
      using find_upto_filter [of "\<lambda>s. page_get p s \<noteq> None" "max 0 slot" "int (slotCount p) - 1"] Some s
      by (auto simp: first_live_def a page_rows_def)
  qed
qed

lemma advance_spec:
  assumes "tm_inv t" "set pids \<subseteq> {0..<pool_pages (tm_pool t)}" "advance (tm_pool t) pids idx slot = (pl, r)"
  shows "pool_inv pl \<and> pool_content pl = pool_content (tm_pool t) \<and> pool_pages pl = pool_pages (tm_pool t) \<and>
    (case r of
       None \<Rightarrow> rows_from (pool_content (tm_pool t)) pids slot = []
     | Some (idx', rid, b) \<Rightarrow> idx \<le> idx' \<and> idx' < idx + length pids \<and>
         rows_from (pool_content (tm_pool t)) pids slot =
           (rid, b) # rows_from (pool_content (tm_pool t)) (drop (idx' - idx) pids) (rslot rid + 1))"
  using assms
proof (induction pids arbitrary: t idx slot)
  case Nil
  then show ?case by (auto simp: tm_invD(1))
next
  case (Cons pid pids)
  define c where "c = pool_content (tm_pool t)"
  have pid: "0 \<le> pid" "pid < pool_pages (tm_pool t)" using Cons.prems by auto
  have okq: "page_ok (c pid)" using tm_invD(2) [OF Cons.prems(1) pid] by (simp add: c_def)
  obtain pl1 where g: "guarded (tm_pool t) pid (\<lambda>p. (p, False, first_live p slot)) = (pl1, Some (first_live (c pid) slot))"
    "tm_inv (t\<lparr>tm_pool := pl1\<rparr>)" "pool_content pl1 = (pool_content (tm_pool t))(pid := c pid)"
    "pool_pages pl1 = pool_pages (tm_pool t)"
    by (rule scope [OF Cons.prems(1) pid, of "\<lambda>p. (p, False, first_live p slot)" "c pid" False "first_live (c pid) slot"])
       (use okq in \<open>auto simp: c_def\<close>)
  have c1: "pool_content pl1 = c" using g(3) by (simp add: c_def)
  note fl = first_live_rows [where p = "c pid" and slot = slot and pid = pid]
  show ?case
  proof (cases "first_live (c pid) slot")
    case (Some y)
    obtain s b where y: "y = (s, b)" by (cases y)
    then have "pl = pl1" "r = Some (idx, \<lparr>rpage = pid, rslot = s\<rparr>, b)"
      using Cons.prems(3) g(1) Some by simp_all
    then show ?thesis
      using fl Some y c1 g(4) tm_invD(1) [OF g(2)] by (simp add: c_def [symmetric])
  next
    case None
    define t1 where "t1 = t\<lparr>tm_pool := pl1\<rparr>"
    have adv: "advance (tm_pool t1) pids (Suc idx) (- 1) = (pl, r)"
      using Cons.prems(3) g(1) None by (simp add: t1_def)
    have sub: "set pids \<subseteq> {0..<pool_pages (tm_pool t1)}" using Cons.prems(2) g(4) by (simp add: t1_def)
    have p1: "tm_pool t1 = pl1" by (simp add: t1_def)
    note IH = Cons.IH [OF g(2) [folded t1_def] sub adv, unfolded p1 c1 g(4)]
    have "rows_from c (pid # pids) slot = rows_at c pids" using fl None by simp
    then show ?thesis
      using IH by (auto simp: c_def [symmetric] Suc_diff_le split: option.splits)
        (metis Suc_diff_Suc Suc_le_eq drop_Suc_Cons)+
  qed
qed


definition iter_pos :: "iter \<Rightarrow> tables \<Rightarrow> int \<Rightarrow> (record_id \<times> bytes) list" where
  "iter_pos it t tid =
     (if it_valid it
      then (it_rid it, it_bytes it) #
           rows_from (pool_content (tm_pool t)) (drop (it_pageIdx it) (pageList t tid)) (it_slot it + 1)
      else [])"

lemma advanceToLive_spec:
  assumes inv: "tm_inv t" and adv: "advanceToLive t tid it = (t', it')"
  shows "tm_inv t'" "pool_content (tm_pool t') = pool_content (tm_pool t)"
    "pool_pages (tm_pool t') = pool_pages (tm_pool t)" "pageList t' = pageList t"
    "iter_pos it' t' tid =
       rows_from (pool_content (tm_pool t)) (drop (it_pageIdx it) (pageList t tid)) (it_slot it)"
proof -
  obtain pl r where a: "advance (tm_pool t) (drop (it_pageIdx it) (pageList t tid)) (it_pageIdx it) (it_slot it) = (pl, r)"
    by (metis surj_pair)
  have sub: "set (drop (it_pageIdx it) (pageList t tid)) \<subseteq> {0..<pool_pages (tm_pool t)}"
    using tm_invD(4) [OF inv] by (auto dest: in_set_dropD)
  note as = advance_spec [OF inv sub a]
  have t': "t' = t\<lparr>tm_pool := pl\<rparr>"
    using adv a by (auto simp: advanceToLive_def split: option.splits)
  show "tm_inv t'" "pool_content (tm_pool t') = pool_content (tm_pool t)"
    "pool_pages (tm_pool t') = pool_pages (tm_pool t)"
    using inv as by (auto simp: t' tm_inv_def)
  show "pageList t' = pageList t" by (rule ext) (simp add: t')
  show "iter_pos it' t' tid =
       rows_from (pool_content (tm_pool t)) (drop (it_pageIdx it) (pageList t tid)) (it_slot it)"
  proof (cases r)
    case None
    then show ?thesis using adv a as by (auto simp: advanceToLive_def iter_pos_def)
  next
    case (Some y)
    obtain idx rid b where y: "y = (idx, rid, b)" by (cases y)
    have "it' = \<lparr>it_pageIdx = idx, it_slot = rslot rid, it_rid = rid, it_bytes = b, it_valid = True\<rparr>"
      using adv a Some y by (auto simp: advanceToLive_def)
    then show ?thesis using as Some y by (simp add: iter_pos_def t')
  qed
qed

text \<open>\<open>n\<close> calls of \<open>next()\<close>, collecting the records of the valid positions.\<close>

fun iter_take :: "nat \<Rightarrow> tables \<Rightarrow> int \<Rightarrow> iter \<Rightarrow> (record_id \<times> bytes) list" where
  "iter_take 0 t tid it = []"
| "iter_take (Suc n) t tid it =
     (if \<not> it_valid it then []
      else (it_rid it, it_bytes it) # (case iter_next t tid it of (t, it) \<Rightarrow> iter_take n t tid it))"

lemma iter_take_spec:
  "tm_inv t \<Longrightarrow> iter_take n t tid it = take n (iter_pos it t tid)"
proof (induction n arbitrary: t it)
  case 0
  then show ?case by simp
next
  case (Suc n)
  show ?case
  proof (cases "it_valid it")
    case False
    then show ?thesis by (simp add: iter_pos_def)
  next
    case True
    obtain t' it' where nx: "iter_next t tid it = (t', it')" by (metis surj_pair)
    then have adv: "advanceToLive t tid (it\<lparr>it_slot := it_slot it + 1\<rparr>) = (t', it')"
      using True by (simp add: iter_next_def)
    note as = advanceToLive_spec [OF Suc.prems adv]
    show ?thesis
      using True nx Suc.IH [OF as(1)] as(5) by (simp add: iter_pos_def [of it])
  qed
qed

section \<open>The interface of a record store\<close>

text \<open>The records of one table: what the rest of the engine sees of it.\<close>

definition tm_rows :: "tables \<Rightarrow> int \<Rightarrow> record_id \<Rightarrow> bytes option" where
  "tm_rows t tid rid = (if rpage rid \<in> set (pageList t tid) then tm_get t rid else None)"

lemma table_rows_graph:
  "tm_inv t \<Longrightarrow> (rid, b) \<in> set (table_rows t tid) \<longleftrightarrow> tm_rows t tid rid = Some b"
  by (simp add: table_rows_map tm_rows_def)

lemma insertTuple_rows:
  assumes "tm_inv t" "storable bytes" "insertTuple t tid bytes = (t', rid)"
  shows "tm_rows t' = (tm_rows t)(tid := (tm_rows t tid)(rid \<mapsto> bytes))" "tm_rows t a rid = None"
proof -
  note i = insertTuple_spec [OF assms]
  show "tm_rows t a rid = None" using i(3) by (simp add: tm_rows_def)
  have new: "tm_get t q = None" if "rpage q \<in> set (pageList t' tid) - set (pageList t tid)" for q
    using i(9) [OF that] by (simp add: tm_get_def tm_known_def)
  have "rpage rid \<notin> set (pageList t a)" if "a \<noteq> tid" for a
    using i(1,5,6) that unfolding tm_inv_def by (metis disjoint_iff)
  then show "tm_rows t' = (tm_rows t)(tid := (tm_rows t tid)(rid \<mapsto> bytes))"
    using i(4-7) new by (auto simp: tm_rows_def fun_eq_iff)
qed

lemma eraseTuple_rows:
  assumes "tm_inv t" "tm_known t rid" "eraseTuple t rid = (t', ok)"
  shows "tm_rows t' a = (tm_rows t a)(rid := None)" "tm_rows t a rid \<noteq> None \<Longrightarrow> ok"
  using eraseTuple_spec [OF assms] by (auto simp: tm_rows_def fun_eq_iff split: if_splits)

lemma tm_rows_known: "tm_inv t \<Longrightarrow> tm_rows t tid rid \<noteq> None \<Longrightarrow> tm_known t rid"
  by (auto simp: tm_rows_def tm_get_def split: if_splits)

lemma updateTuple_rows:
  assumes inv: "tm_inv t" and row: "tm_rows t tid rid \<noteq> None" and r: "storable bytes"
    and up: "updateTuple t tid rid bytes = (t', rid')"
  shows "tm_rows t' = (tm_rows t)(tid := (tm_rows t tid)(rid := None, rid' \<mapsto> bytes))"
proof -
  have known: "tm_known t rid" using tm_rows_known [OF inv row] .
  define q where "q = pool_content (tm_pool t) (rpage rid)"
  obtain pl inplace free where g: "guarded (tm_pool t) (rpage rid) (try_update (rslot rid) bytes) = (pl, Some (inplace, free))"
    and ok: "tm_inv (t\<lparr>tm_pool := pl\<rparr>)" "pool_pages pl = pool_pages (tm_pool t)"
    and get: "tm_get (t\<lparr>tm_pool := pl\<rparr>) = (tm_get t)(rid := (if inplace then Some bytes else None))"
    by (rule update_scope [where bytes = bytes, OF inv known]) blast
  have mem: "rpage rid \<in> set (pageList t tid)" using row by (auto simp: tm_rows_def split: if_splits)
  have other: "rpage rid \<notin> set (pageList t a)" if "a \<noteq> tid" for a
    using inv mem that unfolding tm_inv_def by (metis disjoint_iff)
  show ?thesis
  proof (cases inplace)
    case True
    then have "t' = t\<lparr>tm_pool := pl\<rparr>" "rid' = rid"
      using up g by (simp_all add: updateTuple_def)
    then show ?thesis using get True mem other by (auto simp: tm_rows_def fun_eq_iff)
  next
    case False
    define t1 where "t1 = t\<lparr>tm_pool := pl\<rparr>\<lparr>pageFree := (case free of None \<Rightarrow> pageFree t
      | Some n \<Rightarrow> (pageFree t)(rpage rid \<mapsto> n))\<rparr>"
    have inv1: "tm_inv t1" using ok by (simp add: t1_def)
    have ins: "insertTuple t1 tid bytes = (t', rid')"
      using up g False by (cases free) (simp_all add: updateTuple_def t1_def)
    have "tm_rows t1 = (tm_rows t)(tid := (tm_rows t tid)(rid := None))"
      using get False mem other by (auto simp: tm_rows_def fun_eq_iff t1_def)
    then show ?thesis using insertTuple_rows(1) [OF inv1 r ins] by (simp add: fun_upd_twist)
  qed
qed

text \<open>
  What the rest of the engine needs of heap files: each table a map from record identifiers
  to records, grown by \<open>put\<close> at an identifier that was not in use, shrunk by \<open>del\<close>, and
  changed by \<open>upd\<close>, which may move the record.
\<close>

locale record_store =
  fixes inv :: "'s \<Rightarrow> bool"
    and rows :: "'s \<Rightarrow> int \<Rightarrow> record_id \<Rightarrow> bytes option"
    and known :: "'s \<Rightarrow> record_id \<Rightarrow> bool"
    and used :: "'s \<Rightarrow> record_id \<Rightarrow> bool"
    and put :: "'s \<Rightarrow> int \<Rightarrow> bytes \<Rightarrow> 's \<times> record_id"
    and del :: "'s \<Rightarrow> record_id \<Rightarrow> 's \<times> bool"
    and upd :: "'s \<Rightarrow> int \<Rightarrow> record_id \<Rightarrow> bytes \<Rightarrow> 's \<times> record_id"
  assumes rows_used: "inv s \<Longrightarrow> rows s t r \<noteq> None \<Longrightarrow> used s r"
    and used_known: "used s r \<Longrightarrow> known s r"
    and rows_finite: "inv s \<Longrightarrow> finite (dom (rows s t))"
    and rows_one_table: "inv s \<Longrightarrow> rows s t r \<noteq> None \<Longrightarrow> rows s a r \<noteq> None \<Longrightarrow> a = t"
    and put_law: "inv s \<Longrightarrow> storable b \<Longrightarrow> put s t b = (s', r) \<Longrightarrow>
      inv s' \<and> \<not> used s r \<and> rows s' = (rows s)(t := (rows s t)(r \<mapsto> b)) \<and>
      used s' = (used s)(r := True)"
    and del_law: "inv s \<Longrightarrow> known s r \<Longrightarrow> del s r = (s', ok) \<Longrightarrow>
      inv s' \<and> (rows s a r \<noteq> None \<longrightarrow> ok) \<and> rows s' a = (rows s a)(r := None) \<and> used s' = used s"
    and upd_law: "inv s \<Longrightarrow> rows s t r \<noteq> None \<Longrightarrow> storable b \<Longrightarrow> upd s t r b = (s', r') \<Longrightarrow>
      inv s' \<and> (r' = r \<or> \<not> used s r') \<and>
      rows s' = (rows s)(t := (rows s t)(r := None, r' \<mapsto> b)) \<and> used s' = (used s)(r' := True)"
begin

lemma rows_known: "inv s \<Longrightarrow> rows s t r \<noteq> None \<Longrightarrow> known s r"
  using rows_used used_known by blast

lemma unused_rows: "inv s \<Longrightarrow> \<not> used s r \<Longrightarrow> rows s t r = None"
  using rows_used by blast

text \<open>What a rolled-back insert leaves: the store it found.\<close>

lemma put_del:
  assumes "inv s" "storable b" "put s t b = (s1, r)" "del s1 r = (s2, ok)"
  shows "inv s2 \<and> ok \<and> rows s2 = rows s"
proof -
  note p = put_law [OF assms(1-3)]
  have "inv s1" "rows s1 t r = Some b" using p by auto
  moreover from this have "known s1 r" using rows_known [of s1 t r] by simp
  ultimately have d: "inv s2 \<and> ok \<and> rows s2 a = (rows s1 a)(r := None)" for a
    using del_law [OF _ _ assms(4), of t] del_law [OF _ _ assms(4), of a] by auto
  have "rows s2 a = rows s a" for a
    using d [of a] p unused_rows [OF assms(1), of r] by (auto simp: fun_eq_iff)
  then show ?thesis using d by auto
qed

text \<open>An update and the update back: the same records, though perhaps elsewhere.\<close>

lemma upd_upd:
  assumes "inv s" "rows s t r = Some old" "storable b" "storable old"
    and "upd s t r b = (s1, r1)" "upd s1 t r1 old = (s2, r2)"
  shows "inv s2 \<and> rows s2 = (rows s)(t := (rows s t)(r := None, r2 \<mapsto> old))"
proof -
  have u: "inv s1 \<and> (r1 = r \<or> rows s t r1 = None) \<and> rows s1 = (rows s)(t := (rows s t)(r := None, r1 \<mapsto> b))"
    using upd_law [OF assms(1) _ assms(3,5)] unused_rows [OF assms(1)] assms(2) by auto
  then have v: "inv s2 \<and> rows s2 = (rows s1)(t := (rows s1 t)(r1 := None, r2 \<mapsto> old))"
    using upd_law [OF _ _ assms(4,6)] by auto
  show ?thesis using u v assms(2) by (auto simp: fun_eq_iff)
qed

text \<open>A run of insertions stores exactly the records given, each under its own identifier.\<close>

fun put_all :: "'s \<Rightarrow> int \<Rightarrow> bytes list \<Rightarrow> 's \<times> record_id list" where
  "put_all s t [] = (s, [])"
| "put_all s t (b # bs) =
     (case put s t b of (s, r) \<Rightarrow> case put_all s t bs of (s, rs) \<Rightarrow> (s, r # rs))"

lemma put_all_spec:
  assumes "inv s" "\<forall>b\<in>set bs. storable b" "put_all s t bs = (s', rs)"
  shows "inv s' \<and> length rs = length bs \<and> distinct rs \<and> (\<forall>r\<in>set rs. \<forall>a. rows s a r = None) \<and>
    rows s' = (rows s)(t := rows s t ++ map_of (zip rs bs))"
  using assms
proof (induction bs arbitrary: s s' rs)
  case Nil
  then show ?case by auto
next
  case (Cons b bs)
  obtain s1 r where p: "put s t b = (s1, r)" by (metis surj_pair)
  obtain s2 qs where q: "put_all s1 t bs = (s2, qs)" by (metis surj_pair)
  have res: "s' = s2" "rs = r # qs" using Cons.prems(3) p q by auto
  have law: "inv s1" "\<And>a. rows s a r = None" "rows s1 = (rows s)(t := (rows s t)(r \<mapsto> b))"
    using put_law [OF Cons.prems(1) _ p] unused_rows [OF Cons.prems(1)] Cons.prems(2) by auto
  have IH: "inv s2" "length qs = length bs" "distinct qs" "\<forall>r\<in>set qs. \<forall>a. rows s1 a r = None"
    "rows s2 = (rows s1)(t := rows s1 t ++ map_of (zip qs bs))"
    using Cons.IH [OF law(1) _ q] Cons.prems(2) by auto
  have fresh: "r \<notin> set qs" using IH(4) law(3) by (metis fun_upd_same option.distinct(1))
  then have no: "map_of (zip qs bs) r = None"
    by (metis map_of_eq_None_iff in_set_zipE prod.collapse imageE)
  have final: "rows s2 = (rows s)(t := rows s t ++ map_of (zip (r # qs) (b # bs)))"
    using IH(5) law(3) no by (auto simp: map_add_def fun_eq_iff split: option.split)
  have unused: "\<forall>q\<in>set (r # qs). \<forall>a. rows s a q = None"
    using IH(4) law(2,3) by (metis fun_upd_apply option.distinct(1) set_ConsD)
  have "length (r # qs) = length (b # bs)" "distinct (r # qs)" using IH fresh by simp_all
  then show ?case using IH(1) unused final unfolding res by blast
qed

end

lemma tm_rows_used: "tm_rows t tid rid \<noteq> None \<Longrightarrow> tm_used t rid"
  using page_get_neg page_get_ge
  by (fastforce simp: tm_rows_def tm_get_def tm_known_def tm_used_def tm_slots_def not_le not_less split: if_splits)

lemma tm_rows_finite: "tm_inv t \<Longrightarrow> finite (dom (tm_rows t tid))"
proof (rule finite_subset)
  assume "tm_inv t"
  then show "dom (tm_rows t tid) \<subseteq> fst ` set (table_rows t tid)"
    using table_rows_graph by (force simp: dom_def)
qed simp

lemma tm_used_next:
  assumes "rslot r = int (tm_slots s (rpage r))"
    and "tm_slots s' = (tm_slots s)(rpage r := Suc (tm_slots s (rpage r)))"
  shows "\<not> tm_used s r \<and> tm_used s' = (tm_used s)(r := True)"
proof
  show "\<not> tm_used s r" using assms(1) by (simp add: tm_used_def)
  show "tm_used s' = (tm_used s)(r := True)"
  proof
    fix q
    show "tm_used s' q = ((tm_used s)(r := True)) q"
      using assms by (cases q; cases r) (auto simp: tm_used_def)
  qed
qed

interpretation heap: record_store tm_inv tm_rows tm_known tm_used insertTuple eraseTuple updateTuple
proof
  fix s :: tables and t r
  assume "tm_inv s" "tm_rows s t r \<noteq> None"
  then show "tm_used s r" by (metis tm_rows_used)
next
  fix s :: tables and r
  assume "tm_used s r"
  then show "tm_known s r" by (rule tm_used_known)
next
  fix s :: tables and t
  assume "tm_inv s"
  then show "finite (dom (tm_rows s t))" by (rule tm_rows_finite)
next
  fix s :: tables and t a :: int and r
  assume "tm_inv s" "tm_rows s t r \<noteq> None" "tm_rows s a r \<noteq> None"
  then have "rpage r \<in> set (pageList s a) \<inter> set (pageList s t)" "a \<noteq> t \<Longrightarrow> set (pageList s a) \<inter> set (pageList s t) = {}"
    by (auto simp: tm_inv_def tm_rows_def split: if_splits)
  then show "a = t" by blast
next
  fix s s' :: tables and t :: int and b r
  assume p: "tm_inv s" "storable b" "insertTuple s t b = (s', r)"
  note i = insertTuple_spec [OF p]
  show "tm_inv s' \<and> \<not> tm_used s r \<and> tm_rows s' = (tm_rows s)(t := (tm_rows s t)(r \<mapsto> b)) \<and>
    tm_used s' = (tm_used s)(r := True)"
    using i(1) insertTuple_rows(1) [OF p] tm_used_next [OF i(10,11)] by blast
next
  fix s s' :: tables and a :: int and r ok
  assume p: "tm_inv s" "tm_known s r" "eraseTuple s r = (s', ok)"
  show "tm_inv s' \<and> (tm_rows s a r \<noteq> None \<longrightarrow> ok) \<and> tm_rows s' a = (tm_rows s a)(r := None) \<and>
    tm_used s' = tm_used s"
    using eraseTuple_spec [OF p] eraseTuple_rows [OF p] by (auto simp: tm_used_def fun_eq_iff)
next
  fix s s' :: tables and t :: int and b r r'
  assume p: "tm_inv s" "tm_rows s t r \<noteq> None" "storable b" "updateTuple s t r b = (s', r')"
  note k = tm_rows_known [OF p(1,2)]
  note u = updateTuple_spec [OF p(1) k p(3,4)]
  have "(r' = r \<or> \<not> tm_used s r') \<and> tm_used s' = (tm_used s)(r' := True)"
    using u(5)
  proof
    assume same: "r' = r \<and> tm_slots s' = tm_slots s"
    then have "tm_used s' = tm_used s" by (simp add: tm_used_def fun_eq_iff)
    then show ?thesis using same tm_rows_used [OF p(2)] by (simp add: fun_upd_idem)
  next
    assume "rslot r' = int (tm_slots s (rpage r')) \<and>
      tm_slots s' = (tm_slots s)(rpage r' := Suc (tm_slots s (rpage r')))"
    then show ?thesis using tm_used_next [of r' s s'] by blast
  qed
  then show "tm_inv s' \<and> (r' = r \<or> \<not> tm_used s r') \<and>
    tm_rows s' = (tm_rows s)(t := (tm_rows s t)(r := None, r' \<mapsto> b)) \<and> tm_used s' = (tm_used s)(r' := True)"
    using u(1) updateTuple_rows [OF p] by blast
qed


section \<open>Records no page can hold\<close>

text \<open>\<open>insertTuple\<close> of such a record adds a page to the table and returns the invalid
  identifier.\<close>

lemma insertTuple_oversize:
  assumes inv: "tm_inv t" and big: "\<not> storable bytes" and ins: "insertTuple t tid bytes = (t', rid)"
  shows "rid = no_rid" "tm_inv t'" "tm_rows t' = tm_rows t"
    "pageList t' tid = pageList t tid @ [pool_pages (tm_pool t)]"
proof -
  define t0 where "t0 = registerTable t tid"
  have inv0: "tm_inv t0" using inv by (simp add: t0_def)
  obtain t1 x where scan: "insert_scan t0 (rev (pageList t0 tid)) bytes = (t1, x)" by (metis surj_pair)
  have sub: "set (rev (pageList t0 tid)) \<subseteq> {0..<pool_pages (tm_pool t0)}"
    using tm_invD(4) [OF inv0] by auto
  note sc = insert_scan_spec [OF inv0 sub scan]
  have x: "x = None" using sc big by (auto simp: fresh_put_def split: option.splits)
  have inv1: "tm_inv t1" and g1: "tm_get t1 = tm_get t" and n1: "pool_pages (tm_pool t1) = pool_pages (tm_pool t)"
    using sc x by (simp_all add: t0_def)
  have pl1: "pageList t1 a = pageList t a" for a
    using sc by (simp add: pageList_def t0_def registerTable_def split: option.split)
  define pid where "pid = pool_pages (tm_pool t1)"
  have okn: "page_ok new_page" by (simp add: page_ok_def)
  then have "page_insert new_page bytes = None"
    using page_insert_storable [OF okn] big by (cases "page_insert new_page bytes") auto
  then have body: "try_insert bytes new_page = (new_page, False, None, freeBytes new_page)"
    by (simp add: try_insert_def)
  obtain pl where g: "guarded_new (tm_pool t1) (try_insert bytes) = (pl, Some (pid, None, freeBytes new_page))"
    "pool_inv pl" "pool_content pl = (pool_content (tm_pool t1))(pid := new_page)"
    "pool_pages pl = pid + 1"
    by (rule guarded_new_spec [where body = "try_insert bytes" and p = new_page and marked = False
          and r = "(None, freeBytes new_page)", OF tm_invD(1) [OF inv1] body in_page_ok [OF okn]])
       (auto simp: pid_def)
  define t2 where "t2 = t1\<lparr>tm_pool := pl\<rparr>"
  have range: "a \<in> set (pageList t1 b) \<Longrightarrow> 0 \<le> a \<and> a < pid" for a b
    using tm_invD(4) [OF inv1] by (simp add: pid_def)
  have p0: "0 \<le> pid" using pool_okD(6) tm_invD(1) [OF inv1] unfolding pid_def pool_inv_def by blast
  have inv2: "tm_inv t2"
  proof -
    have "page_ok (pool_content pl q)" if "0 \<le> q" "q < pid + 1" for q
      using tm_invD(2) [OF inv1, of q] that okn g(3) by (cases "q = pid") (auto simp: pid_def)
    moreover have "set (pageList t1 a) \<subseteq> {0..<pid + 1}" for a using range by fastforce
    moreover have "distinct (pageList t1 a)" "a \<noteq> b \<Longrightarrow> set (pageList t1 a) \<inter> set (pageList t1 b) = {}" for a b
      using inv1 by (auto simp: tm_inv_def)
    ultimately show ?thesis using g(2,4) by (simp add: tm_inv_def t2_def)
  qed
  have get2: "tm_get t2 = tm_get t"
  proof
    fix q
    show "tm_get t2 q = tm_get t q"
      using g(3,4) p0 g1 [symmetric] by (auto simp: tm_get_def tm_known_def t2_def pid_def)
  qed
  have t': "t' = t2\<lparr>tm_pages := (tm_pages t2)(tid \<mapsto> pageList t2 tid @ [pid])\<rparr>" "rid = no_rid"
    using ins scan x g(1) by (simp_all add: insertTuple_def t0_def [symmetric] t2_def Let_def)
  have pl2: "pageList t2 a = pageList t a" for a using pl1 by (simp add: t2_def)
  show "rid = no_rid" by (rule t')
  show "tm_inv t'"
    using tm_inv_append_page [OF inv2, of pid tid] range p0 g(4) by (auto simp: t' t2_def)
  show pl': "pageList t' tid = pageList t tid @ [pool_pages (tm_pool t)]"
    using pl2 n1 by (simp add: t' pid_def)
  have none: "tm_get t q = None" if "rpage q = pid" for q
    using that by (simp add: tm_get_def tm_known_def pid_def n1)
  show "tm_rows t' = tm_rows t"
    using none pl2 get2 by (auto simp: tm_rows_def t' fun_eq_iff)
qed

section \<open>Properties\<close>

definition empty_tables :: "tables" where
  "empty_tables =
     \<lparr>tm_pool = pool_open \<lparr>fileBytes = [], numPages = 0\<rparr> 1 True, tm_pages = Map.empty, pageFree = Map.empty\<rparr>"

lemma empty_tables_inv: "tm_inv empty_tables" "tm_rows empty_tables = (\<lambda>_. Map.empty)"
proof -
  have "pool_pages (tm_pool empty_tables) = 0"
    by (simp add: empty_tables_def pool_pages_def pool_open_def Let_def)
  moreover have "pool_inv (tm_pool empty_tables)"
    by (simp add: empty_tables_def pool_inv_open)
  moreover have "pageList empty_tables a = []" for a by (simp add: empty_tables_def pageList_def)
  ultimately show "tm_inv empty_tables" "tm_rows empty_tables = (\<lambda>_. Map.empty)"
    by (auto simp: tm_inv_def tm_rows_def fun_eq_iff)
qed

text \<open>C5: Storing and scanning: after any batch of records (each non-empty and at most 4080
  bytes) is inserted in an empty table, a \<open>TableIterator\<close> over the table yields exactly
  those records, each once, under the distinct identifiers the insertions returned - whatever
  the pool evicted in between.\<close>

theorem batch_insert_scan:
  assumes "tm_inv t" "tm_rows t tid = Map.empty" "\<forall>b\<in>set bs. storable b"
    and "heap.put_all t tid bs = (t', rs)" "iter_open t' tid = (t'', it)" "length bs \<le> n"
  shows "mset (iter_take n t'' tid it) = mset (zip rs bs) \<and> distinct rs \<and> length rs = length bs"
proof -
  note p = heap.put_all_spec [OF assms(1,3,4)]
  then have inv: "tm_inv t'" and rs: "length rs = length bs" "distinct rs"
    and rows: "tm_rows t' tid = map_of (zip rs bs)"
    using assms(2) by auto
  note a = advanceToLive_spec [OF inv assms(5) [unfolded iter_open_def]]
  have "iter_pos it t'' tid = table_rows t' tid" using a(5) by (simp add: table_rows_def)
  then have it: "iter_take n t'' tid it = take n (table_rows t' tid)"
    using iter_take_spec [OF a(1)] by simp
  have d: "distinct (table_rows t' tid)" using table_rows_map(2) [OF inv] by (simp add: distinct_map)
  have dz: "distinct (zip rs bs)" using rs(2) by (simp add: distinct_zipI1)
  have "(r, b) \<in> set (table_rows t' tid) \<longleftrightarrow> (r, b) \<in> set (zip rs bs)" for r b
    using table_rows_graph [OF inv, of r b tid] rows rs by simp
  then have "mset (table_rows t' tid) = mset (zip rs bs)"
    using set_eq_iff_mset_eq_distinct [OF d dz] by auto
  moreover from this have "length (table_rows t' tid) = length bs"
    using rs by (metis length_zip min.idem mset_eq_length)
  ultimately show ?thesis using it assms(6) rs by simp
qed

theorem batch_insert_scan_witness:
  "\<exists>t' rs t'' it. heap.put_all empty_tables 1 [''ab'', ''c''] = (t', rs) \<and> iter_open t' 1 = (t'', it) \<and>
     mset (iter_take 5 t'' 1 it) = mset (zip rs [''ab'', ''c'']) \<and> distinct rs \<and> length rs = 2"
proof -
  obtain t' rs where p: "heap.put_all empty_tables 1 [''ab'', ''c''] = (t', rs)" by (metis surj_pair)
  obtain t'' it where i: "iter_open t' 1 = (t'', it)" by (metis surj_pair)
  show ?thesis
    using p i batch_insert_scan [OF empty_tables_inv(1) _ _ p i, of 5]
    by (simp add: empty_tables_inv(2) storable_def)
qed



text \<open>Updating a row to a record longer than a page can hold deletes the row: the old
  record is erased before the insertion of the new one fails, and the invalid identifier is
  returned.\<close>

lemma update_oversize_loses_row:
  assumes "tm_inv t" "tm_rows t tid rid \<noteq> None" "\<not> storable bytes" "updateTuple t tid rid bytes = (t', rid')"
  shows "rid' = no_rid \<and> tm_rows t' tid = (tm_rows t tid)(rid := None)"
proof -
  have known: "tm_known t rid" using tm_rows_known [OF assms(1,2)] .
  obtain pl inplace free where g: "guarded (tm_pool t) (rpage rid) (try_update (rslot rid) bytes) = (pl, Some (inplace, free))"
    and ok: "tm_inv (t\<lparr>tm_pool := pl\<rparr>)" "inplace \<Longrightarrow> storable bytes"
    and get: "tm_get (t\<lparr>tm_pool := pl\<rparr>) = (tm_get t)(rid := (if inplace then Some bytes else None))"
    by (rule update_scope [where bytes = bytes, OF assms(1) known]) blast
  define t1 where "t1 = t\<lparr>tm_pool := pl\<rparr>\<lparr>pageFree := (case free of None \<Rightarrow> pageFree t
      | Some n \<Rightarrow> (pageFree t)(rpage rid \<mapsto> n))\<rparr>"
  have f: "\<not> inplace" using ok(2) assms(3) by blast
  have "insertTuple t1 tid bytes = (t', rid')"
    using assms(4) g f by (cases free) (simp_all add: updateTuple_def t1_def)
  moreover have "tm_rows t1 tid = (tm_rows t tid)(rid := None)"
    using get f by (auto simp: tm_rows_def fun_eq_iff t1_def)
  ultimately show ?thesis
    using insertTuple_oversize [of t1 bytes tid t' rid'] ok(1) assms(3) by (simp add: t1_def)
qed

lemma update_oversize_loses_row_witness:
  "\<exists>t rid t' rid'. insertTuple empty_tables 1 ''a'' = (t, rid) \<and> tm_rows t 1 = Map.empty(rid \<mapsto> ''a'') \<and>
     updateTuple t 1 rid (replicate 4081 CHR ''x'') = (t', rid') \<and> rid' = no_rid \<and> tm_rows t' 1 = Map.empty"
proof -
  obtain t rid where i: "insertTuple empty_tables 1 ''a'' = (t, rid)" by (metis surj_pair)
  obtain t' rid' where u: "updateTuple t 1 rid (replicate 4081 CHR ''x'') = (t', rid')" by (metis surj_pair)
  have p: "tm_inv t" "tm_rows t 1 = Map.empty(rid \<mapsto> ''a'')"
    using heap.put_law [OF empty_tables_inv(1) _ i] by (simp_all add: storable_def empty_tables_inv(2))
  have "\<not> storable (replicate 4081 CHR ''x'')" unfolding storable_def by simp
  then show ?thesis
    using i u p(2) update_oversize_loses_row [OF p(1) _ _ u] by simp
qed

end
