(* ===== verification/Numerals.thy ===== *)
theory Numerals
  imports Prelude
begin

text \<open>
  Characters and decimal numerals, as the C++ library the engine calls treats them in the
  "C" locale: the \<open>cctype\<close> classes, \<open>std::to_string\<close> of an integer and
  \<open>std::stoll\<close>. Signed 64-bit integers are 64-bit words read with \<open>sint\<close>; arithmetic on
  them wraps around.
\<close>

section \<open>Characters\<close>

abbreviation code :: "char \<Rightarrow> nat" where
  "code c \<equiv> of_char c"

definition is_digit :: "char \<Rightarrow> bool" where
  "is_digit c \<longleftrightarrow> 48 \<le> code c \<and> code c \<le> 57"

definition is_upper :: "char \<Rightarrow> bool" where
  "is_upper c \<longleftrightarrow> 65 \<le> code c \<and> code c \<le> 90"

definition is_lower :: "char \<Rightarrow> bool" where
  "is_lower c \<longleftrightarrow> 97 \<le> code c \<and> code c \<le> 122"

definition is_alpha :: "char \<Rightarrow> bool" where
  "is_alpha c \<longleftrightarrow> is_upper c \<or> is_lower c"

definition is_alnum :: "char \<Rightarrow> bool" where
  "is_alnum c \<longleftrightarrow> is_alpha c \<or> is_digit c"

definition is_space :: "char \<Rightarrow> bool" where
  "is_space c \<longleftrightarrow> code c = 32 \<or> (9 \<le> code c \<and> code c \<le> 13)"

definition to_upper :: "char \<Rightarrow> char" where
  "to_upper c = (if is_lower c then char_of (code c - 32) else c)"

definition to_lower :: "char \<Rightarrow> char" where
  "to_lower c = (if is_upper c then char_of (code c + 32) else c)"

lemma code_char_of [simp]: "n < 256 \<Longrightarrow> code (char_of n) = n"
  by simp

lemma to_upper_idem: "to_upper (to_upper c) = to_upper c"
  by (auto simp: to_upper_def is_lower_def)

lemma to_lower_upper: "to_upper (to_lower c) = to_upper c"
  by (auto simp: to_upper_def to_lower_def is_lower_def is_upper_def)

section \<open>Decimal numerals\<close>

definition digit_char :: "nat \<Rightarrow> char" where
  "digit_char d = char_of (48 + d)"

definition digit_val :: "char \<Rightarrow> nat" where
  "digit_val c = code c - 48"

lemma digit_char [simp]:
  "d < 10 \<Longrightarrow> is_digit (digit_char d)" "d < 10 \<Longrightarrow> digit_val (digit_char d) = d"
  by (simp_all add: digit_char_def is_digit_def digit_val_def)

lemma digit_val_bound: "is_digit c \<Longrightarrow> digit_val c < 10"
  by (auto simp: is_digit_def digit_val_def)

fun nat_str :: "nat \<Rightarrow> string" where
  "nat_str n = (if n < 10 then [digit_char n] else nat_str (n div 10) @ [digit_char (n mod 10)])"

declare nat_str.simps [simp del]

definition digits_val :: "string \<Rightarrow> nat" where
  "digits_val = foldl (\<lambda>v c. 10 * v + digit_val c) 0"

lemma digits_val_snoc [simp]: "digits_val (s @ [c]) = 10 * digits_val s + digit_val c"
  by (simp add: digits_val_def)

lemma nat_str_digits: "c \<in> set (nat_str n) \<Longrightarrow> is_digit c"
proof (induction n rule: nat_str.induct)
  case (1 n)
  then show ?case by (subst (asm) (2) nat_str.simps) (auto split: if_splits)
qed

lemma nat_str_nonempty [simp]: "nat_str n \<noteq> []"
  by (subst nat_str.simps) simp

lemma digits_val_nat_str [simp]: "digits_val (nat_str n) = n"
proof (induction n rule: nat_str.induct)
  case (1 n)
  show ?case
  proof (cases "n < 10")
    case True
    then show ?thesis by (subst nat_str.simps) (simp add: digits_val_def)
  next
    case False
    then show ?thesis using 1 by (subst nat_str.simps) simp
  qed
qed

lemma digits_val_append: "digits_val (s @ t) = digits_val s * 10 ^ length t + digits_val t"
proof (induction t rule: rev_induct)
  case Nil
  then show ?case by (simp add: digits_val_def)
next
  case (snoc c t)
  have "digits_val (s @ t @ [c]) = 10 * digits_val (s @ t) + digit_val c"
    by (metis append_assoc digits_val_snoc)
  then show ?case using snoc by (simp add: algebra_simps)
qed

text \<open>\<open>std::to_string(std::int64_t)\<close>.\<close>

definition int_str :: "int \<Rightarrow> string" where
  "int_str i = (if i < 0 then CHR ''-'' # nat_str (nat (- i)) else nat_str (nat i))"

text \<open>
  \<open>std::stoll\<close>: white space is skipped, an optional sign and the longest run of digits are
  read, what follows is ignored; it throws without a digit (\<open>invalid_argument\<close>) and out of
  range (\<open>out_of_range\<close>), both \<open>None\<close> here.
\<close>

definition sign_split :: "string \<Rightarrow> bool \<times> string" where
  "sign_split s =
     (case s of
        c # cs \<Rightarrow> if c = CHR ''-'' then (True, cs) else if c = CHR ''+'' then (False, cs) else (False, s)
      | [] \<Rightarrow> (False, []))"

definition in_i64 :: "int \<Rightarrow> bool" where
  "in_i64 i \<longleftrightarrow> - (2 ^ 63) \<le> i \<and> i < 2 ^ 63"

definition stoll :: "string \<Rightarrow> i64 option" where
  "stoll s =
     (case sign_split (dropWhile is_space s) of
        (neg, cs) \<Rightarrow>
          let ds = takeWhile is_digit cs; v = int (digits_val ds); i = (if neg then - v else v)
          in if ds = [] then None else if in_i64 i then Some (word_of_int i) else None)"

section \<open>Signed 64-bit integers\<close>

definition i64_str :: "i64 \<Rightarrow> string" where
  "i64_str w = int_str (sint w)"

lemma sint_range_i64 [simp]: "in_i64 (sint (w :: i64))"
  using sint_ge [of w] sint_lt [of w] by (simp add: in_i64_def)

lemma sint_of_int_i64: "in_i64 i \<Longrightarrow> sint (word_of_int i :: i64) = i"
  by (simp add: in_i64_def signed_of_int signed_take_bit_int_eq_self)

lemma is_digit_not_special:
  "is_digit c \<Longrightarrow> c \<noteq> CHR ''-'' \<and> c \<noteq> CHR ''+'' \<and> \<not> is_space c \<and> c \<noteq> CHR ''.''"
  by (auto simp: is_digit_def is_space_def)

lemma nat_str_shape:
  "dropWhile is_space (nat_str n) = nat_str n" "sign_split (nat_str n) = (False, nat_str n)"
  "takeWhile is_digit (nat_str n) = nat_str n"
proof -
  obtain c cs where n: "nat_str n = c # cs" by (cases "nat_str n") auto
  then have c: "is_digit c" using nat_str_digits [of c n] by simp
  show "dropWhile is_space (nat_str n) = nat_str n" "sign_split (nat_str n) = (False, nat_str n)"
    using c is_digit_not_special [of c] by (auto simp: n sign_split_def)
  show "takeWhile is_digit (nat_str n) = nat_str n"
    using nat_str_digits by (simp add: takeWhile_eq_all_conv)
qed

lemma stoll_int_str: "in_i64 i \<Longrightarrow> stoll (int_str i) = Some (word_of_int i)"
proof (cases "i < 0")
  case True
  assume r: "in_i64 i"
  have "\<not> is_space (CHR ''-'')" by (simp add: is_space_def)
  then show ?thesis
    using True r by (simp add: stoll_def int_str_def sign_split_def nat_str_shape Let_def)
next
  case False
  assume "in_i64 i"
  then show ?thesis
    using False by (simp add: stoll_def int_str_def nat_str_shape Let_def)
qed

lemma stoll_i64_str [simp]: "stoll (i64_str w) = Some w"
  by (simp add: i64_str_def stoll_int_str)

end
