(* ===== verification/Float64.thy ===== *)
theory Float64
  imports Numerals
begin

text \<open>
  The type \<open>double\<close>: IEEE 754 binary64, as its 64-bit pattern. A finite double is an integer
  multiple of 2^-1074, so \<open>f_units\<close> reads it exactly as an integer, the operations compute
  the exact result as a ratio of naturals, and \<open>f_round\<close> rounds it to nearest, ties to even.
  NaN payloads follow the x86-64 rule (the first NaN operand, quieted; otherwise the default
  NaN), and the conversion to \<open>std::int64_t\<close> out of range is the x86-64 result, INT64_MIN.
  Printing is \<open>operator<<\<close> with the default six digits; \<open>stod\<close> reads decimal and
  hexadecimal numerals, \<open>inf\<close> and \<open>nan\<close>.
\<close>

type_synonym dbl = "64 word"

section \<open>Representation\<close>

definition f_sign :: "dbl \<Rightarrow> bool" where
  "f_sign w \<longleftrightarrow> 2 ^ 63 \<le> unat w"

definition f_exp :: "dbl \<Rightarrow> nat" where
  "f_exp w = unat w div 2 ^ 52 mod 2048"

definition f_frac :: "dbl \<Rightarrow> nat" where
  "f_frac w = unat w mod 2 ^ 52"

definition f_finite :: "dbl \<Rightarrow> bool" where
  "f_finite w \<longleftrightarrow> f_exp w < 2047"

definition f_is_nan :: "dbl \<Rightarrow> bool" where
  "f_is_nan w \<longleftrightarrow> f_exp w = 2047 \<and> f_frac w \<noteq> 0"

definition f_is_inf :: "dbl \<Rightarrow> bool" where
  "f_is_inf w \<longleftrightarrow> f_exp w = 2047 \<and> f_frac w = 0"

text \<open>The magnitude in units of 2^-1074.\<close>

definition f_mag :: "dbl \<Rightarrow> nat" where
  "f_mag w = (if f_exp w = 0 then f_frac w else (2 ^ 52 + f_frac w) * 2 ^ (f_exp w - 1))"

definition f_units :: "dbl \<Rightarrow> int" where
  "f_units w = (if f_sign w then - int (f_mag w) else int (f_mag w))"

definition f_pack :: "bool \<Rightarrow> nat \<Rightarrow> dbl" where
  "f_pack s n = word_of_nat (n + (if s then 2 ^ 63 else 0))"

definition f_inf :: "bool \<Rightarrow> dbl" where
  "f_inf s = f_pack s (2047 * 2 ^ 52)"

definition f_zero :: "bool \<Rightarrow> dbl" where
  "f_zero s = f_pack s 0"

definition f_default_nan :: dbl where
  "f_default_nan = f_pack True (2047 * 2 ^ 52 + 2 ^ 51)"

definition f_quiet :: "dbl \<Rightarrow> dbl" where
  "f_quiet w = (if unat w div 2 ^ 51 mod 2 = 1 then w else w + word_of_nat (2 ^ 51))"

fun bitlen :: "nat \<Rightarrow> nat" where
  "bitlen n = (if n = 0 then 0 else Suc (bitlen (n div 2)))"

declare bitlen.simps [simp del]

text \<open>The double nearest to \<open>num / den\<close> units.\<close>

definition f_round :: "bool \<Rightarrow> nat \<Rightarrow> nat \<Rightarrow> dbl" where
  "f_round s num den =
     (let shift = bitlen (num div den) - 53;
          d = den * 2 ^ shift;
          m = num div d;
          r = num mod d;
          m = (if 2 * r > d \<or> (2 * r = d \<and> odd m) then m + 1 else m);
          bits = shift * 2 ^ 52 + m
      in if bits \<ge> 2047 * 2 ^ 52 then f_inf s else f_pack s bits)"

text \<open>The number 1 in these units.\<close>

definition one_unit :: nat where
  "one_unit = 2 ^ 1074"

lemma one_unit_pos [simp]: "0 < one_unit"
  by (simp only: one_unit_def zero_less_power zero_less_numeral)

section \<open>Arithmetic and comparison\<close>

definition f_neg :: "dbl \<Rightarrow> dbl" where
  "f_neg w = w + word_of_nat (2 ^ 63)"

definition f_nan2 :: "dbl \<Rightarrow> dbl \<Rightarrow> dbl" where
  "f_nan2 a b = (if f_is_nan a then f_quiet a else if f_is_nan b then f_quiet b else f_default_nan)"

definition f_add :: "dbl \<Rightarrow> dbl \<Rightarrow> dbl" where
  "f_add a b =
     (if f_is_nan a \<or> f_is_nan b then f_nan2 a b
      else if f_is_inf a then (if f_is_inf b \<and> f_sign a \<noteq> f_sign b then f_default_nan else a)
      else if f_is_inf b then b
      else let s = f_units a + f_units b
           in if s = 0 then f_zero (f_sign a \<and> f_sign b) else f_round (s < 0) (nat \<bar>s\<bar>) 1)"

definition f_sub :: "dbl \<Rightarrow> dbl \<Rightarrow> dbl" where
  "f_sub a b = (if f_is_nan b then f_nan2 a b else f_add a (f_neg b))"

definition f_mul :: "dbl \<Rightarrow> dbl \<Rightarrow> dbl" where
  "f_mul a b =
     (let s = (f_sign a \<noteq> f_sign b)
      in if f_is_nan a \<or> f_is_nan b then f_nan2 a b
         else if f_is_inf a \<or> f_is_inf b
         then (if f_mag a = 0 \<or> f_mag b = 0 then f_default_nan else f_inf s)
         else f_round s (f_mag a * f_mag b) one_unit)"

definition f_div :: "dbl \<Rightarrow> dbl \<Rightarrow> dbl" where
  "f_div a b =
     (let s = (f_sign a \<noteq> f_sign b)
      in if f_is_nan a \<or> f_is_nan b then f_nan2 a b
         else if f_is_inf a then (if f_is_inf b then f_default_nan else f_inf s)
         else if f_is_inf b then f_zero s
         else if f_mag b = 0 then (if f_mag a = 0 then f_default_nan else f_inf s)
         else f_round s (f_mag a * one_unit) (f_mag b))"

text \<open>The position of a number that is not a NaN on the extended real line.\<close>

definition f_key :: "dbl \<Rightarrow> int" where
  "f_key w = (if f_is_inf w then (if f_sign w then - (2 ^ 2100) else 2 ^ 2100) else f_units w)"

definition f_lt :: "dbl \<Rightarrow> dbl \<Rightarrow> bool" where
  "f_lt a b \<longleftrightarrow> \<not> f_is_nan a \<and> \<not> f_is_nan b \<and> f_key a < f_key b"

definition f_eq :: "dbl \<Rightarrow> dbl \<Rightarrow> bool" where
  "f_eq a b \<longleftrightarrow> \<not> f_is_nan a \<and> \<not> f_is_nan b \<and> f_key a = f_key b"

definition f_le :: "dbl \<Rightarrow> dbl \<Rightarrow> bool" where
  "f_le a b \<longleftrightarrow> f_lt a b \<or> f_eq a b"

section \<open>Conversions and rounding functions\<close>

definition f_of_int :: "int \<Rightarrow> dbl" where
  "f_of_int i = f_round (i < 0) (nat \<bar>i\<bar> * one_unit) 1"

text \<open>\<open>static_cast<std::int64_t>\<close>: toward zero.\<close>

definition f_trunc_int :: "dbl \<Rightarrow> int" where
  "f_trunc_int w = (let n = int (f_mag w div one_unit) in if f_sign w then - n else n)"

definition f_to_i64 :: "dbl \<Rightarrow> i64" where
  "f_to_i64 w =
     (if f_finite w \<and> in_i64 (f_trunc_int w) then word_of_int (f_trunc_int w)
      else word_of_int (- (2 ^ 63)))"

definition f_abs :: "dbl \<Rightarrow> dbl" where
  "f_abs w = (if f_sign w then f_neg w else w)"

definition f_integral :: "bool \<Rightarrow> nat \<Rightarrow> dbl" where
  "f_integral s n = f_round s (n * one_unit) 1"

definition f_floor :: "dbl \<Rightarrow> dbl" where
  "f_floor w =
     (if \<not> f_finite w then w
      else if f_sign w then f_integral True ((f_mag w + one_unit - 1) div one_unit)
      else f_integral False (f_mag w div one_unit))"

definition f_ceil :: "dbl \<Rightarrow> dbl" where
  "f_ceil w =
     (if \<not> f_finite w then w
      else if f_sign w then f_integral True (f_mag w div one_unit)
      else f_integral False ((f_mag w + one_unit - 1) div one_unit))"

text \<open>\<open>std::round\<close>: halves away from zero.\<close>

definition f_round_half_away :: "dbl \<Rightarrow> dbl" where
  "f_round_half_away w =
     (if \<not> f_finite w then w else f_integral (f_sign w) ((2 * f_mag w + one_unit) div (2 * one_unit)))"

text \<open>\<open>std::pow(10.0, n)\<close> for an integer \<open>n\<close>, correctly rounded.\<close>

definition f_pow10 :: "int \<Rightarrow> dbl" where
  "f_pow10 n =
     (if n \<ge> 0 then f_round False (10 ^ nat n * one_unit) 1
      else f_round False one_unit (10 ^ nat (- n)))"

section \<open>Printing and reading\<close>

fun scale_up :: "nat \<Rightarrow> nat \<Rightarrow> nat \<Rightarrow> nat \<times> nat" where
  "scale_up 0 num den = (0, den)"
| "scale_up (Suc fuel) num den =
     (if num \<ge> 10 * den then (case scale_up fuel num (10 * den) of (x, d) \<Rightarrow> (Suc x, d)) else (0, den))"

fun scale_down :: "nat \<Rightarrow> nat \<Rightarrow> nat \<Rightarrow> nat \<times> nat" where
  "scale_down 0 num den = (0, num)"
| "scale_down (Suc fuel) num den =
     (if num < den then (case scale_down fuel (10 * num) den of (x, n) \<Rightarrow> (Suc x, n)) else (0, num))"

text \<open>The decimal exponent and six significant digits of \<open>num / den\<close>, which is positive:
  330 is more than the number of decimal orders of magnitude a double has on either side.\<close>

definition six_digits :: "nat \<Rightarrow> nat \<Rightarrow> int \<times> nat" where
  "six_digits num den =
     (case scale_up 330 num den of (up, den) \<Rightarrow>
      case scale_down 330 num den of (down, num) \<Rightarrow>
        let x = int up - int down;
            scaled = num * 10 ^ 5;
            m = scaled div den;
            r = scaled mod den;
            m = (if 2 * r > den \<or> (2 * r = den \<and> odd m) then m + 1 else m)
        in if m = 10 ^ 6 then (x + 1, 10 ^ 5) else (x, m))"

definition strip_zeros :: "string \<Rightarrow> string" where
  "strip_zeros s = rev (dropWhile (\<lambda>c. c = CHR ''0'') (rev s))"

definition with_point :: "string \<Rightarrow> string \<Rightarrow> string" where
  "with_point a b = (let b = strip_zeros b in if b = [] then a else a @ ''.'' @ b)"

definition exponent_str :: "int \<Rightarrow> string" where
  "exponent_str x =
     (let n = nat_str (nat \<bar>x\<bar>)
      in ''e'' @ (if x < 0 then ''-'' else ''+'') @ (if length n < 2 then CHR ''0'' # n else n))"

text \<open>\<open>std::ostream << double\<close> with default formatting, \<open>%.6g\<close>.\<close>

definition fmt_g :: "dbl \<Rightarrow> string" where
  "fmt_g w =
     (if f_sign w then ''-'' else []) @
     (if f_is_nan w then ''nan''
      else if f_is_inf w then ''inf''
      else if f_mag w = 0 then ''0''
      else case six_digits (f_mag w) one_unit of (x, m) \<Rightarrow>
        let ds = nat_str m
        in if x < - 4 \<or> x \<ge> 6 then with_point (take 1 ds) (drop 1 ds) @ exponent_str x
           else if x \<ge> 0 then with_point (take (nat x + 1) ds) (drop (nat x + 1) ds)
           else with_point ''0'' (replicate (nat (- x) - 1) CHR ''0'' @ ds))"

text \<open>\<open>std::to_string(double)\<close>, \<open>%f\<close>: six decimals, the exact value rounded half to even.\<close>

definition fmt_f :: "dbl \<Rightarrow> string" where
  "fmt_f w =
     (if f_sign w then ''-'' else []) @
     (if f_is_nan w then ''nan''
      else if f_is_inf w then ''inf''
      else let n = f_mag w * 10 ^ 6;
               m = n div one_unit;
               r = n mod one_unit;
               m = (if 2 * r > one_unit \<or> (2 * r = one_unit \<and> odd m) then m + 1 else m);
               frac = nat_str (m mod 10 ^ 6)
           in nat_str (m div 10 ^ 6) @ ''.'' @ replicate (6 - length frac) CHR ''0'' @ frac)"

text \<open>The number \<open>m * base^e\<close> read by \<open>strtod\<close>; \<open>None\<close> when it overflows, or is
  below the normal range and inexact, where \<open>std::stod\<close> throws \<open>out_of_range\<close>.\<close>

definition scaled_dbl :: "bool \<Rightarrow> nat \<Rightarrow> nat \<Rightarrow> int \<Rightarrow> dbl option" where
  "scaled_dbl neg base m e =
     (let w = (if m = 0 then f_zero neg
               else if e \<ge> 0 then f_round neg (m * base ^ nat e * one_unit) 1
               else f_round neg (m * one_unit) (base ^ nat (- e)));
          exact = (m * base ^ nat e * one_unit = f_mag w * base ^ nat (- e))
      in if m \<noteq> 0 \<and> (f_is_inf w \<or> (f_mag w < 2 ^ 52 \<and> \<not> exact)) then None else Some w)"

definition read_exponent :: "char list \<Rightarrow> string \<Rightarrow> int" where
  "read_exponent marks s =
     (case s of
        c # cs \<Rightarrow>
          if c \<in> set marks
          then (case sign_split cs of (neg, cs) \<Rightarrow>
                  let v = int (digits_val (takeWhile is_digit cs)) in if neg then - v else v)
          else 0
      | [] \<Rightarrow> 0)"

definition read_decimal :: "bool \<Rightarrow> string \<Rightarrow> dbl option" where
  "read_decimal neg s =
     (let ip = takeWhile is_digit s; rest = dropWhile is_digit s;
          (fp, rest) = (case rest of
              c # cs \<Rightarrow> if c = CHR ''.'' then (takeWhile is_digit cs, dropWhile is_digit cs) else ([], rest)
            | [] \<Rightarrow> ([], []))
      in if ip @ fp = [] then None
         else scaled_dbl neg 10 (digits_val (ip @ fp)) (read_exponent ''eE'' rest - int (length fp)))"

definition is_xdigit :: "char \<Rightarrow> bool" where
  "is_xdigit c \<longleftrightarrow> is_digit c \<or> (97 \<le> code c \<and> code c \<le> 102) \<or> (65 \<le> code c \<and> code c \<le> 70)"

definition xdigit_val :: "char \<Rightarrow> nat" where
  "xdigit_val c = (if is_digit c then digit_val c else code (to_upper c) - 55)"

definition read_hex :: "bool \<Rightarrow> string \<Rightarrow> dbl option" where
  "read_hex neg s =
     (let ip = takeWhile is_xdigit s; rest = dropWhile is_xdigit s;
          (fp, rest) = (case rest of
              c # cs \<Rightarrow> if c = CHR ''.'' then (takeWhile is_xdigit cs, dropWhile is_xdigit cs) else ([], rest)
            | [] \<Rightarrow> ([], []))
      in if ip @ fp = [] then Some (f_zero neg)
         else scaled_dbl neg 2 (foldl (\<lambda>v c. 16 * v + xdigit_val c) 0 (ip @ fp))
                (read_exponent ''pP'' rest - 4 * int (length fp)))"

definition starts_with :: "string \<Rightarrow> string \<Rightarrow> bool" where
  "starts_with s p \<longleftrightarrow> take (length p) s = p"

definition stod :: "string \<Rightarrow> dbl option" where
  "stod s =
     (case sign_split (dropWhile is_space s) of
        (neg, cs) \<Rightarrow>
          let u = map to_upper cs
          in if starts_with u ''INF'' then Some (f_inf neg)
             else if starts_with u ''NAN'' then Some (f_pack neg (2047 * 2 ^ 52 + 2 ^ 51))
             else if starts_with u ''0X'' then read_hex neg (drop 2 cs)
             else read_decimal neg cs)"


section \<open>Representable numbers\<close>

lemma bitlen_0 [simp]: "bitlen 0 = 0"
  by (simp add: bitlen.simps)

lemma bitlen_bounds: "0 < n \<Longrightarrow> 2 ^ (bitlen n - 1) \<le> n \<and> n < 2 ^ bitlen n \<and> 0 < bitlen n"
proof (induction n rule: bitlen.induct)
  case (1 n)
  show ?case
  proof (cases "n div 2 = 0")
    case True
    then have "n = 1" using "1.prems" by simp
    then show ?thesis by (simp add: bitlen.simps)
  next
    case False
    then have IH: "2 ^ (bitlen (n div 2) - 1) \<le> n div 2" "n div 2 < 2 ^ bitlen (n div 2)" "0 < bitlen (n div 2)"
      using 1 by auto
    have b: "bitlen n = Suc (bitlen (n div 2))" using "1.prems" by (simp add: bitlen.simps)
    have "(2::nat) ^ bitlen (n div 2) = 2 * 2 ^ (bitlen (n div 2) - 1)"
      using IH(3) by (metis Suc_diff_1 power_Suc)
    moreover define p :: nat where "p = 2 ^ (bitlen (n div 2) - 1)"
    ultimately have "p \<le> n div 2" "n div 2 < 2 * p" using IH by simp_all
    then have "2 * p \<le> n" "n < 2 * (2 * p)" by presburger+
    then show ?thesis using \<open>2 ^ bitlen (n div 2) = 2 * 2 ^ (bitlen (n div 2) - 1)\<close> b
      by (simp add: p_def)
  qed
qed

lemma bitlen_unique:
  assumes "2 ^ k \<le> n" "n < 2 ^ Suc k"
  shows "bitlen n = Suc k"
proof -
  have n: "0 < n" using assms(1) by (metis le_trans not_le one_le_power one_le_numeral zero_less_one)
  note b = bitlen_bounds [OF n]
  have "\<not> bitlen n \<le> k"
  proof
    assume "bitlen n \<le> k"
    then have "(2::nat) ^ bitlen n \<le> 2 ^ k" by (simp add: power_increasing)
    then show False using b assms by linarith
  qed
  moreover have "\<not> Suc k < bitlen n"
  proof
    assume "Suc k < bitlen n"
    then have "(2::nat) ^ Suc k \<le> 2 ^ (bitlen n - 1)" by (intro power_increasing) auto
    then show False using b assms by linarith
  qed
  ultimately show ?thesis by linarith
qed

lemma bitlen_le: "n < 2 ^ k \<Longrightarrow> bitlen n \<le> k"
proof (rule ccontr)
  assume n: "n < 2 ^ k" "\<not> bitlen n \<le> k"
  then have "0 < n" by (cases n) auto
  then have "2 ^ (bitlen n - 1) \<le> n" using bitlen_bounds by blast
  moreover have "(2::nat) ^ k \<le> 2 ^ (bitlen n - 1)" using n by (intro power_increasing) auto
  ultimately show False using n by linarith
qed

lemma bitlen_shift: "0 < m \<Longrightarrow> bitlen (m * 2 ^ k) = bitlen m + k"
proof -
  assume m: "0 < m"
  note b = bitlen_bounds [OF m]
  define j where "j = bitlen m - 1"
  have j: "bitlen m = Suc j" using b by (simp add: j_def)
  have b': "2 ^ j \<le> m" "m < 2 ^ Suc j" using b by (simp_all add: j)
  then have "2 ^ (j + k) \<le> m * 2 ^ k" by (simp add: power_add)
  moreover have "m * 2 ^ k < 2 ^ Suc (j + k)"
  proof -
    have "m * 2 ^ k < 2 ^ Suc j * 2 ^ k" using b'(2) by simp
    then show ?thesis by (simp add: power_add)
  qed
  ultimately have "bitlen (m * 2 ^ k) = Suc (j + k)" by (rule bitlen_unique)
  then show ?thesis using j by simp
qed

text \<open>Fields of a packed pattern.\<close>

lemma unat_f_pack:
  assumes "n < 2 ^ 63"
  shows "unat (f_pack s n) = n + (if s then 2 ^ 63 else 0)"
proof -
  have "unat (word_of_nat x :: dbl) = x" if "x < 2 ^ 64" for x
    using that by (simp add: unsigned_of_nat take_bit_nat_eq_self)
  moreover have "n + (if s then 2 ^ 63 else 0) < 2 ^ 64" using assms by simp
  ultimately show ?thesis unfolding f_pack_def by blast
qed

lemma f_pack_fields:
  assumes "n < 2 ^ 63"
  shows "f_sign (f_pack s n) = s" "f_exp (f_pack s n) = n div 2 ^ 52" "f_frac (f_pack s n) = n mod 2 ^ 52"
proof -
  note u = unat_f_pack [OF assms, of s]
  have p: "(2::nat) ^ 63 = 2048 * 2 ^ 52" by simp
  show "f_sign (f_pack s n) = s" using assms by (simp add: f_sign_def u)
  have "n div 2 ^ 52 < 2048" using assms by simp
  moreover have "(n + 2 ^ 63) div 2 ^ 52 = n div 2 ^ 52 + 2048" "(n + 2 ^ 63) mod 2 ^ 52 = n mod 2 ^ 52"
    using div_mult_self2 [of "2 ^ 52" n 2048] mod_mult_self2 [of n "2 ^ 52" 2048] by simp_all
  ultimately show "f_exp (f_pack s n) = n div 2 ^ 52" "f_frac (f_pack s n) = n mod 2 ^ 52"
    by (simp_all add: f_exp_def f_frac_def u)
qed

text \<open>Rounding a number that has a 53-bit significand and is in range changes nothing.\<close>

lemma f_round_exact:
  assumes m: "m < 2 ^ 53" and k: "k \<le> 2045"
  shows "f_mag (f_round s (m * 2 ^ k) 1) = m * 2 ^ k" "f_sign (f_round s (m * 2 ^ k) 1) = s"
    "f_finite (f_round s (m * 2 ^ k) 1)"
proof -
  define n where "n = m * 2 ^ k"
  define sh where "sh = bitlen n - 53"
  define q where "q = n div 2 ^ sh"
  have fit: "n = q * 2 ^ sh \<and> sh \<le> k \<and> q < 2 ^ 53 \<and> (0 < sh \<longrightarrow> 2 ^ 52 \<le> q)"
  proof (cases "sh = 0 \<or> m = 0")
    case True
    then have "sh = 0" by (auto simp: sh_def n_def)
    then have bl: "bitlen n \<le> 53" by (simp add: sh_def)
    have "n < 2 ^ 53"
    proof (cases "n = 0")
      case False
      then have "n < 2 ^ bitlen n" using bitlen_bounds by blast
      also have "\<dots> \<le> 2 ^ 53" using bl by (intro power_increasing) auto
      finally show ?thesis .
    qed simp
    then show ?thesis using \<open>sh = 0\<close> by (simp add: q_def)
  next
    case False
    then have m0: "0 < m" and sh: "0 < sh" by auto
    have L: "bitlen n = bitlen m + k" using bitlen_shift [OF m0] by (simp add: n_def)
    have bm: "bitlen m \<le> 53" using bitlen_le [OF m] .
    then have le: "sh \<le> k" using L sh by (simp add: sh_def)
    have n: "n = (m * 2 ^ (k - sh)) * 2 ^ sh" using le by (simp add: n_def mult.assoc flip: power_add)
    then have q: "q = m * 2 ^ (k - sh)" by (simp add: q_def)
    have "bitlen q = bitlen m + (k - sh)" using bitlen_shift [OF m0] by (simp add: q)
    also have "\<dots> = 53" using L le sh by (simp add: sh_def)
    finally have bq: "bitlen q = 53" .
    have "0 < q" using m0 by (simp add: q)
    then have "2 ^ (bitlen q - 1) \<le> q \<and> q < 2 ^ bitlen q" using bitlen_bounds by blast
    then have "2 ^ 52 \<le> q" "q < 2 ^ 53" unfolding bq by simp_all
    moreover have "n = q * 2 ^ sh" unfolding q by (rule n)
    ultimately show ?thesis using le by blast
  qed
  have q: "n = q * 2 ^ sh" "sh \<le> 2045" "q < 2 ^ 53" "0 < sh \<longrightarrow> 2 ^ 52 \<le> q" using fit k by auto
  define bits where "bits = sh * 2 ^ 52 + q"
  have small: "bits < 2047 * 2 ^ 52" using q(2,3) by (simp add: bits_def)
  have r: "f_round s n 1 = f_pack s bits"
  proof -
    have r0: "n mod 2 ^ sh = 0" using q(1) by simp
    show ?thesis
      using small
      by (simp add: f_round_def Let_def sh_def [symmetric] q_def [symmetric] r0 bits_def)
  qed
  have b63: "bits < 2 ^ 63" using small by simp
  note f = f_pack_fields [OF b63, of s]
  show "f_sign (f_round s (m * 2 ^ k) 1) = s" using r f(1) by (simp add: n_def)
  have e: "bits div 2 ^ 52 < 2047" using small by simp
  then show "f_finite (f_round s (m * 2 ^ k) 1)" using r f(2) by (simp add: n_def f_finite_def)
  have "f_mag (f_pack s bits) = n"
  proof (cases "q < 2 ^ 52")
    case True
    then have "sh = 0" using q(4) by auto
    then show ?thesis using True q(1) f by (simp add: f_mag_def bits_def)
  next
    case False
    define fr where "fr = q - 2 ^ 52"
    have qf: "q = 2 ^ 52 + fr" "fr < 2 ^ 52" using False q(3) by (simp_all add: fr_def)
    have bb: "bits = fr + 2 ^ 52 * (sh + 1)" using qf by (simp add: bits_def)
    have "bits mod 2 ^ 52 = fr" unfolding bb mod_mult_self2 using qf(2) by simp
    moreover have "bits div 2 ^ 52 = sh + 1" unfolding bb using qf(2) by (subst div_mult_self2) simp_all
    ultimately have "bits div 2 ^ 52 = sh + 1" "bits mod 2 ^ 52 = fr" by blast+
    then show ?thesis using f q(1) qf(1) by (simp add: f_mag_def)
  qed
  then show "f_mag (f_round s (m * 2 ^ k) 1) = m * 2 ^ k" using r by (simp add: n_def)
qed

text \<open>Every integer a double represents exactly: at most 2^53 in magnitude.\<close>

lemma f_of_int_exact:
  assumes "\<bar>i\<bar> \<le> 2 ^ 53"
  shows "f_key (f_of_int i) = i * int one_unit" "f_finite (f_of_int i)" "\<not> f_is_nan (f_of_int i)"
proof -
  obtain m k where mk: "nat \<bar>i\<bar> * one_unit = m * 2 ^ k" "m < 2 ^ 53" "k \<le> 2045"
  proof (cases "\<bar>i\<bar> = 2 ^ 53")
    case True
    have "(2::nat) ^ 53 * one_unit = 1 * 2 ^ (53 + 1074)"
      by (simp only: one_unit_def power_add mult_1)
    moreover have "nat \<bar>i\<bar> = 2 ^ 53" using True by simp
    ultimately show ?thesis using that [of 1 "53 + 1074"] by simp
  next
    case False
    then have "nat \<bar>i\<bar> < 2 ^ 53" using assms by simp
    then show ?thesis using that [of "nat \<bar>i\<bar>" 1074] by (simp only: one_unit_def)
  qed
  have r: "f_of_int i = f_round (i < 0) (m * 2 ^ k) 1" by (simp only: f_of_int_def mk(1))
  note e = f_round_exact [OF mk(2,3), of "i < 0", folded r, folded mk(1)]
  show fin: "f_finite (f_of_int i)" by (rule e)
  then have "\<not> f_is_inf (f_of_int i)" by (simp add: f_finite_def f_is_inf_def)
  then show "f_key (f_of_int i) = i * int one_unit"
    by (simp add: f_key_def f_units_def e)
  show "\<not> f_is_nan (f_of_int i)" using fin by (simp add: f_finite_def f_is_nan_def)
qed

lemma f_of_int_less:
  assumes "\<bar>i\<bar> \<le> 2 ^ 53" "\<bar>j\<bar> \<le> 2 ^ 53"
  shows "f_lt (f_of_int i) (f_of_int j) \<longleftrightarrow> i < j" "f_eq (f_of_int i) (f_of_int j) \<longleftrightarrow> i = j"
  using f_of_int_exact [OF assms(1)] f_of_int_exact [OF assms(2)]
  by (simp_all add: f_lt_def f_eq_def one_unit_pos [unfolded neq0_conv [symmetric]])

lemma f_lt_trans: "f_lt a b \<Longrightarrow> f_lt b c \<Longrightarrow> f_lt a c"
  by (simp add: f_lt_def)

lemma f_lt_irrefl [simp]: "\<not> f_lt a a"
  by (simp add: f_lt_def)


text \<open>2^53 + 1 is the first integer that is not a double: the tie goes to 2^53.\<close>

lemma f_of_int_tie: "f_of_int (2 ^ 53 + 1) = f_of_int (2 ^ 53)"
proof -
  have u: "one_unit = 2 ^ 1074" by (rule one_unit_def)
  have b1: "bitlen (2 ^ 53 + 1) = 54" and b2: "bitlen (2 ^ 53) = 54"
    using bitlen_unique [of 53 "2 ^ 53 + 1"] bitlen_unique [of 53 "2 ^ 53"] by simp_all
  have L: "bitlen (m * one_unit) = bitlen m + 1074" if "0 < m" for m
    unfolding u by (rule bitlen_shift [OF that])
  have d: "(2::nat) ^ 1075 = 2 * one_unit" unfolding u by (simp only: power_Suc [symmetric] eval_nat_numeral)
  have "f_round False (m * one_unit) 1 =
      f_pack False (1075 * 2 ^ 52 + (m div 2))" if m: "bitlen m = 54" "m div 2 = 2 ^ 52" for m
  proof -
    have m0: "0 < m" using m(2) by (cases m) auto
    have sh: "bitlen (m * one_unit) - 53 = 1075" using L [OF m0] m(1) by simp
    have q: "(m * one_unit) div (2 * one_unit) = m div 2" by (rule div_mult_mult2) simp
    have r: "(m * one_unit) mod (2 * one_unit) = (m mod 2) * one_unit" by (rule mod_mult_mult2)
    have up: "\<not> 2 * (m mod 2 * one_unit) > 2 * one_unit" by (simp add: mod_2_eq_odd)
    show ?thesis
      unfolding f_round_def Let_def div_by_1 mult_1 sh d q r
      using up m(2) by simp
  qed
  from this [OF b1] this [OF b2] show ?thesis
    by (simp add: f_of_int_def)
qed

end
