(* ===== verification/Values.thy ===== *)
theory Values
  imports Float64
begin

text \<open>
  SQL values, \<open>src/src/vm/value.cpp\<close>. A \<open>Value\<close> is its tag with the payload of the tag;
  the accessors \<open>v_int\<close>, \<open>v_bool\<close>, \<open>v_text\<close> and \<open>v_dbl\<close> read a member the way the
  code does when it does not look at the tag, the other members of a \<open>Value\<close> having their
  default values. \<open>CachedValue\<close> of the syntax tree has the same content and is \<open>val\<close> too.
  \<open>compareValues\<close> returns the sign of the comparison.
\<close>

section \<open>Values\<close>

datatype val =
    VNull
  | VInt i64
  | VBool bool
  | VText bytes
  | VDouble dbl

fun v_int :: "val \<Rightarrow> i64" where
  "v_int (VInt i) = i"
| "v_int _ = 0"

fun v_bool :: "val \<Rightarrow> bool" where
  "v_bool (VBool b) = b"
| "v_bool _ = False"

fun v_text :: "val \<Rightarrow> bytes" where
  "v_text (VText s) = s"
| "v_text _ = []"

fun v_dbl :: "val \<Rightarrow> dbl" where
  "v_dbl (VDouble d) = d"
| "v_dbl _ = f_zero False"

fun type_index :: "val \<Rightarrow> nat" where
  "type_index VNull = 0"
| "type_index (VInt _) = 1"
| "type_index (VBool _) = 2"
| "type_index (VText _) = 3"
| "type_index (VDouble _) = 4"

abbreviation isNull :: "val \<Rightarrow> bool" where
  "isNull v \<equiv> v = VNull"

fun isNumeric :: "val \<Rightarrow> bool" where
  "isNumeric (VInt _) = True"
| "isNumeric (VDouble _) = True"
| "isNumeric _ = False"

definition asDouble :: "val \<Rightarrow> dbl" where
  "asDouble v = (case v of VDouble d \<Rightarrow> d | _ \<Rightarrow> f_of_int (sint (v_int v)))"

definition formatDouble :: "dbl \<Rightarrow> string" where
  "formatDouble v =
     (if f_finite v \<and> f_eq v (f_floor v) \<and> f_lt (f_abs v) (f_of_int (10 ^ 15))
      then int_str (sint (f_to_i64 v)) @ ''.0''
      else fmt_g v)"

fun toString :: "val \<Rightarrow> string" where
  "toString VNull = ''NULL''"
| "toString (VInt i) = i64_str i"
| "toString (VBool b) = (if b then ''TRUE'' else ''FALSE'')"
| "toString (VText s) = s"
| "toString (VDouble d) = formatDouble d"

text \<open>\<open>std::string::compare\<close>: bytes as unsigned characters, then the length.\<close>

definition text_compare :: "bytes \<Rightarrow> bytes \<Rightarrow> int" where
  "text_compare s t = (if s < t then - 1 else if s = t then 0 else 1)"

definition compareValues :: "val \<Rightarrow> val \<Rightarrow> int option" where
  "compareValues a b =
     (if isNull a \<or> isNull b then None
      else if isNumeric a \<and> isNumeric b then
        (case (a, b) of
           (VInt i, VInt j) \<Rightarrow> Some (if sint i < sint j then - 1 else if sint i > sint j then 1 else 0)
         | _ \<Rightarrow>
             let da = asDouble a; db = asDouble b
             in Some (if f_lt da db then - 1 else if f_lt db da then 1 else 0))
      else case (a, b) of
        (VBool x, VBool y) \<Rightarrow> Some (of_bool x - of_bool y)
      | (VText s, VText t) \<Rightarrow> Some (text_compare s t)
      | _ \<Rightarrow> None)"

definition valueLess :: "val \<Rightarrow> val \<Rightarrow> bool" where
  "valueLess a b =
     (if isNull a \<or> isNull b then isNull a \<and> \<not> isNull b
      else if isNumeric a \<and> isNumeric b then
        (case compareValues a b of Some c \<Rightarrow> c < 0 | None \<Rightarrow> False)
      else if type_index a \<noteq> type_index b then type_index a < type_index b
      else (case compareValues a b of Some c \<Rightarrow> c < 0 | None \<Rightarrow> False))"

section \<open>Comparison\<close>

lemma text_compare_simps [simp]:
  "text_compare s t < 0 \<longleftrightarrow> s < t" "text_compare s t = 0 \<longleftrightarrow> s = t" "text_compare s t > 0 \<longleftrightarrow> t < s"
  by (auto simp: text_compare_def)

lemma text_compare_flip: "text_compare t s = - text_compare s t"
  by (auto simp: text_compare_def)

lemma compareValues_flip: "compareValues b a = map_option uminus (compareValues a b)"
  by (cases a; cases b) (auto simp: compareValues_def Let_def f_lt_def intro: text_compare_flip)

lemma compareValues_range: "compareValues a b = Some c \<Longrightarrow> c \<in> {-1, 0, 1}"
  by (cases a; cases b) (auto simp: compareValues_def Let_def text_compare_def split: if_splits)

lemma compareValues_None_iff:
  "compareValues a b = None \<longleftrightarrow>
     isNull a \<or> isNull b \<or> (\<not> (isNumeric a \<and> isNumeric b) \<and> type_index a \<noteq> type_index b)"
  by (cases a; cases b) (auto simp: compareValues_def Let_def)

text \<open>
  Values that one column holds: all numbers, all booleans or all texts, beside NULL. The
  numbers are not NaN, and integers are within the range that doubles represent exactly.
\<close>

datatype val_class = NumClass | BoolClass | TextClass

fun in_class :: "val_class \<Rightarrow> val \<Rightarrow> bool" where
  "in_class _ VNull = True"
| "in_class k (VInt i) = (k = NumClass \<and> \<bar>sint i\<bar> \<le> 2 ^ 53)"
| "in_class k (VDouble d) = (k = NumClass \<and> \<not> f_is_nan d)"
| "in_class k (VBool b) = (k = BoolClass)"
| "in_class k (VText s) = (k = TextClass)"

text \<open>The position of a value in its class: NULL first.\<close>

fun val_rank :: "val \<Rightarrow> nat \<times> int \<times> bytes" where
  "val_rank VNull = (0, 0, [])"
| "val_rank (VInt i) = (1, sint i * int one_unit, [])"
| "val_rank (VDouble d) = (1, f_key d, [])"
| "val_rank (VBool b) = (1, of_bool b, [])"
| "val_rank (VText s) = (1, 0, s)"

definition rank_less :: "nat \<times> int \<times> bytes \<Rightarrow> nat \<times> int \<times> bytes \<Rightarrow> bool" where
  "rank_less a b \<longleftrightarrow> (case a of (n, i, s) \<Rightarrow> case b of (m, j, t) \<Rightarrow>
     n < m \<or> (n = m \<and> (i < j \<or> (i = j \<and> s < t))))"

lemma f_int_facts:
  "\<bar>i\<bar> \<le> 2 ^ 53 \<Longrightarrow> f_key (f_of_int i) = i * int one_unit"
  "\<bar>i\<bar> \<le> 2 ^ 53 \<Longrightarrow> \<not> f_is_nan (f_of_int i)"
  by (simp_all add: f_of_int_exact)

lemma valueLess_rank:
  assumes "in_class k a" "in_class k b"
  shows "valueLess a b \<longleftrightarrow> rank_less (val_rank a) (val_rank b)"
  using assms one_unit_pos
  by (cases a; cases b)
     (auto simp: valueLess_def compareValues_def rank_less_def asDouble_def f_int_facts f_lt_def Let_def)

lemma compareValues_rank:
  assumes "in_class k a" "in_class k b" "compareValues a b = Some c"
  shows "c < 0 \<longleftrightarrow> rank_less (val_rank a) (val_rank b)" "c = 0 \<longleftrightarrow> val_rank a = val_rank b"
    "c > 0 \<longleftrightarrow> rank_less (val_rank b) (val_rank a)"
  using assms one_unit_pos
  by (cases a; cases b;
      auto simp: compareValues_def rank_less_def asDouble_def f_int_facts f_lt_def Let_def text_compare_def
        of_bool_def split: if_splits)+

lemma rank_less_irrefl [simp]: "\<not> rank_less a a"
  by (auto simp: rank_less_def)

lemma rank_less_trans: "rank_less a b \<Longrightarrow> rank_less b c \<Longrightarrow> rank_less a c"
  by (auto simp: rank_less_def)

lemma rank_less_linear: "rank_less a b \<or> a = b \<or> rank_less b a"
  by (auto simp: rank_less_def)

section \<open>The interface of a sort order\<close>

text \<open>
  What the sorting and merging code asks of a comparison, on the values a run is over: a
  strict weak order. The sorted lists it speaks of, and what inserting and merging keep of
  them, are derived once from the laws.
\<close>

locale weak_order =
  fixes dom :: "'a \<Rightarrow> bool" and less :: "'a \<Rightarrow> 'a \<Rightarrow> bool"
  assumes irrefl: "dom a \<Longrightarrow> \<not> less a a"
    and trans: "dom a \<Longrightarrow> dom b \<Longrightarrow> dom c \<Longrightarrow> less a b \<Longrightarrow> less b c \<Longrightarrow> less a c"
    and negtrans: "dom a \<Longrightarrow> dom b \<Longrightarrow> dom c \<Longrightarrow> \<not> less a b \<Longrightarrow> \<not> less b c \<Longrightarrow> \<not> less a c"
begin

definition sorted_run :: "'a list \<Rightarrow> bool" where
  "sorted_run xs \<longleftrightarrow> sorted_wrt (\<lambda>a b. \<not> less b a) xs"

lemma asym: "dom a \<Longrightarrow> dom b \<Longrightarrow> less a b \<Longrightarrow> \<not> less b a"
  using irrefl trans by blast

lemma sorted_run_Cons: "sorted_run (x # xs) \<longleftrightarrow> (\<forall>y\<in>set xs. \<not> less y x) \<and> sorted_run xs"
  by (simp add: sorted_run_def)

lemma sorted_run_Nil [simp]: "sorted_run []"
  by (simp add: sorted_run_def)

text \<open>A head not above the next element is not above any.\<close>

lemma sorted_run_Cons2:
  assumes "\<forall>z\<in>set (x # y # ys). dom z"
  shows "sorted_run (x # y # ys) \<longleftrightarrow> \<not> less y x \<and> sorted_run (y # ys)"
proof
  assume "sorted_run (x # y # ys)"
  then show "\<not> less y x \<and> sorted_run (y # ys)" by (simp add: sorted_run_Cons)
next
  assume a: "\<not> less y x \<and> sorted_run (y # ys)"
  have "\<not> less z x" if "z \<in> set ys" for z
    using a that assms negtrans [of z y x] by (auto simp: sorted_run_Cons)
  then show "sorted_run (x # y # ys)" using a by (auto simp: sorted_run_Cons)
qed

end

interpretation val_order: weak_order "in_class k" valueLess for k
proof
  show "in_class k a \<Longrightarrow> \<not> valueLess a a" for a
    by (simp add: valueLess_rank [of k])
  show "in_class k a \<Longrightarrow> in_class k b \<Longrightarrow> in_class k c \<Longrightarrow> valueLess a b \<Longrightarrow> valueLess b c \<Longrightarrow> valueLess a c"
    for a b c
    by (auto simp: valueLess_rank [of k] intro: rank_less_trans)
  show "in_class k a \<Longrightarrow> in_class k b \<Longrightarrow> in_class k c \<Longrightarrow> \<not> valueLess a b \<Longrightarrow> \<not> valueLess b c \<Longrightarrow> \<not> valueLess a c"
    for a b c
    using rank_less_trans rank_less_linear by (simp add: valueLess_rank [of k]) metis
qed

section \<open>Properties\<close>

text \<open>Within one class of values (numbers that are not NaN with integers of at most 53
  bits, booleans, or texts, each with NULL), \<open>compareValues\<close> agrees with \<open>valueLess\<close>
  and with equality of rank, is antisymmetric, and is undefined exactly when a value is NULL.\<close>

lemma compareValues_consistent:
  assumes "in_class k a" "in_class k b"
  shows "(compareValues a b = None \<longleftrightarrow> isNull a \<or> isNull b) \<and>
    compareValues b a = map_option uminus (compareValues a b) \<and>
    (\<forall>c. compareValues a b = Some c \<longrightarrow>
       (c < 0 \<longleftrightarrow> valueLess a b) \<and> (c > 0 \<longleftrightarrow> valueLess b a) \<and> (c = 0 \<longleftrightarrow> val_rank a = val_rank b))"
proof -
  have "compareValues a b = None \<longleftrightarrow> isNull a \<or> isNull b"
    using assms by (cases a; cases b) (auto simp: compareValues_None_iff)
  then show ?thesis
    using compareValues_rank [OF assms] valueLess_rank [OF assms] valueLess_rank [OF assms(2,1)]
      compareValues_flip [where a = a and b = b] by simp
qed

lemma compareValues_consistent_witness:
  "compareValues (VInt 3) (VDouble (f_of_int 3)) \<noteq> None"
proof -
  have "in_class NumClass (VInt 3)" "in_class NumClass (VDouble (f_of_int 3))"
    using f_of_int_exact [of 3] by simp_all
  from compareValues_consistent [OF this] show ?thesis by auto
qed

text \<open>Outside a class the order is not one: an integer sorts before a boolean and a
  boolean before a double, yet the double 3.0 sorts before the integer 5; and two different
  integers above 2^53 both compare equal to the same double.\<close>

lemma valueLess_not_transitive:
  "valueLess (VInt 5) (VBool b) \<and> valueLess (VBool b) (VDouble (f_of_int 3)) \<and>
   valueLess (VDouble (f_of_int 3)) (VInt 5) \<and>
   (let d = VDouble (f_of_int (2 ^ 53)); i = VInt (2 ^ 53); j = VInt (2 ^ 53 + 1)
    in valueLess i j \<and> compareValues i d = Some 0 \<and> compareValues d j = Some 0)"
proof -
  have 1: "valueLess (VInt 5) (VBool b)" "valueLess (VBool b) (VDouble (f_of_int 3))"
    by (simp_all add: valueLess_def)
  have "f_lt (f_of_int 3) (f_of_int 5)" using f_of_int_less(1) [of 3 5] by simp
  then have 2: "valueLess (VDouble (f_of_int 3)) (VInt 5)"
    by (simp add: valueLess_def compareValues_def asDouble_def)
  have 3: "valueLess (VInt (2 ^ 53)) (VInt (2 ^ 53 + 1))"
    by (simp add: valueLess_def compareValues_def)
  have "f_of_int (2 ^ 53 + 1) = f_of_int (2 ^ 53)" by (rule f_of_int_tie)
  then have 4: "compareValues (VInt (2 ^ 53)) (VDouble (f_of_int (2 ^ 53))) = Some 0"
    "compareValues (VDouble (f_of_int (2 ^ 53))) (VInt (2 ^ 53 + 1)) = Some 0"
    by (simp_all add: compareValues_def asDouble_def)
  show ?thesis unfolding Let_def using 1 2 3 4 by blast
qed

end
