(* ===== verification/Tuples.thy ===== *)
theory Tuples
  imports Values
begin

text \<open>
  Rows and their stored form, \<open>src/src/vm/tuple.cpp\<close>: a null bitmap of one bit per column
  followed by the non-null columns, each in the format of its declared type. A value of
  another type is stored through the member the declared type reads, so \<open>coerce\<close> says what
  a column of a type keeps of a value, and the round trip is stated for arbitrary rows.
\<close>

unbundle bit_operations_syntax

datatype data_type = DInt | DBool | DText | DVarchar | DFloat | DDate | DTimestamp

type_synonym schema = "data_type list"
type_synonym row = "val list"

section \<open>Serialization\<close>

text \<open>\<open>values_[i]\<close>, or NULL past the end of the row.\<close>

definition at_or_null :: "row \<Rightarrow> nat \<Rightarrow> val" where
  "at_or_null vs i = (if i < length vs then vs ! i else VNull)"

definition set_null_bit :: "row \<Rightarrow> bytes \<Rightarrow> nat \<Rightarrow> bytes" where
  "set_null_bit vs bm i =
     (if i < length vs \<and> isNull (vs ! i)
      then bm[i div 8 := char_of (code (bm ! (i div 8)) OR push_bit (i mod 8) 1)]
      else bm)"

definition null_bitmap :: "row \<Rightarrow> nat \<Rightarrow> bytes" where
  "null_bitmap vs n =
     foldl (set_null_bit vs) (replicate ((n + 7) div 8) (char_of (0::nat))) [0..<n]"

definition enc_f64 :: "val \<Rightarrow> bytes" where
  "enc_f64 v = enc_word (case v of VDouble d \<Rightarrow> d | _ \<Rightarrow> f_of_int (sint (v_int v)))"

definition enc_text :: "bytes \<Rightarrow> bytes" where
  "enc_text s = enc_word (word_of_nat (length s) :: u32) @ s"

fun enc_col :: "data_type \<Rightarrow> val \<Rightarrow> bytes" where
  "enc_col DInt v = enc_word (v_int v)"
| "enc_col DFloat v = enc_f64 v"
| "enc_col DBool v = [if v_bool v then char_of (1::nat) else char_of (0::nat)]"
| "enc_col DText v = enc_text (v_text v)"
| "enc_col DVarchar v = enc_text (v_text v)"
| "enc_col DDate v = enc_text (v_text v)"
| "enc_col DTimestamp v = enc_text (v_text v)"

definition serialize :: "row \<Rightarrow> schema \<Rightarrow> bytes" where
  "serialize vs sch =
     null_bitmap vs (length sch) @
     concat (map (\<lambda>i. let v = at_or_null vs i in if isNull v then [] else enc_col (sch ! i) v)
               [0..<length sch])"

section \<open>Deserialization\<close>

text \<open>The reads of fixed size: the value and the position after it, or the exception.\<close>

definition read_fixed :: "nat \<Rightarrow> string \<Rightarrow> bytes \<Rightarrow> nat \<Rightarrow> string + bytes \<times> nat" where
  "read_fixed n err inp pos =
     (if pos + n > length inp then Inl err else Inr (take n (drop pos inp), pos + n))"

definition read_text :: "bytes \<Rightarrow> nat \<Rightarrow> string + val \<times> nat" where
  "read_text inp pos =
     (case read_fixed 4 ''tuple: truncated u32'' inp pos of
        Inl e \<Rightarrow> Inl e
      | Inr (bs, pos) \<Rightarrow>
          let len = unat (dec_word bs :: u32)
          in if pos + len > length inp then Inl ''tuple: truncated text''
             else Inr (VText (take len (drop pos inp)), pos + len))"

definition read_word :: "(64 word \<Rightarrow> val) \<Rightarrow> string \<Rightarrow> bytes \<Rightarrow> nat \<Rightarrow> string + val \<times> nat" where
  "read_word mk err inp pos =
     (case read_fixed 8 err inp pos of
        Inl e \<Rightarrow> Inl e
      | Inr (bs, pos) \<Rightarrow> Inr (mk (dec_word bs), pos))"

fun read_col :: "data_type \<Rightarrow> bytes \<Rightarrow> nat \<Rightarrow> string + val \<times> nat" where
  "read_col DInt inp pos = read_word VInt ''tuple: truncated i64'' inp pos"
| "read_col DFloat inp pos = read_word VDouble ''tuple: truncated f64'' inp pos"
| "read_col DBool inp pos =
     (if pos + 1 > length inp then Inl ''tuple: truncated bool''
      else Inr (VBool (inp ! pos \<noteq> char_of (0::nat)), pos + 1))"
| "read_col DText inp pos = read_text inp pos"
| "read_col DVarchar inp pos = read_text inp pos"
| "read_col DDate inp pos = read_text inp pos"
| "read_col DTimestamp inp pos = read_text inp pos"

definition null_bit :: "bytes \<Rightarrow> nat \<Rightarrow> bool" where
  "null_bit inp i \<longleftrightarrow> drop_bit (i mod 8) (code (inp ! (i div 8))) AND 1 \<noteq> 0"

fun read_cols :: "bytes \<Rightarrow> nat \<Rightarrow> schema \<Rightarrow> nat \<Rightarrow> string + row" where
  "read_cols inp i [] pos = Inr []"
| "read_cols inp i (dt # sch) pos =
     (if null_bit inp i
      then (case read_cols inp (Suc i) sch pos of Inl e \<Rightarrow> Inl e | Inr vs \<Rightarrow> Inr (VNull # vs))
      else case read_col dt inp pos of
        Inl e \<Rightarrow> Inl e
      | Inr (v, pos) \<Rightarrow>
          (case read_cols inp (Suc i) sch pos of Inl e \<Rightarrow> Inl e | Inr vs \<Rightarrow> Inr (v # vs)))"

definition deserialize :: "bytes \<Rightarrow> schema \<Rightarrow> string + row" where
  "deserialize inp sch =
     (let bitmapBytes = (length sch + 7) div 8
      in if length inp < bitmapBytes then Inl ''tuple: truncated null bitmap''
         else read_cols inp 0 sch bitmapBytes)"

section \<open>What a column keeps\<close>

fun coerce :: "data_type \<Rightarrow> val \<Rightarrow> val" where
  "coerce dt VNull = VNull"
| "coerce DInt v = VInt (v_int v)"
| "coerce DFloat v = VDouble (case v of VDouble d \<Rightarrow> d | _ \<Rightarrow> f_of_int (sint (v_int v)))"
| "coerce DBool v = VBool (v_bool v)"
| "coerce _ v = VText (v_text v)"

definition stored_row :: "row \<Rightarrow> schema \<Rightarrow> row" where
  "stored_row vs sch = map (\<lambda>i. coerce (sch ! i) (at_or_null vs i)) [0..<length sch]"

text \<open>Texts are shorter than the length field can say.\<close>

definition short_texts :: "row \<Rightarrow> bool" where
  "short_texts vs \<longleftrightarrow> (\<forall>v\<in>set vs. length (v_text v) < 2 ^ 32)"

subsection \<open>The bitmap\<close>

lemma bit_code_bound: "i < 8 \<Longrightarrow> (n::nat) < 256 \<Longrightarrow> n OR push_bit i 1 < 256"
proof -
  assume i: "i < 8" and n: "n < 256"
  have "take_bit 8 (n OR push_bit i 1) = take_bit 8 n OR take_bit 8 (push_bit i 1)"
    by (simp add: take_bit_or)
  moreover have "take_bit 8 n = n" using n by (simp add: take_bit_nat_eq_self)
  moreover have "take_bit 8 (push_bit i 1) = (push_bit i 1 :: nat)"
  proof -
    have "(2::nat) ^ i < 2 ^ 8" using i by (intro power_strict_increasing) auto
    then show ?thesis using i by (simp add: push_bit_eq_mult take_bit_nat_eq_self)
  qed
  ultimately have "take_bit 8 (n OR push_bit i 1) = n OR push_bit i 1" by simp
  moreover have "take_bit 8 (n OR push_bit i 1) < (2::nat) ^ 8" by (rule take_bit_nat_less_exp)
  ultimately show ?thesis by simp
qed

lemma null_bit_bit: "null_bit inp i \<longleftrightarrow> bit (code (inp ! (i div 8))) (i mod 8)"
  by (simp add: null_bit_def and_one_eq bit_iff_odd drop_bit_eq_div odd_iff_mod_2_eq_one)

lemma bitmap_fold:
  assumes "k \<le> n"
  shows "length (foldl (set_null_bit vs) (replicate ((n + 7) div 8) (char_of (0::nat))) [0..<k]) = (n + 7) div 8 \<and>
    (\<forall>i < n. null_bit (foldl (set_null_bit vs) (replicate ((n + 7) div 8) (char_of (0::nat))) [0..<k]) i \<longleftrightarrow>
       i < k \<and> i < length vs \<and> isNull (vs ! i))"
  using assms
proof (induction k)
  case 0
  then show ?case by (auto simp: null_bit_bit nth_replicate)
next
  case (Suc k)
  define b where "b = foldl (set_null_bit vs) (replicate ((n + 7) div 8) (char_of (0::nat))) [0..<k]"
  have len: "length b = (n + 7) div 8"
    and IH: "\<And>i. i < n \<Longrightarrow> null_bit b i \<longleftrightarrow> i < k \<and> i < length vs \<and> isNull (vs ! i)"
    using Suc unfolding b_def by auto
  show ?case
  proof (cases "k < length vs \<and> isNull (vs ! k)")
    case False
    then have "set_null_bit vs b k = b" by (auto simp: set_null_bit_def)
    then show ?thesis using len IH False by (auto simp: b_def [symmetric] less_Suc_eq)
  next
    case True
    define c :: char where "c = char_of (code (b ! (k div 8)) OR push_bit (k mod 8) 1)"
    have kd: "k div 8 < length b" using Suc.prems len by simp
    have cc: "code c = code (b ! (k div 8)) OR push_bit (k mod 8) 1"
      unfolding c_def by (rule code_char_of, rule bit_code_bound) simp_all
    have "null_bit (b[k div 8 := c]) i \<longleftrightarrow> null_bit b i \<or> i = k" if "i < n" for i
    proof (cases "i div 8 = k div 8")
      case True
      have "i = k \<longleftrightarrow> i mod 8 = k mod 8" using True by (metis div_mult_mod_eq)
      moreover have "bit (push_bit (k mod 8) 1 :: nat) (i mod 8) \<longleftrightarrow> i mod 8 = k mod 8"
        by (simp add: push_bit_eq_mult bit_exp_iff)
      ultimately show ?thesis using True kd cc by (simp add: null_bit_bit bit_or_iff)
    next
      case False
      then show ?thesis by (auto simp: null_bit_bit)
    qed
    moreover have "set_null_bit vs b k = b[k div 8 := c]" using True by (simp add: set_null_bit_def c_def)
    ultimately show ?thesis using len IH True by (auto simp: b_def [symmetric] less_Suc_eq)
  qed
qed

lemma null_bitmap_spec:
  "length (null_bitmap vs n) = (n + 7) div 8"
  "i < n \<Longrightarrow> null_bit (null_bitmap vs n) i \<longleftrightarrow> i < length vs \<and> isNull (vs ! i)"
  using bitmap_fold [of n n vs] by (simp_all add: null_bitmap_def)


subsection \<open>One column\<close>

lemma drop_take_middle:
  "pos = length pre \<Longrightarrow> n = length mid \<Longrightarrow> take n (drop pos (pre @ mid @ post)) = mid"
  by simp

lemma read_text_enc:
  assumes "length s < 2 ^ 32" "pos = length pre"
  shows "read_text (pre @ enc_text s @ post) pos = Inr (VText s, pos + length (enc_text s))"
proof -
  have "unat (word_of_nat (length s) :: u32) = length s"
    using assms(1) by (simp add: unsigned_of_nat take_bit_nat_eq_self)
  then show ?thesis using assms(2)
    by (simp add: read_text_def read_fixed_def enc_text_def Let_def)
qed

lemma read_word_enc:
  "pos = length pre \<Longrightarrow> read_word mk err (pre @ enc_word w @ post) pos = Inr (mk w, pos + 8)"
  by (simp add: read_word_def read_fixed_def)

lemma read_col_enc:
  assumes "v \<noteq> VNull" "length (v_text v) < 2 ^ 32" "pos = length pre"
  shows "read_col dt (pre @ enc_col dt v @ post) pos = Inr (coerce dt v, pos + length (enc_col dt v))"
proof -
  have "coerce dt v = (case dt of DInt \<Rightarrow> VInt (v_int v)
      | DFloat \<Rightarrow> VDouble (case v of VDouble d \<Rightarrow> d | _ \<Rightarrow> f_of_int (sint (v_int v)))
      | DBool \<Rightarrow> VBool (v_bool v) | _ \<Rightarrow> VText (v_text v))"
    using assms(1) by (cases v; cases dt) simp_all
  then show ?thesis
    using assms(2,3) by (cases dt) (simp_all add: read_text_enc read_word_enc enc_f64_def nth_append)
qed

text \<open>A column is read from exactly its own bytes: cut anywhere inside, it is an error.\<close>

lemma read_text_cut:
  assumes "length s < 2 ^ 32" "pos = length pre" "length inp < pos + length (enc_text s)" "pos \<le> length inp"
    and "inp = take (length inp) (pre @ enc_text s @ post)"
  shows "\<exists>e. read_text inp pos = Inl e"
proof (cases "pos + 4 > length inp")
  case True
  then show ?thesis by (simp add: read_text_def read_fixed_def)
next
  case False
  have "take 4 (drop pos inp) = take 4 (drop pos (pre @ enc_text s @ post))"
  proof -
    have gen: "take 4 (drop pos (take m X)) = take 4 (drop pos X)" if "pos + 4 \<le> m" for m and X :: bytes
      using that by (simp add: drop_take min_def)
    show ?thesis by (subst assms(5), rule gen) (use False in simp)
  qed
  also have "\<dots> = enc_word (word_of_nat (length s) :: u32)"
    using assms(2) by (simp add: enc_text_def)
  finally have hd: "take 4 (drop pos inp) = enc_word (word_of_nat (length s) :: u32)" .
  have "unat (word_of_nat (length s) :: u32) = length s"
    using assms(1) by (simp add: unsigned_of_nat take_bit_nat_eq_self)
  then show ?thesis
    using False hd assms(3) by (simp add: read_text_def read_fixed_def enc_text_def Let_def)
qed

lemma read_col_cut:
  assumes "v \<noteq> VNull" "length (v_text v) < 2 ^ 32" "pos = length pre"
    "length inp < pos + length (enc_col dt v)" "pos \<le> length inp"
    and "inp = take (length inp) (pre @ enc_col dt v @ post)"
  shows "\<exists>e. read_col dt inp pos = Inl e"
  using assms read_text_cut [OF assms(2,3) _ assms(5), of post]
  by (cases dt) (auto simp: read_word_def read_fixed_def enc_f64_def)

subsection \<open>All columns\<close>

definition enc_at :: "row \<Rightarrow> schema \<Rightarrow> nat \<Rightarrow> bytes" where
  "enc_at vs sch i = (let v = at_or_null vs i in if isNull v then [] else enc_col (sch ! i) v)"

lemma serialize_eq: "serialize vs sch = null_bitmap vs (length sch) @ concat (map (enc_at vs sch) [0..<length sch])"
  by (simp add: serialize_def enc_at_def [abs_def])

lemma at_or_null_short: "short_texts vs \<Longrightarrow> length (v_text (at_or_null vs i)) < 2 ^ 32"
  by (auto simp: at_or_null_def short_texts_def)

lemma null_bit_prefix: "i div 8 < length a \<Longrightarrow> null_bit (a @ b) i = null_bit a i"
  by (simp add: null_bit_def nth_append)

lemma null_bit_serialized:
  assumes "i < length sch"
  shows "null_bit (null_bitmap vs (length sch) @ x) i \<longleftrightarrow> i < length vs \<and> isNull (vs ! i)"
proof -
  have "i div 8 < (length sch + 7) div 8" using assms by linarith
  then show ?thesis using assms by (simp add: null_bit_prefix null_bitmap_spec)
qed

lemma read_cols_enc:
  assumes st: "short_texts vs" and ln: "length sch \<le> length vs"
    and "i \<le> length sch" "drop i sch = sch'"
    and "inp = null_bitmap vs (length sch) @ concat (map (enc_at vs sch) [0..<length sch])"
    and "pos = (length sch + 7) div 8 + length (concat (map (enc_at vs sch) [0..<i]))"
  shows "read_cols inp i sch' pos = Inr (map (\<lambda>j. coerce (sch ! j) (at_or_null vs j)) [i..<length sch])"
  using assms(3-6)
proof (induction sch' arbitrary: i pos)
  case Nil
  then show ?case by simp
next
  case (Cons dt sch')
  have i: "i < length sch" using Cons.prems(1,2) by (metis drop_eq_Nil list.distinct(1) not_le)
  have dt: "sch ! i = dt" "drop (Suc i) sch = sch'"
    using Cons.prems(2) i by (metis Cons_nth_drop_Suc list.inject)+
  define pre where "pre = null_bitmap vs (length sch) @ concat (map (enc_at vs sch) [0..<i])"
  define post where "post = concat (map (enc_at vs sch) [Suc i..<length sch])"
  have "[0..<length sch] = [0..<i] @ i # [Suc i..<length sch]"
    using i by (metis less_imp_le upt_add_eq_append upt_conv_Cons add_diff_inverse_nat less_or_eq_imp_le not_less zero_le)
  then have inp: "inp = pre @ enc_at vs sch i @ post"
    using Cons.prems(3) by (simp add: pre_def post_def)
  have pos: "pos = length pre" using Cons.prems(4) by (simp add: pre_def null_bitmap_spec)
  have nb: "null_bit inp i \<longleftrightarrow> isNull (at_or_null vs i)"
    using i ln by (simp add: Cons.prems(3) null_bit_serialized at_or_null_def)
  have rest: "read_cols inp (Suc i) sch' (pos + length (enc_at vs sch i)) =
      Inr (map (\<lambda>j. coerce (sch ! j) (at_or_null vs j)) [Suc i..<length sch])"
    by (rule Cons.IH) (use i dt Cons.prems in auto)
  have up: "[i..<length sch] = i # [Suc i..<length sch]" using i by (simp add: upt_conv_Cons)
  show ?case
  proof (cases "isNull (at_or_null vs i)")
    case True
    then have "enc_at vs sch i = []" by (simp add: enc_at_def)
    then show ?thesis using nb True rest by (simp add: up)
  next
    case False
    then have e: "enc_at vs sch i = enc_col dt (at_or_null vs i)" by (simp add: enc_at_def dt)
    have "read_col dt inp pos = Inr (coerce dt (at_or_null vs i), pos + length (enc_at vs sch i))"
      unfolding inp e using read_col_enc [OF False at_or_null_short [OF st] pos] by simp
    then show ?thesis using nb False rest by (simp add: up dt)
  qed
qed

section \<open>Properties\<close>

lemma deserialize_serialize:
  assumes "length sch \<le> length vs" "short_texts vs"
  shows "deserialize (serialize vs sch) sch = Inr (stored_row vs sch)"
proof -
  have "read_cols (serialize vs sch) 0 sch ((length sch + 7) div 8) =
      Inr (map (\<lambda>j. coerce (sch ! j) (at_or_null vs j)) [0..<length sch])"
    by (rule read_cols_enc [OF assms(2,1)]) (simp_all add: serialize_eq)
  moreover have "\<not> length (serialize vs sch) < (length sch + 7) div 8"
    by (simp add: serialize_eq null_bitmap_spec)
  ultimately show ?thesis by (simp add: deserialize_def stored_row_def)
qed

text \<open>C9: Storing a row and reading it back: for a schema of \<open>n\<close> columns and a row of at
  least \<open>n\<close> values (texts shorter than 2^32), \<open>deserialize\<close> of \<open>serialize\<close> succeeds and
  returns for every column exactly what its type keeps of the value: the value itself when it
  is NULL or of the declared type, an integer converted to \<open>double\<close> in a FLOAT column.\<close>

theorem tuple_round_trip:
  assumes "length sch \<le> length vs" "short_texts vs"
  shows "deserialize (serialize vs sch) sch = Inr (stored_row vs sch)"
  using assms by (rule deserialize_serialize)

theorem tuple_round_trip_witness:
  "deserialize (serialize [VInt 7, VNull, VText ''ab''] [DInt, DFloat, DText]) [DInt, DFloat, DText] =
     Inr [VInt 7, VNull, VText ''ab'']"
  using tuple_round_trip [of "[DInt, DFloat, DText]" "[VInt 7, VNull, VText ''ab'']"]
  by (simp add: short_texts_def stored_row_def at_or_null_def upt_rec)

text \<open>A row with fewer values than the schema has columns is not stored as written:
  a missing column is not marked in the null bitmap and takes no bytes, so that reading it
  back fails - here a one-column schema and the empty row.\<close>

lemma short_row_unreadable:
  "serialize [] [DInt] = [char_of (0::nat)] \<and>
   deserialize (serialize [] [DInt]) [DInt] = Inl ''tuple: truncated i64''"
  by (simp add: serialize_def null_bitmap_def set_null_bit_def at_or_null_def deserialize_def null_bit_def
      read_word_def read_fixed_def)

end
