(* ===== verification/Wal.thy ===== *)
theory Wal
  imports TableManager
begin

text \<open>
  The write-ahead log of \<open>src/src/txn/wal.cpp\<close>: a file of frames, each the length of a
  record followed by the record. The log is its file contents, the next log sequence number,
  the count of appends and how many bytes of the file have been forced to disk. Reading stops at the first frame the file does
  not hold completely. A record body shorter than its fields is read out of bounds by the
  code: \<open>None\<close> here.
\<close>

section \<open>Records\<close>

datatype log_type = LBegin | LInsert | LDelete | LUpdate | LCommit | LAbort | LOther nat

record log_record =
  lsn :: u64
  txnId :: int
  log_type :: log_type
  tableId :: int
  log_rid :: record_id
  beforeImage :: bytes
  afterImage :: bytes

fun type_code :: "log_type \<Rightarrow> nat" where
  "type_code LBegin = 0"
| "type_code LInsert = 1"
| "type_code LDelete = 2"
| "type_code LUpdate = 3"
| "type_code LCommit = 4"
| "type_code LAbort = 5"
| "type_code (LOther n) = n"

definition type_of_code :: "nat \<Rightarrow> log_type" where
  "type_of_code n =
     (if n = 0 then LBegin else if n = 1 then LInsert else if n = 2 then LDelete
      else if n = 3 then LUpdate else if n = 4 then LCommit else if n = 5 then LAbort
      else LOther n)"

definition putI32 :: "int \<Rightarrow> bytes" where
  "putI32 v = enc_word (word_of_int v :: u32)"

definition putStr :: "bytes \<Rightarrow> bytes" where
  "putStr s = enc_word (word_of_nat (length s) :: u32) @ s"

definition log_body :: "log_record \<Rightarrow> bytes" where
  "log_body r =
     enc_word (lsn r) @ putI32 (txnId r) @ [char_of (type_code (log_type r))] @ putI32 (tableId r) @
     putI32 (rpage (log_rid r)) @ putI32 (rslot (log_rid r)) @ putStr (beforeImage r) @ putStr (afterImage r)"

definition encode :: "log_record \<Rightarrow> bytes" where
  "encode r = (let out = log_body r in enc_word (word_of_nat (length out) :: u32) @ out)"

section \<open>Reading\<close>

text \<open>The cursor of the parser: each field takes bytes off the front of the body.\<close>

definition take_bytes :: "nat \<Rightarrow> bytes \<Rightarrow> (bytes \<times> bytes) option" where
  "take_bytes n bs = (if length bs < n then None else Some (take n bs, drop n bs))"

definition get_u64 :: "bytes \<Rightarrow> (u64 \<times> bytes) option" where
  "get_u64 bs = map_option (\<lambda>(v, rest). (dec_word v, rest)) (take_bytes 8 bs)"

definition get_i32 :: "bytes \<Rightarrow> (int \<times> bytes) option" where
  "get_i32 bs = map_option (\<lambda>(v, rest). (sint (dec_word v :: u32), rest)) (take_bytes 4 bs)"

definition get_type :: "bytes \<Rightarrow> (log_type \<times> bytes) option" where
  "get_type bs = map_option (\<lambda>(v, rest). (type_of_code (of_char (hd v)), rest)) (take_bytes 1 bs)"

text \<open>\<open>substr\<close> takes what is left when the length field says more.\<close>

definition get_str :: "bytes \<Rightarrow> (bytes \<times> bytes) option" where
  "get_str bs =
     map_option (\<lambda>(v, rest). let n = unat (dec_word v :: u32) in (take n rest, drop n rest))
       (take_bytes 4 bs)"

definition parse_body :: "bytes \<Rightarrow> log_record option" where
  "parse_body bs =
     obind (get_u64 bs) (\<lambda>(l, bs).
     obind (get_i32 bs) (\<lambda>(tx, bs).
     obind (get_type bs) (\<lambda>(ty, bs).
     obind (get_i32 bs) (\<lambda>(tid, bs).
     obind (get_i32 bs) (\<lambda>(pg, bs).
     obind (get_i32 bs) (\<lambda>(sl, bs).
     obind (get_str bs) (\<lambda>(before, bs).
     obind (get_str bs) (\<lambda>(after, bs).
       Some \<lparr>lsn = l, txnId = tx, log_type = ty, tableId = tid, log_rid = \<lparr>rpage = pg, rslot = sl\<rparr>,
             beforeImage = before, afterImage = after\<rparr>))))))))"

function read_frames :: "bytes \<Rightarrow> log_record list option" where
  "read_frames bs =
     (if length bs < 4 then Some []
      else let len = unat (dec_word (take 4 bs) :: u32); rest = drop 4 bs
           in if length rest < len then Some []
              else case parse_body (take len rest) of
                None \<Rightarrow> None
              | Some r \<Rightarrow> map_option (Cons r) (read_frames (drop len rest)))"
  by pat_completeness auto
termination by (relation "measure length") auto

declare read_frames.simps [simp del]

section \<open>The log\<close>

record wal =
  wal_file :: bytes
  nextLsn :: nat
  appendsSinceReset :: nat
  wal_synced :: nat

definition readAll :: "wal \<Rightarrow> log_record list option" where
  "readAll w = read_frames (wal_file w)"

definition next_lsn_after :: "log_record list \<Rightarrow> nat" where
  "next_lsn_after rs =
     foldl (\<lambda>next r. if unat (lsn r) \<ge> next then unat (lsn r) + 1 else next) 1 rs"

definition wal_open :: "bytes \<Rightarrow> bool \<Rightarrow> wal option" where
  "wal_open existing trunc =
     (let bytes = (if trunc then [] else existing)
      in map_option (\<lambda>rs. \<lparr>wal_file = bytes, nextLsn = next_lsn_after rs, appendsSinceReset = 0, wal_synced = 0\<rparr>)
           (read_frames bytes))"

definition wal_append :: "wal \<Rightarrow> log_record \<Rightarrow> wal \<times> nat" where
  "wal_append w r =
     (let r = r\<lparr>lsn := word_of_nat (nextLsn w)\<rparr>
      in (w\<lparr>wal_file := wal_file w @ encode r, nextLsn := nextLsn w + 1,
            appendsSinceReset := appendsSinceReset w + 1\<rparr>, nextLsn w))"

text \<open>\<open>append\<close> hands the bytes to the operating system; \<open>flush\<close> forces the file to disk.\<close>

definition wal_flush :: "wal \<Rightarrow> wal" where
  "wal_flush w = w\<lparr>wal_synced := length (wal_file w)\<rparr>"

definition wal_reset :: "wal \<Rightarrow> wal" where
  "wal_reset w = w\<lparr>wal_file := [], nextLsn := 1, appendsSinceReset := 0, wal_synced := 0\<rparr>"

definition committedTxns :: "log_record list \<Rightarrow> int set" where
  "committedTxns rs = txnId ` set (filter (\<lambda>r. log_type r = LCommit) rs)"

section \<open>Round trips\<close>

definition in_i32 :: "int \<Rightarrow> bool" where
  "in_i32 i \<longleftrightarrow> - (2 ^ 31) \<le> i \<and> i < 2 ^ 31"

text \<open>A record as the engine makes them: \<open>int\<close> fields, a type of the enumeration, and
  images that together with the fixed fields have a length below 2^32.\<close>

definition log_ok :: "log_record \<Rightarrow> bool" where
  "log_ok r \<longleftrightarrow> in_i32 (txnId r) \<and> in_i32 (tableId r) \<and> in_i32 (rpage (log_rid r)) \<and>
     in_i32 (rslot (log_rid r)) \<and> (\<forall>n. log_type r \<noteq> LOther n) \<and>
     length (beforeImage r) + length (afterImage r) + 33 < 2 ^ 32"

lemma sint_i32 [simp]: "in_i32 i \<Longrightarrow> sint (word_of_int i :: u32) = i"
  by (simp add: in_i32_def signed_of_int signed_take_bit_int_eq_self)

lemma length_putI32 [simp]: "length (putI32 v) = 4"
  by (simp add: putI32_def)

lemma take_bytes_append: "length a = n \<Longrightarrow> take_bytes n (a @ b) = Some (a, b)"
  by (simp add: take_bytes_def)

lemma get_u64_enc [enc_simps]: "get_u64 (enc_word w @ bs) = Some (w, bs)"
  by (simp add: get_u64_def take_bytes_append)

lemma get_i32_put [enc_simps]: "in_i32 v \<Longrightarrow> get_i32 (putI32 v @ bs) = Some (v, bs)"
  by (simp add: get_i32_def putI32_def take_bytes_append)

lemma get_type_put [enc_simps]:
  "(\<forall>n. t \<noteq> LOther n) \<Longrightarrow> get_type (char_of (type_code t) # bs) = Some (t, bs)"
  using take_bytes_append [of "[char_of (type_code t)]" 1 bs]
  by (cases t) (auto simp: get_type_def type_of_code_def)

lemma get_str_put [enc_simps]: "length s < 2 ^ 32 \<Longrightarrow> get_str (putStr s @ bs) = Some (s, bs)"
  by (simp add: get_str_def putStr_def take_bytes_append unsigned_of_nat take_bit_nat_eq_self)

lemma parse_body_log_body:
  assumes "log_ok r"
  shows "parse_body (log_body r) = Some r"
proof -
  have "length (beforeImage r) < 2 ^ 32" "length (afterImage r) < 2 ^ 32"
    using assms by (auto simp: log_ok_def)
  then show ?thesis
    using assms get_str_put [of "afterImage r" "[]"]
    by (simp add: parse_body_def log_body_def log_ok_def enc_simps)
qed

lemma length_log_body: "length (log_body r) = length (beforeImage r) + length (afterImage r) + 33"
  by (simp add: log_body_def putStr_def)

lemma length_encode: "length (encode r) = length (log_body r) + 4"
  by (simp add: encode_def Let_def)

lemma unat_u32: "n < 2 ^ 32 \<Longrightarrow> unat (word_of_nat n :: u32) = n"
  by (simp add: unsigned_of_nat take_bit_nat_eq_self)

lemma frame_length:
  "log_ok r \<Longrightarrow> unat (word_of_nat (length (log_body r)) :: u32) = length (log_body r)"
  by (rule unat_u32) (simp add: length_log_body log_ok_def)

lemma read_frames_encode:
  assumes "log_ok r"
  shows "read_frames (encode r @ bs) = map_option (Cons r) (read_frames bs)"
  by (subst read_frames.simps)
     (simp add: encode_def Let_def frame_length [OF assms] parse_body_log_body [OF assms] enc_simps)

text \<open>A frame cut short ends the log.\<close>

lemma read_frames_torn:
  assumes "log_ok r" "k < length (encode r)"
  shows "read_frames (take k (encode r)) = Some []"
proof (cases "k < 4")
  case True
  then have "length (take k (encode r)) < 4" by simp
  then show ?thesis by (subst read_frames.simps) (simp only: if_True)
next
  case False
  have "take 4 (take k (encode r)) = enc_word (word_of_nat (length (log_body r)) :: u32)"
    using False by (simp add: encode_def Let_def min_def)
  moreover have "length (drop 4 (take k (encode r))) < length (log_body r)"
    using False assms(2) by (simp add: length_encode)
  ultimately show ?thesis
    using False assms(2) by (subst read_frames.simps) (simp add: frame_length [OF assms(1)] enc_simps Let_def)
qed

lemma read_frames_all: "\<forall>r\<in>set rs. log_ok r \<Longrightarrow> read_frames (concat (map encode rs)) = Some rs"
proof (induction rs)
  case Nil
  then show ?case by (simp add: read_frames.simps)
qed (simp add: read_frames_encode)

text \<open>The number of whole frames in the first \<open>k\<close> bytes.\<close>

fun whole_frames :: "log_record list \<Rightarrow> nat \<Rightarrow> nat" where
  "whole_frames [] k = 0"
| "whole_frames (r # rs) k =
     (if k < length (encode r) then 0 else Suc (whole_frames rs (k - length (encode r))))"

lemma read_frames_prefix:
  "\<forall>r\<in>set rs. log_ok r \<Longrightarrow> read_frames (take k (concat (map encode rs))) = Some (take (whole_frames rs k) rs)"
proof (induction rs arbitrary: k)
  case Nil
  then show ?case by (simp add: read_frames.simps)
next
  case (Cons r rs)
  show ?case
  proof (cases "k < length (encode r)")
    case True
    then show ?thesis using Cons.prems read_frames_torn [of r k] by simp
  next
    case False
    then have "take k (concat (map encode (r # rs))) =
        encode r @ take (k - length (encode r)) (concat (map encode rs))"
      by simp
    then show ?thesis using Cons False by (simp add: read_frames_encode)
  qed
qed

lemma whole_frames_max:
  "length (concat (map encode (take (whole_frames rs k) rs))) \<le> k"
  "whole_frames rs k < length rs \<Longrightarrow> k < length (concat (map encode (take (Suc (whole_frames rs k)) rs)))"
proof (induction rs arbitrary: k)
  case (Cons r rs)
  {
    case 1
    show ?case using Cons.IH(1) [of "k - length (encode r)"] by auto
  next
    case 2
    then show ?case using Cons.IH(2) [of "k - length (encode r)"] by (auto simp: not_less)
  }
qed simp_all

section \<open>The log as a list of records\<close>

definition wal_inv :: "wal \<Rightarrow> log_record list \<Rightarrow> bool" where
  "wal_inv w rs \<longleftrightarrow> wal_file w = concat (map encode rs) \<and> (\<forall>r\<in>set rs. log_ok r) \<and>
     sorted_wrt (<) (map (unat \<circ> lsn) rs) \<and> (\<forall>r\<in>set rs. unat (lsn r) < nextLsn w) \<and> 0 < nextLsn w"

lemma log_ok_lsn [simp]: "log_ok (r\<lparr>lsn := x\<rparr>) = log_ok r"
  by (simp add: log_ok_def)

lemma wal_append_inv:
  assumes "wal_inv w rs" "log_ok r" "nextLsn w < 2 ^ 64" "wal_append w r = (w', l)"
  shows "wal_inv w' (rs @ [r\<lparr>lsn := word_of_nat l\<rparr>])" "l = nextLsn w"
proof -
  have l: "l = nextLsn w" and w': "wal_file w' = wal_file w @ encode (r\<lparr>lsn := word_of_nat l\<rparr>)"
    "nextLsn w' = nextLsn w + 1"
    using assms(4) by (auto simp: wal_append_def Let_def)
  show "l = nextLsn w" by (rule l)
  have "unat (word_of_nat l :: u64) = l"
    using assms(3) l by (simp add: unsigned_of_nat take_bit_nat_eq_self)
  then show "wal_inv w' (rs @ [r\<lparr>lsn := word_of_nat l\<rparr>])"
    using assms(1,2) w' l by (auto simp: wal_inv_def sorted_wrt_append)
qed

lemma wal_flush_simps [simp]:
  "wal_file (wal_flush w) = wal_file w" "nextLsn (wal_flush w) = nextLsn w"
  "wal_synced (wal_flush w) = length (wal_file w)" "wal_inv (wal_flush w) rs = wal_inv w rs"
  by (simp_all add: wal_flush_def wal_inv_def)

lemma readAll_inv: "wal_inv w rs \<Longrightarrow> readAll w = Some rs"
  by (simp add: readAll_def wal_inv_def read_frames_all)

lemma next_lsn_step: "next_lsn_after (rs @ [r]) =
    (if unat (lsn r) \<ge> next_lsn_after rs then unat (lsn r) + 1 else next_lsn_after rs)"
  by (simp add: next_lsn_after_def)

lemma next_lsn_bound: "(\<forall>r\<in>set rs. unat (lsn r) < next_lsn_after rs) \<and> 0 < next_lsn_after rs"
proof (induction rs rule: rev_induct)
  case Nil
  then show ?case by (simp add: next_lsn_after_def)
next
  case (snoc r rs)
  then show ?case by (auto simp: next_lsn_step)
qed

text \<open>Reopening a log, torn at any byte, resumes above every number it kept.\<close>

lemma wal_open_torn:
  assumes "wal_inv w rs"
  obtains w' where "wal_open (take k (wal_file w)) False = Some w'"
    "readAll w' = Some (take (whole_frames rs k) rs)" "nextLsn w' = next_lsn_after (take (whole_frames rs k) rs)"
proof -
  have "read_frames (take k (wal_file w)) = Some (take (whole_frames rs k) rs)"
    using assms read_frames_prefix by (simp add: wal_inv_def)
  then show ?thesis using that by (simp add: wal_open_def readAll_def)
qed

section \<open>Properties\<close>

text \<open>C7: A torn log is a prefix of the log: whatever number \<open>k\<close> of bytes of the file
  survives a crash, reading it never fails and returns exactly the records whose frames lie
  within those bytes - as many as fit, none made up - and a log reopened on it hands out
  numbers above all of theirs.\<close>

theorem torn_log_prefix:
  assumes "wal_inv w rs"
  shows "\<exists>w' n. wal_open (take k (wal_file w)) False = Some w' \<and> readAll w' = Some (take n rs) \<and>
    length (concat (map encode (take n rs))) \<le> k \<and>
    (n < length rs \<longrightarrow> k < length (concat (map encode (take (Suc n) rs)))) \<and>
    (\<forall>r\<in>set (take n rs). unat (lsn r) < nextLsn w')"
proof -
  obtain w' where w: "wal_open (take k (wal_file w)) False = Some w'"
    "readAll w' = Some (take (whole_frames rs k) rs)" "nextLsn w' = next_lsn_after (take (whole_frames rs k) rs)"
    by (rule wal_open_torn [OF assms])
  show ?thesis
    using w whole_frames_max next_lsn_bound by (intro exI [of _ w'] exI [of _ "whole_frames rs k"]) auto
qed

theorem torn_log_prefix_witness:
  "\<exists>w' n. wal_open (take 10 (wal_file (fst (wal_append \<lparr>wal_file = [], nextLsn = 1, appendsSinceReset = 0, wal_synced = 0\<rparr>
      \<lparr>lsn = 0, txnId = 1, log_type = LCommit, tableId = -1, log_rid = no_rid, beforeImage = [], afterImage = []\<rparr>))))
      False = Some w' \<and> readAll w' = Some (take n [\<lparr>lsn = 1, txnId = 1, log_type = LCommit, tableId = -1,
        log_rid = no_rid, beforeImage = [], afterImage = []\<rparr>])"
proof -
  define w where "w = \<lparr>wal_file = [], nextLsn = 1, appendsSinceReset = 0, wal_synced = 0\<rparr>"
  define r where "r = \<lparr>lsn = 0, txnId = 1, log_type = LCommit, tableId = -1, log_rid = no_rid,
      beforeImage = [], afterImage = []\<rparr>"
  have "wal_inv w []" by (simp add: wal_inv_def w_def)
  moreover have "log_ok r" by (simp add: log_ok_def r_def in_i32_def no_rid_def)
  ultimately have "wal_inv (fst (wal_append w r)) ([] @ [r\<lparr>lsn := word_of_nat 1\<rparr>])"
    by (intro wal_append_inv(1) [of w "[]" r _ 1]) (simp_all add: w_def wal_append_def Let_def)
  from torn_log_prefix [OF this, of 10] show ?thesis
    by (auto simp: w_def r_def)
qed

text \<open>Appending is atomic to readers and numbers grow: after \<open>append\<close> the log reads as
  before with the record, stamped with the returned number, at its end; the numbers of the
  log are strictly increasing.\<close>

lemma append_then_read:
  assumes "wal_inv w rs" "log_ok r" "nextLsn w < 2 ^ 64" "wal_append w r = (w', l)"
  shows "readAll w' = Some (rs @ [r\<lparr>lsn := word_of_nat l\<rparr>]) \<and>
    wal_inv w' (rs @ [r\<lparr>lsn := word_of_nat l\<rparr>]) \<and> (\<forall>q\<in>set rs. unat (lsn q) < l)"
  using wal_append_inv [OF assms] readAll_inv [of w'] assms(1) by (auto simp: wal_inv_def)

lemma append_then_read_witness:
  "readAll (fst (wal_append \<lparr>wal_file = [], nextLsn = 1, appendsSinceReset = 0, wal_synced = 0\<rparr>
      \<lparr>lsn = 0, txnId = 7, log_type = LBegin, tableId = -1, log_rid = no_rid, beforeImage = [], afterImage = []\<rparr>)) =
    Some [\<lparr>lsn = 1, txnId = 7, log_type = LBegin, tableId = -1, log_rid = no_rid, beforeImage = [], afterImage = []\<rparr>]"
  using append_then_read [of "\<lparr>wal_file = [], nextLsn = 1, appendsSinceReset = 0, wal_synced = 0\<rparr>" "[]"
      "\<lparr>lsn = 0, txnId = 7, log_type = LBegin, tableId = -1, log_rid = no_rid, beforeImage = [], afterImage = []\<rparr>" _ 1]
  by (simp add: wal_inv_def log_ok_def in_i32_def no_rid_def wal_append_def Let_def)

end
