(* ===== verification/Locks.thy ===== *)
theory Locks
  imports TableManager
begin

text \<open>
  Two-phase record locks, \<open>src/src/txn/lock_manager.cpp\<close>. An entry of the lock table is the
  map of its holders, an association list here; \<open>held\<close> lists what each transaction holds.
  \<open>lock\<close> waits up to five seconds for \<open>canGrant\<close>; the model is the evaluation the wait
  ends with, so a lock request is an atomic step that is granted when the entry allows it and
  times out otherwise. Concurrent transactions are interleavings of such steps.
\<close>

section \<open>Operations\<close>

datatype lock_mode = Shared | Exclusive

type_synonym holders = "(int \<times> lock_mode) list"

record locks =
  lock_table :: "record_id \<Rightarrow> holders option"
  heldByTxn :: "int \<Rightarrow> record_id list option"

definition no_locks :: locks where
  "no_locks = \<lparr>lock_table = Map.empty, heldByTxn = Map.empty\<rparr>"

definition canGrant :: "holders \<Rightarrow> int \<Rightarrow> lock_mode \<Rightarrow> bool" where
  "canGrant hs tx mode =
     list_all (\<lambda>(holder, held). holder = tx \<or> (mode \<noteq> Exclusive \<and> held \<noteq> Exclusive)) hs"

definition entry_of :: "locks \<Rightarrow> record_id \<Rightarrow> holders" where
  "entry_of st rid = (case lock_table st rid of None \<Rightarrow> [] | Some hs \<Rightarrow> hs)"

definition held_of :: "locks \<Rightarrow> int \<Rightarrow> record_id list" where
  "held_of st tx = (case heldByTxn st tx of None \<Rightarrow> [] | Some rids \<Rightarrow> rids)"

definition grant :: "locks \<Rightarrow> record_id \<Rightarrow> int \<Rightarrow> lock_mode \<Rightarrow> locks" where
  "grant st rid tx mode =
     (let hs = entry_of st rid
      in if map_of hs tx = None
         then st\<lparr>lock_table := (lock_table st)(rid \<mapsto> hs @ [(tx, mode)]),
                 heldByTxn := (heldByTxn st)(tx \<mapsto> held_of st tx @ [rid])\<rparr>
         else if mode = Exclusive
         then st\<lparr>lock_table := (lock_table st)(rid \<mapsto> map (\<lambda>(t, m). (t, if t = tx then Exclusive else m)) hs)\<rparr>
         else st)"

text \<open>\<open>table_[rid]\<close> makes an empty entry when there is none.\<close>

definition tryLock :: "locks \<Rightarrow> int \<Rightarrow> record_id \<Rightarrow> lock_mode \<Rightarrow> locks \<times> bool" where
  "tryLock st tx rid mode =
     (let st = st\<lparr>lock_table := (lock_table st)(rid \<mapsto> entry_of st rid)\<rparr>
      in if \<not> canGrant (entry_of st rid) tx mode then (st, False)
         else (grant st rid tx mode, True))"

definition lock :: "locks \<Rightarrow> int \<Rightarrow> record_id \<Rightarrow> lock_mode \<Rightarrow> locks \<times> bool" where
  "lock st tx rid mode =
     (let st = st\<lparr>lock_table := (lock_table st)(rid \<mapsto> entry_of st rid)\<rparr>;
          granted = canGrant (entry_of st rid) tx mode
      in if \<not> granted then (st, False) else (grant st rid tx mode, True))"

definition release :: "locks \<Rightarrow> int \<Rightarrow> record_id \<Rightarrow> locks" where
  "release st tx rid =
     (case lock_table st rid of
        None \<Rightarrow> st
      | Some hs \<Rightarrow>
          let hs = filter (\<lambda>(t, m). t \<noteq> tx) hs
          in st\<lparr>lock_table := (lock_table st)(rid := (if hs = [] then None else Some hs))\<rparr>)"

definition unlock :: "locks \<Rightarrow> int \<Rightarrow> record_id \<Rightarrow> locks" where
  "unlock st tx rid =
     (let st = release st tx rid
      in st\<lparr>heldByTxn := (heldByTxn st)(tx \<mapsto> filter (\<lambda>r. r \<noteq> rid) (held_of st tx))\<rparr>)"

definition unlockAll :: "locks \<Rightarrow> int \<Rightarrow> locks" where
  "unlockAll st tx =
     (case heldByTxn st tx of
        None \<Rightarrow> st
      | Some rids \<Rightarrow>
          let st = foldl (\<lambda>st rid. release st tx rid) st rids
          in st\<lparr>heldByTxn := (heldByTxn st)(tx := None)\<rparr>)"

inductive lock_step :: "locks \<Rightarrow> locks \<Rightarrow> bool" where
  step_lock: "lock_step st (fst (lock st tx rid mode))"
| step_tryLock: "lock_step st (fst (tryLock st tx rid mode))"
| step_unlock: "lock_step st (unlock st tx rid)"
| step_unlockAll: "lock_step st (unlockAll st tx)"

inductive_cases lock_stepE: "lock_step st st'"

section \<open>Invariant\<close>

lemma not_Exclusive [simp]: "m \<noteq> Exclusive \<longleftrightarrow> m = Shared"
  by (cases m) auto

lemma canGrant_iff:
  "distinct (map fst hs) \<Longrightarrow>
     canGrant hs tx mode \<longleftrightarrow> (\<forall>t m. t \<noteq> tx \<and> map_of hs t = Some m \<longrightarrow> mode = Shared \<and> m = Shared)"
  by (auto simp: canGrant_def list_all_iff)

definition compatible :: "holders \<Rightarrow> bool" where
  "compatible hs \<longleftrightarrow> distinct (map fst hs) \<and>
     (\<forall>x\<in>set hs. \<forall>y\<in>set hs. fst x \<noteq> fst y \<longrightarrow> snd x = Shared \<and> snd y = Shared)"

text \<open>What a transaction holds on a record.\<close>

definition holds :: "locks \<Rightarrow> int \<Rightarrow> record_id \<Rightarrow> lock_mode option" where
  "holds st tx rid = map_of (entry_of st rid) tx"

definition lock_inv :: "locks \<Rightarrow> bool" where
  "lock_inv st \<longleftrightarrow> (\<forall>rid. compatible (entry_of st rid)) \<and>
     (\<forall>tx rid. rid \<in> set (held_of st tx) \<longleftrightarrow> holds st tx rid \<noteq> None)"

lemma entry_of_touch [simp]:
  "entry_of (st\<lparr>lock_table := (lock_table st)(rid \<mapsto> entry_of st rid)\<rparr>) = entry_of st"
  "held_of (st\<lparr>lock_table := x\<rparr>) = held_of st"
  by (auto simp: entry_of_def held_of_def fun_eq_iff)

lemma lock_inv_touch:
  "lock_inv (st\<lparr>lock_table := (lock_table st)(rid \<mapsto> entry_of st rid)\<rparr>) = lock_inv st"
  by (simp add: lock_inv_def holds_def)

lemma compatible_snoc:
  assumes "compatible hs" "canGrant hs tx mode" "map_of hs tx = None"
  shows "compatible (hs @ [(tx, mode)])"
proof -
  have "tx \<notin> fst ` set hs" using assms(3) by (simp add: map_of_eq_None_iff)
  moreover have "mode = Shared \<and> m = Shared" if "(t, m) \<in> set hs" for t m
  proof -
    have "t \<noteq> tx" using that calculation by force
    then show ?thesis using assms(2) that by (cases mode; cases m) (auto simp: canGrant_def list_all_iff)
  qed
  ultimately show ?thesis using assms(1) by (auto simp: compatible_def)
qed

lemma compatible_upgrade:
  assumes "compatible hs" "canGrant hs tx Exclusive"
  shows "compatible (map (\<lambda>(t, m). (t, if t = tx then Exclusive else m)) hs)"
proof -
  have own: "t = tx" if "(t, m) \<in> set hs" for t m
    using assms(2) that by (auto simp: canGrant_def list_all_iff)
  have "map fst (map (\<lambda>(t, m). (t, if t = tx then Exclusive else m)) hs) = map fst hs"
    by (auto simp: map_eq_conv)
  moreover have "fst x = tx" if "x \<in> set (map (\<lambda>(t, m). (t, if t = tx then Exclusive else m)) hs)" for x
    using that own by auto
  ultimately show ?thesis using assms(1) unfolding compatible_def by metis
qed

lemma map_of_upgrade:
  "map_of (map (\<lambda>(t, m). (t, f t m)) hs) x = map_option (f x) (map_of hs x)"
  by (induction hs) auto

lemma grant_entry:
  "entry_of (grant st rid tx mode) =
     (entry_of st)(rid := (let hs = entry_of st rid in
        if map_of hs tx = None then hs @ [(tx, mode)]
        else if mode = Exclusive then map (\<lambda>(t, m). (t, if t = tx then Exclusive else m)) hs else hs))"
  by (auto simp: grant_def Let_def entry_of_def fun_eq_iff)

lemma grant_held:
  "held_of (grant st rid tx mode) =
     (held_of st)(tx := held_of st tx @ (if holds st tx rid = None then [rid] else []))"
  by (auto simp: grant_def Let_def held_of_def holds_def fun_eq_iff)

lemma grant_holds:
  "holds (grant st rid tx mode) t r =
     (if r = rid \<and> t = tx
      then (case holds st tx rid of None \<Rightarrow> Some mode
            | Some m \<Rightarrow> Some (if mode = Exclusive then Exclusive else m))
      else holds st t r)"
proof (cases "r = rid")
  case False
  then show ?thesis by (simp add: holds_def grant_entry)
next
  case True
  show ?thesis
  proof (cases "map_of (entry_of st rid) tx")
    case None
    then show ?thesis using True by (auto simp: holds_def grant_entry map_add_def split: option.split)
  next
    case (Some m)
    then show ?thesis
      using True by (auto simp: holds_def grant_entry map_of_upgrade option.map_ident split: option.split)
  qed
qed

lemma grant_inv:
  assumes "lock_inv st" "canGrant (entry_of st rid) tx mode"
  shows "lock_inv (grant st rid tx mode)"
proof -
  have c: "compatible (entry_of st r)" for r using assms(1) by (simp add: lock_inv_def)
  have "compatible (entry_of (grant st rid tx mode) r)" for r
    using c compatible_snoc [OF c assms(2)] compatible_upgrade [OF c] assms(2)
    by (auto simp: grant_entry Let_def)
  moreover have "r \<in> set (held_of (grant st rid tx mode) t) \<longleftrightarrow> holds (grant st rid tx mode) t r \<noteq> None" for t r
    using assms(1) by (auto simp: lock_inv_def grant_holds grant_held split: option.split)
  ultimately show ?thesis by (simp add: lock_inv_def)
qed

lemma release_entry:
  "entry_of (release st tx rid) = (entry_of st)(rid := filter (\<lambda>(t, m). t \<noteq> tx) (entry_of st rid))"
  by (auto simp: release_def entry_of_def Let_def fun_eq_iff split: option.split)

lemma release_held [simp]: "heldByTxn (release st tx rid) = heldByTxn st"
  by (simp add: release_def Let_def split: option.split)

lemma map_of_filter_key: "map_of (filter (\<lambda>(t, m). t \<noteq> tx) hs) x = (if x = tx then None else map_of hs x)"
  by (induction hs) auto

lemma compatible_filter: "compatible hs \<Longrightarrow> compatible (filter P hs)"
  by (auto simp: compatible_def distinct_map_filter)

lemma release_holds:
  "holds (release st tx rid) t r = (if t = tx \<and> r = rid then None else holds st t r)"
  by (auto simp: holds_def release_entry map_of_filter_key)

lemma release_all:
  "holds (foldl (\<lambda>st rid. release st tx rid) st rids) t r =
     (if t = tx \<and> r \<in> set rids then None else holds st t r)"
  "(\<forall>r. compatible (entry_of st r)) \<Longrightarrow>
     compatible (entry_of (foldl (\<lambda>st rid. release st tx rid) st rids) r)"
  "heldByTxn (foldl (\<lambda>st rid. release st tx rid) st rids) = heldByTxn st"
  by (induction rids arbitrary: st) (auto simp: release_holds release_entry compatible_filter)

lemma unlock_spec:
  assumes "lock_inv st"
  shows "lock_inv (unlock st tx rid)"
    "holds (unlock st tx rid) t r = (if t = tx \<and> r = rid then None else holds st t r)"
proof -
  have e: "entry_of (unlock st tx rid) = entry_of (release st tx rid)"
    by (simp add: unlock_def Let_def entry_of_def fun_eq_iff)
  then show h: "holds (unlock st tx rid) t r = (if t = tx \<and> r = rid then None else holds st t r)" for t r
    using release_holds by (simp add: holds_def)
  have hd: "held_of (unlock st tx rid) = (held_of st)(tx := filter (\<lambda>r. r \<noteq> rid) (held_of st tx))"
    by (auto simp: unlock_def Let_def held_of_def fun_eq_iff)
  have "compatible (entry_of (unlock st tx rid) r)" for r
    using assms by (simp add: e release_entry compatible_filter lock_inv_def)
  then show "lock_inv (unlock st tx rid)"
    using assms by (auto simp: lock_inv_def h hd)
qed

lemma unlockAll_spec:
  assumes "lock_inv st"
  shows "lock_inv (unlockAll st tx)"
    "holds (unlockAll st tx) t r = (if t = tx then None else holds st t r)"
proof -
  have "lock_inv (unlockAll st tx) \<and> (\<forall>t r. holds (unlockAll st tx) t r = (if t = tx then None else holds st t r))"
  proof (cases "heldByTxn st tx")
    case None
    then have "held_of st tx = []" by (simp add: held_of_def)
    then have "holds st tx r = None" for r
      using assms unfolding lock_inv_def by (metis list.set(1) empty_iff)
    then show ?thesis using None assms by (simp add: unlockAll_def)
  next
    case (Some rids)
    define st' where "st' = foldl (\<lambda>st rid. release st tx rid) st rids"
    have u: "unlockAll st tx = st'\<lparr>heldByTxn := (heldByTxn st')(tx := None)\<rparr>"
      using Some by (simp add: unlockAll_def st'_def Let_def)
    have "held_of st tx = rids" using Some by (simp add: held_of_def)
    then have rids: "set rids = {r. holds st tx r \<noteq> None}"
      using assms unfolding lock_inv_def by blast
    have h: "holds (unlockAll st tx) t r = (if t = tx then None else holds st t r)" for t r
      using release_all(1) [of tx st rids t r] rids
      by (auto simp: u holds_def entry_of_def st'_def)
    have hd: "held_of (unlockAll st tx) = (held_of st)(tx := [])"
      using release_all(3) [of tx st rids] by (auto simp: u held_of_def st'_def fun_eq_iff)
    have "compatible (entry_of (unlockAll st tx) r)" for r
      using release_all(2) [of st tx rids r] assms by (simp add: u entry_of_def lock_inv_def st'_def)
    then show ?thesis using assms h hd by (auto simp: lock_inv_def)
  qed
  then show "lock_inv (unlockAll st tx)"
    "holds (unlockAll st tx) t r = (if t = tx then None else holds st t r)" by auto
qed

lemma lock_eq_tryLock: "lock = tryLock"
  by (simp add: lock_def tryLock_def Let_def fun_eq_iff)

lemma tryLock_spec:
  assumes "lock_inv st" "tryLock st tx rid mode = (st', ok)"
  shows "lock_inv st'" "ok \<longleftrightarrow> canGrant (entry_of st rid) tx mode"
    "ok \<Longrightarrow> holds st' tx rid = Some (if mode = Exclusive \<or> holds st tx rid = Some Exclusive then Exclusive else Shared)"
    "(t, r) \<noteq> (tx, rid) \<or> \<not> ok \<Longrightarrow> holds st' t r = holds st t r"
proof -
  define s0 where "s0 = st\<lparr>lock_table := (lock_table st)(rid \<mapsto> entry_of st rid)\<rparr>"
  have s0: "lock_inv s0" "entry_of s0 = entry_of st" "holds s0 = holds st"
    using assms(1) by (simp_all add: s0_def lock_inv_touch holds_def fun_eq_iff)
  have r: "st' = (if canGrant (entry_of st rid) tx mode then grant s0 rid tx mode else s0)"
    "ok \<longleftrightarrow> canGrant (entry_of st rid) tx mode"
    using assms(2) s0(2) by (auto simp: tryLock_def Let_def s0_def split: if_splits)
  show "lock_inv st'" using grant_inv [OF s0(1), of rid tx mode] s0 r by simp
  show "ok \<longleftrightarrow> canGrant (entry_of st rid) tx mode" by (rule r)
  show "ok \<Longrightarrow> holds st' tx rid = Some (if mode = Exclusive \<or> holds st tx rid = Some Exclusive then Exclusive else Shared)"
  proof -
    assume ok
    then have "holds st' tx rid = (case holds st tx rid of None \<Rightarrow> Some mode
        | Some m \<Rightarrow> Some (if mode = Exclusive then Exclusive else m))"
      using r s0(3) by (simp add: grant_holds)
    then show "holds st' tx rid = Some (if mode = Exclusive \<or> holds st tx rid = Some Exclusive then Exclusive else Shared)"
      by (cases "holds st tx rid"; cases mode; cases "the (holds st tx rid)") auto
  qed
  show "(t, r) \<noteq> (tx, rid) \<or> \<not> ok \<Longrightarrow> holds st' t r = holds st t r"
    using r s0(3) by (auto simp: grant_holds)
qed

lemma lock_step_inv:
  assumes "lock_step st st'" "lock_inv st"
  shows "lock_inv st'"
proof -
  from assms(1) consider tx rid mode where "st' = fst (tryLock st tx rid mode)"
    | tx rid where "st' = unlock st tx rid" | tx where "st' = unlockAll st tx"
    by (auto elim!: lock_stepE simp: lock_eq_tryLock)
  then show ?thesis
  proof cases
    case (1 tx rid mode)
    then show ?thesis using tryLock_spec(1) [OF assms(2), of tx rid mode] by (metis prod.collapse)
  next
    case (2 tx rid)
    then show ?thesis using unlock_spec(1) [OF assms(2)] by simp
  next
    case (3 tx)
    then show ?thesis using unlockAll_spec(1) [OF assms(2)] by simp
  qed
qed

lemma no_locks_inv: "lock_inv no_locks"
  by (simp add: lock_inv_def no_locks_def entry_of_def held_of_def holds_def compatible_def)

section \<open>Properties\<close>

text \<open>C8: Mutual exclusion: on every interleaving of lock, try-lock, unlock and unlock-all
  requests of any transactions, starting without locks, two transactions never hold the same
  record unless both hold it shared.\<close>

theorem locks_exclude:
  assumes "lock_step\<^sup>*\<^sup>* no_locks st" "holds st a rid = Some m" "holds st b rid = Some n" "a \<noteq> b"
  shows "m = Shared \<and> n = Shared"
proof -
  from assms(1) have "lock_inv st"
  proof (induction rule: rtranclp_induct)
    case base
    show ?case by (rule no_locks_inv)
  qed (rule lock_step_inv)
  then have "compatible (entry_of st rid)" by (simp add: lock_inv_def)
  moreover have "(a, m) \<in> set (entry_of st rid)" "(b, n) \<in> set (entry_of st rid)"
    using assms(2,3) by (auto simp: holds_def dest: map_of_SomeD)
  ultimately show ?thesis using assms(4) unfolding compatible_def by (metis fst_conv snd_conv)
qed

theorem locks_exclude_witness:
  "let st = fst (lock (fst (lock no_locks 1 no_rid Shared)) 2 no_rid Shared)
   in holds st 1 no_rid = Some Shared \<and> holds st 2 no_rid = Some Shared"
proof -
  define st where "st = fst (lock (fst (lock no_locks 1 no_rid Shared)) 2 no_rid Shared)"
  have run: "lock_step\<^sup>*\<^sup>* no_locks st"
    unfolding st_def by (meson converse_rtranclp_into_rtranclp rtranclp.rtrancl_refl step_lock)
  have h: "holds st 1 no_rid = Some Shared" "holds st 2 no_rid = Some Shared"
    by (simp_all add: st_def lock_def no_locks_def canGrant_def grant_def entry_of_def holds_def Let_def)
  show ?thesis using locks_exclude [OF run h(1) h(2)] h by (simp add: st_def [symmetric])
qed

text \<open>What a request gets and \<open>unlockAll\<close> gives back: a request is granted exactly when
  no other transaction holds the record in a conflicting mode; granting gives the transaction
  the record in the stronger of the requested and the held mode and changes nothing else; and
  \<open>unlockAll\<close> releases everything the transaction holds and nothing else.\<close>

lemma lock_unlock_spec:
  assumes "lock_inv st" "lock st tx rid mode = (st', ok)"
  shows "(ok \<longleftrightarrow> (\<forall>t m. t \<noteq> tx \<and> holds st t rid = Some m \<longrightarrow> mode = Shared \<and> m = Shared)) \<and>
    (ok \<longrightarrow> holds st' tx rid = Some (if mode = Exclusive \<or> holds st tx rid = Some Exclusive then Exclusive else Shared)) \<and>
    (\<forall>t r. (t, r) \<noteq> (tx, rid) \<or> \<not> ok \<longrightarrow> holds st' t r = holds st t r) \<and>
    lock_inv (unlockAll st' tx) \<and>
    (\<forall>t r. holds (unlockAll st' tx) t r = (if t = tx then None else holds st t r))"
proof -
  have t: "tryLock st tx rid mode = (st', ok)" using assms(2) by (simp add: lock_eq_tryLock)
  note s = tryLock_spec [OF assms(1) t]
  have d: "distinct (map fst (entry_of st rid))" using assms(1) by (simp add: lock_inv_def compatible_def)
  have "canGrant (entry_of st rid) tx mode \<longleftrightarrow>
      (\<forall>t m. t \<noteq> tx \<and> holds st t rid = Some m \<longrightarrow> mode = Shared \<and> m = Shared)"
    using canGrant_iff [OF d] by (simp add: holds_def)
  moreover have "holds (unlockAll st' tx) t r = (if t = tx then None else holds st t r)" for t r
    using unlockAll_spec(2) [OF s(1)] s(4) [of t r] by auto
  ultimately show ?thesis using s unlockAll_spec(1) [OF s(1)] by blast
qed

lemma lock_unlock_spec_witness:
  "snd (lock no_locks 1 no_rid Exclusive)"
proof -
  from lock_unlock_spec [OF no_locks_inv, of 1 no_rid Exclusive "fst (lock no_locks 1 no_rid Exclusive)" "snd (lock no_locks 1 no_rid Exclusive)"]
  show ?thesis by (simp add: holds_def no_locks_def entry_of_def)
qed

end
