(* ===== verification/Txn.thy ===== *)
theory Txn
  imports Locks Wal Bags
begin

text \<open>
  Transactions, \<open>src/src/txn/transaction_manager.cpp\<close>. The manager keeps, for each
  active transaction, the undo closures its statements registered; a closure is a function on
  the storage it changes, whose type is the parameter \<open>'s\<close>. The log and the lock manager are
  optional, as the pointers of the constructor are. The second part proves what running the
  closures backwards gives back, for any store with the laws of \<open>record_store\<close>; theory
  \<open>RowChanges\<close> applies it to the closures the engine registers.
\<close>

section \<open>Operations\<close>

record 's txn_mgr =
  active :: "int \<Rightarrow> ('s \<Rightarrow> 's) list option"
  nextTxnId :: int
  tx_wal :: "wal option"
  tx_locks :: "locks option"

definition txn_open :: "wal option \<Rightarrow> locks option \<Rightarrow> 's txn_mgr" where
  "txn_open w lk = \<lparr>active = Map.empty, nextTxnId = 1, tx_wal = w, tx_locks = lk\<rparr>"

definition blank_record :: "log_record" where
  "blank_record = \<lparr>lsn = 0, txnId = 0, log_type = LBegin, tableId = -1, log_rid = no_rid,
     beforeImage = [], afterImage = []\<rparr>"

definition write_log :: "'s txn_mgr \<Rightarrow> log_record \<Rightarrow> 's txn_mgr" where
  "write_log m r = m\<lparr>tx_wal := map_option (\<lambda>w. fst (wal_append w r)) (tx_wal m)\<rparr>"

definition txn_begin :: "'s txn_mgr \<Rightarrow> 's txn_mgr \<times> int" where
  "txn_begin m =
     (let tx = nextTxnId m;
          m = m\<lparr>nextTxnId := tx + 1, active := (active m)(tx \<mapsto> case active m tx of None \<Rightarrow> [] | Some us \<Rightarrow> us)\<rparr>
      in (write_log m (blank_record\<lparr>txnId := tx, log_type := LBegin\<rparr>), tx))"

definition isActive :: "'s txn_mgr \<Rightarrow> int \<Rightarrow> bool" where
  "isActive m tx \<longleftrightarrow> active m tx \<noteq> None"

definition registerUndo :: "'s txn_mgr \<Rightarrow> int \<Rightarrow> ('s \<Rightarrow> 's) \<Rightarrow> 's txn_mgr" where
  "registerUndo m tx undo =
     (case active m tx of
        None \<Rightarrow> m
      | Some us \<Rightarrow> m\<lparr>active := (active m)(tx \<mapsto> us @ [undo])\<rparr>)"

definition lock_with :: "'s txn_mgr \<Rightarrow> int \<Rightarrow> record_id \<Rightarrow> lock_mode \<Rightarrow> 's txn_mgr \<times> bool" where
  "lock_with m tx rid mode =
     (case tx_locks m of
        None \<Rightarrow> (m, True)
      | Some lk \<Rightarrow> case lock lk tx rid mode of (lk', ok) \<Rightarrow> (m\<lparr>tx_locks := Some lk'\<rparr>, ok))"

definition lockShared :: "'s txn_mgr \<Rightarrow> int \<Rightarrow> record_id \<Rightarrow> 's txn_mgr \<times> bool" where
  "lockShared m tx rid = lock_with m tx rid Shared"

definition lockExclusive :: "'s txn_mgr \<Rightarrow> int \<Rightarrow> record_id \<Rightarrow> 's txn_mgr \<times> bool" where
  "lockExclusive m tx rid = lock_with m tx rid Exclusive"

definition logInsert :: "'s txn_mgr \<Rightarrow> int \<Rightarrow> int \<Rightarrow> record_id \<Rightarrow> bytes \<Rightarrow> 's txn_mgr" where
  "logInsert m tx tid rid after =
     write_log m (blank_record\<lparr>txnId := tx, log_type := LInsert, tableId := tid, log_rid := rid,
       afterImage := after\<rparr>)"

definition logDelete :: "'s txn_mgr \<Rightarrow> int \<Rightarrow> int \<Rightarrow> record_id \<Rightarrow> bytes \<Rightarrow> 's txn_mgr" where
  "logDelete m tx tid rid before =
     write_log m (blank_record\<lparr>txnId := tx, log_type := LDelete, tableId := tid, log_rid := rid,
       beforeImage := before\<rparr>)"

text \<open>
  The end of a transaction, step by step: its last record is appended, the log is forced to disk,
  the locks are released and the transaction is forgotten. \<open>states\<close> are the states the steps
  lead through; a crash may come in any of them.
\<close>

definition log_end :: "int \<Rightarrow> log_type \<Rightarrow> 's txn_mgr \<Rightarrow> 's txn_mgr" where
  "log_end tx ty m = write_log m (blank_record\<lparr>txnId := tx, log_type := ty\<rparr>)"

definition force_log :: "'s txn_mgr \<Rightarrow> 's txn_mgr" where
  "force_log m = m\<lparr>tx_wal := map_option wal_flush (tx_wal m)\<rparr>"

definition release_locks :: "int \<Rightarrow> 's txn_mgr \<Rightarrow> 's txn_mgr" where
  "release_locks tx m = m\<lparr>tx_locks := map_option (\<lambda>lk. unlockAll lk tx) (tx_locks m)\<rparr>"

definition forget_txn :: "int \<Rightarrow> 's txn_mgr \<Rightarrow> 's txn_mgr" where
  "forget_txn tx m = m\<lparr>active := (active m)(tx := None)\<rparr>"

definition finish_steps :: "int \<Rightarrow> log_type \<Rightarrow> ('s txn_mgr \<Rightarrow> 's txn_mgr) list" where
  "finish_steps tx ty = [log_end tx ty, force_log, release_locks tx, forget_txn tx]"

fun states :: "('a \<Rightarrow> 'a) list \<Rightarrow> 'a \<Rightarrow> 'a list" where
  "states [] m = [m]"
| "states (f # fs) m = m # states fs (f m)"

definition commit_states :: "'s txn_mgr \<Rightarrow> int \<Rightarrow> 's txn_mgr list" where
  "commit_states m tx = (if active m tx = None then [m] else states (finish_steps tx LCommit) m)"

definition commit :: "'s txn_mgr \<Rightarrow> int \<Rightarrow> 's txn_mgr" where
  "commit m tx = last (commit_states m tx)"

text \<open>The closures are moved out of the transaction, which stays active while they run.\<close>

definition rollback_states :: "'s txn_mgr \<Rightarrow> int \<Rightarrow> 's txn_mgr list" where
  "rollback_states m tx =
     (if active m tx = None then [m]
      else m # states (finish_steps tx LAbort) (m\<lparr>active := (active m)(tx \<mapsto> [])\<rparr>))"

definition rollback :: "'s txn_mgr \<Rightarrow> 's \<Rightarrow> int \<Rightarrow> 's txn_mgr \<times> 's" where
  "rollback m s tx =
     (case active m tx of
        None \<Rightarrow> (m, s)
      | Some undo \<Rightarrow> (last (rollback_states m tx), foldl (\<lambda>s u. u s) s (rev undo)))"

section \<open>The life of a transaction\<close>

inductive txn_step :: "'s txn_mgr \<Rightarrow> 's txn_mgr \<Rightarrow> bool" where
  txn_begin: "txn_step m (fst (txn_begin m))"
| txn_undo: "txn_step m (registerUndo m tx u)"
| txn_shared: "txn_step m (fst (lockShared m tx rid))"
| txn_exclusive: "txn_step m (fst (lockExclusive m tx rid))"
| txn_insert: "in_i32 tx \<Longrightarrow> in_i32 tid \<Longrightarrow> in_i32 (rpage rid) \<Longrightarrow> in_i32 (rslot rid) \<Longrightarrow>
    length img + 33 < 2 ^ 32 \<Longrightarrow> txn_step m (logInsert m tx tid rid img)"
| txn_delete: "in_i32 tx \<Longrightarrow> in_i32 tid \<Longrightarrow> in_i32 (rpage rid) \<Longrightarrow> in_i32 (rslot rid) \<Longrightarrow>
    length img + 33 < 2 ^ 32 \<Longrightarrow> txn_step m (logDelete m tx tid rid img)"
| txn_commit: "txn_step m (commit m tx)"
| txn_rollback: "txn_step m (fst (rollback m s tx))"


text \<open>Everything but the log, in the manager's projections.\<close>

lemma write_log_simps [simp]:
  "active (write_log m r) = active m" "nextTxnId (write_log m r) = nextTxnId m"
  "tx_locks (write_log m r) = tx_locks m"
  "tx_wal (write_log m r) = map_option (\<lambda>w. fst (wal_append w r)) (tx_wal m)"
  by (simp_all add: write_log_def)

lemma lock_with_simps [simp]:
  "active (fst (lock_with m tx rid mode)) = active m" "nextTxnId (fst (lock_with m tx rid mode)) = nextTxnId m"
  "tx_wal (fst (lock_with m tx rid mode)) = tx_wal m"
  "tx_locks (fst (lock_with m tx rid mode)) = map_option (\<lambda>lk. fst (lock lk tx rid mode)) (tx_locks m)"
  by (simp_all add: lock_with_def split: option.split prod.split)

definition finish :: "'s txn_mgr \<Rightarrow> int \<Rightarrow> log_type \<Rightarrow> 's txn_mgr" where
  "finish m tx ty = last (states (finish_steps tx ty) m)"

lemma finish_simps [simp]:
  "active (finish m tx ty) = (active m)(tx := None)" "nextTxnId (finish m tx ty) = nextTxnId m"
  "tx_wal (finish m tx ty) =
     map_option (\<lambda>w. wal_flush (fst (wal_append w (blank_record\<lparr>txnId := tx, log_type := ty\<rparr>)))) (tx_wal m)"
  "tx_locks (finish m tx ty) = map_option (\<lambda>lk. unlockAll lk tx) (tx_locks m)"
  by (simp_all add: finish_def finish_steps_def log_end_def force_log_def release_locks_def forget_txn_def option.map_comp o_def)

lemma commit_manager: "commit m tx = (if active m tx = None then m else finish m tx LCommit)"
  by (simp add: commit_def commit_states_def finish_def)

lemma states_nonempty [simp]: "states fs m \<noteq> []"
  by (cases fs) simp_all

lemma rollback_runs: "rollback m s tx =
    (case active m tx of
       None \<Rightarrow> (m, s)
     | Some us \<Rightarrow> (finish (m\<lparr>active := (active m)(tx \<mapsto> [])\<rparr>) tx LAbort, foldl (\<lambda>s u. u s) s (rev us)))"
  by (simp add: rollback_def rollback_states_def finish_def split: option.split)

lemma rollback_manager: "fst (rollback m s tx) =
    (case active m tx of None \<Rightarrow> m | Some us \<Rightarrow> finish (m\<lparr>active := (active m)(tx \<mapsto> [])\<rparr>) tx LAbort)"
  by (simp add: rollback_runs split: option.split)

text \<open>The records a transaction writes fit the format while the counters are in range.\<close>

definition counters_ok :: "'s txn_mgr \<Rightarrow> bool" where
  "counters_ok m \<longleftrightarrow> nextTxnId m \<le> 2 ^ 31 \<and> (\<forall>w. tx_wal m = Some w \<longrightarrow> nextLsn w \<le> 2 ^ 64)"

definition log_known :: "'s txn_mgr \<Rightarrow> log_record list \<Rightarrow> bool" where
  "log_known m rs \<longleftrightarrow> (\<exists>w. tx_wal m = Some w \<and> wal_inv w rs) \<and>
     (\<forall>c\<in>committedTxns rs. 0 < c \<and> c < nextTxnId m \<and> active m c = None)"

definition txn_inv :: "'s txn_mgr \<Rightarrow> bool" where
  "txn_inv m \<longleftrightarrow> (counters_ok m \<longrightarrow> (\<exists>rs. log_known m rs)) \<and> 0 < nextTxnId m \<and>
     (\<forall>tx. active m tx \<noteq> None \<longrightarrow> 0 < tx \<and> tx < nextTxnId m) \<and>
     (\<forall>lk. tx_locks m = Some lk \<longrightarrow> lock_inv lk)"

lemma log_ok_blank [simp]:
  "log_ok (blank_record\<lparr>txnId := tx, log_type := LBegin\<rparr>) = in_i32 tx"
  "log_ok (blank_record\<lparr>txnId := tx, log_type := LCommit\<rparr>) = in_i32 tx"
  "log_ok (blank_record\<lparr>txnId := tx, log_type := LAbort\<rparr>) = in_i32 tx"
  by (auto simp: log_ok_def blank_record_def in_i32_def no_rid_def)

lemma log_ok_change [simp]:
  "log_ok (blank_record\<lparr>txnId := tx, log_type := LInsert, tableId := tid, log_rid := rid, afterImage := img\<rparr>) \<longleftrightarrow>
     in_i32 tx \<and> in_i32 tid \<and> in_i32 (rpage rid) \<and> in_i32 (rslot rid) \<and> length img + 33 < 2 ^ 32"
  "log_ok (blank_record\<lparr>txnId := tx, log_type := LDelete, tableId := tid, log_rid := rid, beforeImage := img\<rparr>) \<longleftrightarrow>
     in_i32 tx \<and> in_i32 tid \<and> in_i32 (rpage rid) \<and> in_i32 (rslot rid) \<and> length img + 33 < 2 ^ 32"
  by (auto simp: log_ok_def blank_record_def)

text \<open>Appending a record moves the log counter by one, so that it is in range before when
  it is after, and adds to the committed transactions that of a \<open>Commit\<close> record.\<close>

lemma committed_snoc [simp]:
  "committedTxns (rs @ [r]) =
     (if log_type r = LCommit then insert (txnId r) (committedTxns rs) else committedTxns rs)"
  by (simp add: committedTxns_def)

lemma write_log_known:
  assumes "log_known m rs" "log_ok r" "counters_ok (write_log m r)" "log_type r \<noteq> LCommit"
  shows "\<exists>l. log_known (write_log m r) (rs @ [r\<lparr>lsn := l\<rparr>])"
proof -
  obtain w where w: "tx_wal m = Some w" "wal_inv w rs"
    and c: "\<forall>c\<in>committedTxns rs. 0 < c \<and> c < nextTxnId m \<and> active m c = None"
    using assms(1) by (auto simp: log_known_def)
  obtain w' l where a: "wal_append w r = (w', l)" by (metis surj_pair)
  have "nextLsn w' = nextLsn w + 1" using a by (auto simp: wal_append_def Let_def)
  then have "nextLsn w < 2 ^ 64" using assms(3) w a by (simp add: counters_ok_def)
  from wal_append_inv(1) [OF w(2) assms(2) this a] show ?thesis
    using w a c assms(4) by (intro exI [of _ "word_of_nat l"]) (simp add: log_known_def)
qed

lemma finish_known:
  assumes "log_known m rs" "in_i32 tx" "counters_ok (finish m tx ty)" "ty = LCommit \<or> ty = LAbort"
    and "0 < tx" "tx < nextTxnId m"
  shows "\<exists>l. log_known (finish m tx ty) (rs @ [blank_record\<lparr>txnId := tx, log_type := ty, lsn := l\<rparr>])"
proof -
  obtain w where w: "tx_wal m = Some w" "wal_inv w rs"
    and c: "\<forall>c\<in>committedTxns rs. 0 < c \<and> c < nextTxnId m \<and> active m c = None"
    using assms(1) by (auto simp: log_known_def)
  obtain w' l where a: "wal_append w (blank_record\<lparr>txnId := tx, log_type := ty\<rparr>) = (w', l)" by (metis surj_pair)
  have ok: "log_ok (blank_record\<lparr>txnId := tx, log_type := ty\<rparr>)" using assms(2,4) by auto
  have "nextLsn w' = nextLsn w + 1" using a by (auto simp: wal_append_def Let_def)
  then have "nextLsn w < 2 ^ 64" using assms(3) w a by (simp add: counters_ok_def)
  from wal_append_inv(1) [OF w(2) ok this a] show ?thesis
    using w a c assms(4-) by (intro exI [of _ "word_of_nat l"]) (auto simp: log_known_def)
qed

lemma counters_back:
  "counters_ok (write_log m r) \<Longrightarrow> counters_ok m" "counters_ok (finish m tx ty) \<Longrightarrow> counters_ok m"
  by (auto simp: counters_ok_def wal_append_def Let_def)

lemma write_log_inv:
  assumes "txn_inv m" "log_ok r" "log_type r \<noteq> LCommit"
  shows "txn_inv (write_log m r)"
  using assms write_log_known [of m _ r] counters_back(1) [of m r] unfolding txn_inv_def by fastforce

lemma finish_inv:
  assumes "txn_inv m" "active m tx \<noteq> None" "ty = LCommit \<or> ty = LAbort"
  shows "txn_inv (finish m tx ty)"
proof -
  have tx: "0 < tx" "tx < nextTxnId m" using assms(1,2) by (auto simp: txn_inv_def)
  have "\<exists>rs. log_known (finish m tx ty) rs" if c: "counters_ok (finish m tx ty)"
  proof -
    have "in_i32 tx" using c tx by (simp add: counters_ok_def in_i32_def)
    moreover obtain rs where "log_known m rs"
      using assms(1) counters_back(2) [OF c] by (auto simp: txn_inv_def)
    ultimately show ?thesis using finish_known [OF _ _ c assms(3) tx] by blast
  qed
  then show ?thesis using assms(1) unlockAll_spec(1) by (auto simp: txn_inv_def)
qed

lemma txn_begin_inv:
  assumes "txn_inv m"
  shows "txn_inv (fst (txn_begin m))"
proof -
  define tx where "tx = nextTxnId m"
  have new: "active m tx = None" using assms by (auto simp: txn_inv_def tx_def)
  define m1 where "m1 = m\<lparr>nextTxnId := tx + 1, active := (active m)(tx \<mapsto> [])\<rparr>"
  have b: "fst (txn_begin m) = write_log m1 (blank_record\<lparr>txnId := tx, log_type := LBegin\<rparr>)"
    using new by (simp add: txn_begin_def m1_def tx_def Let_def)
  have c: "counters_ok m1 \<Longrightarrow> counters_ok m" by (auto simp: counters_ok_def m1_def tx_def)
  have k: "log_known m rs \<Longrightarrow> log_known m1 rs" for rs
    by (auto simp: log_known_def m1_def tx_def)
  have "\<exists>rs. log_known (fst (txn_begin m)) rs" if g: "counters_ok (fst (txn_begin m))"
  proof -
    have g1: "counters_ok m1" using counters_back(1) g b by metis
    then obtain rs where "log_known m1 rs" using assms c k by (auto simp: txn_inv_def)
    moreover have "in_i32 tx"
      using g1 assms by (simp add: counters_ok_def m1_def in_i32_def txn_inv_def tx_def)
    ultimately show ?thesis
      using write_log_known [of m1 rs "blank_record\<lparr>txnId := tx, log_type := LBegin\<rparr>"] g b by force
  qed
  then show ?thesis using assms unfolding txn_inv_def by (auto simp: b m1_def tx_def)
qed


lemma registerUndo_simps [simp]:
  "nextTxnId (registerUndo m tx u) = nextTxnId m" "tx_wal (registerUndo m tx u) = tx_wal m"
  "tx_locks (registerUndo m tx u) = tx_locks m"
  "active (registerUndo m tx u) = (active m)(tx := map_option (\<lambda>us. us @ [u]) (active m tx))"
  by (auto simp: registerUndo_def fun_eq_iff split: option.split)

lemma step_lock_inv: "lock_inv lk \<Longrightarrow> lock_inv (fst (lock lk tx rid mode))"
  by (rule lock_step_inv [OF step_lock])

lemma txn_step_inv:
  assumes "txn_step m m'" "txn_inv m"
  shows "txn_inv m'"
  using assms
proof cases
  case txn_begin
  then show ?thesis using txn_begin_inv [OF assms(2)] by simp
next
  case (txn_undo tx u)
  then show ?thesis using assms(2) by (auto simp: txn_inv_def counters_ok_def log_known_def)
next
  case (txn_shared tx rid)
  then show ?thesis using assms(2) step_lock_inv
    by (auto simp: txn_inv_def counters_ok_def log_known_def lockShared_def)
next
  case (txn_exclusive tx rid)
  then show ?thesis using assms(2) step_lock_inv
    by (auto simp: txn_inv_def counters_ok_def log_known_def lockExclusive_def)
next
  case (txn_insert tx tid rid img)
  then show ?thesis using write_log_inv [OF assms(2)] by (simp add: logInsert_def)
next
  case (txn_delete tx tid rid img)
  then show ?thesis using write_log_inv [OF assms(2)] by (simp add: logDelete_def)
next
  case (txn_commit tx)
  then show ?thesis using finish_inv [OF assms(2), of tx LCommit] assms(2) by (auto simp: commit_manager)
next
  case (txn_rollback s tx)
  show ?thesis
  proof (cases "active m tx")
    case None
    then show ?thesis using assms(2) txn_rollback by (simp add: rollback_manager)
  next
    case (Some us)
    define m1 where "m1 = m\<lparr>active := (active m)(tx \<mapsto> [])\<rparr>"
    have "txn_inv m1"
      using assms(2) Some by (auto simp: txn_inv_def counters_ok_def log_known_def m1_def)
    then show ?thesis
      using finish_inv [of m1 tx LAbort] txn_rollback Some by (simp add: rollback_manager m1_def)
  qed
qed

lemma txn_step_locks:
  assumes "txn_step m m'" shows "tx_locks m' = None \<longleftrightarrow> tx_locks m = None"
  using assms
proof cases
  case txn_begin
  then show ?thesis by (simp add: txn_begin_def Let_def)
qed (auto simp: lockShared_def lockExclusive_def logInsert_def logDelete_def commit_manager rollback_manager
       split: option.split)

lemma txn_run_locks: "txn_step\<^sup>*\<^sup>* m m' \<Longrightarrow> tx_locks m' = None \<longleftrightarrow> tx_locks m = None"
  by (induction rule: rtranclp_induct) (simp_all add: txn_step_locks)

text \<open>The two last records differ in their type byte.\<close>

lemma blank_not_commit:
  "encode (blank_record\<lparr>txnId := tx, log_type := LAbort, lsn := l\<rparr>) \<noteq>
   encode (blank_record\<lparr>txnId := tx, log_type := LCommit, lsn := l\<rparr>)"
  by (simp add: encode_def log_body_def Let_def)

lemma txn_open_inv:
  "wal_inv w [] \<Longrightarrow> (\<forall>lk. lko = Some lk \<longrightarrow> lock_inv lk) \<Longrightarrow> txn_inv (txn_open (Some w) lko)"
  by (auto simp: txn_inv_def txn_open_def log_known_def committedTxns_def intro!: exI [of _ "[]"])

lemma txn_run_inv: "txn_step\<^sup>*\<^sup>* m m' \<Longrightarrow> txn_inv m \<Longrightarrow> txn_inv m'"
  by (induction rule: rtranclp_induct) (auto intro: txn_step_inv)

section \<open>What a rollback gives back\<close>

text \<open>What a statement does to a row inside a transaction, with the closure the executor
  registers for it (without the index entries).\<close>

datatype row_op =
    RInsert int bytes
  | RDelete int record_id bytes
  | RUpdate int record_id bytes bytes

fun op_target :: "row_op \<Rightarrow> (int \<times> record_id \<times> bytes) option" where
  "op_target (RInsert t b) = None"
| "op_target (RDelete t r old) = Some (t, r, old)"
| "op_target (RUpdate t r old new) = Some (t, r, old)"

fun op_fits :: "row_op \<Rightarrow> bool" where
  "op_fits (RInsert t b) = storable b"
| "op_fits (RDelete t r old) = storable old"
| "op_fits (RUpdate t r old new) = (storable old \<and> storable new)"

definition targets :: "row_op list \<Rightarrow> (int \<times> record_id) list" where
  "targets ops = map (\<lambda>(t, r, old). (t, r)) (List.map_filter op_target ops)"

lemma targets_Cons:
  "targets (op # ops) =
     (case op_target op of None \<Rightarrow> targets ops | Some (t, r, old) \<Rightarrow> (t, r) # targets ops)"
  by (auto simp: targets_def map_filter_def split: option.split)

lemma target_op:
  "(t, r) \<in> set (targets ops) \<longleftrightarrow> (\<exists>op old. op \<in> set ops \<and> op_target op = Some (t, r, old))"
  by (induction ops) (auto simp: targets_Cons targets_def map_filter_simps split: option.splits)

context record_store
begin

fun do_op :: "'s \<Rightarrow> row_op \<Rightarrow> 's \<times> ('s \<Rightarrow> 's)" where
  "do_op s (RInsert t b) = (case put s t b of (s1, r) \<Rightarrow> (s1, \<lambda>s. fst (del s r)))"
| "do_op s (RDelete t r old) = (fst (del s r), \<lambda>s. fst (put s t old))"
| "do_op s (RUpdate t r old new) =
     (case upd s t r new of (s1, nr) \<Rightarrow> (s1, \<lambda>s. fst (put (fst (del s nr)) t old)))"

fun run_ops :: "'s \<Rightarrow> row_op list \<Rightarrow> 's \<times> ('s \<Rightarrow> 's) list" where
  "run_ops s [] = (s, [])"
| "run_ops s (op # ops) =
     (case do_op s op of (s1, u) \<Rightarrow> case run_ops s1 ops of (s2, us) \<Rightarrow> (s2, u # us))"

definition undo_all :: "'s \<Rightarrow> ('s \<Rightarrow> 's) list \<Rightarrow> 's" where
  "undo_all s us = foldl (\<lambda>s u. u s) s (rev us)"

text \<open>Each row the run deletes or updates is one it found, taken at most once.\<close>

definition ops_ok :: "'s \<Rightarrow> row_op list \<Rightarrow> bool" where
  "ops_ok s ops \<longleftrightarrow> distinct (targets ops) \<and> (\<forall>op\<in>set ops. op_fits op) \<and>
     (\<forall>op\<in>set ops. \<forall>t r old. op_target op = Some (t, r, old) \<longrightarrow> rows s t r = Some old)"

definition bags :: "'s \<Rightarrow> int \<Rightarrow> bytes multiset" where
  "bags s t = map_bag (rows s t)"

lemma undo_all_Cons [simp]: "undo_all s (u # us) = u (undo_all s us)" "undo_all s [] = s"
  by (simp_all add: undo_all_def)

lemma bags_put:
  assumes "inv s" "storable b" "put s t b = (s', r)"
  shows "bags s' = (bags s)(t := add_mset b (bags s t))" "rows s t r = None"
proof -
  show none: "rows s t r = None" using put_law [OF assms] unused_rows [OF assms(1)] by blast
  show "bags s' = (bags s)(t := add_mset b (bags s t))"
    using put_law [OF assms] map_bag_add [OF rows_finite [OF assms(1)] none] by (auto simp: bags_def)
qed

lemma bags_del:
  assumes "inv s" "rows s t r = Some b" "del s r = (s', ok)"
  shows "bags s = (bags s')(t := add_mset b (bags s' t))" "inv s'"
    "rows s' = (rows s)(t := (rows s t)(r := None))" "used s' = used s"
proof -
  have d: "inv s'" "\<And>a. rows s' a = (rows s a)(r := None)" "used s' = used s"
    using del_law [OF assms(1) rows_known [OF assms(1), of t r] assms(3)] assms(2) by auto
  show "inv s'" "used s' = used s" by fact+
  have "rows s' a = rows s a" if "a \<noteq> t" for a
  proof -
    have "rows s a r = None" using rows_one_table [OF assms(1), of t r a] assms(2) that by (cases "rows s a r") auto
    then show ?thesis using d(2) [of a] by (simp add: fun_upd_idem)
  qed
  then show r: "rows s' = (rows s)(t := (rows s t)(r := None))" using d(2) by (auto simp: fun_eq_iff)
  show "bags s = (bags s')(t := add_mset b (bags s' t))"
    using map_bag_del [OF rows_finite [OF assms(1)] assms(2)] by (auto simp: bags_def r fun_eq_iff)
qed

text \<open>The row a run leaves alone is where it was; every table has its rows back.\<close>

lemma undo_run:
  assumes "inv s" "ops_ok s ops" "run_ops s ops = (s2, us)"
  shows "inv (undo_all s2 us) \<and> bags (undo_all s2 us) = bags s \<and>
    (\<forall>t r b. rows s t r = Some b \<and> (t, r) \<notin> set (targets ops) \<longrightarrow> rows (undo_all s2 us) t r = Some b)"
  using assms
proof (induction ops arbitrary: s us)
  case Nil
  then show ?case by simp
next
  case (Cons op ops)
  obtain s1 u where op: "do_op s op = (s1, u)" by (metis surj_pair)
  obtain vs where run: "run_ops s1 ops = (s2, vs)" and us: "us = u # vs"
    using Cons.prems(3) op by (auto split: prod.splits)
  define s3 where "s3 = undo_all s2 vs"
  have step: "undo_all s2 us = u s3" by (simp add: us s3_def)
  have tl: "set (targets ops) \<subseteq> set (targets (op # ops))" "distinct (targets ops)"
    using Cons.prems(2) by (auto simp: ops_ok_def targets_Cons split: option.splits)
  have live: "rows s t r \<noteq> None" if mem: "(t, r) \<in> set (targets (op # ops))" for t r
  proof -
    obtain op' old where "op' \<in> set (op # ops)" "op_target op' = Some (t, r, old)"
      using mem target_op by blast
    then show ?thesis using Cons.prems(2) unfolding ops_ok_def by blast
  qed
  have rest: "rows s t r = Some old" if "op' \<in> set ops" "op_target op' = Some (t, r, old)" for op' t r old
    using Cons.prems(2) that by (auto simp: ops_ok_def)
  have in_rest: "(t, r) \<in> set (targets ops)" if "op' \<in> set ops" "op_target op' = Some (t, r, old)" for op' t r old
    using that target_op by blast
  have rest_undone: "inv s3 \<and> bags s3 = bags s1 \<and>
      (\<forall>t r b. rows s1 t r = Some b \<and> (t, r) \<notin> set (targets ops) \<longrightarrow> rows s3 t r = Some b)"
    if "inv s1" "\<And>t r old. (t, r) \<in> set (targets ops) \<Longrightarrow> rows s t r = Some old \<Longrightarrow> rows s1 t r = Some old"
  proof -
    have "ops_ok s1 ops"
      using Cons.prems(2) tl(2) that(2) rest in_rest unfolding ops_ok_def by (meson list.set_intros(2))
    then show ?thesis using Cons.IH [OF that(1) _ run] by (simp add: s3_def)
  qed
  show ?case
  proof (cases op)
    case (RInsert t b)
    obtain r where p: "put s t b = (s1, r)" and u: "u = (\<lambda>s. fst (del s r))"
      using op RInsert by (auto split: prod.splits)
    have b: "storable b" using Cons.prems(2) RInsert by (simp add: ops_ok_def)
    note law = put_law [OF Cons.prems(1) b p]
    note bag = bags_put [OF Cons.prems(1) b p]
    have nr: "(a, r) \<notin> set (targets (op # ops))" for a
      using live [of a r] law unused_rows [OF Cons.prems(1), of r a] by metis
    have old: "rows s1 a q = Some c" if "rows s a q = Some c" for a q c
      using that law unused_rows [OF Cons.prems(1), of r a] by auto
    have s3: "inv s3" "bags s3 = bags s1"
      "\<And>a q c. rows s1 a q = Some c \<Longrightarrow> (a, q) \<notin> set (targets ops) \<Longrightarrow> rows s3 a q = Some c"
      using rest_undone law old by auto
    have "rows s1 t r = Some b" "(t, r) \<notin> set (targets ops)" using law nr tl(1) by auto
    then have r3: "rows s3 t r = Some b" by (rule s3(3))
    obtain s4 ok where d: "del s3 r = (s4, ok)" by (metis surj_pair)
    note D = bags_del [OF s3(1) r3 d]
    have "bags s4 a = bags s a" for a
      using fun_cong [OF D(1), of a] fun_cong [OF bag(1), of a] s3(2) by (cases "a = t") auto
    then have "bags s4 = bags s" by (rule ext)
    moreover have "rows s4 a q = Some c" if "rows s a q = Some c" "(a, q) \<notin> set (targets (op # ops))" for a q c
    proof -
      have "rows s3 a q = Some c" using that tl(1) by (intro s3(3) old) auto
      then show ?thesis using that(1) D(3) bag(2) by auto
    qed
    ultimately show ?thesis using D(2) by (simp add: step u d)
  next
    case (RDelete t r old)
    have p: "del s r = (s1, snd (del s r))" and u: "u = (\<lambda>s. fst (put s t old))"
      using op RDelete by (auto simp: prod_eq_iff)
    have b: "storable old" and row: "rows s t r = Some old"
      using Cons.prems(2) RDelete by (auto simp: ops_ok_def)
    note D = bags_del [OF Cons.prems(1) row p]
    have fresh: "(t, r) \<notin> set (targets ops)"
      using Cons.prems(2) RDelete by (simp add: ops_ok_def targets_Cons)
    have keep: "rows s1 a q = Some c" if "rows s a q = Some c" "(a, q) \<noteq> (t, r)" for a q c
      using that D(3) by auto
    have s3: "inv s3" "bags s3 = bags s1"
      "\<And>a q c. rows s1 a q = Some c \<Longrightarrow> (a, q) \<notin> set (targets ops) \<Longrightarrow> rows s3 a q = Some c"
      using rest_undone D(2) keep fresh by metis+
    obtain s4 q where d: "put s3 t old = (s4, q)" by (metis surj_pair)
    note P = bags_put [OF s3(1) b d] put_law [OF s3(1) b d]
    have "bags s4 a = bags s a" for a
      using fun_cong [OF D(1), of a] fun_cong [OF P(1), of a] s3(2) by (cases "a = t") auto
    then have "bags s4 = bags s" by (rule ext)
    moreover have "rows s4 a q' = Some c" if "rows s a q' = Some c" "(a, q') \<notin> set (targets (op # ops))" for a q' c
    proof -
      have "(a, q') \<noteq> (t, r)" using that(2) RDelete by (auto simp: targets_Cons)
      then have "rows s3 a q' = Some c" using that tl(1) by (intro s3(3) keep) auto
      then show ?thesis using P(2,3) by auto
    qed
    ultimately show ?thesis using P(3) by (simp add: step u d)
  next
    case (RUpdate t r old new)
    obtain nr where p: "upd s t r new = (s1, nr)" and u: "u = (\<lambda>s. fst (put (fst (del s nr)) t old))"
      using op RUpdate by (auto split: prod.splits)
    have b: "storable old" "storable new" and row: "rows s t r = Some old"
      using Cons.prems(2) RUpdate by (auto simp: ops_ok_def)
    have law: "inv s1" "nr = r \<or> \<not> used s nr" "rows s1 = (rows s)(t := (rows s t)(r := None, nr \<mapsto> new))"
      using upd_law [OF Cons.prems(1) _ b(2) p] row by auto
    have nr: "nr = r \<or> rows s a nr = None" for a
      using law(2) unused_rows [OF Cons.prems(1), of nr a] by metis
    have fresh1: "(t, r) \<notin> set (targets ops)"
      using Cons.prems(2) RUpdate by (simp add: ops_ok_def targets_Cons)
    have fresh2: "(t, nr) \<notin> set (targets ops)"
      using fresh1 nr [of t] live [of t nr] tl(1) by (cases "nr = r") auto
    note fresh = fresh1 fresh2
    have keep: "rows s1 a q = Some c" if "rows s a q = Some c" "(a, q) \<noteq> (t, r)" for a q c
      using that law(3) nr [of t] by auto
    have s3: "inv s3" "bags s3 = bags s1"
      "\<And>a q c. rows s1 a q = Some c \<Longrightarrow> (a, q) \<notin> set (targets ops) \<Longrightarrow> rows s3 a q = Some c"
      using rest_undone law(1) keep fresh by metis+
    have n3: "rows s3 t nr = Some new" using s3(3) fresh(2) law(3) by simp
    have bag1: "bags s1 = (bags s)(t := bags s1 t)" "add_mset old (bags s1 t) = add_mset new (bags s t)"
    proof -
      show "bags s1 = (bags s)(t := bags s1 t)" by (rule ext) (simp add: bags_def law(3))
      have f: "finite (dom ((rows s t)(r := None)))" using rows_finite [OF Cons.prems(1), of t] by simp
      have "((rows s t)(r := None)) nr = None" using nr [of t] by auto
      then have "bags s1 t = add_mset new (map_bag ((rows s t)(r := None)))"
        using map_bag_add [OF f] law(3) by (simp add: bags_def)
      then show "add_mset old (bags s1 t) = add_mset new (bags s t)"
        using map_bag_del [OF rows_finite [OF Cons.prems(1)] row] by (simp add: bags_def add_mset_commute)
    qed
    obtain s4 ok where d: "del s3 nr = (s4, ok)" by (metis surj_pair)
    note D = bags_del [OF s3(1) n3 d]
    obtain s5 q where e: "put s4 t old = (s5, q)" by (metis surj_pair)
    note P = bags_put [OF D(2) b(1) e] put_law [OF D(2) b(1) e]
    have "add_mset new (bags s4 t) = bags s1 t" "\<And>a. a \<noteq> t \<Longrightarrow> bags s4 a = bags s a"
      using D(1) s3(2) bag1(1) by (metis fun_upd_apply)+
    then have "bags s5 a = bags s a" for a
      using fun_cong [OF P(1), of a] bag1(2) add_mset_commute [of old new "bags s4 t"]
      by (cases "a = t") auto
    then have "bags s5 = bags s" by (rule ext)
    moreover have "rows s5 a q' = Some c" if "rows s a q' = Some c" "(a, q') \<notin> set (targets (op # ops))" for a q' c
    proof -
      have ne: "(a, q') \<noteq> (t, r)" using that(2) RUpdate by (auto simp: targets_Cons)
      then have "(a, q') \<noteq> (t, nr)" using nr [of t] that(1) by auto
      moreover have "rows s3 a q' = Some c" using that ne tl(1) by (intro s3(3) keep) auto
      ultimately have "rows s4 a q' = Some c" using D(3) by auto
      then show ?thesis using P(2,3) by auto
    qed
    ultimately show ?thesis using P(3) by (simp add: step u d e)
  qed
qed

text \<open>A row changed twice: the closure of the second change stores the row under a new
  identifier, and that of the first then erases an identifier that is dead.\<close>

lemma del_dead:
  assumes "inv s" "used s r" "rows s t r = None" "\<And>a. rows s a r = None" "del s r = (s', ok)"
  shows "inv s' \<and> rows s' = rows s \<and> used s' = used s"
proof -
  have d: "inv s'" "\<And>a. rows s' a = (rows s a)(r := None)" "used s' = used s"
    using del_law [OF assms(1) used_known [OF assms(2)] assms(5)] by auto
  have "rows s' a = rows s a" for a using d(2) [of a] assms(4) [of a] by (simp add: fun_upd_idem)
  then show ?thesis using d by blast
qed

text \<open>Undoing an update or an insert whose row \<open>r\<close> is there no more.\<close>

lemma undo_second_update:
  assumes "inv s" "rows s t r = Some b" "storable b" "storable c" "upd s t r c = (s1, r1)"
    and "del s1 r1 = (s2, ok)" "put s2 t b = (s3, r2)"
  shows "inv s3" "bags s3 = bags s" "used s3 r" "\<And>a. rows s3 a r = None" "rows s3 t r2 = Some b"
proof -
  have law: "inv s1" "r1 = r \<or> \<not> used s r1" "rows s1 = (rows s)(t := (rows s t)(r := None, r1 \<mapsto> c))"
    "used s1 = (used s)(r1 := True)"
    using upd_law [OF assms(1) _ assms(4,5)] assms(2) by auto
  have ur: "used s r" using rows_used [OF assms(1), of t r] assms(2) by simp
  have r1: "((rows s t)(r := None)) r1 = None"
    using law(2) unused_rows [OF assms(1), of r1 t] by auto
  have row1: "rows s1 t r1 = Some c" using law(3) by simp
  note D = bags_del [OF law(1) row1 assms(6)]
  have rows2: "rows s2 = (rows s)(t := (rows s t)(r := None))"
  proof (rule ext)
    fix a
    show "rows s2 a = ((rows s)(t := (rows s t)(r := None))) a"
      using D(3) law(3) r1 by (cases "a = t") (auto simp: fun_eq_iff)
  qed
  note P = bags_put [OF D(2) assms(3,7)] put_law [OF D(2) assms(3,7)]
  show "inv s3" using P(3) by blast
  show "used s3 r" using P(3) D(4) law(4) ur by simp
  have r2: "r2 \<noteq> r" using P(3) D(4) law(4) ur by (auto split: if_splits)
  show "rows s3 t r2 = Some b" using P(3) by simp
  show "rows s3 a r = None" for a
    using P(3) rows2 r2 rows_one_table [OF assms(1), of t r a] assms(2)
    by (cases "a = t"; cases "rows s a r") auto
  show "bags s3 = bags s"
  proof (rule ext)
    fix a
    show "bags s3 a = bags s a"
      using fun_cong [OF P(1), of a] rows2 map_bag_del [OF rows_finite [OF assms(1)] assms(2)]
      by (cases "a = t") (auto simp: bags_def)
  qed
qed

lemma insert_update_leak:
  assumes "inv s" "storable b" "storable c" "put s t b = (s1, r)"
    and "run_ops s [RInsert t b, RUpdate t r b c] = (s2, us)"
  shows "inv (undo_all s2 us)" "bags (undo_all s2 us) = (bags s)(t := add_mset b (bags s t))"
proof -
  obtain s2' nr where u: "upd s1 t r c = (s2', nr)" by (metis surj_pair)
  obtain s3 ok where d: "del s2 nr = (s3, ok)" by (metis surj_pair)
  obtain s4 q where p: "put s3 t b = (s4, q)" by (metis surj_pair)
  obtain s5 ok' where e: "del s4 r = (s5, ok')" by (metis surj_pair)
  have s2: "s2' = s2" and us: "undo_all s2 us = s5"
    using assms(4,5) u d p e by (auto split: prod.splits)
  note I = bags_put [OF assms(1,2,4)] put_law [OF assms(1,2,4)]
  have r: "inv s1" "rows s1 t r = Some b" using I(3) by auto
  note U = undo_second_update [OF r assms(2,3) u [unfolded s2] d p]
  have dead: "inv s5" "rows s5 = rows s4" using del_dead [OF U(1,3,4,4) e] by blast+
  have "bags s5 = bags s4" by (rule ext) (simp add: bags_def dead)
  then show "inv (undo_all s2 us)" "bags (undo_all s2 us) = (bags s)(t := add_mset b (bags s t))"
    using U(2) I(1) us dead by simp_all
qed

end

section \<open>Properties\<close>

text \<open>The records in the part of the log that has been forced to disk.\<close>

definition forced_log :: "'s txn_mgr \<Rightarrow> log_record list option" where
  "forced_log m = Option.bind (tx_wal m) (\<lambda>w. read_frames (take (wal_synced w) (wal_file w)))"

lemma forced_after_flush: "tx_wal m = Some (wal_flush w) \<Longrightarrow> forced_log m = readAll w"
  by (simp add: forced_log_def readAll_def)

lemma finish_states:
  "states (finish_steps tx ty) m =
     [m, log_end tx ty m, force_log (log_end tx ty m), release_locks tx (force_log (log_end tx ty m)), finish m tx ty]"
  by (simp add: finish_def finish_steps_def)

lemma step_simps [simp]:
  "active (log_end tx ty m) = active m" "tx_locks (log_end tx ty m) = tx_locks m"
  "active (force_log m) = active m" "tx_locks (force_log m) = tx_locks m"
  "tx_wal (release_locks tx m) = tx_wal m" "tx_wal (forget_txn tx m) = tx_wal m"
  by (simp_all add: log_end_def force_log_def release_locks_def forget_txn_def)

lemma forced_log_steps:
  assumes "tx_wal m = Some w" "readAll (fst (wal_append w (blank_record\<lparr>txnId := tx, log_type := ty\<rparr>))) = Some rs"
  shows "forced_log (force_log (log_end tx ty m)) = Some rs"
    "forced_log (release_locks tx (force_log (log_end tx ty m))) = Some rs" "forced_log (finish m tx ty) = Some rs"
proof -
  have f: "tx_wal (force_log (log_end tx ty m)) =
      Some (wal_flush (fst (wal_append w (blank_record\<lparr>txnId := tx, log_type := ty\<rparr>))))"
    by (simp add: force_log_def log_end_def assms(1))
  show "forced_log (force_log (log_end tx ty m)) = Some rs"
    using forced_after_flush [OF f] assms(2) by simp
  show "forced_log (release_locks tx (force_log (log_end tx ty m))) = Some rs"
    using forced_after_flush [of "release_locks tx (force_log (log_end tx ty m))"] f assms(2) by simp
  show "forced_log (finish m tx ty) = Some rs"
    using forced_after_flush [of "finish m tx ty"] assms by simp
qed

text \<open>C14: The order of the end of a transaction: on every run of the manager from an empty log, a
  transaction that is still active has no commit record. In each of the states that \<open>commit\<close> or
  \<open>rollback\<close> leads through, either the transaction is still active and none of its locks has been
  released, or the log that has been forced to disk holds everything that was written before and,
  last, the Commit or Abort record - so a crash never finds a lock gone and the outcome not on
  disk. At the end the transaction is not active and holds no lock. The counters of transactions
  and log records are in the range of their types.\<close>

theorem commit_protocol:
  assumes "txn_step\<^sup>*\<^sup>* (txn_open (Some w) (Some no_locks)) m" "wal_inv w []" "active m tx \<noteq> None"
    and "counters_ok (commit m tx)"
    and "(sts, ty) = (commit_states m tx, LCommit) \<or> (sts, ty) = (rollback_states m tx, LAbort)"
  shows "\<exists>rs r w1 lk. tx_wal m = Some w1 \<and> readAll w1 = Some rs \<and> tx \<notin> committedTxns rs \<and>
    txnId r = tx \<and> log_type r = ty \<and>
    (\<forall>m'\<in>set sts. active m' tx \<noteq> None \<and> tx_locks m' = tx_locks m \<or> forced_log m' = Some (rs @ [r])) \<and>
    forced_log (last sts) = Some (rs @ [r]) \<and> \<not> isActive (last sts) tx \<and>
    tx_locks (last sts) = Some lk \<and> (\<forall>rid. holds lk tx rid = None)"
proof -
  have inv: "txn_inv m"
    using txn_run_inv [OF assms(1)] txn_open_inv [OF assms(2)] no_locks_inv by blast
  have c0: "counters_ok m" using assms(4) counters_back(2) by (auto simp: commit_manager split: if_splits)
  then obtain rs w1 where rs: "log_known m rs" "tx_wal m = Some w1" "wal_inv w1 rs"
    using inv by (auto simp: txn_inv_def log_known_def)
  have tx: "0 < tx" "tx < nextTxnId m" using inv assms(3) by (auto simp: txn_inv_def)
  then have i32: "in_i32 tx" using c0 by (simp add: counters_ok_def in_i32_def)
  have no: "tx \<notin> committedTxns rs" using rs(1) assms(3) by (auto simp: log_known_def)
  obtain lk where lk: "tx_locks m = Some lk" "lock_inv lk"
    using txn_run_locks [OF assms(1)] inv by (auto simp: txn_open_def txn_inv_def)
  have ty: "log_ok (blank_record\<lparr>txnId := tx, log_type := ty\<rparr>)" using assms(5) i32 by auto
  have "nextLsn w1 < 2 ^ 64"
    using assms(3,4) rs(2) by (auto simp: counters_ok_def commit_manager wal_append_def Let_def)
  then obtain l where l: "wal_inv (fst (wal_append w1 (blank_record\<lparr>txnId := tx, log_type := ty\<rparr>)))
      (rs @ [blank_record\<lparr>txnId := tx, log_type := ty, lsn := l\<rparr>])"
    using wal_append_inv(1) [OF rs(3) ty] by (metis log_record.simps(1) prod.collapse)
  define r where "r = blank_record\<lparr>txnId := tx, log_type := ty, lsn := l\<rparr>"
  note forced = forced_log_steps [OF _ readAll_inv [OF l], folded r_def]
  define m0 where "m0 = (if ty = LCommit then m else m\<lparr>active := (active m)(tx \<mapsto> [])\<rparr>)"
  have m0: "tx_wal m0 = Some w1" "tx_locks m0 = tx_locks m" "active m0 tx \<noteq> None"
    using rs(2) assms(3) by (simp_all add: m0_def)
  have sts: "set sts = set (m # states (finish_steps tx ty) m0)" "last sts = finish m0 tx ty"
    using assms(3,5) by (auto simp: commit_states_def rollback_states_def m0_def finish_states)
  have all: "\<forall>m'\<in>set sts. active m' tx \<noteq> None \<and> tx_locks m' = tx_locks m \<or> forced_log m' = Some (rs @ [r])"
    using m0 assms(3) forced [OF m0(1)] unfolding sts(1) by (simp add: finish_states)
  have r: "txnId r = tx" "log_type r = ty" by (simp_all add: r_def)
  have fin: "forced_log (last sts) = Some (rs @ [r])" "\<not> isActive (last sts) tx" "tx_locks (last sts) = Some (unlockAll lk tx)"
    using forced(3) [OF m0(1)] lk(1) m0(2) by (simp_all add: sts(2) isActive_def)
  show ?thesis
    by (rule exI [of _ rs], rule exI [of _ r], rule exI [of _ w1], rule exI [of _ "unlockAll lk tx"])
      (intro conjI rs(2) readAll_inv [OF rs(3)] no r all fin, simp add: unlockAll_spec(2) [OF lk(2)])
qed

theorem commit_protocol_witness:
  "\<exists>m rs r. m = fst (txn_begin (txn_open (Some \<lparr>wal_file = [], nextLsn = 1, appendsSinceReset = 0, wal_synced = 0\<rparr>) (Some no_locks))) \<and>
     length (commit_states (m :: tables txn_mgr) 1) = 5 \<and> log_type r = LCommit \<and>
     (\<forall>m'\<in>set (commit_states m 1). active m' 1 \<noteq> None \<and> tx_locks m' = tx_locks m \<or> forced_log m' = Some (rs @ [r])) \<and>
     forced_log (commit m 1) = Some (rs @ [r])"
proof -
  define w where "w = \<lparr>wal_file = [], nextLsn = 1, appendsSinceReset = 0, wal_synced = 0\<rparr>"
  define m where "m = (fst (txn_begin (txn_open (Some w) (Some no_locks))) :: tables txn_mgr)"
  have run: "txn_step\<^sup>*\<^sup>* (txn_open (Some w) (Some no_locks)) m"
    unfolding m_def by (meson r_into_rtranclp txn_begin)
  have w: "wal_inv w []" by (simp add: wal_inv_def w_def)
  have act: "active m 1 \<noteq> None" by (simp add: m_def txn_begin_def txn_open_def Let_def)
  have c: "counters_ok (commit m 1)"
    using act by (auto simp: counters_ok_def commit_manager)
      (auto simp: m_def txn_begin_def txn_open_def w_def wal_append_def Let_def)
  have len: "length (commit_states m 1) = 5" using act by (auto simp: commit_states_def finish_states)
  obtain rs r where "log_type r = LCommit"
    "\<forall>m'\<in>set (commit_states m 1). active m' 1 \<noteq> None \<and> tx_locks m' = tx_locks m \<or> forced_log m' = Some (rs @ [r])"
    "forced_log (last (commit_states m 1)) = Some (rs @ [r])"
    using commit_protocol [OF run w act c disjI1 [OF refl]] by blast
  then show ?thesis using len unfolding commit_def [symmetric] m_def w_def by blast
qed

end
