(* ===== verification/Recovery.thy ===== *)
theory Recovery
  imports Wal
begin

text \<open>
  Restart recovery, \<open>src/src/txn/recovery.cpp\<close>: the changes of committed transactions are
  redone in log order, those of every other transaction are undone in reverse. The theory
  shows what the records of the tables are afterwards, for any state of the pages a crash may
  have left, and what the scheme does when the log outlives the changes it describes.
\<close>

section \<open>Operations\<close>

definition redo_record :: "int set \<Rightarrow> tables \<Rightarrow> log_record \<Rightarrow> tables" where
  "redo_record committed t r =
     (if txnId r \<notin> committed then t
      else if log_type r = LInsert then redoInsert t (tableId r) (log_rid r) (afterImage r) (unat (lsn r))
      else if log_type r = LDelete then redoDelete t (log_rid r) (unat (lsn r))
      else t)"

definition undo_record :: "int set \<Rightarrow> tables \<Rightarrow> log_record \<Rightarrow> tables" where
  "undo_record committed t r =
     (if txnId r \<in> committed then t
      else if log_type r = LInsert then undoInsert t (log_rid r)
      else if log_type r = LDelete then undoDelete t (tableId r) (log_rid r) (beforeImage r)
      else t)"

definition recover :: "log_record list \<Rightarrow> tables \<Rightarrow> tables" where
  "recover records t =
     (let committed = committedTxns records;
          t = foldl (redo_record committed) t records
      in foldl (undo_record committed) t (rev records))"

section \<open>The records of the log, per record identifier\<close>

definition is_change :: "log_record \<Rightarrow> bool" where
  "is_change r \<longleftrightarrow> log_type r = LInsert \<or> log_type r = LDelete"

definition history :: "record_id \<Rightarrow> log_record list \<Rightarrow> log_record list" where
  "history rid rs = filter (\<lambda>r. is_change r \<and> log_rid r = rid) rs"

definition done_value :: "log_record \<Rightarrow> bytes option" where
  "done_value r = (if log_type r = LInsert then Some (afterImage r) else None)"

definition undone_value :: "log_record \<Rightarrow> bytes option" where
  "undone_value r = (if log_type r = LInsert then None else Some (beforeImage r))"

definition last_value :: "bytes option \<Rightarrow> log_record list \<Rightarrow> bytes option" where
  "last_value v rs = (if rs = [] then v else done_value (last rs))"

definition first_undone :: "bytes option \<Rightarrow> log_record list \<Rightarrow> bytes option" where
  "first_undone v rs = (if rs = [] then v else undone_value (hd rs))"

definition winners :: "int set \<Rightarrow> log_record list \<Rightarrow> log_record list" where
  "winners C rs = filter (\<lambda>r. txnId r \<in> C) rs"

definition losers :: "int set \<Rightarrow> log_record list \<Rightarrow> log_record list" where
  "losers C rs = filter (\<lambda>r. txnId r \<notin> C) rs"

text \<open>What the committed transactions make of a record that was \<open>base rid\<close> when the log
  began.\<close>

definition committed_value :: "(record_id \<Rightarrow> bytes option) \<Rightarrow> log_record list \<Rightarrow> record_id \<Rightarrow> bytes option" where
  "committed_value base rs rid =
     last_value (base rid) (winners (committedTxns rs) (history rid rs))"

text \<open>What strict locking makes of a log: on each record the changes of committed
  transactions precede those of the others, and the first of the latter found the committed
  value.\<close>

definition log_strict :: "(record_id \<Rightarrow> bytes option) \<Rightarrow> log_record list \<Rightarrow> bool" where
  "log_strict base rs \<longleftrightarrow> (\<forall>rid. let C = committedTxns rs; h = history rid rs in
     h = winners C h @ losers C h \<and>
     first_undone (committed_value base rs rid) (losers C h) = committed_value base rs rid)"

text \<open>What a crash leaves: a page's number tells which committed changes it has; a record
  all of whose changes are of committed transactions the page has is the committed one.
  About any other record nothing is required.\<close>

definition image_ok :: "(record_id \<Rightarrow> bytes option) \<Rightarrow> log_record list \<Rightarrow> tables \<Rightarrow> bool" where
  "image_ok base rs t \<longleftrightarrow> (\<forall>rid.
     losers (committedTxns rs) (history rid rs) = [] \<and>
     (\<forall>r\<in>set (history rid rs). unat (lsn r) \<le> tm_lsn t (rpage rid)) \<longrightarrow>
       tm_get t rid = committed_value base rs rid)"

text \<open>Each change finds its page in the file, in no other table, with room for the record.\<close>

definition redo_ready :: "int set \<Rightarrow> tables \<Rightarrow> log_record \<Rightarrow> bool" where
  "redo_ready C t r \<longleftrightarrow> (txnId r \<in> C \<and> is_change r \<longrightarrow> tm_known t (log_rid r) \<and>
     (log_type r = LInsert \<longrightarrow> afterImage r \<noteq> [] \<and>
        (\<forall>a. a \<noteq> tableId r \<longrightarrow> rpage (log_rid r) \<notin> set (pageList t a)) \<and>
        redo_fits t (log_rid r) (afterImage r) (unat (lsn r))))"

definition undo_ready :: "int set \<Rightarrow> tables \<Rightarrow> log_record \<Rightarrow> bool" where
  "undo_ready C t r \<longleftrightarrow> (txnId r \<notin> C \<and> is_change r \<longrightarrow> tm_known t (log_rid r) \<and>
     (log_type r = LDelete \<longrightarrow> beforeImage r \<noteq> [] \<and>
        (\<forall>a. a \<noteq> tableId r \<longrightarrow> rpage (log_rid r) \<notin> set (pageList t a)) \<and>
        redo_fits t (log_rid r) (beforeImage r) 0))"

fun steps_ready :: "(tables \<Rightarrow> log_record \<Rightarrow> bool) \<Rightarrow> (tables \<Rightarrow> log_record \<Rightarrow> tables) \<Rightarrow> tables \<Rightarrow> log_record list \<Rightarrow> bool" where
  "steps_ready P f t [] = True"
| "steps_ready P f t (r # rs) = (P t r \<and> steps_ready P f (f t r) rs)"

definition recover_ready :: "log_record list \<Rightarrow> tables \<Rightarrow> bool" where
  "recover_ready rs t \<longleftrightarrow>
     steps_ready (redo_ready (committedTxns rs)) (redo_record (committedTxns rs)) t rs \<and>
     steps_ready (undo_ready (committedTxns rs)) (undo_record (committedTxns rs))
       (foldl (redo_record (committedTxns rs)) t rs) (rev rs)"

section \<open>One step\<close>

lemma unat_bound: "unat (w :: u64) < 2 ^ 64"
  using unsigned_less [of w] by simp

lemma redo_record_spec:
  assumes inv: "tm_inv t" and ready: "redo_ready C t r" and lsn: "0 < unat (lsn r)"
  shows "tm_inv (redo_record C t r)"
    "tm_get (redo_record C t r) rid =
       (if txnId r \<in> C \<and> is_change r \<and> log_rid r = rid \<and> tm_lsn t (rpage rid) < unat (lsn r)
        then done_value r else tm_get t rid)"
    "tm_lsn (redo_record C t r) pid =
       (if txnId r \<in> C \<and> is_change r \<and> rpage (log_rid r) = pid then max (unat (lsn r)) (tm_lsn t pid)
        else tm_lsn t pid)"
proof -
  have b: "unat (lsn r) < 2 ^ 64" using unat_bound [of "lsn r"] .
  have "tm_inv (redo_record C t r) \<and>
    tm_get (redo_record C t r) rid =
       (if txnId r \<in> C \<and> is_change r \<and> log_rid r = rid \<and> tm_lsn t (rpage rid) < unat (lsn r)
        then done_value r else tm_get t rid) \<and>
    tm_lsn (redo_record C t r) pid =
       (if txnId r \<in> C \<and> is_change r \<and> rpage (log_rid r) = pid then max (unat (lsn r)) (tm_lsn t pid)
        else tm_lsn t pid)"
  proof (cases "txnId r \<in> C \<and> is_change r")
    case False
    then show ?thesis using inv by (auto simp: redo_record_def is_change_def)
  next
    case True
    then have k: "tm_known t (log_rid r)" using ready by (simp add: redo_ready_def)
    show ?thesis
    proof (cases "log_type r = LInsert")
      case ins: True
      then have "\<And>a. a \<noteq> tableId r \<Longrightarrow> rpage (log_rid r) \<notin> set (pageList t a)" "afterImage r \<noteq> []"
        "redo_fits t (log_rid r) (afterImage r) (unat (lsn r))"
        using ready True by (auto simp: redo_ready_def)
      note s = redoInsert_spec [OF inv k this(1,3) b this(2)]
      have "redo_record C t r = redoInsert t (tableId r) (log_rid r) (afterImage r) (unat (lsn r))"
        using ins True by (simp add: redo_record_def)
      then show ?thesis using s ins True lsn by (auto simp: done_value_def)
    next
      case del: False
      then have d: "log_type r = LDelete" using True by (simp add: is_change_def)
      note s = redoDelete_spec [OF inv k b]
      have "redo_record C t r = redoDelete t (log_rid r) (unat (lsn r))"
        using d True by (simp add: redo_record_def)
      then show ?thesis using s d True lsn by (auto simp: done_value_def)
    qed
  qed
  then show "tm_inv (redo_record C t r)"
    "tm_get (redo_record C t r) rid =
       (if txnId r \<in> C \<and> is_change r \<and> log_rid r = rid \<and> tm_lsn t (rpage rid) < unat (lsn r)
        then done_value r else tm_get t rid)"
    "tm_lsn (redo_record C t r) pid =
       (if txnId r \<in> C \<and> is_change r \<and> rpage (log_rid r) = pid then max (unat (lsn r)) (tm_lsn t pid)
        else tm_lsn t pid)" by blast+
qed

lemma undo_record_spec:
  assumes inv: "tm_inv t" and ready: "undo_ready C t r"
  shows "tm_inv (undo_record C t r)"
    "tm_get (undo_record C t r) rid =
       (if txnId r \<notin> C \<and> is_change r \<and> log_rid r = rid then undone_value r else tm_get t rid)"
    "tm_lsn (undo_record C t r) = tm_lsn t"
proof -
  have "tm_inv (undo_record C t r) \<and>
    tm_get (undo_record C t r) rid =
       (if txnId r \<notin> C \<and> is_change r \<and> log_rid r = rid then undone_value r else tm_get t rid) \<and>
    tm_lsn (undo_record C t r) = tm_lsn t"
  proof (cases "txnId r \<notin> C \<and> is_change r")
    case False
    then show ?thesis using inv by (auto simp: undo_record_def is_change_def)
  next
    case True
    then have k: "tm_known t (log_rid r)" using ready by (simp add: undo_ready_def)
    show ?thesis
    proof (cases "log_type r = LInsert")
      case ins: True
      then show ?thesis using undoInsert_spec [OF inv k] True
        by (auto simp: undo_record_def undone_value_def)
    next
      case del: False
      then have d: "log_type r = LDelete" using True by (simp add: is_change_def)
      then have "\<And>a. a \<noteq> tableId r \<Longrightarrow> rpage (log_rid r) \<notin> set (pageList t a)" "beforeImage r \<noteq> []"
        "redo_fits t (log_rid r) (beforeImage r) 0"
        using ready True by (auto simp: undo_ready_def)
      note s = redoInsert_spec [OF inv k this(1,3) _ this(2)]
      show ?thesis using s d True by (auto simp: undo_record_def undoDelete_def undone_value_def)
    qed
  qed
  then show "tm_inv (undo_record C t r)"
    "tm_get (undo_record C t r) rid =
       (if txnId r \<notin> C \<and> is_change r \<and> log_rid r = rid then undone_value r else tm_get t rid)"
    "tm_lsn (undo_record C t r) = tm_lsn t" by blast+
qed

section \<open>The two passes\<close>

lemma history_simps [simp]:
  "history rid [] = []"
  "history rid (r # rs) = (if is_change r \<and> log_rid r = rid then r # history rid rs else history rid rs)"
  "history rid (rs @ qs) = history rid rs @ history rid qs"
  by (simp_all add: history_def)

lemma set_history: "r \<in> set (history rid rs) \<longleftrightarrow> r \<in> set rs \<and> is_change r \<and> log_rid r = rid"
  by (auto simp: history_def)

lemma winners_simps [simp]:
  "winners C [] = []" "winners C (rs @ qs) = winners C rs @ winners C qs"
  "winners C (r # rs) = (if txnId r \<in> C then r # winners C rs else winners C rs)"
  by (simp_all add: winners_def)

lemma losers_simps [simp]:
  "losers C [] = []" "losers C (rs @ qs) = losers C rs @ losers C qs"
  "losers C (r # rs) = (if txnId r \<in> C then losers C rs else r # losers C rs)"
  by (simp_all add: losers_def)

lemma steps_ready_append:
  "steps_ready P f t (rs @ qs) \<longleftrightarrow> steps_ready P f t rs \<and> steps_ready P f (foldl f t rs) qs"
  by (induction rs arbitrary: t) auto

text \<open>The redo pass does the changes of committed transactions the page does not have yet,
  and leaves the number of the last one.\<close>

definition todo :: "tables \<Rightarrow> int set \<Rightarrow> record_id \<Rightarrow> log_record list \<Rightarrow> log_record list" where
  "todo t C rid rs = filter (\<lambda>r. tm_lsn t (rpage rid) < unat (lsn r)) (winners C (history rid rs))"

definition on_page :: "int set \<Rightarrow> int \<Rightarrow> log_record \<Rightarrow> bool" where
  "on_page C pid r \<longleftrightarrow> txnId r \<in> C \<and> is_change r \<and> rpage (log_rid r) = pid"

lemma redo_pass:
  assumes "tm_inv t" "sorted_wrt (<) (map (unat \<circ> lsn) rs)" "\<forall>r\<in>set rs. 0 < unat (lsn r)"
    and "steps_ready (redo_ready C) (redo_record C) t rs"
  shows "tm_inv (foldl (redo_record C) t rs) \<and>
    (\<forall>rid. tm_get (foldl (redo_record C) t rs) rid = last_value (tm_get t rid) (todo t C rid rs)) \<and>
    (\<forall>pid. tm_lsn (foldl (redo_record C) t rs) pid \<in>
       insert (tm_lsn t pid) ((unat \<circ> lsn) ` {r\<in>set rs. on_page C pid r}) \<and>
       tm_lsn t pid \<le> tm_lsn (foldl (redo_record C) t rs) pid \<and>
       (\<forall>r\<in>set rs. on_page C pid r \<longrightarrow> unat (lsn r) \<le> tm_lsn (foldl (redo_record C) t rs) pid))"
  using assms
proof (induction rs rule: rev_induct)
  case Nil
  then show ?case by (simp add: todo_def last_value_def)
next
  case (snoc r rs)
  define t1 where "t1 = foldl (redo_record C) t rs"
  have ready: "steps_ready (redo_ready C) (redo_record C) t rs" "redo_ready C t1 r"
    using snoc.prems(4) by (simp_all add: steps_ready_append t1_def)
  have less: "\<forall>q\<in>set rs. unat (lsn q) < unat (lsn r)" and sorted: "sorted_wrt (<) (map (unat \<circ> lsn) rs)"
    using snoc.prems(2) by (auto simp: sorted_wrt_append comp_def)
  have pos': "\<forall>r\<in>set rs. 0 < unat (lsn r)" using snoc.prems(3) by simp
  note ih = snoc.IH [OF snoc.prems(1) sorted pos' ready(1), folded t1_def]
  have IH: "tm_inv t1" "\<And>rid. tm_get t1 rid = last_value (tm_get t rid) (todo t C rid rs)"
    "\<And>pid. tm_lsn t1 pid \<in> insert (tm_lsn t pid) ((unat \<circ> lsn) ` {r\<in>set rs. on_page C pid r})"
    "\<And>pid. tm_lsn t pid \<le> tm_lsn t1 pid"
    "\<And>pid q. q \<in> set rs \<Longrightarrow> on_page C pid q \<Longrightarrow> unat (lsn q) \<le> tm_lsn t1 pid"
    using ih by blast+
  have pos: "0 < unat (lsn r)" using snoc.prems(3) by simp
  note s = redo_record_spec [OF IH(1) ready(2) pos]
  have new: "tm_lsn t1 pid < unat (lsn r) \<longleftrightarrow> tm_lsn t pid < unat (lsn r)" for pid
    using IH(3,4) [of pid] less by auto
  have "tm_get (redo_record C t1 r) rid = last_value (tm_get t rid) (todo t C rid (rs @ [r]))" for rid
    using s(2) [of rid] IH(2) [of rid] by (auto simp: todo_def last_value_def new)
  moreover have "tm_lsn (redo_record C t1 r) pid \<in>
      insert (tm_lsn t pid) ((unat \<circ> lsn) ` {q\<in>set (rs @ [r]). on_page C pid q})" for pid
    using s(3) [of pid] IH(3) [of pid] by (auto simp: on_page_def max_def)
  moreover have "tm_lsn t pid \<le> tm_lsn (redo_record C t1 r) pid" for pid
    using s(3) [of pid] IH(4) [of pid] by auto
  moreover have "unat (lsn q) \<le> tm_lsn (redo_record C t1 r) pid" if "q \<in> set (rs @ [r])" "on_page C pid q" for q pid
    using s(3) [of pid] IH(5) [of q pid] that by (auto simp: on_page_def)
  ultimately show ?case using s(1) by (simp add: t1_def)
qed

lemma undo_pass:
  assumes "tm_inv t" "steps_ready (undo_ready C) (undo_record C) t (rev rs)"
  shows "tm_inv (foldl (undo_record C) t (rev rs)) \<and>
    (\<forall>rid. tm_get (foldl (undo_record C) t (rev rs)) rid =
       first_undone (tm_get t rid) (losers C (history rid rs))) \<and>
    tm_lsn (foldl (undo_record C) t (rev rs)) = tm_lsn t"
  using assms
proof (induction rs)
  case Nil
  then show ?case by (simp add: first_undone_def)
next
  case (Cons r rs)
  define t1 where "t1 = foldl (undo_record C) t (rev rs)"
  have ready: "steps_ready (undo_ready C) (undo_record C) t (rev rs)" "undo_ready C t1 r"
    using Cons.prems(2) by (simp_all add: steps_ready_append t1_def)
  have IH: "tm_inv t1" "\<And>rid. tm_get t1 rid = first_undone (tm_get t rid) (losers C (history rid rs))"
    "tm_lsn t1 = tm_lsn t"
    using Cons.IH [OF Cons.prems(1) ready(1)] unfolding t1_def by auto
  note s = undo_record_spec [OF IH(1) ready(2)]
  have "tm_get (undo_record C t1 r) rid = first_undone (tm_get t rid) (losers C (history rid (r # rs)))" for rid
    using s(2) [of rid] IH(2) [of rid] by (auto simp: first_undone_def)
  then show ?case using s(1,3) IH(3) by (simp add: t1_def)
qed

text \<open>Recovery as a whole.\<close>

lemma recover_spec:
  assumes "tm_inv t" "sorted_wrt (<) (map (unat \<circ> lsn) rs)" "\<forall>r\<in>set rs. 0 < unat (lsn r)" "recover_ready rs t"
  shows "tm_inv (recover rs t)"
    "tm_get (recover rs t) rid = first_undone (last_value (tm_get t rid) (todo t (committedTxns rs) rid rs))
       (losers (committedTxns rs) (history rid rs))"
    "tm_lsn t pid \<le> tm_lsn (recover rs t) pid"
    "r \<in> set rs \<Longrightarrow> on_page (committedTxns rs) pid r \<Longrightarrow> unat (lsn r) \<le> tm_lsn (recover rs t) pid"
proof -
  note redo = redo_pass [OF assms(1-3), of "committedTxns rs"]
  define t1 where "t1 = foldl (redo_record (committedTxns rs)) t rs"
  have ready: "steps_ready (redo_ready (committedTxns rs)) (redo_record (committedTxns rs)) t rs"
    "steps_ready (undo_ready (committedTxns rs)) (undo_record (committedTxns rs)) t1 (rev rs)"
    using assms(4) by (simp_all add: recover_ready_def t1_def)
  have rec: "recover rs t = foldl (undo_record (committedTxns rs)) t1 (rev rs)"
    by (simp add: recover_def t1_def Let_def)
  note R = redo [OF ready(1), folded t1_def]
  note U = undo_pass [OF conjunct1 [OF R] ready(2), folded rec]
  show "tm_inv (recover rs t)"
    "tm_get (recover rs t) rid = first_undone (last_value (tm_get t rid) (todo t (committedTxns rs) rid rs))
       (losers (committedTxns rs) (history rid rs))"
    "tm_lsn t pid \<le> tm_lsn (recover rs t) pid"
    "r \<in> set rs \<Longrightarrow> on_page (committedTxns rs) pid r \<Longrightarrow> unat (lsn r) \<le> tm_lsn (recover rs t) pid"
    using R U by auto
qed

lemma last_filter_sorted:
  assumes "sorted_wrt (<) (map (unat \<circ> lsn) h)" "filter (\<lambda>r. k < unat (lsn r)) h \<noteq> []"
  shows "last (filter (\<lambda>r. k < unat (lsn r)) h) = last h"
proof -
  have "h \<noteq> []" using assms(2) by auto
  then obtain rs r where h: "h = rs @ [r]" by (metis rev_exhaust)
  obtain q where q: "q \<in> set h" "k < unat (lsn q)" using assms(2) by (metis (mono_tags) filter_empty_conv)
  have "q = r \<or> unat (lsn q) < unat (lsn r)" using assms(1) q(1) by (auto simp: h sorted_wrt_append)
  then have "k < unat (lsn r)" using q(2) by auto
  then show ?thesis by (simp add: h)
qed

lemma recover_committed:
  assumes "tm_inv t" "sorted_wrt (<) (map (unat \<circ> lsn) rs)" "\<forall>r\<in>set rs. 0 < unat (lsn r)" "recover_ready rs t"
    and "log_strict base rs" "image_ok base rs t"
  shows "tm_get (recover rs t) rid = committed_value base rs rid" "image_ok base rs (recover rs t)"
proof -
  define C where "C = committedTxns rs"
  note s = recover_spec [OF assms(1-4), folded C_def]
  have val: "tm_get (recover rs t) rid = committed_value base rs rid" for rid
  proof (cases "losers C (history rid rs) = []")
    case False
    have "first_undone (committed_value base rs rid) (losers C (history rid rs)) = committed_value base rs rid"
      using assms(5) by (simp add: log_strict_def Let_def C_def)
    then show ?thesis using s(2) [of rid] False by (simp add: first_undone_def)
  next
    case no: True
    show ?thesis
    proof (cases "todo t C rid rs = []")
      case True
      have "winners C (history rid rs) = history rid rs"
        using no by (auto simp: winners_def losers_def filter_empty_conv filter_id_conv)
      then have "\<forall>r\<in>set (history rid rs). unat (lsn r) \<le> tm_lsn t (rpage rid)"
        using True by (auto simp: todo_def filter_empty_conv not_less)
      then show ?thesis
        using s(2) [of rid] no True assms(6) by (simp add: image_ok_def first_undone_def last_value_def C_def)
    next
      case False
      define h where "h = winners C (history rid rs)"
      have "h \<noteq> []" using False by (auto simp: todo_def h_def)
      moreover have "sorted_wrt (<) (map (unat \<circ> lsn) h)"
        using assms(2) by (simp add: h_def winners_def history_def sorted_wrt_map sorted_wrt_filter)
      ultimately have "last (filter (\<lambda>r. k < unat (lsn r)) h) = last h" if "filter (\<lambda>r. k < unat (lsn r)) h \<noteq> []" for k
        using that last_filter_sorted by blast
      then show ?thesis
        using s(2) [of rid] no False \<open>h \<noteq> []\<close>
        by (simp add: todo_def h_def first_undone_def last_value_def committed_value_def C_def)
    qed
  qed
  show "tm_get (recover rs t) rid = committed_value base rs rid" by (rule val)
  show "image_ok base rs (recover rs t)" using val by (simp add: image_ok_def)
qed

section \<open>Room for a record\<close>

lemma redo_fits_present:
  assumes "tm_inv t" "tm_get t rid = Some b"
  shows "redo_fits t rid b n"
proof -
  have k: "0 \<le> rpage rid" "rpage rid < pool_pages (tm_pool t)"
    "page_get (pool_content (tm_pool t) (rpage rid)) (rslot rid) = Some b"
    using assms(2) by (auto simp: tm_get_def tm_known_def split: if_splits)
  define q where "q = tm_page t (rpage rid)"
  have q: "wf_page q" "page_get q (rslot rid) = Some b"
    using tm_page_spec [OF assms(1) k(1,2)] k(3) by (simp_all add: q_def)
  have slot: "0 \<le> rslot rid" "rslot rid < int (slotCount q)"
    using q(2) page_get_neg page_get_ge by (metis not_le option.distinct(1))+
  have "snd (redoSet q (rslot rid) b n)"
  proof (cases "n \<noteq> 0 \<and> n \<le> pageLSN q")
    case True
    then show ?thesis using redoSet_skip [OF q(1)] by simp
  next
    case False
    then show ?thesis using redoSet_present [OF q(1) _ q(2)] by (simp add: not_le)
  qed
  then show ?thesis using slot by (simp add: redo_fits_def q_def [symmetric] Let_def nat_less_iff)
qed

text \<open>A page of zeros has room for any record in its first slot.\<close>

lemma redo_fits_blank:
  assumes "pool_content (tm_pool t) pid = blank" "storable b"
  shows "redo_fits t \<lparr>rpage = pid, rslot = 0\<rparr> b n"
proof -
  have len: "b \<noteq> []" "length b \<le> 4080" using assms(2) by (simp_all add: storable_def)
  have "usableSpace (redo_target new_page 0) = 4080"
    by (simp add: redo_target_def usableSpace_eq extend_slots_fields)
  moreover have "n = 0 \<or> pageLSN new_page < n" by auto
  ultimately have "snd (redoSet new_page (int 0) b n)"
    using redoSet_write [of new_page 0 n b] len by (simp add: Let_def)
  then show ?thesis using assms(1) by (simp add: redo_fits_def tm_page_def Let_def)
qed

text \<open>Two pages of zeros, none of them in a table: what a crash leaves when nothing but the
  size of the file was written.\<close>

definition lost_tables :: "tables" where
  "lost_tables =
     \<lparr>tm_pool = pool_open \<lparr>fileBytes = [], numPages = 2\<rparr> 1 True, tm_pages = Map.empty, pageFree = Map.empty\<rparr>"

lemma lost_tables_spec:
  "tm_inv lost_tables" "tm_get lost_tables = (\<lambda>_. None)" "pageList lost_tables a = []"
  "pool_content (tm_pool lost_tables) pid = blank" "tm_lsn lost_tables pid = 0"
  "0 \<le> rpage rid \<Longrightarrow> rpage rid < 2 \<Longrightarrow> tm_known lost_tables rid"
proof -
  have n: "pool_pages (tm_pool lost_tables) = 2"
    by (simp add: lost_tables_def pool_pages_def pool_open_def Let_def)
  have i: "pool_inv (tm_pool lost_tables)" by (simp add: lost_tables_def pool_inv_open)
  have "pool_content (tm_pool lost_tables) = disk_page \<lparr>fileBytes = [], numPages = 2\<rparr>"
    by (simp add: lost_tables_def pool_ok_open)
  moreover have "disk_page \<lparr>fileBytes = [], numPages = 2\<rparr> pid = blank" for pid
    by (rule ext) (simp add: disk_page_at blank_def file_at_def)
  ultimately show b: "pool_content (tm_pool lost_tables) pid = blank" for pid by simp
  show l: "pageList lost_tables a = []" for a by (simp add: lost_tables_def pageList_def)
  show "tm_inv lost_tables" using i n b l by (simp add: tm_inv_def page_ok_def)
  show "tm_get lost_tables = (\<lambda>_. None)"
    by (rule ext) (simp add: tm_get_def b)
  show "tm_lsn lost_tables pid = 0" by (simp add: tm_lsn_def b)
  show "0 \<le> rpage rid \<Longrightarrow> rpage rid < 2 \<Longrightarrow> tm_known lost_tables rid" by (simp add: tm_known_def n)
qed

text \<open>Erasing a record leaves room for it, and the number of its page.\<close>

lemma sum_list_upd_zero:
  "s < n \<Longrightarrow> (\<Sum>t\<leftarrow>[0..<n]. (f(s := 0)) t) + f s = (\<Sum>t\<leftarrow>[0..<n]. f t)" for f :: "nat \<Rightarrow> nat"
proof -
  assume "s < n"
  then have "s \<in> {0..<n}" "finite {0..<n}" by auto
  from sum.remove [OF this(2,1), of f] sum.remove [OF this(2,1), of "f(s := 0)"]
  have "sum f {0..<n} = f s + sum f ({0..<n} - {s})" "sum (f(s := 0)) {0..<n} = sum (f(s := 0)) ({0..<n} - {s})"
    by simp_all
  moreover have "sum (f(s := 0)) ({0..<n} - {s}) = sum f ({0..<n} - {s})" by (rule sum.cong) auto
  ultimately show ?thesis by (simp add: sum_list_distinct_conv_sum_set)
qed

lemma erase_room:
  assumes wf: "wf_page p" and er: "page_erase p slot = Some p'" and get: "page_get p slot = Some b"
  shows "0 \<le> slot" "nat slot < slotCount p'" "int (length b) \<le> usableSpace p'"
proof -
  from er obtain s where s: "slot = int s" "s < slotCount p" "slot_len p s \<noteq> 0"
    by (auto simp: page_erase_def elim!: isLiveE split: if_splits)
  then have p': "p' = setSlot p (int s) (slot_off p s) 0"
    using er by (auto simp: page_erase_def slotAt_int split: if_splits)
  have b: "length b = slot_len p s" using get s by (auto simp: page_get_int)
  show "0 \<le> slot" "nat slot < slotCount p'"
    using s page_erase_Some [OF wf er] by simp_all
  have s': "s < 65535" using s(2) wf_page_slot_small [OF wf] by auto
  have "slot_len p' = (slot_len p)(s := 0)"
    using s' by (auto simp: p' mem_simps fun_eq_iff)
  then have "int (\<Sum>t\<leftarrow>[0..<slotCount p]. slot_len p' t) + int (slot_len p s) = int (\<Sum>t\<leftarrow>[0..<slotCount p]. slot_len p t)"
    using sum_list_upd_zero [OF s(2), of "slot_len p"] by (metis of_nat_add)
  moreover have "0 \<le> usableSpace p" using freeSpace_le_usable [OF wf] wf_pageD(1) [OF wf] by (simp add: freeSpace_eq)
  ultimately show "int (length b) \<le> usableSpace p'"
    using page_erase_Some(3) [OF wf er] by (simp add: usableSpace_eq b)
qed

lemma eraseTuple_page:
  assumes inv: "tm_inv t" and b: "tm_get t rid = Some b" and er: "eraseTuple t rid = (t', ok)"
  shows "tm_lsn t' = tm_lsn t" "storable b \<Longrightarrow> redo_fits t' rid b n"
proof -
  have known: "tm_known t rid" using b by (auto simp: tm_get_def split: if_splits)
  then have pid: "0 \<le> rpage rid" "rpage rid < pool_pages (tm_pool t)" by (auto simp: tm_known_def)
  define q where "q = pool_content (tm_pool t) (rpage rid)"
  have get: "page_get q (rslot rid) = Some b" using b known by (simp add: tm_get_def q_def)
  have okq: "page_ok q" using tm_invD(2) [OF inv pid] by (simp add: q_def)
  then have wf: "wf_page q" using get by (auto simp: page_ok_def)
  obtain p where p: "page_erase q (rslot rid) = Some p"
    using page_erase_None_iff [of q "rslot rid"] get by (cases "page_erase q (rslot rid)") auto
  note P = page_erase_Some [OF wf p] and room = erase_room [OF wf p get]
  have body: "try_erase (rslot rid) q = (p, True, Some (freeBytes p))" using p by (simp add: try_erase_def)
  obtain pl where g: "guarded (tm_pool t) (rpage rid) (try_erase (rslot rid)) = (pl, Some (Some (freeBytes p)))"
    "pool_content pl = (pool_content (tm_pool t))(rpage rid := p)"
    by (rule scope [OF inv pid, of "try_erase (rslot rid)" p True "Some (freeBytes p)"])
       (use body P(1) in \<open>auto simp: q_def page_ok_def\<close>)
  have t': "tm_pool t' = pl"
    using er g(1) by (auto simp: eraseTuple_def split: option.splits)
  show "tm_lsn t' = tm_lsn t"
  proof (rule ext)
    fix a
    show "tm_lsn t' a = tm_lsn t a" using P(4) by (simp add: tm_lsn_def t' g(2) q_def)
  qed
  have c: "pool_content (tm_pool t') (rpage rid) = p" by (simp add: t' g(2))
  show "redo_fits t' rid b n" if "storable b"
  proof (cases "p = blank")
    case True
    then show ?thesis using P(1) wf_page_not_blank [of blank] room(2) by simp
  next
    case False
    have len: "b \<noteq> []" "length b \<le> 4080" using that by (simp_all add: storable_def)
    have "snd (redoSet p (rslot rid) b n)"
    proof (cases "n \<noteq> 0 \<and> n \<le> pageLSN p")
      case True
      then show ?thesis using redoSet_skip [OF P(1)] by simp
    next
      case f: False
      have "page_get p (rslot rid) \<noteq> Some b" using P(2) by simp
      then show ?thesis
        using redoSet_write [OF P(1), of "nat (rslot rid)" n b] room f len
        by (auto simp: Let_def redo_target_def not_le)
    qed
    then show ?thesis using False room c
      by (simp add: redo_fits_def tm_page_def Let_def)
  qed
qed


text \<open>A log for the witnesses: transaction 1 stored a record and committed, transaction 2
  stored another one.\<close>

definition demo_log :: "log_record list" where
  "demo_log =
     [\<lparr>lsn = 1, txnId = 1, log_type = LInsert, tableId = 1, log_rid = \<lparr>rpage = 1, rslot = 0\<rparr>,
       beforeImage = [], afterImage = ''a''\<rparr>,
      \<lparr>lsn = 2, txnId = 2, log_type = LInsert, tableId = 1, log_rid = \<lparr>rpage = 1, rslot = 1\<rparr>,
       beforeImage = [], afterImage = ''b''\<rparr>,
      \<lparr>lsn = 3, txnId = 1, log_type = LCommit, tableId = -1, log_rid = no_rid,
       beforeImage = [], afterImage = []\<rparr>]"

definition demo_wal :: "wal" where
  "demo_wal = \<lparr>wal_file = concat (map encode demo_log), nextLsn = 4, appendsSinceReset = 3, wal_synced = 0\<rparr>"

lemma demo_log_spec:
  "wal_inv demo_wal demo_log" "\<forall>r\<in>set demo_log. 0 < unat (lsn r)" "committedTxns demo_log = {1}"
  "log_strict (\<lambda>_. None) demo_log"
  "history \<lparr>rpage = 1, rslot = 0\<rparr> demo_log = [hd demo_log]"
  "committed_value (\<lambda>_. None) demo_log = [\<lparr>rpage = 1, rslot = 0\<rparr> \<mapsto> ''a'']"
proof -
  show c: "committedTxns demo_log = {1}" by (simp add: committedTxns_def demo_log_def)
  show "wal_inv demo_wal demo_log"
    by (simp add: wal_inv_def demo_wal_def demo_log_def log_ok_def in_i32_def no_rid_def)
  show "\<forall>r\<in>set demo_log. 0 < unat (lsn r)" by (simp add: demo_log_def)
  show "history \<lparr>rpage = 1, rslot = 0\<rparr> demo_log = [hd demo_log]"
    by (simp add: demo_log_def is_change_def)
  show v: "committed_value (\<lambda>_. None) demo_log = [\<lparr>rpage = 1, rslot = 0\<rparr> \<mapsto> ''a'']"
    by (rule ext) (simp add: committed_value_def c, simp add: demo_log_def is_change_def last_value_def done_value_def)
  show "log_strict (\<lambda>_. None) demo_log"
    by (simp add: log_strict_def Let_def c v)
       (simp add: demo_log_def is_change_def first_undone_def undone_value_def)
qed

lemma demo_ready:
  assumes "tm_inv t" "\<And>a. a \<noteq> 1 \<Longrightarrow> 1 \<notin> set (pageList t a)" "tm_known t \<lparr>rpage = 1, rslot = 0\<rparr>"
    and "redo_fits t \<lparr>rpage = 1, rslot = 0\<rparr> ''a'' 1"
  shows "recover_ready demo_log t" "a \<noteq> 1 \<Longrightarrow> 1 \<notin> set (pageList (recover demo_log t) a)"
    "tm_known (recover demo_log t) = tm_known t"
proof -
  define t1 where "t1 = redoInsert t 1 \<lparr>rpage = 1, rslot = 0\<rparr> ''a'' 1"
  note s = redoInsert_spec [OF assms(1,3), of 1 "''a''" 1, folded t1_def]
  have s1: "tm_inv t1" "tm_known t1 = tm_known t" "a \<noteq> 1 \<Longrightarrow> 1 \<notin> set (pageList t1 a)" for a
    using s assms by auto
  have k: "tm_known t \<lparr>rpage = 1, rslot = 1\<rparr>" using assms(3) by (simp add: tm_known_def)
  note u = undoInsert_spec [OF s1(1), of "\<lparr>rpage = 1, rslot = 1\<rparr>"]
  have c: "committedTxns demo_log = {1}" by (rule demo_log_spec)
  have pass: "foldl (redo_record {1}) t demo_log = t1"
    by (simp add: demo_log_def redo_record_def t1_def)
  have rec: "recover demo_log t = undoInsert t1 \<lparr>rpage = 1, rslot = 1\<rparr>"
    by (simp add: recover_def c pass Let_def) (simp add: demo_log_def undo_record_def)
  show "recover_ready demo_log t"
    unfolding recover_ready_def c pass
    using assms k s1(2) by (simp add: demo_log_def redo_ready_def undo_ready_def is_change_def undo_record_def redo_record_def)
  show "a \<noteq> 1 \<Longrightarrow> 1 \<notin> set (pageList (recover demo_log t) a)" "tm_known (recover demo_log t) = tm_known t"
    using u s1 k by (simp_all add: rec)
qed

lemma lost_image: "image_ok (\<lambda>_. None) demo_log lost_tables"
  by (simp add: image_ok_def lost_tables_spec demo_log_spec(6))
     (auto simp: demo_log_def is_change_def)

lemma lost_ready: "recover_ready demo_log lost_tables"
  "a \<noteq> 1 \<Longrightarrow> 1 \<notin> set (pageList (recover demo_log lost_tables) a)"
  "tm_known (recover demo_log lost_tables) \<lparr>rpage = 1, rslot = 0\<rparr>"
  using demo_ready [of lost_tables] redo_fits_blank [of lost_tables 1 "''a''" 1] lost_tables_spec
  by (simp_all add: storable_def)

section \<open>Properties\<close>



text \<open>A crash during recovery is harmless: recovering from the state a recovery left (or from
  any state of the same kind) leads to the same records.\<close>

lemma recovery_idempotent:
  assumes "tm_inv t" "wal_inv w rs" "\<forall>r\<in>set rs. 0 < unat (lsn r)"
    and "log_strict base rs" "image_ok base rs t" "recover_ready rs t" "recover_ready rs (recover rs t)"
  shows "image_ok base rs (recover rs t) \<and> tm_get (recover rs (recover rs t)) = tm_get (recover rs t)"
proof -
  have sorted: "sorted_wrt (<) (map (unat \<circ> lsn) rs)" using assms(2) by (simp add: wal_inv_def)
  note first = recover_spec(1) [OF assms(1) sorted assms(3,6)]
    and c = recover_committed [OF assms(1) sorted assms(3,6,4,5)]
  have "tm_get (recover rs (recover rs t)) rid = tm_get (recover rs t) rid" for rid
    using recover_committed(1) [OF first sorted assms(3,7,4) c(2)] c(1) by simp
  then show ?thesis using c(2) by blast
qed

lemma recovery_idempotent_witness:
  "tm_get (recover demo_log (recover demo_log lost_tables)) = tm_get (recover demo_log lost_tables)"
proof -
  define t where "t = recover demo_log lost_tables"
  have sorted: "sorted_wrt (<) (map (unat \<circ> lsn) demo_log)" using demo_log_spec(1) by (simp add: wal_inv_def)
  note s = recover_spec(1) [OF lost_tables_spec(1) sorted demo_log_spec(2) lost_ready(1), folded t_def]
    and v = recover_committed(1) [OF lost_tables_spec(1) sorted demo_log_spec(2) lost_ready(1) demo_log_spec(4) lost_image, folded t_def]
  have "redo_fits t \<lparr>rpage = 1, rslot = 0\<rparr> ''a'' 1"
    by (rule redo_fits_present [OF s]) (simp add: v demo_log_spec(6))
  then have "recover_ready demo_log t"
    using demo_ready(1) [OF s] lost_ready(2,3) by (simp add: t_def)
  then show ?thesis
    using recovery_idempotent [OF lost_tables_spec(1) demo_log_spec(1,2,4) lost_image lost_ready(1)]
    by (simp add: t_def)
qed

text \<open>C17: The log does not know what happened outside it: a row whose insertion is in the log as
  committed comes back at the next recovery when it was erased by a statement outside a
  transaction, which logs nothing, and its page was never stamped.\<close>

theorem recovery_resurrects:
  assumes "tm_inv t" "tm_rows t tid rid = Some b" "eraseTuple t rid = (t1, ok)"
    and "wal_inv w rs" "\<forall>r\<in>set rs. 0 < unat (lsn r)" "recover_ready rs t1"
    and "history rid rs = [r]" "txnId r \<in> committedTxns rs" "log_type r = LInsert" "afterImage r = b"
    and "tm_lsn t1 (rpage rid) = 0"
  shows "tm_get t1 rid = None \<and> tm_get (recover rs t1) rid = Some b"
proof -
  have sorted: "sorted_wrt (<) (map (unat \<circ> lsn) rs)" using assms(4) by (simp add: wal_inv_def)
  have known: "tm_known t rid" using tm_rows_known [OF assms(1)] assms(2) by blast
  note e = eraseTuple_spec [OF assms(1) known assms(3)]
  have r: "r \<in> set rs" using assms(7) set_history [of r rid rs] by simp
  have "todo t1 (committedTxns rs) rid rs = [r]"
    using assms(5,7,8,11) r by (simp add: todo_def)
  then show ?thesis
    using recover_spec(2) [OF e(1) sorted assms(5,6), of rid] assms(7-10) e
    by (simp add: last_value_def first_undone_def done_value_def)
qed

theorem recovery_resurrects_witness:
  "\<exists>t t1 ok. tm_rows t 1 \<lparr>rpage = 1, rslot = 0\<rparr> = Some ''a'' \<and> eraseTuple t \<lparr>rpage = 1, rslot = 0\<rparr> = (t1, ok) \<and>
     tm_get t1 \<lparr>rpage = 1, rslot = 0\<rparr> = None \<and>
     tm_get (recover demo_log t1) \<lparr>rpage = 1, rslot = 0\<rparr> = Some ''a''"
proof -
  define r where "r = \<lparr>rpage = (1 :: int), rslot = (0 :: int)\<rparr>"
  define t where "t = redoInsert lost_tables 1 r ''a'' 0"
  have fits: "redo_fits lost_tables r ''a'' 0"
    using redo_fits_blank [of lost_tables 1 "''a''" 0] lost_tables_spec(4) by (simp add: storable_def r_def)
  have known: "tm_known lost_tables r" using lost_tables_spec(6) by (simp add: r_def)
  note s = redoInsert_spec [OF lost_tables_spec(1) known _ fits, of 1, folded t_def]
  have s': "tm_inv t" "tm_get t = [r \<mapsto> ''a'']" "tm_lsn t (rpage r) = 0" "tm_known t r"
    "set (pageList t a) = (if a = 1 then {rpage r} else {})" for a
    using s lost_tables_spec known by auto
  have row: "tm_rows t 1 r = Some ''a''" using s'(2,5) by (simp add: tm_rows_def)
  obtain t1 ok where e: "eraseTuple t r = (t1, ok)" by (metis surj_pair)
  note E = eraseTuple_spec [OF s'(1,4) e] and P = eraseTuple_page [OF s'(1) _ e, of "''a''"]
  have "recover_ready demo_log t1"
    using demo_ready(1) [OF E(1)] E(4,5) s'(4,5) P(2) s'(2) by (simp add: r_def storable_def)
  from recovery_resurrects [OF s'(1) row e demo_log_spec(1,2) this, of "hd demo_log"] show ?thesis
    using row e P(1) s'(2,3) demo_log_spec(3,5) by (auto simp: r_def demo_log_def)
qed

end
