(* ===== verification/VersionStore.thy ===== *)
theory VersionStore
  imports Numerals TableManager Bags "HOL-Library.AList"
begin

text \<open>
  The version store of \<open>src/src/vm/version_store.cpp\<close>: the changes of committed statements
  and transactions, each under the version its commit made, the baseline rows of every table
  at the oldest version kept, and the pending changes of the statement or transaction that
  runs. The unordered maps and sets of the code are lists without duplicates, in whatever
  order the container iterates. Versions are natural numbers (64 bits in the code).
\<close>

section \<open>Operations\<close>

record change =
  ch_version :: nat
  ch_table :: int
  ch_delete :: bool
  ch_rid :: record_id
  ch_bytes :: bytes

type_synonym base_row = "record_id \<times> bytes"

record vstore =
  vs_log :: "change list"
  vs_pending :: "change list"
  vs_baseline :: "(int \<times> base_row list) list"
  knownTables :: "int list"
  txnSnapshots :: "int \<Rightarrow> nat option"
  baselineVersion :: nat
  currentVersion :: nat
  maxChanges :: nat
  retainVersions :: nat

definition vstore_open :: "vstore" where
  "vstore_open = \<lparr>vs_log = [], vs_pending = [], vs_baseline = [], knownTables = [],
     txnSnapshots = Map.empty, baselineVersion = 0, currentVersion = 0,
     maxChanges = 2000000, retainVersions = 200000\<rparr>"

definition know :: "int \<Rightarrow> int list \<Rightarrow> int list" where
  "know tid ts = (if tid \<in> set ts then ts else ts @ [tid])"

definition stageInsert :: "vstore \<Rightarrow> int \<Rightarrow> record_id \<Rightarrow> bytes \<Rightarrow> vstore" where
  "stageInsert vs tid rid bytes =
     vs\<lparr>vs_pending := vs_pending vs @
           [\<lparr>ch_version = 0, ch_table = tid, ch_delete = False, ch_rid = rid, ch_bytes = bytes\<rparr>],
        knownTables := know tid (knownTables vs)\<rparr>"

definition stageDelete :: "vstore \<Rightarrow> int \<Rightarrow> record_id \<Rightarrow> vstore" where
  "stageDelete vs tid rid =
     vs\<lparr>vs_pending := vs_pending vs @
           [\<lparr>ch_version = 0, ch_table = tid, ch_delete = True, ch_rid = rid, ch_bytes = []\<rparr>],
        knownTables := know tid (knownTables vs)\<rparr>"

definition discardPending :: "vstore \<Rightarrow> vstore" where
  "discardPending vs = vs\<lparr>vs_pending := []\<rparr>"

definition seedBaseline :: "vstore \<Rightarrow> int \<Rightarrow> base_row list \<Rightarrow> vstore" where
  "seedBaseline vs tid rows =
     vs\<lparr>vs_baseline := AList.update tid rows (vs_baseline vs),
        knownTables := know tid (knownTables vs)\<rparr>"

definition hasHistory :: "vstore \<Rightarrow> int \<Rightarrow> bool" where
  "hasHistory vs tid \<longleftrightarrow> tid \<in> set (knownTables vs)"

definition setRetention :: "vstore \<Rightarrow> nat \<Rightarrow> nat \<Rightarrow> vstore" where
  "setRetention vs changes versions = vs\<lparr>maxChanges := changes, retainVersions := versions\<rparr>"

text \<open>The three parallel containers \<open>pos\<close>, \<open>rows\<close> and \<open>live\<close> of a reconstruction.\<close>

record images =
  im_pos :: "record_id \<Rightarrow> nat option"
  im_rows :: "base_row list"
  im_live :: "bool list"

definition push_row :: "images \<Rightarrow> base_row \<Rightarrow> images" where
  "push_row st br =
     \<lparr>im_pos = (im_pos st)(fst br \<mapsto> length (im_rows st)), im_rows = im_rows st @ [br],
      im_live = im_live st @ [True]\<rparr>"

definition images_of :: "base_row list \<Rightarrow> images" where
  "images_of rows = foldl push_row \<lparr>im_pos = Map.empty, im_rows = [], im_live = []\<rparr> rows"

definition overlay :: "images \<Rightarrow> change \<Rightarrow> images" where
  "overlay st c =
     (case im_pos st (ch_rid c) of
        Some i \<Rightarrow>
          if ch_delete c then st\<lparr>im_live := (im_live st)[i := False]\<rparr>
          else st\<lparr>im_rows := (im_rows st)[i := (fst (im_rows st ! i), ch_bytes c)],
                  im_live := (im_live st)[i := True]\<rparr>
      | None \<Rightarrow> if ch_delete c then st else push_row st (ch_rid c, ch_bytes c))"

definition live_rows :: "images \<Rightarrow> base_row list" where
  "live_rows st = map fst (filter snd (zip (im_rows st) (im_live st)))"

fun replay :: "nat \<Rightarrow> nat \<Rightarrow> int \<Rightarrow> images \<Rightarrow> change list \<Rightarrow> images" where
  "replay base version tid st [] = st"
| "replay base version tid st (c # cs) =
     (if ch_version c \<le> base then replay base version tid st cs
      else if ch_version c > version then st
      else if ch_table c \<noteq> tid then replay base version tid st cs
      else replay base version tid (overlay st c) cs)"

definition baseline_rows :: "vstore \<Rightarrow> int \<Rightarrow> base_row list" where
  "baseline_rows vs tid = (case map_of (vs_baseline vs) tid of None \<Rightarrow> [] | Some rows \<Rightarrow> rows)"

definition reconstruct :: "vstore \<Rightarrow> int \<Rightarrow> nat \<Rightarrow> base_row list" where
  "reconstruct vs tid version =
     live_rows (replay (baselineVersion vs) version tid (images_of (baseline_rows vs tid)) (vs_log vs))"

definition snapshotAsOf :: "vstore \<Rightarrow> int \<Rightarrow> nat \<Rightarrow> bytes list" where
  "snapshotAsOf vs tid version =
     (let version = (if version < baselineVersion vs then baselineVersion vs else version)
      in map snd (reconstruct vs tid version))"

definition beginSnapshot :: "vstore \<Rightarrow> int \<Rightarrow> vstore" where
  "beginSnapshot vs tx = vs\<lparr>txnSnapshots := (txnSnapshots vs)(tx \<mapsto> currentVersion vs)\<rparr>"

definition endSnapshot :: "vstore \<Rightarrow> int \<Rightarrow> vstore" where
  "endSnapshot vs tx = vs\<lparr>txnSnapshots := (txnSnapshots vs)(tx := None)\<rparr>"

definition snapshotVersionOf :: "vstore \<Rightarrow> int \<Rightarrow> nat option" where
  "snapshotVersionOf vs tx = txnSnapshots vs tx"

definition snapshotForTxn :: "vstore \<Rightarrow> int \<Rightarrow> nat \<Rightarrow> bytes list" where
  "snapshotForTxn vs tid snapshotVersion =
     (let version = (if snapshotVersion < baselineVersion vs then baselineVersion vs else snapshotVersion);
          st = images_of (reconstruct vs tid version);
          st = foldl (\<lambda>st c. if ch_table c \<noteq> tid then st else overlay st c) st (vs_pending vs)
      in map snd (live_rows st))"

definition gc :: "vstore \<Rightarrow> nat \<Rightarrow> vstore" where
  "gc vs horizon =
     (let horizon = (if horizon > currentVersion vs then currentVersion vs else horizon)
      in if horizon \<le> baselineVersion vs then vs
         else vs\<lparr>vs_log := filter (\<lambda>c. ch_version c > horizon) (vs_log vs),
                 vs_baseline := map (\<lambda>tid. (tid, reconstruct vs tid horizon)) (knownTables vs),
                 baselineVersion := horizon\<rparr>)"

definition maybeGc :: "vstore \<Rightarrow> vstore" where
  "maybeGc vs =
     (if length (vs_log vs) \<le> maxChanges vs then vs
      else if currentVersion vs \<le> retainVersions vs then vs
      else gc vs (currentVersion vs - retainVersions vs))"

definition commitPending :: "vstore \<Rightarrow> vstore" where
  "commitPending vs =
     (if vs_pending vs = [] then vs
      else let version = currentVersion vs + 1
           in maybeGc (vs\<lparr>currentVersion := version,
                          vs_log := vs_log vs @ map (\<lambda>c. c\<lparr>ch_version := version\<rparr>) (vs_pending vs),
                          vs_pending := []\<rparr>))"

section \<open>Reconstruction computes a map\<close>

definition images_ok :: "images \<Rightarrow> bool" where
  "images_ok st \<longleftrightarrow> length (im_live st) = length (im_rows st) \<and> distinct (map fst (im_rows st)) \<and>
     (\<forall>r i. im_pos st r = Some i \<longleftrightarrow> i < length (im_rows st) \<and> fst (im_rows st ! i) = r)"

definition image_map :: "images \<Rightarrow> record_id \<Rightarrow> bytes option" where
  "image_map st r =
     (case im_pos st r of None \<Rightarrow> None | Some i \<Rightarrow> if im_live st ! i then Some (snd (im_rows st ! i)) else None)"

definition change_map :: "(record_id \<Rightarrow> bytes option) \<Rightarrow> change \<Rightarrow> record_id \<Rightarrow> bytes option" where
  "change_map m c = m(ch_rid c := (if ch_delete c then None else Some (ch_bytes c)))"

lemma push_row_ok:
  assumes "images_ok st" "im_pos st (fst br) = None"
  shows "images_ok (push_row st br)" "image_map (push_row st br) = (image_map st)(fst br \<mapsto> snd br)"
proof -
  have pos: "im_pos st r = Some i \<longleftrightarrow> i < length (im_rows st) \<and> fst (im_rows st ! i) = r" for r i
    using assms(1) by (simp add: images_ok_def)
  have new: "fst br \<notin> set (map fst (im_rows st))"
  proof
    assume "fst br \<in> set (map fst (im_rows st))"
    then obtain i where "i < length (im_rows st)" "fst (im_rows st ! i) = fst br"
      by (auto simp: in_set_conv_nth)
    then show False using pos [of "fst br" i] assms(2) by simp
  qed
  show "images_ok (push_row st br)"
  proof -
    have "fst (im_rows st ! i) \<noteq> fst br" if "i < length (im_rows st)" for i
      using pos [of "fst br" i] assms(2) that by auto
    then show ?thesis
      using assms new by (auto simp: images_ok_def push_row_def nth_append less_Suc_eq)
  qed
  show "image_map (push_row st br) = (image_map st)(fst br \<mapsto> snd br)"
  proof (rule ext)
    fix r
    have lt: "i < length (im_rows st)" "i < length (im_live st)" if "im_pos st r = Some i" for i
      using assms(1) that by (simp_all add: images_ok_def)
    have len: "length (im_live st) = length (im_rows st)" using assms(1) by (simp add: images_ok_def)
    show "image_map (push_row st br) r = ((image_map st)(fst br \<mapsto> snd br)) r"
      using lt len by (cases "im_pos st r") (auto simp: image_map_def push_row_def nth_append)
  qed
qed

lemma overlay_ok:
  assumes "images_ok st"
  shows "images_ok (overlay st c)" "image_map (overlay st c) = change_map (image_map st) c"
proof -
  have "images_ok (overlay st c) \<and> image_map (overlay st c) = change_map (image_map st) c"
  proof (cases "im_pos st (ch_rid c)")
    case None
    then show ?thesis
      using assms push_row_ok [OF assms, of "(ch_rid c, ch_bytes c)"]
      by (auto simp: overlay_def change_map_def image_map_def fun_eq_iff)
  next
    case (Some i)
    have i: "i < length (im_rows st)" "i < length (im_live st)" "fst (im_rows st ! i) = ch_rid c"
      using assms Some by (auto simp: images_ok_def)
    have other: "j \<noteq> i" if "im_pos st r = Some j" "r \<noteq> ch_rid c" for r j
      using assms that i by (auto simp: images_ok_def)
    have keys: "map fst ((im_rows st)[i := (ch_rid c, b)]) = map fst (im_rows st)" for b
      using i by (metis fst_conv list_update_id map_update nth_map)
    have o: "overlay st c =
        (if ch_delete c then st\<lparr>im_live := (im_live st)[i := False]\<rparr>
         else st\<lparr>im_rows := (im_rows st)[i := (ch_rid c, ch_bytes c)], im_live := (im_live st)[i := True]\<rparr>)"
      using Some i by (simp add: overlay_def)
    have fsts: "fst ((im_rows st)[i := (ch_rid c, b)] ! j) = fst (im_rows st ! j)" for j b
      using i by (cases "j = i") simp_all
    have "images_ok (overlay st c)"
      using assms keys fsts unfolding o by (auto simp: images_ok_def)
    moreover have "image_map (overlay st c) r = change_map (image_map st) c r" for r
      using assms Some i other [of r]
      by (cases "r = ch_rid c") (auto simp: image_map_def overlay_def change_map_def split: option.split)
    ultimately show ?thesis by auto
  qed
  then show "images_ok (overlay st c)" "image_map (overlay st c) = change_map (image_map st) c" by auto
qed

lemma live_rows_map:
  assumes "images_ok st"
  shows "distinct (map fst (live_rows st))" "map_of (live_rows st) = image_map st"
proof -
  have len: "length (im_live st) = length (im_rows st)" "distinct (map fst (im_rows st))"
    using assms by (simp_all add: images_ok_def)
  have keys: "map fst (live_rows st) = map (\<lambda>(br, l). fst br) (filter snd (zip (im_rows st) (im_live st)))"
    by (simp add: live_rows_def case_prod_beta comp_def)
  have "map (\<lambda>(br, l). fst br) (zip (im_rows st) (im_live st)) = map fst (map fst (zip (im_rows st) (im_live st)))"
    by (simp add: case_prod_beta comp_def)
  then have "distinct (map (\<lambda>(br, l). fst br) (zip (im_rows st) (im_live st)))"
    using len by simp
  then show d: "distinct (map fst (live_rows st))"
    unfolding keys by (rule distinct_map_filter)
  show "map_of (live_rows st) = image_map st"
  proof (rule ext)
    fix r
    have mem: "(r, b) \<in> set (live_rows st) \<longleftrightarrow> image_map st r = Some b" for b
    proof -
      have pos: "im_pos st r = Some i \<longleftrightarrow> i < length (im_rows st) \<and> fst (im_rows st ! i) = r" for i
        using assms by (simp add: images_ok_def)
      have "(r, b) \<in> set (live_rows st) \<longleftrightarrow> (\<exists>i. i < length (im_rows st) \<and> im_rows st ! i = (r, b) \<and> im_live st ! i)"
        using len(1) by (force simp: live_rows_def set_zip)
      also have "\<dots> \<longleftrightarrow> (\<exists>i. im_pos st r = Some i \<and> snd (im_rows st ! i) = b \<and> im_live st ! i)"
        using pos by (metis fst_conv prod.collapse snd_conv)
      also have "\<dots> \<longleftrightarrow> image_map st r = Some b"
        by (auto simp: image_map_def split: option.splits if_splits)
      finally show ?thesis .
    qed
    show "map_of (live_rows st) r = image_map st r"
      using mem d by (metis map_of_eq_Some_iff not_None_eq)
  qed
qed

lemma images_of_ok:
  assumes "distinct (map fst rows)"
  shows "images_ok (images_of rows)" "image_map (images_of rows) = map_of rows"
    "live_rows (images_of rows) = rows" "im_pos (images_of rows) r \<noteq> None \<longleftrightarrow> r \<in> fst ` set rows"
proof -
  have "images_ok (images_of rows) \<and> image_map (images_of rows) = map_of rows \<and>
    live_rows (images_of rows) = rows \<and> (\<forall>r. im_pos (images_of rows) r \<noteq> None \<longleftrightarrow> r \<in> fst ` set rows)"
    using assms
  proof (induction rows rule: rev_induct)
    case Nil
    then show ?case by (auto simp: images_of_def images_ok_def image_map_def live_rows_def)
  next
    case (snoc br rows)
    have IH: "images_ok (images_of rows)" "image_map (images_of rows) = map_of rows"
      "live_rows (images_of rows) = rows" "\<And>r. im_pos (images_of rows) r \<noteq> None \<longleftrightarrow> r \<in> fst ` set rows"
      using snoc by auto
    have none: "im_pos (images_of rows) (fst br) = None" using IH(4) [of "fst br"] snoc.prems by auto
    have step: "images_of (rows @ [br]) = push_row (images_of rows) br" by (simp add: images_of_def)
    note P = push_row_ok [OF IH(1) none]
    have "length (im_live (images_of rows)) = length (im_rows (images_of rows))"
      using IH(1) by (simp add: images_ok_def)
    then have "live_rows (push_row (images_of rows) br) = rows @ [br]"
      using IH(3) by (simp add: live_rows_def push_row_def)
    moreover have "map_of (rows @ [br]) = (map_of rows)(fst br \<mapsto> snd br)"
    proof (rule ext)
      fix r
      have "map_of rows (fst br) = None" using snoc.prems by (auto simp: map_of_eq_None_iff)
      then show "map_of (rows @ [br]) r = ((map_of rows)(fst br \<mapsto> snd br)) r"
        by (cases br) (auto simp: map_add_def split: option.split)
    qed
    moreover have "im_pos (push_row (images_of rows) br) r \<noteq> None \<longleftrightarrow> r \<in> fst ` set (rows @ [br])" for r
      using IH(4) [of r] by (auto simp: push_row_def)
    ultimately show ?case using P IH(2) unfolding step by auto
  qed
  then show "images_ok (images_of rows)" "image_map (images_of rows) = map_of rows"
    "live_rows (images_of rows) = rows" "im_pos (images_of rows) r \<noteq> None \<longleftrightarrow> r \<in> fst ` set rows" by blast+
qed

text \<open>The changes a reconstruction applies, in a log sorted by version.\<close>

definition changes_in :: "nat \<Rightarrow> nat \<Rightarrow> int \<Rightarrow> change list \<Rightarrow> change list" where
  "changes_in base version tid cs =
     filter (\<lambda>c. base < ch_version c \<and> ch_version c \<le> version \<and> ch_table c = tid) cs"

lemma replay_fold:
  assumes "sorted (map ch_version cs)"
  shows "replay base version tid st cs = foldl overlay st (changes_in base version tid cs)"
  using assms
proof (induction cs arbitrary: st)
  case Nil
  then show ?case by (simp add: changes_in_def)
next
  case (Cons c cs)
  have "changes_in base version tid cs = []" if "ch_version c > version"
    using Cons.prems that by (force simp: changes_in_def filter_empty_conv)
  then show ?case using Cons by (auto simp: changes_in_def)
qed

lemma foldl_overlay:
  assumes "images_ok st"
  shows "images_ok (foldl overlay st cs)" "image_map (foldl overlay st cs) = foldl change_map (image_map st) cs"
proof -
  have "images_ok (foldl overlay st cs) \<and> image_map (foldl overlay st cs) = foldl change_map (image_map st) cs"
    using assms by (induction cs arbitrary: st) (simp_all add: overlay_ok)
  then show "images_ok (foldl overlay st cs)" "image_map (foldl overlay st cs) = foldl change_map (image_map st) cs"
    by auto
qed

section \<open>The invariant and the state at a version\<close>

definition vs_inv :: "vstore \<Rightarrow> bool" where
  "vs_inv vs \<longleftrightarrow> sorted (map ch_version (vs_log vs)) \<and>
     (\<forall>c\<in>set (vs_log vs). baselineVersion vs < ch_version c \<and> ch_version c \<le> currentVersion vs \<and>
        ch_table c \<in> set (knownTables vs)) \<and>
     (\<forall>c\<in>set (vs_pending vs). ch_table c \<in> set (knownTables vs)) \<and>
     distinct (knownTables vs) \<and> fst ` set (vs_baseline vs) \<subseteq> set (knownTables vs) \<and>
     (\<forall>tid. distinct (map fst (baseline_rows vs tid))) \<and> baselineVersion vs \<le> currentVersion vs"

text \<open>What the committed changes up to a version make of a table.\<close>

definition state_at :: "vstore \<Rightarrow> int \<Rightarrow> nat \<Rightarrow> record_id \<Rightarrow> bytes option" where
  "state_at vs tid version =
     foldl change_map (map_of (baseline_rows vs tid)) (changes_in (baselineVersion vs) version tid (vs_log vs))"

lemma reconstruct_spec:
  assumes "vs_inv vs"
  shows "distinct (map fst (reconstruct vs tid version))"
    "map_of (reconstruct vs tid version) = state_at vs tid version"
proof -
  have b: "distinct (map fst (baseline_rows vs tid))" and s: "sorted (map ch_version (vs_log vs))"
    using assms by (simp_all add: vs_inv_def)
  note I = images_of_ok [OF b]
  note F = foldl_overlay [OF I(1)]
  show "distinct (map fst (reconstruct vs tid version))"
    "map_of (reconstruct vs tid version) = state_at vs tid version"
    using live_rows_map [OF F(1)] F(2) I(2)
    by (simp_all add: reconstruct_def replay_fold [OF s] state_at_def)
qed

lemma snapshotAsOf_spec:
  assumes "vs_inv vs"
  shows "mset (snapshotAsOf vs tid version) = map_bag (state_at vs tid (max version (baselineVersion vs)))"
  using mset_rows [OF reconstruct_spec(1) [OF assms]] reconstruct_spec(2) [OF assms]
  by (simp add: snapshotAsOf_def max_def Let_def)

lemma snapshotForTxn_spec:
  assumes "vs_inv vs"
  shows "mset (snapshotForTxn vs tid version) =
    map_bag (foldl change_map (state_at vs tid (max version (baselineVersion vs)))
      (filter (\<lambda>c. ch_table c = tid) (vs_pending vs)))"
proof -
  define v where "v = max version (baselineVersion vs)"
  define st where "st = images_of (reconstruct vs tid v)"
  define ps where "ps = filter (\<lambda>c. ch_table c = tid) (vs_pending vs)"
  note R = reconstruct_spec [OF assms, of tid v]
  note I = images_of_ok [OF R(1), folded st_def]
  note F = foldl_overlay [OF I(1), of ps]
  have "foldl (\<lambda>st c. if ch_table c \<noteq> tid then st else overlay st c) st cs =
      foldl overlay st (filter (\<lambda>c. ch_table c = tid) cs)" for cs st
    by (induction cs arbitrary: st) auto
  then have "snapshotForTxn vs tid version = map snd (live_rows (foldl overlay st ps))"
    by (simp add: snapshotForTxn_def Let_def st_def v_def ps_def max_def)
  then show ?thesis
    using mset_rows [OF live_rows_map(1) [OF F(1)]] live_rows_map(2) [OF F(1)] F(2) I(2) R(2)
    by (simp add: v_def ps_def)
qed

section \<open>Steps of the store\<close>

inductive vs_step :: "vstore \<Rightarrow> vstore \<Rightarrow> bool" where
  vs_insert: "vs_step vs (stageInsert vs tid rid b)"
| vs_delete: "vs_step vs (stageDelete vs tid rid)"
| vs_commit: "vs_step vs (commitPending vs)"
| vs_discard: "vs_step vs (discardPending vs)"
| vs_begin: "vs_step vs (beginSnapshot vs tx)"
| vs_end: "vs_step vs (endSnapshot vs tx)"
| vs_retention: "vs_step vs (setRetention vs n k)"
| vs_gc: "vs_step vs (gc vs horizon)"
| vs_seed: "\<not> hasHistory vs tid \<Longrightarrow> distinct (map fst rows) \<Longrightarrow> vs_step vs (seedBaseline vs tid rows)"

inductive_cases vs_stepE: "vs_step vs vs'"

lemma know_simps [simp]: "set (know tid ts) = insert tid (set ts)" "distinct (know tid ts) = distinct ts"
  by (auto simp: know_def)

text \<open>What a step keeps: the invariant, the known tables, the counters' order, and the state
  at every version that both sides can still show.\<close>

definition keeps :: "vstore \<Rightarrow> vstore \<Rightarrow> bool" where
  "keeps vs vs' \<longleftrightarrow> vs_inv vs' \<and> set (knownTables vs) \<subseteq> set (knownTables vs') \<and>
     currentVersion vs \<le> currentVersion vs' \<and> baselineVersion vs \<le> baselineVersion vs' \<and>
     (\<forall>tid v. tid \<in> set (knownTables vs) \<and> baselineVersion vs' \<le> v \<and> v \<le> currentVersion vs \<longrightarrow>
        state_at vs' tid v = state_at vs tid v)"

lemma keeps_refl: "vs_inv vs \<Longrightarrow> keeps vs vs"
  by (simp add: keeps_def)

lemma keeps_trans: "keeps vs vs1 \<Longrightarrow> keeps vs1 vs2 \<Longrightarrow> keeps vs vs2"
  unfolding keeps_def by (metis le_trans subset_iff)

lemma state_at_cong:
  "vs_log vs' = vs_log vs \<Longrightarrow> vs_baseline vs' = vs_baseline vs \<Longrightarrow> baselineVersion vs' = baselineVersion vs \<Longrightarrow>
   state_at vs' tid v = state_at vs tid v"
  by (simp add: state_at_def baseline_rows_def)

lemma changes_in_split:
  assumes "base \<le> h" "h \<le> v" "sorted (map ch_version cs)"
  shows "changes_in base v tid cs = changes_in base h tid cs @ changes_in h v tid (filter (\<lambda>c. h < ch_version c) cs)"
  using assms(3)
proof (induction cs)
  case Nil
  then show ?case by (simp add: changes_in_def)
next
  case (Cons c cs)
  have "changes_in base h tid cs = []" if "h < ch_version c"
    using Cons.prems that by (force simp: changes_in_def filter_empty_conv)
  then show ?case using Cons assms(1,2) by (auto simp: changes_in_def)
qed

lemma gc_keeps:
  assumes inv: "vs_inv vs"
  shows "keeps vs (gc vs horizon)"
proof -
  define h where "h = (if horizon > currentVersion vs then currentVersion vs else horizon)"
  show ?thesis
  proof (cases "h \<le> baselineVersion vs")
    case True
    then have "gc vs horizon = vs" by (simp add: gc_def h_def [symmetric] Let_def)
    then show ?thesis using keeps_refl [OF inv] by simp
  next
    case False
    define vs' where "vs' = vs\<lparr>vs_log := filter (\<lambda>c. ch_version c > h) (vs_log vs),
        vs_baseline := map (\<lambda>tid. (tid, reconstruct vs tid h)) (knownTables vs), baselineVersion := h\<rparr>"
    have gc: "gc vs horizon = vs'" using False by (simp add: gc_def h_def [symmetric] vs'_def Let_def)
    have h: "h \<le> currentVersion vs" "baselineVersion vs \<le> h" using False by (auto simp: h_def)
    have lookup: "map_of (map (\<lambda>tid. (tid, f tid)) ts) tid = (if tid \<in> set ts then Some (f tid) else None)"
      for f :: "int \<Rightarrow> base_row list" and ts tid by (induction ts) auto
    have base: "baseline_rows vs' tid = (if tid \<in> set (knownTables vs) then reconstruct vs tid h else [])" for tid
      by (simp add: baseline_rows_def vs'_def lookup)
    have sorted: "sorted (map ch_version (vs_log vs))" using inv by (simp add: vs_inv_def)
    have "vs_inv vs'"
      using inv h reconstruct_spec(1) [OF inv] base
      by (auto simp: vs_inv_def) (auto simp: vs'_def sorted_filter)
    moreover have "state_at vs' tid v = state_at vs tid v"
      if "tid \<in> set (knownTables vs)" "h \<le> v" for tid v
    proof -
      have f: "baselineVersion vs' = h" by (simp add: vs'_def)
      have "state_at vs' tid v = foldl change_map (state_at vs tid h) (changes_in h v tid (vs_log vs'))"
        using that by (simp add: state_at_def [of vs'] f base reconstruct_spec(2) [OF inv])
      also have "\<dots> = state_at vs tid v"
        using changes_in_split [OF h(2) that(2) sorted, of tid] by (simp add: state_at_def vs'_def)
      finally show ?thesis .
    qed
    ultimately show ?thesis using h by (simp add: keeps_def gc vs'_def)
  qed
qed

lemma maybeGc_keeps: "vs_inv vs \<Longrightarrow> keeps vs (maybeGc vs)"
  using gc_keeps keeps_refl by (simp add: maybeGc_def)

text \<open>A commit puts the pending changes on top of the newest state.\<close>

definition committed :: "vstore \<Rightarrow> vstore" where
  "committed vs = vs\<lparr>currentVersion := currentVersion vs + 1,
     vs_log := vs_log vs @ map (\<lambda>c. c\<lparr>ch_version := currentVersion vs + 1\<rparr>) (vs_pending vs),
     vs_pending := []\<rparr>"

lemma commit_eq: "vs_pending vs \<noteq> [] \<Longrightarrow> commitPending vs = maybeGc (committed vs)"
  by (simp add: commitPending_def committed_def Let_def)

lemma foldl_stamped:
  "foldl change_map m (map (\<lambda>c. c\<lparr>ch_version := v\<rparr>) cs) = foldl change_map m cs"
  by (induction cs arbitrary: m) (simp_all add: change_map_def)

lemma committed_spec:
  assumes inv: "vs_inv vs"
  shows "keeps vs (committed vs)"
    "state_at (committed vs) tid (currentVersion vs + 1) =
       foldl change_map (state_at vs tid (currentVersion vs)) (filter (\<lambda>c. ch_table c = tid) (vs_pending vs))"
proof -
  define new where "new = map (\<lambda>c. c\<lparr>ch_version := currentVersion vs + 1\<rparr>) (vs_pending vs)"
  have b: "baseline_rows (committed vs) tid = baseline_rows vs tid" for tid
    by (simp add: baseline_rows_def committed_def)
  have "sorted (map ch_version (vs_log vs @ new))"
  proof -
    have "sorted (map ch_version new)" by (simp add: new_def comp_def map_replicate_const)
    then show ?thesis using inv by (fastforce simp: vs_inv_def sorted_append new_def)
  qed
  then have "vs_inv (committed vs)"
    using inv b by (fastforce simp: vs_inv_def committed_def new_def)
  moreover have "changes_in base v tid new = []" if "v \<le> currentVersion vs" for base v tid
    using that by (auto simp: changes_in_def new_def filter_empty_conv)
  moreover have split: "changes_in base v tid (vs_log (committed vs)) = changes_in base v tid (vs_log vs) @ changes_in base v tid new"
    for base v tid by (simp add: changes_in_def committed_def new_def)
  ultimately show "keeps vs (committed vs)"
    by (simp add: keeps_def state_at_def b) (simp add: committed_def)
  have "changes_in (baselineVersion vs) (currentVersion vs + 1) tid new =
      map (\<lambda>c. c\<lparr>ch_version := currentVersion vs + 1\<rparr>) (filter (\<lambda>c. ch_table c = tid) (vs_pending vs))"
    using inv by (auto simp: changes_in_def new_def filter_map comp_def vs_inv_def)
  moreover have "changes_in (baselineVersion vs) (currentVersion vs + 1) tid (vs_log vs) =
      changes_in (baselineVersion vs) (currentVersion vs) tid (vs_log vs)"
    using inv unfolding changes_in_def vs_inv_def by (intro filter_cong) auto
  moreover have "baselineVersion (committed vs) = baselineVersion vs" by (simp add: committed_def)
  ultimately show "state_at (committed vs) tid (currentVersion vs + 1) =
       foldl change_map (state_at vs tid (currentVersion vs)) (filter (\<lambda>c. ch_table c = tid) (vs_pending vs))"
    using split by (simp add: state_at_def b foldl_stamped)
qed

lemma commitPending_keeps: "vs_inv vs \<Longrightarrow> keeps vs (commitPending vs)"
proof (cases "vs_pending vs = []")
  case True
  then show "vs_inv vs \<Longrightarrow> ?thesis" by (simp add: commitPending_def keeps_refl)
next
  case False
  assume inv: "vs_inv vs"
  have "vs_inv (committed vs)" using committed_spec(1) [OF inv] by (simp add: keeps_def)
  then show ?thesis
    using keeps_trans [OF committed_spec(1) [OF inv] maybeGc_keeps] by (simp add: commit_eq False)
qed

lemma vs_step_keeps:
  assumes "vs_step vs vs'" "vs_inv vs"
  shows "keeps vs vs'"
  using assms
proof cases
  case (vs_seed tid rows)
  note 9 = vs_seed
  have new: "tid \<notin> set (knownTables vs)" using 9 by (simp add: hasHistory_def)
  have b: "baseline_rows vs' t = (if t = tid then rows else baseline_rows vs t)" for t
    by (simp add: 9 baseline_rows_def seedBaseline_def update_conv')
  have dom: "fst ` set (vs_baseline vs') = insert tid (fst ` set (vs_baseline vs))"
    using dom_update [of tid rows "vs_baseline vs"] by (simp add: 9 seedBaseline_def)
  have f: "vs_log vs' = vs_log vs" "vs_pending vs' = vs_pending vs" "knownTables vs' = know tid (knownTables vs)"
    "baselineVersion vs' = baselineVersion vs" "currentVersion vs' = currentVersion vs"
    by (simp_all add: 9 seedBaseline_def)
  have "vs_inv vs'"
    using assms(2) 9(3) unfolding vs_inv_def f b dom by auto
  moreover have "state_at vs' t v = state_at vs t v" if "t \<in> set (knownTables vs)" for t v
  proof -
    have "t \<noteq> tid" using that new by blast
    then show ?thesis by (simp add: state_at_def b f)
  qed
  ultimately show ?thesis by (auto simp: keeps_def f)
qed (use commitPending_keeps gc_keeps in
      \<open>auto simp: keeps_def vs_inv_def stageInsert_def stageDelete_def discardPending_def beginSnapshot_def
         endSnapshot_def setRetention_def baseline_rows_def state_at_def\<close>)

lemma vs_run_keeps: "vs_step\<^sup>*\<^sup>* vs vs' \<Longrightarrow> vs_inv vs \<Longrightarrow> keeps vs vs'"
proof (induction rule: rtranclp_induct)
  case base
  then show ?case by (rule keeps_refl)
next
  case (step vs1 vs2)
  then have k: "keeps vs vs1" by simp
  then have "vs_inv vs1" by (simp add: keeps_def)
  then show ?case using keeps_trans [OF k vs_step_keeps [OF step(2)]] by simp
qed

lemma vstore_open_inv: "vs_inv vstore_open"
  by (simp add: vs_inv_def vstore_open_def baseline_rows_def)

section \<open>Properties\<close>

text \<open>C13: History does not change: whatever statements, commits, roll-backs and garbage
  collections follow, \<open>AS OF\<close> a version that was committed and is still kept reads the same
  rows.\<close>

theorem history_immutable:
  assumes "vs_inv vs" "vs_step\<^sup>*\<^sup>* vs vs'" "hasHistory vs tid"
    and "baselineVersion vs' \<le> v" "v \<le> currentVersion vs"
  shows "mset (snapshotAsOf vs' tid v) = mset (snapshotAsOf vs tid v)"
proof -
  have k: "keeps vs vs'" by (rule vs_run_keeps [OF assms(2,1)])
  then have "vs_inv vs'" "baselineVersion vs \<le> v" "state_at vs' tid v = state_at vs tid v"
    using assms(3-5) by (auto simp: keeps_def hasHistory_def)
  then show ?thesis
    using assms(1,4) by (simp add: snapshotAsOf_spec max_absorb1)
qed

theorem history_immutable_witness:
  "let r = \<lparr>rpage = 1, rslot = 0\<rparr>; vs = commitPending (stageInsert vstore_open 7 r ''a'');
       vs' = commitPending (stageDelete vs 7 r)
   in mset (snapshotAsOf vs' 7 1) = {#''a''#} \<and> snapshotAsOf vs' 7 2 = []"
proof -
  define r where "r = \<lparr>rpage = (1 :: int), rslot = (0 :: int)\<rparr>"
  define vs where "vs = commitPending (stageInsert vstore_open 7 r ''a'')"
  define vs' where "vs' = commitPending (stageDelete vs 7 r)"
  note defs = vstore_open_def stageInsert_def stageDelete_def commitPending_def maybeGc_def know_def
    snapshotAsOf_def reconstruct_def baseline_rows_def images_of_def overlay_def push_row_def live_rows_def Let_def
  have "vs_step\<^sup>*\<^sup>* vstore_open vs" "vs_step\<^sup>*\<^sup>* vs vs'"
    unfolding vs_def vs'_def
    by (meson vs_commit vs_insert vs_delete converse_rtranclp_into_rtranclp rtranclp.rtrancl_refl)+
  then have h: "vs_inv vs" "vs_step\<^sup>*\<^sup>* vs vs'"
    using vs_run_keeps [OF _ vstore_open_inv] by (auto simp: keeps_def)
  have "hasHistory vs 7" "baselineVersion vs' \<le> 1" "1 \<le> currentVersion vs"
    "snapshotAsOf vs 7 1 = [''a'']" "snapshotAsOf vs' 7 2 = []"
    by (simp_all add: vs'_def vs_def hasHistory_def defs)
  then show ?thesis
    using history_immutable [OF h, of 7 1] by (simp add: Let_def vs_def vs'_def r_def)
qed

text \<open>C15: A transaction sees its own writes on its snapshot, and a commit publishes exactly what
  it saw: what \<open>snapshotForTxn\<close> reads at the newest version is what \<open>AS OF\<close> the version of
  its commit reads, unless the commit collects that version away.\<close>

theorem commit_publishes:
  assumes "vs_inv vs" "vs_pending vs \<noteq> []" "hasHistory vs tid"
  shows "currentVersion (commitPending vs) = currentVersion vs + 1 \<and>
    mset (snapshotAsOf (commitPending vs) tid (currentVersion vs + 1)) =
      mset (snapshotForTxn vs tid (currentVersion vs)) \<and>
    mset (snapshotForTxn vs tid (currentVersion vs)) =
      map_bag (foldl change_map (state_at vs tid (currentVersion vs))
        (filter (\<lambda>c. ch_table c = tid) (vs_pending vs)))"
proof -
  define vs1 where "vs1 = committed vs"
  note C = committed_spec [OF assms(1), folded vs1_def]
  have inv1: "vs_inv vs1" using C(1) by (simp add: keeps_def)
  have g: "keeps vs1 (commitPending vs)"
    using maybeGc_keeps [OF inv1] commit_eq [OF assms(2)] by (simp add: vs1_def)
  have cur: "currentVersion vs1 = currentVersion vs + 1" "set (knownTables vs1) = set (knownTables vs)"
    by (simp_all add: vs1_def committed_def)
  have same: "currentVersion (commitPending vs) = currentVersion vs1"
    using commit_eq [OF assms(2)] by (simp add: vs1_def maybeGc_def gc_def Let_def)
  then have base: "baselineVersion (commitPending vs) \<le> currentVersion vs + 1" "vs_inv (commitPending vs)"
    using g cur by (auto simp: keeps_def vs_inv_def)
  then have "state_at (commitPending vs) tid (currentVersion vs + 1) = state_at vs1 tid (currentVersion vs + 1)"
    using g cur assms(3) by (auto simp: keeps_def hasHistory_def)
  moreover have "baselineVersion vs \<le> currentVersion vs" using assms(1) by (simp add: vs_inv_def)
  ultimately show ?thesis
    using same cur(1) base snapshotAsOf_spec [OF base(2)] snapshotForTxn_spec [OF assms(1)] C(2)
    by (simp add: max_absorb1)
qed

theorem commit_publishes_witness:
  "let vs = stageInsert vstore_open 7 \<lparr>rpage = 1, rslot = 0\<rparr> ''a''
   in mset (snapshotAsOf (commitPending vs) 7 1) = mset (snapshotForTxn vs 7 0)"
proof -
  define vs where "vs = stageInsert vstore_open 7 \<lparr>rpage = 1, rslot = 0\<rparr> ''a''"
  have "keeps vstore_open vs"
    unfolding vs_def by (rule vs_step_keeps [OF vs_insert vstore_open_inv])
  then have "vs_inv vs" by (simp add: keeps_def)
  moreover have "vs_pending vs \<noteq> []" "hasHistory vs 7" "currentVersion vs = 0"
    by (simp_all add: vs_def stageInsert_def hasHistory_def vstore_open_def)
  ultimately show ?thesis using commit_publishes [of vs 7] by (simp add: Let_def vs_def [symmetric])
qed

end
