(* ===== verification/VersionFile.thy ===== *)
theory VersionFile
  imports VersionStore
begin

text \<open>
  The text form of the version store, \<open>VersionStore::serialize\<close> and \<open>deserialize\<close>. An input
  stream is what is left to read and whether it is still good: an extraction skips white
  space, leaves its target alone when the stream is bad or at its end, and makes the stream
  bad when it finds no number (the target is then 0) or one out of range (the nearest bound).
\<close>

section \<open>Input streams\<close>

record istream =
  in_buf :: string
  in_ok :: bool

definition in_fail :: "string \<Rightarrow> istream" where
  "in_fail cs = \<lparr>in_buf = cs, in_ok = False\<rparr>"

definition in_good :: "string \<Rightarrow> istream" where
  "in_good cs = \<lparr>in_buf = cs, in_ok = True\<rparr>"

text \<open>The number at the front of the text: its sign, its digits, the rest.\<close>

definition scan_num :: "string \<Rightarrow> bool \<times> string \<times> string" where
  "scan_num cs = (case sign_split cs of (neg, ds) \<Rightarrow> (neg, takeWhile is_digit ds, dropWhile is_digit ds))"

definition get_u64 :: "istream \<Rightarrow> nat \<Rightarrow> nat \<times> istream" where
  "get_u64 st old =
     (let cs = dropWhile is_space (in_buf st)
      in if \<not> in_ok st then (old, st)
         else if cs = [] then (old, in_fail [])
         else case scan_num cs of (neg, ds, rest) \<Rightarrow>
           if ds = [] then (0, in_fail rest)
           else if digits_val ds \<ge> 2 ^ 64 then (2 ^ 64 - 1, in_fail rest)
           else (if neg then (2 ^ 64 - digits_val ds) mod 2 ^ 64 else digits_val ds, in_good rest))"

definition get_signed :: "nat \<Rightarrow> istream \<Rightarrow> int \<Rightarrow> int \<times> istream" where
  "get_signed w st old =
     (let cs = dropWhile is_space (in_buf st)
      in if \<not> in_ok st then (old, st)
         else if cs = [] then (old, in_fail [])
         else case scan_num cs of (neg, ds, rest) \<Rightarrow>
           let v = (if neg then - int (digits_val ds) else int (digits_val ds))
           in if ds = [] then (0, in_fail rest)
              else if v < - (2 ^ (w - 1)) then (- (2 ^ (w - 1)), in_fail rest)
              else if v \<ge> 2 ^ (w - 1) then (2 ^ (w - 1) - 1, in_fail rest)
              else (v, in_good rest))"

definition get_word :: "istream \<Rightarrow> string \<times> istream" where
  "get_word st =
     (let cs = dropWhile is_space (in_buf st)
      in if \<not> in_ok st then ([], st)
         else if cs = [] then ([], in_fail [])
         else (takeWhile (\<lambda>c. \<not> is_space c) cs, in_good (dropWhile (\<lambda>c. \<not> is_space c) cs)))"

definition get_char :: "istream \<Rightarrow> istream" where
  "get_char st =
     (if \<not> in_ok st then st
      else case in_buf st of [] \<Rightarrow> in_fail [] | c # cs \<Rightarrow> in_good cs)"

text \<open>\<open>in.read\<close> into a string of that many zero characters.\<close>

definition get_raw :: "nat \<Rightarrow> istream \<Rightarrow> bytes \<times> istream" where
  "get_raw n st =
     (let got = (if in_ok st then take n (in_buf st) else [])
      in (got @ replicate (n - length got) (char_of (0::nat)),
          if \<not> in_ok st then st
          else if length (in_buf st) < n then in_fail [] else in_good (drop n (in_buf st))))"

section \<open>The file\<close>

definition newline :: char where
  "newline = char_of (10::nat)"

definition writeBytes :: "bytes \<Rightarrow> string" where
  "writeBytes s = nat_str (length s) @ '' '' @ s @ [newline]"

definition readBytes :: "istream \<Rightarrow> bytes \<times> istream" where
  "readBytes st =
     (case get_signed 64 st 0 of (len, st) \<Rightarrow>
        let st = get_char st
        in if len > 0 then get_raw (nat len) st else ([], st))"

definition write_row :: "base_row \<Rightarrow> string" where
  "write_row br = int_str (rpage (fst br)) @ '' '' @ int_str (rslot (fst br)) @ '' '' @ writeBytes (snd br)"

definition write_table :: "int \<times> base_row list \<Rightarrow> string" where
  "write_table tr = int_str (fst tr) @ '' '' @ nat_str (length (snd tr)) @ [newline] @ concat (map write_row (snd tr))"

definition write_change :: "change \<Rightarrow> string" where
  "write_change c =
     nat_str (ch_version c) @ '' '' @ int_str (ch_table c) @ '' '' @
     (if ch_delete c then ''1'' else ''0'') @ '' '' @
     int_str (rpage (ch_rid c)) @ '' '' @ int_str (rslot (ch_rid c)) @ '' '' @ writeBytes (ch_bytes c)"

definition vs_serialize :: "vstore \<Rightarrow> string" where
  "vs_serialize vs =
     ''RVS1'' @ [newline] @
     nat_str (currentVersion vs) @ '' '' @ nat_str (baselineVersion vs) @ [newline] @
     nat_str (length (vs_baseline vs)) @ [newline] @ concat (map write_table (vs_baseline vs)) @
     nat_str (length (vs_log vs)) @ [newline] @ concat (map write_change (vs_log vs))"

definition read_row :: "istream \<Rightarrow> base_row \<times> istream" where
  "read_row st =
     (case get_signed 32 st (rpage no_rid) of (p, st) \<Rightarrow>
      case get_signed 32 st (rslot no_rid) of (s, st) \<Rightarrow>
      case readBytes (get_char st) of (b, st) \<Rightarrow> ((\<lparr>rpage = p, rslot = s\<rparr>, b), st))"

definition read_change :: "istream \<Rightarrow> change \<times> istream" where
  "read_change st =
     (case get_u64 st 0 of (v, st) \<Rightarrow>
      case get_signed 32 st 0 of (t, st) \<Rightarrow>
      case get_signed 32 st 0 of (d, st) \<Rightarrow>
      case get_signed 32 st (rpage no_rid) of (p, st) \<Rightarrow>
      case get_signed 32 st (rslot no_rid) of (s, st) \<Rightarrow>
      case readBytes (get_char st) of (b, st) \<Rightarrow>
        (\<lparr>ch_version = v, ch_table = t, ch_delete = (d \<noteq> 0), ch_rid = \<lparr>rpage = p, rslot = s\<rparr>, ch_bytes = b\<rparr>, st))"

fun read_times :: "(istream \<Rightarrow> 'a \<times> istream) \<Rightarrow> nat \<Rightarrow> istream \<Rightarrow> 'a list \<times> istream" where
  "read_times f 0 st = ([], st)"
| "read_times f (Suc n) st =
     (case f st of (x, st) \<Rightarrow> case read_times f n st of (xs, st) \<Rightarrow> (x # xs, st))"

definition read_table :: "istream \<Rightarrow> (int \<times> base_row list) \<times> istream" where
  "read_table st =
     (case get_signed 32 st 0 of (t, st) \<Rightarrow>
      case get_u64 st 0 of (n, st) \<Rightarrow>
      case read_times read_row n st of (rows, st) \<Rightarrow> ((t, rows), st))"

definition vs_deserialize :: "vstore \<Rightarrow> string \<Rightarrow> vstore" where
  "vs_deserialize vs text =
     (case get_word (in_good text) of (magic, st) \<Rightarrow>
        if magic \<noteq> ''RVS1'' then vs
        else
          case get_u64 st (currentVersion vs) of (version, st) \<Rightarrow>
          case get_u64 st (baselineVersion vs) of (base, st) \<Rightarrow>
          case get_u64 st 0 of (nbase, st) \<Rightarrow>
          case read_times read_table nbase st of (tables, st) \<Rightarrow>
          case get_u64 st 0 of (nlog, st) \<Rightarrow>
          case read_times read_change nlog st of (log, st) \<Rightarrow>
            vs\<lparr>vs_log := log, vs_pending := [],
               vs_baseline := foldl (\<lambda>m (t, rows). AList.update t rows m) [] tables,
               knownTables := foldl (\<lambda>ts t. know t ts) [] (map fst tables @ map ch_table log),
               currentVersion := version, baselineVersion := base\<rparr>)"

section \<open>Round trip\<close>

lemma space_simps [simp]: "is_space (CHR '' '')" "is_space newline" "\<not> is_digit (CHR '' '')" "\<not> is_digit newline"
  by (simp_all add: is_space_def is_digit_def newline_def)

definition in_i32s :: "int list \<Rightarrow> bool" where
  "in_i32s is \<longleftrightarrow> (\<forall>i\<in>set is. - (2 ^ 31) \<le> i \<and> i < 2 ^ 31)"

lemma digit_str: "nat_str 0 = ''0''" "nat_str (Suc 0) = ''1''"
  by (simp_all add: nat_str.simps digit_char_def char_of_def bit_0)

text \<open>What may follow a number: nothing, or a character that does not continue it.\<close>

definition ends_num :: "string \<Rightarrow> bool" where
  "ends_num cs \<longleftrightarrow> (case cs of [] \<Rightarrow> True | c # _ \<Rightarrow> \<not> is_digit c)"

lemma ends_num_simps [simp]:
  "ends_num (CHR '' '' # cs)" "ends_num (newline # cs)" "ends_num []"
  by (simp_all add: ends_num_def)

lemma nat_str_scan:
  assumes "ends_num rest"
  shows "scan_num (nat_str n @ rest) = (False, nat_str n, rest)"
    "scan_num (CHR ''-'' # nat_str n @ rest) = (True, nat_str n, rest)"
    "dropWhile is_space (nat_str n @ rest) = nat_str n @ rest"
proof -
  obtain c cs where n: "nat_str n = c # cs" by (cases "nat_str n") auto
  then have c: "is_digit c" using nat_str_digits [of c n] by simp
  have t: "takeWhile is_digit (nat_str n @ rest) = nat_str n" "dropWhile is_digit (nat_str n @ rest) = rest"
    using assms nat_str_digits [of _ n]
    by (cases rest; auto simp: ends_num_def takeWhile_append dropWhile_append)+
  show "scan_num (nat_str n @ rest) = (False, nat_str n, rest)"
    using t c is_digit_not_special [of c] by (simp add: scan_num_def sign_split_def n)
  show "scan_num (CHR ''-'' # nat_str n @ rest) = (True, nat_str n, rest)"
    using t by (simp add: scan_num_def sign_split_def)
  show "dropWhile is_space (nat_str n @ rest) = nat_str n @ rest"
    using is_digit_not_special [OF c] by (simp add: n)
qed

lemma spaces_drop: "\<forall>c\<in>set w. is_space c \<Longrightarrow> dropWhile is_space (w @ cs) = dropWhile is_space cs"
  by (induction w) auto

lemma get_u64_str:
  assumes "n < 2 ^ 64" "ends_num rest" "\<forall>c\<in>set w. is_space c"
  shows "get_u64 (in_good (w @ nat_str n @ rest)) old = (n, in_good rest)"
  using assms nat_str_scan [OF assms(2), of n]
  by (simp add: get_u64_def in_good_def spaces_drop Let_def)

lemma get_signed_str:
  assumes "- (2 ^ (w - 1)) \<le> i" "i < 2 ^ (w - 1)" "ends_num rest" "\<forall>c\<in>set ws. is_space c"
  shows "get_signed w (in_good (ws @ int_str i @ rest)) old = (i, in_good rest)"
proof -
  have "\<not> is_space (CHR ''-'')" by (simp add: is_space_def)
  then show ?thesis
    using assms nat_str_scan [OF assms(3)]
    by (simp add: get_signed_def in_good_def spaces_drop Let_def int_str_def del: dropWhile_eq_Nil_conv)
qed

lemma int_str_of_nat: "int_str (int n) = nat_str n"
  by (simp add: int_str_def)

lemma readBytes_write:
  assumes "length s < 2 ^ 63"
  shows "readBytes (in_good (writeBytes s @ rest)) = (s, in_good (newline # rest))"
proof -
  have "get_signed 64 (in_good ([] @ int_str (int (length s)) @ (CHR '' '' # s @ newline # rest))) 0 =
      (int (length s), in_good (CHR '' '' # s @ newline # rest))"
    by (rule get_signed_str) (use assms in auto)
  then show ?thesis
    by (simp add: readBytes_def writeBytes_def int_str_of_nat get_char_def get_raw_def in_good_def Let_def)
qed

text \<open>What the code can write: identifiers of 32 bits, versions of 64, texts that fit memory.\<close>

definition row_fits :: "base_row \<Rightarrow> bool" where
  "row_fits br \<longleftrightarrow> in_i32s [rpage (fst br), rslot (fst br)] \<and> length (snd br) < 2 ^ 63"

definition change_fits :: "change \<Rightarrow> bool" where
  "change_fits c \<longleftrightarrow> ch_version c < 2 ^ 64 \<and> in_i32s [ch_table c, rpage (ch_rid c), rslot (ch_rid c)] \<and>
     length (ch_bytes c) < 2 ^ 63"

definition vs_fits :: "vstore \<Rightarrow> bool" where
  "vs_fits vs \<longleftrightarrow> currentVersion vs < 2 ^ 64 \<and> baselineVersion vs < 2 ^ 64 \<and>
     length (vs_baseline vs) < 2 ^ 64 \<and> length (vs_log vs) < 2 ^ 64 \<and>
     (\<forall>(t, rows)\<in>set (vs_baseline vs). in_i32s [t] \<and> length rows < 2 ^ 64 \<and> (\<forall>br\<in>set rows. row_fits br)) \<and>
     distinct (map fst (vs_baseline vs)) \<and> (\<forall>c\<in>set (vs_log vs). change_fits c)"

lemma int32_read:
  assumes "in_i32s [i]" "ends_num rest" "\<forall>c\<in>set ws. is_space c"
  shows "get_signed 32 (in_good (ws @ int_str i @ rest)) old = (i, in_good rest)"
  using assms by (intro get_signed_str) (auto simp: in_i32s_def)

lemma read_row_write:
  assumes "row_fits br" "\<forall>c\<in>set w. is_space c"
  shows "read_row (in_good (w @ write_row br @ rest)) = (br, in_good (newline # rest))"
proof -
  obtain r b where br: "br = (r, b)" by (cases br)
  define tail where "tail = CHR '' '' # writeBytes b @ rest"
  have i: "in_i32s [rpage r]" "in_i32s [rslot r]" "length b < 2 ^ 63"
    using assms(1) by (auto simp: row_fits_def br in_i32s_def)
  have 1: "get_signed 32 (in_good (w @ int_str (rpage r) @ (CHR '' '' # int_str (rslot r) @ tail))) x =
      (rpage r, in_good (CHR '' '' # int_str (rslot r) @ tail))" for x
    by (rule int32_read) (use i assms(2) in auto)
  have 2: "get_signed 32 (in_good ('' '' @ int_str (rslot r) @ tail)) x = (rslot r, in_good tail)" for x
    by (rule int32_read) (use i in \<open>auto simp: tail_def\<close>)
  have 3: "get_char (in_good tail) = in_good (writeBytes b @ rest)"
    by (simp add: get_char_def in_good_def tail_def)
  show ?thesis
    using 1 2 3 readBytes_write [OF i(3), of rest]
    by (simp add: read_row_def write_row_def br tail_def)
qed

lemma read_change_write:
  assumes "change_fits c" "\<forall>c\<in>set w. is_space c"
  shows "read_change (in_good (w @ write_change c @ rest)) = (c, in_good (newline # rest))"
proof -
  define t5 where "t5 = CHR '' '' # writeBytes (ch_bytes c) @ rest"
  define t4 where "t4 = CHR '' '' # int_str (rslot (ch_rid c)) @ t5"
  define t3 where "t3 = CHR '' '' # int_str (rpage (ch_rid c)) @ t4"
  define t2 where "t2 = CHR '' '' # int_str (if ch_delete c then 1 else 0) @ t3"
  define t1 where "t1 = CHR '' '' # int_str (ch_table c) @ t2"
  note ts = t1_def t2_def t3_def t4_def t5_def
  have f: "in_i32s [ch_table c]" "in_i32s [rpage (ch_rid c)]" "in_i32s [rslot (ch_rid c)]"
    "in_i32s [if ch_delete c then 1 else 0]" "length (ch_bytes c) < 2 ^ 63" "ch_version c < 2 ^ 64"
    using assms(1) by (auto simp: change_fits_def in_i32s_def)
  have w: "w @ write_change c @ rest = w @ nat_str (ch_version c) @ t1"
    using int_str_of_nat [of 0] int_str_of_nat [of 1] digit_str by (simp add: write_change_def ts)
  have "get_u64 (in_good (w @ nat_str (ch_version c) @ t1)) x = (ch_version c, in_good t1)" for x
    by (rule get_u64_str) (use f assms(2) in \<open>auto simp: ts\<close>)
  moreover have "get_signed 32 (in_good t1) x = (ch_table c, in_good t2)" for x
    using int32_read [OF f(1), of t2 "'' ''"] by (simp add: ts)
  moreover have "get_signed 32 (in_good t2) x = (if ch_delete c then 1 else 0, in_good t3)" for x
    using int32_read [OF f(4), of t3 "'' ''"] by (simp add: ts)
  moreover have "get_signed 32 (in_good t3) x = (rpage (ch_rid c), in_good t4)" for x
    using int32_read [OF f(2), of t4 "'' ''"] by (simp add: ts)
  moreover have "get_signed 32 (in_good t4) x = (rslot (ch_rid c), in_good t5)" for x
    using int32_read [OF f(3), of t5 "'' ''"] by (simp add: ts)
  moreover have "get_char (in_good t5) = in_good (writeBytes (ch_bytes c) @ rest)"
    by (simp add: get_char_def in_good_def t5_def)
  ultimately show ?thesis
    using readBytes_write [OF f(5), of rest] by (simp add: read_change_def w)
qed

lemma read_times_write:
  assumes "\<And>x rest w. x \<in> set xs \<Longrightarrow> \<forall>c\<in>set w. is_space c \<Longrightarrow> \<exists>w'. (\<forall>c\<in>set w'. is_space c) \<and>
      f (in_good (w @ out x @ rest)) = (x, in_good (w' @ rest))"
    and "\<forall>c\<in>set w. is_space c"
  shows "\<exists>w'. (\<forall>c\<in>set w'. is_space c) \<and>
    read_times f (length xs) (in_good (w @ concat (map out xs) @ rest)) = (xs, in_good (w' @ rest))"
  using assms
proof (induction xs arbitrary: w)
  case Nil
  then show ?case by auto
next
  case (Cons x xs)
  obtain w1 where w1: "\<forall>c\<in>set w1. is_space c"
    "f (in_good (w @ out x @ concat (map out xs) @ rest)) = (x, in_good (w1 @ concat (map out xs) @ rest))"
    using Cons.prems(1) [of x w "concat (map out xs) @ rest"] Cons.prems(2) by auto
  moreover obtain w2 where "\<forall>c\<in>set w2. is_space c"
    "read_times f (length xs) (in_good (w1 @ concat (map out xs) @ rest)) = (xs, in_good (w2 @ rest))"
    using Cons.IH [OF _ w1(1)] Cons.prems(1) by (metis list.set_intros(2))
  ultimately show ?case by auto
qed

lemma read_table_write:
  assumes "in_i32s [t]" "length rows < 2 ^ 64" "\<forall>br\<in>set rows. row_fits br" "\<forall>c\<in>set w. is_space c"
  shows "\<exists>w'. (\<forall>c\<in>set w'. is_space c) \<and>
    read_table (in_good (w @ write_table (t, rows) @ rest)) = ((t, rows), in_good (w' @ rest))"
proof -
  define t2 where "t2 = newline # concat (map write_row rows) @ rest"
  have 1: "get_signed 32 (in_good (w @ int_str t @ (CHR '' '' # nat_str (length rows) @ t2))) x =
      (t, in_good (CHR '' '' # nat_str (length rows) @ t2))" for x
    by (rule int32_read) (use assms in auto)
  have 2: "get_u64 (in_good ('' '' @ nat_str (length rows) @ t2)) x = (length rows, in_good t2)" for x
    by (rule get_u64_str) (use assms in \<open>auto simp: t2_def\<close>)
  obtain w' where "\<forall>c\<in>set w'. is_space c" "read_times read_row (length rows) (in_good t2) = (rows, in_good (w' @ rest))"
  proof -
    have rd: "\<exists>w'. (\<forall>c\<in>set w'. is_space c) \<and> read_row (in_good (w @ write_row br @ cs)) = (br, in_good (w' @ cs))"
      if "br \<in> set rows" "\<forall>c\<in>set w. is_space c" for br w cs
      using read_row_write [of br w cs] assms(3) that by (intro exI [of _ "[newline]"]) simp
    have "\<exists>w'. (\<forall>c\<in>set w'. is_space c) \<and>
        read_times read_row (length rows) (in_good ([newline] @ concat (map write_row rows) @ rest)) = (rows, in_good (w' @ rest))"
      by (rule read_times_write) (use rd in auto)
    then show ?thesis using that by (auto simp: t2_def)
  qed
  then show ?thesis using 1 2 by (simp add: read_table_def write_table_def t2_def) blast
qed

lemma foldl_update_distinct:
  "distinct (map fst acc @ map fst xs) \<Longrightarrow> foldl (\<lambda>m (t, rows). AList.update t rows m) acc xs = acc @ xs"
proof (induction xs arbitrary: acc)
  case Nil
  then show ?case by simp
next
  case (Cons x xs)
  obtain t rows where x: "x = (t, rows)" by (cases x)
  have "t \<notin> fst ` set acc" using Cons.prems by (auto simp: x)
  then have "AList.update t rows acc = acc @ [(t, rows)]"
    by (induction acc) auto
  then show ?case using Cons.IH [of "acc @ [(t, rows)]"] Cons.prems by (simp add: x)
qed

lemma vs_file_round_trip:
  assumes "vs_fits vs"
  shows "vs_log (vs_deserialize vs0 (vs_serialize vs)) = vs_log vs \<and>
    vs_baseline (vs_deserialize vs0 (vs_serialize vs)) = vs_baseline vs \<and>
    currentVersion (vs_deserialize vs0 (vs_serialize vs)) = currentVersion vs \<and>
    baselineVersion (vs_deserialize vs0 (vs_serialize vs)) = baselineVersion vs \<and>
    vs_pending (vs_deserialize vs0 (vs_serialize vs)) = []"
proof -
  note fits = assms [unfolded vs_fits_def]
  define t5 where "t5 = newline # concat (map write_change (vs_log vs)) @ []"
  define t4 where "t4 = nat_str (length (vs_log vs)) @ t5"
  define t3 where "t3 = newline # concat (map write_table (vs_baseline vs)) @ t4"
  define t2 where "t2 = newline # nat_str (length (vs_baseline vs)) @ t3"
  define t1 where "t1 = CHR '' '' # nat_str (baselineVersion vs) @ t2"
  define t0 where "t0 = newline # nat_str (currentVersion vs) @ t1"
  note ts = t0_def t1_def t2_def t3_def t4_def t5_def
  have file_text: "vs_serialize vs = ''RVS1'' @ t0" by (simp add: vs_serialize_def ts)
  have "\<not> is_space (CHR ''R'')" "\<not> is_space (CHR ''V'')" "\<not> is_space (CHR ''S'')" "\<not> is_space (CHR ''1'')"
    by (simp_all add: is_space_def)
  then have 0: "get_word (in_good (vs_serialize vs)) = (''RVS1'', in_good t0)"
    by (simp add: get_word_def in_good_def file_text t0_def)
  have 1: "get_u64 (in_good t0) x = (currentVersion vs, in_good t1)" for x
    using get_u64_str [of "currentVersion vs" t1 "[newline]" x] fits by (simp add: ts)
  have 2: "get_u64 (in_good t1) x = (baselineVersion vs, in_good t2)" for x
    using get_u64_str [of "baselineVersion vs" t2 "'' ''" x] fits by (simp add: ts)
  have 3: "get_u64 (in_good t2) x = (length (vs_baseline vs), in_good t3)" for x
    using get_u64_str [of "length (vs_baseline vs)" t3 "[newline]" x] fits by (simp add: ts)
  have tab: "\<exists>w'. (\<forall>c\<in>set w'. is_space c) \<and>
      read_times read_table (length (vs_baseline vs)) (in_good ([newline] @ concat (map write_table (vs_baseline vs)) @ t4)) =
        (vs_baseline vs, in_good (w' @ t4))"
  proof (rule read_times_write)
    fix x cs and w :: string
    assume x: "x \<in> set (vs_baseline vs)" and w: "\<forall>c\<in>set w. is_space c"
    obtain t rows where "x = (t, rows)" by (cases x)
    then show "\<exists>w'. (\<forall>c\<in>set w'. is_space c) \<and> read_table (in_good (w @ write_table x @ cs)) = (x, in_good (w' @ cs))"
      using read_table_write [of t rows w cs] fits x w by auto
  qed simp
  then obtain w4 where 4: "\<forall>c\<in>set w4. is_space c"
    "read_times read_table (length (vs_baseline vs)) (in_good t3) = (vs_baseline vs, in_good (w4 @ t4))"
    by (auto simp: t3_def)
  have 5: "get_u64 (in_good (w4 @ t4)) x = (length (vs_log vs), in_good t5)" for x
    unfolding t4_def by (rule get_u64_str) (use fits 4(1) in \<open>auto simp: t5_def\<close>)
  have "\<exists>w'. (\<forall>c\<in>set w'. is_space c) \<and>
      read_times read_change (length (vs_log vs)) (in_good ([newline] @ concat (map write_change (vs_log vs)) @ [])) =
        (vs_log vs, in_good (w' @ []))"
  proof (rule read_times_write)
    fix x cs and w :: string
    assume x: "x \<in> set (vs_log vs)" and w: "\<forall>c\<in>set w. is_space c"
    then show "\<exists>w'. (\<forall>c\<in>set w'. is_space c) \<and> read_change (in_good (w @ write_change x @ cs)) = (x, in_good (w' @ cs))"
      using read_change_write [of x w cs] fits by (intro exI [of _ "[newline]"]) simp
  qed simp
  then obtain st where 6: "read_times read_change (length (vs_log vs)) (in_good t5) = (vs_log vs, st)"
    by (auto simp: t5_def)
  have d: "foldl (\<lambda>m (t, rows). AList.update t rows m) [] (vs_baseline vs) = vs_baseline vs"
    using foldl_update_distinct [of "[]" "vs_baseline vs"] fits by simp
  show ?thesis by (simp add: vs_deserialize_def 0 1 2 3 4(2) 5 6 d)
qed

section \<open>Properties\<close>

text \<open>C16: Time travel survives a restart: the text \<open>serialize\<close> writes is read back to the same
  versions, baselines and changes, whatever the record bytes contain, and every \<open>AS OF\<close> read
  gives the same rows in the same order as before.\<close>

theorem version_file_round_trip:
  assumes "vs_fits vs"
  shows "snapshotAsOf (vs_deserialize vs0 (vs_serialize vs)) tid v = snapshotAsOf vs tid v \<and>
    vs_log (vs_deserialize vs0 (vs_serialize vs)) = vs_log vs \<and>
    vs_baseline (vs_deserialize vs0 (vs_serialize vs)) = vs_baseline vs \<and>
    currentVersion (vs_deserialize vs0 (vs_serialize vs)) = currentVersion vs \<and>
    baselineVersion (vs_deserialize vs0 (vs_serialize vs)) = baselineVersion vs \<and>
    vs_pending (vs_deserialize vs0 (vs_serialize vs)) = []"
  using vs_file_round_trip [OF assms, of vs0]
  by (simp add: snapshotAsOf_def reconstruct_def baseline_rows_def)

theorem version_file_round_trip_witness:
  "snapshotAsOf (vs_deserialize vstore_open (vs_serialize
     (vstore_open\<lparr>vs_baseline := [(7, [(\<lparr>rpage = 1, rslot = 0\<rparr>, ''a b'')])], currentVersion := 3\<rparr>))) 7 3 = [''a b'']"
  using version_file_round_trip [of "vstore_open\<lparr>vs_baseline := [(7, [(\<lparr>rpage = 1, rslot = 0\<rparr>, ''a b'')])], currentVersion := 3\<rparr>"]
  by (simp add: vs_fits_def row_fits_def in_i32s_def vstore_open_def snapshotAsOf_def reconstruct_def
      baseline_rows_def images_of_def push_row_def live_rows_def)

end
