(* ===== verification/Tokens.thy ===== *)
theory Tokens
  imports Numerals
begin

text \<open>
  Tokens, \<open>src/include/frontend/token.hpp\<close>, with the keyword table and the names of
  \<open>src/src/frontend/lexer.cpp\<close>. The enumerators of \<open>TokenType\<close> are grouped in the order the
  source lists them (statements, clauses, words inside expressions, symbols); the name of each is
  that of the source behind \<open>T_\<close>. The words of the language are not those of SQL: \<open>FETCH\<close> is
  the token \<open>SELECT\<close>, \<open>WHEN\<close> is \<open>WHERE\<close>, \<open>LINK\<close> is \<open>JOIN\<close>.
\<close>

datatype stmt_token =
    K_SELECT | K_FROM | K_WHERE | K_INSERT | K_INTO | K_VALUES | K_CREATE | K_TABLE | K_INDEX
    | K_ON | K_DELETE | K_UPDATE | K_SET | K_DROP | K_ALTER | K_TRUNCATE | K_RETURNING
    | K_CONFLICT | K_DO | K_NOTHING | K_ADD | K_COLUMN | K_REFERENCES | K_FOREIGN | K_KEY
    | K_PRIMARY | K_UNIQUE | K_DEFAULT | K_CHECK | K_AUTOINCR | K_CASCADE | K_RESTRICT

datatype clause_token =
    K_ORDER | K_BY | K_GROUP | K_HAVING | K_OVER | K_PARTITION | K_OF | K_LIMIT | K_OFFSET
    | K_CASE | K_THEN | K_ELSE | K_END | K_EXPLAIN | K_VIEW | K_AS | K_ASC | K_DESC | K_JOIN
    | K_INNER | K_LEFT | K_RIGHT | K_FULL | K_CROSS | K_DISTINCT | K_UNION | K_INTERSECT
    | K_EXCEPT | K_ALL

datatype word_token =
    K_IS | K_IN | K_BETWEEN | K_LIKE | K_NULL_LITERAL | K_EXISTS | K_BEGIN | K_COMMIT | K_ROLLBACK
    | K_TRANSACTION | K_AND | K_OR | K_NOT | K_INT_TYPE | K_BOOL_TYPE | K_TEXT_TYPE | K_VARCHAR
    | K_FLOAT_TYPE | K_DATE_TYPE | K_TIMESTAMP_TYPE | K_TRUE | K_FALSE

datatype symbol_token =
    K_IDENTIFIER | K_INTEGER_LITERAL | K_FLOAT_LITERAL | K_STRING_LITERAL | K_EQ | K_NEQ | K_LT
    | K_LEQ | K_GT | K_GEQ | K_PLUS | K_MINUS | K_SLASH | K_LPAREN | K_RPAREN | K_COMMA
    | K_SEMICOLON | K_STAR | K_DOT | K_END_OF_FILE | K_UNKNOWN

datatype token_type = Stmt stmt_token | Clause clause_token | Word word_token | Symbol symbol_token

abbreviation "T_SELECT \<equiv> Stmt K_SELECT"
abbreviation "T_FROM \<equiv> Stmt K_FROM"
abbreviation "T_WHERE \<equiv> Stmt K_WHERE"
abbreviation "T_INSERT \<equiv> Stmt K_INSERT"
abbreviation "T_INTO \<equiv> Stmt K_INTO"
abbreviation "T_VALUES \<equiv> Stmt K_VALUES"
abbreviation "T_CREATE \<equiv> Stmt K_CREATE"
abbreviation "T_TABLE \<equiv> Stmt K_TABLE"
abbreviation "T_INDEX \<equiv> Stmt K_INDEX"
abbreviation "T_ON \<equiv> Stmt K_ON"
abbreviation "T_DELETE \<equiv> Stmt K_DELETE"
abbreviation "T_UPDATE \<equiv> Stmt K_UPDATE"
abbreviation "T_SET \<equiv> Stmt K_SET"
abbreviation "T_DROP \<equiv> Stmt K_DROP"
abbreviation "T_ALTER \<equiv> Stmt K_ALTER"
abbreviation "T_TRUNCATE \<equiv> Stmt K_TRUNCATE"
abbreviation "T_RETURNING \<equiv> Stmt K_RETURNING"
abbreviation "T_CONFLICT \<equiv> Stmt K_CONFLICT"
abbreviation "T_DO \<equiv> Stmt K_DO"
abbreviation "T_NOTHING \<equiv> Stmt K_NOTHING"
abbreviation "T_ADD \<equiv> Stmt K_ADD"
abbreviation "T_COLUMN \<equiv> Stmt K_COLUMN"
abbreviation "T_REFERENCES \<equiv> Stmt K_REFERENCES"
abbreviation "T_FOREIGN \<equiv> Stmt K_FOREIGN"
abbreviation "T_KEY \<equiv> Stmt K_KEY"
abbreviation "T_PRIMARY \<equiv> Stmt K_PRIMARY"
abbreviation "T_UNIQUE \<equiv> Stmt K_UNIQUE"
abbreviation "T_DEFAULT \<equiv> Stmt K_DEFAULT"
abbreviation "T_CHECK \<equiv> Stmt K_CHECK"
abbreviation "T_AUTOINCR \<equiv> Stmt K_AUTOINCR"
abbreviation "T_CASCADE \<equiv> Stmt K_CASCADE"
abbreviation "T_RESTRICT \<equiv> Stmt K_RESTRICT"
abbreviation "T_ORDER \<equiv> Clause K_ORDER"
abbreviation "T_BY \<equiv> Clause K_BY"
abbreviation "T_GROUP \<equiv> Clause K_GROUP"
abbreviation "T_HAVING \<equiv> Clause K_HAVING"
abbreviation "T_OVER \<equiv> Clause K_OVER"
abbreviation "T_PARTITION \<equiv> Clause K_PARTITION"
abbreviation "T_OF \<equiv> Clause K_OF"
abbreviation "T_LIMIT \<equiv> Clause K_LIMIT"
abbreviation "T_OFFSET \<equiv> Clause K_OFFSET"
abbreviation "T_CASE \<equiv> Clause K_CASE"
abbreviation "T_THEN \<equiv> Clause K_THEN"
abbreviation "T_ELSE \<equiv> Clause K_ELSE"
abbreviation "T_END \<equiv> Clause K_END"
abbreviation "T_EXPLAIN \<equiv> Clause K_EXPLAIN"
abbreviation "T_VIEW \<equiv> Clause K_VIEW"
abbreviation "T_AS \<equiv> Clause K_AS"
abbreviation "T_ASC \<equiv> Clause K_ASC"
abbreviation "T_DESC \<equiv> Clause K_DESC"
abbreviation "T_JOIN \<equiv> Clause K_JOIN"
abbreviation "T_INNER \<equiv> Clause K_INNER"
abbreviation "T_LEFT \<equiv> Clause K_LEFT"
abbreviation "T_RIGHT \<equiv> Clause K_RIGHT"
abbreviation "T_FULL \<equiv> Clause K_FULL"
abbreviation "T_CROSS \<equiv> Clause K_CROSS"
abbreviation "T_DISTINCT \<equiv> Clause K_DISTINCT"
abbreviation "T_UNION \<equiv> Clause K_UNION"
abbreviation "T_INTERSECT \<equiv> Clause K_INTERSECT"
abbreviation "T_EXCEPT \<equiv> Clause K_EXCEPT"
abbreviation "T_ALL \<equiv> Clause K_ALL"
abbreviation "T_IS \<equiv> Word K_IS"
abbreviation "T_IN \<equiv> Word K_IN"
abbreviation "T_BETWEEN \<equiv> Word K_BETWEEN"
abbreviation "T_LIKE \<equiv> Word K_LIKE"
abbreviation "T_NULL_LITERAL \<equiv> Word K_NULL_LITERAL"
abbreviation "T_EXISTS \<equiv> Word K_EXISTS"
abbreviation "T_BEGIN \<equiv> Word K_BEGIN"
abbreviation "T_COMMIT \<equiv> Word K_COMMIT"
abbreviation "T_ROLLBACK \<equiv> Word K_ROLLBACK"
abbreviation "T_TRANSACTION \<equiv> Word K_TRANSACTION"
abbreviation "T_AND \<equiv> Word K_AND"
abbreviation "T_OR \<equiv> Word K_OR"
abbreviation "T_NOT \<equiv> Word K_NOT"
abbreviation "T_INT_TYPE \<equiv> Word K_INT_TYPE"
abbreviation "T_BOOL_TYPE \<equiv> Word K_BOOL_TYPE"
abbreviation "T_TEXT_TYPE \<equiv> Word K_TEXT_TYPE"
abbreviation "T_VARCHAR \<equiv> Word K_VARCHAR"
abbreviation "T_FLOAT_TYPE \<equiv> Word K_FLOAT_TYPE"
abbreviation "T_DATE_TYPE \<equiv> Word K_DATE_TYPE"
abbreviation "T_TIMESTAMP_TYPE \<equiv> Word K_TIMESTAMP_TYPE"
abbreviation "T_TRUE \<equiv> Word K_TRUE"
abbreviation "T_FALSE \<equiv> Word K_FALSE"
abbreviation "T_IDENTIFIER \<equiv> Symbol K_IDENTIFIER"
abbreviation "T_INTEGER_LITERAL \<equiv> Symbol K_INTEGER_LITERAL"
abbreviation "T_FLOAT_LITERAL \<equiv> Symbol K_FLOAT_LITERAL"
abbreviation "T_STRING_LITERAL \<equiv> Symbol K_STRING_LITERAL"
abbreviation "T_EQ \<equiv> Symbol K_EQ"
abbreviation "T_NEQ \<equiv> Symbol K_NEQ"
abbreviation "T_LT \<equiv> Symbol K_LT"
abbreviation "T_LEQ \<equiv> Symbol K_LEQ"
abbreviation "T_GT \<equiv> Symbol K_GT"
abbreviation "T_GEQ \<equiv> Symbol K_GEQ"
abbreviation "T_PLUS \<equiv> Symbol K_PLUS"
abbreviation "T_MINUS \<equiv> Symbol K_MINUS"
abbreviation "T_SLASH \<equiv> Symbol K_SLASH"
abbreviation "T_LPAREN \<equiv> Symbol K_LPAREN"
abbreviation "T_RPAREN \<equiv> Symbol K_RPAREN"
abbreviation "T_COMMA \<equiv> Symbol K_COMMA"
abbreviation "T_SEMICOLON \<equiv> Symbol K_SEMICOLON"
abbreviation "T_STAR \<equiv> Symbol K_STAR"
abbreviation "T_DOT \<equiv> Symbol K_DOT"
abbreviation "T_END_OF_FILE \<equiv> Symbol K_END_OF_FILE"
abbreviation "T_UNKNOWN \<equiv> Symbol K_UNKNOWN"

definition keywordTable :: "(string \<times> token_type) list" where
  "keywordTable =
    [(''FETCH'', T_SELECT), (''FROM'', T_FROM), (''WHEN'', T_WHERE), (''PUT'', T_INSERT),
     (''INTO'', T_INTO), (''VALUES'', T_VALUES), (''BUILD'', T_CREATE), (''RELATION'', T_TABLE),
     (''INDEX'', T_INDEX), (''ON'', T_ON), (''REMOVE'', T_DELETE), (''AND'', T_AND),
     (''OR'', T_OR), (''NOT'', T_NOT), (''INT'', T_INT_TYPE), (''INTEGER'', T_INT_TYPE),
     (''BIGINT'', T_INT_TYPE), (''SMALLINT'', T_INT_TYPE), (''BOOL'', T_BOOL_TYPE),
     (''BOOLEAN'', T_BOOL_TYPE), (''TEXT'', T_TEXT_TYPE), (''VARCHAR'', T_VARCHAR),
     (''FLOAT'', T_FLOAT_TYPE), (''DOUBLE'', T_FLOAT_TYPE), (''REAL'', T_FLOAT_TYPE),
     (''DECIMAL'', T_FLOAT_TYPE), (''NUMERIC'', T_FLOAT_TYPE), (''DATE'', T_DATE_TYPE),
     (''TIMESTAMP'', T_TIMESTAMP_TYPE), (''DATETIME'', T_TIMESTAMP_TYPE), (''TRUE'', T_TRUE),
     (''FALSE'', T_FALSE), (''MODIFY'', T_UPDATE), (''SET'', T_SET), (''DISCARD'', T_DROP),
     (''SORT'', T_ORDER), (''BY'', T_BY), (''GROUP'', T_GROUP), (''HAVING'', T_HAVING),
     (''TAKE'', T_LIMIT), (''OVER'', T_OVER), (''PARTITION'', T_PARTITION), (''OF'', T_OF),
     (''SKIP'', T_OFFSET), (''CASE'', T_CASE), (''THEN'', T_THEN), (''ELSE'', T_ELSE),
     (''END'', T_END), (''EXPLAIN'', T_EXPLAIN), (''VIEW'', T_VIEW), (''AS'', T_AS),
     (''ASC'', T_ASC), (''DESC'', T_DESC), (''LINK'', T_JOIN), (''LEFT'', T_LEFT),
     (''CROSS'', T_CROSS), (''RIGHT'', T_RIGHT), (''FULL'', T_FULL), (''IS'', T_IS),
     (''IN'', T_IN), (''BETWEEN'', T_BETWEEN), (''LIKE'', T_LIKE), (''NULL'', T_NULL_LITERAL),
     (''START'', T_BEGIN), (''SAVE'', T_COMMIT), (''UNDO'', T_ROLLBACK), (''RESHAPE'', T_ALTER),
     (''ADD'', T_ADD), (''TRUNCATE'', T_TRUNCATE), (''RETURNING'', T_RETURNING),
     (''CONFLICT'', T_CONFLICT), (''DO'', T_DO), (''NOTHING'', T_NOTHING),
     (''COLUMN'', T_COLUMN), (''REFERENCES'', T_REFERENCES), (''FOREIGN'', T_FOREIGN),
     (''KEY'', T_KEY), (''PRIMARY'', T_PRIMARY), (''UNIQUE'', T_UNIQUE),
     (''DEFAULT'', T_DEFAULT), (''CHECK'', T_CHECK), (''AUTO_INCREMENT'', T_AUTOINCR),
     (''SERIAL'', T_AUTOINCR), (''CASCADE'', T_CASCADE), (''RESTRICT'', T_RESTRICT),
     (''UNIQUEONLY'', T_DISTINCT), (''UNION'', T_UNION), (''INTERSECT'', T_INTERSECT),
     (''EXCEPT'', T_EXCEPT), (''ALL'', T_ALL), (''EXISTS'', T_EXISTS)]"

fun stmtName :: "stmt_token \<Rightarrow> string" where
  "stmtName K_SELECT = ''SELECT''"
| "stmtName K_FROM = ''FROM''"
| "stmtName K_WHERE = ''WHERE''"
| "stmtName K_INSERT = ''INSERT''"
| "stmtName K_INTO = ''INTO''"
| "stmtName K_VALUES = ''VALUES''"
| "stmtName K_CREATE = ''CREATE''"
| "stmtName K_TABLE = ''TABLE''"
| "stmtName K_INDEX = ''INDEX''"
| "stmtName K_ON = ''ON''"
| "stmtName K_DELETE = ''DELETE''"
| "stmtName K_UPDATE = ''UPDATE''"
| "stmtName K_SET = ''SET''"
| "stmtName K_DROP = ''DROP''"
| "stmtName K_ALTER = ''ALTER''"
| "stmtName K_TRUNCATE = ''TRUNCATE''"
| "stmtName K_RETURNING = ''RETURNING''"
| "stmtName K_CONFLICT = ''CONFLICT''"
| "stmtName K_DO = ''DO''"
| "stmtName K_NOTHING = ''NOTHING''"
| "stmtName K_ADD = ''ADD''"
| "stmtName K_COLUMN = ''COLUMN''"
| "stmtName K_REFERENCES = ''REFERENCES''"
| "stmtName K_FOREIGN = ''FOREIGN''"
| "stmtName K_KEY = ''KEY''"
| "stmtName K_PRIMARY = ''PRIMARY''"
| "stmtName K_UNIQUE = ''UNIQUE''"
| "stmtName K_DEFAULT = ''DEFAULT''"
| "stmtName K_CHECK = ''CHECK''"
| "stmtName K_AUTOINCR = ''AUTO_INCREMENT''"
| "stmtName K_CASCADE = ''CASCADE''"
| "stmtName K_RESTRICT = ''RESTRICT''"

fun clauseName :: "clause_token \<Rightarrow> string" where
  "clauseName K_ORDER = ''ORDER''"
| "clauseName K_BY = ''BY''"
| "clauseName K_GROUP = ''GROUP''"
| "clauseName K_HAVING = ''HAVING''"
| "clauseName K_OVER = ''OVER''"
| "clauseName K_PARTITION = ''PARTITION''"
| "clauseName K_OF = ''OF''"
| "clauseName K_LIMIT = ''LIMIT''"
| "clauseName K_OFFSET = ''OFFSET''"
| "clauseName K_CASE = ''CASE''"
| "clauseName K_THEN = ''THEN''"
| "clauseName K_ELSE = ''ELSE''"
| "clauseName K_END = ''END''"
| "clauseName K_EXPLAIN = ''EXPLAIN''"
| "clauseName K_VIEW = ''VIEW''"
| "clauseName K_AS = ''AS''"
| "clauseName K_ASC = ''ASC''"
| "clauseName K_DESC = ''DESC''"
| "clauseName K_JOIN = ''JOIN''"
| "clauseName K_INNER = ''INNER''"
| "clauseName K_LEFT = ''LEFT''"
| "clauseName K_RIGHT = ''RIGHT''"
| "clauseName K_FULL = ''FULL''"
| "clauseName K_CROSS = ''CROSS''"
| "clauseName K_DISTINCT = ''DISTINCT''"
| "clauseName K_UNION = ''UNION''"
| "clauseName K_INTERSECT = ''INTERSECT''"
| "clauseName K_EXCEPT = ''EXCEPT''"
| "clauseName K_ALL = ''ALL''"

fun wordName :: "word_token \<Rightarrow> string" where
  "wordName K_IS = ''IS''"
| "wordName K_IN = ''IN''"
| "wordName K_BETWEEN = ''BETWEEN''"
| "wordName K_LIKE = ''LIKE''"
| "wordName K_NULL_LITERAL = ''NULL''"
| "wordName K_EXISTS = ''EXISTS''"
| "wordName K_BEGIN = ''BEGIN''"
| "wordName K_COMMIT = ''COMMIT''"
| "wordName K_ROLLBACK = ''ROLLBACK''"
| "wordName K_TRANSACTION = ''TRANSACTION''"
| "wordName K_AND = ''AND''"
| "wordName K_OR = ''OR''"
| "wordName K_NOT = ''NOT''"
| "wordName K_INT_TYPE = ''INT_TYPE''"
| "wordName K_BOOL_TYPE = ''BOOL_TYPE''"
| "wordName K_TEXT_TYPE = ''TEXT_TYPE''"
| "wordName K_VARCHAR = ''VARCHAR''"
| "wordName K_FLOAT_TYPE = ''FLOAT_TYPE''"
| "wordName K_DATE_TYPE = ''DATE_TYPE''"
| "wordName K_TIMESTAMP_TYPE = ''TIMESTAMP_TYPE''"
| "wordName K_TRUE = ''TRUE''"
| "wordName K_FALSE = ''FALSE''"

fun symbolName :: "symbol_token \<Rightarrow> string" where
  "symbolName K_IDENTIFIER = ''IDENTIFIER''"
| "symbolName K_INTEGER_LITERAL = ''INTEGER_LITERAL''"
| "symbolName K_FLOAT_LITERAL = ''FLOAT_LITERAL''"
| "symbolName K_STRING_LITERAL = ''STRING_LITERAL''"
| "symbolName K_EQ = ''EQ''"
| "symbolName K_NEQ = ''NEQ''"
| "symbolName K_LT = ''LT''"
| "symbolName K_LEQ = ''LEQ''"
| "symbolName K_GT = ''GT''"
| "symbolName K_GEQ = ''GEQ''"
| "symbolName K_PLUS = ''PLUS''"
| "symbolName K_MINUS = ''MINUS''"
| "symbolName K_SLASH = ''SLASH''"
| "symbolName K_LPAREN = ''LPAREN''"
| "symbolName K_RPAREN = ''RPAREN''"
| "symbolName K_COMMA = ''COMMA''"
| "symbolName K_SEMICOLON = ''SEMICOLON''"
| "symbolName K_STAR = ''STAR''"
| "symbolName K_DOT = ''DOT''"
| "symbolName K_END_OF_FILE = ''EOF''"
| "symbolName K_UNKNOWN = ''UNKNOWN''"

fun tokenTypeName :: "token_type \<Rightarrow> string" where
  "tokenTypeName (Stmt t) = stmtName t"
| "tokenTypeName (Clause t) = clauseName t"
| "tokenTypeName (Word t) = wordName t"
| "tokenTypeName (Symbol t) = symbolName t"

record token =
  tok_type :: token_type
  lexeme :: string
  tok_line :: int
  tok_column :: int

end
