(* ===== verification/Lexer.thy ===== *)
theory Lexer
  imports Tokens
begin

text \<open>
  The lexer, \<open>src/src/frontend/lexer.cpp\<close>. Its state is what is left of the source and the
  line and column of the next character. The \<open>cctype\<close> predicates are those of the "C" locale.
  \<open>peek\<close> at the end is the null character, which the source may also contain.
\<close>

section \<open>The scanner\<close>

record lexer =
  source :: string
  line :: int
  column :: int

definition lexer_of :: "string \<Rightarrow> lexer" where
  "lexer_of s = \<lparr>source = s, line = 1, column = 1\<rparr>"

definition lx_end :: "lexer \<Rightarrow> bool" where
  "lx_end l \<longleftrightarrow> source l = []"

definition lx_peek :: "lexer \<Rightarrow> char" where
  "lx_peek l = (case source l of [] \<Rightarrow> CHR 0x00 | c # _ \<Rightarrow> c)"

definition lx_peekNext :: "lexer \<Rightarrow> char" where
  "lx_peekNext l = (case source l of _ # c # _ \<Rightarrow> c | _ \<Rightarrow> CHR 0x00)"

definition lx_advance :: "lexer \<Rightarrow> lexer" where
  "lx_advance l =
     (case source l of
        [] \<Rightarrow> l
      | c # cs \<Rightarrow>
          if c = CHR 0x0A then \<lparr>source = cs, line = line l + 1, column = 1\<rparr>
          else \<lparr>source = cs, line = line l, column = column l + 1\<rparr>)"

lemma lx_advance_length: "source l \<noteq> [] \<Longrightarrow> length (source (lx_advance l)) < length (source l)"
  by (cases "source l") (auto simp: lx_advance_def)

lemma lx_advance_le: "length (source (lx_advance l)) \<le> length (source l)"
  by (cases "source l") (auto simp: lx_advance_def)

definition is_ident_start :: "char \<Rightarrow> bool" where
  "is_ident_start c \<longleftrightarrow> is_alpha c \<or> c = CHR ''_''"

definition is_ident_part :: "char \<Rightarrow> bool" where
  "is_ident_part c \<longleftrightarrow> is_alnum c \<or> c = CHR ''_''"

text \<open>\<open>while (!isAtEnd() && p(peek())) lexeme.push_back(advance())\<close>\<close>

function take_chars :: "(char \<Rightarrow> bool) \<Rightarrow> lexer \<Rightarrow> string \<times> lexer" where
  "take_chars p l =
     (if \<not> lx_end l \<and> p (lx_peek l)
      then case take_chars p (lx_advance l) of (s, l') \<Rightarrow> (lx_peek l # s, l')
      else ([], l))"
  by pat_completeness auto

termination
  by (relation "measure (\<lambda>(p, l). length (source l))") (auto simp: lx_end_def lx_advance_length)

declare take_chars.simps [simp del]

definition is_blank :: "char \<Rightarrow> bool" where
  "is_blank c \<longleftrightarrow> c = CHR '' '' \<or> c = CHR 0x09 \<or> c = CHR 0x0D \<or> c = CHR 0x0A"

lemma lx_cons:
  "source l = c # cs \<Longrightarrow> lx_peek l = c" "source l = c # cs \<Longrightarrow> \<not> lx_end l"
  "source l = c # cs \<Longrightarrow> source (lx_advance l) = cs"
  by (simp_all add: lx_peek_def lx_end_def lx_advance_def)

lemma lx_nil:
  "source l = [] \<Longrightarrow> lx_end l" "source l = [] \<Longrightarrow> lx_peek l = CHR 0x00"
  "source l = [] \<Longrightarrow> lx_advance l = l"
  by (simp_all add: lx_peek_def lx_end_def lx_advance_def)

lemma take_chars_spec:
  "fst (take_chars p l) = takeWhile p (source l) \<and> source (snd (take_chars p l)) = dropWhile p (source l)"
proof (induction p l rule: take_chars.induct)
  case (1 p l)
  show ?case
  proof (cases "source l")
    case Nil
    then show ?thesis by (subst (1 2) take_chars.simps) (simp add: lx_nil)
  next
    case (Cons c cs)
    show ?thesis
    proof (cases "p c")
      case True
      then show ?thesis
        using Cons 1 by (subst (1 2) take_chars.simps) (simp add: lx_cons [OF Cons] split_beta)
    next
      case False
      then show ?thesis using Cons by (subst (1 2) take_chars.simps) (simp add: lx_cons [OF Cons])
    qed
  qed
qed

lemma fst_take_chars [simp]: "fst (take_chars p l) = takeWhile p (source l)"
  and source_take_chars [simp]: "source (snd (take_chars p l)) = dropWhile p (source l)"
  by (simp_all add: take_chars_spec)

function skipWhitespaceAndComments :: "lexer \<Rightarrow> lexer" where
  "skipWhitespaceAndComments l =
     (if \<not> lx_end l \<and> is_blank (lx_peek l) then skipWhitespaceAndComments (lx_advance l)
      else if lx_peek l = CHR ''-'' \<and> lx_peekNext l = CHR ''-''
      then skipWhitespaceAndComments (snd (take_chars (\<lambda>c. c \<noteq> CHR 0x0A) l))
      else l)"
  by pat_completeness auto

termination skipWhitespaceAndComments
proof (relation "measure (\<lambda>l. length (source l))", goal_cases)
  case 1
  show ?case by simp
next
  case (2 l)
  then show ?case by (simp add: lx_end_def lx_advance_length)
next
  case (3 l)
  then obtain cs where "source l = CHR ''-'' # cs" by (auto simp: lx_peek_def split: list.splits)
  then show ?case by (simp add: length_dropWhile_le le_imp_less_Suc)
qed

declare skipWhitespaceAndComments.simps [simp del]

definition makeToken :: "lexer \<Rightarrow> token_type \<Rightarrow> string \<Rightarrow> int \<Rightarrow> token" where
  "makeToken l t s startColumn = \<lparr>tok_type = t, lexeme = s, tok_line = line l, tok_column = startColumn\<rparr>"

definition scanIdentifierOrKeyword :: "lexer \<Rightarrow> token \<times> lexer" where
  "scanIdentifierOrKeyword l =
     (case take_chars is_ident_part l of (s, l') \<Rightarrow>
        (case map_of keywordTable (map to_upper s) of
           Some t \<Rightarrow> (makeToken l' t s (column l), l')
         | None \<Rightarrow> (makeToken l' T_IDENTIFIER s (column l), l')))"

definition scanNumber :: "lexer \<Rightarrow> token \<times> lexer" where
  "scanNumber l =
     (case take_chars is_digit l of (s, l1) \<Rightarrow>
        if lx_peek l1 = CHR ''.'' \<and> is_digit (lx_peekNext l1)
        then (case take_chars is_digit (lx_advance l1) of (f, l2) \<Rightarrow>
                (makeToken l2 T_FLOAT_LITERAL (s @ ''.'' @ f) (column l), l2))
        else (makeToken l1 T_INTEGER_LITERAL s (column l), l1))"

text \<open>The loop of \<open>scanString\<close>; the flag is false when the source ends before the quote does.\<close>

function string_body :: "lexer \<Rightarrow> bool \<times> string \<times> lexer" where
  "string_body l =
     (if lx_end l then (False, [], l)
      else if lx_peek l = CHR 0x27 then
        (let l1 = lx_advance l
         in if lx_peek l1 = CHR 0x27
            then case string_body (lx_advance l1) of (ok, s, l2) \<Rightarrow> (ok, CHR 0x27 # s, l2)
            else (True, [], l1))
      else case string_body (lx_advance l) of (ok, s, l2) \<Rightarrow> (ok, lx_peek l # s, l2))"
  by pat_completeness auto

termination string_body
proof (relation "measure (\<lambda>l. length (source l))", goal_cases)
  case 1
  show ?case by simp
next
  case (2 l l1)
  then show ?case
    using lx_advance_length [of l] lx_advance_le [of l1] by (simp add: lx_end_def)
next
  case (3 l)
  then show ?case by (simp add: lx_end_def lx_advance_length)
qed

declare string_body.simps [simp del]

definition scanString :: "lexer \<Rightarrow> token \<times> lexer" where
  "scanString l =
     (case string_body (lx_advance l) of (ok, s, l') \<Rightarrow>
        (makeToken l' (if ok then T_STRING_LITERAL else T_UNKNOWN) s (column l), l'))"

definition scanToken :: "lexer \<Rightarrow> token \<times> lexer" where
  "scanToken l =
     (let c = lx_peek l; k = column l
      in if is_ident_start c then scanIdentifierOrKeyword l
         else if is_digit c then scanNumber l
         else if c = CHR 0x27 then scanString l
         else
           let l1 = lx_advance l;
               one = (\<lambda>t. (makeToken l1 t [c] k, l1));
               two = (\<lambda>t s. (makeToken (lx_advance l1) t s k, lx_advance l1))
           in if c = CHR ''('' then one T_LPAREN
              else if c = CHR '')'' then one T_RPAREN
              else if c = CHR '','' then one T_COMMA
              else if c = CHR '';'' then one T_SEMICOLON
              else if c = CHR ''*'' then one T_STAR
              else if c = CHR ''+'' then one T_PLUS
              else if c = CHR ''-'' then one T_MINUS
              else if c = CHR ''/'' then one T_SLASH
              else if c = CHR ''.'' then one T_DOT
              else if c = CHR ''='' then one T_EQ
              else if c = CHR ''<'' then
                (if lx_peek l1 = CHR ''='' then two T_LEQ ''<=''
                 else if lx_peek l1 = CHR ''>'' then two T_NEQ ''<>''
                 else one T_LT)
              else if c = CHR ''>'' then
                (if lx_peek l1 = CHR ''='' then two T_GEQ ''>='' else one T_GT)
              else if c = CHR ''!'' then
                (if lx_peek l1 = CHR ''='' then two T_NEQ ''!='' else one T_UNKNOWN)
              else one T_UNKNOWN)"

lemma string_body_length: "length (source (snd (snd (string_body l)))) \<le> length (source l)"
proof (induction l rule: string_body.induct)
  case (1 l)
  then show ?case
    using lx_advance_le [of l] lx_advance_le [of "lx_advance l"]
    by (subst string_body.simps) (auto simp: Let_def split_beta)
qed

lemma dropWhile_shorter: "p c \<Longrightarrow> length (dropWhile p (c # cs)) < length (c # cs)"
  by (simp add: length_dropWhile_le le_imp_less_Suc)

lemma scanToken_shorter:
  assumes "source l \<noteq> []"
  shows "length (source (snd (scanToken l))) < length (source l)"
proof -
  obtain c cs where l: "source l = c # cs" using assms by (cases "source l") auto
  note u [simp] = lx_cons [OF l]
  consider (ident) "is_ident_start c" | (num) "\<not> is_ident_start c" "is_digit c"
    | (str) "\<not> is_ident_start c" "\<not> is_digit c" "c = CHR 0x27"
    | (sym) "\<not> is_ident_start c" "\<not> is_digit c" "c \<noteq> CHR 0x27"
    by blast
  then show ?thesis
  proof cases
    case ident
    then have p: "is_ident_part c"
      by (auto simp: is_ident_start_def is_ident_part_def is_alnum_def)
    from dropWhile_shorter [of is_ident_part, OF p, of cs] ident p show ?thesis
      by (simp add: l scanToken_def Let_def scanIdentifierOrKeyword_def split_beta split: option.splits)
  next
    case num
    let ?l = "snd (take_chars is_digit l)"
    have "length (source ?l) < length (c # cs)" using dropWhile_shorter [of is_digit, OF num(2), of cs] by (simp add: l)
    moreover have "length (dropWhile is_digit (source (lx_advance ?l))) \<le> length (source ?l)"
      using length_dropWhile_le [of is_digit "source (lx_advance ?l)"] lx_advance_le [of ?l] by simp
    ultimately show ?thesis using num
      by (simp add: l scanToken_def Let_def scanNumber_def split_beta del: source_take_chars)
        (simp add: l split_beta)
  next
    case str
    then show ?thesis using string_body_length [of "lx_advance l"]
      by (simp add: l scanToken_def Let_def scanString_def split_beta)
  next
    case sym
    then show ?thesis using lx_advance_le [of "lx_advance l"]
      by (simp add: l scanToken_def Let_def)
  qed
qed

lemma keyword_not_eof: "map_of keywordTable s \<noteq> Some T_END_OF_FILE"
proof
  assume "map_of keywordTable s = Some T_END_OF_FILE"
  then have "T_END_OF_FILE \<in> snd ` set keywordTable" using map_of_SomeD by force
  then show False by (simp add: keywordTable_def)
qed

lemma scanToken_not_eof: "tok_type (fst (scanToken l)) \<noteq> T_END_OF_FILE"
  using keyword_not_eof
  by (auto simp: scanToken_def Let_def scanIdentifierOrKeyword_def scanNumber_def scanString_def
      makeToken_def split_beta split: option.splits)

lemma skip_length: "length (source (skipWhitespaceAndComments l)) \<le> length (source l)"
proof (induction l rule: skipWhitespaceAndComments.induct)
  case (1 l)
  then show ?case
    using lx_advance_le [of l] length_dropWhile_le [of "\<lambda>c. c \<noteq> CHR 0x0A" "source l"]
    by (subst skipWhitespaceAndComments.simps) auto
qed

function tokenize_from :: "lexer \<Rightarrow> token list" where
  "tokenize_from l =
     (let l = skipWhitespaceAndComments l
      in if lx_end l then [makeToken l T_END_OF_FILE [] (column l)]
         else case scanToken l of (t, l') \<Rightarrow> t # tokenize_from l')"
  by pat_completeness auto

termination tokenize_from
proof (relation "measure (\<lambda>l. length (source l))", goal_cases)
  case 1
  show ?case by simp
next
  case (2 l l1 t l')
  then show ?case
    using scanToken_shorter [of l1] skip_length [of l] by (cases "scanToken l1") (simp add: lx_end_def)
qed

declare tokenize_from.simps [simp del]

definition tokenize :: "string \<Rightarrow> token list" where
  "tokenize s = tokenize_from (lexer_of s)"

section \<open>What the lexer gives back\<close>

lemma tokenize_from_shape:
  "\<exists>ts t. tokenize_from l = ts @ [t] \<and> tok_type t = T_END_OF_FILE \<and> lexeme t = [] \<and>
     T_END_OF_FILE \<notin> tok_type ` set ts \<and> length ts \<le> length (source l)"
proof (induction l rule: tokenize_from.induct)
  case (1 l)
  let ?l = "skipWhitespaceAndComments l"
  show ?case
  proof (cases "lx_end ?l")
    case True
    then show ?thesis
      by (subst tokenize_from.simps) (rule exI [of _ "[]"], simp add: Let_def makeToken_def)
  next
    case False
    obtain t l' where st: "scanToken ?l = (t, l')" by (cases "scanToken ?l")
    from 1 [OF refl False st [symmetric]] obtain ts e where
      ts: "tokenize_from l' = ts @ [e]" "tok_type e = T_END_OF_FILE" "lexeme e = []"
        "T_END_OF_FILE \<notin> tok_type ` set ts" "length ts \<le> length (source l')"
      by blast
    have "tok_type t \<noteq> T_END_OF_FILE" using scanToken_not_eof [of ?l] st by simp
    moreover have "length (source l') < length (source l)"
      using scanToken_shorter [of ?l] skip_length [of l] False st by (simp add: lx_end_def)
    moreover have "tokenize_from l = t # ts @ [e]"
      using False st ts(1) by (subst tokenize_from.simps) (simp add: Let_def)
    ultimately show ?thesis using ts by (intro exI [of _ "t # ts"] exI [of _ e]) simp
  qed
qed

text \<open>The lexer ends on every source, valid or not, and gives a list that ends with the token
  \<open>END_OF_FILE\<close> and holds it nowhere else: the parser, which looks ahead without a bound check,
  never runs past it. There is at most one token per character before it.\<close>

lemma tokenize_total:
  "\<exists>ts t. tokenize s = ts @ [t] \<and> tok_type t = T_END_OF_FILE \<and> lexeme t = [] \<and>
     T_END_OF_FILE \<notin> tok_type ` set ts \<and> length ts \<le> length s"
  using tokenize_from_shape [of "lexer_of s"] by (simp add: tokenize_def lexer_of_def)

section \<open>Writing tokens down\<close>

text \<open>
  \<open>spelled\<close> are the tokens the lexer can give, with the lexeme each carries; \<open>spelling\<close> is the
  text that denotes one, and \<open>apart\<close> says that a text may follow it without changing it.
\<close>

definition quote_char :: char where
  "quote_char = CHR 0x27"

definition double_quotes :: "string \<Rightarrow> string" where
  "double_quotes s = concat (map (\<lambda>c. if c = quote_char then [quote_char, quote_char] else [c]) s)"

definition symbolTable :: "(string \<times> token_type) list" where
  "symbolTable =
    [(''('', T_LPAREN), ('')'', T_RPAREN), ('','', T_COMMA), ('';'', T_SEMICOLON), (''*'', T_STAR),
     (''+'', T_PLUS), (''-'', T_MINUS), (''/'', T_SLASH), (''.'', T_DOT), (''='', T_EQ),
     (''<='', T_LEQ), (''<>'', T_NEQ), (''<'', T_LT), (''>='', T_GEQ), (''>'', T_GT), (''!='', T_NEQ)]"

definition is_word :: "string \<Rightarrow> bool" where
  "is_word s \<longleftrightarrow> (case s of [] \<Rightarrow> False | c # cs \<Rightarrow> is_ident_start c \<and> list_all is_ident_part cs)"

definition is_digits :: "string \<Rightarrow> bool" where
  "is_digits s \<longleftrightarrow> s \<noteq> [] \<and> list_all is_digit s"

definition word_type :: "string \<Rightarrow> token_type" where
  "word_type s = (case map_of keywordTable (map to_upper s) of Some t \<Rightarrow> t | None \<Rightarrow> T_IDENTIFIER)"

inductive spelled :: "token_type \<times> string \<Rightarrow> bool" where
  word: "is_word s \<Longrightarrow> spelled (word_type s, s)"
| int: "is_digits s \<Longrightarrow> spelled (T_INTEGER_LITERAL, s)"
| float: "is_digits s \<Longrightarrow> is_digits f \<Longrightarrow> spelled (T_FLOAT_LITERAL, s @ ''.'' @ f)"
| str: "spelled (T_STRING_LITERAL, s)"
| sym: "(s, t) \<in> set symbolTable \<Longrightarrow> spelled (t, s)"

definition spelling :: "token_type \<times> string \<Rightarrow> string" where
  "spelling x =
     (if fst x = T_STRING_LITERAL then quote_char # double_quotes (snd x) @ [quote_char] else snd x)"

definition apart :: "token_type \<times> string \<Rightarrow> string \<Rightarrow> bool" where
  "apart x r \<longleftrightarrow>
     (case r of
        [] \<Rightarrow> True
      | c # r' \<Rightarrow>
          if fst x = T_STRING_LITERAL then c \<noteq> quote_char
          else if fst x = T_INTEGER_LITERAL then
            \<not> is_digit c \<and> \<not> (c = CHR ''.'' \<and> (\<exists>d r''. r' = d # r'' \<and> is_digit d))
          else if fst x = T_FLOAT_LITERAL then \<not> is_digit c
          else if fst x = T_MINUS then c \<noteq> CHR ''-''
          else if fst x \<in> {T_LT, T_GT} then c \<notin> {CHR ''='', CHR ''>''}
          else if snd x \<in> fst ` set symbolTable then True
          else \<not> is_ident_part c)"

abbreviation lexemes :: "token list \<Rightarrow> (token_type \<times> string) list" where
  "lexemes \<equiv> map (\<lambda>t. (tok_type t, lexeme t))"

text \<open>Whatever the position, the source \<open>s\<close> has the tokens \<open>ts\<close>.\<close>

definition lexes :: "string \<Rightarrow> (token_type \<times> string) list \<Rightarrow> bool" where
  "lexes s ts \<longleftrightarrow> (\<forall>l. source l = s \<longrightarrow> lexemes (tokenize_from l) = ts)"

lemma lexes_Nil: "lexes [] [(T_END_OF_FILE, [])]"
  unfolding lexes_def
proof (intro allI impI)
  fix l :: lexer
  assume l: "source l = []"
  then have "skipWhitespaceAndComments l = l"
    by (subst skipWhitespaceAndComments.simps) (simp add: lx_nil)
  then show "lexemes (tokenize_from l) = [(T_END_OF_FILE, [])]"
    using l by (subst tokenize_from.simps) (simp add: lx_nil makeToken_def)
qed

lemma lexes_blank: "is_blank c \<Longrightarrow> lexes s ts \<Longrightarrow> lexes (c # s) ts"
  unfolding lexes_def
proof (intro allI impI)
  fix l :: lexer
  assume c: "is_blank c" and IH: "\<forall>l. source l = s \<longrightarrow> lexemes (tokenize_from l) = ts"
    and l: "source l = c # s"
  have "skipWhitespaceAndComments l = skipWhitespaceAndComments (lx_advance l)"
    using c by (subst skipWhitespaceAndComments.simps) (simp add: lx_cons [OF l])
  then have "tokenize_from l = tokenize_from (lx_advance l)"
    by (subst (1 2) tokenize_from.simps) simp
  then show "lexemes (tokenize_from l) = ts" using IH lx_cons [OF l] by simp
qed

lemma lexes_token:
  assumes "lexes r ts" "\<not> is_blank c" "\<not> (c = CHR ''-'' \<and> (\<exists>s'. s = CHR ''-'' # s'))"
    and tok: "\<And>l. source l = c # s \<Longrightarrow>
      tok_type (fst (scanToken l)) = t \<and> lexeme (fst (scanToken l)) = x \<and> source (snd (scanToken l)) = r"
  shows "lexes (c # s) ((t, x) # ts)"
  unfolding lexes_def
proof (intro allI impI)
  fix l :: lexer
  assume l: "source l = c # s"
  have "\<not> (c = CHR ''-'' \<and> lx_peekNext l = CHR ''-'')"
    using assms(3) by (auto simp: lx_peekNext_def l split: list.splits)
  then have "skipWhitespaceAndComments l = l"
    using assms(2) by (subst skipWhitespaceAndComments.simps) (auto simp: lx_cons [OF l])
  then have "tokenize_from l = fst (scanToken l) # tokenize_from (snd (scanToken l))"
    by (subst tokenize_from.simps) (simp add: lx_cons [OF l] split_beta)
  then show "lexemes (tokenize_from l) = (t, x) # ts"
    using tok [OF l] assms(1) by (simp add: lexes_def)
qed

lemma takeWhile_ends:
  assumes "list_all p s" "r = [] \<or> \<not> p (hd r)"
  shows "takeWhile p (s @ r) = s \<and> dropWhile p (s @ r) = r"
  using assms by (induction s) (cases r; auto)+

lemma double_quotes_simps [simp]:
  "double_quotes [] = []"
  "double_quotes (c # s) = (if c = quote_char then [quote_char, quote_char] else [c]) @ double_quotes s"
  by (simp_all add: double_quotes_def)

lemma string_body_quoted:
  "source l = double_quotes s @ quote_char # r \<Longrightarrow> r = [] \<or> hd r \<noteq> quote_char \<Longrightarrow>
   fst (string_body l) \<and> fst (snd (string_body l)) = s \<and> source (snd (snd (string_body l))) = r"
proof (induction s arbitrary: l)
  case Nil
  then have l: "source l = quote_char # r" by simp
  then have "lx_peek (lx_advance l) \<noteq> CHR 0x27"
    using Nil lx_cons(3) [OF l] by (cases r) (auto simp: lx_peek_def quote_char_def)
  then show ?case
    by (subst (1 2 3) string_body.simps) (simp add: lx_cons [OF l] quote_char_def)
next
  case (Cons c s)
  show ?case
  proof (cases "c = quote_char")
    case True
    then have l: "source l = quote_char # quote_char # double_quotes s @ quote_char # r"
      using Cons.prems by simp
    note l1 = lx_cons(3) [OF l]
    have "source (lx_advance (lx_advance l)) = double_quotes s @ quote_char # r"
      using lx_cons(3) [OF l1] .
    from Cons.IH [OF this Cons.prems(2)] show ?thesis
      using True by (subst (1 2 3) string_body.simps)
        (simp add: lx_cons [OF l] lx_cons [OF l1] split_beta quote_char_def)
  next
    case False
    then have l: "source l = c # double_quotes s @ quote_char # r"
      using Cons.prems by simp
    from Cons.IH [OF lx_cons(3) [OF l] Cons.prems(2)] show ?thesis
      using False by (subst (1 2 3) string_body.simps)
        (simp add: lx_cons [OF l] split_beta quote_char_def)
  qed
qed

lemma char_classes:
  "is_ident_start c \<Longrightarrow> is_ident_part c \<and> \<not> is_blank c \<and> c \<noteq> CHR ''-''"
  "is_digit c \<Longrightarrow> \<not> is_ident_start c \<and> \<not> is_blank c \<and> c \<noteq> CHR ''-'' \<and> is_ident_part c"
  by (auto simp: is_ident_start_def is_ident_part_def is_alnum_def is_alpha_def is_upper_def is_lower_def
      is_digit_def is_blank_def)

lemma lexes_word:
  assumes "is_word s" "r = [] \<or> \<not> is_ident_part (hd r)" "lexes r ts"
  shows "lexes (s @ r) ((word_type s, s) # ts)"
proof -
  obtain c cs where s: "s = c # cs" "is_ident_start c" "list_all is_ident_part cs"
    using assms(1) by (auto simp: is_word_def split: list.splits)
  then have all: "list_all is_ident_part s" using char_classes(1) [OF s(2)] by simp
  have "lexes (c # cs @ r) ((word_type s, s) # ts)"
  proof (rule lexes_token [OF assms(3)])
    fix l :: lexer
    assume l: "source l = c # cs @ r"
    then have "source l = s @ r" by (simp add: s)
    with takeWhile_ends [OF all assms(2)]
    show "tok_type (fst (scanToken l)) = word_type s \<and> lexeme (fst (scanToken l)) = s \<and>
      source (snd (scanToken l)) = r"
      using s(2) by (simp add: scanToken_def Let_def lx_cons [OF l] scanIdentifierOrKeyword_def
          split_beta word_type_def makeToken_def split: option.splits)
  qed (use char_classes(1) [OF s(2)] in auto)
  then show ?thesis by (simp add: s)
qed

lemma lexes_int:
  assumes "is_digits s" "apart (T_INTEGER_LITERAL, s) r" "lexes r ts"
  shows "lexes (s @ r) ((T_INTEGER_LITERAL, s) # ts)"
proof -
  obtain c cs where s: "s = c # cs" "is_digit c" "list_all is_digit s"
    using assms(1) by (cases s) (auto simp: is_digits_def)
  have r: "r = [] \<or> \<not> is_digit (hd r)" using assms(2) by (cases r) (auto simp: apart_def)
  have "lexes (c # cs @ r) ((T_INTEGER_LITERAL, s) # ts)"
  proof (rule lexes_token [OF assms(3)])
    fix l :: lexer
    assume l: "source l = c # cs @ r"
    then have "source l = s @ r" by (simp add: s)
    note tw = takeWhile_ends [OF s(3) r, folded this]
    then have "source (snd (take_chars is_digit l)) = r" by simp
    then have "\<not> (lx_peek (snd (take_chars is_digit l)) = CHR ''.'' \<and>
        is_digit (lx_peekNext (snd (take_chars is_digit l))))"
      using assms(2) by (auto simp: apart_def lx_peek_def lx_peekNext_def is_digit_def split: list.splits)
    with tw show "tok_type (fst (scanToken l)) = T_INTEGER_LITERAL \<and> lexeme (fst (scanToken l)) = s \<and>
      source (snd (scanToken l)) = r"
      using s(2) char_classes(2) [OF s(2)]
      by (simp add: scanToken_def Let_def lx_cons [OF l] scanNumber_def split_beta makeToken_def)
  qed (use char_classes(2) [OF s(2)] in auto)
  then show ?thesis by (simp add: s)
qed

lemma lexes_float:
  assumes "is_digits s" "is_digits f" "r = [] \<or> \<not> is_digit (hd r)" "lexes r ts"
  shows "lexes (s @ ''.'' @ f @ r) ((T_FLOAT_LITERAL, s @ ''.'' @ f) # ts)"
proof -
  obtain c cs where s: "s = c # cs" "is_digit c" "list_all is_digit s"
    using assms(1) by (cases s) (auto simp: is_digits_def)
  obtain d ds where f: "f = d # ds" "is_digit d" "list_all is_digit f"
    using assms(2) by (cases f) (auto simp: is_digits_def)
  have "lexes (c # cs @ ''.'' @ f @ r) ((T_FLOAT_LITERAL, s @ ''.'' @ f) # ts)"
  proof (rule lexes_token [OF assms(4)])
    fix l :: lexer
    assume l: "source l = c # cs @ ''.'' @ f @ r"
    then have l': "source l = s @ ''.'' @ f @ r" by (simp add: s)
    have nd: "''.'' @ f @ r = [] \<or> \<not> is_digit (hd (''.'' @ f @ r))" by (simp add: is_digit_def)
    note tw = takeWhile_ends [OF s(3) nd, folded l']
    let ?m = "snd (take_chars is_digit l)"
    have m: "source ?m = CHR ''.'' # f @ r" using tw by simp
    have "lx_peekNext ?m = d" using m f(1) by (simp add: lx_peekNext_def)
    moreover have "source (lx_advance ?m) = f @ r" using lx_cons(3) [OF m] .
    ultimately show "tok_type (fst (scanToken l)) = T_FLOAT_LITERAL \<and>
      lexeme (fst (scanToken l)) = s @ ''.'' @ f \<and> source (snd (scanToken l)) = r"
      using s(2) f(2) char_classes(2) [OF s(2)] tw takeWhile_ends [OF f(3) assms(3)] lx_cons(1) [OF m]
      by (simp add: scanToken_def Let_def lx_cons [OF l] scanNumber_def split_beta makeToken_def)
  qed (use char_classes(2) [OF s(2)] in auto)
  then show ?thesis by (simp add: s)
qed

lemma lexes_string:
  assumes "r = [] \<or> hd r \<noteq> quote_char" "lexes r ts"
  shows "lexes (quote_char # double_quotes s @ quote_char # r) ((T_STRING_LITERAL, s) # ts)"
proof (rule lexes_token [OF assms(2)])
  fix l :: lexer
  assume l: "source l = quote_char # double_quotes s @ quote_char # r"
  from string_body_quoted [OF lx_cons(3) [OF l] assms(1)]
  show "tok_type (fst (scanToken l)) = T_STRING_LITERAL \<and> lexeme (fst (scanToken l)) = s \<and>
    source (snd (scanToken l)) = r"
    using lx_cons(1) [OF l] by (simp add: scanToken_def Let_def scanString_def split_beta makeToken_def
        quote_char_def is_ident_start_def is_digit_def is_alpha_def is_upper_def is_lower_def)
qed (simp_all add: quote_char_def is_blank_def)

lemma word_type_not_symbol:
  "word_type s \<notin> {T_STRING_LITERAL, T_INTEGER_LITERAL, T_FLOAT_LITERAL, T_MINUS, T_LT, T_GT}"
proof (cases "map_of keywordTable (map to_upper s)")
  case (Some t)
  then have "t \<in> snd ` set keywordTable" using map_of_SomeD by force
  then have "t \<notin> {T_STRING_LITERAL, T_INTEGER_LITERAL, T_FLOAT_LITERAL, T_MINUS, T_LT, T_GT}"
    by (auto simp: keywordTable_def)
  with Some show ?thesis by (simp add: word_type_def)
qed (simp add: word_type_def)

lemma word_not_symbol: "is_word s \<Longrightarrow> s \<notin> fst ` set symbolTable"
  by (auto simp: symbolTable_def is_word_def is_ident_start_def is_alpha_def is_upper_def is_lower_def
      split: list.splits)

lemma not_word_char:
  "c \<in> set ''(),;*+-/.=<>!'' \<Longrightarrow> \<not> is_ident_start c \<and> \<not> is_digit c \<and> c \<noteq> CHR 0x27 \<and> \<not> is_blank c"
  by (auto simp: is_ident_start_def is_alpha_def is_upper_def is_lower_def is_digit_def is_blank_def)

lemma lexes_symbol:
  assumes "(s, t) \<in> set symbolTable" "apart (t, s) r" "lexes r ts"
  shows "lexes (s @ r) ((t, s) # ts)"
proof -
  obtain c cs where s: "s = c # cs" using assms(1) by (auto simp: symbolTable_def)
  have c: "c \<in> set ''(),;*+-/.=<>!''" using assms(1) s by (auto simp: symbolTable_def)
  have "lexes (c # cs @ r) ((t, s) # ts)"
  proof (rule lexes_token [OF assms(3)])
    fix l :: lexer
    assume l: "source l = c # cs @ r"
    note l1 = lx_cons [OF l]
    consider "cs = []" | c2 where "cs = [c2]" using assms(1) s by (auto simp: symbolTable_def)
    then show "tok_type (fst (scanToken l)) = t \<and> lexeme (fst (scanToken l)) = s \<and>
      source (snd (scanToken l)) = r"
    proof cases
      case 1
      have q: "t \<in> {T_LT, T_GT} \<Longrightarrow> lx_peek (lx_advance l) \<notin> {CHR ''='', CHR ''>''}"
        using assms(2) l1(3) 1 by (auto simp: lx_peek_def apart_def split: list.splits if_splits)
      from assms(1) s 1 show ?thesis
        by (simp add: symbolTable_def)
          (elim disjE conjE; use q l1 in \<open>simp add: scanToken_def Let_def makeToken_def is_ident_start_def
            is_alpha_def is_upper_def is_lower_def is_digit_def\<close>)
    next
      case (2 c2)
      then have "source (lx_advance l) = c2 # r" using l1(3) by simp
      note l2 = lx_cons [OF this]
      from assms(1) s 2 show ?thesis
        by (simp add: symbolTable_def)
          (elim disjE conjE; use l1 l2 in \<open>simp add: scanToken_def Let_def makeToken_def is_ident_start_def
            is_alpha_def is_upper_def is_lower_def is_digit_def\<close>)
    qed
  next
    show "\<not> is_blank c" using not_word_char [OF c] by simp
  next
    show "\<not> (c = CHR ''-'' \<and> (\<exists>s'. cs @ r = CHR ''-'' # s'))"
      using assms(1,2) s by (auto simp: symbolTable_def apart_def split: list.splits)
  qed
  then show ?thesis by (simp add: s)
qed

lemma lexes_cons:
  assumes "spelled x" "apart x r" "lexes r ts"
  shows "lexes (spelling x @ r) (x # ts)"
  using assms(1)
proof cases
  case (word s)
  have "r = [] \<or> \<not> is_ident_part (hd r)"
    using assms(2) word word_type_not_symbol [of s] word_not_symbol [of s]
    by (cases r) (auto simp: apart_def)
  with lexes_word [OF word(2) this assms(3)] word_type_not_symbol [of s] word(1) show ?thesis
    by (simp add: spelling_def)
next
  case (int s)
  then show ?thesis using lexes_int [OF int(2) _ assms(3)] assms(2) by (simp add: spelling_def)
next
  case (float s f)
  have "r = [] \<or> \<not> is_digit (hd r)" using assms(2) float(1) by (cases r) (auto simp: apart_def)
  from lexes_float [OF float(2,3) this assms(3)] float(1) show ?thesis by (simp add: spelling_def)
next
  case (str s)
  have "r = [] \<or> hd r \<noteq> quote_char" using assms(2) str by (cases r) (auto simp: apart_def)
  from lexes_string [OF this assms(3)] str show ?thesis by (simp add: spelling_def)
next
  case (sym s t)
  have "t \<noteq> T_STRING_LITERAL" using sym(2) by (auto simp: symbolTable_def)
  with lexes_symbol [OF sym(2) _ assms(3)] assms(2) sym(1) show ?thesis by (simp add: spelling_def)
qed

lemma apart_blank: "is_blank c \<Longrightarrow> apart x (c # r)"
  by (auto simp: apart_def is_blank_def is_digit_def is_ident_part_def is_alnum_def is_alpha_def
      is_upper_def is_lower_def quote_char_def)

text \<open>C20: Reading back what was written: any sequence of tokens with valid lexemes (words in either
  case, numbers, strings with any character, quotes included, symbols), each written as it is
  spelled and followed by a white space character, is tokenized into exactly that sequence.\<close>

theorem tokenize_spelled:
  assumes "list_all spelled xs" "is_blank c"
  shows "lexemes (tokenize (concat (map (\<lambda>x. spelling x @ [c]) xs))) = xs @ [(T_END_OF_FILE, [])]"
proof -
  have "lexes (concat (map (\<lambda>x. spelling x @ [c]) xs)) (xs @ [(T_END_OF_FILE, [])])"
    using assms(1)
  proof (induction xs)
    case Nil
    then show ?case by (simp add: lexes_Nil)
  next
    case (Cons x xs)
    then have "lexes (c # concat (map (\<lambda>x. spelling x @ [c]) xs)) (xs @ [(T_END_OF_FILE, [])])"
      by (simp add: lexes_blank [OF assms(2)])
    then show ?case using Cons.prems apart_blank [OF assms(2)] by (simp add: lexes_cons)
  qed
  then show ?thesis by (simp add: lexes_def tokenize_def lexer_of_def)
qed

theorem tokenize_spelled_witness:
  "lexemes (tokenize (''FETCH '' @ [quote_char] @ ''a'' @ [quote_char, quote_char, quote_char] @ '' '')) =
     [(T_SELECT, ''FETCH''), (T_STRING_LITERAL, ''a'' @ [quote_char]), (T_END_OF_FILE, [])]"
proof -
  have k: "word_type ''FETCH'' = T_SELECT"
    by (simp add: word_type_def keywordTable_def to_upper_def is_lower_def)
  have "spelled (word_type ''FETCH'', ''FETCH'')"
    by (rule spelled.word) (simp add: is_word_def is_ident_start_def is_ident_part_def is_alnum_def
        is_alpha_def is_upper_def)
  then have "list_all spelled [(T_SELECT, ''FETCH''), (T_STRING_LITERAL, ''a'' @ [quote_char])]"
    by (simp add: k spelled.str)
  from tokenize_spelled [OF this, of "CHR '' ''"] show ?thesis
    by (simp add: is_blank_def spelling_def quote_char_def)
qed

end
