(* ===== verification/Ast.thy ===== *)
theory Ast
  imports Tuples
begin

text \<open>
  The syntax tree, \<open>src/include/frontend/ast.hpp\<close> and \<open>src/src/frontend/ast.cpp\<close>. The
  subclasses of \<open>Expression\<close> are the constructors of \<open>expr\<close>, with \<open>resolvedType\<close> as the first
  field of each; \<open>ColumnRef\<close>, \<open>FunctionExpr\<close>, \<open>WindowExpr\<close>, \<open>SubqueryExpr\<close> and \<open>SelectStatement\<close>,
  which other classes hold directly, are types of their own. Owning pointers are values, the ones
  that may be null are options. \<open>LiteralExpr\<close> and \<open>CachedValue\<close> hold a \<open>val\<close>: their other members
  keep the default values. \<open>bound\<close> and \<open>boundValue\<close> are one option, and so are \<open>evaluated\<close> and
  \<open>results\<close>. The list of pointers \<open>outerRefs\<close>, whose targets are the \<open>ColumnRef\<close>s with \<open>outerRef\<close>
  inside the query, is not repeated.
\<close>

section \<open>Expressions\<close>

datatype comparison_op = Eq | Neq | Lt | Leq | Gt | Geq

datatype logical_op = OpAnd | OpOr

datatype arithmetic_op = Add | Sub | Mul | Div

datatype join_kind = JInner | JLeft | JRight | JFull | JCross

datatype expr =
    LiteralExpr "data_type option" val
  | ColumnRef column_ref
  | BinaryExpr "data_type option" comparison_op expr expr
  | LogicalExpr "data_type option" logical_op expr expr
  | ArithmeticExpr "data_type option" arithmetic_op expr expr
  | UnaryExpr "data_type option" expr
  | IsNullExpr "data_type option" expr bool
  | InExpr "data_type option" expr "expr list" "subquery option" bool
  | BetweenExpr "data_type option" expr expr expr bool
  | LikeExpr "data_type option" expr expr bool
  | FunctionExpr function_expr
  | CallExpr "data_type option" string "expr list" data_type bool
  | CaseExpr "data_type option" "(expr \<times> expr) list" "expr option"
  | WindowExpr "data_type option" string "column_ref option" "column_ref list" "(column_ref \<times> bool) list"
  | SubqueryExpr subquery
and column_ref =
    Col (col_type: "data_type option") (col_table: string) (col_column: string) (col_alias: string)
      (computed: "expr option") (columnIndex: int) (outerRef: bool) (bound: "val option")
and function_expr =
    Fn (fn_type: "data_type option") (fn_name: string) (fn_star: bool) (fn_distinct: bool)
      (fn_argument: "column_ref option") (fn_alias: string)
and subquery =
    Subq (sub_type: "data_type option") (sub_exists: bool) (sub_query: select) (correlated: bool)
      (sub_results: "val list option")
and select =
    Select (selectStar: bool) (sel_distinct: bool) (explain: bool) (sel_columns: "column_ref list")
      (sel_table: string) (tableAlias: string) (asOf: "u64 option") (sel_where: "expr option")
      (orderBy: "(column_ref \<times> bool) list") (limit: "i64 option") (offset: i64)
      (aggregates: "function_expr list") (groupBy: "column_ref list") (having: "expr option")
      (joinTable: string) (joinTableAlias: string) (joinOn: "expr option") (joinTableId: int)
      (joinType: join_kind) (extraJoins: "join_clause list") (sel_tableId: int)
and join_clause =
    JoinClause (jc_kind: join_kind) (jc_table: string) (jc_alias: string) (jc_on: "expr option")
      (jc_tableId: int)

section \<open>Names and texts\<close>

fun dataTypeName :: "data_type \<Rightarrow> string" where
  "dataTypeName DInt = ''INT''"
| "dataTypeName DBool = ''BOOL''"
| "dataTypeName DText = ''TEXT''"
| "dataTypeName DVarchar = ''VARCHAR''"
| "dataTypeName DFloat = ''FLOAT''"
| "dataTypeName DDate = ''DATE''"
| "dataTypeName DTimestamp = ''TIMESTAMP''"

fun comparisonOpName :: "comparison_op \<Rightarrow> string" where
  "comparisonOpName Eq = ''=''"
| "comparisonOpName Neq = ''!=''"
| "comparisonOpName Lt = ''<''"
| "comparisonOpName Leq = ''<=''"
| "comparisonOpName Gt = ''>''"
| "comparisonOpName Geq = ''>=''"

fun arithmeticOpName :: "arithmetic_op \<Rightarrow> string" where
  "arithmeticOpName Add = ''+''"
| "arithmeticOpName Sub = ''-''"
| "arithmeticOpName Mul = ''*''"
| "arithmeticOpName Div = ''/''"

definition quoteString :: "string \<Rightarrow> string" where
  "quoteString s =
     CHR 0x27 # concat (map (\<lambda>c. if c = CHR 0x27 then [CHR 0x27, CHR 0x27] else [c]) s) @ [CHR 0x27]"

fun literalText :: "val \<Rightarrow> string" where
  "literalText (VInt i) = i64_str i"
| "literalText (VDouble d) = fmt_f d"
| "literalText (VText s) = quoteString s"
| "literalText (VBool b) = (if b then ''TRUE'' else ''FALSE'')"
| "literalText VNull = ''NULL''"

text \<open>Strings or the message of a \<open>std::runtime_error\<close>; operands are rendered left to right.\<close>

definition then_text :: "string + string \<Rightarrow> (string \<Rightarrow> string + string) \<Rightarrow> string + string" where
  "then_text m f = (case m of Inl e \<Rightarrow> Inl e | Inr s \<Rightarrow> f s)"

function (sequential) expressionToString :: "expr \<Rightarrow> string + string"
  and listText :: "expr list \<Rightarrow> string + string"
  and branchText :: "(expr \<times> expr) list \<Rightarrow> string + string" where
  "expressionToString (LiteralExpr _ v) = Inr (literalText v)"
| "expressionToString (ColumnRef c) =
     Inr (if col_table c = [] then col_column c else col_table c @ ''.'' @ col_column c)"
| "expressionToString (BinaryExpr _ op l r) =
     then_text (expressionToString l) (\<lambda>a. then_text (expressionToString r) (\<lambda>b.
       Inr (''('' @ a @ '' '' @ comparisonOpName op @ '' '' @ b @ '')'')))"
| "expressionToString (ArithmeticExpr _ op l r) =
     then_text (expressionToString l) (\<lambda>a. then_text (expressionToString r) (\<lambda>b.
       Inr (''('' @ a @ '' '' @ arithmeticOpName op @ '' '' @ b @ '')'')))"
| "expressionToString (LogicalExpr _ op l r) =
     then_text (expressionToString l) (\<lambda>a. then_text (expressionToString r) (\<lambda>b.
       Inr (''('' @ a @ (if op = OpAnd then '' AND '' else '' OR '') @ b @ '')'')))"
| "expressionToString (UnaryExpr _ e) =
     then_text (expressionToString e) (\<lambda>a. Inr (''(NOT '' @ a @ '')''))"
| "expressionToString (IsNullExpr _ e negated) =
     then_text (expressionToString e) (\<lambda>a.
       Inr (''('' @ a @ (if negated then '' IS NOT NULL)'' else '' IS NULL)'')))"
| "expressionToString (BetweenExpr _ v lo hi negated) =
     then_text (expressionToString v) (\<lambda>a. then_text (expressionToString lo) (\<lambda>b.
     then_text (expressionToString hi) (\<lambda>c.
       Inr (''('' @ a @ (if negated then '' NOT BETWEEN '' else '' BETWEEN '') @ b @ '' AND '' @ c @ '')''))))"
| "expressionToString (LikeExpr _ v p negated) =
     then_text (expressionToString v) (\<lambda>a. then_text (expressionToString p) (\<lambda>b.
       Inr (''('' @ a @ (if negated then '' NOT LIKE '' else '' LIKE '') @ b @ '')'')))"
| "expressionToString (InExpr _ v items sub negated) =
     (if sub \<noteq> None then Inl ''subquery not allowed in CHECK''
      else then_text (expressionToString v) (\<lambda>a. then_text (listText items) (\<lambda>b.
        Inr (''('' @ a @ (if negated then '' NOT IN ('' else '' IN ('') @ b @ ''))''))))"
| "expressionToString (CallExpr _ name args castType isCast) =
     (if isCast then
        (case args of
           [] \<Rightarrow> Inl ''CAST without an argument''
         | e # _ \<Rightarrow> then_text (expressionToString e) (\<lambda>a.
             Inr (''CAST('' @ a @ '' AS '' @ dataTypeName castType @ '')'')))
      else then_text (listText args) (\<lambda>a. Inr (name @ ''('' @ a @ '')'')))"
| "expressionToString (CaseExpr _ branches els) =
     then_text (branchText branches) (\<lambda>a.
       (case els of
          None \<Rightarrow> Inr (''CASE'' @ a @ '' END'')
        | Some e \<Rightarrow> then_text (expressionToString e) (\<lambda>b. Inr (''CASE'' @ a @ '' ELSE '' @ b @ '' END''))))"
| "expressionToString (WindowExpr _ name arg _ _) =
     Inr (name @ ''('' @ (case arg of None \<Rightarrow> [] | Some c \<Rightarrow> col_column c) @ '') OVER'')"
| "expressionToString (SubqueryExpr q) = Inr (if sub_exists q then ''EXISTS(...)'' else ''(subquery)'')"
| "expressionToString (FunctionExpr _) = Inl ''unsupported expression in CHECK constraint''"
| "listText [] = Inr []"
| "listText (e # es) =
     then_text (expressionToString e) (\<lambda>a.
       if es = [] then Inr a else then_text (listText es) (\<lambda>b. Inr (a @ '', '' @ b)))"
| "branchText [] = Inr []"
| "branchText ((w, t) # bs) =
     then_text (expressionToString w) (\<lambda>a. then_text (expressionToString t) (\<lambda>b.
     then_text (branchText bs) (\<lambda>c. Inr ('' WHEN '' @ a @ '' THEN '' @ b @ c))))"
  by pat_completeness auto

termination
  by (relation "measure (case_sum size (case_sum (size_list size) (size_list (size_prod size size))))") auto

section \<open>Statements\<close>

record column_definition =
  cd_name :: string
  cd_type :: data_type
  varcharLength :: int
  refTable :: string
  refColumn :: string
  refOnDelete :: int
  refOnUpdate :: int
  notNull :: bool
  primaryKey :: bool
  unique :: bool
  autoIncrement :: bool
  defaultValue :: "val option"
  checkExpr :: "expr option"

record create_statement =
  ct_table :: string
  ct_columns :: "column_definition list"
  primaryKeyColumns :: "string list"
  asQuery :: "select option"
  ct_tableId :: int

record create_idx_statement =
  ci_indexName :: string
  ci_table :: string
  ci_columns :: "string list"
  ci_tableId :: int
  ci_columnIndices :: "int list"

record insert_statement =
  ins_table :: string
  ins_columns :: "string list"
  ins_rows :: "expr list list"
  ins_select :: "select option"
  defaultValues :: bool
  ins_returningStar :: bool
  ins_returning :: "column_ref list"
  hasOnConflict :: bool
  conflictDoNothing :: bool
  conflictColumns :: "column_ref list"
  conflictSetColumns :: "string list"
  conflictSetValues :: "expr list"
  ins_tableId :: int

record delete_statement =
  del_table :: string
  del_where :: "expr option"
  del_returningStar :: bool
  del_returning :: "column_ref list"
  del_tableId :: int

record update_statement =
  upd_table :: string
  targetColumns :: "string list"
  upd_values :: "expr list"
  upd_where :: "expr option"
  fromTable :: string
  fromAlias :: string
  upd_returningStar :: bool
  upd_returning :: "column_ref list"
  upd_tableId :: int
  fromTableId :: int
  targetIndices :: "int list"

record drop_statement =
  isIndex :: bool
  isView :: bool
  is_truncate :: bool
  drop_name :: string
  drop_tableId :: int

datatype alter_kind = AddColumn | DropColumn

record alter_statement =
  alter_kind :: alter_kind
  alter_table :: string
  alter_column :: column_definition
  dropColumn :: string
  alter_tableId :: int

datatype transaction_kind = TxBegin | TxCommit | TxRollback

datatype set_op = OpUnion | OpIntersect | OpExcept

record create_view_statement =
  view_name :: string
  view_query :: select
  view_source :: string
  view_tableId :: int

datatype statement =
    CreateStatement create_statement
  | CreateIdxStatement create_idx_statement
  | InsertStatement insert_statement
  | SelectStatement select
  | DeleteStatement delete_statement
  | UpdateStatement update_statement
  | DropStatement drop_statement
  | AlterStatement alter_statement
  | TransactionStatement transaction_kind
  | SetOpStatement set_op bool statement select
  | CreateViewStatement create_view_statement

end
