(* ===== verification/Cursor.thy ===== *)
theory Cursor
  imports Ast Lexer
begin

text \<open>
  The token cursor of \<open>src/src/frontend/parser.cpp\<close> and the way its methods compose. A parser is
  a function on the cursor that gives a value and the cursor behind it, or an error: a
  \<open>ParseError\<close> with its message and position, another \<open>std::exception\<close> that the callers of the
  parser do not catch as a \<open>ParseError\<close>, or \<open>OutOfFuel\<close>, which stands for a loop or a recursion
  that goes on and which \<open>ParserTotal\<close> proves never to be the outcome. The cursor is
  the token before and the tokens from \<open>pos_\<close> on. The list ends with \<open>END_OF_FILE\<close>
  (\<open>tokenize_total\<close>) and \<open>advance\<close> does not go past that token, so the empty list, which reads
  as \<open>END_OF_FILE\<close> here, does not occur.
\<close>

section \<open>Parsers\<close>

datatype parse_error = ParseError string int int | StdException string | OutOfFuel

record cursor =
  prev :: token
  rest :: "token list"

type_synonym 'a parser = "cursor \<Rightarrow> parse_error + 'a \<times> cursor"

definition p_return :: "'a \<Rightarrow> 'a parser" where
  "p_return x s = Inr (x, s)"

definition p_bind :: "'a parser \<Rightarrow> ('a \<Rightarrow> 'b parser) \<Rightarrow> 'b parser" where
  "p_bind p f s = (case p s of Inl e \<Rightarrow> Inl e | Inr (x, s') \<Rightarrow> f x s')"

definition p_raise :: "parse_error \<Rightarrow> 'a parser" where
  "p_raise e s = Inl e"

definition end_token :: token where
  "end_token = \<lparr>tok_type = T_END_OF_FILE, lexeme = [], tok_line = 0, tok_column = 0\<rparr>"

definition cursor_of :: "token list \<Rightarrow> cursor" where
  "cursor_of ts = \<lparr>prev = end_token, rest = ts\<rparr>"

definition peek :: "cursor \<Rightarrow> token" where
  "peek s = (case rest s of [] \<Rightarrow> end_token | t # _ \<Rightarrow> t)"

definition peekAt :: "nat \<Rightarrow> cursor \<Rightarrow> token" where
  "peekAt k s =
     (if k < length (rest s) then rest s ! k else if rest s = [] then end_token else last (rest s))"

definition isAtEnd :: "cursor \<Rightarrow> bool" where
  "isAtEnd s \<longleftrightarrow> tok_type (peek s) = T_END_OF_FILE"

definition advance :: "token parser" where
  "advance s = (if isAtEnd s then Inr (prev s, s) else Inr (peek s, \<lparr>prev = peek s, rest = tl (rest s)\<rparr>))"

definition check :: "token_type \<Rightarrow> bool parser" where
  "check t s = Inr (tok_type (peek s) = t, s)"

definition check_at :: "nat \<Rightarrow> (token_type \<Rightarrow> bool) \<Rightarrow> bool parser" where
  "check_at k p s = Inr (p (tok_type (peekAt k s)), s)"

definition look :: "token parser" where
  "look s = Inr (peek s, s)"

text \<open>\<open>match\<close> of the source.\<close>

definition accept :: "token_type \<Rightarrow> bool parser" where
  "accept t =
     p_bind (check t) (\<lambda>b. if b then p_bind advance (\<lambda>_. p_return True) else p_return False)"

definition error_at :: "token \<Rightarrow> string \<Rightarrow> 'a parser" where
  "error_at t msg =
     p_raise (ParseError
       (''syntax error at line '' @ int_str (tok_line t) @ '', column '' @ int_str (tok_column t) @ '': '' @ msg @
        (if tok_type t = T_END_OF_FILE then '' (reached end of input)''
         else if lexeme t \<noteq> [] then '' (near '' @ [CHR 0x27] @ lexeme t @ [CHR 0x27] @ '')''
         else []))
       (tok_line t) (tok_column t))"

definition consume :: "token_type \<Rightarrow> string \<Rightarrow> token parser" where
  "consume t what =
     p_bind (check t) (\<lambda>b. if b then advance else p_bind look (\<lambda>k. error_at k (''expected '' @ what)))"

text \<open>\<open>consume(type, what).lexeme\<close>\<close>

definition consume_lexeme :: "token_type \<Rightarrow> string \<Rightarrow> string parser" where
  "consume_lexeme t what = p_bind (consume t what) (\<lambda>k. p_return (lexeme k))"

section \<open>Loops\<close>

text \<open>
  \<open>do { p } while (match(COMMA))\<close> and the loops that run a step until it says to stop. Each
  further round of either has consumed a token, so the number of tokens left at the start, and
  one more, is fuel enough.
\<close>

primrec comma_rounds :: "nat \<Rightarrow> 'a parser \<Rightarrow> 'a list parser" where
  "comma_rounds 0 p = p_raise OutOfFuel"
| "comma_rounds (Suc n) p =
     p_bind p (\<lambda>x. p_bind (accept T_COMMA) (\<lambda>m.
       if m then p_bind (comma_rounds n p) (\<lambda>xs. p_return (x # xs)) else p_return [x]))"

definition comma_list :: "'a parser \<Rightarrow> 'a list parser" where
  "comma_list p s = comma_rounds (Suc (length (rest s))) p s"

primrec rounds :: "nat \<Rightarrow> ('a \<Rightarrow> 'a option parser) \<Rightarrow> 'a \<Rightarrow> 'a parser" where
  "rounds 0 step x = p_raise OutOfFuel"
| "rounds (Suc n) step x =
     p_bind (step x) (\<lambda>r. case r of None \<Rightarrow> p_return x | Some y \<Rightarrow> rounds n step y)"

definition repeat_step :: "('a \<Rightarrow> 'a option parser) \<Rightarrow> 'a \<Rightarrow> 'a parser" where
  "repeat_step step x s = rounds (Suc (length (rest s))) step x s"

text \<open>\<open>if (match(t)) q = p()\<close>\<close>

definition optional :: "token_type \<Rightarrow> 'a parser \<Rightarrow> 'a option parser" where
  "optional t p =
     p_bind (accept t) (\<lambda>m. if m then p_bind p (\<lambda>x. p_return (Some x)) else p_return None)"

end
