(* ===== verification/Parser.thy ===== *)
theory Parser
  imports Cursor
begin

text \<open>
  The recursive descent parser, \<open>src/src/frontend/parser.cpp\<close>, one definition per method. The
  methods that call each other in a cycle take the methods at the points where the recursion
  closes from a record \<open>grammar\<close>; \<open>grammar_at n\<close> is the parser whose recursion may be \<open>n\<close> deep.
  Every recursive call comes behind at least one consumed token, so the number of tokens is depth
  enough; the entry points use it.
\<close>

section \<open>Tokens and literals\<close>

definition isComparisonToken :: "token_type \<Rightarrow> bool" where
  "isComparisonToken t \<longleftrightarrow> t \<in> {T_EQ, T_NEQ, T_LT, T_LEQ, T_GT, T_GEQ}"

definition toComparisonOp :: "token_type \<Rightarrow> comparison_op" where
  "toComparisonOp t =
     (if t = T_EQ then Eq else if t = T_NEQ then Neq else if t = T_LT then Lt
      else if t = T_LEQ then Leq else if t = T_GT then Gt else if t = T_GEQ then Geq else Eq)"

definition isLiteralToken :: "token_type \<Rightarrow> bool" where
  "isLiteralToken t \<longleftrightarrow>
     t \<in> {T_INTEGER_LITERAL, T_FLOAT_LITERAL, T_STRING_LITERAL, T_TRUE, T_FALSE, T_NULL_LITERAL}"

definition upperName :: "string \<Rightarrow> string" where
  "upperName s = map to_upper s"

definition isAggregateName :: "string \<Rightarrow> bool" where
  "isAggregateName name \<longleftrightarrow> upperName name \<in> {''COUNT'', ''SUM'', ''AVG'', ''MIN'', ''MAX''}"

definition toInt64 :: "token \<Rightarrow> i64 parser" where
  "toInt64 t =
     (case stoll (lexeme t) of
        Some i \<Rightarrow> p_return i
      | None \<Rightarrow> error_at t ''integer literal out of range'')"

text \<open>\<open>std::stod\<close> throws \<open>out_of_range\<close>, which is not a \<open>ParseError\<close>.\<close>

definition toDouble :: "token \<Rightarrow> dbl parser" where
  "toDouble t =
     (case stod (lexeme t) of Some d \<Rightarrow> p_return d | None \<Rightarrow> p_raise (StdException ''stod''))"

definition makeLiteral :: "token \<Rightarrow> val parser" where
  "makeLiteral t =
     (if tok_type t = T_INTEGER_LITERAL then p_bind (toInt64 t) (\<lambda>i. p_return (VInt i))
      else if tok_type t = T_FLOAT_LITERAL then p_bind (toDouble t) (\<lambda>d. p_return (VDouble d))
      else if tok_type t = T_STRING_LITERAL then p_return (VText (lexeme t))
      else if tok_type t = T_TRUE then p_return (VBool True)
      else if tok_type t = T_FALSE then p_return (VBool False)
      else if tok_type t = T_NULL_LITERAL then p_return VNull
      else error_at t ''expected a literal value'')"

fun negated_literal :: "val \<Rightarrow> val" where
  "negated_literal (VInt i) = VInt (- i)"
| "negated_literal (VDouble d) = VDouble (f_neg d)"
| "negated_literal v = v"

definition parseLiteral :: "expr parser" where
  "parseLiteral =
     p_bind (check T_MINUS) (\<lambda>minus. p_bind (check T_PLUS) (\<lambda>plus.
     p_bind (check_at 1 (\<lambda>t. t = T_INTEGER_LITERAL \<or> t = T_FLOAT_LITERAL)) (\<lambda>num.
     p_bind (if (minus \<or> plus) \<and> num then p_bind advance (\<lambda>_. p_return minus) else p_return False) (\<lambda>negate.
     p_bind look (\<lambda>t.
       if \<not> isLiteralToken (tok_type t) then error_at t ''expected a literal value''
       else p_bind advance (\<lambda>_. p_bind (makeLiteral t) (\<lambda>v.
         p_return (LiteralExpr None (if negate then negated_literal v else v)))))))))"

definition simple_col :: "string \<Rightarrow> string \<Rightarrow> column_ref" where
  "simple_col tab c = Col None tab c [] None (- 1) False None"

definition parseColumnRef :: "column_ref parser" where
  "parseColumnRef =
     p_bind (consume_lexeme T_IDENTIFIER ''column name'') (\<lambda>first.
     p_bind (accept T_DOT) (\<lambda>dot.
       if dot then p_bind (consume_lexeme T_IDENTIFIER ''column name'') (\<lambda>second.
         p_return (simple_col first second))
       else p_return (simple_col [] first)))"

definition lparen :: "token parser" where
  "lparen = consume T_LPAREN [CHR 0x27, CHR ''('', CHR 0x27]"

definition rparen :: "token parser" where
  "rparen = consume T_RPAREN [CHR 0x27, CHR '')'', CHR 0x27]"

definition parseAggregate :: "function_expr parser" where
  "parseAggregate =
     p_bind advance (\<lambda>t.
     p_bind lparen (\<lambda>_.
     p_bind (accept T_DISTINCT) (\<lambda>distinct.
     p_bind (accept T_STAR) (\<lambda>star.
     p_bind (if star then p_return None else p_bind parseColumnRef (\<lambda>c. p_return (Some c))) (\<lambda>arg.
     p_bind rparen (\<lambda>_.
       p_return (Fn None (upperName (lexeme t)) star distinct arg [])))))))"

definition parseOptionalAlias :: "string parser" where
  "parseOptionalAlias =
     p_bind (accept T_AS) (\<lambda>as.
       if as then consume_lexeme T_IDENTIFIER ''alias''
       else p_bind (check T_IDENTIFIER) (\<lambda>id.
         if id then p_bind advance (\<lambda>t. p_return (lexeme t)) else p_return []))"

definition parseReturning :: "(bool \<times> column_ref list) parser" where
  "parseReturning =
     p_bind (accept T_RETURNING) (\<lambda>m.
       if \<not> m then p_return (False, [])
       else p_bind (accept T_STAR) (\<lambda>star.
         if star then p_return (True, [])
         else p_bind (comma_list parseColumnRef) (\<lambda>cols. p_return (False, cols))))"

definition parseOrderKey :: "(column_ref \<times> bool) parser" where
  "parseOrderKey =
     p_bind parseColumnRef (\<lambda>c. p_bind (accept T_ASC) (\<lambda>asc.
       if asc then p_return (c, True)
       else p_bind (accept T_DESC) (\<lambda>desc. p_return (c, \<not> desc))))"

definition parseWindowSpec :: "(column_ref list \<times> (column_ref \<times> bool) list) parser" where
  "parseWindowSpec =
     p_bind (consume T_OVER ''OVER'') (\<lambda>_. p_bind lparen (\<lambda>_.
     p_bind (accept T_PARTITION) (\<lambda>m.
     p_bind (if m then p_bind (consume T_BY ''BY'') (\<lambda>_. comma_list parseColumnRef) else p_return []) (\<lambda>parts.
     p_bind (accept T_ORDER) (\<lambda>m.
     p_bind (if m then p_bind (consume T_BY ''BY'') (\<lambda>_. comma_list parseOrderKey) else p_return []) (\<lambda>keys.
     p_bind rparen (\<lambda>_. p_return (parts, keys))))))))"

definition parseCastType :: "data_type parser" where
  "parseCastType =
     p_bind look (\<lambda>t.
       let simple = (\<lambda>d. p_bind advance (\<lambda>_. p_return d))
       in if tok_type t = T_INT_TYPE then simple DInt
          else if tok_type t = T_FLOAT_TYPE then simple DFloat
          else if tok_type t = T_BOOL_TYPE then simple DBool
          else if tok_type t = T_TEXT_TYPE then simple DText
          else if tok_type t = T_DATE_TYPE then simple DDate
          else if tok_type t = T_TIMESTAMP_TYPE then simple DTimestamp
          else if tok_type t = T_VARCHAR then
            p_bind advance (\<lambda>_. p_bind (accept T_LPAREN) (\<lambda>m.
              if m then p_bind (consume T_INTEGER_LITERAL ''VARCHAR length'') (\<lambda>_. p_bind rparen (\<lambda>_. p_return DVarchar))
              else p_return DVarchar))
          else error_at t ''expected a type in CAST'')"

section \<open>Expressions\<close>

record grammar =
  gExpression :: "expr parser"
  gNot :: "expr parser"
  gAdditive :: "expr parser"
  gUnary :: "expr parser"
  gSelect :: "select parser"

definition parseCall :: "grammar \<Rightarrow> expr parser" where
  "parseCall g =
     p_bind (consume_lexeme T_IDENTIFIER ''function name'') (\<lambda>n.
     let name = upperName n
     in p_bind lparen (\<lambda>_.
       if name = ''CAST'' then
         p_bind (gExpression g) (\<lambda>e. p_bind (consume T_AS ''AS'') (\<lambda>_.
         p_bind parseCastType (\<lambda>ty. p_bind rparen (\<lambda>_.
           p_return (CallExpr None name [e] ty True)))))
       else
         p_bind (check T_RPAREN) (\<lambda>none.
         p_bind (if none then p_return [] else comma_list (gExpression g)) (\<lambda>args.
         p_bind rparen (\<lambda>_. p_return (CallExpr None name args DInt False))))))"

definition case_branch :: "grammar \<Rightarrow> (expr \<times> expr) list \<Rightarrow> (expr \<times> expr) list option parser" where
  "case_branch g bs =
     p_bind (accept T_WHERE) (\<lambda>m.
       if m then
         p_bind (gExpression g) (\<lambda>w. p_bind (consume T_THEN ''THEN'') (\<lambda>_.
         p_bind (gAdditive g) (\<lambda>t. p_return (Some (bs @ [(w, t)])))))
       else p_return None)"

definition parseCase :: "grammar \<Rightarrow> expr parser" where
  "parseCase g =
     p_bind (consume T_CASE ''CASE'') (\<lambda>_.
     p_bind (repeat_step (case_branch g) []) (\<lambda>bs.
     if bs = [] then p_bind look (\<lambda>t. error_at t ''CASE requires at least one WHEN branch'')
     else
       p_bind (optional T_ELSE (gAdditive g)) (\<lambda>els.
       p_bind (consume T_END ''END'') (\<lambda>_. p_return (CaseExpr None bs els)))))"

definition parseSubquery :: "grammar \<Rightarrow> bool \<Rightarrow> subquery parser" where
  "parseSubquery g ex = p_bind (gSelect g) (\<lambda>q. p_return (Subq None ex q False None))"

definition parsePrimary :: "grammar \<Rightarrow> expr parser" where
  "parsePrimary g =
     p_bind (check T_CASE) (\<lambda>c.
     if c then parseCase g
     else p_bind (check T_IDENTIFIER) (\<lambda>ident. p_bind (check_at 1 ((=) T_LPAREN)) (\<lambda>call.
       if ident \<and> call then
         p_bind look (\<lambda>t.
           if isAggregateName (lexeme t) then p_bind parseAggregate (\<lambda>f. p_return (FunctionExpr f))
           else parseCall g)
       else p_bind (accept T_EXISTS) (\<lambda>ex.
         if ex then
           p_bind lparen (\<lambda>_. p_bind (parseSubquery g True) (\<lambda>q. p_bind rparen (\<lambda>_.
             p_return (SubqueryExpr q))))
         else p_bind (accept T_LPAREN) (\<lambda>par.
           if par then
             p_bind (check T_SELECT) (\<lambda>sel.
               if sel then
                 p_bind (parseSubquery g False) (\<lambda>q. p_bind rparen (\<lambda>_. p_return (SubqueryExpr q)))
               else p_bind (gExpression g) (\<lambda>e. p_bind rparen (\<lambda>_. p_return e)))
           else p_bind look (\<lambda>t.
             if isLiteralToken (tok_type t) then
               p_bind advance (\<lambda>_. p_bind (makeLiteral t) (\<lambda>v. p_return (LiteralExpr None v)))
             else if tok_type t = T_IDENTIFIER then
               p_bind parseColumnRef (\<lambda>c. p_return (ColumnRef c))
             else error_at t ''expected an expression''))))))"

fun negated_expr :: "expr \<Rightarrow> expr" where
  "negated_expr (LiteralExpr t (VInt i)) = LiteralExpr t (VInt (- i))"
| "negated_expr (LiteralExpr t (VDouble d)) = LiteralExpr t (VDouble (f_neg d))"
| "negated_expr e = ArithmeticExpr None Sub (LiteralExpr None (VInt 0)) e"

definition parseUnary :: "grammar \<Rightarrow> expr parser" where
  "parseUnary g =
     p_bind (accept T_MINUS) (\<lambda>minus.
     if minus then p_bind (gUnary g) (\<lambda>e. p_return (negated_expr e))
     else p_bind (accept T_PLUS) (\<lambda>plus. if plus then gUnary g else parsePrimary g))"

definition multiplicative_step :: "grammar \<Rightarrow> expr \<Rightarrow> expr option parser" where
  "multiplicative_step g e =
     p_bind (accept T_STAR) (\<lambda>star.
     if star then p_bind (parseUnary g) (\<lambda>r. p_return (Some (ArithmeticExpr None Mul e r)))
     else p_bind (accept T_SLASH) (\<lambda>slash.
       if slash then p_bind (parseUnary g) (\<lambda>r. p_return (Some (ArithmeticExpr None Div e r)))
       else p_return None))"

definition parseMultiplicative :: "grammar \<Rightarrow> expr parser" where
  "parseMultiplicative g = p_bind (parseUnary g) (repeat_step (multiplicative_step g))"

definition additive_step :: "grammar \<Rightarrow> expr \<Rightarrow> expr option parser" where
  "additive_step g e =
     p_bind (accept T_PLUS) (\<lambda>plus.
     if plus then p_bind (parseMultiplicative g) (\<lambda>r. p_return (Some (ArithmeticExpr None Add e r)))
     else p_bind (accept T_MINUS) (\<lambda>minus.
       if minus then p_bind (parseMultiplicative g) (\<lambda>r. p_return (Some (ArithmeticExpr None Sub e r)))
       else p_return None))"

definition parseAdditive :: "grammar \<Rightarrow> expr parser" where
  "parseAdditive g = p_bind (parseMultiplicative g) (repeat_step (additive_step g))"

definition in_tail :: "grammar \<Rightarrow> expr \<Rightarrow> bool \<Rightarrow> expr parser" where
  "in_tail g left negated =
     p_bind lparen (\<lambda>_.
     p_bind (check T_SELECT) (\<lambda>sel.
     p_bind (if sel then p_bind (parseSubquery g False) (\<lambda>q. p_return ([], Some q))
             else p_bind (comma_list parseLiteral) (\<lambda>items. p_return (items, None))) (\<lambda>(items, sub).
     p_bind rparen (\<lambda>_. p_return (InExpr None left items sub negated)))))"

definition parseComparison :: "grammar \<Rightarrow> expr parser" where
  "parseComparison g =
     p_bind (parseAdditive g) (\<lambda>left.
     p_bind (accept T_IS) (\<lambda>is.
     if is then
       p_bind (accept T_NOT) (\<lambda>negated. p_bind (consume T_NULL_LITERAL ''NULL'') (\<lambda>_.
         p_return (IsNullExpr None left negated)))
     else
       p_bind (check T_NOT) (\<lambda>neg. p_bind (check_at 1 (\<lambda>t. t \<in> {T_IN, T_BETWEEN, T_LIKE})) (\<lambda>op.
       p_bind (if neg \<and> op then p_bind advance (\<lambda>_. p_return True) else p_return False) (\<lambda>negated.
       p_bind (accept T_IN) (\<lambda>inn.
       if inn then in_tail g left negated
       else p_bind (accept T_BETWEEN) (\<lambda>btw.
       if btw then
         p_bind (parseAdditive g) (\<lambda>lo. p_bind (consume T_AND ''AND'') (\<lambda>_.
         p_bind (parseAdditive g) (\<lambda>hi. p_return (BetweenExpr None left lo hi negated))))
       else p_bind (accept T_LIKE) (\<lambda>lik.
       if lik then p_bind (parseAdditive g) (\<lambda>p. p_return (LikeExpr None left p negated))
       else p_bind look (\<lambda>t.
         if isComparisonToken (tok_type t) then
           p_bind advance (\<lambda>_. p_bind (parseAdditive g) (\<lambda>r.
             p_return (BinaryExpr None (toComparisonOp (tok_type t)) left r)))
         else p_return left)))))))))"

definition parseNot :: "grammar \<Rightarrow> expr parser" where
  "parseNot g =
     p_bind (accept T_NOT) (\<lambda>m.
     if m then p_bind (gNot g) (\<lambda>e. p_return (UnaryExpr None e)) else parseComparison g)"

definition and_step :: "grammar \<Rightarrow> expr \<Rightarrow> expr option parser" where
  "and_step g e =
     p_bind (accept T_AND) (\<lambda>m.
     if m then p_bind (parseNot g) (\<lambda>r. p_return (Some (LogicalExpr None OpAnd e r))) else p_return None)"

definition parseAnd :: "grammar \<Rightarrow> expr parser" where
  "parseAnd g = p_bind (parseNot g) (repeat_step (and_step g))"

definition or_step :: "grammar \<Rightarrow> expr \<Rightarrow> expr option parser" where
  "or_step g e =
     p_bind (accept T_OR) (\<lambda>m.
     if m then p_bind (parseAnd g) (\<lambda>r. p_return (Some (LogicalExpr None OpOr e r))) else p_return None)"

definition parseOr :: "grammar \<Rightarrow> expr parser" where
  "parseOr g = p_bind (parseAnd g) (repeat_step (or_step g))"

abbreviation parseExpression :: "grammar \<Rightarrow> expr parser" where
  "parseExpression \<equiv> parseOr"

section \<open>Queries\<close>

definition optional_as :: "string parser" where
  "optional_as =
     p_bind (accept T_AS) (\<lambda>m. if m then consume_lexeme T_IDENTIFIER ''alias'' else p_return [])"

text \<open>A column of the result that is computed by a window function, or by an expression.\<close>

definition computed_col :: "string \<Rightarrow> string \<Rightarrow> expr \<Rightarrow> column_ref" where
  "computed_col name al e = Col None [] name al (Some e) (- 1) False None"

definition with_alias :: "string \<Rightarrow> column_ref \<Rightarrow> column_ref" where
  "with_alias al c =
     Col (col_type c) (col_table c) (col_column c) al (computed c) (columnIndex c) (outerRef c) (bound c)"

definition aggregate_item :: "(column_ref + function_expr) parser" where
  "aggregate_item =
     p_bind parseAggregate (\<lambda>f.
     p_bind (check T_OVER) (\<lambda>over.
     if over then
       p_bind parseWindowSpec (\<lambda>(parts, keys).
       p_bind optional_as (\<lambda>al.
         p_return (Inl (computed_col ''window'' al (WindowExpr None (fn_name f) (fn_argument f) parts keys)))))
     else
       p_bind optional_as (\<lambda>al.
         p_return (Inr (Fn (fn_type f) (fn_name f) (fn_star f) (fn_distinct f) (fn_argument f) al)))))"

definition window_item :: "expr \<Rightarrow> (column_ref + function_expr) parser" where
  "window_item e =
     (case e of
        CallExpr _ name _ _ _ \<Rightarrow>
          p_bind parseWindowSpec (\<lambda>(parts, keys).
          p_bind optional_as (\<lambda>al.
            p_return (Inl (computed_col ''window'' al (WindowExpr None name None parts keys)))))
      | _ \<Rightarrow> p_bind look (\<lambda>t. error_at t ''OVER requires a window function call''))"

text \<open>\<open>expressionToString\<close> throws a \<open>std::runtime_error\<close> on what it cannot render.\<close>

definition expression_item :: "expr \<Rightarrow> (column_ref + function_expr) parser" where
  "expression_item e =
     p_bind
       (case e of
          ColumnRef c \<Rightarrow> p_return c
        | _ \<Rightarrow> (case expressionToString e of
                  Inl msg \<Rightarrow> p_raise (StdException msg)
                | Inr name \<Rightarrow> p_return (computed_col name [] e))) (\<lambda>c.
     p_bind (accept T_AS) (\<lambda>m.
       if m then p_bind (consume_lexeme T_IDENTIFIER ''alias'') (\<lambda>al. p_return (Inl (with_alias al c)))
       else p_return (Inl c)))"

definition select_item :: "grammar \<Rightarrow> (column_ref + function_expr) parser" where
  "select_item g =
     p_bind (check T_IDENTIFIER) (\<lambda>ident. p_bind (check_at 1 ((=) T_LPAREN)) (\<lambda>call. p_bind look (\<lambda>t.
     if ident \<and> call \<and> isAggregateName (lexeme t) then aggregate_item
     else p_bind (parseAdditive g) (\<lambda>e. p_bind (check T_OVER) (\<lambda>over.
       if over then window_item e else expression_item e)))))"

definition columns_of :: "(column_ref + function_expr) list \<Rightarrow> column_ref list" where
  "columns_of = List.map_filter (\<lambda>x. case x of Inl c \<Rightarrow> Some c | Inr _ \<Rightarrow> None)"

definition aggregates_of :: "(column_ref + function_expr) list \<Rightarrow> function_expr list" where
  "aggregates_of = List.map_filter (\<lambda>x. case x of Inl _ \<Rightarrow> None | Inr f \<Rightarrow> Some f)"

text \<open>\<open>static_cast<unsigned long long>\<close> keeps the 64 bits.\<close>

definition table_name :: "string parser" where
  "table_name = consume_lexeme T_IDENTIFIER ''table name''"

definition as_of :: "(u64 option \<times> string) parser" where
  "as_of =
     p_bind (check T_AS) (\<lambda>as. p_bind (check_at 1 ((=) T_OF)) (\<lambda>of'.
     if as \<and> of' then
       p_bind advance (\<lambda>_. p_bind advance (\<lambda>_.
       p_bind (consume T_INTEGER_LITERAL ''AS OF version'') (\<lambda>v. p_bind (toInt64 v) (\<lambda>i.
         p_return (Some i, [])))))
     else p_bind parseOptionalAlias (\<lambda>al. p_return (None, al))))"

definition join_table :: "grammar \<Rightarrow> join_kind \<Rightarrow> join_clause parser" where
  "join_table g kind =
     p_bind table_name (\<lambda>tab. p_bind parseOptionalAlias (\<lambda>al.
     if kind = JCross then p_return (JoinClause kind tab al None (- 1))
     else p_bind (consume T_ON ''ON'') (\<lambda>_. p_bind (gExpression g) (\<lambda>e.
       p_return (JoinClause kind tab al (Some e) (- 1))))))"

definition link :: "grammar \<Rightarrow> join_kind \<Rightarrow> join_clause parser" where
  "link g kind = p_bind (consume T_JOIN ''LINK'') (\<lambda>_. join_table g kind)"

text \<open>The first join is stored in the statement itself, the others in \<open>extraJoins\<close>.\<close>

definition first_join :: "grammar \<Rightarrow> join_clause parser" where
  "first_join g =
     p_bind (accept T_LEFT) (\<lambda>m. if m then link g JLeft
     else p_bind (accept T_RIGHT) (\<lambda>m. if m then link g JRight
     else p_bind (accept T_FULL) (\<lambda>m. if m then link g JFull
     else p_bind (accept T_CROSS) (\<lambda>m. if m then link g JCross
     else p_bind (accept T_JOIN) (\<lambda>m. if m then join_table g JInner
     else p_return (JoinClause JInner [] [] None (- 1)))))))"

definition parseJoinClause :: "grammar \<Rightarrow> join_clause parser" where
  "parseJoinClause g =
     p_bind (accept T_LEFT) (\<lambda>m. if m then link g JLeft
     else p_bind (accept T_RIGHT) (\<lambda>m. if m then link g JRight
     else p_bind (accept T_FULL) (\<lambda>m. if m then link g JFull
     else p_bind (accept T_CROSS) (\<lambda>m. if m then link g JCross
     else link g JInner))))"

definition join_step :: "grammar \<Rightarrow> join_clause list \<Rightarrow> join_clause list option parser" where
  "join_step g js =
     p_bind look (\<lambda>t.
     if tok_type t \<in> {T_LEFT, T_RIGHT, T_FULL, T_CROSS, T_JOIN}
     then p_bind (parseJoinClause g) (\<lambda>j. p_return (Some (js @ [j])))
     else p_return None)"

definition by_list :: "token_type \<Rightarrow> 'a parser \<Rightarrow> 'a list parser" where
  "by_list t p =
     p_bind (accept t) (\<lambda>m.
     if m then p_bind (consume T_BY ''BY'') (\<lambda>_. comma_list p) else p_return [])"

definition int_clause :: "token_type \<Rightarrow> string \<Rightarrow> i64 option parser" where
  "int_clause t what =
     optional t (p_bind (consume T_INTEGER_LITERAL what) (\<lambda>n. toInt64 n))"

definition parseSelect :: "grammar \<Rightarrow> select parser" where
  "parseSelect g =
     p_bind (consume T_SELECT ''SELECT'') (\<lambda>_.
     p_bind (accept T_DISTINCT) (\<lambda>distinct.
     p_bind (accept T_STAR) (\<lambda>star.
     p_bind (if star then p_return [] else comma_list (select_item g)) (\<lambda>items.
     p_bind (consume T_FROM ''FROM'') (\<lambda>_.
     p_bind table_name (\<lambda>tab.
     p_bind as_of (\<lambda>(version, al).
     p_bind (first_join g) (\<lambda>j.
     p_bind (repeat_step (join_step g) []) (\<lambda>js.
     p_bind (optional T_WHERE (gExpression g)) (\<lambda>wh.
     p_bind (by_list T_GROUP parseColumnRef) (\<lambda>grp.
     p_bind (optional T_HAVING (gExpression g)) (\<lambda>hav.
     p_bind (by_list T_ORDER parseOrderKey) (\<lambda>ord.
     p_bind (int_clause T_LIMIT ''LIMIT count'') (\<lambda>lim.
     p_bind (int_clause T_OFFSET ''SKIP count'') (\<lambda>off.
       p_return (Select star distinct False (columns_of items) tab al version wh ord lim
         (case off of None \<Rightarrow> 0 | Some i \<Rightarrow> i) (aggregates_of items) grp hav
         (jc_table j) (jc_alias j) (jc_on j) (- 1) (jc_kind j) js (- 1)))))))))))))))))"

section \<open>The recursion\<close>

definition no_grammar :: grammar where
  "no_grammar = \<lparr>gExpression = p_raise OutOfFuel, gNot = p_raise OutOfFuel, gAdditive = p_raise OutOfFuel,
     gUnary = p_raise OutOfFuel, gSelect = p_raise OutOfFuel\<rparr>"

definition layer :: "grammar \<Rightarrow> grammar" where
  "layer g = \<lparr>gExpression = parseExpression g, gNot = parseNot g, gAdditive = parseAdditive g,
     gUnary = parseUnary g, gSelect = parseSelect g\<rparr>"

primrec grammar_at :: "nat \<Rightarrow> grammar" where
  "grammar_at 0 = no_grammar"
| "grammar_at (Suc n) = layer (grammar_at n)"

section \<open>Column definitions\<close>

text \<open>\<open>static_cast<int>\<close> of a 64-bit integer keeps the low 32 bits.\<close>

definition to_int32 :: "i64 \<Rightarrow> int" where
  "to_int32 i = sint (ucast i :: 32 word)"

definition parseColumnType :: "(data_type \<times> int) parser" where
  "parseColumnType =
     p_bind advance (\<lambda>t.
       let simple = (\<lambda>d. p_return (d, 0))
       in if tok_type t = T_INT_TYPE then simple DInt
          else if tok_type t = T_BOOL_TYPE then simple DBool
          else if tok_type t = T_TEXT_TYPE then simple DText
          else if tok_type t = T_DATE_TYPE then simple DDate
          else if tok_type t = T_TIMESTAMP_TYPE then simple DTimestamp
          else if tok_type t = T_FLOAT_TYPE then
            p_bind (accept T_LPAREN) (\<lambda>m.
            if m then
              p_bind (consume T_INTEGER_LITERAL ''DECIMAL precision'') (\<lambda>_.
              p_bind (optional T_COMMA (consume T_INTEGER_LITERAL ''DECIMAL scale'')) (\<lambda>_.
              p_bind rparen (\<lambda>_. simple DFloat)))
            else simple DFloat)
          else if tok_type t = T_VARCHAR then
            p_bind (accept T_LPAREN) (\<lambda>m.
            if m then
              p_bind (consume T_INTEGER_LITERAL ''VARCHAR length'') (\<lambda>n. p_bind (toInt64 n) (\<lambda>i.
              p_bind rparen (\<lambda>_. p_return (DVarchar, to_int32 i))))
            else simple DVarchar)
          else error_at t ''expected a column type (INT, FLOAT, BOOL, TEXT, VARCHAR, DATE, TIMESTAMP)'')"

definition default_literal :: "val parser" where
  "default_literal =
     p_bind look (\<lambda>t.
     if isLiteralToken (tok_type t) then p_bind (makeLiteral t) (\<lambda>v. p_bind advance (\<lambda>_. p_return v))
     else error_at t ''expected a literal after DEFAULT'')"

definition reference_action :: "column_definition \<Rightarrow> column_definition option parser" where
  "reference_action d =
     p_bind (accept T_ON) (\<lambda>on.
     if \<not> on then p_return None
     else
       p_bind (accept T_UPDATE) (\<lambda>onUpdate.
       p_bind (if onUpdate then p_return () else p_bind (consume T_DELETE ''REMOVE or MODIFY'') (\<lambda>_. p_return ())) (\<lambda>_.
       p_bind (accept T_CASCADE) (\<lambda>casc.
       p_bind
         (if casc then p_return 1
          else p_bind (accept T_SET) (\<lambda>set.
            if set then p_bind (consume T_NULL_LITERAL ''NULL'') (\<lambda>_. p_return 2)
            else p_bind (consume T_RESTRICT ''RESTRICT'') (\<lambda>_. p_return 0))) (\<lambda>action.
         p_return (Some (if onUpdate then d\<lparr>refOnUpdate := action\<rparr> else d\<lparr>refOnDelete := action\<rparr>)))))))"

definition column_constraint :: "grammar \<Rightarrow> column_definition \<Rightarrow> column_definition option parser" where
  "column_constraint g d =
     p_bind (accept T_PRIMARY) (\<lambda>m.
     if m then p_bind (consume T_KEY ''KEY'') (\<lambda>_. p_return (Some (d\<lparr>primaryKey := True\<rparr>)))
     else p_bind (accept T_UNIQUE) (\<lambda>m.
     if m then p_return (Some (d\<lparr>unique := True\<rparr>))
     else p_bind (accept T_AUTOINCR) (\<lambda>m.
     if m then p_return (Some (d\<lparr>autoIncrement := True\<rparr>))
     else p_bind (accept T_NOT) (\<lambda>m.
     if m then p_bind (consume T_NULL_LITERAL ''NULL'') (\<lambda>_. p_return (Some (d\<lparr>notNull := True\<rparr>)))
     else p_bind (accept T_DEFAULT) (\<lambda>m.
     if m then p_bind default_literal (\<lambda>v. p_return (Some (d\<lparr>defaultValue := Some v\<rparr>)))
     else p_bind (accept T_REFERENCES) (\<lambda>m.
     if m then
       p_bind (consume_lexeme T_IDENTIFIER ''referenced table'') (\<lambda>t. p_bind lparen (\<lambda>_.
       p_bind (consume_lexeme T_IDENTIFIER ''referenced column'') (\<lambda>c. p_bind rparen (\<lambda>_.
       p_bind (repeat_step reference_action (d\<lparr>refTable := t, refColumn := c\<rparr>)) (\<lambda>d. p_return (Some d))))))
     else p_bind (accept T_CHECK) (\<lambda>m.
     if m then
       p_bind lparen (\<lambda>_. p_bind (gExpression g) (\<lambda>e. p_bind rparen (\<lambda>_.
         p_return (Some (d\<lparr>checkExpr := Some e\<rparr>)))))
     else p_return None)))))))"

definition new_column :: "string \<Rightarrow> data_type \<Rightarrow> int \<Rightarrow> column_definition" where
  "new_column name ty len =
     \<lparr>cd_name = name, cd_type = ty, varcharLength = len, refTable = [], refColumn = [], refOnDelete = 0,
      refOnUpdate = 0, notNull = False, primaryKey = False, unique = False, autoIncrement = False,
      defaultValue = None, checkExpr = None\<rparr>"

definition parseColumnDefinition :: "grammar \<Rightarrow> column_definition parser" where
  "parseColumnDefinition g =
     p_bind (consume_lexeme T_IDENTIFIER ''column name'') (\<lambda>name.
     p_bind parseColumnType (\<lambda>(ty, len).
     repeat_step (column_constraint g) (new_column name ty len)))"

section \<open>Statements\<close>

definition name_list :: "string list parser" where
  "name_list = comma_list (consume_lexeme T_IDENTIFIER ''column name'')"

text \<open>An element of the parenthesised list of \<open>BUILD RELATION\<close>: a primary key or a column.\<close>

definition create_item :: "grammar \<Rightarrow> (string list + column_definition) parser" where
  "create_item g =
     p_bind (check T_PRIMARY) (\<lambda>m.
     if m then
       p_bind advance (\<lambda>_. p_bind (consume T_KEY ''KEY'') (\<lambda>_. p_bind lparen (\<lambda>_.
       p_bind name_list (\<lambda>ns. p_bind rparen (\<lambda>_. p_return (Inl ns))))))
     else p_bind (parseColumnDefinition g) (\<lambda>d. p_return (Inr d)))"

definition create_table :: "grammar \<Rightarrow> statement parser" where
  "create_table g =
     p_bind table_name (\<lambda>tab.
     p_bind (accept T_AS) (\<lambda>as.
     if as then
       p_bind (parseSelect g) (\<lambda>q. p_return (CreateStatement
         \<lparr>ct_table = tab, ct_columns = [], primaryKeyColumns = [], asQuery = Some q, ct_tableId = - 1\<rparr>))
     else
       p_bind lparen (\<lambda>_.
       p_bind (comma_list (create_item g)) (\<lambda>items.
       p_bind rparen (\<lambda>_.
         p_return (CreateStatement
           \<lparr>ct_table = tab,
            ct_columns = List.map_filter (\<lambda>x. case x of Inl _ \<Rightarrow> None | Inr d \<Rightarrow> Some d) items,
            primaryKeyColumns = concat (List.map_filter (\<lambda>x. case x of Inl ns \<Rightarrow> Some ns | Inr _ \<Rightarrow> None) items),
            asQuery = None, ct_tableId = - 1\<rparr>))))))"

definition parseCreate :: "grammar \<Rightarrow> statement parser" where
  "parseCreate g =
     p_bind (consume T_CREATE ''CREATE'') (\<lambda>_.
     p_bind (accept T_TABLE) (\<lambda>m.
     if m then create_table g
     else p_bind (accept T_VIEW) (\<lambda>m.
     if m then
       p_bind (consume_lexeme T_IDENTIFIER ''view name'') (\<lambda>name. p_bind (consume T_AS ''AS'') (\<lambda>_.
       p_bind (parseSelect g) (\<lambda>q. p_return (CreateViewStatement
         \<lparr>view_name = name, view_query = q, view_source = [], view_tableId = - 1\<rparr>))))
     else p_bind (accept T_INDEX) (\<lambda>m.
     if m then
       p_bind (consume_lexeme T_IDENTIFIER ''index name'') (\<lambda>name. p_bind (consume T_ON ''ON'') (\<lambda>_.
       p_bind table_name (\<lambda>tab. p_bind lparen (\<lambda>_. p_bind name_list (\<lambda>cols. p_bind rparen (\<lambda>_.
         p_return (CreateIdxStatement
           \<lparr>ci_indexName = name, ci_table = tab, ci_columns = cols, ci_tableId = - 1, ci_columnIndices = []\<rparr>)))))))
     else p_bind look (\<lambda>t. error_at t ''expected RELATION or INDEX after BUILD'')))))"

definition set_item :: "grammar \<Rightarrow> (string \<times> expr) parser" where
  "set_item g =
     p_bind (consume_lexeme T_IDENTIFIER ''column name'') (\<lambda>c.
     p_bind (consume T_EQ [CHR 0x27, CHR ''='', CHR 0x27]) (\<lambda>_.
     p_bind (gExpression g) (\<lambda>e. p_return (c, e))))"

definition new_insert :: "string \<Rightarrow> string list \<Rightarrow> insert_statement" where
  "new_insert tab cols =
     \<lparr>ins_table = tab, ins_columns = cols, ins_rows = [], ins_select = None, defaultValues = False,
      ins_returningStar = False, ins_returning = [], hasOnConflict = False, conflictDoNothing = False,
      conflictColumns = [], conflictSetColumns = [], conflictSetValues = [], ins_tableId = - 1\<rparr>"

definition parseOnConflict :: "grammar \<Rightarrow> insert_statement \<Rightarrow> insert_statement parser" where
  "parseOnConflict g st =
     p_bind (accept T_ON) (\<lambda>m.
     if \<not> m then p_return st
     else
       p_bind (consume T_CONFLICT ''CONFLICT'') (\<lambda>_. p_bind lparen (\<lambda>_.
       p_bind (comma_list parseColumnRef) (\<lambda>cols. p_bind rparen (\<lambda>_. p_bind (consume T_DO ''DO'') (\<lambda>_.
       let st = st\<lparr>conflictColumns := cols, hasOnConflict := True\<rparr>
       in p_bind (accept T_NOTHING) (\<lambda>nothing.
       if nothing then p_return (st\<lparr>conflictDoNothing := True\<rparr>)
       else
         p_bind (consume T_UPDATE ''MODIFY'') (\<lambda>_. p_bind (consume T_SET ''SET'') (\<lambda>_.
         p_bind (comma_list (set_item g)) (\<lambda>sets.
           p_return (st\<lparr>conflictSetColumns := map fst sets, conflictSetValues := map snd sets\<rparr>))))))))))) "

definition insert_row :: "expr list parser" where
  "insert_row = p_bind lparen (\<lambda>_. p_bind (comma_list parseLiteral) (\<lambda>row. p_bind rparen (\<lambda>_. p_return row)))"

definition insert_end :: "insert_statement \<Rightarrow> statement parser" where
  "insert_end st =
     p_bind parseReturning (\<lambda>(star, cols).
       p_return (InsertStatement (st\<lparr>ins_returningStar := star, ins_returning := cols\<rparr>)))"

definition parseInsert :: "grammar \<Rightarrow> statement parser" where
  "parseInsert g =
     p_bind (consume T_INSERT ''INSERT'') (\<lambda>_. p_bind (consume T_INTO ''INTO'') (\<lambda>_.
     p_bind table_name (\<lambda>tab.
     p_bind (accept T_LPAREN) (\<lambda>m.
     p_bind (if m then p_bind name_list (\<lambda>cols. p_bind rparen (\<lambda>_. p_return cols)) else p_return []) (\<lambda>cols.
     let st = new_insert tab cols
     in p_bind (check T_SELECT) (\<lambda>sel.
     if sel then p_bind (parseSelect g) (\<lambda>q. insert_end (st\<lparr>ins_select := Some q\<rparr>))
     else p_bind (accept T_DEFAULT) (\<lambda>def.
     if def then
       p_bind (consume T_VALUES ''VALUES'') (\<lambda>_. insert_end (st\<lparr>defaultValues := True, ins_rows := [[]]\<rparr>))
     else
       p_bind (consume T_VALUES ''VALUES'') (\<lambda>_. p_bind (comma_list insert_row) (\<lambda>rows.
       p_bind (parseOnConflict g (st\<lparr>ins_rows := rows\<rparr>)) insert_end))))))))) "

definition parseDelete :: "grammar \<Rightarrow> statement parser" where
  "parseDelete g =
     p_bind (consume T_DELETE ''DELETE'') (\<lambda>_. p_bind (consume T_FROM ''FROM'') (\<lambda>_.
     p_bind table_name (\<lambda>tab. p_bind (optional T_WHERE (gExpression g)) (\<lambda>wh.
     p_bind parseReturning (\<lambda>(star, cols). p_return (DeleteStatement
       \<lparr>del_table = tab, del_where = wh, del_returningStar = star, del_returning = cols, del_tableId = - 1\<rparr>))))))"

definition parseUpdate :: "grammar \<Rightarrow> statement parser" where
  "parseUpdate g =
     p_bind (consume T_UPDATE ''UPDATE'') (\<lambda>_. p_bind table_name (\<lambda>tab. p_bind (consume T_SET ''SET'') (\<lambda>_.
     p_bind (comma_list (set_item g)) (\<lambda>sets.
     p_bind (accept T_FROM) (\<lambda>m.
     p_bind (if m then p_bind table_name (\<lambda>t. p_bind parseOptionalAlias (\<lambda>al. p_return (t, al)))
             else p_return ([], [])) (\<lambda>(ft, fa).
     p_bind (optional T_WHERE (gExpression g)) (\<lambda>wh.
     p_bind parseReturning (\<lambda>(star, cols). p_return (UpdateStatement
       \<lparr>upd_table = tab, targetColumns = map fst sets, upd_values = map snd sets, upd_where = wh,
        fromTable = ft, fromAlias = fa, upd_returningStar = star, upd_returning = cols, upd_tableId = - 1,
        fromTableId = - 1, targetIndices = []\<rparr>)))))))))"

definition drop_of :: "bool \<Rightarrow> bool \<Rightarrow> bool \<Rightarrow> string \<Rightarrow> statement" where
  "drop_of idx vw tr name = DropStatement
     \<lparr>isIndex = idx, isView = vw, is_truncate = tr, drop_name = name, drop_tableId = - 1\<rparr>"

definition parseDrop :: "statement parser" where
  "parseDrop =
     p_bind (consume T_DROP ''DROP'') (\<lambda>_.
     p_bind (accept T_TABLE) (\<lambda>m.
     if m then p_bind table_name (\<lambda>n. p_return (drop_of False False False n))
     else p_bind (accept T_INDEX) (\<lambda>m.
     if m then p_bind (consume_lexeme T_IDENTIFIER ''index name'') (\<lambda>n. p_return (drop_of True False False n))
     else p_bind (accept T_VIEW) (\<lambda>m.
     if m then p_bind (consume_lexeme T_IDENTIFIER ''view name'') (\<lambda>n. p_return (drop_of False True False n))
     else p_bind look (\<lambda>t. error_at t ''expected RELATION, INDEX, or VIEW after DISCARD'')))))"

definition parseTruncate :: "statement parser" where
  "parseTruncate =
     p_bind advance (\<lambda>_. p_bind (consume T_TABLE ''RELATION'') (\<lambda>_.
     p_bind table_name (\<lambda>n. p_return (drop_of False False True n))))"

definition parseAlter :: "grammar \<Rightarrow> statement parser" where
  "parseAlter g =
     p_bind (consume T_ALTER ''ALTER'') (\<lambda>_. p_bind (consume T_TABLE ''TABLE'') (\<lambda>_.
     p_bind table_name (\<lambda>tab.
     p_bind (accept T_ADD) (\<lambda>m.
     if m then
       p_bind (accept T_COLUMN) (\<lambda>_. p_bind (parseColumnDefinition g) (\<lambda>d. p_return (AlterStatement
         \<lparr>alter_kind = AddColumn, alter_table = tab, alter_column = d, dropColumn = [], alter_tableId = - 1\<rparr>)))
     else p_bind (accept T_DROP) (\<lambda>m.
     if m then
       p_bind (accept T_COLUMN) (\<lambda>_. p_bind (consume_lexeme T_IDENTIFIER ''column name'') (\<lambda>c.
         p_return (AlterStatement
           \<lparr>alter_kind = DropColumn, alter_table = tab, alter_column = new_column [] DInt 0, dropColumn = c,
            alter_tableId = - 1\<rparr>)))
     else p_bind look (\<lambda>t. error_at t ''expected ADD or DISCARD after RESHAPE RELATION <name>''))))))"

definition parseTransaction :: "statement parser" where
  "parseTransaction =
     p_bind advance (\<lambda>t.
     if tok_type t = T_BEGIN then p_bind (accept T_TRANSACTION) (\<lambda>_. p_return (TransactionStatement TxBegin))
     else if tok_type t = T_COMMIT then p_return (TransactionStatement TxCommit)
     else if tok_type t = T_ROLLBACK then p_return (TransactionStatement TxRollback)
     else error_at t ''expected START, SAVE, or UNDO'')"

definition setop_step :: "grammar \<Rightarrow> statement \<Rightarrow> statement option parser" where
  "setop_step g st =
     p_bind look (\<lambda>t.
     if tok_type t \<notin> {T_UNION, T_INTERSECT, T_EXCEPT} then p_return None
     else
       p_bind (accept T_UNION) (\<lambda>un.
       p_bind
         (if un then p_bind (accept T_ALL) (\<lambda>all. p_return (OpUnion, all))
          else p_bind (accept T_INTERSECT) (\<lambda>int.
            if int then p_return (OpIntersect, False)
            else p_bind (consume T_EXCEPT ''EXCEPT'') (\<lambda>_. p_return (OpExcept, False)))) (\<lambda>(op, all).
       p_bind (parseSelect g) (\<lambda>q. p_return (Some (SetOpStatement op all st q))))))"

definition parseSelectStatement :: "grammar \<Rightarrow> statement parser" where
  "parseSelectStatement g =
     p_bind (parseSelect g) (\<lambda>q. repeat_step (setop_step g) (SelectStatement q))"

definition explained :: "select \<Rightarrow> select" where
  "explained q =
     Select (selectStar q) (sel_distinct q) True (sel_columns q) (sel_table q) (tableAlias q) (asOf q)
       (sel_where q) (orderBy q) (limit q) (offset q) (aggregates q) (groupBy q) (having q) (joinTable q)
       (joinTableAlias q) (joinOn q) (joinTableId q) (joinType q) (extraJoins q) (sel_tableId q)"

definition parse_body :: "grammar \<Rightarrow> statement parser" where
  "parse_body g =
     p_bind look (\<lambda>t.
     if tok_type t = T_CREATE then parseCreate g
     else if tok_type t = T_INSERT then parseInsert g
     else if tok_type t = T_SELECT then parseSelectStatement g
     else if tok_type t = T_EXPLAIN then
       p_bind advance (\<lambda>_. p_bind (parseSelect g) (\<lambda>q. p_return (SelectStatement (explained q))))
     else if tok_type t = T_DELETE then parseDelete g
     else if tok_type t = T_UPDATE then parseUpdate g
     else if tok_type t = T_DROP then parseDrop
     else if tok_type t = T_ALTER then parseAlter g
     else if tok_type t = T_TRUNCATE then parseTruncate
     else if tok_type t \<in> {T_BEGIN, T_COMMIT, T_ROLLBACK} then parseTransaction
     else error_at t
       ''expected a statement (BUILD, PUT, FETCH, REMOVE, MODIFY, DISCARD, START, SAVE, or UNDO)'')"

definition whole :: "string \<Rightarrow> 'a parser \<Rightarrow> 'a parser" where
  "whole what p =
     p_bind p (\<lambda>x. p_bind (accept T_SEMICOLON) (\<lambda>_. p_bind look (\<lambda>t.
       if tok_type t \<noteq> T_END_OF_FILE then error_at t (''unexpected token after '' @ what)
       else p_return x)))"

definition parsed :: "(grammar \<Rightarrow> 'a parser) \<Rightarrow> token list \<Rightarrow> parse_error + 'a" where
  "parsed p ts = map_sum (\<lambda>e. e) fst (p (grammar_at (length ts)) (cursor_of ts))"

definition parseStatement :: "token list \<Rightarrow> parse_error + statement" where
  "parseStatement = parsed (\<lambda>g. whole ''statement'' (parse_body g))"

definition parseWholeExpression :: "token list \<Rightarrow> parse_error + expr" where
  "parseWholeExpression = parsed (\<lambda>g. whole ''expression'' (parseExpression g))"

end
