(* ===== verification/ParserTotal.thy ===== *)
theory ParserTotal
  imports Parser
begin

text \<open>
  The parser returns. \<open>runs k d p\<close> says of a parser that, started with fewer than \<open>k\<close> tokens
  left, it does not run out of fuel, leaves no more tokens than it found, and has consumed one
  when its result satisfies \<open>d\<close>. The rules follow the text of the definitions, so each method is
  one line; the induction over the depth then closes the recursion.
\<close>

section \<open>Rules\<close>

definition kept :: "('a \<Rightarrow> bool) \<Rightarrow> cursor \<Rightarrow> parse_error + 'a \<times> cursor \<Rightarrow> bool" where
  "kept d s r \<longleftrightarrow>
     (case r of
        Inl e \<Rightarrow> e \<noteq> OutOfFuel
      | Inr (x, s') \<Rightarrow> length (rest s') + (if d x then 1 else 0) \<le> length (rest s))"

definition runs :: "nat \<Rightarrow> ('a \<Rightarrow> bool) \<Rightarrow> 'a parser \<Rightarrow> bool" where
  "runs k d p \<longleftrightarrow> (\<forall>s. length (rest s) < k \<longrightarrow> kept d s (p s))"

lemma kept_simps [simp]:
  "kept d s (Inl e) \<longleftrightarrow> e \<noteq> OutOfFuel"
  "kept d s (Inr (x, s')) \<longleftrightarrow> length (rest s') + (if d x then 1 else 0) \<le> length (rest s)"
  by (simp_all add: kept_def)

lemma runsI: "(\<And>s. length (rest s) < k \<Longrightarrow> kept d s (p s)) \<Longrightarrow> runs k d p"
  by (simp add: runs_def)

lemma runsD: "runs k d p \<Longrightarrow> length (rest s) < k \<Longrightarrow> kept d s (p s)"
  by (simp add: runs_def)

lemma kept_mono: "kept d s1 r \<Longrightarrow> length (rest s1) \<le> length (rest s) \<Longrightarrow> (\<And>x. d' x \<Longrightarrow> d x) \<Longrightarrow> kept d' s r"
  by (fastforce simp: kept_def split: sum.splits prod.splits)

lemma kept_mono_eat: "kept d s1 r \<Longrightarrow> length (rest s1) < length (rest s) \<Longrightarrow> kept d' s r"
  by (fastforce simp: kept_def split: sum.splits prod.splits)

named_theorems runs_rules "parsers that return"

abbreviation runs_on :: "nat \<Rightarrow> 'a parser \<Rightarrow> bool" where
  "runs_on k p \<equiv> runs k (\<lambda>_. False) p"

abbreviation eats :: "nat \<Rightarrow> 'a parser \<Rightarrow> bool" where
  "eats k p \<equiv> runs k (\<lambda>_. True) p"

lemma runs_mono:
  assumes "runs k d p" "j \<le> k" "\<And>x. d' x \<Longrightarrow> d x"
  shows "runs j d' p"
proof (rule runsI)
  fix s :: cursor
  assume "length (rest s) < j"
  then have "kept d s (p s)" using runsD [OF assms(1)] assms(2) by simp
  from kept_mono [OF this order_refl assms(3)] show "kept d' s (p s)" .
qed

lemma runs_return [runs_rules]: "\<not> d x \<Longrightarrow> runs k d (p_return x)"
  by (simp add: runs_def p_return_def)

lemma runs_raise: "e \<noteq> OutOfFuel \<Longrightarrow> runs k d (p_raise e)"
  by (simp add: runs_def p_raise_def)

lemma runs_error [runs_rules]: "runs k d (error_at t m)"
  by (simp add: error_at_def runs_raise)

lemma runs_std [runs_rules]: "runs k d (p_raise (StdException m))"
  by (simp add: runs_raise)

lemma p_bind_simps:
  "p s = Inl e \<Longrightarrow> p_bind p f s = Inl e" "p s = Inr (x, s') \<Longrightarrow> p_bind p f s = f x s'"
  by (simp_all add: p_bind_def)

lemma runs_bind:
  assumes "runs_on k p" "\<And>x. runs k d (f x)"
  shows "runs k d (p_bind p f)"
proof (rule runsI)
  fix s :: cursor
  assume s: "length (rest s) < k"
  note p = runsD [OF assms(1) s]
  show "kept d s (p_bind p f s)"
  proof (cases "p s")
    case (Inl e)
    then show ?thesis using p by (simp add: p_bind_simps(1))
  next
    case (Inr r)
    then obtain x s1 where r: "p s = Inr (x, s1)" by (cases r) simp
    then have le: "length (rest s1) \<le> length (rest s)" using p by simp
    then have "kept d s1 (f x s1)" using runsD [OF assms(2)] s by simp
    from kept_mono [OF this le] show ?thesis by (simp add: p_bind_simps(2) [of p, OF r])
  qed
qed

lemma runs_bind_eats:
  assumes "eats k p" "\<And>x. runs_on (k - 1) (f x)"
  shows "runs k d (p_bind p f)"
proof (rule runsI)
  fix s :: cursor
  assume s: "length (rest s) < k"
  note p = runsD [OF assms(1) s]
  show "kept d s (p_bind p f s)"
  proof (cases "p s")
    case (Inl e)
    then show ?thesis using p by (simp add: p_bind_simps(1))
  next
    case (Inr r)
    then obtain x s1 where r: "p s = Inr (x, s1)" by (cases r) simp
    then have le: "length (rest s1) < length (rest s)" using p by simp
    then have "kept (\<lambda>_. False) s1 (f x s1)" using runsD [OF assms(2)] s by simp
    from kept_mono_eat [OF this le] show ?thesis by (simp add: p_bind_simps(2) [of p, OF r])
  qed
qed

lemma runs_check: "runs_on k (check t)"
  by (simp add: runs_def check_def)

lemma runs_check_at: "runs_on k (check_at n p)"
  by (simp add: runs_def check_at_def)

lemma runs_look: "runs_on k look"
  by (simp add: runs_def look_def)

lemma runs_advance: "runs_on k advance"
  by (simp add: runs_def advance_def)

lemma peek_rest: "tok_type (peek s) \<noteq> T_END_OF_FILE \<Longrightarrow> \<exists>t ts. rest s = t # ts \<and> peek s = t"
  by (cases "rest s") (auto simp: peek_def end_token_def)

lemma eats_consume: "t \<noteq> T_END_OF_FILE \<Longrightarrow> eats k (consume t what)"
  using peek_rest by (fastforce simp: runs_def consume_def p_bind_def check_def advance_def isAtEnd_def
      look_def error_at_def p_raise_def)

lemma eats_consume_lexeme: "t \<noteq> T_END_OF_FILE \<Longrightarrow> eats k (consume_lexeme t what)"
  unfolding consume_lexeme_def by (rule runs_bind_eats [OF eats_consume runs_return]) simp_all

lemma accept_cases:
  "accept t s = (if tok_type (peek s) = t
     then (case advance s of Inl e \<Rightarrow> Inl e | Inr (_, s') \<Rightarrow> Inr (True, s')) else Inr (False, s))"
  by (simp add: accept_def p_bind_def check_def p_return_def split: sum.splits)

lemma accept_other: "tok_type (peek s) \<noteq> t \<Longrightarrow> accept t s = Inr (False, s)"
  by (simp add: accept_cases)

lemma accept_hit:
  "t \<noteq> T_END_OF_FILE \<Longrightarrow> tok_type u = t \<Longrightarrow> rest s = u # ts \<Longrightarrow> accept t s = Inr (True, \<lparr>prev = u, rest = ts\<rparr>)"
  by (simp add: accept_cases advance_def isAtEnd_def peek_def)

lemma runs_bind_accept [runs_rules]:
  assumes "t \<noteq> T_END_OF_FILE" "runs_on (k - 1) (f True)" "runs k d (f False)"
  shows "runs k d (p_bind (accept t) f)"
proof (rule runsI)
  fix s :: cursor
  assume s: "length (rest s) < k"
  show "kept d s (p_bind (accept t) f s)"
  proof (cases "tok_type (peek s) = t")
    case True
    then obtain u ts where u: "rest s = u # ts" "tok_type u = t" using peek_rest [of s] assms(1) by auto
    let ?s = "\<lparr>prev = u, rest = ts\<rparr>"
    have "length (rest ?s) < k - 1" using u s by simp
    from runsD [OF assms(2) this] have "kept (\<lambda>_. False) ?s (f True ?s)" .
    then show ?thesis using u
      by (simp add: p_bind_simps(2) [of "accept t", OF accept_hit [OF assms(1) u(2,1)]] kept_mono_eat)
  next
    case False
    then show ?thesis using runsD [OF assms(3) s]
      by (simp add: p_bind_simps(2) [of "accept t", OF accept_other])
  qed
qed

lemma runs_accept: "runs_on k (accept t)"
  unfolding accept_def
  by (rule runs_bind [OF runs_check]) (auto intro: runs_bind [OF runs_advance] runs_return)

lemma runs_bind_check [runs_rules]: "(\<And>b. runs k d (f b)) \<Longrightarrow> runs k d (p_bind (check t) f)"
  by (rule runs_bind [OF runs_check])

lemma runs_bind_check_at [runs_rules]: "(\<And>b. runs k d (f b)) \<Longrightarrow> runs k d (p_bind (check_at n p) f)"
  by (rule runs_bind [OF runs_check_at])

lemma runs_bind_look [runs_rules]: "(\<And>b. runs k d (f b)) \<Longrightarrow> runs k d (p_bind look f)"
  by (rule runs_bind [OF runs_look])

lemma runs_bind_advance [runs_rules]: "(\<And>b. runs k d (f b)) \<Longrightarrow> runs k d (p_bind advance f)"
  by (rule runs_bind [OF runs_advance])

lemma runs_bind_consume [runs_rules]:
  "t \<noteq> T_END_OF_FILE \<Longrightarrow> (\<And>x. runs_on (k - 1) (f x)) \<Longrightarrow> runs k d (p_bind (consume t what) f)"
  by (rule runs_bind_eats [OF eats_consume])

lemma runs_bind_consume_lexeme [runs_rules]:
  "t \<noteq> T_END_OF_FILE \<Longrightarrow> (\<And>x. runs_on (k - 1) (f x)) \<Longrightarrow> runs k d (p_bind (consume_lexeme t what) f)"
  by (rule runs_bind_eats [OF eats_consume_lexeme])

lemma runs_bind_lparen [runs_rules]: "(\<And>x. runs_on (k - 1) (f x)) \<Longrightarrow> runs k d (p_bind lparen f)"
  unfolding lparen_def by (rule runs_bind_consume) simp_all

lemma runs_bind_rparen [runs_rules]: "(\<And>x. runs_on (k - 1) (f x)) \<Longrightarrow> runs k d (p_bind rparen f)"
  unfolding rparen_def by (rule runs_bind_consume) simp_all

lemma runs_if [runs_rules]: "(b \<Longrightarrow> runs k d p) \<Longrightarrow> (\<not> b \<Longrightarrow> runs k d q) \<Longrightarrow> runs k d (if b then p else q)"
  by simp

lemma runs_let [runs_rules]: "runs k d (f x) \<Longrightarrow> runs k d (Let x f)"
  by simp

lemma runs_pair [runs_rules]: "(\<And>a b. runs k d (f a b)) \<Longrightarrow> runs k d (case x of (a, b) \<Rightarrow> f a b)"
  by (cases x) simp

lemma runs_on_eats: "eats k p \<Longrightarrow> j \<le> k \<Longrightarrow> runs_on j p"
  by (rule runs_mono) auto

section \<open>Loops\<close>

lemma comma_rounds_runs:
  assumes "runs_on k p"
  shows "runs_on (min k n) (comma_rounds n p)"
proof (induction n)
  case 0
  then show ?case by (simp add: runs_def)
next
  case (Suc n)
  have next': "runs_on (min k (Suc n) - 1) (comma_rounds n p)"
    by (rule runs_mono [OF Suc.IH]) auto
  show ?case
    unfolding comma_rounds.simps
  proof (rule runs_bind)
    show "runs_on (min k (Suc n)) p" by (rule runs_mono [OF assms]) auto
    show "runs_on (min k (Suc n)) (p_bind (accept T_COMMA) (\<lambda>m.
      if m then p_bind (comma_rounds n p) (\<lambda>xs. p_return (x # xs)) else p_return [x]))" for x
      by (rule runs_bind_accept) (simp_all add: runs_bind [OF next' [simplified]] runs_return)
  qed
qed

lemma runs_comma_list:
  assumes "runs_on k p"
  shows "runs_on k (comma_list p)"
proof (rule runsI)
  fix s :: cursor
  assume "length (rest s) < k"
  then show "kept (\<lambda>_. False) s (comma_list p s)"
    using runsD [OF comma_rounds_runs [OF assms, of "Suc (length (rest s))"]] by (simp add: comma_list_def)
qed

lemma rounds_runs:
  assumes "\<And>x. runs k (\<lambda>r. r \<noteq> None) (step x)"
  shows "runs_on (min k n) (rounds n step x)"
proof (induction n arbitrary: x)
  case 0
  then show ?case by (simp add: runs_def)
next
  case (Suc n)
  show ?case
  proof (rule runsI)
    fix s :: cursor
    assume s: "length (rest s) < min k (Suc n)"
    note st = runsD [OF assms, of s x]
    show "kept (\<lambda>_. False) s (rounds (Suc n) step x s)"
    proof (cases "step x s")
      case (Inl e)
      then show ?thesis using st s by (simp add: p_bind_simps(1))
    next
      case (Inr r)
      then obtain y s1 where r: "step x s = Inr (y, s1)" by (cases r) simp
      show ?thesis
      proof (cases y)
        case None
        then show ?thesis using r st s by (simp add: p_bind_simps(2) [of "step x", OF r] p_return_def)
      next
        case (Some z)
        then have le: "length (rest s1) < length (rest s)" using r st s by simp
        then have "kept (\<lambda>_. False) s1 (rounds n step z s1)" using runsD [OF Suc.IH] s by simp
        from kept_mono_eat [OF this le] show ?thesis by (simp add: p_bind_simps(2) [of "step x", OF r] Some)
      qed
    qed
  qed
qed

lemma runs_repeat_step:
  assumes "\<And>x. runs k (\<lambda>r. r \<noteq> None) (step x)"
  shows "runs_on k (repeat_step step x)"
proof (rule runsI)
  fix s :: cursor
  assume "length (rest s) < k"
  then show "kept (\<lambda>_. False) s (repeat_step step x s)"
    using runsD [OF rounds_runs [of k step "Suc (length (rest s))" x, OF assms]]
    by (simp add: repeat_step_def)
qed

lemma runs_optional:
  assumes "t \<noteq> T_END_OF_FILE" "runs_on k p"
  shows "runs_on k (optional t p)"
proof -
  have "runs_on (k - 1) p" by (rule runs_mono [OF assms(2)]) auto
  then show ?thesis unfolding optional_def
    by (intro runs_bind_accept assms(1)) (simp_all add: runs_bind runs_return)
qed

section \<open>The methods\<close>

lemma runs_makeLiteral: "runs_on k (makeLiteral t)"
  unfolding makeLiteral_def toInt64_def toDouble_def
  by (auto intro!: runs_bind runs_return runs_error runs_std runs_if split: option.split)

lemma runs_toInt64: "runs_on k (toInt64 t)"
  unfolding toInt64_def by (auto intro: runs_return runs_error split: option.split)

lemma runs_parseLiteral: "runs_on k parseLiteral"
  unfolding parseLiteral_def
  by (intro runs_bind_check runs_bind_check_at runs_bind runs_if runs_advance runs_look runs_return
      runs_error runs_makeLiteral) simp_all

lemma eats_parseColumnRef: "eats k parseColumnRef"
  unfolding parseColumnRef_def
  by (intro runs_rules runs_if) (simp_all add: runs_return)

lemma runs_parseColumnRef: "runs_on k parseColumnRef"
  by (rule runs_on_eats [OF eats_parseColumnRef order_refl])

lemma runs_parseAggregate: "runs_on k parseAggregate"
  unfolding parseAggregate_def
  by (intro runs_bind_advance runs_bind_lparen runs_bind_rparen runs_bind [OF runs_accept] runs_bind [where p = "if _ then _ else _"]
      runs_if runs_bind [OF runs_parseColumnRef] runs_return) simp_all

lemma runs_consume: "t \<noteq> T_END_OF_FILE \<Longrightarrow> runs_on k (consume t what)"
  by (rule runs_on_eats [OF eats_consume order_refl])

lemma runs_consume_lexeme: "t \<noteq> T_END_OF_FILE \<Longrightarrow> runs_on k (consume_lexeme t what)"
  by (rule runs_on_eats [OF eats_consume_lexeme order_refl])

lemma runs_parseOptionalAlias: "runs_on k parseOptionalAlias"
  unfolding parseOptionalAlias_def
  by (intro runs_rules) (simp_all add: runs_consume_lexeme)

lemma runs_parseOrderKey: "runs_on k parseOrderKey"
  unfolding parseOrderKey_def
  by (rule runs_bind [OF runs_parseColumnRef], intro runs_rules)
    (simp_all add: runs_return runs_bind [OF runs_accept])

lemma runs_by_comma:
  "runs_on k p \<Longrightarrow> runs_on k (if m then p_bind (consume T_BY ''BY'') (\<lambda>_. comma_list p) else p_return [])"
  by (intro runs_if runs_bind_consume runs_comma_list runs_return) (auto intro: runs_mono)

lemma runs_parseWindowSpec: "runs_on k parseWindowSpec"
  unfolding parseWindowSpec_def
  by (intro runs_bind_consume runs_bind_lparen runs_bind_rparen runs_bind [OF runs_accept]
      runs_bind [OF runs_by_comma] runs_parseColumnRef runs_parseOrderKey runs_return) simp_all

lemma runs_parseCastType: "runs_on k parseCastType"
  unfolding parseCastType_def Let_def
  by (intro runs_bind_look runs_if runs_bind_advance runs_bind_accept runs_bind_consume runs_bind_rparen
      runs_return runs_error) (simp_all add: runs_bind_consume runs_bind_rparen runs_return)

text \<open>The recursive calls, all of which come behind a token.\<close>

definition grammar_runs :: "nat \<Rightarrow> grammar \<Rightarrow> bool" where
  "grammar_runs n g \<longleftrightarrow>
     runs_on n (gExpression g) \<and> runs_on n (gNot g) \<and> runs_on n (gAdditive g) \<and>
     runs_on n (gUnary g) \<and> runs_on n (gSelect g)"

lemma grammar_runsD:
  assumes "grammar_runs n g" "j \<le> n"
  shows "runs_on j (gExpression g)" "runs_on j (gNot g)" "runs_on j (gAdditive g)"
    "runs_on j (gUnary g)" "runs_on j (gSelect g)"
  using assms by (auto simp: grammar_runs_def intro: runs_mono)

lemma runs_cond:
  "t \<noteq> T_END_OF_FILE \<Longrightarrow> runs_on (k - 1) p \<Longrightarrow> runs k d q \<Longrightarrow>
   runs k d (p_bind (accept t) (\<lambda>m. if m then p else q))"
  by (rule runs_bind_accept) simp_all

lemma runs_parseCall:
  assumes "grammar_runs n g" "j \<le> Suc n"
  shows "runs_on j (parseCall g)"
proof -
  have "j - 1 - 1 \<le> n" using assms(2) by simp
  note g = grammar_runsD [OF assms(1) this]
  have args: "runs_on (j - 1 - 1) (if none then p_return [] else comma_list (gExpression g))" for none
    by (intro runs_if runs_return runs_comma_list g) simp
  show ?thesis
    unfolding parseCall_def Let_def
    by (intro runs_bind_consume_lexeme runs_bind_lparen runs_if runs_bind [OF g(1)] runs_bind_consume
        runs_bind [OF runs_parseCastType] runs_bind_check runs_bind [OF args] runs_bind_rparen runs_return)
      simp_all
qed

lemma runs_parseCase:
  assumes "grammar_runs n g" "j \<le> Suc n"
  shows "runs_on j (parseCase g)"
proof -
  have j: "j - 1 - 1 \<le> n" "j - 1 \<le> n" "j - 1 - 1 - 1 \<le> n" using assms(2) by simp_all
  note g = grammar_runsD [OF assms(1) j(1)] grammar_runsD [OF assms(1) j(2)] grammar_runsD [OF assms(1) j(3)]
  have "runs (j - 1) (\<lambda>r. r \<noteq> None) (case_branch g bs)" for bs
    unfolding case_branch_def
    by (intro runs_cond runs_bind [OF g(1)] runs_bind_consume runs_bind [OF g(13)] runs_return) simp_all
  note br = runs_repeat_step [of "j - 1" "case_branch g", OF this]
  have els: "runs_on (j - 1) (optional T_ELSE (gAdditive g))"
    by (rule runs_optional) (simp, rule g)
  show ?thesis
    unfolding parseCase_def
    by (intro runs_bind_consume runs_bind [OF br] runs_if runs_bind_look runs_error runs_bind [OF els]
        runs_return) simp_all
qed

lemma runs_parseSubquery: "grammar_runs n g \<Longrightarrow> j \<le> n \<Longrightarrow> runs_on j (parseSubquery g ex)"
  unfolding parseSubquery_def by (rule runs_bind) (simp_all add: grammar_runsD runs_return)

lemma runs_parsePrimary:
  assumes "grammar_runs n g" "j \<le> Suc n"
  shows "runs_on j (parsePrimary g)"
proof -
  have j: "j - 1 \<le> n" "j - 1 - 1 \<le> n" using assms(2) by simp_all
  note sub = runs_parseSubquery [OF assms(1) j(1)] runs_parseSubquery [OF assms(1) j(2)]
  show ?thesis
    unfolding parsePrimary_def
    by (intro runs_bind_check runs_if runs_parseCase [OF assms] runs_parseCall [OF assms] runs_bind_check_at
        runs_bind_look runs_bind [OF runs_parseAggregate] runs_bind_lparen runs_bind_rparen runs_cond
        runs_bind [OF sub(1)] runs_bind [OF sub(2)] runs_bind [OF grammar_runsD(1) [OF assms(1) j(1)]]
        runs_bind_advance runs_bind [OF runs_makeLiteral] runs_bind [OF runs_parseColumnRef] runs_return runs_error)
      simp_all
qed

lemma runs_parseUnary:
  assumes "grammar_runs n g" "j \<le> Suc n"
  shows "runs_on j (parseUnary g)"
proof -
  have "j - 1 \<le> n" using assms(2) by simp
  note g = grammar_runsD [OF assms(1) this]
  show ?thesis
    unfolding parseUnary_def
    by (intro runs_cond runs_bind [OF g(4)] g(4) runs_parsePrimary [OF assms] runs_return) simp_all
qed

lemma runs_left_assoc:
  assumes "\<And>i. i \<le> j \<Longrightarrow> runs_on i p" "\<And>x. runs j (\<lambda>r. r \<noteq> None) (step x)"
  shows "runs_on j (p_bind p (repeat_step step))"
  by (rule runs_bind [OF assms(1) runs_repeat_step [OF assms(2)]]) simp

lemma runs_parseMultiplicative:
  assumes "grammar_runs n g" "j \<le> Suc n"
  shows "runs_on j (parseMultiplicative g)"
proof -
  have u: "runs_on i (parseUnary g)" if "i \<le> j" for i
    using runs_parseUnary [OF assms(1)] assms(2) that by simp
  show ?thesis
    unfolding parseMultiplicative_def
  proof (rule runs_left_assoc [OF u])
    show "runs j (\<lambda>r. r \<noteq> None) (multiplicative_step g x)" for x
      unfolding multiplicative_step_def by (intro runs_cond runs_bind [OF u] runs_return) simp_all
  qed
qed

lemma runs_parseAdditive:
  assumes "grammar_runs n g" "j \<le> Suc n"
  shows "runs_on j (parseAdditive g)"
proof -
  have u: "runs_on i (parseMultiplicative g)" if "i \<le> j" for i
    using runs_parseMultiplicative [OF assms(1)] assms(2) that by simp
  show ?thesis
    unfolding parseAdditive_def
  proof (rule runs_left_assoc [OF u])
    show "runs j (\<lambda>r. r \<noteq> None) (additive_step g x)" for x
      unfolding additive_step_def by (intro runs_cond runs_bind [OF u] runs_return) simp_all
  qed
qed

lemma runs_parseComparison:
  assumes "grammar_runs n g" "j \<le> Suc n"
  shows "runs_on j (parseComparison g)"
proof -
  have u: "runs_on i (parseAdditive g)" if "i \<le> j" for i
    using runs_parseAdditive [OF assms(1)] assms(2) that by simp
  have sub: "runs_on (j - 1 - 1) (parseSubquery g False)"
    using runs_parseSubquery [OF assms(1)] assms(2) by simp
  have items: "runs_on (j - 1 - 1)
      (if sel then p_bind (parseSubquery g False) (\<lambda>q. p_return ([], Some q))
       else p_bind (comma_list parseLiteral) (\<lambda>items. p_return (items, None)))" for sel
    by (intro runs_if runs_bind [OF sub] runs_bind [OF runs_comma_list] runs_parseLiteral runs_return) simp_all
  have tail: "runs_on (j - 1) (in_tail g left negated)" for left negated
    unfolding in_tail_def
    by (intro runs_bind_lparen runs_bind_check runs_bind [OF items] runs_pair runs_bind_rparen runs_return) simp
  show ?thesis
    unfolding parseComparison_def
    by (intro runs_bind [OF u] runs_cond runs_bind [OF runs_accept] runs_bind_consume runs_bind_check
        runs_bind_check_at runs_bind [where p = "if _ then p_bind advance _ else _"] runs_bind_advance runs_if
        tail runs_bind_look runs_return) simp_all
qed

lemma runs_parseNot:
  assumes "grammar_runs n g" "j \<le> Suc n"
  shows "runs_on j (parseNot g)"
proof -
  have "j - 1 \<le> n" using assms(2) by simp
  note g = grammar_runsD [OF assms(1) this]
  show ?thesis
    unfolding parseNot_def
    by (intro runs_cond runs_bind [OF g(2)] runs_parseComparison [OF assms] runs_return) simp_all
qed

lemma runs_parseAnd:
  assumes "grammar_runs n g" "j \<le> Suc n"
  shows "runs_on j (parseAnd g)"
proof -
  have u: "runs_on i (parseNot g)" if "i \<le> j" for i
    using runs_parseNot [OF assms(1)] assms(2) that by simp
  show ?thesis
    unfolding parseAnd_def
  proof (rule runs_left_assoc [OF u])
    show "runs j (\<lambda>r. r \<noteq> None) (and_step g x)" for x
      unfolding and_step_def by (intro runs_cond runs_bind [OF u] runs_return) simp_all
  qed
qed

lemma runs_parseOr:
  assumes "grammar_runs n g" "j \<le> Suc n"
  shows "runs_on j (parseOr g)"
proof -
  have u: "runs_on i (parseAnd g)" if "i \<le> j" for i
    using runs_parseAnd [OF assms(1)] assms(2) that by simp
  show ?thesis
    unfolding parseOr_def
  proof (rule runs_left_assoc [OF u])
    show "runs j (\<lambda>r. r \<noteq> None) (or_step g x)" for x
      unfolding or_step_def by (intro runs_cond runs_bind [OF u] runs_return) simp_all
  qed
qed

section \<open>Queries\<close>

lemma runs_optional_as: "runs_on k optional_as"
  unfolding optional_as_def by (intro runs_cond runs_consume_lexeme runs_return) simp_all

lemma runs_aggregate_item: "runs_on k aggregate_item"
  unfolding aggregate_item_def
  by (intro runs_bind [OF runs_parseAggregate] runs_bind_check runs_if runs_bind [OF runs_parseWindowSpec]
      runs_pair runs_bind [OF runs_optional_as] runs_return) simp_all

lemma runs_window_item: "runs_on k (window_item e)"
proof -
  have "runs_on k (p_bind parseWindowSpec (\<lambda>(parts, keys). p_bind optional_as (\<lambda>al.
      p_return (Inl (computed_col ''window'' al (WindowExpr None name None parts keys)))) ::
      (column_ref + function_expr) parser))" for name
    by (intro runs_bind [OF runs_parseWindowSpec] runs_pair runs_bind [OF runs_optional_as] runs_return) simp
  moreover have "runs_on k (p_bind look (\<lambda>t. error_at t m) :: (column_ref + function_expr) parser)" for m
    by (intro runs_bind_look runs_error)
  ultimately show ?thesis by (cases e) (simp_all add: window_item_def)
qed

lemma runs_expression_item: "runs_on k (expression_item e)"
proof -
  have "runs_on k (case expressionToString e of Inl m \<Rightarrow> p_raise (StdException m)
      | Inr n \<Rightarrow> p_return (computed_col n [] e))"
    by (simp add: runs_std runs_return split: sum.split)
  then have c: "runs_on k (case e of ColumnRef c \<Rightarrow> p_return c
      | _ \<Rightarrow> (case expressionToString e of Inl m \<Rightarrow> p_raise (StdException m)
          | Inr n \<Rightarrow> p_return (computed_col n [] e)))"
    by (cases e) (simp_all add: runs_return)
  show ?thesis
    unfolding expression_item_def
    by (intro runs_bind [OF c] runs_cond runs_bind_consume_lexeme runs_return) simp_all
qed

lemma runs_select_item:
  assumes "grammar_runs n g" "j \<le> Suc n"
  shows "runs_on j (select_item g)"
  unfolding select_item_def
  by (intro runs_bind_check runs_bind_check_at runs_bind_look runs_if runs_aggregate_item
      runs_bind [OF runs_parseAdditive [OF assms]] runs_window_item runs_expression_item)

lemma runs_as_of: "runs_on k as_of"
  unfolding as_of_def
  by (intro runs_bind_check runs_bind_check_at runs_if runs_bind_advance runs_bind_consume
      runs_bind [OF runs_toInt64] runs_bind [OF runs_parseOptionalAlias] runs_return) simp_all

lemma runs_join_table:
  assumes "grammar_runs n g" "j \<le> n"
  shows "runs_on j (join_table g kind)"
proof -
  have "j - 1 - 1 \<le> n" using assms(2) by simp
  note g = grammar_runsD [OF assms(1) this]
  show ?thesis
    unfolding join_table_def table_name_def
    by (intro runs_bind_consume_lexeme runs_bind [OF runs_parseOptionalAlias] runs_if runs_bind_consume
        runs_bind [OF g(1)] runs_return) simp_all
qed

lemma eats_link:
  assumes "grammar_runs n g" "j \<le> Suc n"
  shows "eats j (link g kind)"
proof -
  have "j - 1 \<le> n" using assms(2) by simp
  note jt = runs_join_table [OF assms(1) this]
  show ?thesis unfolding link_def by (intro runs_bind_consume jt) simp
qed

lemma runs_link: "grammar_runs n g \<Longrightarrow> j \<le> Suc n \<Longrightarrow> runs_on j (link g kind)"
  by (rule runs_on_eats [OF eats_link order_refl])

lemma runs_first_join:
  assumes "grammar_runs n g" "j \<le> n"
  shows "runs_on j (first_join g)"
proof -
  have j: "j - 1 \<le> Suc n" "j - 1 \<le> n" using assms(2) by simp_all
  show ?thesis unfolding first_join_def
    by (intro runs_cond runs_link [OF assms(1) j(1)] runs_join_table [OF assms(1) j(2)] runs_return) simp_all
qed

lemma eats_parseJoinClause:
  assumes "grammar_runs n g" "j \<le> n"
  shows "eats j (parseJoinClause g)"
proof -
  have j: "j - 1 \<le> Suc n" "j \<le> Suc n" using assms(2) by simp_all
  show ?thesis unfolding parseJoinClause_def
    by (intro runs_cond runs_link [OF assms(1) j(1)] eats_link [OF assms(1) j(2)]) simp_all
qed

lemma runs_join_step:
  assumes "grammar_runs n g" "j \<le> n"
  shows "runs j (\<lambda>r. r \<noteq> None) (join_step g js)"
  unfolding join_step_def
  by (intro runs_bind_look runs_if runs_bind_eats [OF eats_parseJoinClause [OF assms]] runs_return) simp_all

lemma runs_by_list: "t \<noteq> T_END_OF_FILE \<Longrightarrow> (\<And>i. runs_on i p) \<Longrightarrow> runs_on k (by_list t p)"
  unfolding by_list_def by (intro runs_cond runs_bind_consume runs_comma_list runs_return) simp_all

lemma runs_int_clause: "t \<noteq> T_END_OF_FILE \<Longrightarrow> runs_on k (int_clause t what)"
  unfolding int_clause_def by (intro runs_optional runs_bind_consume runs_toInt64) simp_all

lemma eats_parseSelect:
  assumes "grammar_runs n g" "j \<le> Suc n"
  shows "eats j (parseSelect g)"
proof -
  have lt: "i \<le> n \<Longrightarrow> i \<le> Suc n" for i by simp
  have items: "runs_on i (if star then p_return [] else comma_list (select_item g))" if "i \<le> n" for i star
    using that by (intro runs_if runs_return runs_comma_list runs_select_item [OF assms(1)]) simp_all
  have e: "runs_on i (optional t (gExpression g))" if "i \<le> n" "t \<noteq> T_END_OF_FILE" for i t
    using that by (intro runs_optional grammar_runsD [OF assms(1)])
  have js: "runs_on i (repeat_step (join_step g) [])" if "i \<le> n" for i
    by (intro runs_repeat_step runs_join_step [OF assms(1) that])
  have j: "j - 1 \<le> n" "j - 1 - 1 \<le> n" "j - 1 - 1 - 1 \<le> n" using assms(2) by simp_all
  show ?thesis
    unfolding parseSelect_def table_name_def
    by (intro runs_bind_consume runs_bind [OF runs_accept] runs_bind [OF items] runs_bind_consume_lexeme
        runs_bind [OF runs_as_of] runs_pair runs_bind [OF runs_first_join [OF assms(1)]] runs_bind [OF js]
        runs_bind [OF e] runs_bind [OF runs_by_list] runs_bind [OF runs_int_clause] runs_parseColumnRef
        runs_parseOrderKey runs_return j token_type.distinct) simp_all
qed

lemma runs_parseSelect: "grammar_runs n g \<Longrightarrow> j \<le> Suc n \<Longrightarrow> runs_on j (parseSelect g)"
  by (rule runs_on_eats [OF eats_parseSelect order_refl])

lemma grammar_at_runs: "grammar_runs n (grammar_at n)"
proof (induction n)
  case 0
  then show ?case by (simp add: grammar_runs_def runs_def)
next
  case (Suc n)
  note r = runs_parseOr [OF Suc order_refl] runs_parseNot [OF Suc order_refl]
    runs_parseAdditive [OF Suc order_refl] runs_parseUnary [OF Suc order_refl]
    runs_parseSelect [OF Suc order_refl]
  show ?case
    using r by (simp add: grammar_runs_def [of "Suc n"] layer_def)
qed

section \<open>Statements\<close>

lemma runs_parseColumnType: "runs_on k parseColumnType"
  unfolding parseColumnType_def Let_def
  by (intro runs_bind_advance runs_if runs_cond runs_bind_consume runs_bind [OF runs_optional]
      runs_consume runs_bind_rparen runs_bind [OF runs_toInt64] runs_return runs_error) simp_all

lemma runs_default_literal: "runs_on k default_literal"
  unfolding default_literal_def
  by (intro runs_bind_look runs_if runs_bind [OF runs_makeLiteral] runs_bind_advance runs_return runs_error) simp

lemma runs_reference_action: "runs k (\<lambda>r. r \<noteq> None) (reference_action d)"
proof -
  have a: "runs_on i (if casc then p_return 1
      else p_bind (accept T_SET) (\<lambda>set.
        if set then p_bind (consume T_NULL_LITERAL ''NULL'') (\<lambda>_. p_return 2)
        else p_bind (consume T_RESTRICT ''RESTRICT'') (\<lambda>_. p_return 0)))" for i casc
    by (intro runs_if runs_cond runs_bind_consume runs_return) simp_all
  have b: "runs_on i (if onUpdate then p_return ()
      else p_bind (consume T_DELETE ''REMOVE or MODIFY'') (\<lambda>_. p_return ()))" for i onUpdate
    by (intro runs_if runs_bind_consume runs_return) simp_all
  show ?thesis
    unfolding reference_action_def
    by (rule runs_bind_accept)
      (simp_all add: runs_return runs_bind [OF runs_accept] runs_bind [OF a] runs_bind [OF b])
qed

lemma runs_column_constraint:
  assumes "grammar_runs n g" "j \<le> Suc n"
  shows "runs j (\<lambda>r. r \<noteq> None) (column_constraint g d)"
proof -
  have "j - 1 - 1 \<le> n" using assms(2) by simp
  note g = grammar_runsD [OF assms(1) this]
  show ?thesis
    unfolding column_constraint_def
    by (intro runs_cond runs_bind_consume runs_bind [OF runs_default_literal] runs_bind_consume_lexeme
        runs_bind_lparen runs_bind_rparen runs_bind [OF runs_repeat_step [OF runs_reference_action]]
        runs_bind [OF g(1)] runs_return) simp_all
qed

lemma runs_parseColumnDefinition:
  assumes "grammar_runs n g" "j \<le> Suc n"
  shows "runs_on j (parseColumnDefinition g)"
proof -
  have "j - 1 \<le> Suc n" using assms(2) by simp
  note cc = runs_column_constraint [OF assms(1) this]
  show ?thesis
    unfolding parseColumnDefinition_def
    by (intro runs_bind_consume_lexeme runs_bind [OF runs_parseColumnType] runs_pair runs_repeat_step cc) simp
qed

lemma runs_name_list: "runs_on k name_list"
  unfolding name_list_def by (intro runs_comma_list runs_consume_lexeme) simp

lemma runs_create_item:
  assumes "grammar_runs n g" "j \<le> Suc n"
  shows "runs_on j (create_item g)"
  unfolding create_item_def
  by (intro runs_bind_check runs_if runs_bind_advance runs_bind_consume runs_bind_lparen
      runs_bind [OF runs_name_list] runs_bind_rparen runs_bind [OF runs_parseColumnDefinition [OF assms]]
      runs_return) simp_all

lemma runs_create_table:
  assumes "grammar_runs n g" "j \<le> Suc n"
  shows "runs_on j (create_table g)"
proof -
  have j: "j - 1 - 1 \<le> Suc n" "j - 1 \<le> Suc n" using assms(2) by simp_all
  note item = runs_comma_list [OF runs_create_item [OF assms(1)]]
  show ?thesis
    unfolding create_table_def table_name_def
    by (intro runs_bind_consume_lexeme runs_cond runs_bind [OF runs_parseSelect [OF assms(1)]] runs_bind_lparen
        runs_bind [OF item] runs_bind_rparen runs_return j) simp_all
qed

lemma runs_parseCreate:
  assumes "grammar_runs n g" "j \<le> Suc n"
  shows "runs_on j (parseCreate g)"
proof -
  have j: "j - 1 - 1 \<le> Suc n" "j - 1 \<le> Suc n" "j - 1 - 1 - 1 - 1 \<le> Suc n" using assms(2) by simp_all
  show ?thesis
    unfolding parseCreate_def table_name_def
    by (intro runs_bind_consume runs_cond runs_create_table [OF assms(1)] runs_bind_consume_lexeme
        runs_bind [OF runs_parseSelect [OF assms(1)]] runs_bind_lparen runs_bind [OF runs_name_list]
        runs_bind_rparen runs_bind_look runs_return runs_error j) simp_all
qed

lemma runs_set_item:
  assumes "grammar_runs n g" "j \<le> Suc n"
  shows "runs_on j (set_item g)"
proof -
  have "j - 1 - 1 \<le> n" using assms(2) by simp
  note g = grammar_runsD [OF assms(1) this]
  show ?thesis
    unfolding set_item_def
    by (intro runs_bind_consume_lexeme runs_bind_consume runs_bind [OF g(1)] runs_return) simp_all
qed

lemma runs_parseReturning: "runs_on k parseReturning"
  unfolding parseReturning_def
  by (rule runs_bind_accept)
    (simp_all add: runs_return runs_cond runs_bind [OF runs_comma_list [OF runs_parseColumnRef]])

lemma runs_insert_end: "runs_on k (insert_end st)"
  unfolding insert_end_def by (intro runs_bind [OF runs_parseReturning] runs_pair runs_return) simp

lemma runs_parseOnConflict:
  assumes "grammar_runs n g" "j \<le> Suc n"
  shows "runs_on j (parseOnConflict g st)"
proof -
  have sets: "runs_on i (comma_list (set_item g))" if "i \<le> Suc n" for i
    by (intro runs_comma_list runs_set_item [OF assms(1) that])
  have "runs_on i (p_bind (consume T_UPDATE ''MODIFY'') (\<lambda>_. p_bind (consume T_SET ''SET'') (\<lambda>_.
         p_bind (comma_list (set_item g)) (\<lambda>sets.
           p_return (st\<lparr>conflictSetColumns := map fst sets, conflictSetValues := map snd sets\<rparr>)))))"
    if "i \<le> Suc n" for i st
    using that by (intro runs_bind_consume runs_bind [OF sets] runs_return) simp_all
  note tail = this
  show ?thesis
    unfolding parseOnConflict_def Let_def
    using assms(2)
    by (intro runs_bind [OF runs_accept] runs_if runs_bind_consume runs_bind_lparen runs_bind_rparen
        runs_bind [OF runs_comma_list [OF runs_parseColumnRef]] tail runs_return) simp_all
qed

lemma runs_insert_row: "runs_on k insert_row"
  unfolding insert_row_def
  by (intro runs_bind_lparen runs_bind [OF runs_comma_list [OF runs_parseLiteral]] runs_bind_rparen runs_return) simp

lemma runs_parseInsert:
  assumes "grammar_runs n g" "j \<le> Suc n"
  shows "runs_on j (parseInsert g)"
proof -
  have cols: "runs_on i (if m then p_bind name_list (\<lambda>cols. p_bind rparen (\<lambda>_. p_return cols)) else p_return [])" for i m
    by (intro runs_if runs_bind [OF runs_name_list] runs_bind_rparen runs_return) simp_all
  have sel: "runs_on i (parseSelect g)" "runs_on i (parseOnConflict g st)" if "i \<le> Suc n" for i st
    using runs_parseSelect [OF assms(1) that] runs_parseOnConflict [OF assms(1) that] by blast+
  show ?thesis
    unfolding parseInsert_def table_name_def Let_def
    using assms(2)
    by (intro runs_bind_consume runs_bind_consume_lexeme runs_bind [OF runs_accept] runs_bind [OF cols]
        runs_bind_check runs_if runs_bind [OF sel(1)] runs_insert_end runs_bind [OF runs_comma_list [OF runs_insert_row]]
        runs_bind [OF sel(2)]) simp_all
qed

lemma runs_where:
  "grammar_runs n g \<Longrightarrow> i \<le> n \<Longrightarrow> runs_on i (optional T_WHERE (gExpression g))"
  by (intro runs_optional grammar_runsD) simp_all

lemma runs_parseDelete:
  assumes "grammar_runs n g" "j \<le> Suc n"
  shows "runs_on j (parseDelete g)"
  unfolding parseDelete_def table_name_def
  using assms(2)
  by (intro runs_bind_consume runs_bind_consume_lexeme runs_bind [OF runs_where [OF assms(1)]]
      runs_bind [OF runs_parseReturning] runs_pair runs_return) simp_all

lemma runs_parseUpdate:
  assumes "grammar_runs n g" "j \<le> Suc n"
  shows "runs_on j (parseUpdate g)"
proof -
  have from': "runs_on i (if m then p_bind table_name (\<lambda>t. p_bind parseOptionalAlias (\<lambda>al. p_return (t, al)))
             else p_return ([], []))" for i m
    unfolding table_name_def
    by (intro runs_if runs_bind_consume_lexeme runs_bind [OF runs_parseOptionalAlias] runs_return) simp_all
  show ?thesis
    unfolding parseUpdate_def
    using assms(2)
    by (subst (1) table_name_def, intro runs_bind_consume runs_bind_consume_lexeme
        runs_bind [OF runs_comma_list [OF runs_set_item [OF assms(1)]]] runs_bind [OF runs_accept]
        runs_bind [OF from'] runs_pair runs_bind [OF runs_where [OF assms(1)]]
        runs_bind [OF runs_parseReturning] runs_return) simp_all
qed

lemma runs_parseDrop: "runs_on k parseDrop"
  unfolding parseDrop_def table_name_def
  by (intro runs_bind_consume runs_cond runs_bind_consume_lexeme runs_bind_look runs_return runs_error) simp_all

lemma runs_parseTruncate: "runs_on k parseTruncate"
  unfolding parseTruncate_def table_name_def
  by (intro runs_bind_consume runs_bind_advance runs_bind_consume_lexeme runs_return) simp_all

lemma runs_parseAlter:
  assumes "grammar_runs n g" "j \<le> Suc n"
  shows "runs_on j (parseAlter g)"
  unfolding parseAlter_def table_name_def
  using assms(2)
  by (intro runs_bind_consume runs_bind_consume_lexeme runs_cond runs_bind [OF runs_accept]
      runs_bind [OF runs_parseColumnDefinition [OF assms(1)]] runs_bind_look runs_return runs_error) simp_all

lemma runs_parseTransaction: "runs_on k parseTransaction"
  unfolding parseTransaction_def
  by (intro runs_bind_advance runs_if runs_bind [OF runs_accept] runs_return runs_error) simp_all

lemma runs_setop_step:
  assumes "grammar_runs n g" "j \<le> Suc n"
  shows "runs j (\<lambda>r. r \<noteq> None) (setop_step g st)"
proof -
  have op: "runs_on i (if un then p_bind (accept T_ALL) (\<lambda>all. p_return (OpUnion, all))
          else p_bind (accept T_INTERSECT) (\<lambda>int.
            if int then p_return (OpIntersect, False)
            else p_bind (consume T_EXCEPT ''EXCEPT'') (\<lambda>_. p_return (OpExcept, False))))" for i un
    by (intro runs_if runs_bind [OF runs_accept] runs_cond runs_bind_consume runs_return) simp_all
  show ?thesis
    unfolding setop_step_def
    by (intro runs_bind_look runs_if runs_bind [OF runs_accept] runs_bind [OF op] runs_pair
        runs_bind_eats [OF eats_parseSelect [OF assms]] runs_return) simp_all
qed

lemma runs_parse_body:
  assumes "grammar_runs n g" "j \<le> Suc n"
  shows "runs_on j (parse_body g)"
  unfolding parse_body_def parseSelectStatement_def
  by (intro runs_bind_look runs_if runs_parseCreate [OF assms] runs_parseInsert [OF assms]
      runs_bind [OF runs_parseSelect [OF assms]] runs_repeat_step runs_setop_step [OF assms]
      runs_bind_advance runs_parseDelete [OF assms] runs_parseUpdate [OF assms] runs_parseDrop
      runs_parseAlter [OF assms] runs_parseTruncate runs_parseTransaction runs_return runs_error) simp

lemma runs_whole: "runs_on k p \<Longrightarrow> runs_on k (whole what p)"
  unfolding whole_def
  by (intro runs_bind [of k p] runs_bind [OF runs_accept] runs_bind_look runs_if runs_return runs_error) simp_all

lemma parsed_fuel:
  assumes "\<And>g n. grammar_runs n g \<Longrightarrow> runs_on (Suc n) (p g)"
  shows "parsed p ts \<noteq> Inl OutOfFuel"
proof -
  have "kept (\<lambda>_. False) (cursor_of ts) (p (grammar_at (length ts)) (cursor_of ts))"
    by (rule runsD [OF assms [OF grammar_at_runs]]) (simp add: cursor_of_def)
  then show ?thesis
    by (cases "p (grammar_at (length ts)) (cursor_of ts)") (auto simp: parsed_def)
qed

text \<open>C19: The parser returns on every list of tokens: neither the recursion through the grammar nor
  any loop runs out of the fuel the entry points give it, which is the number of tokens. So each
  call ends with a tree, a \<open>ParseError\<close> or another exception.\<close>

theorem parser_terminates:
  "parseStatement ts \<noteq> Inl OutOfFuel \<and> parseWholeExpression ts \<noteq> Inl OutOfFuel"
  unfolding parseStatement_def parseWholeExpression_def
  by (intro conjI parsed_fuel runs_whole runs_parse_body runs_parseOr; (assumption | rule order_refl))

end
