(* ===== verification/ExprText.thy ===== *)
theory ExprText
  imports ParserTotal
begin

text \<open>
  A CHECK constraint is stored in the catalog file as the text \<open>expressionToString\<close> makes of it,
  and is parsed back when the database is opened (\<open>semantic_analyzer.cpp:544\<close>, \<open>db.cpp:359\<close>).
  \<open>toks\<close> are the tokens of the text, \<open>bare\<close> the tree without what the semantic analysis adds, and
  \<open>renderable\<close> the expressions whose text is that of an expression again. The first part is about
  the lexer, the second about the parser, with rules that follow the definitions as in
  \<open>ParserTotal\<close>.
\<close>

section \<open>Tokens of an expression\<close>

definition word_tok :: "string \<Rightarrow> token_type \<times> string" where
  "word_tok s = (word_type s, s)"

fun lit_toks :: "val \<Rightarrow> (token_type \<times> string) list" where
  "lit_toks (VInt i) =
     (if sint i < 0 then [(T_MINUS, ''-''), (T_INTEGER_LITERAL, nat_str (nat (- sint i)))]
      else [(T_INTEGER_LITERAL, nat_str (nat (sint i)))])"
| "lit_toks (VDouble d) = (if f_sign d then [(T_MINUS, ''-'')] else []) @ [(T_FLOAT_LITERAL, fmt_f (f_abs d))]"
| "lit_toks (VText s) = [(T_STRING_LITERAL, s)]"
| "lit_toks (VBool b) = [word_tok (if b then ''TRUE'' else ''FALSE'')]"
| "lit_toks VNull = [word_tok ''NULL'']"

definition lit_ok :: "val \<Rightarrow> bool" where
  "lit_ok v \<longleftrightarrow>
     (case v of
        VInt i \<Rightarrow> sint i \<noteq> - (2 ^ 63)
      | VDouble d \<Rightarrow> f_finite d \<and> stod (fmt_f (f_abs d)) = Some (f_abs d)
      | _ \<Rightarrow> True)"

definition name_ok :: "string \<Rightarrow> bool" where
  "name_ok s \<longleftrightarrow> is_word s \<and> word_type s = T_IDENTIFIER"

fun op_type :: "comparison_op \<Rightarrow> token_type" where
  "op_type Eq = T_EQ" | "op_type Neq = T_NEQ" | "op_type Lt = T_LT"
| "op_type Leq = T_LEQ" | "op_type Gt = T_GT" | "op_type Geq = T_GEQ"

fun arith_type :: "arithmetic_op \<Rightarrow> token_type" where
  "arith_type Add = T_PLUS" | "arith_type Sub = T_MINUS"
| "arith_type Mul = T_STAR" | "arith_type Div = T_SLASH"

definition lp :: "token_type \<times> string" where "lp = (T_LPAREN, ''('')"
definition rp :: "token_type \<times> string" where "rp = (T_RPAREN, '')'')"

definition neg_toks :: "bool \<Rightarrow> (token_type \<times> string) list" where
  "neg_toks negated = (if negated then [word_tok ''NOT''] else [])"

fun commas :: "(token_type \<times> string) list list \<Rightarrow> (token_type \<times> string) list" where
  "commas [] = []"
| "commas [ts] = ts"
| "commas (ts # tss) = ts @ (T_COMMA, '','') # commas tss"

lemma branch_size [termination_simp]:
  "(w, t) \<in> set bs \<Longrightarrow> size w < size_list (size_prod size size) bs"
  "(w, t) \<in> set bs \<Longrightarrow> size t < size_list (size_prod size size) bs"
proof -
  assume "(w, t) \<in> set bs"
  then have "size_prod size size (w, t) \<le> size_list (size_prod size size) bs"
    by (rule size_list_estimation') simp
  then show "size w < size_list (size_prod size size) bs" "size t < size_list (size_prod size size) bs"
    by simp_all
qed

fun toks :: "expr \<Rightarrow> (token_type \<times> string) list" where
  "toks (LiteralExpr _ v) = lit_toks v"
| "toks (ColumnRef c) =
     (if col_table c = [] then [word_tok (col_column c)]
      else [word_tok (col_table c), (T_DOT, ''.''), word_tok (col_column c)])"
| "toks (BinaryExpr _ op l r) = lp # toks l @ (op_type op, comparisonOpName op) # toks r @ [rp]"
| "toks (ArithmeticExpr _ op l r) = lp # toks l @ (arith_type op, arithmeticOpName op) # toks r @ [rp]"
| "toks (LogicalExpr _ op l r) =
     lp # toks l @ word_tok (if op = OpAnd then ''AND'' else ''OR'') # toks r @ [rp]"
| "toks (UnaryExpr _ e) = lp # word_tok ''NOT'' # toks e @ [rp]"
| "toks (IsNullExpr _ e negated) =
     lp # toks e @ word_tok ''IS'' # neg_toks negated @ [word_tok ''NULL'', rp]"
| "toks (BetweenExpr _ v lo hi negated) =
     lp # toks v @ neg_toks negated @ word_tok ''BETWEEN'' # toks lo @ word_tok ''AND'' # toks hi @ [rp]"
| "toks (LikeExpr _ v p negated) =
     lp # toks v @ neg_toks negated @ word_tok ''LIKE'' # toks p @ [rp]"
| "toks (InExpr _ v items _ negated) =
     lp # toks v @ neg_toks negated @ word_tok ''IN'' # lp # commas (map toks items) @ [rp, rp]"
| "toks (CallExpr _ name args castType isCast) =
     (if isCast then
        [word_tok ''CAST'', lp] @ (case args of [] \<Rightarrow> [] | e # _ \<Rightarrow> toks e) @
        [word_tok ''AS'', word_tok (dataTypeName castType), rp]
      else [word_tok name, lp] @ commas (map toks args) @ [rp])"
| "toks (CaseExpr _ branches els) =
     word_tok ''CASE'' #
     concat (map (\<lambda>(w, t). word_tok ''WHEN'' # toks w @ word_tok ''THEN'' # toks t) branches) @
     (case els of None \<Rightarrow> [] | Some e \<Rightarrow> word_tok ''ELSE'' # toks e) @ [word_tok ''END'']"
| "toks _ = []"

fun bare :: "expr \<Rightarrow> expr" where
  "bare (LiteralExpr _ v) = LiteralExpr None v"
| "bare (ColumnRef c) = ColumnRef (simple_col (col_table c) (col_column c))"
| "bare (BinaryExpr _ op l r) = BinaryExpr None op (bare l) (bare r)"
| "bare (ArithmeticExpr _ op l r) = ArithmeticExpr None op (bare l) (bare r)"
| "bare (LogicalExpr _ op l r) = LogicalExpr None op (bare l) (bare r)"
| "bare (UnaryExpr _ e) = UnaryExpr None (bare e)"
| "bare (IsNullExpr _ e negated) = IsNullExpr None (bare e) negated"
| "bare (BetweenExpr _ v lo hi negated) = BetweenExpr None (bare v) (bare lo) (bare hi) negated"
| "bare (LikeExpr _ v p negated) = LikeExpr None (bare v) (bare p) negated"
| "bare (InExpr _ v items q negated) = InExpr None (bare v) (map bare items) q negated"
| "bare (CallExpr _ name args castType isCast) = CallExpr None name (map bare args) castType isCast"
| "bare (CaseExpr _ branches els) =
     CaseExpr None (map (\<lambda>(w, t). (bare w, bare t)) branches) (map_option bare els)"
| "bare e = e"

definition is_literal :: "expr \<Rightarrow> bool" where
  "is_literal e \<longleftrightarrow> (case e of LiteralExpr _ _ \<Rightarrow> True | _ \<Rightarrow> False)"

fun renderable :: "expr \<Rightarrow> bool" where
  "renderable (LiteralExpr _ v) \<longleftrightarrow> lit_ok v"
| "renderable (ColumnRef c) \<longleftrightarrow> (col_table c = [] \<or> name_ok (col_table c)) \<and> name_ok (col_column c)"
| "renderable (BinaryExpr _ op l r) \<longleftrightarrow> renderable l \<and> renderable r"
| "renderable (ArithmeticExpr _ op l r) \<longleftrightarrow> renderable l \<and> renderable r"
| "renderable (LogicalExpr _ op l r) \<longleftrightarrow> renderable l \<and> renderable r"
| "renderable (UnaryExpr _ e) \<longleftrightarrow> renderable e"
| "renderable (IsNullExpr _ e negated) \<longleftrightarrow> renderable e"
| "renderable (BetweenExpr _ v lo hi negated) \<longleftrightarrow> renderable v \<and> renderable lo \<and> renderable hi"
| "renderable (LikeExpr _ v p negated) \<longleftrightarrow> renderable v \<and> renderable p"
| "renderable (InExpr _ v items q negated) \<longleftrightarrow>
     renderable v \<and> q = None \<and> items \<noteq> [] \<and> (\<forall>e\<in>set items. is_literal e \<and> renderable e)"
| "renderable (CallExpr _ name args castType isCast) \<longleftrightarrow>
     (\<forall>e\<in>set args. renderable e) \<and>
     (if isCast then name = ''CAST'' \<and> length args = 1
      else name_ok name \<and> upperName name = name \<and> \<not> isAggregateName name \<and> name \<noteq> ''CAST'' \<and> castType = DInt)"
| "renderable (CaseExpr _ branches els) \<longleftrightarrow>
     branches \<noteq> [] \<and> (\<forall>(w, t)\<in>set branches. renderable w \<and> renderable t) \<and>
     (case els of None \<Rightarrow> True | Some e \<Rightarrow> renderable e)"
| "renderable _ \<longleftrightarrow> False"

section \<open>Numbers as text\<close>

lemma nat_str_is_digits: "is_digits (nat_str n)"
  using nat_str_digits by (auto simp: is_digits_def list_all_iff)

lemma unat_f_neg:
  assumes "f_sign d"
  shows "unat (f_neg d) = unat d - 2 ^ 63"
proof -
  have lt: "unat d < 2 ^ 64" using unsigned_less [of d] by simp
  have ge: "2 ^ 63 \<le> unat d" using assms by (simp add: f_sign_def)
  have "unat (f_neg d) = (unat d + 2 ^ 63) mod 2 ^ 64"
    by (simp add: f_neg_def unat_word_ariths unat_of_nat)
  also have "\<dots> = unat d - 2 ^ 63" using lt ge by (simp add: mod_if)
  finally show ?thesis .
qed

lemma f_abs_fields:
  "\<not> f_sign (f_abs d)" "f_exp (f_abs d) = f_exp d" "f_frac (f_abs d) = f_frac d" "f_mag (f_abs d) = f_mag d"
proof -
  have lt: "unat d < 2 ^ 64" using unsigned_less [of d] by simp
  have *: "\<not> f_sign (f_abs d) \<and> f_exp (f_abs d) = f_exp d \<and> f_frac (f_abs d) = f_frac d"
  proof (cases "f_sign d")
    case True
    define u where "u = unat d - 2 ^ 63"
    have d: "unat d = u + 2048 * 2 ^ 52" and u: "u < 2 ^ 63"
      using True lt by (simp_all add: u_def f_sign_def)
    have "unat (f_abs d) = u" using True unat_f_neg [OF True] by (simp add: f_abs_def u_def)
    moreover have "(u + 2048 * 2 ^ 52) div 2 ^ 52 = u div 2 ^ 52 + 2048"
      by (simp add: div_mult_self2)
    moreover have "(u + 2048 * 2 ^ 52) mod 2 ^ 52 = u mod 2 ^ 52"
      by (rule mod_mult_self1)
    ultimately show ?thesis using u d by (simp add: f_sign_def f_exp_def f_frac_def)
  next
    case False
    then show ?thesis by (simp add: f_abs_def)
  qed
  then show "\<not> f_sign (f_abs d)" "f_exp (f_abs d) = f_exp d" "f_frac (f_abs d) = f_frac d"
    by simp_all
  then show "f_mag (f_abs d) = f_mag d" by (simp add: f_mag_def)
qed

lemma f_neg_abs: "f_sign d \<Longrightarrow> f_neg (f_abs d) = d"
  by (simp add: f_abs_def f_neg_def)

lemma fmt_f_abs:
  assumes "f_finite d"
  shows "fmt_f d = (if f_sign d then ''-'' else []) @ fmt_f (f_abs d)"
    and "\<exists>a b. is_digits a \<and> is_digits b \<and> fmt_f (f_abs d) = a @ ''.'' @ b"
proof -
  have fin: "\<not> f_is_nan d" "\<not> f_is_inf d" "\<not> f_is_nan (f_abs d)" "\<not> f_is_inf (f_abs d)"
    using assms by (simp_all add: f_finite_def f_is_nan_def f_is_inf_def f_abs_fields)
  show "fmt_f d = (if f_sign d then ''-'' else []) @ fmt_f (f_abs d)"
    by (simp add: fmt_f_def fin f_abs_fields)
  have z: "is_digit CHR ''0''" by (simp add: is_digit_def)
  have "is_digits (replicate k CHR ''0'' @ nat_str n)" for k n
    using z nat_str_is_digits [of n] by (auto simp: is_digits_def list_all_iff)
  then show "\<exists>a b. is_digits a \<and> is_digits b \<and> fmt_f (f_abs d) = a @ ''.'' @ b"
    using nat_str_is_digits
    by (simp add: fmt_f_def fin f_abs_fields Let_def del: append.simps) blast
qed

section \<open>The text is that of the tokens\<close>

definition safe :: "string \<Rightarrow> bool" where
  "safe r \<longleftrightarrow> (case r of [] \<Rightarrow> True | c # _ \<Rightarrow> c \<in> {CHR '' '', CHR '')'', CHR '',''})"

lemma safe_simps [simp]: "safe []" "safe (CHR '' '' # r)" "safe (CHR '')'' # r)" "safe (CHR '','' # r)"
  by (simp_all add: safe_def)

lemma apart_safe: "safe r \<Longrightarrow> apart x r"
  by (auto simp: safe_def apart_def quote_char_def is_digit_def is_ident_part_def is_alnum_def is_alpha_def
      is_upper_def is_lower_def split: list.splits)

lemma keyword_words:
  "list_all is_word [''TRUE'', ''FALSE'', ''NULL'', ''AND'', ''OR'', ''NOT'', ''IS'', ''BETWEEN'', ''LIKE'', ''IN'',
     ''CAST'', ''AS'', ''CASE'', ''WHEN'', ''THEN'', ''ELSE'', ''END'', ''INT'', ''BOOL'', ''TEXT'', ''VARCHAR'',
     ''FLOAT'', ''DATE'', ''TIMESTAMP'']"
  by (simp add: is_word_def is_ident_start_def is_ident_part_def is_alnum_def is_alpha_def is_upper_def)

lemmas keyword_word = keyword_words [unfolded list.pred_inject, simplified]

lemma keyword_types:
  "word_type ''TRUE'' = T_TRUE" "word_type ''FALSE'' = T_FALSE" "word_type ''NULL'' = T_NULL_LITERAL"
  "word_type ''AND'' = T_AND" "word_type ''OR'' = T_OR" "word_type ''NOT'' = T_NOT" "word_type ''IS'' = T_IS"
  "word_type ''BETWEEN'' = T_BETWEEN" "word_type ''LIKE'' = T_LIKE" "word_type ''IN'' = T_IN"
  "word_type ''CAST'' = T_IDENTIFIER" "word_type ''AS'' = T_AS" "word_type ''CASE'' = T_CASE"
  "word_type ''WHEN'' = T_WHERE" "word_type ''THEN'' = T_THEN" "word_type ''ELSE'' = T_ELSE"
  "word_type ''END'' = T_END" "word_type ''INT'' = T_INT_TYPE" "word_type ''BOOL'' = T_BOOL_TYPE"
  "word_type ''TEXT'' = T_TEXT_TYPE" "word_type ''VARCHAR'' = T_VARCHAR" "word_type ''FLOAT'' = T_FLOAT_TYPE"
  "word_type ''DATE'' = T_DATE_TYPE" "word_type ''TIMESTAMP'' = T_TIMESTAMP_TYPE"
  by (simp_all add: word_type_def keywordTable_def to_upper_def is_lower_def)

named_theorems lexes_rules "texts and their tokens"

lemma lexes_sp [lexes_rules]: "lexes r ts \<Longrightarrow> lexes ('' '' @ r) ts"
  by (simp add: lexes_blank is_blank_def)

lemma lexes_kw [lexes_rules]:
  "is_word w \<Longrightarrow> lexes ('' '' @ r) ts \<Longrightarrow> lexes (w @ '' '' @ r) (word_tok w # ts)"
  unfolding word_tok_def
  by (rule lexes_word) (simp_all add: is_ident_part_def is_alnum_def is_alpha_def is_upper_def is_lower_def is_digit_def)

lemma lexes_kw_end [lexes_rules]: "is_word w \<Longrightarrow> lexes r ts \<Longrightarrow> safe r \<Longrightarrow> lexes (w @ r) (word_tok w # ts)"
  unfolding word_tok_def
  by (rule lexes_word) (auto simp: safe_def is_ident_part_def is_alnum_def is_alpha_def is_upper_def
      is_lower_def is_digit_def split: list.splits)

lemma lexes_lp [lexes_rules]: "lexes r ts \<Longrightarrow> lexes (''('' @ r) (lp # ts)"
  unfolding lp_def by (rule lexes_symbol) (auto simp: symbolTable_def apart_def split: list.splits)

lemma lexes_rp [lexes_rules]: "lexes r ts \<Longrightarrow> lexes ('')'' @ r) (rp # ts)"
  unfolding rp_def by (rule lexes_symbol) (auto simp: symbolTable_def apart_def split: list.splits)

lemma lexes_comma [lexes_rules]: "lexes r ts \<Longrightarrow> lexes ('','' @ r) ((T_COMMA, '','') # ts)"
  by (rule lexes_symbol) (auto simp: symbolTable_def apart_def split: list.splits)

lemma lexes_op [lexes_rules]: "lexes ('' '' @ r) ts \<Longrightarrow> lexes (comparisonOpName op @ '' '' @ r) ((op_type op, comparisonOpName op) # ts)"
  by (rule lexes_symbol) (cases op; simp add: symbolTable_def apart_safe)+

lemma lexes_arith [lexes_rules]: "lexes ('' '' @ r) ts \<Longrightarrow> lexes (arithmeticOpName op @ '' '' @ r) ((arith_type op, arithmeticOpName op) # ts)"
  by (rule lexes_symbol) (cases op; simp add: symbolTable_def apart_safe)+

lemma lexes_literal:
  assumes "lit_ok v" "lexes r ts" "safe r"
  shows "lexes (literalText v @ r) (lit_toks v @ ts)"
proof -
  have minus: "lexes (''-'' @ c # s) ((T_MINUS, ''-'') # us)" if "is_digit c" "lexes (c # s) us" for c s us
    using that by (intro lexes_symbol) (auto simp: symbolTable_def apart_def is_digit_def)
  have int: "lexes (nat_str n @ r) ((T_INTEGER_LITERAL, nat_str n) # ts)" for n
    by (rule lexes_int [OF nat_str_is_digits apart_safe assms(2)]) (rule assms)
  show ?thesis
  proof (cases v)
    case (VInt i)
    obtain c cs where c: "nat_str (nat (- sint i)) = c # cs" "is_digit c"
      using nat_str_is_digits [of "nat (- sint i)"] by (cases "nat_str (nat (- sint i))") (auto simp: is_digits_def)
    have "lexes (''-'' @ c # cs @ r) ((T_MINUS, ''-'') # (T_INTEGER_LITERAL, nat_str (nat (- sint i))) # ts)"
      using minus [OF c(2)] int [of "nat (- sint i)"] by (simp add: c(1))
    then show ?thesis using VInt int by (simp add: i64_str_def int_str_def c(1))
  next
    case (VDouble d)
    then have fin: "f_finite d" using assms(1) by (simp add: lit_ok_def)
    obtain a b where ab: "is_digits a" "is_digits b" "fmt_f (f_abs d) = a @ ''.'' @ b"
      using fmt_f_abs(2) [OF fin] by blast
    have r: "r = [] \<or> \<not> is_digit (hd r)" using assms(3) by (auto simp: safe_def is_digit_def split: list.splits)
    have fl: "lexes (fmt_f (f_abs d) @ r) ((T_FLOAT_LITERAL, fmt_f (f_abs d)) # ts)"
      using lexes_float [OF ab(1,2) r assms(2)] by (simp add: ab(3))
    obtain c cs where c: "a = c # cs" "is_digit c" using ab(1) by (cases a) (auto simp: is_digits_def)
    show ?thesis
      using VDouble fl minus [OF c(2), of "cs @ ''.'' @ b @ r"] by (simp add: fmt_f_abs(1) [OF fin] ab(3) c(1))
  next
    case (VText t)
    have "quoteString t = quote_char # double_quotes t @ [quote_char]"
      unfolding quoteString_def double_quotes_def quote_char_def by simp
    moreover have "r = [] \<or> hd r \<noteq> quote_char"
      using assms(3) by (auto simp: safe_def quote_char_def split: list.splits)
    ultimately show ?thesis using lexes_string [OF _ assms(2), of t] VText by simp
  next
    case (VBool b)
    then show ?thesis using lexes_kw_end [OF _ assms(2,3), of "''TRUE''"] lexes_kw_end [OF _ assms(2,3), of "''FALSE''"]
        keyword_word by (cases b) simp_all
  next
    case VNull
    then show ?thesis using lexes_kw_end [OF _ assms(2,3), of "''NULL''"] keyword_word by simp
  qed
qed

text \<open>The text of an expression, wherever it stands.\<close>

definition text_of :: "expr \<Rightarrow> string \<Rightarrow> bool" where
  "text_of e s \<longleftrightarrow> (\<forall>r ts. lexes r ts \<longrightarrow> safe r \<longrightarrow> lexes (s @ r) (toks e @ ts))"

lemma text_ofD: "text_of e s \<Longrightarrow> lexes r ts \<Longrightarrow> safe r \<Longrightarrow> lexes (s @ r) (toks e @ ts)"
  by (simp add: text_of_def)

lemma then_text_Inr: "then_text m f = Inr s \<Longrightarrow> (\<And>a. m = Inr a \<Longrightarrow> f a = Inr s \<Longrightarrow> P) \<Longrightarrow> P"
  by (cases m) (simp_all add: then_text_def)

lemma lexes_list:
  assumes "\<And>e s. e \<in> set es \<Longrightarrow> expressionToString e = Inr s \<Longrightarrow> text_of e s" "listText es = Inr s"
    and "lexes r ts" "safe r"
  shows "lexes (s @ r) (commas (map toks es) @ ts)"
  using assms(1,2)
proof (induction es arbitrary: s)
  case Nil
  then show ?case using assms(3) by simp
next
  case (Cons e es)
  obtain a where a: "expressionToString e = Inr a"
    "(if es = [] then Inr a else then_text (listText es) (\<lambda>b. Inr (a @ '', '' @ b))) = Inr s"
    using Cons.prems(2) by (auto elim: then_text_Inr)
  have e: "text_of e a" using Cons.prems(1) a(1) by simp
  show ?case
  proof (cases "es = []")
    case True
    then show ?thesis using a text_ofD [OF e assms(3,4)] by simp
  next
    case False
    then obtain b where b: "listText es = Inr b" "s = a @ '', '' @ b"
      using a(2) by (auto elim: then_text_Inr)
    have "lexes (b @ r) (commas (map toks es) @ ts)"
      using Cons.IH [OF _ b(1)] Cons.prems(1) by simp
    then have "lexes (a @ '','' @ '' '' @ b @ r) (toks e @ (T_COMMA, '','') # commas (map toks es) @ ts)"
      by (intro text_ofD [OF e] lexes_rules) simp_all
    moreover obtain e2 es2 where "es = e2 # es2" using False by (cases es) auto
    ultimately show ?thesis using b(2) by simp
  qed
qed

lemma lexes_not_kw:
  assumes "is_word k" "lexes ('' '' @ r) ts"
  shows "lexes ((if negated then '' NOT '' else '' '') @ k @ '' '' @ r) (neg_toks negated @ word_tok k # ts)"
proof -
  have k: "lexes (k @ '' '' @ r) (word_tok k # ts)" by (rule lexes_kw [OF assms])
  have "is_word ''NOT''" using keyword_word by simp
  then have "lexes ('' '' @ ''NOT'' @ '' '' @ k @ '' '' @ r) (word_tok ''NOT'' # word_tok k # ts)"
    by (intro lexes_sp lexes_kw k)
  moreover have "lexes ('' '' @ k @ '' '' @ r) (word_tok k # ts)" by (intro lexes_sp k)
  ultimately show ?thesis by (simp add: neg_toks_def)
qed

lemma lexes_branches:
  assumes "\<And>e s. e \<in> fst ` set bs \<union> snd ` set bs \<Longrightarrow> expressionToString e = Inr s \<Longrightarrow> text_of e s"
    and "branchText bs = Inr s" "lexes ('' '' @ r) ts"
  shows "lexes (s @ '' '' @ r)
    (concat (map (\<lambda>(w, t). word_tok ''WHEN'' # toks w @ word_tok ''THEN'' # toks t) bs) @ ts)"
  using assms(1,2)
proof (induction bs arbitrary: s)
  case Nil
  then show ?case using assms(3) by simp
next
  case (Cons b bs)
  obtain w t where b: "b = (w, t)" by (cases b)
  obtain x y z where xyz: "expressionToString w = Inr x" "expressionToString t = Inr y" "branchText bs = Inr z"
    "s = '' WHEN '' @ x @ '' THEN '' @ y @ z"
    using Cons.prems(2) by (auto simp: b elim!: then_text_Inr)
  have w: "text_of w x" and t: "text_of t y" using Cons.prems(1) xyz by (auto simp: b)
  let ?ts = "concat (map (\<lambda>(w, t). word_tok ''WHEN'' # toks w @ word_tok ''THEN'' # toks t) bs) @ ts"
  have IH: "lexes (z @ '' '' @ r) ?ts" using Cons.IH [OF _ xyz(3)] Cons.prems(1) by simp
  have z: "safe (z @ '' '' @ r)"
  proof (cases bs)
    case Nil
    then show ?thesis using xyz(3) by simp
  next
    case (Cons p ps)
    then show ?thesis using xyz(3) by (cases p) (auto elim!: then_text_Inr)
  qed
  have kw: "is_word ''WHEN''" "is_word ''THEN''" using keyword_word by simp_all
  have "lexes ('' '' @ ''WHEN'' @ '' '' @ x @ '' '' @ ''THEN'' @ '' '' @ y @ z @ '' '' @ r)
    (word_tok ''WHEN'' # toks w @ word_tok ''THEN'' # toks t @ ?ts)"
    by (intro lexes_sp lexes_kw kw text_ofD [OF w] text_ofD [OF t] IH z) simp
  then show ?case by (simp add: b xyz(4))
qed

lemma text_ofI: "(\<And>r ts. lexes r ts \<Longrightarrow> safe r \<Longrightarrow> lexes (s @ r) (toks e @ ts)) \<Longrightarrow> text_of e s"
  by (simp add: text_of_def)

lemma text_of_literal: "lit_ok v \<Longrightarrow> text_of (LiteralExpr t v) (literalText v)"
  by (rule text_ofI) (simp add: lexes_literal)

lemma text_of_column:
  assumes "col_table c = [] \<or> name_ok (col_table c)" "name_ok (col_column c)"
  shows "text_of (ColumnRef c) (if col_table c = [] then col_column c else col_table c @ ''.'' @ col_column c)"
proof (rule text_ofI)
  fix r ts
  assume r: "lexes r ts" "safe r"
  have last: "lexes (col_column c @ r) (word_tok (col_column c) # ts)"
    using assms(2) by (intro lexes_kw_end r) (simp add: name_ok_def)
  have "lexes (col_table c @ ''.'' @ col_column c @ r)
      (word_tok (col_table c) # (T_DOT, ''.'') # word_tok (col_column c) # ts)" if "is_word (col_table c)"
    unfolding word_tok_def [of "col_table c"]
  proof (rule lexes_word [OF that])
    show "lexes (''.'' @ col_column c @ r) ((T_DOT, ''.'') # word_tok (col_column c) # ts)"
      using last by (intro lexes_symbol) (auto simp: symbolTable_def apart_def split: list.splits)
  qed (simp add: is_ident_part_def is_alnum_def is_alpha_def is_upper_def is_lower_def is_digit_def)
  then show "lexes ((if col_table c = [] then col_column c else col_table c @ ''.'' @ col_column c) @ r)
      (toks (ColumnRef c) @ ts)"
    using last assms by (auto simp: name_ok_def)
qed

lemma text_of_binary:
  assumes x: "text_of x a" and y: "text_of y b"
  shows "text_of (BinaryExpr t op x y) (''('' @ a @ '' '' @ comparisonOpName op @ '' '' @ b @ '')'')"
proof (rule text_ofI)
  fix r ts
  assume "lexes r ts"
  note rp = lexes_rp [OF this]
  have "lexes (''('' @ a @ '' '' @ comparisonOpName op @ '' '' @ b @ '')'' @ r)
      (lp # toks x @ (op_type op, comparisonOpName op) # toks y @ rp # ts)"
    by (intro lexes_lp lexes_sp lexes_op text_ofD [OF x] text_ofD [OF y] rp) simp_all
  then show "lexes ((''('' @ a @ '' '' @ comparisonOpName op @ '' '' @ b @ '')'') @ r) (toks (BinaryExpr t op x y) @ ts)"
    by simp
qed

lemma text_of_arithmetic:
  assumes x: "text_of x a" and y: "text_of y b"
  shows "text_of (ArithmeticExpr t op x y) (''('' @ a @ '' '' @ arithmeticOpName op @ '' '' @ b @ '')'')"
proof (rule text_ofI)
  fix r ts
  assume "lexes r ts"
  note rp = lexes_rp [OF this]
  have "lexes (''('' @ a @ '' '' @ arithmeticOpName op @ '' '' @ b @ '')'' @ r)
      (lp # toks x @ (arith_type op, arithmeticOpName op) # toks y @ rp # ts)"
    by (intro lexes_lp lexes_sp lexes_arith text_ofD [OF x] text_ofD [OF y] rp) simp_all
  then show "lexes ((''('' @ a @ '' '' @ arithmeticOpName op @ '' '' @ b @ '')'') @ r) (toks (ArithmeticExpr t op x y) @ ts)"
    by simp
qed

lemma text_of_logical:
  assumes x: "text_of x a" and y: "text_of y b"
  shows "text_of (LogicalExpr t op x y) (''('' @ a @ (if op = OpAnd then '' AND '' else '' OR '') @ b @ '')'')"
proof (rule text_ofI)
  fix r ts
  let ?w = "if op = OpAnd then ''AND'' else ''OR''"
  assume "lexes r ts"
  note rp = lexes_rp [OF this]
  have w: "is_word ?w" using keyword_word by simp
  have "lexes (''('' @ a @ '' '' @ ?w @ '' '' @ b @ '')'' @ r) (lp # toks x @ word_tok ?w # toks y @ rp # ts)"
    by (intro lexes_lp lexes_sp lexes_kw [OF w] text_ofD [OF x] text_ofD [OF y] rp) simp_all
  then show "lexes ((''('' @ a @ (if op = OpAnd then '' AND '' else '' OR '') @ b @ '')'') @ r)
      (toks (LogicalExpr t op x y) @ ts)"
    by (cases "op = OpAnd") simp_all
qed

lemma text_of_not:
  assumes x: "text_of x a"
  shows "text_of (UnaryExpr t x) (''(NOT '' @ a @ '')'')"
proof (rule text_ofI)
  fix r ts
  assume "lexes r ts"
  note rp = lexes_rp [OF this]
  have "lexes (''('' @ ''NOT'' @ '' '' @ a @ '')'' @ r) (lp # word_tok ''NOT'' # toks x @ rp # ts)"
    using keyword_word by (intro lexes_lp lexes_kw lexes_sp text_ofD [OF x] rp) simp_all
  then show "lexes ((''(NOT '' @ a @ '')'') @ r) (toks (UnaryExpr t x) @ ts)" by simp
qed

lemma text_of_is_null:
  assumes x: "text_of x a"
  shows "text_of (IsNullExpr t x neg) (''('' @ a @ (if neg then '' IS NOT NULL)'' else '' IS NULL)''))"
proof (rule text_ofI)
  fix r ts
  assume "lexes r ts"
  note rp = lexes_rp [OF this]
  note kw = keyword_word
  have null: "lexes (''NULL'' @ '')'' @ r) (word_tok ''NULL'' # rp # ts)"
    using kw by (intro lexes_kw_end rp) simp_all
  have "lexes (''('' @ a @ '' '' @ ''IS'' @ '' '' @ ''NULL'' @ '')'' @ r)
      (lp # toks x @ word_tok ''IS'' # word_tok ''NULL'' # rp # ts)"
    using kw by (intro lexes_lp lexes_kw lexes_sp text_ofD [OF x] null) simp_all
  moreover have "lexes (''('' @ a @ '' '' @ ''IS'' @ '' '' @ ''NOT'' @ '' '' @ ''NULL'' @ '')'' @ r)
      (lp # toks x @ word_tok ''IS'' # word_tok ''NOT'' # word_tok ''NULL'' # rp # ts)"
    using kw by (intro lexes_lp lexes_kw lexes_sp text_ofD [OF x] null) simp_all
  ultimately show "lexes ((''('' @ a @ (if neg then '' IS NOT NULL)'' else '' IS NULL)'')) @ r)
      (toks (IsNullExpr t x neg) @ ts)"
    by (simp add: neg_toks_def)
qed

lemma text_of_in:
  assumes x: "text_of x a" and b: "listText items = Inr b"
    and item: "\<And>d c. d \<in> set items \<Longrightarrow> expressionToString d = Inr c \<Longrightarrow> text_of d c"
  shows "text_of (InExpr t x items q neg) (''('' @ a @ (if neg then '' NOT IN ('' else '' IN ('') @ b @ ''))'')"
proof (rule text_ofI)
  fix r ts
  assume "lexes r ts"
  note rp = lexes_rp [OF this]
  have "lexes (b @ '')'' @ '')'' @ r) (commas (map toks items) @ rp # rp # ts)"
    by (rule lexes_list [OF item b lexes_rp [OF rp]]) simp_all
  then have "lexes ('' '' @ ''('' @ b @ '')'' @ '')'' @ r) (lp # commas (map toks items) @ rp # rp # ts)"
    by (intro lexes_sp lexes_lp)
  then have "lexes ((if neg then '' NOT '' else '' '') @ ''IN'' @ '' '' @ ''('' @ b @ '')'' @ '')'' @ r)
      (neg_toks neg @ word_tok ''IN'' # lp # commas (map toks items) @ rp # rp # ts)"
    using keyword_word by (intro lexes_not_kw) simp_all
  then have "lexes (''('' @ a @ (if neg then '' NOT '' else '' '') @ ''IN'' @ '' '' @ ''('' @ b @ '')'' @ '')'' @ r)
      (lp # toks x @ neg_toks neg @ word_tok ''IN'' # lp # commas (map toks items) @ rp # rp # ts)"
    by (intro lexes_lp text_ofD [OF x]) simp_all
  then show "lexes ((''('' @ a @ (if neg then '' NOT IN ('' else '' IN ('') @ b @ ''))'') @ r)
      (toks (InExpr t x items q neg) @ ts)"
    by (cases neg) simp_all
qed

lemma text_of_between:
  assumes x: "text_of x a" and y: "text_of y b" and z: "text_of z c"
  shows "text_of (BetweenExpr t x y z neg)
    (''('' @ a @ (if neg then '' NOT BETWEEN '' else '' BETWEEN '') @ b @ '' AND '' @ c @ '')'')"
proof (rule text_ofI)
  fix r ts
  assume "lexes r ts"
  note rp = lexes_rp [OF this]
  have "lexes ((if neg then '' NOT '' else '' '') @ ''BETWEEN'' @ '' '' @ b @ '' '' @ ''AND'' @ '' '' @ c @ '')'' @ r)
      (neg_toks neg @ word_tok ''BETWEEN'' # toks y @ word_tok ''AND'' # toks z @ rp # ts)"
    using keyword_word by (intro lexes_not_kw lexes_kw lexes_sp text_ofD [OF y] text_ofD [OF z] rp) simp_all
  then have "lexes (''('' @ a @ (if neg then '' NOT '' else '' '') @ ''BETWEEN'' @ '' '' @ b @ '' '' @ ''AND'' @ '' '' @ c @ '')'' @ r)
      (lp # toks x @ neg_toks neg @ word_tok ''BETWEEN'' # toks y @ word_tok ''AND'' # toks z @ rp # ts)"
    by (intro lexes_lp text_ofD [OF x]) simp_all
  then show "lexes ((''('' @ a @ (if neg then '' NOT BETWEEN '' else '' BETWEEN '') @ b @ '' AND '' @ c @ '')'') @ r)
      (toks (BetweenExpr t x y z neg) @ ts)"
    by (cases neg) simp_all
qed

lemma text_of_like:
  assumes x: "text_of x a" and y: "text_of y b"
  shows "text_of (LikeExpr t x y neg) (''('' @ a @ (if neg then '' NOT LIKE '' else '' LIKE '') @ b @ '')'')"
proof (rule text_ofI)
  fix r ts
  assume "lexes r ts"
  note rp = lexes_rp [OF this]
  have "lexes ((if neg then '' NOT '' else '' '') @ ''LIKE'' @ '' '' @ b @ '')'' @ r)
      (neg_toks neg @ word_tok ''LIKE'' # toks y @ rp # ts)"
    using keyword_word by (intro lexes_not_kw lexes_sp text_ofD [OF y] rp) simp_all
  then have "lexes (''('' @ a @ (if neg then '' NOT '' else '' '') @ ''LIKE'' @ '' '' @ b @ '')'' @ r)
      (lp # toks x @ neg_toks neg @ word_tok ''LIKE'' # toks y @ rp # ts)"
    by (intro lexes_lp text_ofD [OF x]) simp_all
  then show "lexes ((''('' @ a @ (if neg then '' NOT LIKE '' else '' LIKE '') @ b @ '')'') @ r)
      (toks (LikeExpr t x y neg) @ ts)"
    by (cases neg) simp_all
qed

lemma lexes_name_paren: "is_word w \<Longrightarrow> lexes u us \<Longrightarrow> lexes (w @ ''('' @ u) (word_tok w # lp # us)"
  unfolding word_tok_def
  by (intro lexes_word lexes_lp)
    (simp_all add: is_ident_part_def is_alnum_def is_alpha_def is_upper_def is_lower_def is_digit_def)

lemma text_of_cast:
  assumes x: "text_of x a"
  shows "text_of (CallExpr t name (x # xs) ty True) (''CAST('' @ a @ '' AS '' @ dataTypeName ty @ '')'')"
proof (rule text_ofI)
  fix r ts
  assume "lexes r ts"
  note rp = lexes_rp [OF this]
  have "is_word (dataTypeName ty)" using keyword_word by (cases ty) simp_all
  then have "lexes (''CAST'' @ ''('' @ a @ '' '' @ ''AS'' @ '' '' @ dataTypeName ty @ '')'' @ r)
      (word_tok ''CAST'' # lp # toks x @ word_tok ''AS'' # word_tok (dataTypeName ty) # rp # ts)"
    using keyword_word by (intro lexes_name_paren text_ofD [OF x] lexes_sp lexes_kw lexes_kw_end rp) simp_all
  then show "lexes ((''CAST('' @ a @ '' AS '' @ dataTypeName ty @ '')'') @ r)
      (toks (CallExpr t name (x # xs) ty True) @ ts)"
    by simp
qed

lemma text_of_call:
  assumes "is_word name" and a: "listText args = Inr a"
    and arg: "\<And>d c. d \<in> set args \<Longrightarrow> expressionToString d = Inr c \<Longrightarrow> text_of d c"
  shows "text_of (CallExpr t name args ty False) (name @ ''('' @ a @ '')'')"
proof (rule text_ofI)
  fix r ts
  assume "lexes r ts"
  note rp = lexes_rp [OF this]
  have "lexes (a @ '')'' @ r) (commas (map toks args) @ rp # ts)"
    by (rule lexes_list [OF arg a rp]) simp_all
  from lexes_name_paren [OF assms(1) this]
  show "lexes ((name @ ''('' @ a @ '')'') @ r) (toks (CallExpr t name args ty False) @ ts)" by simp
qed

lemma safe_branches: "branchText bs = Inr z \<Longrightarrow> safe (z @ '' '' @ r)"
  by (cases bs) (auto elim!: then_text_Inr)

lemma text_of_case:
  assumes br: "\<And>d c. d \<in> fst ` set bs \<union> snd ` set bs \<Longrightarrow> expressionToString d = Inr c \<Longrightarrow> text_of d c"
    and a: "branchText bs = Inr a" and els: "case els of None \<Rightarrow> b = [] | Some d \<Rightarrow> text_of d b"
  shows "text_of (CaseExpr t bs els)
    (case els of None \<Rightarrow> ''CASE'' @ a @ '' END'' | Some d \<Rightarrow> ''CASE'' @ a @ '' ELSE '' @ b @ '' END'')"
proof (rule text_ofI)
  fix r ts
  assume r: "lexes r ts" "safe r"
  note kw = keyword_word
  have head: "lexes (''CASE'' @ a @ '' '' @ u) (word_tok ''CASE'' #
      concat (map (\<lambda>(w, t). word_tok ''WHEN'' # toks w @ word_tok ''THEN'' # toks t) bs) @ us)"
    if "lexes ('' '' @ u) us" for u us
    using kw lexes_branches [OF br a that] safe_branches [OF a] by (intro lexes_kw_end) simp_all
  have fin: "lexes (''END'' @ r) (word_tok ''END'' # ts)" using kw r by (intro lexes_kw_end) simp_all
  show "lexes ((case els of None \<Rightarrow> ''CASE'' @ a @ '' END'' | Some d \<Rightarrow> ''CASE'' @ a @ '' ELSE '' @ b @ '' END'') @ r)
      (toks (CaseExpr t bs els) @ ts)"
  proof (cases els)
    case None
    then show ?thesis using head [OF lexes_sp [OF fin]] by simp
  next
    case (Some d)
    then have d: "text_of d b" using els by simp
    have "lexes ('' '' @ ''ELSE'' @ '' '' @ b @ '' '' @ ''END'' @ r) (word_tok ''ELSE'' # toks d @ word_tok ''END'' # ts)"
      using kw by (intro lexes_sp lexes_kw text_ofD [OF d] fin) simp_all
    from head [OF this] show ?thesis using Some by simp
  qed
qed

lemma text_of_expression:
  "renderable e \<Longrightarrow> expressionToString e = Inr s \<Longrightarrow> text_of e s"
proof (induction "size e" arbitrary: e s rule: less_induct)
  case less
  have IH: "text_of d a" if "size d < size e" "renderable d" "expressionToString d = Inr a" for d a
    using less.hyps that by blast
  note el = size_list_estimation' [OF _ order_refl, of _ _ size]
  show ?case
  proof (cases e)
    case (InExpr t x items q neg)
    have q: "q = None" "renderable x" "\<And>d. d \<in> set items \<Longrightarrow> renderable d" using less.prems(1) InExpr by auto
    obtain a b where ab: "expressionToString x = Inr a" "listText items = Inr b"
      "s = ''('' @ a @ (if neg then '' NOT IN ('' else '' IN ('') @ b @ ''))''"
      using less.prems(2) InExpr q(1) by (auto elim!: then_text_Inr)
    have "text_of x a" using ab(1) q(2) InExpr by (auto intro!: IH)
    moreover have "text_of d c" if "d \<in> set items" "expressionToString d = Inr c" for d c
      using that q(3) InExpr by (auto intro!: IH dest: el)
    ultimately show ?thesis unfolding InExpr ab(3) using ab(2) by (intro text_of_in)
  next
    case (CallExpr t name args ty cast)
    show ?thesis
    proof (cases cast)
      case True
      then obtain d where "args = [d]" using less.prems(1) CallExpr by (auto simp: length_Suc_conv)
      then show ?thesis using less.prems CallExpr True
        by (auto elim!: then_text_Inr intro!: text_of_cast [simplified] IH)
    next
      case False
      then obtain a where a: "listText args = Inr a" "s = name @ ''('' @ a @ '')''"
        using less.prems(2) CallExpr by (auto elim!: then_text_Inr)
      have "is_word name" using less.prems(1) CallExpr False by (simp add: name_ok_def)
      moreover have "text_of d c" if "d \<in> set args" "expressionToString d = Inr c" for d c
        using that less.prems(1) CallExpr by (auto intro!: IH dest: el)
      ultimately show ?thesis using False a(1) unfolding CallExpr a(2)
        by (simp add: text_of_call [simplified])
    qed
  next
    case (CaseExpr t bs els)
    have br: "text_of d c" if "d \<in> fst ` set bs \<union> snd ` set bs" "expressionToString d = Inr c" for d c
    proof (rule IH [OF _ _ that(2)])
      from that(1) obtain w v where wv: "(w, v) \<in> set bs" "d = w \<or> d = v" by auto
      then show "size d < size e" using branch_size [OF wv(1)] CaseExpr by auto
      show "renderable d" using wv less.prems(1) CaseExpr by auto
    qed
    obtain a where a: "branchText bs = Inr a" using less.prems(2) CaseExpr by (auto elim: then_text_Inr)
    show ?thesis
    proof (cases els)
      case None
      then show ?thesis using text_of_case [where els = els and b = "[]", OF br a] less.prems CaseExpr a by (simp add: then_text_def)
    next
      case (Some d)
      then obtain b where b: "expressionToString d = Inr b" using less.prems(2) CaseExpr a
        by (auto simp: then_text_def split: sum.splits)
      have "text_of d b" using Some b less.prems(1) CaseExpr by (auto intro!: IH)
      then show ?thesis using text_of_case [where els = els and b = b, OF br a] less.prems(2) CaseExpr a b Some
        by (simp add: then_text_def)
    qed
  qed (use less.prems in \<open>auto elim!: then_text_Inr
      intro!: IH text_of_literal text_of_column [simplified] text_of_binary [simplified] text_of_arithmetic [simplified]
        text_of_logical [simplified] text_of_not [simplified] text_of_is_null [simplified] text_of_between [simplified]
        text_of_like [simplified] split del: if_split\<close>)
qed

end
