(* ===== verification/ExprParse.thy ===== *)
theory ExprParse
  imports ExprText
begin

text \<open>
  What the parser makes of the tokens of an expression. \<open>gives m p T x F\<close>: with at most \<open>m\<close> tokens
  left, of which the first are \<open>T\<close> and the next is none of the types \<open>F\<close>, the parser \<open>p\<close> consumes
  \<open>T\<close> and returns \<open>x\<close>. The rules go through the definitions as those of \<open>ParserTotal\<close> do; a
  method of the grammar at depth \<open>n\<close> is used with \<open>m = n\<close>.
\<close>

section \<open>Rules\<close>

definition gives :: "nat \<Rightarrow> 'a parser \<Rightarrow> (token_type \<times> string) list \<Rightarrow> 'a \<Rightarrow> token_type set \<Rightarrow> bool" where
  "gives m p T x F \<longleftrightarrow>
     (\<forall>s ts. length (rest s) \<le> m \<longrightarrow> lexemes (rest s) = T @ ts \<longrightarrow> ts \<noteq> [] \<longrightarrow> fst (hd ts) \<notin> F \<longrightarrow>
        (\<exists>s'. p s = Inr (x, s') \<and> lexemes (rest s') = ts))"

definition absent :: "token_type \<Rightarrow> (token_type \<times> string) list \<Rightarrow> token_type set \<Rightarrow> bool" where
  "absent t T F \<longleftrightarrow> (case T of [] \<Rightarrow> t \<in> F | u # _ \<Rightarrow> fst u \<noteq> t)"

definition goes_on :: "token_type set \<Rightarrow> (token_type \<times> string) list \<Rightarrow> token_type set \<Rightarrow> bool" where
  "goes_on F1 T F \<longleftrightarrow> (case T of [] \<Rightarrow> F1 \<subseteq> F | u # _ \<Rightarrow> fst u \<notin> F1)"

lemma absent_simps [simp]:
  "absent t [] F \<longleftrightarrow> t \<in> F" "absent t (u # T) F \<longleftrightarrow> fst u \<noteq> t"
  "goes_on F1 [] F \<longleftrightarrow> F1 \<subseteq> F" "goes_on F1 (u # T) F \<longleftrightarrow> fst u \<notin> F1"
  by (simp_all add: absent_def goes_on_def)

lemma givesI:
  "(\<And>s ts. length (rest s) \<le> m \<Longrightarrow> lexemes (rest s) = T @ ts \<Longrightarrow> ts \<noteq> [] \<Longrightarrow> fst (hd ts) \<notin> F \<Longrightarrow>
     \<exists>s'. p s = Inr (x, s') \<and> lexemes (rest s') = ts) \<Longrightarrow> gives m p T x F"
  by (simp add: gives_def)

lemma givesD:
  assumes "gives m p T x F" "length (rest s) \<le> m" "lexemes (rest s) = T @ ts" "ts \<noteq> []" "fst (hd ts) \<notin> F"
  obtains s' where "p s = Inr (x, s')" "lexemes (rest s') = ts"
  using assms unfolding gives_def by blast

lemma gives_mono: "gives m p T x F \<Longrightarrow> j \<le> m \<Longrightarrow> F \<subseteq> F' \<Longrightarrow> gives j p T x F'"
  unfolding gives_def by (meson le_trans subsetD)

lemma gives_return: "gives m (p_return x) [] x F"
  by (simp add: gives_def p_return_def)

lemma lexemes_Cons:
  "lexemes us = (t, x) # ts \<Longrightarrow> \<exists>u vs. us = u # vs \<and> tok_type u = t \<and> lexeme u = x \<and> lexemes vs = ts"
  by auto

text \<open>A step that looks at the tokens and moves on.\<close>

lemma gives_step:
  assumes "\<And>s ts. lexemes (rest s) = T @ ts \<Longrightarrow> ts \<noteq> [] \<Longrightarrow> fst (hd ts) \<notin> F \<Longrightarrow>
      \<exists>s'. p s = Inr (z s, s') \<and> lexemes (rest s') = T' @ ts \<and> length (rest s') \<le> length (rest s) - d \<and>
        gives (m - d) (f (z s)) T' y F"
  shows "gives m (p_bind p f) T y F"
proof (rule givesI)
  fix s :: cursor and ts
  assume s: "length (rest s) \<le> m" "lexemes (rest s) = T @ ts" "ts \<noteq> []" "fst (hd ts) \<notin> F"
  from assms [OF s(2-4)] obtain s1 where z: "p s = Inr (z s, s1)" "lexemes (rest s1) = T' @ ts"
    "length (rest s1) \<le> length (rest s) - d" "gives (m - d) (f (z s)) T' y F" by blast
  have "length (rest s1) \<le> m - d" using z(3) s(1) by simp
  from givesD [OF z(4) this z(2) s(3,4)] obtain s2 where "f (z s) s1 = Inr (y, s2)" "lexemes (rest s2) = ts" .
  then show "\<exists>s'. p_bind p f s = Inr (y, s') \<and> lexemes (rest s') = ts"
    by (simp add: p_bind_simps(2) [of p, OF z(1)])
qed

lemma gives_peek:
  assumes "\<And>s ts. lexemes (rest s) = T @ ts \<Longrightarrow> ts \<noteq> [] \<Longrightarrow> fst (hd ts) \<notin> F \<Longrightarrow>
      p s = Inr (z s, s) \<and> gives m (f (z s)) T y F"
  shows "gives m (p_bind p f) T y F"
proof (rule gives_step [where T' = T and d = 0 and z = z])
  fix s :: cursor and ts
  assume s: "lexemes (rest s) = T @ ts" "ts \<noteq> []" "fst (hd ts) \<notin> F"
  note p = conjunct1 [OF assms [OF s]] and g = conjunct2 [OF assms [OF s]]
  show "\<exists>s'. p s = Inr (z s, s') \<and> lexemes (rest s') = T @ ts \<and>
      length (rest s') \<le> length (rest s) - 0 \<and> gives (m - 0) (f (z s)) T y F"
    unfolding diff_zero by (intro exI [of _ s] conjI p s(1) g order_refl)
qed

lemma gives_eat:
  assumes "\<And>s k ks. rest s = k # ks \<Longrightarrow> tok_type k = fst u \<Longrightarrow> lexeme k = snd u \<Longrightarrow>
      p s = Inr (z s, \<lparr>prev = k, rest = ks\<rparr>) \<and> gives (m - 1) (f (z s)) T y F"
  shows "gives m (p_bind p f) (u # T) y F"
proof (rule gives_step [where T' = T and d = 1 and z = z])
  fix s :: cursor and ts
  assume "lexemes (rest s) = (u # T) @ ts"
  then have "lexemes (rest s) = (fst u, snd u) # T @ ts" by simp
  from lexemes_Cons [OF this] obtain k ks where
    k: "rest s = k # ks" "tok_type k = fst u" "lexeme k = snd u" "lexemes ks = T @ ts" by blast
  note p = conjunct1 [OF assms [OF k(1-3)]] and g = conjunct2 [OF assms [OF k(1-3)]]
  show "\<exists>s'. p s = Inr (z s, s') \<and> lexemes (rest s') = T @ ts \<and> length (rest s') \<le> length (rest s) - 1 \<and>
      gives (m - 1) (f (z s)) T y F"
    by (intro exI [of _ "\<lparr>prev = k, rest = ks\<rparr>"] conjI p g) (simp_all add: k)
qed

lemma gives_bind:
  assumes "gives m p T1 x F1" "gives m (f x) T2 y F" "goes_on F1 T2 F"
  shows "gives m (p_bind p f) (T1 @ T2) y F"
proof (rule givesI)
  fix s :: cursor and ts
  assume s: "length (rest s) \<le> m" "lexemes (rest s) = (T1 @ T2) @ ts" "ts \<noteq> []" "fst (hd ts) \<notin> F"
  have ts: "T2 @ ts \<noteq> []" "fst (hd (T2 @ ts)) \<notin> F1"
    using s(3,4) assms(3) by (auto simp: goes_on_def split: list.splits)
  have eq: "lexemes (rest s) = T1 @ T2 @ ts" using s(2) by simp
  obtain s1 where s1: "p s = Inr (x, s1)" "lexemes (rest s1) = T2 @ ts"
    by (rule givesD [OF assms(1) s(1) eq ts])
  have "length (rest s1) \<le> length (rest s)"
    using arg_cong [OF s1(2), of length] arg_cong [OF eq, of length] by simp
  then have "length (rest s1) \<le> m" using s(1) by simp
  from givesD [OF assms(2) this s1(2) s(3,4)] obtain s2 where "f x s1 = Inr (y, s2)" "lexemes (rest s2) = ts" .
  then show "\<exists>s'. p_bind p f s = Inr (y, s') \<and> lexemes (rest s') = ts"
    by (simp add: p_bind_simps(2) [of p, OF s1(1)])
qed

lemma peek_hd:
  assumes "lexemes (rest s) = T @ ts" "ts \<noteq> []"
  shows "tok_type (peek s) = fst (hd (T @ ts))" "lexeme (peek s) = snd (hd (T @ ts))"
proof -
  obtain u us where "rest s = u # us" using assms by (cases "rest s") auto
  moreover from this have "hd (T @ ts) = (tok_type u, lexeme u)" using assms(1) by (metis list.sel(1) list.simps(9))
  ultimately show "tok_type (peek s) = fst (hd (T @ ts))" "lexeme (peek s) = snd (hd (T @ ts))"
    by (simp_all add: peek_def)
qed

lemma peek_absent:
  assumes "absent t T F" "lexemes (rest s) = T @ ts" "ts \<noteq> []" "fst (hd ts) \<notin> F"
  shows "tok_type (peek s) \<noteq> t"
  using peek_hd(1) [OF assms(2,3)] assms(1,4) by (cases T) auto

lemma peekAt_1: "lexemes (rest s) = u # v # T \<Longrightarrow> tok_type (peekAt 1 s) = fst v"
  by (auto simp: peekAt_def)

lemma gives_accept:
  assumes "fst u = t" "t \<noteq> T_END_OF_FILE" "gives (m - 1) (f True) T y F"
  shows "gives m (p_bind (accept t) f) (u # T) y F"
proof (rule gives_eat [where z = "\<lambda>_. True"])
  fix s :: cursor and k ks
  assume "rest s = k # ks" "tok_type k = fst u"
  then show "accept t s = Inr (True, \<lparr>prev = k, rest = ks\<rparr>) \<and> gives (m - 1) (f True) T y F"
    using accept_hit [OF assms(2), of k s ks] assms(1,3) by simp
qed

lemma gives_skip:
  assumes "absent t T F" "gives m (f False) T y F"
  shows "gives m (p_bind (accept t) f) T y F"
proof (rule gives_peek [where z = "\<lambda>_. False"])
  fix s :: cursor and ts
  assume "lexemes (rest s) = T @ ts" "ts \<noteq> []" "fst (hd ts) \<notin> F"
  from peek_absent [OF assms(1) this] show "accept t s = Inr (False, s) \<and> gives m (f False) T y F"
    using assms(2) by (simp add: accept_other)
qed

lemma gives_check:
  assumes "fst u = t" "gives m (f True) (u # T) y F"
  shows "gives m (p_bind (check t) f) (u # T) y F"
proof (rule gives_peek [where z = "\<lambda>_. True"])
  fix s :: cursor and ts
  assume "lexemes (rest s) = (u # T) @ ts" "ts \<noteq> []"
  from peek_hd(1) [OF this] show "check t s = Inr (True, s) \<and> gives m (f True) (u # T) y F"
    using assms by (simp add: check_def)
qed

lemma gives_check_no:
  assumes "absent t T F" "gives m (f False) T y F"
  shows "gives m (p_bind (check t) f) T y F"
proof (rule gives_peek [where z = "\<lambda>_. False"])
  fix s :: cursor and ts
  assume "lexemes (rest s) = T @ ts" "ts \<noteq> []" "fst (hd ts) \<notin> F"
  from peek_absent [OF assms(1) this] show "check t s = Inr (False, s) \<and> gives m (f False) T y F"
    using assms(2) by (simp add: check_def)
qed

lemma gives_check_at_any:
  assumes "\<And>b. gives m (f b) T y F"
  shows "gives m (p_bind (check_at n P) f) T y F"
  by (rule gives_peek [where z = "\<lambda>s. P (tok_type (peekAt n s))"]) (simp add: check_at_def assms)

lemma gives_check_at:
  assumes "gives m (f (P (fst v))) (u # v # T) y F"
  shows "gives m (p_bind (check_at 1 P) f) (u # v # T) y F"
proof (rule gives_peek [where z = "\<lambda>_. P (fst v)"])
  fix s :: cursor and ts
  assume "lexemes (rest s) = (u # v # T) @ ts"
  then have "lexemes (rest s) = u # v # T @ ts" by simp
  from peekAt_1 [OF this] show "check_at 1 P s = Inr (P (fst v), s) \<and> gives m (f (P (fst v))) (u # v # T) y F"
    using assms by (simp add: check_at_def)
qed

lemma gives_check_at_last:
  assumes "\<And>t. P t \<Longrightarrow> t \<in> F" "gives m (f False) [u] y F"
  shows "gives m (p_bind (check_at 1 P) f) [u] y F"
proof (rule gives_peek [where z = "\<lambda>_. False"])
  fix s :: cursor and ts
  assume s: "lexemes (rest s) = [u] @ ts" "ts \<noteq> []" "fst (hd ts) \<notin> F"
  then have "lexemes (rest s) = u # hd ts # tl ts" by simp
  from peekAt_1 [OF this] show "check_at 1 P s = Inr (False, s) \<and> gives m (f False) [u] y F"
    using s(3) assms by (auto simp: check_at_def)
qed

lemma gives_look:
  assumes "\<And>k. tok_type k = fst u \<Longrightarrow> lexeme k = snd u \<Longrightarrow> gives m (f k) (u # T) y F"
  shows "gives m (p_bind look f) (u # T) y F"
proof (rule gives_peek [where z = peek])
  fix s :: cursor and ts
  assume "lexemes (rest s) = (u # T) @ ts" "ts \<noteq> []"
  from peek_hd [OF this] show "look s = Inr (peek s, s) \<and> gives m (f (peek s)) (u # T) y F"
    using assms by (simp add: look_def)
qed

lemma gives_look_end:
  assumes "\<And>k. tok_type k \<notin> F \<Longrightarrow> gives m (f k) [] y F"
  shows "gives m (p_bind look f) [] y F"
proof (rule gives_peek [where z = peek])
  fix s :: cursor and ts
  assume s: "lexemes (rest s) = [] @ ts" "ts \<noteq> []" "fst (hd ts) \<notin> F"
  from peek_hd(1) [OF s(1,2)] s(3) show "look s = Inr (peek s, s) \<and> gives m (f (peek s)) [] y F"
    using assms by (simp add: look_def)
qed

lemma gives_advance:
  assumes "fst u \<noteq> T_END_OF_FILE"
    and "\<And>k. tok_type k = fst u \<Longrightarrow> lexeme k = snd u \<Longrightarrow> gives (m - 1) (f k) T y F"
  shows "gives m (p_bind advance f) (u # T) y F"
  by (rule gives_eat [where z = peek]) (use assms in \<open>simp add: advance_def isAtEnd_def peek_def\<close>)

lemma consume_hit: "tok_type (peek s) = t \<Longrightarrow> consume t what s = advance s"
  by (simp add: consume_def p_bind_def check_def)

lemma gives_consume:
  assumes "fst u = t" "t \<noteq> T_END_OF_FILE"
    and "\<And>k. tok_type k = fst u \<Longrightarrow> lexeme k = snd u \<Longrightarrow> gives (m - 1) (f k) T y F"
  shows "gives m (p_bind (consume t what) f) (u # T) y F"
  by (rule gives_eat [where z = peek])
    (use assms in \<open>simp add: consume_hit advance_def isAtEnd_def peek_def\<close>)

lemma gives_consume_lexeme:
  assumes "fst u = t" "t \<noteq> T_END_OF_FILE" "gives (m - 1) (f (snd u)) T y F"
  shows "gives m (p_bind (consume_lexeme t what) f) (u # T) y F"
proof -
  have eq: "p_bind (consume_lexeme t what) f = p_bind (consume t what) (\<lambda>k. f (lexeme k))"
    by (rule ext) (simp add: consume_lexeme_def p_bind_def p_return_def split: sum.splits prod.splits)
  show ?thesis unfolding eq by (rule gives_consume) (use assms in simp_all)
qed

lemma gives_lparen: "(\<And>k. gives (m - 1) (f k) T y F) \<Longrightarrow> gives m (p_bind lparen f) (lp # T) y F"
  unfolding lparen_def by (rule gives_consume) (simp_all add: lp_def)

lemma gives_rparen: "(\<And>k. gives (m - 1) (f k) T y F) \<Longrightarrow> gives m (p_bind rparen f) (rp # T) y F"
  unfolding rparen_def by (rule gives_consume) (simp_all add: rp_def)

text \<open>Branches on a token.\<close>

lemma skip_if: "absent t T F \<Longrightarrow> gives m q T y F \<Longrightarrow> gives m (p_bind (accept t) (\<lambda>b. if b then p else q)) T y F"
  by (rule gives_skip) simp_all

lemma hit_if: "fst u = t \<Longrightarrow> t \<noteq> T_END_OF_FILE \<Longrightarrow> gives (m - 1) p T y F \<Longrightarrow>
    gives m (p_bind (accept t) (\<lambda>b. if b then p else q)) (u # T) y F"
  by (rule gives_accept) simp_all

lemma check_if_no: "absent t T F \<Longrightarrow> gives m q T y F \<Longrightarrow> gives m (p_bind (check t) (\<lambda>b. if b then p else q)) T y F"
  by (rule gives_check_no) simp_all

lemma check_if_yes: "fst u = t \<Longrightarrow> gives m p (u # T) y F \<Longrightarrow>
    gives m (p_bind (check t) (\<lambda>b. if b then p else q)) (u # T) y F"
  by (rule gives_check) simp_all

lemma p_bind_return [simp]: "p_bind (p_return x) f = f x"
  by (rule ext) (simp add: p_bind_def p_return_def)

lemma p_bind_assoc: "p_bind (p_bind p f) h = p_bind p (\<lambda>x. p_bind (f x) h)"
  by (rule ext) (simp add: p_bind_def split: sum.split prod.split)

lemma gives_if_no: "\<not> b \<Longrightarrow> gives m q T y F \<Longrightarrow> gives m (if b then p else q) T y F"
  by simp

lemma gives_if_yes: "b \<Longrightarrow> gives m p T y F \<Longrightarrow> gives m (if b then p else q) T y F"
  by simp

lemma gives_tail: "gives m p T x F1 \<Longrightarrow> F1 \<subseteq> F \<Longrightarrow> (\<And>n. gives n (f x) [] y F) \<Longrightarrow> gives m (p_bind p f) T y F"
  using gives_bind [of m p T x F1 f "[]"] by simp

text \<open>Loops.\<close>

lemma comma_rounds_gives:
  assumes "T_COMMA \<notin> F0" "F0 \<subseteq> F" "T_COMMA \<in> F"
  shows "\<forall>z\<in>set Txs. gives m p (fst z) (snd z) F0 \<Longrightarrow> Txs \<noteq> [] \<Longrightarrow> length Txs \<le> n \<Longrightarrow>
    gives m (comma_rounds n p) (commas (map fst Txs)) (map snd Txs) F"
proof (induction Txs arbitrary: n)
  case Nil
  then show ?case by simp
next
  case (Cons Tx Txs)
  obtain T x where Tx: "Tx = (T, x)" by (cases Tx)
  obtain k where n: "n = Suc k" using Cons.prems(3) by (cases n) auto
  have p: "gives m p T x F0" using Cons.prems(1) Tx by simp
  show ?case
  proof (cases "Txs = []")
    case True
    have "gives m (p_bind p (\<lambda>x. p_bind (accept T_COMMA) (\<lambda>b.
        if b then p_bind (comma_rounds k p) (\<lambda>xs. p_return (x # xs)) else p_return [x]))) (T @ []) [x] F"
      by (rule gives_bind [OF p]) (auto intro!: gives_skip gives_return simp: assms)
    then show ?thesis using Tx n True by simp
  next
    case False
    have "gives m (comma_rounds k p) (commas (map fst Txs)) (map snd Txs) F"
      using Cons.IH [OF _ False] Cons.prems n by simp
    then have r: "gives (m - 1) (comma_rounds k p) (commas (map fst Txs)) (map snd Txs) F"
      by (rule gives_mono) simp_all
    have "gives (m - 1) (p_bind (comma_rounds k p) (\<lambda>xs. p_return (x # xs)))
        (commas (map fst Txs) @ []) (x # map snd Txs) F"
      by (rule gives_bind [OF r gives_return]) simp
    then have "gives m (p_bind p (\<lambda>x. p_bind (accept T_COMMA) (\<lambda>b.
        if b then p_bind (comma_rounds k p) (\<lambda>xs. p_return (x # xs)) else p_return [x])))
        (T @ (T_COMMA, '','') # commas (map fst Txs)) (x # map snd Txs) F"
      by (intro gives_bind [OF p] gives_accept) (simp_all add: assms)
    moreover obtain Ty Tys where "Txs = Ty # Tys" using False by (cases Txs) auto
    ultimately show ?thesis using Tx n by simp
  qed
qed

lemma length_commas: "\<forall>T\<in>set Ts. T \<noteq> [] \<Longrightarrow> length Ts \<le> length (commas Ts)"
  by (induction Ts rule: commas.induct) (auto simp: Suc_le_eq)

lemma comma_list_gives:
  assumes "\<forall>z\<in>set Txs. gives m p (fst z) (snd z) F0 \<and> fst z \<noteq> []" "T_COMMA \<notin> F0" "F0 \<subseteq> F" "T_COMMA \<in> F"
    and "Txs \<noteq> []"
  shows "gives m (comma_list p) (commas (map fst Txs)) (map snd Txs) F"
proof (rule givesI)
  fix s :: cursor and ts
  assume s: "length (rest s) \<le> m" "lexemes (rest s) = commas (map fst Txs) @ ts" "ts \<noteq> []" "fst (hd ts) \<notin> F"
  have "length (map fst Txs) \<le> length (commas (map fst Txs))" by (rule length_commas) (use assms(1) in auto)
  then have "length Txs \<le> Suc (length (rest s))" using arg_cong [OF s(2), of length] by simp
  with comma_rounds_gives [OF assms(2-4) _ assms(5)] assms(1)
  have "gives m (comma_rounds (Suc (length (rest s))) p) (commas (map fst Txs)) (map snd Txs) F" by blast
  from givesD [OF this s] show "\<exists>s'. comma_list p s = Inr (map snd Txs, s') \<and> lexemes (rest s') = ts"
    unfolding comma_list_def by metis
qed

lemma rounds_stop:
  assumes "gives m (step x) [] None F"
  shows "gives m (rounds (Suc n) step x) [] x F"
proof -
  have "gives m (p_bind (step x) (\<lambda>r. case r of None \<Rightarrow> p_return x | Some y \<Rightarrow> rounds n step y)) ([] @ []) x F"
    by (rule gives_bind [OF assms]) (simp_all add: gives_return)
  then show ?thesis by simp
qed

lemma repeat_stop:
  assumes "gives m (step x) [] None F"
  shows "gives m (repeat_step step x) [] x F"
proof (rule givesI)
  fix s :: cursor and ts
  assume s: "length (rest s) \<le> m" "lexemes (rest s) = [] @ ts" "ts \<noteq> []" "fst (hd ts) \<notin> F"
  from givesD [OF rounds_stop [where step = step, OF assms] s]
  show "\<exists>s'. repeat_step step x s = Inr (x, s') \<and> lexemes (rest s') = ts"
    unfolding repeat_step_def by metis
qed

lemma repeat_once:
  assumes "gives m (step x) T (Some y) F'" "T \<noteq> []" "gives m (step y) [] None F" "F' \<subseteq> F"
  shows "gives m (repeat_step step x) T y F"
proof (rule givesI)
  fix s :: cursor and ts
  assume s: "length (rest s) \<le> m" "lexemes (rest s) = T @ ts" "ts \<noteq> []" "fst (hd ts) \<notin> F"
  have "length (rest s) \<noteq> 0" using s(2) assms(2) by (cases "rest s") auto
  then obtain k where k: "length (rest s) = Suc k" by (cases "length (rest s)") auto
  have "gives m (p_bind (step x) (\<lambda>r. case r of None \<Rightarrow> p_return x | Some y \<Rightarrow> rounds (Suc k) step y)) (T @ []) y F"
    by (rule gives_bind [OF assms(1)]) (use rounds_stop [where step = step, OF assms(3)] assms(4) in auto)
  then have g: "gives m (rounds (Suc (length (rest s))) step x) T y F" by (simp add: k)
  from givesD [OF this s] show "\<exists>s'. repeat_step step x s = Inr (y, s') \<and> lexemes (rest s') = ts"
    unfolding repeat_step_def by metis
qed

lemma rounds_collect:
  assumes "\<And>acc. gives m (step acc) [] None F" "F' \<subseteq> F"
  shows "\<forall>z\<in>set Tbs. (\<forall>acc. gives m (step acc) (fst z) (Some (acc @ [snd z])) F') \<and> fst z \<noteq> [] \<and>
      fst (hd (fst z)) \<notin> F' \<Longrightarrow> length Tbs < n \<Longrightarrow>
    gives m (rounds n step acc) (concat (map fst Tbs)) (acc @ map snd Tbs) F"
proof (induction Tbs arbitrary: n acc)
  case Nil
  then obtain k where "n = Suc k" by (cases n) auto
  then show ?case using rounds_stop [where step = step, OF assms(1)] by simp
next
  case (Cons Tb Tbs)
  obtain T b where Tb: "Tb = (T, b)" by (cases Tb)
  obtain k where k: "n = Suc k" "length Tbs < k" using Cons.prems(2) by (cases n) auto
  have step: "gives m (step acc) T (Some (acc @ [b])) F'" using Cons.prems(1) Tb by simp
  have rest': "gives m (rounds k step (acc @ [b])) (concat (map fst Tbs)) ((acc @ [b]) @ map snd Tbs) F"
    by (rule Cons.IH) (use k Cons.prems in auto)
  have fol: "goes_on F' (concat (map fst Tbs)) F"
  proof (cases Tbs)
    case (Cons Tc Tcs)
    then have "fst Tc \<noteq> []" "fst (hd (fst Tc)) \<notin> F'" using Cons.prems(1) by simp_all
    then show ?thesis using Cons by (cases "fst Tc") auto
  qed (simp add: assms(2))
  have "gives m (p_bind (step acc) (\<lambda>r. case r of None \<Rightarrow> p_return acc | Some y \<Rightarrow> rounds k step y))
      (T @ concat (map fst Tbs)) ((acc @ [b]) @ map snd Tbs) F"
    by (rule gives_bind [OF step]) (use rest' fol in simp_all)
  then show ?case using Tb k by simp
qed

lemma length_concat_nonempty: "\<forall>z\<in>set zs. fst z \<noteq> [] \<Longrightarrow> length zs \<le> length (concat (map fst zs))"
proof (induction zs)
  case (Cons z zs)
  then show ?case by (cases "fst z") simp_all
qed simp

lemma repeat_collect:
  assumes "\<And>acc. gives m (step acc) [] None F" "F' \<subseteq> F"
    and "\<forall>z\<in>set Tbs. (\<forall>acc. gives m (step acc) (fst z) (Some (acc @ [snd z])) F') \<and> fst z \<noteq> [] \<and>
      fst (hd (fst z)) \<notin> F'"
  shows "gives m (repeat_step step []) (concat (map fst Tbs)) (map snd Tbs) F"
proof (rule givesI)
  fix s :: cursor and ts
  assume s: "length (rest s) \<le> m" "lexemes (rest s) = concat (map fst Tbs) @ ts" "ts \<noteq> []" "fst (hd ts) \<notin> F"
  have "length Tbs \<le> length (concat (map fst Tbs))" using length_concat_nonempty assms(3) by blast
  then have "length Tbs < Suc (length (rest s))" using arg_cong [OF s(2), of length] by simp
  from rounds_collect [where step = step and acc = "[]", OF assms this]
  have "gives m (rounds (Suc (length (rest s))) step []) (concat (map fst Tbs)) (map snd Tbs) F" by simp
  from givesD [OF this s] show "\<exists>s'. repeat_step step [] s = Inr (map snd Tbs, s') \<and> lexemes (rest s') = ts"
    unfolding repeat_step_def by metis
qed

lemma gives_optional:
  assumes "t \<noteq> T_END_OF_FILE" "fst u = t" "gives (m - 1) p T x F"
  shows "gives m (optional t p) (u # T) (Some x) F"
proof -
  have "gives (m - 1) (p_bind p (\<lambda>x. p_return (Some x))) (T @ []) (Some x) F"
    by (rule gives_bind [OF assms(3) gives_return]) simp
  then show ?thesis unfolding optional_def by (intro gives_accept assms) simp
qed

lemma gives_optional_none: "t \<in> F \<Longrightarrow> gives m (optional t p) [] None F"
  unfolding optional_def by (intro gives_skip) (simp_all add: gives_return)

section \<open>Levels of the grammar\<close>

text \<open>What must not follow an expression read at a level.\<close>

definition unary_end :: "token_type set" where
  "unary_end = {T_DOT, T_LPAREN}"

definition mul_end :: "token_type set" where
  "mul_end = unary_end \<union> {T_STAR, T_SLASH}"

definition add_end :: "token_type set" where
  "add_end = mul_end \<union> {T_PLUS, T_MINUS}"

definition cmp_end :: "token_type set" where
  "cmp_end = add_end \<union> {T_IS, T_NOT, T_IN, T_BETWEEN, T_LIKE, T_EQ, T_NEQ, T_LT, T_LEQ, T_GT, T_GEQ}"

definition and_end :: "token_type set" where
  "and_end = cmp_end \<union> {T_AND}"

definition or_end :: "token_type set" where
  "or_end = and_end \<union> {T_OR}"

lemmas ends = unary_end_def mul_end_def add_end_def cmp_end_def and_end_def or_end_def

text \<open>A method reads the tokens at every depth with the bound that goes with it.\<close>

definition reads :: "(grammar \<Rightarrow> 'a parser) \<Rightarrow> (token_type \<times> string) list \<Rightarrow> 'a \<Rightarrow> token_type set \<Rightarrow> bool" where
  "reads p T x F \<longleftrightarrow> (\<forall>n. gives n (p (grammar_at n)) T x F)"

lemma readsD: "reads p T x F \<Longrightarrow> gives n (p (grammar_at n)) T x F"
  by (simp add: reads_def)

lemma readsI: "(\<And>n. gives n (p (grammar_at n)) T x F) \<Longrightarrow> reads p T x F"
  by (simp add: reads_def)

lemma gives_zero: "gives 0 p T x F"
  by (simp add: gives_def)

lemma reads_knot:
  "reads parseExpression T x F \<Longrightarrow> gives (n - 1) (gExpression (grammar_at n)) T x F"
  "reads parseNot T x F \<Longrightarrow> gives (n - 1) (gNot (grammar_at n)) T x F"
  "reads parseAdditive T x F \<Longrightarrow> gives (n - 1) (gAdditive (grammar_at n)) T x F"
  "reads parseUnary T x F \<Longrightarrow> gives (n - 1) (gUnary (grammar_at n)) T x F"
  by (cases n; simp add: gives_zero reads_def layer_def)+

lemma reads_lift:
  assumes "reads p T x F" "\<And>n. gives n (step (grammar_at n) x) [] None F'" "F \<subseteq> F'"
  shows "reads (\<lambda>g. p_bind (p g) (repeat_step (step g))) T x F'"
  unfolding reads_def
proof
  fix n
  have "gives n (p_bind (p (grammar_at n)) (repeat_step (step (grammar_at n)))) (T @ []) x F'"
    by (rule gives_bind [OF readsD [OF assms(1)]]) (simp_all add: repeat_stop assms(2,3))
  then show "gives n (p_bind (p (grammar_at n)) (repeat_step (step (grammar_at n)))) T x F'" by simp
qed

lemma reads_multiplicative:
  "reads parseUnary T x unary_end \<Longrightarrow> reads parseMultiplicative T x mul_end"
  unfolding parseMultiplicative_def
  by (rule reads_lift)
    (auto simp: multiplicative_step_def ends intro!: gives_skip gives_return)

lemma reads_additive:
  "reads parseMultiplicative T x mul_end \<Longrightarrow> reads parseAdditive T x add_end"
  unfolding parseAdditive_def
  by (rule reads_lift) (auto simp: additive_step_def ends intro!: gives_skip gives_return)

lemma gives_cmp_end:
  "gives m (p_bind look (\<lambda>t. if isComparisonToken (tok_type t) then p t else p_return x)) [] x cmp_end"
  by (rule gives_look_end) (auto simp: isComparisonToken_def ends gives_return)

lemma comparison_end: "gives m (p_bind (accept T_IS) (\<lambda>is. if is then p else
       p_bind (check T_NOT) (\<lambda>neg. p_bind (check_at 1 P) (\<lambda>op.
       p_bind (if neg \<and> op then p_bind advance (\<lambda>_. p_return True) else p_return False) (\<lambda>negated.
       p_bind (accept T_IN) (\<lambda>inn. if inn then a negated else p_bind (accept T_BETWEEN) (\<lambda>btw.
       if btw then b negated else p_bind (accept T_LIKE) (\<lambda>lik. if lik then c negated else p_bind look (\<lambda>t.
         if isComparisonToken (tok_type t) then d t else p_return x))))))))) [] x cmp_end"
  by (rule skip_if, simp add: ends, rule gives_check_no, simp add: ends, rule gives_check_at_any, simp,
      rule skip_if, simp add: ends, rule skip_if, simp add: ends, rule skip_if, simp add: ends, rule gives_cmp_end)

lemma reads_comparison:
  assumes "reads parseAdditive T x add_end"
  shows "reads parseComparison T x cmp_end"
proof (rule readsI)
  fix n
  show "gives n (parseComparison (grammar_at n)) T x cmp_end"
    unfolding parseComparison_def
    by (rule gives_tail [OF readsD [OF assms]], simp add: ends, rule comparison_end)
qed

lemma reads_not:
  assumes "reads parseComparison T x cmp_end" "T \<noteq> []" "fst (hd T) \<noteq> T_NOT"
  shows "reads parseNot T x cmp_end"
proof (rule readsI)
  fix n
  show "gives n (parseNot (grammar_at n)) T x cmp_end"
    unfolding parseNot_def
    by (rule skip_if [OF _ readsD [OF assms(1)]]) (use assms(2,3) in \<open>cases T; simp\<close>)
qed

lemma reads_and:
  "reads parseNot T x cmp_end \<Longrightarrow> reads parseAnd T x and_end"
  unfolding parseAnd_def
  by (rule reads_lift) (auto simp: and_step_def ends intro!: gives_skip gives_return)

lemma reads_or:
  "reads parseAnd T x and_end \<Longrightarrow> reads parseExpression T x or_end"
  unfolding parseOr_def
  by (rule reads_lift) (auto simp: or_step_def ends intro!: gives_skip gives_return)

text \<open>What an expression starts with, so that no other reading of it is possible.\<close>

definition starts :: "(token_type \<times> string) list \<Rightarrow> bool" where
  "starts T \<longleftrightarrow> T \<noteq> [] \<and> fst (hd T) \<in> {T_LPAREN, T_MINUS, T_INTEGER_LITERAL, T_FLOAT_LITERAL, T_STRING_LITERAL,
     T_TRUE, T_FALSE, T_NULL_LITERAL, T_IDENTIFIER, T_CASE}"

lemma starts_append: "starts T \<Longrightarrow> starts (T @ U)"
  by (cases T) (simp_all add: starts_def)

lemma starts_not: "starts T \<Longrightarrow> T \<noteq> [] \<and> fst (hd T) \<noteq> T_NOT \<and> fst (hd T) \<noteq> T_SELECT \<and> fst (hd T) \<noteq> T_RPAREN"
  by (auto simp: starts_def)

lemma reads_expression_of_comparison:
  "reads parseComparison T x cmp_end \<Longrightarrow> starts T \<Longrightarrow> reads parseExpression T x or_end"
  using starts_not by (blast intro: reads_or reads_and reads_not)

lemma reads_expression_of_unary:
  "reads parseUnary T x unary_end \<Longrightarrow> starts T \<Longrightarrow> reads parseExpression T x or_end"
  by (intro reads_expression_of_comparison reads_comparison reads_additive reads_multiplicative)

lemma reads_unary_of_primary:
  assumes "reads parsePrimary T x unary_end" "T \<noteq> []" "fst (hd T) \<notin> {T_MINUS, T_PLUS}"
  shows "reads parseUnary T x unary_end"
proof (rule readsI)
  fix n
  have "absent T_MINUS T unary_end" "absent T_PLUS T unary_end" using assms(2,3) by (cases T; simp)+
  then show "gives n (parseUnary (grammar_at n)) T x unary_end"
    unfolding parseUnary_def by (intro skip_if readsD [OF assms(1)])
qed

lemma primary_paren:
  assumes "gives (n - 1) (p_bind (gExpression g) (\<lambda>e. p_bind rparen (\<lambda>_. p_return e))) T x F"
    and "absent T_SELECT T F"
  shows "gives n (parsePrimary g) (lp # T) x F"
  unfolding parsePrimary_def
  by (rule check_if_no, simp add: lp_def, rule gives_check_no, simp add: lp_def, rule gives_check_at_any,
      rule gives_if_no, simp, rule skip_if, simp add: lp_def, rule hit_if, simp add: lp_def, simp,
      rule check_if_no, rule assms(2), rule assms(1))

lemma gives_close: "gives m (p_bind rparen (\<lambda>_. p_return x)) [rp] x F"
  by (rule gives_rparen) (rule gives_return)

lemma reads_paren:
  assumes "reads parseExpression T x or_end" "T \<noteq> []" "fst (hd T) \<noteq> T_SELECT"
  shows "reads parseUnary (lp # T @ [rp]) x unary_end"
proof (rule reads_unary_of_primary)
  show "reads parsePrimary (lp # T @ [rp]) x unary_end"
  proof (rule readsI, rule primary_paren)
    fix n
    show "gives (n - 1) (p_bind (gExpression (grammar_at n)) (\<lambda>e. p_bind rparen (\<lambda>_. p_return e))) (T @ [rp]) x unary_end"
      by (rule gives_bind [OF reads_knot(1) [OF assms(1)] gives_close]) (simp add: rp_def ends)
    show "absent T_SELECT (T @ [rp]) unary_end" using assms(2,3) by (cases T) simp_all
  qed
qed (simp_all add: lp_def)

section \<open>Atoms\<close>

lemma primary_token:
  assumes "fst u \<notin> {T_CASE, T_EXISTS, T_LPAREN}" "fst u = T_IDENTIFIER \<Longrightarrow> T_LPAREN \<in> F" "isLiteralToken (fst u) \<or> fst u = T_IDENTIFIER"
    and "\<And>k. tok_type k = fst u \<Longrightarrow> lexeme k = snd u \<Longrightarrow> gives n
      (if isLiteralToken (tok_type k) then p_bind advance (\<lambda>_. p_bind (makeLiteral k) (\<lambda>v. p_return (LiteralExpr None v)))
       else if tok_type k = T_IDENTIFIER then p_bind parseColumnRef (\<lambda>c. p_return (ColumnRef c))
       else error_at k ''expected an expression'') [u] x F"
  shows "gives n (parsePrimary g) [u] x F"
proof -
  have "gives n (p_bind look (\<lambda>k. if isLiteralToken (tok_type k)
       then p_bind advance (\<lambda>_. p_bind (makeLiteral k) (\<lambda>v. p_return (LiteralExpr None v)))
       else if tok_type k = T_IDENTIFIER then p_bind parseColumnRef (\<lambda>c. p_return (ColumnRef c))
       else error_at k ''expected an expression'')) [u] x F"
    by (rule gives_look) (rule assms(4))
  note last = this
  have no: "absent T_CASE [u] F" "absent T_EXISTS [u] F" "absent T_LPAREN [u] F" using assms(1) by auto
  show ?thesis
  proof (cases "fst u = T_IDENTIFIER")
    case True
    show ?thesis
      unfolding parsePrimary_def
      by (rule check_if_no [OF no(1)], rule gives_check [OF True], rule gives_check_at_last,
          use assms(2) True in blast, rule gives_if_no, simp, rule skip_if [OF no(2)], rule skip_if [OF no(3)], rule last)
  next
    case False
    then have ni: "absent T_IDENTIFIER [u] F" by simp
    show ?thesis
      unfolding parsePrimary_def
      by (rule check_if_no [OF no(1)], rule gives_check_no [OF ni], rule gives_check_at_any, rule gives_if_no, simp,
          rule skip_if [OF no(2)], rule skip_if [OF no(3)], rule last)
  qed
qed

lemma primary_literal:
  assumes "isLiteralToken (fst u)" "\<And>k. tok_type k = fst u \<Longrightarrow> lexeme k = snd u \<Longrightarrow> makeLiteral k = p_return v"
  shows "gives n (parsePrimary g) [u] (LiteralExpr None v) F"
proof (rule primary_token)
  fix k :: token
  assume k: "tok_type k = fst u" "lexeme k = snd u"
  have "gives n (p_bind advance (\<lambda>_. p_bind (makeLiteral k) (\<lambda>v. p_return (LiteralExpr None v)))) [u] (LiteralExpr None v) F"
    by (rule gives_advance) (use assms(1) k assms(2) in \<open>auto simp: isLiteralToken_def gives_return\<close>)
  then show "gives n (if isLiteralToken (tok_type k) then p_bind advance (\<lambda>_. p_bind (makeLiteral k) (\<lambda>v. p_return (LiteralExpr None v)))
       else if tok_type k = T_IDENTIFIER then p_bind parseColumnRef (\<lambda>c. p_return (ColumnRef c))
       else error_at k ''expected an expression'') [u] (LiteralExpr None v) F"
    using assms(1) k by simp
qed (use assms(1) in \<open>auto simp: isLiteralToken_def\<close>)

lemma reads_literal_token:
  assumes "isLiteralToken (fst u)" "\<And>k. tok_type k = fst u \<Longrightarrow> lexeme k = snd u \<Longrightarrow> makeLiteral k = p_return v"
  shows "reads parseUnary [u] (LiteralExpr None v) unary_end"
  by (rule reads_unary_of_primary)
    (use assms primary_literal in \<open>auto simp: reads_def isLiteralToken_def\<close>)

text \<open>The parts of the text of a literal: a sign, and a token that \<open>makeLiteral\<close> reads.\<close>

definition signed_val :: "bool \<Rightarrow> val \<Rightarrow> val" where
  "signed_val neg v = (if neg then negated_literal v else v)"

lemma stoll_nat_str: "in_i64 (int n) \<Longrightarrow> stoll (nat_str n) = Some (word_of_int (int n))"
  using stoll_int_str [of "int n"] by (simp add: int_str_def)

lemma lit_toks_split:
  assumes "lit_ok v"
  shows "\<exists>neg u w. lit_toks v = (if neg then [(T_MINUS, ''-'')] else []) @ [u] \<and> v = signed_val neg w \<and>
    isLiteralToken (fst u) \<and> (neg \<longrightarrow> fst u \<in> {T_INTEGER_LITERAL, T_FLOAT_LITERAL} \<and> isNumeric w) \<and>
    (\<forall>k. tok_type k = fst u \<longrightarrow> lexeme k = snd u \<longrightarrow> makeLiteral k = p_return w)"
proof (cases v)
  case (VInt i)
  let ?a = "\<bar>sint i\<bar>"
  have "in_i64 (sint i)" by simp
  then have a: "in_i64 (int (nat ?a))" using assms VInt by (auto simp: in_i64_def lit_ok_def)
  have "makeLiteral k = p_return (VInt (word_of_int ?a))"
    if "tok_type k = T_INTEGER_LITERAL" "lexeme k = nat_str (nat ?a)" for k
    using that stoll_nat_str [OF a] by (simp add: makeLiteral_def toInt64_def)
  moreover have "i = (if sint i < 0 then - word_of_int ?a else word_of_int ?a)"
  proof -
    have "i = word_of_int (sint i)" by simp
    then show ?thesis by (simp only: abs_if) (simp split: if_splits)
  qed
  ultimately show ?thesis using VInt
    by (intro exI [of _ "sint i < 0"] exI [of _ "(T_INTEGER_LITERAL, nat_str (nat ?a))"]
        exI [of _ "VInt (word_of_int ?a)"]) (auto simp: signed_val_def isLiteralToken_def)
next
  case (VDouble d)
  then have "stod (fmt_f (f_abs d)) = Some (f_abs d)" using assms by (simp add: lit_ok_def)
  then have "makeLiteral k = p_return (VDouble (f_abs d))"
    if "tok_type k = T_FLOAT_LITERAL" "lexeme k = fmt_f (f_abs d)" for k
    using that by (simp add: makeLiteral_def toDouble_def)
  moreover have "d = (if f_sign d then f_neg (f_abs d) else f_abs d)"
    using f_neg_abs by (simp add: f_abs_def)
  ultimately show ?thesis using VDouble
    by (intro exI [of _ "f_sign d"] exI [of _ "(T_FLOAT_LITERAL, fmt_f (f_abs d))"]
        exI [of _ "VDouble (f_abs d)"]) (auto simp: signed_val_def isLiteralToken_def)
next
  case (VText t)
  then show ?thesis
    by (intro exI [of _ False] exI [of _ "(T_STRING_LITERAL, t)"] exI [of _ "VText t"])
      (auto simp: signed_val_def isLiteralToken_def makeLiteral_def)
next
  case (VBool b)
  then show ?thesis
    by (intro exI [of _ False] exI [of _ "word_tok (if b then ''TRUE'' else ''FALSE'')"] exI [of _ "VBool b"])
      (auto simp: signed_val_def isLiteralToken_def makeLiteral_def word_tok_def keyword_types)
next
  case VNull
  then show ?thesis
    by (intro exI [of _ False] exI [of _ "word_tok ''NULL''"] exI [of _ VNull])
      (auto simp: signed_val_def isLiteralToken_def makeLiteral_def word_tok_def keyword_types)
qed

lemma reads_literal:
  assumes "lit_ok v"
  shows "reads parseUnary (lit_toks v) (LiteralExpr None v) unary_end"
proof -
  obtain neg u w where u: "lit_toks v = (if neg then [(T_MINUS, ''-'')] else []) @ [u]" "v = signed_val neg w"
    "isLiteralToken (fst u)" "neg \<longrightarrow> isNumeric w"
    "\<And>k. tok_type k = fst u \<Longrightarrow> lexeme k = snd u \<Longrightarrow> makeLiteral k = p_return w"
    using lit_toks_split [OF assms] by blast
  have r: "reads parseUnary [u] (LiteralExpr None w) unary_end"
    by (rule reads_literal_token) (use u(3,5) in blast)+
  show ?thesis
  proof (cases neg)
    case False
    then show ?thesis using u(1,2) r by (simp add: signed_val_def)
  next
    case True
    then have w: "negated_expr (LiteralExpr None w) = LiteralExpr None v"
      using u(2,4) by (cases w) (simp_all add: signed_val_def)
    have neg: "gives (n - 1) (p_bind (gUnary (grammar_at n)) (\<lambda>e. p_return (negated_expr e))) [u]
        (LiteralExpr None v) unary_end" for n
      by (rule gives_tail [OF reads_knot(4) [OF r] order_refl], unfold w, rule gives_return)
    have "gives n (parseUnary (grammar_at n)) ((T_MINUS, ''-'') # [u]) (LiteralExpr None v) unary_end" for n
      unfolding parseUnary_def by (rule hit_if [OF _ _ neg]) simp_all
    then show ?thesis using u(1) True by (simp add: reads_def)
  qed
qed

lemma gives_literal_item:
  assumes "lit_ok v"
  shows "gives m parseLiteral (lit_toks v) (LiteralExpr None v) {}"
proof -
  obtain neg u w where u: "lit_toks v = (if neg then [(T_MINUS, ''-'')] else []) @ [u]" "v = signed_val neg w"
    "isLiteralToken (fst u)" "neg \<longrightarrow> fst u \<in> {T_INTEGER_LITERAL, T_FLOAT_LITERAL}"
    "\<And>k. tok_type k = fst u \<Longrightarrow> lexeme k = snd u \<Longrightarrow> makeLiteral k = p_return w"
    using lit_toks_split [OF assms] by blast
  have last: "gives j (p_bind look (\<lambda>t. if \<not> isLiteralToken (tok_type t) then error_at t ''expected a literal value''
       else p_bind advance (\<lambda>_. p_bind (makeLiteral t) (\<lambda>v.
         p_return (LiteralExpr None (if neg then negated_literal v else v)))))) [u] (LiteralExpr None v) {}" for j
  proof (rule gives_look)
    fix k :: token
    assume k: "tok_type k = fst u" "lexeme k = snd u"
    show "gives j (if \<not> isLiteralToken (tok_type k) then error_at k ''expected a literal value''
       else p_bind advance (\<lambda>_. p_bind (makeLiteral k) (\<lambda>v.
         p_return (LiteralExpr None (if neg then negated_literal v else v))))) [u] (LiteralExpr None v) {}"
      by (rule gives_if_no, use u(3) k in simp, rule gives_advance)
        (use u(2,3,5) k in \<open>auto simp: isLiteralToken_def signed_val_def gives_return\<close>)
  qed
  show ?thesis
  proof (cases neg)
    case True
    note last' = last [unfolded eqTrueI [OF True]]
    have "gives m parseLiteral ((T_MINUS, ''-'') # u # []) (LiteralExpr None v) {}"
      unfolding parseLiteral_def
      by (rule gives_check, simp, rule gives_check_no, simp, rule gives_check_at)
        (use u(4) True last' in \<open>auto intro!: gives_advance simp: p_bind_assoc simp del: if_True\<close>)
    then show ?thesis using u(1) True by simp
  next
    case False
    then have "fst u \<noteq> T_MINUS" "fst u \<noteq> T_PLUS" using u(3) by (auto simp: isLiteralToken_def)
    then have "gives m parseLiteral [u] (LiteralExpr None v) {}"
      unfolding parseLiteral_def
      by (intro gives_check_no gives_check_at_any) (use last [unfolded Eq_FalseI [OF False]] in \<open>simp_all del: if_False\<close>)
    then show ?thesis using u(1) False by simp
  qed
qed

lemma parseColumnRef_gives:
  "fst u = T_IDENTIFIER \<Longrightarrow> T_DOT \<in> F \<Longrightarrow> gives m parseColumnRef [u] (simple_col [] (snd u)) F"
  "fst u = T_IDENTIFIER \<Longrightarrow> fst w = T_IDENTIFIER \<Longrightarrow>
   gives m parseColumnRef [u, (T_DOT, ''.''), w] (simple_col (snd u) (snd w)) F"
  unfolding parseColumnRef_def
  by (rule gives_consume_lexeme, simp, simp, rule skip_if, simp, rule gives_return)
    (rule gives_consume_lexeme, simp, simp, rule hit_if, simp, simp, rule gives_consume_lexeme, simp, simp,
     rule gives_return)

lemma reads_column:
  assumes "col_table c = [] \<or> name_ok (col_table c)" "name_ok (col_column c)"
  shows "reads parseUnary (toks (ColumnRef c)) (bare (ColumnRef c)) unary_end"
proof (cases "col_table c = []")
  case True
  let ?u = "word_tok (col_column c)"
  have u: "fst ?u = T_IDENTIFIER" "snd ?u = col_column c" using assms(2) by (simp_all add: word_tok_def name_ok_def)
  have "gives n (parsePrimary g) [?u] (bare (ColumnRef c)) unary_end" for n g
  proof (rule primary_token)
    fix k :: token
    assume k: "tok_type k = fst ?u" "lexeme k = snd ?u"
    have "gives n (p_bind parseColumnRef (\<lambda>c. p_return (ColumnRef c))) [?u] (bare (ColumnRef c)) unary_end"
      by (rule gives_tail [OF parseColumnRef_gives(1) [OF u(1)] order_refl])
        (simp_all add: u(2) True gives_return ends)
    then show "gives n (if isLiteralToken (tok_type k) then p_bind advance (\<lambda>_. p_bind (makeLiteral k) (\<lambda>v. p_return (LiteralExpr None v)))
       else if tok_type k = T_IDENTIFIER then p_bind parseColumnRef (\<lambda>c. p_return (ColumnRef c))
       else error_at k ''expected an expression'') [?u] (bare (ColumnRef c)) unary_end"
      using k u by (simp add: isLiteralToken_def)
  qed (simp_all add: u ends)
  then have "reads parsePrimary [?u] (bare (ColumnRef c)) unary_end" by (simp add: reads_def)
  then show ?thesis using True reads_unary_of_primary [of "[?u]"] u(1) by simp
next
  case False
  let ?u = "word_tok (col_table c)" and ?w = "word_tok (col_column c)"
  have u: "fst ?u = T_IDENTIFIER" "snd ?u = col_table c" "fst ?w = T_IDENTIFIER" "snd ?w = col_column c"
    using assms False by (simp_all add: word_tok_def name_ok_def)
  have last: "gives n (p_bind look (\<lambda>k. if isLiteralToken (tok_type k)
       then p_bind advance (\<lambda>_. p_bind (makeLiteral k) (\<lambda>v. p_return (LiteralExpr None v)))
       else if tok_type k = T_IDENTIFIER then p_bind parseColumnRef (\<lambda>c. p_return (ColumnRef c))
       else error_at k ''expected an expression'')) [?u, (T_DOT, ''.''), ?w] (bare (ColumnRef c)) unary_end" for n
  proof (rule gives_look)
    fix k :: token
    assume k: "tok_type k = fst ?u" "lexeme k = snd ?u"
    have "gives n (p_bind parseColumnRef (\<lambda>c. p_return (ColumnRef c))) [?u, (T_DOT, ''.''), ?w] (bare (ColumnRef c)) unary_end"
      by (rule gives_tail [OF parseColumnRef_gives(2) [OF u(1,3)] order_refl])
        (simp add: u(2,4) gives_return)
    then show "gives n (if isLiteralToken (tok_type k) then p_bind advance (\<lambda>_. p_bind (makeLiteral k) (\<lambda>v. p_return (LiteralExpr None v)))
       else if tok_type k = T_IDENTIFIER then p_bind parseColumnRef (\<lambda>c. p_return (ColumnRef c))
       else error_at k ''expected an expression'') [?u, (T_DOT, ''.''), ?w] (bare (ColumnRef c)) unary_end"
      using k u by (simp add: isLiteralToken_def)
  qed
  have "gives n (parsePrimary g) [?u, (T_DOT, ''.''), ?w] (bare (ColumnRef c)) unary_end" for n g
    unfolding parsePrimary_def
    by (rule check_if_no, simp add: u, rule gives_check [OF u(1)], rule gives_check_at, rule gives_if_no, simp,
        rule skip_if, simp add: u, rule skip_if, simp add: u, rule last)
  then have "reads parsePrimary [?u, (T_DOT, ''.''), ?w] (bare (ColumnRef c)) unary_end" by (simp add: reads_def)
  then show ?thesis using False reads_unary_of_primary [of "[?u, (T_DOT, ''.''), ?w]"] u(1) by simp
qed

section \<open>Operators\<close>

lemma reads_infix:
  assumes "reads p T1 x F" "fst u \<notin> F" "F \<subseteq> F'" "\<And>n. gives n (step (grammar_at n) z) [] None F'"
    and "\<And>n. gives n (step (grammar_at n) x) (u # T2) (Some z) F"
  shows "reads (\<lambda>g. p_bind (p g) (repeat_step (step g))) (T1 @ u # T2) z F'"
proof (rule readsI)
  fix n
  let ?g = "grammar_at n"
  have "gives n (repeat_step (step ?g) x) (u # T2) z F'"
    by (rule repeat_once [where F' = F]) (simp_all add: assms(3-5))
  then show "gives n (p_bind (p ?g) (repeat_step (step ?g))) (T1 @ u # T2) z F'"
    by (rule gives_bind [OF readsD [OF assms(1)]]) (simp add: assms(2))
qed

lemma reads_right:
  assumes "reads p T x F"
  shows "gives (n - 1) (p_bind (p (grammar_at n)) (\<lambda>r. p_return (Some (mk r)))) T (Some (mk x)) F"
  by (rule gives_tail [OF gives_mono [OF readsD [OF assms] _ order_refl] order_refl]) (simp_all add: gives_return)

lemma reads_arithmetic:
  assumes "reads parseUnary T1 x unary_end" "reads parseUnary T2 y unary_end" "starts T1"
  shows "reads parseExpression (T1 @ (arith_type op, arithmeticOpName op) # T2) (ArithmeticExpr None op x y) or_end"
proof -
  let ?T = "T1 @ (arith_type op, arithmeticOpName op) # T2" and ?e = "ArithmeticExpr None op x y"
  note mul = reads_multiplicative [OF assms(1)] reads_multiplicative [OF assms(2)]
  have stop: "gives n (multiplicative_step (grammar_at n) e) [] None mul_end" 
    "gives n (additive_step (grammar_at n) e) [] None add_end" for n e
    by (auto simp: multiplicative_step_def additive_step_def ends intro!: skip_if gives_return)
  have "reads parseAdditive ?T ?e add_end"
  proof (cases "op \<in> {Mul, Div}")
    case True
    have "gives n (multiplicative_step (grammar_at n) x) ((arith_type op, arithmeticOpName op) # T2) (Some ?e) unary_end" for n
    proof (cases "op = Mul")
      case True
      show ?thesis unfolding multiplicative_step_def True
        by (rule hit_if [OF _ _ reads_right [OF assms(2)]]) simp_all
    next
      case False
      then have op: "op = Div" using \<open>op \<in> {Mul, Div}\<close> by simp
      show ?thesis unfolding multiplicative_step_def op
        by (rule skip_if, simp, rule hit_if [OF _ _ reads_right [OF assms(2)]]) simp_all
    qed
    note st = this
    have "reads parseMultiplicative ?T ?e mul_end"
      unfolding parseMultiplicative_def
      by (rule reads_infix [where step = multiplicative_step, OF assms(1) _ _ stop(1) st])
        (use True in \<open>auto simp: ends\<close>)
    then show ?thesis by (rule reads_additive)
  next
    case False
    have "gives n (additive_step (grammar_at n) x) ((arith_type op, arithmeticOpName op) # T2) (Some ?e) mul_end" for n
    proof (cases "op = Add")
      case True
      show ?thesis unfolding additive_step_def True
        by (rule hit_if [OF _ _ reads_right [OF mul(2)]]) simp_all
    next
      case False
      then have op: "op = Sub" using \<open>op \<notin> {Mul, Div}\<close> by (cases op) simp_all
      show ?thesis unfolding additive_step_def op
        by (rule skip_if, simp, rule hit_if [OF _ _ reads_right [OF mul(2)]]) simp_all
    qed
    note st = this
    show ?thesis
      unfolding parseAdditive_def
      by (rule reads_infix [where step = additive_step, OF mul(1) _ _ stop(2) st])
        (use False in \<open>cases op; simp add: ends\<close>)+
  qed
  then show ?thesis
    by (intro reads_expression_of_comparison reads_comparison) (use starts_append [OF assms(3)] in simp_all)
qed

lemma reads_logical:
  assumes "reads parseUnary T1 x unary_end" "reads parseUnary T2 y unary_end" "starts T1" "starts T2"
  shows "reads parseExpression (T1 @ word_tok (if op = OpAnd then ''AND'' else ''OR'') # T2) (LogicalExpr None op x y) or_end"
proof -
  let ?e = "LogicalExpr None op x y"
  have nots: "reads parseNot T1 x cmp_end" "reads parseNot T2 y cmp_end"
    using assms starts_not by (blast intro: reads_not reads_comparison reads_additive reads_multiplicative)+
  show ?thesis
  proof (cases op)
    case OpAnd
    have "gives n (and_step (grammar_at n) x) (word_tok ''AND'' # T2) (Some ?e) cmp_end" for n
      unfolding and_step_def OpAnd
      by (rule hit_if [OF _ _ reads_right [OF nots(2)]]) (simp_all add: word_tok_def keyword_types)
    note st = this
    have "reads parseAnd (T1 @ word_tok ''AND'' # T2) ?e and_end"
      unfolding parseAnd_def
      by (rule reads_infix [where step = and_step, OF nots(1) _ _ _ st])
        (auto simp: word_tok_def keyword_types and_step_def ends intro!: skip_if gives_return)
    then show ?thesis using OpAnd reads_or by simp
  next
    case OpOr
    note ands = reads_and [OF nots(1)] reads_and [OF nots(2)]
    have "gives n (or_step (grammar_at n) x) (word_tok ''OR'' # T2) (Some ?e) and_end" for n
      unfolding or_step_def OpOr
      by (rule hit_if [OF _ _ reads_right [OF ands(2)]]) (simp_all add: word_tok_def keyword_types)
    note st = this
    have "reads parseExpression (T1 @ word_tok ''OR'' # T2) ?e or_end"
      unfolding parseOr_def
      by (rule reads_infix [where step = or_step, OF ands(1) _ _ _ st])
        (auto simp: word_tok_def keyword_types or_step_def ends intro!: skip_if gives_return)
    then show ?thesis using OpOr by simp
  qed
qed

lemma reads_negation:
  assumes "reads parseUnary T x unary_end" "starts T"
  shows "reads parseExpression (word_tok ''NOT'' # T) (UnaryExpr None x) or_end"
proof -
  have "reads parseNot T x cmp_end"
    using assms starts_not by (blast intro: reads_not reads_comparison reads_additive reads_multiplicative)
  note knot = reads_knot(2) [OF this]
  have "gives n (parseNot (grammar_at n)) (word_tok ''NOT'' # T) (UnaryExpr None x) cmp_end" for n
    unfolding parseNot_def
    by (rule hit_if, simp add: word_tok_def keyword_types, simp, rule gives_tail [OF knot order_refl], rule gives_return)
  then show ?thesis by (intro reads_or reads_and) (simp add: reads_def)
qed

lemma reads_additive_of_unary: "reads parseUnary T x unary_end \<Longrightarrow> reads parseAdditive T x add_end"
  by (intro reads_additive reads_multiplicative)

lemma gives_additive:
  "reads parseUnary T x unary_end \<Longrightarrow> j \<le> n \<Longrightarrow> gives j (parseAdditive (grammar_at n)) T x add_end"
  by (rule gives_mono [OF readsD [OF reads_additive_of_unary] _ order_refl])

lemma reads_comparison_tail:
  assumes "reads parseUnary T1 x unary_end" "starts T1" "fst u \<notin> add_end"
    and "\<And>n. gives n (parseComparison (grammar_at n)) (T1 @ u # T2) z cmp_end"
  shows "reads parseExpression (T1 @ u # T2) z or_end"
  using assms(4) starts_append [OF assms(2)]
  by (intro reads_expression_of_comparison) (simp_all add: reads_def)

lemma reads_binary:
  assumes "reads parseUnary T1 x unary_end" "reads parseUnary T2 y unary_end" "starts T1"
  shows "reads parseExpression (T1 @ (op_type op, comparisonOpName op) # T2) (BinaryExpr None op x y) or_end"
proof (rule reads_comparison_tail [OF assms(1,3)])
  let ?u = "(op_type op, comparisonOpName op)"
  show "fst ?u \<notin> add_end" by (cases op) (simp_all add: ends)
  fix n
  let ?g = "grammar_at n"
  have no: "absent t (?u # T2) cmp_end" if "t \<in> {T_IS, T_NOT, T_IN, T_BETWEEN, T_LIKE}" for t
    using that by (cases op) auto
  have cmp: "isComparisonToken (fst ?u)" "toComparisonOp (fst ?u) = op" "fst ?u \<noteq> T_END_OF_FILE"
    by (cases op; simp add: isComparisonToken_def toComparisonOp_def)+
  have right: "gives (n - 1) (p_bind (parseAdditive ?g) (\<lambda>r. p_return (BinaryExpr None op x r))) T2
      (BinaryExpr None op x y) cmp_end"
    by (rule gives_tail [OF gives_additive [OF assms(2)]]) (auto simp: ends gives_return)
  have last: "gives n (p_bind look (\<lambda>t. if isComparisonToken (tok_type t) then
         p_bind advance (\<lambda>_. p_bind (parseAdditive ?g) (\<lambda>r. p_return (BinaryExpr None (toComparisonOp (tok_type t)) x r)))
       else p_return x)) (?u # T2) (BinaryExpr None op x y) cmp_end"
  proof (rule gives_look)
    fix k :: token
    assume k: "tok_type k = fst ?u"
    show "gives n (if isComparisonToken (tok_type k) then
         p_bind advance (\<lambda>_. p_bind (parseAdditive ?g) (\<lambda>r. p_return (BinaryExpr None (toComparisonOp (tok_type k)) x r)))
       else p_return x) (?u # T2) (BinaryExpr None op x y) cmp_end"
      unfolding k cmp(2)
      by (rule gives_if_yes [OF cmp(1)], rule gives_advance [OF cmp(3)], rule right)
  qed
  show "gives n (parseComparison ?g) (T1 @ ?u # T2) (BinaryExpr None op x y) cmp_end"
    unfolding parseComparison_def
    by (rule gives_bind [OF readsD [OF reads_additive_of_unary [OF assms(1)]]], rule skip_if [OF no], simp,
        rule gives_check_no [OF no], simp, rule gives_check_at_any, simp, rule skip_if [OF no], simp,
        rule skip_if [OF no], simp, rule skip_if [OF no], simp, use last in simp, cases op)
      (simp_all add: ends)
qed

lemma reads_is_null:
  assumes "reads parseUnary T x unary_end" "starts T"
  shows "reads parseExpression (T @ word_tok ''IS'' # neg_toks negated @ [word_tok ''NULL'']) (IsNullExpr None x negated) or_end"
proof (rule reads_comparison_tail [OF assms])
  show "fst (word_tok ''IS'') \<notin> add_end" by (simp add: word_tok_def keyword_types ends)
  fix n
  have null: "gives j (p_bind (consume T_NULL_LITERAL ''NULL'') (\<lambda>_. p_return (IsNullExpr None x negated)))
      [word_tok ''NULL''] (IsNullExpr None x negated) cmp_end" for j
    by (rule gives_consume) (simp_all add: word_tok_def keyword_types gives_return)
  have word: "fst (word_tok ''NOT'') = T_NOT" "fst (word_tok ''NULL'') \<noteq> T_NOT"
    by (simp_all add: word_tok_def keyword_types)
  have "gives j (p_bind (accept T_NOT) (\<lambda>negated. p_bind (consume T_NULL_LITERAL ''NULL'') (\<lambda>_.
      p_return (IsNullExpr None x negated)))) (neg_toks negated @ [word_tok ''NULL'']) (IsNullExpr None x negated) cmp_end" for j
  proof (cases negated)
    case True
    have "gives j (p_bind (accept T_NOT) (\<lambda>negated. p_bind (consume T_NULL_LITERAL ''NULL'') (\<lambda>_.
      p_return (IsNullExpr None x negated)))) (word_tok ''NOT'' # [word_tok ''NULL'']) (IsNullExpr None x negated) cmp_end"
      by (rule gives_accept [OF word(1)], simp, use null [of "j - 1"] True in simp)
    then show ?thesis using True by (simp add: neg_toks_def)
  next
    case False
    have "gives j (p_bind (accept T_NOT) (\<lambda>negated. p_bind (consume T_NULL_LITERAL ''NULL'') (\<lambda>_.
      p_return (IsNullExpr None x negated)))) [word_tok ''NULL''] (IsNullExpr None x negated) cmp_end"
      by (rule gives_skip, simp add: word, use null [of j] False in simp)
    then show ?thesis using False by (simp add: neg_toks_def)
  qed
  note rest = this
  show "gives n (parseComparison (grammar_at n)) (T @ word_tok ''IS'' # neg_toks negated @ [word_tok ''NULL'']) (IsNullExpr None x negated) cmp_end"
    unfolding parseComparison_def
    by (rule gives_bind [OF readsD [OF reads_additive_of_unary [OF assms(1)]]], rule hit_if,
        simp add: word_tok_def keyword_types, simp, rule rest) (simp add: word_tok_def keyword_types ends)
qed

lemma gives_negation:
  assumes "fst v \<in> {T_IN, T_BETWEEN, T_LIKE}" "\<And>j. j \<le> m \<Longrightarrow> gives j (body negated) (v # T) y F"
  shows "gives m (p_bind (check T_NOT) (\<lambda>neg. p_bind (check_at 1 (\<lambda>t. t \<in> {T_IN, T_BETWEEN, T_LIKE})) (\<lambda>op.
       p_bind (if neg \<and> op then p_bind advance (\<lambda>_. p_return True) else p_return False) body)))
     (neg_toks negated @ v # T) y F"
proof (cases negated)
  case True
  have "gives m (p_bind (check T_NOT) (\<lambda>neg. p_bind (check_at 1 (\<lambda>t. t \<in> {T_IN, T_BETWEEN, T_LIKE})) (\<lambda>op.
       p_bind (if neg \<and> op then p_bind advance (\<lambda>_. p_return True) else p_return False) body)))
     (word_tok ''NOT'' # v # T) y F"
  proof (rule gives_check, simp add: word_tok_def keyword_types, rule gives_check_at)
    have "gives (m - 1) (body True) (v # T) y F" using assms(2) True by simp
    then show "gives m (p_bind (if True \<and> fst v \<in> {T_IN, T_BETWEEN, T_LIKE} then p_bind advance (\<lambda>_. p_return True) else p_return False) body)
        (word_tok ''NOT'' # v # T) y F"
      using assms(1) by (auto simp: p_bind_assoc word_tok_def keyword_types intro!: gives_advance)
  qed
  then show ?thesis using True by (simp add: neg_toks_def)
next
  case False
  have "gives m (p_bind (check T_NOT) (\<lambda>neg. p_bind (check_at 1 (\<lambda>t. t \<in> {T_IN, T_BETWEEN, T_LIKE})) (\<lambda>op.
       p_bind (if neg \<and> op then p_bind advance (\<lambda>_. p_return True) else p_return False) body)))
     (v # T) y F"
  proof (rule gives_check_no)
    show "absent T_NOT (v # T) F" using assms(1) by auto
    show "gives m (p_bind (check_at 1 (\<lambda>t. t \<in> {T_IN, T_BETWEEN, T_LIKE})) (\<lambda>op.
       p_bind (if False \<and> op then p_bind advance (\<lambda>_. p_return True) else p_return False) body)) (v # T) y F"
      by (rule gives_check_at_any) (use assms(2) [of m] False in simp)
  qed
  then show ?thesis using False by (simp add: neg_toks_def)
qed

end
