(* ===== verification/RoundTrip.thy ===== *)
theory RoundTrip
  imports ExprParse
begin

text \<open>
  A CHECK constraint survives being stored. The catalog keeps the text of the constraint, which
  \<open>DB::loadCatalog\<close> hands to \<open>Parser::parseWholeExpression\<close> when the database is opened
  (\<open>db.cpp:353\<close>). The operators of the grammar that \<open>ExprParse\<close> has not are here, then the parser on
  the tokens of any renderable expression, and with \<open>ExprText\<close> the round trip.
\<close>

section \<open>Negatable operators\<close>

definition negatable :: "grammar \<Rightarrow> expr \<Rightarrow> bool \<Rightarrow> expr parser" where
  "negatable g left negated =
     p_bind (accept T_IN) (\<lambda>inn.
     if inn then in_tail g left negated
     else p_bind (accept T_BETWEEN) (\<lambda>btw.
     if btw then
       p_bind (parseAdditive g) (\<lambda>lo. p_bind (consume T_AND ''AND'') (\<lambda>_.
       p_bind (parseAdditive g) (\<lambda>hi. p_return (BetweenExpr None left lo hi negated))))
     else p_bind (accept T_LIKE) (\<lambda>lik.
     if lik then p_bind (parseAdditive g) (\<lambda>p. p_return (LikeExpr None left p negated))
     else p_bind look (\<lambda>t.
       if isComparisonToken (tok_type t) then
         p_bind advance (\<lambda>_. p_bind (parseAdditive g) (\<lambda>r.
           p_return (BinaryExpr None (toComparisonOp (tok_type t)) left r)))
       else p_return left))))"

lemma parseComparison_negatable:
  "parseComparison g =
     p_bind (parseAdditive g) (\<lambda>left.
     p_bind (accept T_IS) (\<lambda>is.
     if is then
       p_bind (accept T_NOT) (\<lambda>negated. p_bind (consume T_NULL_LITERAL ''NULL'') (\<lambda>_.
         p_return (IsNullExpr None left negated)))
     else
       p_bind (check T_NOT) (\<lambda>neg. p_bind (check_at 1 (\<lambda>t. t \<in> {T_IN, T_BETWEEN, T_LIKE})) (\<lambda>op.
       p_bind (if neg \<and> op then p_bind advance (\<lambda>_. p_return True) else p_return False) (negatable g left)))))"
  unfolding parseComparison_def negatable_def [abs_def] ..

lemma reads_negatable:
  assumes "reads parseUnary T1 x unary_end" "starts T1" "fst v \<in> {T_IN, T_BETWEEN, T_LIKE}"
    and "\<And>n j. j \<le> n \<Longrightarrow> gives j (negatable (grammar_at n) x negated) (v # T) y cmp_end"
  shows "reads parseExpression (T1 @ neg_toks negated @ v # T) y or_end"
proof -
  obtain u T' where u: "neg_toks negated @ v # T = u # T'" "fst u \<in> {T_NOT, T_IN, T_BETWEEN, T_LIKE}"
    using assms(3) by (cases negated) (auto simp: neg_toks_def word_tok_def keyword_types)
  show ?thesis
    unfolding u(1)
  proof (rule reads_comparison_tail [OF assms(1,2)])
    show "fst u \<notin> add_end" using u(2) by (auto simp: ends)
    fix n
    have "gives n (p_bind (check T_NOT) (\<lambda>neg. p_bind (check_at 1 (\<lambda>t. t \<in> {T_IN, T_BETWEEN, T_LIKE})) (\<lambda>op.
       p_bind (if neg \<and> op then p_bind advance (\<lambda>_. p_return True) else p_return False)
         (negatable (grammar_at n) x)))) (u # T') y cmp_end"
      unfolding u(1) [symmetric] by (rule gives_negation [OF assms(3)], rule assms(4))
    note body = this
    show "gives n (parseComparison (grammar_at n)) (T1 @ u # T') y cmp_end"
      unfolding parseComparison_negatable
      by (rule gives_bind [OF readsD [OF reads_additive_of_unary [OF assms(1)]]], rule skip_if)
        (use u(2) body in \<open>auto simp: ends\<close>)
  qed
qed

lemma reads_like:
  assumes "reads parseUnary T1 x unary_end" "starts T1" "reads parseUnary T2 y unary_end"
  shows "reads parseExpression (T1 @ neg_toks negated @ word_tok ''LIKE'' # T2) (LikeExpr None x y negated) or_end"
proof (rule reads_negatable [OF assms(1,2)])
  fix n j :: nat
  assume j: "j \<le> n"
  have p: "gives (j - 1) (p_bind (parseAdditive (grammar_at n)) (\<lambda>p. p_return (LikeExpr None x p negated))) T2
      (LikeExpr None x y negated) cmp_end"
    by (rule gives_tail [OF gives_additive [OF assms(3)]]) (use j in \<open>auto simp: ends gives_return\<close>)
  show "gives j (negatable (grammar_at n) x negated) (word_tok ''LIKE'' # T2) (LikeExpr None x y negated) cmp_end"
    unfolding negatable_def
    by (rule skip_if, simp add: word_tok_def keyword_types, rule skip_if, simp add: word_tok_def keyword_types,
        rule hit_if, simp add: word_tok_def keyword_types, simp, rule p)
qed (simp add: word_tok_def keyword_types)

lemma reads_between:
  assumes "reads parseUnary T1 x unary_end" "starts T1" "reads parseUnary T2 lo unary_end"
    and "reads parseUnary T3 hi unary_end"
  shows "reads parseExpression (T1 @ neg_toks negated @ word_tok ''BETWEEN'' # T2 @ word_tok ''AND'' # T3)
    (BetweenExpr None x lo hi negated) or_end"
proof (rule reads_negatable [OF assms(1,2)])
  fix n j :: nat
  assume j: "j \<le> n"
  let ?g = "grammar_at n" and ?e = "BetweenExpr None x lo hi negated"
  have hi: "gives i (p_bind (parseAdditive ?g) (\<lambda>hi. p_return (BetweenExpr None x lo hi negated))) T3 ?e cmp_end"
    if "i \<le> n" for i
    by (rule gives_tail [OF gives_additive [OF assms(4) that]]) (auto simp: ends gives_return)
  have mid: "gives i (p_bind (consume T_AND ''AND'') (\<lambda>_.
      p_bind (parseAdditive ?g) (\<lambda>hi. p_return (BetweenExpr None x lo hi negated)))) (word_tok ''AND'' # T3) ?e cmp_end"
    if "i \<le> n" for i
    by (rule gives_consume, simp add: word_tok_def keyword_types, simp, rule hi) (use that in simp)
  have i: "j - 1 \<le> n" using j by simp
  have p: "gives (j - 1) (p_bind (parseAdditive ?g) (\<lambda>lo. p_bind (consume T_AND ''AND'') (\<lambda>_.
      p_bind (parseAdditive ?g) (\<lambda>hi. p_return (BetweenExpr None x lo hi negated)))))
      (T2 @ word_tok ''AND'' # T3) ?e cmp_end"
    by (rule gives_bind [OF gives_additive [OF assms(3) i]], rule mid [OF i]) (simp add: word_tok_def keyword_types ends)
  show "gives j (negatable ?g x negated) (word_tok ''BETWEEN'' # T2 @ word_tok ''AND'' # T3) ?e cmp_end"
    unfolding negatable_def
    by (rule skip_if, simp add: word_tok_def keyword_types, rule hit_if, simp add: word_tok_def keyword_types, simp, rule p)
qed (simp add: word_tok_def keyword_types)

lemma reads_in:
  assumes "reads parseUnary T1 x unary_end" "starts T1" "items \<noteq> []"
    and "\<forall>e\<in>set items. is_literal e \<and> renderable e"
  shows "reads parseExpression (T1 @ neg_toks negated @ word_tok ''IN'' # lp # commas (map toks items) @ [rp])
    (InExpr None x (map bare items) None negated) or_end"
proof (rule reads_negatable [OF assms(1,2)])
  fix n j :: nat
  let ?g = "grammar_at n" and ?e = "InExpr None x (map bare items) None negated"
  let ?Ts = "commas (map toks items)"
  have item: "gives i parseLiteral (toks e) (bare e) {} \<and> toks e \<noteq> [] \<and> fst (hd (toks e)) \<noteq> T_SELECT"
    if mem: "e \<in> set items" for e i
  proof -
    obtain t v where e: "e = LiteralExpr t v" "lit_ok v"
      using bspec [OF assms(4) mem] by (cases e) (simp_all add: is_literal_def)
    moreover have "lit_toks v \<noteq> [] \<and> fst (hd (lit_toks v)) \<noteq> T_SELECT"
      by (cases v) (auto simp: word_tok_def keyword_types)
    ultimately show ?thesis by (simp add: gives_literal_item)
  qed
  have list: "gives i (comma_list parseLiteral) ?Ts (map bare items) {T_COMMA}" for i
    using comma_list_gives [of "map (\<lambda>e. (toks e, bare e)) items" i parseLiteral "{}" "{T_COMMA}"] item assms(3)
    by (simp add: comp_def)
  obtain e es where es: "items = e # es" using assms(3) by (cases items) auto
  have hd: "absent T_SELECT (?Ts @ [rp]) cmp_end"
    using item [of e] by (cases es; cases "toks e") (simp_all add: es)
  have args: "gives i (p_bind (comma_list parseLiteral) (\<lambda>items. p_return (items, None))) ?Ts (map bare items, None) {T_COMMA}" for i
    by (rule gives_tail [OF list order_refl gives_return])
  have close: "gives i (p_bind rparen (\<lambda>_. p_return ?e)) [rp] ?e cmp_end" for i
    by (rule gives_rparen) (rule gives_return)
  have "gives i (p_bind (check T_SELECT) (\<lambda>sel.
     p_bind (if sel then p_bind (parseSubquery ?g False) (\<lambda>q. p_return ([], Some q))
             else p_bind (comma_list parseLiteral) (\<lambda>items. p_return (items, None))) (\<lambda>(items, sub).
     p_bind rparen (\<lambda>_. p_return (InExpr None x items sub negated))))) (?Ts @ [rp]) ?e cmp_end" for i
  proof (rule gives_check_no [OF hd], unfold if_False)
    show "gives i (p_bind (p_bind (comma_list parseLiteral) (\<lambda>items. p_return (items, None))) (\<lambda>(items, sub).
     p_bind rparen (\<lambda>_. p_return (InExpr None x items sub negated)))) (?Ts @ [rp]) ?e cmp_end"
    proof (rule gives_bind [OF args])
      show "goes_on {T_COMMA} [rp] cmp_end" by (simp add: rp_def)
    qed (simp add: close)
  qed
  note tail = this
  have p: "gives (j - 1) (in_tail ?g x negated) (lp # ?Ts @ [rp]) ?e cmp_end"
    unfolding in_tail_def by (rule gives_lparen) (rule tail)
  show "gives j (negatable ?g x negated) (word_tok ''IN'' # lp # ?Ts @ [rp]) ?e cmp_end"
    unfolding negatable_def
    by (rule hit_if, simp add: word_tok_def keyword_types, simp, rule p)
qed (simp add: word_tok_def keyword_types)

section \<open>Calls, casts and cases\<close>

lemma gives_expression:
  "reads parseExpression T x or_end \<Longrightarrow> j \<le> n - 1 \<Longrightarrow> gives j (gExpression (grammar_at n)) T x or_end"
  by (rule gives_mono [OF reads_knot(1) _ order_refl])

lemma gives_operand:
  "reads parseUnary T x unary_end \<Longrightarrow> j \<le> n - 1 \<Longrightarrow> gives j (gAdditive (grammar_at n)) T x add_end"
  by (rule gives_mono [OF reads_knot(3) [OF reads_additive_of_unary] _ order_refl])

lemma primary_call:
  assumes "fst u = T_IDENTIFIER" "\<not> isAggregateName (snd u)" "gives n (parseCall g) (u # lp # T) x F"
  shows "gives n (parsePrimary g) (u # lp # T) x F"
proof -
  have "gives n (p_bind look (\<lambda>t. if isAggregateName (lexeme t) then p_bind parseAggregate (\<lambda>f. p_return (FunctionExpr f))
           else parseCall g)) (u # lp # T) x F"
    by (rule gives_look) (use assms(2,3) in simp)
  note call = this
  show ?thesis
    unfolding parsePrimary_def
    by (rule check_if_no, simp add: assms(1), rule gives_check [OF assms(1)], rule gives_check_at,
        rule gives_if_yes, simp add: lp_def, rule call)
qed

lemma reads_primary:
  "(\<And>n. gives n (parsePrimary (grammar_at n)) T x unary_end) \<Longrightarrow> starts T \<Longrightarrow> fst (hd T) \<noteq> T_MINUS \<Longrightarrow>
   reads parseUnary T x unary_end"
  by (rule reads_unary_of_primary) (auto simp: reads_def starts_def)

lemma commas_hd:
  assumes "\<forall>T\<in>set Ts. starts T" "Ts \<noteq> []"
  shows "\<exists>u us. commas Ts @ U = u # us \<and> fst u \<notin> {T_SELECT, T_RPAREN}"
proof -
  obtain T Ts' where Ts: "Ts = T # Ts'" using assms(2) by (cases Ts) auto
  then have "starts T" using assms(1) by simp
  then show ?thesis unfolding Ts by (cases T; cases Ts') (auto simp: starts_def)
qed

lemma reads_call:
  assumes "name_ok name" "upperName name = name" "\<not> isAggregateName name" "name \<noteq> ''CAST''"
    and "\<forall>e\<in>set args. reads parseUnary (toks e) (bare e) unary_end \<and> starts (toks e)"
  shows "reads parseUnary ([word_tok name, lp] @ commas (map toks args) @ [rp])
    (CallExpr None name (map bare args) DInt False) unary_end"
proof (rule reads_primary)
  let ?u = "word_tok name" and ?e = "CallExpr None name (map bare args) DInt False"
  let ?Ts = "commas (map toks args)"
  have u: "fst ?u = T_IDENTIFIER" "snd ?u = name" using assms(1) by (simp_all add: word_tok_def name_ok_def)
  show "starts ([?u, lp] @ ?Ts @ [rp])" by (simp add: starts_def u)
  show "fst (hd ([?u, lp] @ ?Ts @ [rp])) \<noteq> T_MINUS" by (simp add: u)
  fix n
  let ?g = "grammar_at n"
  have close: "gives i (p_bind rparen (\<lambda>_. p_return ?e)) [rp] ?e unary_end" for i
    by (rule gives_rparen) (rule gives_return)
  have args: "gives j (p_bind (check T_RPAREN) (\<lambda>none.
         p_bind (if none then p_return [] else comma_list (gExpression ?g)) (\<lambda>args.
         p_bind rparen (\<lambda>_. p_return (CallExpr None name args DInt False))))) (?Ts @ [rp]) ?e unary_end"
    if j: "j \<le> n - 1" for j
  proof (cases "args = []")
    case True
    have "gives j (p_bind (check T_RPAREN) (\<lambda>none.
         p_bind (if none then p_return [] else comma_list (gExpression ?g)) (\<lambda>args.
         p_bind rparen (\<lambda>_. p_return (CallExpr None name args DInt False))))) [rp] ?e unary_end"
      by (rule gives_check, simp add: rp_def) (use close True in simp)
    then show ?thesis by (simp add: True)
  next
    case False
    have "\<exists>u us. ?Ts @ [rp] = u # us \<and> fst u \<notin> {T_SELECT, T_RPAREN}"
      by (rule commas_hd) (use assms(5) False in auto)
    then have hd: "absent T_RPAREN (?Ts @ [rp]) unary_end" by auto
    have list: "gives j (comma_list (gExpression ?g)) ?Ts (map bare args) (insert T_COMMA or_end)"
      using comma_list_gives [of "map (\<lambda>e. (toks e, bare e)) args" j "gExpression ?g" or_end "insert T_COMMA or_end"]
        gives_expression [OF reads_expression_of_unary j] assms(5) starts_not False
      by (auto simp: comp_def ends)
    show ?thesis
      by (rule gives_check_no [OF hd], unfold if_False, rule gives_bind [OF list], rule close)
        (simp add: rp_def ends)
  qed
  have "gives n (parseCall ?g) (?u # lp # ?Ts @ [rp]) ?e unary_end"
    unfolding parseCall_def
    by (rule gives_consume_lexeme [OF u(1)], simp, unfold Let_def u(2) assms(2), rule gives_lparen,
        rule gives_if_no [OF assms(4)], rule args) simp
  then show "gives n (parsePrimary ?g) ([?u, lp] @ ?Ts @ [rp]) ?e unary_end"
    using primary_call [OF u(1)] assms(3) u(2) by simp
qed

lemma gives_cast_type:
  assumes "T_LPAREN \<in> F"
  shows "gives m parseCastType [word_tok (dataTypeName ty)] ty F"
proof -
  have adv: "gives m (p_bind advance (\<lambda>_. p_return d)) [u] d F" if "fst u \<noteq> T_END_OF_FILE"
    for d :: data_type and u :: "token_type \<times> string"
    by (rule gives_advance [OF that gives_return])
  have varchar: "gives m (p_bind advance (\<lambda>_. p_bind (accept T_LPAREN) (\<lambda>m.
              if m then p_bind (consume T_INTEGER_LITERAL ''VARCHAR length'') (\<lambda>_. p_bind rparen (\<lambda>_. p_return DVarchar))
              else p_return DVarchar))) [u] DVarchar F" if "fst u \<noteq> T_END_OF_FILE" for u :: "token_type \<times> string"
    by (rule gives_advance [OF that], rule skip_if, simp add: assms, rule gives_return)
  show ?thesis
    unfolding parseCastType_def Let_def
  proof (rule gives_look)
    fix k :: token
    let ?u = "word_tok (dataTypeName ty)"
    assume "tok_type k = fst ?u"
    then show "gives m (if tok_type k = T_INT_TYPE then p_bind advance (\<lambda>_. p_return DInt)
          else if tok_type k = T_FLOAT_TYPE then p_bind advance (\<lambda>_. p_return DFloat)
          else if tok_type k = T_BOOL_TYPE then p_bind advance (\<lambda>_. p_return DBool)
          else if tok_type k = T_TEXT_TYPE then p_bind advance (\<lambda>_. p_return DText)
          else if tok_type k = T_DATE_TYPE then p_bind advance (\<lambda>_. p_return DDate)
          else if tok_type k = T_TIMESTAMP_TYPE then p_bind advance (\<lambda>_. p_return DTimestamp)
          else if tok_type k = T_VARCHAR then
            p_bind advance (\<lambda>_. p_bind (accept T_LPAREN) (\<lambda>m.
              if m then p_bind (consume T_INTEGER_LITERAL ''VARCHAR length'') (\<lambda>_. p_bind rparen (\<lambda>_. p_return DVarchar))
              else p_return DVarchar))
          else error_at k ''expected a type in CAST'') [?u] ty F"
      by (cases ty) (simp_all add: word_tok_def keyword_types adv varchar)
  qed
qed

lemma reads_cast:
  assumes "reads parseUnary T x unary_end" "starts T"
  shows "reads parseUnary ([word_tok ''CAST'', lp] @ T @ [word_tok ''AS'', word_tok (dataTypeName ty), rp])
    (CallExpr None ''CAST'' [x] ty True) unary_end"
proof (rule reads_primary)
  let ?u = "word_tok ''CAST''" and ?e = "CallExpr None ''CAST'' [x] ty True"
  let ?T = "[word_tok ''AS'', word_tok (dataTypeName ty), rp]"
  have u: "fst ?u = T_IDENTIFIER" "snd ?u = ''CAST''" by (simp_all add: word_tok_def keyword_types)
  have up: "upperName ''CAST'' = ''CAST''" by (simp add: upperName_def to_upper_def is_lower_def)
  show "starts ([?u, lp] @ T @ ?T)" by (simp add: starts_def u)
  show "fst (hd ([?u, lp] @ T @ ?T)) \<noteq> T_MINUS" by (simp add: u)
  fix n
  let ?g = "grammar_at n"
  have close: "gives i (p_bind rparen (\<lambda>_. p_return ?e)) [rp] ?e unary_end" for i
    by (rule gives_rparen) (rule gives_return)
  have "gives i (p_bind parseCastType (\<lambda>ty. p_bind rparen (\<lambda>_. p_return (CallExpr None ''CAST'' [x] ty True))))
      ([word_tok (dataTypeName ty)] @ [rp]) ?e unary_end" for i
    by (rule gives_bind [OF gives_cast_type [where F = "{T_LPAREN}"]], simp, rule close) (simp add: rp_def)
  note ty = this [simplified]
  have as: "gives i (p_bind (consume T_AS ''AS'') (\<lambda>_. p_bind parseCastType (\<lambda>ty. p_bind rparen (\<lambda>_.
      p_return (CallExpr None ''CAST'' [x] ty True))))) ?T ?e unary_end" for i
    by (rule gives_consume, simp add: word_tok_def keyword_types, simp, rule ty)
  have arg: "gives j (p_bind (gExpression ?g) (\<lambda>e. p_bind (consume T_AS ''AS'') (\<lambda>_. p_bind parseCastType (\<lambda>ty.
      p_bind rparen (\<lambda>_. p_return (CallExpr None ''CAST'' [e] ty True)))))) (T @ ?T) ?e unary_end" if "j \<le> n - 1" for j
    by (rule gives_bind [OF gives_expression [OF reads_expression_of_unary [OF assms] that]], rule as)
      (simp add: word_tok_def keyword_types ends)
  have "gives n (parseCall ?g) (?u # lp # T @ ?T) ?e unary_end"
    unfolding parseCall_def
    by (rule gives_consume_lexeme [OF u(1)], simp, unfold Let_def u(2) up, rule gives_lparen,
        rule gives_if_yes [OF refl], rule arg) simp
  moreover have "\<not> isAggregateName ''CAST''" by (simp add: isAggregateName_def up)
  ultimately show "gives n (parsePrimary ?g) ([?u, lp] @ T @ ?T) ?e unary_end"
    using primary_call [OF u(1)] u(2) by simp
qed

definition branch_toks :: "expr \<times> expr \<Rightarrow> (token_type \<times> string) list" where
  "branch_toks wt = word_tok ''WHEN'' # toks (fst wt) @ word_tok ''THEN'' # toks (snd wt)"

definition bare_branch :: "expr \<times> expr \<Rightarrow> expr \<times> expr" where
  "bare_branch wt = (bare (fst wt), bare (snd wt))"

abbreviation operand :: "expr \<Rightarrow> bool" where
  "operand e \<equiv> reads parseUnary (toks e) (bare e) unary_end \<and> starts (toks e)"

lemma gives_branch:
  assumes "operand w" "operand t" "j \<le> n"
  shows "gives j (case_branch (grammar_at n) acc) (branch_toks (w, t)) (Some (acc @ [bare_branch (w, t)])) add_end"
proof -
  let ?g = "grammar_at n" and ?r = "Some (acc @ [(bare w, bare t)])"
  have i: "j - 1 \<le> n - 1" "j - 1 - 1 \<le> n - 1" using assms(3) by simp_all
  have t: "gives i (p_bind (gAdditive ?g) (\<lambda>t. p_return (Some (acc @ [(bare w, t)])))) (toks t) ?r add_end"
    if "i \<le> n - 1" for i
    by (rule gives_tail [OF gives_operand [OF conjunct1 [OF assms(2)] that] order_refl gives_return])
  have th: "gives (j - 1) (p_bind (consume T_THEN ''THEN'') (\<lambda>_. p_bind (gAdditive ?g) (\<lambda>t.
      p_return (Some (acc @ [(bare w, t)]))))) (word_tok ''THEN'' # toks t) ?r add_end"
    by (rule gives_consume, simp add: word_tok_def keyword_types, simp, rule t [OF i(2)])
  have w: "gives (j - 1) (p_bind (gExpression ?g) (\<lambda>w. p_bind (consume T_THEN ''THEN'') (\<lambda>_. p_bind (gAdditive ?g) (\<lambda>t.
      p_return (Some (acc @ [(w, t)])))))) (toks w @ word_tok ''THEN'' # toks t) ?r add_end"
    by (rule gives_bind [OF gives_expression [OF _ i(1)]], rule reads_expression_of_unary,
        use assms(1) in blast, use assms(1) in blast, rule th) (simp add: word_tok_def keyword_types ends)
  show ?thesis
    unfolding case_branch_def branch_toks_def bare_branch_def fst_conv snd_conv
    by (rule hit_if, simp add: word_tok_def keyword_types, simp, rule w)
qed

lemma reads_case:
  assumes "branches \<noteq> []" "\<forall>(w, t)\<in>set branches. operand w \<and> operand t"
    and "case els of None \<Rightarrow> True | Some e \<Rightarrow> operand e"
  shows "reads parseUnary (word_tok ''CASE'' # concat (map branch_toks branches) @
      (case els of None \<Rightarrow> [] | Some e \<Rightarrow> word_tok ''ELSE'' # toks e) @ [word_tok ''END''])
    (CaseExpr None (map bare_branch branches) (map_option bare els)) unary_end"
proof (rule reads_primary)
  let ?u = "word_tok ''CASE''" and ?e = "CaseExpr None (map bare_branch branches) (map_option bare els)"
  let ?E = "case els of None \<Rightarrow> [] | Some e \<Rightarrow> word_tok ''ELSE'' # toks e"
  let ?B = "concat (map branch_toks branches)"
  have u: "fst ?u = T_CASE" by (simp add: word_tok_def keyword_types)
  show "starts (?u # ?B @ ?E @ [word_tok ''END''])" by (simp add: starts_def u)
  show "fst (hd (?u # ?B @ ?E @ [word_tok ''END''])) \<noteq> T_MINUS" by (simp add: u)
  fix n
  let ?g = "grammar_at n"
  have fin: "gives i (p_bind (consume T_END ''END'') (\<lambda>_. p_return ?e)) [word_tok ''END''] ?e unary_end" for i
    by (rule gives_consume) (simp_all add: word_tok_def keyword_types gives_return)
  have bs: "gives j (repeat_step (case_branch ?g) []) ?B (map bare_branch branches) (insert T_WHERE add_end)" if j: "j \<le> n" for j
  proof -
    have "gives j (case_branch ?g acc) [] None (insert T_WHERE add_end)" for acc
      unfolding case_branch_def by (rule skip_if) (simp_all add: gives_return)
    moreover have "gives j (case_branch ?g acc) (branch_toks b) (Some (acc @ [bare_branch b])) add_end"
      if "b \<in> set branches" for b acc
      using gives_branch [OF _ _ j] assms(2) that by (cases b) auto
    ultimately have "gives j (repeat_step (case_branch ?g) []) (concat (map fst (map (\<lambda>b. (branch_toks b, bare_branch b)) branches)))
        (map snd (map (\<lambda>b. (branch_toks b, bare_branch b)) branches)) (insert T_WHERE add_end)"
      by (intro repeat_collect [where F' = add_end])
        (auto simp: branch_toks_def word_tok_def keyword_types ends)
    then show ?thesis by (simp add: comp_def)
  qed
  have opt: "gives j (optional T_ELSE (gAdditive ?g)) ?E (map_option bare els) (insert T_ELSE add_end)" if j: "j \<le> n - 1" for j
  proof (cases els)
    case None
    then show ?thesis by (simp add: gives_optional_none)
  next
    case (Some d)
    then have d: "reads parseUnary (toks d) (bare d) unary_end" using assms(3) by simp
    have "gives (j - 1) (gAdditive ?g) (toks d) (bare d) (insert T_ELSE add_end)"
      by (rule gives_mono [OF gives_operand [OF d j]]) auto
    then show ?thesis using Some by (simp add: gives_optional word_tok_def keyword_types)
  qed
  have els: "gives j (p_bind (optional T_ELSE (gAdditive ?g)) (\<lambda>els. p_bind (consume T_END ''END'') (\<lambda>_.
      p_return (CaseExpr None (map bare_branch branches) els)))) (?E @ [word_tok ''END'']) ?e unary_end" if "j \<le> n - 1" for j
    by (rule gives_bind [OF opt [OF that]], rule fin) (simp add: word_tok_def keyword_types ends)
  have fol: "goes_on (insert T_WHERE add_end) (?E @ [word_tok ''END'']) unary_end"
    by (cases els) (simp_all add: word_tok_def keyword_types ends)
  have i: "n - 1 \<le> n" "n - 1 \<le> n - 1" by simp_all
  have "gives n (parseCase ?g) (?u # ?B @ ?E @ [word_tok ''END'']) ?e unary_end"
    unfolding parseCase_def
    by (rule gives_consume [OF u], simp, rule gives_bind [OF bs [OF i(1)] _ fol], rule gives_if_no,
        use assms(1) in simp, rule els [OF i(2)])
  then show "gives n (parsePrimary ?g) (?u # ?B @ ?E @ [word_tok ''END'']) ?e unary_end"
    unfolding parsePrimary_def by (rule check_if_yes [OF u])
qed

section \<open>Any expression\<close>

lemma starts_lit_toks: "starts (lit_toks v)"
  by (cases v) (auto simp: starts_def word_tok_def keyword_types)

lemma reads_expression:
  "renderable e \<Longrightarrow> operand e"
proof (induction "size e" arbitrary: e rule: less_induct)
  case less
  have IH: "operand d" if "size d < size e" "renderable d" for d
    using less.hyps that by blast
  have par: "operand e" if "toks e = lp # T @ [rp]" "reads parseExpression T (bare e) or_end" "T \<noteq> []" "fst (hd T) \<noteq> T_SELECT" for T
    using reads_paren [OF that(2-4)] by (simp add: that(1) starts_def lp_def)
  have par2: "operand e" if "toks e = lp # T @ U @ [rp]" "reads parseExpression (T @ U) (bare e) or_end" "starts T" for T U
    by (rule par [of "T @ U"]) (use that starts_not [OF starts_append [OF that(3)]] in auto)
  note el = size_list_estimation' [OF _ order_refl, of _ _ size]
  show ?case
  proof (cases e)
    case (LiteralExpr t v)
    then show ?thesis using less.prems reads_literal starts_lit_toks by simp
  next
    case (ColumnRef c)
    have "starts (toks e)" using less.prems ColumnRef by (auto simp: starts_def word_tok_def name_ok_def)
    then show ?thesis using less.prems ColumnRef reads_column by simp
  next
    case (BinaryExpr t op x y)
    have "operand x" "operand y" using less.prems BinaryExpr by (auto intro!: IH)
    then show ?thesis using BinaryExpr
      by (intro par2 [of "toks x" "(op_type op, comparisonOpName op) # toks y"]) (simp_all add: reads_binary)
  next
    case (LogicalExpr t op x y)
    have "operand x" "operand y" using less.prems LogicalExpr by (auto intro!: IH)
    then show ?thesis using LogicalExpr
      by (intro par2 [of "toks x" "word_tok (if op = OpAnd then ''AND'' else ''OR'') # toks y"]) (simp_all only: toks.simps bare.simps reads_logical append.simps)
  next
    case (ArithmeticExpr t op x y)
    have "operand x" "operand y" using less.prems ArithmeticExpr by (auto intro!: IH)
    then show ?thesis using ArithmeticExpr
      by (intro par2 [of "toks x" "(arith_type op, arithmeticOpName op) # toks y"]) (simp_all add: reads_arithmetic)
  next
    case (UnaryExpr t x)
    have "operand x" using less.prems UnaryExpr by (auto intro!: IH)
    then show ?thesis using UnaryExpr
      by (intro par [of "word_tok ''NOT'' # toks x"]) (simp_all add: reads_negation, simp add: word_tok_def keyword_types)
  next
    case (IsNullExpr t x neg)
    have "operand x" using less.prems IsNullExpr by (auto intro!: IH)
    then show ?thesis using IsNullExpr
      by (intro par2 [of "toks x" "word_tok ''IS'' # neg_toks neg @ [word_tok ''NULL'']"]) (simp_all add: reads_is_null)
  next
    case (InExpr t x items q neg)
    have "operand x" using less.prems InExpr by (auto intro!: IH)
    then show ?thesis using InExpr less.prems
      by (intro par2 [of "toks x" "neg_toks neg @ word_tok ''IN'' # lp # commas (map toks items) @ [rp]"]) (simp_all add: reads_in)
  next
    case (BetweenExpr t x lo hi neg)
    have "operand x" "operand lo" "operand hi" using less.prems BetweenExpr by (auto intro!: IH)
    then show ?thesis using BetweenExpr
      by (intro par2 [of "toks x" "neg_toks neg @ word_tok ''BETWEEN'' # toks lo @ word_tok ''AND'' # toks hi"])
        (simp_all add: reads_between)
  next
    case (LikeExpr t x y neg)
    have "operand x" "operand y" using less.prems LikeExpr by (auto intro!: IH)
    then show ?thesis using LikeExpr
      by (intro par2 [of "toks x" "neg_toks neg @ word_tok ''LIKE'' # toks y"]) (simp_all add: reads_like)
  next
    case (CallExpr t name args ty cast)
    have args: "operand d" if "d \<in> set args" for d
      using that less.prems CallExpr by (auto intro!: IH dest: el)
    show ?thesis
    proof (cases cast)
      case True
      then obtain d where "args = [d]" using less.prems CallExpr by (auto simp: length_Suc_conv)
      then show ?thesis using less.prems CallExpr True args reads_cast [of "toks d" "bare d" ty]
        by (simp add: starts_def word_tok_def keyword_types)
    next
      case False
      then have n: "name_ok name" "upperName name = name" "\<not> isAggregateName name" "name \<noteq> ''CAST''" "ty = DInt"
        using less.prems CallExpr by simp_all
      then show ?thesis using CallExpr False args reads_call [OF n(1-4), of args]
        by (simp add: starts_def) (simp add: word_tok_def name_ok_def)
    qed
  next
    case (CaseExpr t bs els)
    have br: "\<forall>(w, v)\<in>set bs. operand w \<and> operand v"
    proof safe
      fix w v
      assume wv: "(w, v) \<in> set bs"
      have "size w < size e" "size v < size e" using branch_size [OF wv] CaseExpr by auto
      moreover have "renderable w" "renderable v" using wv less.prems CaseExpr by auto
      ultimately show "reads parseUnary (toks w) (bare w) unary_end" "starts (toks w)"
        "reads parseUnary (toks v) (bare v) unary_end" "starts (toks v)" using IH by blast+
    qed
    have el: "case els of None \<Rightarrow> True | Some d \<Rightarrow> operand d"
      using less.prems CaseExpr by (auto intro!: IH split: option.splits)
    have bs: "bs \<noteq> []" using less.prems CaseExpr by simp
    have eqs: "map branch_toks bs = map (\<lambda>(w, t). word_tok ''WHEN'' # toks w @ word_tok ''THEN'' # toks t) bs"
      "map bare_branch bs = map (\<lambda>(w, t). (bare w, bare t)) bs"
      by (auto simp: branch_toks_def bare_branch_def)
    show ?thesis using reads_case [OF bs br el] CaseExpr
      by (simp add: eqs starts_def) (simp add: word_tok_def keyword_types)
  qed (use less.prems in simp_all)
qed

section \<open>The round trip\<close>

lemma expression_of_tokens:
  assumes "reads parseExpression T x or_end" "lexemes ts = T @ [(T_END_OF_FILE, [])]"
  shows "parseWholeExpression ts = Inr x"
proof -
  let ?g = "grammar_at (length ts)" and ?E = "(T_END_OF_FILE, [])"
  let ?q = "\<lambda>x. p_bind (accept T_SEMICOLON) (\<lambda>_. p_bind look (\<lambda>t.
      if tok_type t \<noteq> T_END_OF_FILE then error_at t (''unexpected token after '' @ ''expression'') else p_return x))"
  have r: "length (rest (cursor_of ts)) \<le> length ts" "lexemes (rest (cursor_of ts)) = T @ [?E]"
    using assms(2) by (simp_all add: cursor_of_def)
  obtain s' where s': "parseExpression ?g (cursor_of ts) = Inr (x, s')" "lexemes (rest s') = [?E]"
    using givesD [OF readsD [OF assms(1)] r] by (auto simp: ends)
  then obtain k where "rest s' = [k]" "tok_type k = T_END_OF_FILE" by auto
  then have "?q x s' = Inr (x, s')"
    by (simp add: p_bind_def accept_def check_def look_def p_return_def peek_def)
  with s'(1) have "p_bind (parseExpression ?g) ?q (cursor_of ts) = Inr (x, s')"
    by (simp add: p_bind_def)
  then show ?thesis by (simp add: parseWholeExpression_def parsed_def whole_def)
qed

text \<open>C18: The text of a CHECK constraint that the catalog stores is read back as the constraint, less what
  the semantic analysis had added, for every expression built from comparisons, arithmetic, AND, OR,
  NOT, IS NULL, BETWEEN, LIKE, IN lists, function calls, CAST and CASE over columns and literals
  whose own text is exact.\<close>

theorem check_source_round_trip:
  assumes "renderable e" "expressionToString e = Inr s"
  shows "parseWholeExpression (tokenize s) = Inr (bare e)"
proof -
  have "lexes (s @ []) (toks e @ [(T_END_OF_FILE, [])])"
    by (rule text_ofD [OF text_of_expression [OF assms] lexes_Nil]) simp
  then have "lexemes (tokenize s) = toks e @ [(T_END_OF_FILE, [])]"
    by (simp add: lexes_def tokenize_def lexer_of_def)
  then show ?thesis
    using reads_expression [OF assms(1)] by (intro expression_of_tokens reads_expression_of_unary) simp_all
qed

theorem check_source_round_trip_witness:
  "parseWholeExpression (tokenize ''((a < b) AND (a IN (1, -2)))'') =
     Inr (LogicalExpr None OpAnd (BinaryExpr None Lt (ColumnRef (simple_col [] ''a'')) (ColumnRef (simple_col [] ''b'')))
       (InExpr None (ColumnRef (simple_col [] ''a'')) [LiteralExpr None (VInt 1), LiteralExpr None (VInt (- 2))] None False))"
proof -
  let ?a = "ColumnRef (simple_col [] ''a'')" and ?b = "ColumnRef (simple_col [] ''b'')"
  let ?e = "LogicalExpr None OpAnd (BinaryExpr None Lt ?a ?b)
    (InExpr None ?a [LiteralExpr None (VInt 1), LiteralExpr None (VInt (- 2))] None False)"
  have n: "name_ok ''a''" "name_ok ''b''"
    by (simp_all add: name_ok_def is_word_def is_ident_start_def is_ident_part_def is_alnum_def is_alpha_def
        is_lower_def is_upper_def word_type_def keywordTable_def to_upper_def)
  have "renderable ?e"
    using n by (simp add: lit_ok_def is_literal_def simple_col_def)
  moreover have "expressionToString ?e = Inr ''((a < b) AND (a IN (1, -2)))''"
    by (simp add: then_text_def simple_col_def i64_str_def int_str_def nat_str.simps digit_char_def char_of_def bit_0)
  ultimately show ?thesis
    using check_source_round_trip [of ?e] by (simp add: simple_col_def)
qed

section \<open>What the text loses\<close>

lemma fmt_f_tiny:
  assumes "f_finite d" "\<not> f_sign d" "2 * (f_mag d * 10 ^ 6) < one_unit"
  shows "fmt_f d = ''0.000000''"
proof -
  have nan: "\<not> f_is_nan d" "\<not> f_is_inf d" using assms(1) by (auto simp: f_finite_def f_is_nan_def f_is_inf_def)
  define n where "n = f_mag d * 10 ^ 6"
  have n: "2 * n < one_unit" "n div one_unit = 0" "n mod one_unit = n" using assms(3) by (simp_all add: n_def)
  have z: "nat_str 0 = ''0''" by (simp add: nat_str.simps digit_char_def char_of_def bit_0)
  have five: "replicate 5 c = [c, c, c, c, c]" for c :: char by (simp add: numeral_eq_Suc)
  have "(if 2 * n > one_unit \<or> (2 * n = one_unit \<and> odd (n div one_unit)) then n div one_unit + 1 else n div one_unit) = 0"
    using n by simp
  then show ?thesis
    unfolding fmt_f_def Let_def n_def [symmetric] n(3) using nan assms(2) by (simp add: z five)
qed

text \<open>A bound of less than half a millionth in a constraint is stored as zero: the text is that of
  the constraint against zero, whatever is compared and however.\<close>

lemma tiny_bound_stored_as_zero:
  assumes "f_finite d" "\<not> f_sign d" "2 * (f_mag d * 10 ^ 6) < one_unit"
  shows "expressionToString (BinaryExpr t op e (LiteralExpr u (VDouble d))) =
    expressionToString (BinaryExpr t op e (LiteralExpr u (VDouble (f_zero False))))"
proof -
  have "fmt_f (f_zero False) = ''0.000000''"
    by (rule fmt_f_tiny) (simp_all add: f_zero_def f_pack_def f_finite_def f_exp_def f_sign_def f_mag_def f_frac_def one_unit_def)
  then show ?thesis using fmt_f_tiny [OF assms] by simp
qed

lemma tiny_bound_stored_as_zero_witness:
  "expressionToString (BinaryExpr None Gt (ColumnRef (simple_col [] ''x'')) (LiteralExpr None (VDouble 0x3D70000000000000))) =
    expressionToString (BinaryExpr None Gt (ColumnRef (simple_col [] ''x'')) (LiteralExpr None (VDouble (f_zero False))))"
  by (rule tiny_bound_stored_as_zero)
    (simp_all add: f_finite_def f_exp_def f_sign_def f_mag_def f_frac_def one_unit_def)

text \<open>Evaluation from the outside in: the continuations are left alone until they are reached.\<close>

lemma p_bind_cong: "s = s' \<Longrightarrow> p_bind p f s = p_bind p f s'"
  by simp

lemma grammar_eval:
  "gExpression (grammar_at (Suc n)) s = parseExpression (grammar_at n) s"
  "gNot (grammar_at (Suc n)) s = parseNot (grammar_at n) s"
  "gAdditive (grammar_at (Suc n)) s = parseAdditive (grammar_at n) s"
  "gUnary (grammar_at (Suc n)) s = parseUnary (grammar_at n) s"
  "gSelect (grammar_at (Suc n)) s = parseSelect (grammar_at n) s"
  by (simp_all add: layer_def)

lemmas parse_eval = grammar_eval p_bind_def p_return_def p_raise_def check_def check_at_def look_def accept_cases advance_def
  isAtEnd_def peek_def peekAt_def consume_def [THEN fun_cong] consume_lexeme_def [THEN fun_cong] comma_list_def
  repeat_step_def fun_cong [OF comma_rounds.simps(2)] fun_cong [OF rounds.simps(2)] cursor_of_def
  parsed_def parseStatement_def whole_def [THEN fun_cong] parse_body_def [THEN fun_cong]
  parseSelectStatement_def [THEN fun_cong] parseSelect_def [THEN fun_cong] select_item_def [THEN fun_cong]
  parseAdditive_def [THEN fun_cong] parseMultiplicative_def [THEN fun_cong] parseUnary_def [THEN fun_cong]
  parsePrimary_def [THEN fun_cong] parseAggregate_def [THEN fun_cong] lparen_def rparen_def
  parseOr_def [THEN fun_cong] parseAnd_def [THEN fun_cong] parseNot_def [THEN fun_cong]
  parseComparison_def [THEN fun_cong] and_step_def [THEN fun_cong] or_step_def [THEN fun_cong]
  additive_step_def [THEN fun_cong] multiplicative_step_def [THEN fun_cong] expression_item_def [THEN fun_cong]
  isAggregateName_def upperName_def to_upper_def is_lower_def isComparisonToken_def

text \<open>An aggregate inside a larger expression of the select list ends the parser with the
  exception of \<open>expressionToString\<close>, which is no \<open>ParseError\<close>.\<close>

lemma aggregate_in_expression_escapes:
  "parseStatement (tokenize ''FETCH (COUNT(*)) FROM t'') =
     Inl (StdException ''unsupported expression in CHECK constraint'')"
proof -
  let ?T = "\<lambda>t x c. \<lparr>tok_type = t, lexeme = x, tok_line = 1, tok_column = c\<rparr>"
  have "tokenize ''FETCH (COUNT(*)) FROM t'' =
    [?T T_SELECT ''FETCH'' 1, ?T T_LPAREN ''('' 7, ?T T_IDENTIFIER ''COUNT'' 8, ?T T_LPAREN ''('' 13, ?T T_STAR ''*'' 14,
     ?T T_RPAREN '')'' 15, ?T T_RPAREN '')'' 16, ?T T_FROM ''FROM'' 18, ?T T_IDENTIFIER ''t'' 23, ?T T_END_OF_FILE [] 24]"
    by code_simp
  then show ?thesis
    by (simp add: parse_eval cong: p_bind_cong del: grammar_at.simps)
qed

end
