(* ===== verification/ExprEval.thy ===== *)
theory ExprEval
  imports Ast "HOL-Library.While_Combinator" "HOL-Library.Signed_Division"
begin

text \<open>
  The evaluation of expressions on a row, \<open>src/src/vm/expression_eval.cpp\<close>. A result \<open>None\<close>
  is an evaluation that has none: the processor traps on INT64_MIN / -1 and INT64_MIN % -1, and a
  call with too few arguments reads past its argument vector. Integer arithmetic wraps around at 64
  bits. A subquery that was not evaluated has no results.
\<close>

section \<open>Casts and calls\<close>

definition valueAsString :: "val \<Rightarrow> string" where
  "valueAsString v = (case v of VText s \<Rightarrow> s | _ \<Rightarrow> toString v)"

fun castValue :: "val \<Rightarrow> data_type \<Rightarrow> val" where
  "castValue VNull _ = VNull"
| "castValue v DInt =
     (case v of
        VInt i \<Rightarrow> v
      | VDouble d \<Rightarrow> VInt (f_to_i64 d)
      | VBool b \<Rightarrow> VInt (if b then 1 else 0)
      | VText s \<Rightarrow> (case stoll s of Some i \<Rightarrow> VInt i | None \<Rightarrow> VNull)
      | VNull \<Rightarrow> VNull)"
| "castValue v DFloat =
     (if isNumeric v then VDouble (asDouble v)
      else case v of
        VText s \<Rightarrow> (case stod s of Some d \<Rightarrow> VDouble d | None \<Rightarrow> VNull)
      | _ \<Rightarrow> VNull)"
| "castValue v DBool =
     (case v of VBool b \<Rightarrow> v | VInt i \<Rightarrow> VBool (i \<noteq> 0) | _ \<Rightarrow> VNull)"
| "castValue v _ = VText (valueAsString v)"

definition arg :: "val list \<Rightarrow> nat \<Rightarrow> val option" where
  "arg a i = (if i < length a then Some (a ! i) else None)"

text \<open>\<open>f(a[0])\<close> unless \<open>a[0]\<close> is NULL.\<close>

definition on_first :: "val list \<Rightarrow> (val \<Rightarrow> val) \<Rightarrow> val option" where
  "on_first a f = Option.bind (arg a 0) (\<lambda>v. Some (if isNull v then VNull else f v))"

definition trim :: "string \<Rightarrow> string" where
  "trim s = rev (dropWhile is_space (rev (dropWhile is_space s)))"

definition substr_of :: "string \<Rightarrow> i64 \<Rightarrow> i64 option \<Rightarrow> string" where
  "substr_of s start len =
     (let from = nat ((if sint start < 1 then 1 else sint start) - 1)
      in if from \<ge> length s then []
         else take (case len of None \<Rightarrow> length s - from | Some l \<Rightarrow> if sint l < 0 then 0 else nat (sint l)) (drop from s))"

definition round_to :: "dbl \<Rightarrow> int \<Rightarrow> dbl" where
  "round_to d digits =
     (let factor = f_pow10 digits in f_div (f_round_half_away (f_mul d factor)) factor)"

definition min_i64 :: i64 where
  "min_i64 = word_of_int (- (2 ^ 63))"

definition div_i64 :: "i64 \<Rightarrow> i64 \<Rightarrow> i64 option" where
  "div_i64 a b = (if a = min_i64 \<and> b = - 1 then None else Some (word_of_int (sint a sdiv sint b)))"

definition mod_i64 :: "i64 \<Rightarrow> i64 \<Rightarrow> i64 option" where
  "mod_i64 a b = (if a = min_i64 \<and> b = - 1 then None else Some (word_of_int (sint a smod sint b)))"

definition evalCall :: "string \<Rightarrow> bool \<Rightarrow> data_type \<Rightarrow> val list \<Rightarrow> val option" where
  "evalCall fn isCast castType a =
     (if isCast then Option.bind (arg a 0) (\<lambda>v. Some (castValue v castType))
      else if fn = ''COALESCE'' then Some (case find (\<lambda>v. \<not> isNull v) a of Some v \<Rightarrow> v | None \<Rightarrow> VNull)
      else if fn = ''NULLIF'' then
        Option.bind (arg a 0) (\<lambda>x. if isNull x then Some VNull
          else Option.bind (arg a 1) (\<lambda>y. Some (if compareValues x y = Some 0 then VNull else x)))
      else if fn = ''UPPER'' \<or> fn = ''LOWER'' then
        on_first a (\<lambda>v. VText (map (if fn = ''UPPER'' then to_upper else to_lower) (valueAsString v)))
      else if fn = ''LENGTH'' then on_first a (\<lambda>v. VInt (word_of_nat (length (valueAsString v))))
      else if fn = ''TRIM'' then on_first a (\<lambda>v. VText (trim (valueAsString v)))
      else if fn = ''SUBSTR'' then
        Option.bind (arg a 0) (\<lambda>v. if isNull v then Some VNull
          else Option.bind (arg a 1) (\<lambda>w. if isNull w then Some VNull
          else Some (VText (substr_of (valueAsString v) (v_int w)
                 (if length a = 3 \<and> \<not> isNull (a ! 2) then Some (v_int (a ! 2)) else None)))))
      else if fn = ''ABS'' then
        on_first a (\<lambda>v. case v of
            VDouble d \<Rightarrow> VDouble (f_abs d)
          | _ \<Rightarrow> VInt (if sint (v_int v) < 0 then - v_int v else v_int v))
      else if fn = ''CEIL'' \<or> fn = ''FLOOR'' then
        on_first a (\<lambda>v. if \<not> isNumeric v then VNull
          else VInt (f_to_i64 (if fn = ''CEIL'' then f_ceil (asDouble v) else f_floor (asDouble v))))
      else if fn = ''ROUND'' then
        on_first a (\<lambda>v. if \<not> isNumeric v then VNull
          else VDouble (round_to (asDouble v)
                 (if length a = 2 \<and> \<not> isNull (a ! 1) then sint (ucast (v_int (a ! 1)) :: 32 word) else 0)))
      else if fn = ''MOD'' then
        Option.bind (arg a 0) (\<lambda>v. if isNull v then Some VNull
          else Option.bind (arg a 1) (\<lambda>w. if isNull w \<or> v_int w = 0 then Some VNull
          else map_option VInt (mod_i64 (v_int v) (v_int w))))
      else Some VNull)"

section \<open>LIKE\<close>

text \<open>
  The loop of \<open>likeMatch\<close>: \<open>si\<close> and \<open>pi\<close> are the positions in the text and in the pattern,
  \<open>star\<close> the position of the last \<open>%\<close> and \<open>mark\<close> where the text stood there, \<open>ok\<close> is false
  after \<open>return false\<close>.
\<close>

record like_state =
  si :: nat
  pi :: nat
  star :: "nat option"
  mark :: nat
  ok :: bool

definition any_run :: char where
  "any_run = CHR 0x25"

definition any_one :: char where
  "any_one = CHR ''_''"

definition like_step :: "string \<Rightarrow> string \<Rightarrow> like_state \<Rightarrow> like_state" where
  "like_step s p st =
     (if pi st < length p \<and> (p ! pi st = any_one \<or> p ! pi st = s ! si st)
      then st\<lparr>si := si st + 1, pi := pi st + 1\<rparr>
      else if pi st < length p \<and> p ! pi st = any_run
      then st\<lparr>star := Some (pi st), pi := pi st + 1, mark := si st\<rparr>
      else case star st of
        Some k \<Rightarrow> st\<lparr>pi := k + 1, mark := mark st + 1, si := mark st + 1\<rparr>
      | None \<Rightarrow> st\<lparr>ok := False\<rparr>)"

definition like_start :: like_state where
  "like_start = \<lparr>si = 0, pi = 0, star = None, mark = 0, ok = True\<rparr>"

definition like_loop :: "string \<Rightarrow> string \<Rightarrow> like_state option" where
  "like_loop s p = while_option (\<lambda>st. ok st \<and> si st < length s) (like_step s p) like_start"

definition likeMatch :: "string \<Rightarrow> string \<Rightarrow> bool" where
  "likeMatch s p =
     (case like_loop s p of
        Some st \<Rightarrow> ok st \<and> dropWhile (\<lambda>c. c = any_run) (drop (pi st) p) = []
      | None \<Rightarrow> False)"

section \<open>Evaluation\<close>

definition and_val :: "val \<Rightarrow> val \<Rightarrow> val" where
  "and_val l r =
     (if l = VBool False \<or> r = VBool False then VBool False
      else if l = VBool True \<and> r = VBool True then VBool True else VNull)"

definition or_val :: "val \<Rightarrow> val \<Rightarrow> val" where
  "or_val l r =
     (if l = VBool True \<or> r = VBool True then VBool True
      else if l = VBool False \<and> r = VBool False then VBool False else VNull)"

fun not_val :: "val \<Rightarrow> val" where
  "not_val (VBool b) = VBool (\<not> b)"
| "not_val _ = VNull"

fun compare_result :: "comparison_op \<Rightarrow> int \<Rightarrow> bool" where
  "compare_result Eq c \<longleftrightarrow> c = 0"
| "compare_result Neq c \<longleftrightarrow> c \<noteq> 0"
| "compare_result Lt c \<longleftrightarrow> c < 0"
| "compare_result Leq c \<longleftrightarrow> c \<le> 0"
| "compare_result Gt c \<longleftrightarrow> c > 0"
| "compare_result Geq c \<longleftrightarrow> c \<ge> 0"

definition compare_val :: "comparison_op \<Rightarrow> val \<Rightarrow> val \<Rightarrow> val" where
  "compare_val op l r =
     (case compareValues l r of None \<Rightarrow> VNull | Some c \<Rightarrow> VBool (compare_result op c))"

fun arith_dbl :: "arithmetic_op \<Rightarrow> dbl \<Rightarrow> dbl \<Rightarrow> val" where
  "arith_dbl Add a b = VDouble (f_add a b)"
| "arith_dbl Sub a b = VDouble (f_sub a b)"
| "arith_dbl Mul a b = VDouble (f_mul a b)"
| "arith_dbl Div a b = (if f_eq b (f_zero False) then VNull else VDouble (f_div a b))"

fun arith_int :: "arithmetic_op \<Rightarrow> i64 \<Rightarrow> i64 \<Rightarrow> val option" where
  "arith_int Add a b = Some (VInt (a + b))"
| "arith_int Sub a b = Some (VInt (a - b))"
| "arith_int Mul a b = Some (VInt (a * b))"
| "arith_int Div a b = (if b = 0 then Some VNull else map_option VInt (div_i64 a b))"

fun arith_val :: "arithmetic_op \<Rightarrow> val \<Rightarrow> val \<Rightarrow> val option" where
  "arith_val op (VInt a) (VInt b) = arith_int op a b"
| "arith_val op l r =
     (if isNumeric l \<and> isNumeric r then Some (arith_dbl op (asDouble l) (asDouble r)) else Some VNull)"

definition between_val :: "bool \<Rightarrow> val \<Rightarrow> val \<Rightarrow> val \<Rightarrow> val" where
  "between_val negated v lo hi =
     (case (compareValues v lo, compareValues v hi) of
        (Some cl, Some ch) \<Rightarrow> (let inRange = (cl \<ge> 0 \<and> ch \<le> 0) in VBool (if negated then \<not> inRange else inRange))
      | _ \<Rightarrow> VNull)"

definition like_val :: "bool \<Rightarrow> val \<Rightarrow> val \<Rightarrow> val" where
  "like_val negated v p =
     (case (v, p) of
        (VText s, VText t) \<Rightarrow> VBool (if negated then \<not> likeMatch s t else likeMatch s t)
      | _ \<Rightarrow> VNull)"

text \<open>The loop over the list of IN: \<open>(found, sawNull)\<close>.\<close>

fun in_values :: "val \<Rightarrow> val list \<Rightarrow> bool \<Rightarrow> bool \<times> bool" where
  "in_values v [] sawNull = (False, sawNull)"
| "in_values v (w # ws) sawNull =
     (if isNull w then in_values v ws True
      else if compareValues v w = Some 0 then (True, sawNull)
      else in_values v ws sawNull)"

fun in_result :: "bool \<Rightarrow> bool \<times> bool \<Rightarrow> val" where
  "in_result negated (found, sawNull) =
     (if found then VBool (\<not> negated) else if sawNull then VNull else VBool negated)"

definition results_of :: "subquery \<Rightarrow> val list" where
  "results_of q = (case sub_results q of None \<Rightarrow> [] | Some vs \<Rightarrow> vs)"

definition column_val :: "column_ref \<Rightarrow> val list \<Rightarrow> val" where
  "column_val c row =
     (if outerRef c then (case bound c of Some v \<Rightarrow> v | None \<Rightarrow> VNull)
      else if columnIndex c < 0 \<or> columnIndex c \<ge> int (length row) then VNull
      else row ! nat (columnIndex c))"

definition subquery_val :: "subquery \<Rightarrow> val" where
  "subquery_val q =
     (if sub_exists q then VBool (results_of q \<noteq> [])
      else case results_of q of [] \<Rightarrow> VNull | v # _ \<Rightarrow> v)"

function (sequential) evalExpression :: "expr \<Rightarrow> val list \<Rightarrow> val option"
  and evalArgs :: "expr list \<Rightarrow> val list \<Rightarrow> val list option"
  and evalBranches :: "(expr \<times> expr) list \<Rightarrow> expr option \<Rightarrow> val list \<Rightarrow> val option"
  and evalItems :: "val \<Rightarrow> expr list \<Rightarrow> bool \<Rightarrow> val list \<Rightarrow> (bool \<times> bool) option" where
  "evalExpression (LiteralExpr _ v) row = Some v"
| "evalExpression (ColumnRef c) row = Some (column_val c row)"
| "evalExpression (BinaryExpr _ op l r) row =
     Option.bind (evalExpression l row) (\<lambda>a. Option.bind (evalExpression r row) (\<lambda>b.
       Some (compare_val op a b)))"
| "evalExpression (ArithmeticExpr _ op l r) row =
     Option.bind (evalExpression l row) (\<lambda>a. Option.bind (evalExpression r row) (\<lambda>b. arith_val op a b))"
| "evalExpression (CallExpr _ name args castType isCast) row =
     Option.bind (evalArgs args row) (\<lambda>a. evalCall name isCast castType a)"
| "evalExpression (CaseExpr _ branches els) row = evalBranches branches els row"
| "evalExpression (LogicalExpr _ op l r) row =
     Option.bind (evalExpression l row) (\<lambda>a. Option.bind (evalExpression r row) (\<lambda>b.
       Some (if op = OpAnd then and_val a b else or_val a b)))"
| "evalExpression (UnaryExpr _ e) row = Option.bind (evalExpression e row) (\<lambda>a. Some (not_val a))"
| "evalExpression (IsNullExpr _ e negated) row =
     Option.bind (evalExpression e row) (\<lambda>a. Some (VBool (if negated then \<not> isNull a else isNull a)))"
| "evalExpression (InExpr _ v items sub negated) row =
     Option.bind (evalExpression v row) (\<lambda>a.
       if isNull a then Some VNull
       else case sub of
         Some q \<Rightarrow> Some (in_result negated (in_values a (results_of q) False))
       | None \<Rightarrow> Option.bind (evalItems a items False row) (\<lambda>fs. Some (in_result negated fs)))"
| "evalExpression (BetweenExpr _ v lo hi negated) row =
     Option.bind (evalExpression v row) (\<lambda>a. Option.bind (evalExpression lo row) (\<lambda>b.
     Option.bind (evalExpression hi row) (\<lambda>c. Some (between_val negated a b c))))"
| "evalExpression (LikeExpr _ v p negated) row =
     Option.bind (evalExpression v row) (\<lambda>a. Option.bind (evalExpression p row) (\<lambda>b.
       Some (like_val negated a b)))"
| "evalExpression (SubqueryExpr q) row = Some (subquery_val q)"
| "evalExpression (FunctionExpr _) row = Some VNull"
| "evalExpression (WindowExpr _ _ _ _ _) row = Some VNull"
| "evalArgs [] row = Some []"
| "evalArgs (e # es) row =
     Option.bind (evalExpression e row) (\<lambda>a. Option.bind (evalArgs es row) (\<lambda>as. Some (a # as)))"
| "evalBranches [] els row = (case els of None \<Rightarrow> Some VNull | Some e \<Rightarrow> evalExpression e row)"
| "evalBranches ((w, t) # bs) els row =
     Option.bind (evalExpression w row) (\<lambda>c.
       if c = VBool True then evalExpression t row else evalBranches bs els row)"
| "evalItems v [] sawNull row = Some (False, sawNull)"
| "evalItems v (e # es) sawNull row =
     Option.bind (evalExpression e row) (\<lambda>w.
       if isNull w then evalItems v es True row
       else if compareValues v w = Some 0 then Some (True, sawNull)
       else evalItems v es sawNull row)"
  by pat_completeness auto

termination
  by (relation "measure (case_sum (case_sum (\<lambda>(e, _). size e) (\<lambda>(es, _). size_list size es))
      (case_sum (\<lambda>(bs, els, _). size_list (size_prod size size) bs + size_option size els)
        (\<lambda>(_, es, _). size_list size es)))") auto

definition predicateTrue :: "expr \<Rightarrow> val list \<Rightarrow> bool option" where
  "predicateTrue e row = map_option (\<lambda>v. v = VBool True) (evalExpression e row)"

end
