(* ===== verification/Like.thy ===== *)
theory Like
  imports ExprEval
begin

text \<open>
  \<open>likeMatch\<close> against the textbook definition of LIKE, in which \<open>%\<close> stands for any text and
  \<open>_\<close> for any character. The loop remembers the last \<open>%\<close> only; its invariant says that nothing
  is lost by that. The two agree on texts without \<open>%\<close>. On others they do not: the loop compares a
  character of the pattern with the text before it looks whether it is a \<open>%\<close>.
\<close>

section \<open>Matching\<close>

fun like :: "string \<Rightarrow> string \<Rightarrow> bool" where
  "like [] [] \<longleftrightarrow> True"
| "like [] (d # s) \<longleftrightarrow> False"
| "like (c # p) [] \<longleftrightarrow> c = any_run \<and> like p []"
| "like (c # p) (d # s) \<longleftrightarrow>
     (if c = any_run then like p (d # s) \<or> like (c # p) s else (c = any_one \<or> c = d) \<and> like p s)"

abbreviation one :: "char \<Rightarrow> char \<Rightarrow> bool" where
  "one c d \<equiv> c = any_one \<or> c = d"

lemma any_distinct [simp]: "any_one \<noteq> any_run" "any_run \<noteq> any_one"
  by (simp_all add: any_one_def any_run_def)

lemma like_end: "like p [] \<longleftrightarrow> dropWhile (\<lambda>c. c = any_run) p = []"
  by (induction p) auto

lemma like_Nil [simp]: "like [] s \<longleftrightarrow> s = []"
  by (cases s) simp_all

lemma like_run: "like (any_run # p) s \<longleftrightarrow> (\<exists>k\<le>length s. like p (drop k s))"
proof (induction s)
  case Nil
  then show ?case by simp
next
  case (Cons d s)
  have "(\<exists>k\<le>length (d # s). like p (drop k (d # s))) \<longleftrightarrow> like p (d # s) \<or> (\<exists>k\<le>length s. like p (drop k s))"
  proof
    assume "\<exists>k\<le>length (d # s). like p (drop k (d # s))"
    then obtain k where "k \<le> length (d # s)" "like p (drop k (d # s))" by blast
    then show "like p (d # s) \<or> (\<exists>k\<le>length s. like p (drop k s))" by (cases k) auto
  next
    assume "like p (d # s) \<or> (\<exists>k\<le>length s. like p (drop k s))"
    then show "\<exists>k\<le>length (d # s). like p (drop k (d # s))"
      by (metis Suc_le_mono drop0 drop_Suc_Cons length_Cons zero_le)
  qed
  then show ?case using Cons.IH by simp
qed

lemma like_segment:
  "any_run \<notin> set g \<Longrightarrow> like (g @ p) s \<longleftrightarrow>
     length g \<le> length s \<and> list_all2 one g (take (length g) s) \<and> like p (drop (length g) s)"
proof (induction g arbitrary: s)
  case Nil
  then show ?case by simp
next
  case (Cons c g)
  then show ?case by (cases s) auto
qed

lemma like_later:
  assumes "like (any_run # p) (drop j s)" "i \<le> j"
  shows "like (any_run # p) (drop i s)"
proof (cases "j \<le> length s")
  case True
  obtain k where k: "k \<le> length (drop j s)" "like p (drop k (drop j s))" using assms(1) like_run by blast
  then have "k + j - i \<le> length (drop i s)" "like p (drop (k + j - i) (drop i s))"
    using assms(2) True by (simp_all add: add.commute)
  then show ?thesis using like_run by blast
next
  case False
  then have "like p []" using assms(1) by simp
  then show ?thesis using like_run [of p "drop i s"] by (metis drop_all order_refl)
qed

section \<open>The loop\<close>

text \<open>What stands between the last \<open>%\<close> and the position in the pattern matches the text between the
  mark and the position in the text; a match of all is one from the last \<open>%\<close> and the mark on.\<close>

definition like_inv :: "string \<Rightarrow> string \<Rightarrow> like_state \<Rightarrow> bool" where
  "like_inv s p st \<longleftrightarrow>
     si st \<le> length s \<and> pi st \<le> length p \<and> mark st \<le> si st \<and>
     (if ok st then
        (case star st of
           None \<Rightarrow> mark st = 0 \<and> like p s = like (drop (pi st) p) (drop (si st) s)
         | Some k \<Rightarrow>
             (\<exists>g. any_run \<notin> set g \<and> k + length g + 1 = pi st \<and> mark st + length g = si st \<and>
                drop k p = any_run # g @ drop (pi st) p \<and>
                list_all2 one g (take (length g) (drop (mark st) s)) \<and>
                like p s = like (drop k p) (drop (mark st) s)))
      else \<not> like p s)"

lemma like_inv_start: "like_inv s p like_start"
  by (simp add: like_inv_def like_start_def)

lemma like_skip:
  assumes "any_run \<notin> set g" "m + length g = i" "i \<le> length s" "list_all2 one g (take (length g) (drop m s))"
  shows "like (any_run # g @ any_run # q) (drop m s) \<longleftrightarrow> like (any_run # q) (drop i s)"
proof
  assume "like (any_run # g @ any_run # q) (drop m s)"
  then obtain k where "k \<le> length (drop m s)" "like (g @ any_run # q) (drop k (drop m s))"
    using like_run by blast
  then have "like (any_run # q) (drop (length g + (k + m)) s)"
    using like_segment [OF assms(1)] by (simp add: add.assoc)
  then show "like (any_run # q) (drop i s)" using like_later assms(2) by simp
next
  assume "like (any_run # q) (drop i s)"
  moreover have "length g \<le> length (drop m s)" "drop (length g) (drop m s) = drop i s"
    using assms(2,3) by (simp_all add: add.commute)
  ultimately have "like (g @ any_run # q) (drop m s)"
    using assms(4) like_segment [OF assms(1)] by simp
  then show "like (any_run # g @ any_run # q) (drop m s)" using like_run by (metis drop0 zero_le)
qed

lemma like_back:
  assumes "any_run \<notin> set g" "m + length g = i" "i < length s" "list_all2 one g (take (length g) (drop m s))"
    and "\<not> like r (drop i s)"
  shows "like (any_run # g @ r) (drop m s) \<longleftrightarrow> like (any_run # g @ r) (drop (m + 1) s)"
proof -
  have "m < length s" using assms(2,3) by simp
  then have d: "drop m s = s ! m # drop (m + 1) s" by (simp add: Cons_nth_drop_Suc)
  have "\<not> like (g @ r) (drop m s)"
    using assms(2,5) like_segment [OF assms(1), of r "drop m s"] by (simp add: add.commute)
  then show ?thesis unfolding d by simp
qed

lemma like_inv_step:
  assumes inv: "like_inv s p st" and b: "ok st \<and> si st < length s" and s: "any_run \<notin> set s"
  shows "like_inv s p (like_step s p st)"
proof -
  let ?r = "drop (pi st) p" and ?t = "drop (si st) s"
  have t: "?t = s ! si st # drop (si st + 1) s" using b by (simp add: Cons_nth_drop_Suc)
  have len: "si st \<le> length s" "pi st \<le> length p" "mark st \<le> si st" using inv by (simp_all add: like_inv_def)
  have r: "?r = p ! pi st # drop (pi st + 1) p" if "pi st < length p" using that by (simp add: Cons_nth_drop_Suc)
  have nr: "s ! si st \<noteq> any_run" using s b by (metis nth_mem)
  consider (one) "pi st < length p" "one (p ! pi st) (s ! si st)"
    | (run) "pi st < length p" "p ! pi st = any_run"
    | (no) "\<not> like ?r ?t" "\<not> (pi st < length p \<and> one (p ! pi st) (s ! si st))"
        "\<not> (pi st < length p \<and> p ! pi st = any_run)"
  proof (cases "pi st < length p")
    case True
    then show ?thesis using that r [OF True] t by (cases "p ! pi st = any_run"; cases "one (p ! pi st) (s ! si st)") auto
  next
    case False
    then show ?thesis using that(3) t by simp
  qed
  then show ?thesis
  proof cases
    case one
    then have c: "p ! pi st \<noteq> any_run" using nr by auto
    have adv: "like ?r ?t = like (drop (pi st + 1) p) (drop (si st + 1) s)"
      unfolding r [OF one(1)] t using one(2) c by simp
    have st: "like_step s p st = st\<lparr>si := si st + 1, pi := pi st + 1\<rparr>" using one by (simp add: like_step_def)
    show ?thesis
    proof (cases "star st")
      case None
      then show ?thesis using inv b one adv len unfolding st by (simp add: like_inv_def)
    next
      case (Some k)
      then obtain g where g: "any_run \<notin> set g" "k + length g + 1 = pi st" "mark st + length g = si st"
        "drop k p = any_run # g @ ?r" "list_all2 one g (take (length g) (drop (mark st) s))"
        "like p s = like (drop k p) (drop (mark st) s)"
        using inv b by (auto simp: like_inv_def)
      have "length g < length (drop (mark st) s)" "drop (mark st) s ! length g = s ! si st" using b g(3) by auto
      then have "take (length g + 1) (drop (mark st) s) = take (length g) (drop (mark st) s) @ [s ! si st]"
        using take_Suc_conv_app_nth [of "length g" "drop (mark st) s"] by simp
      then have "list_all2 one (g @ [p ! pi st]) (take (length (g @ [p ! pi st])) (drop (mark st) s))"
        using g(5) one(2) by (simp add: list_all2_appendI)
      moreover have "drop k p = any_run # (g @ [p ! pi st]) @ drop (pi st + 1) p"
        using g(4) r [OF one(1)] by simp
      moreover have "any_run \<notin> set (g @ [p ! pi st])" using g(1) c by auto
      ultimately show ?thesis using g b one(1) len Some unfolding st
        by (simp add: like_inv_def)
    qed
  next
    case run
    then have "\<not> one (p ! pi st) (s ! si st)" using nr by auto
    then have st: "like_step s p st = st\<lparr>star := Some (pi st), pi := pi st + 1, mark := si st\<rparr>"
      using run by (simp add: like_step_def)
    have rr: "?r = any_run # drop (pi st + 1) p" using r [OF run(1)] run(2) by simp
    have "like p s = like ?r ?t"
    proof (cases "star st")
      case None
      then show ?thesis using inv b by (simp add: like_inv_def)
    next
      case (Some k)
      then obtain g where g: "any_run \<notin> set g" "mark st + length g = si st"
        "drop k p = any_run # g @ ?r" "list_all2 one g (take (length g) (drop (mark st) s))"
        "like p s = like (drop k p) (drop (mark st) s)"
        using inv b by (auto simp: like_inv_def)
      show ?thesis using like_skip [OF g(1,2) _ g(4)] g(3,5) rr len(1) by simp
    qed
    then show ?thesis using b run(1) rr len unfolding st by (simp add: like_inv_def)
  next
    case no
    show ?thesis
    proof (cases "star st")
      case None
      then have "like_step s p st = st\<lparr>ok := False\<rparr>" using no by (auto simp: like_step_def)
      then show ?thesis using None inv b no(1) by (simp add: like_inv_def)
    next
      case (Some k)
      then obtain g where g: "any_run \<notin> set g" "k + length g + 1 = pi st" "mark st + length g = si st"
        "drop k p = any_run # g @ ?r" "list_all2 one g (take (length g) (drop (mark st) s))"
        "like p s = like (drop k p) (drop (mark st) s)"
        using inv b by (auto simp: like_inv_def)
      have st: "like_step s p st = st\<lparr>pi := k + 1, mark := mark st + 1, si := mark st + 1\<rparr>"
        using no Some by (auto simp: like_step_def)
      have "like p s = like (drop k p) (drop (mark st + 1) s)"
        using like_back [OF g(1,3) _ g(5) no(1)] g(4,6) b by simp
      moreover have "drop (k + 1) p = g @ ?r" using arg_cong [OF g(4), of tl] by (simp add: drop_Suc tl_drop)
      ultimately show ?thesis using b g(2-4) len unfolding st
        by (simp add: like_inv_def Some)
    qed
  qed
qed

text \<open>Each round moves the mark on, or else the position in the text, or else the one in the pattern.\<close>

definition like_rank :: "string \<Rightarrow> string \<Rightarrow> like_state \<Rightarrow> nat \<times> nat \<times> nat \<times> nat" where
  "like_rank s p st = (length s - mark st, length s - si st, length p - pi st, if ok st then 1 else 0)"

lemma like_step_rank:
  assumes "mark st \<le> si st" "ok st" "si st < length s"
  shows "mark (like_step s p st) \<le> si (like_step s p st)"
    and "(like_rank s p (like_step s p st), like_rank s p st) \<in>
      less_than <*lex*> less_than <*lex*> less_than <*lex*> less_than"
proof -
  let ?c1 = "pi st < length p \<and> (p ! pi st = any_one \<or> p ! pi st = s ! si st)"
  let ?c2 = "pi st < length p \<and> p ! pi st = any_run"
  consider (one) "like_step s p st = st\<lparr>si := si st + 1, pi := pi st + 1\<rparr>"
    | (run) "pi st < length p" "like_step s p st = st\<lparr>star := Some (pi st), pi := pi st + 1, mark := si st\<rparr>"
    | (retry) k where "like_step s p st = st\<lparr>pi := k + 1, mark := mark st + 1, si := mark st + 1\<rparr>"
    | (stuck) "like_step s p st = st\<lparr>ok := False\<rparr>"
    by (cases "star st"; cases ?c1; cases ?c2) (simp_all add: like_step_def)
  then have "mark (like_step s p st) \<le> si (like_step s p st) \<and> (like_rank s p (like_step s p st), like_rank s p st) \<in>
      less_than <*lex*> less_than <*lex*> less_than <*lex*> less_than"
  proof cases
    case one
    then have "length s - Suc (si st) < length s - si st" using assms by simp
    then show ?thesis using one assms by (simp add: like_rank_def)
  next
    case run
    then show ?thesis using assms by (cases "mark st = si st") (simp_all add: like_rank_def, linarith)
  next
    case (retry k)
    then have "length s - Suc (mark st) < length s - mark st" using assms by simp
    then show ?thesis using retry by (simp add: like_rank_def)
  qed (use assms in \<open>simp_all add: like_rank_def\<close>)
  then show "mark (like_step s p st) \<le> si (like_step s p st)"
    and "(like_rank s p (like_step s p st), like_rank s p st) \<in>
      less_than <*lex*> less_than <*lex*> less_than <*lex*> less_than" by simp_all
qed

lemma like_loop_ends: "\<exists>st. like_loop s p = Some st"
  unfolding like_loop_def
proof (rule wf_while_option_Some [where P = "\<lambda>st. mark st \<le> si st"])
  let ?b = "\<lambda>st. ok st \<and> si st < length s"
  let ?R = "inv_image (less_than <*lex*> less_than <*lex*> less_than <*lex*> less_than) (like_rank s p)"
  show "wf {(t, st). (mark st \<le> si st \<and> ?b st) \<and> t = like_step s p st}"
  proof (rule wf_subset [where r = ?R])
    show "wf ?R" by (intro wf_inv_image wf_lex_prod wf_less_than)
    show "{(t, st). (mark st \<le> si st \<and> ?b st) \<and> t = like_step s p st} \<subseteq> ?R"
      by (auto simp: in_inv_image intro!: like_step_rank(2) simp del: in_lex_prod)
  qed
qed (simp_all add: like_start_def like_step_rank(1))

text \<open>C21: On a text without \<open>%\<close> LIKE is what its definition says: the loop that remembers one \<open>%\<close>
  accepts exactly the texts the pattern stands for.\<close>

theorem likeMatch_like:
  assumes "any_run \<notin> set s"
  shows "likeMatch s p \<longleftrightarrow> like p s"
proof -
  obtain st where st: "like_loop s p = Some st" using like_loop_ends by blast
  have inv: "like_inv s p st"
    by (rule while_option_rule [where P = "like_inv s p", OF _ st [unfolded like_loop_def] like_inv_start])
      (rule like_inv_step [OF _ _ assms])
  have stop: "\<not> (ok st \<and> si st < length s)" using while_option_stop [OF st [unfolded like_loop_def]] .
  show ?thesis
  proof (cases "ok st")
    case False
    then show ?thesis using inv st by (simp add: likeMatch_def like_inv_def)
  next
    case True
    then have si: "si st = length s" using stop inv by (simp add: like_inv_def)
    have "like p s = like (drop (pi st) p) []"
    proof (cases "star st")
      case None
      then show ?thesis using inv True si by (simp add: like_inv_def)
    next
      case (Some k)
      then obtain g where g: "any_run \<notin> set g" "mark st + length g = length s"
        "drop k p = any_run # g @ drop (pi st) p" "list_all2 one g (take (length g) (drop (mark st) s))"
        "like p s = like (drop k p) (drop (mark st) s)"
        using inv True si by (auto simp: like_inv_def)
      let ?t = "drop (mark st) s"
      have len: "length ?t = length g" using g(2) by simp
      have "like (any_run # g @ drop (pi st) p) ?t \<longleftrightarrow> like (g @ drop (pi st) p) ?t"
      proof
        assume "like (any_run # g @ drop (pi st) p) ?t"
        then obtain j where j: "j \<le> length ?t" "like (g @ drop (pi st) p) (drop j ?t)" using like_run by blast
        then have "length g \<le> length (drop j ?t)" using like_segment [OF g(1)] by blast
        then have "j = 0" using len j(1) by (metis diff_is_0_eq' diff_le_self le_antisym length_drop diff_diff_cancel)
        then show "like (g @ drop (pi st) p) ?t" using j(2) by simp
      next
        assume "like (g @ drop (pi st) p) ?t"
        then show "like (any_run # g @ drop (pi st) p) ?t" using like_run by (metis drop0 zero_le)
      qed
      then show ?thesis using g(3-5) like_segment [OF g(1), of "drop (pi st) p" ?t] len by simp
    qed
    then show ?thesis using True st like_end by (simp add: likeMatch_def)
  qed
qed

theorem likeMatch_like_witness:
  "likeMatch ''banana'' [CHR ''b'', any_run, CHR ''n'', any_one] \<longleftrightarrow> like [CHR ''b'', any_run, CHR ''n'', any_one] ''banana''"
  by (rule likeMatch_like) (simp add: any_run_def)

text \<open>The pattern that stands for every text does not match one that starts with \<open>%\<close> and goes on.\<close>

lemma like_percent_text:
  assumes "s \<noteq> []"
  shows "like [any_run] (any_run # s) \<and> \<not> likeMatch (any_run # s) [any_run]"
proof -
  have all: "like [any_run] t" for t by (induction t) simp_all
  have *: "like_loop (any_run # s) [any_run] = Some \<lparr>si = 1, pi = 1, star = None, mark = 0, ok = False\<rparr>"
    unfolding like_loop_def
    by (subst while_option_unfold, subst while_option_unfold, subst while_option_unfold)
      (simp add: like_start_def like_step_def assms)
  show ?thesis using all by (simp add: likeMatch_def *)
qed

lemma like_percent_text_witness:
  "like [any_run] (any_run # ''off'') \<and> \<not> likeMatch (any_run # ''off'') [any_run]"
  by (rule like_percent_text) simp

end
