(* ===== verification/Catalog.thy ===== *)
theory Catalog
  imports Ast "HOL-Library.AList"
begin

text \<open>
  The catalog, \<open>src/src/frontend/catalog.cpp\<close>. The hash maps are association lists whose order is
  some order of iteration; \<open>tables_\<close>, \<open>tableNamesById_\<close> and \<open>indexes_\<close> have distinct keys. The
  type of the result of each operation is its own: the ones that return \<open>false\<close> leave the catalog
  as it was.
\<close>

section \<open>Schemas\<close>

record column_schema =
  cs_name :: string
  cs_type :: data_type
  cs_varcharLength :: int
  cs_notNull :: bool
  cs_primaryKey :: bool
  cs_unique :: bool
  cs_autoIncrement :: bool
  cs_default :: "val option"
  cs_check :: "expr option"
  cs_checkSource :: string

datatype fk_action = Restrict | Cascade | SetNull

record foreign_key =
  fk_column :: int
  fk_table :: string
  fk_refColumn :: string
  fk_onDelete :: fk_action
  fk_onUpdate :: fk_action

record table_schema =
  ts_id :: int
  ts_name :: string
  ts_columns :: "column_schema list"
  ts_foreignKeys :: "foreign_key list"
  ts_primaryKey :: "int list"
  ts_isView :: bool
  ts_viewQuery :: "select option"
  ts_viewSource :: string

record catalog =
  nextTableId :: int
  cat_tables :: "(string \<times> table_schema) list"
  cat_names :: "(int \<times> string) list"
  cat_indexes :: "(string \<times> string \<times> string list) list"

definition plain_column :: "string \<Rightarrow> data_type \<Rightarrow> int \<Rightarrow> column_schema" where
  "plain_column n t len =
     \<lparr>cs_name = n, cs_type = t, cs_varcharLength = len, cs_notNull = False, cs_primaryKey = False, cs_unique = False,
      cs_autoIncrement = False, cs_default = None, cs_check = None, cs_checkSource = []\<rparr>"

fun column_index_from :: "int \<Rightarrow> string \<Rightarrow> column_schema list \<Rightarrow> int" where
  "column_index_from i n [] = - 1"
| "column_index_from i n (c # cs) = (if cs_name c = n then i else column_index_from (i + 1) n cs)"

definition columnIndex_of :: "table_schema \<Rightarrow> string \<Rightarrow> int" where
  "columnIndex_of t n = column_index_from 0 n (ts_columns t)"

section \<open>Operations\<close>

definition empty_catalog :: catalog where
  "empty_catalog = \<lparr>nextTableId = 0, cat_tables = [], cat_names = [], cat_indexes = []\<rparr>"

definition catalog_reset :: "catalog \<Rightarrow> catalog" where
  "catalog_reset cat = empty_catalog"

definition getTable :: "catalog \<Rightarrow> string \<Rightarrow> table_schema option" where
  "getTable cat n = map_of (cat_tables cat) n"

definition cat_hasTable :: "catalog \<Rightarrow> string \<Rightarrow> bool" where
  "cat_hasTable cat n \<longleftrightarrow> getTable cat n \<noteq> None"

definition getTableById :: "catalog \<Rightarrow> int \<Rightarrow> table_schema option" where
  "getTableById cat i = Option.bind (map_of (cat_names cat) i) (getTable cat)"

definition allTables :: "catalog \<Rightarrow> table_schema list" where
  "allTables cat = map snd (cat_tables cat)"

definition put_table :: "catalog \<Rightarrow> table_schema \<Rightarrow> catalog" where
  "put_table cat t = cat\<lparr>cat_tables := AList.update (ts_name t) t (cat_tables cat)\<rparr>"

text \<open>A new relation under the next identifier.\<close>

definition new_table :: "catalog \<Rightarrow> string \<Rightarrow> column_schema list \<Rightarrow> bool \<Rightarrow> select option \<Rightarrow> string \<Rightarrow> table_schema" where
  "new_table cat n cs view q src =
     \<lparr>ts_id = nextTableId cat, ts_name = n, ts_columns = cs, ts_foreignKeys = [], ts_primaryKey = [],
      ts_isView = view, ts_viewQuery = q, ts_viewSource = src\<rparr>"

definition add_relation :: "catalog \<Rightarrow> table_schema \<Rightarrow> catalog" where
  "add_relation cat t =
     put_table (cat\<lparr>nextTableId := nextTableId cat + 1, cat_names := AList.update (ts_id t) (ts_name t) (cat_names cat)\<rparr>) t"

definition createTable :: "catalog \<Rightarrow> string \<Rightarrow> column_schema list \<Rightarrow> catalog \<times> int option" where
  "createTable cat n cs =
     (if cat_hasTable cat n then (cat, None)
      else (add_relation cat (new_table cat n cs False None []), Some (nextTableId cat)))"

definition createView :: "catalog \<Rightarrow> string \<Rightarrow> column_schema list \<Rightarrow> select \<Rightarrow> string \<Rightarrow> catalog \<times> int option" where
  "createView cat n cs q src =
     (if cat_hasTable cat n then (cat, None)
      else (add_relation cat (new_table cat n cs True (Some q) src), Some (nextTableId cat)))"

definition cat_dropTable :: "catalog \<Rightarrow> string \<Rightarrow> catalog \<times> bool" where
  "cat_dropTable cat n =
     (case getTable cat n of
        None \<Rightarrow> (cat, False)
      | Some t \<Rightarrow>
          (cat\<lparr>cat_names := AList.delete (ts_id t) (cat_names cat),
               cat_tables := AList.delete n (cat_tables cat),
               cat_indexes := filter (\<lambda>(_, tab, _). tab \<noteq> n) (cat_indexes cat)\<rparr>, True))"

definition cat_hasIndex :: "catalog \<Rightarrow> string \<Rightarrow> bool" where
  "cat_hasIndex cat i \<longleftrightarrow> map_of (cat_indexes cat) i \<noteq> None"

definition createIndex :: "catalog \<Rightarrow> string \<Rightarrow> string \<Rightarrow> string list \<Rightarrow> catalog \<times> bool" where
  "createIndex cat i tab cols =
     (if cat_hasIndex cat i then (cat, False)
      else case getTable cat tab of
        None \<Rightarrow> (cat, False)
      | Some t \<Rightarrow>
          if cols = [] \<or> list_ex (\<lambda>c. columnIndex_of t c < 0) cols then (cat, False)
          else (cat\<lparr>cat_indexes := AList.update i (tab, cols) (cat_indexes cat)\<rparr>, True))"

definition cat_dropIndex :: "catalog \<Rightarrow> string \<Rightarrow> catalog \<times> bool" where
  "cat_dropIndex cat i = (cat\<lparr>cat_indexes := AList.delete i (cat_indexes cat)\<rparr>, cat_hasIndex cat i)"

definition addColumn :: "catalog \<Rightarrow> string \<Rightarrow> column_schema \<Rightarrow> catalog \<times> bool" where
  "addColumn cat n c =
     (case getTable cat n of
        None \<Rightarrow> (cat, False)
      | Some t \<Rightarrow> (cat\<lparr>cat_tables := AList.update n (t\<lparr>ts_columns := ts_columns t @ [c]\<rparr>) (cat_tables cat)\<rparr>, True))"

text \<open>The foreign keys after column \<open>i\<close> is gone.\<close>

definition shift_keys :: "int \<Rightarrow> foreign_key list \<Rightarrow> foreign_key list" where
  "shift_keys i fks =
     map (\<lambda>fk. if fk_column fk > i then fk\<lparr>fk_column := fk_column fk - 1\<rparr> else fk)
       (filter (\<lambda>fk. fk_column fk \<noteq> i) fks)"

definition remove_nth :: "nat \<Rightarrow> 'a list \<Rightarrow> 'a list" where
  "remove_nth i xs = take i xs @ drop (i + 1) xs"

definition without_column :: "table_schema \<Rightarrow> int \<Rightarrow> table_schema" where
  "without_column t i =
     t\<lparr>ts_columns := remove_nth (nat i) (ts_columns t), ts_foreignKeys := shift_keys i (ts_foreignKeys t)\<rparr>"

definition cat_dropColumn :: "catalog \<Rightarrow> string \<Rightarrow> string \<Rightarrow> catalog \<times> bool" where
  "cat_dropColumn cat n c =
     (case getTable cat n of
        None \<Rightarrow> (cat, False)
      | Some t \<Rightarrow>
          let i = columnIndex_of t c
          in if i < 0 then (cat, False)
             else (cat\<lparr>cat_tables := AList.update n (without_column t i) (cat_tables cat)\<rparr>, True))"

definition addForeignKey :: "catalog \<Rightarrow> string \<Rightarrow> foreign_key \<Rightarrow> catalog \<times> bool" where
  "addForeignKey cat n fk =
     (case getTable cat n of
        None \<Rightarrow> (cat, False)
      | Some t \<Rightarrow>
          (cat\<lparr>cat_tables := AList.update n (t\<lparr>ts_foreignKeys := ts_foreignKeys t @ [fk]\<rparr>) (cat_tables cat)\<rparr>, True))"

definition require_columns :: "int list \<Rightarrow> column_schema list \<Rightarrow> column_schema list" where
  "require_columns is cs =
     foldl (\<lambda>cs i. if 0 \<le> i \<and> i < int (length cs) then cs[nat i := (cs ! nat i)\<lparr>cs_notNull := True\<rparr>] else cs) cs is"

definition setPrimaryKey :: "catalog \<Rightarrow> string \<Rightarrow> int list \<Rightarrow> catalog \<times> bool" where
  "setPrimaryKey cat n is =
     (case getTable cat n of
        None \<Rightarrow> (cat, False)
      | Some t \<Rightarrow>
          (cat\<lparr>cat_tables := AList.update n
             (t\<lparr>ts_primaryKey := is, ts_columns := require_columns is (ts_columns t)\<rparr>) (cat_tables cat)\<rparr>, True))"

definition allIndexes :: "catalog \<Rightarrow> (string \<times> string \<times> string list) list" where
  "allIndexes cat = cat_indexes cat"

definition restoreTable :: "catalog \<Rightarrow> table_schema \<Rightarrow> catalog" where
  "restoreTable cat t =
     put_table (cat\<lparr>cat_names := AList.update (ts_id t) (ts_name t) (cat_names cat),
                    nextTableId := (if ts_id t \<ge> nextTableId cat then ts_id t + 1 else nextTableId cat)\<rparr>) t"

definition setNextTableId :: "catalog \<Rightarrow> int \<Rightarrow> catalog" where
  "setNextTableId cat v = cat\<lparr>nextTableId := v\<rparr>"

definition setColumnCheckExpr :: "catalog \<Rightarrow> string \<Rightarrow> int \<Rightarrow> expr \<Rightarrow> catalog \<times> bool" where
  "setColumnCheckExpr cat n i e =
     (case getTable cat n of
        None \<Rightarrow> (cat, False)
      | Some t \<Rightarrow>
          if i < 0 \<or> i \<ge> int (length (ts_columns t)) then (cat, False)
          else (cat\<lparr>cat_tables := AList.update n
                  (t\<lparr>ts_columns := (ts_columns t)[nat i := (ts_columns t ! nat i)\<lparr>cs_check := Some e\<rparr>]\<rparr>)
                  (cat_tables cat)\<rparr>, True))"

section \<open>Column positions\<close>

lemma column_index_from_shift: "column_index_from i n cs = (let j = column_index_from 0 n cs in if j < 0 then - 1 else i + j)"
proof (induction cs arbitrary: i)
  case (Cons c cs)
  show ?case using Cons.IH [of "i + 1"] Cons.IH [of 1] by (auto simp: Let_def)
qed simp

lemma columnIndex_range:
  assumes "columnIndex_of t n \<noteq> - 1"
  shows "0 \<le> columnIndex_of t n \<and> columnIndex_of t n < int (length (ts_columns t)) \<and>
    cs_name (ts_columns t ! nat (columnIndex_of t n)) = n"
proof -
  have "column_index_from 0 n cs = - 1 \<or> (0 \<le> column_index_from 0 n cs \<and> column_index_from 0 n cs < int (length cs) \<and>
      cs_name (cs ! nat (column_index_from 0 n cs)) = n)" for cs
  proof (induction cs)
    case (Cons c cs)
    then show ?case using column_index_from_shift [of 1 n cs]
      by (auto simp: Let_def nat_add_distrib)
  qed simp
  from this [of "ts_columns t"]
  show ?thesis using assms by (auto simp: columnIndex_of_def)
qed

lemma columnIndex_neg: "columnIndex_of t n < 0 \<longleftrightarrow> columnIndex_of t n = - 1"
  using columnIndex_range [of t n] by linarith

section \<open>The catalog stays consistent\<close>

text \<open>
  The two maps of relations agree, identifiers are below the next one, foreign keys sit on columns of
  the table, and an index is on a relation that exists.
\<close>

definition schema_ok :: "table_schema \<Rightarrow> bool" where
  "schema_ok t \<longleftrightarrow>
     (\<forall>fk\<in>set (ts_foreignKeys t). 0 \<le> fk_column fk \<and> fk_column fk < int (length (ts_columns t)))"

definition catalog_inv :: "catalog \<Rightarrow> bool" where
  "catalog_inv cat \<longleftrightarrow>
     (\<forall>n t. getTable cat n = Some t \<longrightarrow>
        ts_name t = n \<and> map_of (cat_names cat) (ts_id t) = Some n \<and> schema_ok t) \<and>
     (\<forall>i n. map_of (cat_names cat) i = Some n \<longrightarrow>
        i < nextTableId cat \<and> (\<exists>t. getTable cat n = Some t \<and> ts_id t = i)) \<and>
     (\<forall>x n cols. (x, n, cols) \<in> set (cat_indexes cat) \<longrightarrow> cat_hasTable cat n)"

lemma invD:
  assumes "catalog_inv cat" "getTable cat n = Some t"
  shows "ts_name t = n" "map_of (cat_names cat) (ts_id t) = Some n" "schema_ok t"
  using assms by (auto simp: catalog_inv_def)

lemma inv_idD:
  assumes "catalog_inv cat" "map_of (cat_names cat) i = Some n"
  obtains t where "getTable cat n = Some t" "ts_id t = i" "i < nextTableId cat"
  using assms unfolding catalog_inv_def by blast

lemma set_update: "x \<in> set (AList.update k v al) \<Longrightarrow> x = (k, v) \<or> x \<in> set al"
  by (induction al) (auto split: if_splits)

lemma set_delete: "x \<in> set (AList.delete k al) \<Longrightarrow> x \<in> set al"
  by (simp add: AList.delete_eq)

lemma inv_hasTable: "catalog_inv cat \<Longrightarrow> (x, n, cols) \<in> set (cat_indexes cat) \<Longrightarrow> cat_hasTable cat n"
  unfolding catalog_inv_def by blast

lemma inv_change:
  assumes inv: "catalog_inv cat" and t: "getTable cat n = Some t"
    and same: "ts_name t' = ts_name t" "ts_id t' = ts_id t" "schema_ok t'"
  shows "catalog_inv (cat\<lparr>cat_tables := AList.update n t' (cat_tables cat)\<rparr>)"
proof -
  let ?c = "cat\<lparr>cat_tables := AList.update n t' (cat_tables cat)\<rparr>"
  have get: "getTable ?c m = (if m = n then Some t' else getTable cat m)" for m
    by (simp add: getTable_def update_conv')
  have "\<exists>t. getTable ?c m = Some t \<and> ts_id t = i" if "map_of (cat_names cat) i = Some m" for i m
    using inv_idD [OF inv that] t same(2) by (metis get option.inject)
  then show ?thesis
    using inv t same unfolding catalog_inv_def by (auto simp: get cat_hasTable_def split: if_splits)
qed

lemma inv_add_relation:
  assumes inv: "catalog_inv cat" and new: "getTable cat (ts_name t) = None"
    and t: "ts_id t = nextTableId cat" "schema_ok t"
  shows "catalog_inv (add_relation cat t)"
proof -
  let ?c = "add_relation cat t"
  have get: "getTable ?c m = (if m = ts_name t then Some t else getTable cat m)" for m
    by (simp add: getTable_def add_relation_def put_table_def update_conv')
  have ids: "map_of (cat_names ?c) i = (if i = nextTableId cat then Some (ts_name t) else map_of (cat_names cat) i)" for i
    by (simp add: add_relation_def put_table_def update_conv' t(1))
  have other: "cat_indexes ?c = cat_indexes cat" "nextTableId ?c = nextTableId cat + 1"
    by (simp_all add: add_relation_def put_table_def)
  have fresh: "map_of (cat_names cat) (nextTableId cat) = None"
    using inv_idD [OF inv] by (metis less_irrefl not_Some_eq)
  show ?thesis
    unfolding catalog_inv_def
  proof (intro conjI allI impI)
    fix n u
    assume u: "getTable ?c n = Some u"
    have "ts_name u = n \<and> map_of (cat_names ?c) (ts_id u) = Some n \<and> schema_ok u"
    proof (cases "n = ts_name t")
      case True
      then have "u = t" using u by (simp add: get)
      then show ?thesis using True t ids [of "ts_id t"] by simp
    next
      case False
      then have "getTable cat n = Some u" using u by (simp add: get)
      note old = invD [OF inv this]
      then have "ts_id u \<noteq> nextTableId cat" using fresh by auto
      then show ?thesis using old by (simp add: ids)
    qed
    then show "ts_name u = n" "map_of (cat_names ?c) (ts_id u) = Some n" "schema_ok u" by simp_all
  next
    fix i n
    assume i: "map_of (cat_names ?c) i = Some n"
    have old: "i < nextTableId cat \<and> (\<exists>u. getTable cat n = Some u \<and> ts_id u = i)"
      if "map_of (cat_names cat) i = Some n"
      using inv_idD [OF inv that] by metis
    show "i < nextTableId ?c" using i old by (auto simp: ids other split: if_splits)
    show "\<exists>u. getTable ?c n = Some u \<and> ts_id u = i"
    proof (cases "i = nextTableId cat")
      case True
      then show ?thesis using i t(1) by (simp add: ids get)
    next
      case False
      then show ?thesis using i old new by (auto simp: ids get)
    qed
  next
    fix x n cols
    assume "(x, n, cols) \<in> set (cat_indexes ?c)"
    then have "cat_hasTable cat n" using inv_hasTable [OF inv] by (simp add: other)
    then show "cat_hasTable ?c n" by (simp add: cat_hasTable_def get)
  qed
qed

lemma inv_drop:
  assumes inv: "catalog_inv cat"
  shows "catalog_inv (fst (cat_dropTable cat n))"
proof (cases "getTable cat n")
  case None
  then show ?thesis using inv by (simp add: cat_dropTable_def)
next
  case (Some t)
  let ?c = "fst (cat_dropTable cat n)"
  have get: "getTable ?c m = (if m = n then None else getTable cat m)" for m
    using Some by (simp add: cat_dropTable_def getTable_def delete_conv')
  have ids: "map_of (cat_names ?c) i = (if i = ts_id t then None else map_of (cat_names cat) i)" for i
    using Some by (simp add: cat_dropTable_def delete_conv')
  have other: "nextTableId ?c = nextTableId cat" "cat_indexes ?c = filter (\<lambda>(_, tab, _). tab \<noteq> n) (cat_indexes cat)"
    using Some by (simp_all add: cat_dropTable_def)
  show ?thesis
    unfolding catalog_inv_def
  proof (intro conjI allI impI)
    fix m u
    assume "getTable ?c m = Some u"
    then have u: "getTable cat m = Some u" "m \<noteq> n" by (simp_all add: get split: if_splits)
    then have "ts_id u \<noteq> ts_id t" using invD(2) [OF inv Some] invD(2) [OF inv u(1)] by auto
    then show "ts_name u = m" "map_of (cat_names ?c) (ts_id u) = Some m" "schema_ok u"
      using invD [OF inv u(1)] by (simp_all add: ids)
  next
    fix i m
    assume "map_of (cat_names ?c) i = Some m"
    then have i: "map_of (cat_names cat) i = Some m" "i \<noteq> ts_id t" by (simp_all add: ids split: if_splits)
    then obtain u where u: "getTable cat m = Some u" "ts_id u = i" "i < nextTableId cat" using inv_idD [OF inv] by blast
    then show "i < nextTableId ?c" "\<exists>u. getTable ?c m = Some u \<and> ts_id u = i"
      using i(2) Some by (auto simp: other get)
  next
    fix x m cols
    assume "(x, m, cols) \<in> set (cat_indexes ?c)"
    then have "cat_hasTable cat m" "m \<noteq> n" using inv_hasTable [OF inv] by (auto simp: other)
    then show "cat_hasTable ?c m" by (simp add: cat_hasTable_def get)
  qed
qed

lemma length_remove_nth: "i < length xs \<Longrightarrow> length (remove_nth i xs) = length xs - 1"
  by (simp add: remove_nth_def)

lemma nth_remove_nth:
  "j < i \<Longrightarrow> i < length xs \<Longrightarrow> remove_nth i xs ! j = xs ! j"
  "i \<le> j \<Longrightarrow> j + 1 < length xs \<Longrightarrow> remove_nth i xs ! j = xs ! (j + 1)"
  by (simp_all add: remove_nth_def nth_append)

lemma schema_ok_without:
  assumes "schema_ok t" "0 \<le> i" "i < int (length (ts_columns t))"
  shows "schema_ok (without_column t i)"
proof -
  have "int (length (remove_nth (nat i) (ts_columns t))) = int (length (ts_columns t)) - 1"
    using assms(2,3) by (subst length_remove_nth) auto
  then show ?thesis using assms
    by (force simp: schema_ok_def without_column_def shift_keys_def)
qed

lemma schema_ok_columns:
  "schema_ok t \<Longrightarrow> length (ts_columns t) \<le> length cs \<Longrightarrow> schema_ok (t\<lparr>ts_columns := cs\<rparr>)"
  by (force simp: schema_ok_def)

lemma length_require [simp]: "length (require_columns is cs) = length cs"
  unfolding require_columns_def by (induction "is" arbitrary: cs) simp_all

section \<open>Steps\<close>

text \<open>The changes of the catalog a session makes; a relation is restored from the catalog file under a
  name and an identifier of its own, and so is the next identifier, which is above all of the file.\<close>

inductive catalog_step :: "catalog \<Rightarrow> catalog \<Rightarrow> bool" where
  "catalog_step cat (fst (createTable cat n cs))"
| "catalog_step cat (fst (createView cat n cs q src))"
| "catalog_step cat (fst (cat_dropTable cat n))"
| "catalog_step cat (fst (createIndex cat i n cols))"
| "catalog_step cat (fst (cat_dropIndex cat i))"
| "catalog_step cat (fst (addColumn cat n c))"
| "catalog_step cat (fst (cat_dropColumn cat n c))"
| "0 \<le> fk_column fk \<Longrightarrow> (\<And>t. getTable cat n = Some t \<Longrightarrow> fk_column fk < int (length (ts_columns t))) \<Longrightarrow>
   catalog_step cat (fst (addForeignKey cat n fk))"
| "catalog_step cat (fst (setPrimaryKey cat n is))"
| "catalog_step cat (fst (setColumnCheckExpr cat n k e))"
| "catalog_step cat (catalog_reset cat)"
| "getTable cat (ts_name t) = None \<Longrightarrow> map_of (cat_names cat) (ts_id t) = None \<Longrightarrow> schema_ok t \<Longrightarrow>
   catalog_step cat (restoreTable cat t)"
| "\<forall>i\<in>dom (map_of (cat_names cat)). i < v \<Longrightarrow> catalog_step cat (setNextTableId cat v)"

lemma inv_restore:
  assumes inv: "catalog_inv cat" and new: "getTable cat (ts_name t) = None" "map_of (cat_names cat) (ts_id t) = None"
    and t: "schema_ok t"
  shows "catalog_inv (restoreTable cat t)"
proof -
  let ?c = "restoreTable cat t"
  have get: "getTable ?c m = (if m = ts_name t then Some t else getTable cat m)" for m
    by (simp add: getTable_def restoreTable_def put_table_def update_conv')
  have ids: "map_of (cat_names ?c) i = (if i = ts_id t then Some (ts_name t) else map_of (cat_names cat) i)" for i
    by (simp add: restoreTable_def put_table_def update_conv')
  have other: "cat_indexes ?c = cat_indexes cat" "ts_id t < nextTableId ?c" "nextTableId cat \<le> nextTableId ?c"
    by (simp_all add: restoreTable_def put_table_def)
  show ?thesis
    unfolding catalog_inv_def
  proof (intro conjI allI impI)
    fix n u
    assume u: "getTable ?c n = Some u"
    have "ts_name u = n \<and> map_of (cat_names ?c) (ts_id u) = Some n \<and> schema_ok u"
    proof (cases "n = ts_name t")
      case True
      then have "u = t" using u by (simp add: get)
      then show ?thesis using True t ids [of "ts_id t"] by simp
    next
      case False
      then have "getTable cat n = Some u" using u by (simp add: get)
      note old = invD [OF inv this]
      then have "ts_id u \<noteq> ts_id t" using new(2) by auto
      then show ?thesis using old by (simp add: ids)
    qed
    then show "ts_name u = n" "map_of (cat_names ?c) (ts_id u) = Some n" "schema_ok u" by simp_all
  next
    fix i n
    assume i: "map_of (cat_names ?c) i = Some n"
    show "i < nextTableId ?c"
      using i other(2,3) inv_idD [OF inv] by (metis ids order_less_le_trans)
    show "\<exists>u. getTable ?c n = Some u \<and> ts_id u = i"
      using i new(1) inv_idD [OF inv] by (metis get ids option.discI option.inject)
  next
    fix x n cols
    assume "(x, n, cols) \<in> set (cat_indexes ?c)"
    then have "cat_hasTable cat n" using inv_hasTable [OF inv] by (simp add: other)
    then show "cat_hasTable ?c n" by (simp add: cat_hasTable_def get)
  qed
qed

lemma inv_indexes:
  assumes "catalog_inv cat" "\<And>x n cols. (x, n, cols) \<in> set is \<Longrightarrow> cat_hasTable cat n"
  shows "catalog_inv (cat\<lparr>cat_indexes := is\<rparr>)"
  using assms unfolding catalog_inv_def by (simp add: getTable_def cat_hasTable_def)

lemma step_inv:
  assumes "catalog_step cat cat'" "catalog_inv cat"
  shows "catalog_inv cat'"
  using assms
proof (cases rule: catalog_step.cases)
  case (1 n cs)
  then show ?thesis using assms(2)
    by (auto simp: createTable_def cat_hasTable_def new_table_def schema_ok_def intro!: inv_add_relation)
next
  case (2 n cs q src)
  then show ?thesis using assms(2)
    by (auto simp: createView_def cat_hasTable_def new_table_def schema_ok_def intro!: inv_add_relation)
next
  case (3 n)
  then show ?thesis using assms(2) inv_drop by blast
next
  case (4 i n cols)
  have "catalog_inv (cat\<lparr>cat_indexes := AList.update i (n, cols) (cat_indexes cat)\<rparr>)" if "getTable cat n = Some t" for t
  proof (rule inv_indexes [OF assms(2)])
    fix x m ds
    assume "(x, m, ds) \<in> set (AList.update i (n, cols) (cat_indexes cat))"
    then have "(m, ds) = (n, cols) \<or> (x, m, ds) \<in> set (cat_indexes cat)"
      using set_update by fastforce
    then show "cat_hasTable cat m" using inv_hasTable [OF assms(2)] that by (auto simp: cat_hasTable_def)
  qed
  then show ?thesis using assms(2) 4 by (auto simp: createIndex_def split: option.splits)
next
  case (5 i)
  show ?thesis unfolding 5 cat_dropIndex_def fst_conv
    by (rule inv_indexes [OF assms(2)]) (rule inv_hasTable [OF assms(2) set_delete])
next
  case (6 n c)
  then show ?thesis using assms(2) invD [OF assms(2)]
    by (auto simp: addColumn_def intro!: inv_change schema_ok_columns split: option.splits)
next
  case (7 n c)
  then show ?thesis using assms(2) invD [OF assms(2)] columnIndex_range columnIndex_neg
    by (fastforce simp: cat_dropColumn_def Let_def without_column_def intro!: inv_change schema_ok_without [unfolded without_column_def] split: option.splits)
next
  case (8 fk n)
  then show ?thesis using assms(2) invD [OF assms(2)]
    by (auto simp: addForeignKey_def schema_ok_def intro!: inv_change split: option.splits)
next
  case (9 n "is")
  then show ?thesis using assms(2) invD [OF assms(2)]
    by (auto simp: setPrimaryKey_def schema_ok_def intro!: inv_change split: option.splits)
next
  case (10 n k e)
  then show ?thesis using assms(2) invD [OF assms(2)]
    by (auto simp: setColumnCheckExpr_def schema_ok_def intro!: inv_change split: option.splits)
next
  case 11
  then show ?thesis by (simp add: catalog_reset_def empty_catalog_def catalog_inv_def getTable_def)
next
  case (12 t)
  then show ?thesis using assms(2) inv_restore by blast
next
  case (13 v)
  have get: "getTable (setNextTableId cat v) n = getTable cat n" for n by (simp add: setNextTableId_def getTable_def)
  then show ?thesis using assms(2) 13 unfolding catalog_inv_def cat_hasTable_def by (auto simp: setNextTableId_def)
qed

lemma reachable_inv: "catalog_step\<^sup>*\<^sup>* empty_catalog cat \<Longrightarrow> catalog_inv cat"
proof (induction rule: rtranclp_induct)
  case base
  then show ?case by (simp add: empty_catalog_def catalog_inv_def getTable_def)
next
  case (step cat cat')
  then show ?case using step_inv by blast
qed

lemma moved_key:
  assumes "fk_column fk \<noteq> int i" "0 \<le> fk_column fk" "fk_column fk < int (length cs)" "i < length cs"
  shows "remove_nth i cs ! nat (if fk_column fk > int i then fk_column fk - 1 else fk_column fk) = cs ! nat (fk_column fk)"
proof (cases "fk_column fk > int i")
  case True
  then have "i \<le> nat (fk_column fk - 1)" "nat (fk_column fk - 1) + 1 < length cs"
    "nat (fk_column fk - 1) + 1 = nat (fk_column fk)" using assms(3) by auto
  then show ?thesis using nth_remove_nth(2) [of i "nat (fk_column fk - 1)" cs] True by simp
next
  case False
  then show ?thesis using assms by (simp add: nth_remove_nth(1))
qed

text \<open>C22: In every catalog a session can produce, a relation is found by its identifier exactly when it
  is found by its name, its identifier is below the next one, and its foreign keys sit on columns it has.\<close>

theorem catalog_consistent:
  assumes "catalog_step\<^sup>*\<^sup>* empty_catalog cat"
  shows "(getTableById cat i = Some t \<longleftrightarrow> getTable cat (ts_name t) = Some t \<and> ts_id t = i) \<and>
    (getTable cat n = Some t \<longrightarrow> ts_id t < nextTableId cat \<and>
      (\<forall>fk\<in>set (ts_foreignKeys t). 0 \<le> fk_column fk \<and> fk_column fk < int (length (ts_columns t))))"
proof (intro conjI iffI impI)
  note inv = reachable_inv [OF assms]
  show "getTable cat (ts_name t) = Some t" "ts_id t = i" if "getTableById cat i = Some t"
  proof -
    from that obtain n where n: "map_of (cat_names cat) i = Some n" "getTable cat n = Some t"
      by (auto simp: getTableById_def bind_eq_Some_conv)
    then show "getTable cat (ts_name t) = Some t" "ts_id t = i"
      using inv_idD [OF inv n(1)] invD(1) [OF inv n(2)] by auto
  qed
  show "getTableById cat i = Some t" if "getTable cat (ts_name t) = Some t \<and> ts_id t = i"
    using that invD(2) [OF inv] by (auto simp: getTableById_def)
  show "ts_id t < nextTableId cat" if "getTable cat n = Some t"
    using invD(2) [OF inv that] inv_idD [OF inv] by metis
  show "\<forall>fk\<in>set (ts_foreignKeys t). 0 \<le> fk_column fk \<and> fk_column fk < int (length (ts_columns t))"
    if "getTable cat n = Some t"
    using invD(3) [OF inv that] by (simp add: schema_ok_def)
qed

theorem catalog_consistent_witness:
  "getTableById (fst (createTable empty_catalog ''t'' [])) 0 = Some (new_table empty_catalog ''t'' [] False None [])"
proof -
  have "catalog_step\<^sup>*\<^sup>* empty_catalog (fst (createTable empty_catalog ''t'' []))"
    by (intro r_into_rtranclp catalog_step.intros)
  from catalog_consistent [OF this, of 0 "new_table empty_catalog ''t'' [] False None []"] show ?thesis
    by (simp add: createTable_def cat_hasTable_def getTable_def add_relation_def put_table_def new_table_def empty_catalog_def)
qed

lemma dropColumn_schema:
  assumes "getTable cat n = Some t" "columnIndex_of t c = int i"
    and "getTable (fst (cat_dropColumn cat n c)) n = Some t'"
  shows "t' = without_column t (int i)" "i < length (ts_columns t)"
  using assms columnIndex_range [of t c] by (simp_all add: cat_dropColumn_def getTable_def update_conv')

text \<open>After a column is dropped, every remaining foreign key sits on the column it sat on before.\<close>

lemma dropColumn_moves_keys:
  assumes "getTable cat n = Some t" "columnIndex_of t c = int i" "schema_ok t"
    and "getTable (fst (cat_dropColumn cat n c)) n = Some t'"
  shows "map (\<lambda>fk. (ts_columns t' ! nat (fk_column fk), fk_table fk, fk_refColumn fk)) (ts_foreignKeys t') =
      map (\<lambda>fk. (ts_columns t ! nat (fk_column fk), fk_table fk, fk_refColumn fk))
        (filter (\<lambda>fk. fk_column fk \<noteq> int i) (ts_foreignKeys t))"
proof -
  note t' = dropColumn_schema [OF assms(1,2,4)]
  let ?f = "\<lambda>fk. if fk_column fk > int i then fk\<lparr>fk_column := fk_column fk - 1\<rparr> else fk"
  let ?of = "\<lambda>cs fk. (cs ! nat (fk_column fk), fk_table fk, fk_refColumn fk)"
  have cols: "ts_columns t' = remove_nth i (ts_columns t)"
    and keys: "ts_foreignKeys t' = map ?f (filter (\<lambda>fk. fk_column fk \<noteq> int i) (ts_foreignKeys t))"
    by (simp_all add: t'(1) without_column_def shift_keys_def)
  have "?of (ts_columns t') (?f fk) = ?of (ts_columns t) fk"
    if "fk \<in> set (filter (\<lambda>fk. fk_column fk \<noteq> int i) (ts_foreignKeys t))" for fk
  proof -
    have "fk_column fk \<noteq> int i" "0 \<le> fk_column fk" "fk_column fk < int (length (ts_columns t))"
      using that assms(3) by (simp_all add: schema_ok_def)
    from moved_key [OF this t'(2)] show ?thesis unfolding cols by (simp split: if_splits)
  qed
  then show ?thesis unfolding keys map_map comp_def by (rule map_cong [OF refl])
qed

text \<open>A table of three columns with a foreign key and the composite primary key on the last two.\<close>

definition demo_table :: table_schema where
  "demo_table = \<lparr>ts_id = 0, ts_name = ''t'',
     ts_columns = [plain_column ''a'' DInt 0, plain_column ''b'' DInt 0, plain_column ''c'' DInt 0],
     ts_foreignKeys = [\<lparr>fk_column = 2, fk_table = ''p'', fk_refColumn = ''k'', fk_onDelete = Cascade, fk_onUpdate = Restrict\<rparr>],
     ts_primaryKey = [1, 2], ts_isView = False, ts_viewQuery = None, ts_viewSource = []\<rparr>"

definition demo_catalog :: catalog where
  "demo_catalog = restoreTable empty_catalog demo_table"

lemma demo:
  "getTable demo_catalog ''t'' = Some demo_table" "columnIndex_of demo_table ''a'' = int 0" "schema_ok demo_table"
  "getTable (fst (cat_dropColumn demo_catalog ''t'' ''a'')) ''t'' = Some (without_column demo_table (int 0))"
proof -
  show t: "getTable demo_catalog ''t'' = Some demo_table"
    by (simp add: demo_catalog_def restoreTable_def put_table_def getTable_def empty_catalog_def)
      (simp add: demo_table_def)
  show i: "columnIndex_of demo_table ''a'' = int 0"
    by (simp add: demo_table_def columnIndex_of_def plain_column_def)
  show "schema_ok demo_table" by (simp add: demo_table_def schema_ok_def)
  show "getTable (fst (cat_dropColumn demo_catalog ''t'' ''a'')) ''t'' = Some (without_column demo_table (int 0))"
    using t i by (simp add: cat_dropColumn_def) (simp add: getTable_def update_conv')
qed

lemma dropColumn_moves_keys_witness:
  "map (\<lambda>fk. (ts_columns (without_column demo_table (int 0)) ! nat (fk_column fk), fk_table fk, fk_refColumn fk))
      (ts_foreignKeys (without_column demo_table (int 0))) = [(plain_column ''c'' DInt 0, ''p'', ''k'')]"
  using dropColumn_moves_keys [OF demo] by (simp add: demo_table_def)

text \<open>The composite primary key is not moved: when it includes the last column, then after any
  column is dropped it names a position behind the end of the row.\<close>

lemma dropColumn_strands_primary_key:
  assumes "getTable cat n = Some t" "columnIndex_of t c = int i"
    and "int (length (ts_columns t)) - 1 \<in> set (ts_primaryKey t)"
    and "getTable (fst (cat_dropColumn cat n c)) n = Some t'"
  shows "\<exists>k\<in>set (ts_primaryKey t'). k \<ge> int (length (ts_columns t'))"
proof -
  note t' = dropColumn_schema [OF assms(1,2,4)]
  then have "ts_primaryKey t' = ts_primaryKey t" "length (ts_columns t') = length (ts_columns t) - 1"
    using length_remove_nth [OF t'(2)] by (simp_all add: without_column_def)
  then show ?thesis using assms(3) t'(2) by (intro bexI) auto
qed

lemma dropColumn_strands_primary_key_witness:
  "\<exists>k\<in>set (ts_primaryKey (without_column demo_table (int 0))). k \<ge> int (length (ts_columns (without_column demo_table (int 0))))"
  by (rule dropColumn_strands_primary_key [OF demo(1,2) _ demo(4)]) (simp add: demo_table_def)

end
