(* ===== verification/Analyzer.thy ===== *)
theory Analyzer
  imports Catalog Parser
begin

text \<open>
  The semantic analyzer, \<open>src/src/frontend/semantic_analyzer.cpp\<close>: names are resolved against the
  catalog, expressions get their types, and the statements that define things change the catalog. A
  visit returns the annotated node. The state is the analyzer with its catalog; it survives a
  \<open>SemanticError\<close>, since what was done to the catalog before the error stays done.

  \<open>joined\<close> is \<open>leftTable_\<close> and \<open>rightTable_\<close>, set exactly while \<open>joinMode_\<close> holds, and
  \<open>leftColumnCount_\<close> is the number of columns of the left one. The scopes and the subqueries are
  lists with the innermost first; of a subquery on the stack only the flag \<open>correlated\<close> is kept.
\<close>

section \<open>State\<close>

record analyzer =
  a_catalog :: catalog
  currentTable :: "table_schema option"
  currentAlias :: string
  joined :: "(table_schema \<times> table_schema) option"
  leftAlias :: string
  rightAlias :: string
  joinScopes :: "(table_schema \<times> string \<times> int) list"
  nWayJoin :: bool
  outerScopes :: "(table_schema \<times> string) list"
  subqueryStack :: "bool list"

text \<open>A \<open>SemanticError\<close>, or the \<open>std::runtime_error\<close> of \<open>expressionToString\<close>.\<close>

datatype sem_error = SemanticError string | RuntimeError string

type_synonym 'a sem = "analyzer \<Rightarrow> (sem_error + 'a) \<times> analyzer"

definition analyzer_of :: "catalog \<Rightarrow> analyzer" where
  "analyzer_of cat =
     \<lparr>a_catalog = cat, currentTable = None, currentAlias = [], joined = None, leftAlias = [], rightAlias = [],
      joinScopes = [], nWayJoin = False, outerScopes = [], subqueryStack = []\<rparr>"

definition s_return :: "'a \<Rightarrow> 'a sem" where
  "s_return x st = (Inr x, st)"

definition s_bind :: "'a sem \<Rightarrow> ('a \<Rightarrow> 'b sem) \<Rightarrow> 'b sem" where
  "s_bind m f st = (case m st of (Inl e, st') \<Rightarrow> (Inl e, st') | (Inr x, st') \<Rightarrow> f x st')"

definition semantic_error :: "string \<Rightarrow> 'a sem" where
  "semantic_error msg st = (Inl (SemanticError msg), st)"

definition s_lift :: "sem_error + 'a \<Rightarrow> 'a sem" where
  "s_lift r st = (r, st)"

definition s_get :: "analyzer sem" where
  "s_get st = (Inr st, st)"

definition s_modify :: "(analyzer \<Rightarrow> analyzer) \<Rightarrow> unit sem" where
  "s_modify f st = (Inr (), f st)"

definition require :: "bool \<Rightarrow> string \<Rightarrow> unit sem" where
  "require b msg = (if b then s_return () else semantic_error msg)"

fun s_map :: "('a \<Rightarrow> 'b sem) \<Rightarrow> 'a list \<Rightarrow> 'b list sem" where
  "s_map f [] = s_return []"
| "s_map f (x # xs) = s_bind (f x) (\<lambda>y. s_bind (s_map f xs) (\<lambda>ys. s_return (y # ys)))"

definition s_opt :: "('a \<Rightarrow> 'b sem) \<Rightarrow> 'a option \<Rightarrow> 'b option sem" where
  "s_opt f x = (case x of None \<Rightarrow> s_return None | Some y \<Rightarrow> s_bind (f y) (\<lambda>z. s_return (Some z)))"

lemma s_map_cong [fundef_cong]: "xs = ys \<Longrightarrow> (\<And>x. x \<in> set ys \<Longrightarrow> f x = g x) \<Longrightarrow> s_map f xs = s_map g ys"
  by (induction ys arbitrary: xs) auto

lemma s_opt_cong [fundef_cong]: "x = y \<Longrightarrow> (\<And>z. y = Some z \<Longrightarrow> f z = g z) \<Longrightarrow> s_opt f x = s_opt g y"
  by (simp add: s_opt_def split: option.split)

section \<open>Types\<close>

definition isStringType :: "data_type \<Rightarrow> bool" where
  "isStringType t \<longleftrightarrow> t = DText \<or> t = DVarchar \<or> t = DDate \<or> t = DTimestamp"

definition isNumericType :: "data_type \<Rightarrow> bool" where
  "isNumericType t \<longleftrightarrow> t = DInt \<or> t = DFloat"

definition comparable :: "data_type \<Rightarrow> data_type \<Rightarrow> bool" where
  "comparable a b \<longleftrightarrow>
     (if isStringType a \<and> isStringType b then True
      else if isNumericType a \<and> isNumericType b then True else a = b)"

fun literalMatchesColumn :: "val \<Rightarrow> data_type \<Rightarrow> bool" where
  "literalMatchesColumn (VInt _) c \<longleftrightarrow> c = DInt \<or> c = DFloat"
| "literalMatchesColumn (VDouble _) c \<longleftrightarrow> c = DFloat"
| "literalMatchesColumn (VBool _) c \<longleftrightarrow> c = DBool"
| "literalMatchesColumn (VText _) c \<longleftrightarrow> isStringType c"
| "literalMatchesColumn VNull c \<longleftrightarrow> True"

fun defaultMatchesColumn :: "val \<Rightarrow> data_type \<Rightarrow> bool" where
  "defaultMatchesColumn (VInt _) c \<longleftrightarrow> c = DInt \<or> c = DFloat"
| "defaultMatchesColumn (VDouble _) c \<longleftrightarrow> c = DFloat"
| "defaultMatchesColumn (VBool _) c \<longleftrightarrow> c = DBool"
| "defaultMatchesColumn (VText _) c \<longleftrightarrow> isStringType c"
| "defaultMatchesColumn VNull c \<longleftrightarrow> True"

fun literal_type :: "val \<Rightarrow> data_type option" where
  "literal_type (VInt _) = Some DInt"
| "literal_type (VDouble _) = Some DFloat"
| "literal_type (VText _) = Some DText"
| "literal_type (VBool _) = Some DBool"
| "literal_type VNull = None"

text \<open>\<open>resolvedType\<close> of a node.\<close>

fun rtype :: "expr \<Rightarrow> data_type option" where
  "rtype (LiteralExpr t _) = t"
| "rtype (ColumnRef c) = col_type c"
| "rtype (BinaryExpr t _ _ _) = t"
| "rtype (LogicalExpr t _ _ _) = t"
| "rtype (ArithmeticExpr t _ _ _) = t"
| "rtype (UnaryExpr t _) = t"
| "rtype (IsNullExpr t _ _) = t"
| "rtype (InExpr t _ _ _ _) = t"
| "rtype (BetweenExpr t _ _ _ _) = t"
| "rtype (LikeExpr t _ _ _) = t"
| "rtype (FunctionExpr f) = fn_type f"
| "rtype (CallExpr t _ _ _ _) = t"
| "rtype (CaseExpr t _ _) = t"
| "rtype (WindowExpr t _ _ _ _) = t"
| "rtype (SubqueryExpr q) = sub_type q"

definition value_or :: "'a option \<Rightarrow> 'a \<Rightarrow> 'a" where
  "value_or x d = (case x of None \<Rightarrow> d | Some y \<Rightarrow> y)"

definition quoted :: "string \<Rightarrow> string" where
  "quoted s = [CHR 0x27] @ s @ [CHR 0x27]"

section \<open>Columns\<close>

definition resolved :: "column_ref \<Rightarrow> table_schema \<Rightarrow> int \<Rightarrow> int \<Rightarrow> column_ref" where
  "resolved c t off idx =
     Col (Some (cs_type (ts_columns t ! nat idx))) (col_table c) (col_column c) (col_alias c) (computed c)
       (off + idx) (outerRef c) (bound c)"

definition outer_resolved :: "column_ref \<Rightarrow> table_schema \<Rightarrow> int \<Rightarrow> column_ref" where
  "outer_resolved c t idx =
     Col (Some (cs_type (ts_columns t ! nat idx))) (col_table c) (col_column c) (col_alias c) (computed c)
       idx True (bound c)"

fun outer_scope :: "column_ref \<Rightarrow> (table_schema \<times> string) list \<Rightarrow> (table_schema \<times> int) option" where
  "outer_scope c [] = None"
| "outer_scope c ((t, al) # scopes) =
     (if col_table c \<noteq> [] \<and> col_table c \<noteq> ts_name t \<and> col_table c \<noteq> al then outer_scope c scopes
      else let idx = columnIndex_of t (col_column c)
           in if idx < 0 then outer_scope c scopes else Some (t, idx))"

fun mark_correlated :: "bool list \<Rightarrow> bool list" where
  "mark_correlated [] = []"
| "mark_correlated (_ # bs) = True # bs"

text \<open>\<open>if (resolveOuter(node)) return; throw ...\<close>\<close>

definition resolveOuter :: "column_ref \<Rightarrow> string \<Rightarrow> column_ref sem" where
  "resolveOuter c msg =
     s_bind s_get (\<lambda>st. case outer_scope c (outerScopes st) of
        None \<Rightarrow> semantic_error msg
      | Some (t, idx) \<Rightarrow>
          s_bind (s_modify (\<lambda>st. st\<lparr>subqueryStack := mark_correlated (subqueryStack st)\<rparr>)) (\<lambda>_.
            s_return (outer_resolved c t idx)))"

definition unknown_column_in :: "string \<Rightarrow> string \<Rightarrow> string" where
  "unknown_column_in c t = ''unknown column '' @ quoted c @ '' in table '' @ quoted t"

definition in_scope :: "string \<Rightarrow> table_schema \<Rightarrow> string \<Rightarrow> bool" where
  "in_scope tab t al \<longleftrightarrow> tab = ts_name t \<or> (al \<noteq> [] \<and> tab = al)"

definition resolve_nway :: "column_ref \<Rightarrow> column_ref sem" where
  "resolve_nway c =
     s_bind s_get (\<lambda>st.
       let tab = col_table c; col = col_column c
       in if tab \<noteq> [] then
            (case find (\<lambda>(t, al, _). in_scope tab t al) (joinScopes st) of
               None \<Rightarrow> semantic_error (''unknown table qualifier '' @ quoted tab)
             | Some (t, _, off) \<Rightarrow>
                 let idx = columnIndex_of t col
                 in if idx < 0 then semantic_error (unknown_column_in col tab) else s_return (resolved c t off idx))
          else
            (case filter (\<lambda>(t, _, _). columnIndex_of t col \<ge> 0) (joinScopes st) of
               [] \<Rightarrow> resolveOuter c (''unknown column '' @ quoted col)
             | [(t, _, off)] \<Rightarrow> s_return (resolved c t off (columnIndex_of t col))
             | _ \<Rightarrow> semantic_error (''ambiguous column '' @ quoted col)))"

definition resolve_joined :: "table_schema \<Rightarrow> table_schema \<Rightarrow> column_ref \<Rightarrow> column_ref sem" where
  "resolve_joined l r c =
     s_bind s_get (\<lambda>st.
       let tab = col_table c; col = col_column c; li = columnIndex_of l col; ri = columnIndex_of r col;
           leftCount = int (length (ts_columns l))
       in if tab \<noteq> [] then
            (if in_scope tab l (leftAlias st) then
               (if li < 0 then semantic_error (unknown_column_in col (ts_name l)) else s_return (resolved c l 0 li))
             else if in_scope tab r (rightAlias st) then
               (if ri < 0 then semantic_error (unknown_column_in col (ts_name r))
                else s_return (resolved c r leftCount ri))
             else semantic_error (''unknown table qualifier '' @ quoted tab))
          else if li \<ge> 0 \<and> ri \<ge> 0 then semantic_error (''ambiguous column '' @ quoted col)
          else if li \<ge> 0 then s_return (resolved c l 0 li)
          else if ri \<ge> 0 then s_return (resolved c r leftCount ri)
          else resolveOuter c (''unknown column '' @ quoted col))"

definition resolve_single :: "column_ref \<Rightarrow> column_ref sem" where
  "resolve_single c =
     s_bind s_get (\<lambda>st.
       let tab = col_table c; col = col_column c
       in case currentTable st of
            None \<Rightarrow> resolveOuter c (''column reference '' @ quoted col @ '' has no table in scope'')
          | Some t \<Rightarrow>
              if tab \<noteq> [] \<and> tab \<noteq> ts_name t \<and> tab \<noteq> currentAlias st then
                resolveOuter c (''unknown table qualifier '' @ quoted tab @ '' (expected '' @ quoted (ts_name t) @ '')'')
              else
                let idx = columnIndex_of t col
                in if idx < 0 then resolveOuter c (unknown_column_in col (ts_name t))
                   else s_return (resolved c t 0 idx))"

text \<open>\<open>visit(ColumnRef)\<close> for a column that is not computed.\<close>

definition resolve_column :: "column_ref \<Rightarrow> column_ref sem" where
  "resolve_column c =
     s_bind s_get (\<lambda>st.
       if nWayJoin st then resolve_nway c
       else case joined st of
         Some (l, r) \<Rightarrow> resolve_joined l r c
       | None \<Rightarrow> resolve_single c)"

section \<open>Typing\<close>

text \<open>What each kind of node is typed as, or why it is rejected, from the types of its operands.\<close>

type_synonym typing = "sem_error + data_type option"

definition reject :: "string \<Rightarrow> sem_error + 'a" where
  "reject msg = Inl (SemanticError msg)"

definition mismatch :: "data_type option \<Rightarrow> data_type option \<Rightarrow> bool" where
  "mismatch l r = (case (l, r) of (Some a, Some b) \<Rightarrow> \<not> comparable a b | _ \<Rightarrow> False)"

definition not_numeric :: "data_type option \<Rightarrow> bool" where
  "not_numeric t = (case t of Some a \<Rightarrow> \<not> isNumericType a | None \<Rightarrow> False)"

fun binary_type :: "data_type option \<Rightarrow> data_type option \<Rightarrow> typing" where
  "binary_type (Some a) (Some b) =
     (if comparable a b then Inr (Some DBool)
      else reject (''type mismatch in comparison: '' @ dataTypeName a @ '' vs '' @ dataTypeName b))"
| "binary_type _ _ = Inr (Some DBool)"

definition arithmetic_type :: "data_type option \<Rightarrow> data_type option \<Rightarrow> typing" where
  "arithmetic_type l r =
     (if not_numeric l \<or> not_numeric r then reject ''arithmetic operator requires numeric operands''
      else Inr (Some (if l = Some DFloat \<or> r = Some DFloat then DFloat else DInt)))"

definition logical_type :: "data_type option \<Rightarrow> data_type option \<Rightarrow> typing" where
  "logical_type l r =
     (if l \<noteq> Some DBool \<or> r \<noteq> Some DBool then reject ''operands of AND/OR must be boolean expressions''
      else Inr (Some DBool))"

definition not_type :: "data_type option \<Rightarrow> typing" where
  "not_type t =
     (if t \<noteq> Some DBool then reject ''operand of NOT must be a boolean expression'' else Inr (Some DBool))"

definition like_type :: "data_type option \<Rightarrow> typing" where
  "like_type t =
     (if (case t of Some a \<Rightarrow> \<not> isStringType a | None \<Rightarrow> False) then reject ''LIKE requires a text operand''
      else Inr (Some DBool))"

definition arity :: "nat list \<Rightarrow> nat \<Rightarrow> string \<Rightarrow> data_type option \<Rightarrow> typing" where
  "arity ns n msg t = (if n \<in> set ns then Inr t else reject msg)"

fun first_type :: "data_type option list \<Rightarrow> data_type option" where
  "first_type [] = None"
| "first_type (t # ts) = (if t = None then first_type ts else t)"

definition aggregate_names :: "string list" where
  "aggregate_names = [''COUNT'', ''SUM'', ''AVG'', ''MIN'', ''MAX'']"

definition call_type :: "string \<Rightarrow> bool \<Rightarrow> data_type \<Rightarrow> data_type option list \<Rightarrow> typing" where
  "call_type fn isCast castType ts =
     (let n = length ts; arg0 = (if ts = [] then None else hd ts)
      in if isCast then arity [1] n ''CAST takes one expression'' (Some castType)
         else if fn \<in> {''UPPER'', ''LOWER'', ''TRIM''} then arity [1] n (fn @ '' takes 1 argument'') (Some DText)
         else if fn = ''LENGTH'' then arity [1] n ''LENGTH takes 1 argument'' (Some DInt)
         else if fn = ''SUBSTR'' then arity [2, 3] n ''SUBSTR takes 2 or 3 arguments'' (Some DText)
         else if fn = ''ABS'' then
           arity [1] n ''ABS takes 1 argument'' (Some (if arg0 = Some DFloat then DFloat else DInt))
         else if fn = ''ROUND'' then arity [1, 2] n ''ROUND takes 1 or 2 arguments'' (Some DFloat)
         else if fn \<in> {''CEIL'', ''FLOOR''} then arity [1] n (fn @ '' takes 1 argument'') (Some DInt)
         else if fn = ''MOD'' then arity [2] n ''MOD takes 2 arguments'' (Some DInt)
         else if fn = ''COALESCE'' then
           (if ts = [] then reject ''COALESCE requires arguments'' else Inr (first_type ts))
         else if fn = ''NULLIF'' then arity [2] n ''NULLIF takes 2 arguments'' arg0
         else if fn \<in> set aggregate_names then
           reject (''aggregate '' @ quoted fn @ '' is only allowed in a FETCH list'')
         else reject (''unknown function '' @ quoted fn))"

text \<open>The type of an aggregate over an argument of type \<open>at\<close>.\<close>

definition function_type :: "string \<Rightarrow> data_type \<Rightarrow> typing" where
  "function_type fn at =
     (if fn \<in> {''SUM'', ''AVG''} \<and> \<not> isNumericType at then reject (fn @ '' requires a numeric column'')
      else Inr (Some (if fn = ''AVG'' then DFloat else if fn \<in> {''SUM'', ''MIN'', ''MAX''} then at else DInt)))"

definition window_type :: "string \<Rightarrow> data_type option \<Rightarrow> typing" where
  "window_type fn at =
     (if fn \<in> {''ROW_NUMBER'', ''RANK'', ''DENSE_RANK'', ''COUNT''} then Inr (Some DInt)
      else if fn \<in> {''SUM'', ''MIN'', ''MAX''} then Inr (Some (value_or at DInt))
      else if fn = ''AVG'' then Inr (Some DFloat)
      else reject (''unknown window function '' @ quoted fn))"

definition when_ok :: "data_type option \<Rightarrow> bool" where
  "when_ok t \<longleftrightarrow> t = None \<or> t = Some DBool"

definition case_type :: "(expr \<times> expr) list \<Rightarrow> expr option \<Rightarrow> data_type option" where
  "case_type branches els =
     first_type (map (\<lambda>(w, t). rtype t) branches @ (case els of None \<Rightarrow> [] | Some e \<Rightarrow> [rtype e]))"

section \<open>Expressions and queries\<close>

definition bool_clause :: "string \<Rightarrow> expr sem \<Rightarrow> expr sem" where
  "bool_clause msg m = s_bind m (\<lambda>e. s_bind (require (rtype e = Some DBool) msg) (\<lambda>_. s_return e))"

definition find_table :: "string \<Rightarrow> table_schema sem" where
  "find_table n =
     s_bind s_get (\<lambda>st. case getTable (a_catalog st) n of
        None \<Rightarrow> semantic_error (''unknown table '' @ quoted n)
      | Some t \<Rightarrow> s_return t)"

definition addScope :: "string \<Rightarrow> string \<Rightarrow> table_schema sem" where
  "addScope n al =
     s_bind (find_table n) (\<lambda>t.
     s_bind (s_modify (\<lambda>st. st\<lparr>joinScopes := joinScopes st @
       [(t, al, int (sum_list (map (\<lambda>(u, _). length (ts_columns u)) (joinScopes st))))]\<rparr>)) (\<lambda>_.
     s_return t))"

text \<open>What \<open>visit(SubqueryExpr)\<close> sets before the query and puts back after it.\<close>

definition enter_subquery :: "analyzer \<Rightarrow> analyzer" where
  "enter_subquery st =
     st\<lparr>outerScopes := (case currentTable st of Some t \<Rightarrow> (t, currentAlias st) # outerScopes st | None \<Rightarrow> outerScopes st),
        subqueryStack := False # subqueryStack st, currentTable := None, joined := None\<rparr>"

definition leave_subquery :: "analyzer \<Rightarrow> analyzer \<Rightarrow> analyzer" where
  "leave_subquery saved st =
     st\<lparr>currentTable := currentTable saved, joined := joined saved, subqueryStack := tl (subqueryStack st),
        outerScopes := (if currentTable saved = None then outerScopes st else tl (outerScopes st))\<rparr>"

definition enter_join :: "table_schema \<Rightarrow> string \<Rightarrow> table_schema \<Rightarrow> string \<Rightarrow> analyzer \<Rightarrow> analyzer" where
  "enter_join l lal r ral st = st\<lparr>joined := Some (l, r), leftAlias := lal, rightAlias := ral\<rparr>"

definition leave_join :: "analyzer \<Rightarrow> analyzer" where
  "leave_join st = st\<lparr>joined := None, leftAlias := [], rightAlias := []\<rparr>"

definition join_msg :: string where
  "join_msg = ''JOIN ON must be a boolean expression''"

definition where_msg :: string where
  "where_msg = ''WHERE clause must be a boolean expression''"

text \<open>The members of a list are smaller than the list.\<close>

lemma mem_size: "x \<in> set xs \<Longrightarrow> size x \<le> size_list size xs"
  by (rule size_list_estimation') auto

lemma key_size: "(c, b) \<in> set xs \<Longrightarrow> size c < size_list (size_prod size (\<lambda>_. 0)) xs"
  using size_list_estimation' [of "(c, b)" xs "Suc (size c)" "size_prod size (\<lambda>_. 0)"] by simp

lemma branch_pair_size: "(w, t) \<in> set bs \<Longrightarrow> size w + size t < size_list (size_prod size size) bs"
  using size_list_estimation' [of "(w, t)" bs "Suc (size w + size t)" "size_prod size size"] by simp

function (sequential) visit_expr :: "expr \<Rightarrow> expr sem"
  and visit_col :: "column_ref \<Rightarrow> column_ref sem"
  and visit_fn :: "function_expr \<Rightarrow> function_expr sem"
  and visit_subquery :: "subquery \<Rightarrow> subquery sem"
  and visit_select :: "select \<Rightarrow> select sem"
  and visit_join :: "join_clause \<Rightarrow> join_clause sem" where
  "visit_expr (LiteralExpr _ v) = s_return (LiteralExpr (literal_type v) v)"
| "visit_expr (ColumnRef c) = s_bind (visit_col c) (\<lambda>c. s_return (ColumnRef c))"
| "visit_expr (BinaryExpr _ op l r) =
     s_bind (visit_expr l) (\<lambda>l. s_bind (visit_expr r) (\<lambda>r.
     s_bind (s_lift (binary_type (rtype l) (rtype r))) (\<lambda>t. s_return (BinaryExpr t op l r))))"
| "visit_expr (ArithmeticExpr _ op l r) =
     s_bind (visit_expr l) (\<lambda>l. s_bind (visit_expr r) (\<lambda>r.
     s_bind (s_lift (arithmetic_type (rtype l) (rtype r))) (\<lambda>t. s_return (ArithmeticExpr t op l r))))"
| "visit_expr (LogicalExpr _ op l r) =
     s_bind (visit_expr l) (\<lambda>l. s_bind (visit_expr r) (\<lambda>r.
     s_bind (s_lift (logical_type (rtype l) (rtype r))) (\<lambda>t. s_return (LogicalExpr t op l r))))"
| "visit_expr (UnaryExpr _ e) =
     s_bind (visit_expr e) (\<lambda>e. s_bind (s_lift (not_type (rtype e))) (\<lambda>t. s_return (UnaryExpr t e)))"
| "visit_expr (IsNullExpr _ e negated) =
     s_bind (visit_expr e) (\<lambda>e. s_return (IsNullExpr (Some DBool) e negated))"
| "visit_expr (InExpr _ v items sub negated) =
     s_bind (visit_expr v) (\<lambda>v.
       case sub of
         Some q \<Rightarrow> s_bind (visit_subquery q) (\<lambda>q. s_return (InExpr (Some DBool) v items (Some q) negated))
       | None \<Rightarrow>
           s_bind (s_map (\<lambda>i. s_bind (visit_expr i) (\<lambda>i.
             s_bind (require (\<not> mismatch (rtype v) (rtype i)) ''type mismatch in IN list'') (\<lambda>_. s_return i))) items) (\<lambda>items.
           s_return (InExpr (Some DBool) v items None negated)))"
| "visit_expr (BetweenExpr _ v lo hi negated) =
     s_bind (visit_expr v) (\<lambda>v. s_bind (visit_expr lo) (\<lambda>lo. s_bind (visit_expr hi) (\<lambda>hi.
       s_return (BetweenExpr (Some DBool) v lo hi negated))))"
| "visit_expr (LikeExpr _ v p negated) =
     s_bind (visit_expr v) (\<lambda>v. s_bind (visit_expr p) (\<lambda>p.
     s_bind (s_lift (like_type (rtype v))) (\<lambda>t. s_return (LikeExpr t v p negated))))"
| "visit_expr (FunctionExpr f) = s_bind (visit_fn f) (\<lambda>f. s_return (FunctionExpr f))"
| "visit_expr (CallExpr _ fn args castType isCast) =
     s_bind (s_map visit_expr args) (\<lambda>args.
     s_bind (s_lift (call_type fn isCast castType (map rtype args))) (\<lambda>t.
       s_return (CallExpr t fn args castType isCast)))"
| "visit_expr (CaseExpr _ branches els) =
     s_bind (require (branches \<noteq> []) ''CASE requires a WHEN branch'') (\<lambda>_.
     s_bind (s_map (\<lambda>(w, t). s_bind (visit_expr w) (\<lambda>w.
       s_bind (require (when_ok (rtype w)) ''CASE WHEN condition must be a boolean expression'') (\<lambda>_.
       s_bind (visit_expr t) (\<lambda>t. s_return (w, t))))) branches) (\<lambda>branches.
     s_bind (s_opt visit_expr els) (\<lambda>els. s_return (CaseExpr (case_type branches els) branches els))))"
| "visit_expr (WindowExpr _ fn argument part sorts) =
     s_bind (s_opt visit_col argument) (\<lambda>argument. s_bind (s_map visit_col part) (\<lambda>part.
     s_bind (s_map (\<lambda>(c, d). s_bind (visit_col c) (\<lambda>c. s_return (c, d))) sorts) (\<lambda>sorts.
     s_bind (s_lift (window_type fn (case argument of None \<Rightarrow> None | Some c \<Rightarrow> col_type c))) (\<lambda>t.
       s_return (WindowExpr t fn argument part sorts)))))"
| "visit_expr (SubqueryExpr q) = s_bind (visit_subquery q) (\<lambda>q. s_return (SubqueryExpr q))"
| "visit_col (Col t tab col al cex idx oref bnd) =
     (case cex of
        Some e \<Rightarrow> s_bind (visit_expr e) (\<lambda>e. s_return (Col (rtype e) tab col al (Some e) (- 1) oref bnd))
      | None \<Rightarrow> resolve_column (Col t tab col al cex idx oref bnd))"
| "visit_fn (Fn t fn star dst argument al) =
     s_bind (require (fn \<in> set aggregate_names) (''unknown aggregate function '' @ quoted fn)) (\<lambda>_.
       if star then
         s_bind (require (fn = ''COUNT'') (fn @ ''(*) is not allowed'')) (\<lambda>_.
           s_return (Fn (Some DInt) fn star dst argument al))
       else case argument of
         None \<Rightarrow> semantic_error (fn @ '' requires an argument'')
       | Some c \<Rightarrow>
           s_bind (visit_col c) (\<lambda>c. s_bind (s_lift (function_type fn (value_or (col_type c) DInt))) (\<lambda>t.
             s_return (Fn t fn star dst (Some c) al))))"
| "visit_subquery (Subq t ex q corr res) =
     s_bind s_get (\<lambda>saved. s_bind (s_modify enter_subquery) (\<lambda>_. s_bind (visit_select q) (\<lambda>q.
     s_bind s_get (\<lambda>st. s_bind (s_modify (leave_subquery saved)) (\<lambda>_.
       s_return (Subq (if ex then Some DBool else None) ex q (hd (subqueryStack st)) res))))))"
| "visit_join (JoinClause kind tab al on_clause tid) =
     s_bind (s_opt (\<lambda>e. bool_clause join_msg (visit_expr e)) on_clause) (\<lambda>on_clause.
       s_return (JoinClause kind tab al on_clause tid))"
| "visit_select (Select star dst expl cols tab tal asof whr sorts lmt off aggs grp hav jt jal jon jtid jty extra tid) =
     (if jt \<noteq> [] \<and> extra \<noteq> [] then
        s_bind (require (aggs = []) ''aggregates are not supported with JOIN'') (\<lambda>_.
        s_bind (s_modify (\<lambda>st. st\<lparr>joinScopes := []\<rparr>)) (\<lambda>_.
        s_bind (addScope tab tal) (\<lambda>base. s_bind (addScope jt jal) (\<lambda>first.
        s_bind (s_map (\<lambda>jc. addScope (jc_table jc) (jc_alias jc)) extra) (\<lambda>ts.
        s_bind (s_modify (\<lambda>st. st\<lparr>nWayJoin := True\<rparr>)) (\<lambda>_.
        s_bind (if star then s_return cols else s_map visit_col cols) (\<lambda>cols.
        s_bind (s_map (\<lambda>(c, d). s_bind (visit_col c) (\<lambda>c. s_return (c, d))) sorts) (\<lambda>sorts.
        s_bind (s_opt (\<lambda>e. bool_clause join_msg (visit_expr e)) jon) (\<lambda>jon.
        s_bind (s_map visit_join extra) (\<lambda>extra.
        s_bind (s_opt (\<lambda>e. bool_clause where_msg (visit_expr e)) whr) (\<lambda>whr.
        s_bind (s_modify (\<lambda>st. st\<lparr>nWayJoin := False, joinScopes := []\<rparr>)) (\<lambda>_.
        s_return (Select star dst expl cols tab tal asof whr sorts lmt off aggs grp hav jt jal jon (ts_id first) jty
          (map2 (\<lambda>jc t. JoinClause (jc_kind jc) (jc_table jc) (jc_alias jc) (jc_on jc) (ts_id t)) extra ts)
          (ts_id base))))))))))))))
      else if jt \<noteq> [] then
        s_bind (find_table tab) (\<lambda>l. s_bind (find_table jt) (\<lambda>r.
        s_bind (require (aggs = []) ''aggregates are not supported with JOIN'') (\<lambda>_.
        s_bind (s_modify (enter_join l tal r jal)) (\<lambda>_.
        s_bind (if star then s_return cols else s_map visit_col cols) (\<lambda>cols.
        s_bind (s_map (\<lambda>(c, d). s_bind (visit_col c) (\<lambda>c. s_return (c, d))) sorts) (\<lambda>sorts.
        s_bind (s_opt (\<lambda>e. bool_clause join_msg (visit_expr e)) jon) (\<lambda>jon.
        s_bind (s_opt (\<lambda>e. bool_clause where_msg (visit_expr e)) whr) (\<lambda>whr.
        s_bind (s_modify leave_join) (\<lambda>_.
        s_return (Select star dst expl cols tab tal asof whr sorts lmt off aggs grp hav jt jal jon (ts_id r) jty
          extra (ts_id l)))))))))))
      else
        s_bind (find_table tab) (\<lambda>t.
        s_bind (s_modify (\<lambda>st. st\<lparr>currentTable := Some t, currentAlias := tal\<rparr>)) (\<lambda>_.
        s_bind (if star then s_return cols else s_map visit_col cols) (\<lambda>cols.
        s_bind (s_map visit_fn aggs) (\<lambda>aggs. s_bind (s_map visit_col grp) (\<lambda>grp.
        s_bind (s_map (\<lambda>(c, d). s_bind (visit_col c) (\<lambda>c. s_return (c, d))) sorts) (\<lambda>sorts.
        s_bind (s_opt (\<lambda>e. bool_clause where_msg (visit_expr e)) whr) (\<lambda>whr.
        s_bind (s_opt (\<lambda>e. bool_clause ''HAVING must be a boolean expression'' (visit_expr e)) hav) (\<lambda>hav.
        s_bind (s_modify (\<lambda>st. st\<lparr>currentTable := None, currentAlias := []\<rparr>)) (\<lambda>_.
        s_return (Select star dst expl cols tab tal asof whr sorts lmt off aggs grp hav jt jal jon jtid jty extra
          (ts_id t))))))))))))"
  by pat_completeness auto

termination
  by (relation "measure (case_sum (case_sum size (case_sum size size)) (case_sum size (case_sum size size)))")
    (auto dest!: mem_size key_size branch_pair_size)

declare visit_select.simps [simp del]

section \<open>Statements\<close>

definition where_clause :: "expr option \<Rightarrow> expr option sem" where
  "where_clause = s_opt (\<lambda>e. bool_clause where_msg (visit_expr e))"

text \<open>The names and types of the columns a query without \<open>*\<close> yields.\<close>

fun named_from :: "nat \<Rightarrow> column_ref list \<Rightarrow> (string \<times> data_type) list" where
  "named_from anon [] = []"
| "named_from anon (c # cs) =
     (let t = value_or (col_type c) DText
      in if col_alias c \<noteq> [] then (col_alias c, t) # named_from anon cs
         else if col_column c \<noteq> [] then (col_column c, t) # named_from anon cs
         else (''col'' @ nat_str anon, t) # named_from (anon + 1) cs)"

definition named_aggregate :: "function_expr \<Rightarrow> string \<times> data_type" where
  "named_aggregate f = (if fn_alias f \<noteq> [] then fn_alias f else fn_name f, value_or (fn_type f) DInt)"

definition query_columns :: "select \<Rightarrow> (string \<times> data_type) list" where
  "query_columns q = named_from 0 (sel_columns q) @ map named_aggregate (aggregates q)"

definition star_columns :: "catalog \<Rightarrow> select \<Rightarrow> column_schema list" where
  "star_columns cat q =
     (case getTable cat (sel_table q) of Some t \<Rightarrow> ts_columns t | None \<Rightarrow> []) @
     (if joinTable q = [] then []
      else case getTable cat (joinTable q) of Some t \<Rightarrow> ts_columns t | None \<Rightarrow> [])"

definition blank_definition :: "string \<Rightarrow> data_type \<Rightarrow> int \<Rightarrow> column_definition" where
  "blank_definition n t len =
     \<lparr>cd_name = n, cd_type = t, varcharLength = len, refTable = [], refColumn = [], refOnDelete = 0, refOnUpdate = 0,
      notNull = False, primaryKey = False, unique = False, autoIncrement = False, defaultValue = None,
      checkExpr = None\<rparr>"

definition as_columns :: "catalog \<Rightarrow> select \<Rightarrow> column_definition list" where
  "as_columns cat q =
     (if selectStar q
      then map (\<lambda>c. blank_definition (cs_name c) (cs_type c) (cs_varcharLength c)) (star_columns cat q)
      else map (\<lambda>(n, t). blank_definition n t 0) (query_columns q))"

definition check_source :: "expr option \<Rightarrow> sem_error + string" where
  "check_source e =
     (case e of
        None \<Rightarrow> Inr []
      | Some c \<Rightarrow> (case expressionToString c of Inl msg \<Rightarrow> Inl (RuntimeError msg) | Inr s \<Rightarrow> Inr s))"

text \<open>One column of CREATE: \<open>seen\<close> holds the names before it, \<open>pk\<close> whether one of them is the primary key.\<close>

definition column_of_definition :: "string \<Rightarrow> string list \<Rightarrow> bool \<Rightarrow> column_definition \<Rightarrow> sem_error + column_schema" where
  "column_of_definition table seen pk d =
     (if cd_name d \<in> set seen then
        reject (''duplicate column '' @ quoted (cd_name d) @ '' in table '' @ quoted table)
      else if cd_type d = DVarchar \<and> varcharLength d \<le> 0 then
        reject (''VARCHAR length must be positive for column '' @ quoted (cd_name d))
      else if primaryKey d \<and> pk then
        reject (''table '' @ quoted table @ '' has more than one PRIMARY KEY'')
      else if (case defaultValue d of Some v \<Rightarrow> \<not> defaultMatchesColumn v (cd_type d) | None \<Rightarrow> False) then
        reject (''DEFAULT value type mismatch for column '' @ quoted (cd_name d))
      else if (notNull d \<or> primaryKey d) \<and> defaultValue d = Some VNull then
        reject (''column '' @ quoted (cd_name d) @ '' is NOT NULL but has a NULL default'')
      else if autoIncrement d \<and> cd_type d \<noteq> DInt then
        reject ''AUTO_INCREMENT requires an INT column''
      else case check_source (checkExpr d) of
        Inl e \<Rightarrow> Inl e
      | Inr src \<Rightarrow>
          Inr \<lparr>cs_name = cd_name d, cs_type = cd_type d, cs_varcharLength = varcharLength d,
               cs_notNull = notNull d \<or> primaryKey d, cs_primaryKey = primaryKey d,
               cs_unique = unique d \<or> primaryKey d, cs_autoIncrement = autoIncrement d,
               cs_default = defaultValue d, cs_check = checkExpr d, cs_checkSource = src\<rparr>)"

fun columns_of_definitions :: "string \<Rightarrow> string list \<Rightarrow> bool \<Rightarrow> column_definition list \<Rightarrow> sem_error + column_schema list" where
  "columns_of_definitions table seen pk [] = Inr []"
| "columns_of_definitions table seen pk (d # ds) =
     (case column_of_definition table seen pk d of
        Inl e \<Rightarrow> Inl e
      | Inr c \<Rightarrow>
          (case columns_of_definitions table (cd_name d # seen) (pk \<or> primaryKey d) ds of
             Inl e \<Rightarrow> Inl e
           | Inr cs \<Rightarrow> Inr (c # cs)))"

fun key_columns :: "table_schema option \<Rightarrow> string list \<Rightarrow> string list \<Rightarrow> sem_error + int list" where
  "key_columns self seen [] = Inr []"
| "key_columns self seen (n # ns) =
     (if n \<in> set seen then reject (''duplicate column '' @ quoted n @ '' in PRIMARY KEY'')
      else let idx = (case self of Some t \<Rightarrow> columnIndex_of t n | None \<Rightarrow> - 1)
           in if idx < 0 then reject (''unknown column '' @ quoted n @ '' in PRIMARY KEY'')
              else (case key_columns self (n # seen) ns of Inl e \<Rightarrow> Inl e | Inr is \<Rightarrow> Inr (idx # is)))"

definition on_catalog :: "(catalog \<Rightarrow> catalog \<times> 'a) \<Rightarrow> 'a sem" where
  "on_catalog f st = (let (cat, x) = f (a_catalog st) in (Inr x, st\<lparr>a_catalog := cat\<rparr>))"

definition action_of :: "int \<Rightarrow> fk_action" where
  "action_of i = (if i = 1 then Cascade else if i = 2 then SetNull else Restrict)"

definition bind_reference :: "string \<Rightarrow> int \<Rightarrow> column_definition \<Rightarrow> unit sem" where
  "bind_reference table i d =
     (if refTable d = [] then s_return ()
      else s_bind s_get (\<lambda>st.
        case getTable (a_catalog st) (refTable d) of
          None \<Rightarrow> semantic_error (''foreign key references unknown table '' @ quoted (refTable d))
        | Some parent \<Rightarrow>
            let pidx = columnIndex_of parent (refColumn d)
            in if pidx < 0 then
                 semantic_error (''foreign key references unknown column '' @ quoted (refColumn d) @
                   '' in table '' @ quoted (refTable d))
               else if \<not> comparable (cd_type d) (cs_type (ts_columns parent ! nat pidx)) then
                 semantic_error (''foreign key type mismatch for column '' @ quoted (cd_name d))
               else
                 s_bind (on_catalog (\<lambda>cat. addForeignKey cat table
                   \<lparr>fk_column = i, fk_table = refTable d, fk_refColumn = refColumn d,
                    fk_onDelete = action_of (refOnDelete d), fk_onUpdate = action_of (refOnUpdate d)\<rparr>)) (\<lambda>_.
                 s_return ())))"

definition bindExpression :: "expr \<Rightarrow> string \<Rightarrow> expr sem" where
  "bindExpression e table =
     s_bind s_get (\<lambda>saved.
       case getTable (a_catalog saved) table of
         None \<Rightarrow> semantic_error (''unknown table '' @ quoted table @ '' for CHECK'')
       | Some t \<Rightarrow>
           s_bind (s_modify (\<lambda>st. st\<lparr>currentTable := Some t\<rparr>)) (\<lambda>_.
           s_bind (bool_clause where_msg (visit_expr e)) (\<lambda>e.
           s_bind (s_modify (\<lambda>st. st\<lparr>currentTable := currentTable saved\<rparr>)) (\<lambda>_. s_return e))))"

text \<open>The CHECK of column \<open>i\<close>. The definition and the catalog share the expression, so that the
  catalog holds the annotated one afterwards.\<close>

definition bind_check :: "string \<Rightarrow> int \<Rightarrow> column_definition \<Rightarrow> column_definition sem" where
  "bind_check table i d =
     (case checkExpr d of
        None \<Rightarrow> s_return d
      | Some e \<Rightarrow>
          s_bind (bindExpression e table) (\<lambda>e.
          s_bind (on_catalog (\<lambda>cat. setColumnCheckExpr cat table i e)) (\<lambda>_.
            s_return (d\<lparr>checkExpr := Some e\<rparr>))))"

definition numbered :: "'a list \<Rightarrow> (int \<times> 'a) list" where
  "numbered xs = zip (map int [0..<length xs]) xs"

definition bind_primary_key :: "string \<Rightarrow> string list \<Rightarrow> unit sem" where
  "bind_primary_key table names =
     (if names = [] then s_return ()
      else s_bind s_get (\<lambda>st.
        s_bind (s_lift (key_columns (getTable (a_catalog st) table) [] names)) (\<lambda>pk.
        s_bind (on_catalog (\<lambda>cat. setPrimaryKey cat table pk)) (\<lambda>_. s_return ()))))"

text \<open>The keys and the CHECKs, once the table is in the catalog.\<close>

definition bind_constraints :: "create_statement \<Rightarrow> create_statement sem" where
  "bind_constraints n =
     s_bind (bind_primary_key (ct_table n) (primaryKeyColumns n)) (\<lambda>_.
     s_bind (s_map (\<lambda>(i, d). bind_reference (ct_table n) i d) (numbered (ct_columns n))) (\<lambda>_.
     s_bind (s_map (\<lambda>(i, d). bind_check (ct_table n) i d) (numbered (ct_columns n))) (\<lambda>ds.
       s_return (n\<lparr>ct_columns := ds\<rparr>))))"

definition create_relation :: "create_statement \<Rightarrow> create_statement sem" where
  "create_relation n =
     s_bind (s_lift (columns_of_definitions (ct_table n) [] False (ct_columns n))) (\<lambda>cs.
     s_bind (on_catalog (\<lambda>cat. createTable cat (ct_table n) cs)) (\<lambda>tid.
       bind_constraints (n\<lparr>ct_tableId := value_or tid (- 1)\<rparr>)))"

definition visit_create :: "create_statement \<Rightarrow> create_statement sem" where
  "visit_create n =
     s_bind s_get (\<lambda>st.
     s_bind (require (\<not> cat_hasTable (a_catalog st) (ct_table n))
       (''table '' @ quoted (ct_table n) @ '' already exists'')) (\<lambda>_.
     case asQuery n of
       None \<Rightarrow> create_relation n
     | Some q \<Rightarrow>
         s_bind (visit_select q) (\<lambda>q.
         let ds = as_columns (a_catalog st) q
         in s_bind (require (ds \<noteq> []) ''BUILD RELATION AS produced no columns'') (\<lambda>_.
              create_relation (n\<lparr>asQuery := Some q, ct_columns := ds\<rparr>)))))"

fun target_columns :: "string \<Rightarrow> table_schema \<Rightarrow> string list \<Rightarrow> sem_error + int list" where
  "target_columns table t [] = Inr []"
| "target_columns table t (n # ns) =
     (let idx = columnIndex_of t n
      in if idx < 0 then Inl (SemanticError (unknown_column_in n table))
         else (case target_columns table t ns of Inl e \<Rightarrow> Inl e | Inr is \<Rightarrow> Inr (idx # is)))"

definition visit_create_idx :: "create_idx_statement \<Rightarrow> create_idx_statement sem" where
  "visit_create_idx n =
     s_bind (find_table (ci_table n)) (\<lambda>t.
     s_bind (s_lift (target_columns (ci_table n) t (ci_columns n))) (\<lambda>is.
     s_bind s_get (\<lambda>st.
     s_bind (require (\<not> cat_hasIndex (a_catalog st) (ci_indexName n))
       (''index '' @ quoted (ci_indexName n) @ '' already exists'')) (\<lambda>_.
     s_bind (on_catalog (\<lambda>cat. createIndex cat (ci_indexName n) (ci_table n) (ci_columns n))) (\<lambda>_.
       s_return (n\<lparr>ci_columnIndices := is, ci_tableId := ts_id t\<rparr>))))))"

fun insert_targets :: "string \<Rightarrow> table_schema \<Rightarrow> string list \<Rightarrow> string list \<Rightarrow> sem_error + int list" where
  "insert_targets table t seen [] = Inr []"
| "insert_targets table t seen (n # ns) =
     (if n \<in> set seen then reject (''duplicate column '' @ quoted n @ '' in INSERT'')
      else let idx = columnIndex_of t n
           in if idx < 0 then Inl (SemanticError (unknown_column_in n table))
              else (case insert_targets table t (n # seen) ns of Inl e \<Rightarrow> Inl e | Inr is \<Rightarrow> Inr (idx # is)))"

definition insert_value :: "column_schema \<Rightarrow> expr \<Rightarrow> expr sem" where
  "insert_value c e =
     s_bind (visit_expr e) (\<lambda>e.
       case e of
         LiteralExpr t v \<Rightarrow>
           (if literalMatchesColumn v (cs_type c) then s_return e
            else semantic_error (''type mismatch for column '' @ quoted (cs_name c) @ '': expected '' @
                   dataTypeName (cs_type c)))
       | _ \<Rightarrow> semantic_error ''INSERT values must be literals'')"

definition insert_cells :: "table_schema \<Rightarrow> int list \<Rightarrow> expr list \<Rightarrow> expr list sem" where
  "insert_cells t targets row =
     s_bind (require (length row = length targets)
       (''INSERT has '' @ nat_str (length row) @ '' value(s) but '' @ nat_str (length targets) @ '' target column(s)'')) (\<lambda>_.
     s_map (\<lambda>(i, e). insert_value (ts_columns t ! nat i) e) (zip targets row))"

definition conflict_column :: "table_schema \<Rightarrow> column_ref \<Rightarrow> column_ref sem" where
  "conflict_column t c =
     s_bind (visit_col c) (\<lambda>c.
     s_bind (require (columnIndex c \<ge> 0) (''unknown conflict column '' @ quoted (col_column c))) (\<lambda>_.
     let cs = ts_columns t ! nat (columnIndex c)
     in s_bind (require (cs_primaryKey cs \<or> cs_unique cs)
          (''ON CONFLICT target '' @ quoted (cs_name cs) @ '' must be UNIQUE or PRIMARY KEY'')) (\<lambda>_. s_return c)))"

definition conflict_value :: "table_schema \<Rightarrow> string \<times> expr \<Rightarrow> expr sem" where
  "conflict_value t = (\<lambda>(n, e).
     s_bind (require (columnIndex_of t n \<ge> 0) (''unknown column '' @ quoted n @ '' in DO MODIFY'')) (\<lambda>_. visit_expr e))"

definition no_table :: "unit sem" where
  "no_table = s_modify (\<lambda>st. st\<lparr>currentTable := None\<rparr>)"

definition visit_insert :: "insert_statement \<Rightarrow> insert_statement sem" where
  "visit_insert n =
     s_bind (find_table (ins_table n)) (\<lambda>t.
     s_bind (s_modify (\<lambda>st. st\<lparr>currentTable := Some t\<rparr>)) (\<lambda>_.
     s_bind (if ins_columns n = [] then s_return (map int [0..<length (ts_columns t)])
       else s_lift (insert_targets (ins_table n) t [] (ins_columns n))) (\<lambda>targets.
     case ins_select n of
       Some q \<Rightarrow>
         s_bind (visit_select q) (\<lambda>q. s_bind s_get (\<lambda>st.
         let k = (if selectStar q then length (star_columns (a_catalog st) q)
                  else length (sel_columns q) + length (aggregates q))
         in s_bind (require (k = length targets)
              (''INSERT ... FETCH yields '' @ nat_str k @ '' column(s) but '' @ nat_str (length targets) @
               '' target column(s)'')) (\<lambda>_.
            s_bind no_table (\<lambda>_. s_return (n\<lparr>ins_select := Some q, ins_tableId := ts_id t\<rparr>)))))
     | None \<Rightarrow>
         s_bind (if defaultValues n then s_return (ins_rows n) else s_map (insert_cells t targets) (ins_rows n)) (\<lambda>rows.
         s_bind (if hasOnConflict n then s_map (conflict_column t) (conflictColumns n)
           else s_return (conflictColumns n)) (\<lambda>ccs.
         s_bind (if hasOnConflict n then s_map (conflict_value t) (zip (conflictSetColumns n) (conflictSetValues n))
           else s_return (conflictSetValues n)) (\<lambda>cvs.
         s_bind (s_map visit_col (ins_returning n)) (\<lambda>rs. s_bind no_table (\<lambda>_.
           s_return (n\<lparr>ins_rows := rows, conflictColumns := ccs, conflictSetValues := cvs, ins_returning := rs,
                       ins_tableId := ts_id t\<rparr>)))))))))"

definition visit_delete :: "delete_statement \<Rightarrow> delete_statement sem" where
  "visit_delete n =
     s_bind (find_table (del_table n)) (\<lambda>t.
     s_bind (s_modify (\<lambda>st. st\<lparr>currentTable := Some t\<rparr>)) (\<lambda>_.
     s_bind (where_clause (del_where n)) (\<lambda>w. s_bind (s_map visit_col (del_returning n)) (\<lambda>rs. s_bind no_table (\<lambda>_.
       s_return (n\<lparr>del_where := w, del_returning := rs, del_tableId := ts_id t\<rparr>))))))"

text \<open>The assignments of UPDATE.\<close>

fun visit_assignments :: "string \<Rightarrow> table_schema \<Rightarrow> string list \<Rightarrow> (string \<times> expr) list \<Rightarrow> (int \<times> expr) list sem" where
  "visit_assignments table t seen [] = s_return []"
| "visit_assignments table t seen ((n, e) # as) =
     s_bind (require (n \<notin> set seen) (''duplicate assignment to column '' @ quoted n)) (\<lambda>_.
     let idx = columnIndex_of t n
     in s_bind (require (idx \<ge> 0) (unknown_column_in n table)) (\<lambda>_.
        s_bind (visit_expr e) (\<lambda>e.
        s_bind (require (\<not> mismatch (Some (cs_type (ts_columns t ! nat idx))) (rtype e))
          (''type mismatch for column '' @ quoted n)) (\<lambda>_.
        s_bind (visit_assignments table t (n # seen) as) (\<lambda>as. s_return ((idx, e) # as))))))"

definition visit_update :: "update_statement \<Rightarrow> update_statement sem" where
  "visit_update n =
     s_bind (find_table (upd_table n)) (\<lambda>t.
     s_bind (s_modify (\<lambda>st. st\<lparr>currentTable := Some t\<rparr>)) (\<lambda>_.
     s_bind (if fromTable n = [] then s_return (fromTableId n)
       else s_bind (find_table (fromTable n)) (\<lambda>r.
         s_bind (s_modify (enter_join t [] r (fromAlias n))) (\<lambda>_. s_return (ts_id r)))) (\<lambda>from_id.
     s_bind (visit_assignments (upd_table n) t [] (zip (targetColumns n) (upd_values n))) (\<lambda>as.
     s_bind (where_clause (upd_where n)) (\<lambda>w.
     s_bind (s_modify (\<lambda>st. if joined st = None then st else leave_join st)) (\<lambda>_.
     s_bind (s_map visit_col (upd_returning n)) (\<lambda>rs. s_bind no_table (\<lambda>_.
       s_return (n\<lparr>targetIndices := targetIndices n @ map fst as, upd_values := map snd as, upd_where := w,
                   upd_returning := rs, upd_tableId := ts_id t, fromTableId := from_id\<rparr>)))))))))"

definition visit_drop :: "drop_statement \<Rightarrow> drop_statement sem" where
  "visit_drop n =
     s_bind s_get (\<lambda>st.
     let name = drop_name n; t = getTable (a_catalog st) name
     in if is_truncate n then
          (case t of
             None \<Rightarrow> semantic_error (''unknown table '' @ quoted name)
           | Some t \<Rightarrow>
               s_bind (require (\<not> ts_isView t) (''cannot truncate view '' @ quoted name)) (\<lambda>_.
                 s_return (n\<lparr>drop_tableId := ts_id t\<rparr>)))
        else if isIndex n then
          s_bind (require (cat_hasIndex (a_catalog st) name) (''unknown index '' @ quoted name)) (\<lambda>_.
          s_bind (on_catalog (\<lambda>cat. cat_dropIndex cat name)) (\<lambda>_. s_return n))
        else
          (case t of
             None \<Rightarrow> semantic_error (''unknown '' @ (if isView n then ''view '' else ''table '') @ quoted name)
           | Some t \<Rightarrow>
               s_bind (require (\<not> (isView n \<and> \<not> ts_isView t)) (quoted name @ '' is not a view'')) (\<lambda>_.
               s_bind (on_catalog (\<lambda>cat. cat_dropTable cat name)) (\<lambda>_.
                 s_return (n\<lparr>drop_tableId := ts_id t\<rparr>)))))"

definition visit_create_view :: "create_view_statement \<Rightarrow> create_view_statement sem" where
  "visit_create_view n =
     s_bind s_get (\<lambda>st.
     s_bind (require (\<not> cat_hasTable (a_catalog st) (view_name n))
       (''relation '' @ quoted (view_name n) @ '' already exists'')) (\<lambda>_.
     s_bind (visit_select (view_query n)) (\<lambda>q. s_bind s_get (\<lambda>st.
     let cs = (if selectStar q then star_columns (a_catalog st) q
               else map (\<lambda>(c, t). plain_column c t 0) (query_columns q))
     in s_bind (on_catalog (\<lambda>cat. createView cat (view_name n) cs q (view_source n))) (\<lambda>tid.
          s_return (n\<lparr>view_query := q, view_tableId := value_or tid (- 1)\<rparr>))))))"

definition visit_alter :: "alter_statement \<Rightarrow> alter_statement sem" where
  "visit_alter n =
     s_bind (find_table (alter_table n)) (\<lambda>t. s_bind s_get (\<lambda>st.
     s_bind
       (let d = alter_column n
        in if alter_kind n = AddColumn then
             (if columnIndex_of t (cd_name d) \<ge> 0 then
                semantic_error (''column '' @ quoted (cd_name d) @ '' already exists'')
              else if cd_type d = DVarchar \<and> varcharLength d \<le> 0 then
                semantic_error (''VARCHAR length must be positive for column '' @ quoted (cd_name d))
              else require (refTable d = [] \<or>
                  (case getTable (a_catalog st) (refTable d) of
                     None \<Rightarrow> False | Some parent \<Rightarrow> columnIndex_of parent (refColumn d) \<ge> 0))
                ''foreign key references unknown table/column'')
           else if columnIndex_of t (dropColumn n) < 0 then
             semantic_error (''unknown column '' @ quoted (dropColumn n))
           else require (length (ts_columns t) > 1) ''cannot drop the only column of a table'') (\<lambda>_.
       s_return (n\<lparr>alter_tableId := ts_id t\<rparr>))))"

fun analyze :: "statement \<Rightarrow> statement sem" where
  "analyze (CreateStatement n) = s_bind (visit_create n) (\<lambda>n. s_return (CreateStatement n))"
| "analyze (CreateIdxStatement n) = s_bind (visit_create_idx n) (\<lambda>n. s_return (CreateIdxStatement n))"
| "analyze (InsertStatement n) = s_bind (visit_insert n) (\<lambda>n. s_return (InsertStatement n))"
| "analyze (SelectStatement q) = s_bind (visit_select q) (\<lambda>q. s_return (SelectStatement q))"
| "analyze (DeleteStatement n) = s_bind (visit_delete n) (\<lambda>n. s_return (DeleteStatement n))"
| "analyze (UpdateStatement n) = s_bind (visit_update n) (\<lambda>n. s_return (UpdateStatement n))"
| "analyze (DropStatement n) = s_bind (visit_drop n) (\<lambda>n. s_return (DropStatement n))"
| "analyze (AlterStatement n) = s_bind (visit_alter n) (\<lambda>n. s_return (AlterStatement n))"
| "analyze (TransactionStatement k) = s_return (TransactionStatement k)"
| "analyze (SetOpStatement op all_rows l r) =
     s_bind (analyze l) (\<lambda>l. s_bind (visit_select r) (\<lambda>r. s_return (SetOpStatement op all_rows l r)))"
| "analyze (CreateViewStatement n) = s_bind (visit_create_view n) (\<lambda>n. s_return (CreateViewStatement n))"

end
