(* ===== verification/Frames.thy ===== *)
theory Frames
  imports Analyzer
begin

text \<open>
  What a visit of the analyzer leaves as it was. No visit of an expression or a query changes the
  catalog, whether it succeeds or not. A visit that succeeds puts back the scopes; a visited
  expression also puts back the current table and the join.
\<close>

section \<open>Relations between the states around a visit\<close>

definition outer_same :: "analyzer \<Rightarrow> analyzer \<Rightarrow> bool" where
  "outer_same st st' \<longleftrightarrow>
     a_catalog st' = a_catalog st \<and> outerScopes st' = outerScopes st \<and>
     length (subqueryStack st') = length (subqueryStack st)"

definition query_same :: "analyzer \<Rightarrow> analyzer \<Rightarrow> bool" where
  "query_same st st' \<longleftrightarrow> outer_same st st' \<and> (\<not> nWayJoin st \<longrightarrow> \<not> nWayJoin st')"

definition scope_same :: "analyzer \<Rightarrow> analyzer \<Rightarrow> bool" where
  "scope_same st st' \<longleftrightarrow> query_same st st' \<and> currentTable st' = currentTable st \<and> joined st' = joined st"

definition leaves_nway :: "analyzer \<Rightarrow> analyzer \<Rightarrow> bool" where
  "leaves_nway st st' \<longleftrightarrow> outer_same st st' \<and> \<not> nWayJoin st'"

text \<open>On success the states are related, on an error they have the same catalog.\<close>

definition keeps :: "(analyzer \<Rightarrow> analyzer \<Rightarrow> bool) \<Rightarrow> 'a sem \<Rightarrow> bool" where
  "keeps R m \<longleftrightarrow>
     (\<forall>st. a_catalog (snd (m st)) = a_catalog st \<and> (\<forall>x. fst (m st) = Inr x \<longrightarrow> R st (snd (m st))))"

lemma sames:
  "outer_same st st" "query_same st st" "scope_same st st"
  "outer_same st st' \<Longrightarrow> outer_same st' st'' \<Longrightarrow> outer_same st st''"
  "query_same st st' \<Longrightarrow> query_same st' st'' \<Longrightarrow> query_same st st''"
  "scope_same st st' \<Longrightarrow> scope_same st' st'' \<Longrightarrow> scope_same st st''"
  "outer_same st st' \<Longrightarrow> leaves_nway st' st'' \<Longrightarrow> leaves_nway st st''"
  "scope_same st st' \<Longrightarrow> query_same st st'" "query_same st st' \<Longrightarrow> outer_same st st'"
  "leaves_nway st st' \<Longrightarrow> query_same st st'"
  by (auto simp: outer_same_def query_same_def scope_same_def leaves_nway_def)

lemma keeps_bind:
  assumes "keeps R m" "\<And>x. keeps S (f x)" "\<And>st st' st''. R st st' \<Longrightarrow> S st' st'' \<Longrightarrow> T st st''"
  shows "keeps T (s_bind m f)"
  unfolding keeps_def
proof (intro allI)
  fix st
  obtain r st' where m: "m st = (r, st')" by fastforce
  show "a_catalog (snd (s_bind m f st)) = a_catalog st \<and>
        (\<forall>x. fst (s_bind m f st) = Inr x \<longrightarrow> T st (snd (s_bind m f st)))"
  proof (cases r)
    case Inl then show ?thesis using assms(1) m by (auto simp: s_bind_def keeps_def dest: spec [of _ st])
  next
    case (Inr y)
    have "R st st'" "a_catalog st' = a_catalog st" using assms(1) m Inr by (auto simp: keeps_def dest: spec [of _ st])
    moreover have "a_catalog (snd (f y st')) = a_catalog st'" "fst (f y st') = Inr x \<Longrightarrow> S st' (snd (f y st'))" for x
      using assms(2) [of y] by (auto simp: keeps_def)
    ultimately show ?thesis using assms(3) m Inr by (auto simp: s_bind_def)
  qed
qed

lemma keeps_mono: "keeps R m \<Longrightarrow> (\<And>st st'. R st st' \<Longrightarrow> S st st') \<Longrightarrow> keeps S m"
  by (auto simp: keeps_def)

lemma keeps_error: "keeps R (semantic_error msg)"
  by (auto simp: keeps_def semantic_error_def)

lemma keeps_modify: "(\<And>st. a_catalog (g st) = a_catalog st) \<Longrightarrow> (\<And>st. R st (g st)) \<Longrightarrow> keeps R (s_modify g)"
  by (auto simp: keeps_def s_modify_def)

text \<open>A relation that a sequence of visits keeps because each of them does.\<close>

locale frame =
  fixes R :: "analyzer \<Rightarrow> analyzer \<Rightarrow> bool"
  assumes same: "R st st" and later: "R st st' \<Longrightarrow> R st' st'' \<Longrightarrow> R st st''"
begin

lemma keeps_pure: "keeps R (s_return x)" "keeps R s_get" "keeps R (s_lift r)" "keeps R (require b msg)"
  by (auto simp: keeps_def s_return_def semantic_error_def s_get_def s_lift_def require_def same)

lemma keeps_seq: "keeps R m \<Longrightarrow> (\<And>x. keeps R (f x)) \<Longrightarrow> keeps R (s_bind m f)"
  by (rule keeps_bind [OF _ _ later])

lemma keeps_map: "(\<And>x. x \<in> set xs \<Longrightarrow> keeps R (f x)) \<Longrightarrow> keeps R (s_map f xs)"
  by (induction xs) (simp_all add: keeps_pure keeps_seq)

lemma keeps_opt: "(\<And>y. x = Some y \<Longrightarrow> keeps R (f y)) \<Longrightarrow> keeps R (s_opt f x)"
  by (cases x) (simp_all add: s_opt_def keeps_pure keeps_seq)

lemmas keeps_rules = keeps_pure keeps_seq keeps_map keeps_opt keeps_error

end

interpretation outer: frame outer_same
  by unfold_locales (auto intro: sames)

interpretation query: frame query_same
  by unfold_locales (auto intro: sames)

interpretation scope: frame scope_same
  by unfold_locales (auto intro: sames)

lemma keeps_weaker: "keeps scope_same m \<Longrightarrow> keeps query_same m" "keeps query_same m \<Longrightarrow> keeps outer_same m"
    "keeps scope_same m \<Longrightarrow> keeps outer_same m" "keeps leaves_nway m \<Longrightarrow> keeps query_same m"
  by (auto intro: keeps_mono sames)

section \<open>Names\<close>

lemma length_mark [simp]: "length (mark_correlated bs) = length bs"
  by (cases bs) auto

lemma keeps_resolveOuter: "keeps scope_same (resolveOuter c msg)"
  unfolding resolveOuter_def
  by (auto intro!: scope.keeps_rules keeps_modify split: option.split
      simp: scope_same_def query_same_def outer_same_def)

lemma keeps_resolve: "keeps scope_same (resolve_column c)"
  unfolding resolve_column_def resolve_nway_def resolve_joined_def resolve_single_def Let_def
  by (intro scope.keeps_rules) (auto intro!: scope.keeps_rules keeps_resolveOuter split: option.split list.split)

section \<open>Expressions and queries\<close>

lemma keeps_find_table: "keeps scope_same (find_table n)"
  unfolding find_table_def by (auto intro!: scope.keeps_rules split: option.split)

lemma keeps_addScope: "keeps outer_same (addScope n al)"
  unfolding addScope_def
  by (intro outer.keeps_rules keeps_modify keeps_weaker(3) [OF keeps_find_table]) (auto simp: outer_same_def)

lemma keeps_bool_clause: "keeps scope_same m \<Longrightarrow> keeps scope_same (bool_clause msg m)"
  unfolding bool_clause_def by (intro scope.keeps_rules)

text \<open>The query of a subquery keeps less than the subquery, which puts the rest back.\<close>

lemma keeps_subquery:
  assumes "keeps query_same (visit_select q)"
  shows "keeps scope_same (visit_subquery (Subq t ex q corr res))"
proof -
  have "a_catalog (snd (visit_subquery (Subq t ex q corr res) st)) = a_catalog st \<and>
      (\<forall>x. fst (visit_subquery (Subq t ex q corr res) st) = Inr x \<longrightarrow>
         scope_same st (snd (visit_subquery (Subq t ex q corr res) st)))" for st
  proof -
    obtain r st' where q: "visit_select q (enter_subquery st) = (r, st')" by fastforce
    have "a_catalog st' = a_catalog (enter_subquery st)" "r = Inr q' \<Longrightarrow> query_same (enter_subquery st) st'" for q'
      using assms q unfolding keeps_def by (metis fst_conv snd_conv)+
    moreover have "a_catalog (enter_subquery st) = a_catalog st" by (simp add: enter_subquery_def)
    moreover have "scope_same st (leave_subquery st st')" if "query_same (enter_subquery st) st'"
      using that by (auto simp: enter_subquery_def leave_subquery_def scope_same_def query_same_def outer_same_def
          split: option.splits)
    ultimately show ?thesis using q
      by (cases r) (simp_all add: s_bind_def s_get_def s_modify_def s_return_def scope_same_def query_same_def outer_same_def)
  qed
  then show ?thesis by (simp add: keeps_def)
qed

lemma keeps_query:
  assumes "\<And>c. c \<in> set cols \<Longrightarrow> \<not> star \<Longrightarrow> keeps scope_same (visit_col c)"
    and "\<And>c d. (c, d) \<in> set sorts \<Longrightarrow> keeps scope_same (visit_col c)"
    and "\<And>e. whr = Some e \<Longrightarrow> keeps scope_same (visit_expr e)"
    and "\<And>e. jt \<noteq> [] \<Longrightarrow> jon = Some e \<Longrightarrow> keeps scope_same (visit_expr e)"
    and "\<And>j. jt \<noteq> [] \<Longrightarrow> extra \<noteq> [] \<Longrightarrow> j \<in> set extra \<Longrightarrow> keeps scope_same (visit_join j)"
    and "\<And>c. jt = [] \<Longrightarrow> c \<in> set grp \<Longrightarrow> keeps scope_same (visit_col c)"
    and "\<And>f. jt = [] \<Longrightarrow> f \<in> set aggs \<Longrightarrow> keeps scope_same (visit_fn f)"
    and "\<And>e. jt = [] \<Longrightarrow> hav = Some e \<Longrightarrow> keeps scope_same (visit_expr e)"
  shows "keeps query_same (visit_select (Select star dst expl cols tab tal asof whr sorts lmt off aggs grp hav jt jal jon
           jtid jty extra tid))"
proof -
  have cols: "keeps scope_same (if star then s_return cols else s_map visit_col cols)"
    using assms(1) by (auto intro!: scope.keeps_rules)
  have sorts: "keeps scope_same (s_map (\<lambda>(c, d). s_bind (visit_col c) (\<lambda>c. s_return (c, d))) sorts)"
    using assms(2) by (auto intro!: scope.keeps_rules)
  have clause: "keeps scope_same (s_opt (\<lambda>e. bool_clause msg (visit_expr e)) x)"
    if "\<And>e. x = Some e \<Longrightarrow> keeps scope_same (visit_expr e)" for msg x
    using that by (auto intro!: scope.keeps_rules keeps_bool_clause)
  have joins: "keeps scope_same (s_map visit_join extra)" if "jt \<noteq> [] \<and> extra \<noteq> []"
    using assms(5) that by (auto intro!: scope.keeps_rules)
  have groups: "keeps scope_same (s_map visit_col grp)" "keeps scope_same (s_map visit_fn aggs)" if "\<not> jt \<noteq> []"
    using assms(6,7) that by (auto intro!: scope.keeps_rules)
  note into = keeps_weaker(1) [OF cols] keeps_weaker(1) [OF sorts] keeps_weaker(1) [OF clause]
    keeps_weaker(1) [OF keeps_find_table]
  note outs = keeps_weaker(3) [OF cols] keeps_weaker(3) [OF sorts] keeps_weaker(3) [OF clause]
  have nway_end: "keeps leaves_nway (s_bind (s_modify (\<lambda>st. st\<lparr>nWayJoin := False, joinScopes := []\<rparr>)) (\<lambda>_. s_return x))" for x
    by (auto simp: keeps_def s_bind_def s_modify_def s_return_def leaves_nway_def outer_same_def)
  note last = keeps_bind [where R = outer_same and S = leaves_nway and T = leaves_nway, OF _ _ sames(7)]
  consider (nway) "jt \<noteq> [] \<and> extra \<noteq> []" | (join) "\<not> (jt \<noteq> [] \<and> extra \<noteq> [])" "jt \<noteq> []"
    | (single) "\<not> (jt \<noteq> [] \<and> extra \<noteq> [])" "\<not> jt \<noteq> []" by blast
  then show ?thesis
  proof cases
    case nway
    show ?thesis
      unfolding visit_select.simps if_P [OF nway]
      by (rule keeps_weaker(4), (rule nway_end | rule last | rule outs keeps_weaker(3) [OF joins [OF nway]] | rule outer.keeps_pure
          | rule outer.keeps_map keeps_addScope | (rule keeps_modify; simp add: outer_same_def) | (rule assms(3,4); use nway in simp))+)
  next
    case join
    show ?thesis
      unfolding visit_select.simps if_not_P [OF join(1)] if_P [OF join(2)]
      by (rule query.keeps_seq query.keeps_pure into
          | (rule keeps_modify; simp add: query_same_def outer_same_def enter_join_def leave_join_def)
          | (rule assms(3,4); use join in simp))+
  next
    case single
    show ?thesis
      unfolding visit_select.simps if_not_P [OF single(1)] if_not_P [OF single(2)]
      by (rule query.keeps_seq query.keeps_pure into keeps_weaker(1) [OF groups(1) [OF single(2)]]
            keeps_weaker(1) [OF groups(2) [OF single(2)]]
          | (rule keeps_modify; simp add: query_same_def outer_same_def) | (rule assms(3,8); use single in simp))+
  qed
qed

lemma visits_keep:
  "keeps scope_same (visit_expr e)" "keeps scope_same (visit_col c)" "keeps scope_same (visit_fn f)"
  "keeps scope_same (visit_subquery sq)" "keeps query_same (visit_select q)" "keeps scope_same (visit_join j)"
proof (induction e and c and f and sq and q and j
    rule: visit_expr_visit_col_visit_fn_visit_subquery_visit_select_visit_join.induct)
  case (20 star dst expl cols tab tal asof whr sorts lmt off aggs grp hav jt jal jon jtid jty extra tid)
  show ?case
  proof (rule keeps_query)
    show "keeps scope_same (visit_col c)" if "c \<in> set cols" "\<not> star" for c
      using 20(1,6,10) that by blast
    show "keeps scope_same (visit_col c)" if "(c, d) \<in> set sorts" for c d
      using 20(2,7,13) that by blast
    show "keeps scope_same (visit_expr e)" if "whr = Some e" for e
      using 20(5,9,14) that by blast
  qed (use 20(3,4,8,11,12,15) in blast)+
next
  case (18 t ex q corr res)
  then show ?case by (rule keeps_subquery)
qed (auto intro!: scope.keeps_rules keeps_resolve keeps_bool_clause split: option.split)

end
