(* ===== verification/Analysis.thy ===== *)
theory Analysis
  imports Frames
begin

text \<open>
  The catalog under the analysis of statements: whatever a statement is, and whether it is accepted
  or rejected, the catalog it leaves is consistent. A rejected statement may still have changed it.
\<close>

section \<open>What a visit makes of a consistent catalog\<close>

text \<open>From a consistent catalog with \<open>P\<close> a visit leads to one with \<open>Q\<close>, or to an error and a
  consistent catalog.\<close>

definition leads :: "(catalog \<Rightarrow> bool) \<Rightarrow> (catalog \<Rightarrow> bool) \<Rightarrow> 'a sem \<Rightarrow> bool" where
  "leads P Q m \<longleftrightarrow>
     (\<forall>st. catalog_inv (a_catalog st) \<longrightarrow> P (a_catalog st) \<longrightarrow>
        catalog_inv (a_catalog (snd (m st))) \<and> (\<forall>x. fst (m st) = Inr x \<longrightarrow> Q (a_catalog (snd (m st)))))"

lemma leads_bind:
  assumes "leads P Q m" "\<And>x. leads Q R (f x)"
  shows "leads P R (s_bind m f)"
  unfolding leads_def
proof (intro allI impI)
  fix st :: analyzer
  assume inv: "catalog_inv (a_catalog st)" and p: "P (a_catalog st)"
  obtain r st' where m: "m st = (r, st')" by fastforce
  have mid: "catalog_inv (a_catalog st')" "r = Inr x \<Longrightarrow> Q (a_catalog st')" for x
    using assms(1) inv p m by (auto simp: leads_def)
  show "catalog_inv (a_catalog (snd (s_bind m f st))) \<and>
        (\<forall>x. fst (s_bind m f st) = Inr x \<longrightarrow> R (a_catalog (snd (s_bind m f st))))"
  proof (cases r)
    case Inl
    then show ?thesis using mid m by (simp add: s_bind_def)
  next
    case (Inr y)
    then show ?thesis using mid m assms(2) [of y] by (auto simp: s_bind_def leads_def)
  qed
qed

lemma leads_keeps: "keeps S m \<Longrightarrow> leads P P m"
  by (auto simp: keeps_def leads_def)

lemma leads_pure [intro]: "leads P P (s_return x)" "leads P P (s_lift r)" "leads P P (require b msg)" "leads P P s_get"
    "leads P Q (semantic_error msg)"
  by (auto simp: leads_def s_return_def s_lift_def require_def s_get_def semantic_error_def)

lemma leads_modify [intro]: "(\<And>st. a_catalog (g st) = a_catalog st) \<Longrightarrow> leads P P (s_modify g)"
  by (auto simp: leads_def s_modify_def)

lemma leads_seq: "leads P P m \<Longrightarrow> (\<And>x. leads P P (f x)) \<Longrightarrow> leads P P (s_bind m f)"
  by (rule leads_bind)

lemma sem_simps:
  "s_bind (s_return x) f = f x" "s_bind (s_bind m g) f = s_bind m (\<lambda>x. s_bind (g x) f)"
  "s_bind (semantic_error msg) h = semantic_error msg" "s_bind (s_lift (Inr x)) f = f x"
  "s_bind (s_lift (Inl e)) h = s_lift (Inl e)"
  by (auto simp: fun_eq_iff s_bind_def s_return_def semantic_error_def s_lift_def split: prod.splits sum.splits)

lemma leads_get:
  "(\<And>st. leads (\<lambda>cat. P cat \<and> cat = a_catalog st) Q (f st)) \<Longrightarrow> leads P Q (s_bind s_get f)"
  by (auto simp: leads_def s_bind_def s_get_def)

lemma leads_require: "(b \<Longrightarrow> leads P Q (f ())) \<Longrightarrow> leads P Q (s_bind (require b msg) f)"
  by (auto simp: leads_def s_bind_def require_def s_return_def semantic_error_def)

lemma leads_catalog:
  "(\<And>cat. catalog_inv cat \<Longrightarrow> P cat \<Longrightarrow> catalog_step cat (fst (f cat)) \<and> Q (fst (f cat))) \<Longrightarrow> leads P Q (on_catalog f)"
  by (auto simp: leads_def on_catalog_def split: prod.splits dest: step_inv) (metis fst_conv step_inv)+

lemma leads_change:
  assumes "\<And>cat. catalog_inv cat \<Longrightarrow> P cat \<Longrightarrow> catalog_step cat (fst (f cat)) \<and> Q (fst (f cat))"
    "\<And>x. leads Q Q (g x)"
  shows "leads P Q (s_bind (on_catalog f) g)"
  by (rule leads_bind [OF leads_catalog [OF assms(1)] assms(2)])

lemma leads_map: "(\<And>x. x \<in> set xs \<Longrightarrow> leads P P (f x)) \<Longrightarrow> leads P P (s_map f xs)"
  by (induction xs) (auto intro!: leads_bind)

lemma leads_opt: "(\<And>y. leads P P (f y)) \<Longrightarrow> leads P P (s_opt f x)"
  by (auto simp: s_opt_def split: option.split intro: leads_bind)

lemma leads_weaken: "leads P Q m \<Longrightarrow> (\<And>cat. P' cat \<Longrightarrow> P cat) \<Longrightarrow> (\<And>cat. Q cat \<Longrightarrow> Q' cat) \<Longrightarrow> leads P' Q' m"
  by (auto simp: leads_def)

lemmas leads_visits = visits_keep [THEN leads_keeps] keeps_find_table [THEN leads_keeps]

lemma leads_visit_where: "leads P P (where_clause w)"
  unfolding where_clause_def by (rule leads_opt, rule leads_keeps, rule keeps_bool_clause, rule visits_keep)

section \<open>Statements\<close>

definition wide :: "string \<Rightarrow> nat \<Rightarrow> catalog \<Rightarrow> bool" where
  "wide n k cat \<longleftrightarrow> (\<forall>t. getTable cat n = Some t \<longrightarrow> length (ts_columns t) = k)"

lemma wide_create:
  assumes "\<not> cat_hasTable cat n" "length cs = k"
  shows "wide n k (fst (createTable cat n cs))"
  using assms by (simp add: wide_def createTable_def add_relation_def new_table_def put_table_def getTable_def update_conv')

lemma wide_primary: "wide n k cat \<Longrightarrow> wide n k (fst (setPrimaryKey cat m is))"
  by (auto simp: wide_def setPrimaryKey_def getTable_def update_conv' split: option.splits if_splits)

lemma wide_foreign: "wide n k cat \<Longrightarrow> wide n k (fst (addForeignKey cat m fk))"
  by (auto simp: wide_def addForeignKey_def getTable_def update_conv' split: option.splits if_splits)

lemma wide_check: "wide n k cat \<Longrightarrow> wide n k (fst (setColumnCheckExpr cat m i e))"
  by (auto simp: wide_def setColumnCheckExpr_def getTable_def update_conv' split: option.splits if_splits)

lemma columns_of_definitions_length: "columns_of_definitions n seen pk ds = Inr cs \<Longrightarrow> length cs = length ds"
  by (induction ds arbitrary: seen pk cs) (auto split: sum.splits)

lemma numbered_bound: "(i, d) \<in> set (numbered ds) \<Longrightarrow> 0 \<le> i \<and> i < int (length ds)"
  by (auto simp: numbered_def set_zip)

lemma leads_bind_reference:
  assumes "0 \<le> i" "i < int k"
  shows "leads (wide n k) (wide n k) (bind_reference n i d)"
proof -
  have step: "catalog_step cat (fst (addForeignKey cat n fk)) \<and> wide n k (fst (addForeignKey cat n fk))"
    if "wide n k cat" "fk_column fk = i" for cat fk
    using that assms wide_foreign [OF that(1)] by (auto intro!: catalog_step.intros simp: wide_def)
  have change: "leads (\<lambda>cat. wide n k cat \<and> cat = cat') (wide n k) (s_bind (on_catalog (\<lambda>cat. addForeignKey cat n fk)) (\<lambda>_. s_return ()))"
    if "fk_column fk = i" for fk cat'
    using step that by (intro leads_change) auto
  show ?thesis
    unfolding bind_reference_def Let_def by (auto intro!: leads_get leads_pure change split: option.split)
qed

lemma leads_bindExpression: "leads P P (bindExpression e n)"
proof -
  have "keeps outer_same (bindExpression e n)"
    unfolding bindExpression_def
    by (intro outer.keeps_rules)
      (auto split: option.split intro!: outer.keeps_rules keeps_modify keeps_weaker(3) [OF keeps_bool_clause] visits_keep
        simp: outer_same_def)
  then show ?thesis by (rule leads_keeps)
qed

lemma leads_bind_check: "leads (wide n k) (wide n k) (bind_check n i d)"
  unfolding bind_check_def
  by (auto intro!: leads_pure leads_bind [OF leads_bindExpression] leads_change catalog_step.intros
      wide_check split: option.split)

lemma leads_bind_primary_key:
  fixes n :: string
  shows "leads (wide m k) (wide m k) (bind_primary_key n ns)"
proof -
  have "leads (\<lambda>cat. wide m k cat \<and> cat = c) (wide m k)
      (s_bind (s_lift r) (\<lambda>pk. s_bind (on_catalog (\<lambda>cat. setPrimaryKey cat n pk)) (\<lambda>_. s_return ())))" for r c
    by (auto intro!: leads_bind [OF leads_pure(2)] leads_change catalog_step.intros wide_primary leads_pure)
  then show ?thesis unfolding bind_primary_key_def by (auto intro!: leads_get leads_pure)
qed

lemma leads_bind_constraints:
  assumes "ct_table n = m" "length (ct_columns n) = k"
  shows "leads (wide m k) (\<lambda>_. True) (bind_constraints n)"
proof -
  have "leads (wide m k) (wide m k) (bind_constraints n)"
    unfolding bind_constraints_def using assms
    by (intro leads_seq leads_pure leads_bind_primary_key leads_map)
      (auto intro!: leads_bind_reference leads_bind_check dest: numbered_bound)
  then show ?thesis by (rule leads_weaken) auto
qed

lemma leads_create_relation: "leads (\<lambda>cat. \<not> cat_hasTable cat (ct_table n)) (\<lambda>_. True) (create_relation n)"
proof (cases "columns_of_definitions (ct_table n) [] False (ct_columns n)")
  case (Inl e)
  then show ?thesis by (simp add: create_relation_def leads_def s_bind_def s_lift_def)
next
  case (Inr cs)
  note len = columns_of_definitions_length [OF Inr]
  have "leads (\<lambda>cat. \<not> cat_hasTable cat (ct_table n)) (wide (ct_table n) (length cs))
      (on_catalog (\<lambda>cat. createTable cat (ct_table n) cs))"
    by (auto intro!: leads_catalog catalog_step.intros wide_create)
  then show ?thesis using Inr len by (auto simp: create_relation_def sem_simps intro!: leads_bind leads_bind_constraints)
qed

lemma leads_visit_create: "leads (\<lambda>_. True) (\<lambda>_. True) (visit_create n)"
proof -
  have table: "leads (\<lambda>cat. \<not> cat_hasTable cat (ct_table n)) (\<lambda>_. True) (create_relation m)" if "ct_table m = ct_table n" for m
    using leads_create_relation [of m] that by simp
  have query: "leads (\<lambda>cat. \<not> cat_hasTable cat (ct_table n)) (\<lambda>_. True)
      (s_bind (visit_select q) (\<lambda>q. s_bind (require (f q) msg) (\<lambda>_. create_relation (g q))))"
    if "\<And>q. ct_table (g q) = ct_table n" for f msg g q
    using that by (intro leads_bind [OF leads_visits(5)] leads_require table)
  show ?thesis
    unfolding visit_create_def Let_def
    by (auto intro!: leads_get leads_require leads_weaken [OF table] leads_weaken [OF query] split: option.split)
qed

text \<open>The other statements change the catalog by one operation at most.\<close>

lemma leads_one_change:
  assumes "\<And>cat. catalog_step cat (fst (f cat))" "\<And>x. leads (\<lambda>_. True) (\<lambda>_. True) (g x)"
  shows "leads P (\<lambda>_. True) (s_bind (on_catalog f) g)"
  using assms by (auto intro!: leads_change intro: leads_weaken)

lemma leads_any: "leads (\<lambda>_. True) (\<lambda>_. True) m \<Longrightarrow> leads P (\<lambda>_. True) m"
  by (rule leads_weaken) auto

lemma leads_statement:
  "leads P (\<lambda>_. True) (visit_create_idx ci)" "leads P (\<lambda>_. True) (visit_drop dr)"
  "leads P (\<lambda>_. True) (visit_create_view v)"
proof -
  show "leads P (\<lambda>_. True) (visit_create_idx ci)"
    unfolding visit_create_idx_def
    by (rule leads_any, auto intro!: leads_seq leads_visits leads_pure leads_one_change catalog_step.intros)
  show "leads P (\<lambda>_. True) (visit_drop dr)"
    unfolding visit_drop_def Let_def
    by (rule leads_any, auto intro!: leads_seq leads_pure leads_one_change catalog_step.intros split: option.split)
  show "leads P (\<lambda>_. True) (visit_create_view v)"
    unfolding visit_create_view_def Let_def
    by (rule leads_any, auto intro!: leads_seq leads_visits leads_pure leads_one_change catalog_step.intros)
qed

lemma leads_insert: "leads P P (visit_insert n)"
proof -
  have cell: "leads P P (insert_value c e)" for c e
    unfolding insert_value_def by (auto intro!: leads_seq leads_visits leads_pure split: expr.split)
  have row: "leads P P (insert_cells t targets row)" for t targets row
    unfolding insert_cells_def by (auto intro!: leads_seq leads_pure leads_map cell)
  have conflict: "leads P P (conflict_column t c)" "leads P P (conflict_value t p)" for t c p
    unfolding conflict_column_def conflict_value_def Let_def
    by (auto intro!: leads_seq leads_pure leads_visits split: prod.split)
  have none: "leads P P no_table" unfolding no_table_def by auto
  show ?thesis
    unfolding visit_insert_def Let_def
    by (auto intro!: leads_seq leads_pure leads_visits leads_map row conflict none leads_modify split: option.split)
qed

lemma leads_assignments: "leads P P (visit_assignments n t seen as)"
  by (induction as arbitrary: seen) (auto simp: Let_def intro!: leads_seq leads_pure leads_visits)

lemma leads_changes: "leads P P (visit_delete d)" "leads P P (visit_update u)" "leads P P (visit_alter a)"
proof -
  have none: "leads P P no_table" unfolding no_table_def by auto
  show "leads P P (visit_delete d)"
    unfolding visit_delete_def by (auto intro!: leads_seq leads_pure leads_visits leads_map leads_visit_where none leads_modify)
  show "leads P P (visit_update u)"
    unfolding visit_update_def
    by (auto intro!: leads_seq leads_pure leads_visits leads_map leads_visit_where leads_assignments none leads_modify
        simp: enter_join_def leave_join_def)
  show "leads P P (visit_alter a)"
    unfolding visit_alter_def Let_def by (auto intro!: leads_seq leads_pure leads_visits)
qed

lemma leads_analyze: "leads (\<lambda>_. True) (\<lambda>_. True) (analyze s)"
  by (induction s) (auto intro!: leads_seq leads_pure leads_visits leads_visit_create leads_statement leads_insert leads_changes)

text \<open>C25: Whatever statement is analysed, and whether it is accepted or rejected on the way, a consistent
  catalog stays consistent.\<close>

theorem analyze_keeps_catalog:
  assumes "catalog_inv (a_catalog st)"
  shows "catalog_inv (a_catalog (snd (analyze s st)))"
  using assms leads_analyze [of s] by (auto simp: leads_def)

theorem analyze_keeps_catalog_witness:
  "catalog_inv (a_catalog (snd (analyze (DropStatement \<lparr>isIndex = False, isView = False, is_truncate = False,
     drop_name = ''t'', drop_tableId = 0\<rparr>) (analyzer_of (fst (createTable empty_catalog ''t'' []))))))"
proof (rule analyze_keeps_catalog)
  have "catalog_step\<^sup>*\<^sup>* empty_catalog (fst (createTable empty_catalog ''t'' []))"
    by (rule r_into_rtranclp, rule catalog_step.intros)
  then show "catalog_inv (a_catalog (analyzer_of (fst (createTable empty_catalog ''t'' []))))"
    by (simp add: analyzer_of_def reachable_inv)
qed

section \<open>What an error leaves behind\<close>

lemma rejected_create_stays:
  assumes new: "\<not> cat_hasTable (a_catalog st) (ct_table n)" and n: "asQuery n = None" "primaryKeyColumns n = []"
    and cs: "columns_of_definitions (ct_table n) [] False (ct_columns n) = Inr cs" and d: "ct_columns n = d # ds"
    and ref: "refTable d \<noteq> []" "refTable d \<noteq> ct_table n" "getTable (a_catalog st) (refTable d) = None"
  shows "fst (analyze (CreateStatement n) st) =
      Inl (SemanticError (''foreign key references unknown table '' @ quoted (refTable d))) \<and>
    cat_hasTable (a_catalog (snd (analyze (CreateStatement n) st))) (ct_table n)"
proof -
  obtain cat' tid where c: "createTable (a_catalog st) (ct_table n) cs = (cat', tid)" by fastforce
  have cat: "getTable cat' (refTable d) = None" "cat_hasTable cat' (ct_table n)"
    using new ref c
    by (auto simp add: createTable_def add_relation_def new_table_def put_table_def getTable_def cat_hasTable_def update_conv')
  obtain rest_columns where num: "numbered (ct_columns n) = (0, d) # rest_columns"
    by (simp add: numbered_def d upt_conv_Cons del: upt_Suc)
  define st1 where "st1 = st\<lparr>a_catalog := cat'\<rparr>"
  have "bind_reference (ct_table n) 0 d st1 =
      (Inl (SemanticError (''foreign key references unknown table '' @ quoted (refTable d))), st1)"
    using ref(1) cat(1) by (simp add: bind_reference_def s_bind_def s_get_def semantic_error_def st1_def)
  then have "bind_constraints (n\<lparr>ct_tableId := value_or tid (- 1)\<rparr>) st1 =
      (Inl (SemanticError (''foreign key references unknown table '' @ quoted (refTable d))), st1)"
    by (simp add: bind_constraints_def bind_primary_key_def n num s_bind_def s_return_def)
  then have "visit_create n st =
      (Inl (SemanticError (''foreign key references unknown table '' @ quoted (refTable d))), st1)"
    using new c by (simp add: visit_create_def create_relation_def n cs s_bind_def s_get_def s_lift_def s_return_def
        require_def on_catalog_def st1_def)
  then show ?thesis using cat(2) by (simp add: s_bind_def st1_def)
qed

text \<open>A CHECK with a subquery ends in an error that is no \<open>SemanticError\<close>.\<close>

lemma check_subquery_escapes:
  assumes "\<not> cat_hasTable (a_catalog st) (ct_table n)" "asQuery n = None"
    "ct_columns n = [d]" "checkExpr d = Some (InExpr t v items (Some q) negated)"
    "columns_of_definitions (ct_table n) [] False [d\<lparr>checkExpr := None\<rparr>] = Inr cs"
  shows "fst (analyze (CreateStatement n) st) = Inl (RuntimeError ''subquery not allowed in CHECK'')"
  using assms
  by (auto simp: visit_create_def create_relation_def column_of_definition_def check_source_def reject_def
      s_bind_def s_get_def s_lift_def s_return_def require_def split: if_splits option.splits)

section \<open>Aliases and subqueries\<close>

lemma select_forgets_alias:
  assumes "visit_select q st = (Inr q', st')" "joinTable q = []"
  shows "currentAlias st' = []"
proof (cases q)
  case (Select star dst expl cols tab tal asof whr sorts lmt off aggs grp hav jt jal jon jtid jty extra tid)
  then show ?thesis
    using assms by (auto simp: visit_select.simps s_bind_def s_modify_def s_return_def split: prod.splits sum.splits)
qed

lemma subquery_forgets_alias:
  assumes sub: "visit_subquery (Subq t ex q corr res) st = (Inr sq, st')" "joinTable q = []"
    and scope: "\<not> nWayJoin st" "joined st = None" "currentTable st = Some u" "outerScopes st = []"
    and c: "computed c = None" "col_table c = currentAlias st" "col_table c \<noteq> []" "col_table c \<noteq> ts_name u"
      "columnIndex_of u (col_column c) \<ge> 0"
  shows "(\<exists>c'. fst (visit_col c st) = Inr c') \<and>
    fst (visit_col c st') =
      Inl (SemanticError (''unknown table qualifier '' @ quoted (col_table c) @ '' (expected '' @ quoted (ts_name u) @ '')''))"
proof -
  have "currentAlias st' = []"
    using sub by (auto simp: s_bind_def s_get_def s_modify_def s_return_def leave_subquery_def split: prod.splits sum.splits
        dest: select_forgets_alias)
  moreover have "scope_same st st'"
    using visits_keep(4) [of "Subq t ex q corr res"] sub(1) unfolding keeps_def by (metis fst_conv snd_conv)
  then have "\<not> nWayJoin st'" "joined st' = None" "currentTable st' = Some u" "outerScopes st' = []"
    using scope by (auto simp: scope_same_def query_same_def outer_same_def)
  ultimately show ?thesis
    using scope c
    by (cases c) (auto simp: resolve_column_def resolve_single_def resolveOuter_def Let_def s_bind_def s_get_def s_return_def
        semantic_error_def)
qed

end
