(* ===== verification/Typing.thy ===== *)
theory Typing
  imports Frames ExprEval
begin

text \<open>
  The types the analyzer gives to expressions and the values their evaluation yields. \<open>typed\<close> is
  the typing relation on annotated expressions over the columns of a scope: the analyzer accepts only
  typed expressions, a typed expression evaluates to NULL or to a value of its type, and the only
  operations of it that can fail are divisions.
\<close>

section \<open>Typed expressions\<close>

inductive typed :: "data_type list \<Rightarrow> expr \<Rightarrow> bool" for \<Gamma> where
  literal: "typed \<Gamma> (LiteralExpr (literal_type v) v)"
| column: "outerRef c \<or> columnIndex c < 0 \<or>
     nat (columnIndex c) < length \<Gamma> \<and> col_type c = Some (\<Gamma> ! nat (columnIndex c)) \<Longrightarrow> typed \<Gamma> (ColumnRef c)"
| binary: "typed \<Gamma> l \<Longrightarrow> typed \<Gamma> r \<Longrightarrow> binary_type (rtype l) (rtype r) = Inr t \<Longrightarrow> typed \<Gamma> (BinaryExpr t op l r)"
| arithmetic: "typed \<Gamma> l \<Longrightarrow> typed \<Gamma> r \<Longrightarrow> arithmetic_type (rtype l) (rtype r) = Inr t \<Longrightarrow>
     typed \<Gamma> (ArithmeticExpr t aop l r)"
| logical: "typed \<Gamma> l \<Longrightarrow> typed \<Gamma> r \<Longrightarrow> logical_type (rtype l) (rtype r) = Inr t \<Longrightarrow> typed \<Gamma> (LogicalExpr t lop l r)"
| negation: "typed \<Gamma> e \<Longrightarrow> not_type (rtype e) = Inr t \<Longrightarrow> typed \<Gamma> (UnaryExpr t e)"
| is_null: "typed \<Gamma> e \<Longrightarrow> typed \<Gamma> (IsNullExpr (Some DBool) e negated)"
| in_list: "typed \<Gamma> v \<Longrightarrow> (\<And>e. e \<in> set items \<Longrightarrow> typed \<Gamma> e \<and> \<not> mismatch (rtype v) (rtype e)) \<Longrightarrow>
     typed \<Gamma> (InExpr (Some DBool) v items None negated)"
| in_query: "typed \<Gamma> v \<Longrightarrow> typed \<Gamma> (InExpr (Some DBool) v items (Some q) negated)"
| between: "typed \<Gamma> v \<Longrightarrow> typed \<Gamma> lo \<Longrightarrow> typed \<Gamma> hi \<Longrightarrow> typed \<Gamma> (BetweenExpr (Some DBool) v lo hi negated)"
| like: "typed \<Gamma> v \<Longrightarrow> typed \<Gamma> p \<Longrightarrow> like_type (rtype v) = Inr t \<Longrightarrow> typed \<Gamma> (LikeExpr t v p negated)"
| aggregate: "typed \<Gamma> (FunctionExpr f)"
| call: "(\<And>e. e \<in> set args \<Longrightarrow> typed \<Gamma> e) \<Longrightarrow> call_type fn isCast castType (map rtype args) = Inr t \<Longrightarrow>
     typed \<Gamma> (CallExpr t fn args castType isCast)"
| branches: "(\<And>w e. (w, e) \<in> set branches \<Longrightarrow> typed \<Gamma> w \<and> when_ok (rtype w) \<and> typed \<Gamma> e) \<Longrightarrow>
     (\<And>e. els = Some e \<Longrightarrow> typed \<Gamma> e) \<Longrightarrow> typed \<Gamma> (CaseExpr (case_type branches els) branches els)"
| window: "typed \<Gamma> (WindowExpr t fn argument part sorts)"
| subquery: "sub_type q = (if sub_exists q then Some DBool else None) \<Longrightarrow> typed \<Gamma> (SubqueryExpr q)"

inductive_cases typed_BinaryE: "typed \<Gamma> (BinaryExpr t op l r)"
inductive_cases typed_LogicalE: "typed \<Gamma> (LogicalExpr t op l r)"

inductive_simps typed_simps:
  "typed \<Gamma> (LiteralExpr t v)" "typed \<Gamma> (ColumnRef c)" "typed \<Gamma> (BinaryExpr t op l r)"
  "typed \<Gamma> (ArithmeticExpr t aop l r)" "typed \<Gamma> (LogicalExpr t lop l r)" "typed \<Gamma> (CallExpr t fn args castType isCast)"

section \<open>The analyzer accepts only typed expressions\<close>

text \<open>The types of the columns a visit resolves names to, outside joins of more than two tables.\<close>

definition table_types :: "table_schema \<Rightarrow> data_type list" where
  "table_types t = map cs_type (ts_columns t)"

definition scope_types :: "analyzer \<Rightarrow> data_type list" where
  "scope_types st =
     (case joined st of
        Some (l, r) \<Rightarrow> table_types l @ table_types r
      | None \<Rightarrow> (case currentTable st of Some t \<Rightarrow> table_types t | None \<Rightarrow> []))"

definition in_scope_of :: "data_type list \<Rightarrow> analyzer \<Rightarrow> bool" where
  "in_scope_of \<Gamma> st \<longleftrightarrow> \<not> nWayJoin st \<and> scope_types st = \<Gamma>"

definition yields :: "data_type list \<Rightarrow> 'a sem \<Rightarrow> ('a \<Rightarrow> bool) \<Rightarrow> bool" where
  "yields \<Gamma> m Q \<longleftrightarrow> (\<forall>st x st'. in_scope_of \<Gamma> st \<longrightarrow> m st = (Inr x, st') \<longrightarrow> Q x \<and> in_scope_of \<Gamma> st')"

lemma in_scope_same: "scope_same st st' \<Longrightarrow> in_scope_of \<Gamma> st \<Longrightarrow> in_scope_of \<Gamma> st'"
  by (auto simp: scope_same_def query_same_def in_scope_of_def scope_types_def cong: option.case_cong)

lemma yields_at: "yields \<Gamma> m Q \<Longrightarrow> in_scope_of \<Gamma> st \<Longrightarrow> m st = (Inr x, st') \<Longrightarrow> Q x \<and> in_scope_of \<Gamma> st'"
  by (simp add: yields_def)

lemma s_bind_Inr:
  assumes "s_bind m f st = (Inr y, st'')"
  obtains x st' where "m st = (Inr x, st')" "f x st' = (Inr y, st'')"
  using assms by (auto simp: s_bind_def split: prod.splits sum.splits)

lemma yields_bind:
  assumes "yields \<Gamma> m P" "\<And>x. P x \<Longrightarrow> yields \<Gamma> (f x) Q"
  shows "yields \<Gamma> (s_bind m f) Q"
  unfolding yields_def
proof (intro allI impI)
  fix st :: analyzer and y st''
  assume st: "in_scope_of \<Gamma> st" and run: "s_bind m f st = (Inr y, st'')"
  from run obtain x st' where x: "m st = (Inr x, st')" "f x st' = (Inr y, st'')" by (rule s_bind_Inr)
  then have mid: "P x" "in_scope_of \<Gamma> st'" using yields_at [OF assms(1) st] by auto
  show "Q y \<and> in_scope_of \<Gamma> st''" by (rule yields_at [OF assms(2) [OF mid(1)] mid(2) x(2)])
qed

lemma yields_keeps: "keeps scope_same m \<Longrightarrow> yields \<Gamma> m (\<lambda>_. True)"
  unfolding yields_def keeps_def using in_scope_same by (metis fst_conv snd_conv)

lemma yields_return: "Q x \<Longrightarrow> yields \<Gamma> (s_return x) Q"
  by (simp add: yields_def s_return_def)

lemma yields_lift: "(\<And>x. r = Inr x \<Longrightarrow> yields \<Gamma> (f x) Q) \<Longrightarrow> yields \<Gamma> (s_bind (s_lift r) f) Q"
  by (cases r) (auto simp: yields_def s_bind_def s_lift_def)

lemma yields_require: "(b \<Longrightarrow> yields \<Gamma> (f ()) Q) \<Longrightarrow> yields \<Gamma> (s_bind (require b msg) f) Q"
  by (auto simp: yields_def s_bind_def require_def s_return_def semantic_error_def)

lemma yields_map:
  assumes "\<And>x. x \<in> set xs \<Longrightarrow> yields \<Gamma> (f x) Q"
  shows "yields \<Gamma> (s_map f xs) (\<lambda>ys. \<forall>y\<in>set ys. Q y)"
  using assms
proof (induction xs)
  case (Cons x xs)
  then have "yields \<Gamma> (s_bind (s_map f xs) (\<lambda>ys. s_return (y # ys))) (\<lambda>ys. \<forall>y\<in>set ys. Q y)" if "Q y" for y
    using that by (intro yields_bind [where P = "\<lambda>ys. \<forall>y\<in>set ys. Q y"] yields_return) auto
  then have "yields \<Gamma> (s_bind (f x) (\<lambda>y. s_bind (s_map f xs) (\<lambda>ys. s_return (y # ys)))) (\<lambda>ys. \<forall>y\<in>set ys. Q y)"
    by (rule yields_bind [OF Cons.prems, rotated]) simp_all
  then show ?case by simp
qed (simp add: yields_return)

lemma yields_opt:
  "(\<And>y. x = Some y \<Longrightarrow> yields \<Gamma> (f y) Q) \<Longrightarrow> yields \<Gamma> (s_opt f x) (\<lambda>r. \<forall>y. r = Some y \<longrightarrow> Q y)"
proof (cases x)
  case (Some y)
  assume "\<And>y. x = Some y \<Longrightarrow> yields \<Gamma> (f y) Q"
  then have "yields \<Gamma> (f y) Q" using Some by blast
  then show ?thesis by (simp add: s_opt_def Some yields_bind [where P = Q] yields_return)
qed (simp add: s_opt_def yields_return)

section \<open>Columns\<close>

definition column_typed :: "data_type list \<Rightarrow> column_ref \<Rightarrow> bool" where
  "column_typed \<Gamma> c \<longleftrightarrow> typed \<Gamma> (ColumnRef c)"

lemma yields_resolveOuter: "yields \<Gamma> (resolveOuter c msg) (column_typed \<Gamma>)"
proof -
  have "scope_same st st' \<and> outerRef c'" if "resolveOuter c msg st = (Inr c', st')" for st c' st'
    using that keeps_resolveOuter [of c msg]
    by (auto simp: resolveOuter_def s_bind_def s_get_def s_modify_def s_return_def semantic_error_def outer_resolved_def
        keeps_def scope_same_def query_same_def outer_same_def split: option.splits prod.splits)
  then show ?thesis unfolding yields_def column_typed_def using in_scope_same typed.column by blast
qed

lemma resolved_typed:
  assumes "0 \<le> columnIndex_of t n" "off = int (length xs)" "\<Gamma> = xs @ table_types t @ ys"
  shows "column_typed \<Gamma> (resolved c t off (columnIndex_of t n))"
  using assms columnIndex_range [of t n]
  by (auto simp: column_typed_def typed_simps resolved_def table_types_def nth_append nat_add_distrib)

lemma yields_resolve: "yields \<Gamma> (resolve_column c) (column_typed \<Gamma>)"
  unfolding yields_def
proof (intro allI impI)
  fix st :: analyzer and c' st'
  assume st: "in_scope_of \<Gamma> st" and c': "resolve_column c st = (Inr c', st')"
  note outer = yields_at [OF yields_resolveOuter st]
  note runs = s_bind_def s_get_def s_return_def semantic_error_def Let_def
  show "column_typed \<Gamma> c' \<and> in_scope_of \<Gamma> st'"
  proof (cases "joined st")
    case None
    then have "resolve_single c st = (Inr c', st')"
      using c' st by (simp add: resolve_column_def runs in_scope_of_def)
    then show ?thesis
      using st None
      by (auto simp: resolve_single_def runs in_scope_of_def scope_types_def
          intro: resolved_typed [where xs = "[]" and ys = "[]"] dest!: outer split: option.splits if_splits)
  next
    case (Some lr)
    obtain l r where lr: "lr = (l, r)" by fastforce
    then have "resolve_joined l r c st = (Inr c', st')" "\<Gamma> = table_types l @ table_types r"
      using c' st Some by (simp_all add: resolve_column_def runs in_scope_of_def scope_types_def)
    then show ?thesis
      using st
      by (auto simp: resolve_joined_def runs in_scope_of_def table_types_def
          intro: resolved_typed [where xs = "[]" and ys = "table_types r"]
            resolved_typed [where xs = "table_types l" and ys = "[]"]
          dest!: outer split: option.splits if_splits)
  qed
qed

section \<open>Expressions\<close>

lemma yields_typed_column:
  assumes "column_typed \<Gamma> c"
  shows "typed \<Gamma> (ColumnRef c)"
  using assms by (simp add: column_typed_def)

lemma yields_visit:
  "yields \<Gamma> (visit_expr e) (typed \<Gamma>)" "yields \<Gamma> (visit_col c) (column_typed \<Gamma>)"
  "keeps scope_same (visit_fn f)" "keeps scope_same (visit_subquery sq)" "keeps query_same (visit_select q)"
  "keeps scope_same (visit_join j)"
proof (induction e and c and f and sq and q and j
    rule: visit_expr_visit_col_visit_fn_visit_subquery_visit_select_visit_join.induct)
  case (1 t v)
  show ?case by (simp add: yields_return typed.literal)
next
  case (2 c)
  show ?case by (auto simp: column_typed_def intro!: yields_bind [OF 2] yields_return)
next
  case (3 t op l r)
  show ?case by (auto intro!: yields_bind [OF 3(1)] yields_bind [OF 3(2)] yields_lift yields_return typed.binary)
next
  case (4 t op l r)
  show ?case by (auto intro!: yields_bind [OF 4(1)] yields_bind [OF 4(2)] yields_lift yields_return typed.arithmetic)
next
  case (5 t op l r)
  show ?case by (auto intro!: yields_bind [OF 5(1)] yields_bind [OF 5(2)] yields_lift yields_return typed.logical)
next
  case (6 t e)
  show ?case by (auto intro!: yields_bind [OF 6] yields_lift yields_return typed.negation)
next
  case (7 t e negated)
  show ?case by (auto intro!: yields_bind [OF 7] yields_return typed.is_null)
next
  case (8 t v items sub negated)
  show ?case
  proof (cases sub)
    case (Some q)
    then show ?thesis
      by (auto intro!: yields_bind [OF 8(1)] yields_bind [OF yields_keeps [OF visits_keep(4)]] yields_return typed.in_query)
  next
    case None
    have item: "yields \<Gamma> (s_bind (visit_expr i) (\<lambda>i. s_bind (require (\<not> mismatch (rtype v') (rtype i)) msg) (\<lambda>_. s_return i)))
        (\<lambda>i. typed \<Gamma> i \<and> \<not> mismatch (rtype v') (rtype i))" if "i \<in> set items" for i v' msg
      using None that by (auto intro!: yields_bind [OF 8(2)] yields_require yields_return)
    show ?thesis
      using None by (auto intro!: yields_bind [OF 8(1)] yields_bind [OF yields_map [OF item]] yields_return typed.in_list)
  qed
next
  case (9 t v lo hi negated)
  show ?case
    by (auto intro!: yields_bind [OF 9(1)] yields_bind [OF 9(2)] yields_bind [OF 9(3)] yields_return typed.between)
next
  case (10 t v p negated)
  show ?case by (auto intro!: yields_bind [OF 10(1)] yields_bind [OF 10(2)] yields_lift yields_return typed.like)
next
  case (11 f)
  show ?case by (auto intro!: yields_bind [OF yields_keeps [OF visits_keep(3)]] yields_return typed.aggregate)
next
  case (12 t fn args castType isCast)
  show ?case by (auto intro!: yields_bind [OF yields_map [OF 12]] yields_lift yields_return typed.call)
next
  case (13 t branches els)
  have branch: "yields \<Gamma> ((\<lambda>(w, t). s_bind (visit_expr w) (\<lambda>w. s_bind (require (when_ok (rtype w)) msg) (\<lambda>_.
      s_bind (visit_expr t) (\<lambda>t. s_return (w, t))))) b) (\<lambda>(w, t). typed \<Gamma> w \<and> when_ok (rtype w) \<and> typed \<Gamma> t)"
    if "b \<in> set branches" for b msg
  proof -
    obtain w u where b: "b = (w, u)" by fastforce
    have "yields \<Gamma> (visit_expr w) (typed \<Gamma>)" using 13(1) [OF that b [symmetric]] .
    moreover have "yields \<Gamma> (visit_expr u) (typed \<Gamma>)" using 13(2) [OF that b [symmetric]] .
    ultimately show ?thesis
      by (auto simp: b intro!: yields_bind [where P = "typed \<Gamma>"] yields_require yields_return)
  qed
  show ?case
    by (auto intro!: yields_require yields_bind [OF yields_map [OF branch]] yields_bind [OF yields_opt [OF 13(3)]]
        yields_return typed.branches)
next
  case (14 t fn argument part sorts)
  have window: "keeps scope_same (visit_expr (WindowExpr t fn argument part sorts))" by (rule visits_keep)
  have "typed \<Gamma> e" if "visit_expr (WindowExpr t fn argument part sorts) st = (Inr e, st')" for e st st'
    using that by (auto elim!: s_bind_Inr simp: s_return_def intro: typed.window)
  then show ?case using yields_keeps [OF window] unfolding yields_def by blast
next
  case (15 q)
  have "yields \<Gamma> (visit_subquery q) (\<lambda>q. sub_type q = (if sub_exists q then Some DBool else None))"
  proof (cases q)
    case (Subq t ex sel corr res)
    then have "sub_type q' = (if sub_exists q' then Some DBool else None)" if "visit_subquery q st = (Inr q', st')" for q' st st'
      using that by (auto elim!: s_bind_Inr simp: s_return_def)
    then show ?thesis using yields_keeps [OF visits_keep(4)] unfolding yields_def by blast
  qed
  then show ?case by (auto intro!: yields_bind yields_return typed.subquery)
next
  case (16 t tab col al cex idx oref bnd)
  show ?case
  proof (cases cex)
    case None
    then show ?thesis by (simp add: yields_resolve)
  next
    case (Some e)
    then show ?thesis
      by (auto intro!: yields_bind [OF 16] yields_return simp: column_typed_def intro: typed.column)
  qed
qed (rule visits_keep)+

section \<open>Values of a type\<close>

fun fits :: "val \<Rightarrow> data_type option \<Rightarrow> bool" where
  "fits VNull t \<longleftrightarrow> True"
| "fits (VInt _) t \<longleftrightarrow> t = Some DInt"
| "fits (VDouble _) t \<longleftrightarrow> t = Some DFloat"
| "fits (VBool _) t \<longleftrightarrow> t = Some DBool"
| "fits (VText _) t \<longleftrightarrow> (case t of Some a \<Rightarrow> isStringType a | None \<Rightarrow> False)"

lemma fits_None [simp]: "fits v None \<longleftrightarrow> v = VNull"
  by (cases v) auto

lemma fits_types:
  "fits v (Some DInt) \<longleftrightarrow> v = VNull \<or> (\<exists>i. v = VInt i)" "fits v (Some DFloat) \<longleftrightarrow> v = VNull \<or> (\<exists>d. v = VDouble d)"
  "fits v (Some DBool) \<longleftrightarrow> v = VNull \<or> (\<exists>b. v = VBool b)"
  by (cases v; simp add: isStringType_def)+

definition conforms :: "val list \<Rightarrow> data_type list \<Rightarrow> bool" where
  "conforms row \<Gamma> \<longleftrightarrow> list_all2 (\<lambda>v t. fits v (Some t)) row \<Gamma>"

definition agrees :: "data_type option \<Rightarrow> data_type option \<Rightarrow> bool" where
  "agrees a t \<longleftrightarrow> a = None \<or> a = t \<or> (\<exists>x y. a = Some x \<and> t = Some y \<and> isStringType x \<and> isStringType y)"

lemma fits_agrees: "fits v a \<Longrightarrow> agrees a t \<Longrightarrow> fits v t"
  by (cases v) (auto simp: agrees_def isStringType_def)

text \<open>
  What the analyzer does not look at: the columns of an outer query are bound to values of their
  types, the results of CASE and the arguments of COALESCE agree, no scalar subquery is an operand.
\<close>

function (sequential) settled :: "expr \<Rightarrow> bool" where
  "settled (ColumnRef c) \<longleftrightarrow> (outerRef c \<longrightarrow> (case bound c of Some v \<Rightarrow> fits v (col_type c) | None \<Rightarrow> True))"
| "settled (ArithmeticExpr t op l r) \<longleftrightarrow> settled l \<and> settled r"
| "settled (CallExpr t fn args castType isCast) \<longleftrightarrow>
     (\<not> isCast \<and> fn \<in> {''COALESCE'', ''NULLIF'', ''ABS''} \<longrightarrow> (\<forall>a\<in>set args. settled a)) \<and>
     (\<not> isCast \<and> fn = ''COALESCE'' \<longrightarrow> (\<forall>a\<in>set args. agrees (rtype a) t))"
| "settled (CaseExpr t branches els) \<longleftrightarrow>
     (\<forall>(w, e)\<in>set branches. settled e \<and> agrees (rtype e) t) \<and>
     (case els of Some e \<Rightarrow> settled e \<and> agrees (rtype e) t | None \<Rightarrow> True)"
| "settled (SubqueryExpr q) \<longleftrightarrow> sub_exists q"
| "settled e \<longleftrightarrow> True"
  by pat_completeness auto

termination
  by (relation "measure size") (auto dest!: mem_size branch_pair_size)

lemma evalArgs_all2: "evalArgs es row = Some as \<longleftrightarrow> list_all2 (\<lambda>e a. evalExpression e row = Some a) es as"
  by (induction es arbitrary: as) (auto simp: list_all2_Cons1 bind_eq_Some_conv)

lemma cast_fits: "fits (castValue v t) (Some t)"
  by (cases v; cases t) (auto simp: isStringType_def split: option.split)

lemma on_first_fits:
  "on_first a f = Some v \<Longrightarrow> (\<And>x. a \<noteq> [] \<Longrightarrow> x = a ! 0 \<Longrightarrow> \<not> isNull x \<Longrightarrow> fits (f x) t) \<Longrightarrow> fits v t"
  by (auto simp: on_first_def arg_def bind_eq_Some_conv split: if_splits)

lemma first_type_coalesce:
  assumes "list_all2 fits as ts" "\<forall>x\<in>set ts. agrees x t"
  shows "fits (case find (\<lambda>v. \<not> isNull v) as of Some v \<Rightarrow> v | None \<Rightarrow> VNull) t"
  using assms by (induction as ts rule: list_all2_induct) (auto intro: fits_agrees)

lemma arity_Inr: "arity ns n msg t = Inr u \<longleftrightarrow> n \<in> set ns \<and> u = t"
  by (auto simp: arity_def reject_def)

lemma call_names:
  assumes "call_type fn False castType ts = Inr t" "fn \<notin> {''COALESCE'', ''NULLIF'', ''ABS''}"
  shows "fn = ''UPPER'' \<or> fn = ''LOWER'' \<or> fn = ''TRIM'' \<or> fn = ''LENGTH'' \<or> fn = ''SUBSTR'' \<or> fn = ''ROUND'' \<or>
      fn = ''CEIL'' \<or> fn = ''FLOOR'' \<or> fn = ''MOD''"
proof (rule ccontr)
  assume "\<not> ?thesis"
  then have "call_type fn False castType ts =
      (if fn \<in> set aggregate_names then reject (''aggregate '' @ quoted fn @ '' is only allowed in a FETCH list'')
       else reject (''unknown function '' @ quoted fn))"
    using assms(2) unfolding call_type_def Let_def by (simp only: insert_iff empty_iff de_Morgan_disj if_False simp_thms)
  then show False using assms(1) by (auto simp: reject_def split: if_splits)
qed

lemma call_fits:
  assumes t: "call_type fn isCast castType ts = Inr t" and v: "evalCall fn isCast castType as = Some v"
    and len: "length as = length ts"
    and args: "\<not> isCast \<Longrightarrow> fn \<in> {''COALESCE'', ''NULLIF'', ''ABS''} \<Longrightarrow> list_all2 fits as ts"
    and agree: "\<not> isCast \<Longrightarrow> fn = ''COALESCE'' \<Longrightarrow> \<forall>x\<in>set ts. agrees x t"
  shows "fits v t"
proof -
  have hd: "fits (as ! 0) (hd ts)" if "\<not> isCast" "fn = ''NULLIF'' \<or> fn = ''ABS''" "ts \<noteq> []"
    using args that by (cases ts) (auto simp: list_all2_Cons2)
  consider (cast) isCast | (coalesce) "\<not> isCast" "fn = ''COALESCE''" | (nullif) "\<not> isCast" "fn = ''NULLIF''"
    | (abs) "\<not> isCast" "fn = ''ABS''" | (other) "\<not> isCast" "fn \<notin> {''COALESCE'', ''NULLIF'', ''ABS''}" by auto
  then show ?thesis
  proof cases
    case cast
    then show ?thesis using t v by (auto simp: call_type_def evalCall_def arity_Inr bind_eq_Some_conv cast_fits)
  next
    case coalesce
    then show ?thesis using v args agree first_type_coalesce [of as ts t] by (simp add: evalCall_def)
  next
    case nullif
    then have "t = hd ts" "length ts = 2" using t by (auto simp: call_type_def arity_Inr Let_def split: if_splits)
    then show ?thesis using nullif v hd
      by (cases ts) (auto simp: evalCall_def bind_eq_Some_conv arg_def split: if_splits)
  next
    case abs
    then have t': "t = Some (if hd ts = Some DFloat then DFloat else DInt)" "ts \<noteq> []"
      using t by (auto simp: call_type_def arity_Inr Let_def split: if_splits)
    have "on_first as (\<lambda>x. case x of VDouble d \<Rightarrow> VDouble (f_abs d)
        | _ \<Rightarrow> VInt (if sint (v_int x) < 0 then - v_int x else v_int x)) = Some v"
      using abs v by (simp add: evalCall_def)
    then show ?thesis
    proof (rule on_first_fits)
      fix x
      assume x: "x = as ! 0" "\<not> isNull x"
      then have "fits x (hd ts)" using hd [OF abs(1)] abs(2) t'(2) by simp
      then show "fits (case x of VDouble d \<Rightarrow> VDouble (f_abs d)
          | _ \<Rightarrow> VInt (if sint (v_int x) < 0 then - v_int x else v_int x)) t"
        using x(2) unfolding t'(1) by (cases x) (auto simp: isStringType_def split: option.splits)
    qed
  next
    case other
    note defs = evalCall_def call_type_def arity_Inr Let_def
    have "fn = ''UPPER'' \<or> fn = ''LOWER'' \<or> fn = ''TRIM'' \<or> fn = ''LENGTH'' \<or> fn = ''SUBSTR'' \<or> fn = ''ROUND'' \<or>
      fn = ''CEIL'' \<or> fn = ''FLOOR'' \<or> fn = ''MOD''"
    proof (rule call_names)
      show "call_type fn False castType ts = Inr t" using t other(1) by simp
    qed (rule other(2))
    then show ?thesis
      by (elim disjE)
        (use other t v in \<open>auto simp: defs isStringType_def bind_eq_Some_conv elim!: on_first_fits split: if_splits\<close>)
  qed
qed

lemma arith_fits:
  assumes "arithmetic_type lt rt = Inr t" "fits a lt" "fits b rt" "arith_val op a b = Some v"
  shows "fits v t"
proof -
  have types: "lt \<in> {None, Some DInt, Some DFloat}" "rt \<in> {None, Some DInt, Some DFloat}"
    "t = Some (if lt = Some DFloat \<or> rt = Some DFloat then DFloat else DInt)"
    using assms(1) by (auto simp: arithmetic_type_def reject_def not_numeric_def isNumericType_def split: if_splits option.splits)
  have "fits (arith_dbl op x y) (Some DFloat)" for x y by (cases op) auto
  moreover have "arith_int op x y = Some w \<Longrightarrow> fits w (Some DInt)" for x y w
    by (cases op) (auto split: if_splits)
  ultimately show ?thesis using types assms(2-4)
    by (cases a; cases b) (auto split: if_splits)
qed

lemma bool_vals:
  "fits (and_val a b) (Some DBool)" "fits (or_val a b) (Some DBool)" "fits (not_val a) (Some DBool)"
  "fits (compare_val op a b) (Some DBool)" "fits (between_val negated a b c) (Some DBool)"
  "fits (like_val negated a b) (Some DBool)" "fits (in_result negated fs) (Some DBool)"
  subgoal by (simp add: and_val_def)
  subgoal by (simp add: or_val_def)
  subgoal by (cases a) simp_all
  subgoal by (simp add: compare_val_def split: option.split)
  subgoal by (simp add: between_val_def Let_def split: option.split)
  subgoal by (simp add: like_val_def split: val.split)
  subgoal by (cases fs) simp
  done

lemma branches_fit:
  assumes "evalBranches bs els row = Some v"
    "\<And>w e u. (w, e) \<in> set bs \<Longrightarrow> evalExpression e row = Some u \<Longrightarrow> fits u t"
    "\<And>e u. els = Some e \<Longrightarrow> evalExpression e row = Some u \<Longrightarrow> fits u t"
  shows "fits v t"
  using assms
proof (induction bs)
  case Nil
  then show ?case by (auto split: option.splits)
next
  case (Cons b bs)
  obtain w e where b: "b = (w, e)" by fastforce
  from Cons.prems(1) consider "evalExpression e row = Some v" | "evalBranches bs els row = Some v"
    by (auto simp: b bind_eq_Some_conv split: if_splits)
  then show ?case
  proof cases
    case 1
    show ?thesis by (rule Cons.prems(2) [OF _ 1, of w]) (simp add: b)
  next
    case 2
    show ?thesis
    proof (rule Cons.IH [OF 2])
      show "fits u t" if "(w, e) \<in> set bs" "evalExpression e row = Some u" for w e u
        by (rule Cons.prems(2) [OF _ that(2), of w]) (simp add: that)
    qed (rule Cons.prems(3))
  qed
qed

lemma bool_eval:
  "evalExpression (BinaryExpr t op l r) row = Some v \<Longrightarrow> fits v (Some DBool)"
  "evalExpression (LogicalExpr t lop l r) row = Some v \<Longrightarrow> fits v (Some DBool)"
  "evalExpression (UnaryExpr t e) row = Some v \<Longrightarrow> fits v (Some DBool)"
  "evalExpression (IsNullExpr t e negated) row = Some v \<Longrightarrow> fits v (Some DBool)"
  "evalExpression (InExpr t e items q negated) row = Some v \<Longrightarrow> fits v (Some DBool)"
  "evalExpression (BetweenExpr t e lo hi negated) row = Some v \<Longrightarrow> fits v (Some DBool)"
  "evalExpression (LikeExpr t l r negated) row = Some v \<Longrightarrow> fits v (Some DBool)"
  by (auto simp: bind_eq_Some_conv bool_vals split: if_splits option.splits)

lemma bool_types:
  "binary_type a b = Inr t \<Longrightarrow> t = Some DBool" "logical_type a b = Inr t \<Longrightarrow> t = Some DBool \<and> a = Some DBool \<and> b = Some DBool"
  "not_type a = Inr t \<Longrightarrow> t = Some DBool \<and> a = Some DBool" "like_type a = Inr t \<Longrightarrow> t = Some DBool"
  by (auto simp: logical_type_def not_type_def like_type_def reject_def elim: binary_type.elims split: if_splits)

lemma eval_fits:
  assumes "typed \<Gamma> e" "conforms row \<Gamma>" "settled e" "evalExpression e row = Some v"
  shows "fits v (rtype e)"
  using assms(1,3,4)
proof (induction arbitrary: v)
  case (literal u)
  then show ?case by (cases v) (auto simp: isStringType_def)
next
  case (column c)
  show ?case
  proof (cases "outerRef c \<or> columnIndex c < 0 \<or> columnIndex c \<ge> int (length row)")
    case True
    then show ?thesis using column by (auto simp: column_val_def split: option.splits)
  next
    case False
    then have "fits (row ! nat (columnIndex c)) (Some (\<Gamma> ! nat (columnIndex c)))"
      using assms(2) by (auto simp: conforms_def list_all2_conv_all_nth)
    then show ?thesis using False column by (auto simp: column_val_def)
  qed
next
  case (arithmetic l r t op)
  then show ?case by (auto simp: bind_eq_Some_conv intro: arith_fits)
next
  case (call args fn isCast castType t)
  then obtain as where as: "evalArgs args row = Some as" "evalCall fn isCast castType as = Some v"
    by (auto simp: bind_eq_Some_conv)
  have all: "list_all2 (\<lambda>e a. evalExpression e row = Some a) args as" using as(1) by (simp add: evalArgs_all2)
  have "list_all2 fits as (map rtype args)" if "\<not> isCast" "fn \<in> {''COALESCE'', ''NULLIF'', ''ABS''}"
  proof (rule list_all2_all_nthI)
    have settled: "\<forall>a\<in>set args. settled a" using call.prems(1) that unfolding settled.simps by blast
    show len: "length as = length (map rtype args)" using list_all2_lengthD [OF all] by simp
    fix i
    assume i: "i < length as"
    then have "args ! i \<in> set args" "settled (args ! i)" using settled len by simp_all
    then show "fits (as ! i) (map rtype args ! i)"
      using call.IH [of "args ! i" "as ! i"] list_all2_nthD2 [OF all i] i len by simp
  qed
  then show ?case
    using call_fits [OF call.hyps(2) as(2)] call.prems(1) list_all2_lengthD [OF all] by simp
next
  case (branches bs els)
  have "evalBranches bs els row = Some v" using branches.prems(2) by simp
  then show ?case unfolding rtype.simps
  proof (rule branches_fit)
    show "fits u (case_type bs els)" if "(w, e) \<in> set bs" "evalExpression e row = Some u" for w e u
    proof -
      have "settled e" "agrees (rtype e) (case_type bs els)" using branches.prems(1) that(1) by auto
      then show ?thesis using branches.IH(1) [OF that(1)] that(2) by (blast intro: fits_agrees)
    qed
    show "fits u (case_type bs els)" if "els = Some e" "evalExpression e row = Some u" for e u
    proof -
      have "settled e" "agrees (rtype e) (case_type bs els)" using branches.prems(1) that(1) by auto
      then show ?thesis using branches.IH(2) [OF that(1)] that(2) by (blast intro: fits_agrees)
    qed
  qed
next
  case (binary l r t op)
  show ?case using bool_eval(1) [OF binary.prems(2)] bool_types(1) [OF binary.hyps(3)] by simp
next
  case (logical l r t op)
  show ?case using bool_eval(2) [OF logical.prems(2)] bool_types(2) [OF logical.hyps(3)] by simp
next
  case (negation e t)
  show ?case using bool_eval(3) [OF negation.prems(2)] bool_types(3) [OF negation.hyps(2)] by simp
next
  case (like e p t negated)
  show ?case using bool_eval(7) [OF like.prems(2)] bool_types(4) [OF like.hyps(3)] by simp
next
  case (subquery q)
  then show ?case by (auto simp: subquery_val_def)
qed (simp_all only: rtype.simps bool_eval, simp_all)

section \<open>Evaluation without division\<close>

function (sequential) divides :: "expr \<Rightarrow> bool" where
  "divides (BinaryExpr t op l r) \<longleftrightarrow> divides l \<or> divides r"
| "divides (LogicalExpr t lop l r) \<longleftrightarrow> divides l \<or> divides r"
| "divides (ArithmeticExpr t op l r) \<longleftrightarrow> op = Div \<or> divides l \<or> divides r"
| "divides (UnaryExpr t e) \<longleftrightarrow> divides e"
| "divides (IsNullExpr t e negated) \<longleftrightarrow> divides e"
| "divides (InExpr t v items q negated) \<longleftrightarrow> divides v \<or> (\<exists>e\<in>set items. divides e)"
| "divides (BetweenExpr t v lo hi negated) \<longleftrightarrow> divides v \<or> divides lo \<or> divides hi"
| "divides (LikeExpr t v p negated) \<longleftrightarrow> divides v \<or> divides p"
| "divides (CallExpr t fn args castType isCast) \<longleftrightarrow> \<not> isCast \<and> fn = ''MOD'' \<or> (\<exists>e\<in>set args. divides e)"
| "divides (CaseExpr t bs els) \<longleftrightarrow>
     (\<exists>(w, e)\<in>set bs. divides w \<or> divides e) \<or> (case els of Some e \<Rightarrow> divides e | None \<Rightarrow> False)"
| "divides e \<longleftrightarrow> False"
  by pat_completeness auto

termination
  by (relation "measure size") (auto dest!: mem_size branch_pair_size)

lemma on_first_total: "a \<noteq> [] \<Longrightarrow> \<exists>v. on_first a f = Some v"
  by (simp add: on_first_def arg_def)

lemma call_total:
  assumes t: "call_type fn isCast castType ts = Inr t" and len: "length as = length ts" and "isCast \<or> fn \<noteq> ''MOD''"
  shows "\<exists>v. evalCall fn isCast castType as = Some v"
proof -
  have args: "arg as i = Some (as ! i)" if "i < length ts" for i using that len by (simp add: arg_def)
  consider (cast) isCast | (many) "\<not> isCast" "fn = ''COALESCE'' \<or> fn = ''NULLIF'' \<or> fn = ''SUBSTR''"
    | (one) "\<not> isCast" "fn \<notin> {''COALESCE'', ''NULLIF'', ''SUBSTR''}" by blast
  then show ?thesis
  proof cases
    case cast
    then show ?thesis using t args [of 0] by (auto simp: call_type_def arity_Inr evalCall_def)
  next
    case many
    then have "fn \<noteq> ''COALESCE'' \<Longrightarrow> length ts \<ge> 2" using t by (auto simp: call_type_def arity_Inr)
    then have "fn \<noteq> ''COALESCE'' \<Longrightarrow> arg as 0 = Some (as ! 0) \<and> arg as 1 = Some (as ! 1)"
      using args [of 0] args [of 1] by fastforce
    then show ?thesis using many by (elim disjE) (simp_all add: evalCall_def)
  next
    case one
    then have "ts \<noteq> []" using t assms(3) by (auto simp: call_type_def arity_Inr reject_def split: if_splits)
    then have "as \<noteq> []" using len by auto
    then show ?thesis using one assms(3) by (simp add: evalCall_def on_first_total)
  qed
qed

lemma evalArgs_total:
  assumes "\<And>e. e \<in> set es \<Longrightarrow> \<exists>v. evalExpression e row = Some v"
  shows "\<exists>as. evalArgs es row = Some as"
  using assms
proof (induction es)
  case (Cons e es)
  then obtain v as where "evalExpression e row = Some v" "evalArgs es row = Some as" by fastforce
  then show ?case by simp
qed simp

lemma evalItems_total:
  assumes "\<And>e. e \<in> set es \<Longrightarrow> \<exists>v. evalExpression e row = Some v"
  shows "\<exists>fs. evalItems v es s row = Some fs"
  using assms
proof (induction es arbitrary: s)
  case (Cons e es)
  then obtain w where "evalExpression e row = Some w" by fastforce
  moreover obtain fs gs where "evalItems v es True row = Some fs" "evalItems v es s row = Some gs"
    using Cons.IH [OF Cons.prems] by fastforce
  ultimately show ?case by auto
qed auto

lemma evalBranches_total:
  assumes "\<And>w e. (w, e) \<in> set bs \<Longrightarrow> (\<exists>v. evalExpression w row = Some v) \<and> (\<exists>v. evalExpression e row = Some v)"
    "\<And>e. els = Some e \<Longrightarrow> \<exists>v. evalExpression e row = Some v"
  shows "\<exists>v. evalBranches bs els row = Some v"
  using assms(1)
proof (induction bs)
  case Nil
  then show ?case using assms(2) by (auto split: option.split)
next
  case (Cons b bs)
  obtain w e where b: "b = (w, e)" by fastforce
  obtain v u where "evalExpression w row = Some v" "evalExpression e row = Some u"
    using Cons.prems [of w e] by (auto simp: b)
  moreover obtain z where "evalBranches bs els row = Some z" using Cons.IH Cons.prems by (metis list.set_intros(2))
  ultimately show ?case by (simp add: b)
qed

lemma eval_total:
  assumes "typed \<Gamma> e" "\<not> divides e"
  shows "\<exists>v. evalExpression e row = Some v"
  using assms
proof (induction)
  case (call args fn isCast castType t)
  then obtain as where as: "evalArgs args row = Some as" using evalArgs_total [of args row] by auto
  then have "length as = length (map rtype args)" by (auto simp: evalArgs_all2 dest: list_all2_lengthD)
  then show ?case using call_total [OF call.hyps(2)] call.prems as by auto
next
  case (branches bs els)
  have "\<exists>v. evalBranches bs els row = Some v"
  proof (rule evalBranches_total)
    show "(\<exists>v. evalExpression w row = Some v) \<and> (\<exists>v. evalExpression e row = Some v)" if "(w, e) \<in> set bs" for w e
      using branches.IH(1) [OF that] branches.prems that by auto
    show "\<exists>v. evalExpression e row = Some v" if "els = Some e" for e
      using branches.IH(2) [OF that] branches.prems that by auto
  qed
  then show ?case by simp
next
  case (in_list v items negated)
  then have "\<exists>fs. evalItems u items False row = Some fs" for u using evalItems_total [of items row] by simp
  moreover obtain u where "evalExpression v row = Some u" using in_list by auto
  ultimately obtain fs where "evalExpression v row = Some u" "evalItems u items False row = Some fs" by blast
  then show ?case by simp
next
  case (arithmetic l r t op)
  then obtain a b where "evalExpression l row = Some a" "evalExpression r row = Some b" by auto
  moreover have "\<exists>v. arith_int op x y = Some v" for x y using arithmetic.prems by (cases op) auto
  ultimately show ?case by (cases a; cases b) auto
qed auto

section \<open>Stored rows\<close>

lemma read_col_fits: "read_col t inp pos = Inr (v, pos') \<Longrightarrow> fits v (Some t)"
  by (cases t) (auto simp: read_word_def read_text_def Let_def isStringType_def split: sum.splits if_splits)

lemma read_cols_conform: "read_cols inp i \<Gamma> pos = Inr row \<Longrightarrow> conforms row \<Gamma>"
proof (induction \<Gamma> arbitrary: i pos row)
  case (Cons t \<Gamma>)
  then show ?case
    by (auto simp: conforms_def split: if_splits sum.splits prod.splits dest: read_col_fits)
qed (simp add: conforms_def)

lemma stored_rows_conform: "deserialize inp \<Gamma> = Inr row \<Longrightarrow> conforms row \<Gamma>"
  by (auto simp: deserialize_def Let_def split: if_splits dest: read_cols_conform)

section \<open>An instance\<close>

definition one_column :: table_schema where
  "one_column = new_table empty_catalog ''t'' [plain_column ''a'' DInt 0] False None []"

definition in_one_column :: analyzer where
  "in_one_column = (analyzer_of empty_catalog)\<lparr>currentTable := Some one_column\<rparr>"

definition bare_column :: "string \<Rightarrow> expr" where
  "bare_column n = ColumnRef (Col None [] n [] None (- 1) False None)"

definition bound_column :: "string \<Rightarrow> data_type \<Rightarrow> int \<Rightarrow> expr" where
  "bound_column n t i = ColumnRef (Col (Some t) [] n [] None i False None)"

lemma visit_bare:
  "visit_expr (bare_column ''a'') in_one_column = (Inr (bound_column ''a'' DInt 0), in_one_column)"
  by (simp add: bare_column_def bound_column_def in_one_column_def one_column_def analyzer_of_def new_table_def
      plain_column_def resolve_column_def resolve_single_def columnIndex_of_def resolved_def s_bind_def s_get_def s_return_def)

lemma visit_sum:
  "visit_expr (ArithmeticExpr None Add (bare_column ''a'') (LiteralExpr None (VInt 1))) in_one_column =
   (Inr (ArithmeticExpr (Some DInt) Add (bound_column ''a'' DInt 0) (LiteralExpr (Some DInt) (VInt 1))), in_one_column)"
  by (simp add: s_bind_def visit_bare s_return_def s_lift_def arithmetic_type_def not_numeric_def isNumericType_def
      bound_column_def)

lemma one_column_scope: "in_scope_of [DInt] in_one_column"
  by (simp add: in_scope_of_def scope_types_def in_one_column_def analyzer_of_def one_column_def new_table_def
      plain_column_def table_types_def)

text \<open>COALESCE has the type of its first argument, whatever the others are.\<close>

lemma coalesce_mistyped:
  "visit_expr (CallExpr None ''COALESCE'' [bare_column ''a'', LiteralExpr None (VText ''x'')] DInt False) in_one_column =
     (Inr (CallExpr (Some DInt) ''COALESCE'' [bound_column ''a'' DInt 0, LiteralExpr (Some DText) (VText ''x'')] DInt False),
      in_one_column) \<and>
   evalExpression (CallExpr (Some DInt) ''COALESCE'' [bound_column ''a'' DInt 0, LiteralExpr (Some DText) (VText ''x'')] DInt
     False) [VNull] = Some (VText ''x'')"
  by (simp add: s_bind_def visit_bare s_return_def s_lift_def call_type_def arity_def bound_column_def evalCall_def column_val_def)

text \<open>One value in a row of one column.\<close>

lemma one_value_stored:
  assumes "length (v_text v) < 2 ^ 32"
  shows "deserialize (serialize [v] [t]) [t] = Inr [coerce t v]"
proof -
  have "read_cols (serialize [v] [t]) 0 [t] ((length [t] + 7) div 8) =
      Inr (map (\<lambda>j. coerce ([t] ! j) (at_or_null [v] j)) [0..<length [t]])"
    by (rule read_cols_enc) (use assms in \<open>simp_all add: serialize_eq short_texts_def\<close>)
  moreover have "\<not> length (serialize [v] [t]) < (length [t] + 7) div 8"
    by (simp add: serialize_eq null_bitmap_spec)
  ultimately show ?thesis by (simp add: deserialize_def at_or_null_def)
qed

lemma seven_stored: "deserialize (serialize [VInt 7] [DInt]) [DInt] = Inr [VInt 7]"
  by (simp add: one_value_stored)

text \<open>An INT column may be assigned a FLOAT value, and the row that is stored then holds zero.\<close>

lemma float_update_lost:
  assumes "visit_expr e st = (Inr e', st')" "rtype e' = Some DFloat" "columnIndex_of t n \<ge> 0"
    "cs_type (ts_columns t ! nat (columnIndex_of t n)) = DInt"
  shows "fst (visit_assignments table t [] [(n, e)] st) = Inr [(columnIndex_of t n, e')] \<and>
    deserialize (serialize [VDouble d] [DInt]) [DInt] = Inr [VInt 0]"
proof
  show "fst (visit_assignments table t [] [(n, e)] st) = Inr [(columnIndex_of t n, e')]"
    using assms by (simp add: s_bind_def s_return_def require_def mismatch_def Let_def comparable_def isStringType_def isNumericType_def)
  show "deserialize (serialize [VDouble d] [DInt]) [DInt] = Inr [VInt 0]" by (simp add: one_value_stored)
qed

section \<open>Properties\<close>

text \<open>C23: A settled expression that the analyzer accepts over a table or a join has, on a row read from
  storage, the value NULL or a value of the type the analyzer gave it. \<open>settled\<close>: the types that the
  analyzer gives without a check hold - the arguments of COALESCE and the results of CASE have the type of
  the whole, an outer column is bound to a value of its type, and neither the expression nor an operand its
  type comes from is a scalar subquery. Without
  it the property fails: COALESCE(i, t) over an INT and a text column is typed INT and may be a text
  (\<open>coalesce_mistyped\<close>, \<open>semantic_analyzer.cpp\<close> line 365).\<close>

theorem accepted_expression_typed:
  assumes "in_scope_of \<Gamma> st" "visit_expr e st = (Inr e', st')" "deserialize inp \<Gamma> = Inr row" "settled e'"
    "evalExpression e' row = Some v"
  shows "fits v (rtype e')"
  using yields_at [OF yields_visit(1) assms(1,2)] eval_fits [OF _ stored_rows_conform] assms(3-5) by blast

theorem accepted_expression_typed_witness:
  "fits (VInt 8) (rtype (ArithmeticExpr (Some DInt) Add (bound_column ''a'' DInt 0) (LiteralExpr (Some DInt) (VInt 1))))"
proof (rule accepted_expression_typed [OF one_column_scope visit_sum seven_stored])
  show "evalExpression (ArithmeticExpr (Some DInt) Add (bound_column ''a'' DInt 0) (LiteralExpr (Some DInt) (VInt 1))) [VInt 7] =
      Some (VInt 8)"
    by (simp add: bound_column_def column_val_def)
qed (simp add: bound_column_def)

text \<open>C24: The evaluation of an accepted expression without a division or a remainder always has a value:
  no call reads past its arguments, and nothing else can fail.\<close>

theorem accepted_expression_evaluates:
  assumes "in_scope_of \<Gamma> st" "visit_expr e st = (Inr e', st')" "\<not> divides e'"
  shows "\<exists>v. evalExpression e' row = Some v"
  using yields_at [OF yields_visit(1) assms(1,2)] eval_total assms(3) by blast

theorem accepted_expression_evaluates_witness:
  "\<exists>v. evalExpression (ArithmeticExpr (Some DInt) Add (bound_column ''a'' DInt 0) (LiteralExpr (Some DInt) (VInt 1))) [] = Some v"
  by (rule accepted_expression_evaluates [OF one_column_scope visit_sum]) (simp add: bound_column_def)

end
