(* ===== verification/Rewrite.thy ===== *)
theory Rewrite
  imports Typing
begin

text \<open>
  The expression rewriter of the planner, \<open>src/src/vm/rewrite.cpp\<close>: constants are folded and neutral
  operands dropped. \<open>None\<close> is a trap during the folding. On the expressions the analyzer accepts the
  rewritten expression has the value of the original one, unless a neutral operand is dropped from
  floating-point arithmetic: \<open>a * 1.0\<close> over an INT column becomes the integer \<open>a\<close>.
\<close>

section \<open>The rewriter\<close>

fun isFoldable :: "expr \<Rightarrow> bool" where
  "isFoldable (LiteralExpr t v) \<longleftrightarrow> True"
| "isFoldable (ArithmeticExpr t op l r) \<longleftrightarrow> isFoldable l \<and> isFoldable r"
| "isFoldable (BinaryExpr t op l r) \<longleftrightarrow> isFoldable l \<and> isFoldable r"
| "isFoldable (LogicalExpr t op l r) \<longleftrightarrow> isFoldable l \<and> isFoldable r"
| "isFoldable (UnaryExpr t e) \<longleftrightarrow> isFoldable e"
| "isFoldable e \<longleftrightarrow> False"

definition literal_of :: "val \<Rightarrow> expr" where
  "literal_of v = LiteralExpr (literal_type v) v"

definition makeBoolLiteral :: "bool \<Rightarrow> expr" where
  "makeBoolLiteral b = LiteralExpr (Some DBool) (VBool b)"

fun isNumericLiteral :: "expr \<Rightarrow> dbl \<Rightarrow> bool" where
  "isNumericLiteral (LiteralExpr t (VInt i)) want \<longleftrightarrow> f_eq (f_of_int (sint i)) want"
| "isNumericLiteral (LiteralExpr t (VDouble d)) want \<longleftrightarrow> f_eq d want"
| "isNumericLiteral e want \<longleftrightarrow> False"

fun isBoolLiteral :: "expr \<Rightarrow> bool \<Rightarrow> bool" where
  "isBoolLiteral (LiteralExpr t (VBool b)) want \<longleftrightarrow> b = want"
| "isBoolLiteral e want \<longleftrightarrow> False"

definition f_one :: dbl where
  "f_one = f_of_int 1"

fun arithmetic_identity :: "arithmetic_op \<Rightarrow> expr \<Rightarrow> expr \<Rightarrow> expr option" where
  "arithmetic_identity Add l r =
     (if isNumericLiteral r (f_zero False) then Some l else if isNumericLiteral l (f_zero False) then Some r else None)"
| "arithmetic_identity Sub l r = (if isNumericLiteral r (f_zero False) then Some l else None)"
| "arithmetic_identity Mul l r =
     (if isNumericLiteral r f_one then Some l else if isNumericLiteral l f_one then Some r else None)"
| "arithmetic_identity Div l r = (if isNumericLiteral r f_one then Some l else None)"

fun logical_identity :: "logical_op \<Rightarrow> expr \<Rightarrow> expr \<Rightarrow> expr option" where
  "logical_identity OpAnd l r =
     (if isBoolLiteral l False \<or> isBoolLiteral r False then Some (makeBoolLiteral False)
      else if isBoolLiteral l True then Some r else if isBoolLiteral r True then Some l else None)"
| "logical_identity OpOr l r =
     (if isBoolLiteral l True \<or> isBoolLiteral r True then Some (makeBoolLiteral True)
      else if isBoolLiteral l False then Some r else if isBoolLiteral r False then Some l else None)"

definition fold_constant :: "expr \<Rightarrow> expr option" where
  "fold_constant e = map_option literal_of (evalExpression e [])"

fun rewriteExpression :: "expr \<Rightarrow> expr option" where
  "rewriteExpression (ArithmeticExpr t op l r) =
     (if isFoldable (ArithmeticExpr t op l r) then fold_constant (ArithmeticExpr t op l r)
      else Option.bind (rewriteExpression l) (\<lambda>l. Option.bind (rewriteExpression r) (\<lambda>r.
        Some (value_or (arithmetic_identity op l r) (ArithmeticExpr t op l r)))))"
| "rewriteExpression (LogicalExpr t op l r) =
     (if isFoldable (LogicalExpr t op l r) then fold_constant (LogicalExpr t op l r)
      else Option.bind (rewriteExpression l) (\<lambda>l. Option.bind (rewriteExpression r) (\<lambda>r.
        Some (value_or (logical_identity op l r) (LogicalExpr t op l r)))))"
| "rewriteExpression (BinaryExpr t op l r) =
     (if isFoldable (BinaryExpr t op l r) then fold_constant (BinaryExpr t op l r)
      else Option.bind (rewriteExpression l) (\<lambda>l. Option.bind (rewriteExpression r) (\<lambda>r.
        Some (BinaryExpr t op l r))))"
| "rewriteExpression (UnaryExpr t e) =
     (if isFoldable (UnaryExpr t e) then fold_constant (UnaryExpr t e)
      else Option.bind (rewriteExpression e) (\<lambda>e. Some (UnaryExpr t e)))"
| "rewriteExpression e = (if isFoldable e then fold_constant e else Some e)"

definition rewrite_clause :: "expr option \<Rightarrow> expr option option" where
  "rewrite_clause e = (case e of None \<Rightarrow> Some None | Some x \<Rightarrow> map_option Some (rewriteExpression x))"

definition rewrite_column :: "column_ref \<Rightarrow> column_ref option" where
  "rewrite_column c =
     map_option (\<lambda>e. Col (col_type c) (col_table c) (col_column c) (col_alias c) e (columnIndex c) (outerRef c) (bound c))
       (rewrite_clause (computed c))"

fun rewrite_columns :: "column_ref list \<Rightarrow> column_ref list option" where
  "rewrite_columns [] = Some []"
| "rewrite_columns (c # cs) = Option.bind (rewrite_column c) (\<lambda>c. map_option ((#) c) (rewrite_columns cs))"

fun optimizeSelect :: "select \<Rightarrow> select option" where
  "optimizeSelect (Select everything dst expl cols tab tal asof whr sorts lmt off aggs grp hav jt jal jon jtid jty extra tid) =
     Option.bind (rewrite_clause whr) (\<lambda>whr. Option.bind (rewrite_clause hav) (\<lambda>hav.
     Option.bind (rewrite_columns cols) (\<lambda>cols.
       Some (Select everything dst expl cols tab tal asof whr sorts lmt off aggs grp hav jt jal jon jtid jty extra tid))))"

section \<open>Integers as doubles\<close>

text \<open>Rounding keeps a large number large.\<close>

lemma f_round_large:
  assumes n: "53 < bitlen n"
  shows "\<not> f_is_nan (f_round s n 1) \<and> (f_is_inf (f_round s n 1) \<or> 2 ^ (bitlen n - 1) \<le> f_mag (f_round s n 1))"
proof -
  define sh where "sh = bitlen n - 53"
  define q where "q = n div 2 ^ sh"
  define m where "m = (if 2 * (n mod 2 ^ sh) > 2 ^ sh \<or> (2 * (n mod 2 ^ sh) = 2 ^ sh \<and> odd q) then q + 1 else q)"
  define bits where "bits = sh * 2 ^ 52 + m"
  have "0 < n" using n by (cases n) simp_all
  then have "2 ^ (sh + 52) \<le> n" using bitlen_bounds [of n] n by (simp add: sh_def)
  then have "2 ^ 52 \<le> q" unfolding q_def by (simp add: power_add less_eq_div_iff_mult_less_eq mult.commute)
  then have m: "2 ^ 52 \<le> m" by (simp add: m_def)
  have r: "f_round s n 1 = (if bits \<ge> 2047 * 2 ^ 52 then f_inf s else f_pack s bits)"
    by (simp add: f_round_def Let_def sh_def q_def m_def bits_def)
  show ?thesis
  proof (cases "bits \<ge> 2047 * 2 ^ 52")
    case True
    have "(2047 * 2 ^ 52 :: nat) < 2 ^ 63" by simp
    from f_pack_fields [OF this, of s] True show ?thesis
      unfolding r by (simp add: f_inf_def f_is_inf_def f_is_nan_def)
  next
    case False
    then have b: "bits < 2 ^ 63" by simp
    note f = f_pack_fields [OF b, of s]
    have e: "sh + 1 \<le> bits div 2 ^ 52" "bits div 2 ^ 52 < 2047"
      using m False by (simp_all add: bits_def less_eq_div_iff_mult_less_eq div_less_iff_less_mult)
    have "(2::nat) ^ 52 * 2 ^ sh \<le> (2 ^ 52 + bits mod 2 ^ 52) * 2 ^ (bits div 2 ^ 52 - 1)"
      using e(1) by (intro mult_mono power_increasing) auto
    moreover have "bitlen n - 1 = 52 + sh" using n by (simp add: sh_def)
    ultimately show ?thesis
      using r False f e by (simp add: f_is_nan_def f_mag_def power_add)
  qed
qed

lemma bitlen_ge: "2 ^ k \<le> n \<Longrightarrow> k < bitlen n"
proof (rule ccontr)
  assume n: "2 ^ k \<le> n" "\<not> k < bitlen n"
  have "(0::nat) < 2 ^ k" by simp
  then have "n < 2 ^ bitlen n" using bitlen_bounds [of n] n(1) by linarith
  also have "\<dots> \<le> 2 ^ k" using n(2) by (intro power_increasing) auto
  finally show False using n(1) by simp
qed

lemma f_of_int_large:
  assumes "\<not> \<bar>i\<bar> \<le> 2 ^ 53"
  shows "int one_unit < \<bar>f_key (f_of_int i)\<bar>"
proof -
  let ?n = "nat \<bar>i\<bar> * one_unit" and ?w = "f_of_int i"
  have "(2::nat) ^ 53 \<le> nat \<bar>i\<bar>" using assms by simp
  then have "(2::nat) ^ 53 * 2 ^ 1074 \<le> ?n" unfolding one_unit_def by (rule mult_right_mono) (rule zero_le)
  then have "2 ^ (53 + 1074) \<le> ?n" by (simp only: power_add)
  then have big: "53 + 1074 < bitlen ?n" by (rule bitlen_ge)
  then have "53 < bitlen ?n" by linarith
  from f_round_large [OF this, of "i < 0"]
  have w: "f_is_inf ?w \<or> 2 ^ (bitlen ?n - 1) \<le> f_mag ?w" by (simp only: f_of_int_def)
  have "one_unit < 2 ^ 1075" unfolding one_unit_def by (intro power_strict_increasing) simp_all
  also have "\<dots> \<le> (2::nat) ^ (bitlen ?n - 1)" using big by (intro power_increasing) linarith+
  finally have mag: "f_is_inf ?w \<or> one_unit < f_mag ?w" using w by linarith
  have "int one_unit < 2 ^ 2100"
    unfolding one_unit_def of_nat_power of_nat_numeral by (intro power_strict_increasing) simp_all
  moreover have "\<bar>f_key ?w\<bar> = 2 ^ 2100" if "f_is_inf ?w" using that by (simp only: f_key_def if_True split: if_split) simp
  moreover have "\<bar>f_key ?w\<bar> = int (f_mag ?w)" if "\<not> f_is_inf ?w" using that by (simp add: f_key_def f_units_def)
  ultimately show ?thesis using mag by (cases "f_is_inf ?w") linarith+
qed

lemma f_of_int_neutral:
  assumes "0 \<le> j" "j \<le> 1" "f_eq (f_of_int i) (f_of_int j)"
  shows "i = j"
proof (cases "\<bar>i\<bar> \<le> 2 ^ 53")
  case True
  then show ?thesis using assms f_of_int_less(2) [of i j] by simp
next
  case False
  have "f_key (f_of_int j) = j * int one_unit" using assms(1,2) by (intro f_of_int_exact) simp
  moreover have "j * int one_unit \<le> int one_unit" "0 \<le> j * int one_unit" using assms(1,2) by (auto simp: mult_left_le_one_le)
  ultimately show ?thesis using f_of_int_large [OF False] assms(3) by (simp add: f_eq_def)
qed

lemma f_of_int_zero: "f_of_int 0 = f_zero False"
  by (simp add: f_of_int_def f_round_def f_zero_def)

section \<open>Constants\<close>

lemma foldable_constant: "isFoldable e \<Longrightarrow> evalExpression e row = evalExpression e []"
  by (induction e rule: isFoldable.induct) simp_all

lemma fold_constant_value:
  assumes "isFoldable e" "evalExpression e row = Some v"
  shows "\<exists>e'. fold_constant e = Some e' \<and> evalExpression e' row' = Some v"
  using assms foldable_constant [of e row] by (simp add: fold_constant_def literal_of_def)

text \<open>A literal operand that counts as 0 or 1 and has an integer value is that integer.\<close>

lemma numeric_literal_value:
  assumes "isNumericLiteral e (f_of_int j)" "evalExpression e row = Some b" "fits b t" "t = None \<or> t = Some DInt"
    "0 \<le> j" "j \<le> 1"
  shows "b = VInt (word_of_int j)"
proof -
  obtain u where e: "e = LiteralExpr u b" using assms(1,2) by (cases e) auto
  then obtain i where i: "b = VInt i" using assms(1,3,4) by (cases b) auto
  then have "sint i = j" using assms(1,5,6) e f_of_int_neutral by simp
  then show ?thesis by (simp add: i flip: \<open>sint i = j\<close>)
qed

lemma arithmetic_identity_value:
  assumes t: "arithmetic_type lt rt = Inr (Some DInt)" and fits: "fits a lt" "fits b rt"
    and eval: "evalExpression l row = Some a" "evalExpression r row = Some b" "arith_val op a b = Some v"
    and e: "arithmetic_identity op l r = Some e"
  shows "evalExpression e row = Some v"
proof -
  have types: "lt = None \<or> lt = Some DInt" "rt = None \<or> rt = Some DInt"
    using t by (auto simp: arithmetic_type_def reject_def not_numeric_def isNumericType_def split: if_splits option.splits)
  note zero = numeric_literal_value [where j = 0, unfolded f_of_int_zero]
  note one = numeric_literal_value [where j = 1, folded f_one_def]
  have ints: "a = VNull \<or> (\<exists>i. a = VInt i)" "b = VNull \<or> (\<exists>i. b = VInt i)"
    using types fits by (auto simp: fits_types)
  have "(1::i64) \<noteq> 0" by simp
  have divs: "div_i64 i 1 = Some i" for i by (simp add: div_i64_def)
  show ?thesis
  proof (cases op)
    case Add
    then show ?thesis using e eval zero [OF _ eval(2) fits(2) types(2)] zero [OF _ eval(1) fits(1) types(1)] ints
      by (auto split: if_splits)
  next
    case Sub
    then show ?thesis using e eval zero [OF _ eval(2) fits(2) types(2)] ints by (auto split: if_splits)
  next
    case Mul
    then show ?thesis using e eval one [OF _ eval(2) fits(2) types(2)] one [OF _ eval(1) fits(1) types(1)] ints
      by (auto split: if_splits)
  next
    case Div
    then show ?thesis using e eval one [OF _ eval(2) fits(2) types(2)] ints divs by (auto split: if_splits)
  qed
qed

lemma bool_literal_value: "isBoolLiteral e b \<Longrightarrow> evalExpression e row = Some v \<Longrightarrow> v = VBool b"
  by (cases "(e, b)" rule: isBoolLiteral.cases) auto

lemma logical_identity_value:
  assumes "fits a (Some DBool)" "fits b (Some DBool)" "evalExpression l row = Some a" "evalExpression r row = Some b"
    and e: "logical_identity op l r = Some e"
  shows "evalExpression e row = Some (if op = OpAnd then and_val a b else or_val a b)"
proof -
  have ab: "a = VNull \<or> a = VBool True \<or> a = VBool False" "b = VNull \<or> b = VBool True \<or> b = VBool False"
    using assms(1,2) by (auto simp: fits_types)
  note lits = bool_literal_value [OF _ assms(3)] bool_literal_value [OF _ assms(4)]
  show ?thesis
    using e assms(3,4) ab
    by (cases op) (auto simp: makeBoolLiteral_def and_val_def or_val_def split: if_splits dest: lits)
qed

section \<open>Preservation\<close>

text \<open>A constant operand that arithmetic leaves without effect: 0 in a sum, 1 in a product.\<close>

definition counts_as :: "val \<Rightarrow> dbl \<Rightarrow> bool" where
  "counts_as v w \<longleftrightarrow> (case v of VInt i \<Rightarrow> f_eq (f_of_int (sint i)) w | VDouble d \<Rightarrow> f_eq d w | _ \<Rightarrow> False)"

definition constant_is :: "expr \<Rightarrow> dbl \<Rightarrow> bool" where
  "constant_is e w \<longleftrightarrow> isFoldable e \<and> (case evalExpression e [] of Some v \<Rightarrow> counts_as v w | None \<Rightarrow> False)"

fun neutral_operand :: "arithmetic_op \<Rightarrow> expr \<Rightarrow> expr \<Rightarrow> bool" where
  "neutral_operand Add l r \<longleftrightarrow> constant_is l (f_zero False) \<or> constant_is r (f_zero False)"
| "neutral_operand Sub l r \<longleftrightarrow> constant_is r (f_zero False)"
| "neutral_operand Mul l r \<longleftrightarrow> constant_is l f_one \<or> constant_is r f_one"
| "neutral_operand Div l r \<longleftrightarrow> constant_is r f_one"

text \<open>The operands whose types the rewriter relies on have values of these types, and floating-point
  arithmetic over a column has no neutral constant operand.\<close>

fun steady :: "expr \<Rightarrow> bool" where
  "steady (ArithmeticExpr t op l r) \<longleftrightarrow>
     steady l \<and> steady r \<and> settled l \<and> settled r \<and>
     (t = Some DFloat \<longrightarrow> isFoldable l \<and> isFoldable r \<or> \<not> neutral_operand op l r)"
| "steady (LogicalExpr t op l r) \<longleftrightarrow> steady l \<and> steady r \<and> settled l \<and> settled r"
| "steady (BinaryExpr t op l r) \<longleftrightarrow> steady l \<and> steady r"
| "steady (UnaryExpr t e) \<longleftrightarrow> steady e"
| "steady e \<longleftrightarrow> True"

lemma numeric_literal_counts:
  "isNumericLiteral e w \<Longrightarrow> evalExpression e row = Some v \<Longrightarrow> counts_as v w"
  by (cases "(e, w)" rule: isNumericLiteral.cases) (auto simp: counts_as_def)

lemma literal_from_constant:
  assumes "isNumericLiteral e' w" "evalExpression e' row = Some v" "isFoldable e" "evalExpression e row = Some v"
  shows "constant_is e w"
  using numeric_literal_counts [OF assms(1,2)] assms(3,4) foldable_constant [of e row] by (simp add: constant_is_def)

lemma arithmetic_identity_operands:
  assumes "arithmetic_identity op l r = Some e"
  shows "e = l \<and> (\<exists>w. isNumericLiteral r w) \<or> e = r \<and> (\<exists>w. isNumericLiteral l w)"
    "(\<And>w. isNumericLiteral l w \<Longrightarrow> constant_is l0 w) \<Longrightarrow> (\<And>w. isNumericLiteral r w \<Longrightarrow> constant_is r0 w) \<Longrightarrow>
      neutral_operand op l0 r0"
  using assms by (cases op; auto split: if_splits)+

lemma logical_identity_operands:
  "logical_identity op l r = Some e \<Longrightarrow> e = l \<or> e = r \<or> (\<exists>b. e = makeBoolLiteral b)"
  by (cases op) (auto split: if_splits)

lemma bool_not_numeric: "evalExpression e row = Some v \<Longrightarrow> fits v (Some DBool) \<Longrightarrow> \<not> isNumericLiteral e w"
  by (cases "(e, w)" rule: isNumericLiteral.cases) (auto simp: fits_types)

text \<open>The rewritten expression has the value, and it is a number only when the original is a constant.\<close>

lemma rewrite_value:
  assumes "typed \<Gamma> e" "conforms row \<Gamma>" "steady e" "evalExpression e row = Some v"
  shows "\<exists>e'. rewriteExpression e = Some e' \<and> evalExpression e' row = Some v \<and>
    (\<forall>w. isNumericLiteral e' w \<longrightarrow> isFoldable e)"
  using assms(1,3,4)
proof (induction arbitrary: v)
  case (arithmetic l r t op)
  then obtain a b where ab: "evalExpression l row = Some a" "evalExpression r row = Some b" "arith_val op a b = Some v"
    by (auto simp: bind_eq_Some_conv)
  then obtain l' r' where l': "rewriteExpression l = Some l'" "evalExpression l' row = Some a"
    and r': "rewriteExpression r = Some r'" "evalExpression r' row = Some b"
    and numbers: "\<And>w. isNumericLiteral l' w \<Longrightarrow> isFoldable l" "\<And>w. isNumericLiteral r' w \<Longrightarrow> isFoldable r"
    using arithmetic.IH arithmetic.prems by fastforce
  have fits: "fits a (rtype l)" "fits b (rtype r)"
    using eval_fits [OF _ assms(2)] arithmetic.hyps arithmetic.prems ab by auto
  show ?case
  proof (cases "isFoldable (ArithmeticExpr t op l r)")
    case True
    then show ?thesis using fold_constant_value [OF True arithmetic.prems(2)] by simp
  next
    case False
    show ?thesis
    proof (cases "arithmetic_identity op l' r'")
      case None
      then show ?thesis using False l' r' ab by (auto simp: value_or_def)
    next
      case (Some e)
      note ops = arithmetic_identity_operands [OF Some]
      have "neutral_operand op l r"
        by (rule ops(2)) (use literal_from_constant l' r' ab numbers in blast)+
      then have "t \<noteq> Some DFloat" using arithmetic.prems(1) False by auto
      then have "t = Some DInt" using arithmetic.hyps(3) by (auto simp: arithmetic_type_def reject_def split: if_splits)
      then have "evalExpression e row = Some v"
        using arithmetic_identity_value [OF _ fits l'(2) r'(2) ab(3) Some] arithmetic.hyps(3) by simp
      moreover have "\<not> isNumericLiteral e w" for w using ops(1) numbers False by auto
      ultimately show ?thesis using False l' r' Some by (auto simp: value_or_def)
    qed
  qed
next
  case (logical l r t op)
  then obtain a b where ab: "evalExpression l row = Some a" "evalExpression r row = Some b"
    "v = (if op = OpAnd then and_val a b else or_val a b)"
    by (auto simp: bind_eq_Some_conv)
  then obtain l' r' where l': "rewriteExpression l = Some l'" "evalExpression l' row = Some a"
    and r': "rewriteExpression r = Some r'" "evalExpression r' row = Some b"
    using logical.IH logical.prems by fastforce
  have fits: "fits a (Some DBool)" "fits b (Some DBool)"
    using eval_fits [OF logical.hyps(1) assms(2) _ ab(1)] eval_fits [OF logical.hyps(2) assms(2) _ ab(2)]
      bool_types(2) [OF logical.hyps(3)] logical.prems(1) by auto
  show ?case
  proof (cases "isFoldable (LogicalExpr t op l r)")
    case True
    then show ?thesis using fold_constant_value [OF True logical.prems(2)] by simp
  next
    case False
    show ?thesis
    proof (cases "logical_identity op l' r'")
      case None
      then show ?thesis using False l' r' ab by (auto simp: value_or_def)
    next
      case (Some e)
      have "\<not> isNumericLiteral e w" for w
        using logical_identity_operands [OF Some] bool_not_numeric [OF l'(2) fits(1)] bool_not_numeric [OF r'(2) fits(2)]
        by (auto simp: makeBoolLiteral_def)
      then show ?thesis using False l' r' ab Some logical_identity_value [OF fits l'(2) r'(2) Some]
        by (auto simp: value_or_def)
    qed
  qed
next
  case (binary l r t op)
  then obtain a b where ab: "evalExpression l row = Some a" "evalExpression r row = Some b" "v = compare_val op a b"
    by (auto simp: bind_eq_Some_conv)
  then obtain l' r' where "rewriteExpression l = Some l'" "evalExpression l' row = Some a"
    "rewriteExpression r = Some r'" "evalExpression r' row = Some b"
    using binary.IH binary.prems by fastforce
  then show ?case using fold_constant_value [OF _ binary.prems(2)] ab by (cases "isFoldable l \<and> isFoldable r") auto
next
  case (negation e t)
  then obtain a where a: "evalExpression e row = Some a" "v = not_val a" by (auto simp: bind_eq_Some_conv)
  then obtain e' where "rewriteExpression e = Some e'" "evalExpression e' row = Some a"
    using negation.IH negation.prems by fastforce
  then show ?case using fold_constant_value [OF _ negation.prems(2)] a by (cases "isFoldable e") auto
qed (simp_all add: fold_constant_def literal_of_def)

text \<open>C26: On a stored row the rewritten form of a steady expression has the value of the expression the
  analyzer accepted, whenever that has one. \<open>steady\<close>: the operands of arithmetic and of AND and OR are
  settled, and arithmetic of type FLOAT has no constant operand that is neutral for it (0 in a sum, 1 in a
  product) unless it is constant as a whole. Without the second condition the property fails:
  \<open>(a * 1.0) / 2\<close> over an INT column becomes a division of integers (\<open>rewrite_changes_division\<close>,
  \<open>rewrite.cpp\<close> line 124).\<close>

theorem rewrite_preserves:
  assumes "in_scope_of \<Gamma> st" "visit_expr e st = (Inr e', st')" "deserialize inp \<Gamma> = Inr row" "steady e'"
    "evalExpression e' row = Some v"
  shows "\<exists>e''. rewriteExpression e' = Some e'' \<and> evalExpression e'' row = Some v"
  using yields_at [OF yields_visit(1) assms(1,2)] rewrite_value [OF _ stored_rows_conform [OF assms(3)]] assms(4,5) by blast

text \<open>\<open>a + 0\<close> over the column of the instance.\<close>

definition plus_zero :: expr where
  "plus_zero = ArithmeticExpr (Some DInt) Add (bound_column ''a'' DInt 0) (LiteralExpr (Some DInt) (VInt 0))"

lemma visit_plus_zero:
  "visit_expr (ArithmeticExpr None Add (bare_column ''a'') (LiteralExpr None (VInt 0))) in_one_column = (Inr plus_zero, in_one_column)"
  by (simp add: s_bind_def visit_bare s_return_def s_lift_def arithmetic_type_def not_numeric_def isNumericType_def
      bound_column_def plus_zero_def)

theorem rewrite_preserves_witness:
  "\<exists>e. rewriteExpression plus_zero = Some e \<and> evalExpression e [VInt 7] = Some (VInt 7)"
  by (rule rewrite_preserves [OF one_column_scope visit_plus_zero seven_stored])
    (simp_all add: plus_zero_def bound_column_def column_val_def)

text \<open>\<open>(a * 1.0) / 2\<close>, which asks for a division of doubles, is rewritten to a division of integers.\<close>

definition scaled_half :: expr where
  "scaled_half = ArithmeticExpr (Some DFloat) Div
     (ArithmeticExpr (Some DFloat) Mul (bound_column ''a'' DInt 0) (LiteralExpr (Some DFloat) (VDouble f_one)))
     (LiteralExpr (Some DInt) (VInt 2))"

lemma two_not_neutral: "\<not> f_eq (f_of_int 2) f_one" "\<not> f_eq (f_of_int 2) (f_zero False)"
  using f_of_int_less(2) [of 2 1] f_of_int_less(2) [of 2 0] by (simp_all add: f_one_def f_of_int_zero)

lemma one_is_neutral: "f_eq f_one f_one"
  using f_of_int_less(2) [of 1 1] by (simp add: f_one_def)

lemma rewrite_changes_division:
  "typed [DInt] scaled_half \<and>
   evalExpression scaled_half [VInt 7] = Some (VDouble (f_div (f_mul (f_of_int 7) f_one) (f_of_int 2))) \<and>
   (\<exists>e. rewriteExpression scaled_half = Some e \<and> evalExpression e [VInt 7] = Some (VInt 3))"
proof (intro conjI)
  have typed: "typed [DInt] (bound_column ''a'' DInt 0)" "typed [DInt] (LiteralExpr (Some DFloat) (VDouble f_one))"
    "typed [DInt] (LiteralExpr (Some DInt) (VInt 2))"
    by (simp_all add: typed_simps bound_column_def)
  show "typed [DInt] scaled_half"
    unfolding scaled_half_def
    by (intro typed.arithmetic typed) (simp_all add: arithmetic_type_def not_numeric_def isNumericType_def bound_column_def)
  show "evalExpression scaled_half [VInt 7] = Some (VDouble (f_div (f_mul (f_of_int 7) f_one) (f_of_int 2)))"
    using two_not_neutral(2) by (simp add: scaled_half_def bound_column_def column_val_def asDouble_def)
  have "rewriteExpression scaled_half = Some (ArithmeticExpr (Some DFloat) Div (bound_column ''a'' DInt 0) (literal_of (VInt 2)))"
    using one_is_neutral two_not_neutral(1)
    by (simp add: scaled_half_def bound_column_def fold_constant_def literal_of_def value_or_def)
  moreover have "evalExpression (ArithmeticExpr (Some DFloat) Div (bound_column ''a'' DInt 0) (literal_of (VInt 2))) [VInt 7] =
      Some (VInt 3)"
    by (simp add: bound_column_def column_val_def literal_of_def div_i64_def)
  ultimately show "\<exists>e. rewriteExpression scaled_half = Some e \<and> evalExpression e [VInt 7] = Some (VInt 3)" by blast
qed

end
