(* ===== verification/Bloom.thy ===== *)
theory Bloom
  imports Prelude
begin

text \<open>
  The Bloom filter of \<open>src/src/index/bloom_filter.cpp\<close>, which an index asks before it reads
  its tree. All the arithmetic is on 64-bit words and wraps as in the code. The atomics are
  relaxed loads and \<open>fetch_or\<close>s of single words; the model executes them in sequence. The
  locale \<open>key_filter\<close> is what the index relies on: a key that was added is never denied.
\<close>

unbundle bit_operations_syntax

section \<open>State and operations\<close>

record bloom =
  numBits :: u64
  numHashes :: u64
  bloom_words :: "u64 list"

definition fnv1a :: "bytes \<Rightarrow> u64 \<Rightarrow> u64" where
  "fnv1a data seed = foldl (\<lambda>h c. (h XOR word_of_nat (of_char c)) * 1099511628211) seed data"

definition kSeed1 :: u64 where "kSeed1 = 1469598103934665603"
definition kSeed2 :: u64 where "kSeed2 = 1099511628211"

definition bloom_new :: "u64 \<Rightarrow> u64 \<Rightarrow> bloom" where
  "bloom_new expectedItems hashes =
     (let hashes = (if hashes = 0 then 1 else hashes);
          bits = (if expectedItems = 0 then 1 else expectedItems) * hashes * 2;
          bits = (if bits < 64 then 64 else bits);
          wordCount = (bits + 63) div 64
      in \<lparr>numBits = wordCount * 64, numHashes = hashes,
          bloom_words = replicate (unat wordCount) 0\<rparr>)"

definition locate :: "bloom \<Rightarrow> bytes \<Rightarrow> nat \<Rightarrow> nat \<times> u64" where
  "locate bl key i =
     (let h1 = fnv1a key kSeed1;
          h2 = fnv1a key kSeed2 OR 1;
          b = (h1 + word_of_nat i * h2) mod numBits bl
      in (unat (b div 64), push_bit (unat (b mod 64)) 1))"

definition set_probe :: "bloom \<Rightarrow> bytes \<Rightarrow> u64 list \<Rightarrow> nat \<Rightarrow> u64 list" where
  "set_probe bl key ws i = (case locate bl key i of (w, mk) \<Rightarrow> ws[w := ws ! w OR mk])"

definition bloom_add :: "bloom \<Rightarrow> bytes \<Rightarrow> bloom" where
  "bloom_add bl key =
     bl\<lparr>bloom_words := foldl (set_probe bl key) (bloom_words bl) [0..<unat (numHashes bl)]\<rparr>"

definition probe :: "bloom \<Rightarrow> bytes \<Rightarrow> nat \<Rightarrow> bool" where
  "probe bl key i = (case locate bl key i of (w, mk) \<Rightarrow> (bloom_words bl ! w) AND mk \<noteq> 0)"

definition mightContain :: "bloom \<Rightarrow> bytes \<Rightarrow> bool" where
  "mightContain bl key = list_all (probe bl key) [0..<unat (numHashes bl)]"

definition addInt :: "bloom \<Rightarrow> i64 \<Rightarrow> bloom" where
  "addInt bl v = bloom_add bl (enc_word v)"

definition mightContainInt :: "bloom \<Rightarrow> i64 \<Rightarrow> bool" where
  "mightContainInt bl v = mightContain bl (enc_word v)"

section \<open>The shape of a filter\<close>

text \<open>The bits are those of the words, and there is at least one word, so that every probe
  is inside the array and no remainder is by zero.\<close>

definition bloom_ok :: "bloom \<Rightarrow> bool" where
  "bloom_ok bl \<longleftrightarrow> unat (numBits bl) = 64 * length (bloom_words bl) \<and> bloom_words bl \<noteq> [] \<and>
     0 < unat (numHashes bl)"

definition bloom_fits :: "u64 \<Rightarrow> u64 \<Rightarrow> bool" where
  "bloom_fits n h \<longleftrightarrow> max 1 (unat n) * max 1 (unat h) * 2 + 63 < 2 ^ 64"

lemma max_one: "(if n = 0 then 1 else n) = (max 1 n :: nat)"
  by auto

lemma unat_or_one: "unat (if n = 0 then 1 else n :: u64) = max 1 (unat n)"
  by (auto simp: max_def unat_eq_zero) (metis One_nat_def le_antisym nat_le_linear not_less_eq_eq unat_eq_zero le_zero_eq)

lemma bloom_new_ok:
  assumes "bloom_fits n h"
  shows "bloom_ok (bloom_new n h)"
proof -
  define h1 where "h1 = (if h = 0 then 1 else h :: u64)"
  define n1 where "n1 = (if n = 0 then 1 else n :: u64)"
  define bits where "bits = n1 * h1 * 2"
  define bits1 where "bits1 = (if bits < 64 then 64 else bits)"
  have h1: "unat h1 = max 1 (unat h)" unfolding h1_def by (rule unat_or_one)
  have n1: "unat n1 = max 1 (unat n)" unfolding n1_def by (rule unat_or_one)
  have fit: "unat n1 * unat h1 * 2 + 63 < 2 ^ 64" using assms by (simp add: bloom_fits_def h1 n1)
  have m: "unat (n1 * h1) = unat n1 * unat h1"
    using fit by (subst unat_mult_lem [THEN iffD1]) auto
  have "unat bits = unat n1 * unat h1 * 2"
    unfolding bits_def using fit m by (subst unat_mult_lem [THEN iffD1]) (auto simp: mult.commute)
  then have b: "unat bits1 + 63 < 2 ^ 64" "64 \<le> unat bits1"
    using fit by (auto simp: bits1_def word_less_nat_alt)
  define wc where "wc = (bits1 + 63) div 64"
  have "unat (bits1 + 63) = unat bits1 + 63" using b by (subst unat_add_lem [THEN iffD1]) auto
  then have wc: "unat wc = (unat bits1 + 63) div 64" by (simp add: wc_def unat_div)
  have "unat wc * 64 < 2 ^ 64" using wc b by linarith
  then have w64: "unat (wc * 64) = unat wc * 64" by (subst unat_mult_lem [THEN iffD1]) auto
  have pos: "0 < unat wc" using wc b by linarith
  have "bloom_new n h = \<lparr>numBits = wc * 64, numHashes = h1, bloom_words = replicate (unat wc) 0\<rparr>"
    by (simp add: bloom_new_def Let_def h1_def n1_def bits_def bits1_def wc_def)
  then show ?thesis using w64 pos h1 by (simp add: bloom_ok_def)
qed

lemma locate_bound:
  assumes "bloom_ok bl" "locate bl key i = (w, mk)"
  shows "w < length (bloom_words bl)" "mk \<noteq> 0"
proof -
  define b where "b = (fnv1a key kSeed1 + word_of_nat i * (fnv1a key kSeed2 OR 1)) mod numBits bl"
  have l: "w = unat (b div 64)" "mk = push_bit (unat (b mod 64)) 1"
    using assms(2) by (simp_all add: locate_def Let_def b_def)
  have pos: "0 < unat (numBits bl)" using assms(1) by (auto simp: bloom_ok_def)
  have "unat b < unat (numBits bl)" unfolding b_def using pos by (simp add: unat_mod)
  then have "unat b < 64 * length (bloom_words bl)" using assms(1) by (simp add: bloom_ok_def)
  then show "w < length (bloom_words bl)" by (simp add: l unat_div)
  have "unat (b mod 64) < 64" by (simp add: unat_mod)
  then have "bit mk (unat (b mod 64))" by (simp add: l bit_simps)
  then show "mk \<noteq> 0" by auto
qed

lemma locate_cong: "numBits bl' = numBits bl \<Longrightarrow> locate bl' key i = locate bl key i"
  by (simp add: locate_def)

section \<open>Words only gain bits\<close>

definition word_le :: "u64 list \<Rightarrow> u64 list \<Rightarrow> bool" where
  "word_le xs ys \<longleftrightarrow> length ys = length xs \<and> (\<forall>j < length xs. \<forall>m. xs ! j AND m \<noteq> 0 \<longrightarrow> ys ! j AND m \<noteq> 0)"

lemma word_le_refl [simp]: "word_le xs xs"
  by (simp add: word_le_def)

lemma word_le_trans: "word_le xs ys \<Longrightarrow> word_le ys zs \<Longrightarrow> word_le xs zs"
  by (auto simp: word_le_def)

lemma or_keeps: "(a :: u64) AND m \<noteq> 0 \<Longrightarrow> (a OR b) AND m \<noteq> 0"
  by (auto simp: bit_eq_iff bit_simps)

lemma set_probe_le:
  assumes "bloom_ok bl" "length ws = length (bloom_words bl)"
  shows "word_le ws (set_probe bl key ws i)"
proof -
  obtain w mk where l: "locate bl key i = (w, mk)" by (metis surj_pair)
  have "w < length ws" using locate_bound [OF assms(1) l] assms(2) by simp
  then show ?thesis by (auto simp: set_probe_def l word_le_def nth_list_update or_keeps)
qed

lemma set_probe_fold:
  assumes "bloom_ok bl" "length ws = length (bloom_words bl)"
  shows "word_le ws (foldl (set_probe bl key) ws is)"
  using assms(2)
proof (induction "is" arbitrary: ws)
  case (Cons i "is")
  have "word_le ws (set_probe bl key ws i)" by (rule set_probe_le [OF assms(1) Cons.prems])
  moreover have "word_le (set_probe bl key ws i) (foldl (set_probe bl key) (set_probe bl key ws i) is)"
    using calculation Cons by (intro Cons.IH) (simp add: word_le_def)
  ultimately show ?case using word_le_trans by simp
qed simp

lemma set_probe_sets:
  assumes "bloom_ok bl" "length ws = length (bloom_words bl)" "i \<in> set is" "locate bl key i = (w, mk)"
  shows "foldl (set_probe bl key) ws is ! w AND mk \<noteq> 0"
  using assms(2,3)
proof (induction "is" arbitrary: ws)
  case (Cons j "is")
  note w = locate_bound [OF assms(1,4)]
  have le: "word_le ws (set_probe bl key ws j)" by (rule set_probe_le [OF assms(1) Cons.prems(1)])
  then have len: "length (set_probe bl key ws j) = length (bloom_words bl)"
    using Cons.prems by (simp add: word_le_def)
  show ?case
  proof (cases "i = j")
    case True
    have "mk AND mk \<noteq> 0" using w by simp
    then have "set_probe bl key ws j ! w AND mk \<noteq> 0"
      using w Cons.prems assms(4) True or_keeps [of mk mk "ws ! w"]
      by (simp add: set_probe_def or.commute)
    then show ?thesis
      using set_probe_fold [OF assms(1) len, of key "is"] w len by (simp add: word_le_def)
  next
    case False
    then show ?thesis using Cons.IH [OF len] Cons.prems by simp
  qed
qed simp

lemma bloom_add_words:
  assumes "bloom_ok bl"
  shows "word_le (bloom_words bl) (bloom_words (bloom_add bl key))"
  using set_probe_fold [OF assms refl] by (simp add: bloom_add_def)

lemma bloom_add_sizes [simp]:
  "numBits (bloom_add bl key) = numBits bl" "numHashes (bloom_add bl key) = numHashes bl"
  by (simp_all add: bloom_add_def)

lemma bloom_add_ok:
  assumes "bloom_ok bl"
  shows "bloom_ok (bloom_add bl key)"
proof -
  have "length (bloom_words (bloom_add bl key)) = length (bloom_words bl)"
    using bloom_add_words [OF assms, of key] by (simp add: word_le_def)
  moreover have "bloom_words (bloom_add bl key) \<noteq> []"
    using calculation assms by (metis bloom_ok_def length_0_conv)
  ultimately show ?thesis using assms by (simp add: bloom_ok_def)
qed

lemma add_contains:
  assumes ok: "bloom_ok bl"
  shows "mightContain (bloom_add bl key) key"
proof -
  have "probe (bloom_add bl key) key i" if i: "i < unat (numHashes bl)" for i
  proof -
    obtain w mk where l: "locate bl key i = (w, mk)" by (metis surj_pair)
    have "locate (bloom_add bl key) key i = (w, mk)" using l by (simp add: locate_def)
    then show ?thesis
      using set_probe_sets [OF ok refl, of i "[0..<unat (numHashes bl)]" key w mk] i l
      by (simp add: probe_def) (simp add: bloom_add_def)
  qed
  then show ?thesis by (simp add: mightContain_def list_all_iff)
qed

lemma add_keeps:
  assumes ok: "bloom_ok bl" and m: "mightContain bl k"
  shows "mightContain (bloom_add bl key) k"
proof -
  have "probe (bloom_add bl key) k i" if p: "probe bl k i" for i
  proof -
    obtain w mk where l: "locate bl k i = (w, mk)" by (metis surj_pair)
    have l': "locate (bloom_add bl key) k i = (w, mk)" using l by (simp add: locate_def)
    have "bloom_words bl ! w AND mk \<noteq> 0" using p l by (simp add: probe_def)
    then show ?thesis
      using locate_bound(1) [OF ok l] bloom_add_words [OF ok, of key] l'
      by (simp add: probe_def word_le_def)
  qed
  then show ?thesis using m by (simp add: mightContain_def list_all_iff)
qed

lemma new_denies:
  assumes "bloom_ok (bloom_new n h)"
  shows "\<not> mightContain (bloom_new n h) key"
proof -
  obtain w mk where l: "locate (bloom_new n h) key 0 = (w, mk)" by (metis surj_pair)
  have "bloom_words (bloom_new n h) ! w = 0"
    using locate_bound [OF assms l] by (simp add: bloom_new_def Let_def)
  then have "\<not> probe (bloom_new n h) key 0" by (simp add: probe_def l)
  then show ?thesis using assms by (auto simp: mightContain_def list_all_iff bloom_ok_def)
qed

section \<open>The interface of a filter of keys\<close>

locale key_filter =
  fixes ok :: "'f \<Rightarrow> bool" and add :: "'f \<Rightarrow> 'k \<Rightarrow> 'f" and member :: "'f \<Rightarrow> 'k \<Rightarrow> bool"
  assumes ok_add: "ok f \<Longrightarrow> ok (add f k)"
    and member_add: "ok f \<Longrightarrow> member (add f k) k"
    and member_keeps: "ok f \<Longrightarrow> member f j \<Longrightarrow> member (add f k) j"
begin

lemma adds_ok: "ok f \<Longrightarrow> ok (foldl add f ks)"
  by (induction ks arbitrary: f) (simp_all add: ok_add)

lemma adds_keep: "ok f \<Longrightarrow> member f j \<Longrightarrow> member (foldl add f ks) j"
  by (induction ks arbitrary: f) (simp_all add: ok_add member_keeps)

lemma adds_member: "ok f \<Longrightarrow> k \<in> set ks \<Longrightarrow> member (foldl add f ks) k"
  by (induction ks arbitrary: f) (auto simp: ok_add member_add adds_keep)

end

interpretation bloom_filter: key_filter bloom_ok bloom_add mightContain
  by unfold_locales (simp_all add: bloom_add_ok add_contains add_keeps)

interpretation bloom_ints: key_filter bloom_ok addInt mightContainInt
  by unfold_locales (simp_all add: addInt_def mightContainInt_def bloom_add_ok add_contains add_keeps)

section \<open>Properties\<close>

text \<open>The Bloom filter has no false negatives: built with any sizes whose product does not
  overflow \<open>size_t\<close>, it denies every key before the first is added, and after any sequence of
  additions it admits each key of the sequence, no probe ever leaving the array of words.\<close>

lemma bloom_no_false_negatives:
  assumes "bloom_fits n h"
  shows "(\<forall>key. \<not> mightContain (bloom_new n h) key) \<and>
    (\<forall>key\<in>set ks. mightContain (foldl bloom_add (bloom_new n h) ks) key) \<and>
    (\<forall>key i. fst (locate (foldl bloom_add (bloom_new n h) ks) key i) <
       length (bloom_words (foldl bloom_add (bloom_new n h) ks)))"
proof -
  have ok: "bloom_ok (bloom_new n h)" by (rule bloom_new_ok [OF assms])
  have ok1: "bloom_ok (foldl bloom_add (bloom_new n h) ks)" by (rule bloom_filter.adds_ok [OF ok])
  show ?thesis
    using new_denies [OF ok] bloom_filter.adds_member [OF ok] locate_bound(1) [OF ok1]
    by (metis prod.collapse)
qed

lemma bloom_no_false_negatives_witness:
  "mightContain (foldl bloom_add (bloom_new 4096 4) [''a'', ''bc'']) ''bc''"
proof -
  have "bloom_fits 4096 4" by (simp add: bloom_fits_def)
  from bloom_no_false_negatives [OF this, of "[''a'', ''bc'']"] show ?thesis by simp
qed

end
