(* ===== verification/TreeNode.thy ===== *)
theory TreeNode
  imports TableManager Values
begin

text \<open>
  The nodes of the page-resident B+ tree, the first half of
  \<open>src/src/index/disk_bplus_tree.cpp\<close>: how a \<open>NodeView\<close> is written to the bytes of a page
  and read back, and the three node operations over the buffer pool. A null page from the pool
  is dereferenced by the code; the model's operations are then undefined (\<open>None\<close>), which the
  specifications exclude for a pool whose pages are not pinned. A type byte outside the
  enumeration also makes the reader undefined.

  \<open>pool_nodes\<close> is the abstraction the tree is proved against, the node every page stands for.
\<close>

section \<open>The byte encoding\<close>

record node_view =
  nv_leaf :: bool
  nv_next :: int
  nv_keys :: "val list"
  nv_rids :: "record_id list"
  nv_children :: "int list"

definition putU16 :: "page \<Rightarrow> nat \<Rightarrow> u16 \<Rightarrow> page" where
  "putU16 d off v = mwrite d off (enc_word v)"

definition getU16 :: "page \<Rightarrow> nat \<Rightarrow> u16" where
  "getU16 d off = dec_word (mread d off 2)"

definition putI32 :: "page \<Rightarrow> nat \<Rightarrow> int \<Rightarrow> page" where
  "putI32 d off v = mwrite d off (enc_word (word_of_int v :: u32))"

definition getI32 :: "page \<Rightarrow> nat \<Rightarrow> int" where
  "getI32 d off = sint (dec_word (mread d off 4) :: u32)"

definition encodeValue :: "val \<Rightarrow> bytes" where
  "encodeValue v =
     char_of (type_index v) #
     (case v of
        VInt i \<Rightarrow> enc_word i
      | VDouble f \<Rightarrow> enc_word f
      | VBool b \<Rightarrow> [char_of (if b then 1 else 0 :: nat)]
      | VText s \<Rightarrow> s
      | VNull \<Rightarrow> [])"

fun decodeValue :: "bytes \<Rightarrow> val option" where
  "decodeValue [] = Some VNull"
| "decodeValue (t # body) =
     (let tag = (of_char t :: nat)
      in if tag = 0 then Some VNull
         else if tag = 1 then Some (VInt (dec_word (take 8 body)))
         else if tag = 2 then Some (VBool (body \<noteq> [] \<and> hd body \<noteq> NUL))
         else if tag = 3 then Some (VText body)
         else if tag = 4 then Some (VDouble (dec_word (take 8 body)))
         else None)"

fun read_entries :: "page \<Rightarrow> nat \<Rightarrow> nat \<Rightarrow> ((val \<times> record_id) list \<times> nat) option" where
  "read_entries d 0 pos = Some ([], pos)"
| "read_entries d (Suc n) pos =
     (let klen = unat (getU16 d pos); pos = pos + 2
      in case decodeValue (mread d pos klen) of
           None \<Rightarrow> None
         | Some k \<Rightarrow>
             let pos = pos + klen; rid = \<lparr>rpage = getI32 d pos, rslot = getI32 d (pos + 4)\<rparr>
             in case read_entries d n (pos + 8) of
                  None \<Rightarrow> None
                | Some (es, end_pos) \<Rightarrow> Some ((k, rid) # es, end_pos))"

definition node_of_page :: "page \<Rightarrow> node_view option" where
  "node_of_page d =
     (let is_leaf = d 0 \<noteq> NUL; n = unat (getU16 d 2); nxt = getI32 d 4
      in case read_entries d n 8 of
           None \<Rightarrow> None
         | Some (es, pos) \<Rightarrow>
             Some \<lparr>nv_leaf = is_leaf, nv_next = nxt, nv_keys = map fst es, nv_rids = map snd es,
                   nv_children = (if is_leaf then [] else map (\<lambda>i. getI32 d (pos + 4 * i)) [0..<n + 1])\<rparr>)"

definition put_entry :: "page \<times> nat \<Rightarrow> val \<times> record_id \<Rightarrow> page \<times> nat" where
  "put_entry st e =
     (let (d, pos) = st; (key, rid) = e;
          kb = encodeValue key;
          d = putU16 d pos (word_of_nat (length kb)); pos = pos + 2;
          d = mwrite d pos kb; pos = pos + length kb;
          d = putI32 d pos (rpage rid);
          d = putI32 d (pos + 4) (rslot rid)
      in (d, pos + 8))"

definition put_child :: "page \<times> nat \<Rightarrow> int \<Rightarrow> page \<times> nat" where
  "put_child st child = (let (d, pos) = st in (putI32 d pos child, pos + 4))"

definition page_of_node :: "node_view \<Rightarrow> page \<Rightarrow> page" where
  "page_of_node view p =
     (let d = memset p 0 NUL PAGE_SIZE;
          d = mwrite d 0 [char_of (if nv_leaf view then 1 else 0 :: nat)];
          d = putU16 d 2 (word_of_nat (length (nv_keys view)));
          d = putI32 d 4 (nv_next view);
          st = foldl put_entry (d, 8) (zip (nv_keys view) (nv_rids view));
          st = (if nv_leaf view then st else foldl put_child st (nv_children view))
      in fst st)"

definition node_measure :: "val list \<Rightarrow> bool \<Rightarrow> nat" where
  "node_measure ks is_leaf =
     8 + (\<Sum>k\<leftarrow>ks. 2 + length (encodeValue k) + 8) + (if is_leaf then 0 else (length ks + 1) * 4)"

section \<open>Nodes in the pool\<close>

definition readNode :: "pool \<Rightarrow> int \<Rightarrow> (pool \<times> node_view) option" where
  "readNode pl pid =
     (case guarded pl pid (\<lambda>p. (p, False, node_of_page p)) of
        (pl, Some (Some view)) \<Rightarrow> Some (pl, view)
      | _ \<Rightarrow> None)"

definition writeNode :: "pool \<Rightarrow> int \<Rightarrow> node_view \<Rightarrow> pool option" where
  "writeNode pl pid view =
     (case guarded pl pid (\<lambda>p. (page_of_node view p, True, ())) of
        (pl, Some _) \<Rightarrow> Some pl
      | (pl, None) \<Rightarrow> None)"

text \<open>\<open>newPage\<close> and the \<open>unpin(pid, false)\<close> right after it are a scope that leaves the page
  alone.\<close>

definition allocNode :: "pool \<Rightarrow> node_view \<Rightarrow> (pool \<times> int) option" where
  "allocNode pl view =
     (case guarded_new pl (\<lambda>p. (p, False, ())) of
        (pl, None) \<Rightarrow> None
      | (pl, Some (pid, _)) \<Rightarrow> map_option (\<lambda>pl. (pl, pid)) (writeNode pl pid view))"

section \<open>Round trips\<close>

definition in_i32 :: "int \<Rightarrow> bool" where
  "in_i32 i \<longleftrightarrow> - (2 ^ 31) \<le> i \<and> i < 2 ^ 31"

definition rid_i32 :: "record_id \<Rightarrow> bool" where
  "rid_i32 r \<longleftrightarrow> in_i32 (rpage r) \<and> in_i32 (rslot r)"

lemma mwrite_append: "mwrite (mwrite d off xs) (off + length xs) ys = mwrite d off (xs @ ys)"
  by (rule ext) (auto simp: mwrite_def nth_append)

lemma mread_append: "mread d off (m + n) = mread d off m @ mread d (off + m) n"
proof -
  have "[0..<m + n] = [0..<m] @ map (\<lambda>i. i + m) [0..<n]"
    using upt_add_eq_append [of 0 m n] map_add_upt [of m n] by (simp add: add.commute [of n m])
  then show ?thesis by (simp add: mread_def comp_def ac_simps)
qed

definition at :: "page \<Rightarrow> nat \<Rightarrow> bytes \<Rightarrow> bool" where
  "at d pos bs \<longleftrightarrow> mread d pos (length bs) = bs"

lemma at_append: "at d pos (xs @ ys) \<longleftrightarrow> at d pos xs \<and> at d (pos + length xs) ys"
  by (simp add: at_def mread_append)

lemma at_Cons: "at d pos (x # xs) \<longleftrightarrow> d pos = x \<and> at d (pos + 1) xs"
  using at_append [of d pos "[x]" xs] by (simp add: at_def mread_def)

lemma at_mwrite: "at (mwrite d pos bs) pos bs"
  by (simp add: at_def mem_simps)

lemma getU16_at: "at d pos (enc_word (w :: u16)) \<Longrightarrow> getU16 d pos = w"
  by (simp add: at_def getU16_def)

lemma getI32_at:
  assumes "at d pos (enc_word (word_of_int i :: u32))" "in_i32 i"
  shows "getI32 d pos = i"
proof -
  have "sint (word_of_int i :: u32) = i"
    using assms(2) by (simp add: in_i32_def signed_of_int signed_take_bit_int_eq_self)
  then show ?thesis using assms(1) by (simp add: at_def getI32_def)
qed

lemma decode_encode: "decodeValue (encodeValue v) = Some v"
  by (cases v) (auto simp: encodeValue_def Let_def)

definition entry_bytes :: "val \<times> record_id \<Rightarrow> bytes" where
  "entry_bytes e =
     (let kb = encodeValue (fst e)
      in enc_word (word_of_nat (length kb) :: u16) @ kb @ enc_word (word_of_int (rpage (snd e)) :: u32) @
         enc_word (word_of_int (rslot (snd e)) :: u32))"

lemma length_entry_bytes [simp]: "length (entry_bytes e) = 10 + length (encodeValue (fst e))"
  by (simp add: entry_bytes_def Let_def)

lemma put_entry_eq: "put_entry (d, pos) e = (mwrite d pos (entry_bytes e), pos + length (entry_bytes e))"
proof (cases e)
  case (Pair k r)
  define kb where "kb = encodeValue k"
  define x where "x = (enc_word (word_of_nat (length kb) :: u16))"
  define y where "y = enc_word (word_of_int (rpage r) :: u32)"
  define z where "z = enc_word (word_of_int (rslot r) :: u32)"
  have l: "length x = 2" "length y = 4" by (simp_all add: x_def y_def)
  have "mwrite (mwrite (mwrite (mwrite d pos x) (pos + 2) kb) (pos + 2 + length kb) y) (pos + 2 + length kb + 4) z =
    mwrite d pos (x @ kb @ y @ z)"
    using mwrite_append [of d pos x kb] mwrite_append [of d pos "x @ kb" y]
      mwrite_append [of d pos "x @ kb @ y" z] l
    by (simp add: ac_simps)
  then show ?thesis
    using Pair by (simp add: put_entry_def putU16_def putI32_def entry_bytes_def Let_def kb_def x_def y_def z_def)
qed

lemma put_entries_eq:
  "foldl put_entry (d, pos) es =
     (mwrite d pos (concat (map entry_bytes es)), pos + length (concat (map entry_bytes es)))"
proof (induction es arbitrary: d pos)
  case (Cons e es)
  then show ?case
    by (simp add: put_entry_eq mwrite_append del: length_entry_bytes)
qed simp

definition child_bytes :: "int \<Rightarrow> bytes" where
  "child_bytes c = enc_word (word_of_int c :: u32)"

lemma length_child_bytes [simp]: "length (child_bytes c) = 4"
  by (simp add: child_bytes_def)

lemma put_children_eq:
  "foldl put_child (d, pos) cs =
     (mwrite d pos (concat (map child_bytes cs)), pos + length (concat (map child_bytes cs)))"
proof (induction cs arbitrary: d pos)
  case (Cons c cs)
  have "put_child (d, pos) c = (mwrite d pos (child_bytes c), pos + length (child_bytes c))"
    by (simp add: put_child_def putI32_def child_bytes_def)
  then show ?case using Cons by (simp add: mwrite_append del: length_child_bytes)
qed simp

lemma read_entries_at:
  assumes "at d pos (concat (map entry_bytes es))"
    and "\<forall>e\<in>set es. length (encodeValue (fst e)) < 65536 \<and> rid_i32 (snd e)"
  shows "read_entries d (length es) pos = Some (es, pos + length (concat (map entry_bytes es)))"
  using assms
proof (induction es arbitrary: pos)
  case (Cons e es)
  obtain k r where e: "e = (k, r)" by (metis surj_pair)
  define kb where "kb = encodeValue k"
  have lt: "length kb < 65536" and ri: "in_i32 (rpage r)" "in_i32 (rslot r)"
    using Cons.prems(2) by (auto simp: e kb_def rid_i32_def)
  have at: "at d pos (enc_word (word_of_nat (length kb) :: u16))" "at d (pos + 2) kb"
    "at d (pos + 2 + length kb) (enc_word (word_of_int (rpage r) :: u32))"
    "at d (pos + 2 + length kb + 4) (enc_word (word_of_int (rslot r) :: u32))"
    "at d (pos + 2 + length kb + 8) (concat (map entry_bytes es))"
    using Cons.prems(1)
    by (simp_all add: e entry_bytes_def [of "(k, r)"] kb_def Let_def at_append numeral_eq_Suc ac_simps)
  have kl: "unat (getU16 d pos) = length kb"
    using getU16_at [OF at(1)] lt by (simp add: unsigned_of_nat take_bit_nat_eq_self)
  have dk: "decodeValue (mread d (pos + 2) (length kb)) = Some k"
    using at(2) by (simp add: at_def kb_def decode_encode)
  show ?case
    using Cons.IH [OF at(5)] Cons.prems(2) getI32_at [OF at(3) ri(1)] getI32_at [OF at(4) ri(2)] dk
    by (simp add: e kl Let_def kb_def ac_simps)
qed simp

text \<open>The bytes of a node, and the nodes that fit a page.\<close>

definition node_bytes :: "node_view \<Rightarrow> bytes" where
  "node_bytes v =
     concat (map entry_bytes (zip (nv_keys v) (nv_rids v))) @
     (if nv_leaf v then [] else concat (map child_bytes (nv_children v)))"

definition node_shape :: "node_view \<Rightarrow> bool" where
  "node_shape v \<longleftrightarrow> length (nv_rids v) = length (nv_keys v) \<and>
     length (nv_children v) = (if nv_leaf v then 0 else Suc (length (nv_keys v))) \<and>
     in_i32 (nv_next v) \<and> (\<forall>r\<in>set (nv_rids v). rid_i32 r) \<and> (\<forall>c\<in>set (nv_children v). in_i32 c)"

definition node_fits :: "node_view \<Rightarrow> bool" where
  "node_fits v \<longleftrightarrow> node_shape v \<and> node_measure (nv_keys v) (nv_leaf v) \<le> PAGE_SIZE"

lemma length_entries:
  "length rs = length ks \<Longrightarrow>
    length (concat (map entry_bytes (zip ks rs))) = (\<Sum>k\<leftarrow>ks. 2 + length (encodeValue k) + 8)"
  by (induction ks rs rule: list_induct2') auto

lemma length_children: "length (concat (map child_bytes cs)) = length cs * 4"
  by (induction cs) auto

lemma length_node_bytes: "node_shape v \<Longrightarrow> 8 + length (node_bytes v) = node_measure (nv_keys v) (nv_leaf v)"
  using length_entries [of "nv_rids v" "nv_keys v"] length_children [of "nv_children v"]
  by (simp add: node_bytes_def node_measure_def node_shape_def)

definition node_header :: "node_view \<Rightarrow> page \<Rightarrow> page" where
  "node_header v p =
     (let d = memset p 0 NUL PAGE_SIZE;
          d = mwrite d 0 [char_of (if nv_leaf v then 1 else 0 :: nat)];
          d = putU16 d 2 (word_of_nat (length (nv_keys v)))
      in putI32 d 4 (nv_next v))"

lemma page_of_node_eq: "page_of_node v p = mwrite (node_header v p) 8 (node_bytes v)"
  by (simp add: page_of_node_def node_header_def node_bytes_def Let_def put_entries_eq put_children_eq
      mwrite_append)

lemma in_page_of_node:
  assumes "in_page p" "node_fits v"
  shows "in_page (page_of_node v p)"
  using assms length_node_bytes [of v]
  by (auto simp: page_of_node_eq node_header_def Let_def in_page_def node_fits_def mwrite_def memset_def
      putU16_def putI32_def PAGE_SIZE_def)

lemma sum_list_ge_length: "(\<And>x. x \<in> set xs \<Longrightarrow> c \<le> f x) \<Longrightarrow> length xs * c \<le> (\<Sum>x\<leftarrow>xs. f x :: nat)"
  by (induction xs) (auto intro: add_mono)

lemma sum_list_member: "x \<in> set xs \<Longrightarrow> f x \<le> (\<Sum>x\<leftarrow>xs. f x :: nat)"
  by (induction xs) auto

lemma node_fits_bounds:
  assumes "node_fits v"
  shows "length (nv_keys v) < 65536" "\<And>k. k \<in> set (nv_keys v) \<Longrightarrow> length (encodeValue k) < 65536"
proof -
  have s: "(\<Sum>k\<leftarrow>nv_keys v. 2 + length (encodeValue k) + 8) \<le> 4096"
    using assms by (simp add: node_fits_def node_measure_def PAGE_SIZE_def)
  show "length (nv_keys v) < 65536"
    using sum_list_ge_length [of "nv_keys v" 1 "\<lambda>k. 2 + length (encodeValue k) + 8"] s by simp
  show "length (encodeValue k) < 65536" if "k \<in> set (nv_keys v)" for k
    using sum_list_member [OF that, of "\<lambda>k. 2 + length (encodeValue k) + 8"] s by simp
qed

lemma node_round_trip:
  assumes "node_fits v"
  shows "node_of_page (page_of_node v p) = Some v"
proof -
  define d where "d = page_of_node v p"
  define es where "es = zip (nv_keys v) (nv_rids v)"
  define h where "h = node_header v p"
  have sh: "node_shape v" using assms by (simp add: node_fits_def)
  then have len: "length (nv_rids v) = length (nv_keys v)" by (simp add: node_shape_def)
  note b = node_fits_bounds [OF assms]
  have d: "d = mwrite h 8 (node_bytes v)" by (simp add: d_def h_def page_of_node_eq)
  have at8: "at d 8 (node_bytes v)" unfolding d by (rule at_mwrite)
  have below: "mread d off n = mread h off n" if "off + n \<le> 8" for off n
    unfolding d using that by (simp add: mem_simps)
  have h0: "d 0 = char_of (if nv_leaf v then 1 else 0 :: nat)"
    by (simp add: d h_def mwrite_def node_header_def Let_def putU16_def putI32_def)
  have h2: "getU16 d 2 = word_of_nat (length (nv_keys v))"
    using below [of 2 2]
    by (simp add: getU16_def h_def node_header_def Let_def putU16_def putI32_def mem_simps)
  have h4: "getI32 d 4 = nv_next v"
  proof (rule getI32_at)
    show "at d 4 (enc_word (word_of_int (nv_next v) :: u32))"
      using below [of 4 4]
      by (simp add: at_def h_def node_header_def Let_def putU16_def putI32_def mem_simps)
    show "in_i32 (nv_next v)" using sh by (simp add: node_shape_def)
  qed
  have n: "unat (getU16 d 2) = length es" using b(1) len by (simp add: h2 es_def unsigned_of_nat take_bit_nat_eq_self)
  have es: "read_entries d (length es) 8 = Some (es, 8 + length (concat (map entry_bytes es)))"
  proof (rule read_entries_at)
    show "at d 8 (concat (map entry_bytes es))"
      using at8 by (simp add: node_bytes_def at_append es_def)
    show "\<forall>e\<in>set es. length (encodeValue (fst e)) < 65536 \<and> rid_i32 (snd e)"
      using b(2) sh by (auto simp: es_def node_shape_def dest: set_zip_leftD set_zip_rightD)
  qed
  have ch: "map (\<lambda>i. getI32 d (pos + 4 * i)) [0..<length cs] = cs"
    if "at d pos (concat (map child_bytes cs))" "\<forall>c\<in>set cs. in_i32 c" for pos cs
    using that
  proof (induction cs arbitrary: pos)
    case (Cons c cs)
    have a: "at d pos (child_bytes c)" "at d (pos + 4) (concat (map child_bytes cs))"
      using Cons.prems(1) by (simp_all add: at_append)
    have "getI32 d pos = c" using getI32_at [of d pos c] a(1) Cons.prems(2) by (simp add: child_bytes_def)
    moreover have "map (\<lambda>i. getI32 d (pos + 4 + 4 * i)) [0..<length cs] = cs"
      using Cons.IH [OF a(2)] Cons.prems(2) by simp
    ultimately show ?case
      by (simp add: upt_conv_Cons map_Suc_upt [symmetric] comp_def algebra_simps del: upt_Suc)
  qed simp
  have keys: "map fst es = nv_keys v" "map snd es = nv_rids v" using len by (simp_all add: es_def)
  show ?thesis
  proof (cases "nv_leaf v")
    case True
    then show ?thesis
      using n es keys h0 h4 sh by (simp add: node_of_page_def d_def [symmetric] Let_def node_shape_def)
  next
    case False
    have "at d (8 + length (concat (map entry_bytes es))) (concat (map child_bytes (nv_children v)))"
      using at8 False by (simp add: node_bytes_def at_append es_def)
    from ch [OF this] have "map (\<lambda>i. getI32 d (8 + length (concat (map entry_bytes es)) + 4 * i))
      [0..<length es + 1] = nv_children v"
      using sh False by (simp add: node_shape_def es_def)
    then show ?thesis
      using n es keys h0 h4 sh False
      by (simp add: node_of_page_def d_def [symmetric] Let_def node_shape_def)
  qed
qed

section \<open>The operations on the nodes the pool stands for\<close>

definition pool_nodes :: "pool \<Rightarrow> int \<Rightarrow> node_view option" where
  "pool_nodes pl pid = node_of_page (pool_content pl pid)"

lemma pool_in_page: "pool_inv pl \<Longrightarrow> in_page (pool_content pl pid)"
  unfolding pool_inv_def by (auto intro: in_page_content)

lemma readNode_spec:
  assumes "pool_inv pl" "0 \<le> pid" "pid < pool_pages pl" "pool_nodes pl pid = Some v"
  obtains pl' where "readNode pl pid = Some (pl', v)" "pool_inv pl'"
    "pool_content pl' = pool_content pl" "pool_pages pl' = pool_pages pl"
proof -
  obtain pl' x where g: "guarded pl pid (\<lambda>p. (p, False, node_of_page p)) = (pl', x)" by (metis surj_pair)
  note r = guarded_read [OF assms(1-3) pool_in_page [OF assms(1)] g]
  then show ?thesis using that assms(4) g by (simp add: readNode_def pool_nodes_def)
qed

lemma writeNode_spec:
  assumes "pool_inv pl" "0 \<le> pid" "pid < pool_pages pl" "node_fits v"
  obtains pl' where "writeNode pl pid v = Some pl'" "pool_inv pl'"
    "pool_content pl' = (pool_content pl)(pid := page_of_node v (pool_content pl pid))"
    "pool_nodes pl' = (pool_nodes pl)(pid := Some v)" "pool_pages pl' = pool_pages pl"
proof -
  define p where "p = page_of_node v (pool_content pl pid)"
  have ip: "in_page p"
    unfolding p_def by (rule in_page_of_node [OF pool_in_page [OF assms(1)] assms(4)])
  obtain pl' where g: "guarded pl pid (\<lambda>p. (page_of_node v p, True, ())) = (pl', Some ())"
    "pool_inv pl'" "pool_content pl' = (pool_content pl)(pid := p)" "pool_pages pl' = pool_pages pl"
    by (rule guarded_spec [OF assms(1-3), of "\<lambda>p. (page_of_node v p, True, ())" p True "()"])
       (use ip p_def in auto)
  have "pool_nodes pl' = (pool_nodes pl)(pid := Some v)"
    by (rule ext) (simp add: pool_nodes_def g(3) p_def node_round_trip [OF assms(4)])
  then show ?thesis using that g by (simp add: writeNode_def p_def)
qed

lemma allocNode_spec:
  assumes inv: "pool_inv pl" and v: "node_fits v"
  obtains pl' where "allocNode pl v = Some (pl', pool_pages pl)" "pool_inv pl'"
    "\<And>q. q \<noteq> pool_pages pl \<Longrightarrow> pool_content pl' q = pool_content pl q"
    "pool_nodes pl' = (pool_nodes pl)(pool_pages pl := Some v)" "pool_pages pl' = pool_pages pl + 1"
proof -
  obtain pl1 where g: "guarded_new pl (\<lambda>p. (p, False, ())) = (pl1, Some (pool_pages pl, ()))"
    "pool_inv pl1" "pool_content pl1 = (pool_content pl)(pool_pages pl := new_page)"
    "pool_pages pl1 = pool_pages pl + 1"
    by (rule guarded_new_spec [OF inv, of "\<lambda>p. (p, False, ())" new_page False "()"])
       (simp_all add: new_page_def flip: blank_def)
  have pid: "0 \<le> pool_pages pl" "pool_pages pl < pool_pages pl1"
    using inv g(4) by (auto simp: pool_inv_def dest: pool_okD(6))
  obtain pl2 where w: "writeNode pl1 (pool_pages pl) v = Some pl2" "pool_inv pl2"
    "pool_content pl2 = (pool_content pl1)(pool_pages pl := page_of_node v (pool_content pl1 (pool_pages pl)))"
    "pool_nodes pl2 = (pool_nodes pl1)(pool_pages pl := Some v)" "pool_pages pl2 = pool_pages pl1"
    by (rule writeNode_spec [OF g(2) pid v])
  have "pool_nodes pl2 = (pool_nodes pl)(pool_pages pl := Some v)"
    by (rule ext) (simp add: w(4), simp add: pool_nodes_def g(3))
  moreover have "pool_content pl2 q = pool_content pl q" if "q \<noteq> pool_pages pl" for q
    using that by (simp add: w(3) g(3))
  ultimately show ?thesis
    using that [of pl2] g w by (simp add: allocNode_def)
qed

end
