(* ===== verification/DiskTree.thy ===== *)
theory DiskTree
  imports TreeNode
begin

text \<open>
  The page-resident B+ tree, the second half of \<open>src/src/index/disk_bplus_tree.cpp\<close>: one
  definition per method, over the node operations of \<open>TreeNode\<close>. An entry is a key with the
  record identifier it was inserted with; entries are ordered by key and then by identifier.
  The loops that walk pointers are \<open>partial_function (option)\<close>: a walk that never ends and a
  dereferenced null page are both \<open>None\<close>, and \<open>TreeProof\<close> shows that neither happens on a tree.

  \<open>insert\<close>'s loop over the path is \<open>propagate\<close>; what a level hands to the one above it, a
  separator with a new child or nothing, is a \<open>carry\<close>.
\<close>

section \<open>Comparisons\<close>

type_synonym entry = "val \<times> record_id"

definition kSplitLimit :: nat where
  "kSplitLimit = PAGE_SIZE"

definition kMinRid :: record_id where
  "kMinRid = \<lparr>rpage = - 1, rslot = - 1\<rparr>"

definition ridLess :: "record_id \<Rightarrow> record_id \<Rightarrow> bool" where
  "ridLess a b = (if rpage a \<noteq> rpage b then rpage a < rpage b else rslot a < rslot b)"

definition keyEqual :: "val \<Rightarrow> val \<Rightarrow> bool" where
  "keyEqual a b \<longleftrightarrow> \<not> valueLess a b \<and> \<not> valueLess b a"

definition entryLess :: "val \<Rightarrow> record_id \<Rightarrow> val \<Rightarrow> record_id \<Rightarrow> bool" where
  "entryLess ak ar bk br =
     (if valueLess ak bk then True else if valueLess bk ak then False else ridLess ar br)"

definition insert_at :: "nat \<Rightarrow> 'a \<Rightarrow> 'a list \<Rightarrow> 'a list" where
  "insert_at i x xs = take i xs @ x # drop i xs"

section \<open>The tree\<close>

record dtree =
  dt_pool :: pool
  rootId :: int
  distinctKeys :: u64

definition tree_open :: "pool \<Rightarrow> dtree" where
  "tree_open pl = \<lparr>dt_pool = pl, rootId = - 1, distinctKeys = 0\<rparr>"

definition tree_setBufferPool :: "dtree \<Rightarrow> pool \<Rightarrow> dtree" where
  "tree_setBufferPool t pl = t\<lparr>dt_pool := pl\<rparr>"

text \<open>The index of the child to descend to, and of the first entry not below the new one.\<close>

definition child_index :: "val \<Rightarrow> record_id \<Rightarrow> node_view \<Rightarrow> nat" where
  "child_index key rid view =
     length (takeWhile (\<lambda>(k, r). \<not> entryLess key rid k r) (zip (nv_keys view) (nv_rids view)))"

definition entry_index :: "val \<Rightarrow> record_id \<Rightarrow> node_view \<Rightarrow> nat" where
  "entry_index key rid view =
     length (takeWhile (\<lambda>(k, r). entryLess k r key rid) (zip (nv_keys view) (nv_rids view)))"

partial_function (option) findLeaf ::
  "pool \<Rightarrow> int \<Rightarrow> val \<Rightarrow> record_id \<Rightarrow> int list \<Rightarrow> (pool \<times> int \<times> int list) option" where
  "findLeaf pl cur key rid path =
     obind (readNode pl cur) (\<lambda>(pl, view).
       if nv_leaf view then Some (pl, cur, path)
       else findLeaf pl (nv_children view ! child_index key rid view) key rid (path @ [cur]))"

partial_function (option) firstLeaf :: "pool \<Rightarrow> int \<Rightarrow> (pool \<times> int) option" where
  "firstLeaf pl cur =
     obind (readNode pl cur) (\<lambda>(pl, view).
       if nv_leaf view then Some (pl, cur) else firstLeaf pl (hd (nv_children view)))"

datatype carry = Done | Carry entry int

definition add_entry :: "nat \<Rightarrow> val \<Rightarrow> record_id \<Rightarrow> node_view \<Rightarrow> node_view" where
  "add_entry i key rid view =
     view\<lparr>nv_keys := insert_at i key (nv_keys view), nv_rids := insert_at i rid (nv_rids view)\<rparr>"

text \<open>What \<open>insert\<close> does at the leaf: the pool, whether the key is new to the leaf, and the
  carry of a split.\<close>

definition split_leaf :: "pool \<Rightarrow> int \<Rightarrow> node_view \<Rightarrow> (pool \<times> carry) option" where
  "split_leaf pl leafId leaf =
     (let mid = length (nv_keys leaf) div 2;
          right = \<lparr>nv_leaf = True, nv_next = nv_next leaf, nv_keys = drop mid (nv_keys leaf),
                   nv_rids = drop mid (nv_rids leaf), nv_children = []\<rparr>;
          leaf = leaf\<lparr>nv_keys := take mid (nv_keys leaf), nv_rids := take mid (nv_rids leaf)\<rparr>
      in obind (allocNode pl right) (\<lambda>(pl, rightId).
         obind (writeNode pl leafId (leaf\<lparr>nv_next := rightId\<rparr>)) (\<lambda>pl.
           Some (pl, Carry (hd (nv_keys right), hd (nv_rids right)) rightId))))"

definition insert_leaf :: "pool \<Rightarrow> int \<Rightarrow> val \<Rightarrow> record_id \<Rightarrow> (pool \<times> bool \<times> carry) option" where
  "insert_leaf pl leafId key rid =
     obind (readNode pl leafId) (\<lambda>(pl, leaf).
       let pos = entry_index key rid leaf;
           n = length (nv_keys leaf)
       in if pos < n \<and> keyEqual (nv_keys leaf ! pos) key \<and> nv_rids leaf ! pos = rid
          then Some (pl, False, Done)
          else
            let newKey = (\<not> (pos < n \<and> keyEqual (nv_keys leaf ! pos) key) \<and>
                          \<not> (pos > 0 \<and> keyEqual (nv_keys leaf ! (pos - 1)) key));
                leaf = add_entry pos key rid leaf
            in if node_measure (nv_keys leaf) True \<le> kSplitLimit
               then map_option (\<lambda>pl. (pl, newKey, Done)) (writeNode pl leafId leaf)
               else map_option (\<lambda>(pl, c). (pl, newKey, c)) (split_leaf pl leafId leaf))"

definition split_inner :: "pool \<Rightarrow> int \<Rightarrow> node_view \<Rightarrow> (pool \<times> carry) option" where
  "split_inner pl parentId parent =
     (let pmid = length (nv_keys parent) div 2;
          sepKey = nv_keys parent ! pmid;
          sepRid = nv_rids parent ! pmid;
          pright = \<lparr>nv_leaf = False, nv_next = - 1, nv_keys = drop (pmid + 1) (nv_keys parent),
                    nv_rids = drop (pmid + 1) (nv_rids parent),
                    nv_children = drop (pmid + 1) (nv_children parent)\<rparr>;
          parent = parent\<lparr>nv_keys := take pmid (nv_keys parent), nv_rids := take pmid (nv_rids parent),
                          nv_children := take (pmid + 1) (nv_children parent)\<rparr>
      in obind (allocNode pl pright) (\<lambda>(pl, prightId).
         obind (writeNode pl parentId parent) (\<lambda>pl.
           Some (pl, Carry (sepKey, sepRid) prightId))))"

definition insert_child :: "pool \<Rightarrow> int \<Rightarrow> entry \<Rightarrow> int \<Rightarrow> (pool \<times> carry) option" where
  "insert_child pl parentId up childId =
     obind (readNode pl parentId) (\<lambda>(pl, parent).
       let ip = entry_index (fst up) (snd up) parent;
           parent = (add_entry ip (fst up) (snd up) parent)
             \<lparr>nv_children := insert_at (ip + 1) childId (nv_children parent)\<rparr>
       in if node_measure (nv_keys parent) False \<le> kSplitLimit
          then map_option (\<lambda>pl. (pl, Done)) (writeNode pl parentId parent)
          else split_inner pl parentId parent)"

fun propagate :: "pool \<Rightarrow> int list \<Rightarrow> carry \<Rightarrow> (pool \<times> carry) option" where
  "propagate pl [] c = Some (pl, c)"
| "propagate pl (parentId # path) Done = Some (pl, Done)"
| "propagate pl (parentId # path) (Carry up childId) =
     obind (insert_child pl parentId up childId) (\<lambda>(pl, c). propagate pl path c)"

definition dtree_insert :: "dtree \<Rightarrow> val \<Rightarrow> record_id \<Rightarrow> dtree option" where
  "dtree_insert t key rid =
     (if rootId t = - 1 then
        map_option (\<lambda>(pl, pid). t\<lparr>dt_pool := pl, rootId := pid, distinctKeys := distinctKeys t + 1\<rparr>)
          (allocNode (dt_pool t)
             \<lparr>nv_leaf = True, nv_next = - 1, nv_keys = [key], nv_rids = [rid], nv_children = []\<rparr>)
      else
        obind (findLeaf (dt_pool t) (rootId t) key rid []) (\<lambda>(pl, leafId, path).
        obind (insert_leaf pl leafId key rid) (\<lambda>(pl, newKey, c).
          let t = (if newKey then t\<lparr>distinctKeys := distinctKeys t + 1\<rparr> else t)
          in obind (propagate pl (rev path) c) (\<lambda>(pl, c).
             case c of
               Done \<Rightarrow> Some (t\<lparr>dt_pool := pl\<rparr>)
             | Carry up childId \<Rightarrow>
                 map_option (\<lambda>(pl, pid). t\<lparr>dt_pool := pl, rootId := pid\<rparr>)
                   (allocNode pl \<lparr>nv_leaf = False, nv_next = - 1, nv_keys = [fst up],
                                  nv_rids = [snd up], nv_children = [rootId t, childId]\<rparr>)))))"

text \<open>The loop over one leaf: the identifiers found, and whether the scan has passed \<open>hi\<close>. A
  null bound is \<open>None\<close>.\<close>

fun scan_leaf :: "val option \<Rightarrow> val option \<Rightarrow> entry list \<Rightarrow> record_id list \<times> bool" where
  "scan_leaf lo hi [] = ([], False)"
| "scan_leaf lo hi ((k, r) # es) =
     (if (case lo of Some l \<Rightarrow> valueLess k l | None \<Rightarrow> False) then scan_leaf lo hi es
      else if (case hi of Some h \<Rightarrow> valueLess h k | None \<Rightarrow> False) then ([], True)
      else case scan_leaf lo hi es of (rs, stop) \<Rightarrow> (r # rs, stop))"

partial_function (option) scan_leaves ::
  "pool \<Rightarrow> int \<Rightarrow> val option \<Rightarrow> val option \<Rightarrow> record_id list \<Rightarrow> (pool \<times> record_id list) option" where
  "scan_leaves pl leafId lo hi out =
     (if leafId = - 1 then Some (pl, out)
      else obind (readNode pl leafId) (\<lambda>(pl, leaf).
        case scan_leaf lo hi (zip (nv_keys leaf) (nv_rids leaf)) of
          (rs, stop) \<Rightarrow>
            if stop then Some (pl, out @ rs) else scan_leaves pl (nv_next leaf) lo hi (out @ rs)))"

definition dtree_rangeScan :: "dtree \<Rightarrow> val option \<Rightarrow> val option \<Rightarrow> (dtree \<times> record_id list) option" where
  "dtree_rangeScan t lo hi =
     (if rootId t = - 1 then Some (t, [])
      else
        obind (case lo of
                 Some l \<Rightarrow> map_option (\<lambda>(pl, leafId, path). (pl, leafId))
                             (findLeaf (dt_pool t) (rootId t) l kMinRid [])
               | None \<Rightarrow> firstLeaf (dt_pool t) (rootId t)) (\<lambda>(pl, leafId).
        map_option (\<lambda>(pl, out). (t\<lparr>dt_pool := pl\<rparr>, out)) (scan_leaves pl leafId lo hi [])))"

definition dtree_range :: "dtree \<Rightarrow> val \<Rightarrow> val \<Rightarrow> (dtree \<times> record_id list) option" where
  "dtree_range t lo hi = dtree_rangeScan t (Some lo) (Some hi)"

definition dtree_lookup :: "dtree \<Rightarrow> val \<Rightarrow> (dtree \<times> record_id list) option" where
  "dtree_lookup t key = dtree_rangeScan t (Some key) (Some key)"

definition drop_nth :: "nat \<Rightarrow> 'a list \<Rightarrow> 'a list" where
  "drop_nth i xs = take i xs @ drop (Suc i) xs"

definition dtree_erase :: "dtree \<Rightarrow> val \<Rightarrow> record_id \<Rightarrow> (dtree \<times> bool) option" where
  "dtree_erase t key rid =
     (if rootId t = - 1 then Some (t, False)
      else
        obind (findLeaf (dt_pool t) (rootId t) key rid []) (\<lambda>(pl, leafId, path).
        obind (readNode pl leafId) (\<lambda>(pl, leaf).
          case find (\<lambda>i. keyEqual (nv_keys leaf ! i) key \<and> nv_rids leaf ! i = rid)
                 [0..<length (nv_keys leaf)] of
            None \<Rightarrow> Some (t\<lparr>dt_pool := pl\<rparr>, False)
          | Some i \<Rightarrow>
              let hadPrev = (i > 0 \<and> keyEqual (nv_keys leaf ! (i - 1)) key);
                  hadNext = (i + 1 < length (nv_keys leaf) \<and> keyEqual (nv_keys leaf ! (i + 1)) key);
                  leaf = leaf\<lparr>nv_keys := drop_nth i (nv_keys leaf), nv_rids := drop_nth i (nv_rids leaf)\<rparr>;
                  t = (if \<not> hadPrev \<and> \<not> hadNext \<and> distinctKeys t > 0
                       then t\<lparr>distinctKeys := distinctKeys t - 1\<rparr> else t)
              in map_option (\<lambda>pl. (t\<lparr>dt_pool := pl\<rparr>, True)) (writeNode pl leafId leaf))))"

end
