(* ===== verification/BTree.thy ===== *)
theory BTree
  imports DiskTree "HOL-Library.Product_Lexorder"
begin

text \<open>
  The tree the pages of \<open>DiskTree\<close> stand for, as a value: \<open>btree\<close>. Its in-order listing
  \<open>items\<close> holds the entries of the leaves and, between them, the separators of the inner
  nodes. One strict order on the listing says everything about the order of the tree: a
  separator is above what is left of it and not above what is right of it. Splitting a node
  leaves the listing of an inner node as it is and adds one separator for a leaf, so that the
  correctness of the operations is a matter of lists.
\<close>

section \<open>Ranks\<close>

definition erank :: "entry \<Rightarrow> (nat \<times> int \<times> bytes) \<times> int \<times> int" where
  "erank e = (val_rank (fst e), rpage (snd e), rslot (snd e))"

lemma rank_less_iff: "rank_less a b \<longleftrightarrow> a < b"
  by (cases a; cases b) (auto simp: rank_less_def)

lemma valueLess_iff: "in_class k a \<Longrightarrow> in_class k b \<Longrightarrow> valueLess a b \<longleftrightarrow> val_rank a < val_rank b"
  by (simp add: valueLess_rank rank_less_iff)

lemma keyEqual_iff: "in_class k a \<Longrightarrow> in_class k b \<Longrightarrow> keyEqual a b \<longleftrightarrow> val_rank a = val_rank b"
  by (auto simp: keyEqual_def valueLess_iff [of k])

lemma ridLess_iff: "ridLess a b \<longleftrightarrow> (rpage a, rslot a) < (rpage b, rslot b)"
  by (auto simp: ridLess_def)

lemma entryLess_iff:
  "in_class k a \<Longrightarrow> in_class k b \<Longrightarrow> entryLess a r b s \<longleftrightarrow> erank (a, r) < erank (b, s)"
  by (auto simp: entryLess_def erank_def valueLess_iff [of k] ridLess_iff)

lemma erank_eq_iff:
  "in_class k a \<Longrightarrow> in_class k b \<Longrightarrow> erank (a, r) = erank (b, s) \<longleftrightarrow> keyEqual a b \<and> r = (s :: record_id)"
  by (auto simp: erank_def keyEqual_iff [of k])

text \<open>What the theorems ask of an entry: a key of the index's class whose encoding leaves room
  in a node, and an identifier of a record.\<close>

definition key_ok :: "val_class \<Rightarrow> val \<Rightarrow> bool" where
  "key_ok k v \<longleftrightarrow> in_class k v \<and> length (encodeValue v) \<le> 199"

definition entry_ok :: "val_class \<Rightarrow> entry \<Rightarrow> bool" where
  "entry_ok k e \<longleftrightarrow> key_ok k (fst e) \<and> rid_valid (snd e) \<and> rid_i32 (snd e)"

lemma entry_okD:
  assumes "entry_ok k e"
  shows "in_class k (fst e)" "length (encodeValue (fst e)) \<le> 199" "rid_i32 (snd e)" "rid_valid (snd e)"
  using assms by (auto simp: entry_ok_def key_ok_def)

section \<open>Trees\<close>

datatype btree =
    BLeaf int "entry list"
  | BNode int btree "(entry \<times> btree) list"

lemma btree_kids [case_names BLeaf BNode]:
  assumes "\<And>p es. P (BLeaf p es)"
    and "\<And>p t0 sts. P t0 \<Longrightarrow> (\<And>st. st \<in> set sts \<Longrightarrow> P (snd st)) \<Longrightarrow> P (BNode p t0 sts)"
  shows "P t"
proof (induction t)
  case (BNode p t0 sts)
  have "P (snd st)" if "st \<in> set sts" for st
    using BNode(2) [OF that, of "snd st"] by (cases st) simp
  then show ?case using assms(2) BNode(1) by blast
qed (rule assms(1))

fun bt_pid :: "btree \<Rightarrow> int" where
  "bt_pid (BLeaf p _) = p"
| "bt_pid (BNode p _ _) = p"

text \<open>What a tree and the separated trees after it have in sequence.\<close>

definition forest :: "(btree \<Rightarrow> 'a list) \<Rightarrow> (entry \<Rightarrow> 'a list) \<Rightarrow> btree \<Rightarrow> (entry \<times> btree) list \<Rightarrow> 'a list" where
  "forest g h t0 sts = g t0 @ concat (map (\<lambda>st. h (fst st) @ g (snd st)) sts)"

type_synonym item = "entry \<times> bool"

fun items :: "btree \<Rightarrow> item list" where
  "items (BLeaf p es) = map (\<lambda>e. (e, True)) es"
| "items (BNode p t0 sts) = items t0 @ concat (map (\<lambda>st. (fst st, False) # items (snd st)) sts)"

fun leaves :: "btree \<Rightarrow> (int \<times> entry list) list" where
  "leaves (BLeaf p es) = [(p, es)]"
| "leaves (BNode p t0 sts) = leaves t0 @ concat (map (\<lambda>st. leaves (snd st)) sts)"

fun pids :: "btree \<Rightarrow> int list" where
  "pids (BLeaf p es) = [p]"
| "pids (BNode p t0 sts) = p # pids t0 @ concat (map (\<lambda>st. pids (snd st)) sts)"

abbreviation sep_item :: "entry \<Rightarrow> item list" where
  "sep_item s \<equiv> [(s, False)]"

abbreviation no_sep :: "entry \<Rightarrow> 'a list" where
  "no_sep s \<equiv> []"

lemma forest_node:
  "items (BNode p t0 sts) = forest items sep_item t0 sts"
  "leaves (BNode p t0 sts) = forest leaves no_sep t0 sts"
  "pids (BNode p t0 sts) = p # forest pids no_sep t0 sts"
  by (simp_all add: forest_def)

lemma forest_Nil [simp]: "forest g h t [] = g t"
  by (simp add: forest_def)

lemma forest_one: "forest g h t0 [(s, t)] = g t0 @ h s @ g t"
  by (simp add: forest_def)

lemma forest_split: "forest g h t0 (A @ (s, t) # B) = forest g h t0 A @ h s @ forest g h t B"
  by (simp add: forest_def)

text \<open>The \<open>i\<close>th child, and its replacement by a tree and the separated trees after it.\<close>

definition child :: "nat \<Rightarrow> btree \<Rightarrow> (entry \<times> btree) list \<Rightarrow> btree" where
  "child i t0 sts = (t0 # map snd sts) ! i"

fun plug :: "nat \<Rightarrow> btree \<Rightarrow> (entry \<times> btree) list \<Rightarrow> btree \<Rightarrow> (entry \<times> btree) list \<Rightarrow>
  btree \<times> (entry \<times> btree) list" where
  "plug 0 t1 rest t0 sts = (t1, rest @ sts)"
| "plug (Suc i) t1 rest t0 sts = (t0, take i sts @ (fst (sts ! i), t1) # rest @ drop (Suc i) sts)"

definition before :: "(btree \<Rightarrow> 'a list) \<Rightarrow> (entry \<Rightarrow> 'a list) \<Rightarrow> nat \<Rightarrow> btree \<Rightarrow> (entry \<times> btree) list \<Rightarrow> 'a list" where
  "before g h i t0 sts = (case i of 0 \<Rightarrow> [] | Suc j \<Rightarrow> forest g h t0 (take j sts) @ h (fst (sts ! j)))"

definition after :: "(btree \<Rightarrow> 'a list) \<Rightarrow> (entry \<Rightarrow> 'a list) \<Rightarrow> nat \<Rightarrow> (entry \<times> btree) list \<Rightarrow> 'a list" where
  "after g h i sts = concat (map (\<lambda>st. h (fst st) @ g (snd st)) (drop i sts))"

lemma forest_append: "forest g h t0 (A @ B) = forest g h t0 A @ concat (map (\<lambda>st. h (fst st) @ g (snd st)) B)"
  by (simp add: forest_def)

lemma forest_at:
  assumes "i \<le> length sts"
  shows "forest g h t0 sts = before g h i t0 sts @ g (child i t0 sts) @ after g h i sts"
proof (cases i)
  case 0
  then show ?thesis by (simp add: before_def after_def child_def forest_def)
next
  case (Suc j)
  then have "sts = take j sts @ sts ! j # drop i sts" using assms by (simp add: id_take_nth_drop)
  then have "forest g h t0 sts = forest g h t0 (take j sts @ (fst (sts ! j), snd (sts ! j)) # drop i sts)"
    by simp
  then show ?thesis
    using Suc assms unfolding forest_split
    by (simp add: before_def after_def child_def) (simp add: forest_def)
qed

lemma forest_plug:
  assumes "i \<le> length sts" "plug i t1 rest t0 sts = (u0, us)"
  shows "forest g h u0 us = before g h i t0 sts @ forest g h t1 rest @ after g h i sts"
proof (cases i)
  case 0
  then show ?thesis using assms by (auto simp: before_def after_def forest_append)
next
  case (Suc j)
  then have "u0 = t0" "us = take j sts @ (fst (sts ! j), t1) # rest @ drop i sts" using assms by simp_all
  then show ?thesis using Suc by (simp add: before_def after_def forest_split forest_append) (simp add: forest_def)
qed

lemma plug_seps:
  assumes "i \<le> length sts" "plug i t1 rest t0 sts = (u0, us)"
  shows "map fst us = take i (map fst sts) @ map fst rest @ drop i (map fst sts)"
proof (cases i)
  case 0
  then show ?thesis using assms by auto
next
  case (Suc j)
  then have "us = take j sts @ (fst (sts ! j), t1) # rest @ drop i sts" "j < length sts" using assms by simp_all
  then show ?thesis
    using Suc by (simp add: take_map drop_map take_Suc_conv_app_nth)
qed

lemma plug_children:
  assumes "i \<le> length sts" "plug i t1 rest t0 sts = (u0, us)"
  shows "u0 # map snd us = take i (t0 # map snd sts) @ t1 # map snd rest @ drop (Suc i) (t0 # map snd sts)"
proof (cases i)
  case 0
  then show ?thesis using assms by auto
next
  case (Suc j)
  then have "u0 = t0" "us = take j sts @ (fst (sts ! j), t1) # rest @ drop i sts" "j < length sts"
    using assms by simp_all
  then show ?thesis using Suc by (simp add: take_map drop_map)
qed

lemma child_in: "i \<le> length sts \<Longrightarrow> child i t0 sts \<in> set (t0 # map snd sts)"
  unfolding child_def by (rule nth_mem) simp

section \<open>Order\<close>

abbreviation xr :: "item \<Rightarrow> ((nat \<times> int \<times> bytes) \<times> int \<times> int) \<times> bool" where
  "xr it \<equiv> (erank (fst it), snd it)"

definition below :: "item list \<Rightarrow> entry \<Rightarrow> bool" where
  "below its e \<longleftrightarrow> (\<forall>it\<in>set its. xr it < (erank e, True))"

definition above :: "item list \<Rightarrow> entry \<Rightarrow> bool" where
  "above its e \<longleftrightarrow> (\<forall>it\<in>set its. (erank e, True) < xr it)"

definition ordered :: "item list \<Rightarrow> bool" where
  "ordered its \<longleftrightarrow> sorted_wrt (<) (map xr its)"

lemma ordered_simps [simp]:
  "ordered []" "ordered (x # xs) \<longleftrightarrow> (\<forall>y\<in>set xs. xr x < xr y) \<and> ordered xs"
  by (auto simp: ordered_def)

lemma ordered_append:
  "ordered (xs @ ys) \<longleftrightarrow> ordered xs \<and> ordered ys \<and> (\<forall>x\<in>set xs. \<forall>y\<in>set ys. xr x < xr y)"
  by (auto simp: ordered_def sorted_wrt_append)

lemma below_simps [simp]:
  "below [] e" "below (x # xs) e \<longleftrightarrow> xr x < (erank e, True) \<and> below xs e"
  "below (xs @ ys) e \<longleftrightarrow> below xs e \<and> below ys e"
  by (auto simp: below_def)

lemma above_simps [simp]:
  "above [] e" "above (x # xs) e \<longleftrightarrow> (erank e, True) < xr x \<and> above xs e"
  "above (xs @ ys) e \<longleftrightarrow> above xs e \<and> above ys e"
  by (auto simp: above_def)

text \<open>Inserting an entry into a listing: nothing when its rank is there.\<close>

fun ins :: "entry \<Rightarrow> item list \<Rightarrow> item list" where
  "ins e [] = [(e, True)]"
| "ins e (it # its) =
     (if xr it < (erank e, True) then it # ins e its
      else if xr it = (erank e, True) then it # its
      else (e, True) # it # its)"

lemma ins_below: "below A e \<Longrightarrow> ins e (A @ M) = A @ ins e M"
  by (induction A) auto

lemma ins_above: "above B e \<Longrightarrow> ins e (M @ B) = ins e M @ B"
  by (induction M; cases B) auto

lemma ins_mid: "below A e \<Longrightarrow> above B e \<Longrightarrow> ins e (A @ M @ B) = A @ ins e M @ B"
  by (simp add: ins_below ins_above)

lemma set_ins: "set (ins e its) \<subseteq> insert (e, True) (set its)"
  by (induction its) auto

lemma ordered_ins: "ordered its \<Longrightarrow> ordered (ins e its)"
proof (induction its)
  case (Cons it its)
  have step: "xr it < xr y" if "xr it < (erank e, True)" "y \<in> set (ins e its)" for y
    using that Cons.prems set_ins [of e its] by auto
  show ?case using Cons step
    by (auto simp: not_less_iff_gr_or_eq intro: less_trans)
qed simp

text \<open>The routing of a descent: what is left of the chosen child is below the entry, what is
  right of it is above.\<close>

definition route :: "entry \<Rightarrow> entry list \<Rightarrow> nat" where
  "route e ss = length (takeWhile (\<lambda>s. \<not> erank e < erank s) ss)"

lemma route_le: "route e ss \<le> length ss"
  by (simp add: route_def length_takeWhile_le)

lemma head_above:
  assumes "ordered (it # its)" "(erank e, True) < xr it"
  shows "above (it # its) e"
  using assms by (auto simp: above_def intro: less_trans)

lemma last_below:
  assumes "ordered (its @ [it])" "xr it < (erank e, True)"
  shows "below (its @ [it]) e"
  using assms by (auto simp: below_def ordered_append intro: less_trans)

lemma route_spec:
  assumes ord: "ordered (forest items sep_item t0 sts)" and i: "i = route e (map fst sts)"
  shows "below (before items sep_item i t0 sts) e" "above (after items sep_item i sts) e"
proof -
  have le: "i \<le> length sts" using route_le [of e "map fst sts"] i by simp
  have ord': "ordered (before items sep_item i t0 sts)" "ordered (after items sep_item i sts)"
    using ord by (simp_all add: forest_at [OF le] ordered_append)
  show "below (before items sep_item i t0 sts) e"
  proof (cases i)
    case 0
    then show ?thesis by (simp add: before_def)
  next
    case (Suc j)
    have "j < length (takeWhile (\<lambda>s. \<not> erank e < erank s) (map fst sts))" using Suc i by (simp add: route_def)
    then have "\<not> erank e < erank (fst (sts ! j))"
      using Suc le nth_mem [of j "takeWhile (\<lambda>s. \<not> erank e < erank s) (map fst sts)"]
      by (auto simp: takeWhile_nth dest!: set_takeWhileD)
    then have "xr (fst (sts ! j), False) < (erank e, True)" by (auto simp: not_less le_less)
    moreover have "before items sep_item i t0 sts = forest items sep_item t0 (take j sts) @ [(fst (sts ! j), False)]"
      using Suc by (simp add: before_def)
    ultimately show ?thesis using last_below ord'(1) by metis
  qed
  show "above (after items sep_item i sts) e"
  proof (cases "drop i sts")
    case Nil
    then show ?thesis by (simp add: after_def)
  next
    case (Cons st B)
    then have lt: "i < length sts" and st: "sts ! i = st"
      by (metis drop_eq_Nil leI list.simps(3), metis Cons nth_via_drop)
    have "erank e < erank (fst st)"
      using nth_length_takeWhile [of "\<lambda>s. \<not> erank e < erank s" "map fst sts"] lt i st
      by (simp add: route_def)
    then have "(erank e, True) < xr (fst st, False)" by simp
    moreover obtain R where "after items sep_item i sts = (fst st, False) # R"
      using Cons by (cases st) (simp add: after_def)
    ultimately show ?thesis using head_above ord'(2) by metis
  qed
qed

section \<open>The entries of a tree\<close>

definition entries :: "btree \<Rightarrow> entry list" where
  "entries t = concat (map snd (leaves t))"

definition leaf_entries :: "item list \<Rightarrow> entry list" where
  "leaf_entries its = map fst (filter snd its)"

lemma leaf_entries_simps [simp]:
  "leaf_entries [] = []" "leaf_entries ((e, True) # its) = e # leaf_entries its"
  "leaf_entries ((e, False) # its) = leaf_entries its"
  "leaf_entries (xs @ ys) = leaf_entries xs @ leaf_entries ys"
  "leaf_entries (map (\<lambda>e. (e, True)) es) = es"
  by (simp_all add: leaf_entries_def filter_map comp_def)

lemma leaf_entries_concat: "leaf_entries (concat xss) = concat (map leaf_entries xss)"
  by (induction xss) simp_all

lemma entries_node: "entries (BNode p t0 sts) = entries t0 @ concat (map (\<lambda>st. entries (snd st)) sts)"
  by (induction sts) (auto simp: entries_def)

lemma entries_items: "entries t = leaf_entries (items t)"
proof (induction t rule: btree_kids)
  case (BNode p t0 sts)
  have "concat (map (\<lambda>st. entries (snd st)) sts) =
    leaf_entries (concat (map (\<lambda>st. (fst st, False) # items (snd st)) sts))"
    using BNode(2)
  proof (induction sts)
    case (Cons st sts)
    have "concat (map (\<lambda>st. entries (snd st)) sts) =
      leaf_entries (concat (map (\<lambda>st. (fst st, False) # items (snd st)) sts))"
      by (rule Cons.IH) (use Cons.prems in auto)
    then show ?case using Cons.prems [of st] by simp
  qed simp
  then show ?case using BNode(1) by (simp add: entries_node)
qed (simp add: entries_def)

end
