(* ===== verification/TreeProof.thy ===== *)
theory TreeProof
  imports BTree
begin

text \<open>
  The pages of the tree against the trees of \<open>BTree\<close>. \<open>holds\<close> says that the nodes of a store
  spell a tree, \<open>linked\<close> that its leaves are chained. An insertion is followed up the tree by
  induction: \<open>grown\<close> is what it has done to a subtree when it hands a carry to the level above.
\<close>

section \<open>Nodes that fit\<close>

definition leaf_view :: "int \<Rightarrow> entry list \<Rightarrow> node_view" where
  "leaf_view nx es =
     \<lparr>nv_leaf = True, nv_next = nx, nv_keys = map fst es, nv_rids = map snd es, nv_children = []\<rparr>"

definition inner_view :: "entry list \<Rightarrow> int list \<Rightarrow> node_view" where
  "inner_view ss cs =
     \<lparr>nv_leaf = False, nv_next = - 1, nv_keys = map fst ss, nv_rids = map snd ss, nv_children = cs\<rparr>"

lemma view_simps [simp]:
  "nv_leaf (leaf_view nx es)" "nv_next (leaf_view nx es) = nx" "nv_keys (leaf_view nx es) = map fst es"
  "nv_rids (leaf_view nx es) = map snd es" "nv_children (leaf_view nx es) = []"
  "\<not> nv_leaf (inner_view ss cs)" "nv_next (inner_view ss cs) = - 1"
  "nv_keys (inner_view ss cs) = map fst ss" "nv_rids (inner_view ss cs) = map snd ss"
  "nv_children (inner_view ss cs) = cs"
  by (simp_all add: leaf_view_def inner_view_def)

lemma zip_views [simp]: "zip (map fst es) (map snd es) = es"
  by (rule zip_map_fst_snd)

lemma leaf_fits:
  "node_fits (leaf_view nx es) \<longleftrightarrow>
     in_i32 nx \<and> (\<forall>e\<in>set es. rid_i32 (snd e)) \<and> node_measure (map fst es) True \<le> PAGE_SIZE"
  by (auto simp: node_fits_def node_shape_def)

lemma inner_fits:
  "node_fits (inner_view ss cs) \<longleftrightarrow>
     length cs = Suc (length ss) \<and> (\<forall>s\<in>set ss. rid_i32 (snd s)) \<and> (\<forall>c\<in>set cs. in_i32 c) \<and>
     node_measure (map fst ss) False \<le> PAGE_SIZE"
  by (auto simp: node_fits_def node_shape_def in_i32_def)

text \<open>
  Splitting by count also halves the bytes well enough: when every entry takes between \<open>a\<close> and
  \<open>E\<close> bytes and one entry too many has been added, both halves are back under the limit.
\<close>

lemma part_sum:
  fixes xs ys :: "nat list"
  assumes "\<forall>w\<in>set (xs @ ys). a \<le> w \<and> w \<le> E" "sum_list (xs @ ys) \<le> L + E" "0 < E"
    and "E \<le> L div E * a" "length xs \<le> Suc (length ys)"
  shows "sum_list xs \<le> L"
proof (cases "length xs \<le> L div E")
  case True
  have "sum_list xs \<le> length xs * E"
    using assms(1) by (induction xs) auto
  also have "\<dots> \<le> L div E * E" using True by (rule mult_le_mono1)
  also have "\<dots> \<le> L" by (metis div_times_less_eq_dividend)
  finally show ?thesis .
next
  case False
  then have "L div E \<le> length ys" using assms(5) by linarith
  moreover have "length ys * a \<le> sum_list ys"
    using assms(1) by (induction ys) auto
  ultimately have "E \<le> sum_list ys" using assms(4) by (meson le_trans mult_le_mono1)
  then show ?thesis using assms(2) by simp
qed

lemma half_sum:
  fixes ws :: "nat list"
  assumes "\<forall>w\<in>set ws. a \<le> w \<and> w \<le> E" "sum_list ws \<le> L + E" "0 < E" "E \<le> L div E * a"
  shows "sum_list (take (length ws div 2) ws) \<le> L" "sum_list (drop (length ws div 2) ws) \<le> L"
proof -
  define m where "m = length ws div 2"
  have s: "sum_list (take m ws @ drop m ws) \<le> L + E" using assms(2) by simp
  then have s': "sum_list (drop m ws @ take m ws) \<le> L + E"
    by (simp only: sum_list_append add.commute)
  have set: "\<forall>w\<in>set (take m ws @ drop m ws). a \<le> w \<and> w \<le> E" using assms(1) by simp
  then have set': "\<forall>w\<in>set (drop m ws @ take m ws). a \<le> w \<and> w \<le> E" by (auto simp del: append_take_drop_id)
  show "sum_list (take (length ws div 2) ws) \<le> L"
    using part_sum [OF set s assms(3,4)] by (simp add: m_def)
  show "sum_list (drop (length ws div 2) ws) \<le> L"
    using part_sum [OF set' s' assms(3,4)] by (simp add: m_def)
qed

lemma measure_leaf: "node_measure ks True = 8 + sum_list (map (\<lambda>k. 10 + length (encodeValue k)) ks)"
  by (simp add: node_measure_def)

lemma measure_inner: "node_measure ks False = 12 + sum_list (map (\<lambda>k. 14 + length (encodeValue k)) ks)"
  by (induction ks) (simp_all add: node_measure_def)

lemma encode_pos: "0 < length (encodeValue v)"
  by (simp add: encodeValue_def)

lemma insert_at_parts: "insert_at i x xs = take i xs @ x # drop i xs"
  by (simp add: insert_at_def)

lemma sum_insert_at: "sum_list (map f (insert_at i x xs)) = f x + sum_list (map f xs :: nat list)"
proof -
  have "sum_list (map f xs) = sum_list (map f (take i xs @ drop i xs))" by simp
  then show ?thesis by (simp add: insert_at_def del: append_take_drop_id)
qed

lemma leaf_halves:
  assumes "node_measure ks True \<le> PAGE_SIZE" "\<forall>k\<in>set (x # ks). length (encodeValue k) \<le> 199"
    and ks': "ks' = insert_at i x ks"
  shows "node_measure (take (length ks' div 2) ks') True \<le> PAGE_SIZE"
    "node_measure (drop (length ks' div 2) ks') True \<le> PAGE_SIZE"
proof -
  define f where "f = (\<lambda>k. 10 + length (encodeValue k))"
  have lo: "11 \<le> f k" for k using encode_pos [of k] unfolding f_def by linarith
  have hi: "f k \<le> 209" if "k \<in> set (x # ks)" for k using assms(2) that by (auto simp: f_def)
  have "set ks' \<subseteq> set (x # ks)" using ks' by (auto simp: insert_at_def dest: in_set_takeD in_set_dropD)
  then have b: "\<forall>w\<in>set (map f ks'). 11 \<le> w \<and> w \<le> 209" using lo hi by auto
  have "sum_list (map f ks') = f x + sum_list (map f ks)" using ks' by (simp add: sum_insert_at)
  moreover have "sum_list (map f ks) \<le> 4088" using assms(1) unfolding measure_leaf f_def PAGE_SIZE_def by simp
  ultimately have s: "sum_list (map f ks') \<le> 4088 + 209" using hi [of x] by simp
  show "node_measure (take (length ks' div 2) ks') True \<le> PAGE_SIZE"
    "node_measure (drop (length ks' div 2) ks') True \<le> PAGE_SIZE"
    using half_sum [OF b s] by (simp_all add: measure_leaf f_def [symmetric] PAGE_SIZE_def take_map drop_map)
qed

lemma inner_halves:
  assumes "node_measure ks False \<le> PAGE_SIZE" "\<forall>k\<in>set (x # ks). length (encodeValue k) \<le> 199"
    and ks': "ks' = insert_at i x ks"
  shows "node_measure (take (length ks' div 2) ks') False \<le> PAGE_SIZE"
    "node_measure (drop (length ks' div 2 + 1) ks') False \<le> PAGE_SIZE"
proof -
  define f where "f = (\<lambda>k. 14 + length (encodeValue k))"
  have lo: "15 \<le> f k" for k using encode_pos [of k] unfolding f_def by linarith
  have hi: "f k \<le> 213" if "k \<in> set (x # ks)" for k using assms(2) that by (auto simp: f_def)
  have "set ks' \<subseteq> set (x # ks)" using ks' by (auto simp: insert_at_def dest: in_set_takeD in_set_dropD)
  then have b: "\<forall>w\<in>set (map f ks'). 15 \<le> w \<and> w \<le> 213" using lo hi by auto
  have "sum_list (map f ks') = f x + sum_list (map f ks)" using ks' by (simp add: sum_insert_at)
  moreover have "sum_list (map f ks) \<le> 4084" using assms(1) unfolding measure_inner f_def PAGE_SIZE_def by simp
  ultimately have s: "sum_list (map f ks') \<le> 4084 + 213" using hi [of x] by simp
  note h = half_sum [OF b s]
  show "node_measure (take (length ks' div 2) ks') False \<le> PAGE_SIZE"
    using h by (simp add: measure_inner f_def [symmetric] PAGE_SIZE_def take_map)
  define m where "m = length ks' div 2"
  have "sum_list (map f (drop (m + 1) ks')) \<le> sum_list (map f (drop m ks'))"
    by (cases "drop m ks'") (simp_all add: drop_Suc tl_drop [symmetric])
  then show "node_measure (drop (length ks' div 2 + 1) ks') False \<le> PAGE_SIZE"
    using h by (simp add: measure_inner f_def [symmetric] PAGE_SIZE_def drop_map m_def)
qed

section \<open>Trees in a store\<close>

fun holds :: "(int \<Rightarrow> node_view option) \<Rightarrow> btree \<Rightarrow> bool" where
  "holds N (BLeaf p es) \<longleftrightarrow> (\<exists>nx. N p = Some (leaf_view nx es) \<and> node_fits (leaf_view nx es))"
| "holds N (BNode p t0 sts) \<longleftrightarrow>
     N p = Some (inner_view (map fst sts) (map bt_pid (t0 # map snd sts))) \<and>
     node_fits (inner_view (map fst sts) (map bt_pid (t0 # map snd sts))) \<and>
     holds N t0 \<and> (\<forall>st\<in>set sts. holds N (snd st))"

fun linked :: "(int \<Rightarrow> node_view option) \<Rightarrow> int list \<Rightarrow> int \<Rightarrow> bool" where
  "linked N [] nx \<longleftrightarrow> True"
| "linked N (p # ps) nx \<longleftrightarrow> (\<exists>v. N p = Some v \<and> nv_next v = hd (ps @ [nx])) \<and> linked N ps nx"

lemma linked_append: "linked N (xs @ ys) nx \<longleftrightarrow> linked N xs (hd (ys @ [nx])) \<and> linked N ys nx"
proof (induction xs)
  case (Cons x xs)
  have "hd ((xs @ ys) @ [nx]) = hd (xs @ [hd (ys @ [nx])])" by (cases xs) auto
  then show ?case using Cons by auto
qed simp

lemma linked_cong: "(\<And>p. p \<in> set ps \<Longrightarrow> N' p = N p) \<Longrightarrow> linked N' ps nx = linked N ps nx"
  by (induction ps) auto

lemma holds_cong:
  "(\<And>p. p \<in> set (pids t) \<Longrightarrow> N' p = N p) \<Longrightarrow> holds N' t = holds N t"
proof (induction t rule: btree_kids)
  case (BNode p t0 sts)
  have k: "holds N' (snd st) = holds N (snd st)" if "st \<in> set sts" for st
    by (rule BNode(2) [OF that]) (use BNode(3) that in auto)
  have "holds N' t0 = holds N t0" using BNode(1,3) by simp
  moreover have "N' p = N p" using BNode(3) by simp
  moreover have "(\<forall>st\<in>set sts. holds N' (snd st)) \<longleftrightarrow> (\<forall>st\<in>set sts. holds N (snd st))"
    using k by blast
  ultimately show ?case by simp
qed simp

lemma bt_pid_in: "bt_pid t \<in> set (pids t)"
  by (cases t) auto

lemma leaves_nonempty: "leaves t \<noteq> []"
  by (induction t rule: btree_kids) auto

lemma leaf_in: "(q, es) \<in> set (leaves t) \<Longrightarrow> q \<in> set (pids t)"
proof (induction t rule: btree_kids)
  case (BNode p t0 sts)
  then show ?case by auto
qed simp

definition leaf_ids :: "btree \<Rightarrow> int list" where
  "leaf_ids t = map fst (leaves t)"

lemma forest_map: "map f (forest g h t0 sts) = forest (\<lambda>t. map f (g t)) (\<lambda>s. map f (h s)) t0 sts"
  by (simp add: forest_def map_concat comp_def case_prod_unfold)

lemma forest_leaf_ids: "map fst (forest leaves no_sep t0 sts) = forest leaf_ids no_sep t0 sts"
  by (simp add: forest_map leaf_ids_def [abs_def])

lemma forest_subset:
  assumes "\<And>t. set (g t) \<subseteq> set (g' t)"
  shows "set (forest g no_sep t0 sts) \<subseteq> set (forest g' no_sep t0 sts)"
  using assms by (fastforce simp: forest_def)

lemma leaf_ids_pids: "set (leaf_ids t) \<subseteq> set (pids t)"
  using leaf_in by (auto simp: leaf_ids_def)

section \<open>Reading\<close>

definition same :: "pool \<Rightarrow> pool \<Rightarrow> bool" where
  "same pl pl' \<longleftrightarrow> pool_inv pl' \<and> pool_content pl' = pool_content pl \<and> pool_pages pl' = pool_pages pl"

lemma same_trans: "same a b \<Longrightarrow> same b c \<Longrightarrow> same a c"
  by (simp add: same_def)

lemma same_refl: "pool_inv pl \<Longrightarrow> same pl pl"
  by (simp add: same_def)

lemma same_nodes: "same pl pl' \<Longrightarrow> pool_nodes pl' = pool_nodes pl"
  by (rule ext) (simp add: same_def pool_nodes_def)

lemma read_same:
  assumes "same pl pl0" "0 \<le> pid" "pid < pool_pages pl" "pool_nodes pl pid = Some v"
  obtains pl1 where "readNode pl0 pid = Some (pl1, v)" "same pl pl1"
proof (rule readNode_spec)
  show "pool_inv pl0" "0 \<le> pid" "pid < pool_pages pl0" using assms by (auto simp: same_def)
  show "pool_nodes pl0 pid = Some v" using assms same_nodes by metis
next
  fix pl1
  assume "readNode pl0 pid = Some (pl1, v)" "pool_inv pl1" "pool_content pl1 = pool_content pl0"
    "pool_pages pl1 = pool_pages pl0"
  then show thesis using that assms(1) by (simp add: same_def)
qed

text \<open>What is known of a tree in a pool.\<close>

definition tree_in :: "val_class \<Rightarrow> pool \<Rightarrow> btree \<Rightarrow> bool" where
  "tree_in k pl t \<longleftrightarrow> holds (pool_nodes pl) t \<and> ordered (items t) \<and>
     (\<forall>it\<in>set (items t). entry_ok k (fst it)) \<and> distinct (pids t) \<and>
     (\<forall>p\<in>set (pids t). 0 \<le> p \<and> p < pool_pages pl)"

lemma tree_in_same: "same pl pl' \<Longrightarrow> tree_in k pl' t = tree_in k pl t"
  by (simp add: tree_in_def same_nodes) (simp add: same_def)

lemma holds_child: "holds N (BNode p t0 sts) \<Longrightarrow> i \<le> length sts \<Longrightarrow> holds N (child i t0 sts)"
  using child_in [of i sts t0] by auto

lemma tree_in_child:
  assumes "tree_in k pl (BNode p t0 sts)" "i \<le> length sts"
  shows "tree_in k pl (child i t0 sts)"
proof -
  have h: "holds (pool_nodes pl) (child i t0 sts)" using assms by (auto simp: tree_in_def intro: holds_child)
  have it: "items (BNode p t0 sts) = before items sep_item i t0 sts @ items (child i t0 sts) @ after items sep_item i sts"
    unfolding forest_node by (rule forest_at [OF assms(2)])
  have pi: "pids (BNode p t0 sts) = p # before pids no_sep i t0 sts @ pids (child i t0 sts) @ after pids no_sep i sts"
    unfolding forest_node by (simp only: forest_at [OF assms(2)])
  show ?thesis
    using assms(1) h unfolding tree_in_def it pi by (simp add: ordered_append)
qed

lemma node_seps:
  assumes "tree_in k pl (BNode p t0 sts)" "s \<in> set (map fst sts)"
  shows "entry_ok k s"
proof -
  obtain st where "st \<in> set sts" "s = fst st" using assms(2) by auto
  then have "(s, False) \<in> set (items (BNode p t0 sts))" by auto
  then show ?thesis using assms(1) unfolding tree_in_def by (metis fst_conv)
qed

lemma child_index_route:
  assumes "\<forall>s\<in>set ss. in_class k (fst s)" "in_class k (fst e)"
  shows "child_index (fst e) (snd e) (inner_view ss cs) = route e ss"
proof -
  have "takeWhile (\<lambda>(ka, r). \<not> entryLess (fst e) (snd e) ka r) ss = takeWhile (\<lambda>s. \<not> erank e < erank s) ss"
    using assms by (intro takeWhile_cong refl) (auto simp: entryLess_iff [of k])
  then show ?thesis by (simp add: child_index_def route_def)
qed

lemma findLeaf_leaf:
  assumes "tree_in k pl (BLeaf p es)" "same pl pl0"
  obtains pl1 where "findLeaf pl0 p key rid P = Some (pl1, p, P)" "same pl pl1"
proof -
  obtain nx where "pool_nodes pl p = Some (leaf_view nx es)" "0 \<le> p" "p < pool_pages pl"
    using assms(1) by (auto simp: tree_in_def)
  then obtain pl1 where "readNode pl0 p = Some (pl1, leaf_view nx es)" "same pl pl1"
    using read_same [OF assms(2)] by metis
  then show ?thesis using that by (subst (asm) findLeaf.simps) simp
qed

lemma findLeaf_node:
  assumes t: "tree_in k pl (BNode p t0 sts)" and "same pl pl0" "in_class k (fst e)"
    and i: "i = route e (map fst sts)"
  obtains pl1 where "findLeaf pl0 p (fst e) (snd e) P = findLeaf pl1 (bt_pid (child i t0 sts)) (fst e) (snd e) (P @ [p])"
    "same pl pl1"
proof -
  define v where "v = inner_view (map fst sts) (map bt_pid (t0 # map snd sts))"
  have "pool_nodes pl p = Some v" "0 \<le> p" "p < pool_pages pl" using t by (auto simp: tree_in_def v_def)
  then obtain pl1 where r: "readNode pl0 p = Some (pl1, v)" "same pl pl1"
    using read_same [OF assms(2)] by metis
  have "\<forall>s\<in>set (map fst sts). in_class k (fst s)" using node_seps [OF t] entry_okD(1) by blast
  then have "child_index (fst e) (snd e) v = i"
    unfolding v_def i using assms(3) by (rule child_index_route)
  moreover have "nv_children v ! i = bt_pid (child i t0 sts)"
    using route_le [of e "map fst sts"] i by (simp add: v_def child_def nth_append nth_Cons' )
  ultimately have "findLeaf pl0 p (fst e) (snd e) P =
    findLeaf pl1 (bt_pid (child i t0 sts)) (fst e) (snd e) (P @ [p])"
    using r(1) by (subst findLeaf.simps) (simp add: v_def)
  then show ?thesis using that r(2) by blast
qed

section \<open>What an insertion does to a subtree\<close>

fun carry_of :: "(entry \<times> btree) list \<Rightarrow> carry" where
  "carry_of [] = Done"
| "carry_of ((up, t) # _) = Carry up (bt_pid t)"

definition grown :: "pool \<Rightarrow> pool \<Rightarrow> btree \<Rightarrow> btree \<Rightarrow> (entry \<times> btree) list \<Rightarrow> bool" where
  "grown pl pl' t t1 rest \<longleftrightarrow> pool_inv pl' \<and> pool_pages pl \<le> pool_pages pl' \<and>
     pool_pages pl' \<le> pool_pages pl + int (length (pids t)) \<and>
     (\<forall>q. q < pool_pages pl \<and> q \<notin> set (pids t) \<longrightarrow> pool_content pl' q = pool_content pl q) \<and>
     bt_pid t1 = bt_pid t \<and> holds (pool_nodes pl') t1 \<and> (\<forall>st\<in>set rest. holds (pool_nodes pl') (snd st)) \<and>
     distinct (forest pids no_sep t1 rest) \<and>
     set (forest pids no_sep t1 rest) \<subseteq> set (pids t) \<union> {pool_pages pl..<pool_pages pl'} \<and>
     length rest \<le> 1 \<and> hd (forest leaf_ids no_sep t1 rest) = hd (leaf_ids t) \<and>
     (\<forall>nx. linked (pool_nodes pl) (leaf_ids t) nx \<longrightarrow>
        linked (pool_nodes pl') (forest leaf_ids no_sep t1 rest) nx)"

lemma grown_same: "same pl pl1 \<Longrightarrow> grown pl1 pl' t t1 rest = grown pl pl' t t1 rest"
  by (simp add: grown_def same_nodes) (simp add: same_def)

text \<open>A listing with a separator put in front of an entry that has one before it.\<close>

definition sep_added :: "item list \<Rightarrow> item list \<Rightarrow> bool" where
  "sep_added M M' \<longleftrightarrow> M' = M \<or>
     (\<exists>A a s B. M = A @ (a, True) # (s, True) # B \<and> M' = A @ (a, True) # (s, False) # (s, True) # B)"

lemma sep_added_refl: "sep_added M M"
  by (simp add: sep_added_def)

lemma sep_added_context: "sep_added M M' \<Longrightarrow> sep_added (X @ M @ Y) (X @ M' @ Y)"
  unfolding sep_added_def by (metis append.assoc append_Cons)

lemma sep_added_ordered:
  assumes "sep_added M M'" "ordered M"
  shows "ordered M'"
proof -
  consider "M' = M" | A a s B where "M = A @ (a, True) # (s, True) # B"
      "M' = A @ (a, True) # (s, False) # (s, True) # B"
    using assms(1) by (auto simp: sep_added_def)
  then show ?thesis
  proof cases
    case 2
    have lt: "erank a < erank s" using assms(2) by (simp add: 2 ordered_append)
    have "xr x < (erank s, False)" if "x \<in> set A" for x
    proof -
      have "xr x < (erank a, True)" using assms(2) that by (auto simp: 2 ordered_append)
      also have "(erank a, True) < (erank s, False)" using lt by simp
      finally show ?thesis .
    qed
    moreover have "(erank s, False) < xr y" if "y \<in> set B" for y
    proof -
      have "(erank s, False) < (erank s, True)" by simp
      also have "\<dots> < xr y" using assms(2) that by (auto simp: 2 ordered_append)
      finally show ?thesis .
    qed
    ultimately show ?thesis using assms(2) lt by (auto simp: 2 ordered_append)
  qed (use assms in simp)
qed

lemma sep_added_entries: "sep_added M M' \<Longrightarrow> leaf_entries M' = leaf_entries M"
  by (auto simp: sep_added_def)

lemma sep_added_keys: "sep_added M M' \<Longrightarrow> fst ` set M' = fst ` set M"
  unfolding sep_added_def by (elim disjE exE conjE) simp_all

section \<open>The leaf\<close>

lemma map_insert_at: "map f (insert_at i x xs) = insert_at i (f x) (map f xs)"
  by (simp add: insert_at_def take_map drop_map)

lemma set_insert_at: "set (insert_at i x xs) = insert x (set xs)"
proof -
  have "set xs = set (take i xs @ drop i xs)" by simp
  then show ?thesis by (auto simp: insert_at_def simp del: append_take_drop_id)
qed

lemma add_entry_leaf: "add_entry i (fst e) (snd e) (leaf_view nx es) = leaf_view nx (insert_at i e es)"
  by (simp add: add_entry_def leaf_view_def map_insert_at)

definition position :: "entry \<Rightarrow> entry list \<Rightarrow> nat" where
  "position e es = length (takeWhile (\<lambda>x. erank x < erank e) es)"

lemma position_le: "position e es \<le> length es"
  by (simp add: position_def length_takeWhile_le)

lemma entry_index_position:
  assumes "\<forall>x\<in>set es. in_class k (fst x)" "in_class k (fst e)"
    and "zip (nv_keys v) (nv_rids v) = es"
  shows "entry_index (fst e) (snd e) v = position e es"
proof -
  have "takeWhile (\<lambda>(ka, r). entryLess ka r (fst e) (snd e)) es = takeWhile (\<lambda>x. erank x < erank e) es"
    using assms by (intro takeWhile_cong refl) (auto simp: entryLess_iff [of k])
  then show ?thesis by (simp add: entry_index_def position_def assms(3))
qed

lemma ins_entries:
  "ins e (map (\<lambda>x. (x, True)) es) =
     (if position e es < length es \<and> erank (es ! position e es) = erank e then map (\<lambda>x. (x, True)) es
      else map (\<lambda>x. (x, True)) (insert_at (position e es) e es))"
proof (induction es)
  case Nil
  then show ?case by (simp add: position_def insert_at_def)
next
  case (Cons x es)
  show ?case
  proof (cases "erank x < erank e")
    case True
    then have "position e (x # es) = Suc (position e es)" by (simp add: position_def)
    then show ?thesis using True Cons by (simp add: insert_at_def)
  next
    case False
    then have "position e (x # es) = 0" by (simp add: position_def)
    then show ?thesis using False by (auto simp: insert_at_def)
  qed
qed

lemma present_iff:
  assumes "\<forall>x\<in>set es. in_class k (fst x)" "in_class k (fst e)" "i < length es"
  shows "keyEqual (map fst es ! i) (fst e) \<and> map snd es ! i = snd e \<longleftrightarrow> erank (es ! i) = erank e"
proof -
  have "in_class k (fst (es ! i))" using assms by simp
  then show ?thesis
    using erank_eq_iff [of k "fst (es ! i)" "fst e" "snd (es ! i)" "snd e"] assms by simp
qed

text \<open>The entries of a leaf that has to split: there are at least two.\<close>

lemma split_length:
  assumes "\<not> node_measure (map fst es) True \<le> kSplitLimit"
    and "\<forall>x\<in>set es. length (encodeValue (fst x)) \<le> 199"
  shows "2 \<le> length es"
proof (rule ccontr)
  assume "\<not> 2 \<le> length es"
  then consider "es = []" | x where "es = [x]"
    by (metis One_nat_def Suc_1 length_0_conv length_Suc_conv less_2_cases not_le)
  then show False
    using assms by cases (simp_all add: measure_leaf kSplitLimit_def PAGE_SIZE_def)
qed

lemma linked_one: "linked N [p] nx \<longleftrightarrow> (\<exists>v. N p = Some v \<and> nv_next v = nx)"
  by simp

lemma insert_leaf_spec:
  assumes t: "tree_in k pl (BLeaf p es)" and pl1: "same pl pl1" and e: "entry_ok k e"
    and room: "pool_pages pl < 2 ^ 31"
  obtains pl2 new t1 rest where "insert_leaf pl1 p (fst e) (snd e) = Some (pl2, new, carry_of rest)"
    "grown pl pl2 (BLeaf p es) t1 rest"
    "sep_added (ins e (items (BLeaf p es))) (forest items sep_item t1 rest)"
proof -
  define i where "i = position e es"
  define es' where "es' = insert_at i e es"
  obtain nx where N: "pool_nodes pl p = Some (leaf_view nx es)" and fit: "node_fits (leaf_view nx es)"
    and p: "0 \<le> p" "p < pool_pages pl"
    using t by (auto simp: tree_in_def)
  have ok: "\<forall>x\<in>set es. entry_ok k x" using t by (auto simp: tree_in_def)
  then have cls: "\<forall>x\<in>set es. in_class k (fst x)" "in_class k (fst e)" using e entry_okD by blast+
  obtain pl2 where rd: "readNode pl1 p = Some (pl2, leaf_view nx es)" "same pl pl2"
    by (rule read_same [OF pl1 p N])
  note inv2 = rd(2) [unfolded same_def]
  have N2: "pool_nodes pl2 = pool_nodes pl" using rd(2) by (rule same_nodes)
  have pos: "entry_index (fst e) (snd e) (leaf_view nx es) = i"
    unfolding i_def by (rule entry_index_position [OF cls]) simp
  have found: "(i < length es \<and> keyEqual (map fst es ! i) (fst e) \<and> map snd es ! i = snd e) \<longleftrightarrow>
    (i < length es \<and> erank (es ! i) = erank e)"
    using present_iff [OF cls, of i] by blast
  have fits': "in_i32 nx" "\<forall>x\<in>set es'. rid_i32 (snd x)"
    using fit ok e by (auto simp: leaf_fits es'_def set_insert_at dest: entry_okD)
  show thesis
  proof (cases "i < length es \<and> erank (es ! i) = erank e")
    case True
    have "insert_leaf pl1 p (fst e) (snd e) = Some (pl2, False, carry_of [])"
      using rd(1) pos found True by (simp add: insert_leaf_def Let_def)
    moreover have "grown pl pl2 (BLeaf p es) (BLeaf p es) []"
      using N N2 fit inv2 p by (auto simp: grown_def leaf_ids_def)
    moreover have "sep_added (ins e (items (BLeaf p es))) (forest items sep_item (BLeaf p es) [])"
      using True by (simp add: ins_entries i_def [symmetric] sep_added_refl)
    ultimately show thesis by (rule that)
  next
    case new: False
    have nf: "\<not> (i < length es \<and> keyEqual (map fst es ! i) (fst e) \<and> map snd es ! i = snd e)"
      using found new by blast
    have ae: "add_entry i (fst e) (snd e) (leaf_view nx es) = leaf_view nx es'"
      unfolding es'_def by (rule add_entry_leaf)
    have it: "ins e (items (BLeaf p es)) = map (\<lambda>x. (x, True)) es'"
      using new by (auto simp: ins_entries i_def [symmetric] es'_def)
    show thesis
    proof (cases "node_measure (map fst es') True \<le> kSplitLimit")
      case True
      then have "node_fits (leaf_view nx es')" using fits' by (simp add: leaf_fits kSplitLimit_def)
      then obtain pl3 where w: "writeNode pl2 p (leaf_view nx es') = Some pl3" "pool_inv pl3"
        "pool_content pl3 = (pool_content pl2)(p := page_of_node (leaf_view nx es') (pool_content pl2 p))"
        "pool_nodes pl3 = (pool_nodes pl2)(p := Some (leaf_view nx es'))" "pool_pages pl3 = pool_pages pl2"
        using writeNode_spec [of pl2 p "leaf_view nx es'"] inv2 p by metis
      have "\<exists>new. insert_leaf pl1 p (fst e) (snd e) = Some (pl3, new, carry_of [])"
        using rd(1) pos nf ae True w(1) by (cases "i < length es") (auto simp: insert_leaf_def Let_def)
      moreover have "grown pl pl3 (BLeaf p es) (BLeaf p es') []"
        using \<open>node_fits (leaf_view nx es')\<close> N w inv2 p by (auto simp: grown_def leaf_ids_def N2)
      moreover have "sep_added (ins e (items (BLeaf p es))) (forest items sep_item (BLeaf p es') [])"
        unfolding it by (simp add: sep_added_refl)
      ultimately show thesis using that by blast
    next
      case False
      define m where "m = length es' div 2"
      define R where "R = pool_pages pl"
      have small: "\<forall>x\<in>set (e # es). length (encodeValue (fst x)) \<le> 199" using ok e entry_okD(2) by auto
      have "\<forall>x\<in>set es'. length (encodeValue (fst x)) \<le> 199"
        using small by (simp add: es'_def set_insert_at)
      then have len: "2 \<le> length es'" by (rule split_length [OF False])
      then have m: "0 < m" "m < length es'" by (auto simp: m_def)
      have "node_measure (map fst es) True \<le> PAGE_SIZE" using fit by (simp add: leaf_fits)
      moreover have "\<forall>ka\<in>set (fst e # map fst es). length (encodeValue ka) \<le> 199" using small by auto
      moreover have "map fst es' = insert_at i (fst e) (map fst es)" by (simp add: es'_def map_insert_at)
      ultimately have "node_measure (take (length (map fst es') div 2) (map fst es')) True \<le> PAGE_SIZE"
        "node_measure (drop (length (map fst es') div 2) (map fst es')) True \<le> PAGE_SIZE"
        by (rule leaf_halves)+
      then have hv: "node_measure (map fst (take m es')) True \<le> PAGE_SIZE"
        "node_measure (map fst (drop m es')) True \<le> PAGE_SIZE"
        by (simp_all add: m_def take_map drop_map)
      have R: "in_i32 R" "R \<noteq> p" using room p inv2 by (auto simp: R_def in_i32_def)
      have fr: "node_fits (leaf_view nx (drop m es'))" "node_fits (leaf_view R (take m es'))"
        using fits' hv R by (auto simp: leaf_fits dest: in_set_takeD in_set_dropD)
      obtain pl3 where a: "allocNode pl2 (leaf_view nx (drop m es')) = Some (pl3, R)" "pool_inv pl3"
        "\<And>q. q \<noteq> R \<Longrightarrow> pool_content pl3 q = pool_content pl2 q"
        "pool_nodes pl3 = (pool_nodes pl2)(R := Some (leaf_view nx (drop m es')))"
        "pool_pages pl3 = pool_pages pl2 + 1"
        using allocNode_spec [of pl2 "leaf_view nx (drop m es')"] inv2 fr(1) unfolding R_def by metis
      have p3: "p < pool_pages pl3" using a(5) inv2 p by simp
      obtain pl4 where w: "writeNode pl3 p (leaf_view R (take m es')) = Some pl4" "pool_inv pl4"
        "pool_content pl4 = (pool_content pl3)(p := page_of_node (leaf_view R (take m es')) (pool_content pl3 p))"
        "pool_nodes pl4 = (pool_nodes pl3)(p := Some (leaf_view R (take m es')))" "pool_pages pl4 = pool_pages pl3"
        using writeNode_spec [OF a(2) p(1) p3 fr(2)] by metis
      have hd: "(hd (drop m (map fst es')), hd (drop m (map snd es'))) = es' ! m"
        using m by (simp add: hd_drop_conv_nth)
      have split: "split_leaf pl2 p (leaf_view nx es') = Some (pl4, Carry (es' ! m) R)"
      proof -
        have r: "\<lparr>nv_leaf = True, nv_next = nx, nv_keys = drop m (map fst es'),
            nv_rids = drop m (map snd es'), nv_children = []\<rparr> = leaf_view nx (drop m es')"
          by (simp add: leaf_view_def drop_map)
        have l: "(leaf_view nx es')\<lparr>nv_keys := take m (map fst es'), nv_rids := take m (map snd es'), nv_next := R\<rparr> =
            leaf_view R (take m es')"
          by (simp add: leaf_view_def take_map)
        show ?thesis
          using a(1) w(1) hd l r by (simp add: split_leaf_def Let_def m_def)
      qed
      define t2 where "t2 = BLeaf R (drop m es')"
      have "\<exists>new. insert_leaf pl1 p (fst e) (snd e) = Some (pl4, new, carry_of [(es' ! m, t2)])"
        using rd(1) pos nf ae False split
        by (cases "i < length es") (auto simp: insert_leaf_def Let_def t2_def)
      moreover have "grown pl pl4 (BLeaf p es) (BLeaf p (take m es')) [(es' ! m, t2)]"
        using N w a fr inv2 p R by (auto simp: grown_def leaf_ids_def N2 t2_def forest_one R_def)
      moreover have "sep_added (ins e (items (BLeaf p es)))
        (forest items sep_item (BLeaf p (take m es')) [(es' ! m, t2)])"
      proof -
        have d: "drop m es' = es' ! m # drop (Suc m) es'" using m by (simp add: Cons_nth_drop_Suc)
        have tk: "take m es' = take (m - 1) es' @ [es' ! (m - 1)]"
          using m take_Suc_conv_app_nth [of "m - 1" es'] by simp
        have "es' = take m es' @ drop m es'" by simp
        then have e1: "es' = take (m - 1) es' @ es' ! (m - 1) # es' ! m # drop (Suc m) es'"
          using d tk by simp
        show ?thesis
          unfolding it sep_added_def forest_one t2_def
          apply (rule disjI2)
          apply (rule exI [of _ "map (\<lambda>x. (x, True)) (take (m - 1) es')"])
          apply (rule exI [of _ "es' ! (m - 1)"], rule exI [of _ "es' ! m"])
          apply (rule exI [of _ "map (\<lambda>x. (x, True)) (drop (Suc m) es')"])
          apply (subst e1)
          apply (simp add: d tk)
          done
      qed
      ultimately show thesis using that by blast
    qed
  qed
qed

end
