(* ===== verification/TreeInsert.thy ===== *)
theory TreeInsert
  imports TreeProof
begin

text \<open>
  Insertion above the leaf: what \<open>insert_child\<close> does to the page of an inner node, how the
  grown child is put back among its siblings, and the induction up the tree.
\<close>

section \<open>Separators\<close>

lemma separators_sorted:
  assumes "ordered (forest items sep_item t0 sts)"
  shows "sorted_wrt (\<lambda>a b. erank a < erank b) (map fst sts)"
proof -
  have "ordered (concat (map (\<lambda>st. sep_item (fst st) @ items (snd st)) sts))"
    using assms by (simp add: forest_def ordered_append)
  then show ?thesis
  proof (induction sts)
    case (Cons st sts)
    define C where "C = concat (map (\<lambda>st. sep_item (fst st) @ items (snd st)) sts)"
    have o: "ordered ((fst st, False) # (items (snd st) @ C))" using Cons.prems by (simp add: C_def)
    have "erank (fst st) < erank s" if s: "s \<in> set (map fst sts)" for s
    proof -
      obtain u where "u \<in> set sts" "s = fst u" using s by auto
      then have "(s, False) \<in> set C" by (auto simp: C_def)
      then have "xr (fst st, False) < xr (s, False)" using o unfolding ordered_simps set_append by blast
      then show ?thesis by simp
    qed
    moreover have "sorted_wrt (\<lambda>a b. erank a < erank b) (map fst sts)"
      by (rule Cons.IH) (use o in \<open>simp add: ordered_append C_def\<close>)
    ultimately show ?case by simp
  qed simp
qed

lemma position_insert:
  assumes "sorted_wrt (\<lambda>a b. erank a < erank b) (insert_at i up ss)" "i \<le> length ss"
  shows "position up ss = i"
proof -
  have lo: "\<forall>s\<in>set (take i ss). erank s < erank up" and hi: "\<forall>s\<in>set (drop i ss). erank up < erank s"
    using assms(1) by (auto simp: insert_at_def sorted_wrt_append)
  have "takeWhile (\<lambda>x. erank x < erank up) (take i ss @ drop i ss) = take i ss"
  proof -
    have "takeWhile (\<lambda>x. erank x < erank up) (drop i ss) = []"
      using hi by (cases "drop i ss") (auto simp: less_not_sym)
    then show ?thesis using lo by (subst takeWhile_append2) auto
  qed
  then show ?thesis using assms(2) by (simp add: position_def)
qed

section \<open>The page of an inner node\<close>

lemma insert_child_spec:
  assumes inv: "pool_inv pl" and p: "0 \<le> p" "p < pool_pages pl"
    and N: "pool_nodes pl p = Some (inner_view ss cs)" and fit: "node_fits (inner_view ss cs)"
    and ok: "\<forall>s\<in>set ss. entry_ok k s" "entry_ok k up"
    and pos: "position up ss = i" and i: "i \<le> length ss"
    and ch: "in_i32 ch" and room: "pool_pages pl < 2 ^ 31"
    and ss': "ss' = insert_at i up ss" and cs': "cs' = insert_at (i + 1) ch cs"
  obtains (fits) pl' where "insert_child pl p up ch = Some (pl', Done)" "pool_inv pl'"
      "\<And>q. q \<noteq> p \<Longrightarrow> pool_content pl' q = pool_content pl q" "pool_pages pl' = pool_pages pl"
      "pool_nodes pl' = (pool_nodes pl)(p := Some (inner_view ss' cs'))" "node_fits (inner_view ss' cs')"
  | (splits) pl' m where "insert_child pl p up ch = Some (pl', Carry (ss' ! m) (pool_pages pl))" "pool_inv pl'"
      "\<And>q. q \<noteq> p \<Longrightarrow> q \<noteq> pool_pages pl \<Longrightarrow> pool_content pl' q = pool_content pl q"
      "pool_pages pl' = pool_pages pl + 1" "m < length ss'"
      "pool_nodes pl' = (pool_nodes pl)(pool_pages pl := Some (inner_view (drop (m + 1) ss') (drop (m + 1) cs')),
         p := Some (inner_view (take m ss') (take (m + 1) cs')))"
      "node_fits (inner_view (take m ss') (take (m + 1) cs'))"
      "node_fits (inner_view (drop (m + 1) ss') (drop (m + 1) cs'))"
proof -
  have cls: "\<forall>s\<in>set ss. in_class k (fst s)" "in_class k (fst up)" using ok entry_okD(1) by blast+
  have small: "\<forall>ka\<in>set (fst up # map fst ss). length (encodeValue ka) \<le> 199"
    using ok entry_okD(2) by auto
  obtain pl1 where rd: "readNode pl p = Some (pl1, inner_view ss cs)" "same pl pl1"
    by (rule read_same [OF same_refl [OF inv] p N])
  note s1 = rd(2) [unfolded same_def]
  have N1: "pool_nodes pl1 = pool_nodes pl" using rd(2) by (rule same_nodes)
  have ix: "entry_index (fst up) (snd up) (inner_view ss cs) = i"
    using entry_index_position [OF cls] pos by simp
  have v: "(add_entry i (fst up) (snd up) (inner_view ss cs))\<lparr>nv_children := insert_at (i + 1) ch cs\<rparr> =
      inner_view ss' cs'"
    by (simp add: add_entry_def inner_view_def map_insert_at ss' cs')
  have kids: "nv_keys (add_entry i (fst up) (snd up) (inner_view ss cs)) = map fst ss'"
    by (simp add: add_entry_def map_insert_at ss')
  have lens: "length cs' = Suc (length ss')" using fit i by (simp add: inner_fits ss' cs' insert_at_def)
  have shape: "\<forall>s\<in>set ss'. rid_i32 (snd s)" "\<forall>c\<in>set cs'. in_i32 c"
    using fit ok ch by (auto simp: inner_fits ss' cs' set_insert_at dest: entry_okD)
  show thesis
  proof (cases "node_measure (map fst ss') False \<le> kSplitLimit")
    case True
    then have f: "node_fits (inner_view ss' cs')" using lens shape by (simp add: inner_fits kSplitLimit_def)
    obtain pl2 where w: "writeNode pl1 p (inner_view ss' cs') = Some pl2" "pool_inv pl2"
      "pool_content pl2 = (pool_content pl1)(p := page_of_node (inner_view ss' cs') (pool_content pl1 p))"
      "pool_nodes pl2 = (pool_nodes pl1)(p := Some (inner_view ss' cs'))" "pool_pages pl2 = pool_pages pl1"
      using writeNode_spec [of pl1 p "inner_view ss' cs'"] s1 p f by metis
    have "insert_child pl p up ch = Some (pl2, Done)"
      using rd(1) ix v kids True w(1) by (simp add: insert_child_def Let_def)
    then show thesis
      by (rule fits) (use w s1 N1 f in auto)
  next
    case False
    define m where "m = length ss' div 2"
    define R where "R = pool_pages pl"
    have m: "m < length ss'" using i by (simp add: m_def ss' insert_at_def)
    have "node_measure (map fst ss) False \<le> PAGE_SIZE" using fit by (simp add: inner_fits)
    moreover have "map fst ss' = insert_at i (fst up) (map fst ss)" by (simp add: ss' map_insert_at)
    ultimately have "node_measure (take (length (map fst ss') div 2) (map fst ss')) False \<le> PAGE_SIZE"
      "node_measure (drop (length (map fst ss') div 2 + 1) (map fst ss')) False \<le> PAGE_SIZE"
      using small by (blast intro: inner_halves)+
    then have hv: "node_measure (map fst (take m ss')) False \<le> PAGE_SIZE"
      "node_measure (map fst (drop (m + 1) ss')) False \<le> PAGE_SIZE"
      by (simp_all add: m_def take_map drop_map)
    have fl: "node_fits (inner_view (take m ss') (take (m + 1) cs'))"
      using hv(1) shape lens m by (auto simp: inner_fits dest: in_set_takeD)
    have fr: "node_fits (inner_view (drop (m + 1) ss') (drop (m + 1) cs'))"
      using hv(2) shape lens m by (auto simp: inner_fits dest: in_set_dropD)
    obtain pl2 where a: "allocNode pl1 (inner_view (drop (m + 1) ss') (drop (m + 1) cs')) = Some (pl2, R)"
      "pool_inv pl2" "\<And>q. q \<noteq> R \<Longrightarrow> pool_content pl2 q = pool_content pl1 q"
      "pool_nodes pl2 = (pool_nodes pl1)(R := Some (inner_view (drop (m + 1) ss') (drop (m + 1) cs')))"
      "pool_pages pl2 = pool_pages pl1 + 1"
      using allocNode_spec [of pl1 "inner_view (drop (m + 1) ss') (drop (m + 1) cs')"] s1 fr
      unfolding R_def by metis
    have p2: "p < pool_pages pl2" using a(5) s1 p by simp
    obtain pl3 where w: "writeNode pl2 p (inner_view (take m ss') (take (m + 1) cs')) = Some pl3" "pool_inv pl3"
      "pool_content pl3 = (pool_content pl2)(p := page_of_node (inner_view (take m ss') (take (m + 1) cs')) (pool_content pl2 p))"
      "pool_nodes pl3 = (pool_nodes pl2)(p := Some (inner_view (take m ss') (take (m + 1) cs')))"
      "pool_pages pl3 = pool_pages pl2"
      using writeNode_spec [OF a(2) p(1) p2 fl] by metis
    have sp: "split_inner pl1 p (inner_view ss' cs') = Some (pl3, Carry (ss' ! m) R)"
    proof -
      have r: "\<lparr>nv_leaf = False, nv_next = - 1, nv_keys = drop (m + 1) (map fst ss'),
          nv_rids = drop (m + 1) (map snd ss'), nv_children = drop (m + 1) cs'\<rparr> =
          inner_view (drop (m + 1) ss') (drop (m + 1) cs')"
        by (simp add: inner_view_def drop_map)
      have l: "(inner_view ss' cs')\<lparr>nv_keys := take m (map fst ss'), nv_rids := take m (map snd ss'),
          nv_children := take (m + 1) cs'\<rparr> = inner_view (take m ss') (take (m + 1) cs')"
        by (simp add: inner_view_def take_map)
      have u: "(map fst ss' ! m, map snd ss' ! m) = ss' ! m" using m by simp
        show ?thesis
        using a(1) w(1) r l u by (simp add: split_inner_def Let_def m_def)
    qed
    have "insert_child pl p up ch = Some (pl3, Carry (ss' ! m) R)"
      using rd(1) ix v kids False sp by (simp add: insert_child_def Let_def)
    then show thesis
      unfolding R_def by (rule splits) (use w a s1 N1 m fl fr R_def in auto)
  qed
qed

section \<open>A grown child among its siblings\<close>

lemma before_kids:
  assumes "i \<le> length sts" "t \<in> set (take i (t0 # map snd sts))"
  shows "set (g t) \<subseteq> set (before g no_sep i t0 sts)"
proof (cases i)
  case (Suc j)
  then have "t = t0 \<or> t \<in> snd ` set (take j sts)" using assms by (auto simp: take_map)
  then show ?thesis using Suc by (auto simp: before_def forest_def)
qed (use assms in simp)

lemma after_kids:
  assumes "t \<in> set (drop (Suc i) (t0 # map snd sts))"
  shows "set (g t) \<subseteq> set (after g no_sep i sts)"
  using assms by (auto simp: after_def drop_map)

lemma before_subset:
  assumes "\<And>t. set (g t) \<subseteq> set (g' t)"
  shows "set (before g no_sep i t0 sts) \<subseteq> set (before g' no_sep i t0 sts)"
  using forest_subset [of g g', OF assms] by (auto simp: before_def split: nat.split)

lemma after_subset:
  assumes "\<And>t. set (g t) \<subseteq> set (g' t)"
  shows "set (after g no_sep i sts) \<subseteq> set (after g' no_sep i sts)"
  using assms by (fastforce simp: after_def)

lemma leaf_ids_nonempty: "leaf_ids t \<noteq> []"
  by (simp add: leaf_ids_def leaves_nonempty)

lemma forest_leaf_ids_nonempty: "forest leaf_ids no_sep t0 sts \<noteq> []"
  by (simp add: forest_def leaf_ids_nonempty)

lemma leaf_ids_node: "leaf_ids (BNode p t0 sts) = forest leaf_ids no_sep t0 sts"
  unfolding leaf_ids_def forest_node by (simp only: forest_leaf_ids leaf_ids_def [abs_def])

lemma grown_forest:
  assumes t: "tree_in k pl (BNode p t0 sts)" and i: "i \<le> length sts"
    and g: "grown pl pl3 (child i t0 sts) t1 rest" and plug: "plug i t1 rest t0 sts = (u0, us)"
    and N4: "\<And>q. q \<in> set (forest pids no_sep u0 us) \<Longrightarrow> N4 q = pool_nodes pl3 q"
  shows "holds N4 u0" "\<forall>st\<in>set us. holds N4 (snd st)"
    and "distinct (p # forest pids no_sep u0 us)"
    and "set (forest pids no_sep u0 us) \<subseteq> set (pids (BNode p t0 sts)) \<union> {pool_pages pl..<pool_pages pl3}"
    and "hd (forest leaf_ids no_sep u0 us) = hd (leaf_ids (BNode p t0 sts))"
    and "linked (pool_nodes pl) (leaf_ids (BNode p t0 sts)) nx \<Longrightarrow> linked N4 (forest leaf_ids no_sep u0 us) nx"
proof -
  define c where "c = child i t0 sts"
  define B where "B = before pids no_sep i t0 sts"
  define A where "A = after pids no_sep i sts"
  define M where "M = forest pids no_sep t1 rest"
  have old: "pids (BNode p t0 sts) = p # B @ pids c @ A"
    unfolding forest_node B_def A_def c_def by (simp only: forest_at [OF i])
  have new: "forest pids no_sep u0 us = B @ M @ A"
    unfolding B_def A_def M_def by (rule forest_plug [OF i plug])
  have dist: "distinct (p # B @ pids c @ A)" and range: "\<forall>q\<in>set (p # B @ pids c @ A). 0 \<le> q \<and> q < pool_pages pl"
    using t unfolding tree_in_def old by auto
  note gr = g [unfolded grown_def, folded c_def M_def]
  have Msub: "set M \<subseteq> set (pids c) \<union> {pool_pages pl..<pool_pages pl3}" and Mdist: "distinct M"
    using gr by auto
  have disj: "set M \<inter> set (p # B @ A) = {}"
  proof -
    have "q \<notin> set (p # B @ A)" if "q \<in> set (pids c)" for q using that dist by auto
    moreover have "q \<notin> set (p # B @ A)" if "q \<in> {pool_pages pl..<pool_pages pl3}" for q
    proof
      assume "q \<in> set (p # B @ A)"
      then have "q < pool_pages pl" using range by auto
      then show False using that by simp
    qed
    ultimately show ?thesis using Msub by blast
  qed
  show d: "distinct (p # forest pids no_sep u0 us)"
    unfolding new using dist Mdist disj by auto
  show "set (forest pids no_sep u0 us) \<subseteq> set (pids (BNode p t0 sts)) \<union> {pool_pages pl..<pool_pages pl3}"
    unfolding new old using Msub by auto
  have N3: "pool_nodes pl3 q = pool_nodes pl q" if "q \<in> set (B @ A)" for q
    using that dist range gr by (auto simp: pool_nodes_def)
  have NBA: "N4 q = pool_nodes pl q" if "q \<in> set (B @ A)" for q
    using N4 [of q] N3 [OF that] that unfolding new by auto
  have NM: "N4 q = pool_nodes pl3 q" if "q \<in> set M" for q
    using N4 [of q] that unfolding new by auto
  have hold: "\<forall>u\<in>set (t0 # map snd sts). holds (pool_nodes pl) u"
    using t by (auto simp: tree_in_def)
  have holdBA: "holds N4 u" if u: "u \<in> set (t0 # map snd sts)" and "set (pids u) \<subseteq> set (B @ A)" for u
    using holds_cong [of u N4 "pool_nodes pl"] NBA that hold by blast
  have Msets: "set (pids t1) \<subseteq> set M" "\<And>st. st \<in> set rest \<Longrightarrow> set (pids (snd st)) \<subseteq> set M"
    by (auto simp: M_def forest_def)
  have holdM: "holds N4 t1" "\<And>st. st \<in> set rest \<Longrightarrow> holds N4 (snd st)"
    using holds_cong [of _ N4 "pool_nodes pl3"] NM Msets gr by blast+
  have all: "\<forall>u\<in>set (u0 # map snd us). holds N4 u"
  proof
    fix u
    assume "u \<in> set (u0 # map snd us)"
    then consider "u \<in> set (take i (t0 # map snd sts))" | "u = t1" | "u \<in> set (map snd rest)"
      | "u \<in> set (drop (Suc i) (t0 # map snd sts))"
      unfolding plug_children [OF i plug] by auto
    then show "holds N4 u"
    proof cases
      case 1
      then show ?thesis
        using before_kids [OF i 1, of pids] by (intro holdBA) (auto simp: B_def dest: in_set_takeD)
    next
      case 4
      then show ?thesis
        using after_kids [OF 4, of pids] by (intro holdBA) (auto simp: A_def dest: in_set_dropD simp del: drop_Suc_Cons)
    qed (use holdM in auto)
  qed
  then show "holds N4 u0" "\<forall>st\<in>set us. holds N4 (snd st)" by auto
  define LB where "LB = before leaf_ids no_sep i t0 sts"
  define LA where "LA = after leaf_ids no_sep i sts"
  define G where "G = forest leaf_ids no_sep t1 rest"
  have lold: "leaf_ids (BNode p t0 sts) = LB @ leaf_ids c @ LA"
    unfolding leaf_ids_node LB_def LA_def c_def by (rule forest_at [OF i])
  have lnew: "forest leaf_ids no_sep u0 us = LB @ G @ LA"
    unfolding LB_def LA_def G_def by (rule forest_plug [OF i plug])
  have ne: "G \<noteq> []" "leaf_ids c \<noteq> []" by (simp_all add: G_def forest_leaf_ids_nonempty leaf_ids_nonempty)
  have hdG: "hd G = hd (leaf_ids c)" using gr by (simp add: G_def)
  show "hd (forest leaf_ids no_sep u0 us) = hd (leaf_ids (BNode p t0 sts))"
    unfolding lold lnew using ne hdG by (cases LB) (simp_all add: hd_append)
  have LBsub: "set LB \<subseteq> set B" unfolding LB_def B_def by (rule before_subset [OF leaf_ids_pids])
  have LAsub: "set LA \<subseteq> set A" unfolding LA_def A_def by (rule after_subset [OF leaf_ids_pids])
  have Gsub: "set G \<subseteq> set M" unfolding G_def M_def by (rule forest_subset [OF leaf_ids_pids])
  show "linked N4 (forest leaf_ids no_sep u0 us) nx" if l: "linked (pool_nodes pl) (leaf_ids (BNode p t0 sts)) nx"
  proof -
    have l1: "linked (pool_nodes pl) LB (hd ((leaf_ids c @ LA) @ [nx]))"
      "linked (pool_nodes pl) (leaf_ids c) (hd (LA @ [nx]))" "linked (pool_nodes pl) LA nx"
      using l unfolding lold by (simp_all add: linked_append)
    have "hd ((G @ LA) @ [nx]) = hd ((leaf_ids c @ LA) @ [nx])" using ne hdG by (simp add: hd_append)
    then have "linked N4 LB (hd ((G @ LA) @ [nx]))"
      using l1(1) linked_cong [of LB N4 "pool_nodes pl"] NBA LBsub by auto
    moreover have "linked N4 G (hd (LA @ [nx]))"
    proof -
      have "linked (pool_nodes pl3) G (hd (LA @ [nx]))" using l1(2) gr by (simp add: G_def)
      moreover have "N4 q = pool_nodes pl3 q" if "q \<in> set G" for q using NM Gsub that by blast
      ultimately show ?thesis using linked_cong [of G N4 "pool_nodes pl3"] by simp
    qed
    moreover have "linked N4 LA nx"
      using l1(3) linked_cong [of LA N4 "pool_nodes pl"] NBA LAsub by auto
    ultimately show ?thesis unfolding lnew by (simp add: linked_append)
  qed
qed

section \<open>Up the tree\<close>

lemma propagate_Done: "propagate pl ps Done = Some (pl, Done)"
  by (cases ps) simp_all

lemma propagate_snoc:
  "propagate pl (ps @ [p]) c = obind (propagate pl ps c) (\<lambda>(pl, c). propagate pl [p] c)"
proof (induction pl ps c rule: propagate.induct)
  case (3 pl p' path up ch)
  then show ?case
    by (cases "insert_child pl p' up ch") auto
qed simp_all

text \<open>What the parent's page does with the carry of a grown child.\<close>

lemma parent_spec:
  assumes t: "tree_in k pl (BNode p t0 sts)" and i: "i = route e (map fst sts)" and e: "entry_ok k e"
    and g: "grown pl pl3 (child i t0 sts) t1 rest"
    and sep: "sep_added (ins e (items (child i t0 sts))) (forest items sep_item t1 rest)"
    and room: "pool_pages pl3 < 2 ^ 31" "pool_pages pl3 < pool_pages pl + int (length (pids (BNode p t0 sts)))"
  obtains pl4 T REST where "propagate pl3 [p] (carry_of rest) = Some (pl4, carry_of REST)"
    "grown pl pl4 (BNode p t0 sts) T REST"
    "sep_added (ins e (items (BNode p t0 sts))) (forest items sep_item T REST)"
proof -
  define c where "c = child i t0 sts"
  have le: "i \<le> length sts" using i route_le [of e "map fst sts"] by simp
  obtain u0 us where plug: "plug i t1 rest t0 sts = (u0, us)" by (metis surj_pair)
  have ord: "ordered (items (BNode p t0 sts))" using t by (simp add: tree_in_def)
  have new_items: "sep_added (ins e (items (BNode p t0 sts))) (forest items sep_item u0 us)"
  proof -
    have "below (before items sep_item i t0 sts) e" "above (after items sep_item i sts) e"
      using route_spec [of t0 sts i e] ord i unfolding forest_node by blast+
    then have "ins e (items (BNode p t0 sts)) =
        before items sep_item i t0 sts @ ins e (items (child i t0 sts)) @ after items sep_item i sts"
      unfolding forest_node forest_at [OF le] by (simp add: ins_mid)
    then show ?thesis
      using sep_added_context [OF sep] unfolding forest_plug [OF le plug] by simp
  qed
  have whole_items: "sep_added (ins e (items (BNode p t0 sts))) (forest items sep_item (BNode p u0 us) [])"
    unfolding forest_Nil forest_node(1) [of p u0 us] by (rule new_items)
  have ordu: "ordered (forest items sep_item u0 us)"
    using new_items ordered_ins [OF ord] by (rule sep_added_ordered)
  have Np: "pool_nodes pl p = Some (inner_view (map fst sts) (map bt_pid (t0 # map snd sts)))"
    and fitp: "node_fits (inner_view (map fst sts) (map bt_pid (t0 # map snd sts)))"
    and prange: "0 \<le> p" "p < pool_pages pl" and dist: "distinct (pids (BNode p t0 sts))"
    using t by (auto simp: tree_in_def)
  note gr = g [unfolded grown_def]
  have pc: "p \<notin> set (pids (child i t0 sts))"
    using dist unfolding forest_node forest_at [OF le] by simp
  have N3p: "pool_nodes pl3 p = Some (inner_view (map fst sts) (map bt_pid (t0 # map snd sts)))"
    using gr pc prange Np by (simp add: pool_nodes_def)
  have frame3: "\<forall>q. q < pool_pages pl \<and> q \<notin> set (pids (BNode p t0 sts)) \<longrightarrow>
    pool_content pl3 q = pool_content pl q"
    using gr unfolding forest_node forest_at [OF le] by simp
  note gf = grown_forest [OF t le g plug]
  have pin: "p \<notin> set (forest pids no_sep u0 us)" using gf(3) [of "pool_nodes pl3"] by simp
  have kid_at: "map bt_pid (t0 # map snd sts) ! i = bt_pid t1"
  proof -
    have "map bt_pid (t0 # map snd sts) ! i = bt_pid (child i t0 sts)"
      unfolding child_def by (rule nth_map) (use le in simp)
    then show ?thesis using gr by simp
  qed
  define K where "K = t0 # map snd sts"
  have kid_list: "map bt_pid (u0 # map snd us) =
      take i (map bt_pid K) @ bt_pid t1 # map (bt_pid \<circ> snd) rest @ drop (Suc i) (map bt_pid K)"
    unfolding plug_children [OF le plug, folded K_def] by (simp add: take_map drop_map)
  have lenK: "i < length (map bt_pid K)" using le by (simp add: K_def)
  show thesis
  proof (cases rest)
    case Nil
    have "map fst us = map fst sts" using plug_seps [OF le plug] Nil by simp
    moreover have "map bt_pid (u0 # map snd us) = map bt_pid (t0 # map snd sts)"
    proof -
      have "map bt_pid (u0 # map snd us) = take i (map bt_pid K) @ map bt_pid K ! i # drop (Suc i) (map bt_pid K)"
        unfolding kid_list using Nil kid_at by (simp add: K_def)
      then show ?thesis using id_take_nth_drop [OF lenK] by (simp add: K_def)
    qed
    ultimately have "holds (pool_nodes pl3) (BNode p u0 us)"
      using N3p fitp gf(1,2) [of "pool_nodes pl3"] by simp
    then have "grown pl pl3 (BNode p t0 sts) (BNode p u0 us) []"
      using gr frame3 gf(3-6) [of "pool_nodes pl3"] room(2)
      unfolding grown_def forest_Nil leaf_ids_node [of p u0 us] forest_node(3) [of p u0 us] by auto
    then show thesis
      by (rule that [rotated, OF _ whole_items]) (simp add: Nil)
  next
    case (Cons r1 rest')
    then obtain up t2 where rest: "rest = [(up, t2)]" using gr by (cases r1; cases rest') auto
    define cs where "cs = map bt_pid (t0 # map snd sts)"
    have csK: "cs = map bt_pid K" by (simp add: cs_def K_def)
    have ss': "map fst us = insert_at i up (map fst sts)"
      using plug_seps [OF le plug] rest by (simp add: insert_at_def)
    have cs': "map bt_pid (u0 # map snd us) = insert_at (i + 1) (bt_pid t2) cs"
    proof -
      have "map bt_pid (u0 # map snd us) = take i cs @ cs ! i # bt_pid t2 # drop (Suc i) cs"
        unfolding kid_list csK [symmetric] using rest kid_at by (simp add: cs_def)
      also have "\<dots> = take (Suc i) cs @ bt_pid t2 # drop (Suc i) cs"
        using lenK csK by (simp add: take_Suc_conv_app_nth)
      finally show ?thesis by (simp add: insert_at_def)
    qed
    have keys_ok: "\<forall>it\<in>set (forest items sep_item u0 us). entry_ok k (fst it)"
    proof
      fix it
      assume "it \<in> set (forest items sep_item u0 us)"
      then have "fst it \<in> fst ` set (ins e (items (BNode p t0 sts)))"
        using sep_added_keys [OF new_items] by blast
      then obtain x where "x \<in> set (ins e (items (BNode p t0 sts)))" "fst it = fst x" by blast
      then have "x = (e, True) \<or> x \<in> set (items (BNode p t0 sts))"
        using set_ins [of e "items (BNode p t0 sts)"] by blast
      then show "entry_ok k (fst it)"
        using t e \<open>fst it = fst x\<close> unfolding tree_in_def by (elim disjE) simp_all
    qed
    have upin: "(up, False) \<in> set (forest items sep_item u0 us)"
      unfolding forest_plug [OF le plug] rest forest_one by simp
    have pos: "position up (map fst sts) = i"
      by (rule position_insert) (use separators_sorted [OF ordu] ss' le in auto)
    have t2in: "bt_pid t2 \<in> set (forest pids no_sep u0 us)"
      unfolding forest_plug [OF le plug] rest forest_one using bt_pid_in [of t2] by simp
    have rng: "\<forall>q\<in>set (pids (BNode p t0 sts)) \<union> {pool_pages pl..<pool_pages pl3}. 0 \<le> q \<and> q < pool_pages pl3"
    proof
      fix q
      assume "q \<in> set (pids (BNode p t0 sts)) \<union> {pool_pages pl..<pool_pages pl3}"
      then consider "q \<in> set (pids (BNode p t0 sts))" | "pool_pages pl \<le> q" "q < pool_pages pl3" by auto
      then show "0 \<le> q \<and> q < pool_pages pl3"
      proof cases
        case 1
        then have "0 \<le> q \<and> q < pool_pages pl" using t unfolding tree_in_def by blast
        then show ?thesis using gr by simp
      qed (use prange in simp)
    qed
    then have "0 \<le> bt_pid t2 \<and> bt_pid t2 < pool_pages pl3"
      using t2in gf(4) [of "pool_nodes pl3"] by blast
    then have ch: "in_i32 (bt_pid t2)" using room by (simp add: in_i32_def)
    have sep_ok: "\<forall>s\<in>set (map fst sts). entry_ok k s" using node_seps [OF t] by blast
    have up_ok: "entry_ok k up" using keys_ok upin by force
    have p3: "p < pool_pages pl3" using prange gr by simp
    have Rnew: "pool_pages pl3 \<notin> set (forest pids no_sep u0 us)" "pool_pages pl3 \<noteq> p"
    proof -
      have "set (forest pids no_sep u0 us) \<subseteq> set (pids (BNode p t0 sts)) \<union> {pool_pages pl..<pool_pages pl3}"
        using gf(4) [of "pool_nodes pl3"] by blast
      then show "pool_pages pl3 \<notin> set (forest pids no_sep u0 us)" using rng by blast
      show "pool_pages pl3 \<noteq> p" using p3 by simp
    qed
    have step: "propagate pl3 [p] (carry_of rest) = insert_child pl3 p up (bt_pid t2)"
      by (cases "insert_child pl3 p up (bt_pid t2)") (auto simp: rest)
    have le': "i \<le> length (map fst sts)" using le by simp
    have inv3: "pool_inv pl3" using gr by simp
    show thesis
    proof (rule insert_child_spec [OF inv3 prange(1) p3 N3p [folded cs_def] fitp [folded cs_def] sep_ok up_ok
          pos le' ch room(1) ss' cs'])
      fix pl4
      assume f: "insert_child pl3 p up (bt_pid t2) = Some (pl4, Done)" "pool_inv pl4"
        "\<And>q. q \<noteq> p \<Longrightarrow> pool_content pl4 q = pool_content pl3 q" "pool_pages pl4 = pool_pages pl3"
        "pool_nodes pl4 = (pool_nodes pl3)(p := Some (inner_view (map fst us) (map bt_pid (u0 # map snd us))))"
        "node_fits (inner_view (map fst us) (map bt_pid (u0 # map snd us)))"
      have same34: "\<And>q. q \<in> set (forest pids no_sep u0 us) \<Longrightarrow> pool_nodes pl4 q = pool_nodes pl3 q"
        using pin f(5) by auto
      note gf4 = gf [of "pool_nodes pl4", OF same34]
      have "pool_nodes pl4 p = Some (inner_view (map fst us) (map bt_pid (u0 # map snd us)))"
        unfolding f(5) by (rule fun_upd_same)
      then have "holds (pool_nodes pl4) (BNode p u0 us)"
        unfolding holds.simps using f(6) gf4(1,2) by blast
      moreover have "\<forall>q. q < pool_pages pl \<and> q \<notin> set (pids (BNode p t0 sts)) \<longrightarrow>
          pool_content pl4 q = pool_content pl q"
        using frame3 f(3) by auto
      ultimately have "grown pl pl4 (BNode p t0 sts) (BNode p u0 us) []"
        using gr gf4(3-6) f(2,4) room(2)
        unfolding grown_def forest_Nil leaf_ids_node [of p u0 us] forest_node(3) [of p u0 us] by auto
      then show thesis
        by (rule that [rotated, OF _ whole_items]) (simp add: step f(1))
    next
      fix pl4 m
      assume f: "insert_child pl3 p up (bt_pid t2) = Some (pl4, Carry (map fst us ! m) (pool_pages pl3))" "pool_inv pl4"
        "\<And>q. q \<noteq> p \<Longrightarrow> q \<noteq> pool_pages pl3 \<Longrightarrow> pool_content pl4 q = pool_content pl3 q"
        "pool_pages pl4 = pool_pages pl3 + 1" "m < length (map fst us)"
        "pool_nodes pl4 = (pool_nodes pl3)(pool_pages pl3 := Some (inner_view (drop (m + 1) (map fst us))
           (drop (m + 1) (map bt_pid (u0 # map snd us)))),
           p := Some (inner_view (take m (map fst us)) (take (m + 1) (map bt_pid (u0 # map snd us)))))"
        "node_fits (inner_view (take m (map fst us)) (take (m + 1) (map bt_pid (u0 # map snd us))))"
        "node_fits (inner_view (drop (m + 1) (map fst us)) (drop (m + 1) (map bt_pid (u0 # map snd us))))"
      define R where "R = pool_pages pl3"
      have same34: "\<And>q. q \<in> set (forest pids no_sep u0 us) \<Longrightarrow> pool_nodes pl4 q = pool_nodes pl3 q"
        using pin Rnew f(6) by auto
      note gf4 = gf [of "pool_nodes pl4", OF same34]
      have m: "m < length us" using f(5) by simp
      obtain sk tm where st: "us ! m = (sk, tm)" by (metis surj_pair)
      define us1 where "us1 = take m us"
      define us2 where "us2 = drop (Suc m) us"
      have us: "us = us1 @ (sk, tm) # us2"
        unfolding us1_def us2_def using id_take_nth_drop [OF m] st by simp
      have l1: "length us1 = m" using m by (simp add: us1_def)
      have lv: "take m (map fst us) = map fst us1" "drop (m + 1) (map fst us) = map fst us2"
        "take (m + 1) (map bt_pid (u0 # map snd us)) = map bt_pid (u0 # map snd us1)"
        "drop (m + 1) (map bt_pid (u0 # map snd us)) = map bt_pid (tm # map snd us2)"
        unfolding us using l1 by simp_all
      define T where "T = BNode p u0 us1"
      define T2 where "T2 = BNode R tm us2"
      have hT: "holds (pool_nodes pl4) T"
      proof -
        have "pool_nodes pl4 p = Some (inner_view (map fst us1) (map bt_pid (u0 # map snd us1)))"
          unfolding f(6) lv by (rule fun_upd_same)
        moreover have "\<forall>st\<in>set us1. holds (pool_nodes pl4) (snd st)" using gf4(2) by (simp add: us)
        ultimately show ?thesis
          unfolding T_def holds.simps using f(7) [unfolded lv] gf4(1) by blast
      qed
      have hT2: "holds (pool_nodes pl4) T2"
      proof -
        have "pool_nodes pl4 R = Some (inner_view (map fst us2) (map bt_pid (tm # map snd us2)))"
          unfolding f(6) lv R_def using Rnew(2)
          by (simp only: fun_upd_other fun_upd_same not_False_eq_True)
        moreover have "holds (pool_nodes pl4) tm" "\<forall>st\<in>set us2. holds (pool_nodes pl4) (snd st)"
          using gf4(2) by (simp_all add: us)
        ultimately show ?thesis
          unfolding T2_def holds.simps using f(8) [unfolded lv] by blast
      qed
      have fp: "forest g no_sep u0 us = forest g no_sep u0 us1 @ forest g no_sep tm us2" for g :: "btree \<Rightarrow> 'x list"
        unfolding us forest_split by simp
      have fP: "forest pids no_sep T [(sk, T2)] = p # forest pids no_sep u0 us1 @ R # forest pids no_sep tm us2"
        unfolding forest_one T_def T2_def forest_node(3) by simp
      have fL: "forest leaf_ids no_sep T [(sk, T2)] = forest leaf_ids no_sep u0 us"
        unfolding forest_one T_def T2_def leaf_ids_node fp by simp
      have fI: "forest items sep_item T [(sk, T2)] = forest items sep_item u0 us"
        unfolding forest_one T_def T2_def forest_node(1) us forest_split by simp
      have "grown pl pl4 (BNode p t0 sts) T [(sk, T2)]"
        unfolding grown_def
      proof (intro conjI)
        show "pool_inv pl4" "pool_pages pl \<le> pool_pages pl4"
          "pool_pages pl4 \<le> pool_pages pl + int (length (pids (BNode p t0 sts)))"
          using f(2,4) gr room(2) by auto
        show "\<forall>q. q < pool_pages pl \<and> q \<notin> set (pids (BNode p t0 sts)) \<longrightarrow> pool_content pl4 q = pool_content pl q"
          using frame3 f(3) gr by auto
        show "bt_pid T = bt_pid (BNode p t0 sts)" by (simp add: T_def)
        show "holds (pool_nodes pl4) T" by (rule hT)
        show "\<forall>st\<in>set [(sk, T2)]. holds (pool_nodes pl4) (snd st)" using hT2 by simp
        show "distinct (forest pids no_sep T [(sk, T2)])"
          using gf4(3) Rnew unfolding fP fp R_def by auto
        show "set (forest pids no_sep T [(sk, T2)]) \<subseteq> set (pids (BNode p t0 sts)) \<union> {pool_pages pl..<pool_pages pl4}"
          using gf4(4) gr f(4) unfolding fP fp R_def by auto
        show "length [(sk, T2)] \<le> 1" by simp
        show "hd (forest leaf_ids no_sep T [(sk, T2)]) = hd (leaf_ids (BNode p t0 sts))"
          unfolding fL by (rule gf4(5))
        show "\<forall>nx. linked (pool_nodes pl) (leaf_ids (BNode p t0 sts)) nx \<longrightarrow>
            linked (pool_nodes pl4) (forest leaf_ids no_sep T [(sk, T2)]) nx"
          unfolding fL using gf4(6) by blast
      qed
      moreover have "propagate pl3 [p] (carry_of rest) = Some (pl4, carry_of [(sk, T2)])"
        using step f(1) m st by (simp add: T2_def R_def)
      moreover have "sep_added (ins e (items (BNode p t0 sts))) (forest items sep_item T [(sk, T2)])"
        unfolding fI by (rule new_items)
      ultimately show thesis using that by blast
    qed
  qed
qed

lemma child_pids_shorter: "i \<le> length sts \<Longrightarrow> length (pids (child i t0 sts)) < length (pids (BNode p t0 sts))"
  unfolding forest_node by (simp only: forest_at) simp

lemma child_cases:
  assumes "i \<le> length sts"
  obtains "child i t0 sts = t0" | st where "st \<in> set sts" "child i t0 sts = snd st"
  using child_in [OF assms, of t0] by auto

text \<open>The descent finds a leaf, and from there the insertion and the loop over the path grow
  the tree.\<close>

definition inserts_into :: "pool \<Rightarrow> btree \<Rightarrow> entry \<Rightarrow> int list \<Rightarrow> int \<Rightarrow> bool" where
  "inserts_into pl t e ps l \<longleftrightarrow>
     (\<forall>pl0 P. same pl pl0 \<longrightarrow>
        (\<exists>pl1. findLeaf pl0 (bt_pid t) (fst e) (snd e) P = Some (pl1, l, P @ ps) \<and> same pl pl1)) \<and>
     (\<forall>pl1. same pl pl1 \<longrightarrow>
        (\<exists>pl2 new c pl3 t1 rest. insert_leaf pl1 l (fst e) (snd e) = Some (pl2, new, c) \<and>
           propagate pl2 (rev ps) c = Some (pl3, carry_of rest) \<and> grown pl pl3 t t1 rest \<and>
           sep_added (ins e (items t)) (forest items sep_item t1 rest)))"

lemma insert_tree:
  assumes "tree_in k pl t" "entry_ok k e" "pool_pages pl + int (length (pids t)) < 2 ^ 31"
  shows "\<exists>ps l. inserts_into pl t e ps l"
  using assms(1,3)
proof (induction t rule: btree_kids)
  case (BLeaf p es)
  have "inserts_into pl (BLeaf p es) e [] p"
    unfolding inserts_into_def
  proof (intro conjI allI impI)
    fix pl0 P
    assume "same pl pl0"
    then show "\<exists>pl1. findLeaf pl0 (bt_pid (BLeaf p es)) (fst e) (snd e) P = Some (pl1, p, P @ []) \<and> same pl pl1"
      using findLeaf_leaf [OF BLeaf(1), of pl0 "fst e" "snd e" P] by auto
  next
    fix pl1
    assume s: "same pl pl1"
    have "pool_pages pl < 2 ^ 31" using BLeaf(2) by simp
    then obtain pl2 new t1 rest where "insert_leaf pl1 p (fst e) (snd e) = Some (pl2, new, carry_of rest)"
      "grown pl pl2 (BLeaf p es) t1 rest"
      "sep_added (ins e (items (BLeaf p es))) (forest items sep_item t1 rest)"
      using insert_leaf_spec [OF BLeaf(1) s assms(2)] by metis
    then show "\<exists>pl2 new c pl3 t1 rest. insert_leaf pl1 p (fst e) (snd e) = Some (pl2, new, c) \<and>
        propagate pl2 (rev []) c = Some (pl3, carry_of rest) \<and> grown pl pl3 (BLeaf p es) t1 rest \<and>
        sep_added (ins e (items (BLeaf p es))) (forest items sep_item t1 rest)"
      unfolding rev.simps propagate.simps by blast
  qed
  then show ?case by blast
next
  case (BNode p t0 sts)
  define i where "i = route e (map fst sts)"
  define c where "c = child i t0 sts"
  have le: "i \<le> length sts" using route_le [of e "map fst sts"] by (simp add: i_def)
  have tc: "tree_in k pl c" unfolding c_def by (rule tree_in_child [OF BNode(3) le])
  have shorter: "length (pids c) < length (pids (BNode p t0 sts))"
    unfolding c_def by (rule child_pids_shorter [OF le])
  then have room: "pool_pages pl + int (length (pids c)) < 2 ^ 31" using BNode(4) by linarith
  have "\<exists>ps l. inserts_into pl c e ps l"
    using child_cases [OF le, of t0]
  proof cases
    case 1
    then show ?thesis using BNode(1) tc room by (simp add: c_def)
  next
    case (2 st)
    then show ?thesis using BNode(2) [OF 2(1)] tc room by (simp add: c_def)
  qed
  then obtain ps l where c: "inserts_into pl c e ps l" by blast
  have "inserts_into pl (BNode p t0 sts) e (p # ps) l"
    unfolding inserts_into_def
  proof (intro conjI allI impI)
    fix pl0 P
    assume s: "same pl pl0"
    obtain pl1 where f: "findLeaf pl0 p (fst e) (snd e) P = findLeaf pl1 (bt_pid c) (fst e) (snd e) (P @ [p])"
      "same pl pl1"
      unfolding c_def
      by (rule findLeaf_node [OF BNode(3) s entry_okD(1) [OF assms(2)] i_def])
    obtain pl2 where "findLeaf pl1 (bt_pid c) (fst e) (snd e) (P @ [p]) = Some (pl2, l, (P @ [p]) @ ps)" "same pl pl2"
      using c f(2) unfolding inserts_into_def by blast
    then show "\<exists>pl1. findLeaf pl0 (bt_pid (BNode p t0 sts)) (fst e) (snd e) P = Some (pl1, l, P @ p # ps) \<and> same pl pl1"
      using f(1) by simp
  next
    fix pl1
    assume "same pl pl1"
    then obtain pl2 new cc pl3 t1 rest where g: "insert_leaf pl1 l (fst e) (snd e) = Some (pl2, new, cc)"
      "propagate pl2 (rev ps) cc = Some (pl3, carry_of rest)" "grown pl pl3 c t1 rest"
      "sep_added (ins e (items c)) (forest items sep_item t1 rest)"
      using c unfolding inserts_into_def by blast
    have pg: "pool_pages pl3 \<le> pool_pages pl + int (length (pids c))" using g(3) by (simp add: grown_def)
    have "pool_pages pl3 < 2 ^ 31" "pool_pages pl3 < pool_pages pl + int (length (pids (BNode p t0 sts)))"
      using pg room shorter by linarith+
    then obtain pl4 T REST where u: "propagate pl3 [p] (carry_of rest) = Some (pl4, carry_of REST)"
      "grown pl pl4 (BNode p t0 sts) T REST"
      "sep_added (ins e (items (BNode p t0 sts))) (forest items sep_item T REST)"
      using parent_spec [OF BNode(3) i_def assms(2) g(3,4) [unfolded c_def]] by metis
    have "propagate pl2 (rev (p # ps)) cc = Some (pl4, carry_of REST)"
      using propagate_snoc [of pl2 "rev ps" p cc] g(2) u(1) by simp
    then show "\<exists>pl2 new c pl3 t1 rest. insert_leaf pl1 l (fst e) (snd e) = Some (pl2, new, c) \<and>
        propagate pl2 (rev (p # ps)) c = Some (pl3, carry_of rest) \<and> grown pl pl3 (BNode p t0 sts) t1 rest \<and>
        sep_added (ins e (items (BNode p t0 sts))) (forest items sep_item t1 rest)"
      using g(1) u(2,3) by blast
  qed
  then show ?case by blast
qed

end
