(* ===== verification/TreeOps.thy ===== *)
theory TreeOps
  imports TreeInsert
begin

text \<open>
  Searching, scanning and erasing on the page-resident tree, and the refinement: the state of a
  \<open>DiskBPlusTree\<close> represents a list of entries in strict order, \<open>insert\<close> enters an entry,
  \<open>erase\<close> removes it, and \<open>rangeScan\<close> lists the identifiers of the keys between its bounds.
\<close>

section \<open>The leaf a search ends in\<close>

lemma forest_entries:
  "leaf_entries (forest items sep_item t0 sts) = concat (map snd (forest leaves no_sep t0 sts))"
  using entries_items [of "BNode 0 t0 sts"] by (simp add: entries_def forest_def)

lemma before_entries:
  "leaf_entries (before items sep_item i t0 sts) = concat (map snd (before leaves no_sep i t0 sts))"
  by (cases i) (simp_all add: before_def forest_entries)

lemma after_entries:
  "leaf_entries (after items sep_item i sts) = concat (map snd (after leaves no_sep i sts))"
proof -
  have "leaf_entries (concat (map (\<lambda>st. (fst st, False) # items (snd st)) us)) =
    concat (map snd (concat (map (\<lambda>st. leaves (snd st)) us)))" for us
  proof (induction us)
    case (Cons st us)
    have "leaf_entries (items (snd st)) = concat (map snd (leaves (snd st)))"
      using entries_items [of "snd st"] by (simp add: entries_def)
    then show ?case using Cons by simp
  qed simp
  then show ?thesis by (simp add: after_def)
qed

lemma leaf_entries_mem: "x \<in> set (leaf_entries its) \<longleftrightarrow> (x, True) \<in> set its"
  unfolding leaf_entries_def by force

definition ends_at :: "entry \<Rightarrow> btree \<Rightarrow> int \<Rightarrow> entry list \<Rightarrow> (int \<times> entry list) list \<Rightarrow> (int \<times> entry list) list \<Rightarrow> bool" where
  "ends_at e t l es A B \<longleftrightarrow> leaves t = A @ (l, es) # B \<and>
     (\<forall>x\<in>set (concat (map snd A)). erank x < erank e) \<and>
     (\<forall>x\<in>set (concat (map snd B)). erank e < erank x)"

lemma ends_at_node:
  assumes t: "tree_in k pl (BNode p t0 sts)" and i: "i = route e (map fst sts)"
    and c: "ends_at e (child i t0 sts) l es A B"
  shows "ends_at e (BNode p t0 sts) l es (before leaves no_sep i t0 sts @ A) (B @ after leaves no_sep i sts)"
proof -
  have le: "i \<le> length sts" using i route_le [of e "map fst sts"] by simp
  have ord: "ordered (forest items sep_item t0 sts)" using t unfolding tree_in_def forest_node by blast
  note r = route_spec [OF ord i]
  have "\<forall>x\<in>set (concat (map snd (before leaves no_sep i t0 sts))). erank x < erank e"
    using r(1) unfolding before_entries [symmetric] below_def by (fastforce simp: leaf_entries_mem)
  moreover have "\<forall>x\<in>set (concat (map snd (after leaves no_sep i sts))). erank e < erank x"
    using r(2) unfolding after_entries [symmetric] above_def by (fastforce simp: leaf_entries_mem)
  moreover have "leaves (BNode p t0 sts) =
      before leaves no_sep i t0 sts @ leaves (child i t0 sts) @ after leaves no_sep i sts"
    unfolding forest_node by (rule forest_at [OF le])
  ultimately show ?thesis
    using c unfolding ends_at_def by (simp only: map_append concat_append set_append ball_Un append.assoc append_Cons) blast
qed

lemma search_spec:
  assumes "tree_in k pl t" "same pl pl0" "in_class k (fst e)"
  shows "\<exists>pl1 ps l es A B. findLeaf pl0 (bt_pid t) (fst e) (snd e) P = Some (pl1, l, P @ ps) \<and>
    same pl pl1 \<and> ends_at e t l es A B"
  using assms(1,2)
proof (induction t arbitrary: pl0 P rule: btree_kids)
  case (BLeaf p es)
  obtain pl1 where "findLeaf pl0 p (fst e) (snd e) P = Some (pl1, p, P)" "same pl pl1"
    by (rule findLeaf_leaf [OF BLeaf])
  moreover have "ends_at e (BLeaf p es) p es [] []" by (simp add: ends_at_def)
  ultimately show ?case by (metis append_Nil2 bt_pid.simps(1))
next
  case (BNode p t0 sts)
  define i where "i = route e (map fst sts)"
  define c where "c = child i t0 sts"
  have le: "i \<le> length sts" using route_le [of e "map fst sts"] by (simp add: i_def)
  have tc: "tree_in k pl c" unfolding c_def by (rule tree_in_child [OF BNode(3) le])
  obtain pl1 where f: "findLeaf pl0 p (fst e) (snd e) P = findLeaf pl1 (bt_pid c) (fst e) (snd e) (P @ [p])"
    "same pl pl1"
    unfolding c_def by (rule findLeaf_node [OF BNode(3,4) assms(3) i_def])
  have "\<exists>pl2 ps l es A B. findLeaf pl1 (bt_pid c) (fst e) (snd e) (P @ [p]) = Some (pl2, l, (P @ [p]) @ ps) \<and>
    same pl pl2 \<and> ends_at e c l es A B"
    using child_cases [OF le, of t0]
  proof cases
    case 1
    then show ?thesis using BNode(1) [of pl1 "P @ [p]"] tc f(2) unfolding c_def by metis
  next
    case (2 st)
    then show ?thesis using BNode(2) [OF 2(1), of pl1 "P @ [p]"] tc f(2) unfolding c_def by metis
  qed
  then obtain pl2 ps l es A B where g: "findLeaf pl1 (bt_pid c) (fst e) (snd e) (P @ [p]) = Some (pl2, l, (P @ [p]) @ ps)"
    "same pl pl2" "ends_at e c l es A B" by blast
  have "ends_at e (BNode p t0 sts) l es (before leaves no_sep i t0 sts @ A) (B @ after leaves no_sep i sts)"
    by (rule ends_at_node [OF BNode(3) i_def g(3) [unfolded c_def]])
  moreover have "findLeaf pl0 (bt_pid (BNode p t0 sts)) (fst e) (snd e) P = Some (pl2, l, P @ p # ps)"
    using f(1) g(1) by simp
  ultimately show ?case using g(2) by blast
qed

lemma first_spec:
  assumes "tree_in k pl t" "same pl pl0"
  shows "\<exists>pl1 l es B. firstLeaf pl0 (bt_pid t) = Some (pl1, l) \<and> same pl pl1 \<and> leaves t = (l, es) # B"
  using assms
proof (induction t arbitrary: pl0 rule: btree_kids)
  case (BLeaf p es)
  obtain nx where "pool_nodes pl p = Some (leaf_view nx es)" "0 \<le> p" "p < pool_pages pl"
    using BLeaf(1) by (auto simp: tree_in_def)
  then obtain pl1 where "readNode pl0 p = Some (pl1, leaf_view nx es)" "same pl pl1"
    using read_same [OF BLeaf(2)] by metis
  then show ?case by (subst firstLeaf.simps) simp
next
  case (BNode p t0 sts)
  define v where "v = inner_view (map fst sts) (map bt_pid (t0 # map snd sts))"
  have "pool_nodes pl p = Some v" "0 \<le> p" "p < pool_pages pl" using BNode(3) by (auto simp: tree_in_def v_def)
  then obtain pl1 where r: "readNode pl0 p = Some (pl1, v)" "same pl pl1"
    using read_same [OF BNode(4)] by metis
  have "tree_in k pl t0" using tree_in_child [OF BNode(3), of 0] by (simp add: child_def)
  then obtain pl2 l es B where "firstLeaf pl1 (bt_pid t0) = Some (pl2, l)" "same pl pl2" "leaves t0 = (l, es) # B"
    using BNode(1) r(2) by blast
  moreover have "firstLeaf pl0 p = firstLeaf pl1 (bt_pid t0)"
    using r(1) by (subst firstLeaf.simps) (simp add: v_def)
  ultimately show ?case by auto
qed

section \<open>Scanning\<close>

lemma leaf_nodes: "holds N t \<Longrightarrow> (q, es) \<in> set (leaves t) \<Longrightarrow> \<exists>nx. N q = Some (leaf_view nx es) \<and> node_fits (leaf_view nx es)"
  by (induction t rule: btree_kids) auto

lemma scan_leaf_append:
  "scan_leaf lo hi (xs @ ys) =
     (case scan_leaf lo hi xs of (rs, stop) \<Rightarrow>
        if stop then (rs, True) else (case scan_leaf lo hi ys of (rs', stop) \<Rightarrow> (rs @ rs', stop)))"
  by (induction lo hi xs rule: scan_leaf.induct) (auto split: prod.splits option.splits)

lemma scan_leaves_spec:
  assumes "\<forall>x\<in>set L. \<exists>nx. pool_nodes pl (fst x) = Some (leaf_view nx (snd x)) \<and> 0 \<le> fst x \<and> fst x < pool_pages pl"
    and "linked (pool_nodes pl) (map fst L) (- 1)" "same pl pl0"
  shows "\<exists>pl1. scan_leaves pl0 (hd (map fst L @ [- 1])) lo hi out =
    Some (pl1, out @ fst (scan_leaf lo hi (concat (map snd L)))) \<and> same pl pl1"
  using assms
proof (induction L arbitrary: pl0 out)
  case Nil
  then show ?case by (subst scan_leaves.simps) auto
next
  case (Cons x L)
  obtain l es where x: "x = (l, es)" by (metis surj_pair)
  obtain nx where N: "pool_nodes pl l = Some (leaf_view nx es)" "0 \<le> l" "l < pool_pages pl"
    using Cons.prems(1) x by auto
  have nx: "nx = hd (map fst L @ [- 1])" using Cons.prems(2) N by (simp add: x)
  obtain pl1 where r: "readNode pl0 l = Some (pl1, leaf_view nx es)" "same pl pl1"
    by (rule read_same [OF Cons.prems(3) N(2,3,1)])
  obtain rs stop where sc: "scan_leaf lo hi es = (rs, stop)" by (metis surj_pair)
  have step: "scan_leaves pl0 l lo hi out =
      (if stop then Some (pl1, out @ rs) else scan_leaves pl1 nx lo hi (out @ rs))"
    using r(1) N(2) sc by (subst scan_leaves.simps) simp
  show ?case
  proof (cases stop)
    case True
    then show ?thesis using step sc r(2) by (simp add: x scan_leaf_append)
  next
    case False
    have "\<exists>pl2. scan_leaves pl1 (hd (map fst L @ [- 1])) lo hi (out @ rs) =
        Some (pl2, (out @ rs) @ fst (scan_leaf lo hi (concat (map snd L)))) \<and> same pl pl2"
      using Cons.prems(1,2) r(2) by (intro Cons.IH) auto
    then show ?thesis using step sc False nx by (auto simp: x scan_leaf_append split: prod.splits)
  qed
qed

definition within :: "val option \<Rightarrow> val option \<Rightarrow> entry \<Rightarrow> bool" where
  "within lo hi x \<longleftrightarrow> \<not> (case lo of Some l \<Rightarrow> valueLess (fst x) l | None \<Rightarrow> False) \<and>
     \<not> (case hi of Some h \<Rightarrow> valueLess h (fst x) | None \<Rightarrow> False)"

definition in_order :: "entry list \<Rightarrow> bool" where
  "in_order es \<longleftrightarrow> sorted_wrt (\<lambda>x y. erank x < erank y) es"

lemma in_order_entries: "ordered (items t) \<Longrightarrow> in_order (entries t)"
proof -
  have "ordered its \<Longrightarrow> in_order (leaf_entries its)" for its
  proof (induction its)
    case (Cons it its)
    obtain e b where "it = (e, b)" by (metis surj_pair)
    moreover have "erank e < erank x" if "b" "x \<in> set (leaf_entries its)" "it = (e, b)" for x
      using that Cons.prems unfolding leaf_entries_mem by fastforce
    ultimately show ?case using Cons by (cases b) (auto simp: in_order_def)
  qed (simp add: in_order_def)
  then show "ordered (items t) \<Longrightarrow> in_order (entries t)" by (simp add: entries_items)
qed

lemma scan_leaf_filter:
  assumes "in_order es" "\<forall>x\<in>set es. in_class k (fst x)" "\<forall>h\<in>set_option hi. in_class k h"
  shows "fst (scan_leaf lo hi es) = map snd (filter (within lo hi) es)"
  using assms
proof (induction lo hi es rule: scan_leaf.induct)
  case (2 lo hi ka r es)
  show ?case
  proof (cases "hi")
    case None
    then show ?thesis using 2 by (auto simp: within_def in_order_def split: prod.splits option.splits)
  next
    case (Some h)
    have "valueLess h (fst x)" if h: "valueLess h ka" "x \<in> set es" for x
    proof -
      have "erank (ka, r) < erank x" using 2 that by (auto simp: in_order_def)
      then have "val_rank ka \<le> val_rank (fst x)" by (auto simp: erank_def)
      moreover have "in_class k h" "in_class k ka" "in_class k (fst x)"
        using Some 2(4,5) that by (auto simp: in_order_def)
      ultimately show ?thesis using h(1) by (simp add: valueLess_iff [of k])
    qed
    then have none: "valueLess h ka \<Longrightarrow> filter (within lo hi) es = []"
      using Some by (auto simp: within_def filter_empty_conv)
    have IH: "\<not> valueLess h ka \<Longrightarrow> fst (scan_leaf lo hi es) = map snd (filter (within lo hi) es)"
      "(case lo of Some l \<Rightarrow> valueLess ka l | None \<Rightarrow> False) \<Longrightarrow>
        fst (scan_leaf lo hi es) = map snd (filter (within lo hi) es)"
      using 2 Some by (auto simp: in_order_def split: option.splits)
    show ?thesis
    proof (cases "case lo of Some l \<Rightarrow> valueLess ka l | None \<Rightarrow> False")
      case True
      then have "\<not> within lo hi (ka, r)" by (cases lo) (simp_all add: within_def)
      then show ?thesis using IH(2) True by simp
    next
      case F: False
      show ?thesis
      proof (cases "valueLess h ka")
        case True
        then have "\<not> within lo hi (ka, r)" using Some by (simp add: within_def)
        then show ?thesis using True F Some none by simp
      next
        case False
        then have "within lo hi (ka, r)" using F Some by (cases lo) (simp_all add: within_def)
        then show ?thesis using F False Some IH(1) by (auto split: prod.splits)
      qed
    qed
  qed
qed simp

section \<open>Erasing\<close>

text \<open>The tree without the entries of one rank.\<close>

fun without :: "entry \<Rightarrow> btree \<Rightarrow> btree" where
  "without e (BLeaf p es) = BLeaf p (filter (\<lambda>x. erank x \<noteq> erank e) es)"
| "without e (BNode p t0 sts) = BNode p (without e t0) (map (\<lambda>st. (fst st, without e (snd st))) sts)"

lemma without_pid [simp]: "bt_pid (without e t) = bt_pid t"
  by (cases t) simp_all

lemma without_pids [simp]: "pids (without e t) = pids t"
proof (induction t rule: btree_kids)
  case (BNode p t0 sts)
  have "map (\<lambda>st. pids (without e (snd st))) sts = map (\<lambda>st. pids (snd st)) sts" using BNode(2) by simp
  then show ?case using BNode(1) by (simp add: comp_def del: map_eq_conv)
qed simp

lemma without_leaves:
  "leaves (without e t) = map (\<lambda>x. (fst x, filter (\<lambda>y. erank y \<noteq> erank e) (snd x))) (leaves t)"
proof (induction t rule: btree_kids)
  case (BNode p t0 sts)
  have "map (\<lambda>st. leaves (without e (snd st))) sts =
    map (\<lambda>st. map (\<lambda>x. (fst x, filter (\<lambda>y. erank y \<noteq> erank e) (snd x))) (leaves (snd st))) sts"
    using BNode(2) by simp
  then show ?case using BNode(1) by (simp add: comp_def map_concat del: map_eq_conv)
qed simp

lemma without_leaf_ids [simp]: "leaf_ids (without e t) = leaf_ids t"
  by (simp add: leaf_ids_def without_leaves comp_def)

lemma without_items:
  "items (without e t) = filter (\<lambda>it. \<not> (snd it \<and> erank (fst it) = erank e)) (items t)"
proof (induction t rule: btree_kids)
  case (BLeaf p es)
  then show ?case by (simp add: filter_map comp_def)
next
  case (BNode p t0 sts)
  have "map (\<lambda>st. (fst st, False) # items (without e (snd st))) sts =
    map (\<lambda>st. filter (\<lambda>it. \<not> (snd it \<and> erank (fst it) = erank e)) ((fst st, False) # items (snd st))) sts"
    using BNode(2) by simp
  then show ?case using BNode(1) by (simp add: comp_def filter_concat del: map_eq_conv)
qed

lemma without_entries: "entries (without e t) = filter (\<lambda>x. erank x \<noteq> erank e) (entries t)"
  by (simp add: entries_def without_leaves comp_def filter_concat map_concat)

lemma holds_without:
  assumes "holds N t" "distinct (pids t)"
    and "\<forall>x\<in>set (leaves t). \<exists>nx. N' (fst x) = Some (leaf_view nx (filter (\<lambda>y. erank y \<noteq> erank e) (snd x))) \<and>
      node_fits (leaf_view nx (filter (\<lambda>y. erank y \<noteq> erank e) (snd x)))"
    and "\<forall>q\<in>set (pids t) - set (leaf_ids t). N' q = N q"
  shows "holds N' (without e t)"
  using assms
proof (induction t rule: btree_kids)
  case (BNode p t0 sts)
  have kid: "holds N' (without e u)"
    if IH: "holds N u \<Longrightarrow> distinct (pids u) \<Longrightarrow>
        \<forall>x\<in>set (leaves u). \<exists>nx. N' (fst x) = Some (leaf_view nx (filter (\<lambda>y. erank y \<noteq> erank e) (snd x))) \<and>
          node_fits (leaf_view nx (filter (\<lambda>y. erank y \<noteq> erank e) (snd x))) \<Longrightarrow>
        \<forall>q\<in>set (pids u) - set (leaf_ids u). N' q = N q \<Longrightarrow> holds N' (without e u)"
      and i: "i \<le> length sts" and u: "u = child i t0 sts" for u i
  proof (rule IH)
    have pi: "pids (BNode p t0 sts) = p # before pids no_sep i t0 sts @ pids u @ after pids no_sep i sts"
      unfolding forest_node u by (simp only: forest_at [OF i])
    have li: "leaf_ids (BNode p t0 sts) = before leaf_ids no_sep i t0 sts @ leaf_ids u @ after leaf_ids no_sep i sts"
      unfolding leaf_ids_node u by (rule forest_at [OF i])
    have lv: "leaves (BNode p t0 sts) = before leaves no_sep i t0 sts @ leaves u @ after leaves no_sep i sts"
      unfolding forest_node u by (rule forest_at [OF i])
    show "holds N u" unfolding u by (rule holds_child [OF BNode(3) i])
    show "distinct (pids u)" using BNode(4) unfolding pi by simp
    show "\<forall>x\<in>set (leaves u). \<exists>nx. N' (fst x) = Some (leaf_view nx (filter (\<lambda>y. erank y \<noteq> erank e) (snd x))) \<and>
        node_fits (leaf_view nx (filter (\<lambda>y. erank y \<noteq> erank e) (snd x)))"
      using BNode(5) unfolding lv by simp
    show "\<forall>q\<in>set (pids u) - set (leaf_ids u). N' q = N q"
    proof
      fix q
      assume q: "q \<in> set (pids u) - set (leaf_ids u)"
      have "set (before leaf_ids no_sep i t0 sts) \<subseteq> set (before pids no_sep i t0 sts)"
        "set (after leaf_ids no_sep i sts) \<subseteq> set (after pids no_sep i sts)"
        by (rule before_subset [OF leaf_ids_pids], rule after_subset [OF leaf_ids_pids])
      then have "q \<in> set (pids (BNode p t0 sts)) - set (leaf_ids (BNode p t0 sts))"
        using q BNode(4) unfolding pi li by auto
      then show "N' q = N q" using BNode(6) by blast
    qed
  qed
  have "holds N' (without e t0)" by (rule kid [OF BNode(1), of 0]) (simp_all add: child_def)
  moreover have "holds N' (without e (snd st))" if st: "st \<in> set sts" for st
  proof -
    obtain j where "j < length sts" "sts ! j = st" using st by (metis in_set_conv_nth)
    then show ?thesis by (intro kid [OF BNode(2) [OF st], of "Suc j"]) (simp_all add: child_def)
  qed
  moreover have "N' p = N p"
  proof -
    have "set (leaf_ids (BNode p t0 sts)) \<subseteq> set (forest pids no_sep t0 sts)"
      unfolding leaf_ids_node by (rule forest_subset [OF leaf_ids_pids])
    then have "p \<in> set (pids (BNode p t0 sts)) - set (leaf_ids (BNode p t0 sts))"
      using BNode(4) unfolding forest_node by auto
    then show ?thesis using BNode(6) by blast
  qed
  ultimately show ?case using BNode(3) by (simp add: comp_def)
qed simp

lemma linked_next:
  assumes "linked N ps nx" "\<And>p v. p \<in> set ps \<Longrightarrow> N p = Some v \<Longrightarrow> \<exists>v'. N' p = Some v' \<and> nv_next v' = nv_next v"
  shows "linked N' ps nx"
  using assms
proof (induction ps)
  case (Cons p ps)
  then obtain v where "N p = Some v" "nv_next v = hd (ps @ [nx])" by auto
  moreover from Cons.prems(2) [of p v] this(1) obtain v' where "N' p = Some v'" "nv_next v' = nv_next v" by auto
  ultimately show ?case using Cons by simp
qed simp

lemma filter_measure: "node_measure (map fst (filter P es)) True \<le> node_measure (map fst es) True"
  by (induction es) (auto simp: measure_leaf)

lemma drop_nth_filter:
  assumes "in_order es" "i < length es" "erank (es ! i) = erank e"
  shows "drop_nth i es = filter (\<lambda>x. erank x \<noteq> erank e) es"
proof -
  have "es = take i es @ es ! i # drop (Suc i) es" by (rule id_take_nth_drop [OF assms(2)])
  then have o: "in_order (take i es @ es ! i # drop (Suc i) es)" using assms(1) by simp
  have "filter (\<lambda>x. erank x \<noteq> erank e) (take i es) = take i es"
    "filter (\<lambda>x. erank x \<noteq> erank e) (drop (Suc i) es) = drop (Suc i) es"
    using o assms(3) by (auto simp: in_order_def sorted_wrt_append filter_id_conv)
  then have "filter (\<lambda>x. erank x \<noteq> erank e) (take i es @ es ! i # drop (Suc i) es) = drop_nth i es"
    using assms(3) by (simp add: drop_nth_def)
  then show ?thesis using \<open>es = take i es @ es ! i # drop (Suc i) es\<close> by simp
qed

lemma map_drop_nth: "map f (drop_nth i xs) = drop_nth i (map f xs)"
  by (simp add: drop_nth_def take_map drop_map)

section \<open>The refinement\<close>

text \<open>
  \<open>represents k t tr\<close>: the pages of the tree spell \<open>tr\<close>, nothing before the first insertion.
  \<open>kept\<close> says that an operation leaves the pages alone that are not the tree's.
\<close>

definition represents :: "val_class \<Rightarrow> dtree \<Rightarrow> btree option \<Rightarrow> bool" where
  "represents k t tr \<longleftrightarrow> pool_inv (dt_pool t) \<and>
     (case tr of
        None \<Rightarrow> rootId t = - 1
      | Some b \<Rightarrow> rootId t = bt_pid b \<and> tree_in k (dt_pool t) b \<and>
          linked (pool_nodes (dt_pool t)) (leaf_ids b) (- 1))"

definition contents :: "btree option \<Rightarrow> entry list" where
  "contents tr = (case tr of None \<Rightarrow> [] | Some b \<Rightarrow> entries b)"

definition tree_pages :: "btree option \<Rightarrow> int list" where
  "tree_pages tr = (case tr of None \<Rightarrow> [] | Some b \<Rightarrow> pids b)"

definition room :: "dtree \<Rightarrow> btree option \<Rightarrow> bool" where
  "room t tr \<longleftrightarrow> pool_pages (dt_pool t) + int (length (tree_pages tr)) + 1 < 2 ^ 31"

definition kept :: "dtree \<Rightarrow> btree option \<Rightarrow> dtree \<Rightarrow> btree option \<Rightarrow> bool" where
  "kept t tr t' tr' \<longleftrightarrow>
     (\<forall>q. q < pool_pages (dt_pool t) \<and> q \<notin> set (tree_pages tr) \<longrightarrow>
        pool_content (dt_pool t') q = pool_content (dt_pool t) q) \<and>
     set (tree_pages tr') \<subseteq> set (tree_pages tr) \<union> {pool_pages (dt_pool t)..<pool_pages (dt_pool t')} \<and>
     pool_pages (dt_pool t) \<le> pool_pages (dt_pool t')"

fun enter :: "entry \<Rightarrow> entry list \<Rightarrow> entry list" where
  "enter e [] = [e]"
| "enter e (x # xs) =
     (if erank x < erank e then x # enter e xs else if erank x = erank e then x # xs else e # x # xs)"

lemma enter_above: "\<forall>x\<in>set xs. erank e < erank x \<Longrightarrow> enter e xs = e # xs"
  by (cases xs) auto

lemma ins_enter: "ordered its \<Longrightarrow> leaf_entries (ins e its) = enter e (leaf_entries its)"
proof (induction its)
  case (Cons it its)
  obtain x b where it: "it = (x, b)" by (metis surj_pair)
  show ?case
  proof (cases b)
    case True
    then show ?thesis using Cons by (auto simp: it)
  next
    case False
    show ?thesis
    proof (cases "erank x \<le> erank e")
      case True
      then have "xr it < (erank e, True)" using False it by (auto simp: le_less)
      then show ?thesis using Cons it False by simp
    next
      case F: False
      have "erank e < erank y" if "y \<in> set (leaf_entries its)" for y
      proof -
        have "(erank x, False) < (erank y, True)"
          using Cons.prems that it False unfolding leaf_entries_mem by fastforce
        then show ?thesis using F by auto
      qed
      then have "enter e (leaf_entries its) = e # leaf_entries its" by (intro enter_above) blast
      then show ?thesis using F it False by auto
    qed
  qed
qed simp

lemma grown_facts:
  assumes t: "tree_in k pl b" and e: "entry_ok k e" and g: "grown pl pl3 b t1 rest"
    and sep: "sep_added (ins e (items b)) (forest items sep_item t1 rest)"
  shows "ordered (forest items sep_item t1 rest)"
    and "\<forall>it\<in>set (forest items sep_item t1 rest). entry_ok k (fst it)"
    and "\<forall>q\<in>set (forest pids no_sep t1 rest). 0 \<le> q \<and> q < pool_pages pl3"
    and "leaf_entries (forest items sep_item t1 rest) = enter e (entries b)"
proof -
  have ord: "ordered (items b)" using t by (simp add: tree_in_def)
  show "ordered (forest items sep_item t1 rest)"
    by (rule sep_added_ordered [OF sep ordered_ins [OF ord]])
  show "\<forall>it\<in>set (forest items sep_item t1 rest). entry_ok k (fst it)"
  proof
    fix it
    assume "it \<in> set (forest items sep_item t1 rest)"
    then obtain x where "x \<in> set (ins e (items b))" "fst it = fst x"
      using sep_added_keys [OF sep] by blast
    then have "x = (e, True) \<or> x \<in> set (items b)" using set_ins [of e "items b"] by blast
    then show "entry_ok k (fst it)"
      using t e \<open>fst it = fst x\<close> unfolding tree_in_def by (elim disjE) simp_all
  qed
  show "\<forall>q\<in>set (forest pids no_sep t1 rest). 0 \<le> q \<and> q < pool_pages pl3"
  proof
    fix q
    assume "q \<in> set (forest pids no_sep t1 rest)"
    then have "q \<in> set (pids b) \<or> q \<in> {pool_pages pl..<pool_pages pl3}" using g by (auto simp: grown_def)
    moreover have "0 \<le> q \<and> q < pool_pages pl" if "q \<in> set (pids b)" using t that by (simp add: tree_in_def)
    moreover have "0 \<le> bt_pid b \<and> bt_pid b < pool_pages pl" using t bt_pid_in [of b] by (simp add: tree_in_def)
    ultimately show "0 \<le> q \<and> q < pool_pages pl3" using g by (auto simp: grown_def)
  qed
  show "leaf_entries (forest items sep_item t1 rest) = enter e (entries b)"
    using sep_added_entries [OF sep] ins_enter [OF ord] by (simp add: entries_items)
qed

lemma insert_into_none:
  assumes "represents k t None" "entry_ok k e" "room t None"
  obtains t' tr' where "dtree_insert t (fst e) (snd e) = Some t'" "represents k t' tr'"
    "contents tr' = [e]" "kept t None t' tr'"
proof -
  define pl where "pl = dt_pool t"
  have r: "rootId t = - 1" and inv: "pool_inv pl" using assms(1) by (simp_all add: represents_def pl_def)
  have np: "0 \<le> pool_pages pl" using inv by (auto simp: pool_inv_def dest: pool_okD(6))
  note ed = entry_okD [OF assms(2)]
  have fit: "node_fits (leaf_view (- 1) [e])"
    using ed by (simp add: leaf_fits measure_leaf PAGE_SIZE_def in_i32_def)
  have v: "\<lparr>nv_leaf = True, nv_next = - 1, nv_keys = [fst e], nv_rids = [snd e], nv_children = []\<rparr> =
      leaf_view (- 1) [e]"
    by (simp add: leaf_view_def)
  obtain pl' where a: "allocNode pl (leaf_view (- 1) [e]) = Some (pl', pool_pages pl)" "pool_inv pl'"
    "\<And>q. q \<noteq> pool_pages pl \<Longrightarrow> pool_content pl' q = pool_content pl q"
    "pool_nodes pl' = (pool_nodes pl)(pool_pages pl := Some (leaf_view (- 1) [e]))"
    "pool_pages pl' = pool_pages pl + 1"
    using allocNode_spec [OF inv fit] by metis
  define b where "b = BLeaf (pool_pages pl) [e]"
  define t' where "t' = t\<lparr>dt_pool := pl', rootId := pool_pages pl, distinctKeys := distinctKeys t + 1\<rparr>"
  have "dtree_insert t (fst e) (snd e) = Some t'"
    unfolding dtree_insert_def pl_def [symmetric] v a(1) using r by (simp add: t'_def)
  moreover have "represents k t' (Some b)"
    using a fit assms(2) np by (auto simp: represents_def t'_def b_def tree_in_def leaf_ids_def)
  moreover have "contents (Some b) = [e]" by (simp add: contents_def b_def entries_def)
  moreover have "kept t None t' (Some b)"
    using a(3,5) by (auto simp: kept_def tree_pages_def t'_def b_def pl_def)
  ultimately show thesis by (rule that)
qed

lemma insert_into_some:
  assumes rep: "represents k t (Some b)" and e: "entry_ok k e" and rm: "room t (Some b)"
  obtains t' tr' where "dtree_insert t (fst e) (snd e) = Some t'" "represents k t' tr'"
    "contents tr' = enter e (entries b)" "kept t (Some b) t' tr'"
proof -
  define pl where "pl = dt_pool t"
  have inv: "pool_inv pl" and root: "rootId t = bt_pid b" and tin: "tree_in k pl b"
    and lk: "linked (pool_nodes pl) (leaf_ids b) (- 1)"
    using rep by (simp_all add: represents_def pl_def)
  have "0 \<le> bt_pid b" using tin bt_pid_in [of b] by (simp add: tree_in_def)
  then have r: "rootId t \<noteq> - 1" using root by simp
  have rm': "pool_pages pl + int (length (pids b)) + 1 < 2 ^ 31" using rm by (simp add: room_def tree_pages_def pl_def)
  then have "pool_pages pl + int (length (pids b)) < 2 ^ 31" by simp
  then obtain ps l where i: "inserts_into pl b e ps l" using insert_tree [OF tin e] by blast
  obtain pl1 where f: "findLeaf pl (bt_pid b) (fst e) (snd e) [] = Some (pl1, l, ps)" "same pl pl1"
    using i same_refl [OF inv] unfolding inserts_into_def by (metis append_Nil)
  obtain pl2 new c pl3 t1 rest where g: "insert_leaf pl1 l (fst e) (snd e) = Some (pl2, new, c)"
    "propagate pl2 (rev ps) c = Some (pl3, carry_of rest)" "grown pl pl3 b t1 rest"
    "sep_added (ins e (items b)) (forest items sep_item t1 rest)"
    using i f(2) unfolding inserts_into_def by blast
  note gf = grown_facts [OF tin e g(3,4)]
  note gr = g(3) [unfolded grown_def]
  define tn where "tn = (if new then t\<lparr>distinctKeys := distinctKeys t + 1\<rparr> else t)"
  have tn: "rootId tn = rootId t" by (simp add: tn_def)
  have ins_eq: "dtree_insert t (fst e) (snd e) =
      (case carry_of rest of
         Done \<Rightarrow> Some (tn\<lparr>dt_pool := pl3\<rparr>)
       | Carry up ch \<Rightarrow> map_option (\<lambda>(pl, pid). tn\<lparr>dt_pool := pl, rootId := pid\<rparr>)
           (allocNode pl3 \<lparr>nv_leaf = False, nv_next = - 1, nv_keys = [fst up], nv_rids = [snd up],
              nv_children = [rootId t, ch]\<rparr>))"
    using r f(1) g(1,2) root tn by (simp add: dtree_insert_def pl_def tn_def Let_def split: carry.split)
  have lk3: "linked (pool_nodes pl3) (forest leaf_ids no_sep t1 rest) (- 1)" using gr lk by blast
  have pid1: "bt_pid t1 = rootId t" using gr root by simp
  show thesis
  proof (cases rest)
    case Nil
    define t' where "t' = tn\<lparr>dt_pool := pl3\<rparr>"
    have "dtree_insert t (fst e) (snd e) = Some t'" using ins_eq Nil by (simp add: t'_def)
    moreover have "represents k t' (Some t1)"
      using gr gf(1-3) lk3 Nil pid1 tn by (simp add: represents_def tree_in_def t'_def)
    moreover have "contents (Some t1) = enter e (entries b)"
      using gf(4) Nil by (simp add: contents_def entries_items)
    moreover have "kept t (Some b) t' (Some t1)"
      using gr Nil by (simp add: kept_def tree_pages_def t'_def pl_def)
    ultimately show thesis by (rule that)
  next
    case (Cons r1 rest')
    then obtain up t2 where rest: "rest = [(up, t2)]" using gr by (cases r1; cases rest') auto
    define R where "R = pool_pages pl3"
    define v where "v = inner_view [up] [bt_pid t1, bt_pid t2]"
    have upin: "(up, False) \<in> set (forest items sep_item t1 rest)" unfolding rest forest_one by simp
    then have up: "entry_ok k up" using gf(2) by force
    have pin: "bt_pid t1 \<in> set (forest pids no_sep t1 rest)" "bt_pid t2 \<in> set (forest pids no_sep t1 rest)"
      unfolding rest forest_one using bt_pid_in by simp_all
    have rng: "0 \<le> bt_pid t1" "0 \<le> bt_pid t2" "bt_pid t1 < R" "bt_pid t2 < R"
      using gf(3) pin by (auto simp: R_def)
    have Rb: "R < 2 ^ 31 - 1" using gr rm' by (simp add: R_def)
    have fit: "node_fits v"
      using entry_okD [OF up] rng Rb by (simp add: v_def inner_fits in_i32_def measure_inner PAGE_SIZE_def)
    have inv3: "pool_inv pl3" using gr by simp
    obtain pl4 where a: "allocNode pl3 v = Some (pl4, R)" "pool_inv pl4"
      "\<And>q. q \<noteq> R \<Longrightarrow> pool_content pl4 q = pool_content pl3 q"
      "pool_nodes pl4 = (pool_nodes pl3)(R := Some v)" "pool_pages pl4 = pool_pages pl3 + 1"
      using allocNode_spec [OF inv3 fit] unfolding R_def by metis
    define b' where "b' = BNode R t1 [(up, t2)]"
    define t' where "t' = tn\<lparr>dt_pool := pl4, rootId := R\<rparr>"
    have vv: "\<lparr>nv_leaf = False, nv_next = - 1, nv_keys = [fst up], nv_rids = [snd up],
        nv_children = [rootId t, bt_pid t2]\<rparr> = v"
      by (simp add: v_def inner_view_def pid1)
    have "dtree_insert t (fst e) (snd e) = Some t'"
      using ins_eq a(1) vv by (simp add: rest t'_def)
    moreover have notR: "R \<notin> set (forest pids no_sep t1 rest)"
      using gf(3) by (auto simp: R_def)
    have pb: "pids b' = R # forest pids no_sep t1 rest" unfolding b'_def rest forest_node ..
    have ib: "items b' = forest items sep_item t1 rest" unfolding b'_def rest forest_node ..
    have lb: "leaf_ids b' = forest leaf_ids no_sep t1 rest" unfolding b'_def rest leaf_ids_node ..
    have N4: "pool_nodes pl4 q = pool_nodes pl3 q" if "q \<in> set (forest pids no_sep t1 rest)" for q
      using that notR a(4) by auto
    have "represents k t' (Some b')"
      unfolding represents_def option.case
    proof (intro conjI)
      show "pool_inv (dt_pool t')" "rootId t' = bt_pid b'" using a(2) by (simp_all add: t'_def b'_def)
      have "holds (pool_nodes pl4) t1" "holds (pool_nodes pl4) t2"
        using gr holds_cong [of t1 "pool_nodes pl4" "pool_nodes pl3"]
          holds_cong [of t2 "pool_nodes pl4" "pool_nodes pl3"] N4
        unfolding rest forest_one by simp_all
      then have h: "holds (pool_nodes pl4) b'"
        using a(4) fit by (simp add: b'_def v_def)
      show "tree_in k (dt_pool t') b'"
        unfolding tree_in_def pb ib
        using h gf(1-3) gr notR rng a(5) by (auto simp: t'_def R_def)
      have "linked (pool_nodes pl4) (forest leaf_ids no_sep t1 rest) (- 1)"
      proof -
        have "set (forest leaf_ids no_sep t1 rest) \<subseteq> set (forest pids no_sep t1 rest)"
          by (rule forest_subset [OF leaf_ids_pids])
        then show ?thesis using lk3 linked_cong [of _ "pool_nodes pl4" "pool_nodes pl3"] N4 by blast
      qed
      then show "linked (pool_nodes (dt_pool t')) (leaf_ids b') (- 1)" by (simp add: t'_def lb)
    qed
    moreover have "contents (Some b') = enter e (entries b)"
      using gf(4) by (simp add: contents_def entries_items ib)
    moreover have "kept t (Some b) t' (Some b')"
      using gr a(3,5) by (auto simp: kept_def tree_pages_def t'_def pl_def pb R_def)
    ultimately show thesis using that by blast
  qed
qed

lemma dtree_insert_spec:
  assumes "represents k t tr" "entry_ok k e" "room t tr"
  obtains t' tr' where "dtree_insert t (fst e) (snd e) = Some t'" "represents k t' tr'"
    "contents tr' = enter e (contents tr)" "kept t tr t' tr'"
proof (cases tr)
  case None
  then show thesis using insert_into_none [of k t e] assms that by (auto simp: contents_def)
next
  case (Some b)
  then show thesis using insert_into_some [of k t b e] assms that by (auto simp: contents_def)
qed

lemma represents_same:
  assumes "represents k t tr" "same (dt_pool t) pl"
  shows "represents k (t\<lparr>dt_pool := pl\<rparr>) tr"
  using assms by (auto simp: represents_def tree_in_same same_nodes split: option.splits) (auto simp: same_def)

lemma tree_entries_ok: "tree_in k pl b \<Longrightarrow> \<forall>x\<in>set (entries b). entry_ok k x"
proof
  fix x
  assume t: "tree_in k pl b" and x: "x \<in> set (entries b)"
  have "(x, True) \<in> set (items b)" using x unfolding entries_items leaf_entries_mem .
  then show "entry_ok k x" using t unfolding tree_in_def by (metis fst_conv)
qed

lemma tree_leaf:
  assumes "tree_in k pl b" "(q, es) \<in> set (leaves b)"
  shows "\<exists>nx. pool_nodes pl q = Some (leaf_view nx es) \<and> node_fits (leaf_view nx es)" "0 \<le> q" "q < pool_pages pl"
  using leaf_nodes [of "pool_nodes pl" b q es] leaf_in [OF assms(2)] assms unfolding tree_in_def by blast+

lemma represents_entries:
  assumes "represents k t tr"
  shows "in_order (contents tr)" "\<forall>x\<in>set (contents tr). entry_ok k x"
  using assms in_order_entries tree_entries_ok
  by (auto simp: represents_def contents_def tree_in_def in_order_def split: option.splits)

lemma min_rid_below:
  assumes "in_class k l" "entry_ok k x" "erank x < erank (l, kMinRid)"
  shows "valueLess (fst x) l"
proof -
  have "0 \<le> rpage (snd x)" "0 \<le> rslot (snd x)" using entry_okD(4) [OF assms(2)] by (simp_all add: rid_valid_def)
  then have "val_rank (fst x) < val_rank l" using assms(3) by (auto simp: erank_def kMinRid_def)
  then show ?thesis using entry_okD(1) [OF assms(2)] assms(1) by (simp add: valueLess_iff [of k])
qed

lemma dtree_scan_spec:
  assumes rep: "represents k t tr" and lo: "\<forall>l\<in>set_option lo. in_class k l" and hi: "\<forall>h\<in>set_option hi. in_class k h"
  obtains t' where "dtree_rangeScan t lo hi = Some (t', map snd (filter (within lo hi) (contents tr)))"
    "represents k t' tr" "kept t tr t' tr" "same (dt_pool t) (dt_pool t')"
proof (cases tr)
  case None
  then have "dtree_rangeScan t lo hi = Some (t, [])"
    using rep by (simp add: dtree_rangeScan_def represents_def)
  moreover have "kept t tr t tr" by (simp add: kept_def)
  moreover have "same (dt_pool t) (dt_pool t)" using rep by (simp add: represents_def same_def)
  ultimately show thesis using that rep by (simp add: None contents_def)
next
  case (Some b)
  define pl where "pl = dt_pool t"
  have inv: "pool_inv pl" and root: "rootId t = bt_pid b" and tin: "tree_in k pl b"
    and lk: "linked (pool_nodes pl) (leaf_ids b) (- 1)"
    using rep by (simp_all add: represents_def pl_def Some)
  have "0 \<le> bt_pid b" using tin bt_pid_in [of b] by (simp add: tree_in_def)
  then have r: "rootId t \<noteq> - 1" using root by simp
  have ord: "in_order (entries b)" using tin in_order_entries by (simp add: tree_in_def)
  have ok: "\<forall>x\<in>set (entries b). entry_ok k x" by (rule tree_entries_ok [OF tin])
  have "\<exists>pl1 l A L. (case lo of
          Some l \<Rightarrow> map_option (\<lambda>(pl, leafId, path). (pl, leafId)) (findLeaf pl (rootId t) l kMinRid [])
        | None \<Rightarrow> firstLeaf pl (rootId t)) = Some (pl1, l) \<and> same pl pl1 \<and> leaves b = A @ L \<and>
      hd (map fst L @ [- 1]) = l \<and> (\<forall>x\<in>set (concat (map snd A)). \<not> within lo hi x)"
  proof (cases lo)
    case None
    obtain pl1 l es B where "firstLeaf pl (bt_pid b) = Some (pl1, l)" "same pl pl1" "leaves b = (l, es) # B"
      using first_spec [OF tin same_refl [OF inv]] by blast
    then have "leaves b = [] @ (l, es) # B" "firstLeaf pl (rootId t) = Some (pl1, l)" using root by simp_all
    then show ?thesis using \<open>same pl pl1\<close> None
      by (intro exI [of _ pl1] exI [of _ l] exI [of _ "[]"] exI [of _ "(l, es) # B"]) simp
  next
    case lo': (Some lv)
    have cls: "in_class k (fst (lv, kMinRid))" using lo lo' by simp
    obtain pl1 ps l es A B where f: "findLeaf pl (bt_pid b) (fst (lv, kMinRid)) (snd (lv, kMinRid)) [] = Some (pl1, l, [] @ ps)"
      "same pl pl1" "ends_at (lv, kMinRid) b l es A B"
      using search_spec [OF tin same_refl [OF inv] cls, of "[]"] by blast
    have lv: "leaves b = A @ (l, es) # B" using f(3) by (simp add: ends_at_def)
    have "\<not> within lo hi x" if x: "x \<in> set (concat (map snd A))" for x
    proof -
      have "x \<in> set (entries b)" using x by (simp add: entries_def lv)
      then have "entry_ok k x" using ok by blast
      moreover have "erank x < erank (lv, kMinRid)" using f(3) x unfolding ends_at_def by blast
      ultimately have "valueLess (fst x) lv" using cls by (intro min_rid_below) simp_all
      then show ?thesis by (simp add: within_def lo')
    qed
    then show ?thesis using f(1,2) lv root lo'
      by (intro exI [of _ pl1] exI [of _ l] exI [of _ A] exI [of _ "(l, es) # B"]) simp
  qed
  then obtain pl1 l A L where s: "(case lo of
          Some l \<Rightarrow> map_option (\<lambda>(pl, leafId, path). (pl, leafId)) (findLeaf pl (rootId t) l kMinRid [])
        | None \<Rightarrow> firstLeaf pl (rootId t)) = Some (pl1, l)" "same pl pl1" "leaves b = A @ L"
      "hd (map fst L @ [- 1]) = l" "\<forall>x\<in>set (concat (map snd A)). \<not> within lo hi x" by blast
  have nodes: "\<forall>x\<in>set L. \<exists>nx. pool_nodes pl (fst x) = Some (leaf_view nx (snd x)) \<and> 0 \<le> fst x \<and> fst x < pool_pages pl"
  proof
    fix x
    assume "x \<in> set L"
    then have x: "(fst x, snd x) \<in> set (leaves b)" using s(3) by simp
    then show "\<exists>nx. pool_nodes pl (fst x) = Some (leaf_view nx (snd x)) \<and> 0 \<le> fst x \<and> fst x < pool_pages pl"
      using tree_leaf [OF tin x] by blast
  qed
  have lkL: "linked (pool_nodes pl) (map fst L) (- 1)"
    using lk by (simp add: leaf_ids_def s(3) linked_append)
  obtain pl2 where sc: "scan_leaves pl1 l lo hi [] = Some (pl2, fst (scan_leaf lo hi (concat (map snd L))))" "same pl pl2"
    using scan_leaves_spec [OF nodes lkL s(2), of lo hi "[]"] s(4) by auto
  have en: "entries b = concat (map snd A) @ concat (map snd L)" by (simp add: entries_def s(3))
  have "fst (scan_leaf lo hi (concat (map snd L))) = map snd (filter (within lo hi) (concat (map snd L)))"
  proof (rule scan_leaf_filter [OF _ _ hi])
    show "in_order (concat (map snd L))" using ord unfolding en in_order_def sorted_wrt_append by blast
    show "\<forall>x\<in>set (concat (map snd L)). in_class k (fst x)"
    proof
      fix x
      assume "x \<in> set (concat (map snd L))"
      then have "entry_ok k x" using ok unfolding en set_append by blast
      then show "in_class k (fst x)" by (rule entry_okD)
    qed
  qed
  moreover have "filter (within lo hi) (concat (map snd A)) = []" using s(5) unfolding filter_empty_conv by blast
  ultimately have out: "fst (scan_leaf lo hi (concat (map snd L))) = map snd (filter (within lo hi) (entries b))"
    unfolding en by simp
  have "dtree_rangeScan t lo hi = Some (t\<lparr>dt_pool := pl2\<rparr>, map snd (filter (within lo hi) (entries b)))"
    unfolding dtree_rangeScan_def pl_def [symmetric] s(1) using r sc(1) out by simp
  moreover have "represents k (t\<lparr>dt_pool := pl2\<rparr>) tr"
    using represents_same [OF rep] sc(2) by (simp add: pl_def)
  moreover have "kept t tr (t\<lparr>dt_pool := pl2\<rparr>) tr"
    using sc(2) by (auto simp: kept_def same_def pl_def)
  moreover have "same (dt_pool t) (dt_pool (t\<lparr>dt_pool := pl2\<rparr>))" using sc(2) by (simp add: pl_def)
  ultimately show thesis using that by (simp add: Some contents_def)
qed

lemma distinct_concat_sub:
  assumes "\<And>x. x \<in> set us \<Longrightarrow> set (f x) \<subseteq> set (g x)" "\<And>x. x \<in> set us \<Longrightarrow> distinct (g x) \<Longrightarrow> distinct (f x)"
    and "distinct (concat (map g us))"
  shows "distinct (concat (map f us)) \<and> set (concat (map f us)) \<subseteq> set (concat (map g us))"
  using assms
proof (induction us)
  case (Cons x us)
  have IH: "distinct (concat (map f us)) \<and> set (concat (map f us)) \<subseteq> set (concat (map g us))"
    by (rule Cons.IH) (use Cons.prems in auto)
  have "distinct (f x)" "set (f x) \<subseteq> set (g x)" using Cons.prems by auto
  moreover have "set (g x) \<inter> set (concat (map g us)) = {}" using Cons.prems(3) by simp
  ultimately have "distinct (f x @ concat (map f us))" using IH unfolding distinct_append by blast
  then show ?case using IH \<open>set (f x) \<subseteq> set (g x)\<close> by auto
qed simp

lemma leaf_ids_distinct: "distinct (pids t) \<Longrightarrow> distinct (leaf_ids t)"
proof (induction t rule: btree_kids)
  case (BLeaf p es)
  then show ?case by (simp add: leaf_ids_def)
next
  case (BNode p t0 sts)
  have pi: "pids (BNode p t0 sts) = p # concat (map pids (t0 # map snd sts))" by (simp add: comp_def)
  have li: "leaf_ids (BNode p t0 sts) = concat (map leaf_ids (t0 # map snd sts))"
    by (simp add: leaf_ids_node forest_def comp_def)
  have d: "distinct (concat (map pids (t0 # map snd sts)))" using BNode(3) unfolding pi by simp
  have each: "distinct (leaf_ids u)" if u: "u \<in> set (t0 # map snd sts)" "distinct (pids u)" for u
  proof -
    consider "u = t0" | st where "st \<in> set sts" "u = snd st" using u(1) by auto
    then show ?thesis using BNode(1,2) u(2) by cases simp_all
  qed
  show ?case
    unfolding li
    by (rule distinct_concat_sub [of "t0 # map snd sts" leaf_ids pids, OF leaf_ids_pids each d, THEN conjunct1])
qed

lemma dtree_erase_spec:
  assumes rep: "represents k t tr" and cls: "in_class k (fst e)"
  obtains t' tr' where
    "dtree_erase t (fst e) (snd e) = Some (t', \<exists>x\<in>set (contents tr). erank x = erank e)"
    "represents k t' tr'" "contents tr' = filter (\<lambda>x. erank x \<noteq> erank e) (contents tr)" "kept t tr t' tr'"
    "pool_pages (dt_pool t') = pool_pages (dt_pool t)" "tree_pages tr' = tree_pages tr"
proof (cases tr)
  case None
  then have "dtree_erase t (fst e) (snd e) = Some (t, False)"
    using rep by (simp add: dtree_erase_def represents_def)
  moreover have "kept t tr t tr" by (simp add: kept_def)
  ultimately show thesis using that rep by (simp add: None contents_def)
next
  case (Some b)
  define pl where "pl = dt_pool t"
  have inv: "pool_inv pl" and root: "rootId t = bt_pid b" and tin: "tree_in k pl b"
    and lk: "linked (pool_nodes pl) (leaf_ids b) (- 1)"
    using rep by (simp_all add: represents_def pl_def Some)
  have "0 \<le> bt_pid b" using tin bt_pid_in [of b] by (simp add: tree_in_def)
  then have r: "rootId t \<noteq> - 1" using root by simp
  have ord: "in_order (entries b)" using tin in_order_entries by (simp add: tree_in_def)
  have ok: "\<forall>x\<in>set (entries b). entry_ok k x" by (rule tree_entries_ok [OF tin])
  obtain pl1 ps l es A B where f: "findLeaf pl (bt_pid b) (fst e) (snd e) [] = Some (pl1, l, [] @ ps)"
    "same pl pl1" "ends_at e b l es A B"
    using search_spec [OF tin same_refl [OF inv] cls, of "[]"] by blast
  have lv: "leaves b = A @ (l, es) # B" using f(3) by (simp add: ends_at_def)
  have en: "entries b = concat (map snd A) @ es @ concat (map snd B)" by (simp add: entries_def lv)
  have ord_es: "in_order es" using ord unfolding en in_order_def sorted_wrt_append by blast
  have "\<forall>x\<in>set es. entry_ok k x" using ok unfolding en set_append by blast
  then have cls_es: "\<forall>x\<in>set es. in_class k (fst x)" using entry_okD(1) by blast
  have others: "\<forall>x\<in>set (concat (map snd A)) \<union> set (concat (map snd B)). erank x \<noteq> erank e"
    using f(3) unfolding ends_at_def by fastforce
  have lin: "(l, es) \<in> set (leaves b)" by (simp add: lv)
  obtain nx where N: "pool_nodes pl l = Some (leaf_view nx es)" and fit: "node_fits (leaf_view nx es)"
    using tree_leaf(1) [OF tin lin] by blast
  note lrange = tree_leaf(2,3) [OF tin lin]
  obtain pl2 where rd: "readNode pl1 l = Some (pl2, leaf_view nx es)" "same pl pl2"
    by (rule read_same [OF f(2) lrange N])
  define fnd where "fnd = find (\<lambda>i. keyEqual (map fst es ! i) (fst e) \<and> map snd es ! i = snd e) [0..<length es]"
  have start: "dtree_erase t (fst e) (snd e) =
      (case fnd of
         None \<Rightarrow> Some (t\<lparr>dt_pool := pl2\<rparr>, False)
       | Some i \<Rightarrow>
           (let hadPrev = (i > 0 \<and> keyEqual (map fst es ! (i - 1)) (fst e));
                hadNext = (i + 1 < length es \<and> keyEqual (map fst es ! (i + 1)) (fst e));
                t = (if \<not> hadPrev \<and> \<not> hadNext \<and> distinctKeys t > 0
                     then t\<lparr>distinctKeys := distinctKeys t - 1\<rparr> else t)
            in map_option (\<lambda>pl. (t\<lparr>dt_pool := pl\<rparr>, True)) (writeNode pl2 l (leaf_view nx (drop_nth i es)))))"
  proof -
    have "(leaf_view nx es)\<lparr>nv_keys := drop_nth i (map fst es), nv_rids := drop_nth i (map snd es)\<rparr> =
        leaf_view nx (drop_nth i es)" for i
      by (simp add: leaf_view_def map_drop_nth)
    then show ?thesis
      using r f(1) rd(1) root
      by (simp add: dtree_erase_def pl_def fnd_def Let_def cong: option.case_cong)
  qed
  show thesis
  proof (cases fnd)
    case None
    have none: "\<forall>x\<in>set es. erank x \<noteq> erank e"
    proof
      fix x
      assume "x \<in> set es"
      then obtain i where i: "i < length es" "es ! i = x" by (metis in_set_conv_nth)
      then have "\<not> (keyEqual (map fst es ! i) (fst e) \<and> map snd es ! i = snd e)"
        using None unfolding fnd_def find_None_iff by (metis atLeastLessThan_iff le0 set_upt)
      then show "erank x \<noteq> erank e" using present_iff [OF cls_es cls i(1)] i(2) by simp
    qed
    then have all: "\<forall>x\<in>set (entries b). erank x \<noteq> erank e" using others unfolding en set_append by blast
    have "dtree_erase t (fst e) (snd e) = Some (t\<lparr>dt_pool := pl2\<rparr>, \<exists>x\<in>set (contents tr). erank x = erank e)"
      using start None all by (simp add: Some contents_def)
    moreover have "represents k (t\<lparr>dt_pool := pl2\<rparr>) tr"
      using represents_same [OF rep] rd(2) by (simp add: pl_def)
    moreover have "contents tr = filter (\<lambda>x. erank x \<noteq> erank e) (contents tr)"
      using all by (simp add: Some contents_def filter_id_conv)
    moreover have "kept t tr (t\<lparr>dt_pool := pl2\<rparr>) tr" "pool_pages pl2 = pool_pages (dt_pool t)"
      using rd(2) by (auto simp: kept_def same_def pl_def)
    ultimately show thesis using that by simp
  next
    case found: (Some i)
    then have i: "i < length es" "keyEqual (map fst es ! i) (fst e) \<and> map snd es ! i = snd e"
      by (auto simp: fnd_def find_Some_iff)
    then have ei: "erank (es ! i) = erank e" using present_iff [OF cls_es cls i(1)] by simp
    define es' where "es' = filter (\<lambda>x. erank x \<noteq> erank e) es"
    have rem: "drop_nth i es = es'" unfolding es'_def by (rule drop_nth_filter [OF ord_es i(1) ei])
    have fit': "node_fits (leaf_view nx es')"
      using fit filter_measure [of "\<lambda>x. erank x \<noteq> erank e" es] by (auto simp: leaf_fits es'_def)
    have inv2: "pool_inv pl2" "l < pool_pages pl2" using rd(2) lrange by (auto simp: same_def)
    obtain pl3 where w: "writeNode pl2 l (leaf_view nx es') = Some pl3" "pool_inv pl3"
      "pool_content pl3 = (pool_content pl2)(l := page_of_node (leaf_view nx es') (pool_content pl2 l))"
      "pool_nodes pl3 = (pool_nodes pl2)(l := Some (leaf_view nx es'))" "pool_pages pl3 = pool_pages pl2"
      using writeNode_spec [OF inv2(1) lrange(1) inv2(2) fit'] by metis
    have N3: "pool_nodes pl3 = (pool_nodes pl)(l := Some (leaf_view nx es'))"
      using w(4) same_nodes [OF rd(2)] by simp
    have pg: "pool_pages pl3 = pool_pages pl" using w(5) rd(2) by (simp add: same_def)
    obtain tn where er: "dtree_erase t (fst e) (snd e) = Some (tn\<lparr>dt_pool := pl3\<rparr>, True)" "rootId tn = rootId t"
    proof -
      define tn where "tn = (if \<not> (i > 0 \<and> keyEqual (map fst es ! (i - 1)) (fst e)) \<and>
          \<not> (i + 1 < length es \<and> keyEqual (map fst es ! (i + 1)) (fst e)) \<and> distinctKeys t > 0
        then t\<lparr>distinctKeys := distinctKeys t - 1\<rparr> else t)"
      have "dtree_erase t (fst e) (snd e) = Some (tn\<lparr>dt_pool := pl3\<rparr>, True)"
        unfolding start found option.case Let_def rem w(1) tn_def [symmetric] by simp
      moreover have "rootId tn = rootId t" by (simp add: tn_def)
      ultimately show ?thesis using that by blast
    qed
    have dist_leaf: "distinct (leaf_ids b)" using tin by (intro leaf_ids_distinct) (simp add: tree_in_def)
    have leafN: "\<exists>nx. pool_nodes pl3 (fst x) = Some (leaf_view nx (filter (\<lambda>y. erank y \<noteq> erank e) (snd x))) \<and>
        node_fits (leaf_view nx (filter (\<lambda>y. erank y \<noteq> erank e) (snd x)))" if x: "x \<in> set (leaves b)" for x
    proof (cases "x = (l, es)")
      case True
      then show ?thesis using N3 fit' by (auto simp: es'_def)
    next
      case False
      then have xAB: "x \<in> set A \<union> set B" using x lv by auto
      have "fst x \<noteq> l" using dist_leaf xAB by (auto simp: leaf_ids_def lv)
      moreover have "filter (\<lambda>y. erank y \<noteq> erank e) (snd x) = snd x"
        using others xAB by (auto simp: filter_id_conv)
      moreover obtain nx' where "pool_nodes pl (fst x) = Some (leaf_view nx' (snd x))" "node_fits (leaf_view nx' (snd x))"
        using leaf_nodes [of "pool_nodes pl" b "fst x" "snd x"] x tin by (auto simp: tree_in_def)
      ultimately show ?thesis using N3 by auto
    qed
    have hold: "holds (pool_nodes pl3) (without e b)"
    proof (rule holds_without)
      show "holds (pool_nodes pl) b" "distinct (pids b)" using tin by (simp_all add: tree_in_def)
      show "\<forall>q\<in>set (pids b) - set (leaf_ids b). pool_nodes pl3 q = pool_nodes pl q"
      proof
        fix q
        assume "q \<in> set (pids b) - set (leaf_ids b)"
        moreover have "l \<in> set (leaf_ids b)" using lin by (force simp: leaf_ids_def)
        ultimately show "pool_nodes pl3 q = pool_nodes pl q" by (auto simp: N3)
      qed
    qed (use leafN in blast)
    define tr' where "tr' = Some (without e b)"
    have "represents k (tn\<lparr>dt_pool := pl3\<rparr>) tr'"
      unfolding represents_def tr'_def option.case
    proof (intro conjI)
      show "pool_inv (dt_pool (tn\<lparr>dt_pool := pl3\<rparr>))" "rootId (tn\<lparr>dt_pool := pl3\<rparr>) = bt_pid (without e b)"
        using w(2) er(2) root by simp_all
      show "tree_in k (dt_pool (tn\<lparr>dt_pool := pl3\<rparr>)) (without e b)"
        using tin hold pg unfolding tree_in_def
        by (auto simp: without_items ordered_def sorted_wrt_filter filter_map [symmetric] sorted_wrt_map)
      show "linked (pool_nodes (dt_pool (tn\<lparr>dt_pool := pl3\<rparr>))) (leaf_ids (without e b)) (- 1)"
      proof -
        have "\<exists>v'. pool_nodes pl3 q = Some v' \<and> nv_next v' = nv_next v" if "pool_nodes pl q = Some v" for q v
          using that N by (cases "q = l") (auto simp: N3)
        then have "linked (pool_nodes pl3) (leaf_ids b) (- 1)" by (intro linked_next [OF lk])
        then show ?thesis by simp
      qed
    qed
    moreover have "contents tr' = filter (\<lambda>x. erank x \<noteq> erank e) (contents tr)"
      by (simp add: tr'_def contents_def without_entries Some)
    moreover have "(\<exists>x\<in>set (contents tr). erank x = erank e)"
      using ei i(1) by (auto simp: Some contents_def en)
    moreover have "kept t tr (tn\<lparr>dt_pool := pl3\<rparr>) tr'"
      using w(3) rd(2) pg leaf_in [OF lin]
      by (auto simp: kept_def tree_pages_def tr'_def Some same_def pl_def)
    moreover have "tree_pages tr' = tree_pages tr" by (simp add: tree_pages_def tr'_def Some)
    ultimately show thesis using that er(1) pg by (simp add: pl_def)
  qed
qed

section \<open>Trees that share a pool\<close>

text \<open>Another user of the pool that leaves the tree's pages alone does not disturb the tree.\<close>

lemma represents_frame:
  assumes rep: "represents k t tr" and inv: "pool_inv pl" and pages: "pool_pages (dt_pool t) \<le> pool_pages pl"
    and same: "\<And>q. q \<in> set (tree_pages tr) \<Longrightarrow> pool_content pl q = pool_content (dt_pool t) q"
  shows "represents k (t\<lparr>dt_pool := pl\<rparr>) tr"
proof (cases tr)
  case None
  then show ?thesis using rep inv by (simp add: represents_def)
next
  case (Some b)
  have nodes: "pool_nodes pl q = pool_nodes (dt_pool t) q" if "q \<in> set (pids b)" for q
    using same [of q] that by (simp add: Some tree_pages_def pool_nodes_def)
  have r: "rootId t = bt_pid b" "tree_in k (dt_pool t) b" "linked (pool_nodes (dt_pool t)) (leaf_ids b) (- 1)"
    using rep by (simp_all add: represents_def Some)
  have "holds (pool_nodes pl) b" using r(2) holds_cong [of b "pool_nodes pl" "pool_nodes (dt_pool t)"] nodes
    by (simp add: tree_in_def)
  then have "tree_in k pl b" using r(2) pages by (force simp: tree_in_def)
  moreover have "linked (pool_nodes pl) (leaf_ids b) (- 1)"
    using r(3) linked_cong [of "leaf_ids b" "pool_nodes pl" "pool_nodes (dt_pool t)"] nodes leaf_ids_pids [of b] by auto
  ultimately show ?thesis using r(1) inv by (simp add: represents_def Some)
qed

section \<open>The interface of an ordered index\<close>

text \<open>
  What an index asks of its tree: a state represents a list of entries in strict order, through
  a ghost value that says which pages it has; entering, removing and scanning are total on a
  state that represents a list, and do to the list what their names say.
\<close>

locale entry_store =
  fixes rep :: "'s \<Rightarrow> 'g \<Rightarrow> bool" and ents :: "'g \<Rightarrow> entry list"
    and good :: "entry \<Rightarrow> bool" and key :: "val \<Rightarrow> bool" and space :: "'s \<Rightarrow> 'g \<Rightarrow> bool"
    and put :: "'s \<Rightarrow> val \<Rightarrow> record_id \<Rightarrow> 's option"
    and del :: "'s \<Rightarrow> val \<Rightarrow> record_id \<Rightarrow> ('s \<times> bool) option"
    and scan :: "'s \<Rightarrow> val option \<Rightarrow> val option \<Rightarrow> ('s \<times> record_id list) option"
  assumes ents_in_order: "rep s g \<Longrightarrow> in_order (ents g)"
    and good_key: "good e \<Longrightarrow> key (fst e)"
    and put_law: "rep s g \<Longrightarrow> good e \<Longrightarrow> space s g \<Longrightarrow>
      \<exists>s' g'. put s (fst e) (snd e) = Some s' \<and> rep s' g' \<and> ents g' = enter e (ents g)"
    and del_law: "rep s g \<Longrightarrow> key (fst e) \<Longrightarrow>
      \<exists>s' g'. del s (fst e) (snd e) = Some (s', \<exists>x\<in>set (ents g). erank x = erank e) \<and> rep s' g' \<and>
        ents g' = filter (\<lambda>x. erank x \<noteq> erank e) (ents g)"
    and scan_law: "rep s g \<Longrightarrow> \<forall>l\<in>set_option lo. key l \<Longrightarrow> \<forall>h\<in>set_option hi. key h \<Longrightarrow>
      \<exists>s'. scan s lo hi = Some (s', map snd (filter (within lo hi) (ents g))) \<and> rep s' g"
begin

lemma enter_without: "in_order es \<Longrightarrow> \<forall>x\<in>set es. erank x \<noteq> erank e \<Longrightarrow> filter (\<lambda>x. erank x \<noteq> erank e) (enter e es) = es"
proof (induction es)
  case (Cons x es)
  then show ?case by (auto simp: in_order_def filter_id_conv)
qed simp

lemma enter_present: "in_order es \<Longrightarrow> \<exists>x\<in>set es. erank x = erank e \<Longrightarrow> enter e es = es"
proof (induction es)
  case (Cons x es)
  obtain y where y: "y \<in> set (x # es)" "erank y = erank e" using Cons.prems(2) by blast
  show ?case
  proof (cases "erank x < erank e")
    case True
    then have "y \<in> set es" using y by auto
    then have "enter e es = es" using Cons.IH Cons.prems(1) y(2) by (auto simp: in_order_def)
    then show ?thesis using True by simp
  next
    case False
    have "erank x = erank e"
    proof (rule ccontr)
      assume ne: "erank x \<noteq> erank e"
      then have "y \<in> set es" using y by auto
      then have "erank x < erank y" using Cons.prems(1) by (simp add: in_order_def)
      then show False using False y(2) by simp
    qed
    then show ?thesis by simp
  qed
qed simp

text \<open>What a rolled-back insertion leaves: the entries it found.\<close>

lemma put_del:
  assumes "rep s g" "good e" "space s g" "\<forall>x\<in>set (ents g). erank x \<noteq> erank e"
  shows "\<exists>s1 s2 g2 b. put s (fst e) (snd e) = Some s1 \<and> del s1 (fst e) (snd e) = Some (s2, b) \<and>
    rep s2 g2 \<and> ents g2 = ents g"
proof -
  obtain s1 g1 where p: "put s (fst e) (snd e) = Some s1" "rep s1 g1" "ents g1 = enter e (ents g)"
    using put_law assms by blast
  obtain s2 g2 b where d: "del s1 (fst e) (snd e) = Some (s2, b)" "rep s2 g2"
    "ents g2 = filter (\<lambda>x. erank x \<noteq> erank e) (ents g1)"
    using del_law [OF p(2) good_key [OF assms(2)]] by blast
  have "ents g2 = ents g" unfolding d(3) p(3) by (rule enter_without [OF ents_in_order [OF assms(1)] assms(4)])
  then show ?thesis using p(1) d by blast
qed

end

interpretation disk_tree: entry_store "represents k" contents "entry_ok k" "in_class k" room
  dtree_insert dtree_erase dtree_rangeScan for k
proof
  show "represents k s g \<Longrightarrow> in_order (contents g)" for s g by (rule represents_entries(1))
  show "entry_ok k e \<Longrightarrow> in_class k (fst e)" for e by (rule entry_okD(1))
  show "\<exists>s' g'. dtree_insert s (fst e) (snd e) = Some s' \<and> represents k s' g' \<and> contents g' = enter e (contents g)"
    if "represents k s g" "entry_ok k e" "room s g" for s g e
    using dtree_insert_spec [OF that] by metis
  show "\<exists>s' g'. dtree_erase s (fst e) (snd e) = Some (s', \<exists>x\<in>set (contents g). erank x = erank e) \<and>
      represents k s' g' \<and> contents g' = filter (\<lambda>x. erank x \<noteq> erank e) (contents g)"
    if "represents k s g" "in_class k (fst e)" for s g e
    by (rule dtree_erase_spec [OF that]) blast
  show "\<exists>s'. dtree_rangeScan s lo hi = Some (s', map snd (filter (within lo hi) (contents g))) \<and> represents k s' g"
    if "represents k s g" "\<forall>l\<in>set_option lo. in_class k l" "\<forall>h\<in>set_option hi. in_class k h" for s g lo hi
    using dtree_scan_spec [OF that] by metis
qed

section \<open>Properties\<close>

text \<open>C27: Inserting into the page-resident B+ tree always returns and is entering the entry in
  the sorted list of entries the tree represents (nothing when the key is there with the same
  record identifier), splits of leaves, inner nodes and the root included; no page outside the
  tree changes, and every page the tree takes is a new one. The keys are of one class, their
  encodings at most 199 bytes long, and the page numbers fit an \<open>int\<close>.\<close>

theorem dtree_insert_refines:
  assumes "represents k t tr" "entry_ok k e" "room t tr"
  shows "\<exists>t' tr'. dtree_insert t (fst e) (snd e) = Some t' \<and> represents k t' tr' \<and>
    contents tr' = enter e (contents tr) \<and> kept t tr t' tr'"
  using dtree_insert_spec [OF assms] by metis

text \<open>C28: A range scan with any bounds, absent bounds included, always returns and lists exactly
  the record identifiers of the entries whose keys lie between the bounds, in the order of the
  entries; it changes no page. A lookup is the scan with both bounds at the key.\<close>

theorem dtree_scan_refines:
  assumes "represents k t tr" "\<forall>l\<in>set_option lo. in_class k l" "\<forall>h\<in>set_option hi. in_class k h"
  shows "\<exists>t'. dtree_rangeScan t lo hi = Some (t', map snd (filter (within lo hi) (contents tr))) \<and>
    represents k t' tr \<and> pool_content (dt_pool t') = pool_content (dt_pool t)"
proof -
  obtain t' where "dtree_rangeScan t lo hi = Some (t', map snd (filter (within lo hi) (contents tr)))"
    "represents k t' tr" "same (dt_pool t) (dt_pool t')"
    by (rule dtree_scan_spec [OF assms])
  then show ?thesis unfolding same_def by blast
qed

text \<open>C29: Erasing always returns, says whether the tree had the entry, and removes that entry and
  nothing else from the list the tree represents; no page outside the tree changes.\<close>

theorem dtree_erase_refines:
  assumes "represents k t tr" "in_class k (fst e)"
  shows "\<exists>t' tr'. dtree_erase t (fst e) (snd e) = Some (t', \<exists>x\<in>set (contents tr). erank x = erank e) \<and>
    represents k t' tr' \<and> contents tr' = filter (\<lambda>x. erank x \<noteq> erank e) (contents tr) \<and> kept t tr t' tr'"
  by (rule dtree_erase_spec [OF assms]) blast

text \<open>An empty tree over a pool with one frame, for the witnesses.\<close>

definition small_pool :: pool where
  "small_pool = pool_open \<lparr>fileBytes = [], numPages = 0\<rparr> 1 False"

lemma small_tree: "represents k (tree_open small_pool) None" "room (tree_open small_pool) None"
  using pool_inv_open [of "\<lparr>fileBytes = [], numPages = 0\<rparr>" 1 False]
  by (simp_all add: small_pool_def tree_open_def represents_def room_def tree_pages_def pool_pages_def
      pool_open_def Let_def)

definition sample_entry :: entry where
  "sample_entry = (VText ''relite'', \<lparr>rpage = 4, rslot = 2\<rparr>)"

lemma sample_ok: "entry_ok TextClass sample_entry"
  by (simp add: sample_entry_def entry_ok_def key_ok_def encodeValue_def rid_valid_def rid_i32_def in_i32_def)

theorem dtree_insert_refines_witness:
  "\<exists>t'. dtree_insert (tree_open small_pool) (VText ''relite'') \<lparr>rpage = 4, rslot = 2\<rparr> = Some t'"
  using dtree_insert_refines [OF small_tree(1) sample_ok small_tree(2)]
  by (auto simp: sample_entry_def)

theorem dtree_scan_refines_witness:
  "\<exists>t'. dtree_rangeScan (tree_open small_pool) (Some (VText ''a'')) None = Some (t', [])"
proof -
  have "\<forall>l\<in>set_option (Some (VText ''a'')). in_class TextClass l" "\<forall>h\<in>set_option None. in_class TextClass h"
    by simp_all
  from dtree_scan_refines [OF small_tree(1) this] show ?thesis by (auto simp: contents_def)
qed

theorem dtree_erase_refines_witness:
  "\<exists>t'. dtree_erase (tree_open small_pool) (VText ''relite'') \<lparr>rpage = 4, rslot = 2\<rparr> = Some (t', False)"
  using dtree_erase_refines [OF small_tree(1) entry_okD(1) [OF sample_ok]]
  by (auto simp: contents_def sample_entry_def)

text \<open>The 199 bytes are a real limit: the first insertion does not measure its node at all, so a
  text of 4086 bytes or more is written past the end of the page.\<close>

lemma long_key_leaves_page:
  assumes "4085 \<le> i" "i < length s" "s ! i \<noteq> NUL"
  shows "\<not> in_page (page_of_node (leaf_view (- 1) [(VText s, rid)]) p)"
proof -
  have nb: "node_bytes (leaf_view (- 1) [(VText s, rid)]) = entry_bytes (VText s, rid)"
    by (simp add: node_bytes_def)
  have "entry_bytes (VText s, rid) ! (3 + i) = s ! i"
    using assms(2) by (simp add: entry_bytes_def encodeValue_def Let_def nth_append)
  then have "page_of_node (leaf_view (- 1) [(VText s, rid)]) p (11 + i) = s ! i"
    using assms(2) unfolding page_of_node_eq nb by (simp add: mwrite_def encodeValue_def)
  moreover have "PAGE_SIZE \<le> 11 + i" using assms(1) by (simp add: PAGE_SIZE_def)
  ultimately show ?thesis using assms(3) unfolding in_page_def by metis
qed

end
