(* ===== verification/Indexes.thy ===== *)
theory Indexes
  imports TreeOps Bloom Tuples
begin

text \<open>
  Secondary indexes, \<open>src/src/index/index_manager.cpp\<close> and \<open>index_manager.hpp\<close>: an \<open>Index\<close> is a
  page-resident tree behind a Bloom filter of the bytes of its keys, and the manager a map from
  names to indexes. The indexes of one database share the buffer pool: the tree in an index's
  state carries the pool as that index last left it, and \<open>represents_frame\<close> is why an operation
  of another user of the pool does not disturb it. The iteration order of the hash map is
  unspecified and is a parameter \<open>order\<close> of the operations that iterate.
\<close>

section \<open>An index\<close>

record index =
  ix_name :: string
  ix_table :: int
  ix_columnIndex :: int
  ix_columns :: "int list"
  ix_tree :: dtree
  ix_bloom :: bloom

definition index_new :: "string \<Rightarrow> int \<Rightarrow> int list \<Rightarrow> pool \<Rightarrow> index" where
  "index_new n t cols pl =
     \<lparr>ix_name = n, ix_table = t, ix_columnIndex = (if cols = [] then - 1 else hd cols),
      ix_columns = cols, ix_tree = tree_open pl, ix_bloom = bloom_new 4096 4\<rparr>"

definition isComposite :: "index \<Rightarrow> bool" where
  "isComposite ix \<longleftrightarrow> length (ix_columns ix) > 1"

definition coversRow :: "index \<Rightarrow> nat \<Rightarrow> bool" where
  "coversRow ix width = list_all (\<lambda>c. \<not> (c < 0 \<or> c \<ge> int width)) (ix_columns ix)"

text \<open>The switch has no case for a \<open>Double\<close>, whose bytes are therefore empty.\<close>

fun keyBytes :: "val \<Rightarrow> bytes" where
  "keyBytes (VInt i) = enc_word i"
| "keyBytes (VBool b) = [char_of (if b then 1 else 0 :: nat)]"
| "keyBytes (VText s) = s"
| "keyBytes VNull = []"
| "keyBytes (VDouble _) = []"

definition keyFromValues :: "val list \<Rightarrow> val" where
  "keyFromValues picked =
     (if length picked = 1 then hd picked
      else VText (concat (map (\<lambda>v. nat_str (type_index v) @ '':'' @ toString v @ [CHR 0x1F]) picked)))"

definition index_keyOf :: "index \<Rightarrow> row \<Rightarrow> val" where
  "index_keyOf ix row =
     keyFromValues (map (\<lambda>c. if c \<ge> 0 \<and> c < int (length row) then row ! nat c else VNull) (ix_columns ix))"

definition index_add :: "index \<Rightarrow> val \<Rightarrow> record_id \<Rightarrow> index option" where
  "index_add ix key rid =
     map_option (\<lambda>t. ix\<lparr>ix_tree := t, ix_bloom := bloom_add (ix_bloom ix) (keyBytes key)\<rparr>)
       (dtree_insert (ix_tree ix) key rid)"

definition index_remove :: "index \<Rightarrow> val \<Rightarrow> record_id \<Rightarrow> (index \<times> bool) option" where
  "index_remove ix key rid =
     map_option (\<lambda>(t, found). (ix\<lparr>ix_tree := t\<rparr>, found)) (dtree_erase (ix_tree ix) key rid)"

definition index_lookup :: "index \<Rightarrow> val \<Rightarrow> (index \<times> record_id list) option" where
  "index_lookup ix key =
     (if \<not> mightContain (ix_bloom ix) (keyBytes key) then Some (ix, [])
      else map_option (\<lambda>(t, rids). (ix\<lparr>ix_tree := t\<rparr>, rids)) (dtree_lookup (ix_tree ix) key))"

section \<open>The manager\<close>

record index_manager =
  byName :: "string \<Rightarrow> index option"
  im_pool :: pool

definition im_setBufferPool :: "index_manager \<Rightarrow> pool \<Rightarrow> index_manager" where
  "im_setBufferPool m pl = m\<lparr>im_pool := pl\<rparr>"

definition im_create :: "index_manager \<Rightarrow> string \<Rightarrow> int \<Rightarrow> int list \<Rightarrow> index_manager \<times> index option" where
  "im_create m n tid cols =
     (if byName m n \<noteq> None then (m, None)
      else let idx = index_new n tid cols (im_pool m)
           in (m\<lparr>byName := (byName m)(n \<mapsto> idx)\<rparr>, Some idx))"

definition im_exists :: "index_manager \<Rightarrow> string \<Rightarrow> bool" where
  "im_exists m n \<longleftrightarrow> byName m n \<noteq> None"

definition im_drop :: "index_manager \<Rightarrow> string \<Rightarrow> index_manager \<times> bool" where
  "im_drop m n = (m\<lparr>byName := (byName m)(n := None)\<rparr>, byName m n \<noteq> None)"

definition forTable :: "string list \<Rightarrow> index_manager \<Rightarrow> int \<Rightarrow> index list" where
  "forTable order m tid =
     filter (\<lambda>idx. ix_table idx = tid) (List.map_filter (byName m) order)"

definition im_find :: "string list \<Rightarrow> index_manager \<Rightarrow> int \<Rightarrow> int \<Rightarrow> index option" where
  "im_find order m tid col =
     find (\<lambda>idx. ix_table idx = tid \<and> length (ix_columns idx) = 1 \<and> ix_columnIndex idx = col)
       (List.map_filter (byName m) order)"

definition im_dropTable :: "index_manager \<Rightarrow> int \<Rightarrow> index_manager" where
  "im_dropTable m tid =
     m\<lparr>byName := (\<lambda>n. case byName m n of
                        Some idx \<Rightarrow> if ix_table idx = tid then None else Some idx
                      | None \<Rightarrow> None)\<rparr>"

section \<open>The tree and its filter together\<close>

definition index_ok :: "val_class \<Rightarrow> index \<Rightarrow> btree option \<Rightarrow> bool" where
  "index_ok k ix tr \<longleftrightarrow> represents k (ix_tree ix) tr \<and> bloom_ok (ix_bloom ix) \<and>
     (\<forall>x\<in>set (contents tr). mightContain (ix_bloom ix) (keyBytes (fst x)))"

lemma enter_set: "set (enter e es) \<subseteq> insert e (set es)"
  by (induction es) auto

lemma index_new_ok: "represents k (tree_open pl) None \<Longrightarrow> index_ok k (index_new n t cols pl) None"
  by (simp add: index_ok_def index_new_def contents_def bloom_new_ok bloom_fits_def)

lemma index_add_spec:
  assumes "index_ok k ix tr" "entry_ok k e" "room (ix_tree ix) tr"
  obtains ix' tr' where "index_add ix (fst e) (snd e) = Some ix'" "index_ok k ix' tr'"
    "contents tr' = enter e (contents tr)" "kept (ix_tree ix) tr (ix_tree ix') tr'"
proof -
  obtain t' tr' where t: "dtree_insert (ix_tree ix) (fst e) (snd e) = Some t'" "represents k t' tr'"
    "contents tr' = enter e (contents tr)" "kept (ix_tree ix) tr t' tr'"
    using dtree_insert_spec [OF _ assms(2,3)] assms(1) unfolding index_ok_def by metis
  define ix' where "ix' = ix\<lparr>ix_tree := t', ix_bloom := bloom_add (ix_bloom ix) (keyBytes (fst e))\<rparr>"
  have "index_add ix (fst e) (snd e) = Some ix'" using t(1) by (simp add: index_add_def ix'_def)
  moreover have "index_ok k ix' tr'"
    unfolding index_ok_def
  proof (intro conjI ballI)
    show "represents k (ix_tree ix') tr'" using t(2) by (simp add: ix'_def)
    show "bloom_ok (ix_bloom ix')"
      using assms(1) bloom_filter.ok_add by (simp add: index_ok_def ix'_def)
    fix x
    assume "x \<in> set (contents tr')"
    then have "x = e \<or> x \<in> set (contents tr)" using enter_set [of e "contents tr"] unfolding t(3) by blast
    then show "mightContain (ix_bloom ix') (keyBytes (fst x))"
      using assms(1) bloom_filter.member_add bloom_filter.member_keeps
      by (auto simp: index_ok_def ix'_def)
  qed
  moreover have "kept (ix_tree ix) tr (ix_tree ix') tr'" using t(4) by (simp add: ix'_def)
  ultimately show thesis using that t(3) by blast
qed

lemma index_remove_spec:
  assumes "index_ok k ix tr" "in_class k (fst e)"
  obtains ix' tr' where
    "index_remove ix (fst e) (snd e) = Some (ix', \<exists>x\<in>set (contents tr). erank x = erank e)"
    "index_ok k ix' tr'" "contents tr' = filter (\<lambda>x. erank x \<noteq> erank e) (contents tr)"
    "kept (ix_tree ix) tr (ix_tree ix') tr'"
proof -
  obtain t' tr' where t: "dtree_erase (ix_tree ix) (fst e) (snd e) = Some (t', \<exists>x\<in>set (contents tr). erank x = erank e)"
    "represents k t' tr'" "contents tr' = filter (\<lambda>x. erank x \<noteq> erank e) (contents tr)" "kept (ix_tree ix) tr t' tr'"
    by (rule dtree_erase_spec [of k "ix_tree ix" tr e]) (use assms in \<open>auto simp: index_ok_def\<close>)
  define ix' where "ix' = ix\<lparr>ix_tree := t'\<rparr>"
  have "index_remove ix (fst e) (snd e) = Some (ix', \<exists>x\<in>set (contents tr). erank x = erank e)"
    using t(1) by (simp add: index_remove_def ix'_def)
  moreover have "index_ok k ix' tr'" using assms(1) t(2,3) by (simp add: index_ok_def ix'_def)
  moreover have "kept (ix_tree ix) tr (ix_tree ix') tr'" using t(4) by (simp add: ix'_def)
  ultimately show thesis using that t(3) by blast
qed

text \<open>The identifiers a lookup should return, in the order of the entries.\<close>

definition matching :: "val \<Rightarrow> entry list \<Rightarrow> record_id list" where
  "matching key es = map snd (filter (\<lambda>x. keyEqual (fst x) key) es)"

lemma within_key: "within (Some key) (Some key) x \<longleftrightarrow> keyEqual (fst x) key"
  by (simp add: within_def keyEqual_def)

lemma index_lookup_spec:
  assumes ok: "index_ok k ix tr" and key: "in_class k key"
    and same: "\<forall>x\<in>set (contents tr). keyEqual (fst x) key \<longrightarrow> keyBytes (fst x) = keyBytes key"
  obtains ix' where "index_lookup ix key = Some (ix', matching key (contents tr))" "index_ok k ix' tr"
proof (cases "mightContain (ix_bloom ix) (keyBytes key)")
  case False
  have "\<not> keyEqual (fst x) key" if x: "x \<in> set (contents tr)" for x
  proof
    assume "keyEqual (fst x) key"
    then have "keyBytes (fst x) = keyBytes key" using same x by blast
    moreover have "mightContain (ix_bloom ix) (keyBytes (fst x))" using ok x by (simp add: index_ok_def)
    ultimately show False using False by simp
  qed
  then have "matching key (contents tr) = []" by (simp add: matching_def filter_empty_conv)
  then have "index_lookup ix key = Some (ix, matching key (contents tr))"
    using False by (simp add: index_lookup_def)
  then show thesis using that ok by blast
next
  case True
  have "represents k (ix_tree ix) tr" using ok by (simp add: index_ok_def)
  then obtain t' where t: "dtree_rangeScan (ix_tree ix) (Some key) (Some key) =
      Some (t', map snd (filter (within (Some key) (Some key)) (contents tr)))" "represents k t' tr"
    using dtree_scan_spec [of k "ix_tree ix" tr "Some key" "Some key"] key by auto
  have "within (Some key) (Some key) = (\<lambda>x. keyEqual (fst x) key)" by (rule ext) (rule within_key)
  then have "index_lookup ix key = Some (ix\<lparr>ix_tree := t'\<rparr>, matching key (contents tr))"
    using True t(1) by (simp add: index_lookup_def dtree_lookup_def matching_def)
  moreover have "index_ok k (ix\<lparr>ix_tree := t'\<rparr>) tr" using ok t(2) by (simp add: index_ok_def)
  ultimately show thesis using that by blast
qed

text \<open>Keys of one type that compare equal are the same key, except the two zeros of a double,
  which have the same bytes too.\<close>

lemma equal_keys_same_bytes:
  assumes "in_class k a" "in_class k b" "keyEqual a b" "type_index a = type_index b"
  shows "keyBytes a = keyBytes b"
proof -
  have "val_rank a = val_rank b" using assms keyEqual_iff by blast
  moreover have "sint i = sint j \<Longrightarrow> i = j" for i j :: i64 by (simp add: signed_word_eqI)
  ultimately show ?thesis using assms(4) one_unit_pos
    by (cases a; cases b) auto
qed

text \<open>A double and an integer that compare equal do not have the same bytes, and the filter can
  deny the one when the tree has the other: an index on a FLOAT column is not found through an
  integer literal.\<close>

lemma integer_probe_missed:
  "keyEqual (VDouble (f_of_int 7)) (VInt 7)"
  "\<not> mightContain (bloom_add (bloom_new 4096 4) (keyBytes (VDouble (f_of_int 7)))) (keyBytes (VInt 7))"
proof -
  show "keyEqual (VDouble (f_of_int 7)) (VInt 7)"
    using f_of_int_less(1) [of 7 7]
    by (simp add: keyEqual_def valueLess_def compareValues_def asDouble_def)
  show "\<not> mightContain (bloom_add (bloom_new 4096 4) (keyBytes (VDouble (f_of_int 7)))) (keyBytes (VInt 7))"
    apply (simp add: enc_word_def upt_rec)
    apply code_simp
    done
qed

section \<open>Properties\<close>

text \<open>C31: On a column whose keys are of one type, NULL apart, an index lookup always returns, and
  returns exactly the record identifiers the tree has for the key, in order: the filter in front
  of the tree never hides an entry, and the invariant of filter and tree is kept.\<close>

theorem index_lookup_exact:
  assumes "index_ok k ix tr" "in_class k key"
    and "\<forall>x\<in>set (contents tr). isNull (fst x) \<or> isNull key \<or> type_index (fst x) = type_index key"
  shows "\<exists>ix'. index_lookup ix key = Some (ix', matching key (contents tr)) \<and> index_ok k ix' tr"
proof -
  have "keyBytes (fst x) = keyBytes key" if x: "x \<in> set (contents tr)" "keyEqual (fst x) key" for x
  proof -
    have rep: "represents k (ix_tree ix) tr" using assms(1) by (simp add: index_ok_def)
    have cls: "in_class k (fst x)" using represents_entries(2) [OF rep] x(1) entry_okD(1) by blast
    show ?thesis
    proof (cases "isNull (fst x) \<or> isNull key")
      case True
      then have "fst x = key"
        using x(2) by (cases "fst x"; cases key) (auto simp: keyEqual_def valueLess_def)
      then show ?thesis by simp
    next
      case False
      then show ?thesis using equal_keys_same_bytes [OF cls assms(2) x(2)] assms(3) x(1) by blast
    qed
  qed
  then show ?thesis using index_lookup_spec [OF assms(1,2)] by metis
qed

theorem index_lookup_exact_witness:
  "\<exists>ix1 ix2. index_add (index_new ''i'' 1 [0] small_pool) (VText ''relite'') \<lparr>rpage = 4, rslot = 2\<rparr> = Some ix1 \<and>
    index_lookup ix1 (VText ''relite'') = Some (ix2, [\<lparr>rpage = 4, rslot = 2\<rparr>])"
proof -
  have ok: "index_ok TextClass (index_new ''i'' 1 [0] small_pool) None"
    by (rule index_new_ok [OF small_tree(1)])
  obtain ix1 tr where a: "index_add (index_new ''i'' 1 [0] small_pool) (fst sample_entry) (snd sample_entry) = Some ix1"
    "index_ok TextClass ix1 tr" "contents tr = enter sample_entry (contents None)"
    by (rule index_add_spec [OF ok sample_ok]) (use small_tree in \<open>auto simp: index_new_def\<close>)
  have c: "contents tr = [sample_entry]" using a(3) by (simp add: contents_def)
  have key: "in_class TextClass (VText ''relite'')" by simp
  have "\<forall>x\<in>set (contents tr). isNull (fst x) \<or> isNull (VText ''relite'') \<or>
      type_index (fst x) = type_index (VText ''relite'')"
    by (simp add: c sample_entry_def)
  from index_lookup_exact [OF a(2) key this] a(1) show ?thesis
    by (auto simp: c matching_def sample_entry_def keyEqual_def valueLess_def compareValues_def)
qed

text \<open>The filter does hide entries of a FLOAT column from an INT key. An index that holds
  the double 7.0 answers a lookup of the integer 7, which compares equal, with nothing, because
  the bytes of a double are empty; the tree behind the filter has the record.\<close>

lemma float_index_misses_integer:
  "\<exists>ix t. index_add (index_new ''i'' 1 [0] small_pool) (VDouble (f_of_int 7)) \<lparr>rpage = 4, rslot = 2\<rparr> = Some ix \<and>
    index_lookup ix (VInt 7) = Some (ix, []) \<and>
    dtree_lookup (ix_tree ix) (VInt 7) = Some (t, [\<lparr>rpage = 4, rslot = 2\<rparr>])"
proof -
  define e where "e = (VDouble (f_of_int 7), \<lparr>rpage = 4, rslot = 2\<rparr>)"
  have "\<not> f_is_nan (f_of_int 7)" using f_of_int_exact [of 7] by simp
  then have eok: "entry_ok NumClass e"
    by (simp add: e_def entry_ok_def key_ok_def encodeValue_def rid_valid_def rid_i32_def in_i32_def)
  have ok: "index_ok NumClass (index_new ''i'' 1 [0] small_pool) None"
    by (rule index_new_ok) (use small_tree(1) in \<open>simp add: represents_def\<close>)
  obtain ix tr where a: "index_add (index_new ''i'' 1 [0] small_pool) (fst e) (snd e) = Some ix"
    "index_ok NumClass ix tr" "contents tr = enter e (contents None)"
    by (rule index_add_spec [OF ok eok]) (use small_tree(2) in \<open>auto simp: index_new_def\<close>)
  have c: "contents tr = [e]" using a(3) by (simp add: contents_def)
  have bl: "ix_bloom ix = bloom_add (bloom_new 4096 4) (keyBytes (VDouble (f_of_int 7)))"
    using a(1) by (auto simp: index_add_def index_new_def e_def)
  have miss: "index_lookup ix (VInt 7) = Some (ix, [])"
    using integer_probe_missed(2) by (simp add: index_lookup_def bl del: keyBytes.simps)
  have rep: "represents NumClass (ix_tree ix) tr" using a(2) by (simp add: index_ok_def)
  have bounds: "\<forall>l\<in>set_option (Some (VInt 7)). in_class NumClass l" by simp
  obtain t where "dtree_rangeScan (ix_tree ix) (Some (VInt 7)) (Some (VInt 7)) =
      Some (t, map snd (filter (within (Some (VInt 7)) (Some (VInt 7))) (contents tr)))"
    by (rule dtree_scan_spec [OF rep bounds bounds])
  then have "dtree_lookup (ix_tree ix) (VInt 7) = Some (t, [\<lparr>rpage = 4, rslot = 2\<rparr>])"
    using integer_probe_missed(1) by (simp add: dtree_lookup_def c within_key) (simp add: e_def)
  then show ?thesis using a(1) miss by (auto simp: e_def)
qed

end
