(* ===== verification/Optimizer.thy ===== *)
theory Optimizer
  imports Tuples "HOL-Library.Multiset"
begin

text \<open>
  Query optimisation utilities, \<open>src/src/vm/optimizer.cpp\<close>: the choice of a join
  algorithm, the external merge sort that spills sorted runs to temporary files, and the
  sort-merge join on top of it. A temporary file is the bytes written to it and a reader is
  the bytes not read yet; reading past the end gives \<open>EOF\<close>, which is the byte 255 where
  the code converts it. \<open>std::stable_sort\<close> is insertion from the left, the one stable
  result; \<open>std::priority_queue\<close> promises of its top only that nothing is above it, so
  which of several least rows comes first is the parameter \<open>pick\<close>, a function of the order of the
  queue, of the rows merged so far and of the content of the queue.
\<close>

section \<open>The order of rows\<close>

fun row_less :: "nat list \<Rightarrow> bool list \<Rightarrow> row \<Rightarrow> row \<Rightarrow> bool" where
  "row_less [] ascending a b = False"
| "row_less (c # keyCols) ascending a b =
     (let asc = (case ascending of [] \<Rightarrow> True | x # _ \<Rightarrow> x);
          va = a ! c; vb = b ! c
      in if valueLess va vb then asc
         else if valueLess vb va then \<not> asc
         else row_less keyCols (tl ascending) a b)"

definition rowLess :: "row \<Rightarrow> row \<Rightarrow> nat list \<Rightarrow> bool list \<Rightarrow> bool" where
  "rowLess a b keyCols ascending = row_less keyCols ascending a b"

section \<open>The format of spilled rows\<close>

fun encodeValue :: "val \<Rightarrow> bytes" where
  "encodeValue (VInt i) = char_of (1::nat) # enc_word i"
| "encodeValue (VDouble d) = char_of (4::nat) # enc_word d"
| "encodeValue (VBool b) = [char_of (2::nat), if b then char_of (1::nat) else char_of (0::nat)]"
| "encodeValue (VText s) = char_of (3::nat) # enc_word (word_of_nat (length s) :: u32) @ s"
| "encodeValue VNull = [char_of (0::nat)]"

definition encodeRow :: "row \<Rightarrow> bytes" where
  "encodeRow r = enc_word (word_of_nat (length r) :: u32) @ concat (map encodeValue r)"

text \<open>\<open>in.get()\<close> and its conversion to \<open>unsigned char\<close>, \<open>n\<close> times.\<close>

definition get_chars :: "nat \<Rightarrow> bytes \<Rightarrow> bytes" where
  "get_chars n inp = take n inp @ replicate (n - length inp) (char_of (255::nat))"

definition readU32 :: "bytes \<Rightarrow> u32 \<times> bytes" where
  "readU32 inp = (word_of_nat (of_le (take 4 inp)), drop 4 inp)"

text \<open>A row, the end of the file, or a tag that is no \<open>ValueType\<close>.\<close>

datatype decoded = EndOfFile | BadTag | Decoded row bytes

definition decodeValue :: "nat \<Rightarrow> bytes \<Rightarrow> (val \<times> bytes) option" where
  "decodeValue tag inp =
     (if tag = 1 then Some (VInt (dec_word (get_chars 8 inp)), drop 8 inp)
      else if tag = 4 then Some (VDouble (dec_word (get_chars 8 inp)), drop 8 inp)
      else if tag = 2 then Some (VBool (get_chars 1 inp \<noteq> [char_of (0::nat)]), drop 1 inp)
      else if tag = 3 then
        (let (len, inp) = readU32 inp; n = unat len
         in Some (VText (take n inp @ replicate (n - length inp) (char_of (0::nat))), drop n inp))
      else if tag = 0 then Some (VNull, inp)
      else None)"

fun decode_cols :: "nat \<Rightarrow> row \<Rightarrow> bytes \<Rightarrow> decoded" where
  "decode_cols 0 r inp = Decoded r inp"
| "decode_cols (Suc n) r [] = EndOfFile"
| "decode_cols (Suc n) r (tag # inp) =
     (case decodeValue (of_char tag) inp of
        None \<Rightarrow> BadTag
      | Some (v, inp) \<Rightarrow> decode_cols n (r @ [v]) inp)"

definition decodeRow :: "bytes \<Rightarrow> decoded" where
  "decodeRow inp =
     (if inp = [] then EndOfFile
      else let (ncols, inp) = readU32 inp in decode_cols (unat ncols) [] inp)"

section \<open>The cost model\<close>

datatype join_algorithm = NestedLoop | HashJoin | MergeJoin

definition chooseEquiJoin :: "nat \<Rightarrow> nat \<Rightarrow> nat \<Rightarrow> join_algorithm" where
  "chooseEquiJoin hashBuildBudget leftRows rightRows =
     (if min leftRows rightRows \<le> hashBuildBudget then HashJoin else MergeJoin)"

definition estimateCost :: "(dbl \<Rightarrow> dbl) \<Rightarrow> join_algorithm \<Rightarrow> nat \<Rightarrow> nat \<Rightarrow> dbl" where
  "estimateCost log2 algo leftRows rightRows =
     (let l = f_of_int (int leftRows); r = f_of_int (int rightRows); two = f_of_int 2
      in case algo of
           NestedLoop \<Rightarrow> f_mul l r
         | HashJoin \<Rightarrow> f_add l r
         | MergeJoin \<Rightarrow>
             f_add (f_add (f_add (f_mul l (log2 (f_add l two))) (f_mul r (log2 (f_add r two)))) l) r)"

section \<open>The external sort\<close>

text \<open>\<open>std::stable_sort\<close>: an element goes before the first one that is not below it.\<close>

fun insert_stable :: "('a \<Rightarrow> 'a \<Rightarrow> bool) \<Rightarrow> 'a \<Rightarrow> 'a list \<Rightarrow> 'a list" where
  "insert_stable lt x [] = [x]"
| "insert_stable lt x (y # ys) =
     (if lt y x then y # insert_stable lt x ys else x # y # ys)"

fun stable_sort :: "('a \<Rightarrow> 'a \<Rightarrow> bool) \<Rightarrow> 'a list \<Rightarrow> 'a list" where
  "stable_sort lt [] = []"
| "stable_sort lt (x # xs) = insert_stable lt x (stable_sort lt xs)"

text \<open>The runs: each \<open>memLimitRows\<close> rows of the input, sorted and written to a file.\<close>

function sorted_runs :: "(row \<Rightarrow> row \<Rightarrow> bool) \<Rightarrow> nat \<Rightarrow> row list \<Rightarrow> row list list" where
  "sorted_runs cmp memLimitRows rows =
     (if rows = [] \<or> memLimitRows = 0 then []
      else stable_sort cmp (take memLimitRows rows) # sorted_runs cmp memLimitRows (drop memLimitRows rows))"
  by pat_completeness auto
termination by (relation "measure (\<lambda>(_, _, rows). length rows)") auto

declare sorted_runs.simps [simp del]

definition run_file :: "row list \<Rightarrow> bytes" where
  "run_file run = concat (map encodeRow run)"

text \<open>A row of the queue with the run it came from.\<close>

type_synonym frontier = "row \<times> nat"
type_synonym heap_top = "row list \<Rightarrow> frontier list \<Rightarrow> nat"
type_synonym heap_choice = "nat list \<Rightarrow> bool list \<Rightarrow> heap_top"

text \<open>One more row of a run: the queue and the readers after it, \<open>None\<close> on a bad tag.\<close>

definition refill :: "bytes list \<Rightarrow> frontier list \<Rightarrow> nat \<Rightarrow> (bytes list \<times> frontier list) option" where
  "refill readers heap run =
     (case decodeRow (readers ! run) of
        EndOfFile \<Rightarrow> Some (readers, heap)
      | BadTag \<Rightarrow> None
      | Decoded r rest \<Rightarrow> Some (readers[run := rest], heap @ [(r, run)]))"

fun fill_heap :: "nat list \<Rightarrow> bytes list \<Rightarrow> frontier list \<Rightarrow> (bytes list \<times> frontier list) option" where
  "fill_heap [] readers heap = Some (readers, heap)"
| "fill_heap (i # is) readers heap =
     (case refill readers heap i of
        None \<Rightarrow> None
      | Some (readers, heap) \<Rightarrow> fill_heap is readers heap)"

definition remove_at :: "nat \<Rightarrow> 'a list \<Rightarrow> 'a list" where
  "remove_at i xs = take i xs @ drop (Suc i) xs"

lemma decode_value_shorter: "decodeValue t inp = Some (v, rest) \<Longrightarrow> length rest \<le> length inp"
  by (auto simp: decodeValue_def readU32_def Let_def split: if_splits)

lemma decode_cols_shorter: "decode_cols n r inp = Decoded row rest \<Longrightarrow> length rest \<le> length inp"
proof (induction n r inp rule: decode_cols.induct)
  case (3 n r tag inp)
  then show ?case
    by (auto split: option.splits dest!: decode_value_shorter) fastforce
qed auto

lemma decode_row_shorter:
  assumes "decodeRow inp = Decoded row rest"
  shows "length rest < length inp"
proof -
  have ne: "inp \<noteq> []" using assms by (auto simp: decodeRow_def)
  have "decode_cols (unat (fst (readU32 inp))) [] (drop 4 inp) = Decoded row rest"
    using assms ne by (simp add: decodeRow_def readU32_def)
  then have "length rest \<le> length inp - 4" by (auto dest: decode_cols_shorter)
  then show ?thesis using ne by (cases inp) auto
qed

lemma sum_list_update_less:
  "i < length xs \<Longrightarrow> f y < f (xs ! i) \<Longrightarrow> (\<Sum>x\<leftarrow>xs[i := y]. (f x :: nat)) < (\<Sum>x\<leftarrow>xs. f x)"
proof (induction xs arbitrary: i)
  case (Cons a xs)
  then show ?case by (cases i) auto
qed simp

lemma length_remove_at [simp]: "i < length xs \<Longrightarrow> length (remove_at i xs) = length xs - 1"
  by (simp add: remove_at_def)

lemma refill_measure:
  assumes "refill readers heap run = Some (readers', heap')"
  shows "(\<Sum>x\<leftarrow>readers'. length x) + length heap' \<le> (\<Sum>x\<leftarrow>readers. length x) + length heap \<or> length readers \<le> run"
  using assms sum_list_update_less [of run readers length]
  by (fastforce simp: refill_def split: decoded.splits dest: decode_row_shorter)

text \<open>
  The merge loop. An answer of the queue that is no position of it, and a run that is no
  reader, do not occur: the model stops there.
\<close>

function merge_runs :: "heap_top \<Rightarrow> bytes list \<Rightarrow> frontier list \<Rightarrow> row list \<Rightarrow> row list option" where
  "merge_runs pick readers heap merged =
     (if heap = [] then Some merged
      else let k = pick merged heap in
        if k \<ge> length heap \<or> snd (heap ! k) \<ge> length readers then None
        else let (r, run) = heap ! k; heap = remove_at k heap; merged = merged @ [r] in
          case refill readers heap run of
            None \<Rightarrow> None
          | Some (readers, heap) \<Rightarrow> merge_runs pick readers heap merged)"
  by pat_completeness auto
termination
proof (relation "measure (\<lambda>(_, readers, heap, _). (\<Sum>x\<leftarrow>readers. length x) + length heap)", goal_cases)
  case (2 pick readers heap merged k p r run heap' merged' st readers' heap'')
  have "(\<Sum>x\<leftarrow>readers'. length x) + length heap'' \<le> (\<Sum>x\<leftarrow>readers. length x) + length heap'"
    using 2 refill_measure [of readers heap' run readers' heap''] by (metis leD leI snd_conv)
  then show ?case using 2 by (cases heap) auto
qed simp

declare merge_runs.simps [simp del]

definition externalSort :: "heap_choice \<Rightarrow> row list \<Rightarrow> nat list \<Rightarrow> bool list \<Rightarrow> nat \<Rightarrow> row list option" where
  "externalSort pick rows keyCols ascending memLimitRows =
     (let cmp = (\<lambda>a b. rowLess a b keyCols ascending);
          memLimitRows = (if memLimitRows = 0 then 1 else memLimitRows)
      in if length rows \<le> memLimitRows then Some (stable_sort cmp rows)
         else let readers = map run_file (sorted_runs cmp memLimitRows rows) in
           case fill_heap [0..<length readers] readers [] of
             None \<Rightarrow> None
           | Some (readers, heap) \<Rightarrow> merge_runs (pick keyCols ascending) readers heap [])"

section \<open>The sort-merge join\<close>

definition same_key :: "val \<Rightarrow> val \<Rightarrow> bool" where
  "same_key k v \<longleftrightarrow> \<not> valueLess k v \<and> \<not> valueLess v k"

lemma valueLess_irrefl [simp]: "\<not> valueLess v v"
  by (cases v) (auto simp: valueLess_def compareValues_def)

lemma same_key_refl [simp]: "same_key v v"
  by (simp add: same_key_def)

text \<open>The loop, on the rows of either side not passed yet.\<close>

function merge_groups :: "nat \<Rightarrow> nat \<Rightarrow> row list \<Rightarrow> row list \<Rightarrow> row list \<Rightarrow> row list" where
  "merge_groups leftKey rightKey left right out =
     (if left = [] \<or> right = [] then out
      else let lk = hd left ! leftKey; rk = hd right ! rightKey in
        if isNull lk then merge_groups leftKey rightKey (tl left) right out
        else if isNull rk then merge_groups leftKey rightKey left (tl right) out
        else if valueLess lk rk then merge_groups leftKey rightKey (tl left) right out
        else if valueLess rk lk then merge_groups leftKey rightKey left (tl right) out
        else
          let ls = takeWhile (\<lambda>a. same_key lk (a ! leftKey)) left;
              rs = takeWhile (\<lambda>b. same_key rk (b ! rightKey)) right
          in merge_groups leftKey rightKey (drop (length ls) left) (drop (length rs) right)
               (out @ concat (map (\<lambda>a. map (\<lambda>b. a @ b) rs) ls)))"
  by pat_completeness auto
termination
proof (relation "measure (\<lambda>(_, _, left, right, _). length left + length right)", goal_cases)
  case (6 leftKey rightKey left right out lk rk ls rs)
  then have "0 < length ls" by (cases left) auto
  moreover have "0 < length left" using 6 by simp
  ultimately have "length left - length ls < length left" by linarith
  then show ?case by (auto intro: add_less_le_mono)
qed auto

declare merge_groups.simps [simp del]

definition mergeJoinInner :: "heap_choice \<Rightarrow> row list \<Rightarrow> nat \<Rightarrow> row list \<Rightarrow> nat \<Rightarrow> nat \<Rightarrow> row list option" where
  "mergeJoinInner pick left leftKey right rightKey memLimitRows =
     (case externalSort pick left [leftKey] [True] memLimitRows of
        None \<Rightarrow> None
      | Some left \<Rightarrow>
          (case externalSort pick right [rightKey] [True] memLimitRows of
             None \<Rightarrow> None
           | Some right \<Rightarrow> Some (merge_groups leftKey rightKey left right [])))"

section \<open>Sorting\<close>

lemma mset_insert_stable [simp]: "mset (insert_stable lt x xs) = add_mset x (mset xs)"
  by (induction xs) auto

lemma mset_stable_sort [simp]: "mset (stable_sort lt xs) = mset xs"
  by (induction xs) auto

lemma set_stable_sort [simp]: "set (stable_sort lt xs) = set xs"
  by (metis mset_stable_sort set_mset_mset)

lemma set_insert_stable [simp]: "set (insert_stable lt x xs) = insert x (set xs)"
  using set_mset_mset [of "insert_stable lt x xs"] by simp

text \<open>A queue that answers with the last position before which nothing is smaller.\<close>

fun least_index :: "('a \<Rightarrow> 'a \<Rightarrow> bool) \<Rightarrow> ('a \<times> 'b) list \<Rightarrow> nat" where
  "least_index lt [] = 0"
| "least_index lt (f # fs) =
     (let k = least_index lt fs in if fs \<noteq> [] \<and> lt (fst (fs ! k)) (fst f) then Suc k else 0)"

context weak_order
begin

lemma sorted_insert_stable:
  "dom x \<Longrightarrow> \<forall>y\<in>set xs. dom y \<Longrightarrow> sorted_run xs \<Longrightarrow> sorted_run (insert_stable less x xs)"
proof (induction xs)
  case (Cons y ys)
  show ?case
  proof (cases "less y x")
    case True
    then show ?thesis using Cons asym by (auto simp: sorted_run_Cons)
  next
    case False
    then show ?thesis using Cons.prems by (auto simp: sorted_run_Cons2 simp del: list.set)
        (auto simp: sorted_run_Cons2)
  qed
qed (simp add: sorted_run_Cons)

lemma sorted_stable_sort: "\<forall>x\<in>set xs. dom x \<Longrightarrow> sorted_run (stable_sort less xs)"
  by (induction xs) (auto intro: sorted_insert_stable)

text \<open>A choice of the queue: the first of the least elements from the right.\<close>

lemma least_index_spec:
  "heap \<noteq> [] \<Longrightarrow> \<forall>f\<in>set heap. dom (fst f) \<Longrightarrow>
   least_index less heap < length heap \<and> (\<forall>f\<in>set heap. \<not> less (fst f) (fst (heap ! least_index less heap)))"
proof (induction heap)
  case (Cons f fs)
  show ?case
  proof (cases "fs = []")
    case True
    then show ?thesis using Cons.prems irrefl by simp
  next
    case False
    define k where "k = least_index less fs"
    have k: "k < length fs" "\<forall>f\<in>set fs. \<not> less (fst f) (fst (fs ! k))"
      using Cons False unfolding k_def by auto
    have d: "dom (fst f)" "dom (fst (fs ! k))" "\<forall>f\<in>set fs. dom (fst f)" using Cons.prems k(1) by auto
    show ?thesis
    proof (cases "less (fst (fs ! k)) (fst f)")
      case True
      then have "\<not> less (fst f) (fst (fs ! k))" using asym d by blast
      then show ?thesis using True k False by (simp add: k_def [symmetric])
    next
      case nl: False
      then have "\<forall>g\<in>set fs. \<not> less (fst g) (fst f)" using k(2) d negtrans by blast
      then show ?thesis using nl False irrefl d by (simp add: k_def [symmetric])
    qed
  qed
qed simp

end

text \<open>The rows of one sort: every key column holds values of its class.\<close>

definition sort_row :: "(nat \<Rightarrow> val_class) \<Rightarrow> nat list \<Rightarrow> row \<Rightarrow> bool" where
  "sort_row kind keyCols r \<longleftrightarrow> (\<forall>c\<in>set keyCols. in_class (kind c) (r ! c))"

lemma rank_less_asym: "rank_less a b \<Longrightarrow> \<not> rank_less b a"
  using rank_less_trans rank_less_irrefl by blast

definition lex_step :: "(nat \<times> int \<times> bytes) \<Rightarrow> (nat \<times> int \<times> bytes) \<Rightarrow> bool \<Rightarrow> bool \<Rightarrow> bool" where
  "lex_step a b up later = (if a = b then later else (rank_less a b = up))"

lemma lex_step_trans:
  assumes "lex_step a b up p" "lex_step b c up q" "p \<Longrightarrow> q \<Longrightarrow> r"
  shows "lex_step a c up r"
  using assms rank_less_linear [of a b] rank_less_linear [of b c] rank_less_linear [of a c]
    rank_less_trans [of a b c] rank_less_trans [of c b a] rank_less_asym [of a b] rank_less_asym [of b c]
    rank_less_asym [of a c]
  by (cases "a = b"; cases "b = c"; cases "a = c"; cases up; auto simp: lex_step_def)

lemma lex_step_not: "\<not> lex_step a b up p \<longleftrightarrow> lex_step a b (\<not> up) (\<not> p)"
  by (simp add: lex_step_def)

lemma row_less_step:
  assumes "in_class k (a ! c)" "in_class k (b ! c)"
  shows "row_less (c # cs) up a b \<longleftrightarrow>
    lex_step (val_rank (a ! c)) (val_rank (b ! c)) (case up of [] \<Rightarrow> True | x # _ \<Rightarrow> x) (row_less cs (tl up) a b)"
  using assms rank_less_linear [of "val_rank (a ! c)" "val_rank (b ! c)"]
    rank_less_asym [of "val_rank (a ! c)" "val_rank (b ! c)"]
  by (auto simp: valueLess_rank [of k] Let_def lex_step_def)

lemma row_less_irrefl: "\<not> row_less cs up a a"
  by (induction cs arbitrary: up) (auto simp: Let_def)

lemma row_less_trans:
  "sort_row kind cs a \<Longrightarrow> sort_row kind cs b \<Longrightarrow> sort_row kind cs c \<Longrightarrow>
   row_less cs up a b \<Longrightarrow> row_less cs up b c \<Longrightarrow> row_less cs up a c"
proof (induction cs arbitrary: up)
  case (Cons i cs)
  have d: "in_class (kind i) (a ! i)" "in_class (kind i) (b ! i)" "in_class (kind i) (c ! i)"
    "sort_row kind cs a" "sort_row kind cs b" "sort_row kind cs c"
    using Cons.prems by (auto simp: sort_row_def)
  show ?case
    using Cons.prems(4,5) unfolding row_less_step [OF d(1,2)] row_less_step [OF d(2,3)] row_less_step [OF d(1,3)]
    by (rule lex_step_trans) (rule Cons.IH [OF d(4,5,6)])
qed simp

lemma row_less_negtrans:
  "sort_row kind cs a \<Longrightarrow> sort_row kind cs b \<Longrightarrow> sort_row kind cs c \<Longrightarrow>
   \<not> row_less cs up a b \<Longrightarrow> \<not> row_less cs up b c \<Longrightarrow> \<not> row_less cs up a c"
proof (induction cs arbitrary: up)
  case (Cons i cs)
  have d: "in_class (kind i) (a ! i)" "in_class (kind i) (b ! i)" "in_class (kind i) (c ! i)"
    "sort_row kind cs a" "sort_row kind cs b" "sort_row kind cs c"
    using Cons.prems by (auto simp: sort_row_def)
  show ?case
    using Cons.prems(4,5)
    unfolding row_less_step [OF d(1,2)] row_less_step [OF d(2,3)] row_less_step [OF d(1,3)] lex_step_not
    by (rule lex_step_trans) (rule Cons.IH [OF d(4,5,6)])
qed simp

interpretation row_order: weak_order "sort_row kind keyCols" "\<lambda>a b. rowLess a b keyCols ascending"
  for kind keyCols ascending
proof
  fix a b c
  show "\<not> rowLess a a keyCols ascending" by (simp add: rowLess_def row_less_irrefl)
  assume d: "sort_row kind keyCols a" "sort_row kind keyCols b" "sort_row kind keyCols c"
  show "rowLess a b keyCols ascending \<Longrightarrow> rowLess b c keyCols ascending \<Longrightarrow> rowLess a c keyCols ascending"
    using row_less_trans [OF d] by (simp add: rowLess_def)
  show "\<not> rowLess a b keyCols ascending \<Longrightarrow> \<not> rowLess b c keyCols ascending \<Longrightarrow> \<not> rowLess a c keyCols ascending"
    using row_less_negtrans [OF d] by (simp add: rowLess_def)
qed

section \<open>The format\<close>

text \<open>Rows whose counts fit the 32-bit length fields.\<close>

definition spillable :: "row \<Rightarrow> bool" where
  "spillable r \<longleftrightarrow> length r < 2 ^ 32 \<and> short_texts r"

lemma enc_u32_bytes: "(n::nat) < 2 ^ 32 \<Longrightarrow> readU32 (enc_word (word_of_nat n :: u32) @ s) = (word_of_nat n, s)"
  by (simp add: readU32_def enc_word_def unsigned_of_nat take_bit_nat_eq_self)

lemma unat_u32_small: "(n::nat) < 2 ^ 32 \<Longrightarrow> unat (word_of_nat n :: u32) = n"
  by (simp add: unsigned_of_nat take_bit_nat_eq_self)

lemma get_chars_exact: "length bs = n \<Longrightarrow> get_chars n (bs @ s) = bs"
  by (simp add: get_chars_def)

lemma decode_encode_value:
  assumes "length (v_text v) < 2 ^ 32"
  shows "\<exists>tag bs. encodeValue v = tag # bs \<and> decodeValue (of_char tag) (bs @ s) = Some (v, s)"
proof (cases v)
  case (VText t)
  then show ?thesis using assms
    by (simp add: decodeValue_def enc_u32_bytes unat_u32_small)
next
  case (VBool b)
  then show ?thesis by (cases b) (simp_all add: decodeValue_def get_chars_def)
qed (auto simp: decodeValue_def get_chars_exact)

lemma decode_encode_cols:
  "short_texts r \<Longrightarrow> decode_cols (length r) pre (concat (map encodeValue r) @ s) = Decoded (pre @ r) s"
proof (induction r arbitrary: pre)
  case (Cons v r)
  have "length (v_text v) < 2 ^ 32" "short_texts r" using Cons.prems by (auto simp: short_texts_def)
  moreover obtain tag bs where "encodeValue v = tag # bs"
    "decodeValue (of_char tag) (bs @ concat (map encodeValue r) @ s) = Some (v, concat (map encodeValue r) @ s)"
    using decode_encode_value [OF \<open>length (v_text v) < 2 ^ 32\<close>] by metis
  ultimately show ?case using Cons.IH [of "pre @ [v]"] by simp
qed simp

lemma decode_encode_row:
  assumes "spillable r"
  shows "decodeRow (encodeRow r @ s) = Decoded r s"
proof -
  have "encodeRow r @ s \<noteq> []" by (metis append_is_Nil_conv encodeRow_def length_enc_u32 list.size(3) zero_neq_numeral)
  then show ?thesis
    using assms decode_encode_cols [of r "[]" s]
    by (simp add: decodeRow_def encodeRow_def spillable_def enc_u32_bytes unat_u32_small)
qed

section \<open>The external sort sorts\<close>

text \<open>\<open>std::priority_queue::top\<close> among rows the comparison orders: some element that
  nothing is before.\<close>

definition picks_least :: "(row \<Rightarrow> bool) \<Rightarrow> (row \<Rightarrow> row \<Rightarrow> bool) \<Rightarrow> heap_top \<Rightarrow> bool" where
  "picks_least sortable cmp pick \<longleftrightarrow> (\<forall>merged heap. heap \<noteq> [] \<and> (\<forall>f\<in>set heap. sortable (fst f)) \<longrightarrow>
     pick merged heap < length heap \<and> (\<forall>f\<in>set heap. \<not> cmp (fst f) (fst (heap ! pick merged heap))))"

text \<open>
  What the loop maintains of the rows \<open>rems\<close> still in the files: each file is the rest of
  its run, sorted, and the queue holds one row of every unfinished run, above none of its rest.
\<close>

definition merging :: "(row \<Rightarrow> row \<Rightarrow> bool) \<Rightarrow> row list list \<Rightarrow> bytes list \<Rightarrow> frontier list \<Rightarrow> bool" where
  "merging cmp rems readers heap \<longleftrightarrow>
     readers = map run_file rems \<and>
     (\<forall>run\<in>set rems. sorted_wrt (\<lambda>a b. \<not> cmp b a) run \<and> (\<forall>r\<in>set run. spillable r)) \<and>
     distinct (map snd heap) \<and>
     (\<forall>(x, i)\<in>set heap. i < length rems \<and> (\<forall>y\<in>set (rems ! i). \<not> cmp y x))"

definition fronts :: "row list list \<Rightarrow> frontier list \<Rightarrow> bool" where
  "fronts rems heap \<longleftrightarrow> (\<forall>i < length rems. rems ! i \<noteq> [] \<longrightarrow> i \<in> snd ` set heap)"

definition pending :: "row list list \<Rightarrow> frontier list \<Rightarrow> row multiset" where
  "pending rems heap = mset (concat rems) + mset (map fst heap)"

lemma mset_concat_update:
  "i < length rems \<Longrightarrow> rems ! i = y # ys \<Longrightarrow>
   mset (concat rems) = add_mset y (mset (concat (rems[i := ys])))"
proof (induction rems arbitrary: i)
  case (Cons a rems)
  then show ?case by (cases i) auto
qed simp

lemma mset_remove_at: "k < length xs \<Longrightarrow> mset xs = add_mset (xs ! k) (mset (remove_at k xs))"
  using id_take_nth_drop [of k xs] by (metis mset.simps(2) mset_append remove_at_def union_mset_add_mset_right)

lemma set_remove_at: "set (remove_at k xs) \<subseteq> set xs"
  by (auto simp: remove_at_def dest: in_set_takeD in_set_dropD)

lemma map_remove_at: "map f (remove_at k xs) = remove_at k (map f xs)"
  by (simp add: remove_at_def take_map drop_map)

lemma distinct_remove_at:
  assumes "distinct xs" "k < length xs"
  shows "distinct (remove_at k xs) \<and> set xs = insert (xs ! k) (set (remove_at k xs)) \<and> xs ! k \<notin> set (remove_at k xs)"
proof -
  define A B x where AB: "A = take k xs" "B = drop (Suc k) xs" "x = xs ! k"
  have xs: "xs = A @ x # B" unfolding AB using assms(2) by (rule id_take_nth_drop)
  have "distinct (A @ x # B)" "set xs = set (A @ x # B)" using assms(1) xs by simp_all
  then show ?thesis unfolding remove_at_def AB [symmetric] by auto
qed

lemma refill_step:
  assumes m: "merging cmp rems readers heap" and i: "i < length rems" "i \<notin> snd ` set heap"
  shows "\<exists>rems' readers' heap'. refill readers heap i = Some (readers', heap') \<and> merging cmp rems' readers' heap' \<and>
    length rems' = length rems \<and> pending rems' heap' = pending rems heap \<and>
    (rems ! i = [] \<longrightarrow> rems' = rems \<and> heap' = heap) \<and>
    (rems ! i \<noteq> [] \<longrightarrow> snd ` set heap' = insert i (snd ` set heap) \<and> rems' = rems[i := tl (rems ! i)])"
proof (cases "rems ! i")
  case Nil
  then have "readers ! i = []" using m i(1) by (simp add: merging_def run_file_def)
  then have "refill readers heap i = Some (readers, heap)" by (simp add: refill_def decodeRow_def)
  then show ?thesis using m Nil by blast
next
  case (Cons y ys)
  have run: "rems ! i \<in> set rems" using i by simp
  then have y: "spillable y" and srt: "sorted_wrt (\<lambda>a b. \<not> cmp b a) (y # ys)" and sp: "\<forall>r\<in>set ys. spillable r"
    using m Cons by (fastforce simp: merging_def)+
  have "readers ! i = encodeRow y @ run_file ys" using m i(1) Cons by (simp add: merging_def run_file_def)
  then have rf: "refill readers heap i = Some (readers[i := run_file ys], heap @ [(y, i)])"
    using decode_encode_row [OF y, of "run_file ys"] by (simp add: refill_def)
  have "\<forall>run\<in>set (rems[i := ys]). sorted_wrt (\<lambda>a b. \<not> cmp b a) run \<and> (\<forall>r\<in>set run. spillable r)"
    using m srt sp set_update_subset_insert [of rems i ys] by (fastforce simp: merging_def)
  moreover have "\<forall>(x, j)\<in>set (heap @ [(y, i)]). j < length (rems[i := ys]) \<and> (\<forall>z\<in>set (rems[i := ys] ! j). \<not> cmp z x)"
    using m i Cons srt by (force simp: merging_def nth_list_update)
  moreover have "readers[i := run_file ys] = map run_file (rems[i := ys])"
    using m by (simp add: merging_def map_update)
  moreover have "distinct (map snd (heap @ [(y, i)]))" using m i(2) by (auto simp: merging_def)
  ultimately have "merging cmp (rems[i := ys]) (readers[i := run_file ys]) (heap @ [(y, i)])"
    by (simp add: merging_def)
  moreover have "pending (rems[i := ys]) (heap @ [(y, i)]) = pending rems heap"
    using mset_concat_update [OF i(1) Cons] by (simp add: pending_def)
  ultimately show ?thesis using rf Cons by (intro exI) auto
qed

lemma fill_heap_step:
  assumes "merging cmp rems readers heap" "distinct is" "\<forall>i\<in>set is. i < length rems \<and> i \<notin> snd ` set heap"
    "\<forall>i < length rems. rems ! i \<noteq> [] \<longrightarrow> i \<in> snd ` set heap \<or> i \<in> set is"
  shows "\<exists>rems' readers' heap'. fill_heap is readers heap = Some (readers', heap') \<and> merging cmp rems' readers' heap' \<and>
    fronts rems' heap' \<and> pending rems' heap' = pending rems heap"
  using assms
proof (induction "is" arbitrary: rems readers heap)
  case Nil
  then show ?case by (auto simp: fronts_def)
next
  case (Cons i "is")
  have i: "i < length rems" "i \<notin> snd ` set heap" using Cons.prems(3) by auto
  obtain rems' readers' heap' where r: "refill readers heap i = Some (readers', heap')" "merging cmp rems' readers' heap'"
    "length rems' = length rems" "pending rems' heap' = pending rems heap"
    "rems ! i = [] \<longrightarrow> rems' = rems \<and> heap' = heap"
    "rems ! i \<noteq> [] \<longrightarrow> snd ` set heap' = insert i (snd ` set heap) \<and> rems' = rems[i := tl (rems ! i)]"
    using refill_step [OF Cons.prems(1) i] by blast
  have heap': "snd ` set heap' = snd ` set heap \<or> snd ` set heap' = insert i (snd ` set heap)" using r(5,6) by blast
  have "snd ` set heap' \<subseteq> insert i (snd ` set heap)" using heap' by blast
  then have "\<forall>j\<in>set is. j < length rems' \<and> j \<notin> snd ` set heap'"
    using Cons.prems(2,3) r(3) by (metis distinct.simps(2) insertE list.set_intros(2) subsetD)
  moreover have "\<forall>j < length rems'. rems' ! j \<noteq> [] \<longrightarrow> j \<in> snd ` set heap' \<or> j \<in> set is"
    using Cons.prems(4) r(3,5,6) by (cases "rems ! i = []") (auto simp: nth_list_update)
  ultimately show ?case using Cons.IH [OF r(2)] Cons.prems(2) r(1,4) by simp
qed

lemma merging_subset:
  "merging cmp rems readers heap \<Longrightarrow> k < length heap \<Longrightarrow> merging cmp rems readers (remove_at k heap)"
  using distinct_remove_at [of "map snd heap" k] set_remove_at [of k heap]
  by (fastforce simp: merging_def map_remove_at)

lemma pending_least:
  fixes keyCols ascending
  defines "cmp \<equiv> \<lambda>a b. rowLess a b keyCols ascending"
  assumes m: "merging cmp rems readers heap" and f: "fronts rems heap"
    and x: "x \<in> fst ` set heap" "\<forall>f\<in>set heap. \<not> cmp (fst f) x"
    and d: "\<forall>r\<in>#pending rems heap. sort_row kind keyCols r" and y: "y \<in># pending rems heap"
  shows "\<not> cmp y x"
proof (cases "y \<in> fst ` set heap")
  case True
  then show ?thesis using x(2) by blast
next
  case False
  then obtain run where "run \<in> set rems" "y \<in> set run" using y by (auto simp: pending_def)
  then obtain i where i: "i < length rems" "y \<in> set (rems ! i)" by (metis in_set_conv_nth)
  then have "i \<in> snd ` set heap" using f by (fastforce simp: fronts_def)
  then obtain z where z: "(z, i) \<in> set heap" by force
  then have "\<not> cmp y z" "\<not> cmp z x" using m i(2) x(2) by (force simp: merging_def)+
  moreover have "sort_row kind keyCols z" "sort_row kind keyCols x" "sort_row kind keyCols y"
    using d y z x(1) by (force simp: pending_def)+
  ultimately show ?thesis unfolding cmp_def by (rule_tac row_order.negtrans)
qed

lemma merge_runs_sorts:
  fixes keyCols ascending
  defines "cmp \<equiv> \<lambda>a b. rowLess a b keyCols ascending"
  assumes "merging cmp rems readers heap" "fronts rems heap" "picks_least (sort_row kind keyCols) cmp pick"
    "\<forall>r\<in>#pending rems heap. sort_row kind keyCols r"
  shows "\<exists>out. merge_runs pick readers heap merged = Some (merged @ out) \<and> mset out = pending rems heap \<and>
    sorted_wrt (\<lambda>a b. \<not> cmp b a) out"
  using assms(2,3,5)
proof (induction "size (pending rems heap)" arbitrary: rems readers heap merged rule: less_induct)
  case less
  note m = less.prems(1) and f = less.prems(2) and d = less.prems(3)
  show ?case
  proof (cases "heap = []")
    case True
    then have "\<forall>run\<in>set rems. run = []" using f by (auto simp: fronts_def in_set_conv_nth)
    then have "concat rems = []" by simp
    then show ?thesis using True by (simp add: merge_runs.simps pending_def del: concat_eq_Nil_conv)
  next
    case False
    define k where "k = pick merged heap"
    obtain x i where xi: "heap ! k = (x, i)" by fastforce
    have "k < length heap \<and> (\<forall>f\<in>set heap. \<not> cmp (fst f) (fst (heap ! k)))"
      using assms(4) False d unfolding picks_least_def k_def by (auto simp: pending_def)
    then have k: "k < length heap" "\<forall>f\<in>set heap. \<not> cmp (fst f) x" using xi by simp_all
    define heap1 where "heap1 = remove_at k heap"
    have mem: "(x, i) \<in> set heap" using k(1) xi by (metis nth_mem)
    have i: "i < length rems" "length readers = length rems" using m mem by (auto simp: merging_def)
    have snds: "snd ` set heap = insert i (snd ` set heap1)" "i \<notin> snd ` set heap1"
      using distinct_remove_at [of "map snd heap" k] m k(1) xi
      by (auto simp: heap1_def merging_def map_remove_at [symmetric])
    have m1: "merging cmp rems readers heap1" unfolding heap1_def using m k(1) by (rule merging_subset)
    obtain rems' readers' heap' where r: "refill readers heap1 i = Some (readers', heap')" "merging cmp rems' readers' heap'"
      "length rems' = length rems" "pending rems' heap' = pending rems heap1"
      "rems ! i = [] \<longrightarrow> rems' = rems \<and> heap' = heap1"
      "rems ! i \<noteq> [] \<longrightarrow> snd ` set heap' = insert i (snd ` set heap1) \<and> rems' = rems[i := tl (rems ! i)]"
      using refill_step [OF m1 i(1) snds(2)] by blast
    have f': "fronts rems' heap'"
      using f r(3,5,6) snds by (cases "rems ! i = []") (auto simp: fronts_def nth_list_update)
    have "mset (map fst heap) = add_mset x (mset (map fst heap1))"
      using mset_remove_at [of k "map fst heap"] k(1) xi by (simp add: heap1_def map_remove_at)
    then have p: "pending rems heap = add_mset x (pending rems' heap')"
      using r(4) by (simp add: pending_def)
    have d': "\<forall>r\<in>#pending rems' heap'. sort_row kind keyCols r" using d p by simp
    obtain out where out: "merge_runs pick readers' heap' (merged @ [x]) = Some ((merged @ [x]) @ out)"
      "mset out = pending rems' heap'" "sorted_wrt (\<lambda>a b. \<not> cmp b a) out"
      using less.hyps [OF _ r(2) f' d', of "merged @ [x]"] p by auto
    have "\<forall>y\<in>set out. \<not> cmp y x"
    proof
      fix y assume "y \<in> set out"
      then have "y \<in># pending rems heap" using out(2) p by (metis insert_iff set_mset_add_mset_insert set_mset_mset)
      moreover have "x \<in> fst ` set heap" using mem by force
      ultimately show "\<not> cmp y x"
        using m f k(2) d unfolding cmp_def by (rule_tac pending_least)
    qed
    moreover have "merge_runs pick readers heap merged = Some (merged @ x # out)"
      using False k(1) i r(1) out(1) xi
      by (subst merge_runs.simps) (simp add: k_def [symmetric] heap1_def [symmetric] Let_def)
    ultimately show ?thesis using out(2,3) p by (intro exI [of _ "x # out"]) simp
  qed
qed

lemma sorted_runs_mset: "0 < n \<Longrightarrow> mset (concat (sorted_runs cmp n rows)) = mset rows"
proof (induction cmp n rows rule: sorted_runs.induct)
  case (1 cmp n rows)
  show ?case
  proof (cases "rows = []")
    case True
    then show ?thesis by (simp add: sorted_runs.simps)
  next
    case False
    have "mset (take n rows) + mset (drop n rows) = mset rows" by (metis append_take_drop_id mset_append)
    then show ?thesis using 1 False by (subst sorted_runs.simps) simp
  qed
qed

lemma sorted_runs_chunks:
  "run \<in> set (sorted_runs cmp n rows) \<Longrightarrow> \<exists>chunk. run = stable_sort cmp chunk \<and> set chunk \<subseteq> set rows"
proof (induction cmp n rows rule: sorted_runs.induct)
  case (1 cmp n rows)
  have "rows \<noteq> []" "n \<noteq> 0" using 1(2) by (auto simp: sorted_runs.simps [of _ n rows] split: if_splits)
  then have "run = stable_sort cmp (take n rows) \<or> run \<in> set (sorted_runs cmp n (drop n rows))"
    using 1(2) by (subst (asm) sorted_runs.simps) simp
  then show ?case
  proof
    assume "run \<in> set (sorted_runs cmp n (drop n rows))"
    then show ?thesis using 1(1) \<open>rows \<noteq> []\<close> \<open>n \<noteq> 0\<close> set_drop_subset [of n rows] by blast
  qed (use set_take_subset [of n rows] in blast)
qed

lemma external_sort_base:
  fixes keyCols ascending
  defines "cmp \<equiv> \<lambda>a b. rowLess a b keyCols ascending"
  assumes rows: "\<forall>r\<in>set rows. sort_row kind keyCols r" "\<forall>r\<in>set rows. spillable r"
    and pick: "picks_least (sort_row kind keyCols) cmp (pick keyCols ascending)"
  shows "\<exists>out. externalSort pick rows keyCols ascending memLimitRows = Some out \<and> mset out = mset rows \<and>
    sorted_wrt (\<lambda>a b. \<not> cmp b a) out"
proof -
  define n where "n = (if memLimitRows = 0 then 1 else memLimitRows)"
  have n: "0 < n" by (simp add: n_def)
  show ?thesis
  proof (cases "length rows \<le> n")
    case True
    then have "externalSort pick rows keyCols ascending memLimitRows = Some (stable_sort cmp rows)"
      by (simp add: externalSort_def cmp_def n_def Let_def)
    then show ?thesis using row_order.sorted_stable_sort [OF rows(1)]
      unfolding cmp_def row_order.sorted_run_def by simp
  next
    case False
    define runs where "runs = sorted_runs cmp n rows"
    have "sorted_wrt (\<lambda>a b. \<not> cmp b a) run \<and> (\<forall>r\<in>set run. spillable r)" if run: "run \<in> set runs" for run
    proof -
      obtain chunk where c: "run = stable_sort cmp chunk" "set chunk \<subseteq> set rows"
        using sorted_runs_chunks [OF run[unfolded runs_def]] by blast
      then have "sorted_wrt (\<lambda>a b. \<not> cmp b a) run"
        using row_order.sorted_stable_sort [of chunk kind keyCols ascending] rows(1)
        unfolding cmp_def row_order.sorted_run_def by blast
      then show ?thesis using c rows(2) by auto
    qed
    then have "merging cmp runs (map run_file runs) []" by (simp add: merging_def)
    then obtain rems readers heap where h: "fill_heap [0..<length runs] (map run_file runs) [] = Some (readers, heap)"
      "merging cmp rems readers heap" "fronts rems heap" "pending rems heap = pending runs []"
      using fill_heap_step [of cmp runs "map run_file runs" "[]" "[0..<length runs]"] by auto
    have p: "pending rems heap = mset rows"
      using h(4) sorted_runs_mset [OF n] by (simp add: pending_def runs_def)
    obtain out where "merge_runs (pick keyCols ascending) readers heap [] = Some ([] @ out)" "mset out = pending rems heap"
      "sorted_wrt (\<lambda>a b. \<not> cmp b a) out"
      using merge_runs_sorts [OF h(2)[unfolded cmp_def] h(3) pick[unfolded cmp_def], of "[]"] rows(1) p
      unfolding cmp_def by auto
    moreover have "externalSort pick rows keyCols ascending memLimitRows = merge_runs (pick keyCols ascending) readers heap []"
      using False h(1) by (simp add: externalSort_def cmp_def [symmetric] n_def [symmetric] runs_def [symmetric] Let_def)
    ultimately show ?thesis using p by auto
  qed
qed

section \<open>The join\<close>

definition joins :: "nat \<Rightarrow> nat \<Rightarrow> row \<Rightarrow> row \<Rightarrow> bool" where
  "joins leftKey rightKey a b \<longleftrightarrow> compareValues (a ! leftKey) (b ! rightKey) = Some 0"

definition nested_loop :: "nat \<Rightarrow> nat \<Rightarrow> row list \<Rightarrow> row list \<Rightarrow> row list" where
  "nested_loop leftKey rightKey left right =
     concat (map (\<lambda>a. map (\<lambda>b. a @ b) (filter (joins leftKey rightKey a) right)) left)"

lemma joins_rank:
  assumes "in_class k (a ! l)" "in_class k (b ! r)"
  shows "joins l r a b \<longleftrightarrow> \<not> isNull (a ! l) \<and> val_rank (a ! l) = val_rank (b ! r)"
proof (cases "compareValues (a ! l) (b ! r)")
  case None
  moreover have "isNull (a ! l) \<or> isNull (b ! r)"
    using None assms by (cases "a ! l"; cases "b ! r") (auto simp: compareValues_None_iff)
  ultimately show ?thesis by (cases "a ! l"; cases "b ! r") (auto simp: joins_def)
next
  case (Some c)
  then have "\<not> isNull (a ! l)" by (auto simp: compareValues_def)
  then show ?thesis using compareValues_rank(2) [OF assms Some] Some by (simp add: joins_def)
qed

lemma same_key_rank:
  "in_class k v \<Longrightarrow> in_class k w \<Longrightarrow> same_key v w \<longleftrightarrow> val_rank v = val_rank w"
  using rank_less_linear [of "val_rank v" "val_rank w"] by (auto simp: same_key_def valueLess_rank [of k])

lemma nested_loop_append: "nested_loop l r (xs @ ys) R = nested_loop l r xs R @ nested_loop l r ys R"
  by (simp add: nested_loop_def)

lemma nested_loop_skip_right:
  "\<forall>a\<in>set L. \<forall>b\<in>set rs. \<not> joins l r a b \<Longrightarrow> nested_loop l r L (rs @ R) = nested_loop l r L R"
  by (simp add: nested_loop_def cong: map_cong)

lemma nested_loop_skip_left:
  "\<forall>a\<in>set ls. \<forall>b\<in>set R. \<not> joins l r a b \<Longrightarrow> nested_loop l r ls R = []"
  by (simp add: nested_loop_def)

definition key_sorted :: "nat \<Rightarrow> row list \<Rightarrow> bool" where
  "key_sorted c rows \<longleftrightarrow> sorted_wrt (\<lambda>a b. \<not> valueLess (b ! c) (a ! c)) rows"

text \<open>In a sorted list the rows after the group of the first key have a greater one.\<close>

lemma group_split:
  assumes "key_sorted c rows" "\<forall>a\<in>set rows. in_class k (a ! c)" "rows \<noteq> []"
  defines "v \<equiv> hd rows ! c"
  defines "g \<equiv> takeWhile (\<lambda>a. same_key v (a ! c)) rows"
  shows "\<forall>a\<in>set g. val_rank (a ! c) = val_rank v" "\<forall>a\<in>set (drop (length g) rows). val_rank (a ! c) \<noteq> val_rank v"
proof -
  have v: "in_class k v" using assms(2,3) by (simp add: v_def)
  have sub: "set (dropWhile (\<lambda>a. same_key v (a ! c)) rows) \<subseteq> set rows" by (auto dest: set_dropWhileD)
  show "\<forall>a\<in>set g. val_rank (a ! c) = val_rank v"
    using assms(2) same_key_rank [OF v] by (fastforce simp: g_def dest: set_takeWhileD)
  have d: "drop (length g) rows = dropWhile (\<lambda>a. same_key v (a ! c)) rows"
    unfolding g_def by (metis append_eq_conv_conj takeWhile_dropWhile_id)
  show "\<forall>a\<in>set (drop (length g) rows). val_rank (a ! c) \<noteq> val_rank v"
  proof (cases "dropWhile (\<lambda>a. same_key v (a ! c)) rows")
    case Nil
    then show ?thesis unfolding d by (metis empty_iff empty_set)
  next
    case (Cons b bs)
    have "sorted_wrt (\<lambda>a b. \<not> valueLess (b ! c) (a ! c)) (g @ b # bs)"
      using assms(1) Cons takeWhile_dropWhile_id [of "\<lambda>a. same_key v (a ! c)" rows]
      unfolding key_sorted_def g_def by simp
    then have s: "\<forall>x\<in>set g. \<not> valueLess (b ! c) (x ! c)" "\<forall>y\<in>set bs. \<not> valueLess (y ! c) (b ! c)"
      by (simp_all add: sorted_wrt_append)
    have cls: "in_class k (b ! c)" "\<forall>y\<in>set bs. in_class k (y ! c)" using assms(2) sub Cons by auto
    have "hd rows \<in> set g" using assms(3) by (cases rows) (simp_all add: g_def v_def)
    then have "\<not> rank_less (val_rank (b ! c)) (val_rank v)"
      using s(1) valueLess_rank [OF cls(1) v] by (auto simp: v_def)
    moreover have "\<not> same_key v (b ! c)" using Cons by (metis hd_dropWhile list.distinct(1) list.sel(1))
    ultimately have lt: "rank_less (val_rank v) (val_rank (b ! c))"
      using same_key_rank [OF v cls(1)] rank_less_linear by metis
    have "rank_less (val_rank v) (val_rank (y ! c))" if "y \<in> set bs" for y
      using s(2) that cls valueLess_rank [of k "y ! c" "b ! c"] lt rank_less_trans rank_less_linear by metis
    then have "\<forall>a\<in>set (b # bs). rank_less (val_rank v) (val_rank (a ! c))" using lt by simp
    then show ?thesis unfolding d Cons using rank_less_irrefl by metis
  qed
qed

lemma key_sorted_drop: "key_sorted c rows \<Longrightarrow> key_sorted c (drop n rows)"
  by (simp add: key_sorted_def sorted_wrt_drop)

lemma key_sorted_least:
  assumes "key_sorted c rows" "rows \<noteq> []" "y \<in> set rows"
  shows "\<not> valueLess (y ! c) (hd rows ! c)"
  using assms by (cases rows) (auto simp: key_sorted_def)

lemma merge_groups_nested_loop:
  assumes "key_sorted l L" "key_sorted r R" "\<forall>a\<in>set L. in_class k (a ! l)" "\<forall>b\<in>set R. in_class k (b ! r)"
  shows "merge_groups l r L R out = out @ nested_loop l r L R"
  using assms
proof (induction l r L R out rule: merge_groups.induct)
  case (1 l r L R out)
  show ?case
  proof (cases "L = [] \<or> R = []")
    case True
    then show ?thesis by (subst merge_groups.simps) (auto simp: nested_loop_def)
  next
    case False
    define lk rk where k: "lk = hd L ! l" "rk = hd R ! r"
    have cls: "in_class k lk" "in_class k rk" using 1(8,9) False k by simp_all
    have L: "[hd L] @ tl L = L" and R: "[hd R] @ tl R = R" using False by simp_all
    have tls: "key_sorted l (tl L)" "key_sorted r (tl R)" "\<forall>a\<in>set (tl L). in_class k (a ! l)"
      "\<forall>b\<in>set (tl R). in_class k (b ! r)"
      using 1(6-9) key_sorted_drop [of _ _ 1] False by (auto simp: drop_Suc dest: list.set_sel(2) [rotated])
    have jr: "joins l r a b \<longleftrightarrow> \<not> isNull (a ! l) \<and> val_rank (a ! l) = val_rank (b ! r)"
      if "a \<in> set L" "b \<in> set R" for a b
      using joins_rank that 1(8,9) by blast
    have null: "isNull v \<longleftrightarrow> fst (val_rank v) = 0" for v by (cases v) auto
    have skipL: "nested_loop l r L R = nested_loop l r (tl L) R" if "\<forall>b\<in>set R. \<not> joins l r (hd L) b"
      using nested_loop_skip_left [of "[hd L]" R l r] that nested_loop_append [of l r "[hd L]" "tl L" R] L by simp
    have skipR: "nested_loop l r L R = nested_loop l r L (tl R)" if "\<forall>a\<in>set L. \<not> joins l r a (hd R)"
      using nested_loop_skip_right [of L "[hd R]" l r "tl R"] that R by simp
    have hds: "hd L \<in> set L" "hd R \<in> set R" using False by simp_all
    note step = merge_groups.simps [of l r L R out]
    consider (nl) "isNull lk" | (nr) "\<not> isNull lk" "isNull rk"
      | (lt) "\<not> isNull lk" "\<not> isNull rk" "valueLess lk rk"
      | (gt) "\<not> isNull lk" "\<not> isNull rk" "\<not> valueLess lk rk" "valueLess rk lk"
      | (eq) "\<not> isNull lk" "\<not> isNull rk" "\<not> valueLess lk rk" "\<not> valueLess rk lk" by blast
    then show ?thesis
    proof cases
      case nl
      then have "merge_groups l r L R out = merge_groups l r (tl L) R out" using False k by (simp add: step)
      moreover have "\<forall>b\<in>set R. \<not> joins l r (hd L) b" using jr hds nl k by auto
      ultimately show ?thesis using 1(1) [OF False k nl tls(1) 1(7) tls(3) 1(9)] skipL by simp
    next
      case nr
      then have "merge_groups l r L R out = merge_groups l r L (tl R) out" using False k by (simp add: step)
      moreover have "\<forall>a\<in>set L. \<not> joins l r a (hd R)" using jr hds nr k null by metis
      ultimately show ?thesis using 1(2) [OF False k nr 1(6) tls(2) 1(8) tls(4)] skipR by simp
    next
      case lt
      then have "merge_groups l r L R out = merge_groups l r (tl L) R out" using False k by (simp add: step)
      moreover have "\<not> joins l r (hd L) b" if b: "b \<in> set R" for b
        using key_sorted_least [OF 1(7) _ b] False lt(3) valueLess_rank [OF cls] valueLess_rank [of k "b ! r" rk]
          1(9) b cls jr [OF hds(1) b] k by auto
      ultimately show ?thesis using 1(3) [OF False k lt tls(1) 1(7) tls(3) 1(9)] skipL by simp
    next
      case gt
      then have "merge_groups l r L R out = merge_groups l r L (tl R) out" using False k by (simp add: step)
      moreover have "\<not> joins l r a (hd R)" if a: "a \<in> set L" for a
        using key_sorted_least [OF 1(6) _ a] False gt(4) valueLess_rank [OF cls(2,1)] valueLess_rank [of k "a ! l" lk]
          1(8) a cls jr [OF a hds(2)] k by auto
      ultimately show ?thesis using 1(4) [OF False k gt 1(6) tls(2) 1(8) tls(4)] skipR by simp
    next
      case eq
      define ls where "ls = takeWhile (\<lambda>a. same_key lk (a ! l)) L"
      define rs where "rs = takeWhile (\<lambda>b. same_key rk (b ! r)) R"
      define L' where "L' = drop (length ls) L"
      define R' where "R' = drop (length rs) R"
      have ne: "L \<noteq> []" "R \<noteq> []" using False by simp_all
      have LL: "L = ls @ L'" and RR: "R = rs @ R'"
        unfolding ls_def rs_def L'_def R'_def by (metis append_eq_conv_conj takeWhile_dropWhile_id)+
      have rank: "val_rank lk = val_rank rk" using eq cls same_key_rank [OF cls] by (simp add: same_key_def)
      have gl: "\<forall>a\<in>set ls. val_rank (a ! l) = val_rank lk" "\<forall>a\<in>set L'. val_rank (a ! l) \<noteq> val_rank lk"
        using group_split [OF 1(6,8) ne(1)] unfolding L'_def ls_def k by simp_all
      have gr: "\<forall>b\<in>set rs. val_rank (b ! r) = val_rank rk" "\<forall>b\<in>set R'. val_rank (b ! r) \<noteq> val_rank rk"
        using group_split [OF 1(7,9) ne(2)] unfolding R'_def rs_def k by simp_all
      have sub: "set ls \<subseteq> set L" "set L' \<subseteq> set L" "set rs \<subseteq> set R" "set R' \<subseteq> set R" using LL RR by auto
      have "filter (joins l r a) R = rs" if a: "a \<in> set ls" for a
      proof -
        have "\<forall>b\<in>set rs. joins l r a b" "\<forall>b\<in>set R'. \<not> joins l r a b"
          using jr a sub gl gr rank eq(1) null by (metis subsetD)+
        then show ?thesis by (simp add: RR)
      qed
      then have "nested_loop l r ls R = concat (map (\<lambda>a. map (\<lambda>b. a @ b) rs) ls)"
        by (simp add: nested_loop_def cong: map_cong)
      moreover have "nested_loop l r L' R = nested_loop l r L' R'"
        unfolding RR by (rule nested_loop_skip_right) (use jr sub gl gr rank in \<open>metis subsetD\<close>)
      ultimately have nl: "nested_loop l r L R = concat (map (\<lambda>a. map (\<lambda>b. a @ b) rs) ls) @ nested_loop l r L' R'"
        by (metis LL nested_loop_append)
      have "merge_groups l r L R out = merge_groups l r L' R' (out @ concat (map (\<lambda>a. map (\<lambda>b. a @ b) rs) ls))"
        using False k eq by (simp add: step ls_def rs_def L'_def R'_def Let_def)
      then show ?thesis
        using 1(5) [OF False k eq ls_def rs_def] key_sorted_drop [OF 1(6)] key_sorted_drop [OF 1(7)] 1(8,9) sub nl
        unfolding L'_def R'_def by (simp add: subset_iff)
    qed
  qed
qed

text \<open>The pairs a nested loop joins do not depend on the order of its inputs.\<close>

lemma mset_nested_loop:
  "mset (nested_loop l r L R) =
     sum_mset (image_mset (\<lambda>a. image_mset (\<lambda>b. a @ b) (filter_mset (joins l r a) (mset R))) (mset L))"
  by (induction L) (simp_all add: nested_loop_def)

section \<open>Properties\<close>

text \<open>The rows the external sort spills come back: decoding what \<open>encodeRow\<close> wrote gives the
  row and leaves the rest of the file.\<close>

lemma spilled_row_round_trip:
  assumes "spillable r"
  shows "decodeRow (encodeRow r @ s) = Decoded r s"
  using assms by (rule decode_encode_row)

lemma spilled_row_round_trip_witness:
  "decodeRow (encodeRow [VInt 7, VText ''ab'', VNull] @ ''x'') = Decoded [VInt 7, VText ''ab'', VNull] ''x''"
  by (rule spilled_row_round_trip) (simp add: spillable_def short_texts_def)


definition queue :: heap_choice where
  "queue keyCols ascending merged heap = least_index (\<lambda>a b. rowLess a b keyCols ascending) heap"

lemma queue_picks_least:
  "picks_least (sort_row kind keyCols) (\<lambda>a b. rowLess a b keyCols ascending) (queue keyCols ascending)"
  unfolding picks_least_def queue_def using row_order.least_index_spec by blast


text \<open>The sort-merge join returns exactly the pairs a nested-loop join on equality of the keys
  returns, each as often, with NULL keys joining nothing.\<close>

lemma merge_join_equals_nested_loop:
  assumes left: "\<forall>a\<in>set left. in_class k (a ! leftKey)" "\<forall>a\<in>set left. spillable a"
    and right: "\<forall>b\<in>set right. in_class k (b ! rightKey)" "\<forall>b\<in>set right. spillable b"
    and pick: "picks_least (sort_row (\<lambda>_. k) [leftKey]) (\<lambda>a b. rowLess a b [leftKey] [True]) (pick [leftKey] [True])"
      "picks_least (sort_row (\<lambda>_. k) [rightKey]) (\<lambda>a b. rowLess a b [rightKey] [True]) (pick [rightKey] [True])"
  shows "\<exists>out. mergeJoinInner pick left leftKey right rightKey memLimitRows = Some out \<and>
    mset out = mset (nested_loop leftKey rightKey left right)"
proof -
  have less: "rowLess a b [c] [True] = valueLess (a ! c) (b ! c)" for a b c
    by (simp add: rowLess_def)
  obtain L where L: "externalSort pick left [leftKey] [True] memLimitRows = Some L" "mset L = mset left" "key_sorted leftKey L"
    using external_sort_base [where pick = pick and keyCols = "[leftKey]" and ascending = "[True]", OF _ left(2) pick(1), of memLimitRows] left(1) unfolding key_sorted_def less
    by (auto simp: sort_row_def)
  obtain R where R: "externalSort pick right [rightKey] [True] memLimitRows = Some R" "mset R = mset right" "key_sorted rightKey R"
    using external_sort_base [where pick = pick and keyCols = "[rightKey]" and ascending = "[True]", OF _ right(2) pick(2), of memLimitRows] right(1) unfolding key_sorted_def less
    by (auto simp: sort_row_def)
  have "\<forall>a\<in>set L. in_class k (a ! leftKey)" "\<forall>b\<in>set R. in_class k (b ! rightKey)"
    using left(1) right(1) L(2) R(2) by (metis set_mset_mset)+
  then have "merge_groups leftKey rightKey L R [] = nested_loop leftKey rightKey L R"
    using merge_groups_nested_loop [OF L(3) R(3)] by simp
  then show ?thesis using L R by (simp add: mergeJoinInner_def mset_nested_loop)
qed

lemma merge_join_equals_nested_loop_witness:
  "\<exists>out. mergeJoinInner queue [[VInt 2], [VNull], [VInt 2]] 0 [[VInt 2], [VNull]] 0 2 = Some out \<and>
     mset out = mset (nested_loop 0 0 [[VInt 2], [VNull], [VInt 2]] [[VInt 2], [VNull]])"
  by (rule merge_join_equals_nested_loop [where k = NumClass])
     (simp_all add: spillable_def short_texts_def queue_picks_least)

end
