(* ===== verification/Executor.thy ===== *)
theory Executor
  imports TableManager Tuples ExprEval
begin

text \<open>
  The pull-based operators of \<open>src/src/vm/executor.cpp\<close>: the scan of a table, the filter and
  the projection. An operator is its members with its child; \<open>exec_next\<close> returns the operator
  and the tables after the call, with the row it delivers, the end of its input or the exception
  of a row that cannot be decoded. A filter calls its child until a row passes, so the call is a
  partial function; \<open>denote\<close> is the list of rows an operator has still to deliver, and every
  call on a consistent store is shown to return its head.
\<close>

section \<open>Operators\<close>

datatype executor =
    SeqScan int schema "iter option"
  | FilterExec executor "expr option"
  | ProjectionExec executor "int list"

datatype fetched = Threw string | Exhausted | Fetched row record_id

fun exec_init :: "executor \<Rightarrow> tables \<Rightarrow> executor \<times> tables" where
  "exec_init (SeqScan tid sch it) t = (case iter_open t tid of (t, it) \<Rightarrow> (SeqScan tid sch (Some it), t))"
| "exec_init (FilterExec child p) t = (case exec_init child t of (child, t) \<Rightarrow> (FilterExec child p, t))"
| "exec_init (ProjectionExec child cols) t =
     (case exec_init child t of (child, t) \<Rightarrow> (ProjectionExec child cols, t))"

definition scan_next :: "int \<Rightarrow> schema \<Rightarrow> iter option \<Rightarrow> tables \<Rightarrow> executor \<times> tables \<times> fetched" where
  "scan_next tid sch it t =
     (case it of
        None \<Rightarrow> (SeqScan tid sch it, t, Exhausted)
      | Some i \<Rightarrow>
          if \<not> it_valid i then (SeqScan tid sch it, t, Exhausted)
          else case deserialize (it_bytes i) sch of
            Inl e \<Rightarrow> (SeqScan tid sch it, t, Threw e)
          | Inr r \<Rightarrow>
              (case iter_next t tid i of (t, i') \<Rightarrow> (SeqScan tid sch (Some i'), t, Fetched r (it_rid i))))"

definition passes :: "expr option \<Rightarrow> row \<Rightarrow> bool option" where
  "passes p r = (case p of None \<Rightarrow> Some True | Some e \<Rightarrow> predicateTrue e r)"

definition project :: "int list \<Rightarrow> row \<Rightarrow> row" where
  "project cols r = map (\<lambda>c. if 0 \<le> c \<and> c < int (length r) then r ! nat c else VNull) cols"

partial_function (option) exec_next :: "executor \<Rightarrow> tables \<Rightarrow> (executor \<times> tables \<times> fetched) option" where
  "exec_next ex t =
     (case ex of
        SeqScan tid sch it \<Rightarrow> Some (scan_next tid sch it t)
      | FilterExec child p \<Rightarrow>
          Option.bind (exec_next child t) (\<lambda>(child, t, out).
            case out of
              Fetched r rid \<Rightarrow>
                Option.bind (passes p r) (\<lambda>ok.
                  if ok then Some (FilterExec child p, t, out) else exec_next (FilterExec child p) t)
            | _ \<Rightarrow> Some (FilterExec child p, t, out))
      | ProjectionExec child cols \<Rightarrow>
          Option.bind (exec_next child t) (\<lambda>(child, t, out).
            Some (ProjectionExec child cols, t,
                  case out of Fetched r rid \<Rightarrow> Fetched (project cols r) rid | _ \<Rightarrow> out)))"

text \<open>The loop \<open>while (exec->next(t, rid))\<close> of the callers: all rows, or the exception.\<close>

partial_function (option) drain ::
  "executor \<Rightarrow> tables \<Rightarrow> (row \<times> record_id) list \<Rightarrow> (tables \<times> (string + (row \<times> record_id) list)) option" where
  "drain ex t acc =
     Option.bind (exec_next ex t) (\<lambda>(ex, t, out).
       case out of
         Threw e \<Rightarrow> Some (t, Inl e)
       | Exhausted \<Rightarrow> Some (t, Inr acc)
       | Fetched r rid \<Rightarrow> drain ex t (acc @ [(r, rid)]))"

definition run_executor :: "executor \<Rightarrow> tables \<Rightarrow> (tables \<times> (string + (row \<times> record_id) list)) option" where
  "run_executor ex t = (case exec_init ex t of (ex, t) \<Rightarrow> drain ex t [])"

section \<open>The rows an operator stands for\<close>

fun decode_rows :: "schema \<Rightarrow> (record_id \<times> bytes) list \<Rightarrow> (row \<times> record_id) list option" where
  "decode_rows sch [] = Some []"
| "decode_rows sch ((rid, b) # rest) =
     (case deserialize b sch of
        Inl e \<Rightarrow> None
      | Inr r \<Rightarrow> map_option (\<lambda>rs. (r, rid) # rs) (decode_rows sch rest))"

fun filter_rows :: "expr option \<Rightarrow> (row \<times> record_id) list \<Rightarrow> (row \<times> record_id) list option" where
  "filter_rows p [] = Some []"
| "filter_rows p ((r, rid) # rest) =
     Option.bind (passes p r) (\<lambda>ok.
       map_option (\<lambda>rs. if ok then (r, rid) # rs else rs) (filter_rows p rest))"

fun denote :: "executor \<Rightarrow> tables \<Rightarrow> (row \<times> record_id) list option" where
  "denote (SeqScan tid sch it) t =
     (case it of None \<Rightarrow> Some [] | Some i \<Rightarrow> decode_rows sch (iter_pos i t tid))"
| "denote (FilterExec child p) t = Option.bind (denote child t) (filter_rows p)"
| "denote (ProjectionExec child cols) t =
     map_option (map (\<lambda>(r, rid). (project cols r, rid))) (denote child t)"

definition delivered :: "(row \<times> record_id) list \<Rightarrow> fetched" where
  "delivered rows = (case rows of [] \<Rightarrow> Exhausted | (r, rid) # _ \<Rightarrow> Fetched r rid)"

text \<open>The store is only read.\<close>

definition same_store :: "tables \<Rightarrow> tables \<Rightarrow> bool" where
  "same_store t t' \<longleftrightarrow> tm_inv t' \<and> pool_content (tm_pool t') = pool_content (tm_pool t) \<and>
     pool_pages (tm_pool t') = pool_pages (tm_pool t) \<and> pageList t' = pageList t"

lemma same_store_refl [simp]: "tm_inv t \<Longrightarrow> same_store t t"
  by (simp add: same_store_def)

lemma same_store_trans: "same_store a b \<Longrightarrow> same_store b c \<Longrightarrow> same_store a c"
  by (simp add: same_store_def)

lemma same_store_iter_pos: "same_store t t' \<Longrightarrow> iter_pos i t' tid = iter_pos i t tid"
  by (simp add: iter_pos_def same_store_def)

lemma same_store_table_rows: "same_store t t' \<Longrightarrow> table_rows t' tid = table_rows t tid"
  by (simp add: table_rows_def same_store_def)

lemma iter_open_spec:
  assumes "tm_inv t" "iter_open t tid = (t', it)"
  shows "same_store t t'" "iter_pos it t' tid = table_rows t tid"
  using advanceToLive_spec [OF assms(1) assms(2) [unfolded iter_open_def]]
  by (simp_all add: same_store_def table_rows_def)

lemma scan_next_spec:
  assumes "tm_inv t" "denote (SeqScan tid sch it) t = Some rows"
  shows "\<exists>it' t'. scan_next tid sch it t = (SeqScan tid sch it', t', delivered rows) \<and> same_store t t' \<and>
    denote (SeqScan tid sch it') t' = Some (tl rows)"
proof (cases it)
  case None
  then show ?thesis using assms by (simp add: scan_next_def delivered_def)
next
  case (Some i)
  show ?thesis
  proof (cases "it_valid i")
    case False
    then show ?thesis using assms Some by (simp add: scan_next_def iter_pos_def delivered_def)
  next
    case True
    obtain t' i' where nx: "iter_next t tid i = (t', i')" by (metis surj_pair)
    then have adv: "advanceToLive t tid (i\<lparr>it_slot := it_slot i + 1\<rparr>) = (t', i')"
      using True by (simp add: iter_next_def)
    note as = advanceToLive_spec [OF assms(1) adv]
    have pos: "iter_pos i t tid = (it_rid i, it_bytes i) # iter_pos i' t' tid"
      using True as(5) by (simp add: iter_pos_def [of i])
    then obtain r rest where r: "deserialize (it_bytes i) sch = Inr r" "decode_rows sch (iter_pos i' t' tid) = Some rest"
      "rows = (r, it_rid i) # rest"
      using assms(2) Some by (auto split: sum.splits)
    have "same_store t t'" using as by (simp add: same_store_def)
    then show ?thesis using Some True nx r by (simp add: scan_next_def delivered_def)
  qed
qed

lemma filter_rows_append_skip: "passes p r = Some False \<Longrightarrow> filter_rows p ((r, rid) # rest) = filter_rows p rest"
  by (simp add: option.map_ident)

text \<open>Every call returns the next row the operator stands for.\<close>

definition serves :: "executor \<Rightarrow> tables \<Rightarrow> (row \<times> record_id) list \<Rightarrow> bool" where
  "serves ex t rows \<longleftrightarrow> (\<exists>ex' t'. exec_next ex t = Some (ex', t', delivered rows) \<and> same_store t t' \<and>
     denote ex' t' = Some (tl rows) \<and> size ex' = size ex)"

lemma serves_filter:
  assumes child: "\<And>c t rows. size c = n \<Longrightarrow> tm_inv t \<Longrightarrow> denote c t = Some rows \<Longrightarrow> serves c t rows"
  shows "size c = n \<Longrightarrow> tm_inv t \<Longrightarrow> denote c t = Some src \<Longrightarrow> filter_rows p src = Some rows \<Longrightarrow>
    serves (FilterExec c p) t rows"
proof (induction src arbitrary: c t rows)
  case Nil
  obtain c' t' where c: "exec_next c t = Some (c', t', Exhausted)" "same_store t t'" "denote c' t' = Some []" "size c' = size c"
    using child [OF Nil(1-3)] by (auto simp: serves_def delivered_def)
  have "exec_next (FilterExec c p) t = Some (FilterExec c' p, t', Exhausted)"
    by (subst exec_next.simps) (simp add: c)
  then show ?case using c Nil(4) by (auto simp: serves_def delivered_def)
next
  case (Cons x src)
  obtain r rid where x: "x = (r, rid)" by fastforce
  obtain c' t' where c: "exec_next c t = Some (c', t', Fetched r rid)" "same_store t t'" "denote c' t' = Some src" "size c' = size c"
    using child [OF Cons.prems(1-3)] by (auto simp: serves_def delivered_def x)
  obtain ok rs where ok: "passes p r = Some ok" "filter_rows p src = Some rs" "rows = (if ok then (r, rid) # rs else rs)"
    using Cons.prems(4) by (auto simp: x bind_eq_Some_conv)
  show ?case
  proof (cases ok)
    case True
    have "exec_next (FilterExec c p) t = Some (FilterExec c' p, t', Fetched r rid)"
      by (subst exec_next.simps) (simp add: c ok True)
    then show ?thesis using c ok True by (auto simp: serves_def delivered_def)
  next
    case False
    have "exec_next (FilterExec c p) t = exec_next (FilterExec c' p) t'"
      by (subst exec_next.simps) (simp add: c ok False)
    moreover have "serves (FilterExec c' p) t' rs"
      using Cons.IH [of c' t'] c ok Cons.prems(1) by (simp add: same_store_def)
    ultimately show ?thesis using c(2,4) ok(3) False same_store_trans by (fastforce simp: serves_def)
  qed
qed

lemma exec_next_serves: "tm_inv t \<Longrightarrow> denote ex t = Some rows \<Longrightarrow> serves ex t rows"
proof (induction "size ex" arbitrary: ex t rows rule: less_induct)
  case less
  show ?case
  proof (cases ex)
    case (SeqScan tid sch it)
    obtain it' t' where s: "scan_next tid sch it t = (executor.SeqScan tid sch it', t', delivered rows)" "same_store t t'"
      "denote (executor.SeqScan tid sch it') t' = Some (tl rows)"
      using scan_next_spec less.prems SeqScan by blast
    have "exec_next ex t = Some (executor.SeqScan tid sch it', t', delivered rows)"
      unfolding SeqScan by (subst exec_next.simps) (simp add: s)
    then show ?thesis using s SeqScan by (auto simp: serves_def)
  next
    case (FilterExec c p)
    then obtain src where "denote c t = Some src" "filter_rows p src = Some rows"
      using less.prems(2) by (auto simp: bind_eq_Some_conv)
    then show ?thesis
      unfolding FilterExec using less.hyps less.prems(1) FilterExec
      by (intro serves_filter [where n = "size c"]) auto
  next
    case (ProjectionExec c cols)
    then obtain src where src: "denote c t = Some src" "rows = map (\<lambda>(r, rid). (project cols r, rid)) src"
      using less.prems(2) by auto
    have "serves c t src" using less.hyps [of c] less.prems(1) src(1) ProjectionExec by simp
    then obtain c' t' where c: "exec_next c t = Some (c', t', delivered src)" "same_store t t'"
      "denote c' t' = Some (tl src)" "size c' = size c" by (auto simp: serves_def)
    have "exec_next ex t = Some (executor.ProjectionExec c' cols, t', delivered rows)"
      unfolding ProjectionExec by (subst exec_next.simps) (simp add: c src delivered_def split: list.split)
    then show ?thesis using c src ProjectionExec by (auto simp: serves_def map_tl)
  qed
qed

lemma drain_denotes:
  "tm_inv t \<Longrightarrow> denote ex t = Some rows \<Longrightarrow> \<exists>t'. drain ex t acc = Some (t', Inr (acc @ rows)) \<and> same_store t t'"
proof (induction rows arbitrary: ex t acc)
  case Nil
  obtain ex' t' where "exec_next ex t = Some (ex', t', Exhausted)" "same_store t t'"
    using exec_next_serves [OF Nil] by (auto simp: serves_def delivered_def)
  then show ?case by (subst drain.simps) simp
next
  case (Cons x rows)
  obtain r rid where x: "x = (r, rid)" by fastforce
  obtain ex' t' where e: "exec_next ex t = Some (ex', t', Fetched r rid)" "same_store t t'" "denote ex' t' = Some rows"
    using exec_next_serves [OF Cons.prems] by (auto simp: serves_def delivered_def x)
  have t': "tm_inv t'" using e(2) by (simp add: same_store_def)
  obtain t'' where "drain ex' t' (acc @ [x]) = Some (t'', Inr ((acc @ [x]) @ rows))" "same_store t' t''"
    using Cons.IH [OF t' e(3)] by blast
  then show ?case using e x same_store_trans by (subst drain.simps) auto
qed

section \<open>A query plan over a table\<close>

text \<open>What a plan is worth: the rows of its table, filtered and projected.\<close>

fun plan_rows :: "executor \<Rightarrow> tables \<Rightarrow> (row \<times> record_id) list option" where
  "plan_rows (SeqScan tid sch it) t = decode_rows sch (table_rows t tid)"
| "plan_rows (FilterExec child p) t = Option.bind (plan_rows child t) (filter_rows p)"
| "plan_rows (ProjectionExec child cols) t =
     map_option (map (\<lambda>(r, rid). (project cols r, rid))) (plan_rows child t)"

lemma exec_init_spec:
  assumes "tm_inv t" "exec_init ex t = (ex', t')"
  shows "same_store t t' \<and> denote ex' t' = plan_rows ex t"
  using assms
proof (induction ex arbitrary: ex')
  case (SeqScan tid sch it)
  then show ?case using iter_open_spec [OF SeqScan(1)] by (auto split: prod.splits)
qed (auto split: prod.splits)

text \<open>A table with one record, to run plans on.\<close>

lemma one_record:
  assumes "storable b"
  shows "\<exists>t r. tm_inv t \<and> table_rows t tid = [(r, b)]"
proof -
  obtain t rs where p: "heap.put_all empty_tables tid [b] = (t, rs)" by (metis surj_pair)
  have inv: "tm_inv t" and rs: "length rs = 1" and rows: "tm_rows t = (tm_rows empty_tables)(tid := tm_rows empty_tables tid ++ map_of (zip rs [b]))"
    using heap.put_all_spec [OF empty_tables_inv(1) _ p] assms by auto
  obtain r where r: "rs = [r]" using rs by (cases rs) auto
  have "(q, c) \<in> set (table_rows t tid) \<longleftrightarrow> (q, c) = (r, b)" for q c
    using table_rows_graph [OF inv, of q c tid] rows r empty_tables_inv(2) by auto
  then have "set (table_rows t tid) = {(r, b)}" by auto
  moreover have "distinct (table_rows t tid)" using table_rows_map(2) [OF inv] by (simp add: distinct_map)
  ultimately have "table_rows t tid = [(r, b)]"
    by (metis distinct_card list.size(3) length_0_conv card.insert card.empty finite.emptyI empty_iff length_Suc_conv
        list.set_intros(1) singletonD One_nat_def)
  then show ?thesis using inv by blast
qed

lemma run_executor_rows:
  assumes "tm_inv t" "plan_rows ex t = Some rows"
  shows "\<exists>t'. run_executor ex t = Some (t', Inr rows) \<and> same_store t t'"
proof -
  obtain ex' t1 where i: "exec_init ex t = (ex', t1)" by (metis surj_pair)
  then have s: "same_store t t1" "denote ex' t1 = Some rows" using exec_init_spec [OF assms(1) i] assms(2) by auto
  then obtain t' where "drain ex' t1 [] = Some (t', Inr rows)" "same_store t1 t'"
    using drain_denotes [of t1 ex' rows "[]"] by (auto simp: same_store_def)
  then show ?thesis using i s same_store_trans by (auto simp: run_executor_def)
qed

text \<open>C39: Running a plan: on a consistent store whose rows decode and on which the predicates of the
  plan have values, a plan of scans, filters and projections runs to the end of its input,
  delivers exactly the rows of the table that pass the filters, projected, in the order of the
  table and with their identifiers, and changes nothing in the store.\<close>

theorem executor_delivers:
  assumes "tm_inv t" "plan_rows ex t = Some rows"
  shows "\<exists>t'. run_executor ex t = Some (t', Inr rows) \<and> same_store t t'"
  using assms by (rule run_executor_rows)

theorem executor_delivers_witness:
  "\<exists>t t' r. run_executor (ProjectionExec (FilterExec (SeqScan 1 [DInt, DText] None) (Some (LiteralExpr None (VBool True)))) [1, 5]) t =
     Some (t', Inr [([VText ''ab'', VNull], r)])"
proof -
  define b where "b = serialize [VInt 7, VText ''ab''] [DInt, DText]"
  have d: "deserialize b [DInt, DText] = Inr [VInt 7, VText ''ab'']"
    using deserialize_serialize [of "[DInt, DText]" "[VInt 7, VText ''ab'']"]
    by (simp add: b_def short_texts_def stored_row_def at_or_null_def upt_rec)
  have "b \<noteq> []" using d by (auto simp: deserialize_def)
  moreover have "length b < 4000"
    by (simp add: b_def serialize_def at_or_null_def upt_rec null_bitmap_spec enc_text_def)
  ultimately obtain t r where t: "tm_inv t" "table_rows t 1 = [(r, b)]"
    using one_record [of b 1] by (auto simp: storable_def)
  have "plan_rows (ProjectionExec (FilterExec (SeqScan 1 [DInt, DText] None) (Some (LiteralExpr None (VBool True)))) [1, 5]) t =
    Some [([VText ''ab'', VNull], r)]"
    by (simp add: t d passes_def predicateTrue_def project_def)
  from executor_delivers [OF t(1) this] show ?thesis by blast
qed

end
