(* ===== verification/RowKeys.thy ===== *)
theory RowKeys
  imports Optimizer
begin

text \<open>
  The text keys that \<open>vectorized.cpp\<close> and \<open>executor_engine.cpp\<close> hash values and rows by: a value
  is its type's number, a colon and its printed form, a row the keys of its columns, each ended
  by the character 0x1E. The locale \<open>text_key\<close> is what the hashing code relies on, a key that
  tells its values apart; from it follow that removing rows with a key seen before leaves the
  first occurrences, that collecting rows under their keys groups them by value, and that the
  hash join is the nested-loop join. The keys tell all values apart except doubles, which print
  six digits, and rows whose texts contain 0x1E.
\<close>

section \<open>Keys\<close>

definition keyOf :: "val \<Rightarrow> string" where
  "keyOf v = nat_str (type_index v) @ '':'' @ toString v"

definition key_end :: char where
  "key_end = CHR 0x1E"

definition row_key :: "row \<Rightarrow> string" where
  "row_key r = concat (map (\<lambda>v. keyOf v @ [key_end]) r)"

text \<open>\<open>seen.insert(key).second\<close>: the rows whose key was not seen.\<close>

fun keep_unseen :: "('a \<Rightarrow> string) \<Rightarrow> string set \<Rightarrow> 'a list \<Rightarrow> 'a list" where
  "keep_unseen key seen [] = []"
| "keep_unseen key seen (x # xs) =
     (if key x \<in> seen then keep_unseen key seen xs
      else x # keep_unseen key (insert (key x) seen) xs)"

definition dedupeRows :: "row list \<Rightarrow> row list" where
  "dedupeRows rows = keep_unseen row_key {} rows"

section \<open>Collecting rows under keys\<close>

text \<open>\<open>ht[key].push_back(x)\<close>, and a table of the rows in the order of their first keys.\<close>

definition push_back :: "string \<Rightarrow> 'a \<Rightarrow> (string \<Rightarrow> 'a list option) \<Rightarrow> string \<Rightarrow> 'a list option" where
  "push_back k x ht = ht(k \<mapsto> (case ht k of None \<Rightarrow> [] | Some xs \<Rightarrow> xs) @ [x])"

fun build_table :: "('a \<Rightarrow> string option) \<Rightarrow> 'a list \<Rightarrow> (string \<Rightarrow> 'a list option) \<Rightarrow> string \<Rightarrow> 'a list option" where
  "build_table key [] ht = ht"
| "build_table key (x # xs) ht =
     build_table key xs (case key x of None \<Rightarrow> ht | Some k \<Rightarrow> push_back k x ht)"

text \<open>The hash table of a join: rows with a NULL key are left out.\<close>

definition join_key :: "nat \<Rightarrow> row \<Rightarrow> string option" where
  "join_key c r = (if isNull (r ! c) then None else Some (keyOf (r ! c)))"

definition join_table :: "nat \<Rightarrow> row list \<Rightarrow> string \<Rightarrow> row list option" where
  "join_table c rows = build_table (join_key c) rows Map.empty"

definition probe_row :: "nat \<Rightarrow> (string \<Rightarrow> row list option) \<Rightarrow> row \<Rightarrow> row list" where
  "probe_row c ht l =
     (case join_key c l of
        None \<Rightarrow> []
      | Some k \<Rightarrow> (case ht k of None \<Rightarrow> [] | Some rs \<Rightarrow> map (\<lambda>r. l @ r) rs))"

definition hash_join :: "nat \<Rightarrow> nat \<Rightarrow> row list \<Rightarrow> row list \<Rightarrow> row list" where
  "hash_join leftKey rightKey left right =
     concat (map (probe_row leftKey (join_table rightKey right)) left)"

section \<open>What keys tell apart\<close>

text \<open>The first occurrences of a list, and the rows of each value.\<close>

fun firsts :: "'a list \<Rightarrow> 'a list" where
  "firsts [] = []"
| "firsts (x # xs) = x # removeAll x (firsts xs)"

definition group_by :: "('a \<Rightarrow> 'b) \<Rightarrow> 'a list \<Rightarrow> ('b \<times> 'a list) list" where
  "group_by f xs = map (\<lambda>v. (v, filter (\<lambda>x. f x = v) xs)) (firsts (map f xs))"

lemma set_firsts [simp]: "set (firsts xs) = set xs"
  by (induction xs) auto

lemma distinct_firsts [simp]: "distinct (firsts xs)"
  by (induction xs) (auto simp: distinct_removeAll)

lemma firsts_filter: "firsts (filter P xs) = filter P (firsts xs)"
proof (induction xs)
  case (Cons x xs)
  have "filter P (removeAll x ys) = removeAll x (filter P ys)" for ys by (induction ys) auto
  moreover have "\<not> P x \<Longrightarrow> removeAll x (filter P ys) = filter P ys" for ys by (induction ys) auto
  ultimately show ?case using Cons by auto
qed simp

lemma firsts_append: "firsts (xs @ ys) = firsts xs @ filter (\<lambda>y. y \<notin> set xs) (firsts ys)"
proof (induction xs)
  case (Cons x xs)
  have "removeAll x (filter (\<lambda>y. y \<notin> set xs) zs) = filter (\<lambda>y. y \<noteq> x \<and> y \<notin> set xs) zs" for zs
    by (induction zs) auto
  then show ?case using Cons by simp
qed simp

lemma build_table_spec:
  "build_table key xs ht k =
     (let m = filter (\<lambda>x. key x = Some k) xs in
      if m = [] then ht k else Some ((case ht k of None \<Rightarrow> [] | Some ys \<Rightarrow> ys) @ m))"
  by (induction xs arbitrary: ht) (auto simp: push_back_def Let_def split: option.splits)

locale text_key =
  fixes key :: "'a \<Rightarrow> string" and told :: "'a \<Rightarrow> bool"
  assumes apart: "told x \<Longrightarrow> told y \<Longrightarrow> key x = key y \<Longrightarrow> x = y"
begin

lemma keep_unseen_firsts:
  assumes "\<forall>x\<in>set xs. told x" "\<forall>y\<in>S. told y"
  shows "keep_unseen key (key ` S) xs = filter (\<lambda>x. x \<notin> S) (firsts xs)"
  using assms
proof (induction xs arbitrary: S)
  case (Cons x xs)
  have mem: "key x \<in> key ` S \<longleftrightarrow> x \<in> S" using Cons.prems apart by auto
  show ?case
  proof (cases "x \<in> S")
    case True
    have "filter (\<lambda>y. y \<notin> S) (removeAll x ys) = filter (\<lambda>y. y \<notin> S) ys" for ys
      using True by (induction ys) auto
    then show ?thesis using True mem Cons by simp
  next
    case False
    have "filter (\<lambda>y. y \<notin> insert x S) ys = filter (\<lambda>y. y \<notin> S) (removeAll x ys)" for ys
      by (induction ys) auto
    then show ?thesis using False mem Cons.IH [of "insert x S"] Cons.prems by simp
  qed
qed simp

lemma distinct_values: "\<forall>x\<in>set xs. told x \<Longrightarrow> keep_unseen key {} xs = firsts xs"
  using keep_unseen_firsts [of xs "{}"] by simp

lemma first_keys:
  assumes "\<forall>x\<in>set xs. told x"
  shows "firsts (map key xs) = map key (firsts xs)"
  using assms
proof (induction xs)
  case (Cons x xs)
  have "\<forall>y\<in>set ys. told y \<Longrightarrow> removeAll (key x) (map key ys) = map key (removeAll x ys)" for ys
    using Cons.prems by (induction ys) (auto dest: apart)
  then show ?case using Cons by simp
qed simp

text \<open>Grouping the rows by the key of a value they carry is grouping them by the value.\<close>

lemma group_values:
  assumes "\<forall>x\<in>set xs. told (f x)"
  shows "map snd (group_by (\<lambda>x. key (f x)) xs) = map snd (group_by f xs)"
proof -
  have "firsts (map (\<lambda>x. key (f x)) xs) = map key (firsts (map f xs))"
    using first_keys [of "map f xs"] assms by (simp add: comp_def)
  moreover have "filter (\<lambda>x. key (f x) = key v) xs = filter (\<lambda>x. f x = v) xs" if "v \<in> f ` set xs" for v
    using that assms by (intro filter_cong) (auto dest: apart)
  ultimately show ?thesis by (simp add: group_by_def comp_def)
qed

end

section \<open>The keys of the engine\<close>

lemma colon_split: "nat_str a @ CHR '':'' # s = nat_str b @ CHR '':'' # t \<longleftrightarrow> a = b \<and> s = t"
proof
  have colon: "\<not> is_digit CHR '':''" by (simp add: is_digit_def)
  have d: "takeWhile is_digit (nat_str n @ CHR '':'' # u) = nat_str n" "dropWhile is_digit (nat_str n @ CHR '':'' # u) = CHR '':'' # u"
    for n u
    using nat_str_digits colon by (simp_all add: takeWhile_append2 dropWhile_append2)
  assume "nat_str a @ CHR '':'' # s = nat_str b @ CHR '':'' # t"
  then have "nat_str a = nat_str b" "CHR '':'' # s = CHR '':'' # t" using d by metis+
  then show "a = b \<and> s = t" using digits_val_nat_str by (metis list.inject)
qed simp

lemma i64_str_inject [simp]: "i64_str a = i64_str b \<longleftrightarrow> a = b"
  by (metis option.inject stoll_i64_str)

fun hashable :: "val \<Rightarrow> bool" where
  "hashable (VDouble _) = False"
| "hashable _ = True"

lemma keyOf_inject: "hashable v \<Longrightarrow> hashable w \<Longrightarrow> keyOf v = keyOf w \<Longrightarrow> v = w"
  by (cases v; cases w) (auto simp: keyOf_def colon_split split: if_splits)

definition plain_value :: "val \<Rightarrow> bool" where
  "plain_value v \<longleftrightarrow> hashable v \<and> key_end \<notin> set (v_text v)"

definition plain_row :: "nat \<Rightarrow> row \<Rightarrow> bool" where
  "plain_row n r \<longleftrightarrow> length r = n \<and> (\<forall>v\<in>set r. plain_value v)"

lemma digits_no_end: "key_end \<notin> set (nat_str n)"
  using nat_str_digits [of key_end n] by (auto simp: is_digit_def key_end_def)

lemma keyOf_no_end: "plain_value v \<Longrightarrow> key_end \<notin> set (keyOf v)"
  using digits_no_end
  by (cases v) (auto simp: plain_value_def keyOf_def i64_str_def int_str_def key_end_def)

lemma end_split:
  "c \<notin> set a \<Longrightarrow> c \<notin> set b \<Longrightarrow> a @ c # s = b @ c # t \<Longrightarrow> a = b \<and> s = t"
proof (induction a arbitrary: b)
  case Nil
  then show ?case by (cases b) auto
next
  case (Cons x a)
  then show ?case by (cases b) auto
qed

lemma row_key_inject: "plain_row n r \<Longrightarrow> plain_row n q \<Longrightarrow> row_key r = row_key q \<Longrightarrow> r = q"
proof (induction r arbitrary: n q)
  case Nil
  then show ?case by (simp add: plain_row_def)
next
  case (Cons v r)
  obtain w q' where q: "q = w # q'" using Cons.prems by (cases q) (auto simp: plain_row_def)
  have p: "plain_value v" "plain_value w" "plain_row (length r) r" "plain_row (length r) q'"
    using Cons.prems q by (auto simp: plain_row_def)
  have "keyOf v @ key_end # row_key r = keyOf w @ key_end # row_key q'"
    using Cons.prems(3) q by (simp add: row_key_def)
  then have "keyOf v = keyOf w \<and> row_key r = row_key q'"
    by (rule end_split [OF keyOf_no_end [OF p(1)] keyOf_no_end [OF p(2)]])
  moreover have "hashable v" "hashable w" using p(1,2) by (simp_all add: plain_value_def)
  ultimately show ?case using keyOf_inject [of v w] Cons.IH [OF p(3,4)] q by simp
qed

interpretation value_key: text_key keyOf hashable
  by unfold_locales (rule keyOf_inject)

interpretation row_keys: text_key row_key "plain_row n" for n
  by unfold_locales (rule row_key_inject)

section \<open>The hash join\<close>

lemma compare_equal: "hashable v \<Longrightarrow> hashable w \<Longrightarrow> compareValues v w = Some 0 \<longleftrightarrow> \<not> isNull v \<and> v = w"
  by (cases v; cases w) (auto simp: compareValues_def of_bool_def split: if_splits intro: signed_word_eqI)

lemma hash_join_nested_loop:
  assumes "\<forall>a\<in>set left. hashable (a ! l)" "\<forall>b\<in>set right. hashable (b ! r)"
  shows "hash_join l r left right = nested_loop l r left right"
proof -
  have "probe_row l (join_table r right) a = map (\<lambda>b. a @ b) (filter (joins l r a) right)" if a: "a \<in> set left" for a
  proof (cases "isNull (a ! l)")
    case True
    then have "filter (joins l r a) right = []" by (simp add: joins_def compareValues_def filter_empty_conv)
    then show ?thesis using True by (simp add: probe_row_def join_key_def)
  next
    case False
    have "filter (\<lambda>b. join_key r b = Some (keyOf (a ! l))) right = filter (joins l r a) right"
    proof (rule filter_cong [OF refl])
      fix b assume b: "b \<in> set right"
      have "join_key r b = Some (keyOf (a ! l)) \<longleftrightarrow> \<not> isNull (b ! r) \<and> b ! r = a ! l"
        using assms a b keyOf_inject by (auto simp: join_key_def)
      then show "join_key r b = Some (keyOf (a ! l)) \<longleftrightarrow> joins l r a b"
        using compare_equal [of "a ! l" "b ! r"] assms a b False by (auto simp: joins_def)
    qed
    then show ?thesis
      using False by (auto simp: probe_row_def join_key_def join_table_def build_table_spec Let_def)
  qed
  then show ?thesis by (simp add: hash_join_def nested_loop_def cong: map_cong)
qed

text \<open>What the keys do not tell: two doubles that print the same six digits, an integer and the
  double equal to it, and rows whose texts contain the separator.\<close>

lemma scale_cancel:
  assumes "0 < (u::nat)"
  shows "scale_up f (n * u) (d * u) = map_prod id (\<lambda>x. x * u) (scale_up f n d)"
    and "scale_down f (n * u) (d * u) = map_prod id (\<lambda>x. x * u) (scale_down f n d)"
proof -
  have m: "10 * (x * u) = (10 * x) * u" for x by simp
  show "scale_up f (n * u) (d * u) = map_prod id (\<lambda>x. x * u) (scale_up f n d)"
  proof (induction f arbitrary: d)
    case (Suc f)
    have "n * u \<ge> 10 * (d * u) \<longleftrightarrow> n \<ge> 10 * d" using assms unfolding m by simp
    then show ?case using Suc.IH [of "10 * d"] unfolding m scale_up.simps by (simp add: m split: prod.split)
  qed simp
  show "scale_down f (n * u) (d * u) = map_prod id (\<lambda>x. x * u) (scale_down f n d)"
  proof (induction f arbitrary: n)
    case (Suc f)
    show ?case using Suc.IH [of "10 * n"] assms unfolding m scale_down.simps by (simp add: m split: prod.split)
  qed simp
qed

lemma six_digits_cancel: "0 < (u::nat) \<Longrightarrow> six_digits (n * u) (d * u) = six_digits n d"
proof -
  assume u: "0 < u"
  obtain up den where up: "scale_up 330 n d = (up, den)" by fastforce
  obtain down num where down: "scale_down 330 n den = (down, num)" by fastforce
  have "num * u * 10 ^ 5 = (num * 10 ^ 5) * u" by simp
  then have "num * u * 10 ^ 5 div (den * u) = num * 10 ^ 5 div den" "num * u * 10 ^ 5 mod (den * u) = (num * 10 ^ 5 mod den) * u"
    using u by (metis div_mult_mult2 less_numeral_extra(3), metis mult_mod_left)
  moreover have "2 * (r * u) > den * u \<longleftrightarrow> 2 * r > den" "2 * (r * u) = den * u \<longleftrightarrow> 2 * r = den" for r
    using u by (metis mult.assoc mult_less_cancel2, metis less_numeral_extra(3) mult.assoc mult_cancel2)
  ultimately show ?thesis
    using scale_cancel [OF u] up down by (simp add: six_digits_def Let_def)
qed

lemma scale_numeral:
  "scale_up (numeral f) num den =
     (if num \<ge> 10 * den then (case scale_up (pred_numeral f) num (10 * den) of (x, d) \<Rightarrow> (Suc x, d)) else (0, den))"
  "scale_down (numeral f) num den =
     (if num < den then (case scale_down (pred_numeral f) (10 * num) den of (x, n) \<Rightarrow> (Suc x, n)) else (0, num))"
  by (simp_all add: numeral_eq_Suc)

lemma digits_whole: "six_digits (2 ^ 52 + 1) 1 = (15, 450360)" "six_digits (2 ^ 52 + 2) 1 = (15, 450360)"
proof -
  have up: "scale_up 330 4503599627370497 1 = (15, 10 ^ 15)" "scale_up 330 4503599627370498 1 = (15, 10 ^ 15)"
    by (simp_all add: scale_numeral)
  have down: "scale_down 330 4503599627370497 (10 ^ 15) = (0, 4503599627370497)"
    "scale_down 330 4503599627370498 (10 ^ 15) = (0, 4503599627370498)"
    by (simp_all add: scale_numeral)
  show "six_digits (2 ^ 52 + 1) 1 = (15, 450360)" "six_digits (2 ^ 52 + 2) 1 = (15, 450360)"
    using up down by (simp_all add: six_digits_def Let_def)
qed

lemma digit_chars:
  "digit_char 0 = CHR ''0''" "digit_char (Suc 0) = CHR ''1''" "digit_char 3 = CHR ''3''"
  "digit_char 4 = CHR ''4''" "digit_char 5 = CHR ''5''" "digit_char 6 = CHR ''6''"
  by code_simp+

lemma whole_double:
  fixes w :: dbl and k :: nat
  assumes "(w, k) \<in> {(0x4330000000000001, 1), (0x4330000000000002, 2)}"
  shows "\<not> f_sign w" "f_mag w = (2 ^ 52 + k) * one_unit" "\<not> f_is_nan w" "\<not> f_is_inf w"
    "f_key w = (2 ^ 52 + int k) * int one_unit"
proof -
  have f: "\<not> f_sign w" "f_exp w = 1075" "f_frac w = k"
    using assms by (auto simp: f_sign_def f_exp_def f_frac_def)
  show "\<not> f_sign w" by (rule f)
  show mag: "f_mag w = (2 ^ 52 + k) * one_unit" using f by (simp add: f_mag_def one_unit_def)
  show "\<not> f_is_nan w" and inf: "\<not> f_is_inf w" using f by (simp_all add: f_is_nan_def f_is_inf_def f_finite_def)
  show "f_key w = (2 ^ 52 + int k) * int one_unit" using inf f mag by (simp add: f_key_def f_units_def)
qed

lemma whole_double_text:
  fixes w :: dbl and k :: nat
  assumes "(w, k) \<in> {(0x4330000000000001, 1), (0x4330000000000002, 2)}"
  shows "formatDouble w = ''4.5036e+15''"
proof -
  note f = whole_double [OF assms]
  have k: "k = 1 \<or> k = 2" using assms by auto
  have "f_key (f_of_int (10 ^ 15)) = 10 ^ 15 * int one_unit" by (rule f_int_facts(1)) simp
  then have "\<not> f_lt (f_abs w) (f_of_int (10 ^ 15))" using f one_unit_pos by (simp add: f_abs_def f_lt_def)
  moreover have "six_digits (f_mag w) one_unit = (15, 450360)"
    using six_digits_cancel [OF one_unit_pos, of "2 ^ 52 + k" 1] digits_whole k unfolding f(2) by auto
  moreover have "nat_str 450360 = ''450360''" "nat_str 15 = ''15''"
    by (simp_all add: nat_str.simps digit_chars)
  ultimately show ?thesis
    using f by (simp add: formatDouble_def fmt_g_def with_point_def strip_zeros_def exponent_str_def)
qed

lemma keys_merge_doubles:
  "let a = VDouble 0x4330000000000001; b = VDouble 0x4330000000000002
   in compareValues a b = Some (- 1) \<and> dedupeRows [[a], [b]] = [[a]]"
proof -
  note a = whole_double [where w = "0x4330000000000001" and k = 1] and b = whole_double [where w = "0x4330000000000002" and k = 2]
  have "f_lt 0x4330000000000001 0x4330000000000002" using a b one_unit_pos by (simp add: f_lt_def)
  then show ?thesis
    using whole_double_text [where w = "0x4330000000000001" and k = 1] whole_double_text [where w = "0x4330000000000002" and k = 2]
    by (simp add: dedupeRows_def row_key_def keyOf_def compareValues_def asDouble_def)
qed

lemma keys_merge_texts:
  "let r = [VText (''x'' @ [key_end] @ ''3:''), VText []]; q = [VText ''x'', VText ([key_end] @ ''3:'')]
   in r \<noteq> q \<and> row_key r = row_key q"
proof -
  have "nat_str 3 = ''3''" by (simp add: nat_str.simps digit_chars)
  then show ?thesis by (simp add: row_key_def keyOf_def)
qed

lemma hash_join_misses_equal:
  "hash_join 0 0 [[VInt 3]] [[VDouble (f_of_int 3)]] = [] \<and>
   nested_loop 0 0 [[VInt 3]] [[VDouble (f_of_int 3)]] = [[VInt 3, VDouble (f_of_int 3)]]"
proof -
  have "keyOf (VInt 3) \<noteq> keyOf (VDouble (f_of_int 3))" using colon_split [of 1 _ 4] by (simp add: keyOf_def)
  moreover have "compareValues (VInt 3) (VDouble (f_of_int 3)) = Some 0"
    by (simp add: compareValues_def asDouble_def)
  ultimately show ?thesis
    by (simp add: hash_join_def probe_row_def join_key_def join_table_def push_back_def nested_loop_def joins_def)
qed

end
