(* ===== verification/Vectorized.thy ===== *)
theory Vectorized
  imports RowKeys Executor
begin

text \<open>
  The batch-at-a-time aggregates and joins of \<open>src/src/vm/vectorized.cpp\<close>. A sink is the state
  its \<open>consume\<close> changes; a scan pushes batches of \<open>batchSize\<close> rows and a last shorter one. The
  sinks are local to the call, so an exception of the scan leaves nothing behind and the scan
  is run to its end before the batches are formed. The theorems state that the batches do not
  show in the results: each is the row-at-a-time result, whatever the batch size.
\<close>

section \<open>Predicates and aggregates\<close>

record vec_term =
  term_column :: int
  term_op :: comparison_op
  term_literal :: val

type_synonym vec_predicate = "vec_term list"

datatype agg_kind = CountStar | CountOf | SumOf | AvgOf | MinOf | MaxOf

record vec_aggregate =
  agg_kind :: agg_kind
  agg_column :: int

record batch =
  b_columns :: "val list list"
  b_selection :: "nat list"

definition value_passes :: "vec_term \<Rightarrow> val \<Rightarrow> bool" where
  "value_passes t v =
     (case compareValues v (term_literal t) of None \<Rightarrow> False | Some c \<Rightarrow> compare_result (term_op t) c)"

definition cell :: "batch \<Rightarrow> int \<Rightarrow> nat \<Rightarrow> val" where
  "cell b c r = b_columns b ! nat c ! r"

definition filter_consume :: "vec_predicate \<Rightarrow> batch \<Rightarrow> batch" where
  "filter_consume pred b =
     b\<lparr>b_selection := filter (\<lambda>r. \<forall>t\<in>set pred. value_passes t (cell b (term_column t) r)) (b_selection b)\<rparr>"

section \<open>Accumulators\<close>

record acc =
  acc_count :: i64
  acc_isum :: i64
  acc_dsum :: dbl
  acc_isFloat :: bool
  acc_hasBest :: bool
  acc_best :: val

definition acc_new :: acc where
  "acc_new = \<lparr>acc_count = 0, acc_isum = 0, acc_dsum = f_zero False, acc_isFloat = False,
     acc_hasBest = False, acc_best = VNull\<rparr>"

text \<open>\<open>best = v\<close> when it is the first or comes before, or after, the best so far.\<close>

definition better :: "agg_kind \<Rightarrow> val \<Rightarrow> acc \<Rightarrow> acc" where
  "better kind v a =
     (if \<not> acc_hasBest a then a\<lparr>acc_best := v, acc_hasBest := True\<rparr>
      else case compareValues v (acc_best a) of
        None \<Rightarrow> a
      | Some c \<Rightarrow> if (kind = MinOf \<and> c < 0) \<or> (kind = MaxOf \<and> c > 0) then a\<lparr>acc_best := v\<rparr> else a)"

definition add_number :: "val \<Rightarrow> acc \<Rightarrow> acc" where
  "add_number v a =
     (case v of
        VDouble d \<Rightarrow> a\<lparr>acc_isFloat := True, acc_dsum := f_add (acc_dsum a) d, acc_count := acc_count a + 1\<rparr>
      | _ \<Rightarrow> a\<lparr>acc_isum := acc_isum a + v_int v, acc_count := acc_count a + 1\<rparr>)"

definition gAccumulate :: "acc \<Rightarrow> agg_kind \<Rightarrow> val \<Rightarrow> acc" where
  "gAccumulate a kind v =
     (if kind = CountStar then a\<lparr>acc_count := acc_count a + 1\<rparr>
      else if isNull v then a
      else case kind of
        CountOf \<Rightarrow> a\<lparr>acc_count := acc_count a + 1\<rparr>
      | SumOf \<Rightarrow> add_number v a
      | AvgOf \<Rightarrow> add_number v a
      | _ \<Rightarrow> better kind v a)"

definition gFinalize :: "agg_kind \<Rightarrow> acc \<Rightarrow> val" where
  "gFinalize kind a =
     (case kind of
        CountStar \<Rightarrow> VInt (acc_count a)
      | CountOf \<Rightarrow> VInt (acc_count a)
      | SumOf \<Rightarrow>
          if acc_count a = 0 then VNull
          else if acc_isFloat a then VDouble (f_add (acc_dsum a) (f_of_int (sint (acc_isum a))))
          else VInt (acc_isum a)
      | AvgOf \<Rightarrow>
          if acc_count a = 0 then VNull
          else VDouble (f_div (f_add (acc_dsum a) (f_of_int (sint (acc_isum a)))) (f_of_int (sint (acc_count a))))
      | _ \<Rightarrow> if acc_hasBest a then acc_best a else VNull)"

text \<open>\<open>VectorAggregator::consume\<close>: \<open>COUNT(*)\<close> takes the size of the selection at once.\<close>

definition agg_consume :: "vec_aggregate list \<Rightarrow> batch \<Rightarrow> acc list \<Rightarrow> acc list" where
  "agg_consume aggs b accs =
     map2 (\<lambda>agg a.
       if agg_kind agg = CountStar then a\<lparr>acc_count := acc_count a + word_of_nat (length (b_selection b))\<rparr>
       else foldl (\<lambda>a r. gAccumulate a (agg_kind agg) (cell b (agg_column agg) r)) a (b_selection b))
     aggs accs"

definition agg_result :: "vec_aggregate list \<Rightarrow> acc list \<Rightarrow> val list" where
  "agg_result aggs accs = map2 (\<lambda>agg a. gFinalize (agg_kind agg) a) aggs accs"

section \<open>Groups\<close>

record group =
  g_keyVals :: "val list"
  g_accs :: "acc list"

record group_sink =
  gs_groups :: "string \<Rightarrow> group option"
  gs_order :: "string list"

definition group_step :: "int list \<Rightarrow> vec_aggregate list \<Rightarrow> batch \<Rightarrow> group_sink \<Rightarrow> nat \<Rightarrow> group_sink" where
  "group_step groupCols aggs b s r =
     (let vals = map (\<lambda>c. cell b c r) groupCols;
          key = row_key vals;
          new = (gs_groups s key = None);
          g = (case gs_groups s key of
                 Some g \<Rightarrow> g
               | None \<Rightarrow> \<lparr>g_keyVals = vals, g_accs = replicate (length aggs) acc_new\<rparr>);
          accs = map2 (\<lambda>agg a. gAccumulate a (agg_kind agg)
                    (if agg_column agg \<ge> 0 then cell b (agg_column agg) r else VNull)) aggs (g_accs g)
      in s\<lparr>gs_groups := (gs_groups s)(key \<mapsto> g\<lparr>g_accs := accs\<rparr>),
           gs_order := (if new then gs_order s @ [key] else gs_order s)\<rparr>)"

definition group_consume :: "int list \<Rightarrow> vec_aggregate list \<Rightarrow> batch \<Rightarrow> group_sink \<Rightarrow> group_sink" where
  "group_consume groupCols aggs b s = foldl (group_step groupCols aggs b) s (b_selection b)"

definition group_new :: group_sink where
  "group_new = \<lparr>gs_groups = Map.empty, gs_order = []\<rparr>"

definition group_result :: "vec_aggregate list \<Rightarrow> group_sink \<Rightarrow> row list" where
  "group_result aggs s =
     map (\<lambda>key. case gs_groups s key of
            Some g \<Rightarrow> g_keyVals g @ agg_result aggs (g_accs g)
          | None \<Rightarrow> []) (gs_order s)"

section \<open>The probe side of the hash join\<close>

definition probe_consume :: "(string \<Rightarrow> row list option) \<Rightarrow> int \<Rightarrow> batch \<Rightarrow> row list \<Rightarrow> row list" where
  "probe_consume ht probeKeyCol b out =
     foldl (\<lambda>out r.
       let k = cell b probeKeyCol r in
       if isNull k then out
       else case ht (keyOf k) of
         None \<Rightarrow> out
       | Some buildRows \<Rightarrow>
           let probeRow = map (\<lambda>col. col ! r) (b_columns b)
           in out @ map (\<lambda>buildRow. probeRow @ buildRow) buildRows) out (b_selection b)"

section \<open>The scan\<close>

definition batch_new :: "nat \<Rightarrow> batch" where
  "batch_new ncols = \<lparr>b_columns = replicate ncols [], b_selection = []\<rparr>"

definition batch_push :: "nat \<Rightarrow> nat \<Rightarrow> row \<Rightarrow> batch \<Rightarrow> batch" where
  "batch_push ncols filled r b =
     \<lparr>b_columns = map (\<lambda>c. b_columns b ! c @ [at_or_null r c]) [0..<ncols],
      b_selection = b_selection b @ [filled]\<rparr>"

fun scanIntoSink :: "(batch \<Rightarrow> 's \<Rightarrow> 's) \<Rightarrow> nat \<Rightarrow> nat \<Rightarrow> row list \<Rightarrow> nat \<Rightarrow> batch \<Rightarrow> 's \<Rightarrow> 's" where
  "scanIntoSink consume batchSize ncols [] filled b s = (if filled > 0 then consume b s else s)"
| "scanIntoSink consume batchSize ncols (r # rows) filled b s =
     (let b = batch_push ncols filled r b; filled = filled + 1
      in if filled = batchSize
         then scanIntoSink consume batchSize ncols rows 0 (batch_new ncols) (consume b s)
         else scanIntoSink consume batchSize ncols rows filled b s)"

definition filtered :: "vec_predicate option \<Rightarrow> (batch \<Rightarrow> 's \<Rightarrow> 's) \<Rightarrow> batch \<Rightarrow> 's \<Rightarrow> 's" where
  "filtered pred consume b s = (case pred of None \<Rightarrow> consume b s | Some p \<Rightarrow> consume (filter_consume p b) s)"

text \<open>The rows of a table, as \<open>SeqScanExecutor\<close> delivers them.\<close>

definition scan_table :: "tables \<Rightarrow> int \<Rightarrow> schema \<Rightarrow> (tables \<times> (string + row list)) option" where
  "scan_table t tid sch =
     map_option (\<lambda>(t, out). (t, case out of Inl e \<Rightarrow> Inl e | Inr rows \<Rightarrow> Inr (map fst rows)))
       (run_executor (SeqScan tid sch None) t)"

definition over_rows :: "(tables \<times> (string + row list)) option \<Rightarrow> (row list \<Rightarrow> 'a) \<Rightarrow> (tables \<times> (string + 'a)) option" where
  "over_rows scan f =
     map_option (\<lambda>(t, out). (t, case out of Inl e \<Rightarrow> Inl e | Inr rows \<Rightarrow> Inr (f rows))) scan"

definition vec_aggregate_rows :: "nat \<Rightarrow> vec_predicate option \<Rightarrow> vec_aggregate list \<Rightarrow> nat \<Rightarrow> row list \<Rightarrow> val list" where
  "vec_aggregate_rows ncols pred aggs batchSize rows =
     agg_result aggs (scanIntoSink (filtered pred (agg_consume aggs)) batchSize ncols rows 0 (batch_new ncols)
       (replicate (length aggs) acc_new))"

definition runVectorizedAggregate ::
  "tables \<Rightarrow> int \<Rightarrow> schema \<Rightarrow> vec_predicate option \<Rightarrow> vec_aggregate list \<Rightarrow> nat \<Rightarrow> (tables \<times> (string + val list)) option" where
  "runVectorizedAggregate t tid sch pred aggs batchSize =
     over_rows (scan_table t tid sch) (vec_aggregate_rows (length sch) pred aggs batchSize)"

definition vec_group_rows ::
  "nat \<Rightarrow> vec_predicate option \<Rightarrow> int list \<Rightarrow> vec_aggregate list \<Rightarrow> nat \<Rightarrow> row list \<Rightarrow> row list" where
  "vec_group_rows ncols pred groupCols aggs batchSize rows =
     group_result aggs (scanIntoSink (filtered pred (group_consume groupCols aggs)) batchSize ncols rows 0
       (batch_new ncols) group_new)"

definition runVectorizedGroupAggregate ::
  "tables \<Rightarrow> int \<Rightarrow> schema \<Rightarrow> vec_predicate option \<Rightarrow> int list \<Rightarrow> vec_aggregate list \<Rightarrow> nat \<Rightarrow>
   (tables \<times> (string + row list)) option" where
  "runVectorizedGroupAggregate t tid sch pred groupCols aggs batchSize =
     over_rows (scan_table t tid sch) (vec_group_rows (length sch) pred groupCols aggs batchSize)"

text \<open>The build side skips rows too short for the key column.\<close>

definition build_rows :: "int \<Rightarrow> row list \<Rightarrow> string \<Rightarrow> row list option" where
  "build_rows keyColumn rows =
     join_table (nat keyColumn) (filter (\<lambda>r. \<not> keyColumn \<ge> int (length r)) rows)"

definition vec_join_rows :: "nat \<Rightarrow> int \<Rightarrow> int \<Rightarrow> nat \<Rightarrow> row list \<Rightarrow> row list \<Rightarrow> row list" where
  "vec_join_rows probeCols buildKey probeKey batchSize buildRows probeRows =
     scanIntoSink (probe_consume (build_rows buildKey buildRows) probeKey) batchSize probeCols probeRows 0
       (batch_new probeCols) []"

definition runVectorizedHashJoin ::
  "tables \<Rightarrow> int \<Rightarrow> schema \<Rightarrow> int \<Rightarrow> int \<Rightarrow> schema \<Rightarrow> int \<Rightarrow> nat \<Rightarrow> (tables \<times> (string + row list)) option" where
  "runVectorizedHashJoin t buildId buildSchema buildKey probeId probeSchema probeKey batchSize =
     Option.bind (scan_table t buildId buildSchema) (\<lambda>(t, out).
       case out of
         Inl e \<Rightarrow> Some (t, Inl e)
       | Inr buildRows \<Rightarrow>
           over_rows (scan_table t probeId probeSchema)
             (vec_join_rows (length probeSchema) buildKey probeKey batchSize buildRows))"

section \<open>Batches do not show\<close>

text \<open>A batch of given rows, padded to the number of columns of the table.\<close>

definition batch_of :: "nat \<Rightarrow> row list \<Rightarrow> batch" where
  "batch_of ncols rows =
     \<lparr>b_columns = map (\<lambda>c. map (\<lambda>r. at_or_null r c) rows) [0..<ncols], b_selection = [0..<length rows]\<rparr>"

lemma batch_new_of: "batch_new n = batch_of n []"
  by (simp add: batch_new_def batch_of_def map_replicate_const)

lemma batch_push_of: "batch_push n (length rows) r (batch_of n rows) = batch_of n (rows @ [r])"
  by (simp add: batch_push_def batch_of_def)

lemma cell_of: "0 \<le> c \<Longrightarrow> nat c < n \<Longrightarrow> i < length rows \<Longrightarrow> cell (batch_of n rows) c i = at_or_null (rows ! i) (nat c)"
  by (simp add: cell_def batch_of_def)

lemma cell_cong: "b_columns b = b_columns b' \<Longrightarrow> cell b = cell b'"
  by (intro ext) (simp add: cell_def)

text \<open>A sink that treats a batch as the sequence of its rows may be fed the rows one by one.\<close>

lemma scanIntoSink_foldl:
  assumes "\<And>rows s. consume (batch_of n rows) s = foldl step s rows"
  shows "scanIntoSink consume batchSize n rows (length pre) (batch_of n pre) s = foldl step s (pre @ rows)"
proof (induction rows arbitrary: pre s)
  case Nil
  then show ?case using assms by simp
next
  case (Cons r rows)
  show ?case
    using Cons.IH [of "pre @ [r]" s] Cons.IH [of "[]"] assms
    by (simp add: batch_push_of batch_new_of Let_def del: length_greater_0_conv)
qed

lemma scan_rows:
  assumes "\<And>rows s. consume (batch_of n rows) s = foldl step s rows"
  shows "scanIntoSink consume batchSize n rows 0 (batch_new n) s = foldl step s rows"
  using scanIntoSink_foldl [OF assms, where pre = "[]"] by (simp add: batch_new_of)

lemma foldl_selection:
  "(\<And>i s. i < length rows \<Longrightarrow> f s i = g s (rows ! i)) \<Longrightarrow> foldl f s [0..<length rows] = foldl g s rows"
proof (induction rows arbitrary: f s)
  case (Cons r rows)
  have "[0..<length (r # rows)] = 0 # map Suc [0..<length rows]" by (simp add: map_Suc_upt upt_conv_Cons del: upt_Suc)
  then have "foldl f s [0..<length (r # rows)] = foldl (\<lambda>s i. f s (Suc i)) (f s 0) [0..<length rows]"
    by (simp add: foldl_map del: upt_Suc)
  also have "\<dots> = foldl g (f s 0) rows" using Cons.prems by (intro Cons.IH) auto
  finally show ?case using Cons.prems [of 0 s] by simp
qed simp

text \<open>The rows a predicate lets through, by themselves.\<close>

definition row_passes :: "vec_predicate option \<Rightarrow> row \<Rightarrow> bool" where
  "row_passes pred r \<longleftrightarrow>
     (case pred of None \<Rightarrow> True
      | Some p \<Rightarrow> \<forall>t\<in>set p. value_passes t (at_or_null r (nat (term_column t))))"

definition pred_ok :: "nat \<Rightarrow> vec_predicate option \<Rightarrow> bool" where
  "pred_ok n pred \<longleftrightarrow> (\<forall>p. pred = Some p \<longrightarrow> (\<forall>t\<in>set p. 0 \<le> term_column t \<and> nat (term_column t) < n))"

definition agg_ok :: "nat \<Rightarrow> vec_aggregate \<Rightarrow> bool" where
  "agg_ok n agg \<longleftrightarrow> agg_kind agg = CountStar \<or> (0 \<le> agg_column agg \<and> nat (agg_column agg) < n)"

lemma filter_consume_of:
  assumes "pred_ok n (Some p)"
  shows "b_selection (filter_consume p (batch_of n rows)) = filter (\<lambda>i. row_passes (Some p) (rows ! i)) [0..<length rows]"
    and "cell (filter_consume p (batch_of n rows)) = cell (batch_of n rows)"
    and "b_columns (filter_consume p (batch_of n rows)) = b_columns (batch_of n rows)"
proof -
  have "(\<forall>t\<in>set p. value_passes t (cell (batch_of n rows) (term_column t) i)) \<longleftrightarrow> row_passes (Some p) (rows ! i)"
    if "i \<in> set [0..<length rows]" for i
    using assms that cell_of [of _ n i rows] by (auto simp: row_passes_def pred_ok_def)
  then have "filter (\<lambda>i. \<forall>t\<in>set p. value_passes t (cell (batch_of n rows) (term_column t) i)) [0..<length rows] =
    filter (\<lambda>i. row_passes (Some p) (rows ! i)) [0..<length rows]"
    by (rule filter_cong [OF refl])
  moreover have "b_selection (batch_of n rows) = [0..<length rows]" by (simp add: batch_of_def)
  ultimately show "b_selection (filter_consume p (batch_of n rows)) = filter (\<lambda>i. row_passes (Some p) (rows ! i)) [0..<length rows]"
    by (simp add: filter_consume_def)
  show "cell (filter_consume p (batch_of n rows)) = cell (batch_of n rows)"
    by (intro ext) (simp add: cell_def filter_consume_def)
  show "b_columns (filter_consume p (batch_of n rows)) = b_columns (batch_of n rows)" by (simp add: filter_consume_def)
qed

lemma foldl_filter_list: "foldl f s (filter P xs) = foldl (\<lambda>s x. if P x then f s x else s) s xs"
  by (induction xs arbitrary: s) auto

text \<open>A sink that folds over the selection folds over the rows that pass.\<close>

lemma filtered_foldl:
  assumes ok: "pred_ok n pred"
    and consume: "\<And>b s. consume b s = foldl (f b) s (b_selection b)"
    and cells: "\<And>b b' s i. b_columns b = b_columns b' \<Longrightarrow> f b s i = f b' s i"
    and f: "\<And>rows i s. i < length rows \<Longrightarrow> f (batch_of n rows) s i = step s (rows ! i)"
  shows "filtered pred consume (batch_of n rows) s = foldl (\<lambda>s r. if row_passes pred r then step s r else s) s rows"
proof (cases pred)
  case None
  have "foldl (f (batch_of n rows)) s [0..<length rows] = foldl step s rows" by (rule foldl_selection) (rule f)
  then show ?thesis using None by (simp add: filtered_def consume batch_of_def row_passes_def)
next
  case (Some p)
  note fc = filter_consume_of [OF ok [unfolded Some], of rows]
  have "f (filter_consume p (batch_of n rows)) = f (batch_of n rows)"
    by (intro ext) (rule cells [OF fc(3)])
  then have "filtered pred consume (batch_of n rows) s =
    foldl (\<lambda>s i. if row_passes pred (rows ! i) then f (batch_of n rows) s i else s) s [0..<length rows]"
    by (simp add: filtered_def Some consume fc(1) foldl_filter_list)
  also have "\<dots> = foldl (\<lambda>s r. if row_passes pred r then step s r else s) s rows"
    by (rule foldl_selection) (simp add: f)
  finally show ?thesis .
qed

subsection \<open>Aggregates\<close>

text \<open>The row-at-a-time aggregate.\<close>

definition accumulate_all :: "vec_aggregate \<Rightarrow> row list \<Rightarrow> acc" where
  "accumulate_all agg rows =
     foldl (\<lambda>a r. gAccumulate a (agg_kind agg) (at_or_null r (nat (agg_column agg)))) acc_new rows"

definition row_aggregate :: "vec_aggregate \<Rightarrow> row list \<Rightarrow> val" where
  "row_aggregate agg rows = gFinalize (agg_kind agg) (accumulate_all agg rows)"

lemma map2_map2: "map2 g zs (map2 f zs ys) = map2 (\<lambda>z y. g z (f z y)) zs ys"
proof (induction zs arbitrary: ys)
  case (Cons z zs)
  then show ?case by (cases ys) auto
qed simp

lemma foldl_map2:
  assumes "length ys = length zs"
  shows "foldl (\<lambda>ys x. map2 (\<lambda>z y. f z y x) zs ys) ys xs = map2 (\<lambda>z y. foldl (f z) y xs) zs ys"
  using assms
proof (induction xs arbitrary: ys)
  case Nil
  then show ?case by (simp add: list_eq_iff_nth_eq)
next
  case (Cons x xs)
  then show ?case using map2_map2 [of "\<lambda>z y. foldl (f z) y xs" zs "\<lambda>z y. f z y x" ys] by simp
qed

lemma map2_replicate: "length zs = n \<Longrightarrow> map2 f zs (replicate n y) = map (\<lambda>z. f z y) zs"
  by (simp add: list_eq_iff_nth_eq)

definition agg_step :: "vec_aggregate list \<Rightarrow> batch \<Rightarrow> acc list \<Rightarrow> nat \<Rightarrow> acc list" where
  "agg_step aggs b accs i =
     map2 (\<lambda>agg a. gAccumulate a (agg_kind agg) (if agg_kind agg = CountStar then VNull else cell b (agg_column agg) i)) aggs accs"

lemma count_all:
  "foldl (\<lambda>a r. gAccumulate a CountStar (v r)) a rows = a\<lparr>acc_count := acc_count a + word_of_nat (length rows)\<rparr>"
  by (induction rows arbitrary: a) (simp_all add: gAccumulate_def ac_simps)

lemma agg_consume_foldl:
  assumes "length accs = length aggs"
  shows "agg_consume aggs b accs = foldl (agg_step aggs b) accs (b_selection b)"
proof -
  have "foldl (agg_step aggs b) accs (b_selection b) =
    map2 (\<lambda>agg a. foldl (\<lambda>a i. gAccumulate a (agg_kind agg) (if agg_kind agg = CountStar then VNull else cell b (agg_column agg) i))
      a (b_selection b)) aggs accs"
    unfolding agg_step_def by (rule foldl_map2 [OF assms])
  also have "\<dots> = agg_consume aggs b accs"
    unfolding agg_consume_def
    by (rule map_cong [OF refl]) (auto simp: count_all)
  finally show ?thesis by simp
qed

text \<open>The sink on all lists of accumulators, to fold over: the others do not occur.\<close>

definition agg_sink :: "vec_aggregate list \<Rightarrow> batch \<Rightarrow> acc list \<Rightarrow> acc list" where
  "agg_sink aggs b accs = foldl (agg_step aggs b) accs (b_selection b)"

lemma length_agg_consume [simp]: "length accs = length aggs \<Longrightarrow> length (agg_consume aggs b accs) = length aggs"
  by (simp add: agg_consume_def)

lemma scan_agg_sink:
  "length accs = length aggs \<Longrightarrow>
   scanIntoSink (filtered pred (agg_consume aggs)) bs n rows k b accs = scanIntoSink (filtered pred (agg_sink aggs)) bs n rows k b accs"
proof (induction rows arbitrary: k b accs)
  case Nil
  then show ?case by (simp add: filtered_def agg_sink_def agg_consume_foldl split: option.split)
next
  case (Cons r rows)
  have "filtered pred (agg_consume aggs) b' accs = filtered pred (agg_sink aggs) b' accs" for b'
    using Cons.prems by (simp add: filtered_def agg_sink_def agg_consume_foldl split: option.split)
  moreover have "length (filtered pred (agg_consume aggs) b' accs) = length aggs" for b'
    using Cons.prems by (simp add: filtered_def split: option.split)
  ultimately show ?case using Cons by (simp add: Let_def)
qed

lemma vec_aggregate_rows_eq:
  assumes "pred_ok n pred" "\<forall>agg\<in>set aggs. agg_ok n agg"
  shows "vec_aggregate_rows n pred aggs bs rows = map (\<lambda>agg. row_aggregate agg (filter (row_passes pred) rows)) aggs"
proof -
  define step where "step accs r = map2 (\<lambda>agg a. gAccumulate a (agg_kind agg) (at_or_null r (nat (agg_column agg)))) aggs accs"
    for accs r
  have step: "agg_step aggs (batch_of n rs) accs i = step accs (rs ! i)" if "i < length rs" for rs accs i
    unfolding agg_step_def step_def
  proof (rule map_cong [OF refl])
    fix x assume x: "x \<in> set (zip aggs accs)"
    obtain agg a where p: "x = (agg, a)" by fastforce
    have ok: "agg_ok n agg" using assms(2) x p by (auto dest: set_zip_leftD)
    have "gAccumulate a (agg_kind agg) (if agg_kind agg = CountStar then VNull else cell (batch_of n rs) (agg_column agg) i) =
      gAccumulate a (agg_kind agg) (at_or_null (rs ! i) (nat (agg_column agg)))"
      using that ok cell_of [of "agg_column agg" n i rs] by (cases "agg_kind agg = CountStar") (simp_all add: gAccumulate_def agg_ok_def)
    then show "(case x of (agg, a) \<Rightarrow> gAccumulate a (agg_kind agg) (if agg_kind agg = CountStar then VNull else cell (batch_of n rs) (agg_column agg) i)) =
      (case x of (agg, a) \<Rightarrow> gAccumulate a (agg_kind agg) (at_or_null (rs ! i) (nat (agg_column agg))))"
      by (simp add: p)
  qed
  have cells: "agg_step aggs b accs i = agg_step aggs b' accs i" if "b_columns b = b_columns b'" for b b' accs i
    by (simp only: agg_step_def cell_cong [OF that])
  have "filtered pred (agg_sink aggs) (batch_of n rs) accs = foldl (\<lambda>s r. if row_passes pred r then step s r else s) accs rs"
    for rs accs
    by (rule filtered_foldl [where f = "agg_step aggs", OF assms(1) agg_sink_def cells step])
  then have "scanIntoSink (filtered pred (agg_sink aggs)) bs n rows 0 (batch_new n) (replicate (length aggs) acc_new) =
    foldl step (replicate (length aggs) acc_new) (filter (row_passes pred) rows)"
    by (subst scan_rows [where step = "\<lambda>s r. if row_passes pred r then step s r else s"]) (simp_all add: foldl_filter_list)
  also have "\<dots> = map (\<lambda>agg. accumulate_all agg (filter (row_passes pred) rows)) aggs"
    unfolding step_def accumulate_all_def by (simp add: foldl_map2 map2_replicate)
  finally show ?thesis
    using scan_agg_sink [of "replicate (length aggs) acc_new" aggs pred bs n rows 0 "batch_new n"]
    by (simp add: vec_aggregate_rows_def agg_result_def row_aggregate_def list_eq_iff_nth_eq)
qed

subsection \<open>Groups\<close>

definition key_vals :: "int list \<Rightarrow> row \<Rightarrow> val list" where
  "key_vals groupCols r = map (\<lambda>c. at_or_null r (nat c)) groupCols"

definition agg_value :: "vec_aggregate \<Rightarrow> row \<Rightarrow> val" where
  "agg_value agg r = (if agg_column agg \<ge> 0 then at_or_null r (nat (agg_column agg)) else VNull)"

text \<open>The step of a group sink on a row.\<close>

definition group_row :: "int list \<Rightarrow> vec_aggregate list \<Rightarrow> group_sink \<Rightarrow> row \<Rightarrow> group_sink" where
  "group_row groupCols aggs s r =
     (let vals = key_vals groupCols r;
          key = row_key vals;
          g = (case gs_groups s key of
                 Some g \<Rightarrow> g
               | None \<Rightarrow> \<lparr>g_keyVals = vals, g_accs = replicate (length aggs) acc_new\<rparr>)
      in s\<lparr>gs_groups := (gs_groups s)(key \<mapsto>
             g\<lparr>g_accs := map2 (\<lambda>agg a. gAccumulate a (agg_kind agg) (agg_value agg r)) aggs (g_accs g)\<rparr>),
           gs_order := (if gs_groups s key = None then gs_order s @ [key] else gs_order s)\<rparr>)"

definition group_aggregate :: "vec_aggregate \<Rightarrow> row list \<Rightarrow> acc" where
  "group_aggregate agg rows = foldl (\<lambda>a r. gAccumulate a (agg_kind agg) (agg_value agg r)) acc_new rows"

text \<open>What the groups hold after a list of rows.\<close>

definition groups_of :: "int list \<Rightarrow> vec_aggregate list \<Rightarrow> row list \<Rightarrow> string \<Rightarrow> group option" where
  "groups_of groupCols aggs rows k =
     (case filter (\<lambda>r. row_key (key_vals groupCols r) = k) rows of
        [] \<Rightarrow> None
      | r # rs \<Rightarrow> Some \<lparr>g_keyVals = key_vals groupCols r, g_accs = map (\<lambda>agg. group_aggregate agg (r # rs)) aggs\<rparr>)"

lemma group_aggregate_snoc:
  "group_aggregate agg (rows @ [r]) = gAccumulate (group_aggregate agg rows) (agg_kind agg) (agg_value agg r)"
  by (simp add: group_aggregate_def)

lemma map2_map: "map2 f xs (map g xs) = map (\<lambda>x. f x (g x)) xs"
  by (simp add: list_eq_iff_nth_eq)

lemma firsts_snoc: "firsts (xs @ [x]) = (if x \<in> set xs then firsts xs else firsts xs @ [x])"
  by (simp add: firsts_append)

lemma foldl_group_row:
  "foldl (group_row groupCols aggs) group_new rows =
     \<lparr>gs_groups = groups_of groupCols aggs rows, gs_order = firsts (map (\<lambda>r. row_key (key_vals groupCols r)) rows)\<rparr>"
proof (induction rows rule: rev_induct)
  case Nil
  then show ?case by (simp add: group_new_def groups_of_def fun_eq_iff)
next
  case (snoc r rows)
  let ?key = "\<lambda>r. row_key (key_vals groupCols r)"
  have none: "groups_of groupCols aggs rows (?key r) = None \<longleftrightarrow> ?key r \<notin> set (map ?key rows)"
  proof -
    have "groups_of groupCols aggs rows (?key r) = None \<longleftrightarrow> filter (\<lambda>q. ?key q = ?key r) rows = []"
      by (simp add: groups_of_def split: list.split)
    moreover have "filter (\<lambda>q. ?key q = ?key r) rows = [] \<longleftrightarrow> ?key r \<notin> set (map ?key rows)"
      unfolding filter_empty_conv set_map image_iff by metis
    ultimately show ?thesis by (rule trans)
  qed
  have g: "groups_of groupCols aggs (rows @ [r]) = (groups_of groupCols aggs rows)(?key r \<mapsto>
      (let g = (case groups_of groupCols aggs rows (?key r) of
           Some g \<Rightarrow> g | None \<Rightarrow> \<lparr>g_keyVals = key_vals groupCols r, g_accs = replicate (length aggs) acc_new\<rparr>)
       in g\<lparr>g_accs := map2 (\<lambda>agg a. gAccumulate a (agg_kind agg) (agg_value agg r)) aggs (g_accs g)\<rparr>))"
  proof (rule ext)
    fix k
    show "groups_of groupCols aggs (rows @ [r]) k = ((groups_of groupCols aggs rows)(?key r \<mapsto>
      (let g = (case groups_of groupCols aggs rows (?key r) of
           Some g \<Rightarrow> g | None \<Rightarrow> \<lparr>g_keyVals = key_vals groupCols r, g_accs = replicate (length aggs) acc_new\<rparr>)
       in g\<lparr>g_accs := map2 (\<lambda>agg a. gAccumulate a (agg_kind agg) (agg_value agg r)) aggs (g_accs g)\<rparr>))) k"
    proof (cases "k = ?key r")
      case False
      then show ?thesis by (simp add: groups_of_def)
    next
      case True
      show ?thesis
      proof (cases "filter (\<lambda>q. ?key q = k) rows")
        case Nil
        then show ?thesis using True
          by (simp add: groups_of_def map2_replicate group_aggregate_def)
      next
        case (Cons q qs)
        have "group_aggregate agg (q # qs @ [r]) = gAccumulate (group_aggregate agg (q # qs)) (agg_kind agg) (agg_value agg r)" for agg
          using group_aggregate_snoc [of agg "q # qs" r] by simp
        then show ?thesis using True Cons by (simp add: groups_of_def map2_map)
      qed
    qed
  qed
  show ?case
    unfolding foldl_append foldl_Cons foldl_Nil snoc.IH g map_append list.map firsts_snoc
    using none by (simp add: group_row_def Let_def fun_upd_def)
qed

lemma group_step_row:
  assumes "\<forall>c\<in>set groupCols. 0 \<le> c \<and> nat c < n" "\<forall>agg\<in>set aggs. agg_column agg < int n" "i < length rows"
  shows "group_step groupCols aggs (batch_of n rows) s i = group_row groupCols aggs s (rows ! i)"
proof -
  have k: "map (\<lambda>c. cell (batch_of n rows) c i) groupCols = key_vals groupCols (rows ! i)"
    using assms by (simp add: key_vals_def cell_of)
  have v: "map2 (\<lambda>agg a. gAccumulate a (agg_kind agg) (if agg_column agg \<ge> 0 then cell (batch_of n rows) (agg_column agg) i else VNull)) aggs accs =
    map2 (\<lambda>agg a. gAccumulate a (agg_kind agg) (agg_value agg (rows ! i))) aggs accs" for accs
  proof (rule map_cong [OF refl])
    fix x assume x: "x \<in> set (zip aggs accs)"
    obtain agg a where p: "x = (agg, a)" by fastforce
    have "agg_column agg < int n" using assms(2) x p by (auto dest: set_zip_leftD)
    then have "(if agg_column agg \<ge> 0 then cell (batch_of n rows) (agg_column agg) i else VNull) = agg_value agg (rows ! i)"
      using cell_of [of "agg_column agg" n i rows] assms(3) by (simp add: agg_value_def nat_less_iff)
    then show "(case x of (agg, a) \<Rightarrow> gAccumulate a (agg_kind agg) (if agg_column agg \<ge> 0 then cell (batch_of n rows) (agg_column agg) i else VNull)) =
      (case x of (agg, a) \<Rightarrow> gAccumulate a (agg_kind agg) (agg_value agg (rows ! i)))"
      by (simp add: p)
  qed
  show ?thesis unfolding group_step_def group_row_def Let_def k v by simp
qed

lemma vec_group_rows_eq:
  assumes "pred_ok n pred" "\<forall>c\<in>set groupCols. 0 \<le> c \<and> nat c < n" "\<forall>agg\<in>set aggs. agg_column agg < int n"
  shows "vec_group_rows n pred groupCols aggs bs rows =
    map (\<lambda>(k, rs). key_vals groupCols (hd rs) @ map (\<lambda>agg. gFinalize (agg_kind agg) (group_aggregate agg rs)) aggs)
      (group_by (\<lambda>r. row_key (key_vals groupCols r)) (filter (row_passes pred) rows))"
proof -
  let ?rs = "filter (row_passes pred) rows"
  let ?key = "\<lambda>r. row_key (key_vals groupCols r)"
  have "filtered pred (group_consume groupCols aggs) (batch_of n rs) s =
      foldl (\<lambda>s r. if row_passes pred r then group_row groupCols aggs s r else s) s rs" for rs s
  proof (rule filtered_foldl [where f = "group_step groupCols aggs", OF assms(1) group_consume_def])
    show "group_step groupCols aggs b s i = group_step groupCols aggs b' s i" if "b_columns b = b_columns b'" for b b' s i
      by (simp only: group_step_def cell_cong [OF that])
  qed (rule group_step_row [OF assms(2,3)])
  then have "scanIntoSink (filtered pred (group_consume groupCols aggs)) bs n rows 0 (batch_new n) group_new =
    foldl (group_row groupCols aggs) group_new ?rs"
    by (subst scan_rows [where step = "\<lambda>s r. if row_passes pred r then group_row groupCols aggs s r else s"])
      (simp_all add: foldl_filter_list)
  then have "vec_group_rows n pred groupCols aggs bs rows =
    map (\<lambda>k. case groups_of groupCols aggs ?rs k of Some g \<Rightarrow> g_keyVals g @ agg_result aggs (g_accs g) | None \<Rightarrow> [])
      (firsts (map ?key ?rs))"
    by (simp add: vec_group_rows_def group_result_def foldl_group_row)
  also have "\<dots> = map (\<lambda>k. key_vals groupCols (hd (filter (\<lambda>r. ?key r = k) ?rs)) @
      map (\<lambda>agg. gFinalize (agg_kind agg) (group_aggregate agg (filter (\<lambda>r. ?key r = k) ?rs))) aggs) (firsts (map ?key ?rs))"
  proof (rule map_cong [OF refl])
    fix k assume "k \<in> set (firsts (map ?key ?rs))"
    then have "filter (\<lambda>r. ?key r = k) ?rs \<noteq> []" by (auto simp: filter_empty_conv)
    then show "(case groups_of groupCols aggs ?rs k of Some g \<Rightarrow> g_keyVals g @ agg_result aggs (g_accs g) | None \<Rightarrow> []) =
      key_vals groupCols (hd (filter (\<lambda>r. ?key r = k) ?rs)) @
      map (\<lambda>agg. gFinalize (agg_kind agg) (group_aggregate agg (filter (\<lambda>r. ?key r = k) ?rs))) aggs"
      by (auto simp: groups_of_def agg_result_def map2_map split: list.split)
  qed
  finally show ?thesis by (simp add: group_by_def)
qed

subsection \<open>The join\<close>

lemma probe_consume_foldl:
  "probe_consume ht c b out =
     foldl (\<lambda>out r. out @ (let k = cell b c r in if isNull k then []
        else case ht (keyOf k) of None \<Rightarrow> [] | Some rs \<Rightarrow> map (\<lambda>q. map (\<lambda>col. col ! r) (b_columns b) @ q) rs)) out (b_selection b)"
  unfolding probe_consume_def
  by (intro foldl_cong refl) (auto simp: Let_def split: option.split)

lemma foldl_append_concat: "foldl (\<lambda>out r. out @ f r) out xs = out @ concat (map f xs)"
  by (induction xs arbitrary: out) auto

lemma vec_join_rows_eq:
  assumes "\<forall>r\<in>set probeRows. length r = n" "0 \<le> probeKey" "nat probeKey < n"
    "0 \<le> buildKey" "\<forall>r\<in>set buildRows. nat buildKey < length r"
  shows "vec_join_rows n buildKey probeKey bs buildRows probeRows = hash_join (nat probeKey) (nat buildKey) probeRows buildRows"
proof -
  define ht where "ht = join_table (nat buildKey) buildRows"
  have "filter (\<lambda>r. \<not> buildKey \<ge> int (length r)) buildRows = buildRows" using assms(4,5) by (auto simp: filter_id_conv)
  then have ht: "build_rows buildKey buildRows = ht" by (simp add: build_rows_def ht_def)
  define pad where "pad r = map (at_or_null r) [0..<n]" for r
  have pad: "pad r = r" if "length r = n" for r
    using that by (auto simp: pad_def at_or_null_def list_eq_iff_nth_eq)
  have "probe_consume ht probeKey (batch_of n rs) out = foldl (\<lambda>out r. out @ probe_row (nat probeKey) ht (pad r)) out rs" for rs out
  proof -
    have sel: "b_selection (batch_of n rs) = [0..<length rs]" by (simp add: batch_of_def)
    have cols: "map (\<lambda>col. col ! i) (b_columns (batch_of n rs)) = pad (rs ! i)" if "i < length rs" for i
      using that by (simp add: batch_of_def pad_def)
    have key: "cell (batch_of n rs) probeKey i = pad (rs ! i) ! nat probeKey" if "i < length rs" for i
      using that assms(2,3) by (simp add: cell_of pad_def)
    show ?thesis unfolding probe_consume_foldl sel
      by (rule foldl_selection) (auto simp: cols key probe_row_def join_key_def Let_def split: option.split)
  qed
  then have "vec_join_rows n buildKey probeKey bs buildRows probeRows =
    foldl (\<lambda>out r. out @ probe_row (nat probeKey) ht (pad r)) [] probeRows"
    by (simp add: vec_join_rows_def ht scan_rows)
  also have "\<dots> = concat (map (\<lambda>r. probe_row (nat probeKey) ht (pad r)) probeRows)"
    by (simp add: foldl_append_concat)
  also have "\<dots> = hash_join (nat probeKey) (nat buildKey) probeRows buildRows"
    using assms(1) pad by (simp add: hash_join_def ht_def cong: map_cong)
  finally show ?thesis .
qed

lemma scan_table_rows:
  assumes "tm_inv t" "decode_rows sch (table_rows t tid) = Some rows"
  shows "\<exists>t'. scan_table t tid sch = Some (t', Inr (map fst rows)) \<and> same_store t t'"
  using run_executor_rows [of t "SeqScan tid sch None" rows] assms by (auto simp: scan_table_def)

section \<open>Properties\<close>

text \<open>C: The vectorized aggregate over batches of any size is the row-at-a-time aggregate over the
  rows that pass the predicate: where the batches end does not show in the result.\<close>

theorem vectorized_aggregate_rows:
  assumes "tm_inv t" "decode_rows sch (table_rows t tid) = Some rows"
    and "pred_ok (length sch) pred" "\<forall>agg\<in>set aggs. agg_ok (length sch) agg"
  shows "\<exists>t'. runVectorizedAggregate t tid sch pred aggs batchSize =
    Some (t', Inr (map (\<lambda>agg. row_aggregate agg (filter (row_passes pred) (map fst rows))) aggs)) \<and> same_store t t'"
  using vec_aggregate_rows_eq [OF assms(3,4)] scan_table_rows [OF assms(1,2)]
  by (auto simp: runVectorizedAggregate_def over_rows_def)

theorem vectorized_aggregate_rows_witness:
  "\<exists>t t'. runVectorizedAggregate t 1 [DInt] (Some [\<lparr>term_column = 0, term_op = Gt, term_literal = VInt 5\<rparr>])
     [\<lparr>agg_kind = CountStar, agg_column = - 1\<rparr>, \<lparr>agg_kind = SumOf, agg_column = 0\<rparr>] 1024 = Some (t', Inr [VInt 1, VInt 7])"
proof -
  define b where "b = serialize [VInt 7] [DInt]"
  have d: "deserialize b [DInt] = Inr [VInt 7]"
    using deserialize_serialize [of "[DInt]" "[VInt 7]"]
    by (simp add: b_def short_texts_def stored_row_def at_or_null_def upt_rec)
  have "b \<noteq> []" using d by (auto simp: deserialize_def)
  moreover have "length b < 4000"
    by (simp add: b_def serialize_def at_or_null_def upt_rec null_bitmap_spec)
  ultimately obtain t r where t: "tm_inv t" "table_rows t 1 = [(r, b)]"
    using one_record [of b 1] by (auto simp: storable_def)
  have "decode_rows [DInt] (table_rows t 1) = Some [([VInt 7], r)]" by (simp add: t d)
  from vectorized_aggregate_rows [OF t(1) this, of "Some [\<lparr>term_column = 0, term_op = Gt, term_literal = VInt 5\<rparr>]"
      "[\<lparr>agg_kind = CountStar, agg_column = - 1\<rparr>, \<lparr>agg_kind = SumOf, agg_column = 0\<rparr>]" 1024]
  show ?thesis
    by (auto simp: pred_ok_def agg_ok_def row_passes_def value_passes_def at_or_null_def compareValues_def
        row_aggregate_def accumulate_all_def gAccumulate_def gFinalize_def acc_new_def add_number_def)
qed

text \<open>C: The vectorized GROUP BY over batches of any size returns one row per distinct tuple of group
  values, in the order of their first rows, with the aggregates of the rows of the group - when
  the group columns hold no doubles and no text with the separator of the keys.\<close>

theorem vectorized_groups:
  assumes "pred_ok n pred" "\<forall>c\<in>set groupCols. 0 \<le> c \<and> nat c < n" "\<forall>agg\<in>set aggs. agg_column agg < int n"
    and "\<forall>r\<in>set rows. \<forall>v\<in>set (key_vals groupCols r). plain_value v"
  shows "vec_group_rows n pred groupCols aggs batchSize rows =
    map (\<lambda>(vals, rs). vals @ map (\<lambda>agg. gFinalize (agg_kind agg) (group_aggregate agg rs)) aggs)
      (group_by (key_vals groupCols) (filter (row_passes pred) rows))"
proof -
  let ?rs = "filter (row_passes pred) rows"
  let ?out = "\<lambda>rs. key_vals groupCols (hd rs) @ map (\<lambda>agg. gFinalize (agg_kind agg) (group_aggregate agg rs)) aggs"
  have "\<forall>r\<in>set ?rs. plain_row (length groupCols) (key_vals groupCols r)"
    using assms(4) by (auto simp: plain_row_def key_vals_def)
  then have "map snd (group_by (\<lambda>r. row_key (key_vals groupCols r)) ?rs) = map snd (group_by (key_vals groupCols) ?rs)"
    by (rule row_keys.group_values)
  then have "map ?out (map snd (group_by (\<lambda>r. row_key (key_vals groupCols r)) ?rs)) = map ?out (map snd (group_by (key_vals groupCols) ?rs))"
    by metis
  then have "vec_group_rows n pred groupCols aggs batchSize rows = map ?out (map snd (group_by (key_vals groupCols) ?rs))"
    using vec_group_rows_eq [OF assms(1-3)] by (simp add: comp_def case_prod_unfold)
  also have "\<dots> = map (\<lambda>(vals, rs). vals @ map (\<lambda>agg. gFinalize (agg_kind agg) (group_aggregate agg rs)) aggs)
      (group_by (key_vals groupCols) ?rs)"
  proof -
    have "key_vals groupCols (hd rs) = vals" if "(vals, rs) \<in> set (group_by (key_vals groupCols) ?rs)" for vals rs
    proof -
      have "vals \<in> key_vals groupCols ` set ?rs" "rs = filter (\<lambda>r. key_vals groupCols r = vals) ?rs"
        using that by (auto simp: group_by_def)
      then have "rs \<noteq> []" "\<forall>r\<in>set rs. key_vals groupCols r = vals" by (auto simp: filter_empty_conv)
      then show ?thesis by simp
    qed
    then show ?thesis by (auto simp: case_prod_unfold)
  qed
  finally show ?thesis .
qed

text \<open>C: The vectorized hash join of two tables is their nested-loop join on equality of the keys,
  in the order of the probe side, whatever the batch size - when the key columns hold no doubles.\<close>

theorem vectorized_join_nested_loop:
  assumes "\<forall>r\<in>set probeRows. length r = n" "0 \<le> probeKey" "nat probeKey < n"
    "0 \<le> buildKey" "\<forall>r\<in>set buildRows. nat buildKey < length r"
    and "\<forall>r\<in>set probeRows. hashable (r ! nat probeKey)" "\<forall>r\<in>set buildRows. hashable (r ! nat buildKey)"
  shows "vec_join_rows n buildKey probeKey batchSize buildRows probeRows =
    nested_loop (nat probeKey) (nat buildKey) probeRows buildRows"
  using vec_join_rows_eq [OF assms(1-5)] hash_join_nested_loop [OF assms(6,7)] by simp

theorem vectorized_groups_witness:
  "vec_group_rows 2 None [0] [\<lparr>agg_kind = SumOf, agg_column = 1\<rparr>] 2
     [[VText ''a'', VInt 1], [VNull, VInt 2], [VText ''a'', VInt 3]] = [[VText ''a'', VInt 4], [VNull, VInt 2]]"
proof -
  have "\<forall>r\<in>set [[VText ''a'', VInt 1], [VNull, VInt 2], [VText ''a'', VInt 3]]. \<forall>v\<in>set (key_vals [0] r). plain_value v"
    by (simp add: key_vals_def at_or_null_def plain_value_def key_end_def)
  from vectorized_groups [of 2 None "[0]" "[\<lparr>agg_kind = SumOf, agg_column = 1\<rparr>]", OF _ _ _ this, of 2] show ?thesis
    by (simp add: pred_ok_def group_by_def key_vals_def at_or_null_def row_passes_def group_aggregate_def agg_value_def
        gAccumulate_def gFinalize_def acc_new_def add_number_def)
qed

theorem vectorized_join_nested_loop_witness:
  "vec_join_rows 1 0 0 2 [[VInt 2, VText ''x''], [VNull, VText ''y'']] [[VInt 1], [VInt 2], [VNull]] =
     [[VInt 2, VInt 2, VText ''x'']]"
proof -
  have "vec_join_rows 1 0 0 2 [[VInt 2, VText ''x''], [VNull, VText ''y'']] [[VInt 1], [VInt 2], [VNull]] =
    nested_loop (nat 0) (nat 0) [[VInt 1], [VInt 2], [VNull]] [[VInt 2, VText ''x''], [VNull, VText ''y'']]"
    by (rule vectorized_join_nested_loop) simp_all
  then show ?thesis by (simp add: nested_loop_def joins_def compareValues_def)
qed

end
