(* ===== verification/ColumnStore.thy ===== *)
theory ColumnStore
  imports Vectorized
begin

text \<open>
  The columnar copy of a table, \<open>src/src/vm/column_store.cpp\<close>: typed arrays with a null flag, a
  minimum and a maximum per block of 1024 rows (the zone map), the aggregate that skips the
  blocks whose zone excludes the predicate, and its parallel version, whose workers take every
  \<open>n\<close>-th block and fold it in accumulators of their own. A worker writes only its own
  accumulators, so the workers run one after the other here. The arrays of a row hold the
  members of its \<open>Value\<close>, so \<open>v_int\<close>, \<open>v_dbl\<close>, \<open>v_bool\<close> and \<open>v_text\<close> read what was stored.
\<close>

section \<open>Columns\<close>

record column_zone =
  z_hasNonNull :: bool
  z_min :: val
  z_max :: val

record column =
  c_type :: data_type
  c_ints :: "i64 list"
  c_doubles :: "dbl list"
  c_bools :: "nat list"
  c_texts :: "bytes list"
  c_isNull :: "bool list"
  c_zones :: "column_zone list"

record table_columns =
  tc_columns :: "column list"
  tc_rows :: nat

definition kBlockRows :: nat where
  "kBlockRows = 1024"

definition columnValue :: "column \<Rightarrow> nat \<Rightarrow> val" where
  "columnValue col r =
     (if c_isNull col ! r then VNull
      else case c_type col of
        DInt \<Rightarrow> VInt (c_ints col ! r)
      | DFloat \<Rightarrow> VDouble (c_doubles col ! r)
      | DBool \<Rightarrow> VBool (c_bools col ! r \<noteq> 0)
      | _ \<Rightarrow> VText (c_texts col ! r))"

section \<open>Zone maps\<close>

definition zone_new :: column_zone where
  "zone_new = \<lparr>z_hasNonNull = False, z_min = VNull, z_max = VNull\<rparr>"

definition zone_step :: "column \<Rightarrow> column_zone \<Rightarrow> nat \<Rightarrow> column_zone" where
  "zone_step col z r =
     (if c_isNull col ! r then z
      else let v = columnValue col r in
        if \<not> z_hasNonNull z then \<lparr>z_hasNonNull = True, z_min = v, z_max = v\<rparr>
        else let lo = compareValues v (z_min z); hi = compareValues v (z_max z);
                 z = (case lo of Some c \<Rightarrow> if c < 0 then z\<lparr>z_min := v\<rparr> else z | None \<Rightarrow> z)
             in case hi of Some c \<Rightarrow> if c > 0 then z\<lparr>z_max := v\<rparr> else z | None \<Rightarrow> z)"

definition block_count :: "nat \<Rightarrow> nat" where
  "block_count rows = (rows + kBlockRows - 1) div kBlockRows"

definition block_rows :: "nat \<Rightarrow> nat \<Rightarrow> nat list" where
  "block_rows rows b = [b * kBlockRows..<min (b * kBlockRows + kBlockRows) rows]"

definition buildZones :: "column \<Rightarrow> nat \<Rightarrow> column" where
  "buildZones col rows =
     col\<lparr>c_zones := map (\<lambda>b. foldl (zone_step col) zone_new (block_rows rows b)) [0..<block_count rows]\<rparr>"

definition blockExcludesTerm :: "vec_term \<Rightarrow> column_zone \<Rightarrow> bool" where
  "blockExcludesTerm t z =
     (if \<not> z_hasNonNull z then True
      else case (compareValues (term_literal t) (z_min z), compareValues (term_literal t) (z_max z)) of
        (Some lMin, Some lMax) \<Rightarrow>
          (case term_op t of
             Eq \<Rightarrow> lMin < 0 \<or> lMax > 0
           | Lt \<Rightarrow> lMin \<le> 0
           | Leq \<Rightarrow> lMin < 0
           | Gt \<Rightarrow> lMax \<ge> 0
           | Geq \<Rightarrow> lMax > 0
           | Neq \<Rightarrow> compareValues (z_min z) (z_max z) = Some 0 \<and> lMin = 0)
      | _ \<Rightarrow> False)"

definition column_at :: "table_columns \<Rightarrow> int \<Rightarrow> column option" where
  "column_at tc c = (if c \<ge> 0 \<and> c < int (length (tc_columns tc)) then Some (tc_columns tc ! nat c) else None)"

definition blockSkippable :: "vec_predicate \<Rightarrow> table_columns \<Rightarrow> nat \<Rightarrow> bool" where
  "blockSkippable pred tc b \<longleftrightarrow>
     (\<exists>t\<in>set pred. case column_at tc (term_column t) of
        None \<Rightarrow> False
      | Some col \<Rightarrow> b < length (c_zones col) \<and> blockExcludesTerm t (c_zones col ! b))"

section \<open>The cache\<close>

type_synonym column_store = "int \<Rightarrow> table_columns option"

definition cs_invalidate :: "column_store \<Rightarrow> int \<Rightarrow> column_store" where
  "cs_invalidate cs tid = cs(tid := None)"

definition cs_clear :: "column_store \<Rightarrow> column_store" where
  "cs_clear cs = Map.empty"

definition column_push :: "val \<Rightarrow> column \<Rightarrow> column" where
  "column_push v col =
     (if isNull v
      then col\<lparr>c_isNull := c_isNull col @ [True], c_ints := c_ints col @ [0], c_doubles := c_doubles col @ [f_zero False],
               c_bools := c_bools col @ [0], c_texts := c_texts col @ [[]]\<rparr>
      else col\<lparr>c_isNull := c_isNull col @ [False], c_ints := c_ints col @ [v_int v],
               c_doubles := c_doubles col @ [v_dbl v], c_bools := c_bools col @ [if v_bool v then 1 else 0],
               c_texts := c_texts col @ [v_text v]\<rparr>)"

definition column_new :: "data_type \<Rightarrow> column" where
  "column_new dt = \<lparr>c_type = dt, c_ints = [], c_doubles = [], c_bools = [], c_texts = [], c_isNull = [], c_zones = []\<rparr>"

definition columns_push :: "schema \<Rightarrow> table_columns \<Rightarrow> row \<Rightarrow> table_columns" where
  "columns_push sch tc r =
     \<lparr>tc_columns = map (\<lambda>c. column_push (at_or_null r c) (tc_columns tc ! c)) [0..<length sch], tc_rows = tc_rows tc + 1\<rparr>"

definition build_columns :: "schema \<Rightarrow> row list \<Rightarrow> table_columns" where
  "build_columns sch rows =
     (let tc = foldl (columns_push sch) \<lparr>tc_columns = map column_new sch, tc_rows = 0\<rparr> rows
      in tc\<lparr>tc_columns := map (\<lambda>col. buildZones col (tc_rows tc)) (tc_columns tc)\<rparr>)"

definition getOrBuild ::
  "column_store \<Rightarrow> tables \<Rightarrow> int \<Rightarrow> schema \<Rightarrow> (tables \<times> (string + column_store \<times> table_columns)) option" where
  "getOrBuild cs t tid sch =
     (case cs tid of
        Some tc \<Rightarrow> Some (t, Inr (cs, tc))
      | None \<Rightarrow>
          map_option (\<lambda>(t, out). (t, case out of
              Inl e \<Rightarrow> Inl e
            | Inr rows \<Rightarrow> let tc = build_columns sch rows in Inr (cs(tid \<mapsto> tc), tc))) (scan_table t tid sch))"

section \<open>Aggregates over columns\<close>

definition termPasses :: "vec_term \<Rightarrow> column \<Rightarrow> nat \<Rightarrow> bool" where
  "termPasses t col r = (if c_isNull col ! r then False else value_passes t (columnValue col r))"

definition row_ok :: "vec_predicate option \<Rightarrow> table_columns \<Rightarrow> nat \<Rightarrow> bool" where
  "row_ok pred tc r =
     (case pred of
        None \<Rightarrow> True
      | Some p \<Rightarrow> \<forall>t\<in>set p. case column_at tc (term_column t) of None \<Rightarrow> False | Some col \<Rightarrow> termPasses t col r)"

definition accumulateRow :: "acc \<Rightarrow> vec_aggregate \<Rightarrow> table_columns \<Rightarrow> nat \<Rightarrow> acc" where
  "accumulateRow a agg tc r =
     (if agg_kind agg = CountStar then a\<lparr>acc_count := acc_count a + 1\<rparr>
      else case column_at tc (agg_column agg) of
        None \<Rightarrow> a
      | Some col \<Rightarrow>
          if c_isNull col ! r then a
          else case agg_kind agg of
            CountOf \<Rightarrow> a\<lparr>acc_count := acc_count a + 1\<rparr>
          | MinOf \<Rightarrow> better MinOf (columnValue col r) a
          | MaxOf \<Rightarrow> better MaxOf (columnValue col r) a
          | _ \<Rightarrow>
              if c_type col = DFloat
              then a\<lparr>acc_isFloat := True, acc_dsum := f_add (acc_dsum a) (c_doubles col ! r), acc_count := acc_count a + 1\<rparr>
              else a\<lparr>acc_isum := acc_isum a + c_ints col ! r, acc_count := acc_count a + 1\<rparr>)"

definition skips :: "vec_predicate option \<Rightarrow> table_columns \<Rightarrow> bool list" where
  "skips pred tc =
     map (\<lambda>b. case pred of None \<Rightarrow> False | Some p \<Rightarrow> blockSkippable p tc b) [0..<block_count (tc_rows tc)]"

text \<open>\<open>SkipStats\<close>: the number of blocks and of those skipped.\<close>

definition skip_stats :: "vec_predicate option \<Rightarrow> table_columns \<Rightarrow> nat \<times> nat" where
  "skip_stats pred tc = (block_count (tc_rows tc), length (filter id (skips pred tc)))"

text \<open>The rows the loops visit, of the blocks given.\<close>

definition visited :: "vec_predicate option \<Rightarrow> table_columns \<Rightarrow> nat list \<Rightarrow> nat list" where
  "visited pred tc blocks =
     concat (map (\<lambda>b. if skips pred tc ! b then [] else filter (row_ok pred tc) (block_rows (tc_rows tc) b)) blocks)"

definition fold_rows :: "vec_aggregate \<Rightarrow> table_columns \<Rightarrow> nat list \<Rightarrow> acc" where
  "fold_rows agg tc rows = foldl (\<lambda>a r. accumulateRow a agg tc r) acc_new rows"

definition finalizePartial :: "vec_aggregate \<Rightarrow> acc \<Rightarrow> val" where
  "finalizePartial agg a = gFinalize (agg_kind agg) a"

definition columnarAggregate :: "table_columns \<Rightarrow> vec_aggregate list \<Rightarrow> vec_predicate option \<Rightarrow> val list" where
  "columnarAggregate tc aggs pred =
     map (\<lambda>agg. finalizePartial agg (fold_rows agg tc (visited pred tc [0..<block_count (tc_rows tc)]))) aggs"

definition mergePartial :: "acc \<Rightarrow> acc \<Rightarrow> agg_kind \<Rightarrow> acc" where
  "mergePartial a b kind =
     (let a = a\<lparr>acc_count := acc_count a + acc_count b, acc_isum := acc_isum a + acc_isum b,
                acc_dsum := f_add (acc_dsum a) (acc_dsum b), acc_isFloat := acc_isFloat a \<or> acc_isFloat b\<rparr>
      in if (kind = MinOf \<or> kind = MaxOf) \<and> acc_hasBest b then better kind (acc_best b) a else a)"

text \<open>Worker \<open>t\<close> of \<open>n\<close>: the blocks \<open>t\<close>, \<open>t + n\<close>, \<open>t + 2 n\<close>, ...\<close>

definition stripe :: "nat \<Rightarrow> nat \<Rightarrow> nat \<Rightarrow> nat list" where
  "stripe n nblocks t = filter (\<lambda>b. b mod n = t) [0..<nblocks]"

definition parallelColumnarAggregate ::
  "table_columns \<Rightarrow> vec_aggregate list \<Rightarrow> vec_predicate option \<Rightarrow> nat \<Rightarrow> val list" where
  "parallelColumnarAggregate tc aggs pred numThreads =
     (let nblocks = block_count (tc_rows tc); n = (if numThreads = 0 then 1 else numThreads)
      in if nblocks = 0 then map (\<lambda>agg. finalizePartial agg acc_new) aggs
         else let n = min n (nblocks mod 2 ^ 32) in
           map (\<lambda>agg.
             let partials = map (\<lambda>t. fold_rows agg tc (visited pred tc (stripe n nblocks t))) [0..<n]
             in finalizePartial agg (foldl (\<lambda>a b. mergePartial a b (agg_kind agg)) (hd partials) (tl partials))) aggs)"

section \<open>The copy holds the rows\<close>

lemma foldl_columns_push:
  "length (tc_columns tc) = length sch \<Longrightarrow>
   foldl (columns_push sch) tc rows =
     \<lparr>tc_columns = map (\<lambda>c. foldl (\<lambda>col r. column_push (at_or_null r c) col) (tc_columns tc ! c) rows) [0..<length sch],
      tc_rows = tc_rows tc + length rows\<rparr>"
proof (induction rows arbitrary: tc)
  case Nil
  then show ?case using map_nth [of "tc_columns tc"] by (cases tc) simp
next
  case (Cons r rows)
  let ?tc = "columns_push sch tc r"
  have nth: "tc_columns ?tc ! c = column_push (at_or_null r c) (tc_columns tc ! c)" if "c < length sch" for c
    using that by (simp add: columns_push_def)
  have "foldl (columns_push sch) ?tc rows =
     \<lparr>tc_columns = map (\<lambda>c. foldl (\<lambda>col r. column_push (at_or_null r c) col) (tc_columns ?tc ! c) rows) [0..<length sch],
      tc_rows = tc_rows ?tc + length rows\<rparr>"
    by (rule Cons.IH) (simp add: columns_push_def)
  moreover have "tc_rows ?tc = tc_rows tc + 1" by (simp add: columns_push_def)
  ultimately show ?case using nth by (simp cong: map_cong)
qed

definition column_of :: "data_type \<Rightarrow> val list \<Rightarrow> column" where
  "column_of dt vs =
     \<lparr>c_type = dt, c_ints = map v_int vs, c_doubles = map v_dbl vs, c_bools = map (\<lambda>v. if v_bool v then 1 else 0) vs,
      c_texts = map v_text vs, c_isNull = map isNull vs, c_zones = []\<rparr>"

lemma column_push_of: "column_push v (column_of dt vs) = column_of dt (vs @ [v])"
  by (auto simp: column_push_def column_of_def)

lemma foldl_column_push:
  "foldl (\<lambda>col r. column_push (at_or_null r c) col) (column_of dt vs) rows = column_of dt (vs @ map (\<lambda>r. at_or_null r c) rows)"
  by (induction rows arbitrary: vs) (simp_all add: column_push_of)

definition column_vals :: "row list \<Rightarrow> nat \<Rightarrow> val list" where
  "column_vals rows c = map (\<lambda>r. at_or_null r c) rows"

lemma build_columns_eq:
  "build_columns sch rows =
     \<lparr>tc_columns = map (\<lambda>c. buildZones (column_of (sch ! c) (column_vals rows c)) (length rows)) [0..<length sch],
      tc_rows = length rows\<rparr>"
proof -
  have "column_new dt = column_of dt []" for dt by (simp add: column_new_def column_of_def)
  then show ?thesis
    unfolding build_columns_def
    by (simp add: foldl_columns_push foldl_column_push column_vals_def Let_def comp_def)
qed

text \<open>Values of the declared types, as \<open>deserialize\<close> returns them.\<close>

fun has_type :: "data_type \<Rightarrow> val \<Rightarrow> bool" where
  "has_type dt VNull = True"
| "has_type dt (VInt i) = (dt = DInt)"
| "has_type dt (VDouble d) = (dt = DFloat)"
| "has_type dt (VBool b) = (dt = DBool)"
| "has_type dt (VText s) = (dt \<notin> {DInt, DFloat, DBool})"

definition typed_rows :: "schema \<Rightarrow> row list \<Rightarrow> bool" where
  "typed_rows sch rows \<longleftrightarrow> (\<forall>r\<in>set rows. \<forall>c < length sch. has_type (sch ! c) (at_or_null r c))"

lemma columnValue_of:
  assumes "r < length vs" "has_type dt (vs ! r)"
  shows "columnValue (column_of dt vs) r = vs ! r" "c_isNull (column_of dt vs) ! r \<longleftrightarrow> isNull (vs ! r)"
    "c_ints (column_of dt vs) ! r = v_int (vs ! r)" "c_doubles (column_of dt vs) ! r = v_dbl (vs ! r)"
    "c_type (column_of dt vs) = dt"
  using assms by (cases "vs ! r"; cases dt; simp add: columnValue_def column_of_def)+

lemma columnValue_zones [simp]: "columnValue (buildZones col n) r = columnValue col r"
  by (cases "c_type col") (simp_all add: columnValue_def buildZones_def)

lemma zone_fields [simp]:
  "c_isNull (buildZones col n) = c_isNull col" "c_ints (buildZones col n) = c_ints col"
  "c_doubles (buildZones col n) = c_doubles col" "c_type (buildZones col n) = c_type col"
  by (simp_all add: buildZones_def)

section \<open>What a zone bounds\<close>

definition rank_le :: "val \<Rightarrow> val \<Rightarrow> bool" where
  "rank_le v w \<longleftrightarrow> \<not> rank_less (val_rank w) (val_rank v)"

lemma rank_le_trans: "rank_le a b \<Longrightarrow> rank_le b c \<Longrightarrow> rank_le a c"
  unfolding rank_le_def using rank_less_linear rank_less_trans by metis

lemma rank_le_refl [simp]: "rank_le a a"
  by (simp add: rank_le_def)

text \<open>The bounds of the values a zone has seen.\<close>

definition zone_bounds :: "val_class \<Rightarrow> column_zone \<Rightarrow> val list \<Rightarrow> bool" where
  "zone_bounds k z vs \<longleftrightarrow> (z_hasNonNull z \<longleftrightarrow> vs \<noteq> []) \<and>
     (vs \<noteq> [] \<longrightarrow> z_min z \<in> set vs \<and> z_max z \<in> set vs \<and> (\<forall>v\<in>set vs. rank_le (z_min z) v \<and> rank_le v (z_max z)))"

definition solid :: "val_class \<Rightarrow> val \<Rightarrow> bool" where
  "solid k v \<longleftrightarrow> in_class k v \<and> \<not> isNull v"

lemma compare_solid:
  assumes "solid k a" "solid k b"
  obtains c where "compareValues a b = Some c" "c < 0 \<longleftrightarrow> rank_less (val_rank a) (val_rank b)"
    "c = 0 \<longleftrightarrow> val_rank a = val_rank b" "c > 0 \<longleftrightarrow> rank_less (val_rank b) (val_rank a)"
proof -
  have "compareValues a b \<noteq> None" using assms by (cases a; cases b) (auto simp: solid_def compareValues_None_iff)
  then obtain c where c: "compareValues a b = Some c" by blast
  show thesis using that [OF c] compareValues_rank [OF _ _ c, of k] assms by (simp add: solid_def)
qed

lemma zone_step_bounds:
  assumes "zone_bounds k z vs" "\<forall>v\<in>set vs. solid k v" "solid k (columnValue col r)"
  shows "zone_bounds k (zone_step col z r) (vs @ [columnValue col r])"
proof -
  define v where "v = columnValue col r"
  have nn: "\<not> c_isNull col ! r" using assms(3) by (auto simp: solid_def columnValue_def)
  show ?thesis
  proof (cases "vs = []")
    case True
    then show ?thesis using assms(1) nn by (simp add: zone_step_def zone_bounds_def Let_def)
  next
    case False
    have z: "z_hasNonNull z" "z_min z \<in> set vs" "z_max z \<in> set vs" "\<forall>w\<in>set vs. rank_le (z_min z) w \<and> rank_le w (z_max z)"
      using assms(1) False by (auto simp: zone_bounds_def)
    obtain c where c: "compareValues v (z_min z) = Some c" "c < 0 \<longleftrightarrow> rank_less (val_rank v) (val_rank (z_min z))"
      using compare_solid [of k v "z_min z"] assms(2,3) z(2) unfolding v_def by metis
    obtain d where d: "compareValues v (z_max z) = Some d" "d > 0 \<longleftrightarrow> rank_less (val_rank (z_max z)) (val_rank v)"
      using compare_solid [of k v "z_max z"] assms(2,3) z(3) unfolding v_def by metis
    have s: "zone_step col z r = \<lparr>z_hasNonNull = True, z_min = (if c < 0 then v else z_min z), z_max = (if d > 0 then v else z_max z)\<rparr>"
      using nn z(1) c(1) d(1) by (cases z) (simp add: zone_step_def v_def Let_def)
    have lo: "rank_le (if c < 0 then v else z_min z) w" if "w \<in> set (vs @ [v])" for w
    proof -
      have a: "rank_le (if c < 0 then v else z_min z) v" "rank_le (if c < 0 then v else z_min z) (z_min z)"
        using c(2) rank_less_asym [of "val_rank v" "val_rank (z_min z)"] by (simp_all add: rank_le_def)
      show ?thesis
      proof (cases "w = v")
        case True
        then show ?thesis using a(1) by simp
      next
        case False
        then show ?thesis using that z(4) by (intro rank_le_trans [OF a(2)]) simp
      qed
    qed
    have hi: "rank_le w (if d > 0 then v else z_max z)" if "w \<in> set (vs @ [v])" for w
    proof -
      have a: "rank_le v (if d > 0 then v else z_max z)" "rank_le (z_max z) (if d > 0 then v else z_max z)"
        using d(2) rank_less_asym [of "val_rank (z_max z)" "val_rank v"] by (simp_all add: rank_le_def)
      show ?thesis
      proof (cases "w = v")
        case True
        then show ?thesis using a(1) by simp
      next
        case False
        then show ?thesis using that z(4) by (intro rank_le_trans [OF _ a(2)]) simp
      qed
    qed
    show ?thesis using lo hi z(2,3) unfolding s v_def [symmetric] by (simp add: zone_bounds_def)
  qed
qed

lemma zone_fold_bounds:
  assumes "\<forall>r\<in>set rs. in_class k (columnValue col r)" "zone_bounds k z vs" "\<forall>v\<in>set vs. solid k v"
  shows "zone_bounds k (foldl (zone_step col) z rs) (vs @ filter (\<lambda>v. \<not> isNull v) (map (columnValue col) rs))"
  using assms
proof (induction rs arbitrary: z vs)
  case (Cons r rs)
  show ?case
  proof (cases "c_isNull col ! r")
    case True
    then have "columnValue col r = VNull" "zone_step col z r = z" by (simp_all add: columnValue_def zone_step_def)
    then show ?thesis using Cons by simp
  next
    case False
    then have s: "solid k (columnValue col r)" using Cons.prems(1) by (cases "c_type col") (auto simp: solid_def columnValue_def)
    then show ?thesis
      using Cons.IH [of "zone_step col z r" "vs @ [columnValue col r]"] zone_step_bounds [OF Cons.prems(2,3) s] Cons.prems
      by (auto simp: solid_def)
  qed
qed simp

lemma excluded_term:
  assumes z: "zone_bounds k z vs" "\<forall>v\<in>set vs. solid k v" and l: "in_class k (term_literal t)"
    and ex: "blockExcludesTerm t z" and v: "v \<in> set vs"
  shows "\<not> value_passes t v"
proof (cases "isNull (term_literal t)")
  case True
  then show ?thesis by (simp add: value_passes_def compareValues_def)
next
  case False
  let ?l = "term_literal t"
  have ls: "solid k ?l" using l False by (simp add: solid_def)
  have ne: "vs \<noteq> []" using v by auto
  have b: "z_hasNonNull z" "z_min z \<in> set vs" "z_max z \<in> set vs" "rank_le (z_min z) v" "rank_le v (z_max z)"
    "\<forall>w\<in>set vs. rank_le (z_min z) w \<and> rank_le w (z_max z)"
    using z(1) ne v by (auto simp: zone_bounds_def)
  obtain lMin where lMin: "compareValues ?l (z_min z) = Some lMin" "lMin < 0 \<longleftrightarrow> rank_less (val_rank ?l) (val_rank (z_min z))"
    "lMin = 0 \<longleftrightarrow> val_rank ?l = val_rank (z_min z)" "lMin > 0 \<longleftrightarrow> rank_less (val_rank (z_min z)) (val_rank ?l)"
    using compare_solid [of k ?l "z_min z"] ls z(2) b(2) by metis
  obtain lMax where lMax: "compareValues ?l (z_max z) = Some lMax" "lMax < 0 \<longleftrightarrow> rank_less (val_rank ?l) (val_rank (z_max z))"
    "lMax = 0 \<longleftrightarrow> val_rank ?l = val_rank (z_max z)" "lMax > 0 \<longleftrightarrow> rank_less (val_rank (z_max z)) (val_rank ?l)"
    using compare_solid [of k ?l "z_max z"] ls z(2) b(3) by metis
  obtain span where span: "compareValues (z_min z) (z_max z) = Some span" "span = 0 \<longleftrightarrow> val_rank (z_min z) = val_rank (z_max z)"
    using compare_solid [of k "z_min z" "z_max z"] z(2) b(2,3) by metis
  obtain c where c: "compareValues v ?l = Some c" "c < 0 \<longleftrightarrow> rank_less (val_rank v) (val_rank ?l)"
    "c = 0 \<longleftrightarrow> val_rank v = val_rank ?l" "c > 0 \<longleftrightarrow> rank_less (val_rank ?l) (val_rank v)"
    using compare_solid [of k v ?l] z(2) v ls by metis
  note lin = rank_less_linear [of "val_rank ?l" "val_rank v"] rank_less_linear [of "val_rank v" "val_rank (z_min z)"]
    rank_less_linear [of "val_rank v" "val_rank (z_max z)"] rank_less_linear [of "val_rank ?l" "val_rank (z_min z)"]
    rank_less_linear [of "val_rank ?l" "val_rank (z_max z)"]
  note tr = rank_less_trans [of "val_rank ?l" "val_rank (z_min z)" "val_rank v"] rank_less_trans [of "val_rank v" "val_rank (z_max z)" "val_rank ?l"]
    rank_less_trans [of "val_rank v" "val_rank ?l" "val_rank (z_min z)"] rank_less_trans [of "val_rank (z_max z)" "val_rank ?l" "val_rank v"]
  have vmin: "rank_less (val_rank (z_min z)) (val_rank v) \<or> val_rank (z_min z) = val_rank v"
    and vmax: "rank_less (val_rank v) (val_rank (z_max z)) \<or> val_rank v = val_rank (z_max z)"
    using b(4,5) lin unfolding rank_le_def by metis+
  note ranks = lMin(2,3,4) lMax(2,3,4) c(2,3,4)
  have op: "case term_op t of Eq \<Rightarrow> lMin < 0 \<or> lMax > 0 | Lt \<Rightarrow> lMin \<le> 0 | Leq \<Rightarrow> lMin < 0 | Gt \<Rightarrow> lMax \<ge> 0 | Geq \<Rightarrow> lMax > 0
      | Neq \<Rightarrow> span = 0 \<and> lMin = 0"
    using ex b(1) lMin(1) lMax(1) span(1) by (simp add: blockExcludesTerm_def split: comparison_op.splits)
  have b1: "lMin < 0 \<Longrightarrow> c > 0" using lMin(2) c(4) vmin tr(1) by metis
  have a1: "lMax > 0 \<Longrightarrow> c < 0" using lMax(4) c(2) vmax tr(2) by metis
  have b2: "lMin = 0 \<Longrightarrow> c = 0 \<or> c > 0" using lMin(3) c(3,4) vmin by metis
  have a2: "lMax = 0 \<Longrightarrow> c = 0 \<or> c < 0" using lMax(3) c(2,3) vmax by metis
  have below: "lMin \<le> 0 \<Longrightarrow> c \<ge> 0" and above: "lMax \<ge> 0 \<Longrightarrow> c \<le> 0"
    using b1 a1 b2 a2 by linarith+
  have same: "span = 0 \<Longrightarrow> lMin = 0 \<Longrightarrow> c = 0"
    using ranks vmin vmax span(2) rank_less_asym by metis
  show ?thesis using op b1 a1 below above same by (cases "term_op t") (auto simp: value_passes_def c(1))
qed

section \<open>Skipping does not show\<close>

lemma block_cover: "concat (map (block_rows rows) [0..<block_count rows]) = [0..<rows]"
proof -
  have step: "concat (map (block_rows rows) [0..<n]) = [0..<min (n * kBlockRows) rows]" for n
  proof (induction n)
    case (Suc n)
    have "[0..<min (n * kBlockRows) rows] @ [n * kBlockRows..<min (n * kBlockRows + kBlockRows) rows] =
      [0..<min (n * kBlockRows + kBlockRows) rows]"
    proof (cases "n * kBlockRows \<le> rows")
      case True
      then have "min (n * kBlockRows) rows = n * kBlockRows" by simp
      moreover have "n * kBlockRows \<le> min (n * kBlockRows + kBlockRows) rows" using True by simp
      ultimately show ?thesis using upt_add_eq_append [of 0 "n * kBlockRows" "min (n * kBlockRows + kBlockRows) rows - n * kBlockRows"] by simp
    qed simp
    then show ?case using Suc by (simp add: block_rows_def add.commute)
  qed simp
  have "rows \<le> block_count rows * kBlockRows"
    unfolding block_count_def kBlockRows_def by (simp add: less_eq_div_iff_mult_less_eq)
  then show ?thesis unfolding step by simp
qed

text \<open>The predicate compares each column with a literal of the column's class.\<close>

definition pred_classed :: "row list \<Rightarrow> vec_predicate option \<Rightarrow> bool" where
  "pred_classed rows pred \<longleftrightarrow> (\<forall>p. pred = Some p \<longrightarrow> (\<forall>t\<in>set p. \<exists>k. in_class k (term_literal t) \<and>
     (\<forall>r\<in>set rows. in_class k (at_or_null r (nat (term_column t))))))"

lemma column_at_build:
  "column_at (build_columns sch rows) c =
     (if 0 \<le> c \<and> c < int (length sch)
      then Some (buildZones (column_of (sch ! nat c) (column_vals rows (nat c))) (length rows)) else None)"
  by (auto simp: column_at_def build_columns_eq nat_less_iff)

lemma built_value:
  assumes "typed_rows sch rows" "c < length sch" "r < length rows"
  shows "columnValue (column_of (sch ! c) (column_vals rows c)) r = at_or_null (rows ! r) c"
    "c_isNull (column_of (sch ! c) (column_vals rows c)) ! r \<longleftrightarrow> isNull (at_or_null (rows ! r) c)"
    "c_ints (column_of (sch ! c) (column_vals rows c)) ! r = v_int (at_or_null (rows ! r) c)"
    "c_doubles (column_of (sch ! c) (column_vals rows c)) ! r = v_dbl (at_or_null (rows ! r) c)"
  using columnValue_of [of r "column_vals rows c" "sch ! c"] assms
  by (simp_all add: column_vals_def typed_rows_def)

lemma skipped_block:
  assumes typed: "typed_rows sch rows" and cls: "pred_classed rows (Some p)"
    and b: "b < block_count (length rows)" and skip: "blockSkippable p (build_columns sch rows) b"
    and r: "r \<in> set (block_rows (length rows) b)"
  shows "\<not> row_ok (Some p) (build_columns sch rows) r"
proof -
  obtain t where t: "t \<in> set p" and c: "0 \<le> term_column t" "term_column t < int (length sch)"
    and ex: "b < length (c_zones (buildZones (column_of (sch ! nat (term_column t)) (column_vals rows (nat (term_column t)))) (length rows)))"
      "blockExcludesTerm t (c_zones (buildZones (column_of (sch ! nat (term_column t)) (column_vals rows (nat (term_column t)))) (length rows)) ! b)"
    using skip unfolding blockSkippable_def column_at_build by (auto split: if_splits)
  define cn where "cn = nat (term_column t)"
  define col where "col = column_of (sch ! cn) (column_vals rows cn)"
  have cn: "cn < length sch" using c by (simp add: cn_def nat_less_iff)
  define z where "z = foldl (zone_step col) zone_new (block_rows (length rows) b)"
  have z: "blockExcludesTerm t z" using ex b unfolding cn_def [symmetric] col_def [symmetric] z_def by (simp add: buildZones_def)
  obtain k where k: "in_class k (term_literal t)" "\<forall>q\<in>set rows. in_class k (at_or_null q cn)"
    using cls t unfolding pred_classed_def cn_def by blast
  have rng: "i < length rows" if "i \<in> set (block_rows (length rows) b)" for i using that by (simp add: block_rows_def)
  have vals: "columnValue col i = at_or_null (rows ! i) cn" "c_isNull col ! i \<longleftrightarrow> isNull (at_or_null (rows ! i) cn)" if "i < length rows" for i
    using built_value [OF typed cn that] by (simp_all add: col_def)
  have "\<forall>i\<in>set (block_rows (length rows) b). in_class k (columnValue col i)"
    using k(2) rng vals by simp
  then have bounds: "zone_bounds k z ([] @ filter (\<lambda>v. \<not> isNull v) (map (columnValue col) (block_rows (length rows) b)))"
    unfolding z_def by (rule zone_fold_bounds) (simp_all add: zone_bounds_def zone_new_def)
  have solid: "\<forall>v\<in>set ([] @ filter (\<lambda>v. \<not> isNull v) (map (columnValue col) (block_rows (length rows) b))). solid k v"
    using k(2) rng vals by (auto simp: solid_def)
  have "\<not> termPasses t (buildZones col (length rows)) r"
  proof (cases "isNull (columnValue col r)")
    case True
    then show ?thesis using vals rng r by (simp add: termPasses_def)
  next
    case False
    then have "columnValue col r \<in> set ([] @ filter (\<lambda>v. \<not> isNull v) (map (columnValue col) (block_rows (length rows) b)))"
      using r by simp
    then have "\<not> value_passes t (columnValue col r)" by (rule excluded_term [OF bounds solid k(1) z])
    then show ?thesis by (simp add: termPasses_def)
  qed
  then show ?thesis
    using t c unfolding row_ok_def column_at_build by (auto simp: cn_def col_def)
qed

lemma visited_all:
  assumes "typed_rows sch rows" "pred_classed rows pred"
  shows "visited pred (build_columns sch rows) [0..<block_count (length rows)] =
    filter (row_ok pred (build_columns sch rows)) [0..<length rows]"
proof -
  let ?tc = "build_columns sch rows"
  have n: "tc_rows ?tc = length rows" by (simp add: build_columns_eq)
  have "(if skips pred ?tc ! b then [] else filter (row_ok pred ?tc) (block_rows (length rows) b)) =
    filter (row_ok pred ?tc) (block_rows (length rows) b)" if b: "b \<in> set [0..<block_count (length rows)]" for b
  proof (cases "skips pred ?tc ! b")
    case True
    then obtain p where p: "pred = Some p" "blockSkippable p ?tc b"
      using b by (cases pred) (simp_all add: skips_def n)
    have "\<forall>r\<in>set (block_rows (length rows) b). \<not> row_ok pred ?tc r"
      unfolding p(1) using skipped_block [OF assms(1) _ _ p(2)] assms(2) p(1) b by simp
    then show ?thesis using True by (simp add: filter_empty_conv)
  qed simp
  then have "visited pred ?tc [0..<block_count (length rows)] =
    concat (map (\<lambda>b. filter (row_ok pred ?tc) (block_rows (length rows) b)) [0..<block_count (length rows)])"
    unfolding visited_def n by (intro arg_cong [where f = concat] map_cong [OF refl])
  also have "\<dots> = filter (row_ok pred ?tc) (concat (map (block_rows (length rows)) [0..<block_count (length rows)]))"
    by (simp add: filter_concat comp_def)
  finally show ?thesis unfolding block_cover .
qed

text \<open>A row of the copy passes exactly when the row does.\<close>

lemma row_ok_passes:
  assumes "typed_rows sch rows" "pred_ok (length sch) pred" "r < length rows"
  shows "row_ok pred (build_columns sch rows) r \<longleftrightarrow> row_passes pred (rows ! r)"
proof (cases pred)
  case (Some p)
  have "(case column_at (build_columns sch rows) (term_column t) of None \<Rightarrow> False | Some col \<Rightarrow> termPasses t col r) \<longleftrightarrow>
    value_passes t (at_or_null (rows ! r) (nat (term_column t)))" if "t \<in> set p" for t
  proof -
    have c: "0 \<le> term_column t" "nat (term_column t) < length sch" using assms(2) that Some by (auto simp: pred_ok_def)
    have "isNull v \<Longrightarrow> \<not> value_passes t v" for v by (simp add: value_passes_def compareValues_def)
    then show ?thesis
      using c built_value [OF assms(1) c(2) assms(3)] by (auto simp: column_at_build termPasses_def nat_less_iff)
  qed
  then show ?thesis using Some by (simp add: row_ok_def row_passes_def)
qed (simp add: row_ok_def row_passes_def)

lemma accumulateRow_value:
  assumes "typed_rows sch rows" "agg_ok (length sch) agg" "r < length rows"
  shows "accumulateRow a agg (build_columns sch rows) r =
    gAccumulate a (agg_kind agg) (at_or_null (rows ! r) (nat (agg_column agg)))"
proof (cases "agg_kind agg = CountStar")
  case True
  then show ?thesis by (simp add: accumulateRow_def gAccumulate_def)
next
  case False
  then have c: "0 \<le> agg_column agg" "nat (agg_column agg) < length sch" using assms(2) by (auto simp: agg_ok_def)
  define v where "v = at_or_null (rows ! r) (nat (agg_column agg))"
  have ty: "has_type (sch ! nat (agg_column agg)) v" using assms(1,3) c by (simp add: typed_rows_def v_def)
  have "column_at (build_columns sch rows) (agg_column agg) =
    Some (buildZones (column_of (sch ! nat (agg_column agg)) (column_vals rows (nat (agg_column agg)))) (length rows))"
    using c by (simp add: column_at_build nat_less_iff)
  then show ?thesis
    using False ty built_value [OF assms(1) c(2) assms(3)] unfolding v_def [symmetric]
    by (cases "agg_kind agg"; cases v) (auto simp: accumulateRow_def gAccumulate_def add_number_def column_of_def)
qed

lemma foldl_rows_cong:
  "(\<And>i a. i \<in> set is \<Longrightarrow> f a i = g a (xs ! i)) \<Longrightarrow> foldl f a is = foldl g a (map ((!) xs) is)"
  by (induction "is" arbitrary: a) auto

lemma map_filter_nth: "map ((!) xs) (filter (\<lambda>i. P (xs ! i)) [0..<length xs]) = filter P xs"
proof -
  have "map ((!) xs) (filter (P \<circ> (!) xs) [0..<length xs]) = filter P (map ((!) xs) [0..<length xs])"
    by (simp add: filter_map)
  then show ?thesis by (simp add: map_nth comp_def)
qed

lemma columnar_equals_rows:
  assumes "typed_rows sch rows" "pred_ok (length sch) pred" "\<forall>agg\<in>set aggs. agg_ok (length sch) agg" "pred_classed rows pred"
  shows "columnarAggregate (build_columns sch rows) aggs pred =
    map (\<lambda>agg. row_aggregate agg (filter (row_passes pred) rows)) aggs"
proof -
  let ?tc = "build_columns sch rows"
  have n: "tc_rows ?tc = length rows" by (simp add: build_columns_eq)
  have "filter (row_ok pred ?tc) [0..<length rows] = filter (\<lambda>i. row_passes pred (rows ! i)) [0..<length rows]"
    using row_ok_passes [OF assms(1,2)] by (intro filter_cong) auto
  then have vis: "visited pred ?tc [0..<block_count (length rows)] = filter (\<lambda>i. row_passes pred (rows ! i)) [0..<length rows]"
    using visited_all [OF assms(1,4)] by simp
  have "finalizePartial agg (fold_rows agg ?tc (visited pred ?tc [0..<block_count (length rows)])) =
    row_aggregate agg (filter (row_passes pred) rows)" if agg: "agg \<in> set aggs" for agg
  proof -
    have "fold_rows agg ?tc (filter (\<lambda>i. row_passes pred (rows ! i)) [0..<length rows]) =
      foldl (\<lambda>a r. gAccumulate a (agg_kind agg) (at_or_null r (nat (agg_column agg)))) acc_new
        (map ((!) rows) (filter (\<lambda>i. row_passes pred (rows ! i)) [0..<length rows]))"
      unfolding fold_rows_def using accumulateRow_value [OF assms(1)] assms(3) agg by (intro foldl_rows_cong) simp
    then show ?thesis
      by (simp add: vis map_filter_nth finalizePartial_def row_aggregate_def accumulate_all_def)
  qed
  then show ?thesis by (simp add: columnarAggregate_def n)
qed

section \<open>The parallel aggregate\<close>

text \<open>
  What an accumulator holds of the values it has seen, up to their order: integer sums, counts
  and the extreme value, which is unique where values of equal rank are equal.
\<close>

definition beats :: "agg_kind \<Rightarrow> val \<Rightarrow> val \<Rightarrow> bool" where
  "beats kind v w \<longleftrightarrow> (if kind = MinOf then rank_less (val_rank v) (val_rank w) else rank_less (val_rank w) (val_rank v))"

definition holds :: "agg_kind \<Rightarrow> nat \<Rightarrow> val list \<Rightarrow> acc \<Rightarrow> bool" where
  "holds kind n vs a \<longleftrightarrow>
     acc_count a = word_of_nat (if kind = CountStar then n else if kind = MinOf \<or> kind = MaxOf then 0 else length vs) \<and>
     acc_isum a = (if kind = SumOf \<or> kind = AvgOf then sum_list (map v_int vs) else 0) \<and>
     acc_dsum a = f_zero False \<and> \<not> acc_isFloat a \<and>
     (if (kind = MinOf \<or> kind = MaxOf) \<and> vs \<noteq> []
      then acc_hasBest a \<and> acc_best a \<in> set vs \<and> (\<forall>v\<in>set vs. \<not> beats kind v (acc_best a))
      else \<not> acc_hasBest a \<and> acc_best a = VNull)"

definition exact :: "val_class \<Rightarrow> val \<Rightarrow> bool" where
  "exact k v \<longleftrightarrow> solid k v \<and> hashable v"

lemma exact_rank: "exact k v \<Longrightarrow> exact k w \<Longrightarrow> val_rank v = val_rank w \<Longrightarrow> v = w"
  using one_unit_pos by (cases v; cases w) (auto simp: exact_def solid_def intro: signed_word_eqI)

lemma beats_trans: "beats kind u v \<Longrightarrow> beats kind v w \<Longrightarrow> beats kind u w"
  using rank_less_trans by (auto simp: beats_def split: if_splits)

lemma beats_linear: "beats kind v w \<or> val_rank v = val_rank w \<or> beats kind w v"
  using rank_less_linear [of "val_rank v" "val_rank w"] by (auto simp: beats_def)

lemma better_spec:
  assumes "kind = MinOf \<or> kind = MaxOf" "acc_hasBest a" "solid k v" "solid k (acc_best a)"
  shows "better kind v a = (if beats kind v (acc_best a) then a\<lparr>acc_best := v\<rparr> else a)"
proof -
  obtain c where c: "compareValues v (acc_best a) = Some c" "c < 0 \<longleftrightarrow> rank_less (val_rank v) (val_rank (acc_best a))"
    "c > 0 \<longleftrightarrow> rank_less (val_rank (acc_best a)) (val_rank v)"
    using compare_solid [OF assms(3,4)] by metis
  then show ?thesis using assms(1,2) by (auto simp: better_def beats_def)
qed

text \<open>The extreme of two extremes.\<close>

lemma holds_better:
  assumes kind: "kind = MinOf \<or> kind = MaxOf" and a: "holds kind n vs a"
    and v: "v \<in> set ws" "\<forall>w\<in>set ws. \<not> beats kind w v" and ex: "\<forall>w\<in>set (vs @ ws). exact k w"
  shows "holds kind m (vs @ ws) (better kind v a)"
proof (cases "vs = []")
  case True
  then show ?thesis using a v kind by (auto simp: holds_def better_def)
next
  case False
  then have b: "acc_hasBest a" "acc_best a \<in> set vs" "\<forall>w\<in>set vs. \<not> beats kind w (acc_best a)"
    using a kind by (auto simp: holds_def)
  have sb: "better kind v a = (if beats kind v (acc_best a) then a\<lparr>acc_best := v\<rparr> else a)"
    using ex b v by (intro better_spec [OF kind b(1), of k]) (auto simp: exact_def)
  show ?thesis
  proof (cases "beats kind v (acc_best a)")
    case True
    have "\<not> beats kind w v" if "w \<in> set vs" for w
      using b(3) that True beats_trans by blast
    then show ?thesis using sb True a v kind False by (auto simp: holds_def)
  next
    case nb: False
    have "\<not> beats kind w (acc_best a)" if w: "w \<in> set ws" for w
    proof
      assume "beats kind w (acc_best a)"
      then have "beats kind w v \<or> beats kind v (acc_best a)"
        using beats_linear [of kind w v] beats_trans [of kind v w "acc_best a"] by (auto simp: beats_def)
      then show False using nb v(2) w by blast
    qed
    then show ?thesis using sb nb a b v kind False by (auto simp: holds_def)
  qed
qed

lemma zero_add [simp]: "f_add (f_zero False) (f_zero False) = f_zero False"
  by (simp add: f_add_def f_zero_def f_pack_def f_is_nan_def f_is_inf_def f_units_def f_mag_def f_exp_def f_frac_def f_sign_def f_finite_def)

lemma holds_new: "holds kind 0 [] acc_new"
  by (simp add: holds_def acc_new_def)

text \<open>Only the counts tell nothing of the values.\<close>

definition exact_for :: "agg_kind \<Rightarrow> val_class \<Rightarrow> val \<Rightarrow> bool" where
  "exact_for kind k v \<longleftrightarrow> kind = CountStar \<or> kind = CountOf \<or> exact k v"

lemma holds_step:
  assumes "holds kind n vs a" "isNull v \<or> exact_for kind k v" "\<forall>w\<in>set vs. exact_for kind k w"
  shows "holds kind (Suc n) (if isNull v then vs else vs @ [v]) (gAccumulate a kind v)"
proof (cases "kind = CountStar \<or> isNull v")
  case True
  then show ?thesis using assms(1) by (auto simp: holds_def gAccumulate_def)
next
  case False
  then have v: "exact_for kind k v" "\<not> isNull v" using assms(2) by auto
  have nd: "kind = SumOf \<or> kind = AvgOf \<Longrightarrow> add_number v a = a\<lparr>acc_isum := acc_isum a + v_int v, acc_count := acc_count a + 1\<rparr>"
    using v by (cases v) (auto simp: add_number_def exact_def exact_for_def)
  consider (ext) "kind = MinOf \<or> kind = MaxOf" | (count) "kind = CountOf" | (sum) "kind = SumOf \<or> kind = AvgOf"
    using False by (cases kind) auto
  then show ?thesis
  proof cases
    case ext
    then have "gAccumulate a kind v = better kind v a" using v by (auto simp: gAccumulate_def)
    moreover have "holds kind (Suc n) (vs @ [v]) (better kind v a)"
      using assms(3) v ext by (intro holds_better [OF ext assms(1)]) (auto simp: beats_def exact_for_def)
    ultimately show ?thesis using v by simp
  next
    case count
    then show ?thesis using assms(1) v by (simp add: holds_def gAccumulate_def)
  next
    case sum
    then have "gAccumulate a kind v = add_number v a" using v by (auto simp: gAccumulate_def)
    then show ?thesis using assms(1) v sum nd by (auto simp: holds_def)
  qed
qed

lemma holds_foldl:
  assumes "holds kind n vs a" "\<forall>v\<in>set ws. isNull v \<or> exact_for kind k v" "\<forall>w\<in>set vs. exact_for kind k w"
  shows "holds kind (n + length ws) (vs @ filter (\<lambda>v. \<not> isNull v) ws) (foldl (\<lambda>a v. gAccumulate a kind v) a ws)"
  using assms
proof (induction ws arbitrary: n vs a)
  case (Cons v ws)
  have "holds kind (Suc n) (if isNull v then vs else vs @ [v]) (gAccumulate a kind v)"
    using Cons.prems by (intro holds_step) auto
  from Cons.IH [OF this] show ?case using Cons.prems by auto
qed simp

lemma holds_merge:
  assumes a: "holds kind n vs a" and b: "holds kind m ws b" and ex: "\<forall>w\<in>set (vs @ ws). exact_for kind k w"
  shows "holds kind (n + m) (vs @ ws) (mergePartial a b kind)"
proof -
  let ?a = "a\<lparr>acc_count := acc_count a + acc_count b, acc_isum := acc_isum a + acc_isum b,
    acc_dsum := f_add (acc_dsum a) (acc_dsum b), acc_isFloat := acc_isFloat a \<or> acc_isFloat b\<rparr>"
  show ?thesis
  proof (cases "(kind = MinOf \<or> kind = MaxOf) \<and> acc_hasBest b")
    case True
    then have best: "acc_best b \<in> set ws" "\<forall>w\<in>set ws. \<not> beats kind w (acc_best b)"
      using b by (auto simp: holds_def split: if_splits)
    have "holds kind n vs ?a" using a b True by (auto simp: holds_def)
    then have "holds kind (n + m) (vs @ ws) (better kind (acc_best b) ?a)"
      using True best ex by (intro holds_better [where k = k]) (auto simp: exact_for_def)
    then show ?thesis using True by (simp add: mergePartial_def Let_def)
  next
    case False
    then have "mergePartial a b kind = ?a" by (auto simp: mergePartial_def Let_def)
    moreover have "kind = MinOf \<or> kind = MaxOf \<Longrightarrow> ws = []" using False b by (auto simp: holds_def split: if_splits)
    ultimately show ?thesis using a b by (auto simp: holds_def)
  qed
qed

lemma holds_unique:
  assumes "holds kind n vs a" "holds kind n ws b" "mset vs = mset ws" "\<forall>w\<in>set vs. exact_for kind k w"
  shows "a = b"
proof -
  have s: "set vs = set ws" "length vs = length ws" using assms(3) by (metis set_mset_mset, metis size_mset)
  have "sum_list (map v_int vs) = sum_list (map v_int ws)" using assms(3) by (metis mset_map sum_mset_sum_list)
  moreover have "acc_best a = acc_best b"
  proof (cases "(kind = MinOf \<or> kind = MaxOf) \<and> vs \<noteq> []")
    case True
    then have "ws \<noteq> []" using s by auto
    then have "acc_best a \<in> set vs" "acc_best b \<in> set vs" "\<not> beats kind (acc_best b) (acc_best a)" "\<not> beats kind (acc_best a) (acc_best b)"
      using assms(1,2) True s by (auto simp: holds_def)
    moreover have "\<forall>w\<in>set vs. exact k w" using assms(4) True by (auto simp: exact_for_def)
    ultimately show ?thesis using beats_linear exact_rank [of k] by metis
  next
    case False
    then show ?thesis using assms(1,2) s by (auto simp: holds_def)
  qed
  moreover have "vs = [] \<longleftrightarrow> ws = []" using s by auto
  ultimately show ?thesis using assms(1,2) s by (cases a; cases b) (auto simp: holds_def split: if_splits)
qed

lemma holds_merges:
  assumes "holds kind n vs a" "\<forall>w\<in>set vs. exact_for kind k w"
    "\<forall>t\<in>set ts. holds kind (m t) (ws t) (b t) \<and> (\<forall>w\<in>set (ws t). exact_for kind k w)"
  shows "holds kind (n + sum_list (map m ts)) (vs @ concat (map ws ts)) (foldl (\<lambda>a b. mergePartial a b kind) a (map b ts))"
  using assms
proof (induction ts arbitrary: n vs a)
  case (Cons t ts)
  have "holds kind (n + m t) (vs @ ws t) (mergePartial a (b t) kind)"
    using Cons.prems by (intro holds_merge) auto
  from Cons.IH [OF this] show ?case using Cons.prems by (simp add: add.assoc) blast
qed simp

lemma stripes_cover:
  assumes "0 < n"
  shows "mset (concat (map (stripe n nb) [0..<n])) = mset [0..<nb]"
proof -
  have "mset (concat (map (\<lambda>t. filter (\<lambda>b. b mod n = t) xs) [0..<m])) = mset (filter (\<lambda>b. b mod n < m) xs)" for m and xs :: "nat list"
  proof (induction m)
    case (Suc m)
    have "mset (filter (\<lambda>b. b mod n < Suc m) ys) = mset (filter (\<lambda>b. b mod n < m) ys) + mset (filter (\<lambda>b. b mod n = m) ys)" for ys
      by (induction ys) auto
    then show ?case using Suc by simp
  qed simp
  then have "mset (concat (map (stripe n nb) [0..<n])) = mset (filter (\<lambda>b. b mod n < n) [0..<nb])"
    by (simp only: stripe_def [abs_def])
  moreover have "filter (\<lambda>b. b mod n < n) [0..<nb] = [0..<nb]" using assms by (simp add: filter_id_conv)
  ultimately show ?thesis by simp
qed

lemma mset_concat_map: "mset xs = mset ys \<Longrightarrow> mset (concat (map g xs)) = mset (concat (map g ys))"
proof -
  have "mset (concat (map g zs)) = sum_mset (image_mset (\<lambda>x. mset (g x)) (mset zs))" for zs
    by (induction zs) simp_all
  then show "mset xs = mset ys \<Longrightarrow> mset (concat (map g xs)) = mset (concat (map g ys))" by simp
qed

lemma visited_concat: "visited pred tc (concat bss) = concat (map (visited pred tc) bss)"
  by (induction bss) (simp_all add: visited_def)

lemma visited_range: "i \<in> set (visited pred tc bs) \<Longrightarrow> i < tc_rows tc"
  by (auto simp: visited_def block_rows_def split: if_splits)

text \<open>The values of an aggregate's column are within a class and hold no doubles.\<close>

definition exact_column :: "row list \<Rightarrow> vec_aggregate \<Rightarrow> bool" where
  "exact_column rows agg \<longleftrightarrow> (\<exists>k. \<forall>r\<in>set rows.
     isNull (at_or_null r (nat (agg_column agg))) \<or> exact_for (agg_kind agg) k (at_or_null r (nat (agg_column agg))))"

lemma parallel_equals_columnar:
  assumes typed: "typed_rows sch rows" and agg: "\<forall>agg\<in>set aggs. agg_ok (length sch) agg \<and> exact_column rows agg"
    and small: "length rows < 2 ^ 41"
  shows "parallelColumnarAggregate (build_columns sch rows) aggs pred numThreads =
    columnarAggregate (build_columns sch rows) aggs pred"
proof -
  let ?tc = "build_columns sch rows"
  define nb where "nb = block_count (length rows)"
  have tr: "tc_rows ?tc = length rows" by (simp add: build_columns_eq)
  show ?thesis
  proof (cases "nb = 0")
    case True
    then show ?thesis
      by (simp add: parallelColumnarAggregate_def columnarAggregate_def tr nb_def visited_def fold_rows_def)
  next
    case False
    have "nb < 2 ^ 32" using small by (simp add: nb_def block_count_def kBlockRows_def div_less_iff_less_mult)
    define n where "n = min (if numThreads = 0 then 1 else numThreads) (nb mod 2 ^ 32)"
    have n: "0 < n" using False \<open>nb < 2 ^ 32\<close> by (simp add: n_def)
    have "finalizePartial g (foldl (\<lambda>a b. mergePartial a b (agg_kind g))
          (hd (map (\<lambda>t. fold_rows g ?tc (visited pred ?tc (stripe n nb t))) [0..<n]))
          (tl (map (\<lambda>t. fold_rows g ?tc (visited pred ?tc (stripe n nb t))) [0..<n]))) =
        finalizePartial g (fold_rows g ?tc (visited pred ?tc [0..<nb]))" if g: "g \<in> set aggs" for g
    proof -
      define val where "val i = at_or_null (rows ! i) (nat (agg_column g))" for i
      define vals where "vals is = filter (\<lambda>v. \<not> isNull v) (map val is)" for "is"
      define vis where "vis t = visited pred ?tc (stripe n nb t)" for t
      obtain k where k: "\<forall>r\<in>set rows. isNull (at_or_null r (nat (agg_column g))) \<or> exact_for (agg_kind g) k (at_or_null r (nat (agg_column g)))"
        using agg g unfolding exact_column_def by blast
      have ex: "isNull (val i) \<or> exact_for (agg_kind g) k (val i)" if "i < length rows" for i
        using k nth_mem [OF that] by (auto simp: val_def)
      have exs: "\<forall>w\<in>set (vals is). exact_for (agg_kind g) k w" if "\<forall>i\<in>set is. i < length rows" for "is"
        using that ex by (auto simp: vals_def)
      have h: "holds (agg_kind g) (length is) (vals is) (fold_rows g ?tc is)" if "\<forall>i\<in>set is. i < length rows" for "is"
      proof -
        have "fold_rows g ?tc is = foldl (\<lambda>a v. gAccumulate a (agg_kind g) v) acc_new (map val is)"
          unfolding fold_rows_def val_def foldl_map
          using that accumulateRow_value [OF typed] agg g by (intro foldl_cong) auto
        moreover have "holds (agg_kind g) (0 + length (map val is)) ([] @ filter (\<lambda>v. \<not> isNull v) (map val is))
            (foldl (\<lambda>a v. gAccumulate a (agg_kind g) v) acc_new (map val is))"
          using that ex by (intro holds_foldl [where k = k] holds_new) auto
        ultimately show ?thesis by (simp add: vals_def)
      qed
      have rng: "\<forall>i\<in>set (visited pred ?tc bs). i < length rows" for bs using visited_range tr by metis
      have hv: "holds (agg_kind g) (length (vis t)) (vals (vis t)) (fold_rows g ?tc (vis t))" for t
        unfolding vis_def by (rule h [OF rng])
      have ev: "\<forall>w\<in>set (vals (vis t)). exact_for (agg_kind g) k w" for t
        unfolding vis_def by (rule exs [OF rng])
      have up: "[0..<n] = 0 # [1..<n]" using n by (simp add: upt_conv_Cons)
      have par: "holds (agg_kind g) (length (vis 0) + sum_list (map (\<lambda>t. length (vis t)) [1..<n]))
          (vals (vis 0) @ concat (map (\<lambda>t. vals (vis t)) [1..<n]))
          (foldl (\<lambda>a b. mergePartial a b (agg_kind g)) (fold_rows g ?tc (vis 0)) (map (\<lambda>t. fold_rows g ?tc (vis t)) [1..<n]))"
        using hv ev by (intro holds_merges [where k = k]) blast+
      have "mset (concat (map vis [0..<n])) = mset (visited pred ?tc [0..<nb])"
      proof -
        have "concat (map vis [0..<n]) = visited pred ?tc (concat (map (stripe n nb) [0..<n]))"
          by (simp add: visited_concat vis_def [abs_def] comp_def)
        then show ?thesis unfolding visited_def using mset_concat_map [OF stripes_cover [OF n]] by metis
      qed
      then have m: "mset (vis 0 @ concat (map vis [1..<n])) = mset (visited pred ?tc [0..<nb])" by (simp add: up)
      have "concat (map (\<lambda>t. vals (vis t)) ts) = vals (concat (map vis ts))" for ts
        by (induction ts) (simp_all add: vals_def)
      then have "vals (vis 0) @ concat (map (\<lambda>t. vals (vis t)) [1..<n]) = vals (vis 0 @ concat (map vis [1..<n]))"
        by (simp add: vals_def)
      moreover have "mset (vals (vis 0 @ concat (map vis [1..<n]))) = mset (vals (visited pred ?tc [0..<nb]))"
        using m unfolding vals_def by (metis mset_filter mset_map)
      moreover have "length (vis 0) + sum_list (map (\<lambda>t. length (vis t)) [1..<n]) = length (visited pred ?tc [0..<nb])"
        using arg_cong [OF m, of size] by (simp add: length_concat comp_def)
      ultimately have "foldl (\<lambda>a b. mergePartial a b (agg_kind g)) (fold_rows g ?tc (vis 0)) (map (\<lambda>t. fold_rows g ?tc (vis t)) [1..<n]) =
          fold_rows g ?tc (visited pred ?tc [0..<nb])"
        using holds_unique [OF _ h [OF rng]] par exs rng by (metis set_mset_mset)
      then show ?thesis by (simp add: vis_def up)
    qed
    then show ?thesis
      unfolding parallelColumnarAggregate_def columnarAggregate_def tr Let_def nb_def [symmetric] n_def [symmetric]
      using False by simp
  qed
qed

section \<open>Decoded rows are typed\<close>

lemma read_col_type: "read_col dt inp pos = Inr (v, pos') \<Longrightarrow> has_type dt v"
  by (cases dt) (auto simp: read_word_def read_text_def read_fixed_def Let_def split: if_splits)

lemma read_cols_type:
  "read_cols inp i sch pos = Inr vs \<Longrightarrow> length vs = length sch \<and> (\<forall>c < length sch. has_type (sch ! c) (vs ! c))"
proof (induction sch arbitrary: i pos vs)
  case (Cons dt sch)
  obtain v ws pos' where v: "vs = v # ws" "read_cols inp (Suc i) sch pos' = Inr ws" "has_type dt v"
    using Cons.prems read_col_type by (auto split: if_splits sum.splits)
  then show ?case using Cons.IH [OF v(2)] by (auto simp: nth_Cons split: nat.split)
qed simp

lemma deserialize_type:
  "deserialize b sch = Inr r \<Longrightarrow> length r = length sch \<and> (\<forall>c < length sch. has_type (sch ! c) (at_or_null r c))"
  using read_cols_type by (auto simp: deserialize_def at_or_null_def Let_def split: if_splits)

lemma decode_rows_typed: "decode_rows sch brs = Some rows \<Longrightarrow> typed_rows sch (map fst rows)"
proof (induction brs arbitrary: rows)
  case (Cons x brs)
  then show ?case
    using deserialize_type by (cases x) (fastforce simp: typed_rows_def split: sum.splits)
qed (simp add: typed_rows_def)

section \<open>Properties\<close>

text \<open>The columnar aggregate over the copy of a table is the row-at-a-time aggregate over its rows
  that pass the predicate: skipping the blocks whose zone map excludes a term loses no row -
  where every column a term compares holds, with its literal, values of one class (no NaN, and
  integers of at most 53 bits).\<close>

lemma columnar_aggregate_exact:
  assumes "tm_inv t" "decode_rows sch (table_rows t tid) = Some rows" "cs tid = None"
    and "pred_ok (length sch) pred" "\<forall>agg\<in>set aggs. agg_ok (length sch) agg" "pred_classed (map fst rows) pred"
  shows "\<exists>t' tc. getOrBuild cs t tid sch = Some (t', Inr (cs(tid \<mapsto> tc), tc)) \<and> same_store t t' \<and>
    columnarAggregate tc aggs pred = map (\<lambda>agg. row_aggregate agg (filter (row_passes pred) (map fst rows))) aggs"
proof -
  obtain t' where "scan_table t tid sch = Some (t', Inr (map fst rows))" "same_store t t'"
    using scan_table_rows [OF assms(1,2)] by blast
  moreover have "columnarAggregate (build_columns sch (map fst rows)) aggs pred =
    map (\<lambda>agg. row_aggregate agg (filter (row_passes pred) (map fst rows))) aggs"
    using columnar_equals_rows [OF decode_rows_typed [OF assms(2)] assms(4-6)] .
  ultimately show ?thesis
    using assms(3) by (intro exI [of _ t'] exI [of _ "build_columns sch (map fst rows)"]) (simp add: getOrBuild_def Let_def)
qed

lemma columnar_aggregate_exact_witness:
  "\<exists>t t' tc. getOrBuild Map.empty t 1 [DInt] = Some (t', Inr ([1 \<mapsto> tc], tc)) \<and>
     columnarAggregate tc [\<lparr>agg_kind = MaxOf, agg_column = 0\<rparr>] (Some [\<lparr>term_column = 0, term_op = Leq, term_literal = VInt 7\<rparr>]) = [VInt 7]"
proof -
  define b where "b = serialize [VInt 7] [DInt]"
  have d: "deserialize b [DInt] = Inr [VInt 7]"
    using deserialize_serialize [of "[DInt]" "[VInt 7]"]
    by (simp add: b_def short_texts_def stored_row_def at_or_null_def upt_rec)
  have "b \<noteq> []" using d by (auto simp: deserialize_def)
  moreover have "length b < 4000"
    by (simp add: b_def serialize_def at_or_null_def upt_rec null_bitmap_spec)
  ultimately obtain t r where t: "tm_inv t" "table_rows t 1 = [(r, b)]"
    using one_record [of b 1] by (auto simp: storable_def)
  have "decode_rows [DInt] (table_rows t 1) = Some [([VInt 7], r)]" by (simp add: t d)
  from columnar_aggregate_exact [OF t(1) this, of Map.empty "Some [\<lparr>term_column = 0, term_op = Leq, term_literal = VInt 7\<rparr>]"
      "[\<lparr>agg_kind = MaxOf, agg_column = 0\<rparr>]"]
  show ?thesis
    by (auto simp: pred_ok_def agg_ok_def pred_classed_def row_passes_def value_passes_def at_or_null_def compareValues_def
        row_aggregate_def accumulate_all_def gAccumulate_def gFinalize_def acc_new_def better_def
        intro!: exI [of _ NumClass])
qed

text \<open>C37: The parallel aggregate returns what the serial one does, for any number of threads, where the
  columns of SUM, AVG, MIN and MAX hold integers, booleans or texts: the order in which the
  workers' partial results are merged does not show.\<close>

theorem parallel_aggregate_serial:
  assumes "typed_rows sch rows" "\<forall>agg\<in>set aggs. agg_ok (length sch) agg \<and> exact_column rows agg" "length rows < 2 ^ 41"
  shows "parallelColumnarAggregate (build_columns sch rows) aggs pred numThreads =
    columnarAggregate (build_columns sch rows) aggs pred"
  using assms by (rule parallel_equals_columnar)

theorem parallel_aggregate_serial_witness:
  "parallelColumnarAggregate (build_columns [DInt] [[VInt 3], [VNull]]) [\<lparr>agg_kind = SumOf, agg_column = 0\<rparr>] None 8 =
    columnarAggregate (build_columns [DInt] [[VInt 3], [VNull]]) [\<lparr>agg_kind = SumOf, agg_column = 0\<rparr>] None"
  by (rule parallel_aggregate_serial)
    (auto simp: typed_rows_def at_or_null_def agg_ok_def exact_column_def exact_for_def exact_def solid_def intro!: exI [of _ NumClass])

text \<open>With a NaN in the column the zone map skips rows that pass: every comparison with NaN counts as
  equal, so the block's minimum is NaN and looks equal to the literal.\<close>

lemma zone_skips_after_nan:
  assumes "f_is_nan n" "\<not> f_is_nan d" "f_lt d l"
  shows "let rows = [[VDouble n], [VDouble d]]; pred = Some [\<lparr>term_column = 0, term_op = Lt, term_literal = VDouble l\<rparr>];
             aggs = [\<lparr>agg_kind = CountStar, agg_column = - 1\<rparr>]
         in columnarAggregate (build_columns [DFloat] rows) aggs pred = [VInt 0] \<and>
            map (\<lambda>agg. row_aggregate agg (filter (row_passes pred) rows)) aggs = [VInt 1]"
proof -
  have lt: "\<not> f_lt n x" "\<not> f_lt x n" for x using assms(1) by (simp_all add: f_lt_def)
  have "block_count 2 = 1" "block_rows 2 0 = [0, 1]" by (simp_all add: block_count_def block_rows_def kBlockRows_def upt_rec)
  then show ?thesis
    using lt assms(3)
    by (simp add: Let_def columnarAggregate_def build_columns_eq visited_def skips_def blockSkippable_def column_at_def
        buildZones_def zone_step_def zone_new_def columnValue_def column_of_def column_vals_def at_or_null_def
        compareValues_def asDouble_def blockExcludesTerm_def finalizePartial_def fold_rows_def gFinalize_def acc_new_def
        row_aggregate_def accumulate_all_def gAccumulate_def row_passes_def value_passes_def numeral_2_eq_2)
qed

end
