(* ===== verification/Query.thy ===== *)
theory Query
  imports ColumnStore
begin

text \<open>
  The parts of \<open>src/src/vm/executor_engine.cpp\<close> that compute on rows alone: aggregates and HAVING,
  the joins of two row sets, grouping, ordering, projection, LIMIT, set operations, window
  functions (in \<open>Window\<close>) and the translation of a WHERE clause for the columnar aggregate. A result \<open>None\<close> is
  an evaluation that has none (see \<open>ExprEval\<close>). The record identifiers that accompany the rows
  inside a query are not read there and are left out.
\<close>

section \<open>Aggregates\<close>

definition aggLabel :: "function_expr \<Rightarrow> string" where
  "aggLabel fn =
     fn_name fn @ ''('' @
     (if fn_star fn then ''*'' else case fn_argument fn of Some c \<Rightarrow> col_column c | None \<Rightarrow> []) @ '')''"

fun flipOp :: "comparison_op \<Rightarrow> comparison_op" where
  "flipOp Lt = Gt"
| "flipOp Leq = Geq"
| "flipOp Gt = Lt"
| "flipOp Geq = Leq"
| "flipOp op = op"

definition fn_column :: "function_expr \<Rightarrow> int" where
  "fn_column fn = (case fn_argument fn of Some c \<Rightarrow> columnIndex c | None \<Rightarrow> - 1)"

definition fn_values :: "function_expr \<Rightarrow> row list \<Rightarrow> val list" where
  "fn_values fn rows =
     (let col = fn_column fn;
          vals = concat (map (\<lambda>r. if col < 0 \<or> col \<ge> int (length r) \<or> isNull (r ! nat col) then [] else [r ! nat col]) rows)
      in if fn_distinct fn then keep_unseen keyOf {} vals else vals)"

text \<open>\<open>(isum, dsum, isFloat)\<close> of the loop of SUM and AVG.\<close>

definition sum_step :: "i64 \<times> dbl \<times> bool \<Rightarrow> val \<Rightarrow> i64 \<times> dbl \<times> bool" where
  "sum_step s v =
     (case s of (isum, dsum, isFloat) \<Rightarrow>
        case v of VDouble d \<Rightarrow> (isum, f_add dsum d, True) | _ \<Rightarrow> (isum + v_int v, dsum, isFloat))"

definition best_step :: "string \<Rightarrow> val \<Rightarrow> val \<Rightarrow> val" where
  "best_step name best v =
     (if isNull best then v
      else case compareValues v best of
        None \<Rightarrow> best
      | Some c \<Rightarrow> if (name = ''MIN'' \<and> c < 0) \<or> (name = ''MAX'' \<and> c > 0) then v else best)"

definition computeAggregate :: "function_expr \<Rightarrow> row list \<Rightarrow> val" where
  "computeAggregate fn rows =
     (if fn_name fn = ''COUNT'' \<and> fn_star fn \<and> \<not> fn_distinct fn then VInt (word_of_nat (length rows))
      else let vals = fn_values fn rows in
        if fn_name fn = ''COUNT'' then VInt (word_of_nat (length vals))
        else if fn_name fn = ''SUM'' \<or> fn_name fn = ''AVG'' then
          (case foldl sum_step (0, f_zero False, False) vals of (isum, dsum, isFloat) \<Rightarrow>
             let n = (word_of_nat (length vals) :: i64); total = f_add dsum (f_of_int (sint isum)) in
             if n = 0 then VNull
             else if fn_name fn = ''AVG'' then VDouble (f_div total (f_of_int (sint n)))
             else if isFloat then VDouble total
             else VInt isum)
        else foldl (best_step (fn_name fn)) VNull vals)"

section \<open>HAVING\<close>

definition having_arith :: "arithmetic_op \<Rightarrow> val \<Rightarrow> val \<Rightarrow> val option" where
  "having_arith op l r =
     (if \<not> isNumeric l \<or> \<not> isNumeric r then Some VNull
      else case (l, r) of
        (VInt a, VInt b) \<Rightarrow> arith_int op a b
      | _ \<Rightarrow> Some (arith_dbl op (asDouble l) (asDouble r)))"

fun evalHavingValue :: "expr \<Rightarrow> row list \<Rightarrow> row \<Rightarrow> val option" where
  "evalHavingValue (FunctionExpr fn) rows rep = Some (computeAggregate fn rows)"
| "evalHavingValue (ArithmeticExpr _ op l r) rows rep =
     Option.bind (evalHavingValue l rows rep) (\<lambda>a. Option.bind (evalHavingValue r rows rep) (\<lambda>b.
       having_arith op a b))"
| "evalHavingValue e rows rep = evalExpression e rep"

fun evalHavingBool :: "expr \<Rightarrow> row list \<Rightarrow> row \<Rightarrow> bool option" where
  "evalHavingBool (LogicalExpr _ op l r) rows rep =
     Option.bind (evalHavingBool l rows rep) (\<lambda>a. Option.bind (evalHavingBool r rows rep) (\<lambda>b.
       Some (if op = OpAnd then a \<and> b else a \<or> b)))"
| "evalHavingBool (UnaryExpr _ e) rows rep = map_option Not (evalHavingBool e rows rep)"
| "evalHavingBool (BinaryExpr _ op l r) rows rep =
     Option.bind (evalHavingValue l rows rep) (\<lambda>a. Option.bind (evalHavingValue r rows rep) (\<lambda>b.
       Some (case compareValues a b of None \<Rightarrow> False | Some c \<Rightarrow> compare_result op c)))"
| "evalHavingBool e rows rep = map_option (\<lambda>v. v = VBool True) (evalHavingValue e rows rep)"

section \<open>Joins\<close>

text \<open>The key columns of an equality of a column of either side, or -1.\<close>

definition equi_keys :: "expr option \<Rightarrow> nat \<Rightarrow> int \<times> int" where
  "equi_keys on leftWidth =
     (case on of
        Some (BinaryExpr _ Eq (ColumnRef a) (ColumnRef b)) \<Rightarrow>
          let ai = columnIndex a; bi = columnIndex b; w = int leftWidth in
            if ai < w \<and> bi \<ge> w then (ai, bi - w)
            else if bi < w \<and> ai \<ge> w then (bi, ai - w)
            else (- 1, - 1)
      | _ \<Rightarrow> (- 1, - 1))"

text \<open>For one left row: which right rows the condition accepts.\<close>

fun on_matches :: "expr option \<Rightarrow> row \<Rightarrow> row list \<Rightarrow> bool list option" where
  "on_matches on l [] = Some []"
| "on_matches on l (r # rs) =
     Option.bind (passes on (l @ r)) (\<lambda>b. map_option (Cons b) (on_matches on l rs))"

fun join_loop :: "expr option \<Rightarrow> bool \<Rightarrow> nat \<Rightarrow> row list \<Rightarrow> row list \<Rightarrow> bool list \<Rightarrow> (row list \<times> bool list) option" where
  "join_loop on keepLeft rightWidth right [] rightMatched = Some ([], rightMatched)"
| "join_loop on keepLeft rightWidth right (l # ls) rightMatched =
     Option.bind (on_matches on l right) (\<lambda>ms.
       let rows = map (\<lambda>(r, m). l @ r) (filter snd (zip right ms));
           rows = (if True \<notin> set ms \<and> keepLeft then rows @ [l @ replicate rightWidth VNull] else rows)
       in map_option (\<lambda>(rest, matched). (rows @ rest, matched))
            (join_loop on keepLeft rightWidth right ls (map2 (\<or>) rightMatched ms)))"

definition nested_join :: "row list \<Rightarrow> nat \<Rightarrow> row list \<Rightarrow> nat \<Rightarrow> join_kind \<Rightarrow> expr option \<Rightarrow> row list option" where
  "nested_join left leftWidth right rightWidth kind on =
     (let keepLeft = (kind = JLeft \<or> kind = JFull); keepRight = (kind = JRight \<or> kind = JFull)
      in map_option (\<lambda>(rows, rightMatched).
           if keepRight
           then rows @ map (\<lambda>(r, m). replicate leftWidth VNull @ r) (filter (\<lambda>x. \<not> snd x) (zip right rightMatched))
           else rows)
         (join_loop on keepLeft rightWidth right left (replicate (length right) False)))"

definition cross_join :: "row list \<Rightarrow> row list \<Rightarrow> row list" where
  "cross_join left right = concat (map (\<lambda>l. map (\<lambda>r. l @ r) right) left)"

definition joinTwo :: "row list \<Rightarrow> nat \<Rightarrow> row list \<Rightarrow> nat \<Rightarrow> join_kind \<Rightarrow> expr option \<Rightarrow> row list option" where
  "joinTwo left leftWidth right rightWidth kind on =
     (if kind = JCross then Some (cross_join left right)
      else case equi_keys on leftWidth of (leftKey, rightKey) \<Rightarrow>
        if kind = JInner \<and> leftKey \<ge> 0 \<and> rightKey \<ge> 0
        then Some (hash_join (nat leftKey) (nat rightKey) left right)
        else nested_join left leftWidth right rightWidth kind on)"

fun keep_rows :: "expr option \<Rightarrow> row list \<Rightarrow> row list option" where
  "keep_rows p [] = Some []"
| "keep_rows p (r # rs) =
     Option.bind (passes p r) (\<lambda>b. map_option (\<lambda>out. if b then r # out else out) (keep_rows p rs))"

text \<open>
  The join of a query over two tables: an inner equality join is a hash join or, when both sides
  have more than \<open>hashBuildBudget\<close> rows, a merge join. WHERE filters every row as it is formed.
\<close>

definition joined_rows ::
  "heap_choice \<Rightarrow> nat \<Rightarrow> row list \<Rightarrow> nat \<Rightarrow> row list \<Rightarrow> nat \<Rightarrow> join_kind \<Rightarrow> expr option \<Rightarrow> row list option" where
  "joined_rows pick hashBuildBudget left leftWidth right rightWidth kind on =
     (if kind = JCross then Some (cross_join left right)
      else case equi_keys on leftWidth of (leftKey, rightKey) \<Rightarrow>
        if kind = JInner \<and> leftKey \<ge> 0 \<and> rightKey \<ge> 0 then
          (case chooseEquiJoin hashBuildBudget (length left) (length right) of
             MergeJoin \<Rightarrow> mergeJoinInner pick left (nat leftKey) right (nat rightKey) 100000
           | _ \<Rightarrow> Some (hash_join (nat leftKey) (nat rightKey) left right))
        else nested_join left leftWidth right rightWidth kind on)"

definition two_table_rows ::
  "heap_choice \<Rightarrow> row list \<Rightarrow> nat \<Rightarrow> row list \<Rightarrow> nat \<Rightarrow> join_kind \<Rightarrow> expr option \<Rightarrow> expr option \<Rightarrow> row list option" where
  "two_table_rows pick left leftWidth right rightWidth kind on whr =
     Option.bind (joined_rows pick 10000 left leftWidth right rightWidth kind on) (keep_rows whr)"

text \<open>The chain of joins of a query over more than two tables; a clause comes with its table's rows.\<close>

fun join_chain :: "row list \<Rightarrow> nat \<Rightarrow> (join_kind \<times> expr option \<times> row list \<times> nat) list \<Rightarrow> row list option" where
  "join_chain acc accWidth [] = Some acc"
| "join_chain acc accWidth ((kind, on, rows, width) # rest) =
     Option.bind (joinTwo acc accWidth rows width kind on) (\<lambda>acc. join_chain acc (accWidth + width) rest)"

section \<open>Grouping\<close>

fun group_add :: "string \<Rightarrow> 'a \<Rightarrow> (string \<times> 'a list) list \<Rightarrow> (string \<times> 'a list) list" where
  "group_add k r [] = [(k, [r])]"
| "group_add k r ((k', rs) # groups) =
     (if k' = k then (k', rs @ [r]) # groups else (k', rs) # group_add k r groups)"

definition group_cells :: "int list \<Rightarrow> row \<Rightarrow> val list" where
  "group_cells gcols r = map (\<lambda>c. r ! nat c) gcols"

definition groups_of_rows :: "int list \<Rightarrow> row list \<Rightarrow> row list list" where
  "groups_of_rows gcols rows =
     (let groups = map snd (foldl (\<lambda>gs r. group_add (row_key (group_cells gcols r)) r gs) [] rows)
      in if gcols = [] \<and> groups = [] then [[]] else groups)"

definition plain_cell :: "column_ref \<Rightarrow> row \<Rightarrow> val" where
  "plain_cell c r = (if columnIndex c \<ge> 0 \<and> columnIndex c < int (length r) then r ! nat (columnIndex c) else VNull)"

definition output_cell :: "row \<Rightarrow> column_ref \<Rightarrow> val option" where
  "output_cell r c = (case computed c of Some e \<Rightarrow> evalExpression e r | None \<Rightarrow> Some (plain_cell c r))"

fun collect :: "('a \<Rightarrow> 'b option) \<Rightarrow> 'a list \<Rightarrow> 'b list option" where
  "collect f [] = Some []"
| "collect f (x # xs) = Option.bind (f x) (\<lambda>y. map_option (Cons y) (collect f xs))"

text \<open>The output row of a group, or none when HAVING rejects it.\<close>

definition group_output ::
  "nat \<Rightarrow> column_ref list \<Rightarrow> function_expr list \<Rightarrow> expr option \<Rightarrow> row list \<Rightarrow> row list option" where
  "group_output width cols aggs hav rows =
     (let rep = (case rows of [] \<Rightarrow> replicate width VNull | r # _ \<Rightarrow> r)
      in Option.bind (case hav of None \<Rightarrow> Some True | Some h \<Rightarrow> evalHavingBool h rows rep) (\<lambda>ok.
           if \<not> ok then Some []
           else map_option (\<lambda>cells. [cells @ map (\<lambda>fn. computeAggregate fn rows) aggs]) (collect (output_cell rep) cols)))"

definition column_title :: "column_ref \<Rightarrow> string" where
  "column_title c = (if col_alias c = [] then col_column c else col_alias c)"

definition aggregate_title :: "function_expr \<Rightarrow> string" where
  "aggregate_title fn = (if fn_alias fn = [] then aggLabel fn else fn_alias fn)"

text \<open>OFFSET, and LIMIT as the grouped queries and as the others apply it.\<close>

definition skip_rows :: "i64 \<Rightarrow> 'a list \<Rightarrow> 'a list" where
  "skip_rows off rows =
     (if sint off > 0 then (if nat (sint off) \<ge> length rows then [] else drop (nat (sint off)) rows) else rows)"

definition limit_groups :: "i64 option \<Rightarrow> 'a list \<Rightarrow> 'a list" where
  "limit_groups lim rows =
     (case lim of Some l \<Rightarrow> if sint l \<ge> 0 \<and> nat (sint l) < length rows then take (nat (sint l)) rows else rows
      | None \<Rightarrow> rows)"

definition limit_rows :: "i64 option \<Rightarrow> 'a list \<Rightarrow> 'a list" where
  "limit_rows lim rows =
     (case lim of Some l \<Rightarrow>
        let n = (if sint l < 0 then 0 else nat (sint l)) in if length rows > n then take n rows else rows
      | None \<Rightarrow> rows)"

definition grouped_rows :: "select \<Rightarrow> nat \<Rightarrow> row list \<Rightarrow> row list option" where
  "grouped_rows q width rows =
     map_option (\<lambda>outs. limit_groups (limit q) (skip_rows (offset q) (concat outs)))
       (collect (group_output width (sel_columns q) (aggregates q) (having q))
          (groups_of_rows (map columnIndex (groupBy q)) rows))"

section \<open>Ordering and projection\<close>

text \<open>The comparison of ORDER BY, of rows and, in a window, of partition members.\<close>

definition order_less :: "(column_ref \<times> bool) list \<Rightarrow> row \<Rightarrow> row \<Rightarrow> bool" where
  "order_less keys a b = rowLess a b (map (\<lambda>k. nat (columnIndex (fst k))) keys) (map snd keys)"

definition order_rows :: "(column_ref \<times> bool) list \<Rightarrow> row list \<Rightarrow> row list" where
  "order_rows keys rows = (if keys = [] then rows else stable_sort (order_less keys) rows)"

definition finish_rows :: "select \<Rightarrow> row list \<Rightarrow> row list" where
  "finish_rows q rows =
     limit_rows (limit q) (skip_rows (offset q) (if sel_distinct q then dedupeRows rows else rows))"

section \<open>Set operations\<close>

text \<open>The loop of INTERSECT and EXCEPT.\<close>

fun emit_rows :: "bool \<Rightarrow> string set \<Rightarrow> string set \<Rightarrow> row list \<Rightarrow> row list" where
  "emit_rows wantIntersect rightKeys emitted [] = []"
| "emit_rows wantIntersect rightKeys emitted (r # rs) =
     (let k = row_key r in
      if (k \<in> rightKeys) = wantIntersect \<and> k \<notin> emitted
      then r # emit_rows wantIntersect rightKeys (insert k emitted) rs
      else emit_rows wantIntersect rightKeys emitted rs)"

definition set_op_rows :: "set_op \<Rightarrow> bool \<Rightarrow> row list \<Rightarrow> row list \<Rightarrow> row list" where
  "set_op_rows op keepAll left right =
     (if op = OpUnion then (let rows = left @ right in if keepAll then rows else dedupeRows rows)
      else emit_rows (op = OpIntersect) (set (map row_key right)) {} left)"

section \<open>The columnar path\<close>

text \<open>A column compared with a literal, whichever comes first.\<close>

definition column_literal :: "expr \<Rightarrow> expr \<Rightarrow> (column_ref \<times> val) option" where
  "column_literal l r =
     (case l of ColumnRef c \<Rightarrow> (case r of LiteralExpr _ v \<Rightarrow> Some (c, v) | _ \<Rightarrow> None) | _ \<Rightarrow> None)"

definition literal_term :: "comparison_op \<Rightarrow> expr \<Rightarrow> expr \<Rightarrow> (column_ref \<times> comparison_op \<times> val) option" where
  "literal_term op l r =
     (case column_literal l r of
        Some (c, v) \<Rightarrow> Some (c, op, v)
      | None \<Rightarrow> map_option (\<lambda>(c, v). (c, flipOp op, v)) (column_literal r l))"

fun buildVecPredicate :: "expr \<Rightarrow> vec_predicate \<Rightarrow> vec_predicate option" where
  "buildVecPredicate (LogicalExpr _ op l r) out =
     (if op \<noteq> OpAnd then None
      else Option.bind (buildVecPredicate l out) (buildVecPredicate r))"
| "buildVecPredicate (BinaryExpr _ op l r) out =
     (case literal_term op l r of
        None \<Rightarrow> None
      | Some (c, op, v) \<Rightarrow>
          if outerRef c \<or> computed c \<noteq> None \<or> columnIndex c < 0 then None
          else Some (out @ [\<lparr>term_column = columnIndex c, term_op = op, term_literal = v\<rparr>]))"
| "buildVecPredicate e out = None"

definition fn_vectorizable :: "function_expr \<Rightarrow> bool" where
  "fn_vectorizable fn \<longleftrightarrow>
     \<not> fn_distinct fn \<and>
     ((fn_name fn = ''COUNT'' \<and> fn_star fn) \<or>
      (fn_column fn \<ge> 0 \<and> fn_name fn \<in> {''COUNT'', ''SUM'', ''AVG'', ''MIN'', ''MAX''}))"

definition vec_aggregate_of :: "function_expr \<Rightarrow> vec_aggregate" where
  "vec_aggregate_of fn =
     (if fn_name fn = ''COUNT'' \<and> fn_star fn then \<lparr>agg_kind = CountStar, agg_column = - 1\<rparr>
      else \<lparr>agg_kind =
              (if fn_name fn = ''COUNT'' then CountOf else if fn_name fn = ''SUM'' then SumOf
               else if fn_name fn = ''AVG'' then AvgOf else if fn_name fn = ''MIN'' then MinOf else MaxOf),
            agg_column = fn_column fn\<rparr>)"

section \<open>Grouping by rows\<close>

lemma group_by_snoc:
  "group_by f (xs @ [x]) =
     (if f x \<in> set (map f xs)
      then map (\<lambda>(v, g). (v, if v = f x then g @ [x] else g)) (group_by f xs)
      else group_by f xs @ [(f x, [x])])"
  by (auto simp: group_by_def firsts_append filter_empty_conv) (metis imageI)

lemma group_add_present:
  "distinct (map fst groups) \<Longrightarrow> k \<in> fst ` set groups \<Longrightarrow>
   group_add k r groups = map (\<lambda>(v, g). (v, if v = k then g @ [r] else g)) groups"
proof (induction groups)
  case (Cons g groups)
  obtain v rs where g: "g = (v, rs)" by (cases g)
  show ?case
  proof (cases "v = k")
    case True
    then have "k \<notin> fst ` set groups" using Cons.prems g by (auto simp: rev_image_eqI)
    then have "map (\<lambda>(v, g). (v, if v = k then g @ [r] else g)) groups = groups"
      by (intro map_idI) (auto simp: rev_image_eqI)
    then show ?thesis using g True by simp
  qed (use Cons g in auto)
qed simp

lemma group_add_absent: "k \<notin> fst ` set groups \<Longrightarrow> group_add k r groups = groups @ [(k, [r])]"
  by (induction groups) auto

lemma firsts_empty [simp]: "firsts xs = [] \<longleftrightarrow> xs = []"
  by (cases xs) auto

lemma group_by_keys: "map fst (group_by f xs) = firsts (map f xs)"
  by (simp add: group_by_def comp_def)

lemma group_add_all: "foldl (\<lambda>gs r. group_add (f r) r gs) [] rows = group_by f rows"
proof (induction rows rule: rev_induct)
  case (snoc r rows)
  have "fst ` set (group_by f rows) = set (firsts (map f rows))" by (simp flip: group_by_keys)
  then have keys: "fst ` set (group_by f rows) = f ` set rows" "distinct (map fst (group_by f rows))"
    by (simp_all add: group_by_keys)
  show ?case
  proof (cases "f r \<in> f ` set rows")
    case True
    then show ?thesis using keys snoc by (simp add: group_by_snoc group_add_present)
  next
    case False
    then show ?thesis using keys snoc by (auto simp: group_by_snoc group_add_absent)
  qed
qed (simp add: group_by_def)

text \<open>C35: grouping puts each row in the group of its GROUP BY cells, in order of first appearance, when
  the cells are plain: no FLOAT, and no text with the character 0x1E (\<open>plain_row\<close>). Without it the
  property fails, since rows are grouped by the printed cells: doubles that agree in the digits printed
  share a group (\<open>keys_merge_doubles\<close>, \<open>vectorized.cpp\<close> line 170), and so do texts that contain the
  separator (\<open>keys_merge_texts\<close>, \<open>executor_engine.cpp\<close> line 568).\<close>

theorem groups_partition_rows:
  assumes "\<forall>r\<in>set rows. plain_row (length gcols) (group_cells gcols r)"
  shows "groups_of_rows gcols rows =
    (if gcols = [] \<and> rows = [] then [[]] else map snd (group_by (group_cells gcols) rows))"
proof -
  have "map snd (group_by (\<lambda>r. row_key (group_cells gcols r)) rows) = map snd (group_by (group_cells gcols) rows)"
    using row_keys.group_values [where n = "length gcols" and f = "group_cells gcols" and xs = rows] assms by auto
  then show ?thesis
    unfolding groups_of_rows_def Let_def group_add_all by (auto simp: group_by_def)
qed

theorem groups_partition_rows_witness:
  "groups_of_rows [0] [[VInt 1, VInt 5], [VInt 2, VInt 6], [VInt 1, VInt 7]] =
     [[[VInt 1, VInt 5], [VInt 1, VInt 7]], [[VInt 2, VInt 6]]]"
  using groups_partition_rows [of "[[VInt 1, VInt 5], [VInt 2, VInt 6], [VInt 1, VInt 7]]" "[0]"]
  by (simp add: plain_row_def plain_value_def group_cells_def group_by_def)

section \<open>Set operations on plain rows\<close>

lemma emit_rows_firsts:
  assumes "\<forall>r\<in>set rows. plain_row n r" "\<forall>r\<in>R. plain_row n r" "\<forall>r\<in>S. plain_row n r"
  shows "emit_rows w (row_key ` R) (row_key ` S) rows = filter (\<lambda>r. (r \<in> R) = w \<and> r \<notin> S) (firsts rows)"
  using assms
proof (induction rows arbitrary: S)
  case (Cons r rows)
  have mem: "row_key r \<in> row_key ` T \<longleftrightarrow> r \<in> T" if "\<forall>q\<in>T. plain_row n q" for T
    using that Cons.prems(1) row_key_inject [of n r] by auto
  have tail: "filter (\<lambda>x. (x \<in> R) = w \<and> x \<notin> S) (removeAll r (firsts rows)) =
      filter (\<lambda>x. (x \<in> R) = w \<and> x \<notin> insert r S) (firsts rows)"
    by (auto simp: removeAll_filter_not_eq intro: filter_cong)
  show ?case
  proof (cases "(r \<in> R) = w \<and> r \<notin> S")
    case True
    have "emit_rows w (row_key ` R) (insert (row_key r) (row_key ` S)) rows =
        filter (\<lambda>x. (x \<in> R) = w \<and> x \<notin> insert r S) (firsts rows)"
      using Cons.IH [of "insert r S"] Cons.prems by auto
    then show ?thesis using True tail mem [OF Cons.prems(2)] mem [OF Cons.prems(3)] by (simp add: Let_def)
  next
    case False
    have "filter (\<lambda>x. (x \<in> R) = w \<and> x \<notin> insert r S) (firsts rows) =
        filter (\<lambda>x. (x \<in> R) = w \<and> x \<notin> S) (firsts rows)"
      using False by (auto intro: filter_cong)
    then show ?thesis
      using False tail Cons.IH [of S] Cons.prems mem [OF Cons.prems(2)] mem [OF Cons.prems(3)] by (auto simp: Let_def)
  qed
qed simp

text \<open>C36: UNION, INTERSECT and EXCEPT are the set operations, in order of first appearance on the left,
  on plain rows: rows of one width with no FLOAT and no text with the character 0x1E (\<open>plain_row\<close>).
  Without it the property fails: the rows are compared by their printed cells, which agree for doubles
  that differ in later digits (\<open>keys_merge_doubles\<close>, \<open>vectorized.cpp\<close> line 170) and for texts that
  contain the separator (\<open>keys_merge_texts\<close>, \<open>executor_engine.cpp\<close> line 568).\<close>

theorem set_operations:
  assumes "\<forall>r\<in>set left. plain_row n r" "\<forall>r\<in>set right. plain_row n r"
  shows "set_op_rows op keepAll left right =
    (case op of
       OpUnion \<Rightarrow> if keepAll then left @ right else firsts (left @ right)
     | OpIntersect \<Rightarrow> filter (\<lambda>r. r \<in> set right) (firsts left)
     | OpExcept \<Rightarrow> filter (\<lambda>r. r \<notin> set right) (firsts left))"
proof -
  have "dedupeRows (left @ right) = firsts (left @ right)"
    unfolding dedupeRows_def using assms by (intro row_keys.distinct_values [of _ n]) auto
  moreover have "emit_rows w (set (map row_key right)) {} left = filter (\<lambda>r. (r \<in> set right) = w) (firsts left)" for w
    using emit_rows_firsts [of left n "set right" "{}" w] assms by simp
  ultimately show ?thesis by (cases op) (auto simp: set_op_rows_def Let_def)
qed

theorem set_operations_witness:
  "set_op_rows OpExcept False [[VInt 1], [VNull], [VInt 1], [VInt 2]] [[VInt 2]] = [[VInt 1], [VNull]]"
  using set_operations [of "[[VInt 1], [VNull], [VInt 1], [VInt 2]]" 1 "[[VInt 2]]" OpExcept False]
  by (simp add: plain_row_def plain_value_def)

section \<open>Outer joins\<close>

lemma zip_map_filter:
  "map (\<lambda>(r, b). f r) (filter snd (zip xs (map m xs))) = map f (filter m xs)"
  "map (\<lambda>(r, b). f r) (filter (\<lambda>x. \<not> snd x) (zip xs (map m xs))) = map f (filter (\<lambda>x. \<not> m x) xs)"
  by (induction xs) auto

lemma on_matches_map: "\<forall>r\<in>set right. passes on (l @ r) = Some (m r) \<Longrightarrow> on_matches on l right = Some (map m right)"
  by (induction right) auto

text \<open>The rows of one left row: its matches, or itself padded when it has none and is kept.\<close>

definition outer_rows :: "bool \<Rightarrow> nat \<Rightarrow> (row \<Rightarrow> row \<Rightarrow> bool) \<Rightarrow> row list \<Rightarrow> row \<Rightarrow> row list" where
  "outer_rows keep w m right l =
     (if keep \<and> (\<forall>r\<in>set right. \<not> m l r) then [l @ replicate w VNull] else map ((@) l) (filter (m l) right))"

lemma join_loop_rows:
  assumes "\<forall>l\<in>set left. \<forall>r\<in>set right. passes on (l @ r) = Some (m l r)"
  shows "join_loop on keep w right left (map g right) =
    Some (concat (map (outer_rows keep w m right) left), map (\<lambda>r. g r \<or> (\<exists>l\<in>set left. m l r)) right)"
  using assms
proof (induction left arbitrary: g)
  case (Cons l left)
  have ms: "on_matches on l right = Some (map (m l) right)" using Cons.prems by (intro on_matches_map) auto
  have seen: "map2 (\<or>) (map g right) (map (m l) right) = map (\<lambda>r. g r \<or> m l r) right"
    by (simp add: zip_map_map zip_same_conv_map comp_def)
  have none: "True \<notin> set (map (m l) right) \<longleftrightarrow> (\<forall>r\<in>set right. \<not> m l r)" by auto
  then have "map ((@) l) (filter (m l) right) = []" if "True \<notin> set (map (m l) right)"
    using that by (simp add: filter_empty_conv)
  then show ?case
    using Cons.IH [of "\<lambda>r. g r \<or> m l r"] Cons.prems none
    by (auto simp: ms seen zip_map_filter outer_rows_def Let_def disj_ac simp del: map_map)
qed simp

text \<open>C34: a LEFT, RIGHT or FULL join yields the pairs that satisfy ON, each unmatched row of a kept left
  side in its place and each unmatched row of a kept right side at the end, padded with NULLs.
\<close>

theorem outer_join_rows:
  assumes "kind \<in> {JLeft, JRight, JFull}"
    and "\<forall>l\<in>set left. \<forall>r\<in>set right. passes on (l @ r) = Some (m l r)"
  shows "joinTwo left lw right rw kind on =
    Some (concat (map (outer_rows (kind \<noteq> JRight) rw m right) left) @
      (if kind = JLeft then []
       else map ((@) (replicate lw VNull)) (filter (\<lambda>r. \<forall>l\<in>set left. \<not> m l r) right)))"
proof -
  have "replicate (length right) False = map (\<lambda>_. False) right" by (simp add: map_replicate_const)
  then have loop: "join_loop on keep rw right left (replicate (length right) False) =
      Some (concat (map (outer_rows keep rw m right) left), map (\<lambda>r. \<exists>l\<in>set left. m l r) right)" for keep
    using join_loop_rows [OF assms(2), of keep rw "\<lambda>_. False"] by simp
  have "joinTwo left lw right rw kind on = nested_join left lw right rw kind on"
    using assms(1) by (auto simp: joinTwo_def split: prod.split)
  also have "\<dots> = Some (concat (map (outer_rows (kind = JLeft \<or> kind = JFull) rw m right) left) @
      (if kind = JRight \<or> kind = JFull
       then map ((@) (replicate lw VNull)) (filter (\<lambda>r. \<forall>l\<in>set left. \<not> m l r) right) else []))"
    by (simp add: nested_join_def loop zip_map_filter)
  finally show ?thesis using assms(1) by auto
qed

theorem outer_join_rows_witness:
  "joinTwo [[VInt 1], [VInt 2]] 1 [[VInt 2], [VInt 3]] 1 JFull
     (Some (BinaryExpr None Eq (ColumnRef (Col None [] [] [] None 0 False None)) (ColumnRef (Col None [] [] [] None 1 False None)))) =
   Some [[VInt 1, VNull], [VInt 2, VInt 2], [VNull, VInt 3]]"
  by (subst outer_join_rows [where m = "\<lambda>l r. l = r"])
     (simp_all add: passes_def predicateTrue_def column_val_def compare_val_def compareValues_def outer_rows_def)

section \<open>Inner equality joins\<close>

definition on_pairs :: "expr option \<Rightarrow> row list \<Rightarrow> row list \<Rightarrow> row list" where
  "on_pairs on left right = concat (map (\<lambda>l. map ((@) l) (filter (\<lambda>r. passes on (l @ r) = Some True) right)) left)"

definition own_columns :: "expr option \<Rightarrow> bool" where
  "own_columns on \<longleftrightarrow> (\<forall>ty a b. on = Some (BinaryExpr ty Eq (ColumnRef a) (ColumnRef b)) \<longrightarrow> \<not> outerRef a \<and> \<not> outerRef b)"

lemma passes_equality:
  assumes "equi_keys on lw = (int lk, int rk)" "own_columns on" "length l = lw" "rk < length r"
  shows "passes on (l @ r) = Some (joins lk rk l r)"
proof -
  obtain ty a b where on: "on = Some (BinaryExpr ty Eq (ColumnRef a) (ColumnRef b))"
    using assms(1) unfolding equi_keys_def
    by (auto split: option.splits expr.splits comparison_op.splits)
  have own: "\<not> outerRef a" "\<not> outerRef b" using assms(2) on by (auto simp: own_columns_def)
  have flip: "compareValues v w = Some 0 \<longleftrightarrow> compareValues w v = Some 0" for v w
    by (subst compareValues_flip) auto
  have eq: "compare_val Eq v w = VBool True \<longleftrightarrow> compareValues v w = Some 0" for v w
    by (auto simp: compare_val_def split: option.split)
  consider "columnIndex a = int lk" "columnIndex b = int lw + int rk" "lk < lw"
    | "columnIndex b = int lk" "columnIndex a = int lw + int rk" "lk < lw"
    using assms(1) on by (auto simp: equi_keys_def Let_def split: if_splits)
  then show ?thesis
  proof cases
    case 1
    then have "column_val a (l @ r) = l ! lk" "column_val b (l @ r) = r ! rk"
      using own assms(3,4) by (auto simp: column_val_def nth_append nat_add_distrib)
    then show ?thesis by (simp add: on passes_def predicateTrue_def joins_def eq)
  next
    case 2
    then have "column_val b (l @ r) = l ! lk" "column_val a (l @ r) = r ! rk"
      using own assms(3,4) by (auto simp: column_val_def nth_append nat_add_distrib)
    then show ?thesis by (simp add: on passes_def predicateTrue_def joins_def eq) (simp add: flip)
  qed
qed

lemma on_pairs_nested_loop:
  assumes "equi_keys on lw = (int lk, int rk)" "own_columns on" "\<forall>l\<in>set left. length l = lw" "\<forall>r\<in>set right. rk < length r"
  shows "on_pairs on left right = nested_loop lk rk left right"
  unfolding on_pairs_def nested_loop_def
  using passes_equality [OF assms(1,2)] assms(3,4)
  by (intro arg_cong [where f = concat] map_cong refl arg_cong [where f = "map _"] filter_cong) auto

text \<open>C33: whichever algorithm the cost model picks, an inner equality join yields the pairs that satisfy
  ON, when the two key columns hold values of one class that can be hashed: NULL, texts, booleans, or
  integers of at most 2^53 in size, and no FLOAT (\<open>in_class\<close>, \<open>hashable\<close>). Without it the property
  fails: an INT and a FLOAT that are equal do not meet in the hash join (\<open>hash_join_misses_equal\<close>,
  \<open>executor_engine.cpp\<close> line 349). The columns of ON are the query's own, the rows can be spilled to
  the runs of the merge join and read back (\<open>spillable\<close>), and the priority queue of the merge picks a
  least row of its heap.\<close>

theorem inner_join_rows:
  assumes keys: "equi_keys on lw = (int lk, int rk)" "own_columns on"
    and left: "\<forall>l\<in>set left. length l = lw \<and> spillable l \<and> in_class k (l ! lk) \<and> hashable (l ! lk)"
    and right: "\<forall>r\<in>set right. rk < length r \<and> spillable r \<and> in_class k (r ! rk) \<and> hashable (r ! rk)"
    and pick: "picks_least (sort_row (\<lambda>_. k) [lk]) (\<lambda>a b. rowLess a b [lk] [True]) (pick [lk] [True])"
      "picks_least (sort_row (\<lambda>_. k) [rk]) (\<lambda>a b. rowLess a b [rk] [True]) (pick [rk] [True])"
  shows "\<exists>out. joined_rows pick budget left lw right rw JInner on = Some out \<and> mset out = mset (on_pairs on left right)"
proof -
  have ref: "on_pairs on left right = nested_loop lk rk left right"
    using on_pairs_nested_loop [OF keys] left right by auto
  have hash: "hash_join lk rk left right = nested_loop lk rk left right"
    using left right by (intro hash_join_nested_loop) auto
  obtain out where "mergeJoinInner pick left lk right rk 100000 = Some out"
      "mset out = mset (nested_loop lk rk left right)"
    using merge_join_equals_nested_loop [of left k lk right rk pick 100000] left right pick by auto
  then show ?thesis by (cases "chooseEquiJoin budget (length left) (length right)") (simp_all add: joined_rows_def keys hash ref)
qed

theorem inner_join_rows_witness:
  "\<exists>out. joined_rows queue 0 [[VInt 1], [VInt 2]] 1 [[VInt 2], [VNull]] 1 JInner
     (Some (BinaryExpr None Eq (ColumnRef (Col None [] [] [] None 0 False None)) (ColumnRef (Col None [] [] [] None 1 False None)))) =
     Some out \<and> mset out = {#[VInt 2, VInt 2]#}"
proof -
  let ?on = "Some (BinaryExpr None Eq (ColumnRef (Col None [] [] [] None 0 False None)) (ColumnRef (Col None [] [] [] None 1 False None)))"
  have "on_pairs ?on [[VInt 1], [VInt 2]] [[VInt 2], [VNull]] = [[VInt 2, VInt 2]]"
    by (simp add: on_pairs_def passes_def predicateTrue_def column_val_def compare_val_def compareValues_def)
  then show ?thesis
    using inner_join_rows [of ?on 1 0 0 "[[VInt 1], [VInt 2]]" NumClass "[[VInt 2], [VNull]]" queue 0 1]
    by (simp add: equi_keys_def own_columns_def spillable_def short_texts_def queue_picks_least)
qed

section \<open>The columnar path and the row path\<close>

lemma literal_term_cases:
  assumes "literal_term op l r = Some (c, op', v)"
  shows "(\<exists>t. l = ColumnRef c \<and> r = LiteralExpr t v \<and> op' = op) \<or> (\<exists>t. r = ColumnRef c \<and> l = LiteralExpr t v \<and> op' = flipOp op)"
  using assms by (auto simp: literal_term_def column_literal_def split: option.splits expr.splits)

lemma flip_result: "compare_result (flipOp op) c = compare_result op (- c)"
  by (cases op) auto

lemma term_value:
  assumes "literal_term op l r = Some (c, op', v)" "\<not> outerRef c" "0 \<le> columnIndex c"
  shows "evalExpression (BinaryExpr ty op l r) row =
    Some (case compareValues (at_or_null row (nat (columnIndex c))) v of None \<Rightarrow> VNull | Some x \<Rightarrow> VBool (compare_result op' x))"
proof -
  have val: "column_val c row = at_or_null row (nat (columnIndex c))"
    using assms(2,3) by (auto simp: column_val_def at_or_null_def nat_less_iff not_le)
  have flip: "compareValues v w = map_option uminus (compareValues w v)" for v w by (rule compareValues_flip)
  show ?thesis
    using literal_term_cases [OF assms(1)]
    by (auto simp: val compare_val_def flip_result flip [of v] option.case_eq_if map_option_case split: option.splits)
qed

text \<open>A translated clause is true exactly on the rows that its terms let through; it is never not evaluated.\<close>

lemma translated_clause:
  "buildVecPredicate e out = Some pred \<Longrightarrow>
   \<exists>p v. pred = out @ p \<and> evalExpression e row = Some v \<and> v \<in> {VNull, VBool True, VBool False} \<and>
     (v = VBool True \<longleftrightarrow> row_passes (Some p) row)"
proof (induction e out arbitrary: pred rule: buildVecPredicate.induct)
  case (1 ty op l r out)
  then obtain mid where op: "op = OpAnd" and l: "buildVecPredicate l out = Some mid" and r: "buildVecPredicate r mid = Some pred"
    by (auto split: if_splits bind_splits)
  obtain p v where p: "mid = out @ p" "evalExpression l row = Some v" "v \<in> {VNull, VBool True, VBool False}"
      "v = VBool True \<longleftrightarrow> row_passes (Some p) row"
    using 1(1) [OF _ l] op by auto
  obtain q w where q: "pred = mid @ q" "evalExpression r row = Some w" "w \<in> {VNull, VBool True, VBool False}"
      "w = VBool True \<longleftrightarrow> row_passes (Some q) row"
    using 1(2) [OF _ l r] op by auto
  have "and_val v w \<in> {VNull, VBool True, VBool False}" "and_val v w = VBool True \<longleftrightarrow> v = VBool True \<and> w = VBool True"
    using p(3) q(3) by (auto simp: and_val_def)
  then show ?case using p q op by (intro exI [of _ "p @ q"]) (auto simp: row_passes_def)
next
  case (2 ty op l r out)
  then obtain c op' v where t: "literal_term op l r = Some (c, op', v)" "\<not> outerRef c" "0 \<le> columnIndex c"
      and pred: "pred = out @ [\<lparr>term_column = columnIndex c, term_op = op', term_literal = v\<rparr>]"
    by (auto split: option.splits if_splits)
  show ?case unfolding term_value [OF t] pred
    by (auto simp: row_passes_def value_passes_def split: option.split)
qed auto

lemma row_of_fn_values:
  "\<not> fn_distinct fn \<Longrightarrow> 0 \<le> fn_column fn \<Longrightarrow>
   fn_values fn rows = filter (\<lambda>v. \<not> isNull v) (map (\<lambda>r. at_or_null r (nat (fn_column fn))) rows)"
  by (induction rows) (auto simp: fn_values_def at_or_null_def nat_less_iff not_le Let_def)

lemma sum_values:
  assumes "kind = SumOf \<or> kind = AvgOf" "\<forall>v\<in>set vs. \<not> isNull v"
  shows "foldl (\<lambda>a v. gAccumulate a kind v) a vs =
    (case foldl sum_step (acc_isum a, acc_dsum a, acc_isFloat a) vs of (i, d, f) \<Rightarrow>
       a\<lparr>acc_count := acc_count a + word_of_nat (length vs), acc_isum := i, acc_dsum := d, acc_isFloat := f\<rparr>)"
  using assms(2)
proof (induction vs arbitrary: a)
  case (Cons v vs)
  have step: "gAccumulate a kind v =
    (case sum_step (acc_isum a, acc_dsum a, acc_isFloat a) v of (i, d, f) \<Rightarrow>
       a\<lparr>acc_count := acc_count a + 1, acc_isum := i, acc_dsum := d, acc_isFloat := f\<rparr>)"
    using assms(1) Cons.prems by (cases v) (auto simp: gAccumulate_def add_number_def sum_step_def)
  obtain i d f where s: "sum_step (acc_isum a, acc_dsum a, acc_isFloat a) v = (i, d, f)" by (metis prod_cases3)
  show ?case using Cons.IH [of "gAccumulate a kind v"] Cons.prems
    by (simp add: step s split: prod.split)
qed simp

lemma best_values:
  assumes "kind = MinOf \<and> name = ''MIN'' \<or> kind = MaxOf \<and> name = ''MAX''" "\<forall>v\<in>set vs. \<not> isNull v"
    "acc_hasBest a \<longleftrightarrow> \<not> isNull (acc_best a)"
  shows "foldl (\<lambda>a v. gAccumulate a kind v) a vs =
    (let b = foldl (best_step name) (acc_best a) vs in a\<lparr>acc_best := b, acc_hasBest := \<not> isNull b\<rparr>)"
  using assms(2,3)
proof (induction vs arbitrary: a)
  case (Cons v vs)
  have step: "gAccumulate a kind v = (let b = best_step name (acc_best a) v in a\<lparr>acc_best := b, acc_hasBest := \<not> isNull b\<rparr>)"
    using assms(1) Cons.prems
    by (auto simp: gAccumulate_def better_def best_step_def Let_def split: option.split)
  show ?case using Cons.IH [of "gAccumulate a kind v"] Cons.prems by (simp add: step Let_def)
qed (simp add: Let_def)

lemma count_values:
  "foldl (\<lambda>a v. gAccumulate a CountOf v) a (filter (\<lambda>v. \<not> isNull v) vs) =
     a\<lparr>acc_count := acc_count a + word_of_nat (length (filter (\<lambda>v. \<not> isNull v) vs))\<rparr>"
  by (induction vs arbitrary: a) (simp_all add: gAccumulate_def)

lemma count_rows: "foldl (\<lambda>a v. gAccumulate a CountStar v) a vs = a\<lparr>acc_count := acc_count a + word_of_nat (length vs)\<rparr>"
  by (induction vs arbitrary: a) (simp_all add: gAccumulate_def)

lemma skip_nulls:
  "kind \<noteq> CountStar \<Longrightarrow>
   foldl (\<lambda>a v. gAccumulate a kind v) a vs = foldl (\<lambda>a v. gAccumulate a kind v) a (filter (\<lambda>v. \<not> isNull v) vs)"
  by (induction vs arbitrary: a) (simp_all add: gAccumulate_def)

lemma accumulate_values:
  "accumulate_all agg rows =
     foldl (\<lambda>a v. gAccumulate a (agg_kind agg) v) acc_new (map (\<lambda>r. at_or_null r (nat (agg_column agg))) rows)"
  by (simp add: accumulate_all_def foldl_map)

lemma vectorizable_aggregate:
  assumes "fn_vectorizable fn"
  shows "row_aggregate (vec_aggregate_of fn) rows = computeAggregate fn rows"
proof (cases "fn_name fn = ''COUNT'' \<and> fn_star fn")
  case True
  then show ?thesis using assms
    by (simp add: row_aggregate_def accumulate_values vec_aggregate_of_def computeAggregate_def count_rows gFinalize_def
        acc_new_def fn_vectorizable_def)
next
  case False
  then have fn: "\<not> fn_distinct fn" "0 \<le> fn_column fn" "fn_name fn \<in> {''COUNT'', ''SUM'', ''AVG'', ''MIN'', ''MAX''}"
    using assms by (auto simp: fn_vectorizable_def)
  define vs where "vs = fn_values fn rows"
  have vs: "vs = filter (\<lambda>v. \<not> isNull v) (map (\<lambda>r. at_or_null r (nat (fn_column fn))) rows)"
    using row_of_fn_values [OF fn(1,2)] by (simp add: vs_def)
  then have solid: "\<forall>v\<in>set vs. \<not> isNull v" by auto
  define kind where "kind = agg_kind (vec_aggregate_of fn)"
  have col: "agg_column (vec_aggregate_of fn) = fn_column fn" "kind \<noteq> CountStar"
    using False by (auto simp: vec_aggregate_of_def kind_def)
  have acc: "accumulate_all (vec_aggregate_of fn) rows = foldl (\<lambda>a v. gAccumulate a kind v) acc_new vs"
    unfolding accumulate_values col vs using skip_nulls [OF col(2)] by (simp add: kind_def)
  consider "fn_name fn = ''COUNT''" "kind = CountOf" | "fn_name fn \<in> {''SUM'', ''AVG''}" "kind = (if fn_name fn = ''SUM'' then SumOf else AvgOf)"
    | "fn_name fn \<in> {''MIN'', ''MAX''}" "kind = (if fn_name fn = ''MIN'' then MinOf else MaxOf)"
    using fn(3) False by (auto simp: kind_def vec_aggregate_of_def)
  then show ?thesis
  proof cases
    case 1
    then show ?thesis using False acc count_values [of acc_new vs] solid
      by (simp add: row_aggregate_def kind_def [symmetric] gFinalize_def computeAggregate_def vs_def [symmetric] acc_new_def
          filter_id_conv [THEN iffD2])
  next
    case 2
    obtain i d f where s: "foldl sum_step (0, f_zero False, False) vs = (i, d, f)" by (metis prod_cases3)
    have "accumulate_all (vec_aggregate_of fn) rows =
        acc_new\<lparr>acc_count := word_of_nat (length vs), acc_isum := i, acc_dsum := d, acc_isFloat := f\<rparr>"
      unfolding acc using 2 solid s by (subst sum_values) (auto simp: acc_new_def)
    then show ?thesis using 2 s
      by (auto simp: row_aggregate_def kind_def [symmetric] gFinalize_def computeAggregate_def vs_def [symmetric] Let_def)
  next
    case 3
    then have "accumulate_all (vec_aggregate_of fn) rows =
        (let b = foldl (best_step (fn_name fn)) VNull vs in acc_new\<lparr>acc_best := b, acc_hasBest := \<not> isNull b\<rparr>)"
      unfolding acc using solid by (subst best_values [where name = "fn_name fn"]) (auto simp: acc_new_def)
    then show ?thesis using 3
      by (auto simp: row_aggregate_def kind_def [symmetric] gFinalize_def computeAggregate_def vs_def [symmetric] Let_def)
  qed
qed

lemma kept_rows:
  assumes "buildVecPredicate e [] = Some pred"
  shows "keep_rows (Some e) rows = Some (filter (row_passes (Some pred)) rows)"
proof (induction rows)
  case (Cons r rows)
  then show ?case using translated_clause [OF assms, of r] by (auto simp: passes_def predicateTrue_def)
qed simp

definition vec_where :: "expr option \<Rightarrow> vec_predicate option option" where
  "vec_where whr = (case whr of None \<Rightarrow> Some None | Some e \<Rightarrow> map_option Some (buildVecPredicate e []))"

text \<open>C32: an aggregate query over a table gives the same values by the columnar scan with its skipped
  blocks and by filtering the rows with WHERE and computing each aggregate over them, when each column
  that WHERE compares and the literal it is compared with are of one class: texts, booleans, or numbers
  that are integers of at most 2^53 in size or doubles other than NaN (\<open>pred_classed\<close>). Without it the
  property fails: a block whose column has a NaN may be skipped (\<open>zone_skips_after_nan\<close>,
  \<open>column_store.cpp\<close> line 66). The rows decode by the schema, WHERE and the aggregates are of the
  columnar form over columns of the table (\<open>vec_where\<close>, \<open>pred_ok\<close>, \<open>fn_vectorizable\<close>), and the table
  is not in the column cache yet, which a change to the data empties.
\<close>

theorem columnar_query_equals_row_query:
  assumes "tm_inv t" "decode_rows sch (table_rows t tid) = Some rows" "cs tid = None"
    and "\<forall>fn\<in>set fns. fn_vectorizable fn \<and> fn_column fn < int (length sch)"
    and "vec_where whr = Some pred" "pred_ok (length sch) pred" "pred_classed (map fst rows) pred"
  shows "\<exists>t' tc kept. getOrBuild cs t tid sch = Some (t', Inr (cs(tid \<mapsto> tc), tc)) \<and>
    keep_rows whr (map fst rows) = Some kept \<and>
    columnarAggregate tc (map vec_aggregate_of fns) pred = map (\<lambda>fn. computeAggregate fn kept) fns"
proof -
  have aggs: "\<forall>agg\<in>set (map vec_aggregate_of fns). agg_ok (length sch) agg"
    using assms(4) by (auto simp: agg_ok_def vec_aggregate_of_def fn_vectorizable_def)
  obtain t' tc where tc: "getOrBuild cs t tid sch = Some (t', Inr (cs(tid \<mapsto> tc), tc))"
      "columnarAggregate tc (map vec_aggregate_of fns) pred =
       map (\<lambda>agg. row_aggregate agg (filter (row_passes pred) (map fst rows))) (map vec_aggregate_of fns)"
    using columnar_aggregate_exact [of t sch tid rows cs pred, OF assms(1-3,6) aggs assms(7)] by blast
  have kept: "keep_rows whr (map fst rows) = Some (filter (row_passes pred) (map fst rows))"
  proof (cases whr)
    case None
    have "keep_rows None rs = Some rs" for rs by (induction rs) (simp_all add: passes_def)
    then show ?thesis using None assms(5) by (simp add: vec_where_def row_passes_def)
  next
    case (Some e)
    then show ?thesis using assms(5) kept_rows by (auto simp: vec_where_def)
  qed
  show ?thesis using tc kept assms(4) by (auto simp: vectorizable_aggregate)
qed

theorem columnar_query_equals_row_query_witness:
  "\<exists>t t' tc kept. getOrBuild Map.empty t 1 [DInt] = Some (t', Inr ([1 \<mapsto> tc], tc)) \<and>
     keep_rows (Some (BinaryExpr None Geq (LiteralExpr None (VInt 7)) (ColumnRef (Col None [] [] [] None 0 False None)))) [[VInt 7]] = Some kept \<and>
     columnarAggregate tc (map vec_aggregate_of [Fn None ''SUM'' False False (Some (Col None [] [] [] None 0 False None)) []])
       (Some [\<lparr>term_column = 0, term_op = Leq, term_literal = VInt 7\<rparr>]) = [VInt 7]"
proof -
  define b where "b = serialize [VInt 7] [DInt]"
  have d: "deserialize b [DInt] = Inr [VInt 7]"
    using deserialize_serialize [of "[DInt]" "[VInt 7]"]
    by (simp add: b_def short_texts_def stored_row_def at_or_null_def upt_rec)
  have "b \<noteq> []" using d by (auto simp: deserialize_def)
  moreover have "length b < 4000"
    by (simp add: b_def serialize_def at_or_null_def upt_rec null_bitmap_spec)
  ultimately obtain t r where t: "tm_inv t" "table_rows t 1 = [(r, b)]"
    using one_record [of b 1] by (auto simp: storable_def)
  have rows: "decode_rows [DInt] (table_rows t 1) = Some [([VInt 7], r)]" by (simp add: t d)
  let ?c = "Col None [] [] [] None 0 False None"
  let ?fn = "Fn None ''SUM'' False False (Some ?c) []"
  let ?e = "BinaryExpr None Geq (LiteralExpr None (VInt 7)) (ColumnRef ?c)"
  let ?p = "Some [\<lparr>term_column = 0, term_op = Leq, term_literal = VInt 7\<rparr>]"
  have sum: "computeAggregate ?fn [[VInt 7]] = VInt 7"
    by (simp add: computeAggregate_def fn_values_def fn_column_def sum_step_def)
  have kept: "keep_rows (Some ?e) [[VInt 7]] = Some [[VInt 7]]"
    by (simp add: passes_def predicateTrue_def compare_val_def compareValues_def column_val_def)
  show ?thesis
    using columnar_query_equals_row_query [OF t(1) rows, of Map.empty "[?fn]" "Some ?e" ?p] sum kept
    by (auto simp: fn_vectorizable_def fn_column_def vec_where_def literal_term_def column_literal_def pred_ok_def
        pred_classed_def at_or_null_def intro!: exI [of _ NumClass])
qed

end
