(* ===== verification/Window.thy ===== *)
theory Window
  imports Query
begin

text \<open>
  \<open>runWindowQuery\<close> of \<open>src/src/vm/executor_engine.cpp\<close>: window functions over the rows of a query,
  which the code numbers from 0. A partition is the list of its rows' numbers.
\<close>

section \<open>Partitions\<close>

definition part_cells :: "column_ref list \<Rightarrow> row \<Rightarrow> val list" where
  "part_cells partitionBy r = map (\<lambda>c. r ! nat (columnIndex c)) partitionBy"

definition partitions :: "column_ref list \<Rightarrow> row list \<Rightarrow> nat list list" where
  "partitions partitionBy rows =
     map snd (foldl (\<lambda>gs i. group_add (row_key (part_cells partitionBy (rows ! i))) i gs) [] [0..<length rows])"

definition sameOrder :: "(column_ref \<times> bool) list \<Rightarrow> row list \<Rightarrow> nat \<Rightarrow> nat \<Rightarrow> bool" where
  "sameOrder keys rows a b \<longleftrightarrow>
     (\<forall>k\<in>set keys. let c = nat (columnIndex (fst k)); va = rows ! a ! c; vb = rows ! b ! c
       in \<not> (valueLess va vb \<or> valueLess vb va))"

definition order_partition :: "(column_ref \<times> bool) list \<Rightarrow> row list \<Rightarrow> nat list \<Rightarrow> nat list" where
  "order_partition keys rows idxs =
     (if keys = [] then idxs else stable_sort (\<lambda>a b. order_less keys (rows ! a) (rows ! b)) idxs)"

section \<open>The functions\<close>

text \<open>\<open>(rank, dense)\<close> of each member; \<open>before\<close> is the member before the next one, at position \<open>r\<close>.\<close>

fun rank_loop :: "(nat \<Rightarrow> nat \<Rightarrow> bool) \<Rightarrow> nat \<Rightarrow> nat option \<Rightarrow> nat \<times> nat \<Rightarrow> nat list \<Rightarrow> (nat \<times> nat) list" where
  "rank_loop same r prior rd [] = []"
| "rank_loop same r prior rd (i # idxs) =
     (let rd = (case prior of
          Some p \<Rightarrow> if same p i then rd else (Suc r, Suc (snd rd))
        | None \<Rightarrow> (Suc r, Suc (snd rd)))
      in rd # rank_loop same (Suc r) (Some i) rd idxs)"

record win_acc =
  w_dsum :: dbl
  w_isum :: i64
  w_cnt :: i64
  w_isFloat :: bool
  w_best :: val

definition win_new :: win_acc where
  "win_new = \<lparr>w_dsum = f_zero False, w_isum = 0, w_cnt = 0, w_isFloat = False, w_best = VNull\<rparr>"

definition win_step :: "string \<Rightarrow> int \<Rightarrow> row \<Rightarrow> win_acc \<Rightarrow> win_acc" where
  "win_step name argCol r w =
     (if argCol < 0 then w\<lparr>w_cnt := w_cnt w + 1\<rparr>
      else let v = r ! nat argCol in
        if isNull v then w
        else let w = w\<lparr>w_cnt := w_cnt w + 1\<rparr>;
                 w = (case v of
                        VDouble d \<Rightarrow> w\<lparr>w_isFloat := True, w_dsum := f_add (w_dsum w) d\<rparr>
                      | VInt i \<Rightarrow> w\<lparr>w_isum := w_isum w + i\<rparr>
                      | _ \<Rightarrow> w)
             in w\<lparr>w_best := best_step name (w_best w) v\<rparr>)"

definition win_value :: "string \<Rightarrow> win_acc \<Rightarrow> val" where
  "win_value name w =
     (if name = ''COUNT'' then VInt (w_cnt w)
      else if name = ''SUM'' then
        (if w_isFloat w then VDouble (f_add (w_dsum w) (f_of_int (sint (w_isum w)))) else VInt (w_isum w))
      else if name = ''AVG'' then
        (if w_cnt w = 0 then VNull
         else VDouble (f_div (f_add (w_dsum w) (f_of_int (sint (w_isum w)))) (f_of_int (sint (w_cnt w)))))
      else w_best w)"

text \<open>What the members of an ordered partition are given.\<close>

definition member_values ::
  "string \<Rightarrow> column_ref option \<Rightarrow> (column_ref \<times> bool) list \<Rightarrow> row list \<Rightarrow> nat list \<Rightarrow> val list" where
  "member_values name argument keys rows idxs =
     (if name = ''ROW_NUMBER'' then map (\<lambda>r. VInt (word_of_nat r + 1)) [0..<length idxs]
      else if name = ''RANK'' \<or> name = ''DENSE_RANK'' then
        map (\<lambda>(rank, dense). VInt (word_of_nat (if name = ''RANK'' then rank else dense)))
          (rank_loop (sameOrder keys rows) 0 None (0, 0) idxs)
      else
        let argCol = (case argument of Some c \<Rightarrow> columnIndex c | None \<Rightarrow> - 1)
        in replicate (length idxs) (win_value name (foldl (\<lambda>w i. win_step name argCol (rows ! i) w) win_new idxs)))"

definition store_values :: "nat list \<Rightarrow> val list \<Rightarrow> val list \<Rightarrow> val list" where
  "store_values idxs vals result = foldl (\<lambda>res (i, v). res[i := v]) result (zip idxs vals)"

text \<open>The column of a window function, and no values for another column.\<close>

definition window_column :: "expr option \<Rightarrow> row list \<Rightarrow> val list" where
  "window_column e rows =
     (case e of
        Some (WindowExpr _ name argument partitionBy keys) \<Rightarrow>
          foldl (\<lambda>res part. let idxs = order_partition keys rows part
                   in store_values idxs (member_values name argument keys rows idxs) res)
            (replicate (length rows) VNull) (partitions partitionBy rows)
      | _ \<Rightarrow> [])"

section \<open>The query\<close>

definition window_cell :: "row list \<Rightarrow> nat \<Rightarrow> column_ref \<times> val list \<Rightarrow> val option" where
  "window_cell rows i = (\<lambda>(c, win). if win \<noteq> [] then Some (win ! i) else output_cell (rows ! i) c)"

definition window_order :: "(column_ref \<times> bool) list \<Rightarrow> row list \<Rightarrow> nat list" where
  "window_order keys rows =
     (let order = [0..<length rows]
      in if keys = [] then order else stable_sort (\<lambda>a b. order_less keys (rows ! a) (rows ! b)) order)"

definition runWindowQuery :: "select \<Rightarrow> row list \<Rightarrow> row list option" where
  "runWindowQuery q rows =
     (let cols = map (\<lambda>c. (c, window_column (computed c) rows)) (sel_columns q)
      in map_option (finish_rows q)
           (collect (\<lambda>i. collect (window_cell rows i) cols) (window_order (orderBy q) rows)))"

section \<open>ROW_NUMBER\<close>

lemma foldl_store:
  "distinct (map fst ps) \<Longrightarrow> i < length res \<Longrightarrow>
   foldl (\<lambda>res (i, v). res[i := v]) res ps ! i = (case map_of ps i of None \<Rightarrow> res ! i | Some v \<Rightarrow> v)"
proof (induction ps arbitrary: res)
  case (Cons p ps)
  obtain j v where p: "p = (j, v)" by (cases p)
  have "map_of ps j = None" using Cons.prems(1) p by (auto simp: map_of_eq_None_iff)
  then show ?case using Cons.IH [of "res[j := v]"] Cons.prems p by (auto split: option.split)
qed simp

lemma foldl_store_length [simp]: "length (foldl (\<lambda>res (i, v). res[i := v]) res ps) = length res"
  by (induction ps arbitrary: res) auto

lemma store_values_length [simp]: "length (store_values idxs vals res) = length res"
  by (simp add: store_values_def)

lemma store_values_at:
  assumes "distinct idxs" "length vals = length idxs" "set idxs \<subseteq> {..<length res}"
  shows "map ((!) (store_values idxs vals res)) idxs = vals"
    and "i \<notin> set idxs \<Longrightarrow> i < length res \<Longrightarrow> store_values idxs vals res ! i = res ! i"
proof -
  have d: "distinct (map fst (zip idxs vals))" using assms by simp
  have "store_values idxs vals res ! (idxs ! k) = vals ! k" if "k < length idxs" for k
  proof -
    have "map_of (zip idxs vals) (idxs ! k) = Some (vals ! k)"
      using assms that by (intro map_of_is_SomeI) (auto simp: set_zip)
    then show ?thesis using foldl_store [OF d, of "idxs ! k" res] assms(3) nth_mem [OF that]
      by (auto simp: store_values_def)
  qed
  then show "map ((!) (store_values idxs vals res)) idxs = vals" using assms(2) by (auto intro: nth_equalityI)
  assume i: "i \<notin> set idxs" "i < length res"
  then have "map_of (zip idxs vals) i = None" using assms(2) by (simp add: map_of_zip_is_None)
  then show "store_values idxs vals res ! i = res ! i" using foldl_store [OF d i(2)] by (simp add: store_values_def)
qed

text \<open>Every partition keeps its values, for the partitions do not meet.\<close>

lemma store_partitions:
  assumes "\<forall>p\<in>set parts. distinct (f p) \<and> set (f p) = set p \<and> set p \<subseteq> {..<length res} \<and> length (g p) = length (f p)"
    and "pairwise (\<lambda>p q. set p \<inter> set q = {}) (set parts)" "distinct parts"
  shows "\<forall>p\<in>set parts. map ((!) (foldl (\<lambda>res p. store_values (f p) (g p) res) res parts)) (f p) = g p"
  using assms
proof (induction parts rule: rev_induct)
  case (snoc p parts)
  let ?res = "foldl (\<lambda>res p. store_values (f p) (g p) res) res parts"
  have len: "length ?res = length res" by (induction parts rule: rev_induct) auto
  have IH: "\<forall>q\<in>set parts. map ((!) ?res) (f q) = g q"
    using snoc by (auto simp: pairwise_insert)
  have "map ((!) (store_values (f p) (g p) ?res)) (f q) = g q" if q: "q \<in> set parts" for q
  proof -
    have "set q \<inter> set p = {}" using snoc.prems(2,3) q by (auto simp: pairwise_insert)
    then have "store_values (f p) (g p) ?res ! i = ?res ! i" if "i \<in> set (f q)" for i
      using snoc.prems(1) q that len by (intro store_values_at(2)) auto
    then show ?thesis using IH q by (auto cong: map_cong)
  qed
  moreover have "map ((!) (store_values (f p) (g p) ?res)) (f p) = g p"
    using snoc.prems(1) len by (intro store_values_at(1)) auto
  ultimately show ?case by auto
qed simp

lemma group_by_members: "p \<in> set (map snd (group_by f xs)) \<longleftrightarrow> (\<exists>v\<in>f ` set xs. p = filter (\<lambda>x. f x = v) xs)"
  by (auto simp: group_by_def)

lemma group_by_distinct: "distinct (map snd (group_by f xs))"
proof -
  have "inj_on (\<lambda>v. filter (\<lambda>x. f x = v) xs) (set (firsts (map f xs)))"
  proof (rule inj_onI)
    fix v w assume v: "v \<in> set (firsts (map f xs))" and eq: "filter (\<lambda>x. f x = v) xs = filter (\<lambda>x. f x = w) xs"
    obtain y where "y \<in> set (filter (\<lambda>x. f x = v) xs)" "f y = v" using v by auto
    then show "v = w" unfolding eq by simp
  qed
  then show ?thesis by (simp add: group_by_def comp_def distinct_map)
qed

lemma partitions_spec:
  assumes "\<forall>r\<in>set rows. plain_row (length pb) (part_cells pb r)"
  shows "partitions pb rows = map snd (group_by (\<lambda>i. part_cells pb (rows ! i)) [0..<length rows])"
  using row_keys.group_values [where n = "length pb" and f = "\<lambda>i. part_cells pb (rows ! i)" and xs = "[0..<length rows]"] assms
  by (simp add: partitions_def group_add_all)

lemma rank_loop_length [simp]: "length (rank_loop same r prior rd idxs) = length idxs"
  by (induction same r prior rd idxs rule: rank_loop.induct) (auto simp: Let_def)

lemma member_values_length [simp]: "length (member_values name argument keys rows idxs) = length idxs"
  by (simp add: member_values_def Let_def)

lemma window_values:
  assumes "\<forall>r\<in>set rows. plain_row (length pb) (part_cells pb r)"
    and p: "p \<in> set (map snd (group_by (\<lambda>i. part_cells pb (rows ! i)) [0..<length rows]))"
  shows "map ((!) (window_column (Some (WindowExpr ty name argument pb keys)) rows)) (order_partition keys rows p) =
    member_values name argument keys rows (order_partition keys rows p)"
proof -
  define parts where "parts = map snd (group_by (\<lambda>i. part_cells pb (rows ! i)) [0..<length rows])"
  have perm: "mset (order_partition keys rows q) = mset q" for q by (simp add: order_partition_def)
  then have ord: "set (order_partition keys rows q) = set q" "distinct (order_partition keys rows q) \<longleftrightarrow> distinct q" for q
    by (metis mset_eq_setD) (metis perm mset_eq_imp_distinct_iff)
  have "\<forall>q\<in>set parts. distinct q \<and> set q \<subseteq> {..<length rows}" by (auto simp: parts_def group_by_def)
  moreover have "pairwise (\<lambda>p q. set p \<inter> set q = {}) (set parts)" "distinct parts"
    using group_by_distinct by (auto simp: parts_def pairwise_def group_by_def)
  ultimately have "\<forall>q\<in>set parts. map ((!) (foldl (\<lambda>res q. store_values (order_partition keys rows q)
        (member_values name argument keys rows (order_partition keys rows q)) res) (replicate (length rows) VNull) parts))
      (order_partition keys rows q) = member_values name argument keys rows (order_partition keys rows q)"
    by (intro store_partitions) (simp_all add: ord)
  moreover have "p \<in> set parts" using p by (simp add: parts_def)
  ultimately show ?thesis
    by (simp add: window_column_def partitions_spec [OF assms(1)] Let_def parts_def [symmetric])
qed

text \<open>C40: ROW_NUMBER numbers the rows of every partition from 1 on in the order of the window, whatever
  the other partitions are, when the PARTITION BY cells are plain: no FLOAT, and no text with the
  character 0x1E (\<open>plain_row\<close>). Without it the property fails, since the partitions are told apart by the
  printed cells, which merge doubles that differ in later digits (\<open>keys_merge_doubles\<close>,
  \<open>vectorized.cpp\<close> line 170) and texts that contain the separator (\<open>keys_merge_texts\<close>,
  \<open>executor_engine.cpp\<close> line 568).
\<close>

theorem row_numbers:
  assumes "\<forall>r\<in>set rows. plain_row (length partitionBy) (part_cells partitionBy r)"
    and "p \<in> set (map snd (group_by (\<lambda>i. part_cells partitionBy (rows ! i)) [0..<length rows]))"
  shows "map ((!) (window_column (Some (WindowExpr ty ''ROW_NUMBER'' argument partitionBy keys)) rows)) (order_partition keys rows p) =
    map (\<lambda>k. VInt (word_of_nat (Suc k))) [0..<length p]"
proof -
  have "length (order_partition keys rows p) = length p"
    by (metis mset_stable_sort order_partition_def size_mset)
  then show ?thesis using window_values [OF assms] by (simp add: member_values_def add.commute)
qed

theorem row_numbers_witness:
  "map ((!) (window_column (Some (WindowExpr None ''ROW_NUMBER'' None [Col None [] [] [] None 0 False None]
       [(Col None [] [] [] None 1 False None, True)])) [[VInt 1, VInt 9], [VInt 2, VInt 8], [VInt 1, VInt 7]])) [2, 0] = [VInt 1, VInt 2]"
proof -
  let ?c = "\<lambda>n. Col None [] [] [] None n False None"
  let ?rows = "[[VInt 1, VInt 9], [VInt 2, VInt 8], [VInt 1, VInt 7]]"
  have "[0, 2] \<in> set (map snd (group_by (\<lambda>i. part_cells [?c 0] (?rows ! i)) [0..<length ?rows]))"
    by (auto simp: group_by_def part_cells_def upt_rec)
  moreover have "order_partition [(?c 1, True)] ?rows [0, 2] = [2, 0]"
    by (simp add: order_partition_def order_less_def rowLess_def valueLess_def compareValues_def Let_def numeral_2_eq_2)
  ultimately show ?thesis
    using row_numbers [of ?rows "[?c 0]" "[0, 2]" None None "[(?c 1, True)]"]
    by (simp add: plain_row_def plain_value_def part_cells_def)
qed

end
