(* ===== verification/EngineState.thy ===== *)
theory EngineState
  imports Query Window Txn VersionStore Indexes Catalog Rewrite
begin

text \<open>
  The state of the executor engine (\<open>src/src/vm/executor_engine.cpp\<close> over
  \<open>src/include/vm/storage_engine.hpp\<close>), the actions its methods are made of, and how it reads
  rows: by a scan or by an index. An action may throw a \<open>std::runtime_error\<close>, which leaves the
  state as it then is; it has no result at all where the code has none (a trap while an expression
  is evaluated, a null page, an index that is no longer there).
\<close>

section \<open>State\<close>

text \<open>
  The buffer pool is one: the tables hold it, and an index borrows it for each of its operations.
  \<open>st_names\<close> are the names of the indexes in the order of their creation and \<open>st_arrange\<close> gives
  the order in which the hash map that holds them is iterated.
\<close>

record store =
  st_tables :: tables
  st_indexes :: index_manager
  st_names :: "string list"
  st_arrange :: "string list \<Rightarrow> string list"
  st_versions :: vstore
  st_columns :: column_store

text \<open>
  No transaction manager stands for the null pointers of the default arguments. An undo closure
  maps a store to the store, or to none when it uses an index that has been dropped. \<open>en_cores\<close> is
  \<open>hardware_concurrency\<close> and \<open>en_pick\<close> the choice of the priority queue of the external sort.
\<close>

record engine =
  en_store :: store
  en_catalog :: catalog
  en_txns :: "store option txn_mgr option"
  en_current :: int
  en_cores :: nat
  en_pick :: heap_choice

type_synonym 'a act = "engine \<Rightarrow> (engine \<times> (string + 'a)) option"

definition ret :: "'a \<Rightarrow> 'a act" where
  "ret x = (\<lambda>s. Some (s, Inr x))"

definition act_bind :: "'a act \<Rightarrow> ('a \<Rightarrow> 'b act) \<Rightarrow> 'b act" where
  "act_bind m f = (\<lambda>s.
     case m s of
       None \<Rightarrow> None
     | Some (s, Inl e) \<Rightarrow> Some (s, Inl e)
     | Some (s, Inr x) \<Rightarrow> f x s)"

definition throw :: "string \<Rightarrow> 'a act" where
  "throw e = (\<lambda>s. Some (s, Inl e))"

definition ask :: "(engine \<Rightarrow> 'a) \<Rightarrow> 'a act" where
  "ask f = (\<lambda>s. Some (s, Inr (f s)))"

definition change_engine :: "(engine \<Rightarrow> engine) \<Rightarrow> unit act" where
  "change_engine f = (\<lambda>s. Some (f s, Inr ()))"

definition act_of :: "'a option \<Rightarrow> 'a act" where
  "act_of x = (\<lambda>s. map_option (\<lambda>y. (s, Inr y)) x)"

definition act_sum :: "string + 'a \<Rightarrow> 'a act" where
  "act_sum x = (\<lambda>s. Some (s, x))"

text \<open>Loops over a list, for their effect and for their results.\<close>

fun each :: "('a \<Rightarrow> unit act) \<Rightarrow> 'a list \<Rightarrow> unit act" where
  "each f [] = ret ()"
| "each f (x # xs) = act_bind (f x) (\<lambda>_. each f xs)"

fun gather :: "('a \<Rightarrow> 'b act) \<Rightarrow> 'a list \<Rightarrow> 'b list act" where
  "gather f [] = ret []"
| "gather f (x # xs) = act_bind (f x) (\<lambda>y. act_bind (gather f xs) (\<lambda>ys. ret (y # ys)))"

definition only_if :: "bool \<Rightarrow> unit act \<Rightarrow> unit act" where
  "only_if b m = (if b then m else ret ())"

section \<open>Tables, versions and columns\<close>

definition with_store :: "(store \<Rightarrow> store) \<Rightarrow> unit act" where
  "with_store f = change_engine (\<lambda>s. s\<lparr>en_store := f (en_store s)\<rparr>)"

definition put_tables :: "tables \<Rightarrow> engine \<Rightarrow> engine" where
  "put_tables t s = s\<lparr>en_store := (en_store s)\<lparr>st_tables := t\<rparr>\<rparr>"

definition on_tables :: "(tables \<Rightarrow> tables \<times> 'a) \<Rightarrow> 'a act" where
  "on_tables f = (\<lambda>s. case f (st_tables (en_store s)) of
     (t, x) \<Rightarrow> Some (put_tables t s, Inr x))"

text \<open>What may throw or not return, on the tables.\<close>

definition reading :: "(tables \<Rightarrow> (tables \<times> (string + 'a)) option) \<Rightarrow> 'a act" where
  "reading f = (\<lambda>s. map_option (\<lambda>(t, x). (put_tables t s, x)) (f (st_tables (en_store s))))"

definition on_versions :: "(vstore \<Rightarrow> vstore) \<Rightarrow> unit act" where
  "on_versions f = with_store (\<lambda>st. st\<lparr>st_versions := f (st_versions st)\<rparr>)"

definition clear_columns :: "unit act" where
  "clear_columns = with_store (\<lambda>st. st\<lparr>st_columns := cs_clear (st_columns st)\<rparr>)"

section \<open>Indexes\<close>

text \<open>An operation of the index of a name on the shared pool.\<close>

definition index_op :: "string \<Rightarrow> (index \<Rightarrow> (index \<times> 'a) option) \<Rightarrow> store \<Rightarrow> (store \<times> 'a) option" where
  "index_op n f st =
     Option.bind (byName (st_indexes st) n) (\<lambda>ix.
     Option.bind (f (ix\<lparr>ix_tree := tree_setBufferPool (ix_tree ix) (tm_pool (st_tables st))\<rparr>)) (\<lambda>(ix, x).
       Some (st\<lparr>st_indexes := (st_indexes st)\<lparr>byName := (byName (st_indexes st))(n \<mapsto> ix)\<rparr>,
                st_tables := (st_tables st)\<lparr>tm_pool := dt_pool (ix_tree ix)\<rparr>\<rparr>, x)))"

definition on_index :: "string \<Rightarrow> (index \<Rightarrow> (index \<times> 'a) option) \<Rightarrow> 'a act" where
  "on_index n f = (\<lambda>s. map_option (\<lambda>(st, x). (s\<lparr>en_store := st\<rparr>, Inr x)) (index_op n f (en_store s)))"

definition index_order :: "store \<Rightarrow> string list" where
  "index_order st = st_arrange st (st_names st)"

text \<open>The indexes of a table, which the code holds as pointers: their names.\<close>

definition table_indexes :: "int \<Rightarrow> string list act" where
  "table_indexes tid = ask (\<lambda>s. map ix_name (forTable (index_order (en_store s)) (st_indexes (en_store s)) tid))"

definition column_index :: "int \<Rightarrow> int \<Rightarrow> string option act" where
  "column_index tid col =
     ask (\<lambda>s. map_option ix_name (im_find (index_order (en_store s)) (st_indexes (en_store s)) tid col))"

definition the_index :: "string \<Rightarrow> index act" where
  "the_index n = (\<lambda>s. map_option (\<lambda>ix. (s, Inr ix)) (byName (st_indexes (en_store s)) n))"

definition idx_lookup :: "string \<Rightarrow> val \<Rightarrow> record_id list act" where
  "idx_lookup n key = on_index n (\<lambda>ix. index_lookup ix key)"

definition idx_rangeScan :: "string \<Rightarrow> val option \<Rightarrow> val option \<Rightarrow> record_id list act" where
  "idx_rangeScan n lo hi =
     on_index n (\<lambda>ix. map_option (\<lambda>(t, rids). (ix\<lparr>ix_tree := t\<rparr>, rids)) (dtree_rangeScan (ix_tree ix) lo hi))"

text \<open>The loops that enter a row in the indexes that cover it and take it out of them.\<close>

definition idx_add_row :: "row \<Rightarrow> record_id \<Rightarrow> string \<Rightarrow> unit act" where
  "idx_add_row r rid n =
     act_bind (the_index n) (\<lambda>ix.
       only_if (coversRow ix (length r))
         (on_index n (\<lambda>ix. map_option (\<lambda>ix. (ix, ())) (index_add ix (index_keyOf ix r) rid))))"

definition idx_remove_row :: "row \<Rightarrow> record_id \<Rightarrow> string \<Rightarrow> unit act" where
  "idx_remove_row r rid n =
     act_bind (the_index n) (\<lambda>ix.
       only_if (coversRow ix (length r))
         (on_index n (\<lambda>ix. map_option (\<lambda>(ix, found). (ix, ())) (index_remove ix (index_keyOf ix r) rid))))"

text \<open>The keys of a row that an undo closure captures.\<close>

definition idx_keys :: "row \<Rightarrow> string list \<Rightarrow> (string \<times> val) list act" where
  "idx_keys r names =
     act_bind (gather the_index names) (\<lambda>ixs.
       ret (map (\<lambda>(n, ix). (n, index_keyOf ix r)) (filter (\<lambda>(n, ix). coversRow ix (length r)) (zip names ixs))))"

section \<open>Transactions\<close>

definition txnActive :: "engine \<Rightarrow> bool" where
  "txnActive s \<longleftrightarrow> en_txns s \<noteq> None \<and> en_current s \<noteq> 0"

definition on_txns :: "(store option txn_mgr \<Rightarrow> store option txn_mgr) \<Rightarrow> unit act" where
  "on_txns f = change_engine (\<lambda>s. s\<lparr>en_txns := map_option f (en_txns s)\<rparr>)"

definition lockOrThrow :: "record_id \<Rightarrow> bool \<Rightarrow> unit act" where
  "lockOrThrow rid exclusive = (\<lambda>s.
     case en_txns s of
       None \<Rightarrow> None
     | Some m \<Rightarrow>
         (case (if exclusive then lockExclusive m (en_current s) rid else lockShared m (en_current s) rid) of
            (m, granted) \<Rightarrow> (if granted then ret () else throw ''lock wait timeout (possible deadlock)'') (s\<lparr>en_txns := Some m\<rparr>)))"

text \<open>What is done only inside a transaction.\<close>

definition in_txn :: "unit act \<Rightarrow> unit act" where
  "in_txn m = (\<lambda>s. only_if (txnActive s) m s)"

definition outside_txn :: "unit act \<Rightarrow> unit act" where
  "outside_txn m = (\<lambda>s. only_if (\<not> txnActive s) m s)"

section \<open>Schemas\<close>

definition schemaOf :: "table_schema \<Rightarrow> schema" where
  "schemaOf ts = map cs_type (ts_columns ts)"

definition loadSchema :: "int \<Rightarrow> (schema \<times> string list) act" where
  "loadSchema tid = ask (\<lambda>s.
     case getTableById (en_catalog s) tid of
       None \<Rightarrow> ([], [])
     | Some ts \<Rightarrow> (schemaOf ts, map cs_name (ts_columns ts)))"

section \<open>Reading rows\<close>

definition scan_rows :: "int \<Rightarrow> schema \<Rightarrow> (row \<times> record_id) list act" where
  "scan_rows tid sch = reading (run_executor (SeqScan tid sch None))"

text \<open>The loop over the rows an operator delivers, for what its body does to the engine.\<close>

partial_function (option) scan_loop ::
  "('b \<Rightarrow> row \<times> record_id \<Rightarrow> 'b act) \<Rightarrow> executor \<Rightarrow> 'b \<Rightarrow> engine \<Rightarrow> (engine \<times> (string + 'b)) option" where
  "scan_loop f ex acc s =
     Option.bind (exec_next ex (st_tables (en_store s))) (\<lambda>(ex, t, out).
       case out of
         Threw e \<Rightarrow> Some (put_tables t s, Inl e)
       | Exhausted \<Rightarrow> Some (put_tables t s, Inr acc)
       | Fetched r rid \<Rightarrow>
           Option.bind (f acc (r, rid) (put_tables t s)) (\<lambda>(s, x).
             case x of Inl e \<Rightarrow> Some (s, Inl e) | Inr acc \<Rightarrow> scan_loop f ex acc s))"

definition scan_each :: "executor \<Rightarrow> ('b \<Rightarrow> row \<times> record_id \<Rightarrow> 'b act) \<Rightarrow> 'b \<Rightarrow> 'b act" where
  "scan_each ex f acc = act_bind (on_tables (\<lambda>t. prod.swap (exec_init ex t))) (\<lambda>ex. scan_loop f ex acc)"

text \<open>A scan that ends at the first row it looks for.\<close>

partial_function (option) find_row ::
  "executor \<Rightarrow> tables \<Rightarrow> (row \<Rightarrow> record_id \<Rightarrow> bool) \<Rightarrow> (tables \<times> (string + (row \<times> record_id) option)) option" where
  "find_row ex t p =
     Option.bind (exec_next ex t) (\<lambda>(ex, t, out).
       case out of
         Threw e \<Rightarrow> Some (t, Inl e)
       | Exhausted \<Rightarrow> Some (t, Inr None)
       | Fetched r rid \<Rightarrow> if p r rid then Some (t, Inr (Some (r, rid))) else find_row ex t p)"

definition scan_find :: "int \<Rightarrow> schema \<Rightarrow> (row \<Rightarrow> record_id \<Rightarrow> bool) \<Rightarrow> (row \<times> record_id) option act" where
  "scan_find tid sch p =
     reading (\<lambda>t. case exec_init (SeqScan tid sch None) t of (ex, t) \<Rightarrow> find_row ex t p)"

text \<open>The record of an identifier, decoded; none when it is not there.\<close>

definition fetch_row :: "schema \<Rightarrow> record_id \<Rightarrow> row option act" where
  "fetch_row sch rid =
     act_bind (on_tables (\<lambda>t. getTuple t rid)) (\<lambda>got.
       case got of
         None \<Rightarrow> ret None
       | Some b \<Rightarrow> act_bind (act_sum (deserialize b sch)) (\<lambda>r. ret (Some r)))"

section \<open>Index candidates\<close>

text \<open>The equalities of a conjunction, the last one for a column counting.\<close>

fun collect_eqs :: "expr \<Rightarrow> (int \<times> val) list \<Rightarrow> (int \<times> val) list" where
  "collect_eqs (LogicalExpr _ op l r) eqs = (if op = OpAnd then collect_eqs r (collect_eqs l eqs) else eqs)"
| "collect_eqs (BinaryExpr _ op l r) eqs =
     (if op \<noteq> Eq then eqs
      else case (case column_literal l r of Some cv \<Rightarrow> Some cv | None \<Rightarrow> column_literal r l) of
        None \<Rightarrow> eqs
      | Some (c, v) \<Rightarrow> if isNull v then eqs else AList.update (columnIndex c) v eqs)"
| "collect_eqs e eqs = eqs"

definition composite_key :: "(int \<times> val) list \<Rightarrow> index \<Rightarrow> val option" where
  "composite_key eqs ix =
     (if isComposite ix \<and> (\<forall>c\<in>set (ix_columns ix). map_of eqs c \<noteq> None)
      then Some (keyFromValues (map (\<lambda>c. the (map_of eqs c)) (ix_columns ix))) else None)"

fun composite_candidates :: "(int \<times> val) list \<Rightarrow> index list \<Rightarrow> record_id list option act" where
  "composite_candidates eqs [] = ret None"
| "composite_candidates eqs (ix # ixs) =
     (case composite_key eqs ix of
        Some key \<Rightarrow> act_bind (idx_lookup (ix_name ix) key) (\<lambda>rids. ret (Some rids))
      | None \<Rightarrow> composite_candidates eqs ixs)"

definition term_candidates :: "int \<Rightarrow> comparison_op \<Rightarrow> column_ref \<Rightarrow> val \<Rightarrow> record_id list option act" where
  "term_candidates tid op c key =
     act_bind (column_index tid (columnIndex c)) (\<lambda>found.
       case found of
         None \<Rightarrow> ret None
       | Some n \<Rightarrow>
           if isNull key then ret None
           else case op of
             Eq \<Rightarrow> act_bind (idx_lookup n key) (\<lambda>rids. ret (Some rids))
           | Lt \<Rightarrow> act_bind (idx_rangeScan n None (Some key)) (\<lambda>rids. ret (Some rids))
           | Leq \<Rightarrow> act_bind (idx_rangeScan n None (Some key)) (\<lambda>rids. ret (Some rids))
           | Gt \<Rightarrow> act_bind (idx_rangeScan n (Some key) None) (\<lambda>rids. ret (Some rids))
           | Geq \<Rightarrow> act_bind (idx_rangeScan n (Some key) None) (\<lambda>rids. ret (Some rids))
           | Neq \<Rightarrow> ret None)"

definition between_candidates :: "int \<Rightarrow> expr \<Rightarrow> expr \<Rightarrow> expr \<Rightarrow> record_id list option act" where
  "between_candidates tid v lo hi =
     (case (v, lo, hi) of
        (ColumnRef c, LiteralExpr _ l, LiteralExpr _ h) \<Rightarrow>
          act_bind (column_index tid (columnIndex c)) (\<lambda>found.
            case found of
              None \<Rightarrow> ret None
            | Some n \<Rightarrow>
                if isNull l \<or> isNull h then ret None
                else act_bind (idx_rangeScan n (Some l) (Some h)) (\<lambda>rids. ret (Some rids)))
      | _ \<Rightarrow> ret None)"

definition try_composite :: "int \<Rightarrow> expr \<Rightarrow> record_id list option act" where
  "try_composite tid e =
     (let eqs = collect_eqs e [] in
      if eqs = [] then ret None
      else act_bind (ask (\<lambda>s. forTable (index_order (en_store s)) (st_indexes (en_store s)) tid)) (composite_candidates eqs))"

definition or_else :: "'a option act \<Rightarrow> 'a option act \<Rightarrow> 'a option act" where
  "or_else m n = act_bind m (\<lambda>x. case x of Some y \<Rightarrow> ret (Some y) | None \<Rightarrow> n)"

fun indexCandidates :: "int \<Rightarrow> expr \<Rightarrow> record_id list option act" where
  "indexCandidates tid (LogicalExpr ty op l r) =
     or_else (try_composite tid (LogicalExpr ty op l r))
       (if op = OpAnd then or_else (indexCandidates tid l) (indexCandidates tid r) else ret None)"
| "indexCandidates tid (BinaryExpr ty op l r) =
     or_else (try_composite tid (BinaryExpr ty op l r))
       (case literal_term op l r of
          None \<Rightarrow> ret None
        | Some (c, op, key) \<Rightarrow> term_candidates tid op c key)"
| "indexCandidates tid (BetweenExpr _ v lo hi negated) =
     (if negated then ret None else between_candidates tid v lo hi)"
| "indexCandidates tid e = ret None"

section \<open>gatherRows\<close>

text \<open>A candidate's row when it is there and passes.\<close>

definition candidate_row :: "schema \<Rightarrow> expr \<Rightarrow> record_id \<Rightarrow> (row \<times> record_id) list act" where
  "candidate_row sch whr rid =
     act_bind (fetch_row sch rid) (\<lambda>got.
       case got of
         None \<Rightarrow> ret []
       | Some r \<Rightarrow>
           act_bind (act_of (predicateTrue whr r)) (\<lambda>b.
             if b then act_bind (in_txn (lockOrThrow rid False)) (\<lambda>_. ret [(r, rid)]) else ret []))"

text \<open>A row that is delivered is locked before the next one is read.\<close>

definition locked_row :: "(row \<times> record_id) list \<Rightarrow> row \<times> record_id \<Rightarrow> (row \<times> record_id) list act" where
  "locked_row acc x = act_bind (in_txn (lockOrThrow (snd x) False)) (\<lambda>_. ret (acc @ [x]))"

definition gatherRows :: "int \<Rightarrow> schema \<Rightarrow> expr option \<Rightarrow> (row \<times> record_id) list act" where
  "gatherRows tid sch whr =
     act_bind (case whr of None \<Rightarrow> ret None | Some e \<Rightarrow> indexCandidates tid e) (\<lambda>cands.
       case (cands, whr) of
         (Some rids, Some e) \<Rightarrow> act_bind (gather (candidate_row sch e) rids) (\<lambda>rs. ret (concat rs))
       | (_, None) \<Rightarrow> scan_each (SeqScan tid sch None) locked_row []
       | (_, Some e) \<Rightarrow> scan_each (FilterExec (SeqScan tid sch None) (Some e)) locked_row [])"

end
