(* ===== verification/Select.thy ===== *)
theory Select
  imports EngineState
begin

text \<open>
  SELECT as \<open>src/src/vm/executor_engine.cpp\<close> runs it: subqueries, views, snapshots, joins, groups,
  windows, the columnar path and EXPLAIN. The methods call each other through \<open>run\<close>; here \<open>run\<close>
  is an argument of all of them and \<open>run_select\<close> closes the recursion with a bound on its depth.
  Running a statement changes its tree (it is optimized, and its subqueries keep their results),
  so \<open>run\<close> also returns the statement as it then is.
\<close>

record result_set =
  rs_isQuery :: bool
  rs_columns :: "string list"
  rs_rows :: "row list"
  rs_message :: string

type_synonym runner = "select \<Rightarrow> (select \<times> result_set) act"

lemma gather_cong [fundef_cong]:
  "xs = ys \<Longrightarrow> (\<And>x. x \<in> set ys \<Longrightarrow> f x = g x) \<Longrightarrow> gather f xs = gather g ys"
  by (induction xs arbitrary: ys) auto

section \<open>Subqueries\<close>

text \<open>A statement with another clause.\<close>

fun set_where :: "expr option \<Rightarrow> select \<Rightarrow> select" where
  "set_where whr (Select everything dst expl cols tab tal asof _ sorts lmt off aggs grp hav jt jal jon jtid jty extra tid) =
     Select everything dst expl cols tab tal asof whr sorts lmt off aggs grp hav jt jal jon jtid jty extra tid"

fun set_columns :: "column_ref list \<Rightarrow> select \<Rightarrow> select" where
  "set_columns cols (Select everything dst expl _ tab tal asof whr sorts lmt off aggs grp hav jt jal jon jtid jty extra tid) =
     Select everything dst expl cols tab tal asof whr sorts lmt off aggs grp hav jt jal jon jtid jty extra tid"

fun set_computed :: "expr \<Rightarrow> column_ref \<Rightarrow> column_ref" where
  "set_computed e (Col t tab col al cex idx oref bnd) = Col t tab col al (Some e) idx oref bnd"

text \<open>\<open>CachedValue\<close> is a value: a result row counts by its first cell.\<close>

definition first_cell :: "row \<Rightarrow> val" where
  "first_cell r = (case r of [] \<Rightarrow> VNull | v # _ \<Rightarrow> v)"

fun materializeSubquery :: "runner \<Rightarrow> subquery \<Rightarrow> subquery act" where
  "materializeSubquery run (Subq t ex q corr res) =
     (if res \<noteq> None then ret (Subq t ex q corr res)
      else act_bind (run q) (\<lambda>(q, rs). ret (Subq t ex q corr (Some (map first_cell (rs_rows rs))))))"

definition materialize_plain :: "runner \<Rightarrow> subquery \<Rightarrow> subquery act" where
  "materialize_plain run q = (if correlated q then ret q else materializeSubquery run q)"

fun materializeSubqueries :: "runner \<Rightarrow> expr \<Rightarrow> expr act" where
  "materializeSubqueries run (BinaryExpr t op l r) =
     act_bind (materializeSubqueries run l) (\<lambda>l. act_bind (materializeSubqueries run r) (\<lambda>r. ret (BinaryExpr t op l r)))"
| "materializeSubqueries run (LogicalExpr t op l r) =
     act_bind (materializeSubqueries run l) (\<lambda>l. act_bind (materializeSubqueries run r) (\<lambda>r. ret (LogicalExpr t op l r)))"
| "materializeSubqueries run (UnaryExpr t e) =
     act_bind (materializeSubqueries run e) (\<lambda>e. ret (UnaryExpr t e))"
| "materializeSubqueries run (IsNullExpr t e negated) =
     act_bind (materializeSubqueries run e) (\<lambda>e. ret (IsNullExpr t e negated))"
| "materializeSubqueries run (InExpr t v elems sub negated) =
     act_bind (materializeSubqueries run v) (\<lambda>v.
     act_bind (gather (materializeSubqueries run) elems) (\<lambda>elems.
     act_bind (case sub of None \<Rightarrow> ret None | Some q \<Rightarrow> act_bind (materialize_plain run q) (\<lambda>q. ret (Some q))) (\<lambda>sub.
       ret (InExpr t v elems sub negated))))"
| "materializeSubqueries run (BetweenExpr t v lo hi negated) =
     act_bind (materializeSubqueries run v) (\<lambda>v. act_bind (materializeSubqueries run lo) (\<lambda>lo.
     act_bind (materializeSubqueries run hi) (\<lambda>hi. ret (BetweenExpr t v lo hi negated))))"
| "materializeSubqueries run (LikeExpr t v p negated) =
     act_bind (materializeSubqueries run v) (\<lambda>v. act_bind (materializeSubqueries run p) (\<lambda>p. ret (LikeExpr t v p negated)))"
| "materializeSubqueries run (SubqueryExpr q) = act_bind (materialize_plain run q) (\<lambda>q. ret (SubqueryExpr q))"
| "materializeSubqueries run e = ret e"

definition materialize_clause :: "runner \<Rightarrow> expr option \<Rightarrow> expr option act" where
  "materialize_clause run e =
     (case e of None \<Rightarrow> ret None | Some e \<Rightarrow> act_bind (materializeSubqueries run e) (\<lambda>e. ret (Some e)))"

function (sequential) hasCorrelatedSubquery :: "expr \<Rightarrow> bool" where
  "hasCorrelatedSubquery (BinaryExpr _ op l r) = (hasCorrelatedSubquery l \<or> hasCorrelatedSubquery r)"
| "hasCorrelatedSubquery (ArithmeticExpr _ op l r) = (hasCorrelatedSubquery l \<or> hasCorrelatedSubquery r)"
| "hasCorrelatedSubquery (LogicalExpr _ op l r) = (hasCorrelatedSubquery l \<or> hasCorrelatedSubquery r)"
| "hasCorrelatedSubquery (UnaryExpr _ e) = hasCorrelatedSubquery e"
| "hasCorrelatedSubquery (IsNullExpr _ e negated) = hasCorrelatedSubquery e"
| "hasCorrelatedSubquery (InExpr _ v elems sub negated) =
     ((case sub of Some q \<Rightarrow> correlated q | None \<Rightarrow> False) \<or> hasCorrelatedSubquery v \<or> list_ex hasCorrelatedSubquery elems)"
| "hasCorrelatedSubquery (BetweenExpr _ v lo hi negated) =
     (hasCorrelatedSubquery v \<or> hasCorrelatedSubquery lo \<or> hasCorrelatedSubquery hi)"
| "hasCorrelatedSubquery (LikeExpr _ v p negated) = (hasCorrelatedSubquery v \<or> hasCorrelatedSubquery p)"
| "hasCorrelatedSubquery (CallExpr _ name args castType isCast) = list_ex hasCorrelatedSubquery args"
| "hasCorrelatedSubquery (CaseExpr _ branches els) =
     (list_ex (\<lambda>(w, t). hasCorrelatedSubquery w \<or> hasCorrelatedSubquery t) branches \<or>
      (case els of None \<Rightarrow> False | Some e \<Rightarrow> hasCorrelatedSubquery e))"
| "hasCorrelatedSubquery (ColumnRef (Col t tab col al cex idx oref bnd)) =
     (case cex of None \<Rightarrow> False | Some e \<Rightarrow> hasCorrelatedSubquery e)"
| "hasCorrelatedSubquery (SubqueryExpr q) = correlated q"
| "hasCorrelatedSubquery e = False"
  by pat_completeness auto
termination
  by (relation "measure size") (auto dest!: mem_size branch_pair_size)

section \<open>Binding the outer columns of a subquery\<close>

text \<open>
  \<open>outerRefs\<close> are the columns of the subquery itself, not of the subqueries in it, that were found in
  an outer query: the ones with \<open>outerRef\<close>.
\<close>

definition bound_value :: "row \<Rightarrow> int \<Rightarrow> val" where
  "bound_value r i = (if i \<ge> 0 \<and> i < int (length r) then r ! nat i else VNull)"

function (sequential) bind_expr :: "row \<Rightarrow> expr \<Rightarrow> expr" and bind_column :: "row \<Rightarrow> column_ref \<Rightarrow> column_ref" where
  "bind_expr r (ColumnRef c) = ColumnRef (bind_column r c)"
| "bind_expr r (BinaryExpr t op a b) = BinaryExpr t op (bind_expr r a) (bind_expr r b)"
| "bind_expr r (LogicalExpr t op a b) = LogicalExpr t op (bind_expr r a) (bind_expr r b)"
| "bind_expr r (ArithmeticExpr t op a b) = ArithmeticExpr t op (bind_expr r a) (bind_expr r b)"
| "bind_expr r (UnaryExpr t e) = UnaryExpr t (bind_expr r e)"
| "bind_expr r (IsNullExpr t e negated) = IsNullExpr t (bind_expr r e) negated"
| "bind_expr r (InExpr t v elems sub negated) = InExpr t (bind_expr r v) (map (bind_expr r) elems) sub negated"
| "bind_expr r (BetweenExpr t v lo hi negated) = BetweenExpr t (bind_expr r v) (bind_expr r lo) (bind_expr r hi) negated"
| "bind_expr r (LikeExpr t v p negated) = LikeExpr t (bind_expr r v) (bind_expr r p) negated"
| "bind_expr r (FunctionExpr (Fn t name everything dst argument al)) =
     FunctionExpr (Fn t name everything dst (map_option (bind_column r) argument) al)"
| "bind_expr r (CallExpr t name args castType isCast) = CallExpr t name (map (bind_expr r) args) castType isCast"
| "bind_expr r (CaseExpr t branches els) =
     CaseExpr t (map (\<lambda>(w, e). (bind_expr r w, bind_expr r e)) branches) (map_option (bind_expr r) els)"
| "bind_expr r (WindowExpr t name argument part keys) =
     WindowExpr t name (map_option (bind_column r) argument) (map (bind_column r) part)
       (map (\<lambda>(c, d). (bind_column r c, d)) keys)"
| "bind_expr r e = e"
| "bind_column r (Col t tab col al cex idx oref bnd) =
     Col t tab col al (map_option (bind_expr r) cex) idx oref (if oref then Some (bound_value r idx) else bnd)"
  by pat_completeness auto
termination
  by (relation "measure (case_sum (\<lambda>(r, e). size e) (\<lambda>(r, c). size c))") (auto dest!: mem_size key_size branch_pair_size)

definition bind_function :: "row \<Rightarrow> function_expr \<Rightarrow> function_expr" where
  "bind_function r fn = Fn (fn_type fn) (fn_name fn) (fn_star fn) (fn_distinct fn)
     (map_option (bind_column r) (fn_argument fn)) (fn_alias fn)"

definition bind_join :: "row \<Rightarrow> join_clause \<Rightarrow> join_clause" where
  "bind_join r jc = JoinClause (jc_kind jc) (jc_table jc) (jc_alias jc) (map_option (bind_expr r) (jc_on jc)) (jc_tableId jc)"

fun bind_select :: "row \<Rightarrow> select \<Rightarrow> select" where
  "bind_select r (Select everything dst expl cols tab tal asof whr sorts lmt off aggs grp hav jt jal jon jtid jty extra tid) =
     Select everything dst expl (map (bind_column r) cols) tab tal asof (map_option (bind_expr r) whr)
       (map (\<lambda>(c, d). (bind_column r c, d)) sorts) lmt off (map (bind_function r) aggs) (map (bind_column r) grp)
       (map_option (bind_expr r) hav) jt jal (map_option (bind_expr r) jon) jtid jty (map (bind_join r) extra) tid"

fun bindSubquery :: "runner \<Rightarrow> row \<Rightarrow> subquery \<Rightarrow> subquery act" where
  "bindSubquery run r (Subq t ex q corr res) = materializeSubquery run (Subq t ex (bind_select r q) corr None)"

definition bind_own :: "runner \<Rightarrow> row \<Rightarrow> subquery \<Rightarrow> subquery act" where
  "bind_own run r q = (if correlated q then bindSubquery run r q else ret q)"

function (sequential) bindCorrelated :: "runner \<Rightarrow> row \<Rightarrow> expr \<Rightarrow> expr act" where
  "bindCorrelated run outer (BinaryExpr t op l r) =
     act_bind (bindCorrelated run outer l) (\<lambda>l. act_bind (bindCorrelated run outer r) (\<lambda>r. ret (BinaryExpr t op l r)))"
| "bindCorrelated run outer (ArithmeticExpr t op l r) =
     act_bind (bindCorrelated run outer l) (\<lambda>l. act_bind (bindCorrelated run outer r) (\<lambda>r. ret (ArithmeticExpr t op l r)))"
| "bindCorrelated run outer (LogicalExpr t op l r) =
     act_bind (bindCorrelated run outer l) (\<lambda>l. act_bind (bindCorrelated run outer r) (\<lambda>r. ret (LogicalExpr t op l r)))"
| "bindCorrelated run outer (UnaryExpr t e) = act_bind (bindCorrelated run outer e) (\<lambda>e. ret (UnaryExpr t e))"
| "bindCorrelated run outer (IsNullExpr t e negated) = act_bind (bindCorrelated run outer e) (\<lambda>e. ret (IsNullExpr t e negated))"
| "bindCorrelated run outer (InExpr t v elems sub negated) =
     act_bind (bindCorrelated run outer v) (\<lambda>v. act_bind (gather (bindCorrelated run outer) elems) (\<lambda>elems.
     act_bind (case sub of None \<Rightarrow> ret None | Some q \<Rightarrow> act_bind (bind_own run outer q) (\<lambda>q. ret (Some q))) (\<lambda>sub.
       ret (InExpr t v elems sub negated))))"
| "bindCorrelated run outer (BetweenExpr t v lo hi negated) =
     act_bind (bindCorrelated run outer v) (\<lambda>v. act_bind (bindCorrelated run outer lo) (\<lambda>lo.
     act_bind (bindCorrelated run outer hi) (\<lambda>hi. ret (BetweenExpr t v lo hi negated))))"
| "bindCorrelated run outer (LikeExpr t v p negated) =
     act_bind (bindCorrelated run outer v) (\<lambda>v. act_bind (bindCorrelated run outer p) (\<lambda>p. ret (LikeExpr t v p negated)))"
| "bindCorrelated run outer (CallExpr t name args castType isCast) =
     act_bind (gather (bindCorrelated run outer) args) (\<lambda>args. ret (CallExpr t name args castType isCast))"
| "bindCorrelated run outer (CaseExpr t branches els) =
     act_bind (gather (\<lambda>(w, e). act_bind (bindCorrelated run outer w) (\<lambda>w. act_bind (bindCorrelated run outer e) (\<lambda>e. ret (w, e)))) branches) (\<lambda>branches.
     act_bind (case els of None \<Rightarrow> ret None | Some e \<Rightarrow> act_bind (bindCorrelated run outer e) (\<lambda>e. ret (Some e))) (\<lambda>els.
       ret (CaseExpr t branches els)))"
| "bindCorrelated run outer (ColumnRef (Col t tab col al cex idx oref bnd)) =
     act_bind (case cex of None \<Rightarrow> ret None | Some e \<Rightarrow> act_bind (bindCorrelated run outer e) (\<lambda>e. ret (Some e))) (\<lambda>cex.
       ret (ColumnRef (Col t tab col al cex idx oref bnd)))"
| "bindCorrelated run outer (SubqueryExpr q) = act_bind (bind_own run outer q) (\<lambda>q. ret (SubqueryExpr q))"
| "bindCorrelated run outer e = ret e"
  by pat_completeness auto
termination
  by (relation "measure (\<lambda>(run, outer, e). size e)") (auto dest!: mem_size branch_pair_size)

section \<open>Rows of a table\<close>

text \<open>The rows of a snapshot, decoded and filtered as they come.\<close>

fun snapshot_rows :: "schema \<Rightarrow> expr option \<Rightarrow> bytes list \<Rightarrow> row list act" where
  "snapshot_rows sch whr [] = ret []"
| "snapshot_rows sch whr (b # bs) =
     act_bind (act_sum (deserialize b sch)) (\<lambda>r. act_bind (act_of (passes whr r)) (\<lambda>ok.
     act_bind (snapshot_rows sch whr bs) (\<lambda>rs. ret (if ok then r # rs else rs))))"

definition keep_passing :: "expr option \<Rightarrow> row list \<Rightarrow> row list act" where
  "keep_passing whr rows = act_of (keep_rows whr rows)"

definition view_of :: "engine \<Rightarrow> int \<Rightarrow> select option" where
  "view_of s tid =
     (case getTableById (en_catalog s) tid of
        Some ts \<Rightarrow> if ts_isView ts then ts_viewQuery ts else None
      | None \<Rightarrow> None)"

text \<open>The tree of the view is the catalog's own.\<close>

definition put_view :: "int \<Rightarrow> select \<Rightarrow> unit act" where
  "put_view tid q = change_engine (\<lambda>s.
     case getTableById (en_catalog s) tid of
       None \<Rightarrow> s
     | Some ts \<Rightarrow> s\<lparr>en_catalog := put_table (en_catalog s) (ts\<lparr>ts_viewQuery := Some q\<rparr>)\<rparr>)"

definition gatherBaseRows :: "runner \<Rightarrow> int \<Rightarrow> schema \<Rightarrow> expr option \<Rightarrow> row list act" where
  "gatherBaseRows run tid sch whr =
     act_bind (ask (\<lambda>s. view_of s tid)) (\<lambda>view.
       case view of
         Some q \<Rightarrow> act_bind (run q) (\<lambda>(q, rs). act_bind (put_view tid q) (\<lambda>_. keep_passing whr (rs_rows rs)))
       | None \<Rightarrow> act_bind (gatherRows tid sch whr) (\<lambda>rows. ret (map fst rows)))"

text \<open>The version the current transaction reads, for a stored table.\<close>

definition txn_snapshot :: "engine \<Rightarrow> int \<Rightarrow> nat option" where
  "txn_snapshot s tid =
     (if txnActive s \<and> (case getTableById (en_catalog s) tid of Some ts \<Rightarrow> \<not> ts_isView ts | None \<Rightarrow> True)
      then snapshotVersionOf (st_versions (en_store s)) (en_current s) else None)"

definition table_source :: "runner \<Rightarrow> u64 option \<Rightarrow> int \<Rightarrow> schema \<Rightarrow> expr option \<Rightarrow> row list act" where
  "table_source run asof tid sch whr =
     (case asof of
        Some v \<Rightarrow>
          act_bind (ask (\<lambda>s. snapshotAsOf (st_versions (en_store s)) tid (unat v))) (snapshot_rows sch whr)
      | None \<Rightarrow>
          act_bind (ask (\<lambda>s. map_option (snapshotForTxn (st_versions (en_store s)) tid) (txn_snapshot s tid))) (\<lambda>snap.
            case snap of
              Some bs \<Rightarrow> snapshot_rows sch whr bs
            | None \<Rightarrow> gatherBaseRows run tid sch whr))"

definition sourceRows :: "runner \<Rightarrow> select \<Rightarrow> schema \<Rightarrow> expr option \<Rightarrow> row list act" where
  "sourceRows run q sch whr = table_source run (asOf q) (sel_tableId q) sch whr"

definition gatherJoinInput :: "runner \<Rightarrow> select \<Rightarrow> int \<Rightarrow> schema \<Rightarrow> row list act" where
  "gatherJoinInput run q tid sch = table_source run (asOf q) tid sch None"

text \<open>A clause with a correlated subquery is bound to each row before it is evaluated, in place.\<close>

definition bound_row :: "runner \<Rightarrow> expr \<Rightarrow> row \<Rightarrow> (expr \<times> bool) act" where
  "bound_row run e r =
     act_bind (bindCorrelated run r e) (\<lambda>e. act_bind (act_of (predicateTrue e r)) (\<lambda>b. ret (e, b)))"

fun correlated_rows :: "runner \<Rightarrow> ('a \<Rightarrow> row) \<Rightarrow> expr \<Rightarrow> 'a list \<Rightarrow> (expr \<times> 'a list) act" where
  "correlated_rows run f e [] = ret (e, [])"
| "correlated_rows run f e (x # xs) =
     act_bind (bound_row run e (f x)) (\<lambda>(e, b).
     act_bind (correlated_rows run f e xs) (\<lambda>(e, out). ret (e, if b then x # out else out)))"

definition where_rows :: "runner \<Rightarrow> select \<Rightarrow> schema \<Rightarrow> (select \<times> row list) act" where
  "where_rows run q sch =
     (case sel_where q of
        Some e \<Rightarrow>
          if hasCorrelatedSubquery e
          then act_bind (sourceRows run q sch None) (\<lambda>rows.
            act_bind (correlated_rows run id e rows) (\<lambda>(e, out). ret (set_where (Some e) q, out)))
          else act_bind (sourceRows run q sch (Some e)) (\<lambda>rows. ret (q, rows))
      | None \<Rightarrow> act_bind (sourceRows run q sch None) (\<lambda>rows. ret (q, rows)))"

section \<open>Aggregates over columns\<close>

definition isVectorizableAggregate :: "engine \<Rightarrow> select \<Rightarrow> bool" where
  "isVectorizableAggregate s q \<longleftrightarrow>
     aggregates q \<noteq> [] \<and> groupBy q = [] \<and> having q = None \<and> sel_columns q = [] \<and> \<not> sel_distinct q \<and> asOf q = None \<and>
     \<not> txnActive s \<and>
     (case getTableById (en_catalog s) (sel_tableId q) of Some ts \<Rightarrow> \<not> ts_isView ts | None \<Rightarrow> True) \<and>
     (\<forall>fn\<in>set (aggregates q). fn_vectorizable fn) \<and>
     (case sel_where q of
        None \<Rightarrow> True
      | Some e \<Rightarrow> \<not> hasCorrelatedSubquery e \<and> buildVecPredicate e [] \<noteq> None)"

definition get_columns :: "int \<Rightarrow> schema \<Rightarrow> table_columns act" where
  "get_columns tid sch = (\<lambda>s.
     let st = en_store s in
     map_option (\<lambda>(t, out).
       case out of
         Inl e \<Rightarrow> (s\<lparr>en_store := st\<lparr>st_tables := t\<rparr>\<rparr>, Inl e)
       | Inr (cs, tc) \<Rightarrow> (s\<lparr>en_store := st\<lparr>st_tables := t, st_columns := cs\<rparr>\<rparr>, Inr tc))
     (getOrBuild (st_columns st) (st_tables st) tid sch))"

definition columnar_row :: "nat \<Rightarrow> table_columns \<Rightarrow> function_expr list \<Rightarrow> vec_predicate option \<Rightarrow> row" where
  "columnar_row cores tc fns pred =
     (let aggs = map vec_aggregate_of fns in
      if tc_rows tc \<ge> 100000 then parallelColumnarAggregate tc aggs pred (if cores = 0 then 2 else cores)
      else columnarAggregate tc aggs pred)"

definition vectorized_aggregate :: "select \<Rightarrow> schema \<Rightarrow> result_set act" where
  "vectorized_aggregate q sch =
     act_bind (get_columns (sel_tableId q) sch) (\<lambda>tc. act_bind (ask en_cores) (\<lambda>cores.
       let pred = (case sel_where q of None \<Rightarrow> None | Some e \<Rightarrow> buildVecPredicate e []);
           rows = [columnar_row cores tc (aggregates q) pred]
       in ret \<lparr>rs_isQuery = True, rs_columns = map aggregate_title (aggregates q),
               rs_rows = limit_groups (limit q) (skip_rows (offset q) rows), rs_message = []\<rparr>))"

definition grouped_result :: "runner \<Rightarrow> select \<Rightarrow> schema \<Rightarrow> (select \<times> result_set) act" where
  "grouped_result run q sch =
     act_bind (where_rows run q sch) (\<lambda>(q, rows).
     act_bind (act_of (grouped_rows q (length sch) rows)) (\<lambda>out.
       ret (q, \<lparr>rs_isQuery = True, rs_columns = map column_title (sel_columns q) @ map aggregate_title (aggregates q),
                rs_rows = out, rs_message = []\<rparr>)))"

section \<open>EXPLAIN\<close>

partial_function (option) count_live :: "tables \<Rightarrow> int \<Rightarrow> iter \<Rightarrow> nat \<Rightarrow> (tables \<times> nat) option" where
  "count_live t tid it n =
     (if \<not> it_valid it then Some (t, n)
      else case iter_next t tid it of (t, it) \<Rightarrow> count_live t tid it (Suc n))"

definition estimateRows :: "int \<Rightarrow> nat act" where
  "estimateRows tid =
     reading (\<lambda>t. case iter_open t tid of (t, it) \<Rightarrow> map_option (\<lambda>(t, n). (t, Inr n)) (count_live t tid it 0))"

definition join_name :: "join_kind \<Rightarrow> string" where
  "join_name k =
     (case k of JLeft \<Rightarrow> ''Left'' | JRight \<Rightarrow> ''Right'' | JFull \<Rightarrow> ''Full'' | JCross \<Rightarrow> ''Cross'' | JInner \<Rightarrow> ''Inner'')"

definition column_equality :: "expr option \<Rightarrow> bool" where
  "column_equality on =
     (case on of Some (BinaryExpr _ Eq (ColumnRef _) (ColumnRef _)) \<Rightarrow> True | _ \<Rightarrow> False)"

definition table_label :: "engine \<Rightarrow> int \<Rightarrow> string" where
  "table_label s tid = (case getTableById (en_catalog s) tid of Some ts \<Rightarrow> ts_name ts | None \<Rightarrow> ''?'')"

definition plan_heads :: "engine \<Rightarrow> select \<Rightarrow> string list" where
  "plan_heads s q =
     (if limit q \<noteq> None \<or> sint (offset q) > 0
      then [''Limit'' @ (case limit q of Some l \<Rightarrow> '' '' @ i64_str l | None \<Rightarrow> []) @
            (if sint (offset q) > 0 then '' offset '' @ i64_str (offset q) else [])]
      else []) @
     (if sel_distinct q then [''Unique''] else []) @
     (if orderBy q \<noteq> [] then [''Sort''] else []) @
     (if aggregates q \<noteq> [] \<or> groupBy q \<noteq> []
      then [(if groupBy q = [] then ''Aggregate'' else ''GroupAggregate'') @
            (if isVectorizableAggregate s q
             then if sel_where q \<noteq> None then '' (Vectorized, Data Skipping)'' else '' (Vectorized)''
             else [])]
      else [])"

definition join_label :: "select \<Rightarrow> string act" where
  "join_label q =
     (if joinType q = JInner \<and> column_equality (joinOn q) then
        act_bind (estimateRows (sel_tableId q)) (\<lambda>l. act_bind (estimateRows (joinTableId q)) (\<lambda>r.
          ret (if chooseEquiJoin 10000 l r = MergeJoin then '' Join (Merge)'' else '' Join (Hash)'')))
      else ret '' Join (Nested Loop)'')"

text \<open>Each line is indented below the one before it; the two inputs of a join alike.\<close>

fun indented :: "nat \<Rightarrow> string list \<Rightarrow> string list" where
  "indented d [] = []"
| "indented d (l # ls) = (replicate (2 * d) CHR 0x20 @ l) # indented (Suc d) ls"

definition explainSelect :: "select \<Rightarrow> result_set act" where
  "explainSelect q =
     act_bind (ask (\<lambda>s. plan_heads s q)) (\<lambda>heads.
     act_bind
       (if joinTable q \<noteq> [] then
          act_bind (join_label q) (\<lambda>label.
          act_bind (ask (\<lambda>s. (table_label s (sel_tableId q), table_label s (joinTableId q)))) (\<lambda>(l, r).
            let heads = heads @ [join_name (joinType q) @ label];
                pad = replicate (2 * length heads) CHR 0x20
            in ret (indented 0 heads @ [pad @ ''Seq Scan on '' @ l, pad @ ''Seq Scan on '' @ r])))
        else
          act_bind (case sel_where q of None \<Rightarrow> ret None | Some e \<Rightarrow> indexCandidates (sel_tableId q) e) (\<lambda>cands.
          act_bind (ask (\<lambda>s. table_label s (sel_tableId q))) (\<lambda>l.
            ret (indented 0 (heads @ (if sel_where q \<noteq> None then [''Filter''] else []) @
              [(if cands \<noteq> None then ''Index Scan on '' else ''Seq Scan on '') @ l])))))
     (\<lambda>lines. ret \<lparr>rs_isQuery = True, rs_columns = [''plan''], rs_rows = map (\<lambda>l. [VText l]) lines, rs_message = []\<rparr>))"

section \<open>Joins, projection and the whole statement\<close>

fun gather_joins :: "runner \<Rightarrow> select \<Rightarrow> join_clause list \<Rightarrow>
    ((join_kind \<times> expr option \<times> row list \<times> nat) list \<times> string list) act" where
  "gather_joins run q [] = ret ([], [])"
| "gather_joins run q (jc # jcs) =
     act_bind (loadSchema (jc_tableId jc)) (\<lambda>(sch, names).
     act_bind (gatherJoinInput run q (jc_tableId jc) sch) (\<lambda>rows.
     act_bind (gather_joins run q jcs) (\<lambda>(rest, more).
       ret ((jc_kind jc, jc_on jc, rows, length names) # rest, names @ more))))"

definition nway_rows :: "runner \<Rightarrow> select \<Rightarrow> (row list \<times> string list) act" where
  "nway_rows run q =
     act_bind (loadSchema (sel_tableId q)) (\<lambda>(bsch, bnames).
     act_bind (gatherJoinInput run q (sel_tableId q) bsch) (\<lambda>base.
     act_bind (gather_joins run q
         (JoinClause (joinType q) (joinTable q) (joinTableAlias q) (joinOn q) (joinTableId q) # extraJoins q)) (\<lambda>(inputs, names).
     act_bind (act_of (join_chain base (length bnames) inputs)) (\<lambda>rows.
     act_bind (keep_passing (sel_where q) rows) (\<lambda>rows. ret (rows, bnames @ names))))))"

definition two_way_rows :: "runner \<Rightarrow> select \<Rightarrow> (row list \<times> string list) act" where
  "two_way_rows run q =
     act_bind (loadSchema (sel_tableId q)) (\<lambda>(lsch, lnames).
     act_bind (loadSchema (joinTableId q)) (\<lambda>(rsch, rnames).
     act_bind (gatherJoinInput run q (sel_tableId q) lsch) (\<lambda>left.
     act_bind (gatherJoinInput run q (joinTableId q) rsch) (\<lambda>right.
     act_bind (ask en_pick) (\<lambda>pick.
     act_bind (act_of (two_table_rows pick left (length lnames) right (length rnames) (joinType q) (joinOn q) (sel_where q))) (\<lambda>rows.
       ret (rows, lnames @ rnames)))))))"

definition project_cell :: "runner \<Rightarrow> row \<Rightarrow> column_ref \<Rightarrow> (column_ref \<times> val) act" where
  "project_cell run r c =
     (case computed c of
        Some e \<Rightarrow>
          act_bind (if hasCorrelatedSubquery e then bindCorrelated run r e else ret e) (\<lambda>e.
          act_bind (act_of (evalExpression e r)) (\<lambda>v. ret (set_computed e c, v)))
      | None \<Rightarrow> ret (c, plain_cell c r))"

fun project_row :: "runner \<Rightarrow> row \<Rightarrow> column_ref list \<Rightarrow> (column_ref list \<times> row) act" where
  "project_row run r [] = ret ([], [])"
| "project_row run r (c # cs) =
     act_bind (project_cell run r c) (\<lambda>(c, v). act_bind (project_row run r cs) (\<lambda>(cs, vs). ret (c # cs, v # vs)))"

fun project_rows :: "runner \<Rightarrow> column_ref list \<Rightarrow> row list \<Rightarrow> (column_ref list \<times> row list) act" where
  "project_rows run cols [] = ret (cols, [])"
| "project_rows run cols (r # rs) =
     act_bind (project_row run r cols) (\<lambda>(cols, out).
     act_bind (project_rows run cols rs) (\<lambda>(cols, outs). ret (cols, out # outs)))"

definition projected :: "runner \<Rightarrow> select \<Rightarrow> string list \<Rightarrow> row list \<Rightarrow> (select \<times> result_set) act" where
  "projected run q names rows =
     (let rows = order_rows (orderBy q) rows in
      act_bind (if selectStar q then ret (sel_columns q, rows) else project_rows run (sel_columns q) rows) (\<lambda>(cols, rows).
        ret (set_columns cols q,
             \<lparr>rs_isQuery = True, rs_columns = (if selectStar q then names else map column_title cols),
              rs_rows = finish_rows q rows, rs_message = []\<rparr>)))"

definition has_window :: "select \<Rightarrow> bool" where
  "has_window q \<longleftrightarrow> (\<exists>c\<in>set (sel_columns q). case computed c of Some (WindowExpr _ _ _ _ _) \<Rightarrow> True | _ \<Rightarrow> False)"

definition window_result :: "runner \<Rightarrow> select \<Rightarrow> result_set act" where
  "window_result run q =
     act_bind (loadSchema (sel_tableId q)) (\<lambda>(sch, names).
     act_bind (gatherBaseRows run (sel_tableId q) sch (sel_where q)) (\<lambda>rows.
     act_bind (act_of (runWindowQuery q rows)) (\<lambda>out.
       ret \<lparr>rs_isQuery = True, rs_columns = map column_title (sel_columns q), rs_rows = out, rs_message = []\<rparr>)))"

definition single_result :: "runner \<Rightarrow> select \<Rightarrow> (select \<times> result_set) act" where
  "single_result run q =
     act_bind (loadSchema (sel_tableId q)) (\<lambda>(sch, names).
       if aggregates q \<noteq> [] \<or> groupBy q \<noteq> [] \<or> having q \<noteq> None then
         act_bind (ask (\<lambda>s. isVectorizableAggregate s q)) (\<lambda>vec.
           if vec then act_bind (vectorized_aggregate q sch) (\<lambda>rs. ret (q, rs)) else grouped_result run q sch)
       else act_bind (where_rows run q sch) (\<lambda>(q, rows). projected run q names rows))"

fun materialize_select :: "runner \<Rightarrow> select \<Rightarrow> select act" where
  "materialize_select run (Select everything dst expl cols tab tal asof whr sorts lmt off aggs grp hav jt jal jon jtid jty extra tid) =
     act_bind (materialize_clause run whr) (\<lambda>whr. act_bind (materialize_clause run hav) (\<lambda>hav.
     act_bind (materialize_clause run jon) (\<lambda>jon.
     act_bind (gather (\<lambda>jc. act_bind (materialize_clause run (jc_on jc)) (\<lambda>e.
       ret (JoinClause (jc_kind jc) (jc_table jc) (jc_alias jc) e (jc_tableId jc)))) extra) (\<lambda>extra.
       ret (Select everything dst expl cols tab tal asof whr sorts lmt off aggs grp hav jt jal jon jtid jty extra tid)))))"

definition select_body :: "runner \<Rightarrow> runner" where
  "select_body run q =
     act_bind (act_of (optimizeSelect q)) (\<lambda>q.
       if explain q then act_bind (explainSelect q) (\<lambda>rs. ret (q, rs))
       else act_bind (materialize_select run q) (\<lambda>q.
         if has_window q then act_bind (window_result run q) (\<lambda>rs. ret (q, rs))
         else if joinTable q \<noteq> [] \<and> extraJoins q \<noteq> [] then
           act_bind (nway_rows run q) (\<lambda>(rows, names). projected run q names rows)
         else if joinTable q \<noteq> [] then
           act_bind (two_way_rows run q) (\<lambda>(rows, names). projected run q names rows)
         else single_result run q))"

text \<open>The depth of subqueries and views is at most the fuel.\<close>

fun run_select :: "nat \<Rightarrow> runner" where
  "run_select 0 q = (\<lambda>s. None)"
| "run_select (Suc n) q = select_body (run_select n) q"

end
