(* ===== verification/Constraints.thy ===== *)
theory Constraints
  imports EngineState
begin

text \<open>
  The checks of \<open>src/src/vm/executor_engine.cpp\<close> before a row is stored: foreign keys, NOT NULL,
  lengths, CHECK, UNIQUE and the primary key. A violation throws.
\<close>

section \<open>Definitions\<close>

text \<open>A stored value that equals the one looked for; NULL equals nothing.\<close>

definition cell_equals :: "int \<Rightarrow> val \<Rightarrow> row \<Rightarrow> bool" where
  "cell_equals col v r \<longleftrightarrow> col < int (length r) \<and> compareValues (r ! nat col) v = Some 0"

text \<open>The loop over the records an index gives for a value.\<close>

fun any_candidate :: "schema \<Rightarrow> (row \<Rightarrow> bool) \<Rightarrow> record_id list \<Rightarrow> bool act" where
  "any_candidate sch p [] = ret False"
| "any_candidate sch p (rid # rids) =
     act_bind (fetch_row sch rid) (\<lambda>got.
       case got of
         Some r \<Rightarrow> if p r then ret True else any_candidate sch p rids
       | None \<Rightarrow> any_candidate sch p rids)"

definition parentHasValue :: "string \<Rightarrow> string \<Rightarrow> val \<Rightarrow> bool act" where
  "parentHasValue refTab refCol v =
     act_bind (ask (\<lambda>s. getTable (en_catalog s) refTab)) (\<lambda>found.
       case found of
         None \<Rightarrow> ret False
       | Some parent \<Rightarrow>
           let col = columnIndex_of parent refCol in
           if col < 0 then ret False
           else act_bind (column_index (ts_id parent) col) (\<lambda>ix.
             case ix of
               Some n \<Rightarrow> act_bind (idx_lookup n v) (any_candidate (schemaOf parent) (cell_equals col v))
             | None \<Rightarrow>
                 act_bind (scan_find (ts_id parent) (schemaOf parent) (\<lambda>r rid. cell_equals col v r)) (\<lambda>hit.
                   ret (hit \<noteq> None))))"

definition fk_message :: "foreign_key \<Rightarrow> string" where
  "fk_message fk = ''foreign key violation: value not present in '' @ fk_table fk @ ''('' @ fk_refColumn fk @ '')''"

definition checkForeignKey :: "row \<Rightarrow> foreign_key \<Rightarrow> unit act" where
  "checkForeignKey r fk =
     (if fk_column fk \<ge> int (length r) \<or> isNull (r ! nat (fk_column fk)) then ret ()
      else act_bind (parentHasValue (fk_table fk) (fk_refColumn fk) (r ! nat (fk_column fk))) (\<lambda>found.
        if found then ret () else throw (fk_message fk)))"

definition checkForeignKeys :: "table_schema \<Rightarrow> row \<Rightarrow> unit act" where
  "checkForeignKeys ts r = each (checkForeignKey r) (ts_foreignKeys ts)"

text \<open>Whether a row refers to a value of its parent.\<close>

definition refers :: "int \<Rightarrow> val \<Rightarrow> row \<Rightarrow> bool" where
  "refers col v r \<longleftrightarrow> col < int (length r) \<and> \<not> isNull (r ! nat col) \<and> compareValues (r ! nat col) v = Some 0"

definition referenced_message :: "table_schema \<Rightarrow> string" where
  "referenced_message dependent =
     ''foreign key violation: row is referenced by table '' @ [CHR 0x27] @ ts_name dependent @ [CHR 0x27]"

text \<open>The value of the parent's column that a foreign key of a dependent points to.\<close>

definition parent_value :: "table_schema \<Rightarrow> row \<Rightarrow> foreign_key \<Rightarrow> val option" where
  "parent_value parent r fk =
     (let pcol = columnIndex_of parent (fk_refColumn fk) in
      if fk_table fk \<noteq> ts_name parent \<or> pcol < 0 \<or> pcol \<ge> int (length r) \<or> isNull (r ! nat pcol) then None
      else Some (r ! nat pcol))"

definition restrict_key :: "table_schema \<Rightarrow> row \<Rightarrow> table_schema \<Rightarrow> foreign_key \<Rightarrow> unit act" where
  "restrict_key parent r dependent fk =
     (case parent_value parent r fk of
        None \<Rightarrow> ret ()
      | Some v \<Rightarrow>
          act_bind (scan_find (ts_id dependent) (schemaOf dependent) (\<lambda>cr rid. refers (fk_column fk) v cr)) (\<lambda>hit.
            if hit = None then ret () else throw (referenced_message dependent)))"

definition checkDeleteRestrict :: "table_schema \<Rightarrow> row \<Rightarrow> unit act" where
  "checkDeleteRestrict parent r =
     act_bind (ask (\<lambda>s. allTables (en_catalog s))) (each (\<lambda>dependent.
       each (restrict_key parent r dependent) (ts_foreignKeys dependent)))"

definition valueExists :: "int \<Rightarrow> int \<Rightarrow> val \<Rightarrow> table_schema \<Rightarrow> record_id option \<Rightarrow> bool act" where
  "valueExists tid col v ts exclude =
     act_bind (column_index tid col) (\<lambda>ix.
       case ix of
         Some n \<Rightarrow>
           act_bind (idx_lookup n v) (\<lambda>rids.
             any_candidate (schemaOf ts) (cell_equals col v) (filter (\<lambda>rid. exclude \<noteq> Some rid) rids))
       | None \<Rightarrow>
           act_bind (scan_find tid (schemaOf ts) (\<lambda>r rid. exclude \<noteq> Some rid \<and> cell_equals col v r)) (\<lambda>hit.
             ret (hit \<noteq> None)))"

definition dotted :: "table_schema \<Rightarrow> column_schema \<Rightarrow> string" where
  "dotted ts col = ts_name ts @ ''.'' @ cs_name col"

text \<open>The checks of a column, in their order.\<close>

definition too_long :: "column_schema \<Rightarrow> val \<Rightarrow> bool" where
  "too_long col v \<longleftrightarrow>
     cs_type col = DVarchar \<and> cs_varcharLength col > 0 \<and>
     (case v of VText s \<Rightarrow> int (length s) > cs_varcharLength col | _ \<Rightarrow> False)"

definition enforce_column :: "table_schema \<Rightarrow> int \<Rightarrow> row \<Rightarrow> record_id option \<Rightarrow> nat \<times> column_schema \<Rightarrow> unit act" where
  "enforce_column ts tid r exclude = (\<lambda>(i, col).
     let v = at_or_null r i in
     if cs_notNull col \<and> isNull v then throw (''NOT NULL constraint failed: '' @ dotted ts col)
     else if too_long col v then
       throw (''value too long for column '' @ [CHR 0x27] @ cs_name col @ [CHR 0x27] @ '' (max '' @
              int_str (cs_varcharLength col) @ '')'')
     else act_bind (case cs_check col of None \<Rightarrow> ret True | Some e \<Rightarrow> act_of (predicateTrue e r)) (\<lambda>ok.
       if \<not> ok then throw (''CHECK constraint failed: '' @ dotted ts col)
       else if (cs_primaryKey col \<or> cs_unique col) \<and> \<not> isNull v then
         act_bind (valueExists tid (int i) v ts exclude) (\<lambda>found.
           if found then throw (''UNIQUE constraint failed: '' @ dotted ts col) else ret ())
       else ret ()))"

definition key_equals :: "int list \<Rightarrow> row \<Rightarrow> row \<Rightarrow> bool" where
  "key_equals cols r q \<longleftrightarrow>
     (\<forall>c\<in>set cols. c < int (length q) \<and> compareValues (q ! nat c) (r ! nat c) = Some 0)"

definition enforce_primary_key :: "table_schema \<Rightarrow> int \<Rightarrow> row \<Rightarrow> record_id option \<Rightarrow> unit act" where
  "enforce_primary_key ts tid r exclude =
     (if length (ts_primaryKey ts) \<ge> 2 \<and> (\<forall>c\<in>set (ts_primaryKey ts). \<not> (c \<ge> int (length r) \<or> isNull (r ! nat c))) then
        act_bind (scan_find tid (schemaOf ts) (\<lambda>q rid. exclude \<noteq> Some rid \<and> key_equals (ts_primaryKey ts) r q)) (\<lambda>hit.
          if hit = None then ret () else throw (''PRIMARY KEY constraint failed: '' @ ts_name ts))
      else ret ())"

definition enforceConstraints :: "table_schema \<Rightarrow> int \<Rightarrow> row \<Rightarrow> record_id option \<Rightarrow> unit act" where
  "enforceConstraints ts tid r exclude =
     act_bind (each (enforce_column ts tid r exclude) (zip [0..<length (ts_columns ts)] (ts_columns ts)))
       (\<lambda>_. enforce_primary_key ts tid r exclude)"

end
