(* ===== verification/Dml.thy ===== *)
theory Dml
  imports Select Constraints
begin

text \<open>
  INSERT, DELETE and UPDATE of \<open>src/src/vm/executor_engine.cpp\<close> with the referential actions and the
  closures that undo them. \<open>fuel\<close> bounds the depth of subqueries and views, and of cascades.
\<close>

section \<open>Undo closures\<close>

definition store_insert :: "int \<Rightarrow> bytes \<Rightarrow> store \<Rightarrow> store \<times> record_id" where
  "store_insert tid bytes st =
     (case insertTuple (st_tables st) tid bytes of (t, rid) \<Rightarrow> (st\<lparr>st_tables := t\<rparr>, rid))"

definition store_erase :: "record_id \<Rightarrow> store \<Rightarrow> store" where
  "store_erase rid st = st\<lparr>st_tables := fst (eraseTuple (st_tables st) rid)\<rparr>"

fun add_keys :: "(string \<times> val) list \<Rightarrow> record_id \<Rightarrow> store \<Rightarrow> store option" where
  "add_keys [] rid st = Some st"
| "add_keys ((n, k) # ks) rid st =
     Option.bind (index_op n (\<lambda>ix. map_option (\<lambda>ix. (ix, ())) (index_add ix k rid)) st) (\<lambda>(st, _). add_keys ks rid st)"

fun remove_keys :: "(string \<times> val) list \<Rightarrow> record_id \<Rightarrow> store \<Rightarrow> store option" where
  "remove_keys [] rid st = Some st"
| "remove_keys ((n, k) # ks) rid st =
     Option.bind (index_op n (\<lambda>ix. index_remove ix k rid) st) (\<lambda>(st, _). remove_keys ks rid st)"

definition put_back :: "int \<Rightarrow> bytes \<Rightarrow> (string \<times> val) list \<Rightarrow> store \<Rightarrow> store option" where
  "put_back tid bytes ks st = (case store_insert tid bytes st of (st, rid) \<Rightarrow> add_keys ks rid st)"

definition undo_insert :: "record_id \<Rightarrow> (string \<times> val) list \<Rightarrow> store option \<Rightarrow> store option" where
  "undo_insert rid ks so = Option.bind so (\<lambda>st. map_option (store_erase rid) (remove_keys ks rid st))"

definition undo_delete :: "int \<Rightarrow> bytes \<Rightarrow> (string \<times> val) list \<Rightarrow> store option \<Rightarrow> store option" where
  "undo_delete tid bytes ks so = Option.bind so (put_back tid bytes ks)"

definition undo_update ::
  "int \<Rightarrow> record_id \<Rightarrow> bytes \<Rightarrow> (string \<times> val) list \<Rightarrow> (string \<times> val) list \<Rightarrow> store option \<Rightarrow> store option" where
  "undo_update tid nr oldBytes oldKeys newKeys so =
     Option.bind so (\<lambda>st. Option.bind (remove_keys newKeys nr st) (\<lambda>st. put_back tid oldBytes oldKeys (store_erase nr st)))"

definition on_current :: "(store option txn_mgr \<Rightarrow> int \<Rightarrow> store option txn_mgr) \<Rightarrow> unit act" where
  "on_current f = (\<lambda>s. on_txns (\<lambda>m. f m (en_current s)) s)"

section \<open>Changing a row\<close>

text \<open>
  The parts UPDATE, DELETE, ON CONFLICT and the referential actions share. \<open>staged\<close> is whether the
  change is entered in the version store, which DELETE CASCADE and SET NULL do not.
\<close>

definition replace_row ::
  "bool \<Rightarrow> int \<Rightarrow> schema \<Rightarrow> string list \<Rightarrow> row \<Rightarrow> row \<Rightarrow> record_id \<Rightarrow> unit act" where
  "replace_row staged tid sch names old new rid =
     (let oldBytes = serialize old sch; newBytes = serialize new sch in
      act_bind (each (idx_remove_row old rid) names) (\<lambda>_.
      act_bind (on_tables (\<lambda>t. updateTuple t tid rid newBytes)) (\<lambda>nr.
      act_bind (in_txn (lockOrThrow nr True)) (\<lambda>_.
      act_bind (each (idx_add_row new nr) names) (\<lambda>_.
      act_bind (only_if staged (on_versions (\<lambda>vs. stageInsert (stageDelete vs tid rid) tid nr newBytes))) (\<lambda>_.
        in_txn (
          act_bind (on_current (\<lambda>m tx. logDelete m tx tid rid oldBytes)) (\<lambda>_.
          act_bind (on_current (\<lambda>m tx. logInsert m tx tid nr newBytes)) (\<lambda>_.
          act_bind (idx_keys old names) (\<lambda>oldKeys. act_bind (idx_keys new names) (\<lambda>newKeys.
            on_current (\<lambda>m tx. registerUndo m tx (undo_update tid nr oldBytes oldKeys newKeys)))))))))))))"

definition erase_row :: "bool \<Rightarrow> int \<Rightarrow> schema \<Rightarrow> string list \<Rightarrow> row \<Rightarrow> record_id \<Rightarrow> unit act" where
  "erase_row staged tid sch names old rid =
     (let bytes = serialize old sch in
      act_bind (in_txn (lockOrThrow rid True)) (\<lambda>_.
      act_bind (each (idx_remove_row old rid) names) (\<lambda>_.
      act_bind (in_txn (
          act_bind (idx_keys old names) (\<lambda>ks.
          act_bind (on_current (\<lambda>m tx. logDelete m tx tid rid bytes)) (\<lambda>_.
            on_current (\<lambda>m tx. registerUndo m tx (undo_delete tid bytes ks)))))) (\<lambda>_.
      act_bind (on_tables (\<lambda>t. eraseTuple t rid)) (\<lambda>_.
        only_if staged (on_versions (\<lambda>vs. stageDelete vs tid rid)))))))"

definition store_row :: "int \<Rightarrow> schema \<Rightarrow> string list \<Rightarrow> row \<Rightarrow> unit act" where
  "store_row tid sch names r =
     (let bytes = serialize r sch in
      act_bind (on_tables (\<lambda>t. insertTuple t tid bytes)) (\<lambda>rid.
      act_bind (each (idx_add_row r rid) names) (\<lambda>_.
      act_bind (on_versions (\<lambda>vs. stageInsert vs tid rid bytes)) (\<lambda>_.
        in_txn (
          act_bind (lockOrThrow rid True) (\<lambda>_. act_bind (idx_keys r names) (\<lambda>ks.
          act_bind (on_current (\<lambda>m tx. logInsert m tx tid rid bytes)) (\<lambda>_.
            on_current (\<lambda>m tx. registerUndo m tx (undo_insert rid ks)))))))))) "

section \<open>Referential actions\<close>

definition matching_rows :: "table_schema \<Rightarrow> foreign_key \<Rightarrow> val \<Rightarrow> (row \<times> record_id) list act" where
  "matching_rows dependent fk v =
     act_bind (scan_rows (ts_id dependent) (schemaOf dependent)) (\<lambda>rows.
       ret (filter (\<lambda>(r, rid). refers (fk_column fk) v r) rows))"

definition delete_dependent ::
  "(table_schema \<Rightarrow> row \<Rightarrow> unit act) \<Rightarrow> table_schema \<Rightarrow> foreign_key \<Rightarrow> string list \<Rightarrow> row \<times> record_id \<Rightarrow> unit act" where
  "delete_dependent cascade dependent fk names = (\<lambda>(r, rid).
     if fk_onDelete fk = Cascade then
       act_bind (cascade dependent r) (\<lambda>_. erase_row False (ts_id dependent) (schemaOf dependent) names r rid)
     else
       act_bind (in_txn (lockOrThrow rid True)) (\<lambda>_.
         replace_row False (ts_id dependent) (schemaOf dependent) names r (r[nat (fk_column fk) := VNull]) rid))"

definition delete_reference ::
  "(table_schema \<Rightarrow> row \<Rightarrow> unit act) \<Rightarrow> table_schema \<Rightarrow> row \<Rightarrow> table_schema \<Rightarrow> foreign_key \<Rightarrow> unit act" where
  "delete_reference cascade parent r dependent fk =
     (case parent_value parent r fk of
        None \<Rightarrow> ret ()
      | Some v \<Rightarrow>
          act_bind (table_indexes (ts_id dependent)) (\<lambda>names.
          act_bind (matching_rows dependent fk v) (\<lambda>matches.
            if matches = [] then ret ()
            else if fk_onDelete fk = Restrict then throw (referenced_message dependent)
            else each (delete_dependent cascade dependent fk names) matches)))"

fun applyReferentialActions :: "nat \<Rightarrow> table_schema \<Rightarrow> row \<Rightarrow> unit act" where
  "applyReferentialActions 0 parent r = (\<lambda>s. None)"
| "applyReferentialActions (Suc n) parent r =
     act_bind (ask (\<lambda>s. allTables (en_catalog s))) (each (\<lambda>dependent.
       each (delete_reference (applyReferentialActions n) parent r dependent) (ts_foreignKeys dependent)))"

definition update_dependent ::
  "(table_schema \<Rightarrow> row \<Rightarrow> row \<Rightarrow> unit act) \<Rightarrow> table_schema \<Rightarrow> foreign_key \<Rightarrow> val \<Rightarrow> string list \<Rightarrow> row \<times> record_id \<Rightarrow> unit act" where
  "update_dependent cascade dependent fk newVal names = (\<lambda>(r, rid).
     let nv = r[nat (fk_column fk) := (if fk_onUpdate fk = Cascade then newVal else VNull)] in
     act_bind (if fk_onUpdate fk = Cascade then cascade dependent r nv else ret ()) (\<lambda>_.
     act_bind (in_txn (lockOrThrow rid True)) (\<lambda>_.
       replace_row True (ts_id dependent) (schemaOf dependent) names r nv rid)))"

definition update_reference ::
  "(table_schema \<Rightarrow> row \<Rightarrow> row \<Rightarrow> unit act) \<Rightarrow> table_schema \<Rightarrow> row \<Rightarrow> row \<Rightarrow> table_schema \<Rightarrow> foreign_key \<Rightarrow> unit act" where
  "update_reference cascade parent old new dependent fk =
     (case parent_value parent old fk of
        None \<Rightarrow> ret ()
      | Some oldVal \<Rightarrow>
          let newVal = at_or_null new (nat (columnIndex_of parent (fk_refColumn fk))) in
          if compareValues oldVal newVal = Some 0 then ret ()
          else act_bind (table_indexes (ts_id dependent)) (\<lambda>names.
            act_bind (matching_rows dependent fk oldVal) (\<lambda>matches.
              if matches = [] then ret ()
              else if fk_onUpdate fk = Restrict then throw (referenced_message dependent)
              else each (update_dependent cascade dependent fk newVal names) matches)))"

fun applyUpdateReferentialActions :: "nat \<Rightarrow> table_schema \<Rightarrow> row \<Rightarrow> row \<Rightarrow> unit act" where
  "applyUpdateReferentialActions 0 parent old new = (\<lambda>s. None)"
| "applyUpdateReferentialActions (Suc n) parent old new =
     act_bind (ask (\<lambda>s. allTables (en_catalog s))) (each (\<lambda>dependent.
       each (update_reference (applyUpdateReferentialActions n) parent old new dependent) (ts_foreignKeys dependent)))"

section \<open>Results\<close>

definition message_result :: "string \<Rightarrow> result_set" where
  "message_result m = \<lparr>rs_isQuery = False, rs_columns = [], rs_rows = [], rs_message = m\<rparr>"

text \<open>RETURNING, or the number of rows.\<close>

definition returning_row :: "bool \<Rightarrow> column_ref list \<Rightarrow> row \<Rightarrow> row" where
  "returning_row everything cols r = (if everything then r else map (\<lambda>c. r ! nat (columnIndex c)) cols)"

definition returning_result :: "bool \<Rightarrow> column_ref list \<Rightarrow> string list \<Rightarrow> string \<Rightarrow> row list \<Rightarrow> result_set" where
  "returning_result everything cols names msg rows =
     (if everything \<or> cols \<noteq> [] then
        \<lparr>rs_isQuery = True,
         rs_columns = (if everything then names else map (\<lambda>c. names ! nat (columnIndex c)) cols),
         rs_rows = map (returning_row everything cols) rows, rs_message = []\<rparr>
      else message_result (msg @ nat_str (length rows)))"

definition table_by_id :: "int \<Rightarrow> table_schema option act" where
  "table_by_id tid = ask (\<lambda>s. getTableById (en_catalog s) tid)"

definition check_row :: "table_schema option \<Rightarrow> int \<Rightarrow> row \<Rightarrow> record_id option \<Rightarrow> unit act" where
  "check_row ts tid r exclude =
     (case ts of
        None \<Rightarrow> ret ()
      | Some ts \<Rightarrow> act_bind (checkForeignKeys ts r) (\<lambda>_. enforceConstraints ts tid r exclude))"

section \<open>INSERT\<close>

text \<open>The cells that the statement provides, by the positions of its columns, and which are set.\<close>

fun place_cells :: "nat list \<Rightarrow> row \<Rightarrow> row \<times> bool list \<Rightarrow> row \<times> bool list" where
  "place_cells (i # is) (v # vs) (r, isSet) = place_cells is vs (r[i := v], isSet[i := True])"
| "place_cells _ _ (r, isSet) = (r, isSet)"

text \<open>The counters of the AUTOINCREMENT columns, each with its next value.\<close>

fun fill_auto :: "(nat \<times> i64) list \<Rightarrow> row \<times> bool list \<Rightarrow> (nat \<times> i64) list \<times> row \<times> bool list" where
  "fill_auto [] (r, isSet) = ([], r, isSet)"
| "fill_auto ((c, nxt) # autos) (r, isSet) =
     (if \<not> isSet ! c \<or> isNull (r ! c)
      then case fill_auto autos (r[c := VInt nxt], isSet[c := True]) of (autos, out) \<Rightarrow> ((c, nxt + 1) # autos, out)
      else case fill_auto autos (r, isSet) of (autos, out) \<Rightarrow> ((c, nxt) # autos, out))"

definition fill_defaults :: "table_schema option \<Rightarrow> row \<times> bool list \<Rightarrow> row" where
  "fill_defaults ts = (\<lambda>(r, isSet).
     case ts of
       None \<Rightarrow> r
     | Some ts \<Rightarrow>
         map (\<lambda>c. if \<not> isSet ! c \<and> cs_default (ts_columns ts ! c) \<noteq> None then the (cs_default (ts_columns ts ! c)) else r ! c)
           [0..<length r])"

definition insert_row_values ::
  "table_schema option \<Rightarrow> nat \<Rightarrow> nat list \<Rightarrow> (nat \<times> i64) list \<Rightarrow> row \<Rightarrow> (nat \<times> i64) list \<times> row" where
  "insert_row_values ts ncols places autos provided =
     (case fill_auto autos (place_cells places provided (replicate ncols VNull, replicate ncols False)) of
        (autos, out) \<Rightarrow> (autos, fill_defaults ts out))"

definition greatest_int :: "nat \<Rightarrow> row list \<Rightarrow> i64" where
  "greatest_int c rows =
     foldl (\<lambda>m r. case r ! c of VInt i \<Rightarrow> if sint i > sint m then i else m | _ \<Rightarrow> m) 0 rows"

definition auto_counters :: "table_schema option \<Rightarrow> int \<Rightarrow> schema \<Rightarrow> (nat \<times> i64) list act" where
  "auto_counters ts tid sch =
     (case ts of
        None \<Rightarrow> ret []
      | Some ts \<Rightarrow>
          gather (\<lambda>c. act_bind (scan_rows tid sch) (\<lambda>rows. ret (c, greatest_int c (map fst rows) + 1)))
            (filter (\<lambda>c. cs_autoIncrement (ts_columns ts ! c)) [0..<length sch]))"

definition findConflict :: "int \<Rightarrow> schema \<Rightarrow> int list \<Rightarrow> row \<Rightarrow> (row \<times> record_id) option act" where
  "findConflict tid sch cols cand =
     scan_find tid sch (\<lambda>r rid. \<forall>c\<in>set cols. compareValues (r ! nat c) (cand ! nat c) = Some 0)"

definition assign_cells :: "row \<Rightarrow> (nat \<times> expr) list \<Rightarrow> row \<Rightarrow> row option" where
  "assign_cells origin assigns r =
     foldl (\<lambda>out (i, e). Option.bind out (\<lambda>r. map_option (\<lambda>v. r[i := v]) (evalExpression e origin))) (Some r) assigns"

text \<open>The position of a column of the table, where it has one.\<close>

definition column_place :: "table_schema option \<Rightarrow> string \<Rightarrow> nat option" where
  "column_place ts n =
     Option.bind ts (\<lambda>t. let i = columnIndex_of t n in if i < 0 then None else Some (nat i))"

definition conflict_update ::
  "insert_statement \<Rightarrow> table_schema option \<Rightarrow> schema \<Rightarrow> string list \<Rightarrow> row \<Rightarrow> record_id \<Rightarrow> row act" where
  "conflict_update st ts sch names old rid =
     act_bind (act_of (those (map (column_place ts) (conflictSetColumns st)))) (\<lambda>sets.
      act_bind (act_of (assign_cells old (zip sets (conflictSetValues st)) old)) (\<lambda>new.
      act_bind (check_row ts (ins_tableId st) new (Some rid)) (\<lambda>_.
      act_bind (in_txn (lockOrThrow rid True)) (\<lambda>_.
      act_bind (replace_row True (ins_tableId st) sch names old new rid) (\<lambda>_. ret new)))))"

definition insert_one ::
  "insert_statement \<Rightarrow> table_schema option \<Rightarrow> schema \<Rightarrow> string list \<Rightarrow> row \<Rightarrow> row option act" where
  "insert_one st ts sch names r =
     act_bind (if hasOnConflict st then findConflict (ins_tableId st) sch (map columnIndex (conflictColumns st)) r else ret None)
       (\<lambda>hit. case hit of
          Some (old, rid) \<Rightarrow>
            if conflictDoNothing st then ret None
            else act_bind (conflict_update st ts sch names old rid) (\<lambda>new. ret (Some new))
        | None \<Rightarrow>
            act_bind (check_row ts (ins_tableId st) r None) (\<lambda>_.
            act_bind (store_row (ins_tableId st) sch names r) (\<lambda>_. ret (Some r))))"

fun insert_rows ::
  "insert_statement \<Rightarrow> table_schema option \<Rightarrow> schema \<Rightarrow> string list \<Rightarrow> nat list \<Rightarrow> (nat \<times> i64) list \<Rightarrow> row list \<Rightarrow> row list act" where
  "insert_rows st ts sch names places autos [] = ret []"
| "insert_rows st ts sch names places autos (p # ps) =
     (case insert_row_values ts (length sch) places autos p of (autos, r) \<Rightarrow>
        act_bind (insert_one st ts sch names r) (\<lambda>done.
        act_bind (insert_rows st ts sch names places autos ps) (\<lambda>rest.
          ret (case done of Some r \<Rightarrow> r # rest | None \<Rightarrow> rest))))"

definition provided_rows :: "runner \<Rightarrow> insert_statement \<Rightarrow> row list act" where
  "provided_rows run st =
     (case ins_select st of
        Some q \<Rightarrow> act_bind (run q) (\<lambda>(q, rs). ret (rs_rows rs))
      | None \<Rightarrow> gather (\<lambda>es. gather (\<lambda>e. act_of (evalExpression e [])) es) (ins_rows st))"

definition insert_target_list :: "insert_statement \<Rightarrow> table_schema option \<Rightarrow> schema \<Rightarrow> nat list option" where
  "insert_target_list st ts sch =
     (if ins_columns st = [] then Some [0..<length sch]
      else those (map (column_place ts) (ins_columns st)))"

definition run_insert :: "runner \<Rightarrow> insert_statement \<Rightarrow> result_set act" where
  "run_insert run st =
     act_bind (loadSchema (ins_tableId st)) (\<lambda>(sch, names).
     act_bind clear_columns (\<lambda>_. act_bind (outside_txn (on_versions discardPending)) (\<lambda>_.
     act_bind (table_by_id (ins_tableId st)) (\<lambda>ts.
     act_bind (act_of (insert_target_list st ts sch)) (\<lambda>places.
     act_bind (table_indexes (ins_tableId st)) (\<lambda>ixs.
     act_bind (provided_rows run st) (\<lambda>provided.
     act_bind (auto_counters ts (ins_tableId st) sch) (\<lambda>autos.
     act_bind (insert_rows st ts sch ixs places autos provided) (\<lambda>rows.
     act_bind (outside_txn (on_versions commitPending)) (\<lambda>_.
       ret (returning_result (ins_returningStar st) (ins_returning st) names ''PUT 0 '' rows)))))))))))"

section \<open>DELETE\<close>

text \<open>The loop that picks the rows, with the clause as it is bound.\<close>

definition pick_victim ::
  "runner \<Rightarrow> bool \<Rightarrow> expr option \<times> (row \<times> record_id) list \<Rightarrow> row \<times> record_id \<Rightarrow> (expr option \<times> (row \<times> record_id) list) act" where
  "pick_victim run corr = (\<lambda>(whr, acc) x.
     case whr of
       None \<Rightarrow> ret (whr, acc @ [x])
     | Some e \<Rightarrow>
         act_bind (if corr then bound_row run e (fst x) else act_bind (act_of (predicateTrue e (fst x))) (\<lambda>b. ret (e, b)))
           (\<lambda>(e, b). ret (Some e, if b then acc @ [x] else acc)))"

definition clause_correlated :: "expr option \<Rightarrow> bool" where
  "clause_correlated whr = (case whr of Some e \<Rightarrow> hasCorrelatedSubquery e | None \<Rightarrow> False)"

definition run_delete :: "nat \<Rightarrow> delete_statement \<Rightarrow> result_set act" where
  "run_delete fuel st =
     (let run = run_select fuel; tid = del_tableId st in
      act_bind (loadSchema tid) (\<lambda>(sch, names).
      act_bind (materialize_clause run (del_where st)) (\<lambda>whr.
      act_bind (table_by_id tid) (\<lambda>ts.
      act_bind clear_columns (\<lambda>_. act_bind (outside_txn (on_versions discardPending)) (\<lambda>_.
      act_bind (table_indexes tid) (\<lambda>ixs.
      act_bind (scan_each (SeqScan tid sch None) (pick_victim run (clause_correlated whr)) (whr, [])) (\<lambda>(whr, victims).
      act_bind (case ts of None \<Rightarrow> ret () | Some ts \<Rightarrow> each (\<lambda>(r, rid). applyReferentialActions fuel ts r) victims) (\<lambda>_.
      act_bind (each (\<lambda>(r, rid). erase_row True tid sch ixs r rid) victims) (\<lambda>_.
      act_bind (outside_txn (on_versions commitPending)) (\<lambda>_.
        ret (returning_result (del_returningStar st) (del_returning st) names ''REMOVE '' (map fst victims)))))))))))))"

section \<open>UPDATE\<close>

text \<open>The first row of the FROM table with which the joined row passes.\<close>

fun first_match :: "expr option \<Rightarrow> row \<Rightarrow> row list \<Rightarrow> row option option" where
  "first_match whr r [] = Some None"
| "first_match whr r (f # fs) =
     Option.bind (passes whr (r @ f)) (\<lambda>b. if b then Some (Some f) else first_match whr r fs)"

text \<open>The rows to change, each with the row its new values are computed from.\<close>

definition update_rows :: "runner \<Rightarrow> update_statement \<Rightarrow> schema \<Rightarrow> expr option \<Rightarrow> ((row \<times> record_id) \<times> row) list act" where
  "update_rows run st sch whr =
     (if fromTable st \<noteq> [] then
        act_bind (loadSchema (fromTableId st)) (\<lambda>(fsch, _).
        act_bind (gatherRows (fromTableId st) fsch None) (\<lambda>froms.
        act_bind (gatherRows (upd_tableId st) sch None) (\<lambda>rows.
        act_bind (gather (\<lambda>(r, rid). act_bind (act_of (first_match whr r (map fst froms))) (\<lambda>hit.
            ret (case hit of Some f \<Rightarrow> [((r, rid), r @ f)] | None \<Rightarrow> []))) rows) (\<lambda>outs. ret (concat outs)))))
      else
        act_bind
          (case whr of
             Some e \<Rightarrow>
               if hasCorrelatedSubquery e then
                 act_bind (gatherRows (upd_tableId st) sch None) (\<lambda>rows.
                 act_bind (correlated_rows run fst e rows) (\<lambda>(e, out). ret out))
               else gatherRows (upd_tableId st) sch whr
           | None \<Rightarrow> gatherRows (upd_tableId st) sch None)
          (\<lambda>rows. ret (map (\<lambda>(r, rid). ((r, rid), r)) rows)))"

definition update_one ::
  "nat \<Rightarrow> update_statement \<Rightarrow> table_schema option \<Rightarrow> schema \<Rightarrow> string list \<Rightarrow> (row \<times> record_id) \<times> row \<Rightarrow> row act" where
  "update_one fuel st ts sch ixs = (\<lambda>((r, rid), origin).
     act_bind (in_txn (lockOrThrow rid True)) (\<lambda>_.
     act_bind (act_of (assign_cells origin (zip (map nat (targetIndices st)) (upd_values st)) r)) (\<lambda>new.
     act_bind (check_row ts (upd_tableId st) new (Some rid)) (\<lambda>_.
     act_bind (case ts of None \<Rightarrow> ret () | Some ts \<Rightarrow> applyUpdateReferentialActions fuel ts r new) (\<lambda>_.
     act_bind (replace_row True (upd_tableId st) sch ixs r new rid) (\<lambda>_. ret new))))))"

definition run_update :: "nat \<Rightarrow> update_statement \<Rightarrow> result_set act" where
  "run_update fuel st =
     (let run = run_select fuel; tid = upd_tableId st in
      act_bind (loadSchema tid) (\<lambda>(sch, names).
      act_bind (materialize_clause run (upd_where st)) (\<lambda>whr.
      act_bind (table_by_id tid) (\<lambda>ts.
      act_bind clear_columns (\<lambda>_. act_bind (outside_txn (on_versions discardPending)) (\<lambda>_.
      act_bind (table_indexes tid) (\<lambda>ixs.
      act_bind (update_rows run st sch whr) (\<lambda>rows.
      act_bind (gather (update_one fuel st ts sch ixs) rows) (\<lambda>news.
      act_bind (outside_txn (on_versions commitPending)) (\<lambda>_.
        ret (returning_result (upd_returningStar st) (upd_returning st) names ''MODIFY '' news)))))))))))"

end
