(* ===== verification/Statements.thy ===== *)
theory Statements
  imports Dml
begin

text \<open>
  The remaining statements of \<open>src/src/vm/executor_engine.cpp\<close> and \<open>ExecutorEngine::run\<close>: tables and
  indexes, transactions and set operations. What a statement does to the catalog has mostly been
  done by the analyzer (see \<open>Analyzer\<close>) when it is executed.
\<close>

section \<open>Tables and indexes\<close>

definition on_catalog_act :: "(catalog \<Rightarrow> catalog \<times> 'a) \<Rightarrow> 'a act" where
  "on_catalog_act f = (\<lambda>s. case f (en_catalog s) of (c, x) \<Rightarrow> Some (s\<lparr>en_catalog := c\<rparr>, Inr x))"

definition create_index :: "string \<Rightarrow> int \<Rightarrow> int list \<Rightarrow> bool act" where
  "create_index n tid cols = (\<lambda>s.
     let st = en_store s in
     case im_create (st_indexes st) n tid cols of
       (m, made) \<Rightarrow>
         Some (s\<lparr>en_store := st\<lparr>st_indexes := m, st_names := (if made = None then st_names st else st_names st @ [n])\<rparr>\<rparr>,
               Inr (made \<noteq> None)))"

definition forget_indexes :: "(index_manager \<Rightarrow> index_manager) \<Rightarrow> unit act" where
  "forget_indexes f = with_store (\<lambda>st.
     let m = f (st_indexes st) in st\<lparr>st_indexes := m, st_names := filter (\<lambda>n. byName m n \<noteq> None) (st_names st)\<rparr>)"

definition constraint_index :: "string \<Rightarrow> table_schema \<Rightarrow> int \<Rightarrow> int list \<Rightarrow> unit act" where
  "constraint_index n ts tid cols =
     act_bind (ask (\<lambda>s. cat_hasIndex (en_catalog s) n)) (\<lambda>has.
       if has then ret ()
       else act_bind (on_catalog_act (\<lambda>c. createIndex c n (ts_name ts) (map (\<lambda>i. cs_name (ts_columns ts ! nat i)) cols))) (\<lambda>_.
         act_bind (create_index n tid cols) (\<lambda>_. ret ())))"

definition constraint_indexes :: "table_schema \<Rightarrow> int \<Rightarrow> unit act" where
  "constraint_indexes ts tid =
     act_bind (each (\<lambda>(i, col).
         if cs_primaryKey col \<or> cs_unique col
         then constraint_index (''__uq_'' @ ts_name ts @ ''_'' @ cs_name col) ts tid [int i] else ret ())
       (zip [0..<length (ts_columns ts)] (ts_columns ts))) (\<lambda>_.
     if length (ts_primaryKey ts) \<ge> 2 then constraint_index (''__pk_'' @ ts_name ts) ts tid (ts_primaryKey ts)
     else ret ())"

definition store_query_row :: "int \<Rightarrow> schema \<Rightarrow> string list \<Rightarrow> row \<Rightarrow> unit act" where
  "store_query_row tid sch ixs r =
     (let bytes = serialize r sch in
      act_bind (on_tables (\<lambda>t. insertTuple t tid bytes)) (\<lambda>rid.
      act_bind (each (idx_add_row r rid) ixs) (\<lambda>_. on_versions (\<lambda>vs. stageInsert vs tid rid bytes))))"

definition run_create :: "runner \<Rightarrow> create_statement \<Rightarrow> result_set act" where
  "run_create run st =
     (let tid = ct_tableId st in
      act_bind (on_tables (\<lambda>t. (registerTable t tid, ()))) (\<lambda>_.
      act_bind (table_by_id tid) (\<lambda>ts.
      act_bind (case ts of None \<Rightarrow> ret () | Some ts \<Rightarrow> constraint_indexes ts tid) (\<lambda>_.
        case asQuery st of
          None \<Rightarrow> ret (message_result ''BUILD RELATION'')
        | Some q \<Rightarrow>
            act_bind (loadSchema tid) (\<lambda>(sch, names).
            act_bind (run q) (\<lambda>(q, rs).
            act_bind clear_columns (\<lambda>_.
            act_bind (table_indexes tid) (\<lambda>ixs.
            act_bind (each (store_query_row tid sch ixs) (rs_rows rs)) (\<lambda>_.
            act_bind (on_versions commitPending) (\<lambda>_.
              ret (message_result (''BUILD RELATION AS ('' @ nat_str (length (rs_rows rs)) @ '' rows)''))))))))))))"

definition run_create_index :: "create_idx_statement \<Rightarrow> result_set act" where
  "run_create_index st =
     act_bind (create_index (ci_indexName st) (ci_tableId st) (ci_columnIndices st)) (\<lambda>made.
     act_bind (if made then
         act_bind (loadSchema (ci_tableId st)) (\<lambda>(sch, names).
         scan_each (SeqScan (ci_tableId st) sch None) (\<lambda>_ (r, rid). idx_add_row r rid (ci_indexName st)) ())
       else ret ()) (\<lambda>_. ret (message_result ''BUILD INDEX'')))"

definition truncate_row :: "int \<Rightarrow> string list \<Rightarrow> row \<times> record_id \<Rightarrow> unit act" where
  "truncate_row tid ixs = (\<lambda>(r, rid).
     act_bind (each (idx_remove_row r rid) ixs) (\<lambda>_. on_versions (\<lambda>vs. stageDelete vs tid rid)))"

definition run_truncate :: "int \<Rightarrow> result_set act" where
  "run_truncate tid =
     act_bind (loadSchema tid) (\<lambda>(sch, names).
     act_bind (outside_txn (on_versions discardPending)) (\<lambda>_.
     act_bind (table_indexes tid) (\<lambda>ixs.
     act_bind (scan_each (SeqScan tid sch None) (\<lambda>_. truncate_row tid ixs) ()) (\<lambda>_.
     act_bind (on_tables (\<lambda>t. (truncateTable t tid, ()))) (\<lambda>_.
     act_bind (outside_txn (on_versions commitPending)) (\<lambda>_. ret (message_result ''TRUNCATE RELATION'')))))))"

definition run_drop :: "drop_statement \<Rightarrow> result_set act" where
  "run_drop st =
     act_bind clear_columns (\<lambda>_.
       if is_truncate st then run_truncate (drop_tableId st)
       else if isIndex st then
         act_bind (forget_indexes (\<lambda>m. fst (im_drop m (drop_name st)))) (\<lambda>_. ret (message_result ''DISCARD INDEX''))
       else if isView st then ret (message_result ''DISCARD VIEW'')
       else
         act_bind (on_tables (\<lambda>t. (dropTable t (drop_tableId st), ()))) (\<lambda>_.
         act_bind (forget_indexes (\<lambda>m. im_dropTable m (drop_tableId st))) (\<lambda>_.
           ret (message_result ''DISCARD RELATION''))))"

section \<open>ALTER\<close>

fun name_index :: "string \<Rightarrow> string list \<Rightarrow> nat option" where
  "name_index n [] = None"
| "name_index n (m # ms) = (if m = n then Some 0 else map_option Suc (name_index n ms))"

definition altered :: "alter_statement \<Rightarrow> string list \<Rightarrow> 'a \<Rightarrow> 'a list \<Rightarrow> 'a list" where
  "altered st names x xs =
     (if alter_kind st = AddColumn then xs @ [x]
      else case name_index (dropColumn st) names of Some i \<Rightarrow> remove_nth i xs | None \<Rightarrow> xs)"

definition alter_catalog :: "alter_statement \<Rightarrow> nat \<Rightarrow> catalog \<Rightarrow> catalog" where
  "alter_catalog st width cat =
     (let d = alter_column st in
      if alter_kind st = AddColumn then
        let cat = fst (addColumn cat (alter_table st) (plain_column (cd_name d) (cd_type d) (varcharLength d))) in
        if refTable d = [] then cat
        else fst (addForeignKey cat (alter_table st)
          \<lparr>fk_column = int width - 1, fk_table = refTable d, fk_refColumn = refColumn d,
           fk_onDelete = action_of (refOnDelete d), fk_onUpdate = action_of (refOnUpdate d)\<rparr>)
      else fst (cat_dropColumn cat (alter_table st) (dropColumn st)))"

definition run_alter :: "alter_statement \<Rightarrow> result_set act" where
  "run_alter st =
     (let tid = alter_tableId st in
      act_bind clear_columns (\<lambda>_.
      act_bind (loadSchema tid) (\<lambda>(sch, names).
      act_bind (gatherRows tid sch None) (\<lambda>rows.
      let newSchema = altered st names (cd_type (alter_column st)) sch in
      act_bind (forget_indexes (\<lambda>m. im_dropTable m tid)) (\<lambda>_.
      act_bind (on_tables (\<lambda>t. (registerTable (dropTable t tid) tid, ()))) (\<lambda>_.
      act_bind (each (\<lambda>(r, rid). act_bind (on_tables (\<lambda>t. insertTuple t tid (serialize (altered st names VNull r) newSchema)))
          (\<lambda>_. ret ())) rows) (\<lambda>_.
      act_bind (on_catalog_act (\<lambda>c. (alter_catalog st (length newSchema) c, ()))) (\<lambda>_.
        ret (message_result
          (if alter_kind st = AddColumn then ''RESHAPE RELATION (ADD COLUMN)''
           else ''RESHAPE RELATION (DISCARD COLUMN)''))))))))))"

section \<open>Transactions\<close>

definition begin_txn :: "unit act" where
  "begin_txn = (\<lambda>s. case en_txns s of
       None \<Rightarrow> None
     | Some m \<Rightarrow> (case txn_begin m of (m, tx) \<Rightarrow>
         on_versions (\<lambda>vs. beginSnapshot vs tx) (s\<lparr>en_txns := Some m, en_current := tx\<rparr>)))"

definition commit_txn :: "unit act" where
  "commit_txn = (\<lambda>s. let tx = en_current s in
     act_bind (on_txns (\<lambda>m. commit m tx)) (\<lambda>_.
     act_bind (change_engine (\<lambda>s. s\<lparr>en_current := 0\<rparr>)) (\<lambda>_.
       on_versions (\<lambda>vs. endSnapshot (commitPending vs) tx))) s)"

text \<open>The undo closures run on the store.\<close>

definition rollback_txn :: "unit act" where
  "rollback_txn = (\<lambda>s. case en_txns s of
       None \<Rightarrow> None
     | Some m \<Rightarrow> (case rollback m (Some (en_store s)) (en_current s) of
         (m, None) \<Rightarrow> None
       | (m, Some st) \<Rightarrow>
           on_versions (\<lambda>vs. endSnapshot (discardPending vs) (en_current s))
             (s\<lparr>en_txns := Some m, en_store := st, en_current := 0\<rparr>)))"

definition run_transaction :: "transaction_kind \<Rightarrow> result_set act" where
  "run_transaction kind = (\<lambda>s.
     if en_txns s = None then ret (message_result ''WARNING: transactions unavailable'') s
     else (case kind of
       TxBegin \<Rightarrow>
         if en_current s \<noteq> 0 then ret (message_result ''WARNING: already in a transaction'')
         else act_bind begin_txn (\<lambda>_. ret (message_result ''START''))
     | TxCommit \<Rightarrow>
         if en_current s = 0 then ret (message_result ''WARNING: no transaction in progress'')
         else act_bind commit_txn (\<lambda>_. ret (message_result ''SAVE''))
     | TxRollback \<Rightarrow>
         if en_current s = 0 then ret (message_result ''WARNING: no transaction in progress'')
         else act_bind rollback_txn (\<lambda>_. ret (message_result ''UNDO''))) s)"

section \<open>Set operations and run\<close>

definition set_op_result :: "set_op \<Rightarrow> bool \<Rightarrow> result_set \<Rightarrow> result_set \<Rightarrow> result_set act" where
  "set_op_result op keepAll l r =
     (if length (rs_columns l) \<noteq> length (rs_columns r) then throw ''set operation requires matching column counts''
      else ret \<lparr>rs_isQuery = True, rs_columns = rs_columns l,
                rs_rows = set_op_rows op keepAll (rs_rows l) (rs_rows r), rs_message = []\<rparr>)"

fun run_statement :: "nat \<Rightarrow> statement \<Rightarrow> result_set act" where
  "run_statement fuel (CreateStatement st) = run_create (run_select fuel) st"
| "run_statement fuel (CreateIdxStatement st) = run_create_index st"
| "run_statement fuel (InsertStatement st) = run_insert (run_select fuel) st"
| "run_statement fuel (SelectStatement q) = act_bind (run_select fuel q) (\<lambda>(q, rs). ret rs)"
| "run_statement fuel (DeleteStatement st) = run_delete fuel st"
| "run_statement fuel (UpdateStatement st) = run_update fuel st"
| "run_statement fuel (DropStatement st) = run_drop st"
| "run_statement fuel (AlterStatement st) = run_alter st"
| "run_statement fuel (TransactionStatement kind) = run_transaction kind"
| "run_statement fuel (SetOpStatement op keepAll left right) =
     act_bind (run_statement fuel left) (\<lambda>l. act_bind (run_select fuel right) (\<lambda>(right, r). set_op_result op keepAll l r))"
| "run_statement fuel (CreateViewStatement st) = ret (message_result ''BUILD VIEW'')"

end
