(* ===== verification/EngineFrame.thy ===== *)
theory EngineFrame
  imports Statements
begin

text \<open>
  What the statements of the engine leave alone. An action leaves a part of the state alone when no
  run of it changes the part, whether it returns or throws. The interfaces state what a part must
  be insensitive to: \<open>record_frame\<close> to the records and the indexes, \<open>log_frame\<close> also to the
  log, the locks and the closures registered for undo, \<open>store_frame\<close> to the whole store, and
  \<open>engine_frame\<close> to all of them and the catalog. There every statement is shown to leave the
  part alone, except those that begin or end a transaction.
\<close>

section \<open>Actions\<close>

named_theorems frame

lemma act_runs [simp]:
  "ret x s = Some (s, Inr x)" "throw e s = Some (s, Inl e)" "ask f s = Some (s, Inr (f s))"
  "change_engine h s = Some (h s, Inr ())" "act_sum y s = Some (s, y)"
  by (simp_all add: ret_def throw_def ask_def change_engine_def act_sum_def)

lemma act_of_runs [simp]: "act_of (Some x) s = Some (s, Inr x)" "act_of None s = None"
  by (simp_all add: act_of_def)

lemma bind_runs:
  "m s = Some (s', Inr x) \<Longrightarrow> act_bind m f s = f x s'"
  "m s = Some (s', Inl e) \<Longrightarrow> act_bind m f s = Some (s', Inl e)"
  "m s = None \<Longrightarrow> act_bind m f s = None"
  by (simp_all add: act_bind_def)

lemma bind_simps [simp]:
  "act_bind (ret x) f = f x" "act_bind (throw e) f = throw e" "act_bind m ret = m"
  "act_bind (act_bind m f) g = act_bind m (\<lambda>x. act_bind (f x) g)"
  by (auto simp: fun_eq_iff act_bind_def ret_def throw_def split: option.splits sum.splits prod.splits)

definition leaves :: "(engine \<Rightarrow> 'x) \<Rightarrow> 'a act \<Rightarrow> bool" where
  "leaves f m \<longleftrightarrow> (\<forall>s s' y. m s = Some (s', y) \<longrightarrow> f s' = f s)"

lemma leavesI: "(\<And>s s' y. m s = Some (s', y) \<Longrightarrow> f s' = f s) \<Longrightarrow> leaves f m"
  by (simp add: leaves_def)

lemma leavesD: "leaves f m \<Longrightarrow> m s = Some (s', y) \<Longrightarrow> f s' = f s"
  by (simp add: leaves_def)

lemma leaves_pure [frame]:
  "leaves f (ret x)" "leaves f (throw e)" "leaves f (ask g)" "leaves f (act_of z)" "leaves f (act_sum y)"
  "leaves f (\<lambda>s. Some (s, y))"
  by (auto simp: leaves_def act_of_def)

lemma leaves_bind [frame]: "leaves f m \<Longrightarrow> (\<And>x. leaves f (g x)) \<Longrightarrow> leaves f (act_bind m g)"
  by (fastforce simp: leaves_def act_bind_def split: option.splits sum.splits)

lemma leaves_each [frame]: "(\<And>x. leaves f (g x)) \<Longrightarrow> leaves f (each g xs)"
  by (induction xs) (auto intro!: frame)

lemma leaves_gather: "(\<And>x. x \<in> set xs \<Longrightarrow> leaves f (g x)) \<Longrightarrow> leaves f (gather g xs)"
  by (induction xs) (auto intro!: frame)

lemma leaves_only_if [frame]: "leaves f m \<Longrightarrow> leaves f (only_if b m)"
  by (simp add: only_if_def frame)

lemma leaves_in_txn [frame]: "leaves f m \<Longrightarrow> leaves f (in_txn m)"
  by (auto simp: leaves_def in_txn_def only_if_def)

lemma leaves_outside_txn [frame]: "leaves f m \<Longrightarrow> leaves f (outside_txn m)"
  by (auto simp: leaves_def outside_txn_def only_if_def)

section \<open>Parts that do not look at the records and the indexes\<close>

locale record_frame =
  fixes part :: "engine \<Rightarrow> 'x"
  assumes record_free: "part (s\<lparr>en_store := (en_store s)\<lparr>st_indexes := ixs, st_tables := t\<rparr>\<rparr>) = part s"
begin

lemma tables_free: "part (s\<lparr>en_store := (en_store s)\<lparr>st_tables := t\<rparr>\<rparr>) = part s"
proof -
  have "(en_store s)\<lparr>st_tables := t\<rparr> = (en_store s)\<lparr>st_indexes := st_indexes (en_store s), st_tables := t\<rparr>" by simp
  then show ?thesis by (simp only: record_free)
qed

lemma part_put_tables [simp]: "part (put_tables t s) = part s"
  by (simp add: put_tables_def tables_free)

lemma record_actions [frame]:
  "leaves part (on_tables h)" "leaves part (reading i)" "leaves part (on_index n k)"
  by (auto intro!: leavesI simp: on_tables_def reading_def on_index_def index_op_def bind_eq_Some_conv
    record_free split: prod.splits)

lemma reads_of_state [frame]:
  "leaves part (table_indexes tid)" "leaves part (column_index tid col)" "leaves part (loadSchema tid)"
  "leaves part (the_index n)" "leaves part (table_by_id tid)"
  by (auto intro!: leavesI simp: table_indexes_def column_index_def loadSchema_def the_index_def table_by_id_def
    split: option.splits)

lemma index_actions [frame]:
  "leaves part (idx_lookup n key)" "leaves part (idx_rangeScan n lo hi)"
  "leaves part (idx_add_row r rid n)" "leaves part (idx_remove_row r rid n)"
  by (auto intro!: frame simp: idx_lookup_def idx_rangeScan_def idx_add_row_def idx_remove_row_def)

lemma idx_keys_leaves [frame]: "leaves part (idx_keys r names)"
  by (auto intro!: frame leaves_gather simp: idx_keys_def)

lemma scan_actions [frame]: "leaves part (scan_rows tid sch)" "leaves part (scan_find tid sch p)" "leaves part (fetch_row sch rid)"
  by (auto intro!: frame simp: scan_rows_def scan_find_def fetch_row_def split: option.split)

lemma scan_loop_leaves:
  "scan_loop g ex acc s = Some z \<Longrightarrow> (\<forall>acc x. leaves part (g acc x)) \<longrightarrow> part (fst z) = part s"
proof (erule scan_loop.raw_induct [where P = "\<lambda>g ex acc s z. (\<forall>acc x. leaves part (g acc x)) \<longrightarrow> part (fst z) = part s", rotated])
  fix loop :: "('b \<Rightarrow> row \<times> record_id \<Rightarrow> 'b act) \<Rightarrow> executor \<Rightarrow> 'b \<Rightarrow> 'b act" and g ex acc s z
  assume 1: "\<And>g ex acc s z. loop g ex acc s = Some z \<Longrightarrow> (\<forall>acc x. leaves part (g acc x)) \<longrightarrow> part (fst z) = part s"
    "Option.bind (exec_next ex (st_tables (en_store s))) (\<lambda>(ex, t, out).
       case out of
         Threw e \<Rightarrow> Some (put_tables t s, Inl e)
       | Exhausted \<Rightarrow> Some (put_tables t s, Inr acc)
       | Fetched r rid \<Rightarrow>
           Option.bind (g acc (r, rid) (put_tables t s)) (\<lambda>(s, x).
             case x of Inl e \<Rightarrow> Some (s, Inl e) | Inr acc \<Rightarrow> loop g ex acc s)) = Some z"
  obtain ex' t out where e: "exec_next ex (st_tables (en_store s)) = Some (ex', t, out)"
    using 1(2) by (auto simp: bind_eq_Some_conv)
  show "(\<forall>acc x. leaves part (g acc x)) \<longrightarrow> part (fst z) = part s"
  proof (intro impI, cases out)
    case (Fetched r rid)
    assume g: "\<forall>acc x. leaves part (g acc x)"
    obtain s1 y where y: "g acc (r, rid) (put_tables t s) = Some (s1, y)"
      using 1(2) e Fetched by (auto simp: bind_eq_Some_conv)
    have s1: "part s1 = part s" using leavesD [of part "g acc (r, rid)", OF _ y] g by simp
    show "part (fst z) = part s"
      using 1(2) e Fetched y s1 g by (cases y) (auto dest: 1(1))
  qed (use 1(2) e in auto)
qed

lemma scan_each_leaves [frame]: "(\<And>acc x. leaves part (g acc x)) \<Longrightarrow> leaves part (scan_each ex g acc)"
  unfolding scan_each_def by (intro frame leavesI) (metis fst_conv scan_loop_leaves)

lemma matching_rows_leaves [frame]: "leaves part (matching_rows dep fk v)"
  by (auto intro!: frame simp: matching_rows_def)

lemma composite_candidates_leaves [frame]: "leaves part (composite_candidates eqs ixs)"
  by (induction ixs) (auto intro!: frame split: option.split)

lemma candidates_leave [frame]:
  "leaves part (term_candidates tid op c key)" "leaves part (between_candidates tid v lo hi)"
  "leaves part (try_composite tid e)"
  by (auto intro!: frame simp: term_candidates_def between_candidates_def try_composite_def Let_def
    split: option.splits comparison_op.splits expr.splits)

lemma indexCandidates_leaves [frame]: "leaves part (indexCandidates tid e)"
  by (induction tid e rule: indexCandidates.induct) (auto intro!: frame simp: or_else_def split: option.splits)

lemma any_candidate_leaves [frame]: "leaves part (any_candidate sch p rids)"
  by (induction rids) (auto intro!: frame split: option.split)

lemma constraint_checks_leave [frame]:
  "leaves part (parentHasValue rt rc v)" "leaves part (checkForeignKeys ts r)" "leaves part (valueExists tid col v ts ex)"
  by (auto intro!: frame simp: parentHasValue_def checkForeignKeys_def checkForeignKey_def valueExists_def Let_def
    split: option.splits)

lemma enforce_leaves [frame]: "leaves part (enforceConstraints ts tid r ex)" "leaves part (check_row tso tid r ex)"
  by (auto intro!: frame simp: enforceConstraints_def enforce_column_def enforce_primary_key_def check_row_def Let_def
    split: option.splits)

end

section \<open>Parts that do not look at the log, the locks and the closures either\<close>

locale log_frame = record_frame +
  assumes lock_free: "en_txns s = Some m \<Longrightarrow> part (s\<lparr>en_txns := Some (m\<lparr>tx_locks := l\<rparr>)\<rparr>) = part s"
    and log_free: "part (s\<lparr>en_txns := map_option (\<lambda>m. write_log m r) (en_txns s)\<rparr>) = part s"
    and undo_free: "part (s\<lparr>en_txns := map_option (\<lambda>m. registerUndo m tx u) (en_txns s)\<rparr>) = part s"
begin

lemma same_txns: "en_txns s = x \<Longrightarrow> part (s\<lparr>en_txns := x\<rparr>) = part s"
  by (metis engine.surjective engine.update_convs(3))

lemma lock_leaves [frame]: "leaves part (lockOrThrow rid b)"
  using lock_free [where l = None] by (intro leavesI) (auto simp: lockOrThrow_def lockExclusive_def lockShared_def lock_with_def lock_free
    same_txns split: option.splits prod.splits if_splits)

lemma log_actions [frame]:
  "leaves part (on_current (\<lambda>m tx. logInsert m tx tid rid b))" "leaves part (on_current (\<lambda>m tx. logDelete m tx tid rid b))"
  "leaves part (on_current (\<lambda>m tx. registerUndo m tx u))"
  by (auto intro!: leavesI simp: on_current_def on_txns_def logInsert_def logDelete_def log_free undo_free)

lemma gatherRows_leaves [frame]: "leaves part (gatherRows tid sch whr)"
  by (auto intro!: frame leaves_gather simp: gatherRows_def locked_row_def candidate_row_def split: option.splits)

text \<open>A change that is not staged leaves the versions alone.\<close>

lemma unstaged_changes_leave [frame]:
  "leaves part (replace_row False tid sch names old new rid)" "leaves part (erase_row False tid sch names old rid)"
  by (auto intro!: frame simp: replace_row_def erase_row_def only_if_def Let_def)

lemma delete_actions_leave [frame]: "leaves part (applyReferentialActions n parent r)"
  by (induction n arbitrary: parent r)
    (auto intro!: frame leavesI [of "\<lambda>s. None"] simp: delete_reference_def delete_dependent_def split: option.split)

end

section \<open>Parts that do not look at the store\<close>

locale store_frame = record_frame +
  assumes store_free: "part (s\<lparr>en_store := st\<rparr>) = part s"
begin

lemma store_actions [frame]: "leaves part (with_store g)" "leaves part (on_versions j)" "leaves part clear_columns"
  by (auto intro!: leavesI simp: with_store_def on_versions_def clear_columns_def store_free)

lemma forget_indexes_leaves [frame]: "leaves part (forget_indexes d)"
  by (auto intro!: frame simp: forget_indexes_def Let_def)

lemma get_columns_leaves [frame]: "leaves part (get_columns tid sch)"
  by (rule leavesI) (fastforce simp: get_columns_def Let_def store_free map_option_case
    split: option.split_asm prod.split_asm sum.split_asm)

lemma run_drop_leaves [frame]: "leaves part (run_drop ds)"
  by (auto intro!: frame simp: run_drop_def run_truncate_def truncate_row_def)

end

section \<open>Parts that only transactions begin and end\<close>

locale engine_frame = store_frame + log_frame +
  assumes catalog_free: "part (s\<lparr>en_catalog := c\<rparr>) = part s"
begin

lemma reading_rows_leave [frame]:
  "leaves part (findConflict tid sch cols r)" "leaves part (estimateRows tid)" "leaves part (auto_counters tso tid sch)"
  by (auto intro!: frame leaves_gather simp: findConflict_def estimateRows_def auto_counters_def split: option.splits)

lemma row_changes_leave [frame]:
  "leaves part (replace_row staged tid sch names old new rid)" "leaves part (erase_row staged tid sch names old rid)"
  "leaves part (store_row tid sch names r)"
  by (auto intro!: frame simp: replace_row_def erase_row_def store_row_def Let_def)

lemma update_actions_leave [frame]: "leaves part (applyUpdateReferentialActions n parent old new)"
  by (induction n arbitrary: parent old new)
    (auto intro!: frame leavesI [of "\<lambda>s. None"] simp: update_reference_def update_dependent_def Let_def split: option.split)

text \<open>Queries, when the queries they run leave the part alone.\<close>

lemma materializeSubquery_leaves: "(\<And>q. leaves part (run q)) \<Longrightarrow> leaves part (materializeSubquery run sq)"
  by (cases sq) (auto intro!: frame)

lemma materializeSubqueries_leaves: "(\<And>q. leaves part (run q)) \<Longrightarrow> leaves part (materializeSubqueries run e)"
  by (induction run e rule: materializeSubqueries.induct)
    (auto intro!: frame leaves_gather materializeSubquery_leaves simp: materialize_plain_def split: option.split)

lemma materialize_clause_leaves: "(\<And>q. leaves part (run q)) \<Longrightarrow> leaves part (materialize_clause run eo)"
  by (auto intro!: frame materializeSubqueries_leaves simp: materialize_clause_def split: option.split)

lemma materialize_select_leaves: "(\<And>q. leaves part (run q)) \<Longrightarrow> leaves part (materialize_select run q)"
  by (cases q) (auto intro!: frame leaves_gather materialize_clause_leaves)

lemma bindSubquery_leaves: "(\<And>q. leaves part (run q)) \<Longrightarrow> leaves part (bindSubquery run outer sq)"
  by (cases sq) (simp add: materializeSubquery_leaves del: materializeSubquery.simps)

lemma bindCorrelated_leaves: "(\<And>q. leaves part (run q)) \<Longrightarrow> leaves part (bindCorrelated run outer e)"
  by (induction run outer e rule: bindCorrelated.induct)
    (auto intro!: frame leaves_gather bindSubquery_leaves simp: bind_own_def split: option.splits)

lemmas runner_leaves = materialize_clause_leaves materialize_select_leaves bindCorrelated_leaves

lemma put_view_leaves [frame]: "leaves part (put_view tid q)"
  by (auto intro!: leavesI simp: put_view_def catalog_free split: option.split)

lemma snapshot_rows_leaves [frame]: "leaves part (snapshot_rows sch whr bs)"
  by (induction bs) (auto intro!: frame)

lemma table_source_leaves:
  "(\<And>q. leaves part (run q)) \<Longrightarrow> leaves part (gatherBaseRows run tid sch whr)"
  "(\<And>q. leaves part (run q)) \<Longrightarrow> leaves part (table_source run asof tid sch whr)"
  by (auto intro!: frame simp: table_source_def gatherBaseRows_def keep_passing_def split: option.split)

lemma correlated_rows_leaves: "(\<And>q. leaves part (run q)) \<Longrightarrow> leaves part (correlated_rows run f e xs)"
  by (induction xs arbitrary: e) (auto intro!: frame bindCorrelated_leaves simp: bound_row_def)

lemma where_rows_leaves: "(\<And>q. leaves part (run q)) \<Longrightarrow> leaves part (where_rows run q sch)"
  by (auto intro!: frame correlated_rows_leaves table_source_leaves simp: where_rows_def sourceRows_def split: option.split)

lemma project_rows_leaves: "(\<And>q. leaves part (run q)) \<Longrightarrow> leaves part (project_rows run cols rows)"
proof (induction rows arbitrary: cols)
  case (Cons r rows)
  have "leaves part (project_row run r cs)" for cs
    by (induction cs) (auto intro!: frame bindCorrelated_leaves Cons.prems simp: project_cell_def split: option.split)
  with Cons show ?case by (auto intro!: frame)
qed (auto intro!: frame)

lemma projected_leaves: "(\<And>q. leaves part (run q)) \<Longrightarrow> leaves part (projected run q names rows)"
  by (auto intro!: frame project_rows_leaves simp: projected_def Let_def)

lemma single_result_leaves: "(\<And>q. leaves part (run q)) \<Longrightarrow> leaves part (single_result run q)"
  by (auto intro!: frame where_rows_leaves projected_leaves
    simp: single_result_def vectorized_aggregate_def grouped_result_def Let_def)

lemma gather_joins_leaves: "(\<And>q. leaves part (run q)) \<Longrightarrow> leaves part (gather_joins run q jcs)"
  by (induction jcs) (auto intro!: frame table_source_leaves simp: gatherJoinInput_def)

lemma join_rows_leave:
  "(\<And>q. leaves part (run q)) \<Longrightarrow> leaves part (nway_rows run q)"
  "(\<And>q. leaves part (run q)) \<Longrightarrow> leaves part (two_way_rows run q)"
  by (auto intro!: frame gather_joins_leaves table_source_leaves
    simp: nway_rows_def two_way_rows_def gatherJoinInput_def keep_passing_def)

lemma explain_leaves [frame]: "leaves part (explainSelect q)"
  by (auto intro!: frame simp: explainSelect_def join_label_def Let_def split: option.split)

lemma run_select_leaves: "leaves part (run_select n q)"
proof (induction n arbitrary: q)
  case (Suc n)
  then show ?case
    by (auto intro!: frame runner_leaves projected_leaves single_result_leaves join_rows_leave table_source_leaves
      simp: select_body_def window_result_def)
qed (simp add: leaves_def)

lemma catalog_actions [frame]: "leaves part (on_catalog_act c)" "leaves part (create_index n tid cols)"
  by (auto intro!: leavesI simp: on_catalog_act_def create_index_def catalog_free store_free Let_def split: prod.splits)

lemma conflict_leaves [frame]: "leaves part (conflict_update st ts sch names old rid)"
  by (auto intro!: frame simp: conflict_update_def Let_def)

lemma insert_rows_leaves [frame]: "leaves part (insert_rows st ts sch names places autos rows)"
  by (induction rows arbitrary: autos) (auto intro!: frame simp: insert_one_def split: option.split prod.split)

lemma run_insert_leaves: "(\<And>q. leaves part (run q)) \<Longrightarrow> leaves part (run_insert run st)"
  by (auto intro!: frame leaves_gather simp: run_insert_def provided_rows_def split: option.split)

lemma run_delete_leaves: "leaves part (run_delete n st)"
  by (auto intro!: frame runner_leaves run_select_leaves
    simp: run_delete_def pick_victim_def bound_row_def Let_def split: option.split)

lemma update_rows_leaves: "(\<And>q. leaves part (run q)) \<Longrightarrow> leaves part (update_rows run st sch whr)"
  by (auto intro!: frame leaves_gather correlated_rows_leaves simp: update_rows_def split: option.split)

lemma run_update_leaves: "leaves part (run_update n st)"
  by (auto intro!: frame leaves_gather runner_leaves run_select_leaves update_rows_leaves
    simp: run_update_def update_one_def Let_def split: option.split)

lemma run_create_leaves: "(\<And>q. leaves part (run q)) \<Longrightarrow> leaves part (run_create run st)"
  by (auto intro!: frame simp: run_create_def constraint_indexes_def constraint_index_def store_query_row_def Let_def
    split: option.split)

lemma other_statements_leave:
  "leaves part (run_create_index ci)" "leaves part (run_drop ds)" "leaves part (run_alter al)"
  "leaves part (set_op_result op keepAll l r)"
  by (auto intro!: frame simp: run_create_index_def run_alter_def set_op_result_def Let_def)

end

section \<open>The current transaction\<close>

text \<open>What only transaction statements change: the current transaction, the transactions that are
  active and the next identifier.\<close>

definition txn_part :: "engine \<Rightarrow> int \<times> (int set \<times> int) option" where
  "txn_part s = (en_current s, map_option (\<lambda>m. (dom (active m), nextTxnId m)) (en_txns s))"

lemma dom_registerUndo: "dom (active (registerUndo m tx u)) = dom (active m)"
  by (auto simp: registerUndo_def split: option.split)

interpretation txns: engine_frame txn_part
  by unfold_locales
    (auto simp: txn_part_def write_log_def dom_registerUndo option.map_comp o_def registerUndo_simps(1) simp del: registerUndo_simps(4) intro!: option.map_cong)

text \<open>The engine is in the transaction that is active, and in none when none is.\<close>

definition txn_state_ok :: "engine \<Rightarrow> bool" where
  "txn_state_ok s \<longleftrightarrow>
     (case txn_part s of
        (cur, None) \<Rightarrow> True
      | (cur, Some (act, nxt)) \<Rightarrow> nxt > 0 \<and> act = (if cur = 0 then {} else {cur}))"

lemma leaves_txn_state: "leaves txn_part m \<Longrightarrow> m s = Some (s', y) \<Longrightarrow> txn_state_ok s' = txn_state_ok s"
  using leavesD [of txn_part m] by (simp add: txn_state_ok_def)

lemma txn_part_store [simp]: "txn_part (s\<lparr>en_store := st\<rparr>) = txn_part s"
  by (simp add: txn_part_def)

lemma on_versions_runs: "on_versions f s = Some (s\<lparr>en_store := (en_store s)\<lparr>st_versions := f (st_versions (en_store s))\<rparr>\<rparr>, Inr ())"
  by (simp add: on_versions_def with_store_def)

lemma run_transaction_state:
  assumes "txn_state_ok s" "run_transaction kind s = Some (s', y)"
  shows "txn_state_ok s'"
proof (cases "en_txns s")
  case (Some m)
  have m: "nextTxnId m > 0" "dom (active m) = (if en_current s = 0 then {} else {en_current s})"
    using assms(1) Some by (simp_all add: txn_state_ok_def txn_part_def)
  have gone: "en_current s \<noteq> 0 \<Longrightarrow> (active m)(en_current s := None) = Map.empty"
    using m(2) by (auto simp: fun_eq_iff)
  show ?thesis
    using assms Some m
    by (cases kind)
      (auto simp: gone run_transaction_def begin_txn_def commit_txn_def rollback_txn_def on_versions_runs act_bind_def
        on_txns_def txn_state_ok_def txn_part_def txn_begin_def commit_manager rollback_runs write_log_def Let_def
        split: if_splits option.splits prod.splits)
qed (use assms in \<open>auto simp: run_transaction_def\<close>)

text \<open>Actions after which the state is as it must be.\<close>

definition keeps_state :: "'a act \<Rightarrow> bool" where
  "keeps_state m \<longleftrightarrow> (\<forall>s s' y. m s = Some (s', y) \<longrightarrow> txn_state_ok s \<longrightarrow> txn_state_ok s')"

lemma keeps_state_leaves: "leaves txn_part m \<Longrightarrow> keeps_state m"
  using leaves_txn_state by (auto simp: keeps_state_def)

lemma keeps_state_bind: "keeps_state m \<Longrightarrow> (\<And>x. keeps_state (f x)) \<Longrightarrow> keeps_state (act_bind m f)"
  by (fastforce simp: keeps_state_def act_bind_def split: option.splits sum.splits)

lemmas statements_leave = txns.run_create_leaves [OF txns.run_select_leaves] txns.run_insert_leaves [OF txns.run_select_leaves]
  txns.run_delete_leaves txns.run_update_leaves txns.run_drop_leaves txns.other_statements_leave txns.run_select_leaves

lemma keeps_run_statement: "keeps_state (run_statement n st)"
proof (induction n st rule: run_statement.induct)
  case (9 n kind)
  show ?case using run_transaction_state by (simp add: keeps_state_def)
next
  case (10 n op keepAll left right)
  have "keeps_state (act_bind (run_select n right) (\<lambda>(right, r). set_op_result op keepAll l r))" for l
    by (intro keeps_state_bind) (auto intro: keeps_state_leaves statements_leave)
  with 10 show ?case by (auto intro: keeps_state_bind)
next
  case (4 n q)
  show ?case by (auto intro!: keeps_state_bind keeps_state_leaves statements_leave frame)
qed (simp_all add: keeps_state_leaves statements_leave leaves_pure)

inductive engine_step :: "engine \<Rightarrow> engine \<Rightarrow> bool" where
  statement: "run_statement n st s = Some (s', out) \<Longrightarrow> engine_step s s'"

inductive_cases engine_stepE: "engine_step s s'"

definition fresh_engine :: "store \<Rightarrow> catalog \<Rightarrow> wal option \<Rightarrow> locks option \<Rightarrow> nat \<Rightarrow> heap_choice \<Rightarrow> engine" where
  "fresh_engine st cat w lk cores pick =
     \<lparr>en_store = st, en_catalog = cat, en_txns = Some (txn_open w lk), en_current = 0, en_cores = cores, en_pick = pick\<rparr>"

lemma session_state: "engine_step\<^sup>*\<^sup>* s s' \<Longrightarrow> txn_state_ok s \<Longrightarrow> txn_state_ok s'"
proof (induction rule: rtranclp_induct)
  case (step s1 s2)
  obtain n st out where "run_statement n st s1 = Some (s2, out)" using step(2) by (rule engine_stepE)
  then show ?case using step keeps_run_statement [of n st] by (auto simp: keeps_state_def)
qed

lemma fresh_engine_ok: "txn_state_ok (fresh_engine st cat w lk cores pick)"
  by (simp add: txn_state_ok_def txn_part_def fresh_engine_def txn_open_def)

section \<open>What the statements forget\<close>

interpretation versions: log_frame "\<lambda>s. st_versions (en_store s)"
  by unfold_locales simp_all

interpretation managers: store_frame en_txns
  by unfold_locales simp_all

text \<open>DELETE CASCADE and SET NULL change rows of other tables without telling the version store, so a
  snapshot and AS OF still show the rows that were removed.\<close>

lemma cascade_not_versioned:
  "applyReferentialActions n parent r s = Some (s', y) \<Longrightarrow> st_versions (en_store s') = st_versions (en_store s)"
  by (rule leavesD [OF versions.delete_actions_leave])

text \<open>TRUNCATE and DROP neither log nor register a closure: inside a transaction UNDO does not bring
  the rows back.\<close>

lemma truncate_not_undone: "run_drop st s = Some (s', y) \<Longrightarrow> en_txns s' = en_txns s"
  by (rule leavesD [OF managers.run_drop_leaves])

section \<open>Properties\<close>

text \<open>C30: A session of any statements, from an engine that has just been opened: after every statement,
  whether it returned or threw, the transaction the engine is in is the one and only transaction
  that is active in the manager, and when it is in none, none is active.\<close>

theorem session_transaction:
  assumes "engine_step\<^sup>*\<^sup>* (fresh_engine st cat w lk cores pick) s" "en_txns s = Some m"
  shows "dom (active m) = (if en_current s = 0 then {} else {en_current s})"
  using session_state [OF assms(1) fresh_engine_ok] assms(2) by (simp add: txn_state_ok_def txn_part_def)

definition demo_store :: store where
  "demo_store = \<lparr>st_tables = empty_tables, st_indexes = \<lparr>byName = Map.empty, im_pool = tm_pool empty_tables\<rparr>, st_names = [], st_arrange = id,
     st_versions = vstore_open, st_columns = Map.empty\<rparr>"

theorem session_transaction_witness:
  "\<exists>s m. engine_step\<^sup>*\<^sup>* (fresh_engine demo_store empty_catalog None None 1 queue) s \<and> en_txns s = Some m \<and>
     en_current s = 1 \<and> dom (active m) = {1}"
proof -
  define s0 where "s0 = fresh_engine demo_store empty_catalog None None 1 queue"
  obtain s out where run: "run_statement 0 (TransactionStatement TxBegin) s0 = Some (s, out)" and s: "en_current s = 1"
    and m: "en_txns s \<noteq> None"
    by (auto simp: s0_def fresh_engine_def run_transaction_def begin_txn_def txn_begin_def txn_open_def on_versions_runs
      act_bind_def write_log_def Let_def)
  have "engine_step\<^sup>*\<^sup>* s0 s" using statement [OF run] by (rule r_into_rtranclp)
  moreover obtain m where "en_txns s = Some m" using m by blast
  ultimately show ?thesis using session_transaction [of demo_store empty_catalog None None 1 queue s m] s
    by (auto simp: s0_def)
qed

end
