(* ===== verification/RowChanges.thy ===== *)
theory RowChanges
  imports EngineFrame
begin

text \<open>
  What UNDO gives back. A statement inside a transaction changes rows by \<open>store_row\<close>, \<open>erase_row\<close> and
  \<open>replace_row\<close> (see \<open>Dml\<close>), which register the closures \<open>undo_insert\<close>, \<open>undo_delete\<close> and
  \<open>undo_update\<close>. On tables without an index each of these closures changes the tables of the store as
  \<open>heap.do_op\<close> of theory \<open>Txn\<close> does, so that the law of \<open>record_store\<close> on running them backwards
  applies to the engine.
\<close>

section \<open>The closures on tables without an index\<close>

text \<open>A closure that changes only the tables of the store, by a function of the tables.\<close>

definition lifts :: "(store option \<Rightarrow> store option) \<Rightarrow> (tables \<Rightarrow> tables) \<Rightarrow> bool" where
  "lifts u h \<longleftrightarrow> (\<forall>st. u (Some st) = Some (st\<lparr>st_tables := h (st_tables st)\<rparr>))"

lemma lifts_undo:
  "lifts (undo_insert rid []) (\<lambda>t. fst (eraseTuple t rid))"
  "lifts (undo_delete tid b []) (\<lambda>t. fst (insertTuple t tid b))"
  "lifts (undo_update tid nr b [] []) (\<lambda>t. fst (insertTuple (fst (eraseTuple t nr)) tid b))"
  by (simp_all add: lifts_def undo_insert_def undo_delete_def undo_update_def put_back_def store_insert_def store_erase_def
    split: prod.split)

lemma lifts_all: "list_all2 lifts us hs \<Longrightarrow>
    foldl (\<lambda>so u. u so) (Some st) (rev us) = Some (st\<lparr>st_tables := heap.undo_all (st_tables st) hs\<rparr>)"
proof (induction us hs arbitrary: st rule: list_all2_induct)
  case (Cons u us h hs)
  then show ?case by (simp add: lifts_def)
qed simp

section \<open>Changes of rows\<close>

text \<open>The changes of rows that return, one after the other, and what each is to the tables.\<close>

inductive row_changes :: "row_op list \<Rightarrow> engine \<Rightarrow> engine \<Rightarrow> bool" where
  unchanged: "row_changes [] s s"
| stored: "store_row tid sch [] r s = Some (s1, Inr ()) \<Longrightarrow> row_changes ops s1 s2 \<Longrightarrow>
    row_changes (RInsert tid (serialize r sch) # ops) s s2"
| erased: "erase_row staged tid sch [] old rid s = Some (s1, Inr ()) \<Longrightarrow> row_changes ops s1 s2 \<Longrightarrow>
    row_changes (RDelete tid rid (serialize old sch) # ops) s s2"
| replaced: "replace_row staged tid sch [] old new rid s = Some (s1, Inr ()) \<Longrightarrow> row_changes ops s1 s2 \<Longrightarrow>
    row_changes (RUpdate tid rid (serialize old sch) (serialize new sch) # ops) s s2"

text \<open>The engine is in a transaction, whose closures are given.\<close>

definition in_transaction :: "engine \<Rightarrow> (store option \<Rightarrow> store option) list \<Rightarrow> bool" where
  "in_transaction s us \<longleftrightarrow> en_current s \<noteq> 0 \<and> (\<exists>m. en_txns s = Some m \<and> active m (en_current s) = Some us)"

lemma in_transaction_active: "in_transaction s us \<Longrightarrow> txnActive s"
  by (auto simp: in_transaction_def txnActive_def)

text \<open>What the actions do that a change is made of.\<close>

lemma lock_step:
  assumes "lockOrThrow rid b s = Some (s', Inr ())" "in_transaction s us"
  shows "in_transaction s' us" "en_current s' = en_current s" "en_store s' = en_store s"
  using assms by (auto simp: lockOrThrow_def in_transaction_def lockExclusive_def lockShared_def lock_with_def
    split: if_splits option.splits prod.splits)

lemma log_steps:
  assumes "in_transaction s us"
  shows "\<exists>s'. on_current (\<lambda>m tx. logInsert m tx tid rid b) s = Some (s', Inr ()) \<and> in_transaction s' us \<and>
      en_current s' = en_current s \<and> en_store s' = en_store s"
    "\<exists>s'. on_current (\<lambda>m tx. logDelete m tx tid rid b) s = Some (s', Inr ()) \<and> in_transaction s' us \<and>
      en_current s' = en_current s \<and> en_store s' = en_store s"
    "\<exists>s'. on_current (\<lambda>m tx. registerUndo m tx u) s = Some (s', Inr ()) \<and> in_transaction s' (us @ [u]) \<and>
      en_current s' = en_current s \<and> en_store s' = en_store s"
  using assms by (auto simp: in_transaction_def on_current_def on_txns_def logInsert_def logDelete_def registerUndo_def)

lemma store_steps:
  "on_tables f s = Some (put_tables (fst (f (st_tables (en_store s)))) s, Inr (snd (f (st_tables (en_store s)))))"
  "in_transaction (put_tables t s) us = in_transaction s us" "en_current (put_tables t s) = en_current s"
  "st_tables (en_store (put_tables t s)) = t"
  "in_transaction (s\<lparr>en_store := st\<rparr>) us = in_transaction s us"
  by (simp_all add: on_tables_def put_tables_def in_transaction_def split: prod.split)

lemma no_keys: "idx_keys r [] = ret []" "each f [] = ret ()"
  by (simp_all add: idx_keys_def act_bind_def ret_def fun_eq_iff)

text \<open>The states between the actions of a change: in the transaction \<open>tx\<close> with the closures \<open>us\<close>, and
  with the tables \<open>t\<close>. \<open>does P m Q\<close>: from a state with \<open>P\<close>, where \<open>m\<close> returns, its state and result
  have \<open>Q\<close>.\<close>

definition within :: "int \<Rightarrow> (store option \<Rightarrow> store option) list \<Rightarrow> tables \<Rightarrow> engine \<Rightarrow> bool" where
  "within tx us t s \<longleftrightarrow> in_transaction s us \<and> en_current s = tx \<and> st_tables (en_store s) = t"

definition does :: "(engine \<Rightarrow> bool) \<Rightarrow> 'a act \<Rightarrow> ('a \<Rightarrow> engine \<Rightarrow> bool) \<Rightarrow> bool" where
  "does P m Q \<longleftrightarrow> (\<forall>s s' y. P s \<longrightarrow> m s = Some (s', Inr y) \<longrightarrow> Q y s')"

lemma doesI: "(\<And>s s' y. P s \<Longrightarrow> m s = Some (s', Inr y) \<Longrightarrow> Q y s') \<Longrightarrow> does P m Q"
  by (simp add: does_def)

lemma doesD: "does P m Q \<Longrightarrow> P s \<Longrightarrow> m s = Some (s', Inr y) \<Longrightarrow> Q y s'"
  by (simp add: does_def)

lemma does_bind: "does P m R \<Longrightarrow> (\<And>y. does (R y) (f y) Q) \<Longrightarrow> does P (act_bind m f) Q"
  by (fastforce simp: does_def act_bind_def split: option.splits sum.splits)

named_theorems steps

lemma does_lock [steps]: "does (within tx us t) (lockOrThrow rid b) (\<lambda>_. within tx us t)"
  using lock_step by (fastforce simp: within_def intro!: doesI)

lemma does_within:
  assumes "\<And>s. in_transaction s us \<Longrightarrow> \<exists>s'. m s = Some (s', Inr ()) \<and> in_transaction s' us' \<and>
      en_current s' = en_current s \<and> en_store s' = en_store s"
  shows "does (within tx us t) m (\<lambda>_. within tx us' t)"
proof (rule doesI)
  fix s s' y
  assume s: "within tx us t s" "m s = Some (s', Inr y)"
  then have "in_transaction s us" by (simp add: within_def)
  from assms [OF this] s show "within tx us' t s'" by (auto simp: within_def)
qed

lemma does_log [steps]:
  "does (within tx us t) (on_current (\<lambda>m tx. logInsert m tx tid rid b)) (\<lambda>_. within tx us t)"
  "does (within tx us t) (on_current (\<lambda>m tx. logDelete m tx tid rid b)) (\<lambda>_. within tx us t)"
  "does (within tx us t) (on_current (\<lambda>m tx. registerUndo m tx u)) (\<lambda>_. within tx (us @ [u]) t)"
  by (rule does_within, erule log_steps)+

lemma does_versions [steps]:
  "does (within tx us t) (on_versions f) (\<lambda>_. within tx us t)"
  "does (within tx us t) (only_if b (on_versions f)) (\<lambda>_. within tx us t)"
  by (auto intro!: doesI simp: within_def only_if_def on_versions_runs store_steps split: if_splits)

lemma does_tables: "does (within tx us t) (on_tables f) (\<lambda>y s. y = snd (f t) \<and> within tx us (fst (f t)) s)"
  by (auto intro!: doesI simp: within_def store_steps)

lemma in_txn_runs: "in_transaction s us \<Longrightarrow> in_txn m s = m s"
  using in_transaction_active by (simp add: in_txn_def only_if_def)

lemma does_in_txn [steps]: "does (within tx us t) m Q \<Longrightarrow> does (within tx us t) (in_txn m) Q"
  using in_txn_runs by (fastforce simp: does_def within_def)

lemma does_with: "(y = c \<Longrightarrow> does P m Q) \<Longrightarrow> does (\<lambda>s. y = c \<and> P s) m Q"
  by (auto simp: does_def)

section \<open>The changes and their closures\<close>

lemma changes_do:
  "does (within tx us t) (store_row tid sch [] r)
     (\<lambda>_. within tx (us @ [undo_insert (snd (insertTuple t tid (serialize r sch))) []]) (fst (insertTuple t tid (serialize r sch))))"
  "does (within tx us t) (erase_row staged tid sch [] old rid)
     (\<lambda>_. within tx (us @ [undo_delete tid (serialize old sch) []]) (fst (eraseTuple t rid)))"
  "does (within tx us t) (replace_row staged tid sch [] old new rid)
     (\<lambda>_. within tx (us @ [undo_update tid (snd (updateTuple t tid rid (serialize new sch))) (serialize old sch) [] []])
       (fst (updateTuple t tid rid (serialize new sch))))"
proof -
  show "does (within tx us t) (store_row tid sch [] r)
     (\<lambda>_. within tx (us @ [undo_insert (snd (insertTuple t tid (serialize r sch))) []]) (fst (insertTuple t tid (serialize r sch))))"
    unfolding store_row_def Let_def no_keys bind_simps
    by (rule does_bind, rule does_tables, rule does_with, hypsubst) (rule does_bind does_with steps)+
  show "does (within tx us t) (erase_row staged tid sch [] old rid)
     (\<lambda>_. within tx (us @ [undo_delete tid (serialize old sch) []]) (fst (eraseTuple t rid)))"
    unfolding erase_row_def Let_def no_keys bind_simps
    by (rule does_bind does_tables does_with steps)+
  show "does (within tx us t) (replace_row staged tid sch [] old new rid)
     (\<lambda>_. within tx (us @ [undo_update tid (snd (updateTuple t tid rid (serialize new sch))) (serialize old sch) [] []])
       (fst (updateTuple t tid rid (serialize new sch))))"
    unfolding replace_row_def Let_def no_keys bind_simps
    by (rule does_bind, rule does_tables, rule does_with, hypsubst) (rule does_bind does_with steps)+
qed

lemma run_changes:
  "row_changes ops s s' \<Longrightarrow> within tx vs t s \<Longrightarrow>
    \<exists>us. within tx (vs @ us) (fst (heap.run_ops t ops)) s' \<and> list_all2 lifts us (snd (heap.run_ops t ops))"
proof (induction arbitrary: vs t rule: row_changes.induct)
  case (unchanged s)
  then show ?case by (intro exI [of _ "[]"]) simp
next
  case (stored tid sch r s s1 ops s2)
  obtain us where "within tx ((vs @ [undo_insert (snd (insertTuple t tid (serialize r sch))) []]) @ us)
        (fst (heap.run_ops (fst (insertTuple t tid (serialize r sch))) ops)) s2"
      "list_all2 lifts us (snd (heap.run_ops (fst (insertTuple t tid (serialize r sch))) ops))"
    using stored.IH [OF doesD [OF changes_do(1) stored.prems stored.hyps(1)]] by blast
  then show ?case using lifts_undo(1)
    by (intro exI [of _ "undo_insert (snd (insertTuple t tid (serialize r sch))) [] # us"]) (simp add: case_prod_beta)
next
  case (erased staged tid sch old rid s s1 ops s2)
  obtain us where "within tx ((vs @ [undo_delete tid (serialize old sch) []]) @ us)
        (fst (heap.run_ops (fst (eraseTuple t rid)) ops)) s2"
      "list_all2 lifts us (snd (heap.run_ops (fst (eraseTuple t rid)) ops))"
    using erased.IH [OF doesD [OF changes_do(2) erased.prems erased.hyps(1)]] by blast
  then show ?case using lifts_undo(2)
    by (intro exI [of _ "undo_delete tid (serialize old sch) [] # us"]) (simp add: case_prod_beta)
next
  case (replaced staged tid sch old new rid s s1 ops s2)
  let ?u = "updateTuple t tid rid (serialize new sch)"
  obtain us where "within tx ((vs @ [undo_update tid (snd ?u) (serialize old sch) [] []]) @ us)
        (fst (heap.run_ops (fst ?u) ops)) s2"
      "list_all2 lifts us (snd (heap.run_ops (fst ?u) ops))"
    using replaced.IH [OF doesD [OF changes_do(3) replaced.prems replaced.hyps(1)]] by blast
  then show ?case using lifts_undo(3)
    by (intro exI [of _ "undo_update tid (snd ?u) (serialize old sch) [] [] # us"]) (simp add: case_prod_beta)
qed

section \<open>START and UNDO\<close>

lemma start_runs:
  assumes "txn_state_ok s" "run_statement n (TransactionStatement TxBegin) s = Some (s', Inr (message_result ''START''))"
  shows "within (en_current s') [] (st_tables (en_store s)) s'"
proof -
  have "en_txns s \<noteq> None" "en_current s = 0"
    using assms(2) by (auto simp: run_transaction_def message_result_def split: if_splits)
  then obtain m where m: "en_txns s = Some m" "en_current s = 0" by blast
  then have "nextTxnId m > 0" "active m = Map.empty"
    using assms(1) by (simp_all add: txn_state_ok_def txn_part_def)
  then show ?thesis
    using assms(2) m by (auto simp: run_transaction_def begin_txn_def txn_begin_def on_versions_runs act_bind_def within_def
      in_transaction_def Let_def)
qed

lemma undo_runs:
  assumes "within tx us t s" "list_all2 lifts us hs"
  shows "\<exists>s'. run_statement n (TransactionStatement TxRollback) s = Some (s', Inr (message_result ''UNDO'')) \<and>
    st_tables (en_store s') = heap.undo_all t hs \<and> en_current s' = 0"
  using assms lifts_all [OF assms(2), of "en_store s"]
  by (auto simp: run_transaction_def rollback_txn_def rollback_runs on_versions_runs act_bind_def within_def in_transaction_def)

lemma session_undo:
  assumes "engine_step\<^sup>*\<^sup>* (fresh_engine st cat w lk cores pick) s"
    and "run_statement n (TransactionStatement TxBegin) s = Some (s0, Inr (message_result ''START''))"
    and "row_changes ops s0 s1" "heap.run_ops (st_tables (en_store s)) ops = (t, hs)"
  shows "\<exists>s2. run_statement n (TransactionStatement TxRollback) s1 = Some (s2, Inr (message_result ''UNDO'')) \<and>
    st_tables (en_store s2) = heap.undo_all t hs \<and> en_current s2 = 0"
proof -
  have ok: "txn_state_ok s" using session_state [OF assms(1) fresh_engine_ok] .
  obtain us where "within (en_current s0) us t s1" "list_all2 lifts us hs"
    using run_changes [OF assms(3) start_runs [OF ok assms(2)]] assms(4) by auto
  then show ?thesis by (rule undo_runs)
qed

text \<open>A row that the transaction itself stored and then replaced is still there after UNDO: the closure of
  the replacement stores it again under a new identifier, and that of the insertion erases the old one.\<close>

lemma undo_leaks_stored_row:
  assumes "engine_step\<^sup>*\<^sup>* (fresh_engine st cat w lk cores pick) s" "tm_inv (st_tables (en_store s))"
    and "run_statement n (TransactionStatement TxBegin) s = Some (s0, Inr (message_result ''START''))"
    and "insertTuple (st_tables (en_store s)) tid b = (t1, r)" "storable b" "storable c"
    and "row_changes [RInsert tid b, RUpdate tid r b c] s0 s1"
  shows "\<exists>s2. run_statement n (TransactionStatement TxRollback) s1 = Some (s2, Inr (message_result ''UNDO'')) \<and>
    map_bag (tm_rows (st_tables (en_store s2)) tid) = add_mset b (map_bag (tm_rows (st_tables (en_store s)) tid))"
proof -
  obtain t hs where run: "heap.run_ops (st_tables (en_store s)) [RInsert tid b, RUpdate tid r b c] = (t, hs)" by (metis surj_pair)
  then show ?thesis
    using session_undo [OF assms(1,3,7) run] fun_cong [OF heap.insert_update_leak(2) [OF assms(2,5,6,4) run], of tid]
    by (auto simp: heap.bags_def)
qed

section \<open>Properties\<close>

text \<open>C11: UNDO gives back what START found. In any session whose tables are in order, START, then any
  sequence of rows stored, erased and replaced in tables without an index, by the code of INSERT, DELETE and
  UPDATE, then UNDO: UNDO returns, every table has the rows it had (those the transaction changed perhaps
  under another identifier), every row it did not change is where it was, and the engine is in no
  transaction. Each row that is erased or replaced is one that START found, as it was stored, and none is
  taken twice; the rows can be stored (at most 4080 bytes). For a row that the transaction itself stored,
  or changes twice, the property fails (\<open>undo_leaks_stored_row\<close>, \<open>executor_engine.cpp\<close> line 2228).\<close>

theorem rollback_restores:
  assumes "engine_step\<^sup>*\<^sup>* (fresh_engine st cat w lk cores pick) s" "tm_inv (st_tables (en_store s))"
    and "run_statement n (TransactionStatement TxBegin) s = Some (s0, Inr (message_result ''START''))"
    and "row_changes ops s0 s1"
    and "distinct (targets ops)" "\<forall>op\<in>set ops. op_fits op"
    and "\<forall>op\<in>set ops. \<forall>tid r old. op_target op = Some (tid, r, old) \<longrightarrow> tm_rows (st_tables (en_store s)) tid r = Some old"
  shows "\<exists>s2. run_statement n (TransactionStatement TxRollback) s1 = Some (s2, Inr (message_result ''UNDO'')) \<and>
    tm_inv (st_tables (en_store s2)) \<and>
    (\<forall>tid. map_bag (tm_rows (st_tables (en_store s2)) tid) = map_bag (tm_rows (st_tables (en_store s)) tid)) \<and>
    (\<forall>tid r b. tm_rows (st_tables (en_store s)) tid r = Some b \<and> (tid, r) \<notin> set (targets ops) \<longrightarrow>
       tm_rows (st_tables (en_store s2)) tid r = Some b) \<and> en_current s2 = 0"
proof -
  let ?t = "st_tables (en_store s)"
  obtain t hs where run: "heap.run_ops ?t ops = (t, hs)" by (metis surj_pair)
  have "heap.ops_ok ?t ops" using assms(5-7) by (simp add: heap.ops_ok_def)
  from heap.undo_run [OF assms(2) this run] session_undo [OF assms(1,3,4) run] show ?thesis
    by (metis heap.bags_def)
qed

text \<open>A table with the row 7, which the transaction erases after it has stored a row 5.\<close>

lemma demo_change:
  "\<exists>s1. store_row 1 [DInt] [] [VInt 5] s = Some (s1, Inr ()) \<and> map_option tx_locks (en_txns s1) = Some None"
  "\<exists>s1. erase_row True 1 [DInt] [] [VInt 7] rid s = Some (s1, Inr ()) \<and> map_option tx_locks (en_txns s1) = Some None"
  if "map_option tx_locks (en_txns s) = Some None"
  using that by (auto simp: store_row_def erase_row_def no_keys act_bind_def on_tables_def on_versions_runs in_txn_def only_if_def
    lockOrThrow_def lockExclusive_def lock_with_def on_current_def on_txns_def put_tables_def logInsert_def logDelete_def Let_def
    split: prod.split)

theorem rollback_restores_witness:
  "\<exists>t r s0 s1 s2. insertTuple empty_tables 1 (serialize [VInt 7] [DInt]) = (t, r) \<and>
     run_statement 0 (TransactionStatement TxBegin)
       (fresh_engine (demo_store\<lparr>st_tables := t\<rparr>) empty_catalog None None 1 queue) = Some (s0, Inr (message_result ''START'')) \<and>
     row_changes [RInsert 1 (serialize [VInt 5] [DInt]), RDelete 1 r (serialize [VInt 7] [DInt])] s0 s1 \<and>
     run_statement 0 (TransactionStatement TxRollback) s1 = Some (s2, Inr (message_result ''UNDO'')) \<and>
     map_bag (tm_rows (st_tables (en_store s2)) 1) = {#serialize [VInt 7] [DInt]#}"
proof -
  let ?b = "serialize [VInt 7] [DInt]" and ?c = "serialize [VInt 5] [DInt]"
  have short: "storable ?b" "storable ?c" by (simp_all add: storable_def serialize_def null_bitmap_def set_null_bit_def Let_def at_or_null_def)
  obtain t r where i: "insertTuple empty_tables 1 ?b = (t, r)" by (metis surj_pair)
  have p: "tm_inv t" "tm_rows t 1 = Map.empty(r \<mapsto> ?b)"
    using heap.put_law [OF empty_tables_inv(1) short(1) i] by (simp_all add: empty_tables_inv(2))
  define s where "s = fresh_engine (demo_store\<lparr>st_tables := t\<rparr>) empty_catalog None None 1 queue"
  obtain s0 where start: "run_statement 0 (TransactionStatement TxBegin) s = Some (s0, Inr (message_result ''START''))"
    and l0: "map_option tx_locks (en_txns s0) = Some None"
    by (auto simp: s_def fresh_engine_def run_transaction_def begin_txn_def txn_begin_def txn_open_def on_versions_runs
      act_bind_def write_log_def Let_def)
  obtain sa where a: "store_row 1 [DInt] [] [VInt 5] s0 = Some (sa, Inr ())" "map_option tx_locks (en_txns sa) = Some None"
    using demo_change(1) [OF l0] by blast
  obtain s1 where b: "erase_row True 1 [DInt] [] [VInt 7] r sa = Some (s1, Inr ())"
    using demo_change(2) [OF a(2)] by blast
  have ch: "row_changes [RInsert 1 ?c, RDelete 1 r ?b] s0 s1"
    by (rule stored [OF a(1) erased [OF b unchanged]])
  have t: "st_tables (en_store s) = t" by (simp add: s_def fresh_engine_def)
  have run: "engine_step\<^sup>*\<^sup>* (fresh_engine (demo_store\<lparr>st_tables := t\<rparr>) empty_catalog None None 1 queue) s"
    by (simp add: s_def)
  obtain s2 where "run_statement 0 (TransactionStatement TxRollback) s1 = Some (s2, Inr (message_result ''UNDO''))"
    "\<forall>tid. map_bag (tm_rows (st_tables (en_store s2)) tid) = map_bag (tm_rows t tid)"
    using rollback_restores [OF run _ start ch] p short
    by (auto simp: t targets_Cons targets_def map_filter_simps)
  moreover have "map_bag (tm_rows t 1) = {#?b#}" by (simp add: p(2) map_bag_def)
  ultimately show ?thesis using i start ch by (auto simp: s_def)
qed

end
