(* ===== verification/Spec2Isabelle.thy ===== *)
theory Spec2Isabelle
  imports Prelude Bags Page Disk BufferPool TableManager Numerals Float64 Values Tuples Wal Locks
    Txn Recovery VersionStore VersionFile Tokens Lexer Ast Cursor Parser ParserTotal ExprText ExprParse RoundTrip
    ExprEval Like Catalog Analyzer Frames Analysis Typing Rewrite
    Bloom TreeNode DiskTree BTree TreeProof TreeInsert TreeOps Indexes
    Optimizer Executor RowKeys Vectorized ColumnStore Query Window
    EngineState Select Constraints Dml Statements EngineFrame RowChanges
begin

text \<open>
  A verification library of Relite, a relational database in C++. Paths are relative to
  \<open>src/src/\<close> and \<open>src/include/\<close>. A statement is a text that the front end turns into a tree and
  checks against the catalog; the engine runs the tree over the storage, which holds tables,
  indexes, versions and columns over one buffer pool and one file; a transaction manager logs and
  undoes what a transaction changes.

  Shared. \<open>Prelude\<close> holds the generic lemmas on lists, maps and words and \<open>Bags\<close> those on multisets
  that the components use; \<open>Numerals\<close> the decimal texts of integers.

  Storage, from the bottom. \<open>Page\<close> is the slotted page of \<open>backend/page.cpp\<close>, a list of 4096
  bytes. \<open>Disk\<close> is the database file of \<open>backend/disk_manager.cpp\<close>, a list of pages. \<open>BufferPool\<close>
  is \<open>backend/buffer_pool.cpp\<close> over it, with the guards of \<open>page_guard.hpp\<close>, and
  \<open>TableManager\<close> the heap files of \<open>vm/table_manager.cpp\<close> over the pool. Each has an invariant
  that its operations preserve and an abstraction: a page is a map from slots to records, a pool
  the file it stands for, the tables a map from record identifiers to records. The locales between
  them state what one relies on of the next, and are interpreted on the model's own definitions.

  Data. \<open>Float64\<close> is binary64 arithmetic (the rounding, the comparisons, the text form), \<open>Values\<close>
  the tagged union of \<open>vm/value.cpp\<close> with its orders, \<open>Tuples\<close> the row format of \<open>vm/tuple.cpp\<close>.

  Transactions. \<open>Wal\<close> is the log file of \<open>txn/wal.cpp\<close>, \<open>Locks\<close> the lock table of
  \<open>txn/lock_manager.cpp\<close>, \<open>Txn\<close> the transaction manager, \<open>Recovery\<close> the replay of the log at
  start up, \<open>VersionStore\<close> the multiversion store of \<open>vm/version_store.cpp\<close> and \<open>VersionFile\<close> its
  text form. The end of a transaction is the list of the states it leads through (\<open>finish_steps\<close>), and
  the log knows how many of its bytes have been forced to disk, so that the order of record, flush and
  release of the locks is part of what is shown. A lock manager step never waits here: a request that
  would block is refused, as it is in the code after the timeout.

  Front end. \<open>Tokens\<close> and \<open>Lexer\<close> are \<open>frontend/lexer.cpp\<close>, \<open>Ast\<close> the trees of
  \<open>frontend/ast.hpp\<close>, \<open>Cursor\<close> and \<open>Parser\<close> the recursive descent of \<open>frontend/parser.cpp\<close>. The
  parser recurses on fuel: a comma list and a repeated clause take the number of tokens left plus
  one, the grammar of expressions and queries the number of tokens; \<open>ParserTotal\<close> shows that this
  is always enough. \<open>ExprText\<close>, \<open>ExprParse\<close> and \<open>RoundTrip\<close> show that the text that the catalog keeps
  of a CHECK expression parses back to the expression.

  Meaning of expressions. \<open>ExprEval\<close> is \<open>vm/expression_eval.cpp\<close> (none is a trap of the
  machine, such as the division of the least integer by -1), \<open>Like\<close> the matcher of patterns as a
  loop with its termination, \<open>Catalog\<close> the schemas of \<open>frontend/catalog.cpp\<close>, \<open>Analyzer\<close>,
  \<open>Frames\<close> and \<open>Analysis\<close> the checks and annotations of \<open>frontend/semantic_analyzer.cpp\<close>,
  \<open>Typing\<close> the soundness of the types it assigns, \<open>Rewrite\<close> the constant folding of
  \<open>vm/rewrite.cpp\<close>.

  Indexes. \<open>Bloom\<close> is the filter of \<open>index/bloom_filter.cpp\<close>; \<open>TreeNode\<close> and \<open>DiskTree\<close> are the nodes
  and the operations of \<open>index/disk_bplus_tree.cpp\<close> over the buffer pool; \<open>BTree\<close> is the abstract
  tree, \<open>TreeProof\<close>, \<open>TreeInsert\<close> and \<open>TreeOps\<close> the refinement between them (for keys of at most 199
  bytes and fewer than 2 to the 31 pages, which is what fits a node and a page number); \<open>Indexes\<close> is
  \<open>index/index_manager.cpp\<close>. Walks over the nodes are partial functions that are shown to return.

  Queries over rows. \<open>Optimizer\<close> is the cost model, the external sort and the merge join of
  \<open>vm/optimizer.cpp\<close> (a run file gives back what was written to it; which of several equal rows a
  priority queue returns is a parameter), \<open>Executor\<close> the pull operators of \<open>vm/executor.cpp\<close>,
  \<open>RowKeys\<close> the texts by which rows are compared, \<open>Vectorized\<close> and \<open>ColumnStore\<close> the operators of
  \<open>vm/vectorized.cpp\<close> and \<open>vm/column_store.cpp\<close> (the parallel aggregate computes the threads'
  partial results one after the other, as they share nothing), \<open>Query\<close> and \<open>Window\<close> what
  \<open>vm/executor_engine.cpp\<close> computes from the rows it has gathered.

  The engine. \<open>EngineState\<close> is the state of \<open>vm/executor_engine.cpp\<close> over \<open>vm/storage_engine.hpp\<close>
  and the actions its methods are made of: an action returns the new state with a result or the
  text of an exception, or nothing where the program has no defined result. The indexes borrow the
  one pool for each of their operations. \<open>Select\<close>, \<open>Constraints\<close>, \<open>Dml\<close> and \<open>Statements\<close> are the
  statements. \<open>run_select\<close> and the referential actions take fuel, which bounds the depth of
  subqueries, views and cascades. A statement that throws leaves the changes it has made, except
  that the results of subqueries which a thrown query had already stored in a tree are not kept.
  The iteration order of the hash map of indexes and the number of processors are parameters.
  \<open>EngineFrame\<close> shows which parts of the state the statements leave alone (its locales ask of a part
  only what it is insensitive to), and from that that a session is always in the one transaction that is
  active or in none; \<open>RowChanges\<close> that UNDO gives back the rows that START found.

  Conditions. Where a property holds only under a condition its text names it, with the lemma that shows
  the case left out: \<open>settled\<close> and \<open>steady\<close> expressions (\<open>Typing\<close>, \<open>Rewrite\<close>), columns of one class
  in comparisons by zone and by merge join (\<open>pred_classed\<close>, \<open>in_class\<close>), cells without FLOAT and without
  the separator of the row keys in DISTINCT, GROUP BY, set operations and windows (\<open>plain_row\<close>), and, for
  UNDO, tables without an index whose rows are changed at most once and were there at START.

  Numbers. Values are 64-bit words and the fields of pages, records and files have their widths. The
  counters that the code keeps in a machine integer are unbounded here: log sequence numbers and
  version numbers, which wrap at 2 to the 64, table identifiers and page numbers, which are \<open>int\<close>, and
  the size of a record as an \<open>int\<close> in \<open>page_insert\<close>, \<open>redoSet\<close> and \<open>insert_scan\<close>. The model is the
  code for a database below these limits: records shorter than 2 to the 31 bytes, fewer than 2 to the 31
  tables and pages, fewer than 2 to the 64 log records and versions. Where a property writes such a number
  to a field of its width, the range is a hypothesis (\<open>counters_ok\<close> for transactions and the log). The
  code repeats the loop over a block in the serial and in the parallel aggregate; the model has it once
  (\<open>accumulateRow\<close>, \<open>finalizePartial\<close>).

  Not modelled: the command loop, the help text and the reading and writing of the meta file in
  \<open>frontend/db.cpp\<close> and \<open>backend/durability.cpp\<close> (input and output of the process and calls of the
  operating system), the in-memory B+ tree of \<open>index/bplus_tree.cpp\<close>, which nothing but a test uses,
  the tests, the tools and the benchmark.
\<close>

end
